(* ===== verification/Prelude.thy ===== *)
theory Prelude
  imports Main "HOL-Library.Word" "HOL-Library.Monad_Syntax"
begin

text \<open>
  Shared vocabulary of the development: the machine types of the C code, raw memory as a
  list of bytes with checked access, the C string functions the sources call, and the
  little-endian layout of a \<open>uint32_t\<close>.

  A result of type \<open>'a option\<close> is used in one way throughout: \<open>None\<close> stands for an
  execution that has no defined result in C (a read or write outside the allocated block,
  a string that is not terminated inside it, a lock taken twice by one thread, or a loop
  that never ends).  A theorem whose conclusion is \<open>f x = Some y\<close> therefore states
  memory safety and termination besides the value.
\<close>

unbundle bit_operations_syntax

named_theorems mem_simps \<open>reads and writes of a block split at the accessed address\<close>
named_theorems off_simps \<open>32-bit offsets that come from small natural numbers\<close>

type_synonym byte = "8 word"
type_synonym u32 = "32 word"
type_synonym cstring = "byte list"

lemma restrict_all [simp]: "m |` UNIV = m"
  by (simp add: restrict_map_def)

subsection \<open>32-bit offsets\<close>

lemma unat_of_nat32 [off_simps]: "n < 4294967296 \<Longrightarrow> unat (of_nat n :: u32) = n"
  by (simp add: unat_of_nat take_bit_eq_mod)

lemma of_nat32_less [off_simps]:
  "m < 4294967296 \<Longrightarrow> n < 4294967296 \<Longrightarrow> (of_nat m :: u32) < of_nat n \<longleftrightarrow> m < n"
  by (simp add: word_less_nat_alt off_simps)

lemma of_nat32_le [off_simps]:
  "m < 4294967296 \<Longrightarrow> n < 4294967296 \<Longrightarrow> (of_nat m :: u32) \<le> of_nat n \<longleftrightarrow> m \<le> n"
  by (simp add: word_le_nat_alt off_simps)

lemma of_nat32_eq [off_simps]:
  "m < 4294967296 \<Longrightarrow> n < 4294967296 \<Longrightarrow> (of_nat m :: u32) = of_nat n \<longleftrightarrow> m = n"
  by (metis unat_of_nat32)

lemma of_nat32_eq_0 [off_simps]:
  "n < 4294967296 \<Longrightarrow> (of_nat n :: u32) = 0 \<longleftrightarrow> n = 0"
  using of_nat32_eq[of n 0] by simp

lemma of_nat32_pos [off_simps]:
  "n < 4294967296 \<Longrightarrow> 0 < (of_nat n :: u32) \<longleftrightarrow> 0 < n"
  using of_nat32_less[of 0 n] by simp

lemma of_nat32_diff: "m \<le> n \<Longrightarrow> (of_nat n :: u32) - of_nat m = of_nat (n - m)"
  by (simp add: of_nat_diff)

lemma u32_of_nat_unat [simp]: "(of_nat (unat w) :: u32) = w"
  by simp

subsection \<open>Little-endian layout of a \<open>uint32_t\<close>\<close>

definition le32 :: "u32 \<Rightarrow> byte list" where
  "le32 w = [ucast w, ucast (drop_bit 8 w), ucast (drop_bit 16 w), ucast (drop_bit 24 w)]"

definition unle32 :: "byte \<Rightarrow> byte \<Rightarrow> byte \<Rightarrow> byte \<Rightarrow> u32" where
  "unle32 a b c d = ucast a OR push_bit 8 (ucast b) OR push_bit 16 (ucast c)
     OR push_bit 24 (ucast d)"

lemma length_le32 [simp]: "length (le32 w) = 4"
  by (simp add: le32_def)

lemma unle32_le32:
  "unle32 (ucast w) (ucast (drop_bit 8 w)) (ucast (drop_bit 16 w)) (ucast (drop_bit 24 w)) = w"
proof (rule bit_word_eqI)
  fix n assume "n < LENGTH(32)"
  then have n: "n < 32" by simp
  consider "n < 8" | "8 \<le> n" "n < 16" | "16 \<le> n" "n < 24" | "24 \<le> n" "n < 32"
    using n by linarith
  then show "bit (unle32 (ucast w) (ucast (drop_bit 8 w)) (ucast (drop_bit 16 w))
      (ucast (drop_bit 24 w))) n = bit w n"
    by cases (auto simp: unle32_def bit_simps)
qed

subsection \<open>Checked access to a block of memory\<close>

definition rd8 :: "byte list \<Rightarrow> nat \<Rightarrow> byte option" where
  "rd8 m a = (if a < length m then Some (m ! a) else None)"

definition wr8 :: "byte list \<Rightarrow> nat \<Rightarrow> byte \<Rightarrow> byte list option" where
  "wr8 m a v = (if a < length m then Some (m[a := v]) else None)"

definition put_bytes :: "byte list \<Rightarrow> nat \<Rightarrow> byte list \<Rightarrow> byte list option" where
  "put_bytes m a bs = (if a + length bs \<le> length m
     then Some (take a m @ bs @ drop (a + length bs) m) else None)"

definition get_bytes :: "byte list \<Rightarrow> nat \<Rightarrow> nat \<Rightarrow> byte list option" where
  "get_bytes m a n = (if a + n \<le> length m then Some (take n (drop a m)) else None)"

definition rd32 :: "byte list \<Rightarrow> nat \<Rightarrow> u32 option" where
  "rd32 m a = (if a + 4 \<le> length m
     then Some (unle32 (m ! a) (m ! (a + 1)) (m ! (a + 2)) (m ! (a + 3))) else None)"

definition wr32 :: "byte list \<Rightarrow> nat \<Rightarrow> u32 \<Rightarrow> byte list option" where
  "wr32 m a v = put_bytes m a (le32 v)"

definition memmove :: "byte list \<Rightarrow> nat \<Rightarrow> nat \<Rightarrow> nat \<Rightarrow> byte list option" where
  "memmove m dst src n = do { bs \<leftarrow> get_bytes m src n; put_bytes m dst bs }"

text \<open>Access at an address where the block is split.\<close>

lemma rd8_split [mem_simps]: "length xs = a \<Longrightarrow> rd8 (xs @ y # zs) a = Some y"
  by (auto simp: rd8_def)

lemma wr8_split [mem_simps]: "length xs = a \<Longrightarrow> wr8 (xs @ y # zs) a v = Some (xs @ v # zs)"
  by (auto simp: wr8_def)

lemma put_bytes_split [mem_simps]:
  "length xs = a \<Longrightarrow> length ys = length bs \<Longrightarrow> put_bytes (xs @ ys @ zs) a bs = Some (xs @ bs @ zs)"
  by (auto simp: put_bytes_def)

lemma get_bytes_split [mem_simps]:
  "length xs = a \<Longrightarrow> length ys = n \<Longrightarrow> get_bytes (xs @ ys @ zs) a n = Some ys"
  by (auto simp: get_bytes_def)

lemma wr32_split [mem_simps]:
  "length xs = a \<Longrightarrow> length ys = 4 \<Longrightarrow> wr32 (xs @ ys @ zs) a v = Some (xs @ le32 v @ zs)"
  by (simp add: wr32_def mem_simps)

lemma rd32_split [mem_simps]: "length xs = a \<Longrightarrow> rd32 (xs @ le32 v @ zs) a = Some v"
proof -
  assume a: "length xs = a"
  have "rd32 (xs @ le32 v @ zs) a = Some (unle32 (le32 v ! 0) (le32 v ! 1) (le32 v ! 2) (le32 v ! 3))"
    using a by (auto simp: rd32_def nth_append le32_def)
  then show ?thesis by (simp add: le32_def unle32_le32)
qed

lemma length_wr8 [simp]: "wr8 m a v = Some m' \<Longrightarrow> length m' = length m"
  by (auto simp: wr8_def split: if_splits)

lemma length_put_bytes [simp]: "put_bytes m a bs = Some m' \<Longrightarrow> length m' = length m"
  by (auto simp: put_bytes_def split: if_splits)

lemma length_wr32 [simp]: "wr32 m a v = Some m' \<Longrightarrow> length m' = length m"
  by (auto simp: wr32_def)

lemma length_memmove [simp]: "memmove m d s n = Some m' \<Longrightarrow> length m' = length m"
  by (auto simp: memmove_def Option.bind_eq_Some_conv)

text \<open>Opening and closing a gap: the two block moves of the buffer.\<close>

lemma memmove_up:
  assumes "length xs = a" "length ys = n" "length zs = k"
  shows "\<exists>gap. length gap = k \<and> memmove (xs @ ys @ zs @ ws) (a + k) a n = Some (xs @ gap @ ys @ ws)"
proof -
  have "memmove (xs @ ys @ zs @ ws) (a + k) a n
      = put_bytes (xs @ (ys @ zs) @ ws) (a + k) ys"
    using assms by (simp add: memmove_def mem_simps)
  also have "\<dots> = put_bytes (xs @ (take k (ys @ zs) @ drop k (ys @ zs)) @ ws) (a + k) ys"
    by (simp only: append_take_drop_id)
  also have "\<dots> = put_bytes ((xs @ take k (ys @ zs)) @ drop k (ys @ zs) @ ws) (a + k) ys"
    by simp
  also have "\<dots> = Some ((xs @ take k (ys @ zs)) @ ys @ ws)"
    using assms by (intro put_bytes_split) simp_all
  finally have "memmove (xs @ ys @ zs @ ws) (a + k) a n = Some (xs @ take k (ys @ zs) @ ys @ ws)"
    by simp
  then show ?thesis using assms by (intro exI[of _ "take k (ys @ zs)"]) simp
qed

lemma memmove_down:
  assumes "length xs = a" "length ys = k" "length zs = n"
  shows "\<exists>junk. length junk = k \<and> memmove (xs @ ys @ zs @ ws) a (a + k) n = Some (xs @ zs @ junk @ ws)"
proof -
  have "memmove (xs @ ys @ zs @ ws) a (a + k) n
      = put_bytes (xs @ (ys @ zs) @ ws) a zs"
    using assms get_bytes_split[of "xs @ ys" "a + k" zs n ws] by (simp add: memmove_def)
  also have "\<dots> = put_bytes (xs @ (take n (ys @ zs) @ drop n (ys @ zs)) @ ws) a zs"
    by (simp only: append_take_drop_id)
  also have "\<dots> = put_bytes (xs @ take n (ys @ zs) @ (drop n (ys @ zs) @ ws)) a zs"
    by simp
  also have "\<dots> = Some (xs @ zs @ (drop n (ys @ zs) @ ws))"
    using assms by (intro put_bytes_split) simp_all
  finally show ?thesis using assms by (intro exI[of _ "drop n (ys @ zs)"]) simp
qed

subsection \<open>C strings\<close>

text \<open>
  A C string argument of a function is the list of its bytes before the terminating NUL, so
  \<open>strlen\<close> of an argument is \<open>length\<close>.  A string inside a block is read by \<open>cstr_at\<close>, which
  fails when no NUL follows inside the block.
\<close>

fun cstr_of :: "byte list \<Rightarrow> cstring option" where
  "cstr_of [] = None"
| "cstr_of (c # cs) = (if c = 0 then Some [] else map_option ((#) c) (cstr_of cs))"

definition cstr_at :: "byte list \<Rightarrow> nat \<Rightarrow> cstring option" where
  "cstr_at m a = (if a \<le> length m then cstr_of (drop a m) else None)"

text \<open>ASCII letters in lower case.\<close>

definition ascii_lower :: "byte \<Rightarrow> byte" where
  "ascii_lower c = (if 65 \<le> c \<and> c \<le> 90 then c + 32 else c)"

definition is_cstr :: "cstring \<Rightarrow> bool" where
  "is_cstr s \<longleftrightarrow> 0 \<notin> set s"

lemma cstr_of_split: "is_cstr s \<Longrightarrow> cstr_of (s @ 0 # zs) = Some s"
  by (induction s) (auto simp: is_cstr_def)

lemma cstr_at_split [mem_simps]:
  "length xs = a \<Longrightarrow> is_cstr s \<Longrightarrow> cstr_at (xs @ s @ 0 # zs) a = Some s"
  by (auto simp: cstr_at_def cstr_of_split)

text \<open>\<open>s[i]\<close> for \<open>i\<close> up to and including the terminator.\<close>

definition cchar :: "cstring \<Rightarrow> nat \<Rightarrow> byte" where
  "cchar s i = (if i < length s then s ! i else 0)"

text \<open>\<open>strstr\<close>: the index of the first occurrence, \<open>None\<close> for a null result.\<close>

fun strstr :: "cstring \<Rightarrow> cstring \<Rightarrow> nat option" where
  "strstr [] needle = (if needle = [] then Some 0 else None)"
| "strstr (c # cs) needle =
     (if take (length needle) (c # cs) = needle then Some 0
      else map_option Suc (strstr cs needle))"

text \<open>\<open>strstr(p, s) == p\<close>, the idiom of the sources for "\<open>s\<close> is a prefix of \<open>p\<close>".\<close>

lemma strstr_prefix: "strstr p s = Some 0 \<longleftrightarrow> take (length s) p = s"
  by (cases p) auto

text \<open>\<open>strrchr\<close>: the index of the last occurrence.\<close>

fun strrchr :: "cstring \<Rightarrow> byte \<Rightarrow> nat option" where
  "strrchr [] c = None"
| "strrchr (x # xs) c =
     (case strrchr xs c of Some i \<Rightarrow> Some (Suc i)
      | None \<Rightarrow> if x = c then Some 0 else None)"

lemma strrchr_None: "strrchr s c = None \<longleftrightarrow> c \<notin> set s"
  by (induction s) (auto split: option.splits)

lemma strrchr_Some:
  "strrchr s c = Some i \<longleftrightarrow> (\<exists>u v. s = u @ c # v \<and> c \<notin> set v \<and> length u = i)"
proof (induction s arbitrary: i)
  case Nil
  then show ?case by simp
next
  case (Cons x xs)
  show ?case
  proof (cases "strrchr xs c")
    case None
    then have c: "c \<notin> set xs" by (simp add: strrchr_None)
    then show ?thesis using None by (auto simp: Cons_eq_append_conv)
  next
    case (Some j)
    then obtain u v where uv: "xs = u @ c # v" "c \<notin> set v" "length u = j"
      using Cons.IH by blast
    show ?thesis
    proof
      assume "strrchr (x # xs) c = Some i"
      with Some have "i = Suc j" by simp
      with uv show "\<exists>u v. x # xs = u @ c # v \<and> c \<notin> set v \<and> length u = i"
        by (intro exI[of _ "x # u"] exI[of _ v]) simp
    next
      assume "\<exists>u v. x # xs = u @ c # v \<and> c \<notin> set v \<and> length u = i"
      then obtain u' v' where w: "x # xs = u' @ c # v'" "c \<notin> set v'" "length u' = i" by blast
      show "strrchr (x # xs) c = Some i"
      proof (cases u')
        case Nil
        with w uv show ?thesis by auto
      next
        case (Cons y ys)
        with w have "strrchr xs c = Some (length ys)"
          using \<open>\<And>i. (strrchr xs c = Some i) = (\<exists>u v. xs = u @ c # v \<and> c \<notin> set v \<and> length u = i)\<close>
          by auto
        with Cons w Some show ?thesis by simp
      qed
    qed
  qed
qed

text \<open>The byte \<open>'/'\<close>.\<close>

abbreviation (input) slash :: byte where "slash \<equiv> 47"

text \<open>Memory from the C allocator: a block of unspecified content, or a failure.\<close>

type_synonym allocator = "nat \<Rightarrow> byte list option"

definition alloc_ok :: "allocator \<Rightarrow> bool" where
  "alloc_ok al \<longleftrightarrow> (\<forall>n bs. al n = Some bs \<longrightarrow> length bs = n)"

lemma alloc_okD: "alloc_ok al \<Longrightarrow> al n = Some bs \<Longrightarrow> length bs = n"
  by (simp add: alloc_ok_def)

end
