(* ===== verification/Event_Merge.thy ===== *)
theory Event_Merge
  imports Prelude
begin

text \<open>
  The event buffer of the kernel module, \<open>src/src/kernelmod/event_merge.c\<close>: file-system
  events wait in a list for a short time, so that a creation that is undone or a chain of
  renames reaches user space as fewer events.  The events are objects of a slab cache
  (\<open>event.c\<close>); \<open>mem\<close> maps the address of each allocated event to its content, and a result
  \<open>None\<close> is an access to an event that is not allocated or past the end of an array.
  The sending after the lock is released belongs to the same step here: the events that it sends and frees are in no list any
  more, so no other thread has them; unloading, which does not wait for it, has it as steps of its own (\<open>Vfs_Module\<close>).
\<close>

subsection \<open>Events\<close>

datatype vfs_action = ACT_NEW_FILE | ACT_NEW_LINK | ACT_NEW_SYMLINK | ACT_NEW_FOLDER
  | ACT_DEL_FILE | ACT_DEL_FOLDER | ACT_RENAME_FILE | ACT_RENAME_FOLDER
  | ACT_RENAME_FROM_FILE | ACT_RENAME_TO_FILE | ACT_RENAME_FROM_FOLDER | ACT_RENAME_TO_FOLDER
  | ACT_MOUNT | ACT_UNMOUNT

fun act_code :: "vfs_action \<Rightarrow> nat" where
  "act_code ACT_NEW_FILE = 0"
| "act_code ACT_NEW_LINK = 1"
| "act_code ACT_NEW_SYMLINK = 2"
| "act_code ACT_NEW_FOLDER = 3"
| "act_code ACT_DEL_FILE = 4"
| "act_code ACT_DEL_FOLDER = 5"
| "act_code ACT_RENAME_FILE = 6"
| "act_code ACT_RENAME_FOLDER = 7"
| "act_code ACT_RENAME_FROM_FILE = 8"
| "act_code ACT_RENAME_TO_FILE = 9"
| "act_code ACT_RENAME_FROM_FOLDER = 10"
| "act_code ACT_RENAME_TO_FOLDER = 11"
| "act_code ACT_MOUNT = 12"
| "act_code ACT_UNMOUNT = 13"

text \<open>The C code indexes an array with the code; the model keeps the constructors in its order.\<close>

instantiation vfs_action :: linorder
begin

definition less_eq_vfs_action :: "vfs_action \<Rightarrow> vfs_action \<Rightarrow> bool" where
  "less_eq_vfs_action a b \<longleftrightarrow> act_code a \<le> act_code b"

definition less_vfs_action :: "vfs_action \<Rightarrow> vfs_action \<Rightarrow> bool" where
  "less_vfs_action a b \<longleftrightarrow> act_code a < act_code b"

instance
proof
  fix a b :: vfs_action
  show "a \<le> b \<Longrightarrow> b \<le> a \<Longrightarrow> a = b"
    unfolding less_eq_vfs_action_def by (cases a; cases b) simp_all
qed (auto simp: less_eq_vfs_action_def less_vfs_action_def)

end

text \<open>\<open>struct vfs_event\<close>; \<open>ev_pair\<close> is the pointer to the other half of a rename.\<close>

record vfs_event =
  ev_action :: vfs_action
  ev_cookie :: u32
  ev_dev :: u32
  ev_path :: cstring
  ev_pair :: "nat option"

record merge_state =
  mem :: "nat \<Rightarrow> vfs_event option"
  vfs_events :: "nat list"
  events_number :: int
  quit :: bool
  timer :: bool
  notified :: "vfs_event list"

definition vfs_event_free :: "merge_state \<Rightarrow> nat \<Rightarrow> merge_state option" where
  "vfs_event_free s p = (case mem s p of None \<Rightarrow> None | Some _ \<Rightarrow> Some (s\<lparr>mem := (mem s)(p := None)\<rparr>))"

definition update_event :: "merge_state \<Rightarrow> nat \<Rightarrow> (vfs_event \<Rightarrow> vfs_event) \<Rightarrow> merge_state option" where
  "update_event s p f = (case mem s p of None \<Rightarrow> None | Some e \<Rightarrow> Some (s\<lparr>mem := (mem s)(p \<mapsto> f e)\<rparr>))"

definition REMOVE_ENTRY :: "merge_state \<Rightarrow> nat \<Rightarrow> merge_state option" where
  "REMOVE_ENTRY s p = vfs_event_free
     (s\<lparr>vfs_events := remove1 p (vfs_events s), events_number := events_number s - 1\<rparr>) p"

definition cmp_event_path :: "vfs_event \<Rightarrow> vfs_event \<Rightarrow> bool" where
  "cmp_event_path e1 e2 \<longleftrightarrow> ev_dev e1 \<noteq> ev_dev e2 \<or> ev_path e1 \<noteq> ev_path e2"

subsection \<open>The merge rules\<close>

text \<open>Each rule looks at the entry \<open>p\<close> of the list and the new event \<open>cur\<close>; the Boolean of the
  result is \<open>MERGE_OK\<close>.\<close>

definition retire :: "vfs_action \<Rightarrow> vfs_event \<Rightarrow> vfs_event" where
  "retire a e = e\<lparr>ev_action := a, ev_cookie := 0\<rparr>"

definition merge_new_file :: "merge_state \<Rightarrow> nat \<Rightarrow> nat \<Rightarrow> (bool \<times> merge_state) option" where
  "merge_new_file s p cur = do {
     e \<leftarrow> mem s p;
     c \<leftarrow> mem s cur;
     if ev_action e = ACT_DEL_FILE then
       (if cmp_event_path e c then Some (False, s)
        else do { s \<leftarrow> REMOVE_ENTRY s p; Some (True, s) })
     else if ev_action e = ACT_RENAME_FROM_FILE then
       (if cmp_event_path e c then Some (False, s)
        else do {
          s \<leftarrow> (case ev_pair e of None \<Rightarrow> Some s
                | Some q \<Rightarrow> update_event s q (retire ACT_NEW_FILE));
          s \<leftarrow> REMOVE_ENTRY s p;
          Some (True, s) })
     else Some (False, s) }"

definition merge_del_file :: "merge_state \<Rightarrow> nat \<Rightarrow> nat \<Rightarrow> (bool \<times> merge_state) option" where
  "merge_del_file s p cur = do {
     e \<leftarrow> mem s p;
     c \<leftarrow> mem s cur;
     if ev_action e < ACT_NEW_FOLDER then
       (if cmp_event_path e c then Some (False, s)
        else do { s \<leftarrow> REMOVE_ENTRY s p; Some (True, s) })
     else if ev_action e = ACT_RENAME_TO_FILE then
       (case ev_pair e of None \<Rightarrow> Some (False, s)
        | Some q \<Rightarrow>
          if cmp_event_path e c then Some (False, s)
          else do {
            s \<leftarrow> update_event s q (retire ACT_DEL_FILE);
            s \<leftarrow> REMOVE_ENTRY s p;
            Some (True, s) })
     else Some (False, s) }"

definition merge_rename_from_file :: "merge_state \<Rightarrow> nat \<Rightarrow> nat \<Rightarrow> (bool \<times> merge_state) option" where
  "merge_rename_from_file s p cur = do {
     e \<leftarrow> mem s p;
     c \<leftarrow> mem s cur;
     if ev_action e < ACT_NEW_FOLDER then
       (if cmp_event_path e c then Some (False, s)
        else do { s \<leftarrow> REMOVE_ENTRY s p; Some (True, s) })
     else if ev_action e = ACT_RENAME_TO_FILE then
       (case ev_pair e of None \<Rightarrow> Some (False, s)
        | Some q \<Rightarrow>
          if cmp_event_path e c then Some (False, s)
          else do {
            s \<leftarrow> update_event s q (retire ACT_DEL_FILE);
            s \<leftarrow> REMOVE_ENTRY s p;
            Some (True, s) })
     else Some (False, s) }"

definition merge_rename_to_file :: "merge_state \<Rightarrow> nat \<Rightarrow> nat \<Rightarrow> (bool \<times> merge_state) option" where
  "merge_rename_to_file s p cur = do {
     e \<leftarrow> mem s p;
     c \<leftarrow> mem s cur;
     if ev_action e = ACT_DEL_FILE then
       (case ev_pair c of None \<Rightarrow> Some (False, s)
        | Some q \<Rightarrow>
          if cmp_event_path e c then Some (False, s)
          else do {
            s \<leftarrow> update_event s q (retire ACT_DEL_FILE);
            s \<leftarrow> REMOVE_ENTRY s p;
            Some (True, s) })
     else Some (False, s) }"

definition action_merge_fns ::
  "vfs_action \<Rightarrow> (merge_state \<Rightarrow> nat \<Rightarrow> nat \<Rightarrow> (bool \<times> merge_state) option) option" where
  "action_merge_fns a =
    [Some merge_new_file, Some merge_new_file, Some merge_new_file, None, Some merge_del_file,
     None, None, None, Some merge_rename_from_file, Some merge_rename_to_file, None, None, None, None]
    ! act_code a"

subsection \<open>Sending\<close>

abbreviation (input) MERGE_BUFFER_SIZE :: nat where "MERGE_BUFFER_SIZE \<equiv> 100"
abbreviation (input) DUMP_SIZE :: nat where "DUMP_SIZE \<equiv> 10"

text \<open>The array \<open>events_tosend\<close> has \<open>MERGE_BUFFER_SIZE + 1\<close> elements, cleared to null; the
  consumer runs to the first null element.\<close>

definition MOVE_EVENT :: "merge_state \<Rightarrow> nat \<Rightarrow> nat list \<Rightarrow> (merge_state \<times> nat list) option" where
  "MOVE_EVENT s p tosend =
    (if length tosend < MERGE_BUFFER_SIZE + 1
     then Some (s\<lparr>vfs_events := remove1 p (vfs_events s), events_number := events_number s - 1\<rparr>,
                tosend @ [p])
     else None)"

fun pick_all :: "nat list \<Rightarrow> merge_state \<Rightarrow> nat list \<Rightarrow> (merge_state \<times> nat list) option" where
  "pick_all [] s tosend = Some (s, tosend)"
| "pick_all (p # ps) s tosend = do {
     (s, tosend) \<leftarrow> MOVE_EVENT s p tosend;
     pick_all ps s tosend }"

fun pick_some :: "nat list \<Rightarrow> nat \<Rightarrow> merge_state \<Rightarrow> nat list \<Rightarrow> (merge_state \<times> nat list) option" where
  "pick_some [] i s tosend = Some (s, tosend)"
| "pick_some (p # ps) i s tosend = do {
     e \<leftarrow> mem s p;
     if ev_action e \<noteq> ACT_RENAME_FROM_FILE \<or> ev_pair e \<noteq> None then do {
       (s, tosend) \<leftarrow> MOVE_EVENT s p tosend;
       s \<leftarrow> (if ev_action e = ACT_RENAME_FROM_FILE
             then (case ev_pair e of None \<Rightarrow> None
                   | Some q \<Rightarrow> update_event s q (\<lambda>e'. e'\<lparr>ev_pair := None\<rparr>))
             else Some s);
       if i + 1 \<ge> DUMP_SIZE then Some (s, tosend) else pick_some ps (i + 1) s tosend }
     else pick_some ps i s tosend }"

definition pick_events :: "merge_state \<Rightarrow> (merge_state \<times> nat list) option" where
  "pick_events s = (if quit s then pick_all (vfs_events s) s [] else pick_some (vfs_events s) 0 s [])"

fun notify_loop :: "nat list \<Rightarrow> merge_state \<Rightarrow> merge_state option" where
  "notify_loop [] s = Some s"
| "notify_loop (p # ps) s = do {
     e \<leftarrow> mem s p;
     s \<leftarrow> vfs_event_free (s\<lparr>notified := notified s @ [e]\<rparr>) p;
     notify_loop ps s }"

definition notify_events :: "merge_state \<Rightarrow> nat list \<Rightarrow> merge_state option" where
  "notify_events s tosend =
    (if length tosend > MERGE_BUFFER_SIZE then None
     else do {
       s \<leftarrow> notify_loop tosend s;
       Some (if tosend \<noteq> [] \<and> events_number s \<ge> 1 then s\<lparr>timer := True\<rparr> else s) })"

text \<open>The timer fires once, and only while it is armed.\<close>

definition event_timeout_notify_callback :: "merge_state \<Rightarrow> merge_state option" where
  "event_timeout_notify_callback s = do {
     (s, tosend) \<leftarrow> pick_events (s\<lparr>timer := False\<rparr>);
     notify_events s tosend }"

definition check_events :: "merge_state \<Rightarrow> (merge_state \<times> nat list) option" where
  "check_events s =
    (if events_number s = 0 then Some (s\<lparr>timer := False\<rparr>, [])
     else if events_number s = 1 then Some (s\<lparr>timer := True\<rparr>, [])
     else if events_number s \<ge> int MERGE_BUFFER_SIZE then pick_events s
     else Some (s, []))"

subsection \<open>The entry point\<close>

fun find_cookie :: "merge_state \<Rightarrow> nat list \<Rightarrow> u32 \<Rightarrow> nat option option" where
  "find_cookie s [] c = Some None"
| "find_cookie s (p # ps) c = do {
     e \<leftarrow> mem s p;
     if ev_cookie e = c then Some (Some p) else find_cookie s ps c }"

definition pair_rename :: "merge_state \<Rightarrow> nat \<Rightarrow> merge_state option" where
  "pair_rename s event = do {
     c \<leftarrow> mem s event;
     if ev_action c = ACT_RENAME_TO_FILE then do {
       found \<leftarrow> find_cookie s (vfs_events s) (ev_cookie c);
       case found of
         Some p \<Rightarrow> do {
           s \<leftarrow> update_event s p (\<lambda>e. e\<lparr>ev_pair := Some event\<rparr>);
           update_event s event (\<lambda>e. e\<lparr>ev_pair := Some p\<rparr>) }
       | None \<Rightarrow> update_event s event (retire ACT_NEW_FILE) }
     else Some s }"

fun merge_scan :: "(merge_state \<Rightarrow> nat \<Rightarrow> nat \<Rightarrow> (bool \<times> merge_state) option) \<Rightarrow> nat \<Rightarrow>
    nat list \<Rightarrow> merge_state \<Rightarrow> (bool \<times> merge_state) option" where
  "merge_scan f cur [] s = Some (False, s)"
| "merge_scan f cur (p # ps) s = do {
     (ok, s) \<leftarrow> f s p cur;
     if ok then Some (True, s) else merge_scan f cur ps s }"

definition merge_event :: "merge_state \<Rightarrow> nat \<Rightarrow> (bool \<times> merge_state) option" where
  "merge_event s event = do {
     c \<leftarrow> mem s event;
     case action_merge_fns (ev_action c) of
       None \<Rightarrow> Some (False, s)
     | Some f \<Rightarrow> merge_scan f event (rev (vfs_events s)) s }"

definition do_event_merge :: "merge_state \<Rightarrow> nat \<Rightarrow> merge_state option" where
  "do_event_merge s event = do {
     s \<leftarrow> update_event s event (\<lambda>e. e\<lparr>ev_pair := None\<rparr>);
     s \<leftarrow> pair_rename s event;
     (ok, s) \<leftarrow> merge_event s event;
     s \<leftarrow> (if ok then vfs_event_free s event
           else Some (s\<lparr>vfs_events := vfs_events s @ [event], events_number := events_number s + 1\<rparr>));
     (s, tosend) \<leftarrow> check_events s;
     notify_events s tosend }"

end
