(* ===== verification/Event_Safety.thy ===== *)
theory Event_Safety
  imports Event_Merge
begin

text \<open>
  Memory safety of the event buffer.  The two halves of a rename point at each other; the
  invariant \<open>merge_ok\<close> says that these pointers lead to live events of the buffer, that the
  first half comes first, and that the buffer owns every allocated event.  All entry points
  keep it, so no event is used after it was freed and none is lost.
\<close>

subsection \<open>Links between the halves of a rename\<close>

definition is_half :: "vfs_action \<Rightarrow> bool" where
  "is_half a \<longleftrightarrow> a = ACT_RENAME_FROM_FILE \<or> a = ACT_RENAME_TO_FILE"

definition partner :: "vfs_event \<Rightarrow> nat option" where
  "partner e = (if is_half (ev_action e) then ev_pair e else None)"

definition links :: "(nat \<Rightarrow> vfs_event option) \<Rightarrow> nat set \<Rightarrow> bool" where
  "links m L \<longleftrightarrow> L \<subseteq> dom m \<and> (\<forall>p\<in>L. \<forall>e q. m p = Some e \<and> partner e = Some q \<longrightarrow> q \<in> L
     \<and> (\<exists>e'. m q = Some e' \<and> partner e' = Some p \<and> ev_action e' \<noteq> ev_action e))"

text \<open>The second half of a rename stands behind the first one; \<open>S\<close> is what was seen before.\<close>

fun ordered :: "(nat \<Rightarrow> vfs_event option) \<Rightarrow> nat set \<Rightarrow> nat list \<Rightarrow> bool" where
  "ordered m S [] \<longleftrightarrow> True"
| "ordered m S (p # ps) \<longleftrightarrow> (case m p of None \<Rightarrow> True
     | Some e \<Rightarrow> ev_action e = ACT_RENAME_TO_FILE \<longrightarrow> (\<forall>q. ev_pair e = Some q \<longrightarrow> q \<in> S))
     \<and> ordered m (insert p S) ps"

definition merge_ok :: "merge_state \<Rightarrow> bool" where
  "merge_ok s \<longleftrightarrow> distinct (vfs_events s) \<and> events_number s = int (length (vfs_events s))
     \<and> dom (mem s) = set (vfs_events s) \<and> links (mem s) (set (vfs_events s))
     \<and> ordered (mem s) {} (vfs_events s)"

lemma not_half [simp]:
  "\<not> is_half ACT_NEW_FILE" "\<not> is_half ACT_DEL_FILE" "is_half ACT_RENAME_FROM_FILE"
  "is_half ACT_RENAME_TO_FILE" "\<not> is_half ACT_NEW_LINK" "\<not> is_half ACT_NEW_SYMLINK"
  by (simp_all add: is_half_def)

lemma retire_simps [simp]:
  "ev_action (retire a e) = a" "ev_pair (retire a e) = ev_pair e" "ev_path (retire a e) = ev_path e"
  "ev_dev (retire a e) = ev_dev e"
  by (simp_all add: retire_def)

lemma partner_retire [simp]: "\<not> is_half a \<Longrightarrow> partner (retire a e) = None"
  by (simp add: partner_def)

lemma less_new_folder: "a < ACT_NEW_FOLDER \<longleftrightarrow> a = ACT_NEW_FILE \<or> a = ACT_NEW_LINK \<or> a = ACT_NEW_SYMLINK"
  by (cases a) (simp_all add: less_vfs_action_def)

lemma linksD:
  assumes "links m L" "p \<in> L" "m p = Some e" "partner e = Some q"
  shows "q \<in> L" "\<exists>e'. m q = Some e' \<and> partner e' = Some p \<and> ev_action e' \<noteq> ev_action e"
  using assms unfolding links_def by blast+

text \<open>An event without partner leaves; nobody points to it.\<close>

lemma links_drop:
  assumes l: "links m L" and t: "t \<in> L \<Longrightarrow> m t = Some e \<and> partner e = None"
    and rest: "\<forall>p\<in>L - {t}. m' p = m p"
  shows "links m' (L - {t})"
proof -
  have "L - {t} \<subseteq> dom m'" using l rest unfolding links_def dom_def by force
  moreover have "r \<in> L - {t} \<and> (\<exists>e'. m' r = Some e' \<and> partner e' = Some p \<and> ev_action e' \<noteq> ev_action ep)"
    if p: "p \<in> L - {t}" "m' p = Some ep" "partner ep = Some r" for p ep r
  proof -
    have mp: "m p = Some ep" "p \<in> L" using p rest by auto
    from linksD[OF l mp(2,1) p(3)] obtain er where er: "r \<in> L" "m r = Some er" "partner er = Some p"
      "ev_action er \<noteq> ev_action ep" by blast
    have "r \<noteq> t" using er t by auto
    then show ?thesis using er rest by auto
  qed
  ultimately show ?thesis unfolding links_def by blast
qed

text \<open>A half leaves and its partner is retired or unpaired.\<close>

lemma links_drop_paired:
  assumes l: "links m L" and t: "t \<in> L" "m t = Some e" "partner e = Some q"
    and q: "m' q = Some eq" "partner eq = None" and rest: "\<forall>p\<in>L - {t, q}. m' p = m p"
  shows "links m' (L - {t})"
proof -
  obtain e' where e': "q \<in> L" "m q = Some e'" "partner e' = Some t" using linksD[OF l t] by blast
  have "L - {t} \<subseteq> dom m'" using l rest q(1) unfolding links_def dom_def by force
  moreover have "r \<in> L - {t} \<and> (\<exists>e'. m' r = Some e' \<and> partner e' = Some p \<and> ev_action e' \<noteq> ev_action ep)"
    if p: "p \<in> L - {t}" "m' p = Some ep" "partner ep = Some r" for p ep r
  proof -
    have "p \<noteq> q" using p q by auto
    then have mp: "m p = Some ep" "p \<in> L" using p rest by auto
    from linksD[OF l mp(2,1) p(3)] obtain er where er: "r \<in> L" "m r = Some er" "partner er = Some p"
      "ev_action er \<noteq> ev_action ep" by blast
    have "r \<noteq> t"
    proof
      assume "r = t"
      then have "p = q" using er(2,3) t(2,3) by simp
      then show False using \<open>p \<noteq> q\<close> by simp
    qed
    moreover have "r \<noteq> q"
    proof
      assume "r = q"
      then have "p = t" using er(2,3) e' by simp
      then show False using p by simp
    qed
    ultimately show ?thesis using er rest by auto
  qed
  ultimately show ?thesis unfolding links_def by blast
qed

lemma links_add: "links m L \<Longrightarrow> m p = Some e \<Longrightarrow> partner e = None \<Longrightarrow> links m (insert p L)"
  unfolding links_def by auto

subsection \<open>Order\<close>

lemma ordered_mono: "ordered m S ps \<Longrightarrow> S \<subseteq> S' \<Longrightarrow> ordered m S' ps"
proof (induction ps arbitrary: S S')
  case (Cons p ps)
  then have "ordered m (insert p S') ps" by (meson insert_mono ordered.simps(2))
  then show ?case using Cons.prems by (auto split: option.splits)
qed simp

definition to_pair :: "(nat \<Rightarrow> vfs_event option) \<Rightarrow> nat \<Rightarrow> nat option" where
  "to_pair m p = (case m p of None \<Rightarrow> None
     | Some e \<Rightarrow> if ev_action e = ACT_RENAME_TO_FILE then ev_pair e else None)"

lemma ordered_Cons: "ordered m S (p # ps) \<longleftrightarrow> (\<forall>q. to_pair m p = Some q \<longrightarrow> q \<in> S) \<and> ordered m (insert p S) ps"
  by (auto simp: to_pair_def split: option.splits)

declare ordered.simps(2) [simp del]
declare ordered_Cons [simp]

text \<open>The order only depends on the pointers of the second halves, and survives the removal of
  an event that no second half points to.\<close>

lemma ordered_change:
  assumes "ordered m S ps" "\<forall>p\<in>set ps. \<forall>q. to_pair m' p = Some q \<longrightarrow> to_pair m p = Some q \<and> q \<noteq> t"
  shows "ordered m' (S - {t}) (remove1 t ps) \<and> (t \<notin> set ps \<longrightarrow> ordered m' (S - {t}) ps)"
  using assms
proof (induction ps arbitrary: S)
  case (Cons p ps)
  have IH: "ordered m' (insert p S - {t}) (remove1 t ps)"
    "t \<notin> set ps \<longrightarrow> ordered m' (insert p S - {t}) ps"
    using Cons.IH[of "insert p S"] Cons.prems by auto
  have q: "\<forall>q. to_pair m' p = Some q \<longrightarrow> q \<in> S - {t}" using Cons.prems by auto
  show ?case
  proof (cases "p = t")
    case True
    have "ordered m' (S - {t}) ps"
    proof -
      have "\<forall>p\<in>set ps. \<forall>q. to_pair m' p = Some q \<longrightarrow> to_pair m p = Some q \<and> q \<noteq> t" using Cons.prems by auto
      moreover have "ordered m' (X - {t}) ps" if "ordered m X ps"
        "\<forall>p\<in>set ps. \<forall>q. to_pair m' p = Some q \<longrightarrow> to_pair m p = Some q \<and> q \<noteq> t" for X
        using that
      proof (induction ps arbitrary: X)
        case (Cons y ys)
        have "ordered m' (insert y X - {t}) ys" using Cons by auto
        then have "ordered m' (insert y (X - {t})) ys" by (rule ordered_mono) auto
        then show ?case using Cons.prems by auto
      qed simp
      ultimately have "ordered m' (insert p S - {t}) ps" using Cons.prems by auto
      then show ?thesis using True by simp
    qed
    then show ?thesis using True by simp
  next
    case False
    then have "insert p S - {t} = insert p (S - {t})" by auto
    then show ?thesis using IH q False by auto
  qed
qed simp

lemma ordered_append:
  "ordered m S (ps @ [p]) \<longleftrightarrow> ordered m S ps \<and> (\<forall>q. to_pair m p = Some q \<longrightarrow> q \<in> S \<union> set ps)"
  by (induction ps arbitrary: S) auto

subsection \<open>The merge rules\<close>

text \<open>\<open>mid_ok\<close>: the new event \<open>cur\<close> is allocated and not yet in the list.  \<open>done_ok\<close>: a rule
  has merged it away; only its memory is left to free.\<close>

definition mid_ok :: "merge_state \<Rightarrow> nat \<Rightarrow> bool" where
  "mid_ok s cur \<longleftrightarrow> distinct (vfs_events s) \<and> events_number s = int (length (vfs_events s))
     \<and> cur \<notin> set (vfs_events s) \<and> dom (mem s) = insert cur (set (vfs_events s))
     \<and> links (mem s) (insert cur (set (vfs_events s))) \<and> ordered (mem s) {} (vfs_events s)"

definition done_ok :: "merge_state \<Rightarrow> nat \<Rightarrow> merge_state \<Rightarrow> bool" where
  "done_ok s cur s' \<longleftrightarrow> distinct (vfs_events s') \<and> events_number s' = int (length (vfs_events s'))
     \<and> cur \<notin> set (vfs_events s') \<and> dom (mem s') = insert cur (set (vfs_events s'))
     \<and> links (mem s') (set (vfs_events s')) \<and> ordered (mem s') {} (vfs_events s')
     \<and> length (vfs_events s) = Suc (length (vfs_events s'))
     \<and> set (vfs_events s') \<subseteq> set (vfs_events s)
     \<and> quit s' = quit s \<and> timer s' = timer s \<and> notified s' = notified s"

lemma remove_entry_eq:
  assumes "mem s p = Some e"
  shows "REMOVE_ENTRY s p = Some (s\<lparr>vfs_events := remove1 p (vfs_events s),
    events_number := events_number s - 1, mem := (mem s)(p := None)\<rparr>)"
  using assms by (simp add: REMOVE_ENTRY_def vfs_event_free_def)

lemma to_pair_partner: "to_pair m p = Some q \<longleftrightarrow>
   (\<exists>e. m p = Some e \<and> ev_action e = ACT_RENAME_TO_FILE \<and> partner e = Some q)"
  by (auto simp: to_pair_def partner_def split: option.splits if_splits)

text \<open>The bookkeeping of \<open>REMOVE_ENTRY\<close>, once the links of the rest are known.\<close>

lemma done_okI:
  assumes m: "mid_ok s cur" and p: "p \<in> set (vfs_events s)"
    and s': "s' = s\<lparr>vfs_events := remove1 p (vfs_events s), events_number := events_number s - 1, mem := m'\<rparr>"
    and d: "dom m' = insert cur (set (vfs_events s) - {p})"
    and l: "links m' (set (vfs_events s) - {p})"
    and o: "\<forall>r\<in>set (vfs_events s). \<forall>q. to_pair m' r = Some q \<longrightarrow> to_pair (mem s) r = Some q \<and> q \<noteq> p"
  shows "done_ok s cur s'"
proof -
  have dist: "distinct (vfs_events s)" using m by (simp add: mid_ok_def)
  have "ordered m' ({} - {p}) (remove1 p (vfs_events s))"
    using ordered_change[of "mem s" "{}" "vfs_events s" m' p] o m by (simp add: mid_ok_def)
  moreover have "Suc (length (remove1 p (vfs_events s))) = length (vfs_events s)"
    using p by (simp add: length_remove1) (metis Suc_pred length_pos_if_in_set)
  ultimately show ?thesis
    using m p d l dist unfolding s' by (simp add: done_ok_def mid_ok_def set_remove1_eq)
qed

lemma rule_remove_plain:
  assumes m: "mid_ok s cur" and p: "p \<in> set (vfs_events s)" "mem s p = Some e" "partner e = None"
    and c: "mem s cur = Some c" "partner c = None"
  shows "\<exists>s'. REMOVE_ENTRY s p = Some s' \<and> done_ok s cur s'"
proof -
  let ?L = "set (vfs_events s)" and ?m' = "(mem s)(p := None)"
  have cl: "cur \<notin> ?L" and l: "links (mem s) (insert cur ?L)" using m by (simp_all add: mid_ok_def)
  have "links (mem s) (insert cur ?L - {cur})" by (rule links_drop[OF l]) (use c in auto)
  then have l1: "links (mem s) ?L" using cl by simp
  have l2: "links ?m' (?L - {p})" by (rule links_drop[OF l1]) (use p in auto)
  have o: "to_pair (mem s) r = Some q \<and> q \<noteq> p" if r: "r \<in> ?L" "to_pair ?m' r = Some q" for r q
  proof -
    have t: "to_pair (mem s) r = Some q" using r(2) by (auto simp: to_pair_def split: if_splits)
    then obtain er where "mem s r = Some er" "partner er = Some q" unfolding to_pair_partner by blast
    from linksD(2)[OF l1 r(1) this] have "q \<noteq> p" using p by auto
    then show ?thesis using t by simp
  qed
  have "done_ok s cur (s\<lparr>vfs_events := remove1 p (vfs_events s), events_number := events_number s - 1, mem := ?m'\<rparr>)"
    by (rule done_okI[OF m p(1) refl _ l2]) (use m p cl o in \<open>auto simp: mid_ok_def\<close>)
  then show ?thesis using remove_entry_eq[OF p(2)] by simp
qed

text \<open>The partner \<open>q\<close> of the removed entry stays as a plain event.\<close>

lemma rule_remove_paired:
  assumes m: "mid_ok s cur" and p: "p \<in> set (vfs_events s)" "mem s p = Some e" "partner e = Some q"
    and c: "mem s cur = Some c" "partner c = None" and a: "\<not> is_half a"
  shows "\<exists>s1 s'. update_event s q (retire a) = Some s1 \<and> REMOVE_ENTRY s1 p = Some s' \<and> done_ok s cur s'"
proof -
  let ?L = "set (vfs_events s)"
  have cl: "cur \<notin> ?L" and l: "links (mem s) (insert cur ?L)" using m by (simp_all add: mid_ok_def)
  have "links (mem s) (insert cur ?L - {cur})" by (rule links_drop[OF l]) (use c in auto)
  then have l1: "links (mem s) ?L" using cl by simp
  obtain eq where eq: "q \<in> ?L" "mem s q = Some eq" "partner eq = Some p" using linksD[OF l1 p] by blast
  have qp: "q \<noteq> p" using linksD(2)[OF l1 p] p by auto
  let ?m1 = "(mem s)(q \<mapsto> retire a eq)"
  let ?m' = "?m1(p := None)"
  have l2: "links ?m' (?L - {p})"
    by (rule links_drop_paired[OF l1 p, of _ "retire a eq"]) (use a qp in auto)
  have o: "to_pair (mem s) r = Some x \<and> x \<noteq> p" if r: "r \<in> ?L" "to_pair ?m' r = Some x" for r x
  proof -
    have rq: "r \<noteq> q" "r \<noteq> p" using r(2) a by (auto simp: to_pair_def is_half_def split: if_splits)
    then have t: "to_pair (mem s) r = Some x" using r(2) by (simp add: to_pair_def)
    then obtain er where er: "mem s r = Some er" "partner er = Some x" unfolding to_pair_partner by blast
    have "x \<noteq> p" using linksD(2)[OF l1 r(1) er] p rq by auto
    then show ?thesis using t by simp
  qed
  have up: "update_event s q (retire a) = Some (s\<lparr>mem := ?m1\<rparr>)"
    using eq by (simp add: update_event_def)
  have "done_ok s cur (s\<lparr>vfs_events := remove1 p (vfs_events s), events_number := events_number s - 1, mem := ?m'\<rparr>)"
    by (rule done_okI[OF m p(1) refl _ l2]) (use m p cl eq qp o in \<open>auto simp: mid_ok_def\<close>)
  moreover have "REMOVE_ENTRY (s\<lparr>mem := ?m1\<rparr>) p = Some (s\<lparr>vfs_events := remove1 p (vfs_events s),
      events_number := events_number s - 1, mem := ?m'\<rparr>)"
    using remove_entry_eq[of "s\<lparr>mem := ?m1\<rparr>" p e] p qp by simp
  ultimately show ?thesis using up by blast
qed

text \<open>The partner \<open>q\<close> of the new event stays as a plain event.\<close>

lemma rule_remove_target:
  assumes m: "mid_ok s cur" and p: "p \<in> set (vfs_events s)" "mem s p = Some e" "partner e = None"
    and c: "mem s cur = Some c" "partner c = Some q" and a: "\<not> is_half a"
  shows "\<exists>s1 s'. update_event s q (retire a) = Some s1 \<and> REMOVE_ENTRY s1 p = Some s' \<and> done_ok s cur s'"
proof -
  let ?L = "set (vfs_events s)"
  have cl: "cur \<notin> ?L" and l: "links (mem s) (insert cur ?L)" using m by (simp_all add: mid_ok_def)
  obtain eq where eq: "q \<in> insert cur ?L" "mem s q = Some eq" "partner eq = Some cur"
    using linksD[OF l insertI1 c] by blast
  have qc: "q \<noteq> cur" using linksD(2)[OF l insertI1 c] c by auto
  have qp: "q \<noteq> p" using eq p by auto
  let ?m1 = "(mem s)(q \<mapsto> retire a eq)"
  let ?m' = "?m1(p := None)"
  have "links ?m1 (insert cur ?L - {cur})"
    by (rule links_drop_paired[OF l insertI1 c, of _ "retire a eq"]) (use a in auto)
  then have l1: "links ?m1 ?L" using cl by simp
  have l2: "links ?m' (?L - {p})" by (rule links_drop[OF l1]) (use p qp in auto)
  have o: "to_pair (mem s) r = Some x \<and> x \<noteq> p" if r: "r \<in> ?L" "to_pair ?m' r = Some x" for r x
  proof -
    have rq: "r \<noteq> q" "r \<noteq> p" using r(2) a by (auto simp: to_pair_def is_half_def split: if_splits)
    then have t: "to_pair (mem s) r = Some x" using r(2) by (simp add: to_pair_def)
    then obtain er where er: "mem s r = Some er" "partner er = Some x" unfolding to_pair_partner by blast
    have "x \<noteq> p" using linksD(2)[OF l _ er] r(1) p rq by auto
    then show ?thesis using t by simp
  qed
  have up: "update_event s q (retire a) = Some (s\<lparr>mem := ?m1\<rparr>)"
    using eq by (simp add: update_event_def)
  have "done_ok s cur (s\<lparr>vfs_events := remove1 p (vfs_events s), events_number := events_number s - 1, mem := ?m'\<rparr>)"
    by (rule done_okI[OF m p(1) refl _ l2]) (use m p cl eq qp qc o in \<open>auto simp: mid_ok_def\<close>)
  moreover have "REMOVE_ENTRY (s\<lparr>mem := ?m1\<rparr>) p = Some (s\<lparr>vfs_events := remove1 p (vfs_events s),
      events_number := events_number s - 1, mem := ?m'\<rparr>)"
    using remove_entry_eq[of "s\<lparr>mem := ?m1\<rparr>" p e] p qp by simp
  ultimately show ?thesis using up by blast
qed

text \<open>One rule, one step of the scan, the whole scan.\<close>

definition rule_step :: "merge_state \<Rightarrow> nat \<Rightarrow> (bool \<times> merge_state) option \<Rightarrow> bool" where
  "rule_step s cur r \<longleftrightarrow> r = Some (False, s) \<or> (\<exists>s'. r = Some (True, s') \<and> done_ok s cur s')"

lemma partner_None: "\<not> is_half (ev_action e) \<Longrightarrow> partner e = None"
  by (simp add: partner_def)

lemma merge_new_file_step:
  assumes m: "mid_ok s cur" and p: "p \<in> set (vfs_events s)" "mem s cur = Some c" "partner c = None"
  shows "rule_step s cur (merge_new_file s p cur)"
proof -
  obtain e where e: "mem s p = Some e" using m p by (auto simp: mid_ok_def)
  show ?thesis
  proof (cases "partner e")
    case None
    from rule_remove_plain[OF m p(1) e None p(2,3)] obtain s' where
      "REMOVE_ENTRY s p = Some s'" "done_ok s cur s'" by blast
    then show ?thesis using e p(2) None
      by (auto simp: rule_step_def merge_new_file_def partner_def split: option.splits if_splits)
  next
    case (Some q)
    then have h: "ev_action e \<noteq> ACT_DEL_FILE" "ev_pair e = Some q"
      by (auto simp: partner_def split: if_splits)
    from rule_remove_paired[OF m p(1) e Some p(2,3), of ACT_NEW_FILE] obtain s1 s' where
      "update_event s q (retire ACT_NEW_FILE) = Some s1" "REMOVE_ENTRY s1 p = Some s'" "done_ok s cur s'"
      by auto
    then show ?thesis using e p(2) h by (auto simp: rule_step_def merge_new_file_def)
  qed
qed

lemma merge_del_file_step:
  assumes m: "mid_ok s cur" and p: "p \<in> set (vfs_events s)" "mem s cur = Some c" "partner c = None"
  shows "rule_step s cur (merge_del_file s p cur)" "rule_step s cur (merge_rename_from_file s p cur)"
proof -
  obtain e where e: "mem s p = Some e" using m p by (auto simp: mid_ok_def)
  have "rule_step s cur (merge_del_file s p cur) \<and> rule_step s cur (merge_rename_from_file s p cur)"
  proof (cases "partner e")
    case None
    from rule_remove_plain[OF m p(1) e None p(2,3)] obtain s' where
      "REMOVE_ENTRY s p = Some s'" "done_ok s cur s'" by blast
    then show ?thesis using e p(2) None
      by (auto simp: rule_step_def merge_del_file_def merge_rename_from_file_def partner_def
          is_half_def split: option.splits if_splits)
  next
    case (Some q)
    then have h: "\<not> ev_action e < ACT_NEW_FOLDER" "ev_pair e = Some q"
      by (auto simp: partner_def is_half_def less_new_folder split: if_splits)
    from rule_remove_paired[OF m p(1) e Some p(2,3), of ACT_DEL_FILE] obtain s1 s' where
      "update_event s q (retire ACT_DEL_FILE) = Some s1" "REMOVE_ENTRY s1 p = Some s'" "done_ok s cur s'"
      by auto
    then show ?thesis using e p(2) h
      by (auto simp: rule_step_def merge_del_file_def merge_rename_from_file_def)
  qed
  then show "rule_step s cur (merge_del_file s p cur)" "rule_step s cur (merge_rename_from_file s p cur)"
    by blast+
qed

lemma merge_rename_to_file_step:
  assumes m: "mid_ok s cur" and p: "p \<in> set (vfs_events s)"
    and c: "mem s cur = Some c" "ev_action c = ACT_RENAME_TO_FILE"
  shows "rule_step s cur (merge_rename_to_file s p cur)"
proof -
  obtain e where e: "mem s p = Some e" using m p by (auto simp: mid_ok_def)
  show ?thesis
  proof (cases "ev_action e = ACT_DEL_FILE \<and> ev_pair c \<noteq> None")
    case True
    then obtain q where q: "ev_pair c = Some q" "partner e = None" "partner c = Some q"
      using c by (auto simp: partner_def)
    from rule_remove_target[OF m p e q(2) c(1) q(3), of ACT_DEL_FILE] obtain s1 s' where
      "update_event s q (retire ACT_DEL_FILE) = Some s1" "REMOVE_ENTRY s1 p = Some s'" "done_ok s cur s'"
      by auto
    then show ?thesis using e c True q by (auto simp: rule_step_def merge_rename_to_file_def)
  next
    case False
    then show ?thesis using e c by (auto simp: rule_step_def merge_rename_to_file_def)
  qed
qed

lemma merge_scan_step:
  assumes "\<And>p. p \<in> set ps \<Longrightarrow> rule_step s cur (f s p cur)"
  shows "rule_step s cur (merge_scan f cur ps s)"
  using assms
proof (induction ps)
  case (Cons p ps)
  then have "rule_step s cur (f s p cur)" "rule_step s cur (merge_scan f cur ps s)" by simp_all
  then show ?case unfolding rule_step_def by (elim disjE exE conjE) simp_all
qed (simp add: rule_step_def)

text \<open>What the new event may be when the scan begins.\<close>

lemma merge_event_step:
  assumes m: "mid_ok s cur" and c: "mem s cur = Some c"
    and u: "ev_action c \<noteq> ACT_RENAME_TO_FILE \<Longrightarrow> partner c = None"
  shows "rule_step s cur (merge_event s cur)"
proof (cases "action_merge_fns (ev_action c)")
  case None
  then show ?thesis using c by (simp add: merge_event_def rule_step_def)
next
  case (Some f)
  have "rule_step s cur (f s p cur)" if "p \<in> set (vfs_events s)" for p
  proof (cases "ev_action c = ACT_RENAME_TO_FILE")
    case True
    then have "f = merge_rename_to_file" using Some by (simp add: action_merge_fns_def)
    then show ?thesis using merge_rename_to_file_step[OF m that c True] by simp
  next
    case False
    have "f \<in> {merge_new_file, merge_del_file, merge_rename_from_file}"
      using Some False by (cases "ev_action c") (simp_all add: action_merge_fns_def)
    then show ?thesis
      using merge_new_file_step[OF m that c u[OF False]] merge_del_file_step[OF m that c u[OF False]]
      by auto
  qed
  then have "rule_step s cur (merge_scan f cur (rev (vfs_events s)) s)"
    by (intro merge_scan_step) simp
  then show ?thesis using c Some by (simp add: merge_event_def)
qed

subsection \<open>Pairing\<close>

lemma find_cookie_total:
  assumes "set ps \<subseteq> dom (mem s)"
  shows "\<exists>r. find_cookie s ps c = Some r
    \<and> (case r of None \<Rightarrow> True | Some p \<Rightarrow> p \<in> set ps \<and> (\<exists>e. mem s p = Some e \<and> ev_cookie e = c))"
  using assms
proof (induction ps)
  case (Cons p ps)
  then obtain e where "mem s p = Some e" by auto
  then show ?case using Cons by (auto split: option.splits)
qed simp

text \<open>A new event: allocated, outside the list, and the first event with the cookie of a
  second half is a first half that waits for it.\<close>

definition arrival :: "merge_state \<Rightarrow> nat \<Rightarrow> bool" where
  "arrival s event \<longleftrightarrow> event \<notin> set (vfs_events s) \<and> (\<exists>c. mem s event = Some c
     \<and> merge_ok (s\<lparr>mem := (mem s)(event := None)\<rparr>)
     \<and> (ev_action c = ACT_RENAME_TO_FILE \<longrightarrow> (\<forall>p\<in>set (vfs_events s). \<forall>e. mem s p = Some e
          \<and> ev_cookie e = ev_cookie c \<longrightarrow> ev_action e = ACT_RENAME_FROM_FILE \<and> ev_pair e = None)))"

lemma links_change:
  assumes l: "links m L" and c: "\<forall>p\<in>L. m' p = m p"
  shows "links m' L"
proof -
  have "L \<subseteq> dom m'" using l c unfolding links_def dom_def by force
  moreover have "r \<in> L \<and> (\<exists>e'. m' r = Some e' \<and> partner e' = Some p \<and> ev_action e' \<noteq> ev_action ep)"
    if p: "p \<in> L" "m' p = Some ep" "partner ep = Some r" for p ep r
    using linksD[OF l p(1) _ p(3)] p c by auto
  ultimately show ?thesis unfolding links_def by blast
qed

lemma ordered_cong:
  "(\<And>p. p \<in> set ps \<Longrightarrow> to_pair m p = to_pair m' p) \<Longrightarrow> ordered m S ps = ordered m' S ps"
  by (induction ps arbitrary: S) auto

lemma arrival_mid:
  assumes a: "arrival s event"
  shows "\<exists>c. mem s event = Some c
    \<and> update_event s event (\<lambda>e. e\<lparr>ev_pair := None\<rparr>) = Some (s\<lparr>mem := (mem s)(event \<mapsto> c\<lparr>ev_pair := None\<rparr>)\<rparr>)
    \<and> mid_ok (s\<lparr>mem := (mem s)(event \<mapsto> c\<lparr>ev_pair := None\<rparr>)\<rparr>) event"
proof -
  obtain c where c: "mem s event = Some c" "event \<notin> set (vfs_events s)"
    and ok: "merge_ok (s\<lparr>mem := (mem s)(event := None)\<rparr>)" using a by (auto simp: arrival_def)
  let ?m = "(mem s)(event \<mapsto> c\<lparr>ev_pair := None\<rparr>)" and ?L = "set (vfs_events s)"
  have "dom ((mem s)(event := None)) = ?L" using ok by (simp add: merge_ok_def)
  then have d: "dom ?m = insert event ?L" by (metis fun_upd_upd dom_fun_upd option.distinct(1))
  have "links ((mem s)(event := None)) ?L" using ok by (simp add: merge_ok_def)
  then have "links ?m ?L" by (rule links_change) (use c(2) in auto)
  then have l: "links ?m (insert event ?L)"
    by (rule links_add[of _ _ _ "c\<lparr>ev_pair := None\<rparr>"]) (simp_all add: partner_def)
  have "ordered ?m {} (vfs_events s)"
    using ok c(2) ordered_cong[of "vfs_events s" ?m "(mem s)(event := None)" "{}"]
    by (auto simp: merge_ok_def to_pair_def)
  then have "mid_ok (s\<lparr>mem := ?m\<rparr>) event" using ok c(2) d l by (simp add: mid_ok_def merge_ok_def)
  then show ?thesis using c by (simp add: update_event_def)
qed

lemma pair_rename_step:
  assumes m: "mid_ok s cur" and c: "mem s cur = Some c" "ev_pair c = None"
    and ck: "ev_action c = ACT_RENAME_TO_FILE \<Longrightarrow> \<forall>p\<in>set (vfs_events s). \<forall>e. mem s p = Some e
          \<and> ev_cookie e = ev_cookie c \<longrightarrow> ev_action e = ACT_RENAME_FROM_FILE \<and> ev_pair e = None"
  shows "\<exists>s' c'. pair_rename s cur = Some s' \<and> mid_ok s' cur \<and> mem s' cur = Some c'
    \<and> (ev_action c' \<noteq> ACT_RENAME_TO_FILE \<longrightarrow> partner c' = None)
    \<and> vfs_events s' = vfs_events s \<and> quit s' = quit s \<and> timer s' = timer s \<and> notified s' = notified s"
proof (cases "ev_action c = ACT_RENAME_TO_FILE")
  case False
  then show ?thesis using m c by (auto simp: pair_rename_def partner_def)
next
  case True
  let ?L = "set (vfs_events s)"
  have md: "set (vfs_events s) \<subseteq> dom (mem s)" and cl: "cur \<notin> ?L" and dd: "dom (mem s) = insert cur ?L"
    and l: "links (mem s) (insert cur ?L)" using m by (auto simp: mid_ok_def)
  obtain r where r: "find_cookie s (vfs_events s) (ev_cookie c) = Some r"
    "case r of None \<Rightarrow> True | Some p \<Rightarrow> p \<in> ?L \<and> (\<exists>e. mem s p = Some e \<and> ev_cookie e = ev_cookie c)"
    using find_cookie_total[OF md] by blast
  show ?thesis
  proof (cases r)
    case None
    let ?m = "(mem s)(cur \<mapsto> retire ACT_NEW_FILE c)"
    have "links (mem s) (insert cur ?L - {cur})" by (rule links_drop[OF l]) (use c in \<open>auto simp: partner_def\<close>)
    then have "links (mem s) ?L" using cl by simp
    then have "links ?m ?L" by (rule links_change) (use cl in auto)
    then have "links ?m (insert cur ?L)" by (rule links_add[of _ _ _ "retire ACT_NEW_FILE c"]) simp_all
    moreover have "ordered ?m {} (vfs_events s)"
    proof -
      have "ordered ?m {} (vfs_events s) = ordered (mem s) {} (vfs_events s)"
        by (rule ordered_cong) (use cl in \<open>auto simp: to_pair_def\<close>)
      then show ?thesis using m by (simp add: mid_ok_def)
    qed
    ultimately have "mid_ok (s\<lparr>mem := ?m\<rparr>) cur" using m dd by (auto simp: mid_ok_def)
    then show ?thesis using r(1) None True c by (simp add: pair_rename_def update_event_def)
  next
    case (Some p)
    then obtain e where e: "p \<in> ?L" "mem s p = Some e" "ev_cookie e = ev_cookie c" using r(2) by auto
    then have f: "ev_action e = ACT_RENAME_FROM_FILE" "ev_pair e = None" using ck[OF True] by blast+
    have pc: "p \<noteq> cur" using e cl by auto
    let ?e = "e\<lparr>ev_pair := Some cur\<rparr>" and ?c = "c\<lparr>ev_pair := Some p\<rparr>"
    let ?m = "(mem s)(p \<mapsto> ?e, cur \<mapsto> ?c)"
    have "links ?m (insert cur ?L)"
    proof -
      have "insert cur ?L \<subseteq> dom ?m" using md by auto
      moreover have "y \<in> insert cur ?L \<and> (\<exists>e'. ?m y = Some e' \<and> partner e' = Some x \<and> ev_action e' \<noteq> ev_action ex)"
        if x: "x \<in> insert cur ?L" "?m x = Some ex" "partner ex = Some y" for x ex y
      proof (cases "x = cur \<or> x = p")
        case True
        then show ?thesis using x e f pc \<open>ev_action c = ACT_RENAME_TO_FILE\<close>
          by (auto simp: partner_def)
      next
        case False
        then have mx: "mem s x = Some ex" "x \<in> insert cur ?L" using x by auto
        from linksD[OF l mx(2,1) x(3)] obtain ey where ey: "y \<in> insert cur ?L" "mem s y = Some ey"
          "partner ey = Some x" "ev_action ey \<noteq> ev_action ex" by blast
        have "y \<noteq> cur" "y \<noteq> p" using ey e f c by (auto simp: partner_def split: if_splits)
        then show ?thesis using ey by simp
      qed
      ultimately show ?thesis unfolding links_def by blast
    qed
    moreover have "ordered ?m {} (vfs_events s)"
    proof -
      have "ordered ?m {} (vfs_events s) = ordered (mem s) {} (vfs_events s)"
        by (rule ordered_cong) (use cl f e in \<open>auto simp: to_pair_def\<close>)
      then show ?thesis using m by (simp add: mid_ok_def)
    qed
    moreover have "dom ?m = insert cur ?L" using dd e by auto
    ultimately have "mid_ok (s\<lparr>mem := ?m\<rparr>) cur" using m by (simp add: mid_ok_def)
    then show ?thesis using r(1) Some True c e pc
      by (simp add: pair_rename_def update_event_def fun_upd_twist)
  qed
qed

subsection \<open>Sending\<close>

definition send_ok :: "merge_state \<Rightarrow> nat list \<Rightarrow> bool" where
  "send_ok s ts \<longleftrightarrow> distinct (vfs_events s @ ts) \<and> events_number s = int (length (vfs_events s))
     \<and> dom (mem s) = set (vfs_events s) \<union> set ts \<and> links (mem s) (set (vfs_events s))
     \<and> ordered (mem s) {} (vfs_events s)"

definition waiting :: "merge_state \<Rightarrow> nat \<Rightarrow> bool" where
  "waiting s p \<longleftrightarrow> (\<exists>e. mem s p = Some e \<and> ev_action e = ACT_RENAME_FROM_FILE \<and> ev_pair e = None)"

lemma remove1_append_notin: "p \<notin> set xs \<Longrightarrow> remove1 p (xs @ p # ys) = xs @ ys"
  by (induction xs) auto

lemma ordered_mid:
  assumes "ordered m S (xs @ p # ys)" "to_pair m p = Some q"
  shows "q \<in> S \<union> set xs"
  using assms by (induction xs arbitrary: S) auto

text \<open>The next event is moved to the array.\<close>

lemma move_step:
  assumes ok: "send_ok s ts" and l: "vfs_events s = sk @ p # ps" and e: "mem s p = Some e"
    and sk: "\<forall>x\<in>set sk. waiting s x" and elig: "ev_action e \<noteq> ACT_RENAME_FROM_FILE \<or> ev_pair e \<noteq> None"
    and len: "length ts < 10"
  shows "\<exists>s1 s2. MOVE_EVENT s p ts = Some (s1, ts @ [p])
    \<and> (if ev_action e = ACT_RENAME_FROM_FILE
       then (case ev_pair e of None \<Rightarrow> None | Some q \<Rightarrow> update_event s1 q (\<lambda>e'. e'\<lparr>ev_pair := None\<rparr>))
       else Some s1) = Some s2
    \<and> send_ok s2 (ts @ [p]) \<and> vfs_events s2 = sk @ ps \<and> (\<forall>x\<in>set sk. waiting s2 x)
    \<and> quit s2 = quit s \<and> timer s2 = timer s \<and> notified s2 = notified s"
proof -
  let ?L = "set (vfs_events s)"
  have d: "distinct (vfs_events s @ ts)" and lk: "links (mem s) ?L" and o: "ordered (mem s) {} (vfs_events s)"
    and dm: "dom (mem s) = ?L \<union> set ts" and nm: "events_number s = int (length (vfs_events s))"
    using ok by (simp_all add: send_ok_def)
  have pL: "p \<in> ?L" "p \<notin> set sk" "p \<notin> set ps" "p \<notin> set ts" using l d by auto
  have r1: "remove1 p (vfs_events s) = sk @ ps" unfolding l by (rule remove1_append_notin[OF pL(2)])
  define s1 where "s1 = s\<lparr>vfs_events := sk @ ps, events_number := events_number s - 1\<rparr>"
  have mv: "MOVE_EVENT s p ts = Some (s1, ts @ [p])"
    using len r1 by (simp add: MOVE_EVENT_def s1_def)
  have Lp: "?L - {p} = set (sk @ ps)" using l pL by auto
  have fin: "send_ok s2 (ts @ [p])"
    if s2: "s2 = s1\<lparr>mem := m'\<rparr>" "dom m' = dom (mem s)" "links m' (?L - {p})"
      "\<forall>r\<in>?L. \<forall>q. to_pair m' r = Some q \<longrightarrow> to_pair (mem s) r = Some q \<and> q \<noteq> p" for s2 m'
  proof -
    have "ordered m' ({} - {p}) (remove1 p (vfs_events s))"
      using ordered_change[OF o s2(4)] by blast
    then show ?thesis
      using s2 d dm nm l pL Lp r1 by (auto simp: send_ok_def s1_def)
  qed
  show ?thesis
  proof (cases "partner e")
    case None
    have nf: "ev_action e \<noteq> ACT_RENAME_FROM_FILE" using None elig by (auto simp: partner_def)
    have "links (mem s) (?L - {p})" by (rule links_drop[OF lk]) (use e None in auto)
    moreover have "\<forall>r\<in>?L. \<forall>q. to_pair (mem s) r = Some q \<longrightarrow> to_pair (mem s) r = Some q \<and> q \<noteq> p"
    proof (intro ballI allI impI conjI)
      fix r q assume r: "r \<in> ?L" "to_pair (mem s) r = Some q"
      then obtain er where "mem s r = Some er" "partner er = Some q" unfolding to_pair_partner by blast
      from linksD(2)[OF lk r(1) this] show "q \<noteq> p" using e None by auto
    qed
    ultimately have "send_ok (s1\<lparr>mem := mem s\<rparr>) (ts @ [p])" by (intro fin[of _ "mem s"]) simp_all
    moreover have "s1\<lparr>mem := mem s\<rparr> = s1" by (simp add: s1_def)
    moreover have "\<forall>x\<in>set sk. waiting s1 x" using sk by (simp add: waiting_def s1_def)
    ultimately show ?thesis using mv nf by (intro exI[of _ s1]) (simp add: s1_def)
  next
    case (Some q)
    obtain eq where eq: "q \<in> ?L" "mem s q = Some eq" "partner eq = Some p" "ev_action eq \<noteq> ev_action e"
      using linksD[OF lk pL(1) e Some] by blast
    have frm: "ev_action e = ACT_RENAME_FROM_FILE"
    proof (rule ccontr)
      assume "ev_action e \<noteq> ACT_RENAME_FROM_FILE"
      then have to: "ev_action e = ACT_RENAME_TO_FILE" using Some by (auto simp: partner_def is_half_def split: if_splits)
      then have "to_pair (mem s) p = Some q" using e Some unfolding to_pair_partner by blast
      then have "q \<in> set sk" using ordered_mid[of "mem s" "{}" sk p ps q] o l by simp
      then have "waiting s q" using sk by blast
      then show False using eq by (auto simp: waiting_def partner_def split: if_splits)
    qed
    then have qto: "ev_action eq = ACT_RENAME_TO_FILE" and eqp: "ev_pair eq = Some p"
      using eq by (auto simp: partner_def is_half_def split: if_splits)
    have ep: "ev_pair e = Some q" using Some by (auto simp: partner_def split: if_splits)
    let ?eq = "eq\<lparr>ev_pair := None\<rparr>"
    let ?m' = "(mem s)(q \<mapsto> ?eq)"
    have qp: "q \<noteq> p" using eq(4) e eq(2) by auto
    have lk': "links ?m' (?L - {p})"
      by (rule links_drop_paired[OF lk pL(1) e Some, of _ ?eq]) (use qp in \<open>auto simp: partner_def\<close>)
    have o': "\<forall>r\<in>?L. \<forall>x. to_pair ?m' r = Some x \<longrightarrow> to_pair (mem s) r = Some x \<and> x \<noteq> p"
    proof (intro ballI allI impI)
      fix r x assume r: "r \<in> ?L" "to_pair ?m' r = Some x"
      then have rq: "r \<noteq> q" by (auto simp: to_pair_def split: if_splits)
      then have t: "to_pair (mem s) r = Some x" using r by (simp add: to_pair_def)
      then obtain er where er: "mem s r = Some er" "partner er = Some x" unfolding to_pair_partner by blast
      have "x \<noteq> p" using linksD(2)[OF lk r(1) er] e Some rq by auto
      then show "to_pair (mem s) r = Some x \<and> x \<noteq> p" using t by simp
    qed
    have "send_ok (s1\<lparr>mem := ?m'\<rparr>) (ts @ [p])" using fin[OF refl _ lk' o'] eq(2) by auto
    moreover have "\<forall>x\<in>set sk. waiting (s1\<lparr>mem := ?m'\<rparr>) x"
    proof
      fix x assume "x \<in> set sk"
      then have w: "waiting s x" using sk by blast
      then have "x \<noteq> q" using eq(2) qto by (auto simp: waiting_def)
      then show "waiting (s1\<lparr>mem := ?m'\<rparr>) x" using w by (simp add: waiting_def)
    qed
    moreover have "update_event s1 q (\<lambda>e'. e'\<lparr>ev_pair := None\<rparr>) = Some (s1\<lparr>mem := ?m'\<rparr>)"
      using eq(2) by (simp add: update_event_def s1_def)
    ultimately show ?thesis using mv frm ep
      by (intro exI[of _ s1] exI[of _ "s1\<lparr>mem := ?m'\<rparr>"]) (simp add: s1_def)
  qed
qed

lemma pick_some_ok:
  assumes "send_ok s ts" "vfs_events s = sk @ ps" "\<forall>x\<in>set sk. waiting s x" "length ts = i" "i < 10"
  shows "\<exists>s' ts'. pick_some ps i s ts = Some (s', ts') \<and> send_ok s' ts' \<and> length ts' \<le> 10
    \<and> length ts' + length (vfs_events s') = i + length (vfs_events s)
    \<and> (length ts' = 10 \<or> (\<forall>x\<in>set (vfs_events s'). waiting s' x))
    \<and> quit s' = quit s \<and> timer s' = timer s \<and> notified s' = notified s"
  using assms
proof (induction ps arbitrary: s ts sk i)
  case Nil
  then show ?case by auto
next
  case (Cons p ps)
  have "p \<in> dom (mem s)" using Cons.prems(1,2) by (auto simp: send_ok_def)
  then obtain e where e: "mem s p = Some e" by auto
  show ?case
  proof (cases "ev_action e \<noteq> ACT_RENAME_FROM_FILE \<or> ev_pair e \<noteq> None")
    case False
    then have "\<forall>x\<in>set (sk @ [p]). waiting s x" using Cons.prems(3) e by (auto simp: waiting_def)
    then show ?thesis
      using Cons.IH[of s ts "sk @ [p]" i] Cons.prems e False by simp
  next
    case True
    have "length ts < 10" using Cons.prems by simp
    from move_step[OF Cons.prems(1,2) e Cons.prems(3) True this] obtain s1 s2 where
      s2: "MOVE_EVENT s p ts = Some (s1, ts @ [p])"
      "(if ev_action e = ACT_RENAME_FROM_FILE
       then (case ev_pair e of None \<Rightarrow> None | Some q \<Rightarrow> update_event s1 q (\<lambda>e'. e'\<lparr>ev_pair := None\<rparr>))
       else Some s1) = Some s2" "send_ok s2 (ts @ [p])" "vfs_events s2 = sk @ ps" "\<forall>x\<in>set sk. waiting s2 x"
      "quit s2 = quit s" "timer s2 = timer s" "notified s2 = notified s" by blast
    have step: "pick_some (p # ps) i s ts
        = (if i + 1 \<ge> 10 then Some (s2, ts @ [p]) else pick_some ps (i + 1) s2 (ts @ [p]))"
      using e True s2(1,2) by (simp split del: if_split)
    show ?thesis
    proof (cases "i + 1 \<ge> 10")
      case True
      then have "pick_some (p # ps) i s ts = Some (s2, ts @ [p])" using step by simp
      then show ?thesis using s2 Cons.prems True by (intro exI[of _ s2] exI[of _ "ts @ [p]"]) simp
    next
      case False
      then show ?thesis
        using Cons.IH[OF s2(3,4,5), of "i + 1"] Cons.prems step s2 by auto
    qed
  qed
qed

lemma events_number_send: "send_ok s ts \<Longrightarrow> events_number s = int (length (vfs_events s))"
  by (simp add: send_ok_def)

lemma pick_all_ok:
  assumes "send_ok s ts" "vfs_events s = ps" "length ts + length ps \<le> 101"
  shows "\<exists>s'. pick_all ps s ts = Some (s', ts @ ps) \<and> vfs_events s' = [] \<and> events_number s' = 0
    \<and> mem s' = mem s \<and> quit s' = quit s \<and> timer s' = timer s \<and> notified s' = notified s"
  using assms(2,3) events_number_send[OF assms(1)]
proof (induction ps arbitrary: s ts)
  case (Cons p ps)
  let ?s = "s\<lparr>vfs_events := ps, events_number := events_number s - 1\<rparr>"
  have "MOVE_EVENT s p ts = Some (?s, ts @ [p])" using Cons.prems by (simp add: MOVE_EVENT_def)
  then show ?case using Cons.IH[of ?s "ts @ [p]"] Cons.prems by auto
qed auto

lemma notify_loop_ok:
  assumes "distinct ts" "set ts \<subseteq> dom (mem s)"
  shows "notify_loop ts s = Some (s\<lparr>mem := (mem s) |` (- set ts),
    notified := notified s @ map (\<lambda>p. the (mem s p)) ts\<rparr>)"
  using assms
proof (induction ts arbitrary: s)
  case (Cons p ps)
  then obtain e where e: "mem s p = Some e" by auto
  define s1 where "s1 = s\<lparr>notified := notified s @ [e], mem := (mem s)(p := None)\<rparr>"
  have "notify_loop (p # ps) s = notify_loop ps s1" using e by (simp add: vfs_event_free_def s1_def)
  also have "\<dots> = Some (s1\<lparr>mem := (mem s1) |` (- set ps), notified := notified s1 @ map (\<lambda>p. the (mem s1 p)) ps\<rparr>)"
    by (rule Cons.IH) (use Cons.prems in \<open>auto simp: s1_def\<close>)
  also have "map (\<lambda>q. the (mem s1 q)) ps = map (\<lambda>q. the (mem s q)) ps"
    using Cons.prems by (auto simp: s1_def)
  also have "(mem s1) |` (- set ps) = (mem s) |` (- set (p # ps))"
    by (auto simp: restrict_map_def s1_def)
  finally show ?case using e by (simp add: s1_def)
qed (simp add: restrict_map_def)

lemma notify_events_ok:
  assumes ok: "send_ok s ts" and len: "length ts \<le> 100"
  shows "\<exists>s'. notify_events s ts = Some s' \<and> merge_ok s' \<and> vfs_events s' = vfs_events s
    \<and> quit s' = quit s \<and> notified s' = notified s @ map (\<lambda>p. the (mem s p)) ts
    \<and> mem s' = (mem s) |` (- set ts) \<and> events_number s' = events_number s
    \<and> timer s' = (timer s \<or> ts \<noteq> [] \<and> vfs_events s \<noteq> [])"
proof -
  let ?m = "(mem s) |` (- set ts)"
  let ?s = "s\<lparr>mem := ?m, notified := notified s @ map (\<lambda>p. the (mem s p)) ts\<rparr>"
  have d: "distinct (vfs_events s @ ts)" "dom (mem s) = set (vfs_events s) \<union> set ts"
    and l: "links (mem s) (set (vfs_events s))" and o: "ordered (mem s) {} (vfs_events s)"
    and n: "events_number s = int (length (vfs_events s))" using ok by (auto simp: send_ok_def)
  have "notify_loop ts s = Some ?s" by (rule notify_loop_ok) (use d in auto)
  then have ne: "notify_events s ts = Some (if ts \<noteq> [] \<and> events_number s \<ge> 1 then ?s\<lparr>timer := True\<rparr> else ?s)"
    using len by (simp add: notify_events_def)
  have same: "p \<in> set (vfs_events s) \<Longrightarrow> ?m p = mem s p" for p using d by (auto simp: restrict_map_def)
  have "links ?m (set (vfs_events s))" by (rule links_change[OF l]) (use same in auto)
  moreover have "ordered ?m {} (vfs_events s)"
  proof -
    have "ordered ?m {} (vfs_events s) = ordered (mem s) {} (vfs_events s)"
      by (rule ordered_cong) (use same in \<open>auto simp: to_pair_def\<close>)
    then show ?thesis using o by simp
  qed
  moreover have "dom ?m = set (vfs_events s)" using d by (auto simp: restrict_map_def dom_def)
  ultimately have "merge_ok ?s" using d n by (simp add: merge_ok_def)
  then have "merge_ok (?s\<lparr>timer := t\<rparr>)" for t by (simp add: merge_ok_def)
  then show ?thesis using ne n \<open>merge_ok ?s\<close> by (auto simp: Suc_le_eq)
qed

end
