(* ===== verification/Event_Relation.thy ===== *)
theory Event_Relation
  imports Event_Merge
begin

text \<open>
  Relations between the states before and after an operation of the buffer.  A relation that every
  access to the slab cache respects is respected by the operations that are built from them.
\<close>

locale cache_relation =
  fixes R :: "merge_state \<Rightarrow> merge_state \<Rightarrow> bool"
  assumes R_mem [simp]: "mem s' = mem s \<Longrightarrow> R s s'"
    and R_trans: "R s s' \<Longrightarrow> R s' s'' \<Longrightarrow> R s s''"
    and R_free: "vfs_event_free s p = Some s' \<Longrightarrow> R s s'"
    and R_retire: "update_event s p (retire a) = Some s' \<Longrightarrow> R s s'"
    and R_unpair: "update_event s p (\<lambda>e. e\<lparr>ev_pair := None\<rparr>) = Some s' \<Longrightarrow> R s s'"
begin

lemma rel_remove: "REMOVE_ENTRY s p = Some s' \<Longrightarrow> R s s'"
  unfolding REMOVE_ENTRY_def by (rule R_trans[OF R_mem R_free]) simp_all

lemma rel_retire_remove: "update_event s q (retire a) = Some s1 \<Longrightarrow> REMOVE_ENTRY s1 p = Some s' \<Longrightarrow> R s s'"
  by (rule R_trans[OF R_retire rel_remove])

lemma rel_rules:
  "merge_new_file s p cur = Some (ok, s') \<Longrightarrow> R s s'"
  "merge_del_file s p cur = Some (ok, s') \<Longrightarrow> R s s'"
  "merge_rename_from_file s p cur = Some (ok, s') \<Longrightarrow> R s s'"
  "merge_rename_to_file s p cur = Some (ok, s') \<Longrightarrow> R s s'"
  by (auto simp: merge_new_file_def merge_del_file_def merge_rename_from_file_def merge_rename_to_file_def
      split: Option.bind_splits if_splits option.splits dest: rel_remove rel_retire_remove)

lemma rel_scan:
  assumes "\<And>s p s' ok. f s p cur = Some (ok, s') \<Longrightarrow> R s s'"
  shows "merge_scan f cur ps s = Some (ok, s') \<Longrightarrow> R s s'"
proof (induction ps arbitrary: s)
  case (Cons p ps)
  then obtain b s1 where f: "f s p cur = Some (b, s1)"
    and r: "(if b then Some (True, s1) else merge_scan f cur ps s1) = Some (ok, s')"
    by (auto split: Option.bind_splits)
  show ?case
  proof (cases b)
    case True
    then show ?thesis using assms[OF f] r by simp
  next
    case False
    then show ?thesis using assms[OF f] Cons.IH[of s1] r by (auto intro: R_trans)
  qed
qed simp

lemma rel_merge_event:
  assumes "merge_event s event = Some (ok, s')"
  shows "R s s'"
proof -
  obtain c where c: "mem s event = Some c" using assms by (auto simp: merge_event_def split: Option.bind_splits)
  show ?thesis
  proof (cases "action_merge_fns (ev_action c)")
    case None
    then show ?thesis using assms c by (simp add: merge_event_def)
  next
    case (Some f)
    then have "f \<in> {merge_new_file, merge_del_file, merge_rename_from_file, merge_rename_to_file}"
      by (cases "ev_action c") (simp_all add: action_merge_fns_def)
    then have "\<And>s p s' ok. f s p event = Some (ok, s') \<Longrightarrow> R s s'" using rel_rules by auto
    then show ?thesis using assms c Some rel_scan[of f event] by (auto simp: merge_event_def)
  qed
qed

lemma rel_move: "MOVE_EVENT s p ts = Some (s', ts') \<Longrightarrow> R s s'"
  by (auto simp: MOVE_EVENT_def split: if_splits)

lemma rel_pick_some: "pick_some ps i s ts = Some (s', ts') \<Longrightarrow> R s s'"
proof (induction ps arbitrary: i s ts)
  case (Cons p ps)
  obtain e where e: "mem s p = Some e" using Cons.prems by (auto split: Option.bind_splits)
  show ?case
  proof (cases "ev_action e \<noteq> ACT_RENAME_FROM_FILE \<or> ev_pair e \<noteq> None")
    case False
    then show ?thesis using Cons e by simp
  next
    case True
    obtain s1 t1 s2 where m: "MOVE_EVENT s p ts = Some (s1, t1)"
      "(if ev_action e = ACT_RENAME_FROM_FILE then (case ev_pair e of None \<Rightarrow> None
         | Some q \<Rightarrow> update_event s1 q (\<lambda>e'. e'\<lparr>ev_pair := None\<rparr>)) else Some s1) = Some s2"
      "(if i + 1 \<ge> 10 then Some (s2, t1) else pick_some ps (i + 1) s2 t1) = Some (s', ts')"
      using Cons.prems e True by (auto split: Option.bind_splits split del: if_split)
    have "R s1 s2" using m(2) by (auto split: if_splits option.splits intro: R_unpair)
    then have "R s s2" using rel_move[OF m(1)] by (rule R_trans[rotated])
    moreover have "R s2 s'" using m(3) Cons.IH by (cases "i + 1 \<ge> 10") auto
    ultimately show ?thesis by (rule R_trans)
  qed
qed simp

lemma rel_pick_all: "pick_all ps s ts = Some (s', ts') \<Longrightarrow> R s s'"
proof (induction ps arbitrary: s ts)
  case (Cons p ps)
  then obtain s1 t1 where "MOVE_EVENT s p ts = Some (s1, t1)" "pick_all ps s1 t1 = Some (s', ts')"
    by (auto split: Option.bind_splits)
  then show ?case using Cons.IH rel_move R_trans by meson
qed simp

lemma rel_pick_events: "pick_events s = Some (s', ts) \<Longrightarrow> R s s'"
  by (auto simp: pick_events_def split: if_splits dest: rel_pick_some rel_pick_all)

lemma rel_notify_loop: "notify_loop ts s = Some s' \<Longrightarrow> R s s'"
proof (induction ts arbitrary: s)
  case (Cons p ps)
  then obtain e s1 where "mem s p = Some e" "vfs_event_free (s\<lparr>notified := notified s @ [e]\<rparr>) p = Some s1"
    "notify_loop ps s1 = Some s'" by (auto split: Option.bind_splits)
  moreover have "R s (s\<lparr>notified := notified s @ [e]\<rparr>)" by simp
  ultimately show ?case using Cons.IH R_free R_trans by meson
qed simp

lemma rel_notify_events: "notify_events s ts = Some s' \<Longrightarrow> R s s'"
proof -
  assume "notify_events s ts = Some s'"
  then obtain s1 where s1: "notify_loop ts s = Some s1" "mem s' = mem s1"
    by (auto simp: notify_events_def split: if_splits Option.bind_splits)
  then show ?thesis using R_trans[OF rel_notify_loop R_mem] by blast
qed

lemma rel_check_events: "check_events s = Some (s', ts) \<Longrightarrow> R s s'"
  by (auto simp: check_events_def split: if_splits dest: rel_pick_events)

lemma rel_timer: "event_timeout_notify_callback s = Some s' \<Longrightarrow> R s s'"
proof -
  assume "event_timeout_notify_callback s = Some s'"
  then obtain s1 ts where "pick_events (s\<lparr>timer := False\<rparr>) = Some (s1, ts)" "notify_events s1 ts = Some s'"
    by (auto simp: event_timeout_notify_callback_def split: Option.bind_splits)
  moreover have "R s (s\<lparr>timer := False\<rparr>)" by simp
  ultimately show ?thesis using rel_pick_events rel_notify_events R_trans by meson
qed

end

text \<open>A relation that also allows an event to get a partner is respected by the whole delivery.\<close>

locale delivery_relation = cache_relation +
  assumes R_pair: "update_event s p (\<lambda>e. e\<lparr>ev_pair := q\<rparr>) = Some s' \<Longrightarrow> R s s'"
begin

lemma rel_pair_rename: "pair_rename s p = Some s' \<Longrightarrow> R s s'"
  unfolding pair_rename_def
  by (auto split: Option.bind_splits if_splits option.splits dest: R_retire intro: R_trans[OF R_pair R_pair])

lemma rel_deliver: "do_event_merge s p = Some s' \<Longrightarrow> R s s'"
proof -
  assume "do_event_merge s p = Some s'"
  then obtain s1 s2 ok s3 s4 s5 ts where s: "update_event s p (\<lambda>e. e\<lparr>ev_pair := None\<rparr>) = Some s1" "pair_rename s1 p = Some s2"
    "merge_event s2 p = Some (ok, s3)"
    "(if ok then vfs_event_free s3 p else Some (s3\<lparr>vfs_events := vfs_events s3 @ [p], events_number := events_number s3 + 1\<rparr>)) = Some s4"
    "check_events s4 = Some (s5, ts)" "notify_events s5 ts = Some s'"
    by (auto simp: do_event_merge_def split: Option.bind_splits)
  have "R s3 s4" using s(4) by (auto split: if_splits dest: R_free)
  then show ?thesis
    using R_unpair[OF s(1)] rel_pair_rename[OF s(2)] rel_merge_event[OF s(3)] rel_check_events[OF s(5)]
      rel_notify_events[OF s(6)] R_trans by meson
qed

end

end
