(* ===== verification/Event_Run.thy ===== *)
theory Event_Run
  imports Event_Safety Event_Relation
begin

text \<open>
  Runs of the event buffer: the sources of events (\<open>vfs_kretprobes.c\<close>, \<open>vfs_fsnotify.c\<close>) call
  \<open>do_event_merge\<close>, the armed timer fires.  The two halves of a rename carry a cookie that no
  other event has, and the first half is delivered before the second.
\<close>

subsection \<open>The entry points keep the invariant\<close>

lemma pick_events_run:
  assumes ok: "merge_ok s" and nq: "\<not> quit s"
  shows "\<exists>s' ts. pick_events s = Some (s', ts) \<and> send_ok s' ts \<and> length ts \<le> 10
    \<and> length ts + length (vfs_events s') = length (vfs_events s)
    \<and> (length ts = 10 \<or> (\<forall>x\<in>set (vfs_events s'). waiting s' x))
    \<and> quit s' = quit s \<and> timer s' = timer s \<and> notified s' = notified s"
proof -
  have "send_ok s []" using ok by (simp add: send_ok_def merge_ok_def)
  from pick_some_ok[OF this, of "[]" "vfs_events s" 0] show ?thesis using nq by (auto simp: pick_events_def)
qed

lemma notify_waiting:
  assumes "send_ok s ts" "mem s' = (mem s) |` (- set ts)" "x \<in> set (vfs_events s)" "waiting s x"
  shows "waiting s' x"
  using assms by (auto simp: waiting_def restrict_map_def send_ok_def)

text \<open>Sending frees exactly what was sent.\<close>

lemma send_batch:
  assumes ok: "merge_ok s" and nq: "\<not> quit s"
  shows "\<exists>s1 ts s'. pick_events s = Some (s1, ts) \<and> notify_events s1 ts = Some s' \<and> merge_ok s'
    \<and> length ts \<le> 10 \<and> length (notified s') = length (notified s) + length ts
    \<and> length ts + length (vfs_events s') = length (vfs_events s)
    \<and> (length ts = 10 \<or> (\<forall>x\<in>set (vfs_events s'). waiting s' x))
    \<and> \<not> quit s' \<and> timer s' = (timer s \<or> ts \<noteq> [] \<and> vfs_events s' \<noteq> [])"
proof -
  from pick_events_run[OF ok nq] obtain s1 ts where p: "pick_events s = Some (s1, ts)" "send_ok s1 ts"
    "length ts \<le> 10" "length ts + length (vfs_events s1) = length (vfs_events s)"
    "length ts = 10 \<or> (\<forall>x\<in>set (vfs_events s1). waiting s1 x)"
    "quit s1 = quit s" "timer s1 = timer s" "notified s1 = notified s" by blast
  have "length ts \<le> 100" using p(3) by simp
  from notify_events_ok[OF p(2) this] obtain s' where n: "notify_events s1 ts = Some s'" "merge_ok s'"
    "vfs_events s' = vfs_events s1" "quit s' = quit s1"
    "notified s' = notified s1 @ map (\<lambda>p. the (mem s1 p)) ts" "mem s' = (mem s1) |` (- set ts)"
    "timer s' = (timer s1 \<or> ts \<noteq> [] \<and> vfs_events s1 \<noteq> [])" by blast
  have "\<forall>x\<in>set (vfs_events s1). waiting s1 x \<longrightarrow> waiting s' x"
    using notify_waiting[OF p(2) n(6)] by blast
  then show ?thesis using p n nq by (intro exI[of _ s1] exI[of _ ts] exI[of _ s']) auto
qed

lemma timer_callback_ok:
  assumes "merge_ok s" "\<not> quit s"
  shows "\<exists>s'. event_timeout_notify_callback s = Some s' \<and> merge_ok s' \<and> \<not> quit s'
    \<and> length (notified s') + length (vfs_events s') = length (notified s) + length (vfs_events s)
    \<and> (length (notified s') = length (notified s) + 10 \<or> (\<forall>x\<in>set (vfs_events s'). waiting s' x))"
proof -
  have "merge_ok (s\<lparr>timer := False\<rparr>)" "\<not> quit (s\<lparr>timer := False\<rparr>)" using assms by (simp_all add: merge_ok_def)
  from send_batch[OF this] obtain s1 ts s' where "pick_events (s\<lparr>timer := False\<rparr>) = Some (s1, ts)"
    "notify_events s1 ts = Some s'" "merge_ok s'" "length (notified s') = length (notified s) + length ts"
    "length ts + length (vfs_events s') = length (vfs_events s)"
    "length ts = 10 \<or> (\<forall>x\<in>set (vfs_events s'). waiting s' x)" "\<not> quit s'" by auto
  then show ?thesis by (intro exI[of _ s']) (auto simp: event_timeout_notify_callback_def)
qed

text \<open>The list after the scan of the rules, before the events are sent.\<close>

definition stored :: "merge_state \<Rightarrow> nat \<Rightarrow> merge_state option" where
  "stored s event = do {
     s \<leftarrow> update_event s event (\<lambda>e. e\<lparr>ev_pair := None\<rparr>);
     s \<leftarrow> pair_rename s event;
     (ok, s) \<leftarrow> merge_event s event;
     if ok then vfs_event_free s event
     else Some (s\<lparr>vfs_events := vfs_events s @ [event], events_number := events_number s + 1\<rparr>) }"

lemma do_event_merge_stored:
  "do_event_merge s event = do {
     s \<leftarrow> stored s event;
     (s, tosend) \<leftarrow> check_events s;
     notify_events s tosend }"
  unfolding do_event_merge_def stored_def
  by (cases "update_event s event (\<lambda>e. e\<lparr>ev_pair := None\<rparr>)") (auto split: Option.bind_split)

lemma done_ok_freed:
  assumes "done_ok s cur s'"
  shows "\<exists>s''. vfs_event_free s' cur = Some s'' \<and> merge_ok s'' \<and> length (vfs_events s) = Suc (length (vfs_events s''))
    \<and> quit s'' = quit s \<and> timer s'' = timer s \<and> notified s'' = notified s"
proof -
  let ?L = "set (vfs_events s')"
  have d: "distinct (vfs_events s')" "events_number s' = int (length (vfs_events s'))" "cur \<notin> ?L"
    "dom (mem s') = insert cur ?L" "links (mem s') ?L" "ordered (mem s') {} (vfs_events s')"
    "length (vfs_events s) = Suc (length (vfs_events s'))"
    "quit s' = quit s" "timer s' = timer s" "notified s' = notified s"
    using assms by (auto simp: done_ok_def)
  let ?m = "(mem s')(cur := None)"
  obtain c where c: "mem s' cur = Some c" using d(4) by blast
  have "links ?m ?L" by (rule links_change[OF d(5)]) (use d(3) in auto)
  moreover have "ordered ?m {} (vfs_events s')"
  proof -
    have "ordered ?m {} (vfs_events s') = ordered (mem s') {} (vfs_events s')"
      by (rule ordered_cong) (use d(3) in \<open>auto simp: to_pair_def\<close>)
    then show ?thesis using d(6) by simp
  qed
  moreover have "dom ?m = ?L" using d(3,4) by auto
  ultimately have "merge_ok (s'\<lparr>mem := ?m\<rparr>)" using d by (simp add: merge_ok_def)
  then show ?thesis using c d by (simp add: vfs_event_free_def)
qed

lemma mid_ok_appended:
  assumes m: "mid_ok s cur"
  shows "merge_ok (s\<lparr>vfs_events := vfs_events s @ [cur], events_number := events_number s + 1\<rparr>)"
proof -
  have l: "links (mem s) (insert cur (set (vfs_events s)))" and o: "ordered (mem s) {} (vfs_events s)"
    and c: "cur \<notin> set (vfs_events s)" using m by (auto simp: mid_ok_def)
  have "q \<in> set (vfs_events s)" if q: "to_pair (mem s) cur = Some q" for q
  proof -
    obtain e where e: "mem s cur = Some e" "partner e = Some q" using q unfolding to_pair_partner by blast
    then show ?thesis using linksD[OF l _ e] by auto
  qed
  then have "ordered (mem s) {} (vfs_events s @ [cur])"
    using o by (auto simp: ordered_append ordered_Cons simp del: ordered.simps(2))
  then show ?thesis using m by (simp add: mid_ok_def merge_ok_def)
qed

lemma arrival_cookie:
  "arrival s event \<Longrightarrow> mem s event = Some c \<Longrightarrow> ev_action c = ACT_RENAME_TO_FILE \<Longrightarrow> p \<in> set (vfs_events s) \<Longrightarrow>
   mem s p = Some e \<Longrightarrow> ev_cookie e = ev_cookie c \<Longrightarrow> ev_action e = ACT_RENAME_FROM_FILE \<and> ev_pair e = None"
  unfolding arrival_def by force

lemma stored_ok:
  assumes a: "arrival s event"
  shows "\<exists>s'. stored s event = Some s' \<and> merge_ok s' \<and> quit s' = quit s \<and> timer s' = timer s \<and> notified s' = notified s
    \<and> (length (vfs_events s') = Suc (length (vfs_events s)) \<or> length (vfs_events s) = Suc (length (vfs_events s')))"
proof -
  from arrival_mid[OF a] obtain c where c: "mem s event = Some c" and
    u: "update_event s event (\<lambda>e. e\<lparr>ev_pair := None\<rparr>) = Some (s\<lparr>mem := (mem s)(event \<mapsto> c\<lparr>ev_pair := None\<rparr>)\<rparr>)"
    and m: "mid_ok (s\<lparr>mem := (mem s)(event \<mapsto> c\<lparr>ev_pair := None\<rparr>)\<rparr>) event" by blast
  define s1 where "s1 = s\<lparr>mem := (mem s)(event \<mapsto> c\<lparr>ev_pair := None\<rparr>)\<rparr>"
  have ne: "event \<notin> set (vfs_events s)" using a by (simp add: arrival_def)
  have "\<exists>s' c'. pair_rename s1 event = Some s' \<and> mid_ok s' event \<and> mem s' event = Some c'
    \<and> (ev_action c' \<noteq> ACT_RENAME_TO_FILE \<longrightarrow> partner c' = None)
    \<and> vfs_events s' = vfs_events s1 \<and> quit s' = quit s1 \<and> timer s' = timer s1 \<and> notified s' = notified s1"
  proof (rule pair_rename_step)
    show "mid_ok s1 event" using m by (simp add: s1_def)
    show "mem s1 event = Some (c\<lparr>ev_pair := None\<rparr>)" by (simp add: s1_def)
    show "ev_pair (c\<lparr>ev_pair := None\<rparr>) = None" by simp
    show "\<forall>p\<in>set (vfs_events s1). \<forall>e. mem s1 p = Some e \<and> ev_cookie e = ev_cookie (c\<lparr>ev_pair := None\<rparr>)
        \<longrightarrow> ev_action e = ACT_RENAME_FROM_FILE \<and> ev_pair e = None"
      if "ev_action (c\<lparr>ev_pair := None\<rparr>) = ACT_RENAME_TO_FILE"
    proof (intro ballI allI impI)
      fix p e assume p: "p \<in> set (vfs_events s1)" "mem s1 p = Some e \<and> ev_cookie e = ev_cookie (c\<lparr>ev_pair := None\<rparr>)"
      then have "p \<in> set (vfs_events s)" "mem s p = Some e" "ev_cookie e = ev_cookie c"
        using ne by (auto simp: s1_def split: if_splits)
      then show "ev_action e = ACT_RENAME_FROM_FILE \<and> ev_pair e = None" using arrival_cookie[OF a c] that by simp
    qed
  qed
  then obtain s2 c2 where s2': "pair_rename s1 event = Some s2" "mid_ok s2 event" "mem s2 event = Some c2"
    "ev_action c2 \<noteq> ACT_RENAME_TO_FILE \<longrightarrow> partner c2 = None" "vfs_events s2 = vfs_events s1"
    "quit s2 = quit s1" "timer s2 = timer s1" "notified s2 = notified s1" by blast
  have s1: "vfs_events s1 = vfs_events s" "quit s1 = quit s" "timer s1 = timer s" "notified s1 = notified s"
    by (simp_all add: s1_def)
  note s2 = s2'(1-4) s2'(5)[unfolded s1] s2'(6)[unfolded s1] s2'(7)[unfolded s1] s2'(8)[unfolded s1]
  have "rule_step s2 event (merge_event s2 event)" by (rule merge_event_step[OF s2(2,3)]) (use s2(4) in blast)
  then consider "merge_event s2 event = Some (False, s2)"
    | s3 where "merge_event s2 event = Some (True, s3)" "done_ok s2 event s3" by (auto simp: rule_step_def)
  then show ?thesis
  proof cases
    case 1
    then have "stored s event
        = Some (s2\<lparr>vfs_events := vfs_events s2 @ [event], events_number := events_number s2 + 1\<rparr>)"
      using u s2(1) by (simp add: stored_def s1_def[symmetric])
    then show ?thesis using mid_ok_appended[OF s2(2)] s2 by simp
  next
    case 2
    from done_ok_freed[OF 2(2)] obtain s4 where "vfs_event_free s3 event = Some s4" "merge_ok s4"
      "length (vfs_events s2) = Suc (length (vfs_events s4))" "quit s4 = quit s2" "timer s4 = timer s2"
      "notified s4 = notified s2" by blast
    moreover from this have "stored s event = Some s4"
      using 2 u s2(1) by (simp add: stored_def s1_def[symmetric])
    ultimately show ?thesis using s2 by auto
  qed
qed

lemma do_event_merge_ok:
  assumes a: "arrival s event" and nq: "\<not> quit s"
  shows "\<exists>s'. do_event_merge s event = Some s' \<and> merge_ok s' \<and> \<not> quit s'
    \<and> (length (vfs_events s') < 100 \<or> length (notified s') = length (notified s) + 10
       \<or> (\<forall>x\<in>set (vfs_events s'). waiting s' x))"
proof -
  from stored_ok[OF a] obtain s1 where s1: "stored s event = Some s1" "merge_ok s1" "quit s1 = quit s"
    "notified s1 = notified s" by blast
  have n: "events_number s1 = int (length (vfs_events s1))" using s1(2) by (simp add: merge_ok_def)
  show ?thesis
  proof (cases "100 \<le> length (vfs_events s1)")
    case True
    then have ce: "check_events s1 = pick_events s1" using n by (auto simp: check_events_def)
    have "\<not> quit s1" using nq s1 by simp
    from send_batch[OF s1(2) this] obtain s2 ts s3 where "pick_events s1 = Some (s2, ts)"
      "notify_events s2 ts = Some s3" "merge_ok s3" "length (notified s3) = length (notified s1) + length ts"
      "length ts = 10 \<or> (\<forall>x\<in>set (vfs_events s3). waiting s3 x)" "\<not> quit s3" by blast
    then show ?thesis using s1 ce unfolding do_event_merge_stored by (intro exI[of _ s3]) auto
  next
    case False
    define s2 where "s2 = (if events_number s1 = 0 then s1\<lparr>timer := False\<rparr>
      else if events_number s1 = 1 then s1\<lparr>timer := True\<rparr> else s1)"
    have ce: "check_events s1 = Some (s2, [])" using False n by (simp add: check_events_def s2_def)
    have "notify_events s2 [] = Some s2" by (simp add: notify_events_def)
    moreover have "merge_ok s2" "\<not> quit s2" "vfs_events s2 = vfs_events s1"
      using s1 nq by (auto simp: s2_def merge_ok_def)
    ultimately show ?thesis using s1 ce False unfolding do_event_merge_stored by (intro exI[of _ s2]) auto
  qed
qed

subsection \<open>Cookies\<close>

text \<open>\<open>calm\<close>: no event gets a cookie or a partner it did not have.\<close>

definition calm :: "merge_state \<Rightarrow> merge_state \<Rightarrow> bool" where
  "calm s s' \<longleftrightarrow> (\<forall>p e'. mem s' p = Some e' \<longrightarrow> ev_cookie e' = 0 \<or> (\<exists>e. mem s p = Some e
     \<and> ev_cookie e' = ev_cookie e \<and> ev_action e' = ev_action e \<and> (ev_pair e' = None \<or> ev_pair e' = ev_pair e)))"

lemma calm_refl [simp]: "mem s' = mem s \<Longrightarrow> calm s s'"
  by (simp add: calm_def)

lemma calmD: "calm s s' \<Longrightarrow> mem s' p = Some e' \<Longrightarrow> ev_cookie e' \<noteq> 0 \<Longrightarrow> \<exists>e. mem s p = Some e
    \<and> ev_cookie e' = ev_cookie e \<and> ev_action e' = ev_action e \<and> (ev_pair e' = None \<or> ev_pair e' = ev_pair e)"
  unfolding calm_def by blast

lemma calm_trans:
  assumes "calm s s'" "calm s' s''"
  shows "calm s s''"
  unfolding calm_def
proof (intro allI impI)
  fix p e2 assume e2: "mem s'' p = Some e2"
  show "ev_cookie e2 = 0 \<or> (\<exists>e. mem s p = Some e \<and> ev_cookie e2 = ev_cookie e \<and> ev_action e2 = ev_action e
      \<and> (ev_pair e2 = None \<or> ev_pair e2 = ev_pair e))"
  proof (cases "ev_cookie e2 = 0")
    case False
    from calmD[OF assms(2) e2 False] obtain e1 where e1: "mem s' p = Some e1" "ev_cookie e2 = ev_cookie e1"
      "ev_action e2 = ev_action e1" "ev_pair e2 = None \<or> ev_pair e2 = ev_pair e1" by blast
    have "ev_cookie e1 \<noteq> 0" using e1 False by simp
    from calmD[OF assms(1) e1(1) this] e1 show ?thesis by auto
  qed simp
qed

lemma calm_free: "vfs_event_free s p = Some s' \<Longrightarrow> calm s s'"
  by (auto simp: vfs_event_free_def calm_def split: option.splits if_splits)

lemma calm_retire: "update_event s p (retire a) = Some s' \<Longrightarrow> calm s s'"
  by (auto simp: update_event_def retire_def calm_def split: option.splits if_splits)

lemma calm_unpair: "update_event s p (\<lambda>e. e\<lparr>ev_pair := None\<rparr>) = Some s' \<Longrightarrow> calm s s'"
  by (auto simp: update_event_def calm_def split: option.splits if_splits)

interpretation calm: cache_relation calm
  by unfold_locales (auto simp: calm_free calm_retire calm_unpair intro: calm_trans)

end
