(* ===== verification/Event_Machine.thy ===== *)
theory Event_Machine
  imports Event_Run
begin

text \<open>
  The buffer as a state machine.  \<open>C\<close> holds the cookies of the renames whose first half was
  delivered and whose second half was not.  The rules are the calls of the event sources:
  a first half has a cookie of its own, which is not 0 (\<open>atomic_inc_return\<close> in \<open>vfs_kretprobes.c\<close>, as long as the
  counter has not wrapped), a second half the cookie of a delivered first half, or that of a first half which the
  source did not deliver (the listener of the notification looks at each half by itself), and every other event a
  cookie outside \<open>C\<close>.  What a cookie 0 of a rename does is shown in theory Event_Claims.
\<close>

subsection \<open>Steps\<close>

definition alloc_event :: "merge_state \<Rightarrow> nat \<Rightarrow> vfs_event \<Rightarrow> merge_state" where
  "alloc_event s p e = s\<lparr>mem := (mem s)(p \<mapsto> e)\<rparr>"

definition cookie_free :: "merge_state \<Rightarrow> u32 \<Rightarrow> bool" where
  "cookie_free s c \<longleftrightarrow> (\<forall>p e. mem s p = Some e \<longrightarrow> ev_cookie e \<noteq> c)"

inductive merge_step :: "merge_state \<times> u32 set \<Rightarrow> merge_state \<times> u32 set \<Rightarrow> bool" where
  first_half: "mem s p = None \<Longrightarrow> ev_action e = ACT_RENAME_FROM_FILE \<Longrightarrow> ev_cookie e \<noteq> 0 \<Longrightarrow> ev_cookie e \<notin> C \<Longrightarrow>
    cookie_free s (ev_cookie e) \<Longrightarrow> do_event_merge (alloc_event s p e) p = Some s' \<Longrightarrow>
    merge_step (s, C) (s', insert (ev_cookie e) C)"
| second_half: "mem s p = None \<Longrightarrow> ev_action e = ACT_RENAME_TO_FILE \<Longrightarrow> ev_cookie e \<in> C \<Longrightarrow>
    do_event_merge (alloc_event s p e) p = Some s' \<Longrightarrow> merge_step (s, C) (s', C - {ev_cookie e})"
| lone_half: "mem s p = None \<Longrightarrow> ev_action e = ACT_RENAME_TO_FILE \<Longrightarrow> ev_cookie e \<notin> C \<Longrightarrow>
    cookie_free s (ev_cookie e) \<Longrightarrow> do_event_merge (alloc_event s p e) p = Some s' \<Longrightarrow> merge_step (s, C) (s', C)"
| other_event: "mem s p = None \<Longrightarrow> \<not> is_half (ev_action e) \<Longrightarrow> ev_cookie e \<notin> C \<Longrightarrow>
    do_event_merge (alloc_event s p e) p = Some s' \<Longrightarrow> merge_step (s, C) (s', C)"
| timer_fires: "timer s \<Longrightarrow> event_timeout_notify_callback s = Some s' \<Longrightarrow> merge_step (s, C) (s', C)"

inductive_cases merge_stepE: "merge_step (s, C) t"
inductive_simps merge_step_simps: "merge_step (s, C) (s', C')"

definition merge_init :: merge_state where
  "merge_init = \<lparr>mem = Map.empty, vfs_events = [], events_number = 0, quit = False, timer = False, notified = []\<rparr>"

definition reachable :: "merge_state \<Rightarrow> u32 set \<Rightarrow> bool" where
  "reachable s C \<longleftrightarrow> merge_step\<^sup>*\<^sup>* (merge_init, {}) (s, C)"

subsection \<open>The invariant\<close>

definition open_ok :: "merge_state \<Rightarrow> u32 set \<Rightarrow> bool" where
  "open_ok s C \<longleftrightarrow> 0 \<notin> C \<and> (\<forall>p e. mem s p = Some e \<and> ev_cookie e \<in> C \<longrightarrow>
     ev_action e = ACT_RENAME_FROM_FILE \<and> ev_pair e = None)"

lemma open_ok_calm: "open_ok s C \<Longrightarrow> calm s s' \<Longrightarrow> open_ok s' C"
  unfolding open_ok_def using calmD[of s s'] by (metis (no_types, lifting))

lemma open_ok_mono: "open_ok s C \<Longrightarrow> D \<subseteq> C \<Longrightarrow> open_ok s D"
  unfolding open_ok_def by blast

text \<open>Pairing gives two events a partner; their cookie is no longer open.\<close>

lemma open_ok_pair:
  assumes p: "pair_rename s event = Some s'" and c: "mem s event = Some c"
    and o: "open_ok s C" and cc: "ev_action c = ACT_RENAME_TO_FILE \<Longrightarrow> ev_cookie c \<notin> C"
  shows "open_ok s' C"
proof (cases "ev_action c = ACT_RENAME_TO_FILE")
  case False
  then show ?thesis using p c o by (simp add: pair_rename_def)
next
  case True
  obtain r where r: "find_cookie s (vfs_events s) (ev_cookie c) = Some r"
    using p c True by (auto simp: pair_rename_def split: Option.bind_splits)
  show ?thesis
  proof (cases r)
    case None
    then have "update_event s event (retire ACT_NEW_FILE) = Some s'"
      using p c True r by (simp add: pair_rename_def)
    then show ?thesis using open_ok_calm[OF o calm_retire] by blast
  next
    case (Some q)
    have "\<exists>e. mem s q = Some e \<and> ev_cookie e = ev_cookie c" if "find_cookie s ps (ev_cookie c) = Some (Some q)" for ps
      using that by (induction ps) (auto split: Option.bind_splits if_splits)
    then obtain e where e: "mem s q = Some e" "ev_cookie e = ev_cookie c" using r Some by blast
    have u: "update_event s q (\<lambda>e. e\<lparr>ev_pair := Some event\<rparr>) = Some (s\<lparr>mem := (mem s)(q \<mapsto> e\<lparr>ev_pair := Some event\<rparr>)\<rparr>)"
      using e by (simp add: update_event_def)
    obtain c' where c': "mem (s\<lparr>mem := (mem s)(q \<mapsto> e\<lparr>ev_pair := Some event\<rparr>)\<rparr>) event = Some c'" "ev_cookie c' = ev_cookie c"
      using c e by (cases "q = event") auto
    have "s' = s\<lparr>mem := (mem s)(q \<mapsto> e\<lparr>ev_pair := Some event\<rparr>, event \<mapsto> c'\<lparr>ev_pair := Some q\<rparr>)\<rparr>"
      using p c True r Some u c' by (simp add: pair_rename_def update_event_def split: if_splits)
    then show ?thesis using o e c' cc[OF True] unfolding open_ok_def by auto
  qed
qed

lemma open_ok_merge:
  assumes d: "do_event_merge s event = Some s'" and c: "mem s event = Some c"
    and o: "open_ok (s\<lparr>mem := (mem s)(event \<mapsto> c\<lparr>ev_pair := None\<rparr>)\<rparr>) C"
    and cc: "ev_action c = ACT_RENAME_TO_FILE \<Longrightarrow> ev_cookie c \<notin> C"
  shows "open_ok s' C"
proof -
  define s1 where "s1 = s\<lparr>mem := (mem s)(event \<mapsto> c\<lparr>ev_pair := None\<rparr>)\<rparr>"
  have u: "update_event s event (\<lambda>e. e\<lparr>ev_pair := None\<rparr>) = Some s1" using c by (simp add: update_event_def s1_def)
  obtain s2 ok s3 s4 s5 ts where s: "pair_rename s1 event = Some s2" "merge_event s2 event = Some (ok, s3)"
    "(if ok then vfs_event_free s3 event
      else Some (s3\<lparr>vfs_events := vfs_events s3 @ [event], events_number := events_number s3 + 1\<rparr>)) = Some s4"
    "check_events s4 = Some (s5, ts)" "notify_events s5 ts = Some s'"
    using d u by (auto simp: do_event_merge_def split: Option.bind_splits split del: if_split)
  have "open_ok s1 C" using o by (simp add: s1_def)
  have "mem s1 event = Some (c\<lparr>ev_pair := None\<rparr>)" by (simp add: s1_def)
  from open_ok_pair[OF s(1) this \<open>open_ok s1 C\<close>] cc have "open_ok s2 C" by simp
  moreover have "calm s3 s4" using s(3) by (cases ok) (auto intro: calm_free)
  ultimately show ?thesis
    using calm.rel_merge_event[OF s(2)] calm.rel_check_events[OF s(4)] calm.rel_notify_events[OF s(5)] open_ok_calm by blast
qed

definition machine_ok :: "merge_state \<times> u32 set \<Rightarrow> bool" where
  "machine_ok x \<longleftrightarrow> merge_ok (fst x) \<and> open_ok (fst x) (snd x) \<and> \<not> quit (fst x)"

lemma arrival_alloc:
  assumes m: "machine_ok (s, C)" and p: "mem s p = None"
    and e: "ev_action e = ACT_RENAME_TO_FILE \<Longrightarrow> ev_cookie e \<in> C \<or> cookie_free s (ev_cookie e)"
  shows "arrival (alloc_event s p e) p"
proof -
  have ok: "merge_ok s" "open_ok s C" using m by (simp_all add: machine_ok_def)
  have "p \<notin> set (vfs_events s)" using ok(1) p by (auto simp: merge_ok_def)
  moreover have "(mem s)(p := None) = mem s" using p by auto
  moreover have "s\<lparr>mem := mem s\<rparr> = s" by simp
  moreover have "\<forall>q\<in>set (vfs_events s). \<forall>x. ((mem s)(p \<mapsto> e)) q = Some x \<and> ev_cookie x = ev_cookie e
      \<longrightarrow> ev_action x = ACT_RENAME_FROM_FILE \<and> ev_pair x = None" if "ev_action e = ACT_RENAME_TO_FILE"
  proof (intro ballI allI impI)
    fix q x assume q: "q \<in> set (vfs_events s)" "((mem s)(p \<mapsto> e)) q = Some x \<and> ev_cookie x = ev_cookie e"
    have "q \<noteq> p" using q(1) \<open>p \<notin> set (vfs_events s)\<close> by blast
    then have "mem s q = Some x" "ev_cookie x = ev_cookie e" using q(2) by simp_all
    then have "mem s q = Some x" "ev_cookie x \<in> C" using e[OF that] unfolding cookie_free_def by metis+
    then show "ev_action x = ACT_RENAME_FROM_FILE \<and> ev_pair x = None" using ok(2) unfolding open_ok_def by blast
  qed
  ultimately show ?thesis using ok(1) by (simp add: arrival_def alloc_event_def)
qed

lemma open_ok_alloc:
  assumes m: "machine_ok (s, C)" and d: "do_event_merge (alloc_event s p e) p = Some s'" and D: "0 \<notin> D" "D - {ev_cookie e} \<subseteq> C"
    and e: "ev_cookie e \<in> D \<Longrightarrow> ev_action e = ACT_RENAME_FROM_FILE"
    and fr: "ev_cookie e \<in> D \<Longrightarrow> cookie_free s (ev_cookie e)"
  shows "open_ok s' D"
proof (rule open_ok_merge[OF d])
  show "mem (alloc_event s p e) p = Some e" by (simp add: alloc_event_def)
  have o: "open_ok s C" using m by (simp add: machine_ok_def)
  have "ev_action x = ACT_RENAME_FROM_FILE \<and> ev_pair x = None"
    if x: "mem s r = Some x" "ev_cookie x \<in> D" for r x
  proof (cases "ev_cookie x = ev_cookie e")
    case True
    then show ?thesis using fr x by (auto simp: cookie_free_def)
  next
    case False
    then have "ev_cookie x \<in> C" using x D by auto
    then show ?thesis using o x unfolding open_ok_def by blast
  qed
  then show "open_ok ((alloc_event s p e)\<lparr>mem := (mem (alloc_event s p e))(p \<mapsto> e\<lparr>ev_pair := None\<rparr>)\<rparr>) D"
    using D(1) e by (auto simp: open_ok_def alloc_event_def)
  show "ev_action e = ACT_RENAME_TO_FILE \<Longrightarrow> ev_cookie e \<notin> D" using e by auto
qed

lemma merge_step_ok: "merge_step x y \<Longrightarrow> machine_ok x \<Longrightarrow> machine_ok y"
proof (induction rule: merge_step.induct)
  case (first_half s p e C s')
  have "arrival (alloc_event s p e) p" by (rule arrival_alloc[OF first_half.prems first_half.hyps(1)]) (use first_half in simp)
  from do_event_merge_ok[OF this] have "merge_ok s' \<and> \<not> quit s'"
    using first_half by (auto simp: machine_ok_def alloc_event_def)
  moreover have "open_ok s' (insert (ev_cookie e) C)"
    by (rule open_ok_alloc[OF first_half.prems first_half.hyps(6)])
      (use first_half in \<open>auto simp: machine_ok_def open_ok_def\<close>)
  ultimately show ?case by (simp add: machine_ok_def)
next
  case (second_half s p e C s')
  have "arrival (alloc_event s p e) p" by (rule arrival_alloc[OF second_half.prems second_half.hyps(1)]) (use second_half in simp)
  from do_event_merge_ok[OF this] have "merge_ok s' \<and> \<not> quit s'"
    using second_half by (auto simp: machine_ok_def alloc_event_def)
  moreover have "open_ok s' (C - {ev_cookie e})"
    by (rule open_ok_alloc[OF second_half.prems second_half.hyps(4)])
      (use second_half in \<open>auto simp: machine_ok_def open_ok_def\<close>)
  ultimately show ?case by (simp add: machine_ok_def)
next
  case (lone_half s p e C s')
  have "arrival (alloc_event s p e) p" by (rule arrival_alloc[OF lone_half.prems lone_half.hyps(1)]) (use lone_half in simp)
  from do_event_merge_ok[OF this] have "merge_ok s' \<and> \<not> quit s'"
    using lone_half by (auto simp: machine_ok_def alloc_event_def)
  moreover have "open_ok s' C"
    by (rule open_ok_alloc[OF lone_half.prems lone_half.hyps(5)])
      (use lone_half in \<open>auto simp: machine_ok_def open_ok_def\<close>)
  ultimately show ?case by (simp add: machine_ok_def)
next
  case (other_event s p e C s')
  have "arrival (alloc_event s p e) p"
    by (rule arrival_alloc[OF other_event.prems other_event.hyps(1)]) (use other_event in \<open>simp add: is_half_def\<close>)
  from do_event_merge_ok[OF this] have "merge_ok s' \<and> \<not> quit s'"
    using other_event by (auto simp: machine_ok_def alloc_event_def)
  moreover have "open_ok s' C"
    by (rule open_ok_alloc[OF other_event.prems other_event.hyps(4)])
      (use other_event in \<open>auto simp: machine_ok_def open_ok_def\<close>)
  ultimately show ?case by (simp add: machine_ok_def)
next
  case (timer_fires s s' C)
  then have "merge_ok s" "\<not> quit s" by (simp_all add: machine_ok_def)
  from timer_callback_ok[OF this] have "merge_ok s' \<and> \<not> quit s'" using timer_fires by auto
  moreover have "open_ok s' C"
    using timer_fires open_ok_calm[OF _ calm.rel_timer[OF timer_fires.hyps(2)]] by (simp add: machine_ok_def)
  ultimately show ?case by (simp add: machine_ok_def)
qed

lemma reachable_ok: "reachable s C \<Longrightarrow> machine_ok (s, C)"
  unfolding reachable_def
proof (induction rule: rtranclp_induct2)
  case refl
  show ?case by (simp add: machine_ok_def merge_init_def merge_ok_def open_ok_def links_def)
next
  case (step s C s' C')
  then show ?case using merge_step_ok by blast
qed

subsection \<open>Concrete runs\<close>

text \<open>Lists of events that are delivered to the buffer one by one.\<close>

definition file_event :: "vfs_action \<Rightarrow> u32 \<Rightarrow> cstring \<Rightarrow> vfs_event" where
  "file_event a c path = \<lparr>ev_action = a, ev_cookie = c, ev_dev = 1, ev_path = path, ev_pair = None\<rparr>"

text \<open>Deliver a list of events, each in a fresh object.\<close>

fun deliver :: "nat \<Rightarrow> vfs_event list \<Rightarrow> merge_state \<Rightarrow> merge_state option" where
  "deliver p [] s = Some s"
| "deliver p (e # es) s = do { s \<leftarrow> do_event_merge (alloc_event s p e) p; deliver (p + 1) es s }"

end
