(* ===== verification/Event_Claims.thy ===== *)
theory Event_Claims
  imports Event_Machine
begin

text \<open>
  The correctness of the event buffer over all runs of its state machine, and the runs in
  which the merged sequence is not what happened.
\<close>

subsection \<open>All runs\<close>

lemma reachable_step_ok:
  assumes "reachable s C" "mem s p = None"
    and "ev_action e = ACT_RENAME_TO_FILE \<Longrightarrow> ev_cookie e \<in> C \<or> cookie_free s (ev_cookie e)"
  shows "\<exists>s'. do_event_merge (alloc_event s p e) p = Some s' \<and> merge_ok s' \<and> dom (mem s') = set (vfs_events s')
    \<and> (length (vfs_events s') < 100 \<or> length (notified s') = length (notified s) + 10
       \<or> (\<forall>x\<in>set (vfs_events s'). waiting s' x))"
proof -
  have m: "machine_ok (s, C)" by (rule reachable_ok[OF assms(1)])
  from do_event_merge_ok[OF arrival_alloc[OF m assms(2,3)]] m show ?thesis
    by (auto simp: machine_ok_def alloc_event_def merge_ok_def)
qed

lemma pick_all_length: "pick_all ps s ts = Some (s', ts') \<Longrightarrow> length ts' = length ts + length ps"
  by (induction ps arbitrary: s ts) (auto simp: MOVE_EVENT_def split: Option.bind_splits if_splits)

text \<open>C9: memory safety, as long as each rename has a cookie of its own: not 0, and not that of any other event in the
  buffer, of another rename under way or of any other event, which holds until the 32-bit counter of the source wraps
  (\<open>wrapped_cookie_dangles\<close> has what happens then).  In every
  state that the event sources and the timer can then reach, every event that is delivered next - a second half whose
  first half was delivered, a second half without a first, or any other event - is taken without
  touching a freed event or leaving an array, the allocated events are exactly those in the buffer (none leaks), and the
  links between the halves of a rename are intact.\<close>

theorem event_merge_safe:
  assumes "reachable s C" "mem s p = None"
    and "ev_action e = ACT_RENAME_TO_FILE \<Longrightarrow> ev_cookie e \<in> C \<or> cookie_free s (ev_cookie e)"
  shows "\<exists>s'. do_event_merge (alloc_event s p e) p = Some s' \<and> merge_ok s' \<and> dom (mem s') = set (vfs_events s')"
  using reachable_step_ok[OF assms] by blast

theorem event_merge_safe_witness:
  "\<exists>s'. do_event_merge (alloc_event merge_init 7 (file_event ACT_NEW_FILE 0 [47, 97])) 7 = Some s'
    \<and> merge_ok s' \<and> dom (mem s') = set (vfs_events s')"
  by (rule event_merge_safe[where C = "{}"]) (simp_all add: reachable_def merge_init_def file_event_def)

text \<open>A second half that is delivered alone: it becomes a new file.\<close>

lemma lone_half_is_new_file:
  "map_option (\<lambda>s. map (\<lambda>p. map_option (\<lambda>e. (ev_action e, ev_cookie e, ev_pair e)) (mem s p)) (vfs_events s))
    (deliver 0 [file_event ACT_RENAME_TO_FILE 3 [98]] merge_init) = Some [Some (ACT_NEW_FILE, 0, None)]"
  by code_simp

text \<open>A defect.  The counter of the cookies wraps after \<open>2\<^sup>3\<^sup>2\<close> renames, and 0 is the cookie of all events that are not
  renames.  Then the second half of the rename with the cookie 0 is paired with the first event of the buffer, here
  the new file \<open>x\<close>.  When \<open>x\<close> is deleted, that event is freed; the second half keeps the pointer to it, and the
  deletion of its file writes to the freed event.\<close>

lemma wrapped_cookie_dangles:
  "map_option (\<lambda>s. (vfs_events s, mem s 0, map_option ev_pair (mem s 2)))
    (deliver 0 [file_event ACT_NEW_FILE 0 [120], file_event ACT_RENAME_FROM_FILE 0 [97],
       file_event ACT_RENAME_TO_FILE 0 [98], file_event ACT_DEL_FILE 0 [120]] merge_init) = Some ([1, 2], None, Some (Some 0))"
  "deliver 0 [file_event ACT_NEW_FILE 0 [120], file_event ACT_RENAME_FROM_FILE 0 [97],
     file_event ACT_RENAME_TO_FILE 0 [98], file_event ACT_DEL_FILE 0 [120], file_event ACT_DEL_FILE 0 [98]] merge_init = None"
  by code_simp+

text \<open>C31: the buffer is bounded: after a delivery it holds fewer than 100 events, or ten events have
  just been sent, or all that is left are first halves of renames that wait for the second.\<close>

theorem event_buffer_bound:
  assumes "reachable s C" "mem s p = None"
    and "ev_action e = ACT_RENAME_TO_FILE \<Longrightarrow> ev_cookie e \<in> C \<or> cookie_free s (ev_cookie e)"
    and "do_event_merge (alloc_event s p e) p = Some s'"
  shows "length (vfs_events s') < 100 \<or> length (notified s') = length (notified s) + 10
    \<or> (\<forall>x\<in>set (vfs_events s'). waiting s' x)"
  using reachable_step_ok[OF assms(1-3)] assms(4) by auto

theorem event_buffer_bound_witness:
  "\<exists>s'. do_event_merge (alloc_event merge_init 7 (file_event ACT_NEW_FILE 0 [47, 97])) 7 = Some s'
    \<and> (length (vfs_events s') < 100 \<or> length (notified s') = length (notified merge_init) + 10
       \<or> (\<forall>x\<in>set (vfs_events s'). waiting s' x))"
proof -
  have "do_event_merge (alloc_event merge_init 7 (file_event ACT_NEW_FILE 0 [47, 97])) 7 \<noteq> None"
    by (simp add: do_event_merge_def alloc_event_def merge_init_def file_event_def update_event_def
      pair_rename_def merge_event_def action_merge_fns_def check_events_def notify_events_def)
  then obtain s' where s': "do_event_merge (alloc_event merge_init 7 (file_event ACT_NEW_FILE 0 [47, 97])) 7 = Some s'"
    by blast
  have "length (vfs_events s') < 100 \<or> length (notified s') = length (notified merge_init) + 10
       \<or> (\<forall>x\<in>set (vfs_events s'). waiting s' x)"
    by (rule event_buffer_bound[where C = "{}" and p = 7, OF _ _ _ s'])
      (simp_all add: reachable_def merge_init_def file_event_def)
  then show ?thesis using s' by blast
qed

text \<open>C32: the timer.  When it fires in a reachable state, the callback returns; every event is either
  still in the buffer or was sent, and unless a full batch of ten was sent only waiting first
  halves are left.\<close>

theorem timer_sends_all:
  assumes "reachable s C" "timer s"
  shows "\<exists>s'. event_timeout_notify_callback s = Some s' \<and> reachable s' C
    \<and> length (notified s') + length (vfs_events s') = length (notified s) + length (vfs_events s)
    \<and> (length (notified s') = length (notified s) + 10 \<or> (\<forall>x\<in>set (vfs_events s'). waiting s' x))"
proof -
  have "machine_ok (s, C)" by (rule reachable_ok[OF assms(1)])
  then have "merge_ok s" "\<not> quit s" by (simp_all add: machine_ok_def)
  from timer_callback_ok[OF this] obtain s' where s': "event_timeout_notify_callback s = Some s'"
    "length (notified s') + length (vfs_events s') = length (notified s) + length (vfs_events s)"
    "length (notified s') = length (notified s) + 10 \<or> (\<forall>x\<in>set (vfs_events s'). waiting s' x)" by blast
  have "reachable s' C" using assms(1) merge_step.timer_fires[OF assms(2) s'(1), of C]
    unfolding reachable_def by (rule rtranclp.rtrancl_into_rtrancl)
  then show ?thesis using s' by blast
qed

text \<open>One file was created: the state before the timer fires.\<close>

definition created_state :: merge_state where
  "created_state = \<lparr>mem = [0 \<mapsto> file_event ACT_NEW_FILE 0 [47, 97]], vfs_events = [0], events_number = 1,
     quit = False, timer = True, notified = []\<rparr>"

lemma created_reachable: "reachable created_state {}"
proof -
  have "do_event_merge (alloc_event merge_init 0 (file_event ACT_NEW_FILE 0 [47, 97])) 0 = Some created_state"
    by (simp add: do_event_merge_def alloc_event_def merge_init_def file_event_def update_event_def
      pair_rename_def merge_event_def action_merge_fns_def check_events_def notify_events_def created_state_def)
  then have "merge_step (merge_init, {}) (created_state, {})"
    by (rule merge_step.other_event[rotated -1]) (simp_all add: merge_init_def file_event_def)
  then show ?thesis unfolding reachable_def by blast
qed

theorem timer_sends_all_witness:
  "\<exists>s'. event_timeout_notify_callback created_state = Some s' \<and> reachable s' {}
    \<and> length (notified s') + length (vfs_events s') = 1
    \<and> (length (notified s') = 10 \<or> (\<forall>x\<in>set (vfs_events s'). waiting s' x))"
  using timer_sends_all[OF created_reachable] by (simp add: created_state_def)

subsection \<open>Runs that go wrong\<close>

text \<open>A defect.  A file is written under a temporary name and renamed over the existing file
  \<open>f\<close>, then \<open>f\<close> is deleted.  The rules cancel all four events, so nothing is ever sent and the
  index keeps the file \<open>f\<close>, which does not exist any more.\<close>

theorem rename_over_then_delete_is_lost:
  "map_option (\<lambda>s. (vfs_events s, notified s))
    (deliver 0 [file_event ACT_NEW_FILE 0 [116], file_event ACT_RENAME_FROM_FILE 1 [116],
       file_event ACT_RENAME_TO_FILE 1 [102], file_event ACT_DEL_FILE 0 [102]] merge_init) = Some ([], [])"
  by code_simp

text \<open>A defect.  The rules look through the rename of a folder.  The file \<open>d/x\<close> is deleted, the
  folder \<open>d\<close> renamed to \<open>e\<close>, a new folder \<open>d\<close> with a new file \<open>d/x\<close> is made: the deletion and the
  creation cancel each other although they are about different folders, so the index shows
  the deleted file as \<open>e/x\<close> and misses the new one.\<close>

theorem folder_rename_is_no_barrier:
  "map_option (\<lambda>s. map (\<lambda>p. map_option (\<lambda>e. (ev_action e, ev_path e)) (mem s p)) (vfs_events s))
    (deliver 0 [file_event ACT_DEL_FILE 0 [100, 47, 120],
       file_event ACT_RENAME_FROM_FOLDER 1 [100], file_event ACT_RENAME_TO_FOLDER 1 [101],
       file_event ACT_NEW_FOLDER 0 [100], file_event ACT_NEW_FILE 0 [100, 47, 120]] merge_init)
   = Some [Some (ACT_RENAME_FROM_FOLDER, [100]), Some (ACT_RENAME_TO_FOLDER, [101]), Some (ACT_NEW_FOLDER, [100])]"
  by code_simp

text \<open>a defect.  The timer fires between the two halves of a rename: the first half stays alone
  in the buffer, the timer is not armed again, and the arrival of the second half does not arm
  it either.  The pair is stuck until another hundred events come, and unloading the module
  waits for ever (\<open>emptying_stuck\<close> in theory Vfs_Module).\<close>

theorem lost_wakeup:
  "map_option (\<lambda>s. (vfs_events s, notified s, timer s))
    (do { s \<leftarrow> deliver 0 [file_event ACT_RENAME_FROM_FILE 1 [97]] merge_init;
          s \<leftarrow> event_timeout_notify_callback s;
          deliver 1 [file_event ACT_RENAME_TO_FILE 1 [98]] s })
   = Some ([0, 1], [], False)"
  by code_simp

text \<open>A defect.  While the module is unloaded (\<open>quit\<close>) the callback puts every event into an
  array of 101 elements and sends up to the first null: with more than 100 events, possible
  when first halves wait for second halves that never came, it runs past the array.\<close>

theorem quit_overflows:
  assumes "quit s" "100 < length (vfs_events s)"
  shows "event_timeout_notify_callback s = None"
proof (cases "pick_events (s\<lparr>timer := False\<rparr>)")
  case None
  then show ?thesis by (simp add: event_timeout_notify_callback_def)
next
  case (Some r)
  obtain s1 ts where r: "r = (s1, ts)" by (cases r)
  then have "pick_all (vfs_events s) (s\<lparr>timer := False\<rparr>) [] = Some (s1, ts)"
    using Some assms(1) by (simp add: pick_events_def)
  then have "100 < length ts" using pick_all_length assms(2) by fastforce
  then show ?thesis using Some r by (simp add: event_timeout_notify_callback_def notify_events_def)
qed

theorem quit_overflows_witness:
  "event_timeout_notify_callback (merge_init\<lparr>quit := True, vfs_events := [0..<101],
     mem := (\<lambda>p. Some (file_event ACT_RENAME_FROM_FILE (of_nat p + 1) [97]))\<rparr>) = None"
  by (rule quit_overflows) simp_all

end
