(* ===== verification/Index_Base.thy ===== *)
theory Index_Base
  imports Prelude
begin

text \<open>
  The parts the index implementations share: the short-string optimisation of keywords
  (\<open>composite_str.c\<close>), hashing, sorted offset lists (\<open>index_utils.c\<close>) and blockwise file access
  (\<open>read_file\<close> and \<open>write_file\<close> of \<open>utils.c\<close>).
\<close>

subsection \<open>Composite strings\<close>

text \<open>
  The union of a pointer with seven characters and a tag byte: eight bytes, little endian, so
  the tag is the highest byte of the pointer.  \<open>heap\<close> maps the addresses of the strings that
  \<open>strdup\<close> made to their content; \<open>dup\<close> is the result of \<open>strdup\<close>, the null pointer being 0.
\<close>

type_synonym u64 = "64 word"
type_synonym composite_str = "byte list"
type_synonym heap = "u64 \<Rightarrow> cstring option"

abbreviation (input) KW_WORD_TAG :: byte where "KW_WORD_TAG \<equiv> 117"

datatype cs_result = CS_LONG_STR | CS_SHORT_STR | CS_SET_STR_FAIL

fun bytes_le :: "nat \<Rightarrow> u64 \<Rightarrow> byte list" where
  "bytes_le 0 w = []"
| "bytes_le (Suc n) w = ucast w # bytes_le n (drop_bit 8 w)"

fun le_bytes :: "byte list \<Rightarrow> u64" where
  "le_bytes [] = 0"
| "le_bytes (b # bs) = ucast b + 256 * le_bytes bs"

definition get_cs_string :: "heap \<Rightarrow> composite_str \<Rightarrow> cstring option" where
  "get_cs_string h cs = (if cs ! 7 = KW_WORD_TAG then cstr_of (take 7 cs) else h (le_bytes cs))"

definition set_cs_string :: "(cstring \<Rightarrow> u64) \<Rightarrow> heap \<Rightarrow> cstring \<Rightarrow> cs_result \<times> composite_str \<times> heap" where
  "set_cs_string dup h s =
    (if length s \<ge> 7 then
       (let p = dup s in
        if p = 0 then (CS_SET_STR_FAIL, bytes_le 8 0, h) else (CS_LONG_STR, bytes_le 8 p, h(p \<mapsto> s)))
     else (CS_SHORT_STR, s @ [0] @ replicate (6 - length s) 0 @ [KW_WORD_TAG], h))"

definition free_composite_str :: "heap \<Rightarrow> composite_str \<Rightarrow> heap" where
  "free_composite_str h cs =
    (if le_bytes cs \<noteq> 0 \<and> cs ! 7 \<noteq> KW_WORD_TAG then h(le_bytes cs := None) else h)"

lemma length_bytes_le [simp]: "length (bytes_le n w) = n"
  by (induction n arbitrary: w) auto

lemma ucast_byte_split: "ucast (ucast w :: byte) + 256 * drop_bit 8 w = (w :: u64)"
proof -
  have "ucast (ucast w :: byte) = take_bit 8 w" by transfer (simp add: take_bit_take_bit)
  moreover have "256 * drop_bit 8 w = push_bit 8 (drop_bit 8 w)" by (simp add: push_bit_eq_mult mult.commute)
  ultimately show ?thesis using bits_ident[of 8 w] by (simp add: add.commute)
qed

lemma le_bytes_le: "le_bytes (bytes_le n w) = take_bit (8 * n) w"
proof (induction n arbitrary: w)
  case (Suc n)
  have "le_bytes (bytes_le (Suc n) w) = ucast (ucast w :: byte) + 256 * take_bit (8 * n) (drop_bit 8 w)"
    using Suc by simp
  also have "\<dots> = take_bit (8 * Suc n) w"
  proof -
    have "take_bit (8 * n) (drop_bit 8 w) = drop_bit 8 (take_bit (8 * Suc n) w)"
      by (simp add: drop_bit_take_bit)
    moreover have "(ucast w :: byte) = ucast (take_bit (8 * Suc n) w)" by transfer (simp add: take_bit_take_bit)
    ultimately show ?thesis using ucast_byte_split[of "take_bit (8 * Suc n) w"] by simp
  qed
  finally show ?case .
qed simp

lemma le_bytes_bytes [simp]: "le_bytes (bytes_le 8 w) = w"
  by (simp add: le_bytes_le) (transfer, simp)

text \<open>What was stored is read back: at once for a short string, for a long one if the pointer is
  one whose highest byte is not the tag, as for every address of a user process.\<close>

theorem cs_string_stored:
  assumes "is_cstr s" "bytes_le 8 (dup s) ! 7 \<noteq> KW_WORD_TAG" "set_cs_string dup h s = (r, cs, h')" "r \<noteq> CS_SET_STR_FAIL"
  shows "get_cs_string h' cs = Some s"
proof (cases "length s \<ge> 7")
  case True
  then have "cs = bytes_le 8 (dup s)" "h' = h(dup s \<mapsto> s)"
    using assms(3,4) by (auto simp: set_cs_string_def Let_def split: if_splits)
  then show ?thesis using assms(2) by (simp add: get_cs_string_def)
next
  case False
  then have cs: "cs = s @ 0 # replicate (6 - length s) 0 @ [KW_WORD_TAG]" using assms(3) by (simp add: set_cs_string_def)
  have "cs ! 7 = KW_WORD_TAG" unfolding cs using False by (simp add: nth_append nth_Cons')
  moreover have "take 7 cs = s @ 0 # replicate (6 - length s) 0" proof -
    have "7 - length s = Suc (6 - length s)" using False by simp
    then show ?thesis unfolding cs using False by simp
  qed
  ultimately show ?thesis using cstr_of_split[OF assms(1)] by (simp add: get_cs_string_def)
qed

subsection \<open>Hashing\<close>

text \<open>The characters are signed: the byte is sign-extended before it is added.\<close>

fun hash_from :: "u32 \<Rightarrow> cstring \<Rightarrow> u32" where
  "hash_from result [] = result"
| "hash_from result (c # name) = hash_from (result * 31 + scast c) name"

definition hash :: "cstring \<Rightarrow> u32" where
  "hash name = hash_from 0 name"

subsection \<open>Sorted offset lists\<close>

fun insert_pos_loop :: "u32 \<Rightarrow> u32 list \<Rightarrow> bool \<Rightarrow> nat \<Rightarrow> nat \<Rightarrow> nat" where
  "insert_pos_loop value xs favor_big i 0 = (if favor_big then length xs else length xs - 1)"
| "insert_pos_loop value xs favor_big i (Suc n) =
    (if xs ! i = value then i
     else if xs ! i < value \<and> value < xs ! (i + 1) then (if favor_big then i + 1 else i)
     else insert_pos_loop value xs favor_big (i + 1) n)"

definition get_insert_pos :: "u32 \<Rightarrow> u32 list \<Rightarrow> bool \<Rightarrow> nat" where
  "get_insert_pos value xs favor_big =
    (if xs = [] \<or> xs ! 0 \<ge> value then 0
     else if xs ! (length xs - 1) = value then length xs - 1
     else if xs ! (length xs - 1) < value then (if favor_big then length xs else length xs - 1)
     else insert_pos_loop value xs favor_big 0 (length xs - 1))"

text \<open>On a strictly sorted list with \<open>favor_big\<close> the position is the number of smaller elements.\<close>

definition below :: "u32 \<Rightarrow> u32 list \<Rightarrow> nat" where
  "below v xs = length (takeWhile (\<lambda>x. x < v) xs)"

lemma below_split:
  assumes "sorted_wrt (<) xs" "i \<le> length xs" "i = 0 \<or> xs ! (i - 1) < v" "i = length xs \<or> v \<le> xs ! i"
  shows "below v xs = i"
proof -
  have "xs ! j < v" if "j < i" for j
  proof -
    have "xs ! j = xs ! (i - 1) \<or> xs ! j < xs ! (i - 1)"
      using that assms(2) sorted_wrt_nth_less[OF assms(1), of j "i - 1"] by (cases "j = i - 1") simp_all
    moreover have "xs ! (i - 1) < v" using assms(3) that by simp
    ultimately show ?thesis by (metis order_less_trans)
  qed
  then have "takeWhile (\<lambda>x. x < v) xs = take i xs"
    using assms(2,4) by (intro takeWhile_eq_take_P_nth) (auto simp: linorder_not_less)
  then show ?thesis using assms(2) by (simp add: below_def)
qed

lemma insert_pos_loop_below:
  assumes s: "sorted_wrt (<) xs" and n: "i + n = length xs - 1" "xs \<noteq> []" "xs ! i < v"
    and l: "v < xs ! (length xs - 1)"
  shows "insert_pos_loop v xs True i n = below v xs"
  using n
proof (induction n arbitrary: i)
  case 0
  then have "v < xs ! i" using l by simp
  then show ?case using order_less_asym[OF "0.prems"(3)] by simp
next
  case (Suc n)
  have i1: "i + 1 < length xs" using Suc.prems by simp
  note lt = Suc.prems(3)
  show ?case
  proof (cases "v \<le> xs ! (i + 1)")
    case True
    have b: "below v xs = i + 1" by (rule below_split[OF s]) (use i1 lt True in auto)
    show ?thesis
    proof (cases "v = xs ! (i + 1)")
      case False
      have "xs ! i \<noteq> v" using lt by auto
      then show ?thesis using True False lt b by simp
    next
      case eq: True
      then show ?thesis
      proof (cases n)
        case 0
        then show ?thesis using Suc.prems l eq by auto
      next
        case (Suc m)
        then show ?thesis using eq lt b by simp
      qed
    qed
  next
    case False
    then have "xs ! (i + 1) < v" by simp
    then have "insert_pos_loop v xs True (i + 1) n = below v xs"
      using Suc.IH[of "i + 1"] Suc.prems(1,2) by simp
    then show ?thesis using lt False by auto
  qed
qed

theorem get_insert_pos_below:
  assumes s: "sorted_wrt (<) xs"
  shows "get_insert_pos v xs True = below v xs"
proof -
  consider "xs = []" | "xs \<noteq> []" "v \<le> xs ! 0" | "xs \<noteq> []" "xs ! 0 < v" "xs ! (length xs - 1) = v"
    | "xs \<noteq> []" "xs ! 0 < v" "xs ! (length xs - 1) < v" | "xs \<noteq> []" "xs ! 0 < v" "v < xs ! (length xs - 1)"
    using linorder_less_linear[of "xs ! (length xs - 1)" v] by (cases "xs = []"; cases "v \<le> xs ! 0") (simp_all add: linorder_not_le, blast)
  then show ?thesis
  proof cases
    case 2
    have "below v xs = 0" by (rule below_split[OF s]) (use 2 in auto)
    then show ?thesis using 2 by (simp add: get_insert_pos_def)
  next
    case 3
    have "length xs - 1 \<noteq> 0" using 3 by (metis less_irrefl)
    then have "length xs - 2 < length xs - 1" "length xs - 1 < length xs" by simp_all
    then have "xs ! (length xs - 2) < xs ! (length xs - 1)" using s by (simp add: sorted_wrt_iff_nth_less)
    then have "below v xs = length xs - 1"
      by (intro below_split[OF s]) (use 3 in \<open>auto simp: numeral_2_eq_2\<close>)
    then show ?thesis using 3 by (auto simp: get_insert_pos_def)
  next
    case 4
    have "below v xs = length xs" by (rule below_split[OF s]) (use 4 in auto)
    then show ?thesis using 4 by (auto simp: get_insert_pos_def)
  next
    case 5
    then show ?thesis using insert_pos_loop_below[OF s, of 0 "length xs - 1"] by (auto simp: get_insert_pos_def)
  qed (simp add: get_insert_pos_def below_def)
qed

subsection \<open>Blockwise file access\<close>

text \<open>
  A file that is read is the rest of its bytes behind the position; \<open>read\<close> gives fewer bytes
  than asked for only at the end.  A file that is written is its content and the room on the
  device.
\<close>

abbreviation (input) IO_BLK_SIZE :: nat where "IO_BLK_SIZE \<equiv> 16384"

definition file_read :: "byte list \<Rightarrow> nat \<Rightarrow> byte list \<times> byte list" where
  "file_read f n = (take n f, drop n f)"

function read_file_loop :: "byte list \<Rightarrow> nat \<Rightarrow> byte list \<Rightarrow> bool \<times> byte list \<times> byte list" where
  "read_file_loop f left acc =
    (if left > 0 then
       (let to_read = (if left > IO_BLK_SIZE then IO_BLK_SIZE else left);
            (bs, f') = file_read f to_read
        in if length bs \<noteq> to_read then (False, acc @ bs, f')
           else read_file_loop f' (left - to_read) (acc @ bs))
     else (True, acc, f))"
  by pat_completeness auto

termination by (relation "measure (\<lambda>(f, left, acc). left)") auto

definition read_file :: "byte list \<Rightarrow> u32 \<Rightarrow> bool \<times> byte list \<times> byte list" where
  "read_file f sz = read_file_loop f (unat sz) []"

record out_file =
  content :: "byte list"
  room :: nat

definition file_write :: "out_file \<Rightarrow> byte list \<Rightarrow> nat \<times> out_file" where
  "file_write f bs = (let n = min (length bs) (room f)
     in (n, f\<lparr>content := content f @ take n bs, room := room f - n\<rparr>))"

function write_file_loop :: "out_file \<Rightarrow> byte list \<Rightarrow> bool \<times> out_file" where
  "write_file_loop f bs =
    (if bs \<noteq> [] then
       (let to_write = (if length bs > IO_BLK_SIZE then IO_BLK_SIZE else length bs);
            (n, f') = file_write f (take to_write bs)
        in if n \<noteq> to_write then (False, f') else write_file_loop f' (drop to_write bs))
     else (True, f))"
  by pat_completeness auto

termination by (relation "measure (\<lambda>(f, bs). length bs)") auto

text \<open>\<open>write_file\<close> writes the first \<open>sz\<close> bytes at \<open>bs\<close>.\<close>

definition write_file :: "out_file \<Rightarrow> byte list \<Rightarrow> u32 \<Rightarrow> bool \<times> out_file" where
  "write_file f bs sz = write_file_loop f (take (unat sz) bs)"

declare read_file_loop.simps [simp del] write_file_loop.simps [simp del]

lemma read_file_loop_all:
  "length bs = left \<Longrightarrow> read_file_loop (bs @ f) left acc = (True, acc @ bs, f)"
proof (induction "bs @ f" left acc arbitrary: bs rule: read_file_loop.induct)
  case (1 left acc)
  show ?case
  proof (cases "left = 0")
    case True
    then show ?thesis using 1(2) by (subst read_file_loop.simps) simp
  next
    case False
    define n where "n = (if left > 16384 then 16384 else left)"
    have n: "n \<le> length bs" "0 < n" using False 1(2) by (auto simp: n_def)
    have s: "file_read (bs @ f) n = (take n bs, drop n bs @ f)" using n by (simp add: file_read_def)
    have "read_file_loop (drop n bs @ f) (left - n) (acc @ take n bs) = (True, (acc @ take n bs) @ drop n bs, f)"
      by (rule 1(1)[of n "(take n bs, drop n bs @ f)"]) (use False s n 1(2) in \<open>auto simp: n_def\<close>)
    moreover have "read_file_loop (bs @ f) left acc = read_file_loop (drop n bs @ f) (left - n) (acc @ take n bs)"
      by (subst read_file_loop.simps) (use False s n in \<open>simp add: n_def[symmetric] Let_def\<close>)
    ultimately show ?thesis by simp
  qed
qed

lemma read_file_short: "length f < left \<Longrightarrow> fst (read_file_loop f left acc) = False"
proof (induction f left acc rule: read_file_loop.induct)
  case (1 f left acc)
  define n where "n = (if left > 16384 then 16384 else left)"
  have l: "left > 0" using 1(2) by simp
  have e: "read_file_loop f left acc = (if length (take n f) \<noteq> n then (False, acc @ take n f, drop n f)
      else read_file_loop (drop n f) (left - n) (acc @ take n f))"
    by (subst read_file_loop.simps) (use l in \<open>simp add: n_def[symmetric] Let_def file_read_def\<close>)
  show ?case
  proof (cases "length (take n f) \<noteq> n")
    case False
    have "fst (read_file_loop (drop n f) (left - n) (acc @ take n f)) = False"
      by (rule 1(1)[of n "(take n f, drop n f)"]) (use l False 1(2) in \<open>auto simp: n_def file_read_def split: if_splits\<close>)
    then show ?thesis using e False by simp
  next
    case True
    show ?thesis unfolding e if_P[OF True] by simp
  qed
qed

text \<open>Blockwise reading is reading at once, and blockwise writing writes everything or fails.\<close>

theorem read_file_once:
  "read_file f sz = (if unat sz \<le> length f then (True, take (unat sz) f, drop (unat sz) f)
     else (False, snd (read_file f sz)))"
proof (cases "unat sz \<le> length f")
  case True
  then show ?thesis
    using read_file_loop_all[of "take (unat sz) f" "unat sz" "drop (unat sz) f" "[]"]
    by (simp add: read_file_def)
next
  case False
  then show ?thesis using read_file_short[of f "unat sz" "[]"]
    by (cases "read_file_loop f (unat sz) []") (simp add: read_file_def)
qed

lemma write_file_loop_all:
  "length bs \<le> room f \<Longrightarrow> write_file_loop f bs
    = (True, f\<lparr>content := content f @ bs, room := room f - length bs\<rparr>)"
proof (induction f bs rule: write_file_loop.induct)
  case (1 f bs)
  show ?case
  proof (cases "bs = []")
    case True
    then show ?thesis by (subst write_file_loop.simps) simp
  next
    case False
    define n where "n = (if length bs > 16384 then 16384 else length bs)"
    let ?f = "f\<lparr>content := content f @ take n bs, room := room f - n\<rparr>"
    have n: "n \<le> length bs" by (simp add: n_def)
    have s: "file_write f (take n bs) = (n, ?f)" using n 1(2) by (simp add: file_write_def Let_def min_def)
    have "write_file_loop ?f (drop n bs) = (True, ?f\<lparr>content := content ?f @ drop n bs, room := room ?f - length (drop n bs)\<rparr>)"
      by (rule 1(1)[of n "(n, ?f)"]) (use False s n 1(2) in \<open>auto simp: n_def\<close>)
    moreover have "write_file_loop f bs = write_file_loop ?f (drop n bs)"
      by (subst write_file_loop.simps) (use False s in \<open>simp add: n_def[symmetric] Let_def\<close>)
    ultimately show ?thesis using n 1(2) by simp
  qed
qed

lemma write_file_all:
  "length bs = unat sz \<Longrightarrow> length bs \<le> room f \<Longrightarrow> write_file f bs sz
    = (True, f\<lparr>content := content f @ bs, room := room f - length bs\<rparr>)"
  by (simp add: write_file_def write_file_loop_all)

end
