(* ===== verification/Index_Mem.thy ===== *)
theory Index_Mem
  imports Index_Base
begin

text \<open>
  The keyword index in memory (\<open>index_allmem.c\<close> with \<open>index.c\<close> and \<open>index_utils.c\<close>): a hash table
  of keywords, each with the sorted list of the buffer offsets of the names that contain it.
  A keyword is kept as its string (\<open>cs_string_stored\<close>); the used part of an array is a list and
  the number of free cells a field.  \<open>mal n\<close> tells whether an allocation of \<open>n\<close> bytes succeeds.
\<close>

subsection \<open>State\<close>

record index_keyword =
  keyword :: cstring
  fsbuf_offsets :: "u32 list"
  kw_empty :: nat

record index_hash =
  kwords :: "index_keyword list"
  ih_empty :: nat

record fs_allmem_index =
  count :: u32
  indice :: "index_hash list"

abbreviation (input) IDX_KW_BLK :: nat where "IDX_KW_BLK \<equiv> 4"
abbreviation (input) FSBUF_BLK :: nat where "FSBUF_BLK \<equiv> 4"

definition sizeof_index_keyword :: nat where "sizeof_index_keyword = 20"
definition sizeof_index_hash :: nat where "sizeof_index_hash = 12"
definition sizeof_allmem_index :: nat where "sizeof_allmem_index = 64"

definition new_allmem_index :: "(nat \<Rightarrow> bool) \<Rightarrow> u32 \<Rightarrow> fs_allmem_index option" where
  "new_allmem_index mal n =
    (if \<not> mal sizeof_allmem_index then None
     else if \<not> mal (sizeof_index_hash * unat n) then None
     else Some \<lparr>count = n, indice = replicate (unat n) \<lparr>kwords = [], ih_empty = 0\<rparr>\<rparr>)"

subsection \<open>Lookup\<close>

text \<open>The bucket of a keyword; \<open>None\<close> is the division by zero of an index without buckets.\<close>

definition bucket_of :: "fs_allmem_index \<Rightarrow> cstring \<Rightarrow> nat option" where
  "bucket_of ami q = (if count ami = 0 then None else Some (unat (hash q mod count ami)))"

fun find_keyword :: "index_keyword list \<Rightarrow> cstring \<Rightarrow> nat option" where
  "find_keyword [] q = None"
| "find_keyword (k # ks) q = (if keyword k = q then Some 0 else map_option Suc (find_keyword ks q))"

text \<open>The position of the keyword, \<open>Some None\<close> being the null pointer.\<close>

definition get_index_keyword_allmem :: "fs_allmem_index \<Rightarrow> cstring \<Rightarrow> (nat \<times> nat) option option" where
  "get_index_keyword_allmem ami q = do {
     ih \<leftarrow> bucket_of ami q;
     Some (map_option (Pair ih) (find_keyword (kwords (indice ami ! ih)) q)) }"

definition get_stats_allmem :: "fs_allmem_index \<Rightarrow> u64 \<times> u32 \<times> u32" where
  "get_stats_allmem ami =
    foldl (\<lambda>(m, kws, offs) h. if kwords h = [] then (m, kws, offs)
      else foldl (\<lambda>(m, kws, offs) k.
             (m + 4 * (of_nat (length (fsbuf_offsets k)) + of_nat (kw_empty k))
                + (if length (keyword k) \<ge> 7 then of_nat (length (keyword k)) + 1 else 0),
              kws, offs + of_nat (length (fsbuf_offsets k))))
           (m + of_nat sizeof_index_keyword * (of_nat (length (kwords h)) + of_nat (ih_empty h)),
            kws + of_nat (length (kwords h)), offs) (kwords h))
      (of_nat sizeof_index_hash * of_nat (unat (count ami)), 0, 0) (indice ami)"

subsection \<open>Insertion\<close>

definition init_index_keyword :: "(nat \<Rightarrow> bool) \<Rightarrow> cstring \<Rightarrow> index_keyword option" where
  "init_index_keyword mal s =
    (if length s \<ge> 7 \<and> \<not> mal (length s + 1) then None
     else if \<not> mal (FSBUF_BLK * 4) then None
     else Some \<lparr>keyword = s, fsbuf_offsets = [], kw_empty = FSBUF_BLK\<rparr>)"

definition set_bucket :: "fs_allmem_index \<Rightarrow> nat \<Rightarrow> index_hash \<Rightarrow> fs_allmem_index" where
  "set_bucket ami ih h = ami\<lparr>indice := (indice ami)[ih := h]\<rparr>"

text \<open>The keyword to append to, made if it is new.  The counters are bit fields of 28 bits; the
  model has no result where one would overflow.\<close>

definition get_index_keyword_for_append ::
  "(nat \<Rightarrow> bool) \<Rightarrow> fs_allmem_index \<Rightarrow> cstring \<Rightarrow> ((nat \<times> nat) option \<times> fs_allmem_index) option" where
  "get_index_keyword_for_append mal ami q = do {
     found \<leftarrow> get_index_keyword_allmem ami q;
     case found of Some p \<Rightarrow> Some (Some p, ami)
     | None \<Rightarrow> do {
         ih \<leftarrow> bucket_of ami q;
         let h = indice ami ! ih;
         let len = length (kwords h);
         if len + 1 \<ge> 2 ^ 28 then None
         else if ih_empty h = 0 \<and> \<not> mal (sizeof_index_keyword * (len + IDX_KW_BLK)) then Some (None, ami)
         else do {
           let h = (if ih_empty h = 0 then h\<lparr>ih_empty := IDX_KW_BLK\<rparr> else h);
           case init_index_keyword mal q of
             None \<Rightarrow> Some (None, set_bucket ami ih h)
           | Some k \<Rightarrow> Some (Some (ih, len),
               set_bucket ami ih (h\<lparr>kwords := kwords h @ [k], ih_empty := ih_empty h - 1\<rparr>)) } } }"

text \<open>The insertion into the sorted list of one keyword.\<close>

definition insert_offset :: "(nat \<Rightarrow> bool) \<Rightarrow> index_keyword \<Rightarrow> u32 \<Rightarrow> index_keyword option" where
  "insert_offset mal k off =
    (let offs = fsbuf_offsets k; len = length offs; pos = get_insert_pos off offs True
     in if len > pos \<and> offs ! pos = off then Some k
        else if len + 1 \<ge> 2 ^ 28 then None
        else if kw_empty k = 0 \<and> \<not> mal ((len + FSBUF_BLK) * 4) then Some k
        else Some (k\<lparr>fsbuf_offsets := take pos offs @ off # drop pos offs,
                     kw_empty := (if kw_empty k = 0 then FSBUF_BLK else kw_empty k) - 1\<rparr>))"

definition add_index_allmem :: "(nat \<Rightarrow> bool) \<Rightarrow> fs_allmem_index \<Rightarrow> cstring \<Rightarrow> u32 \<Rightarrow> fs_allmem_index option" where
  "add_index_allmem mal ami q off = do {
     (found, ami) \<leftarrow> get_index_keyword_for_append mal ami q;
     case found of None \<Rightarrow> Some ami
     | Some (ih, i) \<Rightarrow> do {
         let h = indice ami ! ih;
         k \<leftarrow> insert_offset mal (kwords h ! i) off;
         Some (set_bucket ami ih (h\<lparr>kwords := (kwords h)[i := k]\<rparr>)) } }"

subsection \<open>Moving offsets\<close>

definition add_inkw_fsbuf_offsets :: "index_keyword \<Rightarrow> u32 \<Rightarrow> u32 \<Rightarrow> u32 \<times> index_keyword" where
  "add_inkw_fsbuf_offsets k st d =
    (let offs = fsbuf_offsets k
     in if offs = [] then (0, k)
        else if offs ! (length offs - 1) < st then (0, k)
        else (of_nat (length (filter (\<lambda>x. x \<ge> st) offs)),
              k\<lparr>fsbuf_offsets := map (\<lambda>x. if x \<ge> st then x + d else x) offs\<rparr>))"

definition add_fsbuf_offsets_allmem :: "fs_allmem_index \<Rightarrow> u32 \<Rightarrow> u32 \<Rightarrow> fs_allmem_index" where
  "add_fsbuf_offsets_allmem ami st d =
    ami\<lparr>indice := map (\<lambda>h. h\<lparr>kwords := map (\<lambda>k. snd (add_inkw_fsbuf_offsets k st d)) (kwords h)\<rparr>) (indice ami)\<rparr>"

subsection \<open>The keywords of a name\<close>

text \<open>\<open>add_index\<close> of \<open>index.c\<close>: every substring of up to \<open>MAX_KW_LEN\<close> wide characters.  The
  conversions are calls of \<open>iconv\<close>, parameters here.\<close>

abbreviation (input) MAX_KW_LEN :: nat where "MAX_KW_LEN \<equiv> 8"

definition name_parts :: "'w list \<Rightarrow> 'w list list" where
  "name_parts w = concat (map (\<lambda>i. map (\<lambda>j. take (j - i) (drop i w)) [i + 1 ..< min (length w) (i + MAX_KW_LEN) + 1])
     [0 ..< length w])"

fun add_parts :: "('w list \<Rightarrow> cstring option) \<Rightarrow> (nat \<Rightarrow> bool) \<Rightarrow> 'w list list \<Rightarrow> u32 \<Rightarrow>
    fs_allmem_index \<Rightarrow> fs_allmem_index option" where
  "add_parts narrow mal [] off ami = Some ami"
| "add_parts narrow mal (p # ps) off ami =
    (case narrow p of None \<Rightarrow> add_parts narrow mal ps off ami
     | Some q \<Rightarrow> do {
         ami \<leftarrow> add_index_allmem mal ami q off;
         add_parts narrow mal ps off ami })"

definition add_index :: "(cstring \<Rightarrow> 'w list option) \<Rightarrow> ('w list \<Rightarrow> cstring option) \<Rightarrow> (nat \<Rightarrow> bool) \<Rightarrow>
    fs_allmem_index \<Rightarrow> cstring \<Rightarrow> u32 \<Rightarrow> fs_allmem_index option" where
  "add_index widen narrow mal ami name off =
    (case widen name of None \<Rightarrow> Some ami
     | Some w \<Rightarrow> add_parts narrow mal (name_parts w) off ami)"

end
