(* ===== verification/Index_Props.thy ===== *)
theory Index_Props
  imports Index_Mem
begin

text \<open>
  The keyword index as a map from keywords to sets of offsets: the invariant of the hash table
  and the effect of every operation on the map.
\<close>

subsection \<open>Lookup in a bucket\<close>

definition kw_list :: "index_keyword list \<Rightarrow> cstring \<Rightarrow> u32 list" where
  "kw_list ks q = (case find_keyword ks q of None \<Rightarrow> [] | Some i \<Rightarrow> fsbuf_offsets (ks ! i))"

lemma find_keyword_Some: "find_keyword ks q = Some i \<Longrightarrow> i < length ks \<and> keyword (ks ! i) = q"
  by (induction ks arbitrary: i) (auto split: if_splits)

lemma find_keyword_None: "find_keyword ks q = None \<longleftrightarrow> q \<notin> keyword ` set ks"
  by (induction ks) auto

lemma find_keyword_append: "find_keyword (ks @ ls) q
    = (case find_keyword ks q of Some i \<Rightarrow> Some i | None \<Rightarrow> map_option ((+) (length ks)) (find_keyword ls q))"
proof (induction ks)
  case Nil
  show ?case by (cases "find_keyword ls q") simp_all
next
  case (Cons k ks)
  then show ?case by (cases "find_keyword ks q"; cases "find_keyword ls q") simp_all
qed

lemma find_keyword_keep: "map keyword ks = map keyword ls \<Longrightarrow> find_keyword ks q = find_keyword ls q"
proof (induction ks arbitrary: ls)
  case (Cons k ks)
  then obtain l ls' where "ls = l # ls'" "keyword l = keyword k" "map keyword ks = map keyword ls'"
    by (cases ls) simp_all
  then show ?case using Cons.IH[of ls'] by simp
qed simp

lemma kw_list_in: "x \<in> set (kw_list ks q) \<Longrightarrow> \<exists>k\<in>set ks. keyword k = q \<and> x \<in> set (fsbuf_offsets k)"
  using find_keyword_Some[of ks q] by (auto simp: kw_list_def split: option.splits) (metis nth_mem)

lemma kw_list_append_new:
  "q \<notin> keyword ` set ks \<Longrightarrow> keyword k = q \<Longrightarrow> fsbuf_offsets k = [] \<Longrightarrow> kw_list (ks @ [k]) q' = kw_list ks q'"
  by (auto simp: kw_list_def find_keyword_append nth_append split: option.splits dest: find_keyword_Some)

lemma kw_list_update:
  assumes "i < length ks" "keyword k = keyword (ks ! i)" "distinct (map keyword ks)"
  shows "kw_list (ks[i := k]) q = (if q = keyword k then fsbuf_offsets k else kw_list ks q)"
proof -
  have "map keyword (ks[i := k]) = map keyword ks"
    using assms(1,2) by (metis list_update_id map_update)
  then have f: "find_keyword (ks[i := k]) q = find_keyword ks q" by (rule find_keyword_keep)
  show ?thesis
  proof (cases "q = keyword k")
    case True
    then have "find_keyword ks q \<noteq> None" unfolding find_keyword_None using assms(1,2) by simp
    then obtain j where j: "find_keyword ks q = Some j" by blast
    then have "j < length ks" "keyword (ks ! j) = keyword (ks ! i)" using find_keyword_Some[OF j] assms(2) True by auto
    then have "j = i" using assms(1,3) by (simp add: distinct_conv_nth) (metis nth_map length_map)
    then show ?thesis using f j True assms(1) by (simp add: kw_list_def)
  next
    case False
    then show ?thesis using f assms(1,2) by (auto simp: kw_list_def nth_list_update split: option.splits dest!: find_keyword_Some)
  qed
qed

subsection \<open>The invariant and the abstraction\<close>

definition index_ok :: "fs_allmem_index \<Rightarrow> bool" where
  "index_ok ami \<longleftrightarrow> count ami \<noteq> 0 \<and> length (indice ami) = unat (count ami)
     \<and> (\<forall>i<length (indice ami). distinct (map keyword (kwords (indice ami ! i)))
          \<and> (\<forall>k\<in>set (kwords (indice ami ! i)). bucket_of ami (keyword k) = Some i
               \<and> sorted_wrt (<) (fsbuf_offsets k)))"

definition offsets :: "fs_allmem_index \<Rightarrow> cstring \<Rightarrow> u32 list" where
  "offsets ami q = (case bucket_of ami q of None \<Rightarrow> [] | Some ih \<Rightarrow> kw_list (kwords (indice ami ! ih)) q)"

lemma offsets_lookup:
  "offsets ami q = (case get_index_keyword_allmem ami q of
     Some (Some (ih, i)) \<Rightarrow> fsbuf_offsets (kwords (indice ami ! ih) ! i) | _ \<Rightarrow> [])"
  by (auto simp: offsets_def get_index_keyword_allmem_def kw_list_def split: option.splits Option.bind_splits)

lemma bucket_less:
  assumes "index_ok ami"
  obtains ih where "bucket_of ami q = Some ih" "ih < length (indice ami)"
proof
  have c: "count ami \<noteq> 0" "length (indice ami) = unat (count ami)" using assms by (simp_all add: index_ok_def)
  show "bucket_of ami q = Some (unat (hash q mod count ami))" using c by (simp add: bucket_of_def)
  have "hash q mod count ami < count ami" using c(1) by (simp add: word_mod_less_divisor word_gt_0)
  then show "unat (hash q mod count ami) < length (indice ami)" using c(2) by (simp add: word_less_nat_alt)
qed

lemma set_bucket_simps [simp]:
  "count (set_bucket ami ih h) = count ami" "bucket_of (set_bucket ami ih h) q = bucket_of ami q"
  "indice (set_bucket ami ih h) = (indice ami)[ih := h]"
  by (simp_all add: set_bucket_def bucket_of_def)

lemma set_bucket_ok:
  assumes ok: "index_ok ami" and ih: "ih < length (indice ami)"
    and h: "distinct (map keyword (kwords h))"
      "\<forall>k\<in>set (kwords h). bucket_of ami (keyword k) = Some ih \<and> sorted_wrt (<) (fsbuf_offsets k)"
  shows "index_ok (set_bucket ami ih h)"
  using ok ih h by (simp add: index_ok_def nth_list_update)

lemma set_bucket_offsets:
  assumes ok: "index_ok ami" and ih: "bucket_of ami q = Some ih" "ih < length (indice ami)"
    and other: "\<And>q'. q' \<noteq> q \<Longrightarrow> kw_list (kwords h) q' = kw_list (kwords (indice ami ! ih)) q'"
  shows "offsets (set_bucket ami ih h) q' = (if q' = q then kw_list (kwords h) q else offsets ami q')"
proof -
  obtain j where "bucket_of ami q' = Some j" "j < length (indice ami)" using bucket_less[OF ok] by blast
  then show ?thesis using ih other[of q'] by (auto simp: offsets_def nth_list_update)
qed

subsection \<open>Insertion\<close>

text \<open>The specification: one more offset for one keyword; \<open>insort\<close> of the library.\<close>

lemma insert_at_below:
  "sorted_wrt (<) xs \<Longrightarrow> v \<notin> set xs \<Longrightarrow> take (below v xs) xs @ v # drop (below v xs) xs = insort v xs"
proof (induction xs)
  case (Cons x xs)
  show ?case
  proof (cases "x < v")
    case True
    then show ?thesis using Cons by (auto simp: below_def)
  next
    case False
    then have "v \<le> x" by simp
    then show ?thesis using False by (simp add: below_def)
  qed
qed (simp add: below_def)

lemma sorted_insort_strict:
  assumes "sorted_wrt (<) xs" "v \<notin> set xs"
  shows "sorted_wrt (<) (insort v xs)"
proof -
  have "sorted xs" "distinct xs" using assms(1) by (simp_all add: strict_sorted_iff)
  then show ?thesis using assms(2) by (simp add: strict_sorted_iff sorted_insort distinct_insort)
qed

lemma below_member:
  assumes s: "sorted_wrt (<) xs"
  shows "below v xs < length xs \<and> xs ! below v xs = v \<longleftrightarrow> v \<in> set xs"
proof
  assume "v \<in> set xs"
  then obtain i where i: "i < length xs" "xs ! i = v" by (auto simp: in_set_conv_nth)
  have "i = 0 \<or> xs ! (i - 1) < v"
    using i sorted_wrt_nth_less[OF s, of "i - 1" i] by (cases i) simp_all
  then have "below v xs = i" using i by (intro below_split[OF s]) simp_all
  then show "below v xs < length xs \<and> xs ! below v xs = v" using i by simp
qed (auto simp: in_set_conv_nth)

lemma insert_offset_sorted:
  assumes s: "sorted_wrt (<) (fsbuf_offsets k)" and r: "insert_offset mal k off = Some k'"
  shows "keyword k' = keyword k \<and> sorted_wrt (<) (fsbuf_offsets k')
    \<and> (fsbuf_offsets k' = fsbuf_offsets k \<and> (off \<in> set (fsbuf_offsets k) \<or> \<not> mal ((length (fsbuf_offsets k) + 4) * 4))
       \<or> off \<notin> set (fsbuf_offsets k) \<and> fsbuf_offsets k' = insort off (fsbuf_offsets k))"
proof (cases "off \<in> set (fsbuf_offsets k)")
  case True
  then show ?thesis using s r below_member[OF s, of off]
    by (auto simp: insert_offset_def Let_def get_insert_pos_below[OF s])
next
  case False
  then show ?thesis using s r below_member[OF s, of off] insert_at_below[OF s False] sorted_insort_strict[OF s False]
    by (auto simp: insert_offset_def Let_def get_insert_pos_below[OF s] split: if_splits)
qed

lemma indexD:
  assumes "index_ok ami" "ih < length (indice ami)"
  shows "distinct (map keyword (kwords (indice ami ! ih)))"
    "k \<in> set (kwords (indice ami ! ih)) \<Longrightarrow> bucket_of ami (keyword k) = Some ih"
    "k \<in> set (kwords (indice ami ! ih)) \<Longrightarrow> sorted_wrt (<) (fsbuf_offsets k)"
  using assms by (auto simp: index_ok_def)

lemma for_append_ok:
  assumes ok: "index_ok ami" and r: "get_index_keyword_for_append mal ami q = Some (found, ami')"
  shows "index_ok ami' \<and> offsets ami' = offsets ami \<and> count ami' = count ami
    \<and> (\<forall>ih i. found = Some (ih, i) \<longrightarrow> bucket_of ami' q = Some ih \<and> ih < length (indice ami')
         \<and> i < length (kwords (indice ami' ! ih)) \<and> keyword (kwords (indice ami' ! ih) ! i) = q)"
proof -
  obtain ih where ih: "bucket_of ami q = Some ih" "ih < length (indice ami)" using bucket_less[OF ok] .
  let ?h = "indice ami ! ih"
  note d = indexD[OF ok ih(2)]
  show ?thesis
  proof (cases "find_keyword (kwords ?h) q")
    case (Some i)
    then have "found = Some (ih, i) \<and> ami' = ami"
      using r ih by (simp add: get_index_keyword_for_append_def get_index_keyword_allmem_def)
    then show ?thesis using ok ih find_keyword_Some[OF Some] by simp
  next
    case None
    have keep: "index_ok (set_bucket ami ih h) \<and> offsets (set_bucket ami ih h) = offsets ami"
      if "kwords h = kwords ?h" for h
    proof
      show "index_ok (set_bucket ami ih h)" by (rule set_bucket_ok[OF ok ih(2)]) (use that d in auto)
      show "offsets (set_bucket ami ih h) = offsets ami"
        using set_bucket_offsets[OF ok ih, of h] that ih by (auto simp: offsets_def)
    qed
    have new: "index_ok (set_bucket ami ih h) \<and> offsets (set_bucket ami ih h) = offsets ami"
      if h: "kwords h = kwords ?h @ [k]" and k: "keyword k = q" "fsbuf_offsets k = []" for h k
    proof
      have nk: "q \<notin> keyword ` set (kwords ?h)" using None find_keyword_None by metis
      show "index_ok (set_bucket ami ih h)" by (rule set_bucket_ok[OF ok ih(2)]) (use h k d nk ih in auto)
      have "kw_list (kwords h) q' = kw_list (kwords ?h) q'" for q'
        unfolding h by (rule kw_list_append_new[OF nk k])
      then show "offsets (set_bucket ami ih h) = offsets ami"
        using set_bucket_offsets[OF ok ih, of h] ih by (auto simp: offsets_def)
    qed
    have init: "keyword k = q \<and> fsbuf_offsets k = []" if "init_index_keyword mal q = Some k" for k
      using that by (auto simp: init_index_keyword_def split: if_splits)
    show ?thesis
      using r ih None ok keep new init
      by (auto simp: get_index_keyword_for_append_def get_index_keyword_allmem_def Let_def nth_append
          split: if_splits option.splits)
  qed
qed

lemma add_index_ok:
  assumes ok: "index_ok ami" and r: "add_index_allmem mal ami q off = Some ami'"
  shows "index_ok ami' \<and> count ami' = count ami
    \<and> (offsets ami' = offsets ami \<or> offsets ami' = (offsets ami)(q := insort off (offsets ami q)) \<and> off \<notin> set (offsets ami q))
    \<and> ((\<forall>n. mal n) \<longrightarrow> off \<in> set (offsets ami' q))"
proof -
  obtain found ami1 where a: "get_index_keyword_for_append mal ami q = Some (found, ami1)"
    using r by (auto simp: add_index_allmem_def split: Option.bind_splits)
  note f = for_append_ok[OF ok a]
  show ?thesis
  proof (cases found)
    case None
    have "found \<noteq> None" if "\<forall>n. mal n"
      using a that ok bucket_less[OF ok, of q]
      by (auto simp: get_index_keyword_for_append_def get_index_keyword_allmem_def Let_def init_index_keyword_def
          split: Option.bind_splits option.splits if_splits)
    then show ?thesis using r a None f by (auto simp: add_index_allmem_def)
  next
    case (Some p)
    then obtain ih i where p: "found = Some (ih, i)" by (cases p) auto
    have ok1: "index_ok ami1" and ih: "bucket_of ami1 q = Some ih" "ih < length (indice ami1)"
      and i: "i < length (kwords (indice ami1 ! ih))" "keyword (kwords (indice ami1 ! ih) ! i) = q"
      using f p by auto
    let ?h = "indice ami1 ! ih" and ?k = "kwords (indice ami1 ! ih) ! i"
    obtain k where k: "insert_offset mal ?k off = Some k"
      and ami': "ami' = set_bucket ami1 ih (?h\<lparr>kwords := (kwords ?h)[i := k]\<rparr>)"
      using r a p by (auto simp: add_index_allmem_def Let_def split: Option.bind_splits)
    note d = indexD[OF ok1 ih(2)]
    have s: "sorted_wrt (<) (fsbuf_offsets ?k)" using d(3) i(1) by simp
    note ins = insert_offset_sorted[OF s k]
    have kq: "keyword k = q" using ins i(2) by simp
    have km: "map keyword ((kwords ?h)[i := k]) = map keyword (kwords ?h)"
      using i kq by (metis list_update_id map_update)
    have ok': "index_ok ami'" unfolding ami'
    proof (rule set_bucket_ok[OF ok1 ih(2)])
      show "distinct (map keyword (kwords (?h\<lparr>kwords := (kwords ?h)[i := k]\<rparr>)))" using km d(1) by simp
      show "\<forall>x\<in>set (kwords (?h\<lparr>kwords := (kwords ?h)[i := k]\<rparr>)). bucket_of ami1 (keyword x) = Some ih
          \<and> sorted_wrt (<) (fsbuf_offsets x)"
        using d(2,3) ins kq ih(1) set_update_subset_insert[of "kwords ?h" i k] by auto
    qed
    have kl: "kw_list ((kwords ?h)[i := k]) q' = (if q' = q then fsbuf_offsets k else kw_list (kwords ?h) q')" for q'
      using kw_list_update[OF i(1) _ d(1)] kq i(2) by auto
    have "offsets ami' q' = (if q' = q then fsbuf_offsets k else offsets ami1 q')" for q'
      unfolding ami' using set_bucket_offsets[OF ok1 ih, of "?h\<lparr>kwords := (kwords ?h)[i := k]\<rparr>" q'] kl by simp
    then have o': "offsets ami' = (offsets ami)(q := fsbuf_offsets k)" using f by (auto simp: fun_eq_iff)
    have oq: "offsets ami q = fsbuf_offsets ?k"
    proof -
      have "kw_list ((kwords ?h)[i := ?k]) q = fsbuf_offsets ?k"
        using kw_list_update[OF i(1) refl d(1), of q] i(2) by simp
      then have "kw_list (kwords ?h) q = fsbuf_offsets ?k" by simp
      then have "offsets ami1 q = fsbuf_offsets ?k" using ih by (simp add: offsets_def)
      then show ?thesis using f by simp
    qed
    have c: "count ami' = count ami" using f ami' by simp
    have same: "offsets ami' = offsets ami" if "fsbuf_offsets k = fsbuf_offsets ?k" using o' oq that
      by (simp add: fun_eq_iff)
    have here: "offsets ami' q = fsbuf_offsets k" using o' by simp
    consider "fsbuf_offsets k = fsbuf_offsets ?k" "off \<in> set (fsbuf_offsets ?k)"
      | "fsbuf_offsets k = fsbuf_offsets ?k" "\<not> mal ((length (fsbuf_offsets ?k) + 4) * 4)"
      | "off \<notin> set (fsbuf_offsets ?k)" "fsbuf_offsets k = insort off (fsbuf_offsets ?k)" using ins by blast
    then show ?thesis
    proof cases
      case 1
      then show ?thesis using ok' c same here by simp
    next
      case 2
      then show ?thesis using ok' c same by blast
    next
      case 3
      then show ?thesis using ok' c here o' oq by (simp add: set_insort_key)
    qed
  qed
qed

subsection \<open>Moving offsets\<close>

definition shift_off :: "u32 \<Rightarrow> u32 \<Rightarrow> u32 \<Rightarrow> u32" where
  "shift_off st d x = (if x \<ge> st then x + d else x)"

lemma add_inkw_shift:
  assumes "sorted_wrt (<) (fsbuf_offsets k)"
  shows "fsbuf_offsets (snd (add_inkw_fsbuf_offsets k st d)) = map (shift_off st d) (fsbuf_offsets k)"
    "keyword (snd (add_inkw_fsbuf_offsets k st d)) = keyword k"
    "fst (add_inkw_fsbuf_offsets k st d) = of_nat (length (filter (\<lambda>x. st \<le> x) (fsbuf_offsets k)))"
proof -
  let ?xs = "fsbuf_offsets k"
  have small: "\<forall>x\<in>set ?xs. x < st" if "?xs \<noteq> []" "?xs ! (length ?xs - 1) < st"
  proof
    fix x assume "x \<in> set ?xs"
    then obtain i where i: "i < length ?xs" "x = ?xs ! i" by (auto simp: in_set_conv_nth)
    then have "i = length ?xs - 1 \<or> ?xs ! i < ?xs ! (length ?xs - 1)"
      using sorted_wrt_nth_less[OF assms, of i "length ?xs - 1"] by linarith
    then show "x < st" using i that order_less_trans by blast
  qed
  show "fsbuf_offsets (snd (add_inkw_fsbuf_offsets k st d)) = map (shift_off st d) ?xs"
  proof (cases "?xs \<noteq> [] \<and> ?xs ! (length ?xs - 1) < st")
    case True
    then have "map (shift_off st d) ?xs = ?xs" using small by (intro map_idI) (auto simp: shift_off_def leD)
    then show ?thesis using True by (simp add: add_inkw_fsbuf_offsets_def Let_def)
  qed (auto simp: add_inkw_fsbuf_offsets_def Let_def shift_off_def[abs_def])
  show "keyword (snd (add_inkw_fsbuf_offsets k st d)) = keyword k"
    by (simp add: add_inkw_fsbuf_offsets_def Let_def)
  show "fst (add_inkw_fsbuf_offsets k st d) = of_nat (length (filter (\<lambda>x. st \<le> x) ?xs))"
    using small by (auto simp: add_inkw_fsbuf_offsets_def Let_def linorder_not_le filter_empty_conv)
qed

lemma find_keyword_map: "(\<And>k. k \<in> set ks \<Longrightarrow> keyword (f k) = keyword k) \<Longrightarrow> find_keyword (map f ks) q = find_keyword ks q"
  by (rule find_keyword_keep) simp

lemma bucket_of_shift [simp]: "bucket_of (add_fsbuf_offsets_allmem ami st d) q = bucket_of ami q"
  by (simp add: add_fsbuf_offsets_allmem_def bucket_of_def)

lemma shift_offsets:
  assumes ok: "index_ok ami"
  shows "offsets (add_fsbuf_offsets_allmem ami st d) q = map (shift_off st d) (offsets ami q)"
proof -
  obtain ih where ih: "bucket_of ami q = Some ih" "ih < length (indice ami)" using bucket_less[OF ok] .
  note d = indexD[OF ok ih(2)]
  have b: "bucket_of (add_fsbuf_offsets_allmem ami st d) q = Some ih"
    using ih(1) by simp
  let ?f = "\<lambda>k. snd (add_inkw_fsbuf_offsets k st d)"
  have "kw_list (map ?f (kwords (indice ami ! ih))) q = map (shift_off st d) (kw_list (kwords (indice ami ! ih)) q)"
    using find_keyword_map[of "kwords (indice ami ! ih)" ?f q] add_inkw_shift[OF d(3)]
    by (auto simp: kw_list_def split: option.splits dest!: find_keyword_Some)
  then show ?thesis using b ih by (simp add: offsets_def) (simp add: add_fsbuf_offsets_allmem_def)
qed

text \<open>The order survives if no number wraps and, for a removal, if nothing lies in the removed range.\<close>

definition shift_safe :: "u32 \<Rightarrow> u32 \<Rightarrow> u32 list \<Rightarrow> bool" where
  "shift_safe st d xs \<longleftrightarrow> (\<forall>x\<in>set xs. \<forall>y\<in>set xs. x < y \<longrightarrow> shift_off st d x < shift_off st d y)"

lemma shift_ok:
  assumes ok: "index_ok ami" and s: "\<forall>q. shift_safe st d (offsets ami q)"
  shows "index_ok (add_fsbuf_offsets_allmem ami st d)"
  unfolding index_ok_def
proof (intro conjI allI impI)
  let ?a = "add_fsbuf_offsets_allmem ami st d" and ?f = "\<lambda>k. snd (add_inkw_fsbuf_offsets k st d)"
  show "count ?a \<noteq> 0" "length (indice ?a) = unat (count ?a)"
    using ok by (simp_all add: index_ok_def add_fsbuf_offsets_allmem_def)
  fix i assume "i < length (indice ?a)"
  then have i: "i < length (indice ami)" by (simp add: add_fsbuf_offsets_allmem_def)
  note d = indexD[OF ok i]
  have k: "kwords (indice ?a ! i) = map ?f (kwords (indice ami ! i))"
    using i by (simp add: add_fsbuf_offsets_allmem_def)
  have "map keyword (kwords (indice ?a ! i)) = map keyword (kwords (indice ami ! i))"
    unfolding k using add_inkw_shift(2)[OF d(3)] by simp
  then show "distinct (map keyword (kwords (indice ?a ! i)))" using d(1) by simp
  show "\<forall>k\<in>set (kwords (indice ?a ! i)). bucket_of ?a (keyword k) = Some i \<and> sorted_wrt (<) (fsbuf_offsets k)"
  proof
    fix k' assume "k' \<in> set (kwords (indice ?a ! i))"
    then obtain k0 where k0: "k0 \<in> set (kwords (indice ami ! i))" "k' = ?f k0" unfolding k by auto
    have b: "bucket_of ami (keyword k0) = Some i" by (rule d(2)[OF k0(1)])
    obtain j where j: "j < length (kwords (indice ami ! i))" "kwords (indice ami ! i) ! j = k0"
      using k0(1) by (auto simp: in_set_conv_nth)
    have "kw_list ((kwords (indice ami ! i))[j := k0]) (keyword k0) = fsbuf_offsets k0"
      using kw_list_update[OF j(1) _ d(1), of k0 "keyword k0"] j(2) by simp
    then have "offsets ami (keyword k0) = fsbuf_offsets k0" using b j by (simp add: offsets_def) (metis list_update_id)
    then have "shift_safe st d (fsbuf_offsets k0)" using s by metis
    then have "sorted_wrt (<) (map (shift_off st d) (fsbuf_offsets k0))"
      using d(3)[OF k0(1)] by (auto simp: sorted_wrt_map shift_safe_def intro: sorted_wrt_mono_rel)
    then show "bucket_of ?a (keyword k') = Some i \<and> sorted_wrt (<) (fsbuf_offsets k')"
      using b add_inkw_shift(1,2)[OF d(3)[OF k0(1)]] k0(2)
      by simp
  qed
qed

subsection \<open>The interface of an index\<close>

text \<open>What \<open>index.c\<close> relies on when it feeds an index: adding gives one more offset for one keyword
  and keeps the rest.  \<open>find\<close> is the set of offsets of a keyword.\<close>

locale keyword_index =
  fixes ok :: "'i \<Rightarrow> bool"
    and find :: "'i \<Rightarrow> cstring \<Rightarrow> u32 set"
    and add :: "'i \<Rightarrow> cstring \<Rightarrow> u32 \<Rightarrow> 'i option"
  assumes add_ok: "ok i \<Longrightarrow> add i q x = Some i' \<Longrightarrow> ok i'"
    and add_find: "ok i \<Longrightarrow> add i q x = Some i' \<Longrightarrow> find i' q' = (if q' = q then insert x (find i q') else find i q')"
begin

fun add_all :: "('w list \<Rightarrow> cstring option) \<Rightarrow> 'w list list \<Rightarrow> u32 \<Rightarrow> 'i \<Rightarrow> 'i option" where
  "add_all narrow [] x i = Some i"
| "add_all narrow (p # ps) x i = (case narrow p of None \<Rightarrow> add_all narrow ps x i
     | Some q \<Rightarrow> do { i \<leftarrow> add i q x; add_all narrow ps x i })"

lemma add_all_find:
  "ok i \<Longrightarrow> add_all narrow ps x i = Some i' \<Longrightarrow> ok i'
    \<and> find i' q = (if Some q \<in> narrow ` set ps then insert x (find i q) else find i q)"
proof (induction ps arbitrary: i)
  case (Cons p ps)
  show ?case
  proof (cases "narrow p")
    case None
    then show ?thesis using Cons by auto
  next
    case (Some r)
    then obtain j where j: "add i r x = Some j" "add_all narrow ps x j = Some i'"
      using Cons.prems(2) by (auto split: Option.bind_splits)
    from Cons.IH[OF add_ok[OF Cons.prems(1) j(1)] j(2)] add_find[OF Cons.prems(1) j(1)] Some
    show ?thesis by auto
  qed
qed simp

end

text \<open>The index in memory provides it as long as no allocation fails.\<close>

interpretation allmem: keyword_index index_ok "\<lambda>i q. set (offsets i q)" "add_index_allmem (\<lambda>n. True)"
proof
  fix i q x i' q'
  assume a: "index_ok i" "add_index_allmem (\<lambda>n. True) i q x = Some i'"
  note r = add_index_ok[OF a]
  show "index_ok i'" using r by blast
  show "set (offsets i' q') = (if q' = q then insert x (set (offsets i q')) else set (offsets i q'))"
    using r by (auto simp: set_insort_key)
qed

lemma add_parts_all: "add_parts narrow (\<lambda>n. True) ps off ami = allmem.add_all narrow ps off ami"
proof (induction ps arbitrary: ami)
  case (Cons p ps)
  have "add_parts narrow (\<lambda>n. True) ps off = allmem.add_all narrow ps off" by (rule ext) (rule Cons.IH)
  then show ?case by (cases "narrow p") simp_all
qed simp

text \<open>Which substrings are indexed.\<close>

lemma name_parts_mem: "p \<in> set (name_parts w) \<longleftrightarrow> (\<exists>i\<in>set [0 ..< length w].
    \<exists>j\<in>set [i + 1 ..< min (length w) (i + 8) + 1]. p = take (j - i) (drop i w))"
  by (auto simp: name_parts_def image_iff simp del: upt_Suc)

lemma name_parts_set: "set (name_parts w) = {p. p \<noteq> [] \<and> length p \<le> 8 \<and> (\<exists>us vs. w = us @ p @ vs)}"
proof (intro set_eqI iffI)
  fix p assume "p \<in> set (name_parts w)"
  then obtain i j where ij: "i < length w" "i + 1 \<le> j" "j \<le> length w" "j \<le> i + 8" "p = take (j - i) (drop i w)"
    by (auto simp: name_parts_def simp del: upt_Suc)
  have "w = take i w @ p @ drop j w"
  proof -
    have "drop (j - i) (drop i w) = drop j w" using ij by simp
    then show ?thesis using ij(5) by (metis append_take_drop_id)
  qed
  moreover have "length p = j - i" using ij by simp
  ultimately show "p \<in> {p. p \<noteq> [] \<and> length p \<le> 8 \<and> (\<exists>us vs. w = us @ p @ vs)}" using ij by auto
next
  fix p assume "p \<in> {p. p \<noteq> [] \<and> length p \<le> 8 \<and> (\<exists>us vs. w = us @ p @ vs)}"
  then obtain us vs where p: "p \<noteq> []" "length p \<le> 8" "w = us @ p @ vs" by blast
  let ?i = "length us" and ?j = "length us + length p"
  have "p = take (?j - ?i) (drop ?i w)" using p(3) by simp
  moreover have "?i \<in> set [0 ..< length w]" using p by simp
  moreover have "?j \<in> set [?i + 1 ..< min (length w) (?i + 8) + 1]" using p by (cases p) auto
  ultimately show "p \<in> set (name_parts w)" unfolding name_parts_mem by blast
qed

lemma add_index_find:
  assumes ok: "index_ok ami" and w: "widen name = Some w" and a: "add_index widen narrow (\<lambda>n. True) ami name off = Some ami'"
  shows "index_ok ami'"
    and "set (offsets ami' q) = set (offsets ami q)
      \<union> (if \<exists>us p vs. w = us @ p @ vs \<and> p \<noteq> [] \<and> length p \<le> 8 \<and> narrow p = Some q then {off} else {})"
proof -
  have "allmem.add_all narrow (name_parts w) off ami = Some ami'" using a w by (simp add: add_index_def add_parts_all)
  note r = allmem.add_all_find[OF ok this]
  show "index_ok ami'" using r by blast
  have "Some q \<in> narrow ` set (name_parts w) \<longleftrightarrow> (\<exists>us p vs. w = us @ p @ vs \<and> p \<noteq> [] \<and> length p \<le> 8 \<and> narrow p = Some q)"
    unfolding name_parts_set image_iff by (auto simp: eq_commute)
  then show "set (offsets ami' q) = set (offsets ami q)
      \<union> (if \<exists>us p vs. w = us @ p @ vs \<and> p \<noteq> [] \<and> length p \<le> 8 \<and> narrow p = Some q then {off} else {})"
    using r[of q] by auto
qed

end
