(* ===== verification/Index_File.thy ===== *)
theory Index_File
  imports Index_Props
begin

text \<open>
  The index file: \<open>load_index_keyword\<close> and \<open>save_index_keyword\<close> (\<open>index.c\<close>), saving and loading of the
  index in memory (\<open>index_allmem.c\<close>), and the index that stays on disk (\<open>index_allfile.c\<close>).
  Magic, number of buckets, for each bucket the number of its keywords and the position of the
  first, then the keywords.
\<close>

subsection \<open>One keyword\<close>

text \<open>The characters go through an array on the stack whose size comes from the file; no array has
  zero elements or more than the 8 MiB of a stack.  \<open>r = -1\<close>: another keyword, skipped.\<close>

fun words32 :: "byte list \<Rightarrow> u32 list" where
  "words32 (a # b # c # d # bs) = unle32 a b c d # words32 bs"
| "words32 _ = []"

definition load_index_keyword :: "(nat \<Rightarrow> bool) \<Rightarrow> byte list \<Rightarrow> cstring option \<Rightarrow>
    (int \<times> (cstring \<times> u32 list) option \<times> byte list) option" where
  "load_index_keyword mal f query =
    (let (hdr, f) = file_read f 8 in
     if length hdr \<noteq> 8 then Some (1, None, f)
     else do {
       let sz1 = words32 hdr ! 1;
       let sz0 = words32 hdr ! 0 - 4;
       let sz0 = sz0 - sz1 * 4;
       let n = unat sz0;
       let (bs, f) = file_read f n;
       if n = 0 \<or> n > 8388608 then None
       else if length bs \<noteq> n then Some (2, None, f)
       else do {
         s \<leftarrow> cstr_of bs;
         if query \<noteq> None \<and> query \<noteq> Some s then Some (-1, None, drop (4 * unat sz1) f)
         else if length s \<ge> 7 \<and> \<not> mal (length s + 1) then Some (4, None, f)
         else if \<not> mal (4 * unat sz1) then Some (6, None, f)
         else if 4 * unat sz1 \<ge> 2 ^ 32 then None
         else do {
           let (ok, data, f) = read_file f (sz1 * 4);
           if \<not> ok then Some (7, None, f) else Some (0, Some (s, words32 data), f) } } })"

abbreviation (input) NAME_MAX :: nat where "NAME_MAX \<equiv> 255"

definition save_index_keyword :: "out_file \<Rightarrow> index_keyword \<Rightarrow> (u64 \<times> out_file) option" where
  "save_index_keyword f k =
    (let s = keyword k;
         len = of_nat (length (fsbuf_offsets k)) :: u32;
         inkw_size = 4 + (of_nat (length s) + 1) + 4 * len :: u32;
         buf = le32 inkw_size @ le32 len @ s @ [0]
     in if length buf > NAME_MAX then None
        else let (n, f) = file_write f buf in
          if n \<noteq> length buf then Some (0, f)
          else let (ok, f) = write_file f (concat (map le32 (fsbuf_offsets k))) (len * 4) in
            if \<not> ok then Some (0, f) else Some (ucast (inkw_size + 4), f))"

subsection \<open>Saving the index in memory\<close>

definition index_magic :: "byte list" where
  "index_magic = [70, 83, 73, 0]"

fun inkw_count_offs :: "u64 \<Rightarrow> index_hash list \<Rightarrow> byte list" where
  "inkw_count_offs offset [] = []"
| "inkw_count_offs offset (h # hs) =
     le32 (of_nat (length (kwords h))) @ bytes_le 8 offset @
     inkw_count_offs (offset + sum_list (map (\<lambda>k. 4 * 2 + of_nat (length (keyword k)) + 1
       + 4 * of_nat (length (fsbuf_offsets k))) (kwords h))) hs"

fun save_keywords :: "out_file \<Rightarrow> index_keyword list \<Rightarrow> (bool \<times> out_file) option" where
  "save_keywords f [] = Some (True, f)"
| "save_keywords f (k # ks) = do {
     (n, f) \<leftarrow> save_index_keyword f k;
     if n = 0 then Some (False, f) else save_keywords f ks }"

definition save_allmem_index :: "(nat \<Rightarrow> bool) \<Rightarrow> fs_allmem_index \<Rightarrow> out_file option \<Rightarrow> (int \<times> out_file option) option" where
  "save_allmem_index mal ami fd =
    (case fd of None \<Rightarrow> Some (1, None)
     | Some f \<Rightarrow>
       let (n, f) = file_write f index_magic in
       if n \<noteq> 4 then Some (2, Some f)
       else let (n, f) = file_write f (le32 (count ami)) in
         if n \<noteq> 4 then Some (3, Some f)
         else if \<not> mal (12 * unat (count ami)) then Some (4, Some f)
         else
           let offset = 4 + 4 + 12 * ucast (count ami) :: u64;
               (ok, f) = write_file f (inkw_count_offs offset (indice ami)) (12 * count ami)
           in if \<not> ok then Some (5, Some f)
              else do {
                (ok, f) \<leftarrow> save_keywords f (concat (map kwords (indice ami)));
                Some (if ok then 0 else 6, Some f) })"

subsection \<open>Loading into memory\<close>

fun load_keywords :: "(nat \<Rightarrow> bool) \<Rightarrow> nat \<Rightarrow> byte list \<Rightarrow> (index_keyword list option \<times> byte list) option" where
  "load_keywords mal 0 f = Some (Some [], f)"
| "load_keywords mal (Suc n) f = do {
     (r, k, f) \<leftarrow> load_index_keyword mal f None;
     case k of None \<Rightarrow> Some (None, f)
     | Some (s, offs) \<Rightarrow> do {
         (ks, f) \<leftarrow> load_keywords mal n f;
         Some (map_option ((#) \<lparr>keyword = s, fsbuf_offsets = offs, kw_empty = 0\<rparr>) ks, f) } }"

text \<open>The buckets in turn; the code of the first failure.  The numbers of keywords pass through the
  28 bits of the field.\<close>

fun load_buckets :: "(nat \<Rightarrow> bool) \<Rightarrow> nat list \<Rightarrow> byte list \<Rightarrow> (int \<times> index_hash list) option" where
  "load_buckets mal [] f = Some (0, [])"
| "load_buckets mal (n # ns) f =
    (if \<not> mal (sizeof_index_keyword * n) then Some (13, [])
     else do {
       (ks, f) \<leftarrow> load_keywords mal n f;
       case ks of None \<Rightarrow> Some (14, [])
       | Some ks \<Rightarrow> do {
           (r, hs) \<leftarrow> load_buckets mal ns f;
           Some (r, \<lparr>kwords = ks, ih_empty = 0\<rparr> # hs) } })"

fun icos_lens :: "byte list \<Rightarrow> nat list" where
  "icos_lens (a # b # c # d # _ # _ # _ # _ # _ # _ # _ # _ # bs) = unat (take_bit 28 (unle32 a b c d)) # icos_lens bs"
| "icos_lens _ = []"

definition load_inkw_count_offs :: "(nat \<Rightarrow> bool) \<Rightarrow> byte list \<Rightarrow> u32 \<Rightarrow> byte list option \<times> byte list" where
  "load_inkw_count_offs mal f n =
    (if \<not> mal (12 * unat n) then (None, f)
     else let (ok, data, f) = read_file f (12 * n) in (if ok then Some data else None, f))"

definition load_allmem_index :: "(nat \<Rightarrow> bool) \<Rightarrow> byte list \<Rightarrow> u32 \<Rightarrow> (int \<times> fs_allmem_index option) option" where
  "load_allmem_index mal f n =
    (if \<not> mal sizeof_allmem_index then Some (10, None)
     else if \<not> mal (sizeof_index_hash * unat n) then Some (11, None)
     else let (icos, f) = load_inkw_count_offs mal f n in
       (case icos of None \<Rightarrow> Some (12, None)
        | Some data \<Rightarrow>
          if 12 * unat n \<ge> 2 ^ 32 then None
          else do {
            (r, hs) \<leftarrow> load_buckets mal (icos_lens data) f;
            Some (r, if r = 0 then Some \<lparr>count = n, indice = hs\<rparr> else None) }))"

subsection \<open>The index on disk\<close>

text \<open>A lookup reads the entry of the bucket and then its keywords one by one.  On a failure before
  the pointers of the fresh keyword are set, \<open>free_index_keyword\<close> frees uninitialised pointers:
  no defined result.\<close>

fun allfile_loop :: "(nat \<Rightarrow> bool) \<Rightarrow> cstring \<Rightarrow> nat \<Rightarrow> byte list \<Rightarrow> (cstring \<times> u32 list) option option" where
  "allfile_loop mal q 0 f = Some None"
| "allfile_loop mal q (Suc n) f = do {
     (r, k, f) \<leftarrow> load_index_keyword mal f (Some q);
     if r = 0 then Some k
     else if r > 0 then (if r \<le> 4 then None else Some None)
     else allfile_loop mal q n f }"

definition get_index_keyword_allfile ::
  "(nat \<Rightarrow> bool) \<Rightarrow> byte list \<Rightarrow> u32 \<Rightarrow> cstring \<Rightarrow> (cstring \<times> u32 list) option option" where
  "get_index_keyword_allfile mal file n q =
    (if n = 0 then None
     else
       let ih = unat (hash q mod n);
           off = 8 + ih * 12;
           (bs, _) = file_read (drop off file) 12
       in if length bs \<noteq> 12 then Some None
          else
            let len = words32 (take 4 bs) ! 0; pos = le_bytes (drop 4 bs)
            in if len = 0 then Some None
               else if \<not> mal sizeof_index_keyword then Some None
               else allfile_loop mal q (unat len) (drop (unat pos) file))"

subsection \<open>The common interface\<close>

text \<open>The table of function pointers of \<open>index_base.h\<close> becomes a case distinction.\<close>

datatype fs_index = Allmem fs_allmem_index | Allfile u32 "byte list"

abbreviation (input) LOAD_ALL :: int where "LOAD_ALL \<equiv> 0"
abbreviation (input) LOAD_NONE :: int where "LOAD_NONE \<equiv> 1"

fun get_load_policy :: "fs_index \<Rightarrow> int" where
  "get_load_policy (Allmem ami) = LOAD_ALL"
| "get_load_policy (Allfile n f) = LOAD_NONE"

fun get_stats :: "fs_index \<Rightarrow> u64 \<times> u32 \<times> u32" where
  "get_stats (Allmem ami) = get_stats_allmem ami"
| "get_stats (Allfile n f) = (0, 0, 0)"

fun get_index_keyword :: "(nat \<Rightarrow> bool) \<Rightarrow> fs_index \<Rightarrow> cstring \<Rightarrow> (cstring \<times> u32 list) option option" where
  "get_index_keyword mal (Allmem ami) q = map_option (map_option (\<lambda>(ih, i).
     let k = kwords (indice ami ! ih) ! i in (keyword k, fsbuf_offsets k))) (get_index_keyword_allmem ami q)"
| "get_index_keyword mal (Allfile n f) q = get_index_keyword_allfile mal f n q"

fun add_fsbuf_offsets :: "fs_index \<Rightarrow> u32 \<Rightarrow> u32 \<Rightarrow> fs_index" where
  "add_fsbuf_offsets (Allmem ami) st d = Allmem (add_fsbuf_offsets_allmem ami st d)"
| "add_fsbuf_offsets (Allfile n f) st d = Allfile n f"

definition load_allfile_index :: "(nat \<Rightarrow> bool) \<Rightarrow> byte list \<Rightarrow> u32 \<Rightarrow> int \<times> fs_index option" where
  "load_allfile_index mal file n = (if \<not> mal 64 then (10, None) else (0, Some (Allfile n file)))"

definition load_fs_index :: "(nat \<Rightarrow> bool) \<Rightarrow> byte list option \<Rightarrow> int \<Rightarrow> (int \<times> fs_index option) option" where
  "load_fs_index mal fd load_policy =
    (case fd of None \<Rightarrow> Some (1, None)
     | Some file \<Rightarrow>
       let (magic, f) = file_read file 4 in
       if length magic \<noteq> 4 \<or> magic \<noteq> index_magic then Some (2, None)
       else let (len, f) = file_read f 4 in
         if length len \<noteq> 4 then Some (3, None)
         else let n = words32 len ! 0 in
           if load_policy = LOAD_ALL then
             map_option (\<lambda>(r, a). (r, map_option Allmem a)) (load_allmem_index mal f n)
           else if load_policy = LOAD_NONE then Some (load_allfile_index mal file n)
           else Some (-1, None))"

end
