(* ===== verification/Index_Round.thy ===== *)
theory Index_Round
  imports Index_File
begin

text \<open>
  The index file read back: loading gives the saved index again, and the index on disk answers
  every query like the index in memory.
\<close>

subsection \<open>The format\<close>

definition enc_kw :: "index_keyword \<Rightarrow> byte list" where
  "enc_kw k = le32 (4 + (of_nat (length (keyword k)) + 1) + 4 * of_nat (length (fsbuf_offsets k)))
     @ le32 (of_nat (length (fsbuf_offsets k))) @ keyword k @ [0] @ concat (map le32 (fsbuf_offsets k))"

definition kw_ok :: "index_keyword \<Rightarrow> bool" where
  "kw_ok k \<longleftrightarrow> is_cstr (keyword k) \<and> length (keyword k) \<le> 246 \<and> length (fsbuf_offsets k) < 2 ^ 28"

definition kw_pair :: "index_keyword \<Rightarrow> cstring \<times> u32 list" where
  "kw_pair k = (keyword k, fsbuf_offsets k)"

lemma words32_le32 [simp]: "words32 (le32 w @ bs) = w # words32 bs"
  by (simp add: le32_def unle32_le32)

lemma words32_concat [simp]: "words32 (concat (map le32 ws)) = ws"
  by (induction ws) simp_all

lemma words32_le32_one [simp]: "words32 (le32 w) = [w]"
  using words32_le32[of w "[]"] by simp

lemma length_concat_le32 [simp]: "length (concat (map le32 ws)) = 4 * length ws"
  by (induction ws) simp_all

lemma kw_unat:
  assumes "kw_ok k"
  shows "unat (4 + (of_nat (length (keyword k)) + 1) + 4 * of_nat (length (fsbuf_offsets k)) :: u32)
      = 5 + length (keyword k) + 4 * length (fsbuf_offsets k)"
    "unat (of_nat (length (fsbuf_offsets k)) :: u32) = length (fsbuf_offsets k)"
    "unat (of_nat (length (fsbuf_offsets k)) * 4 :: u32) = 4 * length (fsbuf_offsets k)"
proof -
  have l: "length (keyword k) \<le> 246" "length (fsbuf_offsets k) < 268435456" using assms by (simp_all add: kw_ok_def)
  have "(4 + (of_nat (length (keyword k)) + 1) + 4 * of_nat (length (fsbuf_offsets k)) :: u32)
      = of_nat (5 + length (keyword k) + 4 * length (fsbuf_offsets k))" by simp
  then show "unat (4 + (of_nat (length (keyword k)) + 1) + 4 * of_nat (length (fsbuf_offsets k)) :: u32)
      = 5 + length (keyword k) + 4 * length (fsbuf_offsets k)"
    using l by (simp only: unat_of_nat32)
  show "unat (of_nat (length (fsbuf_offsets k)) :: u32) = length (fsbuf_offsets k)"
    using l by (simp add: unat_of_nat32)
  have "(of_nat (length (fsbuf_offsets k)) * 4 :: u32) = of_nat (4 * length (fsbuf_offsets k))" by simp
  then show "unat (of_nat (length (fsbuf_offsets k)) * 4 :: u32) = 4 * length (fsbuf_offsets k)"
    using l by (simp only: unat_of_nat32)
qed

lemma load_enc:
  assumes k: "kw_ok k" and m: "\<forall>n. mal n"
  shows "load_index_keyword mal (enc_kw k @ f) q =
    (if q = None \<or> q = Some (keyword k) then Some (0, Some (kw_pair k), f) else Some (-1, None, f))"
proof -
  let ?s = "keyword k" and ?n = "length (fsbuf_offsets k)"
  define sz0 :: u32 where "sz0 = 4 + (of_nat (length ?s) + 1) + 4 * of_nat ?n"
  define D where "D = concat (map le32 (fsbuf_offsets k))"
  have enc: "enc_kw k @ f = (le32 sz0 @ le32 (of_nat ?n)) @ (?s @ [0]) @ D @ f"
    by (simp add: enc_kw_def sz0_def D_def)
  have r1: "file_read (enc_kw k @ f) 8 = (le32 sz0 @ le32 (of_nat ?n), (?s @ [0]) @ D @ f)"
    unfolding enc by (simp add: file_read_def)
  have w: "words32 (le32 sz0 @ le32 (of_nat ?n)) = [sz0, of_nat ?n]" by simp
  have l: "length ?s \<le> 246" "?n < 268435456" "is_cstr ?s" using k by (simp_all add: kw_ok_def)
  have sz: "sz0 - 4 - of_nat ?n * 4 = of_nat (length ?s + 1)" by (simp add: sz0_def)
  have n: "unat (sz0 - 4 - of_nat ?n * 4) = length ?s + 1" unfolding sz using l by (simp only: unat_of_nat32)
  have r2: "file_read (?s @ 0 # D @ f) (Suc (length ?s)) = (?s @ [0], D @ f)" by (simp add: file_read_def)
  have c: "cstr_of (?s @ [0]) = Some ?s" using cstr_of_split[OF l(3), of "[]"] by simp
  have lD: "length D = 4 * ?n" by (simp add: D_def)
  have rf: "read_file (D @ f) (of_nat ?n * 4) = (True, D, f)"
    using read_file_loop_all[of D "4 * ?n" f "[]"] kw_unat(3)[OF k] lD by (simp add: read_file_def)
  have wD: "words32 D = fsbuf_offsets k" by (simp add: D_def)
  show ?thesis
    unfolding load_index_keyword_def r1 Let_def prod.case w
    using m l lD by (simp add: n r2 c rf wD kw_unat(2)[OF k] kw_pair_def nth_Cons')
qed

lemma save_enc:
  assumes k: "kw_ok k" and room: "length (enc_kw k) \<le> room f"
  shows "save_index_keyword f k = Some (of_nat (length (enc_kw k)),
      f\<lparr>content := content f @ enc_kw k, room := room f - length (enc_kw k)\<rparr>)"
proof -
  let ?s = "keyword k" and ?n = "length (fsbuf_offsets k)"
  define sz0 :: u32 where "sz0 = 4 + (of_nat (length ?s) + 1) + 4 * of_nat ?n"
  define D where "D = concat (map le32 (fsbuf_offsets k))"
  define B where "B = le32 sz0 @ le32 (of_nat ?n) @ ?s @ [0]"
  have enc: "enc_kw k = B @ D" by (simp add: enc_kw_def sz0_def D_def B_def)
  have lB: "length B = 9 + length ?s" and lD: "length D = 4 * ?n" by (simp_all add: B_def D_def)
  have l: "length ?s \<le> 246" "?n < 268435456" using k by (simp_all add: kw_ok_def)
  let ?f1 = "f\<lparr>content := content f @ B, room := room f - length B\<rparr>"
  have w1: "file_write f B = (length B, ?f1)" using room unfolding enc by (simp add: file_write_def Let_def min_def)
  have w2: "write_file ?f1 D (of_nat ?n * 4) = (True, ?f1\<lparr>content := content ?f1 @ D, room := room ?f1 - length D\<rparr>)"
    by (rule write_file_all) (use room lD kw_unat(3)[OF k] in \<open>simp_all add: enc\<close>)
  have sz: "sz0 + 4 = of_nat (9 + length ?s + 4 * ?n)" by (simp add: sz0_def)
  have u: "ucast (sz0 + 4) = (of_nat (length (enc_kw k)) :: u64)"
  proof -
    have "unat (sz0 + 4) = length (enc_kw k)" unfolding sz using l lB lD by (simp only: unat_of_nat32 enc length_append)
    then show ?thesis by (metis of_nat_unat)
  qed
  have "\<not> length B > 255" using l lB by simp
  then show ?thesis
    unfolding save_index_keyword_def Let_def sz0_def[symmetric] B_def[symmetric] D_def[symmetric] w1 prod.case w2 u
    by (simp add: enc)
qed

subsection \<open>The whole file\<close>

abbreviation enc_kws :: "index_keyword list \<Rightarrow> byte list" where
  "enc_kws ks \<equiv> concat (map enc_kw ks)"

definition saveable :: "fs_allmem_index \<Rightarrow> bool" where
  "saveable ami \<longleftrightarrow> length (indice ami) = unat (count ami) \<and> 12 * unat (count ami) < 2 ^ 32
     \<and> (\<forall>h\<in>set (indice ami). length (kwords h) < 2 ^ 28 \<and> (\<forall>k\<in>set (kwords h). kw_ok k))"

definition file_of :: "fs_allmem_index \<Rightarrow> byte list" where
  "file_of ami = index_magic @ le32 (count ami)
     @ inkw_count_offs (4 + 4 + 12 * ucast (count ami)) (indice ami) @ enc_kws (concat (map kwords (indice ami)))"

lemma length_magic [simp]: "length index_magic = 4"
  by (simp add: index_magic_def)

lemma length_inkw_count_offs [simp]: "length (inkw_count_offs off hs) = 12 * length hs"
  by (induction hs arbitrary: off) simp_all

lemma save_keywords_enc:
  "\<forall>k\<in>set ks. kw_ok k \<Longrightarrow> length (enc_kws ks) \<le> room f \<Longrightarrow> length (enc_kws ks) < 2 ^ 64 \<Longrightarrow> save_keywords f ks
    = Some (True, f\<lparr>content := content f @ enc_kws ks, room := room f - length (enc_kws ks)\<rparr>)"
proof (induction ks arbitrary: f)
  case (Cons k ks)
  have k: "kw_ok k" and room: "length (enc_kw k) \<le> room f" using Cons.prems by simp_all
  define f1 where "f1 = f\<lparr>content := content f @ enc_kw k, room := room f - length (enc_kw k)\<rparr>"
  have s: "save_index_keyword f k = Some (of_nat (length (enc_kw k)), f1)" unfolding f1_def by (rule save_enc[OF k room])
  have "0 < length (enc_kw k)" "length (enc_kw k) < 2 ^ 64" using Cons.prems(3) by (simp_all add: enc_kw_def)
  then have nz: "(of_nat (length (enc_kw k)) :: u64) \<noteq> 0" by (auto simp: word_of_nat_eq_0_iff dest: dvd_imp_le)
  have "save_keywords f1 ks = Some (True, f1\<lparr>content := content f1 @ enc_kws ks, room := room f1 - length (enc_kws ks)\<rparr>)"
    by (rule Cons.IH) (use Cons.prems in \<open>simp_all add: f1_def\<close>)
  then show ?case using s nz by (simp add: f1_def)
qed simp

lemma load_keywords_enc:
  "\<forall>k\<in>set ks. kw_ok k \<Longrightarrow> load_keywords (\<lambda>n. True) (length ks) (enc_kws ks @ f)
    = Some (Some (map (\<lambda>k. k\<lparr>kw_empty := 0\<rparr>) ks), f)"
proof (induction ks)
  case (Cons k ks)
  have "load_index_keyword (\<lambda>n. True) (enc_kws (k # ks) @ f) None = Some (0, Some (kw_pair k), enc_kws ks @ f)"
    using load_enc[of k "\<lambda>n. True" "enc_kws ks @ f" None] Cons.prems by simp
  then show ?case using Cons by (simp add: kw_pair_def)
qed simp

lemma load_buckets_enc:
  "\<forall>h\<in>set hs. \<forall>k\<in>set (kwords h). kw_ok k \<Longrightarrow>
    load_buckets (\<lambda>n. True) (map (\<lambda>h. length (kwords h)) hs) (enc_kws (concat (map kwords hs)) @ f)
    = Some (0, map (\<lambda>h. \<lparr>kwords = map (\<lambda>k. k\<lparr>kw_empty := 0\<rparr>) (kwords h), ih_empty = 0\<rparr>) hs)"
proof (induction hs)
  case (Cons h hs)
  have "load_keywords (\<lambda>n. True) (length (kwords h)) (enc_kws (kwords h) @ enc_kws (concat (map kwords hs)) @ f)
    = Some (Some (map (\<lambda>k. k\<lparr>kw_empty := 0\<rparr>) (kwords h)), enc_kws (concat (map kwords hs)) @ f)"
    by (rule load_keywords_enc) (use Cons.prems in simp_all)
  then show ?case using Cons by simp
qed simp

lemma icos_lens_enc:
  "\<forall>h\<in>set hs. length (kwords h) < 2 ^ 28 \<Longrightarrow> icos_lens (inkw_count_offs off hs) = map (\<lambda>h. length (kwords h)) hs"
proof (induction hs arbitrary: off)
  case (Cons h hs)
  have n: "length (kwords h) < 268435456" using Cons.prems by simp
  have "unat (take_bit 28 (of_nat (length (kwords h)) :: u32)) = length (kwords h)"
    using n by (simp add: unsigned_take_bit_eq unat_of_nat32 take_bit_nat_eq_self)
  moreover have "bytes_le 8 off = [ucast off, ucast (drop_bit 8 off), ucast (drop_bit 16 off), ucast (drop_bit 24 off),
      ucast (drop_bit 32 off), ucast (drop_bit 40 off), ucast (drop_bit 48 off), ucast (drop_bit 56 off)]"
    by (simp add: eval_nat_numeral)
  ultimately show ?case using Cons n by (simp add: le32_def unle32_le32 unat_of_nat32)
qed simp

lemma unat_12: "12 * unat n < 2 ^ 32 \<Longrightarrow> unat (12 * n :: u32) = 12 * unat n"
  by (simp add: unat_word_ariths)

lemma save_allmem_enc:
  assumes ok: "saveable ami" and room: "length (file_of ami) \<le> room f" "length (file_of ami) < 2 ^ 64"
    and m: "\<forall>n. mal n"
  shows "save_allmem_index mal ami (Some f) = Some (0, Some
    (f\<lparr>content := content f @ file_of ami, room := room f - length (file_of ami)\<rparr>))"
proof -
  define I where "I = inkw_count_offs (4 + 4 + 12 * ucast (count ami)) (indice ami)"
  define K where "K = enc_kws (concat (map kwords (indice ami)))"
  have fo: "file_of ami = index_magic @ le32 (count ami) @ I @ K" by (simp add: file_of_def I_def K_def)
  have lI: "length I = 12 * unat (count ami)" using ok by (simp add: I_def saveable_def)
  have kws: "\<forall>k\<in>set (concat (map kwords (indice ami))). kw_ok k" using ok by (auto simp: saveable_def)
  define f1 where "f1 = f\<lparr>content := content f @ index_magic, room := room f - 4\<rparr>"
  define f2 where "f2 = f1\<lparr>content := content f1 @ le32 (count ami), room := room f1 - 4\<rparr>"
  define f3 where "f3 = f2\<lparr>content := content f2 @ I, room := room f2 - length I\<rparr>"
  have w1: "file_write f index_magic = (4, f1)" using room unfolding fo by (simp add: file_write_def Let_def f1_def min_def)
  have w2: "file_write f1 (le32 (count ami)) = (4, f2)"
    using room unfolding fo by (simp add: file_write_def Let_def f1_def f2_def min_def)
  have "unat (12 * count ami) = length I" using ok unat_12[of "count ami"] lI by (simp add: saveable_def)
  then have w3: "write_file f2 I (12 * count ami) = (True, f3)"
    unfolding f3_def by (intro write_file_all) (use room in \<open>simp_all add: fo f1_def f2_def\<close>)
  have w4: "save_keywords f3 (concat (map kwords (indice ami)))
      = Some (True, f3\<lparr>content := content f3 @ K, room := room f3 - length K\<rparr>)"
    unfolding K_def by (rule save_keywords_enc[OF kws]) (use room in \<open>simp_all add: fo f1_def f2_def f3_def K_def\<close>)
  show ?thesis
    unfolding save_allmem_index_def option.case Let_def w1 prod.case I_def[symmetric]
    using m by (simp add: w2 w3 w4) (simp add: fo f1_def f2_def f3_def)
qed

text \<open>The spare cells are not saved.\<close>

definition packed :: "fs_allmem_index \<Rightarrow> fs_allmem_index" where
  "packed ami = ami\<lparr>indice := map (\<lambda>h. \<lparr>kwords = map (\<lambda>k. k\<lparr>kw_empty := 0\<rparr>) (kwords h), ih_empty = 0\<rparr>) (indice ami)\<rparr>"

lemma load_fs_index_enc:
  assumes ok: "saveable ami"
  shows "load_fs_index (\<lambda>n. True) (Some (file_of ami)) LOAD_ALL = Some (0, Some (Allmem (packed ami)))"
    and "load_fs_index (\<lambda>n. True) (Some (file_of ami)) LOAD_NONE = Some (0, Some (Allfile (count ami) (file_of ami)))"
proof -
  define I where "I = inkw_count_offs (4 + 4 + 12 * ucast (count ami)) (indice ami)"
  define K where "K = enc_kws (concat (map kwords (indice ami)))"
  have fo: "file_of ami = index_magic @ le32 (count ami) @ I @ K" by (simp add: file_of_def I_def K_def)
  have lI: "length I = 12 * unat (count ami)" using ok by (simp add: I_def saveable_def)
  have r1: "file_read (file_of ami) 4 = (index_magic, le32 (count ami) @ I @ K)"
    "file_read (le32 (count ami) @ I @ K) 4 = (le32 (count ami), I @ K)" by (simp_all add: fo file_read_def)
  have u: "unat (12 * count ami) = length I" using ok unat_12[of "count ami"] lI by (simp add: saveable_def)
  have "read_file (I @ K) (12 * count ami) = (True, I, K)"
    using read_file_loop_all[of I "length I" K "[]"] u by (simp add: read_file_def)
  then have icos: "load_inkw_count_offs (\<lambda>n. True) (I @ K) (count ami) = (Some I, K)"
    by (simp add: load_inkw_count_offs_def)
  have il: "icos_lens I = map (\<lambda>h. length (kwords h)) (indice ami)"
    unfolding I_def by (rule icos_lens_enc) (use ok in \<open>simp add: saveable_def\<close>)
  have "\<forall>h\<in>set (indice ami). \<forall>k\<in>set (kwords h). kw_ok k" using ok by (simp add: saveable_def)
  from load_buckets_enc[OF this, of "[]"] have lb: "load_buckets (\<lambda>n. True) (icos_lens I) K
      = Some (0, map (\<lambda>h. \<lparr>kwords = map (\<lambda>k. k\<lparr>kw_empty := 0\<rparr>) (kwords h), ih_empty = 0\<rparr>) (indice ami))"
    unfolding il K_def by simp
  have "load_allmem_index (\<lambda>n. True) (I @ K) (count ami) = Some (0, Some (packed ami))"
    using ok icos lb by (simp add: load_allmem_index_def packed_def saveable_def)
  then show "load_fs_index (\<lambda>n. True) (Some (file_of ami)) LOAD_ALL = Some (0, Some (Allmem (packed ami)))"
    unfolding load_fs_index_def option.case Let_def r1 prod.case by (simp add: r1)
  show "load_fs_index (\<lambda>n. True) (Some (file_of ami)) LOAD_NONE = Some (0, Some (Allfile (count ami) (file_of ami)))"
    unfolding load_fs_index_def option.case Let_def r1 prod.case by (simp add: r1 load_allfile_index_def)
qed

subsection \<open>The index on disk answers like the index in memory\<close>

lemma allfile_loop_enc:
  "\<forall>k\<in>set ks. kw_ok k \<Longrightarrow> allfile_loop (\<lambda>n. True) q (length ks) (enc_kws ks @ f)
    = Some (map_option (\<lambda>i. kw_pair (ks ! i)) (find_keyword ks q))"
proof (induction ks)
  case (Cons k ks)
  have l: "load_index_keyword (\<lambda>n. True) (enc_kws (k # ks) @ f) (Some q)
      = (if q = keyword k then Some (0, Some (kw_pair k), enc_kws ks @ f) else Some (-1, None, enc_kws ks @ f))"
    using load_enc[of k "\<lambda>n. True" "enc_kws ks @ f" "Some q"] Cons.prems by simp
  show ?case
  proof (cases "q = keyword k")
    case True
    then show ?thesis using l by simp
  next
    case False
    then have "allfile_loop (\<lambda>n. True) q (length (k # ks)) (enc_kws (k # ks) @ f)
        = allfile_loop (\<lambda>n. True) q (length ks) (enc_kws ks @ f)" using l by simp
    also have "\<dots> = Some (map_option (\<lambda>i. kw_pair (ks ! i)) (find_keyword ks q))" using Cons by simp
    finally show ?thesis using False by (cases "find_keyword ks q") auto
  qed
qed simp

lemma bucket_size: "sum_list (map (\<lambda>k. 4 * 2 + of_nat (length (keyword k)) + 1 + 4 * of_nat (length (fsbuf_offsets k))) ks)
    = (of_nat (length (enc_kws ks)) :: u64)"
  by (induction ks) (simp_all add: enc_kw_def)

lemma ico_at:
  "i < length hs \<Longrightarrow> take 12 (drop (12 * i) (inkw_count_offs off hs)) = le32 (of_nat (length (kwords (hs ! i))))
     @ bytes_le 8 (off + of_nat (length (enc_kws (concat (map kwords (take i hs))))))"
proof (induction hs arbitrary: i off)
  case (Cons h hs)
  have step: "inkw_count_offs off (h # hs) = le32 (of_nat (length (kwords h))) @ bytes_le 8 off
      @ inkw_count_offs (off + of_nat (length (enc_kws (kwords h)))) hs"
    by (simp only: inkw_count_offs.simps bucket_size)
  show ?case
  proof (cases i)
    case (Suc j)
    have d: "drop (12 * i) (inkw_count_offs off (h # hs))
        = drop (12 * j) (inkw_count_offs (off + of_nat (length (enc_kws (kwords h)))) hs)"
      using Suc unfolding step by simp
    show ?thesis unfolding d using Cons.IH[of j] Cons.prems Suc by (simp add: add.assoc)
  qed simp
qed simp

lemma get_index_keyword_equiv:
  assumes ok: "saveable ami" and c: "count ami \<noteq> 0" and small: "length (file_of ami) < 2 ^ 64"
  shows "get_index_keyword_allfile (\<lambda>n. True) (file_of ami) (count ami) q
    = get_index_keyword (\<lambda>n. True) (Allmem ami) q"
proof -
  define off where "off = (4 + 4 + 12 * ucast (count ami) :: u64)"
  define I where "I = inkw_count_offs off (indice ami)"
  define ih where "ih = unat (hash q mod count ami)"
  have len: "length (indice ami) = unat (count ami)" using ok by (simp add: saveable_def)
  have fo: "file_of ami = (index_magic @ le32 (count ami)) @ I @ enc_kws (concat (map kwords (indice ami)))"
    by (simp add: file_of_def I_def off_def)
  have lI: "length I = 12 * unat (count ami)" by (simp add: I_def len)
  have "hash q mod count ami < count ami" using c by (simp add: word_mod_less_divisor word_gt_0)
  then have ih: "ih < length (indice ami)" using len by (simp add: ih_def word_less_nat_alt)
  let ?h = "indice ami ! ih"
  have hs: "indice ami = take ih (indice ami) @ ?h # drop (Suc ih) (indice ami)" using ih by (rule id_take_nth_drop)
  define P where "P = enc_kws (concat (map kwords (take ih (indice ami))))"
  define R where "R = enc_kws (concat (map kwords (drop (Suc ih) (indice ami))))"
  have K: "enc_kws (concat (map kwords (indice ami))) = P @ enc_kws (kwords ?h) @ R"
    by (subst hs) (simp add: P_def R_def)
  have ok_h: "length (kwords ?h) < 268435456" "\<forall>k\<in>set (kwords ?h). kw_ok k"
    using ok ih by (auto simp: saveable_def)
  have "12 * ih + 12 \<le> length I" using ih lI len by linarith
  then have "take 12 (drop (8 + ih * 12) (file_of ami)) = take 12 (drop (12 * ih) I)"
    unfolding fo by (simp add: mult.commute)
  also have "\<dots> = le32 (of_nat (length (kwords ?h))) @ bytes_le 8 (off + of_nat (length P))"
    unfolding I_def P_def by (rule ico_at[OF ih])
  finally have ico: "take 12 (drop (8 + ih * 12) (file_of ami))
      = le32 (of_nat (length (kwords ?h))) @ bytes_le 8 (off + of_nat (length P))" .
  have lf: "length (file_of ami) = 8 + 12 * unat (count ami) + length P + length (enc_kws (kwords ?h)) + length R"
    unfolding fo K by (simp add: lI)
  have "off + of_nat (length P) = of_nat (8 + 12 * unat (count ami) + length P)" by (simp add: off_def)
  then have pos: "unat (off + of_nat (length P)) = 8 + 12 * unat (count ami) + length P"
    using small lf by (simp only: unat_of_nat) simp
  have rest: "drop (8 + 12 * unat (count ami) + length P) (file_of ami) = enc_kws (kwords ?h) @ R"
    unfolding fo K using lI by simp
  have loop: "allfile_loop (\<lambda>n. True) q (length (kwords ?h)) (enc_kws (kwords ?h) @ R)
      = Some (map_option (\<lambda>i. kw_pair (kwords ?h ! i)) (find_keyword (kwords ?h) q))"
    by (rule allfile_loop_enc[OF ok_h(2)])
  have nl: "(of_nat (length (kwords ?h)) :: u32) = 0 \<longleftrightarrow> kwords ?h = []" "unat (of_nat (length (kwords ?h)) :: u32) = length (kwords ?h)"
    using ok_h(1) of_nat32_eq_0[of "length (kwords ?h)"] by (simp_all add: unat_of_nat32)
  have mem: "get_index_keyword (\<lambda>n. True) (Allmem ami) q
      = Some (map_option (\<lambda>i. kw_pair (kwords ?h ! i)) (find_keyword (kwords ?h) q))"
    using c by (simp add: get_index_keyword_allmem_def bucket_of_def ih_def[symmetric] option.map_comp comp_def kw_pair_def Let_def)
  have t: "take 4 (le32 w @ bytes_le 8 v) = le32 w" "drop 4 (le32 w @ bytes_le 8 v) = bytes_le 8 v" for w v by simp_all
  show ?thesis
    unfolding mem get_index_keyword_allfile_def file_read_def Let_def ih_def[symmetric] prod.case ico t
    using c nl loop by (simp add: pos rest)
qed

end
