(* ===== verification/Index_Claims.thy ===== *)
theory Index_Claims
  imports Index_Round
begin

text \<open>
  The correctness of the keyword index.  The witnesses run on an index of three buckets that
  holds the keywords \<open>a\<close> and \<open>ab\<close>.
\<close>

definition sample_index :: fs_allmem_index where
  "sample_index = \<lparr>count = 3, indice = [
     \<lparr>kwords = [\<lparr>keyword = [97, 98], fsbuf_offsets = [16], kw_empty = 3\<rparr>], ih_empty = 3\<rparr>,
     \<lparr>kwords = [\<lparr>keyword = [97], fsbuf_offsets = [10, 16], kw_empty = 2\<rparr>], ih_empty = 3\<rparr>,
     \<lparr>kwords = [], ih_empty = 0\<rparr>]\<rparr>"

lemma sample_hash: "bucket_of sample_index [97] = Some 1" "bucket_of sample_index [97, 98] = Some 0"
  by code_simp+

lemma sample_index_ok: "index_ok sample_index"
proof -
  have "distinct (map keyword (kwords (indice sample_index ! i)))
      \<and> (\<forall>k\<in>set (kwords (indice sample_index ! i)). bucket_of sample_index (keyword k) = Some i
           \<and> sorted_wrt (<) (fsbuf_offsets k))" if i: "i < 3" for i
  proof -
    consider "i = 0" | "i = 1" | "i = 2" using i by linarith
    then show ?thesis using sample_hash by cases (simp_all add: sample_index_def)
  qed
  moreover have "length (indice sample_index) = 3" "count sample_index = 3" by (simp_all add: sample_index_def)
  ultimately show ?thesis by (simp add: index_ok_def)
qed

lemma sample_saveable: "saveable sample_index"
  by (simp add: saveable_def sample_index_def kw_ok_def is_cstr_def)

lemma sample_offsets: "offsets sample_index [97] = [10, 16]" "offsets sample_index [97, 98] = [16]"
  by code_simp+

text \<open>the union of a pointer and seven characters stores every string: reading it gives the string
  back, if the pointers that \<open>strdup\<close> returns do not have the tag as their highest byte.\<close>

theorem composite_str_roundtrip:
  assumes "is_cstr s" "bytes_le 8 (dup s) ! 7 \<noteq> 117" "set_cs_string dup h s = (r, cs, h')" "r \<noteq> CS_SET_STR_FAIL"
  shows "get_cs_string h' cs = Some s"
  by (rule cs_string_stored[OF assms])

theorem composite_str_roundtrip_witness:
  "get_cs_string (Map.empty(4096 \<mapsto> [104, 101, 108, 108, 111, 32, 121, 111, 117])) (bytes_le 8 4096)
    = Some [104, 101, 108, 108, 111, 32, 121, 111, 117]"
proof (rule composite_str_roundtrip[where dup = "\<lambda>s. 4096" and h = Map.empty and r = CS_LONG_STR])
  show "bytes_le 8 4096 ! 7 \<noteq> 117" by code_simp
qed (simp_all add: is_cstr_def set_cs_string_def)

text \<open>The scan of \<open>get_insert_pos\<close> finds, in a strictly sorted array, the number of smaller
  elements: the position of the value if it is there, and else the place to insert it.\<close>

theorem insert_pos_is_rank:
  assumes "sorted_wrt (<) xs"
  shows "get_insert_pos v xs True = length (takeWhile (\<lambda>x. x < v) xs)"
  using get_insert_pos_below[OF assms, of v] by (simp add: below_def)

theorem insert_pos_is_rank_witness: "get_insert_pos 7 [3, 5, 9] True = 2"
  using insert_pos_is_rank[of "[3, 5, 9]" 7] by simp

text \<open>C21: indexing a name (with memory available) keeps the hash table well formed and adds the
  offset to exactly those keywords that are substrings of the name of one to eight characters;
  all other entries stay as they are.\<close>

theorem add_index_adds_substrings:
  assumes "index_ok ami" "widen name = Some w" "add_index widen narrow (\<lambda>n. True) ami name off = Some ami'"
  shows "index_ok ami' \<and> (\<forall>q. set (offsets ami' q) = set (offsets ami q)
      \<union> (if \<exists>us p vs. w = us @ p @ vs \<and> p \<noteq> [] \<and> length p \<le> 8 \<and> narrow p = Some q then {off} else {}))"
  by (intro conjI allI add_index_find[where widen = widen, OF assms])

theorem add_index_adds_substrings_witness:
  "\<exists>ami'. add_index Some Some (\<lambda>n. True) sample_index [97] 30 = Some ami' \<and> index_ok ami'
    \<and> set (offsets ami' [97]) = {10, 16, 30} \<and> set (offsets ami' [97, 98]) = {16}"
proof -
  have "get_index_keyword_for_append (\<lambda>n. True) sample_index [97] = Some (Some (1, 0), sample_index)"
    using sample_hash by (simp add: get_index_keyword_for_append_def get_index_keyword_allmem_def)
      (simp add: sample_index_def)
  then have "add_index Some Some (\<lambda>n. True) sample_index [97] 30 \<noteq> None"
    by (simp add: add_index_def name_parts_def add_index_allmem_def insert_offset_def Let_def)
      (simp add: sample_index_def)
  then obtain ami' where a: "add_index Some Some (\<lambda>n. True) sample_index [97] 30 = Some ami'" by blast
  from add_index_adds_substrings[where widen = Some, OF sample_index_ok _ a]
  have r: "index_ok ami' \<and> (\<forall>q. set (offsets ami' q) = set (offsets sample_index q)
      \<union> (if \<exists>us p vs. [97] = us @ p @ vs \<and> p \<noteq> [] \<and> length p \<le> 8 \<and> Some p = Some q then {30} else {}))" by simp
  have "[97 :: byte] = [] @ [97] @ [] \<and> [97 :: byte] \<noteq> [] \<and> length [97 :: byte] \<le> 8 \<and> Some [97 :: byte] = Some [97]" by simp
  then have "\<exists>us p vs. [97 :: byte] = us @ p @ vs \<and> p \<noteq> [] \<and> length p \<le> 8 \<and> Some p = Some [97]" by blast
  moreover have "\<not> (\<exists>us p vs. [97 :: byte] = us @ p @ vs \<and> p \<noteq> [] \<and> length p \<le> 8 \<and> Some p = Some [97, 98])"
    by (auto simp: Cons_eq_append_conv)
  ultimately show ?thesis using a r sample_offsets by auto
qed

text \<open>When the buffer moves a part of its bytes, every list of offsets is moved with it, and the
  hash table stays well formed as long as the movement keeps the order of the offsets.\<close>

theorem add_fsbuf_offsets_shifts:
  assumes "index_ok ami" "\<forall>q. shift_safe st d (offsets ami q)"
  shows "index_ok (add_fsbuf_offsets_allmem ami st d)
    \<and> (\<forall>q. offsets (add_fsbuf_offsets_allmem ami st d) q = map (shift_off st d) (offsets ami q))"
  using shift_ok[OF assms] shift_offsets[OF assms(1)] by blast

theorem add_fsbuf_offsets_shifts_witness:
  "index_ok (add_fsbuf_offsets_allmem sample_index 12 4)
    \<and> offsets (add_fsbuf_offsets_allmem sample_index 12 4) [97] = [10, 20]"
proof -
  have "set (offsets sample_index q) \<subseteq> {10, 16}" for q
  proof
    fix x assume x: "x \<in> set (offsets sample_index q)"
    obtain ih where ih: "bucket_of sample_index q = Some ih" "ih < length (indice sample_index)"
      using bucket_less[OF sample_index_ok] .
    then obtain k where "k \<in> set (kwords (indice sample_index ! ih))" "x \<in> set (fsbuf_offsets k)"
      using x kw_list_in[of x "kwords (indice sample_index ! ih)" q] by (auto simp: offsets_def)
    moreover have "ih = 0 \<or> ih = 1 \<or> ih = 2" using ih(2) by (simp add: sample_index_def) linarith
    ultimately show "x \<in> {10, 16}" by (auto simp: sample_index_def)
  qed
  then have s: "\<forall>q. shift_safe 12 4 (offsets sample_index q)"
    unfolding shift_safe_def
  proof (intro allI ballI impI)
    fix q x y assume s: "\<And>q. set (offsets sample_index q) \<subseteq> {10, 16}"
      and "x \<in> set (offsets sample_index q)" "y \<in> set (offsets sample_index q)" "x < y"
    then have "x \<in> {10, 16}" "y \<in> {10, 16}" by blast+
    then show "shift_off 12 4 x < shift_off 12 4 y" using \<open>x < y\<close> by (auto simp: shift_off_def)
  qed
  show ?thesis using add_fsbuf_offsets_shifts[OF sample_index_ok s] sample_offsets by (simp add: shift_off_def)
qed

text \<open>C22: an index that is saved (the disk having room) and loaded again is the same index, only the
  spare cells of the arrays are gone.\<close>

theorem index_file_roundtrip:
  assumes "saveable ami" "length (file_of ami) \<le> room f" "length (file_of ami) < 2 ^ 64" "content f = []"
  shows "\<exists>f'. save_allmem_index (\<lambda>n. True) ami (Some f) = Some (0, Some f')
    \<and> load_fs_index (\<lambda>n. True) (Some (content f')) 0 = Some (0, Some (Allmem (packed ami)))"
  using save_allmem_enc[OF assms(1-3)] load_fs_index_enc(1)[OF assms(1)] assms(4) by simp

theorem index_file_roundtrip_witness:
  "\<exists>f'. save_allmem_index (\<lambda>n. True) sample_index (Some \<lparr>content = [], room = 1000\<rparr>) = Some (0, Some f')
    \<and> load_fs_index (\<lambda>n. True) (Some (content f')) 0 = Some (0, Some (Allmem (packed sample_index)))"
proof (rule index_file_roundtrip[OF sample_saveable])
  have "length (file_of sample_index) = 77" by (simp add: file_of_def enc_kw_def sample_index_def)
  then show "length (file_of sample_index) \<le> room \<lparr>content = [], room = 1000\<rparr>"
    "length (file_of sample_index) < 2 ^ 64" by simp_all
qed simp

text \<open>C23: the index that stays on disk and the index in memory give the same answer to every query.\<close>

theorem allfile_equals_allmem:
  assumes "saveable ami" "count ami \<noteq> 0" "length (file_of ami) < 2 ^ 64"
  shows "get_index_keyword (\<lambda>n. True) (Allfile (count ami) (file_of ami)) q
    = get_index_keyword (\<lambda>n. True) (Allmem ami) q"
  using get_index_keyword_equiv[OF assms] by simp

theorem allfile_equals_allmem_witness:
  "get_index_keyword (\<lambda>n. True) (Allfile 3 (file_of sample_index)) [97, 98] = Some (Some ([97, 98], [16]))"
proof -
  have l: "length (file_of sample_index) < 2 ^ 64" by (simp add: file_of_def enc_kw_def sample_index_def)
  have c: "count sample_index = 3" by (simp add: sample_index_def)
  have "get_index_keyword (\<lambda>n. True) (Allmem sample_index) [97, 98] = Some (Some ([97, 98], [16]))" by code_simp
  then show ?thesis using allfile_equals_allmem[OF sample_saveable _ l, of "[97, 98]"] unfolding c by simp
qed

text \<open>A defect.  A lookup in an index file that ends before the keywords frees a keyword
  structure whose pointers were never set: the call has no defined result.  (The entry of the
  only bucket announces one keyword behind the end of the file.)\<close>

theorem truncated_index_file_frees_garbage:
  "get_index_keyword (\<lambda>n. True) (Allfile 1 (index_magic @ le32 1 @ le32 1 @ bytes_le 8 20)) [97] = None"
  by code_simp

end
