(* ===== verification/Fs_Buf.thy ===== *)
theory Fs_Buf
  imports Prelude
begin

text \<open>
  The buffer of \<open>src/src/library/src/fs_buf.c\<close>: the record \<open>struct __fs_buf__\<close>, the
  byte-level readers and writers of the linear file tree, and the operations that create,
  look up and change it.  Each function has the name of the C function; offsets are
  \<open>uint32_t\<close> words, so their arithmetic wraps as it does in C.  Pointer arithmetic on
  \<open>head\<close> is done on natural numbers (it is 64 bits wide in the code).

  The buffer holds, after 8 reserved bytes and the root path, the names of the root
  directory.  Every name is followed by its tag: one zero byte for a file, or four bytes for
  a directory with the relative offset of its first kid shifted left by two bits, plus one.
  The names of one directory end with an empty name, whose tag holds the relative offset
  back to the directory; then follow the blocks of its sub-directories, each in the same
  form, in the order of their names.
\<close>

subsection \<open>Constants, state, results\<close>

abbreviation (input) DATA_START :: u32 where "DATA_START \<equiv> 8"
abbreviation (input) FS_NEW_BLK_SIZE :: u32 where "FS_NEW_BLK_SIZE \<equiv> 1048576"
abbreviation (input) MAX_FSBUF_SIZE :: u32 where "MAX_FSBUF_SIZE \<equiv> 1073741824"
abbreviation (input) FS_TAG_FILE :: byte where "FS_TAG_FILE \<equiv> 0"
abbreviation (input) FS_TAG_DIR :: u32 where "FS_TAG_DIR \<equiv> 1"
abbreviation (input) FS_TAG_MASK :: u32 where "FS_TAG_MASK \<equiv> 3"

datatype rwlock = Unlocked | Readers nat | Writer

record fs_buf =
  head :: "byte list"
  capacity :: u32
  tail :: u32
  first_name_off :: u32
  lock :: rwlock

datatype fs_result = FS_OK | ERR_NO_MEM | ERR_NO_PATH | ERR_PATH_EXISTS | ERR_NESTED
  | ERR_PATH_DIFFER | ERR_NOTEMPTY

fun fs_result_code :: "fs_result \<Rightarrow> int" where
  "fs_result_code FS_OK = 0"
| "fs_result_code ERR_NO_MEM = 1"
| "fs_result_code ERR_NO_PATH = 2"
| "fs_result_code ERR_PATH_EXISTS = 3"
| "fs_result_code ERR_NESTED = 4"
| "fs_result_code ERR_PATH_DIFFER = 5"
| "fs_result_code ERR_NOTEMPTY = 6"

text \<open>\<open>struct __fs_change__\<close>; the C \<open>int delta\<close> is kept as its 32-bit pattern (\<open>sint\<close> reads it).\<close>

record fs_change =
  start_off :: u32
  delta :: u32

text \<open>
  The read-write lock, as one thread sees it: taking a lock that the thread already holds
  in a conflicting way never returns.
\<close>

definition wrlock :: "fs_buf \<Rightarrow> fs_buf option" where
  "wrlock b = (if lock b = Unlocked then Some (b\<lparr>lock := Writer\<rparr>) else None)"

definition rdlock :: "fs_buf \<Rightarrow> fs_buf option" where
  "rdlock b = (case lock b of Unlocked \<Rightarrow> Some (b\<lparr>lock := Readers 1\<rparr>)
     | Readers n \<Rightarrow> Some (b\<lparr>lock := Readers (Suc n)\<rparr>) | Writer \<Rightarrow> None)"

definition unlock :: "fs_buf \<Rightarrow> fs_buf option" where
  "unlock b = (case lock b of Unlocked \<Rightarrow> None
     | Readers n \<Rightarrow> Some (b\<lparr>lock := (if n \<le> 1 then Unlocked else Readers (n - 1))\<rparr>)
     | Writer \<Rightarrow> Some (b\<lparr>lock := Unlocked\<rparr>))"

subsection \<open>Creation and the accessors\<close>

definition sizeof_fs_buf :: nat where "sizeof_fs_buf = 80"

text \<open>
  \<open>new_fs_buf\<close>: \<open>al\<close> is the allocator, \<open>lock_ok\<close> tells whether \<open>pthread_rwlock_init\<close>
  succeeds, \<open>None\<close> is the null pointer (both as the argument and as the result).
\<close>

definition new_fs_buf :: "allocator \<Rightarrow> bool \<Rightarrow> u32 \<Rightarrow> cstring option \<Rightarrow> fs_buf option" where
  "new_fs_buf al lock_ok cap root_path =
    (case root_path of None \<Rightarrow> None | Some root \<Rightarrow>
      if cap > MAX_FSBUF_SIZE then None
      else if length root + unat FS_NEW_BLK_SIZE > unat cap then None
      else if cchar root 0 \<noteq> slash \<or> cchar root (length root - 1) \<noteq> slash then None
      else case al sizeof_fs_buf of None \<Rightarrow> None | Some _ \<Rightarrow>
        if \<not> lock_ok then None
        else case al (unat cap) of None \<Rightarrow> None | Some block \<Rightarrow>
          (case put_bytes block (unat DATA_START) (root @ [0]) of None \<Rightarrow> None | Some m \<Rightarrow>
            let first = DATA_START + of_nat (length root) + 1
            in Some \<lparr>head = m, capacity = cap, tail = first, first_name_off = first,
                     lock = Unlocked\<rparr>))"

definition get_capacity :: "fs_buf \<Rightarrow> u32" where
  "get_capacity b = capacity b"

definition get_root_path :: "fs_buf \<Rightarrow> cstring option" where
  "get_root_path b = cstr_at (head b) (unat DATA_START)"

definition get_tail :: "fs_buf \<Rightarrow> u32" where
  "get_tail b = tail b"

definition first_name :: "fs_buf \<Rightarrow> u32" where
  "first_name b = first_name_off b"

definition get_name :: "fs_buf \<Rightarrow> u32 \<Rightarrow> cstring option" where
  "get_name b name_off = cstr_at (head b) (unat name_off)"

text \<open>\<open>add_capacity\<close> returns whether it succeeded (the C code returns 0 then); the memory that
  \<open>realloc\<close> adds has unspecified content.\<close>

definition add_capacity :: "allocator \<Rightarrow> fs_buf \<Rightarrow> u32 \<Rightarrow> bool \<times> fs_buf" where
  "add_capacity al b sz =
    (let alloc_size = sz div FS_NEW_BLK_SIZE;
         alloc_size = alloc_size * FS_NEW_BLK_SIZE;
         alloc_size = (if alloc_size < sz then alloc_size + FS_NEW_BLK_SIZE else alloc_size)
     in if capacity b + alloc_size > MAX_FSBUF_SIZE then (False, b)
        else case al (unat (capacity b + alloc_size)) of
            None \<Rightarrow> (False, b)
          | Some p \<Rightarrow>
              (True, b\<lparr>head := take (unat (capacity b + alloc_size)) (head b)
                          @ drop (length (head b)) p,
                       capacity := capacity b + alloc_size\<rparr>))"

subsection \<open>Reading and writing one entry\<close>

definition set_parent_offset :: "fs_buf \<Rightarrow> u32 \<Rightarrow> u32 \<Rightarrow> fs_buf option" where
  "set_parent_offset b name_off parent_off = do {
     m \<leftarrow> wr8 (head b) (unat name_off) 0;
     let parent_off = (if parent_off > 0 then name_off + 1 - parent_off else parent_off);
     m \<leftarrow> wr32 m (unat name_off + 1) (push_bit 2 parent_off + FS_TAG_DIR);
     Some (b\<lparr>head := m\<rparr>) }"

definition insert_new_name ::
  "allocator \<Rightarrow> fs_buf \<Rightarrow> u32 \<Rightarrow> cstring \<Rightarrow> bool \<Rightarrow> bool \<Rightarrow> (fs_result \<times> fs_buf) option" where
  "insert_new_name al b off name is_dir create_parent_tag =
    (let tag_size = (if is_dir then 4 else 1) :: u32;
         extra_size = of_nat (length name) + 1 + tag_size
                        + (if create_parent_tag then 5 else 0);
         (ok, b) = (if extra_size + tail b \<ge> capacity b then add_capacity al b extra_size
                    else (True, b))
     in if \<not> ok then Some (ERR_NO_MEM, b)
        else do {
          m \<leftarrow> (if tail b > off
                then memmove (head b) (unat off + unat extra_size) (unat off) (unat (tail b - off))
                else Some (head b));
          m \<leftarrow> put_bytes m (unat off) (name @ [0]);
          let off = off + (of_nat (length name) + 1);
          m \<leftarrow> (if is_dir then wr32 m (unat off) FS_TAG_DIR else wr8 m (unat off) FS_TAG_FILE);
          Some (FS_OK, b\<lparr>head := m, tail := tail b + extra_size\<rparr>) })"

definition append_new_name ::
  "allocator \<Rightarrow> fs_buf \<Rightarrow> cstring \<Rightarrow> bool \<Rightarrow> (fs_result \<times> fs_buf) option" where
  "append_new_name al b name is_dir = do {
     b \<leftarrow> wrlock b;
     (r, b) \<leftarrow> insert_new_name al b (tail b) name is_dir False;
     b \<leftarrow> unlock b;
     Some (r, b) }"

definition append_parent :: "allocator \<Rightarrow> fs_buf \<Rightarrow> u32 \<Rightarrow> (fs_result \<times> fs_buf) option" where
  "append_parent al b parent_off = do {
     b \<leftarrow> wrlock b;
     let (ok, b) = (if 5 + tail b \<ge> capacity b then add_capacity al b 5 else (True, b));
     if \<not> ok then do { b \<leftarrow> unlock b; Some (ERR_NO_MEM, b) }
     else do {
       b \<leftarrow> set_parent_offset b (tail b) parent_off;
       b \<leftarrow> unlock (b\<lparr>tail := tail b + 5\<rparr>);
       Some (FS_OK, b) } }"

definition do_is_file :: "fs_buf \<Rightarrow> u32 \<Rightarrow> bool option" where
  "do_is_file b name_off = do {
     s \<leftarrow> cstr_at (head b) (unat name_off);
     c \<leftarrow> rd8 (head b) (unat name_off + length s + 1);
     Some (c = FS_TAG_FILE) }"

definition is_file :: "fs_buf \<Rightarrow> u32 \<Rightarrow> (bool \<times> fs_buf) option" where
  "is_file b name_off = do {
     b \<leftarrow> rdlock b;
     r \<leftarrow> do_is_file b name_off;
     b \<leftarrow> unlock b;
     Some (r, b) }"

definition next_name :: "fs_buf \<Rightarrow> u32 \<Rightarrow> u32 option" where
  "next_name b name_off = do {
     s \<leftarrow> cstr_at (head b) (unat name_off);
     let tag_off = name_off + of_nat (length s) + 1;
     c \<leftarrow> rd8 (head b) (unat tag_off);
     Some (if c = FS_TAG_FILE then tag_off + 1 else tag_off + 4) }"

definition do_set_kids_off :: "fs_buf \<Rightarrow> u32 \<Rightarrow> u32 \<Rightarrow> fs_buf option" where
  "do_set_kids_off b name_off kids_off = do {
     s \<leftarrow> cstr_at (head b) (unat name_off);
     let kids_off = (if kids_off \<noteq> 0 then kids_off - (name_off + of_nat (length s) + 1)
                     else kids_off);
     m \<leftarrow> wr32 (head b) (unat name_off + length s + 1) (push_bit 2 kids_off + FS_TAG_DIR);
     Some (b\<lparr>head := m\<rparr>) }"

definition set_kids_off :: "fs_buf \<Rightarrow> u32 \<Rightarrow> u32 \<Rightarrow> fs_buf option" where
  "set_kids_off b name_off kids_off = do {
     b \<leftarrow> wrlock b;
     b \<leftarrow> do_set_kids_off b name_off kids_off;
     unlock b }"

definition get_reloff_by_tag :: "fs_buf \<Rightarrow> u32 \<Rightarrow> u32 option" where
  "get_reloff_by_tag b tag_off = do {
     tag \<leftarrow> rd32 (head b) (unat tag_off);
     Some (drop_bit 2 (tag - (tag AND FS_TAG_MASK))) }"

text \<open>\<open>get_kids_offset\<close>: 0 means file, no kid or parent node.\<close>

definition get_kids_offset :: "fs_buf \<Rightarrow> u32 \<Rightarrow> u32 option" where
  "get_kids_offset b name_off = do {
     f \<leftarrow> do_is_file b name_off;
     if f then Some 0
     else do {
       s \<leftarrow> cstr_at (head b) (unat name_off);
       let tag_off = name_off + of_nat (length s) + 1;
       rel_off \<leftarrow> get_reloff_by_tag b tag_off;
       Some (if rel_off = 0 then 0 else tag_off + rel_off) } }"

subsection \<open>From an entry to its path\<close>

text \<open>
  \<open>do_get_path_by_name_off\<close> writes the path backwards into the caller's buffer \<open>path\<close>;
  \<open>dst\<close> is the position of the pointer in that buffer, and a write before its start has no
  defined result.  The result is the buffer and the position of the first byte.
\<close>

definition path_put :: "byte list \<Rightarrow> int \<Rightarrow> byte list \<Rightarrow> byte list option" where
  "path_put path dst bs = (if dst < 0 then None else put_bytes path (nat dst) bs)"

partial_function (option) path_loop ::
  "fs_buf \<Rightarrow> u32 \<Rightarrow> int \<Rightarrow> byte list \<Rightarrow> (byte list \<times> int) option" where
  "path_loop b src dst path = do {
     c \<leftarrow> rd8 (head b) (unat src);
     if c \<noteq> 0 then do {
       src \<leftarrow> next_name b src;
       path_loop b src dst path }
     else do {
       let src = src + 1;
       rel_off \<leftarrow> get_reloff_by_tag b src;
       if rel_off = 0 then Some (path, dst)
       else do {
         let src = src - rel_off;
         let dst = dst - 1;
         path \<leftarrow> path_put path dst [slash];
         s \<leftarrow> cstr_at (head b) (unat src);
         let dst = dst - int (length s);
         path \<leftarrow> path_put path dst s;
         path_loop b src dst path } } }"

definition do_get_path_by_name_off ::
  "fs_buf \<Rightarrow> u32 \<Rightarrow> byte list \<Rightarrow> u32 \<Rightarrow> (byte list \<times> int) option" where
  "do_get_path_by_name_off b name_off path path_size = do {
     s \<leftarrow> cstr_at (head b) (unat name_off);
     let dst = int (unat path_size) - int (length s) - 1;
     path \<leftarrow> path_put path dst (s @ [0]);
     (path, dst) \<leftarrow> path_loop b name_off dst path;
     let n = unat (first_name_off b - DATA_START - 1);
     let dst = dst - int n;
     root \<leftarrow> get_bytes (head b) (unat DATA_START) n;
     path \<leftarrow> path_put path dst root;
     Some (path, dst) }"

definition get_path_by_name_off ::
  "fs_buf \<Rightarrow> u32 \<Rightarrow> byte list \<Rightarrow> u32 \<Rightarrow> (byte list \<times> int \<times> fs_buf) option" where
  "get_path_by_name_off b name_off path path_size = do {
     b \<leftarrow> rdlock b;
     (path, dst) \<leftarrow> do_get_path_by_name_off b name_off path path_size;
     b \<leftarrow> unlock b;
     Some (path, dst, b) }"

subsection \<open>From a path to its entry\<close>

text \<open>
  \<open>do_get_path_offset\<close>: 0 means not found, \<open>DATA_START\<close> means the root.  The pointer \<open>p\<close>
  into the path is the rest of the path.
\<close>

partial_function (option) path_offset_loop :: "fs_buf \<Rightarrow> u32 \<Rightarrow> cstring \<Rightarrow> u32 option" where
  "path_offset_loop b offset p =
    (if offset < tail b then do {
       c \<leftarrow> rd8 (head b) (unat offset);
       if c = 0 then Some 0
       else do {
         name \<leftarrow> cstr_at (head b) (unat offset);
         let name_len = length name;
         if strstr p name = Some 0 \<and> (cchar p name_len = 0 \<or> cchar p name_len = slash)
         then
           if cchar p name_len = 0 then Some offset
           else do {
             kids_off \<leftarrow> get_kids_offset b offset;
             if kids_off = 0 then Some 0
             else path_offset_loop b kids_off (drop (name_len + 1) p) }
         else do {
           offset \<leftarrow> next_name b offset;
           path_offset_loop b offset p } } }
     else Some 0)"

definition do_get_path_offset :: "fs_buf \<Rightarrow> cstring \<Rightarrow> u32 option" where
  "do_get_path_offset b path =
    (if path = [] \<and> first_name_off b = DATA_START + 2 then Some DATA_START
     else do {
       root \<leftarrow> cstr_at (head b) (unat DATA_START);
       if strstr path root \<noteq> Some 0 then Some 0
       else do {
         let n = unat (first_name_off b - DATA_START - 1);
         if n > length path then None
         else do {
           let p = drop n path;
           if p = [] then Some DATA_START
           else path_offset_loop b (first_name_off b) p } } })"

text \<open>
  \<open>get_path_offset\<close> tries again with the trailing slash added or removed.  On an empty path
  the code reads \<open>path[-1]\<close>.
\<close>

definition get_path_offset :: "fs_buf \<Rightarrow> cstring \<Rightarrow> u32 option" where
  "get_path_offset b path = do {
     offset \<leftarrow> do_get_path_offset b path;
     if offset = 0 then
       (if path = [] then None
        else do_get_path_offset b
          (if cchar path (length path - 1) = slash then butlast path else path @ [slash]))
     else Some offset }"

subsection \<open>Positions derived from the tree shape\<close>

partial_function (option) tree_end_loop :: "fs_buf \<Rightarrow> u32 \<Rightarrow> u32 \<Rightarrow> u32 option" where
  "tree_end_loop b name_off last_kids_off =
    (if name_off < tail b then do {
       c \<leftarrow> rd8 (head b) (unat name_off);
       if c \<noteq> 0 then do {
         kids_off \<leftarrow> get_kids_offset b name_off;
         let last_kids_off = (if kids_off \<noteq> 0 then kids_off else last_kids_off);
         name_off \<leftarrow> next_name b name_off;
         tree_end_loop b name_off last_kids_off }
       else if last_kids_off \<noteq> 0 then tree_end_loop b last_kids_off 0
       else Some (name_off + 1 + 4) }
     else Some (tail b))"

definition get_tree_end_offset :: "fs_buf \<Rightarrow> u32 \<Rightarrow> u32 option" where
  "get_tree_end_offset b st = tree_end_loop b st 0"

partial_function (option) insert_offset_loop :: "fs_buf \<Rightarrow> u32 \<Rightarrow> u32 \<Rightarrow> u32 option" where
  "insert_offset_loop b name_off off =
    (if off < tail b then do {
       c \<leftarrow> rd8 (head b) (unat off);
       if c = 0 then do {
         rel_off \<leftarrow> get_reloff_by_tag b (off + 1);
         if rel_off = 0 then Some (tail b)
         else insert_offset_loop b (off + 1 - rel_off) (off + 1 - rel_off) }
       else do {
         kids_off \<leftarrow> (if off > name_off then get_kids_offset b off else Some 0);
         if kids_off \<noteq> 0 then Some kids_off
         else do {
           off \<leftarrow> next_name b off;
           insert_offset_loop b name_off off } } }
     else Some (tail b))"

definition get_insert_offset :: "fs_buf \<Rightarrow> u32 \<Rightarrow> u32 option" where
  "get_insert_offset b empty_folder_off = insert_offset_loop b empty_folder_off empty_folder_off"

partial_function (option) get_folder_tail_offset :: "fs_buf \<Rightarrow> u32 \<Rightarrow> u32 option" where
  "get_folder_tail_offset b name_off =
    (if name_off < tail b then do {
       c \<leftarrow> rd8 (head b) (unat name_off);
       if c \<noteq> 0 then do {
         name_off \<leftarrow> next_name b name_off;
         get_folder_tail_offset b name_off }
       else Some name_off }
     else Some 0)"

definition get_parent_offset :: "fs_buf \<Rightarrow> u32 \<Rightarrow> u32 option" where
  "get_parent_offset b name_off = do {
     tl \<leftarrow> get_folder_tail_offset b name_off;
     if tl = 0 then Some 0
     else do {
       rel_off \<leftarrow> get_reloff_by_tag b (tl + 1);
       Some (if rel_off = 0 then 0 else tl + 1 - rel_off) } }"

definition get_1st_sibling_offset :: "fs_buf \<Rightarrow> u32 \<Rightarrow> u32 option" where
  "get_1st_sibling_offset b name_off = do {
     parent_off \<leftarrow> get_parent_offset b name_off;
     if parent_off = 0 then Some (first_name_off b)
     else get_kids_offset b parent_off }"

subsection \<open>Repairing the offsets after a change\<close>

definition UPDATE_KIDS_OFF :: "fs_buf \<Rightarrow> u32 \<Rightarrow> u32 \<Rightarrow> fs_buf option" where
  "UPDATE_KIDS_OFF b off d = do {
     kids_off \<leftarrow> get_kids_offset b off;
     if kids_off \<noteq> 0 then do {
       let kids_off = kids_off + d;
       b \<leftarrow> do_set_kids_off b off kids_off;
       tl \<leftarrow> get_folder_tail_offset b kids_off;
       set_parent_offset b tl off }
     else Some b }"

text \<open>The two loops of \<open>update_offsets\<close>: over the previous siblings, and over the later
  siblings of every ancestor.\<close>

partial_function (option) update_siblings_loop ::
  "u32 \<Rightarrow> u32 \<Rightarrow> fs_buf \<Rightarrow> u32 \<Rightarrow> fs_buf option" where
  "update_siblings_loop st d b off =
    (if off < st then do {
       b \<leftarrow> UPDATE_KIDS_OFF b off d;
       off \<leftarrow> next_name b off;
       update_siblings_loop st d b off }
     else Some b)"

partial_function (option) update_ancestors_loop ::
  "u32 \<Rightarrow> fs_buf \<Rightarrow> u32 \<Rightarrow> u32 \<Rightarrow> fs_buf option" where
  "update_ancestors_loop d b st off =
    (if off \<noteq> 0 \<and> off < tail b then do {
       c \<leftarrow> rd8 (head b) (unat off);
       if c = 0 then do {
         rel_off \<leftarrow> get_reloff_by_tag b (off + 1);
         if rel_off = 0 then Some b
         else update_ancestors_loop d b (off + 1 - rel_off) (off + 1 - rel_off) }
       else do {
         b \<leftarrow> (if off > st then UPDATE_KIDS_OFF b off d else Some b);
         off \<leftarrow> next_name b off;
         update_ancestors_loop d b st off } }
     else Some b)"

definition update_offsets :: "fs_buf \<Rightarrow> u32 \<Rightarrow> u32 \<Rightarrow> bool \<Rightarrow> fs_buf option" where
  "update_offsets b st d update_siblings =
    (if update_siblings then do {
       off \<leftarrow> get_1st_sibling_offset b st;
       if off = 0 then Some b
       else do {
         b \<leftarrow> update_siblings_loop st d b off;
         off \<leftarrow> get_parent_offset b st;
         update_ancestors_loop d b off off } }
     else update_ancestors_loop d b st st)"

subsection \<open>Insertion\<close>

text \<open>The scan of the siblings: the position of the parent tag, or \<open>None\<close> when the name exists.\<close>

partial_function (option) find_kid_loop :: "fs_buf \<Rightarrow> cstring \<Rightarrow> u32 \<Rightarrow> u32 option option" where
  "find_kid_loop b name kids_off =
    (if kids_off < tail b then do {
       c \<leftarrow> rd8 (head b) (unat kids_off);
       if c \<noteq> 0 then do {
         s \<leftarrow> cstr_at (head b) (unat kids_off);
         if s = name then Some None
         else do {
           kids_off \<leftarrow> next_name b kids_off;
           find_kid_loop b name kids_off } }
       else Some (Some kids_off) }
     else Some (Some kids_off))"

definition do_insert_path :: "allocator \<Rightarrow> fs_buf \<Rightarrow> cstring \<Rightarrow> bool \<Rightarrow> fs_change \<Rightarrow>
    (fs_result \<times> fs_change \<times> fs_buf) option" where
  "do_insert_path al b path is_dir change =
    (case strrchr path slash of
       None \<Rightarrow> Some (ERR_NO_PATH, change, b)
     | Some i \<Rightarrow>
       (let name = drop (i + 1) path in
        if name = [] then Some (ERR_NO_PATH, change, b)
        else do {
          parent_off \<leftarrow> get_path_offset b (take i path);
          no_path \<leftarrow> (if parent_off = 0 then Some True
                      else if DATA_START \<noteq> parent_off then do_is_file b parent_off
                      else Some False);
          if no_path then Some (ERR_NO_PATH, change, b)
          else do {
            kids_off \<leftarrow> (if DATA_START = parent_off then Some (first_name_off b)
                         else get_kids_offset b parent_off);
            let empty_folder = (kids_off = 0);
            found \<leftarrow> (if kids_off \<noteq> 0 then find_kid_loop b name kids_off
                      else map_option Some (get_insert_offset b parent_off));
            case found of
              None \<Rightarrow> Some (ERR_PATH_EXISTS, change, b)
            | Some kids_off \<Rightarrow> do {
                (result, b) \<leftarrow> insert_new_name al b kids_off name is_dir empty_folder;
                if result \<noteq> FS_OK then Some (result, change, b)
                else do {
                  let d = of_nat (length name) + 1 + (if is_dir then 4 else 1);
                  (d, b) \<leftarrow>
                    (if empty_folder then do {
                       b \<leftarrow> set_parent_offset b (kids_off + d) parent_off;
                       b \<leftarrow> do_set_kids_off b parent_off kids_off;
                       Some (d + 5, b) }
                     else if DATA_START \<noteq> parent_off then do {
                       tl \<leftarrow> get_folder_tail_offset b kids_off;
                       b \<leftarrow> set_parent_offset b tl parent_off;
                       Some (d, b) }
                     else Some (d, b));
                  b \<leftarrow> update_offsets b kids_off d True;
                  Some (FS_OK, \<lparr>start_off = kids_off, delta = d\<rparr>, b) } } } }))"

definition insert_path :: "allocator \<Rightarrow> fs_buf \<Rightarrow> cstring \<Rightarrow> bool \<Rightarrow> fs_change \<Rightarrow>
    (fs_result \<times> fs_change \<times> fs_buf) option" where
  "insert_path al b path is_dir change = do {
     b \<leftarrow> wrlock b;
     (r, change, b) \<leftarrow> do_insert_path al b path is_dir change;
     b \<leftarrow> unlock b;
     Some (r, change, b) }"

subsection \<open>Removal\<close>

text \<open>
  The array of changes belongs to the caller; a write past its end has no defined result.
  \<open>COPY_TREE\<close> copies the bytes of a subtree into memory from the allocator when the caller
  asked for it (\<open>want_tree\<close>); its failure makes the function return \<open>ERR_NO_MEM\<close>.
\<close>

definition put_change :: "fs_change list \<Rightarrow> u32 \<Rightarrow> fs_change \<Rightarrow> fs_change list option" where
  "put_change changes i c = (if unat i < length changes then Some (changes[unat i := c]) else None)"

definition COPY_TREE ::
  "allocator \<Rightarrow> fs_buf \<Rightarrow> bool \<Rightarrow> u32 \<Rightarrow> u32 \<Rightarrow> (bool \<times> byte list option) option" where
  "COPY_TREE al b want_tree tree_start_off tree_end_off =
    (if want_tree then
       (case al (unat (tree_end_off - tree_start_off)) of
          None \<Rightarrow> Some (False, None)
        | Some _ \<Rightarrow> do {
            t \<leftarrow> get_bytes (head b) (unat tree_start_off) (unat (tree_end_off - tree_start_off));
            Some (True, Some t) })
     else Some (True, None))"

text \<open>The second half of \<open>do_remove_path\<close>: the entry itself, its kids being gone.\<close>

definition remove_node :: "fs_buf \<Rightarrow> u32 \<Rightarrow> (u32 \<times> fs_buf) option" where
  "remove_node b name_off = do {
     parent_off \<leftarrow> get_parent_offset b name_off;
     sibling1 \<leftarrow> get_1st_sibling_offset b name_off;
     nxt \<leftarrow> next_name b name_off;
     let sz = nxt - name_off;
     c \<leftarrow> rd8 (head b) (unat name_off + unat sz);
     let only_kid = (c = 0 \<and> sibling1 = name_off);
     (sz, b) \<leftarrow>
       (if only_kid then do {
          b \<leftarrow> (if parent_off \<noteq> 0 then do_set_kids_off b parent_off 0 else Some b);
          Some (sz + 5, b) }
        else if parent_off \<noteq> 0 then do {
          tl \<leftarrow> get_folder_tail_offset b name_off;
          b \<leftarrow> set_parent_offset b tl (parent_off + sz);
          Some (sz, b) }
        else Some (sz, b));
     m \<leftarrow> (if name_off + sz < tail b
           then memmove (head b) (unat name_off) (unat name_off + unat sz)
                  (unat (tail b - name_off - sz))
           else Some (head b));
     let b = b\<lparr>head := m, tail := tail b - sz\<rparr>;
     b \<leftarrow> (if only_kid
           then (if parent_off \<noteq> 0 then update_offsets b parent_off (- sz) False else Some b)
           else update_offsets b name_off (- sz) True);
     Some (sz, b) }"

text \<open>The kids of a folder, before the folder itself is removed.\<close>

definition remove_kids :: "fs_buf \<Rightarrow> u32 \<Rightarrow> u32 \<Rightarrow> u32 \<Rightarrow> fs_buf option" where
  "remove_kids b name_off kids_off tree_end_off = do {
     b \<leftarrow> do_set_kids_off b name_off 0;
     m \<leftarrow> (if tree_end_off < tail b
           then memmove (head b) (unat kids_off) (unat tree_end_off) (unat (tail b - tree_end_off))
           else Some (head b));
     update_offsets (b\<lparr>head := m, tail := tail b - (tree_end_off - kids_off)\<rparr>) name_off
       (kids_off - tree_end_off) False }"

definition do_remove_path ::
  "allocator \<Rightarrow> fs_buf \<Rightarrow> cstring \<Rightarrow> fs_change list \<Rightarrow> u32 \<Rightarrow> bool \<Rightarrow>
    (fs_result \<times> fs_change list \<times> u32 \<times> byte list option \<times> fs_buf) option" where
  "do_remove_path al b path changes change_count want_tree = do {
     name_off \<leftarrow> get_path_offset b path;
     if name_off = 0 then Some (ERR_NO_PATH, changes, change_count, None, b)
     else if name_off = DATA_START then do {
       (ok, tree) \<leftarrow> COPY_TREE al b want_tree (first_name_off b) (tail b);
       if \<not> ok then Some (ERR_NO_MEM, changes, change_count, None, b)
       else do {
         changes \<leftarrow> put_change changes 0
           \<lparr>start_off = first_name_off b, delta = first_name_off b - tail b\<rparr>;
         Some (FS_OK, changes, 1, tree, b\<lparr>tail := first_name_off b\<rparr>) } }
     else do {
       kids_off \<leftarrow> get_kids_offset b name_off;
       (ok, changes, change_count, tree, b) \<leftarrow>
         (if kids_off \<noteq> 0 then do {
            tree_end_off \<leftarrow> get_tree_end_offset b kids_off;
            (ok, tree) \<leftarrow> COPY_TREE al b want_tree kids_off tree_end_off;
            if \<not> ok then Some (False, changes, 0, None, b)
            else do {
              b \<leftarrow> remove_kids b name_off kids_off tree_end_off;
              changes \<leftarrow> put_change changes 0
                \<lparr>start_off = kids_off, delta = kids_off - tree_end_off\<rparr>;
              Some (True, changes, 1, tree, b) } }
          else Some (True, changes, 0, None, b));
       if \<not> ok then Some (ERR_NO_MEM, changes, change_count, None, b)
       else do {
         (sz, b) \<leftarrow> remove_node b name_off;
         changes \<leftarrow> put_change changes change_count \<lparr>start_off = name_off, delta = - sz\<rparr>;
         Some (FS_OK, changes, change_count + 1, tree, b) } } }"

definition remove_path ::
  "allocator \<Rightarrow> fs_buf \<Rightarrow> cstring \<Rightarrow> fs_change list \<Rightarrow> u32 \<Rightarrow>
    (fs_result \<times> fs_change list \<times> u32 \<times> fs_buf) option" where
  "remove_path al b path changes change_count = do {
     b \<leftarrow> wrlock b;
     (r, changes, change_count, _, b) \<leftarrow> do_remove_path al b path changes change_count False;
     b \<leftarrow> unlock b;
     Some (r, changes, change_count, b) }"

subsection \<open>Renaming\<close>

text \<open>The copy of the kids tree below the new folder, the last part of \<open>do_rename_path\<close>.\<close>

definition restore_kids :: "allocator \<Rightarrow> fs_buf \<Rightarrow> u32 \<Rightarrow> byte list \<Rightarrow>
    (fs_result \<times> u32 \<times> fs_buf) option" where
  "restore_kids al b dst_off tree =
    (let tree_size = of_nat (length tree) :: u32;
         (ok, b) = (if tree_size + tail b \<ge> capacity b then add_capacity al b tree_size
                    else (True, b))
     in if \<not> ok then Some (ERR_NO_MEM, 0, b)
        else do {
          kids_off \<leftarrow> get_insert_offset b dst_off;
          m \<leftarrow> (if tail b > kids_off
                then memmove (head b) (unat kids_off + unat tree_size) (unat kids_off)
                       (unat (tail b - kids_off))
                else Some (head b));
          m \<leftarrow> put_bytes m (unat kids_off) tree;
          let b = b\<lparr>head := m, tail := tail b + tree_size\<rparr>;
          b \<leftarrow> do_set_kids_off b dst_off kids_off;
          tl \<leftarrow> get_folder_tail_offset b kids_off;
          b \<leftarrow> set_parent_offset b tl dst_off;
          b \<leftarrow> update_offsets b kids_off tree_size True;
          Some (FS_OK, kids_off, b) })"

definition do_rename_path ::
  "allocator \<Rightarrow> fs_buf \<Rightarrow> cstring \<Rightarrow> cstring \<Rightarrow> fs_change list \<Rightarrow> u32 \<Rightarrow>
    (fs_result \<times> fs_change list \<times> u32 \<times> fs_buf) option" where
  "do_rename_path al b src_path dst_path changes change_count = do {
     src_off \<leftarrow> get_path_offset b src_path;
     if src_off = 0 then Some (ERR_NO_PATH, changes, change_count, b)
     else do {
       dst_off \<leftarrow> get_path_offset b dst_path;
       if dst_off = DATA_START then Some (ERR_NESTED, changes, change_count, b)
       else do {
         src_is_file \<leftarrow> do_is_file b src_off;
         dst_is_file \<leftarrow> (if dst_off \<noteq> 0 then do_is_file b dst_off else Some src_is_file);
         if dst_off \<noteq> 0 \<and> dst_is_file \<noteq> src_is_file
         then Some (ERR_PATH_DIFFER, changes, change_count, b)
         else do {
           dst_kids \<leftarrow> (if dst_off \<noteq> 0 \<and> \<not> src_is_file then get_kids_offset b dst_off
                         else Some 0);
           if dst_kids \<noteq> 0 then Some (ERR_NOTEMPTY, changes, change_count, b)
           else (case strrchr dst_path slash of
               None \<Rightarrow> Some (ERR_NO_PATH, changes, change_count, b)
             | Some i \<Rightarrow>
               if drop (i + 1) dst_path = [] then Some (ERR_NO_PATH, changes, change_count, b)
               else do {
                 dst_parent_off \<leftarrow> get_path_offset b (take i dst_path);
                 no_path \<leftarrow> (if dst_parent_off = 0 then Some True
                             else if dst_parent_off = DATA_START
                             then do_is_file b dst_parent_off else Some False);
                 if no_path then Some (ERR_NO_PATH, changes, change_count, b)
                 else do {
                   (result, changes, change_count, old_kids_tree, b) \<leftarrow>
                     do_remove_path al b src_path changes change_count True;
                   if result \<noteq> FS_OK then Some (result, changes, change_count, b)
                   else do {
                     (changes, change_count, b) \<leftarrow>
                       (if dst_off = 0 then do {
                          c \<leftarrow> (if unat change_count < length changes
                                then Some (changes ! unat change_count) else None);
                          (_, c, b) \<leftarrow> do_insert_path al b dst_path (\<not> src_is_file) c;
                          changes \<leftarrow> put_change changes change_count c;
                          Some (changes, change_count + 1, b) }
                        else Some (changes, change_count, b));
                     dst_off \<leftarrow> get_path_offset b dst_path;
                     case old_kids_tree of
                       None \<Rightarrow> Some (FS_OK, changes, change_count, b)
                     | Some tree \<Rightarrow> do {
                         (result, kids_off, b) \<leftarrow> restore_kids al b dst_off tree;
                         if result \<noteq> FS_OK then Some (result, changes, change_count, b)
                         else do {
                           changes \<leftarrow> put_change changes change_count
                             \<lparr>start_off = kids_off, delta = of_nat (length tree)\<rparr>;
                           Some (FS_OK, changes, change_count + 1, b) } } } } }) } } } }"

definition rename_path ::
  "allocator \<Rightarrow> fs_buf \<Rightarrow> cstring \<Rightarrow> cstring \<Rightarrow> fs_change list \<Rightarrow> u32 \<Rightarrow>
    (fs_result \<times> fs_change list \<times> u32 \<times> fs_buf) option" where
  "rename_path al b src_path dst_path changes change_count = do {
     b \<leftarrow> wrlock b;
     (r, changes, change_count, b) \<leftarrow> do_rename_path al b src_path dst_path changes change_count;
     b \<leftarrow> unlock b;
     Some (r, changes, change_count, b) }"

subsection \<open>The range of a path\<close>

text \<open>\<open>do_get_path_range\<close>; the out parameters keep their values when the path is not found.\<close>

definition do_get_path_range ::
  "fs_buf \<Rightarrow> cstring \<Rightarrow> u32 \<Rightarrow> u32 \<Rightarrow> (u32 \<times> u32 \<times> u32 \<times> fs_buf) option" where
  "do_get_path_range b path st en = do {
     b \<leftarrow> rdlock b;
     path_off \<leftarrow> get_path_offset b path;
     (st, en) \<leftarrow>
       (if path_off \<noteq> 0 then
          if path_off = DATA_START then Some (first_name b, get_tail b)
          else do {
            st \<leftarrow> get_kids_offset b path_off;
            en \<leftarrow> get_tree_end_offset b st;
            Some (st, en) }
        else Some (st, en));
     b \<leftarrow> unlock b;
     Some (path_off, st, en, b) }"

definition get_path_range ::
  "fs_buf \<Rightarrow> cstring \<Rightarrow> u32 \<Rightarrow> u32 \<Rightarrow> (u32 \<times> u32 \<times> u32 \<times> fs_buf) option" where
  "get_path_range b path st en = do_get_path_range b path st en"

subsection \<open>Execution of the loops\<close>

lemmas fs_buf_loops [code] =
  path_loop.simps path_offset_loop.simps tree_end_loop.simps insert_offset_loop.simps
  get_folder_tail_offset.simps update_siblings_loop.simps update_ancestors_loop.simps
  find_kid_loop.simps

end
