(* ===== verification/Fs_Search.thy ===== *)
theory Fs_Search
  imports Fs_Buf
begin

text \<open>
  Searching the names of the buffer (\<open>fs_buf.c\<close>): the plain scan, the search rules that exclude
  folders or include names, and the division of a range among threads.  The regular
  expressions of \<open>pcre2\<close> and the conversion to pinyin are parameters.
\<close>

subsection \<open>The plain scan\<close>

text \<open>\<open>matches\<close> tells whether the comparator returns 0, \<open>pcf\<close> whether the progress callback asks to
  stop (\<open>None\<close>: no callback).\<close>

partial_function (option) search_files_loop :: "fs_buf \<Rightarrow> u32 \<Rightarrow> u32 \<Rightarrow> (cstring \<Rightarrow> bool) \<Rightarrow>
    (u32 \<Rightarrow> cstring \<Rightarrow> bool) option \<Rightarrow> u32 \<Rightarrow> u32 list \<Rightarrow> (u32 list \<times> u32) option" where
  "search_files_loop b min_off sz matches pcf name_off results =
    (if name_off < min_off \<and> of_nat (length results) < sz then do {
       name \<leftarrow> cstr_at (head b) (unat name_off);
       if (case pcf of None \<Rightarrow> False | Some f \<Rightarrow> f (of_nat (length results)) name)
       then Some (results, name_off)
       else do {
         let results = (if name \<noteq> [] \<and> matches name then results @ [name_off] else results);
         name_off \<leftarrow> next_name b name_off;
         search_files_loop b min_off sz matches pcf name_off results } }
     else Some (results, name_off))"

definition search_files :: "fs_buf \<Rightarrow> u32 \<Rightarrow> u32 \<Rightarrow> u32 \<Rightarrow> (cstring \<Rightarrow> bool) \<Rightarrow> (u32 \<Rightarrow> cstring \<Rightarrow> bool) option \<Rightarrow>
    (u32 list \<times> u32 \<times> fs_buf) option" where
  "search_files b st_off end_off sz matches pcf = do {
     b \<leftarrow> rdlock b;
     let min_off = (if tail b > end_off then end_off else tail b);
     (results, off) \<leftarrow> search_files_loop b min_off sz matches pcf st_off [];
     b \<leftarrow> unlock b;
     Some (results, off, b) }"

subsection \<open>Rules\<close>

record search_rule =
  flag :: byte
  target :: cstring

abbreviation (input) RULE_NONE :: byte where "RULE_NONE \<equiv> 0"
abbreviation (input) RULE_SEARCH_REGX :: byte where "RULE_SEARCH_REGX \<equiv> 1"
abbreviation (input) RULE_SEARCH_MAX_COUNT :: byte where "RULE_SEARCH_MAX_COUNT \<equiv> 2"
abbreviation (input) RULE_SEARCH_ICASE :: byte where "RULE_SEARCH_ICASE \<equiv> 3"
abbreviation (input) RULE_SEARCH_STARTOFF :: byte where "RULE_SEARCH_STARTOFF \<equiv> 4"
abbreviation (input) RULE_SEARCH_ENDOFF :: byte where "RULE_SEARCH_ENDOFF \<equiv> 5"
abbreviation (input) RULE_SEARCH_PINYIN :: byte where "RULE_SEARCH_PINYIN \<equiv> 6"
abbreviation (input) RULE_EXCLUDE_SUB_S :: byte where "RULE_EXCLUDE_SUB_S \<equiv> 64"
abbreviation (input) RULE_EXCLUDE_SUB_D :: byte where "RULE_EXCLUDE_SUB_D \<equiv> 65"
abbreviation (input) RULE_EXCLUDE_PATH :: byte where "RULE_EXCLUDE_PATH \<equiv> 66"
abbreviation (input) RULE_INCLUDE_SUB_S :: byte where "RULE_INCLUDE_SUB_S \<equiv> 128"
abbreviation (input) RULE_INCLUDE_SUB_D :: byte where "RULE_INCLUDE_SUB_D \<equiv> 129"

abbreviation (input) SEARCH_RULE :: int where "SEARCH_RULE \<equiv> 1"
abbreviation (input) EXCLUDE_RULE :: int where "EXCLUDE_RULE \<equiv> 2"
abbreviation (input) INCLUDE_RULE :: int where "INCLUDE_RULE \<equiv> 4"

text \<open>The class of a rule; \<open>None\<close> is the default branch of the switch, which leaves \<open>find\<close> at -1,
  so a rule that is not known belongs to every selection.\<close>

definition rule_class :: "byte \<Rightarrow> int option" where
  "rule_class f =
    (if f \<in> {RULE_SEARCH_REGX, RULE_SEARCH_MAX_COUNT, RULE_SEARCH_ICASE, RULE_SEARCH_STARTOFF,
             RULE_SEARCH_ENDOFF, RULE_SEARCH_PINYIN} then Some SEARCH_RULE
     else if f \<in> {RULE_EXCLUDE_SUB_S, RULE_EXCLUDE_SUB_D, RULE_EXCLUDE_PATH} then Some EXCLUDE_RULE
     else if f \<in> {RULE_INCLUDE_SUB_S, RULE_INCLUDE_SUB_D} then Some INCLUDE_RULE
     else None)"

text \<open>\<open>get_rules\<close>: the union of the classes and the selected rules; the list is \<open>None\<close> when the out
  parameter is not written (no rules, or no memory for a copy, \<open>mal\<close>).\<close>

definition sizeof_search_rule :: nat where "sizeof_search_rule = 264"

fun get_rules_loop :: "(nat \<Rightarrow> bool) \<Rightarrow> int \<Rightarrow> search_rule list \<Rightarrow> int \<Rightarrow> search_rule list \<Rightarrow> int \<times> search_rule list option" where
  "get_rules_loop mal type [] re acc = (re, Some acc)"
| "get_rules_loop mal type (r # rs) re acc =
    (let re = (case rule_class (flag r) of None \<Rightarrow> re | Some c \<Rightarrow> re OR c);
         found = (case rule_class (flag r) of None \<Rightarrow> True | Some c \<Rightarrow> c = type)
     in if found then (if mal sizeof_search_rule then get_rules_loop mal type rs re (acc @ [r]) else (re, None))
        else get_rules_loop mal type rs re acc)"

definition get_rules :: "(nat \<Rightarrow> bool) \<Rightarrow> search_rule list \<Rightarrow> int \<Rightarrow> int \<times> search_rule list option" where
  "get_rules mal rules type = (if rules = [] then (-1, None) else get_rules_loop mal type rules 0 [])"

definition get_rule_value :: "search_rule list \<Rightarrow> byte \<Rightarrow> cstring" where
  "get_rule_value rules f =
    (if rules = [] \<or> flag (hd rules) = RULE_NONE then [48]
     else case find (\<lambda>r. flag r = f) rules of None \<Rightarrow> [48] | Some r \<Rightarrow> target r)"

text \<open>\<open>strncmp(a, b, strlen(b)) == 0\<close> at an address of the buffer; \<open>strendwith\<close> looks at the bytes
  before the name when the name is shorter than the suffix.\<close>

definition strneq_at :: "byte list \<Rightarrow> int \<Rightarrow> cstring \<Rightarrow> bool option" where
  "strneq_at m a s = (if a < 0 then None else Some (take (length s) (drop (nat a) m) = s))"

fun check_name_loop :: "byte list \<Rightarrow> nat \<Rightarrow> cstring \<Rightarrow> search_rule list \<Rightarrow> bool option" where
  "check_name_loop m off name [] = Some False"
| "check_name_loop m off name (r # rs) = do {
     hit \<leftarrow> (if flag r = RULE_EXCLUDE_PATH then Some (name = target r)
             else if flag r = RULE_EXCLUDE_SUB_S \<or> flag r = RULE_INCLUDE_SUB_S
             then Some (take (length (target r)) name = target r)
             else if flag r = RULE_EXCLUDE_SUB_D \<or> flag r = RULE_INCLUDE_SUB_D
             then strneq_at m (int off + int (length name) - int (length (target r))) (target r)
             else Some False);
     if hit then Some True else check_name_loop m off name rs }"

text \<open>\<open>True\<close> for the result 0 of \<open>check_name\<close>.\<close>

definition check_name :: "fs_buf \<Rightarrow> u32 \<Rightarrow> search_rule list \<Rightarrow> bool option" where
  "check_name b off rules =
    (if rules = [] \<or> flag (hd rules) = RULE_NONE then Some False
     else do {
       name \<leftarrow> cstr_at (head b) (unat off);
       check_name_loop (head b) (unat off) name rules })"

record jump_off =
  jump_start :: u32
  jump_end :: u32
  hitted :: bool

definition sizeof_jump_off :: nat where "sizeof_jump_off = 24"

definition add_jump :: "(nat \<Rightarrow> bool) \<Rightarrow> jump_off list \<Rightarrow> u32 \<Rightarrow> u32 \<Rightarrow> jump_off list" where
  "add_jump mal js st en = (if mal sizeof_jump_off then js @ [\<lparr>jump_start = st, jump_end = en, hitted = False\<rparr>] else js)"

text \<open>The last of the smallest starts at or before the offset, among those not taken yet.\<close>

fun find_jump :: "jump_off list \<Rightarrow> nat \<Rightarrow> u32 \<Rightarrow> nat option \<Rightarrow> nat option" where
  "find_jump [] i min_jump hit = hit"
| "find_jump (j # js) i min_jump hit =
    (if \<not> hitted j \<and> jump_start j \<le> min_jump then find_jump js (i + 1) (jump_start j) (Some i)
     else find_jump js (i + 1) min_jump hit)"

definition should_jump :: "jump_off list \<Rightarrow> u32 \<Rightarrow> (u32 \<times> jump_off list) option" where
  "should_jump js name_off = (case find_jump js 0 name_off None of None \<Rightarrow> None
     | Some i \<Rightarrow> Some (jump_end (js ! i), js[i := (js ! i)\<lparr>hitted := True\<rparr>]))"

subsection \<open>Matching a name\<close>

record compare_query =
  query :: cstring
  icase :: bool
  lang_pinyin :: bool

definition to_lower :: "byte \<Rightarrow> byte" where
  "to_lower c = (if 65 \<le> c \<and> c \<le> 90 then c + 32 else c)"

text \<open>\<open>True\<close> for a match, the result 0 of the C functions.\<close>

definition do_match_str :: "cstring \<Rightarrow> cstring \<Rightarrow> bool \<Rightarrow> bool" where
  "do_match_str haystack needle ic =
    (if ic then strstr (map to_lower haystack) (map to_lower needle) \<noteq> None else strstr haystack needle \<noteq> None)"

definition match_str :: "(cstring \<Rightarrow> cstring option) \<Rightarrow> compare_query \<Rightarrow> cstring \<Rightarrow> bool" where
  "match_str cat_pinyin q name =
    (do_match_str name (query q) (icase q)
     \<or> lang_pinyin q \<and> (case cat_pinyin name of None \<Rightarrow> False | Some p \<Rightarrow> do_match_str p (query q) (icase q)))"

definition is_regex :: "cstring \<Rightarrow> bool" where
  "is_regex q = list_ex (\<lambda>c. c \<in> {36, 40, 41, 42, 43, 46, 63, 91, 92, 94, 123, 124}) q"

definition pcre_regex :: "(cstring \<Rightarrow> cstring option) \<Rightarrow> (cstring \<Rightarrow> bool) \<Rightarrow> compare_query \<Rightarrow> cstring \<Rightarrow> bool" where
  "pcre_regex cat_pinyin regex q name =
    (regex name \<or> lang_pinyin q \<and> (case cat_pinyin name of None \<Rightarrow> False | Some p \<Rightarrow> regex p))"

subsection \<open>The work of one thread\<close>

record search_context =
  start_pos :: u32
  end_pos :: u32
  req_results :: nat
  max_count :: int
  num_results :: u32
  ctx_results :: "u32 list"

definition sizeof_search_context :: nat where "sizeof_search_context = 64"

definition search_thread_context_new :: "(nat \<Rightarrow> bool) \<Rightarrow> nat \<Rightarrow> u32 \<Rightarrow> u32 \<Rightarrow> int \<Rightarrow> search_context option" where
  "search_thread_context_new mal req st en mx =
    (if en < st then None
     else if \<not> mal sizeof_search_context \<or> \<not> mal (req * 4) then None
     else Some \<lparr>start_pos = st, end_pos = en, req_results = req, max_count = mx,
                num_results = 0, ctx_results = []\<rparr>)"

definition save_result :: "search_context \<Rightarrow> u32 \<Rightarrow> search_context" where
  "save_result ctx off = ctx\<lparr>num_results := num_results ctx + 1,
     ctx_results := (if unat (num_results ctx) < req_results ctx then ctx_results ctx @ [off] else ctx_results ctx)\<rparr>"

definition count_reached :: "search_context \<Rightarrow> bool" where
  "count_reached ctx \<longleftrightarrow> max_count ctx > 0 \<and> int (unat (num_results ctx)) \<ge> max_count ctx"

partial_function (option) search_thread_loop ::
  "fs_buf \<Rightarrow> (cstring \<Rightarrow> bool) \<Rightarrow> search_context \<Rightarrow> u32 \<Rightarrow> search_context option" where
  "search_thread_loop b matches ctx name_off =
    (if name_off < end_pos ctx then do {
       name \<leftarrow> cstr_at (head b) (unat name_off);
       if name = [] then do {
         name_off \<leftarrow> next_name b name_off;
         search_thread_loop b matches ctx name_off }
       else do {
         let ctx = (if matches name then save_result ctx name_off else ctx);
         name_off \<leftarrow> next_name b name_off;
         if count_reached ctx then Some (ctx\<lparr>start_pos := name_off\<rparr>)
         else search_thread_loop b matches ctx name_off } }
     else Some ctx)"

definition search_thread :: "fs_buf \<Rightarrow> (cstring \<Rightarrow> bool) \<Rightarrow> search_context \<Rightarrow> search_context option" where
  "search_thread b matches ctx = search_thread_loop b matches ctx (start_pos ctx)"

text \<open>Whether the rules let a matching name through (\<open>rule_val\<close>, the include and exclude rules).\<close>

definition rules_accept :: "fs_buf \<Rightarrow> int \<Rightarrow> search_rule list \<Rightarrow> search_rule list \<Rightarrow> u32 \<Rightarrow> bool option" where
  "rules_accept b rule_val in_rule ex_rule off =
    (if rule_val \<le> SEARCH_RULE then Some True
     else if rule_val AND INCLUDE_RULE \<noteq> 0 then do {
       inc \<leftarrow> check_name b off in_rule;
       if inc then
         (if rule_val AND EXCLUDE_RULE \<noteq> 0 then map_option Not (check_name b off ex_rule) else Some True)
       else Some False }
     else if rule_val AND EXCLUDE_RULE \<noteq> 0 then map_option Not (check_name b off ex_rule)
     else Some False)"

partial_function (option) rulesearch_loop :: "(nat \<Rightarrow> bool) \<Rightarrow> fs_buf \<Rightarrow> (cstring \<Rightarrow> bool) \<Rightarrow> int \<Rightarrow> search_rule list \<Rightarrow>
    search_rule list \<Rightarrow> jump_off list \<Rightarrow> search_context \<Rightarrow> u32 \<Rightarrow> search_context option" where
  "rulesearch_loop mal b matches rule_val in_rule ex_rule js ctx name_off =
    (if name_off < end_pos ctx then do {
       name \<leftarrow> cstr_at (head b) (unat name_off);
       if name = [] then do {
         name_off \<leftarrow> next_name b name_off;
         rulesearch_loop mal b matches rule_val in_rule ex_rule js ctx name_off }
       else case should_jump js name_off of
         Some (off, js) \<Rightarrow> rulesearch_loop mal b matches rule_val in_rule ex_rule js ctx off
       | None \<Rightarrow> do {
           kids \<leftarrow> (if rule_val AND EXCLUDE_RULE \<noteq> 0 then get_kids_offset b name_off else Some 0);
           skip \<leftarrow> (if kids \<noteq> 0 then check_name b name_off ex_rule else Some False);
           if skip then do {
             en \<leftarrow> get_tree_end_offset b kids;
             name_off \<leftarrow> next_name b name_off;
             rulesearch_loop mal b matches rule_val in_rule ex_rule (add_jump mal js kids en) ctx name_off }
           else do {
             acc \<leftarrow> (if matches name then rules_accept b rule_val in_rule ex_rule name_off else Some False);
             let ctx = (if acc then save_result ctx name_off else ctx);
             name_off \<leftarrow> next_name b name_off;
             if count_reached ctx then Some (ctx\<lparr>start_pos := name_off\<rparr>)
             else rulesearch_loop mal b matches rule_val in_rule ex_rule js ctx name_off } } }
     else Some ctx)"

text \<open>\<open>in_rule\<close> and \<open>ex_rule\<close> stay null when \<open>get_rules\<close> does not write them.\<close>

definition rulesearch_thread :: "(nat \<Rightarrow> bool) \<Rightarrow> fs_buf \<Rightarrow> (cstring \<Rightarrow> bool) \<Rightarrow> search_rule list \<Rightarrow> search_context \<Rightarrow>
    search_context option" where
  "rulesearch_thread mal b matches rules ctx =
    (if rules = [] then Some ctx
     else
       let in_rule = (case snd (get_rules mal rules INCLUDE_RULE) of None \<Rightarrow> [] | Some rs \<Rightarrow> rs);
           (rule_val, ex) = get_rules mal rules EXCLUDE_RULE;
           ex_rule = (case ex of None \<Rightarrow> [] | Some rs \<Rightarrow> rs)
       in rulesearch_loop mal b matches rule_val in_rule ex_rule [] ctx (start_pos ctx))"

end
