(* ===== verification/Fs_Parallel.thy ===== *)
theory Fs_Parallel
  imports Fs_Search
begin

text \<open>
  \<open>parallelsearch_files\<close> (\<open>fs_buf.c\<close>): the options of the query, the pieces of the range that the
  threads search, and the collection of their results.  The threads only read the buffer and
  write their own context, so the model runs them one after the other.
\<close>

subsection \<open>Options\<close>

definition is_space :: "byte \<Rightarrow> bool" where
  "is_space c \<longleftrightarrow> c = 32 \<or> 9 \<le> c \<and> c \<le> 13"

definition is_digit :: "byte \<Rightarrow> bool" where
  "is_digit c \<longleftrightarrow> 48 \<le> c \<and> c \<le> 57"

fun digits_value :: "int \<Rightarrow> cstring \<Rightarrow> int" where
  "digits_value acc [] = acc"
| "digits_value acc (c # cs) = digits_value (10 * acc + (uint c - 48)) cs"

text \<open>\<open>atoi\<close>; a value that is no \<open>int\<close> is undefined.\<close>

definition atoi :: "cstring \<Rightarrow> int option" where
  "atoi s =
    (let s = dropWhile is_space s;
         neg = (s \<noteq> [] \<and> hd s = 45);
         s = (if s \<noteq> [] \<and> (hd s = 45 \<or> hd s = 43) then tl s else s);
         v = digits_value 0 (takeWhile is_digit s);
         v = (if neg then - v else v)
     in if - 2147483648 \<le> v \<and> v < 2147483648 then Some v else None)"

record search_opts =
  is_reg :: bool
  opt_query :: compare_query
  opt_max :: int

definition search_options :: "search_rule list \<Rightarrow> cstring \<Rightarrow> search_opts option" where
  "search_options rule q = do {
     reg_enable \<leftarrow> atoi (get_rule_value rule RULE_SEARCH_REGX);
     ic \<leftarrow> atoi (get_rule_value rule RULE_SEARCH_ICASE);
     mx \<leftarrow> atoi (get_rule_value rule RULE_SEARCH_MAX_COUNT);
     pinyin_enable \<leftarrow> atoi (get_rule_value rule RULE_SEARCH_PINYIN);
     Some \<lparr>is_reg = (reg_enable \<noteq> 0 \<and> is_regex q),
       opt_query = \<lparr>query = q, icase = (ic > 0), lang_pinyin = (pinyin_enable > 0)\<rparr>,
       opt_max = mx\<rparr> }"

text \<open>The comparator: a compiled expression, or the plain search when the expression is none.\<close>

definition comparator :: "(cstring \<Rightarrow> cstring option) \<Rightarrow> (cstring \<Rightarrow> (cstring \<Rightarrow> bool) option) \<Rightarrow> search_opts \<Rightarrow>
    cstring \<Rightarrow> bool" where
  "comparator cat_pinyin pcre2_compile opts =
    (case (if is_reg opts then pcre2_compile (query (opt_query opts)) else None) of
       Some regex \<Rightarrow> pcre_regex cat_pinyin regex (opt_query opts)
     | None \<Rightarrow> match_str cat_pinyin (opt_query opts))"

subsection \<open>The pieces\<close>

text \<open>The loop that creates the contexts and hands them to the threads: \<open>left\<close> threads are still
  unused.  The flag tells that no context could be made.\<close>

fun make_contexts :: "(nat \<Rightarrow> bool) \<Rightarrow> fs_buf \<Rightarrow> nat \<Rightarrow> u32 \<Rightarrow> nat \<Rightarrow> int \<Rightarrow> u32 \<Rightarrow> u32 \<Rightarrow> u32 \<Rightarrow>
    search_context list \<Rightarrow> (search_context list \<times> bool) option" where
  "make_contexts mal b 0 per_thread req mx min_off st_pos en_pos acc = Some (acc, False)"
| "make_contexts mal b (Suc left) per_thread req mx min_off st_pos en_pos acc =
    (case search_thread_context_new mal req st_pos (if left = 0 then min_off else en_pos) mx of
       None \<Rightarrow> Some (acc, True)
     | Some ctx \<Rightarrow> do {
         st_pos \<leftarrow> next_name b en_pos;
         let en_pos = en_pos + per_thread;
         en_pos \<leftarrow> (if en_pos > min_off then Some min_off else next_name b en_pos);
         if st_pos \<ge> en_pos then Some (acc @ [ctx], False)
         else make_contexts mal b left per_thread req mx min_off st_pos en_pos (acc @ [ctx]) })"

definition pieces :: "(nat \<Rightarrow> bool) \<Rightarrow> fs_buf \<Rightarrow> u32 \<Rightarrow> u32 \<Rightarrow> u32 \<Rightarrow> u32 \<Rightarrow> int \<Rightarrow>
    (search_context list \<times> bool) option" where
  "pieces mal b pool_threads s_off min_off cnt mx = do {
     let min_range = (cnt + 1) * 1024;
     let num_threads = (if min_off - s_off \<le> min_range then 1 else pool_threads);
     let num_items_per_thread = max ((min_off - s_off) div num_threads) 1;
     let end_pos = s_off + num_items_per_thread;
     end_pos \<leftarrow> (if end_pos \<ge> min_off then Some min_off else next_name b end_pos);
     make_contexts mal b (unat num_threads) num_items_per_thread (unat cnt) mx min_off s_off end_pos [] }"

fun run_threads :: "(search_context \<Rightarrow> search_context option) \<Rightarrow> search_context list \<Rightarrow> search_context list option" where
  "run_threads f [] = Some []"
| "run_threads f (c # cs) = do { c \<leftarrow> f c; cs \<leftarrow> run_threads f cs; Some (c # cs) }"

subsection \<open>Collecting the results\<close>

fun copy_results :: "nat \<Rightarrow> bool \<Rightarrow> int \<Rightarrow> u32 list \<Rightarrow> u32 list \<Rightarrow> u32 \<Rightarrow> u32 \<Rightarrow> u32 list \<times> u32 \<times> u32" where
  "copy_results max_results limit mx [] res tot min_off = (res, tot, min_off)"
| "copy_results max_results limit mx (r # rs) res tot min_off =
    (if length res < max_results then copy_results max_results limit mx rs (res @ [r]) tot min_off
     else if limit \<and> int (unat tot) > mx then (res, of_int mx, r)
     else (res, tot, min_off))"

fun merge_results :: "nat \<Rightarrow> int \<Rightarrow> search_context list \<Rightarrow> u32 list \<Rightarrow> u32 \<Rightarrow> u32 \<Rightarrow> u32 list \<times> u32 \<times> u32" where
  "merge_results max_results mx [] res tot min_off = (res, tot, min_off)"
| "merge_results max_results mx (ctx # cs) res tot min_off =
    (let tot = tot + num_results ctx;
         limit = (mx > 0 \<and> int (unat tot) \<ge> mx);
         min_off = (if limit then start_pos ctx else min_off);
         (res, tot, min_off) = copy_results max_results limit mx
           (take (min (req_results ctx) (unat (num_results ctx))) (ctx_results ctx)) res tot min_off
     in if limit then (res, tot, min_off) else merge_results max_results mx cs res tot min_off)"

text \<open>The result: the found offsets, the number reported in \<open>*count\<close>, the new \<open>*start_off\<close>.\<close>

definition sizeof_compare_query :: nat where "sizeof_compare_query = 16"

definition parallelsearch_files ::
  "(nat \<Rightarrow> bool) \<Rightarrow> (cstring \<Rightarrow> cstring option) \<Rightarrow> (cstring \<Rightarrow> (cstring \<Rightarrow> bool) option) \<Rightarrow> u32 \<Rightarrow>
   fs_buf \<Rightarrow> u32 \<Rightarrow> u32 \<Rightarrow> u32 \<Rightarrow> search_rule list \<Rightarrow> cstring \<Rightarrow> (u32 list \<times> u32 \<times> u32 \<times> fs_buf) option" where
  "parallelsearch_files mal cat_pinyin pcre2_compile pool_threads b st_off end_off cnt rule q = do {
     b \<leftarrow> rdlock b;
     let min_off = (if tail b > end_off then end_off else tail b);
     opts \<leftarrow> search_options rule q;
     if \<not> mal sizeof_compare_query then do { b \<leftarrow> unlock b; Some ([], cnt, st_off, b) }
     else do {
       let cmp = comparator cat_pinyin pcre2_compile opts;
       (ctxs, error_occur) \<leftarrow> pieces mal b pool_threads st_off min_off cnt (opt_max opts);
       done_ctxs \<leftarrow> run_threads (if rule \<noteq> [] then rulesearch_thread mal b cmp rule else search_thread b cmp) ctxs;
       b \<leftarrow> unlock b;
       let (res, total, off) = merge_results (unat cnt) (opt_max opts) done_ctxs [] 0 min_off;
       Some (res, total, (if error_occur then st_off else off), b) } }"

end
