(* ===== verification/Linear_Tree.thy ===== *)
theory Linear_Tree
  imports Fs_Buf
begin

text \<open>
  The abstract view of the buffer: a forest of named files and directories, and the byte
  layout of a forest.  The layout of a list of siblings is parametrised by the distance
  from the first entry to the first sub-block, so that the same functions describe a buffer
  in the middle of a change, where the stored distances are stale.
\<close>

subsection \<open>Forests\<close>

datatype node = File (nname: cstring) | Dir (nname: cstring) (nkids: "node list")

definition name_ok :: "cstring \<Rightarrow> bool" where
  "name_ok n \<longleftrightarrow> n \<noteq> [] \<and> 0 \<notin> set n \<and> slash \<notin> set n"

fun node_ok :: "node \<Rightarrow> bool" where
  "node_ok (File n) \<longleftrightarrow> name_ok n"
| "node_ok (Dir n ks) \<longleftrightarrow> name_ok n \<and> list_all node_ok ks"

abbreviation forest_ok :: "node list \<Rightarrow> bool" where
  "forest_ok \<equiv> list_all node_ok"

lemma name_ok_nname: "node_ok k \<Longrightarrow> name_ok (nname k)"
  by (cases k) auto

lemma name_ok_is_cstr: "name_ok n \<Longrightarrow> is_cstr n"
  by (simp add: name_ok_def is_cstr_def)

subsection \<open>Sizes\<close>

fun esize :: "node \<Rightarrow> nat" where
  "esize (File n) = length n + 2"
| "esize (Dir n ks) = length n + 5"

abbreviation ents :: "node list \<Rightarrow> nat" where
  "ents ks \<equiv> sum_list (map esize ks)"

text \<open>\<open>nsub\<close>: the size of the block of a node, zero where it has no kids.\<close>

fun nsub :: "node \<Rightarrow> nat" where
  "nsub (File n) = 0"
| "nsub (Dir n ks) = (if ks = [] then 0 else ents ks + 5 + sum_list (map nsub ks))"

abbreviation subs :: "node list \<Rightarrow> nat" where
  "subs ks \<equiv> sum_list (map nsub ks)"

lemma esize_pos [simp]: "0 < esize k"
  by (cases k) auto

lemma esize_ge: "length (nname k) + 2 \<le> esize k"
  by (cases k) auto

subsection \<open>Layout\<close>

definition tag32 :: "nat \<Rightarrow> byte list" where
  "tag32 r = le32 (push_bit 2 (of_nat r) + 1)"

definition marker :: "nat \<Rightarrow> byte list" where
  "marker r = 0 # tag32 r"

definition dir_ent :: "cstring \<Rightarrow> nat \<Rightarrow> byte list" where
  "dir_ent n r = n @ 0 # tag32 r"

fun enc_ent :: "nat \<Rightarrow> node \<Rightarrow> byte list" where
  "enc_ent d (File n) = n @ [0, 0]"
| "enc_ent d (Dir n ks) = dir_ent n (if ks = [] then 0 else d - length n - 1)"

fun enc_ents :: "nat \<Rightarrow> node list \<Rightarrow> byte list" where
  "enc_ents d [] = []"
| "enc_ents d (k # ks) = enc_ent d k @ enc_ents (d - esize k + nsub k) ks"

fun enc_node :: "nat \<Rightarrow> node \<Rightarrow> byte list"
  and enc_subs :: "nat \<Rightarrow> node list \<Rightarrow> byte list" where
  "enc_node d (File n) = []"
| "enc_node d (Dir n ks) =
     (if ks = [] then []
      else enc_ents (ents ks + 5) ks @ marker (d + ents ks + 1) @ enc_subs (ents ks + 5) ks)"
| "enc_subs d [] = []"
| "enc_subs d (k # ks) = enc_node d k @ enc_subs (d - esize k + nsub k) ks"

text \<open>The block of a directory whose parent tag holds \<open>p\<close>, and the region of a whole buffer.\<close>

definition block :: "nat \<Rightarrow> node list \<Rightarrow> byte list" where
  "block p ks = enc_ents (ents ks + 5) ks @ marker p @ enc_subs (ents ks + 5) ks"

definition enc_root :: "node list \<Rightarrow> byte list" where
  "enc_root ks = (if ks = [] then [] else block 0 ks)"

lemma enc_node_Dir: "enc_node d (Dir n ks) = (if ks = [] then [] else block (d + ents ks + 1) ks)"
  by (simp add: block_def)

lemma length_tag32 [simp]: "length (tag32 r) = 4"
  by (simp add: tag32_def)

lemma length_marker [simp]: "length (marker r) = 5"
  by (simp add: marker_def)

lemma marker_not_Nil [simp]: "marker r \<noteq> []"
  by (simp add: marker_def)

lemma length_dir_ent [simp]: "length (dir_ent n r) = length n + 5"
  by (simp add: dir_ent_def)

lemma length_enc_ent [simp]: "length (enc_ent d k) = esize k"
  by (cases k) auto

lemma length_enc_ents [simp]: "length (enc_ents d ks) = ents ks"
  by (induction ks arbitrary: d) auto

lemma length_enc_node [simp]: "length (enc_node d k) = nsub k"
  and length_enc_subs [simp]: "length (enc_subs d ks) = subs ks"
  by (induction d k and d ks rule: enc_node_enc_subs.induct) auto

lemma length_block [simp]: "length (block p ks) = ents ks + 5 + subs ks"
  by (simp add: block_def)

lemma enc_ents_append:
  "ents xs \<le> d \<Longrightarrow> enc_ents d (xs @ ys) = enc_ents d xs @ enc_ents (d - ents xs + subs xs) ys"
proof (induction xs arbitrary: d)
  case (Cons x xs)
  then have "enc_ents (d - esize x + nsub x) (xs @ ys) = enc_ents (d - esize x + nsub x) xs
      @ enc_ents (d - esize x + nsub x - ents xs + subs xs) ys"
    by (intro Cons.IH) auto
  moreover have "d - esize x + nsub x - ents xs + subs xs
      = d - ents (x # xs) + subs (x # xs)"
    using Cons.prems by simp
  ultimately show ?case by simp
qed simp

lemma enc_subs_append:
  "ents xs \<le> d \<Longrightarrow> enc_subs d (xs @ ys) = enc_subs d xs @ enc_subs (d - ents xs + subs xs) ys"
proof (induction xs arbitrary: d)
  case (Cons x xs)
  then have "enc_subs (d - esize x + nsub x) (xs @ ys) = enc_subs (d - esize x + nsub x) xs
      @ enc_subs (d - esize x + nsub x - ents xs + subs xs) ys"
    by (intro Cons.IH) auto
  moreover have "d - esize x + nsub x - ents xs + subs xs
      = d - ents (x # xs) + subs (x # xs)"
    using Cons.prems by simp
  ultimately show ?case by simp
qed simp

subsection \<open>Tags\<close>

lemma push_bit_2_plus_1: "push_bit 2 r + 1 = push_bit 2 r OR (1 :: u32)"
  by (rule disjunctive_add) (auto simp: bit_simps)

lemma push_bit_2_and_3: "(push_bit 2 r + 1) AND 3 = (1 :: u32)"
proof -
  have three: "(3 :: u32) = mask 2" by (simp add: mask_eq_exp_minus_1)
  show ?thesis
    unfolding push_bit_2_plus_1 three
    by (rule bit_word_eqI) (auto simp: bit_simps)
qed

lemma tag_decode:
  assumes "r < 1073741824"
  shows "drop_bit 2 (push_bit 2 (of_nat r) + 1 - ((push_bit 2 (of_nat r) + 1) AND 3)) = (of_nat r :: u32)"
proof -
  have "drop_bit 2 (push_bit 2 (of_nat r :: u32)) = of_nat r"
  proof (rule word_unat_eq_iff[THEN iffD2])
    have "unat (push_bit 2 (of_nat r :: u32)) = r * 4"
      using assms by (simp add: push_bit_eq_mult unat_mult_lem[THEN iffD1] unat_of_nat32)
    then show "unat (drop_bit 2 (push_bit 2 (of_nat r :: u32))) = unat (of_nat r :: u32)"
      using assms by (simp add: drop_bit_eq_div unat_div unat_of_nat32)
  qed
  then show ?thesis by (simp add: push_bit_2_and_3)
qed

lemma tag_low_byte: "(ucast (push_bit 2 r + 1 :: u32) :: byte) \<noteq> 0"
proof
  assume "(ucast (push_bit 2 r + 1 :: u32) :: byte) = 0"
  then have "\<not> bit (ucast (push_bit 2 r + 1 :: u32) :: byte) 0" by simp
  then show False by (simp add: push_bit_2_plus_1 bit_simps)
qed

lemma tag32_Cons: "\<exists>t ts. tag32 r = t # ts \<and> t \<noteq> 0"
  by (simp add: tag32_def le32_def tag_low_byte)

end
