(* ===== verification/Fs_Entry.thy ===== *)
theory Fs_Entry
  imports Linear_Tree
begin

text \<open>
  What the readers and writers of \<open>fs_buf.c\<close> do at an entry, at a parent tag and on a list
  of siblings that stand in the buffer in the layout of theory Linear_Tree.  Every lemma
  splits the memory as \<open>A @ X @ C\<close> with the accessed object \<open>X\<close> at offset \<open>length A\<close>.
\<close>

named_theorems entry_simps \<open>the accessors on a buffer in the layout of a forest\<close>

text \<open>A buffer that respects \<open>MAX_FSBUF_SIZE\<close>: no offset into it wraps.\<close>

abbreviation small :: "fs_buf \<Rightarrow> bool" where
  "small b \<equiv> length (head b) \<le> 1073741824"

fun has_kids :: "node \<Rightarrow> bool" where
  "has_kids (File n) = False"
| "has_kids (Dir n ks) = (ks \<noteq> [])"

fun is_File :: "node \<Rightarrow> bool" where
  "is_File (File n) = True"
| "is_File (Dir n ks) = False"

lemma nsub_eq_0 [simp]: "nsub k = 0 \<longleftrightarrow> \<not> has_kids k"
  by (cases k) auto

lemma enc_node_no_kids [simp]: "\<not> has_kids k \<Longrightarrow> enc_node d k = []"
  by (cases k) auto

text \<open>The bytes of an entry: its name, a NUL, and a tag whose first byte tells files apart.\<close>

lemma enc_ent_split:
  assumes "node_ok k"
  obtains t ts where "enc_ent d k = nname k @ 0 # t # ts" "t = 0 \<longleftrightarrow> is_File k"
    "length ts + length (nname k) + 2 = esize k"
proof (cases k)
  case (File n)
  then show ?thesis using that[of 0 "[]"] by simp
next
  case (Dir n ks)
  let ?r = "if ks = [] then 0 else d - length n - 1"
  obtain t ts where "tag32 ?r = t # ts" "t \<noteq> 0" using tag32_Cons by blast
  moreover from this have "length ts = 3" using length_tag32[of ?r] by simp
  ultimately show ?thesis using Dir that[of t ts] by (simp add: dir_ent_def)
qed

lemma cstr_at_ent [entry_simps]:
  assumes "node_ok k" "length A = a"
  shows "cstr_at (A @ enc_ent d k @ C) a = Some (nname k)"
proof -
  obtain t ts where "enc_ent d k = nname k @ 0 # t # ts"
    using enc_ent_split[OF assms(1)] by metis
  then show ?thesis
    using assms cstr_at_split[of A a "nname k" "t # ts @ C"]
    by (simp add: name_ok_is_cstr name_ok_nname)
qed

lemma rd8_ent:
  assumes "node_ok k" "length A = a"
  shows "\<exists>c. rd8 (A @ enc_ent d k @ C) a = Some c \<and> c \<noteq> 0"
proof -
  obtain t ts where e: "enc_ent d k = nname k @ 0 # t # ts"
    using enc_ent_split[OF assms(1)] by metis
  obtain c n where n: "nname k = c # n"
    using name_ok_nname[OF assms(1)] by (auto simp: name_ok_def neq_Nil_conv)
  then have "c \<noteq> 0" using name_ok_nname[OF assms(1)] by (auto simp: name_ok_def)
  then show ?thesis using assms e n by (simp add: mem_simps)
qed

lemma rd8_tag:
  assumes "node_ok k" "length A = a"
  shows "\<exists>t. rd8 (A @ enc_ent d k @ C) (a + length (nname k) + 1) = Some t \<and> (t = 0 \<longleftrightarrow> is_File k)"
proof -
  obtain t ts where e: "enc_ent d k = nname k @ 0 # t # ts" "t = 0 \<longleftrightarrow> is_File k"
    using enc_ent_split[OF assms(1)] by metis
  then have "A @ enc_ent d k @ C = (A @ nname k @ [0]) @ t # ts @ C" by simp
  moreover have "length (A @ nname k @ [0]) = a + length (nname k) + 1" using assms by simp
  ultimately show ?thesis using e(2) by (metis rd8_split)
qed

subsection \<open>One entry\<close>

lemma do_is_file_ent [entry_simps]:
  assumes "head b = A @ enc_ent d k @ C" "node_ok k" "length A = a" "small b"
  shows "do_is_file b (of_nat a) = Some (is_File k)"
proof -
  have "a < 4294967296" using assms by simp
  then show ?thesis
    using assms rd8_tag[of k A a d C] unfolding do_is_file_def
    by (auto simp: off_simps entry_simps)
qed

lemma next_name_ent [entry_simps]:
  assumes "head b = A @ enc_ent d k @ C" "node_ok k" "length A = a" "small b"
  shows "next_name b (of_nat a) = Some (of_nat (a + esize k))"
proof -
  have s: "a + esize k \<le> 1073741824" using assms by simp
  then have u: "unat (of_nat a + of_nat (length (nname k)) + 1 :: u32) = a + length (nname k) + 1"
    using esize_ge[of k] unat_of_nat32[of "a + length (nname k) + 1"] by (simp add: ac_simps)
  have ua: "unat (of_nat a :: u32) = a" using s by (simp add: off_simps)
  have n: "cstr_at (head b) a = Some (nname k)" using assms by (simp add: entry_simps)
  obtain t where t: "rd8 (head b) (a + length (nname k) + 1) = Some t" "t = 0 \<longleftrightarrow> is_File k"
    using rd8_tag[OF assms(2,3)] assms(1) by metis
  show ?thesis
    using t u by (cases k) (simp_all add: next_name_def n ua Let_def ac_simps)
qed

lemma dir_ent_at:
  assumes "head b = A @ dir_ent n r @ C" "name_ok n" "length A = a" "small b"
  shows "cstr_at (head b) a = Some n"
    and "rd32 (head b) (a + length n + 1) = Some (push_bit 2 (of_nat r) + 1)"
proof -
  have h: "head b = A @ n @ 0 # tag32 r @ C" using assms by (simp add: dir_ent_def)
  show "cstr_at (head b) a = Some n"
    using h assms by (simp add: mem_simps name_ok_is_cstr)
  have "head b = (A @ n @ [0]) @ le32 (push_bit 2 (of_nat r) + 1) @ C"
    using h by (simp add: tag32_def)
  moreover have "length (A @ n @ [0]) = a + length n + 1" using assms by simp
  ultimately show "rd32 (head b) (a + length n + 1) = Some (push_bit 2 (of_nat r) + 1)"
    by (simp only: rd32_split)
qed

text \<open>The kids offset of an entry is absolute: \<open>d\<close> is the distance to its block.\<close>

lemma get_kids_offset_ent [entry_simps]:
  assumes h: "head b = A @ enc_ent d k @ C" and ok: "node_ok k" and a: "length A = a"
    and sm: "small b" and d: "has_kids k \<Longrightarrow> esize k \<le> d" "d < 1073741824"
  shows "get_kids_offset b (of_nat a) = Some (if has_kids k then of_nat (a + d) else 0)"
proof (cases k)
  case (File n)
  then show ?thesis using do_is_file_ent[OF h ok a sm] by (simp add: get_kids_offset_def)
next
  case (Dir n ks)
  let ?r = "if ks = [] then 0 else d - length n - 1"
  have h': "head b = A @ dir_ent n ?r @ C" and n: "name_ok n" using h Dir ok by simp_all
  have s: "a + length n + 1 < 1073741824" using h' sm a by simp
  then have u: "unat (of_nat a + of_nat (length n) + 1 :: u32) = a + length n + 1"
    using unat_of_nat32[of "a + length n + 1"] by (simp add: ac_simps)
  have r: "?r < 1073741824" using d by auto
  have "of_nat a + of_nat (length n) + 1 + of_nat ?r = (of_nat (a + length n + 1 + ?r) :: u32)"
    by simp
  moreover have "ks \<noteq> [] \<Longrightarrow> a + length n + 1 + ?r = a + d" using d(1) Dir by auto
  moreover have "ks \<noteq> [] \<Longrightarrow> ?r \<noteq> 0" using d(1) Dir by auto
  ultimately show ?thesis
    using Dir do_is_file_ent[OF h ok a sm] dir_ent_at[OF h' n a sm] u s r tag_decode[OF r]
    by (auto simp: get_kids_offset_def get_reloff_by_tag_def Let_def off_simps simp del: of_nat_add)
qed

lemma do_set_kids_off_dir:
  assumes h: "head b = A @ dir_ent n r @ C" and n: "name_ok n" and a: "length A = a"
    and sm: "small b" and k: "k = 0 \<or> a + length n + 1 < k" "k < 4294967296"
  shows "do_set_kids_off b (of_nat a) (of_nat k)
    = Some (b\<lparr>head := A @ dir_ent n (if k = 0 then 0 else k - (a + length n + 1)) @ C\<rparr>)"
proof -
  have s: "a + length n + 5 \<le> 1073741824" using h sm a by simp
  have e: "(of_nat k :: u32) - (of_nat a + of_nat (length n) + 1) = of_nat (k - (a + length n + 1))"
    if "k \<noteq> 0"
    using k that of_nat32_diff[of "a + length n + 1" k] by (simp add: ac_simps)
  have z: "(of_nat k :: u32) = 0 \<longleftrightarrow> k = 0" using k by (simp add: off_simps)
  have "head b = (A @ n @ [0]) @ tag32 r @ C" using h by (simp add: dir_ent_def)
  moreover have "length (A @ n @ [0]) = a + length n + 1" using a by simp
  ultimately have w: "wr32 (head b) (a + length n + 1) v = Some ((A @ n @ [0]) @ le32 v @ C)" for v
    by (simp only: wr32_split length_tag32)
  show ?thesis
    using s e z w[of "push_bit 2 (if k = 0 then 0 else of_nat (k - (a + length n + 1))) + 1"]
      dir_ent_at(1)[OF h n a sm]
    by (auto simp: do_set_kids_off_def Let_def off_simps dir_ent_def tag32_def)
qed

text \<open>Storing the offset of a block at distance \<open>d'\<close>.\<close>

lemma do_set_kids_off_ent [entry_simps]:
  assumes h: "head b = A @ enc_ent d k @ C" and ok: "node_ok k" and a: "length A = a"
    and sm: "small b" and k: "has_kids k" and d: "esize k \<le> d'" "a + d' < 4294967296"
  shows "do_set_kids_off b (of_nat a) (of_nat (a + d')) = Some (b\<lparr>head := A @ enc_ent d' k @ C\<rparr>)"
proof -
  from k obtain n ks where Dir: "k = Dir n ks" "ks \<noteq> []" by (cases k) auto
  then have "head b = A @ dir_ent n (d - length n - 1) @ C" "name_ok n" using h ok by simp_all
  from do_set_kids_off_dir[OF this a sm, of "a + d'"] show ?thesis
    using Dir d by (simp del: of_nat_add)
qed

subsection \<open>Parent tags\<close>

lemma rd8_marker: "head b = A @ marker r @ C \<Longrightarrow> length A = a \<Longrightarrow> rd8 (head b) a = Some 0"
  by (simp add: marker_def mem_simps)

lemma get_reloff_marker:
  assumes h: "head b = A @ marker r @ C" and a: "length A = a" and sm: "small b"
    and r: "r < 1073741824"
  shows "get_reloff_by_tag b (of_nat (a + 1)) = Some (of_nat r)"
proof -
  have s: "a + 5 \<le> 1073741824" using h a sm by simp
  have "head b = (A @ [0]) @ le32 (push_bit 2 (of_nat r) + 1) @ C"
    using h by (simp add: marker_def tag32_def)
  moreover have "length (A @ [0]) = a + 1" using a by simp
  ultimately have "rd32 (head b) (a + 1) = Some (push_bit 2 (of_nat r) + 1)"
    by (simp only: rd32_split)
  then show ?thesis
    using s r unat_of_nat32[of "a + 1"]
    by (simp add: get_reloff_by_tag_def tag_decode del: of_nat_add of_nat_Suc)
qed

lemma set_parent_offset_at:
  assumes h: "head b = A @ M @ C" and M: "length M = 5" and a: "length A = a" and sm: "small b"
    and p: "p \<le> a + 1"
  shows "set_parent_offset b (of_nat a) (of_nat p)
    = Some (b\<lparr>head := A @ marker (if p = 0 then 0 else a + 1 - p) @ C\<rparr>)"
proof -
  from M obtain x N where MN: "M = x # N" "length N = 4" by (cases M) auto
  have s: "a + 5 \<le> 1073741824" using h a sm M by simp
  then have z: "0 < (of_nat p :: u32) \<longleftrightarrow> p \<noteq> 0" using p of_nat32_pos[of p] by simp
  have e: "(of_nat a :: u32) + 1 - of_nat p = of_nat (a + 1 - p)"
    using of_nat32_diff[OF p] by (simp add: ac_simps)
  have w1: "wr8 (head b) a 0 = Some (A @ 0 # N @ C)" using h MN a by (simp add: mem_simps)
  have "wr32 ((A @ [0]) @ N @ C) (a + 1) v = Some ((A @ [0]) @ le32 v @ C)" for v
    using a MN by (intro wr32_split) simp_all
  then have w2: "wr32 (A @ 0 # N @ C) (Suc a) v = Some (A @ 0 # le32 v @ C)" for v by simp
  have "unat (of_nat a :: u32) = a" using s by (simp add: off_simps)
  then show ?thesis
    using z e w1 w2 by (simp add: set_parent_offset_def Let_def marker_def tag32_def)
qed

subsection \<open>Lists of siblings\<close>

lemma get_folder_tail_offset_ents:
  assumes "head b = A @ enc_ents d ks @ marker r @ C" "forest_ok ks" "length A = a" "small b"
    "tail b = of_nat t" "a + ents ks < t" "t \<le> length (head b)"
  shows "get_folder_tail_offset b (of_nat a) = Some (of_nat (a + ents ks))"
  using assms
proof (induction ks arbitrary: A a d)
  case Nil
  then have h: "head b = A @ marker r @ C" by simp
  have s: "a < 4294967296" "t < 4294967296" using Nil by simp_all
  then have "(of_nat a :: u32) < tail b" using Nil by (simp add: off_simps)
  then show ?case
    using rd8_marker[OF h Nil.prems(3)] s
    by (subst get_folder_tail_offset.simps) (simp add: off_simps)
next
  case (Cons k ks)
  let ?d = "d - esize k + nsub k"
  have h: "head b = A @ enc_ent d k @ (enc_ents ?d ks @ marker r @ C)" using Cons.prems by simp
  have k: "node_ok k" "forest_ok ks" using Cons.prems by simp_all
  have s: "a < 4294967296" "t < 4294967296" using Cons.prems by simp_all
  then have lt: "(of_nat a :: u32) < tail b" using Cons.prems by (simp add: off_simps)
  obtain c where c: "rd8 (head b) a = Some c" "c \<noteq> 0"
    using rd8_ent[OF k(1) Cons.prems(3)] h by metis
  have "get_folder_tail_offset b (of_nat (a + esize k)) = Some (of_nat (a + esize k + ents ks))"
    using Cons.prems k by (intro Cons.IH[of "A @ enc_ent d k" "?d"]) auto
  then show ?case
    using lt c s next_name_ent[OF h k(1) Cons.prems(3,4)]
    by (subst get_folder_tail_offset.simps) (simp add: off_simps ac_simps del: of_nat_add)
qed

end
