(* ===== verification/Fs_Repair.thy ===== *)
theory Fs_Repair
  imports Fs_Entry
begin

text \<open>
  \<open>update_offsets\<close> repairs a buffer whose stored distances are stale.  A position in the
  tree is a list of frames, innermost first: the siblings before and after each directory on
  the way up and its name.  \<open>zpre\<close> and \<open>zsuf\<close> are the bytes around the block of the
  innermost directory when that block is believed to have size \<open>g\<close>; the repair replaces the
  believed size by the real one, level by level.
\<close>

subsection \<open>One sibling\<close>

lemma enc_ent_no_kids: "\<not> has_kids k \<Longrightarrow> enc_ent d k = enc_ent d' k"
  by (cases k) auto

lemma UPDATE_KIDS_OFF_ent:
  assumes h: "head b = A @ enc_ent d k @ B @ enc_node d k @ C" and ok: "node_ok k"
    and a: "length A = a" "0 < a" and sm: "small b" and t: "tail b = of_nat t" "t \<le> length (head b)"
    and d: "esize k \<le> d" "d < 1073741824" and d': "d' = esize k + length B"
    and D: "of_nat d + D = (of_nat d' :: u32)" and le: "a + d' + nsub k \<le> t"
  shows "UPDATE_KIDS_OFF b (of_nat a) D = Some (b\<lparr>head := A @ enc_ent d' k @ B @ enc_node d' k @ C\<rparr>)"
proof (cases "has_kids k")
  case False
  then show ?thesis
    using get_kids_offset_ent[OF h ok a(1) sm _ d(2)] h enc_ent_no_kids[OF False, of d d']
    by (simp add: UPDATE_KIDS_OFF_def)
next
  case True
  then obtain n ks where Dir: "k = Dir n ks" "ks \<noteq> []" by (cases k) auto
  let ?e = "ents ks + 5"
  let ?b1 = "b\<lparr>head := A @ enc_ent d' k @ B @ enc_node d k @ C\<rparr>"
  let ?S = "enc_subs ?e ks @ C" and ?P = "A @ enc_ent d' k @ B"
  have le': "a + d' + ents ks + 5 \<le> t" using le Dir by simp
  have th: "t \<le> 1073741824" using t sm by simp
  have k: "get_kids_offset b (of_nat a) = Some (of_nat (a + d))"
    using get_kids_offset_ent[OF h ok a(1) sm d(1) d(2)] True by simp
  have "a \<le> 1073741824" using h sm a by simp
  then have nz: "(of_nat (a + d) :: u32) \<noteq> 0"
    using of_nat32_eq_0[of "a + d"] a d by (simp del: of_nat_add)
  have "of_nat (a + d) + D = of_nat a + (of_nat d + D)" by simp
  then have add: "of_nat (a + d) + D = (of_nat (a + d') :: u32)" using D by simp
  have s: "do_set_kids_off b (of_nat a) (of_nat (a + d')) = Some ?b1"
    using do_set_kids_off_ent[OF h ok a(1) sm True, of d'] d' le' th by simp
  have h1: "head ?b1 = ?P @ enc_ents ?e ks @ marker (d + ents ks + 1) @ ?S"
    using Dir by simp
  have lP: "length ?P = a + d'" using a d' by simp
  have sm1: "small ?b1" using sm h d' by simp
  have len1: "length (head ?b1) = length (head b)" using h by simp
  have ft: "get_folder_tail_offset ?b1 (of_nat (a + d')) = Some (of_nat (a + d' + ents ks))"
    by (rule get_folder_tail_offset_ents[OF h1 _ lP sm1, of t])
      (use ok Dir t le' len1 in simp_all)
  have h2: "head ?b1 = (?P @ enc_ents ?e ks) @ marker (d + ents ks + 1) @ ?S" using Dir by simp
  have sp: "set_parent_offset ?b1 (of_nat (a + d' + ents ks)) (of_nat a)
    = Some (?b1\<lparr>head := (?P @ enc_ents ?e ks) @ marker (if a = 0 then 0 else a + d' + ents ks + 1 - a) @ ?S\<rparr>)"
    by (rule set_parent_offset_at[OF h2 _ _ sm1]) (use lP in simp_all)
  show ?thesis
    using k nz add s ft sp a Dir
    by (simp add: UPDATE_KIDS_OFF_def Let_def del: of_nat_add)
qed

subsection \<open>The siblings of one directory\<close>

text \<open>
  Both loops walk over the entries of one directory and repair each of them.  The bytes \<open>B\<close>
  stand between the entries and their blocks; \<open>d\<close> is the stored and \<open>d'\<close> the real distance.
\<close>

lemma word_shift_distance:
  assumes "of_nat d + D = (of_nat d' :: u32)" "e \<le> d" "e \<le> d'"
  shows "of_nat (d - e + s) + D = (of_nat (d' - e + s) :: u32)"
  using assms by (simp add: of_nat_diff algebra_simps)

lemma update_siblings_loop_ents:
  assumes "head b = A @ enc_ents d ks @ B @ enc_subs d ks @ C" "forest_ok ks"
    and "length A = a" "0 < a" and "small b" and "tail b = of_nat t" "t \<le> length (head b)"
    and "ents ks \<le> d" "d + subs ks < 1073741824" and "d' = ents ks + length B"
    and "of_nat d + D = (of_nat d' :: u32)" and "a + d' + subs ks \<le> t"
    and "st = of_nat (a + ents ks)"
  shows "update_siblings_loop st D b (of_nat a)
    = Some (b\<lparr>head := A @ enc_ents d' ks @ B @ enc_subs d' ks @ C\<rparr>)"
  using assms
proof (induction ks arbitrary: b A a d d' B)
  case Nil
  then show ?case by (subst update_siblings_loop.simps) simp
next
  case (Cons k ks)
  let ?d = "d - esize k + nsub k" and ?d' = "d' - esize k + nsub k"
  let ?B = "enc_ents ?d ks @ B" and ?C = "enc_subs ?d ks @ C"
  let ?b = "b\<lparr>head := A @ enc_ent d' k @ ?B @ enc_node d' k @ ?C\<rparr>"
  note p = Cons.prems
  have h: "head b = A @ enc_ent d k @ ?B @ enc_node d k @ ?C" using p(1) by simp
  have ok: "node_ok k" "forest_ok ks" using p(2) by simp_all
  have s: "a + ents (k # ks) \<le> 1073741824" using p(1,3,5,6,7,10,12) by simp
  have upd: "UPDATE_KIDS_OFF b (of_nat a) D = Some ?b"
    by (rule UPDATE_KIDS_OFF_ent[OF h ok(1) p(3) p(4) p(5) p(6) p(7)]) (use p in simp_all)
  have sm: "small ?b" using p(5) h by simp
  have nn: "next_name ?b (of_nat a) = Some (of_nat (a + esize k))"
    by (rule next_name_ent[OF _ ok(1) p(3) sm, of d' "?B @ enc_node d' k @ ?C"]) simp
  have rec: "update_siblings_loop st D ?b (of_nat (a + esize k))
    = Some (?b\<lparr>head := (A @ enc_ent d' k) @ enc_ents ?d' ks @ (B @ enc_node d' k) @ enc_subs ?d' ks @ C\<rparr>)"
  proof (rule Cons.IH)
    show "of_nat ?d + D = of_nat ?d'"
      by (rule word_shift_distance[OF p(11)]) (use p in simp_all)
  qed (use p ok sm h in \<open>simp_all add: ac_simps\<close>)
  have lt: "(of_nat a :: u32) < st"
    using s esize_pos[of k] unfolding p(13) by (subst of_nat32_less) (simp_all del: esize_pos)
  show ?case
    using lt upd nn rec by (subst update_siblings_loop.simps) (simp del: of_nat_add)
qed

lemma update_ancestors_loop_ents:
  assumes "head b = A @ enc_ents d ks @ B @ enc_subs d ks @ C" "forest_ok ks"
    and "length A = a" "st < a" and "small b" and "tail b = of_nat t" "t \<le> length (head b)"
    and "ents ks \<le> d" "d + subs ks < 1073741824" and "d' = ents ks + length B"
    and "of_nat d + D = (of_nat d' :: u32)" and "a + d' + subs ks \<le> t" and "B \<noteq> []"
  shows "update_ancestors_loop D b (of_nat st) (of_nat a)
    = update_ancestors_loop D (b\<lparr>head := A @ enc_ents d' ks @ B @ enc_subs d' ks @ C\<rparr>)
        (of_nat st) (of_nat (a + ents ks))"
  using assms
proof (induction ks arbitrary: b A a d d' B)
  case Nil
  then have "b\<lparr>head := A @ enc_ents d' [] @ B @ enc_subs d' [] @ C\<rparr> = b" by simp
  then show ?case by simp
next
  case (Cons k ks)
  let ?d = "d - esize k + nsub k" and ?d' = "d' - esize k + nsub k"
  let ?B = "enc_ents ?d ks @ B" and ?C = "enc_subs ?d ks @ C"
  let ?b = "b\<lparr>head := A @ enc_ent d' k @ ?B @ enc_node d' k @ ?C\<rparr>"
  note p = Cons.prems
  have h: "head b = A @ enc_ent d k @ ?B @ enc_node d k @ ?C" using p(1) by simp
  have ok: "node_ok k" "forest_ok ks" using p(2) by simp_all
  have s: "a + d' < 1073741825" "t < 4294967296" using p(5,6,7,10,12) by simp_all
  have upd: "UPDATE_KIDS_OFF b (of_nat a) D = Some ?b"
    by (rule UPDATE_KIDS_OFF_ent[OF h ok(1) p(3) _ p(5) p(6) p(7)]) (use p in simp_all)
  have sm: "small ?b" using p(5) h by simp
  have nn: "next_name ?b (of_nat a) = Some (of_nat (a + esize k))"
    by (rule next_name_ent[OF _ ok(1) p(3) sm, of d' "?B @ enc_node d' k @ ?C"]) simp
  have rec: "update_ancestors_loop D ?b (of_nat st) (of_nat (a + esize k))
    = update_ancestors_loop D
       (?b\<lparr>head := (A @ enc_ent d' k) @ enc_ents ?d' ks @ (B @ enc_node d' k) @ enc_subs ?d' ks @ C\<rparr>)
       (of_nat st) (of_nat (a + esize k + ents ks))"
  proof (rule Cons.IH)
    show "of_nat ?d + D = of_nat ?d'"
      by (rule word_shift_distance[OF p(11)]) (use p in simp_all)
  qed (use p ok sm h in \<open>simp_all add: ac_simps\<close>)
  obtain c where c: "rd8 (head b) a = Some c" "c \<noteq> 0"
    using rd8_ent[OF ok(1) p(3)] h by metis
  have lt: "(of_nat a :: u32) < tail b" "(of_nat st :: u32) < of_nat a" "(of_nat a :: u32) \<noteq> 0"
    and ua: "unat (of_nat a :: u32) = a"
    using s p(4,6,10,12) esize_pos[of k] length_greater_0_conv[of B] p(13)
    by (simp_all add: off_simps del: esize_pos)
  show ?case
    using lt ua c upd nn rec
    by (subst update_ancestors_loop.simps) (simp add: ac_simps del: of_nat_add)
qed

end
