(* ===== verification/Tree_Position.thy ===== *)
theory Tree_Position
  imports Linear_Tree
begin

text \<open>
  Positions in a forest and their place in the layout.  A position is a list of frames,
  innermost first; a frame \<open>(ls, n, rs)\<close> says that the directory \<open>n\<close> stands between the
  siblings \<open>ls\<close> and \<open>rs\<close>.  \<open>plug\<close> rebuilds the forest around the kids of the innermost
  directory.
\<close>

type_synonym frame = "node list \<times> cstring \<times> node list"

fun plug :: "frame list \<Rightarrow> node list \<Rightarrow> node list" where
  "plug [] cs = cs"
| "plug ((ls, n, rs) # fs) cs = plug fs (ls @ Dir n cs # rs)"

fun frames_ok :: "frame list \<Rightarrow> bool" where
  "frames_ok [] \<longleftrightarrow> True"
| "frames_ok ((ls, n, rs) # fs) \<longleftrightarrow> forest_ok ls \<and> name_ok n \<and> forest_ok rs \<and> frames_ok fs"

lemma forest_ok_plug [simp]: "forest_ok (plug fs cs) \<longleftrightarrow> frames_ok fs \<and> forest_ok cs"
  by (induction fs cs rule: plug.induct) auto

lemma plug_eq_Nil [simp]: "plug fs cs = [] \<longleftrightarrow> fs = [] \<and> cs = []"
  by (induction fs cs rule: plug.induct) auto

subsection \<open>Sizes and distances of a frame\<close>

text \<open>
  \<open>fents\<close>: the entries of the level of the frame; \<open>fdist\<close>: from the entry of its directory to
  the block of that directory; \<open>fpar\<close>: the value in the parent tag of a level with \<open>E\<close> bytes
  of entries whose enclosing frames are given.
\<close>

fun fents :: "frame \<Rightarrow> nat" where
  "fents (ls, n, rs) = ents ls + (length n + 5) + ents rs"

fun fdist :: "frame \<Rightarrow> nat" where
  "fdist (ls, n, rs) = (length n + 5) + ents rs + 5 + subs ls"

fun fpar :: "frame list \<Rightarrow> nat \<Rightarrow> nat" where
  "fpar [] E = 0"
| "fpar (f # fs) E = fdist f + E + 1"

text \<open>\<open>zgrow\<close>: the size of the level when the block of its directory has size \<open>g\<close>.\<close>

fun zgrow :: "frame \<Rightarrow> nat \<Rightarrow> nat" where
  "zgrow (ls, n, rs) g = fents (ls, n, rs) + 5 + subs ls + g + subs rs"

text \<open>\<open>zlev\<close>: the bytes before the block of the innermost directory, whose own tag holds \<open>r\<close>; in
  the layout of a forest it holds the distance to the block.\<close>

fun zpre :: "frame list \<Rightarrow> nat \<Rightarrow> byte list"
  and zlev :: "nat \<Rightarrow> frame \<Rightarrow> frame list \<Rightarrow> nat \<Rightarrow> byte list" where
  "zpre [] g = []"
| "zpre ((ls, n, rs) # fs) g = zlev (fdist (ls, n, rs) - length n - 1) (ls, n, rs) fs g"
| "zlev r (ls, n, rs) fs g =
     zpre fs (zgrow (ls, n, rs) g)
     @ enc_ents (fents (ls, n, rs) + 5) ls
     @ dir_ent n r
     @ enc_ents (ents rs + 5 + subs ls + g) rs
     @ marker (fpar fs (fents (ls, n, rs)))
     @ enc_subs (fents (ls, n, rs) + 5) ls"

fun zsuf :: "frame list \<Rightarrow> nat \<Rightarrow> byte list" where
  "zsuf [] g = []"
| "zsuf ((ls, n, rs) # fs) g =
     enc_subs (ents rs + 5 + subs ls + g) rs @ zsuf fs (zgrow (ls, n, rs) g)"

text \<open>\<open>zpos\<close>: where the block starts; \<open>zparent\<close>: where the entry of its directory starts
  (0 for the root), in a region that starts at \<open>hl\<close>.\<close>

fun zpos :: "frame list \<Rightarrow> nat" where
  "zpos [] = 0"
| "zpos ((ls, n, rs) # fs) = zpos fs + fents (ls, n, rs) + 5 + subs ls"

fun zparent :: "nat \<Rightarrow> frame list \<Rightarrow> nat" where
  "zparent hl [] = 0"
| "zparent hl ((ls, n, rs) # fs) = hl + zpos fs + ents ls"

lemma length_zpre [simp]: "length (zpre fs g) = zpos fs"
  and length_zlev [simp]: "length (zlev r f fs g) = zpos (f # fs)"
  by (induction fs g and r f fs g rule: zpre_zlev.induct) auto

text \<open>The parent tag of a level, read back: it stands \<open>E\<close> bytes into the level.\<close>

lemma zparent_tag:
  assumes "fs \<noteq> []"
  shows "hl + zpos fs + E + 1 - fpar fs E = zparent hl fs" "fpar fs E \<le> zpos fs + E + 1"
  using assms by (cases fs rule: zpos.cases; simp)+

lemma fpar_eq_0 [simp]: "fpar fs E = 0 \<longleftrightarrow> fs = []"
  by (cases fs) auto

subsection \<open>The layout of a plugged forest\<close>

lemma ents_append: "ents (xs @ ys) = ents xs + ents ys"
  by simp

text \<open>One level: the bytes of a directory list around the directory \<open>Dir n cs\<close>.\<close>

lemma block_level:
  "block p (ls @ Dir n cs # rs) =
    enc_ents (fents (ls, n, rs) + 5) ls
    @ enc_ent (fdist (ls, n, rs)) (Dir n cs)
    @ enc_ents (ents rs + 5 + subs ls + nsub (Dir n cs)) rs
    @ marker p
    @ enc_subs (fents (ls, n, rs) + 5) ls
    @ enc_node (fdist (ls, n, rs)) (Dir n cs)
    @ enc_subs (ents rs + 5 + subs ls + nsub (Dir n cs)) rs"
proof -
  let ?E = "fents (ls, n, rs)"
  have e: "ents (ls @ Dir n cs # rs) = ?E" by simp
  have d: "?E + 5 - ents ls + subs ls = fdist (ls, n, rs)" by simp
  have r: "fdist (ls, n, rs) - esize (Dir n cs) + nsub (Dir n cs)
      = ents rs + 5 + subs ls + nsub (Dir n cs)" by simp
  have "enc_ents (?E + 5) (ls @ Dir n cs # rs) = enc_ents (?E + 5) ls
      @ enc_ents (?E + 5 - ents ls + subs ls) (Dir n cs # rs)"
    by (rule enc_ents_append) simp
  moreover have "enc_subs (?E + 5) (ls @ Dir n cs # rs) = enc_subs (?E + 5) ls
      @ enc_subs (?E + 5 - ents ls + subs ls) (Dir n cs # rs)"
    by (rule enc_subs_append) simp
  ultimately show ?thesis
    unfolding block_def e d enc_ents.simps enc_subs.simps r by simp
qed

lemma plug_layout:
  "cs \<noteq> [] \<Longrightarrow> enc_root (plug fs cs)
    = zpre fs (ents cs + 5 + subs cs) @ block (fpar fs (ents cs)) cs @ zsuf fs (ents cs + 5 + subs cs)"
proof (induction fs arbitrary: cs)
  case Nil
  then show ?case by (simp add: enc_root_def)
next
  case (Cons f fs)
  obtain ls n rs where f: "f = (ls, n, rs)" by (cases f)
  let ?g = "ents cs + 5 + subs cs" and ?cs = "ls @ Dir n cs # rs"
  have g: "nsub (Dir n cs) = ?g" using Cons.prems by simp
  have z: "ents ?cs + 5 + subs ?cs = zgrow f ?g" "ents ?cs = fents f" using f g by simp_all
  have "enc_root (plug (f # fs) cs) = enc_root (plug fs ?cs)" using f by simp
  also have "\<dots> = zpre fs (zgrow f ?g) @ block (fpar fs (fents f)) ?cs @ zsuf fs (zgrow f ?g)"
    unfolding z[symmetric] by (rule Cons.IH) simp
  also have "\<dots> = zpre (f # fs) ?g @ block (fdist f + ents cs + 1) cs @ zsuf (f # fs) ?g"
    unfolding f block_level g enc_node_Dir using Cons.prems by simp
  finally show ?case by simp
qed

text \<open>The level of the innermost frame, with the entry of its directory in focus.\<close>

lemma plug_layout_level:
  "enc_root (plug fs (ls @ k # rs)) =
     zpre fs (ents (ls @ k # rs) + 5 + subs (ls @ k # rs))
     @ block (fpar fs (ents (ls @ k # rs))) (ls @ k # rs)
     @ zsuf fs (ents (ls @ k # rs) + 5 + subs (ls @ k # rs))"
  by (rule plug_layout) simp

subsection \<open>The size of the whole region\<close>

fun zsize :: "frame list \<Rightarrow> nat \<Rightarrow> nat" where
  "zsize [] g = g"
| "zsize (f # fs) g = zsize fs (zgrow f g)"

lemma zsize_eq: "zsize fs g = zpos fs + g + length (zsuf fs g)"
proof (induction fs arbitrary: g)
  case (Cons f fs)
  obtain ls n rs where "f = (ls, n, rs)" by (cases f)
  then show ?case using Cons.IH by simp
qed simp

lemma length_enc_root: "length (enc_root ks) = (if ks = [] then 0 else ents ks + 5 + subs ks)"
  by (simp add: enc_root_def)

end
