(* ===== verification/Fs_Climb.thy ===== *)
theory Fs_Climb
  imports Fs_Repair Tree_Position
begin

text \<open>
  The climb of \<open>update_offsets\<close> through the ancestors: at every level it repairs the later
  siblings of the directory that changed its size, then follows the parent tag.
\<close>

text \<open>A directory entry with any stored distance, as an entry of the layout.\<close>

lemma dir_ent_enc: "dir_ent n r = enc_ent (r + length n + 1) (Dir n [File [1]])"
  by simp

lemma node_ok_dummy: "node_ok (Dir n [File [1]]) \<longleftrightarrow> name_ok n"
  by (auto simp: name_ok_def)

lemma next_name_dir:
  assumes "head b = A @ dir_ent n r @ C" "name_ok n" "length A = a" "small b"
  shows "next_name b (of_nat a) = Some (of_nat (a + (length n + 5)))"
    and "\<exists>c. rd8 (head b) a = Some c \<and> c \<noteq> 0"
  using next_name_ent[of b A "r + length n + 1" "Dir n [File [1]]" C a]
    rd8_ent[of "Dir n [File [1]]" A a "r + length n + 1" C] assms
  by (simp_all only: dir_ent_enc node_ok_dummy esize.simps)

lemma length_zsuf_indep: "length (zsuf fs g) = length (zsuf fs g')"
  by (induction fs g arbitrary: g' rule: zsuf.induct) auto

lemma zsize_mono: "g \<le> zsize fs g"
proof (induction fs arbitrary: g)
  case (Cons f fs)
  have "g \<le> zgrow f g" by (cases f) simp
  then show ?case using Cons.IH[of "zgrow f g"] by simp
qed simp

text \<open>The bytes of the level of a frame, from its first entry to the end of its blocks.\<close>

fun zlevel :: "nat \<Rightarrow> frame \<Rightarrow> frame list \<Rightarrow> byte list \<Rightarrow> byte list" where
  "zlevel r (ls, n, rs) fs Y =
     enc_ents (fents (ls, n, rs) + 5) ls
     @ dir_ent n r
     @ enc_ents (ents rs + 5 + subs ls + length Y) rs
     @ marker (fpar fs (fents (ls, n, rs)))
     @ enc_subs (fents (ls, n, rs) + 5) ls
     @ Y
     @ enc_subs (ents rs + 5 + subs ls + length Y) rs"

lemma length_zlevel [simp]: "length (zlevel r f fs Y) = zgrow f (length Y)"
  by (cases f) simp

lemma zlevel_fresh:
  "zpre fs (length (zlevel r f fs Y)) @ zlevel r f fs Y @ zsuf fs (length (zlevel r f fs Y)) @ J
    = zlev r f fs (length Y) @ Y @ zsuf (f # fs) (length Y) @ J"
  unfolding length_zlevel by (cases f) simp

text \<open>One level: the later siblings of the directory are repaired.\<close>

lemma update_ancestors_level:
  assumes p: "head b = H @ zlev r f fs g @ Y @ zsuf (f # fs) g @ J" "frames_ok (f # fs)"
    "length H = hl" "0 < hl" "small b" "tail b = of_nat t" "t \<le> length (head b)"
    "t = hl + zpos (f # fs) + length Y + length (zsuf (f # fs) g)"
    "of_nat g + D = (of_nat (length Y) :: u32)" "zsize (f # fs) g < 1073741824"
  shows "update_ancestors_loop D b (of_nat (zparent hl (f # fs))) (of_nat (zparent hl (f # fs)))
    = (let b' = b\<lparr>head := H @ zpre fs (zgrow f g) @ zlevel r f fs Y @ zsuf fs (zgrow f g) @ J\<rparr>
       in if fs = [] then Some b'
          else update_ancestors_loop D b' (of_nat (zparent hl fs)) (of_nat (zparent hl fs)))"
proof -
  obtain ls n rs where f: "f = (ls, n, rs)" by (cases f)
  let ?E = "fents f" and ?par = "hl + zpos fs + ents ls" and ?g' = "zgrow f g"
  let ?d = "ents rs + 5 + subs ls + g" and ?d' = "ents rs + 5 + subs ls + length Y"
  let ?A0 = "H @ zpre fs ?g' @ enc_ents (?E + 5) ls"
  let ?D = "dir_ent n r"
  let ?M = "marker (fpar fs ?E)"
  let ?B = "?M @ enc_subs (?E + 5) ls @ Y"
  let ?C = "zsuf fs ?g' @ J"
  have ok: "forest_ok rs" "name_ok n" "frames_ok fs" using p(2) f by simp_all
  have h: "head b = (?A0 @ ?D) @ enc_ents ?d rs @ ?B @ enc_subs ?d rs @ ?C"
    using p(1) f by simp
  have h0: "head b = ?A0 @ ?D @ (enc_ents ?d rs @ ?B @ enc_subs ?d rs @ ?C)"
    using h by simp
  have lA0: "length ?A0 = ?par" using p(3) by simp
  have lA: "length (?A0 @ ?D) = ?par + (length n + 5)" using p(3) by simp
  have t: "t = hl + zpos fs + (?E + 5 + subs ls + length Y + subs rs) + length (zsuf fs ?g')"
    using p(8) f by simp
  have th: "t \<le> 1073741824" using p(5,7) by linarith
  have E: "?E = ents ls + (length n + 5) + ents rs" using f by simp
  obtain c where c: "rd8 (head b) ?par = Some c" "c \<noteq> 0"
    using next_name_dir(2)[OF h0 ok(2) lA0 p(5)] by blast
  have nn: "next_name b (of_nat ?par) = Some (of_nat (?par + (length n + 5)))"
    by (rule next_name_dir(1)[OF h0 ok(2) lA0 p(5)])
  have lt: "(of_nat ?par :: u32) < tail b" "(of_nat ?par :: u32) \<noteq> 0"
    "unat (of_nat ?par :: u32) = ?par"
    using t th p(4,6) E by (simp_all add: off_simps del: of_nat_add)
  have dsz: "?d + subs rs \<le> zsize fs ?g'"
    using zsize_mono[of ?g' fs] f by simp
  let ?b = "b\<lparr>head := (?A0 @ ?D) @ enc_ents ?d' rs @ ?B @ enc_subs ?d' rs @ ?C\<rparr>"
  let ?m = "?par + (length n + 5) + ents rs"
  have sib: "update_ancestors_loop D b (of_nat ?par) (of_nat (?par + (length n + 5)))
    = update_ancestors_loop D ?b (of_nat ?par) (of_nat ?m)"
    by (rule update_ancestors_loop_ents[OF h ok(1) lA _ p(5) p(6) p(7)])
      (use p t dsz E in \<open>simp_all add: algebra_simps\<close>)
  have first: "update_ancestors_loop D b (of_nat ?par) (of_nat ?par)
    = update_ancestors_loop D ?b (of_nat ?par) (of_nat ?m)"
    using lt c nn sib by (subst update_ancestors_loop.simps) (simp del: of_nat_add)
  have hb: "head ?b = H @ zpre fs ?g' @ zlevel r f fs Y @ zsuf fs ?g' @ J" using f by simp
  have smb: "small ?b" using p(5) h by simp
  have hm: "head ?b = (?A0 @ ?D @ enc_ents ?d' rs) @ ?M @ (enc_subs (?E + 5) ls @ Y @ enc_subs ?d' rs @ ?C)"
    by simp
  have lm: "length (?A0 @ ?D @ enc_ents ?d' rs) = ?m" using lA0 by simp
  have r: "fpar fs ?E < 1073741824"
    using zparent_tag(2)[of fs ?E] t th p(4) by (cases "fs = []") simp_all
  have ml: "(of_nat ?m :: u32) < tail b" "(of_nat ?m :: u32) \<noteq> 0" "unat (of_nat ?m :: u32) = ?m"
    using t th p(4,6) E by (simp_all add: off_simps del: of_nat_add)
  have rm: "rd8 (head ?b) ?m = Some 0" by (rule rd8_marker[OF hm lm])
  have rr: "get_reloff_by_tag ?b (of_nat ?m + 1) = Some (of_nat (fpar fs ?E))"
    using get_reloff_marker[OF hm lm smb r] by simp
  have up: "(of_nat ?m + 1 :: u32) - of_nat (fpar fs ?E) = of_nat (zparent hl fs)"
    "(of_nat (fpar fs ?E) :: u32) \<noteq> 0" if ne: "fs \<noteq> []"
  proof -
    have "(of_nat ?m + 1 :: u32) - of_nat (fpar fs ?E) = of_nat (?m + 1 - fpar fs ?E)"
      using of_nat32_diff[of "fpar fs ?E" "?m + 1"] zparent_tag(2)[OF ne, of ?E] E
      by (simp add: ac_simps)
    also have "?m + 1 - fpar fs ?E = zparent hl fs"
      using zparent_tag(1)[OF ne, of hl ?E] E by (simp add: algebra_simps)
    finally show "(of_nat ?m + 1 :: u32) - of_nat (fpar fs ?E) = of_nat (zparent hl fs)" .
    show "(of_nat (fpar fs ?E) :: u32) \<noteq> 0" using r ne of_nat32_eq_0[of "fpar fs ?E"] by simp
  qed
  have last: "update_ancestors_loop D ?b (of_nat ?par) (of_nat ?m)
    = (if fs = [] then Some ?b
       else update_ancestors_loop D ?b (of_nat (zparent hl fs)) (of_nat (zparent hl fs)))"
    using ml rm rr up by (subst update_ancestors_loop.simps) (simp del: of_nat_add)
  have "b\<lparr>head := H @ zpre fs ?g' @ zlevel r f fs Y @ zsuf fs ?g' @ J\<rparr> = ?b"
    using hb by simp
  then show ?thesis
    using first last f by (simp add: Let_def del: of_nat_add)
qed

lemma update_ancestors_climb_lev:
  assumes "head b = H @ zlev r f fs g @ Y @ zsuf (f # fs) g @ J" "frames_ok (f # fs)"
    and "length H = hl" "0 < hl" and "small b" and "tail b = of_nat t" "t \<le> length (head b)"
    and "t = hl + zpos (f # fs) + length Y + length (zsuf (f # fs) g)"
    and "of_nat g + D = (of_nat (length Y) :: u32)" and "zsize (f # fs) g < 1073741824"
  shows "update_ancestors_loop D b (of_nat (zparent hl (f # fs))) (of_nat (zparent hl (f # fs)))
    = Some (b\<lparr>head := H @ zlev r f fs (length Y) @ Y @ zsuf (f # fs) (length Y) @ J\<rparr>)"
  using assms
proof (induction fs arbitrary: b g Y r f)
  case Nil
  show ?case
    unfolding update_ancestors_level[OF Nil.prems] zlevel_fresh[symmetric]
    by (simp add: Let_def)
next
  case (Cons f1 fs)
  obtain ls n rs where f: "f = (ls, n, rs)" by (cases f)
  note p = Cons.prems
  let ?g = "zgrow f g" and ?Y = "zlevel r f (f1 # fs) Y"
  let ?b = "b\<lparr>head := H @ zpre (f1 # fs) ?g @ ?Y @ zsuf (f1 # fs) ?g @ J\<rparr>"
  obtain r1 where z: "zpre (f1 # fs) g' = zlev r1 f1 fs g'" for g'
    by (cases f1) simp
  have hb: "head ?b = H @ zlev r1 f1 fs ?g @ ?Y @ zsuf (f1 # fs) ?g @ J" using z by simp
  have len: "length (head ?b) = length (head b)" using p(1) f by simp
  have "update_ancestors_loop D ?b (of_nat (zparent hl (f1 # fs))) (of_nat (zparent hl (f1 # fs)))
      = Some (?b\<lparr>head := H @ zlev r1 f1 fs (length ?Y) @ ?Y @ zsuf (f1 # fs) (length ?Y) @ J\<rparr>)"
  proof (rule Cons.IH[OF hb])
    show "of_nat ?g + D = (of_nat (length ?Y) :: u32)"
      using p(9) f by (simp add: algebra_simps)
    show "t \<le> length (head ?b)" using p(7) len by simp
    show "small ?b" using p(5) len by simp
    show "t = hl + zpos (f1 # fs) + length ?Y + length (zsuf (f1 # fs) ?g)"
      using p(8) f by simp
  qed (use p f in \<open>simp_all\<close>)
  then show ?case
    unfolding update_ancestors_level[OF p] zlevel_fresh[symmetric] z
    by (simp add: Let_def)
qed

lemma update_ancestors_climb:
  assumes p: "head b = H @ zpre fs g @ Y @ zsuf fs g @ J" "frames_ok fs"
    and "length H = hl" "0 < hl" and "small b" and "tail b = of_nat t" "t \<le> length (head b)"
    and "t = hl + zpos fs + length Y + length (zsuf fs g)"
    and "of_nat g + D = (of_nat (length Y) :: u32)" and "zsize fs g < 1073741824"
  shows "update_ancestors_loop D b (of_nat (zparent hl fs)) (of_nat (zparent hl fs))
    = Some (b\<lparr>head := H @ zpre fs (length Y) @ Y @ zsuf fs (length Y) @ J\<rparr>)"
proof (cases fs)
  case Nil
  then show ?thesis using p(1) by (subst update_ancestors_loop.simps) simp
next
  case (Cons f fs')
  obtain r where z: "zpre (f # fs') g' = zlev r f fs' g'" for g' by (cases f) simp
  show ?thesis
    using update_ancestors_climb_lev[of b H r f fs' g Y J hl t D] assms
    unfolding Cons z by blast
qed

end
