(* ===== verification/Fs_Region.thy ===== *)
theory Fs_Region
  imports Fs_Climb
begin

text \<open>
  A buffer that holds the layout of a forest, and what each reader of \<open>fs_buf.c\<close> returns at
  a position of that forest.  \<open>hl\<close> is the offset of the first name.
\<close>

definition region :: "fs_buf \<Rightarrow> nat \<Rightarrow> node list \<Rightarrow> bool" where
  "region b hl ks \<longleftrightarrow> 0 < hl \<and> forest_ok ks \<and> small b
     \<and> get_bytes (head b) hl (length (enc_root ks)) = Some (enc_root ks)
     \<and> tail b = of_nat (hl + length (enc_root ks))"

lemma get_bytes_Some:
  "get_bytes m a n = Some bs \<longleftrightarrow> (\<exists>H J. m = H @ bs @ J \<and> length H = a \<and> length bs = n)"
proof
  assume g: "get_bytes m a n = Some bs"
  then have "a + n \<le> length m" and bs: "bs = take n (drop a m)"
    by (auto simp: get_bytes_def split: if_splits)
  moreover have "m = take a m @ take n (drop a m) @ drop n (drop a m)"
    by (simp only: append_take_drop_id)
  ultimately show "\<exists>H J. m = H @ bs @ J \<and> length H = a \<and> length bs = n"
    by (intro exI[of _ "take a m"] exI[of _ "drop n (drop a m)"]) auto
qed (auto simp: get_bytes_split)

lemma region_iff:
  "region b hl ks \<longleftrightarrow> (\<exists>H J. head b = H @ enc_root ks @ J \<and> length H = hl)
     \<and> 0 < hl \<and> forest_ok ks \<and> small b \<and> tail b = of_nat (hl + length (enc_root ks))"
  by (auto simp: region_def get_bytes_Some)

lemma of_nat32_neq_0: "0 < n \<Longrightarrow> n < 4294967296 \<Longrightarrow> (of_nat n :: u32) \<noteq> 0"
  by (simp add: of_nat32_eq_0)

lemma regionE:
  assumes "region b hl ks"
  obtains H J where "head b = H @ enc_root ks @ J" "length H = hl" "0 < hl" "forest_ok ks"
    "small b" "tail b = of_nat (hl + length (enc_root ks))"
    "hl + length (enc_root ks) \<le> length (head b)"
  using assms by (auto simp: region_iff)

subsection \<open>A level of the tree in the buffer\<close>

text \<open>\<open>epos\<close>: the offset of the entry after \<open>ls\<close> in the level with the frames \<open>fs\<close>.\<close>

abbreviation epos :: "nat \<Rightarrow> frame list \<Rightarrow> node list \<Rightarrow> nat" where
  "epos hl fs ls \<equiv> hl + zpos fs + ents ls"

abbreviation kdist :: "node list \<Rightarrow> node \<Rightarrow> node list \<Rightarrow> nat" where
  "kdist ls k rs \<equiv> esize k + ents rs + 5 + subs ls"

lemma block_split:
  "block p (ls @ rs) = enc_ents (ents (ls @ rs) + 5) ls @ enc_ents (ents rs + 5 + subs ls) rs
     @ marker p @ enc_subs (ents (ls @ rs) + 5) ls @ enc_subs (ents rs + 5 + subs ls) rs"
proof -
  let ?e = "ents (ls @ rs) + 5"
  have d: "?e - ents ls + subs ls = ents rs + 5 + subs ls" by simp
  have "enc_ents ?e (ls @ rs) = enc_ents ?e ls @ enc_ents (?e - ents ls + subs ls) rs"
    by (rule enc_ents_append) simp
  moreover have "enc_subs ?e (ls @ rs) = enc_subs ?e ls @ enc_subs (?e - ents ls + subs ls) rs"
    by (rule enc_subs_append) simp
  ultimately show ?thesis unfolding block_def d by simp
qed

lemma region_size:
  assumes "ks \<noteq> []"
  shows "length (enc_root (plug fs ks)) = zpos fs + (ents ks + 5 + subs ks)
     + length (zsuf fs (ents ks + 5 + subs ks))"
  using plug_layout[OF assms, of fs] by simp

lemma region_level:
  assumes r: "region b hl (plug fs (ls @ rs))" and ne: "ls @ rs \<noteq> []"
  obtains A C where
    "head b = A @ enc_ents (ents rs + 5 + subs ls) rs @ marker (fpar fs (ents (ls @ rs)))
       @ enc_subs (ents (ls @ rs) + 5) ls @ enc_subs (ents rs + 5 + subs ls) rs @ C"
    "length A = epos hl fs ls"
    "epos hl fs ls + ents rs + 5 + subs ls + subs rs \<le> hl + length (enc_root (plug fs (ls @ rs)))"
proof -
  obtain H J where H: "head b = H @ enc_root (plug fs (ls @ rs)) @ J" "length H = hl"
    using r by (rule regionE)
  let ?g = "ents (ls @ rs) + 5 + subs (ls @ rs)"
  let ?A = "H @ zpre fs ?g @ enc_ents (ents (ls @ rs) + 5) ls"
  have "head b = ?A @ enc_ents (ents rs + 5 + subs ls) rs @ marker (fpar fs (ents (ls @ rs)))
       @ enc_subs (ents (ls @ rs) + 5) ls @ enc_subs (ents rs + 5 + subs ls) rs @ (zsuf fs ?g @ J)"
    using H(1) unfolding plug_layout[OF ne] block_split by simp
  moreover have "length ?A = epos hl fs ls" using H(2) by simp
  moreover have "epos hl fs ls + ents rs + 5 + subs ls + subs rs
      \<le> hl + length (enc_root (plug fs (ls @ rs)))"
    using region_size[OF ne, of fs] by simp
  ultimately show ?thesis using that by blast
qed

lemma region_entry:
  assumes r: "region b hl (plug fs (ls @ k # rs))"
  obtains A C where "head b = A @ enc_ent (kdist ls k rs) k @ C" "length A = epos hl fs ls"
    "node_ok k" "small b" "epos hl fs ls + kdist ls k rs + nsub k \<le> hl + length (enc_root (plug fs (ls @ k # rs)))"
proof -
  obtain A C where A: "head b = A @ enc_ents (ents (k # rs) + 5 + subs ls) (k # rs) @ C"
    "length A = epos hl fs ls"
    "epos hl fs ls + ents (k # rs) + 5 + subs ls + subs (k # rs) \<le> hl + length (enc_root (plug fs (ls @ k # rs)))"
    using region_level[OF r] by blast
  have "node_ok k" "small b" using r by (auto simp: region_def)
  moreover have "head b = A @ enc_ent (kdist ls k rs) k
      @ (enc_ents (kdist ls k rs - esize k + nsub k) rs @ C)"
    using A(1) by (simp add: ac_simps)
  moreover have "epos hl fs ls + kdist ls k rs + nsub k
      \<le> hl + length (enc_root (plug fs (ls @ k # rs)))"
    using A(3) by simp
  ultimately show ?thesis using that A(2) by blast
qed

text \<open>Every offset up to the tail is small, so comparisons with the tail are comparisons of
  natural numbers.\<close>

lemma region_lt_tail:
  assumes "region b hl ks" "a < hl + length (enc_root ks)"
  shows "(of_nat a :: u32) < tail b" "unat (of_nat a :: u32) = a" "a < 1073741824"
  using assms by (auto elim!: regionE simp: off_simps simp del: of_nat_add)

lemma region_at_tail:
  assumes "region b hl ks"
  shows "tail b = of_nat (hl + length (enc_root ks))" "hl + length (enc_root ks) \<le> 1073741824"
  using assms by (auto elim!: regionE)

subsection \<open>The readers at an entry\<close>

lemma region_next_name [entry_simps]:
  assumes "region b hl (plug fs (ls @ k # rs))"
  shows "next_name b (of_nat (epos hl fs ls)) = Some (of_nat (epos hl fs (ls @ [k])))"
proof -
  obtain A C where e: "head b = A @ enc_ent (kdist ls k rs) k @ C" "length A = epos hl fs ls"
    "node_ok k" "small b" using assms by (rule region_entry)
  show ?thesis using next_name_ent[OF e(1,3,2,4)] by (simp add: ac_simps del: of_nat_add)
qed

lemma region_cstr_at [entry_simps]:
  assumes "region b hl (plug fs (ls @ k # rs))"
  shows "cstr_at (head b) (epos hl fs ls) = Some (nname k)"
  using assms by (rule region_entry) (simp add: cstr_at_ent)

lemma region_rd8_ent:
  assumes "region b hl (plug fs (ls @ k # rs))"
  shows "\<exists>c. rd8 (head b) (epos hl fs ls) = Some c \<and> c \<noteq> 0"
  using assms by (rule region_entry) (simp add: rd8_ent)

lemma region_is_file [entry_simps]:
  assumes "region b hl (plug fs (ls @ k # rs))"
  shows "do_is_file b (of_nat (epos hl fs ls)) = Some (is_File k)"
proof -
  obtain A C where e: "head b = A @ enc_ent (kdist ls k rs) k @ C" "length A = epos hl fs ls"
    "node_ok k" "small b" using assms by (rule region_entry)
  show ?thesis by (rule do_is_file_ent[OF e(1,3,2,4)])
qed

lemma region_get_kids [entry_simps]:
  assumes r: "region b hl (plug fs (ls @ k # rs))"
  shows "get_kids_offset b (of_nat (epos hl fs ls))
    = Some (if has_kids k then of_nat (hl + zpos ((ls, nname k, rs) # fs)) else 0)"
proof -
  obtain A C where e: "head b = A @ enc_ent (kdist ls k rs) k @ C" "length A = epos hl fs ls"
    "node_ok k" "small b"
    and le: "epos hl fs ls + kdist ls k rs + nsub k \<le> hl + length (enc_root (plug fs (ls @ k # rs)))"
    using r by (rule region_entry)
  have "0 < epos hl fs ls" using r by (simp add: region_def)
  then have "kdist ls k rs < 1073741824"
    using le region_at_tail(2)[OF r] by linarith
  then have "get_kids_offset b (of_nat (epos hl fs ls))
      = Some (if has_kids k then of_nat (epos hl fs ls + kdist ls k rs) else 0)"
    by (intro get_kids_offset_ent[OF e(1,3,2,4)]) simp_all
  moreover have "epos hl fs ls + kdist ls k rs = hl + zpos ((ls, nname k, rs) # fs)" if "has_kids k"
    using that by (cases k) (simp_all add: algebra_simps)
  ultimately show ?thesis by (cases "has_kids k") (simp_all only: if_True if_False simp_thms)
qed

subsection \<open>The readers at a parent tag\<close>

lemma region_level_end:
  assumes r: "region b hl (plug fs ks)" and ne: "ks \<noteq> []"
  shows "rd8 (head b) (epos hl fs ks) = Some 0"
    and "get_reloff_by_tag b (of_nat (epos hl fs ks + 1)) = Some (of_nat (fpar fs (ents ks)))"
    and "fpar fs (ents ks) < 1073741824"
    and "epos hl fs ks + 5 \<le> hl + length (enc_root (plug fs ks))"
proof -
  obtain A C where A: "head b = A @ marker (fpar fs (ents ks)) @ C" "length A = epos hl fs ks"
    and le: "epos hl fs ks + 5 + subs ks \<le> hl + length (enc_root (plug fs ks))"
  proof -
    obtain A C where "head b = A @ enc_ents (ents [] + 5 + subs ks) [] @ marker (fpar fs (ents (ks @ [])))
        @ enc_subs (ents (ks @ []) + 5) ks @ enc_subs (ents [] + 5 + subs ks) [] @ C"
      "length A = epos hl fs ks"
      "epos hl fs ks + ents [] + 5 + subs ks + subs [] \<le> hl + length (enc_root (plug fs (ks @ [])))"
      using region_level[of b hl fs ks "[]"] r ne by (metis append_Nil2)
    then show ?thesis using that[of A "enc_subs (ents ks + 5) ks @ C"] by simp
  qed
  show "rd8 (head b) (epos hl fs ks) = Some 0" by (rule rd8_marker[OF A])
  show f: "fpar fs (ents ks) < 1073741824"
    using zparent_tag(2)[of fs "ents ks"] le region_at_tail(2)[OF r]
    by (cases "fs = []") simp_all
  have "small b" using r by (simp add: region_def)
  then show "get_reloff_by_tag b (of_nat (epos hl fs ks + 1)) = Some (of_nat (fpar fs (ents ks)))"
    by (rule get_reloff_marker[OF A _ f])
  show "epos hl fs ks + 5 \<le> hl + length (enc_root (plug fs ks))" using le by simp
qed

lemma region_climb:
  assumes r: "region b hl (plug fs ks)" and ne: "ks \<noteq> []" and fs: "fs \<noteq> []"
  shows "(of_nat (fpar fs (ents ks)) :: u32) \<noteq> 0"
    and "of_nat (epos hl fs ks) + 1 - of_nat (fpar fs (ents ks)) = (of_nat (zparent hl fs) :: u32)"
proof -
  show "(of_nat (fpar fs (ents ks)) :: u32) \<noteq> 0"
    using region_level_end(3)[OF r ne] fs of_nat32_eq_0[of "fpar fs (ents ks)"] by simp
  have le: "fpar fs (ents ks) \<le> epos hl fs ks + 1"
    using zparent_tag(2)[OF fs, of "ents ks"] by simp
  have "epos hl fs ks + 1 - fpar fs (ents ks) = zparent hl fs"
    using zparent_tag(1)[OF fs] by blast
  then show "of_nat (epos hl fs ks) + 1 - of_nat (fpar fs (ents ks)) = (of_nat (zparent hl fs) :: u32)"
    using of_nat32_diff[OF le] by (simp add: ac_simps)
qed

lemma region_folder_tail:
  assumes r: "region b hl (plug fs (ls @ rs))" and ne: "ls @ rs \<noteq> []"
  shows "get_folder_tail_offset b (of_nat (epos hl fs ls)) = Some (of_nat (epos hl fs (ls @ rs)))"
proof -
  obtain A C where A:
    "head b = A @ enc_ents (ents rs + 5 + subs ls) rs @ marker (fpar fs (ents (ls @ rs)))
       @ (enc_subs (ents (ls @ rs) + 5) ls @ enc_subs (ents rs + 5 + subs ls) rs @ C)"
    "length A = epos hl fs ls"
    "epos hl fs ls + ents rs + 5 + subs ls + subs rs \<le> hl + length (enc_root (plug fs (ls @ rs)))"
    using region_level[OF r ne] by blast
  have "forest_ok rs" "small b" using r by (auto simp: region_def)
  moreover obtain H J where t: "tail b = of_nat (hl + length (enc_root (plug fs (ls @ rs))))"
    "hl + length (enc_root (plug fs (ls @ rs))) \<le> length (head b)"
    using r by (rule regionE)
  moreover have "epos hl fs ls + ents rs < hl + length (enc_root (plug fs (ls @ rs)))"
    using A(3) by linarith
  ultimately have "get_folder_tail_offset b (of_nat (epos hl fs ls))
      = Some (of_nat (epos hl fs ls + ents rs))"
    using A(2) by (intro get_folder_tail_offset_ents[OF A(1)])
  then show ?thesis by (simp add: ac_simps del: of_nat_add)
qed

lemma zparent_less_zpos: "fs \<noteq> [] \<Longrightarrow> 0 < hl \<Longrightarrow> 0 < zparent hl fs"
  by (cases fs rule: zpos.cases) auto

lemma region_get_parent [entry_simps]:
  assumes r: "region b hl (plug fs (ls @ rs))" and ne: "ls @ rs \<noteq> []"
  shows "get_parent_offset b (of_nat (epos hl fs ls)) = Some (of_nat (zparent hl fs))"
proof -
  let ?m = "epos hl fs (ls @ rs)"
  have e: "rd8 (head b) ?m = Some 0"
    "get_reloff_by_tag b (of_nat (?m + 1)) = Some (of_nat (fpar fs (ents (ls @ rs))))"
    "?m + 5 \<le> hl + length (enc_root (plug fs (ls @ rs)))"
    using region_level_end[OF r ne] by blast+
  have "0 < ?m" using r by (simp add: region_def)
  moreover have "?m < 4294967296" using e(3) region_at_tail(2)[OF r] by linarith
  ultimately have "(of_nat ?m :: u32) \<noteq> 0" by (rule of_nat32_neq_0)
  then show ?thesis
    using region_folder_tail[OF r ne] e(2) region_climb[OF r ne]
    by (cases "fs = []") (simp_all add: get_parent_offset_def ac_simps)
qed

text \<open>A position with a frame, seen as an entry of the enclosing level.\<close>

lemma region_frame:
  "region b hl (plug ((ls, n, rs) # fs) ks) = region b hl (plug fs (ls @ Dir n ks # rs))"
  by simp

lemma region_1st_sibling [entry_simps]:
  assumes r: "region b hl (plug fs (ls @ rs))" and ne: "ls @ rs \<noteq> []"
    and f: "first_name_off b = of_nat hl"
  shows "get_1st_sibling_offset b (of_nat (epos hl fs ls)) = Some (of_nat (hl + zpos fs))"
proof (cases fs)
  case Nil
  then show ?thesis
    using region_get_parent[OF r ne] f by (simp add: get_1st_sibling_offset_def)
next
  case (Cons fr fs')
  then obtain ls' n rs' where fs: "fs = (ls', n, rs') # fs'" by (cases fr) auto
  have r': "region b hl (plug fs' (ls' @ Dir n (ls @ rs) # rs'))" using r fs by simp
  have "0 < zparent hl fs" using zparent_less_zpos fs r by (simp add: region_def)
  moreover have "zparent hl fs = epos hl fs' ls'" using fs by simp
  moreover have "epos hl fs' ls' < 4294967296"
  proof -
    have "epos hl fs' (ls' @ Dir n (ls @ rs) # rs') + 5 \<le> 1073741824"
      using region_level_end(4)[OF r'] region_at_tail(2)[OF r'] by simp
    then show ?thesis by simp
  qed
  ultimately have "(of_nat (zparent hl fs) :: u32) \<noteq> 0" by (metis of_nat32_neq_0)
  moreover have "get_kids_offset b (of_nat (zparent hl fs)) = Some (of_nat (hl + zpos fs))"
    using region_get_kids[OF r'] ne fs by (simp del: of_nat_add)
  ultimately show ?thesis
    using region_get_parent[OF r ne] by (simp add: get_1st_sibling_offset_def)
qed

end
