(* ===== verification/Tree_Paths.thy ===== *)
theory Tree_Paths
  imports Tree_Position
begin

text \<open>
  Paths as lists of components, the search for a path in a forest, and the changes of a
  forest at a path: the abstract operations that \<open>insert_path\<close>, \<open>remove_path\<close> and
  \<open>rename_path\<close> implement.
\<close>

subsection \<open>Components of a path\<close>

fun split_slash :: "cstring \<Rightarrow> cstring list" where
  "split_slash [] = [[]]"
| "split_slash (c # cs) =
     (if c = slash then [] # split_slash cs
      else (case split_slash cs of [] \<Rightarrow> [[c]] | x # xs \<Rightarrow> (c # x) # xs))"

fun join_slash :: "cstring list \<Rightarrow> cstring" where
  "join_slash [] = []"
| "join_slash [x] = x"
| "join_slash (x # y # xs) = x @ slash # join_slash (y # xs)"

lemma split_slash_not_Nil [simp]: "split_slash p \<noteq> []"
  by (cases p) (auto split: list.splits)

lemma split_slash_no_slash: "slash \<notin> set x \<Longrightarrow> split_slash x = [x]"
  by (induction x) auto

lemma split_slash_append: "slash \<notin> set x \<Longrightarrow> split_slash (x @ slash # p) = x # split_slash p"
  by (induction x) auto

lemma split_slash_snoc_slash: "split_slash (p @ [slash]) = split_slash p @ [[]]"
proof (induction p)
  case (Cons c p)
  then show ?case by (cases "split_slash p") auto
qed simp

lemma split_slash_eqD:
  assumes "split_slash p = x # xs"
  shows "slash \<notin> set x" and "(xs = [] \<and> p = x) \<or> (\<exists>q. p = x @ slash # q \<and> split_slash q = xs \<and> xs \<noteq> [])"
  using assms
proof (induction p arbitrary: x xs)
  case Nil
  { case 1 then show ?case by simp
  next case 2 then show ?case by simp }
next
  case (Cons c p)
  obtain y ys where p: "split_slash p = y # ys" by (cases "split_slash p") auto
  { case 1
    then show ?case using Cons.IH(1)[OF p] p by (auto split: if_splits)
  next
    case 2
    show ?case
    proof (cases "c = slash")
      case True
      with 2 have "x = []" "xs = split_slash p" by simp_all
      then show ?thesis using True by (intro disjI2 exI[of _ p]) simp
    next
      case False
      with 2 p have "x = c # y" "xs = ys" by simp_all
      then show ?thesis using Cons.IH(2)[OF p] by auto
    qed }
qed

lemma split_join:
  assumes "cs \<noteq> []" "\<forall>c\<in>set cs. slash \<notin> set c"
  shows "split_slash (join_slash cs) = cs"
  using assms by (induction cs rule: join_slash.induct)
    (auto simp: split_slash_no_slash split_slash_append)

lemma is_cstr_join: "\<forall>c\<in>set cs. is_cstr c \<Longrightarrow> is_cstr (join_slash cs)"
  by (induction cs rule: join_slash.induct) (auto simp: is_cstr_def)

lemma join_slash_snoc: "cs \<noteq> [] \<Longrightarrow> join_slash (cs @ [c]) = join_slash cs @ slash # c"
  by (induction cs rule: join_slash.induct) auto

subsection \<open>Search\<close>

text \<open>
  A location: the frames of its directory, the siblings before it, the node, the siblings
  after it.  \<open>locate fs ls rs cs\<close> searches the components \<open>cs\<close> among \<open>rs\<close>.
\<close>

type_synonym loc = "frame list \<times> node list \<times> node \<times> node list"

function locate :: "frame list \<Rightarrow> node list \<Rightarrow> node list \<Rightarrow> cstring list \<Rightarrow> loc option" where
  "locate fs ls rs [] = None"
| "locate fs ls [] (c # cs) = None"
| "locate fs ls (k # rs) (c # cs) =
     (if nname k = c then
        (if cs = [] then Some (fs, ls, k, rs)
         else (case k of File n \<Rightarrow> None
               | Dir n ks \<Rightarrow> locate ((ls, n, rs) # fs) [] ks cs))
      else locate fs (ls @ [k]) rs (c # cs))"
  by pat_completeness auto
termination
  by (relation "measures [\<lambda>(fs, ls, rs, cs). length cs, \<lambda>(fs, ls, rs, cs). length rs]") auto

definition lookup :: "node list \<Rightarrow> cstring list \<Rightarrow> loc option" where
  "lookup ks cs = locate [] [] ks cs"

fun loc_forest :: "loc \<Rightarrow> node list" where
  "loc_forest (fs, ls, k, rs) = plug fs (ls @ k # rs)"

fun loc_node :: "loc \<Rightarrow> node" where
  "loc_node (fs, ls, k, rs) = k"

fun frame_names :: "frame list \<Rightarrow> cstring list" where
  "frame_names [] = []"
| "frame_names ((ls, n, rs) # fs) = frame_names fs @ [n]"

fun loc_names :: "loc \<Rightarrow> cstring list" where
  "loc_names (fs, ls, k, rs) = frame_names fs @ [nname k]"

lemma locate_sound:
  assumes "locate fs ls rs cs = Some l"
  shows "loc_forest l = plug fs (ls @ rs)" and "loc_names l = frame_names fs @ cs"
  using assms
  by (induction fs ls rs cs rule: locate.induct) (auto split: if_splits node.splits)

lemma lookup_sound:
  assumes "lookup ks cs = Some l"
  shows "loc_forest l = ks" and "loc_names l = cs"
  using locate_sound[of "[]" "[]" ks cs l] assms by (simp_all add: lookup_def)

text \<open>The first location with given names is the one found when no earlier sibling shares a name.\<close>

fun frames_first :: "frame list \<Rightarrow> bool" where
  "frames_first [] \<longleftrightarrow> True"
| "frames_first ((ls, n, rs) # fs) \<longleftrightarrow> n \<notin> nname ` set ls \<and> frames_first fs"

fun loc_first :: "loc \<Rightarrow> bool" where
  "loc_first (fs, ls, k, rs) \<longleftrightarrow> nname k \<notin> nname ` set ls \<and> frames_first fs"

lemma locate_skip:
  "c \<notin> nname ` set ls' \<Longrightarrow> locate fs ls (ls' @ rs) (c # cs) = locate fs (ls @ ls') rs (c # cs)"
  by (induction ls' arbitrary: ls) auto

lemma locate_plug:
  assumes "frames_first fs" "cs \<noteq> []"
  shows "locate [] [] (plug fs ks) (frame_names fs @ cs) = locate fs [] ks cs"
  using assms
proof (induction fs arbitrary: ks cs)
  case (Cons f fs)
  obtain ls n rs where f: "f = (ls, n, rs)" by (cases f)
  have "locate [] [] (plug (f # fs) ks) (frame_names (f # fs) @ cs)
      = locate fs [] (ls @ Dir n ks # rs) (n # cs)"
    using Cons.IH[of "n # cs" "ls @ Dir n ks # rs"] Cons.prems f by simp
  also have "\<dots> = locate fs ls (Dir n ks # rs) (n # cs)"
    using Cons.prems f by (subst locate_skip) auto
  finally show ?case using Cons.prems f by simp
qed simp

lemma lookup_complete:
  assumes "loc_first l"
  shows "lookup (loc_forest l) (loc_names l) = Some l"
proof -
  obtain fs ls k rs where l: "l = (fs, ls, k, rs)" by (cases l)
  then show ?thesis
    using locate_plug[of fs "[nname k]" "ls @ k # rs"] locate_skip[of "nname k" ls fs "[]" "k # rs" "[]"] assms
    by (simp add: lookup_def)
qed

lemma locate_first:
  assumes "locate fs ls rs cs = Some l" "frames_first fs" "cs = c # cs'" "c \<notin> nname ` set ls"
  shows "loc_first l"
  using assms
proof (induction fs ls rs cs arbitrary: c cs' rule: locate.induct)
  case (3 fs ls k rs c0 cs0)
  then show ?case
    by (cases cs0; cases k) (auto split: if_splits)
qed simp_all

lemma lookup_first: "lookup ks cs = Some l \<Longrightarrow> loc_first l"
  unfolding lookup_def by (cases cs) (auto intro: locate_first)

end
