(* ===== verification/Fs_Lookup.thy ===== *)
theory Fs_Lookup
  imports Fs_Region Tree_Paths
begin

text \<open>
  The searches of \<open>fs_buf.c\<close> on a buffer that holds a forest: the loop of
  \<open>do_get_path_offset\<close> is \<open>locate\<close>, \<open>get_insert_offset\<close> is the place of the (empty) block of
  a folder, \<open>get_tree_end_offset\<close> is the end of a block, and \<open>do_get_path_by_name_off\<close> writes
  the components of a location.
\<close>

fun loc_off :: "nat \<Rightarrow> loc \<Rightarrow> nat" where
  "loc_off hl (fs, ls, k, rs) = epos hl fs ls"

definition loc_res :: "nat \<Rightarrow> loc option \<Rightarrow> u32" where
  "loc_res hl l = (case l of None \<Rightarrow> 0 | Some l \<Rightarrow> of_nat (loc_off hl l))"

subsection \<open>The path loop\<close>

text \<open>The test of the loop: the first component of the rest of the path is the name.\<close>

lemma strstr_self_append: "strstr (n @ p) n = Some 0"
  by (simp add: strstr_prefix)

lemma path_match:
  assumes p: "split_slash p = c # cs" "is_cstr p" and n: "name_ok n"
  shows "strstr p n = Some 0 \<and> (cchar p (length n) = 0 \<or> cchar p (length n) = slash) \<longleftrightarrow> c = n"
    and "c = n \<Longrightarrow> cchar p (length n) = 0 \<longleftrightarrow> cs = []"
    and "c = n \<Longrightarrow> cs \<noteq> [] \<Longrightarrow> split_slash (drop (length n + 1) p) = cs \<and> is_cstr (drop (length n + 1) p)"
proof -
  have sl: "slash \<notin> set c" "slash \<notin> set n" using split_slash_eqD(1)[OF p(1)] n by (simp_all add: name_ok_def)
  consider "cs = []" "p = c" | q where "cs \<noteq> []" "p = c @ slash # q" "split_slash q = cs"
    using split_slash_eqD(2)[OF p(1)] by blast
  note shape = this
  show "c = n \<Longrightarrow> cchar p (length n) = 0 \<longleftrightarrow> cs = []"
    by (cases rule: shape) (auto simp: cchar_def)
  show "c = n \<Longrightarrow> cs \<noteq> [] \<Longrightarrow> split_slash (drop (length n + 1) p) = cs \<and> is_cstr (drop (length n + 1) p)"
    using p(2) by (cases rule: shape) (auto simp: is_cstr_def)
  have fwd: "c = n" if m: "take (length n) p = n" "cchar p (length n) = 0 \<or> cchar p (length n) = slash"
  proof -
    have pn: "p = n @ drop (length n) p" using m(1) by (metis append_take_drop_id)
    show ?thesis
    proof (cases "drop (length n) p")
      case Nil
      then have "p = n" using pn by simp
      then show ?thesis using split_slash_no_slash[OF sl(2)] p(1) by simp
    next
      case (Cons y ys)
      then have "length n < length p" by (metis drop_eq_Nil list.distinct(1) not_less)
      moreover have "p ! length n = y" using Cons calculation by (metis nth_via_drop)
      ultimately have "y = 0 \<or> y = slash" using m(2) by (simp add: cchar_def)
      moreover have "y \<in> set p" using \<open>p ! length n = y\<close> \<open>length n < length p\<close> nth_mem by blast
      ultimately have "y = slash" using p(2) by (auto simp: is_cstr_def)
      then have "p = n @ slash # ys" using pn Cons by simp
      then show ?thesis using split_slash_append[OF sl(2)] p(1) by simp
    qed
  qed
  show "strstr p n = Some 0 \<and> (cchar p (length n) = 0 \<or> cchar p (length n) = slash) \<longleftrightarrow> c = n"
  proof
    assume "strstr p n = Some 0 \<and> (cchar p (length n) = 0 \<or> cchar p (length n) = slash)"
    then show "c = n" using fwd by (simp add: strstr_prefix)
  next
    assume c: "c = n"
    show "strstr p n = Some 0 \<and> (cchar p (length n) = 0 \<or> cchar p (length n) = slash)"
    proof (cases rule: shape)
      case 1 then show ?thesis using c by (simp add: strstr_prefix cchar_def)
    next
      case (2 q) then show ?thesis using c by (simp add: strstr_prefix cchar_def)
    qed
  qed
qed

lemma path_offset_loop_locate:
  assumes "region b hl (plug fs (ls @ rs))" "ls @ rs \<noteq> []" "is_cstr p" "split_slash p = cs"
  shows "path_offset_loop b (of_nat (epos hl fs ls)) p = Some (loc_res hl (locate fs ls rs cs))"
  using assms
proof (induction fs ls rs cs arbitrary: p rule: locate.induct)
  case (1 fs ls rs)
  then show ?case by simp
next
  case (2 fs ls c cs)
  have r: "region b hl (plug fs ls)" "ls \<noteq> []" using 2 by simp_all
  have e: "epos hl fs ls < hl + length (enc_root (plug fs ls))"
    using region_level_end(4)[OF r] by linarith
  show ?case
    using region_lt_tail[OF r(1) e] region_level_end(1)[OF r]
    by (subst path_offset_loop.simps) (simp add: loc_res_def del: of_nat_add)
next
  case (3 fs ls k rs c cs)
  note r = 3(3)
  have e: "epos hl fs ls < hl + length (enc_root (plug fs (ls @ k # rs)))"
    using r by (rule region_entry) (use esize_pos[of k] in linarith)
  note lt = region_lt_tail[OF r e]
  obtain ch where ch: "rd8 (head b) (epos hl fs ls) = Some ch" "ch \<noteq> 0"
    using region_rd8_ent[OF r] by blast
  have nk: "name_ok (nname k)" using r by (auto simp: region_def name_ok_nname)
  note m = path_match[OF 3(6) 3(5) nk]
  show ?case
  proof (cases "c = nname k")
    case False
    have r': "region b hl (plug fs ((ls @ [k]) @ rs))" using r by simp
    have "path_offset_loop b (of_nat (epos hl fs (ls @ [k]))) p
        = Some (loc_res hl (locate fs (ls @ [k]) rs (c # cs)))"
      using 3(2)[OF _ r' _ 3(5) 3(6)] False by simp
    then show ?thesis
      using lt ch m(1) False region_cstr_at[OF r] region_next_name[OF r]
      by (subst path_offset_loop.simps) (auto simp: Let_def simp del: of_nat_add)
  next
    case True
    note hit = m(1)[THEN iffD2, OF True] m(2)[OF True] m(3)[OF True]
    show ?thesis
    proof (cases "cs = []")
      case True
      then show ?thesis
        using lt ch hit region_cstr_at[OF r] \<open>c = nname k\<close>
        by (subst path_offset_loop.simps) (simp add: Let_def loc_res_def del: of_nat_add)
    next
      case ne: False
      let ?p = "drop (length (nname k) + 1) p"
      have step: "path_offset_loop b (of_nat (epos hl fs ls)) p
        = (let ko = (if has_kids k then of_nat (hl + zpos ((ls, nname k, rs) # fs)) else 0)
           in if ko = 0 then Some 0 else path_offset_loop b ko ?p)"
        using lt ch hit ne region_cstr_at[OF r] region_get_kids[OF r]
        by (subst path_offset_loop.simps) (simp add: Let_def del: of_nat_add zpos.simps)
      show ?thesis
      proof (cases "has_kids k")
        case False
        then have "locate fs ls (k # rs) (c # cs) = None"
          using ne True by (cases k; cases cs) auto
        then show ?thesis using step False by (simp add: loc_res_def)
      next
        case hk: True
        then obtain n ks where k: "k = Dir n ks" "ks \<noteq> []" by (cases k) auto
        let ?fs = "(ls, n, rs) # fs"
        have r': "region b hl (plug ?fs ([] @ ks))" using r k by simp
        have "epos hl ?fs [] < hl + length (enc_root (plug ?fs ks))"
          using region_level_end(4)[of b hl ?fs ks] r' k(2) by simp
        then have "hl + zpos ?fs < 4294967296" "0 < hl + zpos ?fs"
          using region_lt_tail(3)[OF r', of "epos hl ?fs []"] r by (simp_all add: region_def)
        then have nz: "(of_nat (hl + zpos ?fs) :: u32) \<noteq> 0" by (intro of_nat32_neq_0)
        have "path_offset_loop b (of_nat (epos hl ?fs [])) ?p = Some (loc_res hl (locate ?fs [] ks cs))"
          using 3(1)[of n ks ?p] True ne k r' hit(3)[OF ne] by simp
        then show ?thesis using step hk nz k True ne by (simp add: Let_def del: of_nat_add)
      qed
    qed
  qed
qed

subsection \<open>Places in the layout\<close>

text \<open>The scan of one level: it stops at the first block after the position, or reaches the
  parent tag.\<close>

lemma insert_offset_scan:
  assumes "region b hl (plug fs (ls @ rs))" "N < epos hl fs ls"
  shows "insert_offset_loop b (of_nat N) (of_nat (epos hl fs ls))
    = (if list_ex has_kids rs then Some (of_nat (hl + zpos fs + ents (ls @ rs) + 5 + subs ls))
       else insert_offset_loop b (of_nat N) (of_nat (epos hl fs (ls @ rs))))"
  using assms
proof (induction rs arbitrary: ls)
  case (Cons k rs)
  note r = Cons.prems(1)
  have e: "epos hl fs ls < hl + length (enc_root (plug fs (ls @ k # rs)))"
    using r by (rule region_entry) (use esize_pos[of k] in linarith)
  note lt = region_lt_tail[OF r e]
  have N: "(of_nat N :: u32) < of_nat (epos hl fs ls)"
    using lt(3) Cons.prems(2) by (simp add: off_simps del: of_nat_add)
  obtain ch where ch: "rd8 (head b) (epos hl fs ls) = Some ch" "ch \<noteq> 0"
    using region_rd8_ent[OF r] by blast
  note kids = region_get_kids[OF r]
  show ?case
  proof (cases "has_kids k")
    case True
    then obtain n ks where k: "k = Dir n ks" "ks \<noteq> []" by (cases k) auto
    let ?fs = "(ls, n, rs) # fs"
    have "region b hl (plug ?fs ks)" using r k by simp
    from region_level_end(4)[OF this k(2)] region_at_tail(2)[OF this]
    have "hl + zpos ?fs < 4294967296" by linarith
    moreover have "0 < hl + zpos ?fs" using r by (simp add: region_def)
    ultimately have nz: "(of_nat (hl + zpos ?fs) :: u32) \<noteq> 0" by (intro of_nat32_neq_0)
    have "insert_offset_loop b (of_nat N) (of_nat (epos hl fs ls)) = Some (of_nat (hl + zpos ?fs))"
      using lt ch N kids nz True k
      by (subst insert_offset_loop.simps) (simp del: of_nat_add zpos.simps)
    moreover have "hl + zpos ?fs = hl + zpos fs + ents (ls @ k # rs) + 5 + subs ls" using k by simp
    moreover have "list_ex has_kids (k # rs)" using True by simp
    ultimately show ?thesis by (simp only: if_True)
  next
    case False
    have r': "region b hl (plug fs ((ls @ [k]) @ rs))" using r by simp
    have "N < epos hl fs (ls @ [k])" using Cons.prems(2) by simp
    note IH = Cons.IH[OF r' this]
    have sub: "subs (ls @ [k]) = subs ls" using False by simp
    have step: "insert_offset_loop b (of_nat N) (of_nat (epos hl fs ls))
      = insert_offset_loop b (of_nat N) (of_nat (epos hl fs (ls @ [k])))"
      using lt ch N kids False region_next_name[OF r]
      by (subst insert_offset_loop.simps) (simp del: of_nat_add)
    show ?thesis unfolding step IH sub using False by simp
  qed
qed simp

lemma no_kids_subs: "\<not> list_ex has_kids ks \<Longrightarrow> subs ks = 0"
  by (induction ks) auto

lemma insert_offset_loop_level:
  assumes "region b hl (plug fs (ls @ rs))" "ls @ rs \<noteq> []" "N < epos hl fs ls"
  shows "insert_offset_loop b (of_nat N) (of_nat (epos hl fs ls))
    = Some (of_nat (hl + zpos fs + ents (ls @ rs) + 5 + subs ls))"
  using assms
proof (induction fs arbitrary: ls rs N)
  case Nil
  show ?case
  proof (cases "list_ex has_kids rs")
    case True
    then show ?thesis using insert_offset_scan[OF Nil(1,3)] by simp
  next
    case False
    let ?L = "ls @ rs"
    note r = Nil(1,2)
    have e: "epos hl [] ?L < hl + length (enc_root (plug [] ?L))"
      using region_level_end(4)[OF r] by linarith
    have "insert_offset_loop b (of_nat N) (of_nat (epos hl [] ?L)) = Some (tail b)"
      using region_lt_tail[OF r(1) e] region_level_end(1,2)[OF r]
      by (subst insert_offset_loop.simps) (simp add: ac_simps)
    moreover have "hl + length (enc_root (plug [] ?L)) = hl + zpos [] + ents ?L + 5 + subs ls"
      using r(2) no_kids_subs[OF False] by (simp add: length_enc_root)
    then have "tail b = of_nat (hl + zpos [] + ents ?L + 5 + subs ls)"
      using region_at_tail(1)[OF r(1)] by (simp only:)
    ultimately show ?thesis using insert_offset_scan[OF Nil(1,3)] False by simp
  qed
next
  case (Cons f fs)
  obtain ls' n rs' where f: "f = (ls', n, rs')" by (cases f)
  let ?L = "ls @ rs" and ?fs = "f # fs"
  note r = Cons.prems(1,2)
  show ?case
  proof (cases "list_ex has_kids rs")
    case True
    then show ?thesis using insert_offset_scan[OF Cons.prems(1,3)] by simp
  next
    case False
    have e: "epos hl ?fs ?L < hl + length (enc_root (plug ?fs ?L))"
      using region_level_end(4)[OF r] by linarith
    have par: "zparent hl ?fs = epos hl fs ls'" using f by simp
    have up: "insert_offset_loop b (of_nat N) (of_nat (epos hl ?fs ?L))
        = insert_offset_loop b (of_nat (epos hl fs ls')) (of_nat (epos hl fs ls'))"
      using region_lt_tail[OF r(1) e] region_level_end(1,2)[OF r] region_climb[OF r] par
      by (subst insert_offset_loop.simps) (simp add: ac_simps)
    have r': "region b hl (plug fs (ls' @ Dir n ?L # rs'))" using r(1) f by simp
    have e': "epos hl fs ls' < hl + length (enc_root (plug fs (ls' @ Dir n ?L # rs')))"
      using r' by (rule region_entry) simp
    obtain ch where ch: "rd8 (head b) (epos hl fs ls') = Some ch" "ch \<noteq> 0"
      using region_rd8_ent[OF r'] by blast
    have skip: "insert_offset_loop b (of_nat (epos hl fs ls')) (of_nat (epos hl fs ls'))
        = insert_offset_loop b (of_nat (epos hl fs ls')) (of_nat (epos hl fs (ls' @ [Dir n ?L])))"
      using region_lt_tail[OF r' e'] ch region_next_name[OF r']
      by (subst insert_offset_loop.simps) (simp del: of_nat_add)
    have r'': "region b hl (plug fs ((ls' @ [Dir n ?L]) @ rs'))" using r' by simp
    have eq: "hl + zpos fs + ents ((ls' @ [Dir n ?L]) @ rs') + 5 + subs (ls' @ [Dir n ?L])
        = hl + zpos ?fs + ents ?L + 5 + subs ls"
      using f no_kids_subs[OF False] r(2) by simp
    have IH: "insert_offset_loop b (of_nat (epos hl fs ls')) (of_nat (epos hl fs (ls' @ [Dir n ?L])))
        = Some (of_nat (hl + zpos ?fs + ents ?L + 5 + subs ls))"
      unfolding eq[symmetric] by (rule Cons.IH[OF r'']) simp_all
    show ?thesis
      using insert_offset_scan[OF Cons.prems(1,3)] False by (simp only: if_False up skip IH)
  qed
qed

text \<open>The place of the block of an empty folder.\<close>

lemma region_get_insert_offset:
  assumes r: "region b hl (plug fs (ls @ Dir n [] # rs))"
  shows "get_insert_offset b (of_nat (epos hl fs ls)) = Some (of_nat (hl + zpos ((ls, n, rs) # fs)))"
proof -
  have e: "epos hl fs ls < hl + length (enc_root (plug fs (ls @ Dir n [] # rs)))"
    using r by (rule region_entry) simp
  obtain ch where ch: "rd8 (head b) (epos hl fs ls) = Some ch" "ch \<noteq> 0"
    using region_rd8_ent[OF r] by blast
  have r': "region b hl (plug fs ((ls @ [Dir n []]) @ rs))" using r by simp
  have eq: "hl + zpos fs + ents ((ls @ [Dir n []]) @ rs) + 5 + subs (ls @ [Dir n []])
      = hl + zpos ((ls, n, rs) # fs)" by simp
  have "insert_offset_loop b (of_nat (epos hl fs ls)) (of_nat (epos hl fs (ls @ [Dir n []])))
      = Some (of_nat (hl + zpos ((ls, n, rs) # fs)))"
    unfolding eq[symmetric] by (rule insert_offset_loop_level[OF r']) simp_all
  then show ?thesis
    using region_lt_tail[OF r e] ch region_next_name[OF r]
    unfolding get_insert_offset_def
    by (subst insert_offset_loop.simps) (simp del: of_nat_add zpos.simps)
qed

subsection \<open>The end of a block\<close>

text \<open>The scan of one level remembers the last block: its position, or 0.\<close>

fun last_block :: "nat \<Rightarrow> frame list \<Rightarrow> node list \<Rightarrow> node list \<Rightarrow> nat \<Rightarrow> nat" where
  "last_block hl fs ls [] acc = acc"
| "last_block hl fs ls (k # rs) acc =
     last_block hl fs (ls @ [k]) rs (if has_kids k then hl + zpos ((ls, nname k, rs) # fs) else acc)"

lemma kids_block_small:
  assumes r: "region b hl (plug fs (ls @ k # rs))" and k: "has_kids k"
  shows "(of_nat (hl + zpos ((ls, nname k, rs) # fs)) :: u32) \<noteq> 0"
proof -
  obtain n ks where D: "k = Dir n ks" "ks \<noteq> []" using k by (cases k) auto
  have "region b hl (plug ((ls, n, rs) # fs) ks)" using r D by simp
  from region_level_end(4)[OF this D(2)] region_at_tail(2)[OF this]
  have "hl + zpos ((ls, n, rs) # fs) < 4294967296" by linarith
  moreover have "0 < hl + zpos ((ls, n, rs) # fs)" using r by (simp add: region_def)
  ultimately show ?thesis using D by (simp add: of_nat32_neq_0 del: of_nat_add zpos.simps)
qed

lemma tree_end_scan:
  assumes "region b hl (plug fs (ls @ rs))"
  shows "tree_end_loop b (of_nat (epos hl fs ls)) (of_nat acc)
    = tree_end_loop b (of_nat (epos hl fs (ls @ rs))) (of_nat (last_block hl fs ls rs acc))"
  using assms
proof (induction rs arbitrary: ls acc)
  case (Cons k rs)
  note r = Cons.prems(1)
  have e: "epos hl fs ls < hl + length (enc_root (plug fs (ls @ k # rs)))"
    using r by (rule region_entry) (use esize_pos[of k] in linarith)
  obtain ch where ch: "rd8 (head b) (epos hl fs ls) = Some ch" "ch \<noteq> 0"
    using region_rd8_ent[OF r] by blast
  have r': "region b hl (plug fs ((ls @ [k]) @ rs))" using r by simp
  let ?acc = "if has_kids k then hl + zpos ((ls, nname k, rs) # fs) else acc"
  have "tree_end_loop b (of_nat (epos hl fs ls)) (of_nat acc)
      = tree_end_loop b (of_nat (epos hl fs (ls @ [k]))) (of_nat ?acc)"
    using region_lt_tail[OF r e] ch region_get_kids[OF r] region_next_name[OF r] kids_block_small[OF r]
    by (subst tree_end_loop.simps) (simp add: Let_def del: of_nat_add zpos.simps)
  then show ?case using Cons.IH[OF r'] by simp
qed simp

lemma last_block_none: "\<not> list_ex has_kids rs \<Longrightarrow> last_block hl fs ls rs acc = acc"
  by (induction rs arbitrary: ls) auto

lemma last_block_cases:
  "(\<not> list_ex has_kids rs \<and> last_block hl fs ls rs acc = acc) \<or>
   (\<exists>r1 n ks r2. rs = r1 @ Dir n ks # r2 \<and> ks \<noteq> [] \<and> \<not> list_ex has_kids r2
      \<and> last_block hl fs ls rs acc = hl + zpos ((ls @ r1, n, r2) # fs))"
proof (induction rs arbitrary: ls acc)
  case (Cons k rs)
  show ?case
  proof (cases "list_ex has_kids rs")
    case True
    then obtain r1 n ks r2 where "rs = r1 @ Dir n ks # r2" "ks \<noteq> []" "\<not> list_ex has_kids r2"
      "last_block hl fs ls (k # rs) acc = hl + zpos (((ls @ [k]) @ r1, n, r2) # fs)"
      using Cons.IH[of "ls @ [k]"] by (metis last_block.simps(2))
    then show ?thesis by (intro disjI2 exI[of _ "k # r1"]) simp
  next
    case False
    then have "last_block hl fs ls (k # rs) acc
        = (if has_kids k then hl + zpos ((ls, nname k, rs) # fs) else acc)"
      by (simp add: last_block_none del: zpos.simps)
    then show ?thesis using False
      by (cases k) (auto intro: exI[of _ "[]"] simp del: zpos.simps)
  qed
qed simp

lemma tree_end_loop_level:
  assumes "region b hl (plug fs ks)" "ks \<noteq> []"
  shows "tree_end_loop b (of_nat (hl + zpos fs)) 0 = Some (of_nat (hl + zpos fs + ents ks + 5 + subs ks))"
  using assms
proof (induction "subs ks" arbitrary: fs ks rule: less_induct)
  case less
  note r = less.prems
  let ?lb = "last_block hl fs [] ks 0"
  have e: "epos hl fs ks < hl + length (enc_root (plug fs ks))"
    using region_level_end(4)[OF r] by linarith
  have scan: "tree_end_loop b (of_nat (hl + zpos fs)) 0
      = tree_end_loop b (of_nat (epos hl fs ks)) (of_nat ?lb)"
    using tree_end_scan[of b hl fs "[]" ks 0] r(1) by simp
  consider "\<not> list_ex has_kids ks" "?lb = 0"
    | r1 n cs r2 where "ks = r1 @ Dir n cs # r2" "cs \<noteq> []" "\<not> list_ex has_kids r2"
        "?lb = hl + zpos ((r1, n, r2) # fs)"
    using last_block_cases[of ks hl fs "[]" 0] by auto
  then show ?case
  proof cases
    case 1
    have z: "hl + zpos fs + ents ks + 5 + subs ks = epos hl fs ks + 1 + 4"
      using no_kids_subs[OF 1(1)] by simp
    have "tree_end_loop b (of_nat (epos hl fs ks)) (of_nat ?lb) = Some (of_nat (epos hl fs ks) + 1 + 4)"
      using region_lt_tail[OF r(1) e] region_level_end(1)[OF r] 1(2)
      by (subst tree_end_loop.simps) (simp del: of_nat_add)
    then show ?thesis unfolding scan z by simp
  next
    case (2 r1 n cs r2)
    let ?fs = "(r1, n, r2) # fs"
    have r': "region b hl (plug ?fs cs)" using r 2 by simp
    have "subs cs < subs ks" using 2 by simp
    from less.hyps[OF this r' 2(2)]
    have "tree_end_loop b (of_nat (hl + zpos ?fs)) 0
        = Some (of_nat (hl + zpos ?fs + ents cs + 5 + subs cs))" .
    moreover have "hl + zpos ?fs + ents cs + 5 + subs cs = hl + zpos fs + ents ks + 5 + subs ks"
      using 2 no_kids_subs[OF 2(3)] by simp
    moreover have "(of_nat (hl + zpos ?fs) :: u32) \<noteq> 0"
      using kids_block_small[of b hl fs r1 "Dir n cs" r2] r(1) 2 by simp
    ultimately have "tree_end_loop b (of_nat (epos hl fs ks)) (of_nat ?lb)
        = Some (of_nat (hl + zpos fs + ents ks + 5 + subs ks))"
      using region_lt_tail[OF r(1) e] region_level_end(1)[OF r] 2(4)
      by (subst tree_end_loop.simps) (simp del: of_nat_add zpos.simps)
    then show ?thesis using scan by simp
  qed
qed

lemma region_get_tree_end:
  assumes "region b hl (plug fs ks)" "ks \<noteq> []"
  shows "get_tree_end_offset b (of_nat (hl + zpos fs))
    = Some (of_nat (hl + zpos fs + ents ks + 5 + subs ks))"
  unfolding get_tree_end_offset_def by (rule tree_end_loop_level[OF assms])

end
