(* ===== verification/Fs_Offsets.thy ===== *)
theory Fs_Offsets
  imports Fs_Lookup
begin

text \<open>
  \<open>update_offsets\<close> as its callers use it: the bytes of one level have just changed, the stored
  distances of the earlier siblings and of the levels above are those of the old tree, and
  the call brings the whole buffer to the layout of the new tree.
\<close>

lemma get_parent_at:
  assumes h: "head b = A @ enc_ents d ks @ marker (fpar fs E) @ C" and ok: "forest_ok ks"
    and a: "length A = a" "a + ents ks = hl + zpos fs + E" "0 < hl" and sm: "small b"
    and t: "tail b = of_nat t" "a + ents ks < t" "t \<le> length (head b)"
  shows "get_parent_offset b (of_nat a) = Some (of_nat (zparent hl fs))"
proof -
  let ?m = "a + ents ks"
  have m: "head b = (A @ enc_ents d ks) @ marker (fpar fs E) @ C" "length (A @ enc_ents d ks) = ?m"
    using h a by simp_all
  have s: "?m < 1073741824" using t sm by linarith
  have f: "fpar fs E < 1073741824" "fs \<noteq> [] \<Longrightarrow> fpar fs E \<le> ?m + 1"
    using zparent_tag(2)[of fs E] a s by (cases "fs = []"; simp)+
  have ft: "get_folder_tail_offset b (of_nat a) = Some (of_nat ?m)"
    by (rule get_folder_tail_offset_ents[OF h ok a(1) sm t(1,2,3)])
  have rr: "get_reloff_by_tag b (of_nat (?m + 1)) = Some (of_nat (fpar fs E))"
    by (rule get_reloff_marker[OF m sm f(1)])
  have nz: "(of_nat ?m :: u32) \<noteq> 0" using a s by (intro of_nat32_neq_0) simp_all
  have z: "(of_nat (fpar fs E) :: u32) = 0 \<longleftrightarrow> fs = []"
    using f(1) of_nat32_eq_0[of "fpar fs E"] by simp
  have up: "(of_nat ?m :: u32) + 1 - of_nat (fpar fs E) = of_nat (zparent hl fs)" if "fs \<noteq> []"
  proof -
    have "?m + 1 - fpar fs E = zparent hl fs" using zparent_tag(1)[OF that, of hl E] a by simp
    then show ?thesis using of_nat32_diff[OF f(2)[OF that]] by (simp add: ac_simps)
  qed
  show ?thesis
    using ft rr nz z up
    by (cases "fs = []") (simp_all add: get_parent_offset_def ac_simps)
qed

text \<open>The entry of the enclosing directory already leads to its block.\<close>

lemma kids_of_parent:
  assumes h: "head b = H @ zpre fs g @ X" and ok: "frames_ok fs" and H: "length H = hl" "0 < hl"
    and sm: "small b" and fs: "fs \<noteq> []"
  shows "get_kids_offset b (of_nat (zparent hl fs)) = Some (of_nat (hl + zpos fs))"
    and "(of_nat (zparent hl fs) :: u32) \<noteq> 0"
proof -
  obtain ls n rs fs' where f: "fs = (ls, n, rs) # fs'" using fs by (cases fs rule: zpos.cases) auto
  let ?d = "fdist (ls, n, rs)" and ?k = "Dir n [File [1]]"
  let ?A = "H @ zpre fs' (zgrow (ls, n, rs) g) @ enc_ents (fents (ls, n, rs) + 5) ls"
  obtain C where C: "head b = ?A @ enc_ent ?d ?k @ C" using h f by simp
  have a: "length ?A = zparent hl fs" using f H by simp
  have zp: "zparent hl fs + ?d = hl + zpos fs" using f by simp
  have "length (head b) = hl + zpos fs + length X" using h H by simp
  then have le: "hl + zpos fs \<le> 1073741824" using sm by linarith
  have dl: "length n + 5 \<le> ?d" "?d < 1073741824"
    using le H zp zparent_less_zpos[OF fs H(2)] by simp_all
  have "node_ok ?k" using ok f by (simp add: name_ok_def)
  from get_kids_offset_ent[OF C this a sm, of]
  have "get_kids_offset b (of_nat (zparent hl fs)) = Some (of_nat (zparent hl fs + ?d))"
    using dl by (simp del: of_nat_add fdist.simps)
  then show "get_kids_offset b (of_nat (zparent hl fs)) = Some (of_nat (hl + zpos fs))"
    unfolding zp .
  show "(of_nat (zparent hl fs) :: u32) \<noteq> 0"
    using zparent_less_zpos[OF fs H(2)] le zp by (intro of_nat32_neq_0) simp_all
qed

lemma sibling1_at:
  assumes "head b = H @ zpre fs g @ X" "frames_ok fs" "length H = hl" "0 < hl" "small b"
    and f: "first_name_off b = of_nat hl"
    and p: "get_parent_offset b a = Some (of_nat (zparent hl fs))"
  shows "get_1st_sibling_offset b a = Some (of_nat (hl + zpos fs))"
  using kids_of_parent[OF assms(1-5)] f p
  by (cases "fs = []") (simp_all add: get_1st_sibling_offset_def)

theorem update_offsets_level:
  fixes D :: u32
  assumes h: "head b = H @ zpre fs g @ enc_ents d ls @ enc_ents dw rs @ marker (fpar fs E)
        @ enc_subs d ls @ Z @ zsuf fs g @ J"
    and ok: "frames_ok fs" "forest_ok ls" "forest_ok rs" and H: "length H = hl" "0 < hl"
    and sm: "small b" and f: "first_name_off b = of_nat hl" and E: "E = ents ls + ents rs"
    and t: "tail b = of_nat t" "t \<le> length (head b)"
      "t = hl + zpos fs + (E + 5 + subs ls + length Z) + length (zsuf fs g)"
    and d: "ls \<noteq> [] \<Longrightarrow> of_nat d + D = (of_nat (E + 5) :: u32)"
      "ls \<noteq> [] \<Longrightarrow> ents ls \<le> d" "ls \<noteq> [] \<Longrightarrow> d + subs ls < 1073741824"
    and g: "of_nat g + D = (of_nat (E + 5 + subs ls + length Z) :: u32)" "zsize fs g < 1073741824"
  shows "update_offsets b (of_nat (epos hl fs ls)) D True
    = Some (b\<lparr>head := H @ zpre fs (E + 5 + subs ls + length Z) @ enc_ents (E + 5) ls @ enc_ents dw rs
        @ marker (fpar fs E) @ enc_subs (E + 5) ls @ Z @ zsuf fs (E + 5 + subs ls + length Z) @ J\<rparr>)"
proof -
  let ?e = "epos hl fs ls"
  let ?B = "enc_ents dw rs @ marker (fpar fs E)"
  let ?b = "b\<lparr>head := H @ zpre fs g @ enc_ents (E + 5) ls @ ?B @ enc_subs (E + 5) ls
        @ Z @ zsuf fs g @ J\<rparr>"
  have h0: "head b = (H @ zpre fs g @ enc_ents d ls) @ enc_ents dw rs @ marker (fpar fs E)
       @ (enc_subs d ls @ Z @ zsuf fs g @ J)" using h by simp
  have p0: "get_parent_offset b (of_nat ?e) = Some (of_nat (zparent hl fs))"
    by (rule get_parent_at[OF h0 ok(3) _ _ H(2) sm t(1) _ t(2)]) (use H E t in simp_all)
  have s0: "get_1st_sibling_offset b (of_nat ?e) = Some (of_nat (hl + zpos fs))"
    using sibling1_at[OF h ok(1) H sm f p0] .
  have sz: "hl + zpos fs < 1073741824" using t sm by linarith
  then have nz: "(of_nat (hl + zpos fs) :: u32) \<noteq> 0" using H by (intro of_nat32_neq_0) simp_all
  have sib: "update_siblings_loop (of_nat ?e) D b (of_nat (hl + zpos fs)) = Some ?b"
  proof (cases "ls = []")
    case True
    then have "?b = b" using h by simp
    with True show ?thesis by (subst update_siblings_loop.simps) simp
  next
    case False
    have h1: "head b = (H @ zpre fs g) @ enc_ents d ls @ ?B @ enc_subs d ls @ (Z @ zsuf fs g @ J)"
      using h by simp
    have D: "of_nat d + D = (of_nat (ents ls + length ?B) :: u32)"
      using d(1)[OF False] E by (simp add: ac_simps)
    have "update_siblings_loop (of_nat ?e) D b (of_nat (hl + zpos fs))
      = Some (b\<lparr>head := (H @ zpre fs g) @ enc_ents (ents ls + length ?B) ls @ ?B
          @ enc_subs (ents ls + length ?B) ls @ (Z @ zsuf fs g @ J)\<rparr>)"
      by (rule update_siblings_loop_ents[OF h1 ok(2) _ _ sm t(1,2) d(2)[OF False] d(3)[OF False] _ D])
        (use H t E in simp_all)
    moreover have e: "ents ls + length ?B = E + 5" using E by simp
    ultimately show ?thesis unfolding e by simp
  qed
  have smb: "small ?b" and lenb: "length (head ?b) = length (head b)" using sm h by simp_all
  have h2: "head ?b = (H @ zpre fs g @ enc_ents (E + 5) ls) @ enc_ents dw rs @ marker (fpar fs E)
       @ (enc_subs (E + 5) ls @ Z @ zsuf fs g @ J)" by simp
  have tb: "tail ?b = of_nat t" "t \<le> length (head ?b)" using t lenb by simp_all
  have p1: "get_parent_offset ?b (of_nat ?e) = Some (of_nat (zparent hl fs))"
    by (rule get_parent_at[OF h2 ok(3) _ _ H(2) smb tb(1) _ tb(2)]) (use H E t in simp_all)
  let ?Y = "enc_ents (E + 5) ls @ ?B @ enc_subs (E + 5) ls @ Z"
  have h3: "head ?b = H @ zpre fs g @ ?Y @ zsuf fs g @ J" by simp
  have ly: "length ?Y = E + 5 + subs ls + length Z" using E by simp
  have "update_ancestors_loop D ?b (of_nat (zparent hl fs)) (of_nat (zparent hl fs))
    = Some (?b\<lparr>head := H @ zpre fs (length ?Y) @ ?Y @ zsuf fs (length ?Y) @ J\<rparr>)"
  proof (rule update_ancestors_climb[OF h3 ok(1) H smb tb])
    show "t = hl + zpos fs + length ?Y + length (zsuf fs g)" using t(3) ly by simp
    show "of_nat g + D = (of_nat (length ?Y) :: u32)" unfolding ly by (rule g(1))
  qed (rule g(2))
  then show ?thesis
    using s0 nz sib p1 unfolding ly by (simp add: update_offsets_def del: of_nat_add)
qed

text \<open>Without siblings: the directory of the innermost frame has just lost its kids.\<close>

theorem update_offsets_emptied:
  fixes D :: u32
  assumes h: "head b = H @ zlev 0 (ls, n, rs) fs g @ zsuf ((ls, n, rs) # fs) g @ J"
    and ok: "frames_ok ((ls, n, rs) # fs)" and H: "length H = hl" "0 < hl" and sm: "small b"
    and t: "tail b = of_nat t" "t \<le> length (head b)"
      "t = hl + zpos ((ls, n, rs) # fs) + length (zsuf ((ls, n, rs) # fs) g)"
    and D: "of_nat g + D = (0 :: u32)" and g: "zsize ((ls, n, rs) # fs) g < 1073741824"
  shows "update_offsets b (of_nat (epos hl fs ls)) D False
    = Some (b\<lparr>head := H @ zlev 0 (ls, n, rs) fs 0 @ zsuf ((ls, n, rs) # fs) 0 @ J\<rparr>)"
proof -
  have p: "zparent hl ((ls, n, rs) # fs) = epos hl fs ls" by simp
  have h': "head b = H @ zlev 0 (ls, n, rs) fs g @ [] @ zsuf ((ls, n, rs) # fs) g @ J" using h by simp
  show ?thesis
    using update_ancestors_climb_lev[OF h' ok H sm t(1,2) _ _ g, of D] t(3) D
    unfolding update_offsets_def p by simp
qed

end
