(* ===== verification/Fs_Grow.thy ===== *)
theory Fs_Grow
  imports Fs_Offsets
begin

text \<open>
  Room for new bytes: the growth of the buffer, the gap that \<open>memmove\<close> opens and the entry
  that \<open>insert_new_name\<close> writes into it.
\<close>

text \<open>The block of the allocator is the capacity the record claims.\<close>

definition cap_ok :: "fs_buf \<Rightarrow> bool" where
  "cap_ok b \<longleftrightarrow> length (head b) = unat (capacity b)"

lemma cap_ok_of_nat: "cap_ok b \<Longrightarrow> capacity b = of_nat (length (head b))"
  by (simp add: cap_ok_def)

definition reserve :: "allocator \<Rightarrow> fs_buf \<Rightarrow> u32 \<Rightarrow> bool \<times> fs_buf" where
  "reserve al b sz = (if sz + tail b \<ge> capacity b then add_capacity al b sz else (True, b))"

text \<open>The rounding of \<open>add_capacity\<close> to whole blocks of \<open>FS_NEW_BLK_SIZE\<close> bytes.\<close>

lemma round_up_block:
  fixes sz :: u32
  assumes "sz = of_nat n" "n < 2147483648"
  defines "a \<equiv> (if sz div 1048576 * 1048576 < sz then sz div 1048576 * 1048576 + 1048576
                 else sz div 1048576 * 1048576)"
  shows "n \<le> unat a" "unat a \<le> n + 1048576"
proof -
  have u: "unat sz = n" using assms by (simp add: off_simps)
  have d: "unat (sz div 1048576) = n div 1048576" using u by (simp add: unat_div)
  have q: "n div 1048576 * 1048576 \<le> n" "n < n div 1048576 * 1048576 + 1048576"
    by simp (metis add.commute div_mult_mod_eq mod_less_divisor nat_add_left_cancel_less zero_less_numeral)
  have lt: "n div 1048576 < 2048" using assms(2) by (simp add: less_mult_imp_div_less)
  then have m: "unat (sz div 1048576 * 1048576) = n div 1048576 * 1048576"
    using d unat_mult_lem[of "sz div 1048576" 1048576] by simp
  have "unat (sz div 1048576 * 1048576 + 1048576) = n div 1048576 * 1048576 + 1048576"
    using m lt unat_add_lem[of "sz div 1048576 * 1048576" 1048576] by simp
  then show "n \<le> unat a" "unat a \<le> n + 1048576"
    using m q u unfolding a_def by (auto simp: word_less_nat_alt)
qed

lemma add_capacity_cases:
  assumes al: "alloc_ok al" and cap: "cap_ok b" and sm: "small b" and n: "n < 2147483648"
  shows "add_capacity al b (of_nat n) = (False, b)
    \<or> (\<exists>ext. add_capacity al b (of_nat n)
          = (True, b\<lparr>head := head b @ ext, capacity := of_nat (length (head b @ ext))\<rparr>)
        \<and> n \<le> length ext \<and> length (head b @ ext) \<le> 1073741824)"
proof -
  let ?sz = "of_nat n :: u32"
  define a where "a = (if ?sz div 1048576 * 1048576 < ?sz then ?sz div 1048576 * 1048576 + 1048576
                 else ?sz div 1048576 * 1048576)"
  let ?l = "length (head b)"
  have a: "n \<le> unat a" "unat a \<le> n + 1048576" using round_up_block[OF refl n] unfolding a_def by auto
  have u: "unat (capacity b + a) = ?l + unat a"
    using unat_add_lem[of "capacity b" a] cap sm a n by (simp add: cap_ok_def)
  have E: "add_capacity al b ?sz = (if capacity b + a > 1073741824 then (False, b)
      else case al (?l + unat a) of None \<Rightarrow> (False, b)
        | Some p \<Rightarrow> (True, b\<lparr>head := take (?l + unat a) (head b) @ drop ?l p,
             capacity := capacity b + a\<rparr>))"
    unfolding add_capacity_def a_def[symmetric] Let_def u by simp
  show ?thesis
  proof (cases "capacity b + a > 1073741824 \<or> al (?l + unat a) = None")
    case True
    then have "add_capacity al b ?sz = (False, b)" unfolding E by (elim disjE) simp_all
    then show ?thesis by (rule disjI1)
  next
    case False
    then obtain p where p: "al (?l + unat a) = Some p" by blast
    have le: "capacity b + a \<le> 1073741824" using False by (simp add: linorder_not_less)
    have lp: "length p = ?l + unat a" using alloc_okD[OF al p] .
    have "\<not> 1073741824 < capacity b + a" using le by (simp only: linorder_not_less)
    moreover have "take (?l + unat a) (head b) = head b" by simp
    ultimately have A: "add_capacity al b ?sz
        = (True, b\<lparr>head := head b @ drop ?l p, capacity := capacity b + a\<rparr>)"
      unfolding E p by (simp only: if_False option.case)
    have len: "length (head b @ drop ?l p) = unat (capacity b + a)" using u lp by simp
    have C: "capacity b + a = of_nat (length (head b @ drop ?l p))"
      unfolding len by (simp only: u32_of_nat_unat)
    have "n \<le> length (drop ?l p)" using lp a by simp
    moreover have "length (head b @ drop ?l p) \<le> 1073741824"
      using le unfolding len by (simp add: word_le_nat_alt)
    ultimately show ?thesis using A unfolding C by blast
  qed
qed

lemma reserve_cases:
  assumes al: "alloc_ok al" and cap: "cap_ok b" and sm: "small b" and n: "n < 2147483648"
    and t: "tail b = of_nat t" "t \<le> length (head b)"
  shows "reserve al b (of_nat n) = (False, b) \<and> length (head b) \<le> t + n
    \<or> (\<exists>ext. reserve al b (of_nat n)
          = (True, b\<lparr>head := head b @ ext, capacity := of_nat (length (head b @ ext))\<rparr>)
        \<and> t + n \<le> length (head b @ ext) \<and> length (head b @ ext) \<le> 1073741824)"
proof (cases "length (head b) \<le> t + n")
  case True
  have "of_nat n + tail b = of_nat (n + t)" using t by simp
  moreover have "capacity b \<le> of_nat (n + t)"
    using True t sm n unfolding cap_ok_of_nat[OF cap] by (subst of_nat32_le) simp_all
  ultimately have "capacity b \<le> of_nat n + tail b" by (simp only:)
  then have "reserve al b (of_nat n) = add_capacity al b (of_nat n)" by (simp add: reserve_def)
  then show ?thesis using add_capacity_cases[OF al cap sm n] True t(2) by fastforce
next
  case False
  have "(of_nat n + of_nat t :: u32) = of_nat (n + t)" by simp
  moreover have "(of_nat (n + t) :: u32) < of_nat (length (head b))"
    using False sm by (subst of_nat32_less) simp_all
  ultimately have "\<not> capacity b \<le> of_nat n + tail b"
    using t(1) unfolding cap_ok_of_nat[OF cap] by (simp only: linorder_not_le)
  then have "reserve al b (of_nat n) = (True, b)" by (simp add: reserve_def)
  moreover have "b = b\<lparr>head := head b @ [], capacity := of_nat (length (head b @ []))\<rparr>"
    using cap_ok_of_nat[OF cap] by simp
  ultimately show ?thesis using False sm by (intro disjI2 exI[of _ "[]"]) simp
qed

text \<open>Opening a gap of \<open>n\<close> bytes between \<open>X\<close> and \<open>Y\<close>; nothing moves at the tail.\<close>

lemma open_gap:
  assumes "length X = off" "length Y + n \<le> length (Y @ Z)"
  shows "\<exists>gap. length gap = n \<and>
    (if 0 < length Y then memmove (X @ Y @ Z) (off + n) off (length Y) else Some (X @ Y @ Z))
      = Some (X @ gap @ Y @ drop n Z)"
proof -
  have Z: "X @ Y @ Z = X @ Y @ take n Z @ drop n Z" by simp
  show ?thesis
  proof (cases "Y = []")
    case True
    then show ?thesis using assms by (intro exI[of _ "take n Z"]) simp
  next
    case False
    then show ?thesis
      unfolding Z using memmove_up[OF assms(1) refl, of "take n Z" n Y "drop n Z"] assms(2) by auto
  qed
qed

text \<open>The entry of a new node.\<close>

definition new_node :: "cstring \<Rightarrow> bool \<Rightarrow> node" where
  "new_node name is_dir = (if is_dir then Dir name [] else File name)"

lemma new_node_simps [simp]:
  "nname (new_node name d) = name" "node_ok (new_node name d) \<longleftrightarrow> name_ok name"
  "\<not> has_kids (new_node name d)" "enc_node x (new_node name d) = []"
  "esize (new_node name d) = length name + 1 + (if d then 4 else 1)"
  by (simp_all add: new_node_def)

lemma new_node_sub [simp]: "nsub (new_node name d) = 0"
  by (simp add: new_node_def)

lemma enc_ent_new: "enc_ent x (new_node name d) = name @ 0 # (if d then le32 1 else [0])"
  by (simp add: new_node_def dir_ent_def tag32_def)

lemma insert_new_name_cases:
  fixes d tg :: bool
  assumes h: "head b = X @ Y @ Z" and X: "length X = off" and t: "tail b = of_nat (off + length Y)"
    and cap: "cap_ok b" and sm: "small b" and al: "alloc_ok al" and n: "length name < 1073741824"
  defines "x \<equiv> esize (new_node name d) + (if tg then 5 else 0)"
  shows "insert_new_name al b (of_nat off) name d tg = Some (ERR_NO_MEM, b)
        \<and> length (head b) \<le> off + length Y + x
    \<or> (\<exists>b' gap Z'. insert_new_name al b (of_nat off) name d tg = Some (FS_OK, b')
        \<and> b' = b\<lparr>head := X @ enc_ent y (new_node name d) @ gap @ Y @ Z',
                 capacity := of_nat (length (head b')), tail := of_nat (off + x + length Y)\<rparr>
        \<and> length gap = (if tg then 5 else 0) \<and> cap_ok b' \<and> small b'
        \<and> length (head b) \<le> length (head b'))"
proof -
  have x: "x < 2147483648" using n by (simp add: x_def)
  have xw: "of_nat (length name) + 1 + (if d then 4 else 1) + (if tg then 5 else 0) = (of_nat x :: u32)"
    by (simp add: x_def)
  have tl: "off + length Y \<le> length (head b)" using h X by simp
  from reserve_cases[OF al cap sm x t tl]
  consider "reserve al b (of_nat x) = (False, b)" "length (head b) \<le> off + length Y + x"
    | ext where "reserve al b (of_nat x)
          = (True, b\<lparr>head := head b @ ext, capacity := of_nat (length (head b @ ext))\<rparr>)"
        "off + length Y + x \<le> length (head b @ ext)" "length (head b @ ext) \<le> 1073741824"
    by blast
  then show ?thesis
  proof cases
    case 1
    then show ?thesis by (simp add: insert_new_name_def Let_def xw reserve_def[symmetric])
  next
    case (2 ext)
    define c where "c = b\<lparr>head := head b @ ext, capacity := of_nat (length (head b @ ext))\<rparr>"
    let ?e = "enc_ent y (new_node name d)"
    have hb: "head c = X @ Y @ (Z @ ext)" using h by (simp add: c_def)
    have s: "off + length Y + x < 4294967296" using 2(2,3) by linarith
    have gt: "tail c > of_nat off \<longleftrightarrow> 0 < length Y" using t s by (simp add: c_def off_simps del: of_nat_add)
    have df: "unat (tail c - of_nat off) = length Y"
      using t s of_nat32_diff[of off "off + length Y"] by (simp add: c_def off_simps del: of_nat_add)
    have uo: "unat (of_nat off :: u32) = off" "unat (of_nat x :: u32) = x" using s by (simp_all add: off_simps)
    obtain gap where gap: "length gap = x"
      "(if 0 < length Y then memmove (head c) (off + x) off (length Y) else Some (head c))
        = Some (X @ gap @ Y @ drop x (Z @ ext))"
      using open_gap[OF X, of Y x "Z @ ext"] 2(2) h X unfolding hb by auto
    let ?r = "drop x (Z @ ext)" and ?k = "esize (new_node name d)"
    let ?tag = "if d then le32 1 else [0] :: byte list"
    obtain g1 g2 g3 where g: "gap = g1 @ g2 @ g3" "length g1 = length name + 1"
      "length g2 = length ?tag" "length g3 = (if tg then 5 else 0)"
    proof
      show "gap = take (length name + 1) gap @ take (length ?tag) (drop (length name + 1) gap)
        @ drop (length ?tag) (drop (length name + 1) gap)" by (simp only: append_take_drop_id)
    qed (use gap x_def in simp_all)
    have p1: "put_bytes (X @ gap @ Y @ ?r) off (name @ [0]) = Some (X @ (name @ [0]) @ g2 @ g3 @ Y @ ?r)"
      using g X put_bytes_split[of X off g1 "name @ [0]" "g2 @ g3 @ Y @ ?r"] by simp
    have uo': "unat (of_nat off + (of_nat (length name) + 1) :: u32) = off + (length name + 1)"
      using s unat_of_nat32[of "off + (length name + 1)"] x_def by (simp add: ac_simps)
    have p2: "(if d then wr32 (X @ (name @ [0]) @ g2 @ g3 @ Y @ ?r) (off + (length name + 1)) 1
        else wr8 (X @ (name @ [0]) @ g2 @ g3 @ Y @ ?r) (off + (length name + 1)) 0)
        = Some (X @ ?e @ g3 @ Y @ ?r)"
    proof (cases d)
      case True
      then show ?thesis
        using wr32_split[of "X @ name @ [0]" "off + (length name + 1)" g2 "g3 @ Y @ ?r" 1] X g(3)
        by (simp add: enc_ent_new)
    next
      case False
      then obtain w where "g2 = [w]" using g(3) by (cases g2) auto
      then show ?thesis
        using wr8_split[of "X @ name @ [0]" "off + (length name + 1)" w "g3 @ Y @ ?r" 0] X False
        by (simp add: enc_ent_new)
    qed
    have tw: "tail c + of_nat x = of_nat (off + x + length Y)" using t by (simp add: c_def)
    have len: "length (X @ ?e @ g3 @ Y @ ?r) = length (head b @ ext)"
      using gap(1) g h 2(2) X by (simp add: x_def)
    let ?b' = "b\<lparr>head := X @ ?e @ g3 @ Y @ ?r, capacity := of_nat (length (head b @ ext)),
      tail := of_nat (off + x + length Y)\<rparr>"
    have "insert_new_name al b (of_nat off) name d tg
        = Some (FS_OK, c\<lparr>head := X @ ?e @ g3 @ Y @ ?r, tail := of_nat (off + x + length Y)\<rparr>)"
      unfolding insert_new_name_def Let_def xw reserve_def[symmetric] 2(1) c_def[symmetric]
      using gap(2) gt df uo p1 p2 uo' tw
      by (cases "Y = []"; cases d; simp del: of_nat_add append_assoc drop_append)
    then have "insert_new_name al b (of_nat off) name d tg = Some (FS_OK, ?b')"
      by (simp add: c_def)
    moreover have "cap_ok ?b'" "small ?b'"
      using len 2(3) by (simp_all add: cap_ok_def off_simps del: of_nat_add)
    moreover have "?b' = b\<lparr>head := X @ ?e @ g3 @ Y @ ?r, capacity := of_nat (length (head ?b')),
      tail := of_nat (off + x + length Y)\<rparr>" using len by simp
    moreover have "length (head b) \<le> length (head ?b')" using len by simp
    ultimately show ?thesis using g(4) by (intro disjI2 exI[of _ ?b'] exI[of _ g3] exI[of _ ?r]) blast
  qed
qed

end
