(* ===== verification/Fs_State.thy ===== *)
theory Fs_State
  imports Fs_Grow
begin

text \<open>
  The abstract state of a buffer: the root path and the forest below it.  \<open>represents\<close>
  relates the record of \<open>fs_buf.c\<close> to it, \<open>resolve\<close> is the meaning of a path, and
  \<open>tree_insert\<close>, \<open>tree_remove\<close> and \<open>tree_rename\<close> are the operations that the code promises.
\<close>

subsection \<open>The invariant\<close>

definition root_ok :: "cstring \<Rightarrow> bool" where
  "root_ok root \<longleftrightarrow> root \<noteq> [] \<and> is_cstr root \<and> hd root = slash \<and> last root = slash"

abbreviation first_pos :: "cstring \<Rightarrow> nat" where
  "first_pos root \<equiv> 9 + length root"

definition represents :: "fs_buf \<Rightarrow> cstring \<Rightarrow> node list \<Rightarrow> bool" where
  "represents b root ks \<longleftrightarrow> root_ok root
     \<and> get_bytes (head b) 8 (length root + 1) = Some (root @ [0])
     \<and> first_name_off b = of_nat (first_pos root)
     \<and> region b (first_pos root) ks \<and> cap_ok b"

lemma get_bytes_take:
  "get_bytes (H @ X) a n = Some bs \<Longrightarrow> a + n \<le> length H \<Longrightarrow> get_bytes (H @ Y) a n = Some bs"
  by (simp add: get_bytes_def split: if_splits)

text \<open>What an operation has to show to establish the invariant again: the header is untouched
  and the bytes after it are the layout.\<close>

lemma representsI:
  assumes r: "represents b root ks0" and H: "head b = H @ X" "length H = first_pos root"
    and h': "head b' = H @ enc_root ks @ J" and ok: "forest_ok ks" and sm: "small b'"
    and t: "tail b' = of_nat (first_pos root + length (enc_root ks))"
    and f: "first_name_off b' = first_name_off b" and c: "cap_ok b'"
  shows "represents b' root ks"
proof -
  have "get_bytes (H @ enc_root ks @ J) 8 (length root + 1) = Some (root @ [0])"
  proof (rule get_bytes_take)
    show "get_bytes (H @ X) 8 (length root + 1) = Some (root @ [0])"
      using r H by (simp add: represents_def)
  qed (use H in simp_all)
  moreover have "region b' (first_pos root) ks"
    using H(2) h' ok sm t unfolding region_iff by auto
  ultimately show ?thesis using r f c h' by (simp add: represents_def)
qed

lemma representsE:
  assumes "represents b root ks"
  obtains H J where "head b = H @ enc_root ks @ J" "length H = first_pos root" "forest_ok ks"
    "small b" "tail b = of_nat (first_pos root + length (enc_root ks))"
    "first_pos root + length (enc_root ks) \<le> length (head b)"
    "first_name_off b = of_nat (first_pos root)" "cap_ok b" "region b (first_pos root) ks"
    "root_ok root"
  using assms unfolding represents_def by (auto elim!: regionE)

lemma get_root_path_represents:
  assumes "represents b root ks"
  shows "cstr_at (head b) 8 = Some root"
proof -
  obtain X Y where "head b = X @ (root @ [0]) @ Y" "length X = 8"
    using assms by (auto simp: represents_def get_bytes_Some)
  moreover have "is_cstr root" using assms by (simp add: represents_def root_ok_def)
  ultimately show ?thesis using cstr_at_split[of X 8 root Y] by simp
qed

text \<open>The lock is not part of the layout.\<close>

lemma represents_lock [simp]: "represents (b\<lparr>lock := l\<rparr>) root ks = represents b root ks"
  by (simp add: represents_def region_def cap_ok_def)

subsection \<open>The meaning of a path\<close>

datatype target = Root | At loc

definition resolve1 :: "cstring \<Rightarrow> node list \<Rightarrow> cstring \<Rightarrow> target option" where
  "resolve1 root ks path =
    (if path = [] \<and> length root = 1 then Some Root
     else if take (length root) path \<noteq> root then None
     else if drop (length root) path = [] then Some Root
     else map_option At (lookup ks (split_slash (drop (length root) path))))"

text \<open>The slash at the end of a path, added or removed.\<close>

definition toggle_slash :: "cstring \<Rightarrow> cstring" where
  "toggle_slash path =
    (if cchar path (length path - 1) = slash then butlast path else path @ [slash])"

text \<open>\<open>None\<close> where the code has no defined result: the empty path under a longer root.\<close>

definition resolve :: "cstring \<Rightarrow> node list \<Rightarrow> cstring \<Rightarrow> target option option" where
  "resolve root ks path =
    (case resolve1 root ks path of Some tg \<Rightarrow> Some (Some tg)
     | None \<Rightarrow> if path = [] then None else Some (resolve1 root ks (toggle_slash path)))"

fun target_off :: "nat \<Rightarrow> target option \<Rightarrow> u32" where
  "target_off hl None = 0"
| "target_off hl (Some Root) = 8"
| "target_off hl (Some (At l)) = of_nat (loc_off hl l)"

lemma loc_res_target: "loc_res hl l = target_off hl (map_option At l)"
  by (cases l) (simp_all add: loc_res_def)

lemma do_get_path_offset_represents:
  assumes r: "represents b root ks" and p: "is_cstr path"
  shows "do_get_path_offset b path = Some (target_off (first_pos root) (resolve1 root ks path))"
proof -
  obtain H J where H: "head b = H @ enc_root ks @ J" "length H = first_pos root" "forest_ok ks"
    "small b" "tail b = of_nat (first_pos root + length (enc_root ks))"
    "first_pos root + length (enc_root ks) \<le> length (head b)"
    "first_name_off b = of_nat (first_pos root)" "cap_ok b" "region b (first_pos root) ks"
    "root_ok root" using r by (rule representsE)
  have s: "first_pos root \<le> 1073741824" using H(4,6) by linarith
  have one: "first_name_off b = 10 \<longleftrightarrow> length root = 1"
    using s of_nat32_eq[of "first_pos root" 10] unfolding H(7) by simp
  have n: "unat (first_name_off b - 8 - 1) = length root"
    using s of_nat32_diff[of 9 "first_pos root"] unfolding H(7) by (simp add: off_simps)
  have loop: "path_offset_loop b (first_name_off b) q
      = Some (target_off (first_pos root) (map_option At (lookup ks (split_slash q))))"
    if q: "is_cstr q" for q
  proof (cases "ks = []")
    case True
    then have "\<not> first_name_off b < tail b" using H(5,7) by (simp add: enc_root_def)
    moreover have "lookup [] (split_slash q) = None"
      using split_slash_not_Nil[of q] by (cases "split_slash q") (simp_all add: lookup_def)
    ultimately show ?thesis using True by (subst path_offset_loop.simps) simp
  next
    case False
    then have "path_offset_loop b (of_nat (epos (first_pos root) [] [])) q
        = Some (loc_res (first_pos root) (locate [] [] ks (split_slash q)))"
      by (intro path_offset_loop_locate) (use H(9) q in simp_all)
    then show ?thesis using H(7) by (simp add: lookup_def loc_res_target)
  qed
  have "is_cstr (drop (length root) path)" using p by (auto simp: is_cstr_def dest: in_set_dropD)
  note l = loop[OF this]
  have le: "take (length root) path = root \<Longrightarrow> \<not> length path < length root"
    by (metis length_take min.absorb_iff2 not_less)
  show ?thesis
    using one n l le get_root_path_represents[OF r]
    by (simp add: do_get_path_offset_def resolve1_def strstr_prefix Let_def)
qed

theorem get_path_offset_represents:
  assumes "represents b root ks" and "is_cstr path"
  shows "get_path_offset b path = map_option (target_off (first_pos root)) (resolve root ks path)"
proof -
  let ?hl = "first_pos root"
  have t: "is_cstr (toggle_slash path)"
    using assms(2) by (auto simp: toggle_slash_def is_cstr_def dest: in_set_butlastD)
  have nz: "target_off ?hl (Some tg) \<noteq> 0" if "resolve1 root ks path = Some tg" for tg
  proof (cases tg)
    case (At l)
    obtain fs ls k rs where l: "l = (fs, ls, k, rs)" by (cases l)
    have "lookup ks (split_slash (drop (length root) path)) = Some l"
      using that At by (auto simp: resolve1_def split: if_splits)
    then have "region b ?hl (plug fs (ls @ k # rs))"
      using assms(1) lookup_sound(1) l by (fastforce simp: represents_def)
    note r = this
    have "epos ?hl fs ls < ?hl + length (enc_root (plug fs (ls @ k # rs)))"
      using r by (rule region_entry) (use esize_pos[of k] in linarith)
    from region_lt_tail(3)[OF r this] have "(of_nat (epos ?hl fs ls) :: u32) \<noteq> 0"
      by (intro of_nat32_neq_0) simp_all
    then show ?thesis using At l by simp
  qed simp
  show ?thesis
    using nz do_get_path_offset_represents[OF assms] do_get_path_offset_represents[OF assms(1) t]
    by (cases "resolve1 root ks path")
      (simp_all add: get_path_offset_def resolve_def toggle_slash_def)
qed

lemma resolve1_At:
  assumes "resolve1 root ks path = Some (At l)"
  shows "loc_forest l = ks" "loc_first l"
    "path \<noteq> []" "split_slash (drop (length root) path) = loc_names l" "take (length root) path = root"
  using assms lookup_sound lookup_first by (fastforce simp: resolve1_def split: if_splits)+

lemma resolve_At:
  assumes "resolve root ks path = Some (Some (At l))"
  shows "loc_forest l = ks" "loc_first l"
  using assms by (auto simp: resolve_def dest: resolve1_At split: option.splits if_splits)

end
