(* ===== verification/Search_Layout.thy ===== *)
theory Search_Layout
  imports Fs_State
begin

text \<open>
  The names of a buffer in the order of the layout.  A token is a name with the size of its
  record; the empty name stands for the marker that ends a folder.  \<open>walks\<close> says that
  \<open>next_name\<close> leads from token to token.
\<close>

type_synonym token = "cstring \<times> nat"

abbreviation tok :: "node \<Rightarrow> token" where
  "tok k \<equiv> (nname k, esize k)"

abbreviation end_tok :: token where
  "end_tok \<equiv> ([], 5)"

fun toks_node :: "node \<Rightarrow> token list" where
  "toks_node (File n) = []"
| "toks_node (Dir n ks) = (if ks = [] then [] else map tok ks @ [end_tok] @ concat (map toks_node ks))"

definition level_toks :: "node list \<Rightarrow> token list" where
  "level_toks ks = map tok ks @ [end_tok] @ concat (map toks_node ks)"

definition layout :: "node list \<Rightarrow> token list" where
  "layout ks = (if ks = [] then [] else level_toks ks)"

definition toks_size :: "token list \<Rightarrow> nat" where
  "toks_size ts = sum_list (map snd ts)"

lemma toks_size_simps [simp]:
  "toks_size [] = 0" "toks_size (t # ts) = snd t + toks_size ts" "toks_size (xs @ ys) = toks_size xs + toks_size ys"
  by (simp_all add: toks_size_def)

lemma toks_size_tok [simp]: "toks_size (map tok ks) = ents ks"
  by (induction ks) simp_all

lemma toks_size_node [simp]: "toks_size (toks_node k) = nsub k"
proof (induction k)
  case (Dir n ks)
  have "toks_size (concat (map toks_node ks)) = subs ks" using Dir by (induction ks) simp_all
  then show ?case by simp
qed simp

lemma toks_size_concat [simp]: "toks_size (concat (map toks_node ks)) = subs ks"
  by (induction ks) simp_all

lemma toks_size_level [simp]: "toks_size (level_toks ks) = ents ks + 5 + subs ks"
  by (simp add: level_toks_def)

lemma toks_size_layout: "toks_size (layout ks) = length (enc_root ks)"
  by (simp add: layout_def length_enc_root)

lemma toks_node_Dir: "toks_node (Dir n ks) = (if ks = [] then [] else level_toks ks)"
  by (simp add: level_toks_def)

subsection \<open>Walking\<close>

fun walks :: "fs_buf \<Rightarrow> nat \<Rightarrow> token list \<Rightarrow> bool" where
  "walks b a [] = True"
| "walks b a ((n, s) # ts) \<longleftrightarrow> cstr_at (head b) a = Some n
     \<and> next_name b (of_nat a) = Some (of_nat (a + s)) \<and> 0 < s \<and> walks b (a + s) ts"

lemma walks_append [simp]: "walks b a (xs @ ys) \<longleftrightarrow> walks b a xs \<and> walks b (a + toks_size xs) ys"
  by (induction b a xs rule: walks.induct) (simp_all add: ac_simps)

lemma walks_ents:
  assumes "head b = A @ enc_ents d ks @ C" "forest_ok ks" "small b"
  shows "walks b (length A) (map tok ks)"
  using assms
proof (induction ks arbitrary: d A)
  case (Cons k ks)
  have h: "head b = A @ enc_ent d k @ (enc_ents (d - esize k + nsub k) ks @ C)" using Cons.prems by simp
  have "walks b (length (A @ enc_ent d k)) (map tok ks)"
    by (rule Cons.IH[where d = "d - esize k + nsub k"]) (use Cons.prems in simp_all)
  then show ?case
    using next_name_ent[OF h _ refl Cons.prems(3)] cstr_at_ent[of k A "length A" d] h Cons.prems(2)
    by (simp del: of_nat_add)
qed simp

lemma walks_marker:
  assumes h: "head b = A @ marker r @ C" "small b"
  shows "walks b (length A) [end_tok]"
proof -
  obtain t ts where t: "tag32 r = t # ts" "t \<noteq> 0" using tag32_Cons[of r] by blast
  have sm: "length A + 5 \<le> 1073741824" using h by simp
  have c: "cstr_at (head b) (length A) = Some []"
    using cstr_at_split[of A "length A" "[]" "tag32 r @ C"] h by (simp add: marker_def is_cstr_def)
  have u: "unat (of_nat (length A) + 1 :: u32) = length A + 1"
    using sm unat_of_nat32[of "length A + 1"] by (simp add: ac_simps)
  have "rd8 (head b) (length A + 1) = Some t"
    using rd8_split[of "A @ [0]" "length A + 1" t "ts @ C"] h t by (simp add: marker_def)
  then show ?thesis
    using c u t sm by (simp add: next_name_def off_simps Let_def)
qed

lemma walks_subs:
  "head b = A @ enc_node d k @ C \<Longrightarrow> node_ok k \<Longrightarrow> small b \<Longrightarrow> walks b (length A) (toks_node k)"
  "head b = A @ enc_subs d ks @ C \<Longrightarrow> forest_ok ks \<Longrightarrow> small b \<Longrightarrow> walks b (length A) (concat (map toks_node ks))"
proof (induction d k and d ks arbitrary: A C and A C rule: enc_node_enc_subs.induct)
  case (2 d n ks)
  show ?case
  proof (cases "ks = []")
    case False
    let ?E = "enc_ents (ents ks + 5) ks" and ?M = "marker (d + ents ks + 1)"
    have h: "head b = A @ ?E @ ?M @ enc_subs (ents ks + 5) ks @ C" using 2(2) False by simp
    have ok: "forest_ok ks" using 2(3) by simp
    have "walks b (length A) (map tok ks)" by (rule walks_ents[OF h ok 2(4)])
    moreover have "walks b (length (A @ ?E)) [end_tok]" by (rule walks_marker[where C = "enc_subs (ents ks + 5) ks @ C"]) (use h 2(4) in simp_all)
    moreover have "walks b (length (A @ ?E @ ?M)) (concat (map toks_node ks))"
      by (rule 2(1)[OF False, where C = C]) (use h ok 2(4) in simp_all)
    ultimately show ?thesis using False by (simp add: ac_simps)
  qed simp
next
  case (4 d k ks)
  have "walks b (length A) (toks_node k)"
    by (rule 4(1)[where C = "enc_subs (d - esize k + nsub k) ks @ C"]) (use 4 in simp_all)
  moreover have "walks b (length (A @ enc_node d k)) (concat (map toks_node ks))"
    by (rule 4(2)[where C = C]) (use 4 in simp_all)
  ultimately show ?case by simp
qed simp_all

lemma walks_layout:
  assumes "region b hl ks"
  shows "walks b hl (layout ks)"
proof (cases "ks = []")
  case False
  obtain A C where h: "head b = A @ enc_root ks @ C" "length A = hl" "forest_ok ks" "small b"
    using assms by (rule regionE)
  let ?n = "Dir [] ks"
  have "enc_root ks = enc_ents (ents ks + 5) ks @ marker 0 @ enc_subs (ents ks + 5) ks"
    using False by (simp add: enc_root_def block_def)
  then have h': "head b = A @ enc_ents (ents ks + 5) ks @ marker 0 @ enc_subs (ents ks + 5) ks @ C" using h by simp
  have "walks b (length A) (map tok ks)" by (rule walks_ents[OF h' h(3,4)])
  moreover have "walks b (length (A @ enc_ents (ents ks + 5) ks)) [end_tok]"
    by (rule walks_marker[where C = "enc_subs (ents ks + 5) ks @ C"]) (use h' h(4) in simp_all)
  moreover have "walks b (length (A @ enc_ents (ents ks + 5) ks @ marker 0)) (concat (map toks_node ks))"
    by (rule walks_subs(2)[where C = C]) (use h' h(3,4) in simp_all)
  ultimately show ?thesis using False h(2) by (simp add: layout_def level_toks_def ac_simps)
qed (simp add: layout_def)

subsection \<open>The entries among the tokens\<close>

text \<open>\<open>hits\<close>: the offsets of the names that match, of tokens that start at \<open>a\<close>.\<close>

fun hits :: "(cstring \<Rightarrow> bool) \<Rightarrow> nat \<Rightarrow> token list \<Rightarrow> nat list" where
  "hits m a [] = []"
| "hits m a ((n, s) # ts) = (if n \<noteq> [] \<and> m n then [a] else []) @ hits m (a + s) ts"

lemma hits_append [simp]: "hits m a (xs @ ys) = hits m a xs @ hits m (a + toks_size xs) ys"
  by (induction m a xs rule: hits.induct) (simp_all add: ac_simps)

lemma hits_ge: "x \<in> set (hits m a ts) \<Longrightarrow> a \<le> x"
  by (induction m a ts rule: hits.induct) (auto split: if_splits)

lemma hits_less: "\<forall>t\<in>set ts. 0 < snd t \<Longrightarrow> x \<in> set (hits m a ts) \<Longrightarrow> x < a + toks_size ts"
  by (induction m a ts rule: hits.induct) (auto split: if_splits)

lemma hits_tok: "x \<in> set (hits m a (map tok ks)) \<Longrightarrow>
  \<exists>ls k rs. ks = ls @ k # rs \<and> x = a + ents ls \<and> m (nname k)"
proof (induction ks arbitrary: a)
  case (Cons k ks)
  consider "x = a" "m (nname k)" | "x \<in> set (hits m (a + esize k) (map tok ks))"
    using Cons.prems by (auto split: if_splits)
  then show ?case
  proof cases
    case 1
    then show ?thesis by (intro exI[of _ "[]"] exI[of _ k] exI[of _ ks]) simp
  next
    case 2
    from Cons.IH[OF this] obtain ls k' rs where "ks = ls @ k' # rs" "x = a + esize k + ents ls" "m (nname k')" by blast
    then show ?thesis by (intro exI[of _ "k # ls"] exI[of _ k'] exI[of _ rs]) simp
  qed
qed simp

text \<open>The layout of a plugged forest: the level of the innermost directory starts at \<open>zpos\<close>.\<close>

lemma layout_plug:
  "cs \<noteq> [] \<Longrightarrow> \<exists>X Y. layout (plug fs cs) = X @ level_toks cs @ Y \<and> toks_size X = zpos fs"
proof (induction fs arbitrary: cs)
  case Nil
  then show ?case by (intro exI[of _ "[]"]) (simp add: layout_def)
next
  case (Cons f fs)
  obtain ls n rs where f: "f = (ls, n, rs)" by (cases f)
  let ?cs = "ls @ Dir n cs # rs"
  obtain X Y where xy: "layout (plug fs ?cs) = X @ level_toks ?cs @ Y" "toks_size X = zpos fs"
    using Cons.IH[of ?cs] by auto
  let ?A = "map tok ?cs @ [end_tok] @ concat (map toks_node ls)"
  have "level_toks ?cs = ?A @ level_toks cs @ concat (map toks_node rs)"
    using Cons.prems by (simp add: level_toks_def)
  then have "layout (plug (f # fs) cs) = (X @ ?A) @ level_toks cs @ (concat (map toks_node rs) @ Y)"
    using xy f by simp
  moreover have "toks_size (X @ ?A) = zpos (f # fs)" using xy f by simp
  ultimately show ?case by blast
qed

lemma hits_concat: "x \<in> set (hits m q (concat (map toks_node cs))) \<Longrightarrow>
  \<exists>us k vs. cs = us @ k # vs \<and> x \<in> set (hits m (q + subs us) (toks_node k))"
proof (induction cs arbitrary: q)
  case (Cons k cs)
  consider "x \<in> set (hits m q (toks_node k))" | "x \<in> set (hits m (q + nsub k) (concat (map toks_node cs)))"
    using Cons.prems by auto
  then show ?case
  proof cases
    case 1
    then show ?thesis by (intro exI[of _ "[]"] exI[of _ k] exI[of _ cs]) simp
  next
    case 2
    from Cons.IH[OF this] obtain us k' vs where "cs = us @ k' # vs" "x \<in> set (hits m (q + nsub k + subs us) (toks_node k'))"
      by blast
    then show ?thesis by (intro exI[of _ "k # us"] exI[of _ k'] exI[of _ vs]) (simp add: ac_simps)
  qed
qed simp

lemma hits_level:
  "x \<in> set (hits m (hl + zpos fs) (level_toks cs)) \<Longrightarrow>
    \<exists>fs' ls k rs. plug fs cs = plug fs' (ls @ k # rs) \<and> x = epos hl fs' ls \<and> m (nname k)"
proof (induction "size_list size cs" arbitrary: fs cs rule: less_induct)
  case less
  let ?p = "hl + zpos fs"
  consider "x \<in> set (hits m ?p (map tok cs))" | "x \<in> set (hits m (?p + ents cs + 5) (concat (map toks_node cs)))"
    using less.prems by (auto simp: level_toks_def ac_simps)
  then show ?case
  proof cases
    case 1
    then obtain ls k rs where "cs = ls @ k # rs" "x = ?p + ents ls" "m (nname k)" using hits_tok by blast
    then show ?thesis by (intro exI[of _ fs] exI[of _ ls] exI[of _ k] exI[of _ rs]) simp
  next
    case 2
    then obtain us k vs where k: "cs = us @ k # vs" "x \<in> set (hits m (?p + ents cs + 5 + subs us) (toks_node k))"
      using hits_concat by blast
    then obtain n cs' where d: "k = Dir n cs'" by (cases k) auto
    have z: "hl + zpos ((us, n, vs) # fs) = ?p + ents cs + 5 + subs us" using k(1) d by simp
    have "x \<in> set (hits m (hl + zpos ((us, n, vs) # fs)) (level_toks cs'))"
      unfolding z using k(2) unfolding d toks_node_Dir by (simp split: if_splits)
    moreover have "size_list size cs' < size_list size cs" using k(1) d by simp
    ultimately have "\<exists>fs' ls k rs. plug ((us, n, vs) # fs) cs' = plug fs' (ls @ k # rs)
        \<and> x = epos hl fs' ls \<and> m (nname k)" by (rule less.hyps[rotated])
    then show ?thesis using k(1) d by simp
  qed
qed

text \<open>The hits are exactly the entries of the forest whose name matches.\<close>

lemma hits_layout:
  assumes "forest_ok ks"
  shows "x \<in> set (hits m hl (layout ks)) \<longleftrightarrow>
    (\<exists>fs ls k rs. ks = plug fs (ls @ k # rs) \<and> x = epos hl fs ls \<and> m (nname k))"
proof
  assume "x \<in> set (hits m hl (layout ks))"
  then have "x \<in> set (hits m (hl + zpos []) (level_toks ks))" by (simp add: layout_def split: if_splits)
  from hits_level[OF this] show "\<exists>fs ls k rs. ks = plug fs (ls @ k # rs) \<and> x = epos hl fs ls \<and> m (nname k)" by simp
next
  assume "\<exists>fs ls k rs. ks = plug fs (ls @ k # rs) \<and> x = epos hl fs ls \<and> m (nname k)"
  then obtain fs ls k rs where k: "ks = plug fs (ls @ k # rs)" "x = epos hl fs ls" "m (nname k)" by blast
  then obtain X Y where xy: "layout ks = X @ level_toks (ls @ k # rs) @ Y" "toks_size X = zpos fs"
    using layout_plug[of "ls @ k # rs" fs] by auto
  have "name_ok (nname k)" using assms k(1) by (simp add: name_ok_nname)
  then show "x \<in> set (hits m hl (layout ks))" using xy k by (simp add: level_toks_def name_ok_def)
qed

end
