(* ===== verification/Search_Props.thy ===== *)
theory Search_Props
  imports Fs_Parallel Search_Layout
begin

text \<open>
  What the searches return on a buffer that holds a forest.  \<open>found m a ts e\<close>: the offsets below
  \<open>e\<close> of the matching names of the tokens \<open>ts\<close> at \<open>a\<close>.
\<close>

definition found :: "(cstring \<Rightarrow> bool) \<Rightarrow> nat \<Rightarrow> token list \<Rightarrow> nat \<Rightarrow> nat list" where
  "found m a ts e = filter (\<lambda>x. x < e) (hits m a ts)"

lemma found_append: "found m a (xs @ ys) e = found m a xs e @ found m (a + toks_size xs) ys e"
  by (simp add: found_def)

lemma found_past: "e \<le> a \<Longrightarrow> found m a ts e = []"
  unfolding found_def filter_empty_conv using hits_ge by (metis leD le_trans)

lemma found_Cons: "a < e \<Longrightarrow> found m a ((n, s) # ts) e = (if n \<noteq> [] \<and> m n then [a] else []) @ found m (a + s) ts e"
  by (simp add: found_def)

text \<open>The scan stops after a prefix \<open>xs\<close> of the tokens: at the bound, or with all results it may return.\<close>

lemma search_files_loop_walks:
  assumes "walks b a ts" "a + toks_size ts \<le> 1073741824" "e \<le> a + toks_size ts" "n < 4294967296" "length acc \<le> n"
  shows "\<exists>xs ys. ts = xs @ ys \<and> search_files_loop b (of_nat e) (of_nat n) m None (of_nat a) acc
      = Some (acc @ map of_nat (found m a xs e), of_nat (a + toks_size xs))
    \<and> length acc + length (found m a xs e) \<le> n
    \<and> (length acc + length (found m a xs e) = n \<or> e \<le> a + toks_size xs)"
  using assms
proof (induction ts arbitrary: a acc)
  case Nil
  then have "\<not> (of_nat a :: u32) < of_nat e" by (simp add: off_simps del: of_nat_add)
  then show ?case using Nil by (simp add: search_files_loop.simps found_past)
next
  case (Cons t ts)
  obtain nm s where t: "t = (nm, s)" by (cases t)
  have bnd: "a < 4294967296" "e < 4294967296" "length acc < 4294967296" using Cons.prems by auto
  show ?case
  proof (cases "a < e \<and> length acc < n")
    case False
    then have "\<not> ((of_nat a :: u32) < of_nat e \<and> (of_nat (length acc) :: u32) < of_nat n)"
      using bnd Cons.prems(4) by (simp add: off_simps)
    then have "search_files_loop b (of_nat e) (of_nat n) m None (of_nat a) acc = Some (acc, of_nat a)"
      by (subst search_files_loop.simps) (simp only: if_False)
    then show ?thesis using False Cons.prems(5) by (intro exI[of _ "[]"] exI[of _ "t # ts"]) (auto simp: found_def)
  next
    case True
    then have lt: "(of_nat a :: u32) < of_nat e \<and> (of_nat (length acc) :: u32) < of_nat n"
      using bnd Cons.prems(4) by (simp add: off_simps)
    define acc' where "acc' = (if nm \<noteq> [] \<and> m nm then acc @ [of_nat a] else acc)"
    have step: "search_files_loop b (of_nat e) (of_nat n) m None (of_nat a) acc
        = search_files_loop b (of_nat e) (of_nat n) m None (of_nat (a + s)) acc'"
      using lt Cons.prems(1) bnd unfolding t
      by (subst search_files_loop.simps) (simp add: acc'_def off_simps Let_def del: of_nat_add)
    have "length acc' \<le> n" using True by (simp add: acc'_def)
    then obtain xs ys where xy: "ts = xs @ ys" "search_files_loop b (of_nat e) (of_nat n) m None (of_nat (a + s)) acc'
        = Some (acc' @ map of_nat (found m (a + s) xs e), of_nat (a + s + toks_size xs))"
      "length acc' + length (found m (a + s) xs e) \<le> n"
      "length acc' + length (found m (a + s) xs e) = n \<or> e \<le> a + s + toks_size xs"
      using Cons.IH[of "a + s" acc'] Cons.prems t by auto
    have f: "found m a (t # xs) e = (if nm \<noteq> [] \<and> m nm then [a] else []) @ found m (a + s) xs e"
      using True t by (simp add: found_Cons)
    have "acc' @ map of_nat (found m (a + s) xs e) = acc @ map of_nat (found m a (t # xs) e)"
      "length acc' + length (found m (a + s) xs e) = length acc + length (found m a (t # xs) e)"
      by (simp_all add: f acc'_def)
    then show ?thesis using xy t step
      by (intro exI[of _ "t # xs"] exI[of _ ys]) (simp add: add.assoc del: of_nat_add)
  qed
qed

text \<open>One page of a search.\<close>

lemma search_files_page:
  assumes r: "represents b root ks" and l: "lock b = Unlocked" and ts: "layout ks = us @ ts"
    and e: "e = unat (min (tail b) end_off)"
  shows "\<exists>xs ys. ts = xs @ ys \<and> search_files b (of_nat (first_pos root + toks_size us)) end_off sz m None
      = Some (map of_nat (found m (first_pos root + toks_size us) xs e), of_nat (first_pos root + toks_size (us @ xs)), b)
    \<and> found m (first_pos root + toks_size us) xs e = take (unat sz) (found m (first_pos root + toks_size us) ts e)"
proof -
  have reg: "region b (first_pos root) ks" using r by (simp add: represents_def)
  let ?h = "first_pos root" and ?a = "first_pos root + toks_size us"
  have tl: "tail b = of_nat (?h + toks_size (layout ks))" "?h + toks_size (layout ks) \<le> 1073741824"
    using region_at_tail[OF reg] by (simp_all add: toks_size_layout)
  let ?b = "b\<lparr>lock := Readers 1\<rparr>"
  have "region ?b ?h ks" using reg by (simp add: region_def)
  then have w: "walks ?b ?a ts" using walks_layout[of ?b ?h ks] ts by simp
  have lb: "b\<lparr>lock := Unlocked\<rparr> = b" using l by simp
  have sz: "?a + toks_size ts \<le> 1073741824" using tl(2) ts by (simp add: ac_simps)
  have ut: "unat (tail b) = ?a + toks_size ts" using tl ts by (simp add: off_simps ac_simps del: of_nat_add)
  have el: "e \<le> ?a + toks_size ts" using ut unfolding e by (metis min.cobounded1 word_le_nat_alt)
  have em: "(if tail b > end_off then end_off else tail b) = (of_nat e :: u32)"
    unfolding e by (simp add: min_def not_less[symmetric])
  obtain xs ys where xy: "ts = xs @ ys" "search_files_loop ?b (of_nat e) (of_nat (unat sz)) m None (of_nat ?a) []
      = Some ([] @ map of_nat (found m ?a xs e), of_nat (?a + toks_size xs))"
    "length (found m ?a xs e) \<le> unat sz" "length (found m ?a xs e) = unat sz \<or> e \<le> ?a + toks_size xs"
    using search_files_loop_walks[OF w sz el, of "unat sz" "[]" m] unsigned_less[of sz, where 'a = nat] by auto
  have "found m ?a xs e = take (unat sz) (found m ?a ts e)"
    using xy(3,4) found_past[of e "?a + toks_size xs" m ys] by (auto simp: xy(1) found_append)
  moreover have "search_files b (of_nat ?a) end_off sz m None
      = Some (map of_nat (found m ?a xs e), of_nat (?h + toks_size (us @ xs)), b)"
    using l lb xy(2) em unfolding search_files_def rdlock_def unlock_def
    by (cases "end_off < tail b") (simp_all add: Let_def add.assoc del: of_nat_add)
  ultimately show ?thesis using xy(1) by blast
qed

subsection \<open>The thread\<close>

text \<open>\<open>ctx_with ctx L\<close>: the context after the results \<open>L\<close>.\<close>

definition ctx_with :: "search_context \<Rightarrow> u32 list \<Rightarrow> search_context" where
  "ctx_with ctx L = ctx\<lparr>num_results := of_nat (length L), ctx_results := take (req_results ctx) L\<rparr>"

lemma ctx_with_simps [simp]:
  "end_pos (ctx_with ctx L) = end_pos ctx" "max_count (ctx_with ctx L) = max_count ctx"
  "num_results (ctx_with ctx L) = of_nat (length L)" "req_results (ctx_with ctx L) = req_results ctx"
  "ctx_results (ctx_with ctx L) = take (req_results ctx) L" "start_pos (ctx_with ctx L) = start_pos ctx"
  by (simp_all add: ctx_with_def)

lemma save_result_with: "length L < 4294967296 \<Longrightarrow> save_result (ctx_with ctx L) x = ctx_with ctx (L @ [x])"
  by (simp add: save_result_def ctx_with_def off_simps ac_simps)

lemma search_thread_loop_walks:
  assumes "walks b a ts" "a + toks_size ts \<le> 1073741824" "e \<le> a + toks_size ts"
    and "end_pos ctx = of_nat e" "max_count ctx \<le> 0" "length L \<le> a"
  shows "search_thread_loop b m (ctx_with ctx L) (of_nat a)
    = Some (ctx_with ctx (L @ map of_nat (found m a ts e)))"
  using assms
proof (induction ts arbitrary: a L)
  case Nil
  then show ?case by (simp add: search_thread_loop.simps off_simps found_past del: of_nat_add)
next
  case (Cons t ts)
  obtain n s where t: "t = (n, s)" by (cases t)
  have bnd: "a < 4294967296" "e < 4294967296" "length L < 4294967296" using Cons.prems by auto
  show ?case
  proof (cases "a < e")
    case False
    then show ?thesis using Cons.prems(4) bnd by (simp add: search_thread_loop.simps off_simps found_past)
  next
    case True
    have c: "\<not> count_reached (ctx_with ctx L')" for L' using Cons.prems(5) by (simp add: count_reached_def)
    define L' where "L' = (if n \<noteq> [] \<and> m n then L @ [of_nat a] else L)"
    have "search_thread_loop b m (ctx_with ctx L) (of_nat a) = search_thread_loop b m (ctx_with ctx L') (of_nat (a + s))"
      using True Cons.prems(1,4) bnd unfolding t
      by (subst search_thread_loop.simps) (simp add: L'_def c off_simps save_result_with Let_def del: of_nat_add)
    moreover have "search_thread_loop b m (ctx_with ctx L') (of_nat (a + s))
        = Some (ctx_with ctx (L' @ map of_nat (found m (a + s) ts e)))"
      by (rule Cons.IH) (use Cons.prems t in \<open>auto simp: L'_def\<close>)
    ultimately show ?thesis using True t by (simp add: found_Cons L'_def)
  qed
qed

lemma search_thread_walks:
  assumes "walks b a ts" "a + toks_size ts \<le> 1073741824" "e \<le> a + toks_size ts"
    and "start_pos ctx = of_nat a" "end_pos ctx = of_nat e" "max_count ctx \<le> 0" "num_results ctx = 0" "ctx_results ctx = []"
  shows "search_thread b m ctx = Some (ctx_with ctx (map of_nat (found m a ts e)))"
proof -
  have "ctx_with ctx [] = ctx" using assms(7,8) by (simp add: ctx_with_def)
  then show ?thesis using search_thread_loop_walks[OF assms(1-3,5,6), of "[]" m] assms(4) by (simp add: search_thread_def)
qed

subsection \<open>Rules that select nothing\<close>

text \<open>Rules with options only: the loop with rules does the same as the loop without.\<close>

definition only_options :: "search_rule list \<Rightarrow> bool" where
  "only_options rules = list_all (\<lambda>r. rule_class (flag r) = Some SEARCH_RULE) rules"

lemma get_rules_options:
  assumes "only_options rules" "rules \<noteq> []" "type \<noteq> SEARCH_RULE"
  shows "get_rules mal rules type = (1, Some [])"
proof -
  have "get_rules_loop mal type rs re [] = ((if rs = [] then re else re OR 1), Some [])"
    if "only_options rs" for rs re
    using that by (induction rs arbitrary: re) (use assms(3) in \<open>auto simp: only_options_def or.assoc Let_def\<close>)
  then show ?thesis using assms by (simp add: get_rules_def)
qed

lemma rulesearch_loop_walks:
  assumes "walks b a ts" "a + toks_size ts \<le> 1073741824" "e \<le> a + toks_size ts"
    and "end_pos ctx = of_nat e" "max_count ctx \<le> 0" "length L \<le> a"
  shows "rulesearch_loop mal b m 1 [] [] [] (ctx_with ctx L) (of_nat a)
    = Some (ctx_with ctx (L @ map of_nat (found m a ts e)))"
  using assms
proof (induction ts arbitrary: a L)
  case Nil
  then show ?case by (simp add: rulesearch_loop.simps off_simps found_past del: of_nat_add)
next
  case (Cons t ts)
  obtain n s where t: "t = (n, s)" by (cases t)
  have bnd: "a < 4294967296" "e < 4294967296" "length L < 4294967296" using Cons.prems by auto
  show ?case
  proof (cases "a < e")
    case False
    then show ?thesis using Cons.prems(4) bnd by (simp add: rulesearch_loop.simps off_simps found_past)
  next
    case True
    have c: "\<not> count_reached (ctx_with ctx L')" for L' using Cons.prems(5) by (simp add: count_reached_def)
    define L' where "L' = (if n \<noteq> [] \<and> m n then L @ [of_nat a] else L)"
    have "rulesearch_loop mal b m 1 [] [] [] (ctx_with ctx L) (of_nat a)
        = rulesearch_loop mal b m 1 [] [] [] (ctx_with ctx L') (of_nat (a + s))"
      using True Cons.prems(1,4) bnd unfolding t
      by (subst rulesearch_loop.simps)
        (simp add: L'_def c off_simps save_result_with should_jump_def rules_accept_def Let_def del: of_nat_add)
    moreover have "rulesearch_loop mal b m 1 [] [] [] (ctx_with ctx L') (of_nat (a + s))
        = Some (ctx_with ctx (L' @ map of_nat (found m (a + s) ts e)))"
      by (rule Cons.IH) (use Cons.prems t in \<open>auto simp: L'_def\<close>)
    ultimately show ?thesis using True t by (simp add: found_Cons L'_def)
  qed
qed

lemma rulesearch_thread_walks:
  assumes "walks b a ts" "a + toks_size ts \<le> 1073741824" "e \<le> a + toks_size ts"
    and "start_pos ctx = of_nat a" "end_pos ctx = of_nat e" "max_count ctx \<le> 0" "num_results ctx = 0" "ctx_results ctx = []"
    and "only_options rules" "rules \<noteq> []"
  shows "rulesearch_thread mal b m rules ctx = Some (ctx_with ctx (map of_nat (found m a ts e)))"
proof -
  have "ctx_with ctx [] = ctx" using assms(7,8) by (simp add: ctx_with_def)
  then show ?thesis
    using rulesearch_loop_walks[OF assms(1-3,5,6), of "[]" mal m] assms(4,10) get_rules_options[OF assms(9,10)]
    by (simp add: rulesearch_thread_def Let_def)
qed

subsection \<open>A search in one piece\<close>

lemma length_found: "walks b a ts \<Longrightarrow> length (found m a ts e) \<le> toks_size ts"
proof (induction b a ts rule: walks.induct)
  case (2 b a n s ts)
  then have "length (found m (a + s) ts e) \<le> toks_size ts" "0 < s" by simp_all
  then show ?case by (simp add: found_def)
qed (simp add: found_def)

text \<open>\<open>merge_results\<close> of one context without limit returns what the context has.\<close>

lemma copy_results_room:
  "length res + length rs \<le> mr \<Longrightarrow> copy_results mr l mx rs res tt mo = (res @ rs, tt, mo)"
  by (induction mr l mx rs res tt mo rule: copy_results.induct) auto

lemma merge_one:
  assumes "mx \<le> 0" "length L < 4294967296" "req_results ctx = mr"
  shows "merge_results mr mx [ctx_with ctx L] [] 0 mo = (take mr L, of_nat (length L), mo)"
proof -
  have "take (min mr (length L)) (take mr L) = take mr L" by (simp add: min_def)
  then show ?thesis using assms by (simp add: copy_results_room off_simps)
qed

lemma pieces_one:
  assumes "mal sizeof_search_context" "mal (unat cnt * 4)" "st \<le> mo" "mo - st \<le> (cnt + 1) * 1024"
    and "next_name b mo = Some nx" "unat mo \<le> 1073741824"
  shows "pieces mal b pool st mo cnt mx = Some ([\<lparr>start_pos = st, end_pos = mo, req_results = unat cnt,
    max_count = mx, num_results = 0, ctx_results = []\<rparr>], False)"
proof -
  let ?p = "max (mo - st) 1"
  have p: "unat ?p \<le> 1073741824" "1 \<le> unat ?p" using assms(3,6) by (auto simp: max_def unat_sub word_le_nat_alt word_less_nat_alt)
  have d: "(mo - st) div 1 = mo - st" by simp
  have "unat st + unat ?p < 4294967296" using assms(3,6) p by (simp add: word_le_nat_alt)
  then have u1: "unat (st + ?p) = unat st + unat ?p" by (simp add: unat_word_ariths)
  have "unat mo + unat ?p < 4294967296" using assms(6) p by simp
  then have u2: "unat (mo + ?p) = unat mo + unat ?p" by (simp add: unat_word_ariths)
  have g1: "st + ?p \<ge> mo" unfolding word_le_nat_alt u1 using assms(3) by (auto simp: max_def unat_sub word_le_nat_alt)
  have g2: "mo + ?p > mo" unfolding word_less_nat_alt u2 using p by simp
  have "make_contexts mal b (Suc 0) ?p (unat cnt) mx mo st mo [] = Some ([\<lparr>start_pos = st, end_pos = mo, req_results = unat cnt,
    max_count = mx, num_results = 0, ctx_results = []\<rparr>], False)"
    using assms(1-3,5) g2 by (simp add: search_thread_context_new_def Let_def)
  then show ?thesis unfolding pieces_def using assms(4) g1 by (simp add: Let_def)
qed

lemma search_one_piece:
  assumes r: "represents b root ks" and l: "lock b = Unlocked" and ts: "layout ks = us @ ts"
    and mem: "mal sizeof_search_context" "mal (unat cnt * 4)" "mal sizeof_compare_query"
    and o: "search_options rule q = Some opts" "opt_max opts \<le> 0" "only_options rule"
    and st: "st = of_nat (first_pos root + toks_size us)" and mo: "mo = min (tail b) en" "st \<le> mo"
    and short: "mo - st \<le> (cnt + 1) * 1024" and nx: "next_name b mo \<noteq> None"
  shows "parallelsearch_files mal cat_pinyin compile pool b st en cnt rule q
    = (let fs = found (comparator cat_pinyin compile opts) (first_pos root + toks_size us) ts (unat mo)
       in Some (map of_nat (take (unat cnt) fs), of_nat (length fs), mo, b))"
proof -
  have reg: "region b (first_pos root) ks" using r by (simp add: represents_def)
  let ?h = "first_pos root" and ?a = "first_pos root + toks_size us" and ?b = "b\<lparr>lock := Readers 1\<rparr>"
  let ?m = "comparator cat_pinyin compile opts"
  have "region ?b ?h ks" using reg by (simp add: region_def)
  then have w: "walks ?b ?a ts" using walks_layout[of ?b ?h ks] ts by simp
  have tl: "tail b = of_nat (?h + toks_size (layout ks))" "?h + toks_size (layout ks) \<le> 1073741824"
    using region_at_tail[OF reg] by (simp_all add: toks_size_layout)
  have sz: "?a + toks_size ts \<le> 1073741824" using tl(2) ts by (simp add: ac_simps)
  have ut: "unat (tail b) = ?a + toks_size ts" using tl ts by (simp add: off_simps ac_simps del: of_nat_add)
  have el: "unat mo \<le> ?a + toks_size ts" using ut unfolding mo by (metis min.cobounded1 word_le_nat_alt)
  have lb: "b\<lparr>lock := Unlocked\<rparr> = b" using l by simp
  obtain nx' where nx': "next_name ?b mo = Some nx'" using nx by (auto simp: next_name_def)
  define ctx where "ctx = \<lparr>start_pos = st, end_pos = mo, req_results = unat cnt,
    max_count = opt_max opts, num_results = 0, ctx_results = []\<rparr>"
  have pc: "pieces mal ?b pool st mo cnt (opt_max opts) = Some ([ctx], False)"
    unfolding ctx_def by (rule pieces_one[where nx = nx']) (use mem short nx' mo(2) sz el in auto)
  define F where "F = map (of_nat :: nat \<Rightarrow> u32) (found ?m ?a ts (unat mo))"
  have "search_thread ?b ?m ctx = Some (ctx_with ctx F)"
    unfolding F_def by (rule search_thread_walks[OF w sz el]) (use o st in \<open>simp_all add: ctx_def del: of_nat_add\<close>)
  moreover have "rule \<noteq> [] \<Longrightarrow> rulesearch_thread mal ?b ?m rule ctx = Some (ctx_with ctx F)"
    unfolding F_def by (rule rulesearch_thread_walks[OF w sz el]) (use o st in \<open>simp_all add: ctx_def del: of_nat_add\<close>)
  ultimately have rt: "run_threads (if rule \<noteq> [] then rulesearch_thread mal ?b ?m rule else search_thread ?b ?m) [ctx]
      = Some [ctx_with ctx F]" by simp
  have lF: "length F < 4294967296" using length_found[OF w, of ?m "unat mo"] sz by (simp add: F_def)
  have mg: "merge_results (unat cnt) (opt_max opts) [ctx_with ctx F] [] 0 mo = (take (unat cnt) F, of_nat (length F), mo)"
    by (rule merge_one[OF o(2) lF]) (simp add: ctx_def)
  have mi: "(if tail b > en then en else tail b) = mo" using mo(1) by (simp add: min_def not_less[symmetric])
  have rd: "rdlock b = Some ?b" using l by (simp add: rdlock_def)
  have ul: "unlock ?b = Some b" using lb by (simp add: unlock_def)
  have tb: "tail ?b = tail b" by simp
  show ?thesis
    unfolding parallelsearch_files_def rd Option.bind_lunit Let_def tb mi o(1) pc rt mg ul
    using mem(3) rt ul mg by (simp add: F_def take_map Let_def del: of_nat_add)
qed

end
