(* ===== verification/Fs_Insert.thy ===== *)
theory Fs_Insert
  imports Fs_State
begin

text \<open>
  Insertion: the abstract operation \<open>tree_insert\<close> and the proof that \<open>do_insert_path\<close>
  implements it on a buffer that represents a forest.
\<close>

subsection \<open>The new layout\<close>

lemma enc_root_plug_split:
  assumes "ls @ rs \<noteq> []"
  shows "enc_root (plug fs (ls @ rs)) =
     zpre fs (ents (ls @ rs) + 5 + subs (ls @ rs))
     @ enc_ents (ents (ls @ rs) + 5) ls @ enc_ents (ents rs + 5 + subs ls) rs
     @ marker (fpar fs (ents (ls @ rs)))
     @ enc_subs (ents (ls @ rs) + 5) ls @ enc_subs (ents rs + 5 + subs ls) rs
     @ zsuf fs (ents (ls @ rs) + 5 + subs (ls @ rs))"
  unfolding plug_layout[OF assms] block_split by simp

lemma plug_layout_empty:
  "enc_root (plug fs (ls @ Dir n [] # rs)) = zlev 0 (ls, n, rs) fs 0 @ zsuf ((ls, n, rs) # fs) 0"
proof -
  have "ls @ Dir n [] # rs \<noteq> []" by simp
  from enc_root_plug_split[OF this, of fs] show ?thesis by (simp add: ac_simps)
qed

text \<open>After \<open>update_offsets\<close> the buffer holds the layout of the level \<open>ls @ rs\<close>.\<close>

lemma update_offsets_relayout:
  fixes D :: u32
  assumes h: "head b = H @ zpre fs g @ enc_ents d ls @ enc_ents (ents rs + 5 + subs ls) rs
        @ marker (fpar fs (ents (ls @ rs)))
        @ enc_subs d ls @ enc_subs (ents rs + 5 + subs ls) rs @ zsuf fs g @ J"
    and ok: "forest_ok (plug fs (ls @ rs))" and ne: "ls @ rs \<noteq> []" and H: "length H = hl" "0 < hl"
    and sm: "small b" and f: "first_name_off b = of_nat hl"
    and t: "tail b = of_nat (hl + length (enc_root (plug fs (ls @ rs))))"
      "hl + length (enc_root (plug fs (ls @ rs))) \<le> length (head b)"
    and d: "ls \<noteq> [] \<Longrightarrow> of_nat d + D = (of_nat (ents (ls @ rs) + 5) :: u32)"
      "ls \<noteq> [] \<Longrightarrow> ents ls \<le> d" "ls \<noteq> [] \<Longrightarrow> d + subs ls < 1073741824"
    and g: "of_nat g + D = (of_nat (ents (ls @ rs) + 5 + subs (ls @ rs)) :: u32)"
      "zsize fs g < 1073741824"
  shows "update_offsets b (of_nat (epos hl fs ls)) D True
    = Some (b\<lparr>head := H @ enc_root (plug fs (ls @ rs)) @ J\<rparr>)"
proof -
  let ?E = "ents (ls @ rs)" and ?Z = "enc_subs (ents rs + 5 + subs ls) rs"
  have G: "?E + 5 + subs ls + length ?Z = ?E + 5 + subs (ls @ rs)" by simp
  have sz: "length (enc_root (plug fs (ls @ rs))) = zpos fs + (?E + 5 + subs ls + length ?Z)
      + length (zsuf fs g)"
    using region_size[OF ne, of fs] length_zsuf_indep[of fs g] G by metis
  have ok': "frames_ok fs" "forest_ok ls" "forest_ok rs" using ok by simp_all
  have E: "?E = ents ls + ents rs" by simp
  have g': "of_nat g + D = (of_nat (?E + 5 + subs ls + length ?Z) :: u32)" unfolding G by (rule g(1))
  have T: "hl + length (enc_root (plug fs (ls @ rs))) = hl + zpos fs + (?E + 5 + subs ls + length ?Z)
      + length (zsuf fs g)" unfolding sz by simp
  show ?thesis
    using update_offsets_level[OF h ok' H sm f E t T d g' g(2)]
    unfolding G enc_root_plug_split[OF ne] by simp
qed

text \<open>The size of the region and the level, for the side conditions of the repair.\<close>

lemma region_zsize:
  assumes "region b hl (plug fs ks)" "ks \<noteq> []"
  shows "zsize fs (ents ks + 5 + subs ks) = length (enc_root (plug fs ks))"
    and "zsize fs (ents ks + 5 + subs ks) < 1073741824"
proof -
  show e: "zsize fs (ents ks + 5 + subs ks) = length (enc_root (plug fs ks))"
    unfolding region_size[OF assms(2)] zsize_eq by simp
  show "zsize fs (ents ks + 5 + subs ks) < 1073741824"
    using region_at_tail(2)[OF assms(1)] assms(1) unfolding e by (simp add: region_def)
qed

subsection \<open>A new last entry of a directory that has kids\<close>

text \<open>The new parent tag of a directory below the root.\<close>

lemma retag_parent:
  assumes h: "head b = A @ enc_ents d rs @ marker p0 @ C" and ok: "forest_ok rs"
    and a: "length A = a" "a + ents rs = hl + zpos fs + E" "0 < hl" and sm: "small b"
    and t: "tail b = of_nat t" "a + ents rs < t" "t \<le> length (head b)" and fs: "fs \<noteq> []"
  shows "\<exists>tl. get_folder_tail_offset b (of_nat a) = Some tl
    \<and> set_parent_offset b tl (of_nat (zparent hl fs))
      = Some (b\<lparr>head := A @ enc_ents d rs @ marker (fpar fs E) @ C\<rparr>)"
proof -
  let ?m = "a + ents rs"
  have m: "head b = (A @ enc_ents d rs) @ marker p0 @ C" "length (A @ enc_ents d rs) = ?m"
    using h a by simp_all
  have zt: "?m + 1 - fpar fs E = zparent hl fs" "fpar fs E \<le> ?m + 1"
    using zparent_tag(1)[OF fs, of hl E] zparent_tag(2)[OF fs, of E] a by simp_all
  then have z: "zparent hl fs \<le> ?m + 1" "zparent hl fs \<noteq> 0" "?m + 1 - zparent hl fs = fpar fs E"
    using zparent_less_zpos[OF fs a(3)] by linarith+
  have "set_parent_offset b (of_nat ?m) (of_nat (zparent hl fs))
    = Some (b\<lparr>head := (A @ enc_ents d rs) @ marker (fpar fs E) @ C\<rparr>)"
    using set_parent_offset_at[OF m(1) length_marker m(2) sm z(1)] z by simp
  then show ?thesis
    using get_folder_tail_offset_ents[OF h ok a(1) sm t] by (intro exI[of _ "of_nat ?m"]) simp
qed

lemma insert_level:
  fixes d :: bool
  assumes r: "represents b root (plug fs ks)" and ne: "ks \<noteq> []" and n: "name_ok name"
    "length name < 1073741824" and al: "alloc_ok al"
  defines "off \<equiv> (of_nat (epos (first_pos root) fs ks) :: u32)"
    and "x \<equiv> length name + 1 + (if d then 4 else 1)"
  shows "insert_new_name al b off name d False = Some (ERR_NO_MEM, b)
        \<and> length (head b) \<le> first_pos root + length (enc_root (plug fs ks)) + x
    \<or> (\<exists>b1 b2. insert_new_name al b off name d False = Some (FS_OK, b1)
        \<and> (if fs = [] then b2 = b1
            else \<exists>tl. get_folder_tail_offset b1 off = Some tl
              \<and> set_parent_offset b1 tl (of_nat (zparent (first_pos root) fs)) = Some b2)
        \<and> (\<exists>b3. update_offsets b2 off (of_nat x) True = Some b3 \<and> lock b3 = lock b
             \<and> tail b3 = tail b + of_nat x \<and> length (head b) \<le> length (head b3)
             \<and> represents b3 root (plug fs (ks @ [new_node name d]))))"
proof -
  let ?hl = "first_pos root" and ?E = "ents ks" and ?new = "new_node name d"
  let ?g = "ents ks + 5 + subs ks"
  have x: "esize ?new = x" by (simp add: x_def)
  obtain H J where H: "head b = H @ enc_root (plug fs ks) @ J" "length H = ?hl"
    "forest_ok (plug fs ks)" "small b" "tail b = of_nat (?hl + length (enc_root (plug fs ks)))"
    "?hl + length (enc_root (plug fs ks)) \<le> length (head b)"
    "first_name_off b = of_nat ?hl" "cap_ok b" "region b ?hl (plug fs ks)" "root_ok root"
    using r by (rule representsE)
  let ?X = "H @ zpre fs ?g @ enc_ents (?E + 5) ks"
  let ?M = "marker (fpar fs ?E)" and ?S = "enc_subs (?E + 5) ks @ zsuf fs ?g"
  let ?Y = "?M @ ?S"
  have hX: "head b = ?X @ ?Y @ J"
    using H(1) unfolding plug_layout[OF ne] by (simp add: block_def)
  have lX: "length ?X = epos ?hl fs ks" using H(2) by simp
  have tY: "?hl + length (enc_root (plug fs ks)) = epos ?hl fs ks + length ?Y"
    unfolding region_size[OF ne] by simp
  let ?ne = "\<lambda>b'. length (enc_root (plug fs (ks @ [?new])))"
  have sz: "length (enc_root (plug fs (ks @ [?new]))) = length (enc_root (plug fs ks)) + x"
    using region_size[OF ne, of fs] region_size[of "ks @ [?new]" fs]
      length_zsuf_indep[of fs ?g "ents (ks @ [?new]) + 5 + subs (ks @ [?new])"] x by simp
  from insert_new_name_cases[OF hX lX H(5)[unfolded tY] H(8,4) al n(2), of d False 0]
  consider "insert_new_name al b off name d False = Some (ERR_NO_MEM, b)"
      "length (head b) \<le> epos ?hl fs ks + length ?Y + x"
    | b1 Z' where "insert_new_name al b off name d False = Some (FS_OK, b1)"
      "b1 = b\<lparr>head := ?X @ enc_ent 0 ?new @ ?Y @ Z', capacity := of_nat (length (head b1)),
              tail := of_nat (epos ?hl fs ks + x + length ?Y)\<rparr>"
      "cap_ok b1" "small b1" "length (head b) \<le> length (head b1)"
    unfolding off_def x[symmetric] by auto
  then show ?thesis
  proof cases
    case 1
    then show ?thesis using tY by auto
  next
    case (2 b1 Z')
    note b1 = 2
    let ?E' = "ents (ks @ [?new])"
    let ?b2 = "b1\<lparr>head := ?X @ enc_ents 0 [?new] @ marker (fpar fs ?E') @ ?S @ Z'\<rparr>"
    let ?t = "?hl + length (enc_root (plug fs (ks @ [?new])))"
    have h1: "head b1 = ?X @ enc_ents 0 [?new] @ marker (fpar fs ?E) @ (?S @ Z')"
      by (subst b1(2)) simp
    have t1: "tail b1 = of_nat ?t" "?t \<le> length (head b1)" "epos ?hl fs ks + ents [?new] < ?t"
    proof -
      have e: "?t = epos ?hl fs ks + x + length ?Y" using sz tY by linarith
      show "tail b1 = of_nat ?t" "?t \<le> length (head b1)"
        using lX x unfolding e by (subst b1(2), simp del: of_nat_add)+
      show "epos ?hl fs ks + ents [?new] < ?t" unfolding e using x by simp
    qed
    have okn: "forest_ok [?new]" using n by simp
    have step: "if fs = [] then ?b2 = b1
        else \<exists>tl. get_folder_tail_offset b1 off = Some tl
          \<and> set_parent_offset b1 tl (of_nat (zparent ?hl fs)) = Some ?b2"
    proof (cases "fs = []")
      case True
      then have "?b2 = b1" using h1 by simp
      then show ?thesis using True by simp
    next
      case False
      have "0 < ?hl" by simp
      from retag_parent[OF h1 okn lX _ this b1(4) t1(1,3,2) False, of ?E'] show ?thesis
        using False unfolding off_def by simp
    qed
    have lb: "length (head ?b2) = length (head b1)" using h1 by simp
    have new0: "enc_ents y [?new] = enc_ents 0 [?new]" "enc_subs y [?new] = []" for y
      using enc_ent_no_kids[of ?new] by simp_all
    have h2: "head ?b2 = H @ zpre fs ?g @ enc_ents (?E + 5) ks
        @ enc_ents (ents [?new] + 5 + subs ks) [?new] @ marker (fpar fs (ents (ks @ [?new])))
        @ enc_subs (?E + 5) ks @ enc_subs (ents [?new] + 5 + subs ks) [?new] @ zsuf fs ?g @ Z'"
      unfolding new0(2) new0(1)[of "ents [?new] + 5 + subs ks"] by simp
    have sm2: "small ?b2" using b1(4) lb by simp
    have f2: "first_name_off ?b2 = of_nat ?hl" using H(7) by (simp, subst b1(2), simp)
    have ok2: "forest_ok (plug fs (ks @ [?new]))" using H(3) n by simp
    have zs: "zsize fs ?g < 1073741824" using region_zsize(2)[OF H(9) ne] .
    have upd: "update_offsets ?b2 off (of_nat x) True
      = Some (?b2\<lparr>head := H @ enc_root (plug fs (ks @ [?new])) @ Z'\<rparr>)"
      unfolding off_def
    proof (rule update_offsets_relayout[OF h2 ok2 _ H(2) _ sm2 f2])
      show "tail ?b2 = of_nat ?t" "?t \<le> length (head ?b2)" using t1 lb by simp_all
      show "?E + 5 + subs ks < 1073741824" using zs zsize_mono[of ?g fs] by linarith
      show "of_nat (?E + 5) + of_nat x = (of_nat (ents (ks @ [?new]) + 5) :: u32)"
        "of_nat ?g + of_nat x = (of_nat (ents (ks @ [?new]) + 5 + subs (ks @ [?new])) :: u32)"
        using x by (simp_all add: ac_simps)
    qed (use ne zs in simp_all)
    let ?b3 = "?b2\<lparr>head := H @ enc_root (plug fs (ks @ [?new])) @ Z'\<rparr>"
    have l3: "length (head ?b3) = length (head b1)"
      using b1(2) h1 H(2) sz tY x lX by simp
    have "represents ?b3 root (plug fs (ks @ [?new]))"
    proof (rule representsI[OF r H(1,2) _ ok2])
      show "small ?b3" using b1(4) l3 by simp
      show "tail ?b3 = of_nat ?t" using t1(1) by simp
      show "first_name_off ?b3 = first_name_off b" by (simp, subst b1(2), simp)
      show "cap_ok ?b3" using b1(3) l3 by (simp add: cap_ok_def)
    qed simp
    moreover have "lock ?b3 = lock b" by (simp, subst b1(2), simp)
    moreover have "tail ?b3 = tail b + of_nat x" using t1(1) sz H(5) by simp
    moreover have "length (head b) \<le> length (head ?b3)" using b1(5) l3 by simp
    ultimately show ?thesis using b1(1) step upd by blast
  qed
qed

subsection \<open>The first entry of an empty directory\<close>

text \<open>Storing the offset of the new block in the entry of its directory.\<close>

lemma set_kids_empty:
  assumes h: "head b = H @ zlev 0 (ls, n, rs) fs g @ X" and n: "name_ok n"
    and H: "length H = hl" "0 < hl" and sm: "small b"
  shows "do_set_kids_off b (of_nat (epos hl fs ls)) (of_nat (hl + zpos ((ls, n, rs) # fs)))
    = Some (b\<lparr>head := H @ zpre ((ls, n, rs) # fs) g @ X\<rparr>)"
proof -
  let ?f = "(ls, n, rs)"
  let ?A = "H @ zpre fs (zgrow ?f g) @ enc_ents (fents ?f + 5) ls" and ?k = "hl + zpos (?f # fs)"
  let ?C = "enc_ents (ents rs + 5 + subs ls + g) rs @ marker (fpar fs (fents ?f))
    @ enc_subs (fents ?f + 5) ls @ X"
  have A: "head b = ?A @ dir_ent n 0 @ ?C" "length ?A = epos hl fs ls" using h H by simp_all
  have s: "?k \<le> 1073741824" using sm h H by simp
  have "do_set_kids_off b (of_nat (epos hl fs ls)) (of_nat ?k)
    = Some (b\<lparr>head := ?A @ dir_ent n (if ?k = 0 then 0 else ?k - (epos hl fs ls + length n + 1)) @ ?C\<rparr>)"
    by (rule do_set_kids_off_dir[OF A(1) n A(2) sm]) (use s in simp_all)
  moreover have "(if ?k = 0 then 0 else ?k - (epos hl fs ls + length n + 1)) = fdist ?f - length n - 1"
    using H by simp
  ultimately show ?thesis by simp
qed

lemma insert_empty:
  fixes d :: bool
  assumes r: "represents b root (plug fs (ls @ Dir m [] # rs))" and n: "name_ok name"
    "length name < 1073741824" and al: "alloc_ok al"
  defines "F \<equiv> (ls, m, rs) # fs"
  defines "off \<equiv> (of_nat (first_pos root + zpos F) :: u32)"
    and "par \<equiv> (of_nat (zparent (first_pos root) F) :: u32)"
    and "x \<equiv> length name + 1 + (if d then 4 else 1)"
  shows "insert_new_name al b off name d True = Some (ERR_NO_MEM, b)
        \<and> length (head b) \<le> first_pos root + length (enc_root (plug F [])) + x + 5
    \<or> (\<exists>b1 b2 b3 b4. insert_new_name al b off name d True = Some (FS_OK, b1)
        \<and> set_parent_offset b1 (off + of_nat x) par = Some b2
        \<and> do_set_kids_off b2 par off = Some b3
        \<and> update_offsets b3 off (of_nat x + 5) True = Some b4 \<and> lock b4 = lock b
        \<and> tail b4 = tail b + (of_nat x + 5) \<and> length (head b) \<le> length (head b4)
        \<and> represents b4 root (plug F [new_node name d]))"
proof -
  let ?hl = "first_pos root" and ?new = "new_node name d" and ?f = "(ls, m, rs)"
  have x: "esize ?new = x" by (simp add: x_def)
  have F: "plug fs (ls @ Dir m [] # rs) = plug F []" "zparent ?hl F = epos ?hl fs ls" "F \<noteq> []"
    by (simp_all add: F_def)
  obtain H J where H: "head b = H @ enc_root (plug F []) @ J" "length H = ?hl"
    "forest_ok (plug F [])" "small b" "tail b = of_nat (?hl + length (enc_root (plug F [])))"
    "?hl + length (enc_root (plug F [])) \<le> length (head b)"
    "first_name_off b = of_nat ?hl" "cap_ok b" "region b ?hl (plug F [])" "root_ok root"
    using r unfolding F(1) by (rule representsE)
  have le: "enc_root (plug F []) = zlev 0 ?f fs 0 @ zsuf F 0"
    using plug_layout_empty[of fs ls m rs] unfolding F(1) F_def .
  let ?X = "H @ zlev 0 ?f fs 0" and ?Y = "zsuf F 0"
  have hX: "head b = ?X @ ?Y @ J" "length ?X = ?hl + zpos F" using H(1,2) le by (simp_all add: F_def)
  have tY: "?hl + length (enc_root (plug F [])) = ?hl + zpos F + length ?Y"
    using le by (simp add: F_def)
  have sz: "length (enc_root (plug F [?new])) = zpos F + (x + 5) + length ?Y"
    using region_size[of "[?new]" F] length_zsuf_indep[of F 0 "ents [?new] + 5 + subs [?new]"] x by simp
  from insert_new_name_cases[OF hX H(5)[unfolded tY] H(8,4) al n(2), of d True 0]
  consider "insert_new_name al b off name d True = Some (ERR_NO_MEM, b)"
      "length (head b) \<le> ?hl + zpos F + length ?Y + (x + 5)"
    | b1 gap Z' where "insert_new_name al b off name d True = Some (FS_OK, b1)"
      "b1 = b\<lparr>head := ?X @ enc_ent 0 ?new @ gap @ ?Y @ Z', capacity := of_nat (length (head b1)),
              tail := of_nat (?hl + zpos F + (x + 5) + length ?Y)\<rparr>"
      "length gap = 5" "cap_ok b1" "small b1" "length (head b) \<le> length (head b1)"
    unfolding off_def x[symmetric] by auto
  then show ?thesis
  proof cases
    case 1
    then show ?thesis using tY by auto
  next
    case (2 b1 gap Z')
    let ?m = "?hl + zpos F + x"
    let ?b2 = "b1\<lparr>head := (?X @ enc_ent 0 ?new) @ marker (fpar F x) @ (?Y @ Z')\<rparr>"
    let ?b3 = "?b2\<lparr>head := H @ zpre F 0 @ enc_ent 0 ?new @ marker (fpar F x) @ ?Y @ Z'\<rparr>"
    let ?t = "?hl + length (enc_root (plug F [?new]))"
    have h1: "head b1 = (?X @ enc_ent 0 ?new) @ gap @ (?Y @ Z')" by (subst 2(2)) simp
    have a1: "length (?X @ enc_ent 0 ?new) = ?m" using hX(2) x by simp
    have te: "?hl + zpos F + (x + 5) + length ?Y = ?t" using sz by simp
    have zt: "?m + 1 - fpar F x = zparent ?hl F" "fpar F x \<le> ?m + 1"
      using zparent_tag(1)[OF F(3), of ?hl x] zparent_tag(2)[OF F(3), of x] by simp_all
    have z: "zparent ?hl F \<le> ?m + 1" "zparent ?hl F \<noteq> 0" "?m + 1 - zparent ?hl F = fpar F x"
      using zt F(2) by linarith+
    have p: "set_parent_offset b1 (off + of_nat x) par = Some ?b2"
      using set_parent_offset_at[OF h1 2(3) a1 2(5) z(1)] z unfolding off_def par_def by simp
    have l2: "length (head ?b2) = length (head b1)" using h1 2(3) by simp
    have h2: "head ?b2 = H @ zlev 0 ?f fs 0 @ (enc_ent 0 ?new @ marker (fpar F x) @ ?Y @ Z')" by simp
    have sm2: "small ?b2" using 2(5) l2 by simp
    have k: "do_set_kids_off ?b2 par off = Some ?b3"
      using set_kids_empty[OF h2 _ H(2) _ sm2] H(3) unfolding par_def off_def F(2) F_def by simp
    have l3: "length (head ?b3) = length (head b1)" using h1 2(3) by (simp add: F_def)
    have h3: "head ?b3 = H @ zpre F 0 @ enc_ents 0 [] @ enc_ents (ents [?new] + 5 + subs []) [?new]
        @ marker (fpar F (ents ([] @ [?new]))) @ enc_subs 0 [] @ enc_subs (ents [?new] + 5 + subs []) [?new]
        @ zsuf F 0 @ Z'"
      using x enc_ent_no_kids[of ?new 0 "x + 5"] by simp
    have okn: "forest_ok (plug F ([] @ [?new]))" using H(3) n by simp
    have tl: "tail b1 = of_nat ?t" "?t \<le> length (head b1)"
      using a1 2(3) unfolding te[symmetric] by (subst 2(2), simp add: F_def del: of_nat_add)+
    have f1: "first_name_off b1 = first_name_off b" "lock b1 = lock b" by (subst 2(2), simp)+
    have zs: "zsize F 0 < 1073741824"
      unfolding zsize_eq using H(4,6) tY by simp
    let ?b4 = "?b3\<lparr>head := H @ enc_root (plug F ([] @ [?new])) @ Z'\<rparr>"
    have sm3: "small ?b3" using 2(5) l3 by simp
    have "0 < ?hl" "first_name_off ?b3 = of_nat ?hl" using f1 H(7) by simp_all
    have "update_offsets ?b3 (of_nat (epos ?hl F [])) (of_nat x + 5) True = Some ?b4"
    proof (rule update_offsets_relayout[OF h3 okn _ H(2) _ sm3])
      show "first_name_off ?b3 = of_nat ?hl" using f1 H(7) by simp
      show "tail ?b3 = of_nat (?hl + length (enc_root (plug F ([] @ [?new]))))"
        "?hl + length (enc_root (plug F ([] @ [?new]))) \<le> length (head ?b3)"
        using tl l3 by simp_all
    qed (use zs x in \<open>simp_all add: ac_simps\<close>)
    then have u: "update_offsets ?b3 off (of_nat x + 5) True = Some ?b4"
      unfolding off_def by simp
    have l4: "length (head ?b4) = length (head b1)" using h1 2(3) sz hX(2) H(2) x by simp
    have "represents ?b4 root (plug F ([] @ [?new]))"
    proof (rule representsI[OF r H(1,2) _ okn])
      show "small ?b4" using 2(5) l4 by simp
      show "cap_ok ?b4" using 2(4) l4 by (simp add: cap_ok_def)
      show "tail ?b4 = of_nat (?hl + length (enc_root (plug F ([] @ [?new]))))" using tl(1) by simp
    qed (use f1 in simp_all)
    then have rep: "represents ?b4 root (plug F [?new])" by simp
    have "tail ?b4 = tail b + (of_nat x + 5)"
      using tl(1) H(5) unfolding tY te[symmetric] by (simp add: ac_simps)
    moreover have "length (head b) \<le> length (head ?b4)" using 2(6) l4 by simp
    ultimately show ?thesis
      using 2(1) p k u rep f1(2)
      by (intro disjI2 exI[of _ b1] exI[of _ ?b2] exI[of _ ?b3] exI[of _ ?b4]) simp
  qed
qed

end
