(* ===== verification/Fs_Insert_Path.thy ===== *)
theory Fs_Insert_Path
  imports Fs_Insert
begin

text \<open>
  \<open>insert_path\<close> as an operation on the forest: \<open>tree_insert\<close> says what the code promises, and
  \<open>do_insert_path_represents\<close> that the code does it, returns the buffer unchanged on every
  error, and reports the growth of the buffer in the change record.
\<close>

definition has_name :: "cstring \<Rightarrow> node list \<Rightarrow> bool" where
  "has_name name ks \<longleftrightarrow> list_ex (\<lambda>k. nname k = name) ks"

lemma has_name_set: "has_name name ks \<longleftrightarrow> name \<in> nname ` set ks"
  by (auto simp: has_name_def list_ex_iff)

text \<open>\<open>None\<close>: the parent is the empty path below a root other than \<open>/\<close>.\<close>

definition tree_insert ::
  "cstring \<Rightarrow> node list \<Rightarrow> cstring \<Rightarrow> bool \<Rightarrow> (fs_result \<times> node list) option" where
  "tree_insert root ks path is_dir =
    (case strrchr path slash of
       None \<Rightarrow> Some (ERR_NO_PATH, ks)
     | Some i \<Rightarrow>
       let name = drop (i + 1) path
       in if name = [] then Some (ERR_NO_PATH, ks)
          else (case resolve root ks (take i path) of
              None \<Rightarrow> None
            | Some None \<Rightarrow> Some (ERR_NO_PATH, ks)
            | Some (Some Root) \<Rightarrow>
                if has_name name ks then Some (ERR_PATH_EXISTS, ks)
                else Some (FS_OK, ks @ [new_node name is_dir])
            | Some (Some (At (fs, ls, k, rs))) \<Rightarrow>
                (case k of
                   File n \<Rightarrow> Some (ERR_NO_PATH, ks)
                 | Dir n cs \<Rightarrow>
                     if has_name name cs then Some (ERR_PATH_EXISTS, ks)
                     else Some (FS_OK, plug fs (ls @ Dir n (cs @ [new_node name is_dir]) # rs)))))"

lemma find_kid_loop_level:
  assumes "region b hl (plug fs (ls @ rs))" "ls @ rs \<noteq> []"
  shows "find_kid_loop b name (of_nat (epos hl fs ls))
    = Some (if has_name name rs then None else Some (of_nat (epos hl fs (ls @ rs))))"
  using assms
proof (induction rs arbitrary: ls)
  case Nil
  then have r: "region b hl (plug fs ls)" "ls \<noteq> []" by simp_all
  have e: "epos hl fs ls < hl + length (enc_root (plug fs ls))"
    using region_level_end(4)[OF r] by linarith
  show ?case
    using region_lt_tail[OF r(1) e] region_level_end(1)[OF r]
    by (subst find_kid_loop.simps) (simp add: has_name_def)
next
  case (Cons k rs)
  note r = Cons.prems(1)
  have e: "epos hl fs ls < hl + length (enc_root (plug fs (ls @ k # rs)))"
    using r by (rule region_entry) (use esize_pos[of k] in linarith)
  obtain ch where ch: "rd8 (head b) (epos hl fs ls) = Some ch" "ch \<noteq> 0"
    using region_rd8_ent[OF r] by blast
  have r': "region b hl (plug fs ((ls @ [k]) @ rs))" using r by simp
  have IH: "find_kid_loop b name (of_nat (epos hl fs (ls @ [k])))
    = Some (if has_name name rs then None else Some (of_nat (epos hl fs (ls @ k # rs))))"
    using Cons.IH[OF r'] by simp
  show ?case
    using region_lt_tail[OF r e] ch region_cstr_at[OF r] region_next_name[OF r] IH
    by (subst find_kid_loop.simps) (simp add: has_name_def del: of_nat_add)
qed

text \<open>What a call may do: the promised result, or no memory with the buffer as it was.\<close>

definition inserted :: "fs_buf \<Rightarrow> cstring \<Rightarrow> node list \<Rightarrow> cstring \<Rightarrow> fs_change \<Rightarrow>
    fs_result \<times> node list \<Rightarrow> fs_result \<times> fs_change \<times> fs_buf \<Rightarrow> bool" where
  "inserted b root ks path c spec res = (case (spec, res) of ((r, ks'), (r', c', b')) \<Rightarrow>
     lock b' = lock b \<and> length (head b) \<le> length (head b')
     \<and> (r' = r \<and> represents b' root ks'
          \<and> (if r = FS_OK then delta c' = tail b' - tail b else c' = c \<and> b' = b)
        \<or> r = FS_OK \<and> r' = ERR_NO_MEM \<and> c' = c \<and> b' = b
          \<and> length (head b) \<le> unat (tail b) + length path + 10))"

lemma insert_room:
  assumes "represents b root ks" "length name < length path"
    "length (head b) \<le> first_pos root + length (enc_root ks) + (length name + 1 + (if d then 4 else 1)) + e"
    "e \<le> 5"
  shows "length (head b) \<le> unat (tail b) + length path + 10"
proof -
  have "unat (tail b) = first_pos root + length (enc_root ks)"
    using assms(1) by (rule representsE) (simp add: off_simps del: of_nat_add)
  then show ?thesis using assms(2-4) by (simp split: if_splits)
qed

text \<open>The three places of a new entry: the root directory, a directory with kids, an empty
  directory.  \<open>i\<close> is the index of the last slash of the path.\<close>

lemma insert_at_root:
  assumes r: "represents b root ks" and ne: "ks \<noteq> []" and al: "alloc_ok al"
    and p: "strrchr path slash = Some i" "length path < 1073741824" "name_ok nm" "drop (Suc i) path = nm"
    and off: "get_path_offset b (take i path) = Some 8"
  shows "\<exists>res. do_insert_path al b path is_dir c = Some res \<and> inserted b root ks path c
    (if has_name nm ks then (ERR_PATH_EXISTS, ks)
     else (FS_OK, ks @ [new_node nm is_dir])) res"
proof -
  let ?hl = "first_pos root"
  let ?new = "new_node nm is_dir" and ?x = "length nm + 1 + (if is_dir then 4 else 1)"
    and ?xw = "of_nat (length nm) + 1 + (if is_dir then 4 else 1) :: u32"
  have xw: "?xw = of_nat ?x" by simp
  have len: "length nm < length path" "length nm < 1073741824"
    using p(1,2,4) unfolding strrchr_Some by auto
  have reg: "region b ?hl ks" and r': "represents b root (plug [] ks)" using r by (simp_all add: represents_def)
  have nn: "nm \<noteq> []" using p(3) by (simp add: name_ok_def)
  have f: "first_name_off b = of_nat ?hl" and fk: "(of_nat ?hl :: u32) \<noteq> 0"
    using r by (auto elim!: representsE simp: off_simps simp del: of_nat_add)
  have scan: "find_kid_loop b nm (of_nat ?hl)
      = Some (if has_name nm ks then None else Some (of_nat (epos ?hl [] ks)))"
    using find_kid_loop_level[of b ?hl "[]" "[]" ks nm] reg ne by simp
  note run = p(1,4) nn off scan f fk do_insert_path_def Let_def
  show ?thesis
  proof (cases "has_name nm ks")
    case True
    then show ?thesis using r run by (simp add: inserted_def)
  next
    case fresh: False
    let ?off = "of_nat (epos ?hl [] ks) :: u32"
    from insert_level[OF r' ne p(3) len(2) al, of is_dir]
    consider "insert_new_name al b ?off nm is_dir False = Some (ERR_NO_MEM, b)"
        "length (head b) \<le> ?hl + length (enc_root ks) + ?x"
      | b1 b3 where "insert_new_name al b ?off nm is_dir False = Some (FS_OK, b1)"
        "update_offsets b1 ?off (of_nat ?x) True = Some b3"
        "lock b3 = lock b" "tail b3 = tail b + of_nat ?x" "length (head b) \<le> length (head b3)" "represents b3 root (ks @ [?new])"
      by auto
    then show ?thesis
    proof cases
      case 1
      have "do_insert_path al b path is_dir c = Some (ERR_NO_MEM, c, b)"
        using run fresh 1(1) by simp
      moreover have "length (head b) \<le> unat (tail b) + length path + 10"
        by (rule insert_room[OF r len(1), of is_dir 0]) (use 1(2) in simp_all)
      ultimately show ?thesis using fresh by (simp add: inserted_def)
    next
      case (2 b1 b3)
      have "do_insert_path al b path is_dir c
          = Some (FS_OK, \<lparr>start_off = ?off, delta = ?xw\<rparr>, b3)"
        using run(1-7) fresh 2(1,2)[folded xw]
        by (simp add: do_insert_path_def Let_def del: of_nat_add)
      then show ?thesis using 2(3-6) xw fresh by (simp add: inserted_def)
    qed
  qed
qed

lemma entry_off:
  assumes r: "region b hl (plug fs (ls @ k # rs))" and hl: "8 < hl"
  shows "(of_nat (epos hl fs ls) :: u32) \<noteq> 0" "(of_nat (epos hl fs ls) :: u32) \<noteq> 8"
proof -
  have e: "epos hl fs ls < hl + length (enc_root (plug fs (ls @ k # rs)))"
    using r by (rule region_entry) (use esize_pos[of k] in linarith)
  show "(of_nat (epos hl fs ls) :: u32) \<noteq> 0" "(of_nat (epos hl fs ls) :: u32) \<noteq> 8"
    using region_lt_tail(3)[OF r e] of_nat32_eq[of "epos hl fs ls" 8] hl
    by (auto simp: off_simps simp del: of_nat_add)
qed

lemma insert_at_kids:
  assumes r: "represents b root (plug ((ls, m, rs) # fs) cs)" and ne: "cs \<noteq> []" and al: "alloc_ok al"
    and p: "strrchr path slash = Some i" "length path < 1073741824" "name_ok nm" "drop (Suc i) path = nm"
    and off: "get_path_offset b (take i path) = Some (of_nat (epos (first_pos root) fs ls))"
  shows "\<exists>res. do_insert_path al b path is_dir c = Some res
    \<and> inserted b root (plug ((ls, m, rs) # fs) cs) path c
        (if has_name nm cs then (ERR_PATH_EXISTS, plug ((ls, m, rs) # fs) cs)
         else (FS_OK, plug ((ls, m, rs) # fs) (cs @ [new_node nm is_dir]))) res"
proof -
  let ?hl = "first_pos root" and ?F = "(ls, m, rs) # fs"
  let ?new = "new_node nm is_dir" and ?x = "length nm + 1 + (if is_dir then 4 else 1)"
    and ?xw = "of_nat (length nm) + 1 + (if is_dir then 4 else 1) :: u32"
  let ?po = "of_nat (epos ?hl fs ls) :: u32" and ?off = "of_nat (epos ?hl ?F cs) :: u32"
  have xw: "?xw = of_nat ?x" by simp
  have len: "length nm < length path" "length nm < 1073741824"
    using p(1,2,4) unfolding strrchr_Some by auto
  have nn: "nm \<noteq> []" using p(3) by (simp add: name_ok_def)
  have regF: "region b ?hl (plug ?F ([] @ cs))" using r by (simp add: represents_def)
  then have reg: "region b ?hl (plug fs (ls @ Dir m cs # rs))" by simp
  have hk: "has_kids (Dir m cs)" using ne by simp
  have po: "?po \<noteq> 0" "?po \<noteq> 8" using entry_off[OF reg] by simp_all
  have f: "do_is_file b ?po = Some False" using region_is_file[OF reg] by simp
  have nz: "(of_nat (?hl + zpos ?F) :: u32) \<noteq> 0"
    using kids_block_small[OF reg hk] by (simp del: zpos.simps of_nat_add)
  have k0: "get_kids_offset b ?po = Some (of_nat (?hl + zpos ?F))"
    using region_get_kids[OF reg] ne by (simp del: zpos.simps of_nat_add)
  have scan: "find_kid_loop b nm (of_nat (?hl + zpos ?F))
      = Some (if has_name nm cs then None else Some ?off)"
    using find_kid_loop_level[OF regF] ne by simp
  note run = p(1,4) nn off scan f k0 po nz
  show ?thesis
  proof (cases "has_name nm cs")
    case True
    then show ?thesis using r run
      by (simp add: inserted_def do_insert_path_def Let_def del: zpos.simps of_nat_add)
  next
    case fresh: False
    have zp: "zparent ?hl ?F = epos ?hl fs ls" by simp
    from insert_level[OF r ne p(3) len(2) al, of is_dir]
    consider "insert_new_name al b ?off nm is_dir False = Some (ERR_NO_MEM, b)"
        "length (head b) \<le> ?hl + length (enc_root (plug ?F cs)) + ?x"
      | b1 tl b2 b3 where "insert_new_name al b ?off nm is_dir False = Some (FS_OK, b1)"
        "get_folder_tail_offset b1 ?off = Some tl" "set_parent_offset b1 tl ?po = Some b2"
        "update_offsets b2 ?off (of_nat ?x) True = Some b3"
        "lock b3 = lock b" "tail b3 = tail b + of_nat ?x" "length (head b) \<le> length (head b3)" "represents b3 root (plug ?F (cs @ [?new]))"
      unfolding zp by (auto simp del: of_nat_add zpos.simps plug.simps)
    then show ?thesis
    proof cases
      case 1
      have "do_insert_path al b path is_dir c = Some (ERR_NO_MEM, c, b)"
        using run fresh 1(1) by (simp add: do_insert_path_def Let_def del: of_nat_add zpos.simps)
      moreover have "length (head b) \<le> unat (tail b) + length path + 10"
        by (rule insert_room[OF r len(1), of is_dir 0]) (use 1(2) in simp_all)
      ultimately show ?thesis using fresh by (simp add: inserted_def)
    next
      case (2 b1 tl b2 b3)
      have "do_insert_path al b path is_dir c
          = Some (FS_OK, \<lparr>start_off = ?off, delta = ?xw\<rparr>, b3)"
        using run fresh 2(1-4)[folded xw]
        by (simp add: do_insert_path_def Let_def del: of_nat_add zpos.simps)
      then show ?thesis using 2(5-8) xw fresh by (simp add: inserted_def)
    qed
  qed
qed

lemma insert_at_empty:
  assumes r: "represents b root (plug fs (ls @ Dir m [] # rs))" and al: "alloc_ok al"
    and p: "strrchr path slash = Some i" "length path < 1073741824" "name_ok nm" "drop (Suc i) path = nm"
    and off: "get_path_offset b (take i path) = Some (of_nat (epos (first_pos root) fs ls))"
  shows "\<exists>res. do_insert_path al b path is_dir c = Some res
    \<and> inserted b root (plug fs (ls @ Dir m [] # rs)) path c
        (FS_OK, plug fs (ls @ Dir m [new_node nm is_dir] # rs)) res"
proof -
  let ?hl = "first_pos root" and ?F = "(ls, m, rs) # fs"
  let ?new = "new_node nm is_dir" and ?x = "length nm + 1 + (if is_dir then 4 else 1)"
    and ?xw = "of_nat (length nm) + 1 + (if is_dir then 4 else 1) :: u32"
  let ?po = "of_nat (epos ?hl fs ls) :: u32" and ?off = "of_nat (?hl + zpos ?F) :: u32"
  have xw: "?xw = of_nat ?x" by simp
  have len: "length nm < length path" "length nm < 1073741824"
    using p(1,2,4) unfolding strrchr_Some by auto
  have nn: "nm \<noteq> []" using p(3) by (simp add: name_ok_def)
  have reg: "region b ?hl (plug fs (ls @ Dir m [] # rs))" using r by (simp add: represents_def)
  have po: "?po \<noteq> 0" "?po \<noteq> 8" using entry_off[OF reg] by simp_all
  have f: "do_is_file b ?po = Some False" using region_is_file[OF reg] by simp
  have k0: "get_kids_offset b ?po = Some 0" using region_get_kids[OF reg] by simp
  note run = p(1,4) nn off f k0 po region_get_insert_offset[OF reg]
  have zp: "zparent ?hl ?F = epos ?hl fs ls" by simp
  from insert_empty[OF r p(3) len(2) al, of is_dir]
  consider "insert_new_name al b ?off nm is_dir True = Some (ERR_NO_MEM, b)"
      "length (head b) \<le> ?hl + length (enc_root (plug fs (ls @ Dir m [] # rs))) + ?x + 5"
    | b1 b2 b3 b4 where "insert_new_name al b ?off nm is_dir True = Some (FS_OK, b1)"
      "set_parent_offset b1 (?off + of_nat ?x) ?po = Some b2"
      "do_set_kids_off b2 ?po ?off = Some b3"
      "update_offsets b3 ?off (of_nat ?x + 5) True = Some b4" "lock b4 = lock b"
      "tail b4 = tail b + (of_nat ?x + 5)" "length (head b) \<le> length (head b4)" "represents b4 root (plug ?F [?new])"
    unfolding zp plug.simps by (auto simp del: of_nat_add zpos.simps plug.simps)
  then show ?thesis
  proof cases
    case 1
    have "do_insert_path al b path is_dir c = Some (ERR_NO_MEM, c, b)"
      using run 1(1) by (simp add: do_insert_path_def Let_def del: of_nat_add zpos.simps)
    moreover have "length (head b) \<le> unat (tail b) + length path + 10"
      by (rule insert_room[OF r len(1), of is_dir 5]) (use 1(2) in simp_all)
    ultimately show ?thesis by (simp add: inserted_def)
  next
    case (2 b1 b2 b3 b4)
    have "do_insert_path al b path is_dir c
        = Some (FS_OK, \<lparr>start_off = ?off, delta = ?xw + 5\<rparr>, b4)"
      using run 2(1-4)[folded xw]
      by (simp add: do_insert_path_def Let_def del: of_nat_add zpos.simps)
    then show ?thesis using 2(5-8) xw by (simp add: inserted_def)
  qed
qed

lemma strrchr_name:
  assumes "is_cstr path" "strrchr path slash = Some i"
  shows "is_cstr (take i path)" "drop (i + 1) path \<noteq> [] \<Longrightarrow> name_ok (drop (i + 1) path)"
proof -
  obtain u v where "path = u @ slash # v" "slash \<notin> set v" "length u = i"
    using assms(2) unfolding strrchr_Some by blast
  then show "is_cstr (take i path)" "drop (i + 1) path \<noteq> [] \<Longrightarrow> name_ok (drop (i + 1) path)"
    using assms(1) by (auto simp: is_cstr_def name_ok_def)
qed

theorem do_insert_path_represents:
  assumes r: "represents b root ks" and ne: "ks \<noteq> []" and al: "alloc_ok al"
    and p: "is_cstr path" "length path < 1073741824"
    and spec: "tree_insert root ks path is_dir = Some s"
  shows "\<exists>res. do_insert_path al b path is_dir c = Some res \<and> inserted b root ks path c s res"
proof (cases "strrchr path slash")
  case None
  then show ?thesis
    using spec r by (auto simp: tree_insert_def do_insert_path_def inserted_def)
next
  case i: (Some i)
  let ?name = "drop (i + 1) path" and ?par = "take i path"
  note off = get_path_offset_represents[OF r strrchr_name(1)[OF p(1) i]]
  show ?thesis
  proof (cases "?name = []")
    case True
    then show ?thesis using spec r i by (auto simp: tree_insert_def do_insert_path_def inserted_def)
  next
    case nn: False
    have n: "name_ok ?name" "drop (Suc i) path = ?name" using strrchr_name(2)[OF p(1) i nn] by simp_all
    consider (none) "resolve root ks ?par = Some None"
      | (root) "resolve root ks ?par = Some (Some Root)"
      | (at) fs ls k rs where "resolve root ks ?par = Some (Some (At (fs, ls, k, rs)))"
      using spec i nn by (auto simp: tree_insert_def Let_def split: option.splits target.splits prod.splits)
    then show ?thesis
    proof cases
      case none
      then show ?thesis
        using spec r i nn off by (auto simp: tree_insert_def do_insert_path_def inserted_def Let_def)
    next
      case root
      then show ?thesis
        using insert_at_root[OF r ne al i p(2) n, of is_dir c] off spec i nn
        by (auto simp: tree_insert_def Let_def split: if_splits)
    next
      case (at fs ls k rs)
      have ks: "plug fs (ls @ k # rs) = ks" using resolve_At(1)[OF at] by simp
      have off': "get_path_offset b ?par = Some (of_nat (epos (first_pos root) fs ls))"
        using off at by simp
      have r': "represents b root (plug fs (ls @ k # rs))" using r ks by simp
      show ?thesis
      proof (cases k)
        case (File m)
        have reg: "region b (first_pos root) (plug fs (ls @ File m # rs))"
          using r' File by (simp add: represents_def)
        show ?thesis
          using spec r i nn off' at File region_is_file[OF reg] entry_off[OF reg]
          by (auto simp: tree_insert_def do_insert_path_def inserted_def Let_def simp del: of_nat_add)
      next
        case (Dir m cs)
        have ksD: "ks = plug ((ls, m, rs) # fs) cs" using ks Dir by simp
        show ?thesis
        proof (cases "cs = []")
          case False
          have "represents b root (plug ((ls, m, rs) # fs) cs)" using r ksD by simp
          from insert_at_kids[OF this False al i p(2) n off', of is_dir c]
          show ?thesis using spec i nn at Dir ksD
            by (auto simp: tree_insert_def Let_def split: if_splits)
        next
          case True
          have "represents b root (plug fs (ls @ Dir m [] # rs))" using r' Dir True by simp
          from insert_at_empty[OF this al i p(2) n off', of is_dir c]
          show ?thesis using spec i nn at Dir True ksD
            by (auto simp: tree_insert_def Let_def has_name_def)
        qed
      qed
    qed
  qed
qed

lemma insert_path_represents:
  assumes "represents b root ks" "ks \<noteq> []" "alloc_ok al" "lock b = Unlocked"
    and "is_cstr path" "length path < 1073741824" "tree_insert root ks path is_dir = Some s"
  shows "\<exists>r c' b'. insert_path al b path is_dir c = Some (r, c', b')
    \<and> inserted b root ks path c s (r, c', b')"
proof -
  let ?b = "b\<lparr>lock := Writer\<rparr>"
  have w: "wrlock b = Some ?b" "?b\<lparr>lock := Unlocked\<rparr> = b" using assms(4) by (simp_all add: wrlock_def)
  have "represents ?b root ks" using assms(1) by simp
  from do_insert_path_represents[OF this assms(2,3,5-7)] obtain r c' b1
    where i: "do_insert_path al ?b path is_dir c = Some (r, c', b1)" "inserted ?b root ks path c s (r, c', b1)"
    by (metis prod_cases3)
  let ?b1 = "b1\<lparr>lock := Unlocked\<rparr>"
  have "lock b1 = Writer" using i(2) by (cases s) (simp add: inserted_def)
  then have "insert_path al b path is_dir c = Some (r, c', ?b1)"
    using w i(1) by (simp add: insert_path_def unlock_def)
  moreover have "inserted b root ks path c s (r, c', ?b1)"
    using i(2) w(2) assms(4) by (cases s) (auto simp: inserted_def)
  ultimately show ?thesis by blast
qed

end
