(* ===== verification/Fs_Remove.thy ===== *)
theory Fs_Remove
  imports Fs_Insert_Path
begin

text \<open>
  Removal: \<open>tree_remove\<close> is the promise of \<open>remove_path\<close>.  The code first cuts the block of
  the kids out of the buffer (\<open>remove_kids\<close>), then the entry (\<open>remove_node\<close>).
\<close>

definition tree_remove :: "cstring \<Rightarrow> node list \<Rightarrow> cstring \<Rightarrow> (fs_result \<times> node list) option" where
  "tree_remove root ks path = (case resolve root ks path of
     None \<Rightarrow> None
   | Some None \<Rightarrow> Some (ERR_NO_PATH, ks)
   | Some (Some Root) \<Rightarrow> Some (FS_OK, [])
   | Some (Some (At (fs, ls, k, rs))) \<Rightarrow> Some (FS_OK, plug fs (ls @ rs)))"

subsection \<open>Closing a gap\<close>

lemma close_gap:
  assumes "length X = a" "length G = n"
  shows "\<exists>J'. length J' = n + length J \<and>
    (if 0 < length Y then memmove (X @ G @ Y @ J) a (a + n) (length Y) else Some (X @ G @ Y @ J))
      = Some (X @ Y @ J')"
proof (cases "Y = []")
  case True
  then show ?thesis using assms by (intro exI[of _ "G @ J"]) simp
next
  case False
  obtain junk where "length junk = n" "memmove (X @ G @ Y @ J) a (a + n) (length Y)
      = Some (X @ Y @ junk @ J)"
    using memmove_down[OF assms refl] by blast
  then show ?thesis using False by (intro exI[of _ "junk @ J"]) simp
qed

text \<open>The two forms in which the code computes the move.\<close>

lemma close_gap_word:
  assumes h: "head b = X @ G @ Y @ J" and X: "length X = a" and G: "length G = n"
    and t: "tail b = of_nat t" "t = a + n + length Y" and sm: "small b"
  shows "\<exists>J'. length J' = n + length J
    \<and> (if of_nat (a + n) < tail b
       then memmove (head b) (unat (of_nat a :: u32)) (unat (of_nat (a + n) :: u32))
              (unat (tail b - of_nat (a + n)))
       else Some (head b)) = Some (X @ Y @ J')
    \<and> (if of_nat a + of_nat n < tail b
       then memmove (head b) (unat (of_nat a :: u32)) (unat (of_nat a :: u32) + unat (of_nat n :: u32))
              (unat (tail b - of_nat a - of_nat n))
       else Some (head b)) = Some (X @ Y @ J')
    \<and> tail b - of_nat n = of_nat (a + length Y)"
proof -
  have s: "t \<le> 1073741824" using sm h X G t by simp
  have u: "unat (of_nat a :: u32) = a" "unat (of_nat n :: u32) = n"
    "unat (of_nat (a + n) :: u32) = a + n"
    using s t by (simp_all add: off_simps del: of_nat_add)
  have c: "of_nat (a + n) < tail b \<longleftrightarrow> 0 < length Y"
    using s t by (simp add: off_simps del: of_nat_add)
  have d: "tail b - of_nat (a + n) = of_nat (length Y)"
    using of_nat32_diff[of "a + n" t] t by simp
  have d': "tail b - of_nat a - of_nat n = of_nat (length Y)" "of_nat a + of_nat n = (of_nat (a + n) :: u32)"
    using d by (simp_all add: algebra_simps)
  have l: "unat (of_nat (length Y) :: u32) = length Y" using s t by (simp add: off_simps)
  have e: "tail b - of_nat n = of_nat (a + length Y)"
    using of_nat32_diff[of n t] t by simp
  show ?thesis
    using close_gap[OF X G, of J Y] unfolding h[symmetric] d d' c u l using e by simp
qed

subsection \<open>The block of a directory\<close>

text \<open>The bytes of the block are cut out and the directory forgets it.\<close>

lemma clear_kids_tag:
  assumes h: "head b = H @ zpre ((ls, n, rs) # fs) g @ X" and n: "name_ok n"
    and H: "length H = hl" and sm: "small b"
  shows "do_set_kids_off b (of_nat (epos hl fs ls)) 0 = Some (b\<lparr>head := H @ zlev 0 (ls, n, rs) fs g @ X\<rparr>)"
proof -
  let ?f = "(ls, n, rs)"
  let ?A = "H @ zpre fs (zgrow ?f g) @ enc_ents (fents ?f + 5) ls"
  let ?C = "enc_ents (ents rs + 5 + subs ls + g) rs @ marker (fpar fs (fents ?f))
    @ enc_subs (fents ?f + 5) ls @ X"
  have A: "head b = ?A @ dir_ent n (fdist ?f - length n - 1) @ ?C" "length ?A = epos hl fs ls"
    using h H by simp_all
  show ?thesis using do_set_kids_off_dir[OF A(1) n A(2) sm, of 0] by simp
qed

lemma cut_block:
  assumes r: "represents b0 root ks0" "head b0 = H @ X0" "length H = first_pos root"
    and h: "head b = H @ zlev 0 (ls, n, rs) fs g @ Y @ zsuf ((ls, n, rs) # fs) g @ J"
    and g: "length Y = g" and ok: "forest_ok (plug fs (ls @ Dir n [] # rs))" and sm: "small b"
    and cap: "cap_ok b" and f: "first_name_off b = first_name_off b0"
    and t: "tail b = of_nat t" "t \<le> length (head b)"
      "t = first_pos root + zpos ((ls, n, rs) # fs) + g + length (zsuf ((ls, n, rs) # fs) g)"
    and m: "length J' = g + length J"
    and b': "b' = b\<lparr>head := H @ zlev 0 (ls, n, rs) fs g @ zsuf ((ls, n, rs) # fs) g @ J',
               tail := tail b - of_nat g\<rparr>"
  shows "\<exists>b''. update_offsets b' (of_nat (epos (first_pos root) fs ls)) (- of_nat g) False = Some b''
    \<and> represents b'' root (plug fs (ls @ Dir n [] # rs)) \<and> lock b'' = lock b \<and> tail b'' = tail b' \<and> capacity b'' = capacity b"
proof -
  let ?F = "(ls, n, rs) # fs" and ?hl = "first_pos root"
  let ?t' = "?hl + length (enc_root (plug fs (ls @ Dir n [] # rs)))"
  let ?b'' = "b'\<lparr>head := H @ zlev 0 (ls, n, rs) fs 0 @ zsuf ?F 0 @ J'\<rparr>"
  have ok': "frames_ok ?F" using ok by simp
  have hb': "head b' = H @ zlev 0 (ls, n, rs) fs g @ zsuf ?F g @ J'" unfolding b' by simp
  have te: "t = ?t' + g" "?t' = ?hl + zpos ?F + length (zsuf ?F g)"
    unfolding plug_layout_empty length_append length_zlev t(3)
    using length_zsuf_indep[of ?F 0 g] by linarith+
  have lb': "length (head b') = length (head b)"
    unfolding hb' h using g m by simp
  have smb': "small b'" using sm lb' by simp
  have t': "tail b' = of_nat ?t'" "?t' \<le> length (head b')"
  proof -
    have "tail b' = of_nat t - of_nat g" using t(1) unfolding b' by simp
    also have "\<dots> = of_nat (t - g)" using te(1) by (intro of_nat32_diff) simp
    finally show "tail b' = of_nat ?t'" using te(1) by simp
    show "?t' \<le> length (head b')" using t(2) te(1) lb' by linarith
  qed
  have "zsize ?F g = zpos ?F + g + length (zsuf ?F g)" by (rule zsize_eq)
  moreover have "t \<le> 1073741824" using t(2) sm by linarith
  ultimately have zs: "zsize ?F g < 1073741824" using t(3) by linarith
  have "0 < ?hl" by simp
  from update_offsets_emptied[OF hb' ok' r(3) this smb' t' te(2) _ zs, of "- of_nat g"]
  have u: "update_offsets b' (of_nat (epos ?hl fs ls)) (- of_nat g) False = Some ?b''" by simp
  have l: "length (head ?b'') = length (head b)"
    using lb' hb' length_zsuf_indep[of ?F 0 g] by simp
  have "represents ?b'' root (plug fs (ls @ Dir n [] # rs))"
  proof (rule representsI[OF r _ ok])
    show "head ?b'' = H @ enc_root (plug fs (ls @ Dir n [] # rs)) @ J'"
      unfolding plug_layout_empty by simp
    show "small ?b''" using sm l by simp
    show "tail ?b'' = of_nat ?t'" using t'(1) by simp
    show "first_name_off ?b'' = first_name_off b0" using f by (simp add: b')
    show "cap_ok ?b''" using cap l by (simp add: cap_ok_def b')
  qed
  then show ?thesis using u by (intro exI[of _ ?b'']) (simp add: b')
qed

lemma remove_kids_represents:
  assumes r: "represents b root (plug ((ls, n, rs) # fs) cs)" and ne: "cs \<noteq> []"
  defines "a \<equiv> first_pos root + zpos ((ls, n, rs) # fs)" and "g \<equiv> ents cs + 5 + subs cs"
  shows "\<exists>b'. remove_kids b (of_nat (epos (first_pos root) fs ls)) (of_nat a) (of_nat (a + g)) = Some b'
    \<and> represents b' root (plug fs (ls @ Dir n [] # rs)) \<and> lock b' = lock b
    \<and> tail b' = tail b - of_nat g \<and> capacity b' = capacity b"
proof -
  let ?F = "(ls, n, rs) # fs" and ?hl = "first_pos root"
  let ?Y = "block (fpar ?F (ents cs)) cs"
  obtain H J where H: "head b = H @ enc_root (plug ?F cs) @ J" "length H = ?hl"
    "forest_ok (plug ?F cs)" "small b" "tail b = of_nat (?hl + length (enc_root (plug ?F cs)))"
    "?hl + length (enc_root (plug ?F cs)) \<le> length (head b)"
    "first_name_off b = of_nat ?hl" "cap_ok b" "region b ?hl (plug ?F cs)" "root_ok root"
    using r by (rule representsE)
  have le: "enc_root (plug ?F cs) = zpre ?F g @ ?Y @ zsuf ?F g"
    unfolding g_def by (rule plug_layout[OF ne])
  have h: "head b = H @ zpre ?F g @ (?Y @ zsuf ?F g @ J)" using H(1) unfolding le by simp
  have lY: "length ?Y = g" by (simp add: g_def)
  have te: "?hl + length (enc_root (plug ?F cs)) = a + g + length (zsuf ?F g)"
    unfolding le a_def using lY by simp
  let ?b1 = "b\<lparr>head := H @ zlev 0 (ls, n, rs) fs g @ (?Y @ zsuf ?F g @ J)\<rparr>"
  have n: "name_ok n" using H(3) by simp
  have k: "do_set_kids_off b (of_nat (epos ?hl fs ls)) 0 = Some ?b1"
    by (rule clear_kids_tag[OF h n H(2,4)])
  let ?X = "H @ zlev 0 (ls, n, rs) fs g"
  have h1: "head ?b1 = ?X @ ?Y @ zsuf ?F g @ J" by simp
  have lX: "length ?X = a" using H(2) by (simp add: a_def)
  have l1: "length (head ?b1) = length (head b)" unfolding h by simp
  have sm1: "small ?b1" and cap1: "cap_ok ?b1" using H(4,8) l1 by (simp_all add: cap_ok_def)
  have t1: "tail ?b1 = of_nat (a + g + length (zsuf ?F g))" using H(5) unfolding te by simp
  obtain J' where J': "length J' = g + length J"
    "(if of_nat (a + g) < tail ?b1
      then memmove (head ?b1) (unat (of_nat a :: u32)) (unat (of_nat (a + g) :: u32))
             (unat (tail ?b1 - of_nat (a + g)))
      else Some (head ?b1)) = Some (?X @ zsuf ?F g @ J')"
    using close_gap_word[OF h1 lX lY t1 refl sm1] by blast
  have d: "of_nat (a + g) - of_nat a = (of_nat g :: u32)" "of_nat a - of_nat (a + g) = (- of_nat g :: u32)"
    by simp_all
  let ?b2 = "?b1\<lparr>head := H @ zlev 0 (ls, n, rs) fs g @ zsuf ?F g @ J', tail := tail ?b1 - of_nat g\<rparr>"
  have okE: "forest_ok (plug fs (ls @ Dir n [] # rs))" using H(3) by simp
  have "\<exists>b''. update_offsets ?b2 (of_nat (epos ?hl fs ls)) (- of_nat g) False = Some b''
    \<and> represents b'' root (plug fs (ls @ Dir n [] # rs)) \<and> lock b'' = lock ?b1 \<and> tail b'' = tail ?b2
    \<and> capacity b'' = capacity ?b1"
    by (rule cut_block[OF r H(1,2) _ lY okE sm1 cap1 _ t1 _ _ J'(1)])
      (use H(6) te l1 in \<open>simp_all add: a_def\<close>)
  then show ?thesis
    using k J'(2) d unfolding remove_kids_def by (auto simp del: of_nat_add)
qed

subsection \<open>The entry\<close>

text \<open>The reads of \<open>remove_node\<close>, at an entry without kids.\<close>

lemma remove_node_reads:
  assumes r: "region b hl (plug fs (ls @ k # rs))" and f: "first_name_off b = of_nat hl"
  shows "get_parent_offset b (of_nat (epos hl fs ls)) = Some (of_nat (zparent hl fs))"
    and "get_1st_sibling_offset b (of_nat (epos hl fs ls)) = Some (of_nat (hl + zpos fs))"
    and "next_name b (of_nat (epos hl fs ls)) = Some (of_nat (epos hl fs ls + esize k))"
    and "\<exists>c. rd8 (head b) (epos hl fs ls + esize k) = Some c \<and> (c = 0 \<longleftrightarrow> rs = [])"
    and "(of_nat (hl + zpos fs) :: u32) = of_nat (epos hl fs ls) \<longleftrightarrow> ls = []"
    and "(of_nat (zparent hl fs) :: u32) \<noteq> 0 \<longleftrightarrow> fs \<noteq> []"
    and "unat (of_nat (epos hl fs ls) :: u32) = epos hl fs ls" "unat (of_nat (esize k) :: u32) = esize k"
proof -
  have ne: "ls @ k # rs \<noteq> []" by simp
  have hl: "0 < hl" using r by (simp add: region_def)
  have e: "epos hl fs (ls @ k # rs) + 5 \<le> hl + length (enc_root (plug fs (ls @ k # rs)))"
    using region_level_end(4)[OF r ne] .
  have s: "epos hl fs (ls @ k # rs) < 1073741824" using e region_at_tail(2)[OF r] by linarith
  show "get_parent_offset b (of_nat (epos hl fs ls)) = Some (of_nat (zparent hl fs))"
    by (rule region_get_parent[OF r ne])
  show "get_1st_sibling_offset b (of_nat (epos hl fs ls)) = Some (of_nat (hl + zpos fs))"
    by (rule region_1st_sibling[OF r ne f])
  show "next_name b (of_nat (epos hl fs ls)) = Some (of_nat (epos hl fs ls + esize k))"
    using region_next_name[OF r] by (simp add: ac_simps del: of_nat_add)
  show "unat (of_nat (epos hl fs ls) :: u32) = epos hl fs ls" "unat (of_nat (esize k) :: u32) = esize k"
    using s by (simp_all add: off_simps del: of_nat_add)
  have r': "region b hl (plug fs ((ls @ [k]) @ rs))" using r by simp
  have p: "epos hl fs (ls @ [k]) = epos hl fs ls + esize k" by simp
  show "\<exists>c. rd8 (head b) (epos hl fs ls + esize k) = Some c \<and> (c = 0 \<longleftrightarrow> rs = [])"
  proof (cases rs)
    case Nil
    then show ?thesis using region_level_end(1)[of b hl fs "ls @ [k]"] r' unfolding p by simp
  next
    case (Cons k' rs')
    then show ?thesis using region_rd8_ent[of b hl fs "ls @ [k]" k' rs'] r' unfolding p by auto
  qed
  show "(of_nat (hl + zpos fs) :: u32) = of_nat (epos hl fs ls) \<longleftrightarrow> ls = []"
  proof (cases ls)
    case (Cons x xs)
    then have "0 < ents ls" using esize_pos[of x] by simp
    then show ?thesis using s Cons of_nat32_eq[of "hl + zpos fs" "epos hl fs ls"] by (simp del: of_nat_add)
  qed simp
  have "zparent hl fs < 4294967296"
    using zparent_tag(1)[of fs hl 0] s by (cases "fs = []") simp_all
  then show "(of_nat (zparent hl fs) :: u32) \<noteq> 0 \<longleftrightarrow> fs \<noteq> []"
    using zparent_less_zpos[of fs hl] hl of_nat32_eq_0[of "zparent hl fs"] by (cases "fs = []") simp_all
qed

lemma remove_node_root_only:
  assumes r: "represents b root [k]" and k: "\<not> has_kids k"
  defines "a \<equiv> first_pos root"
  shows "\<exists>b'. remove_node b (of_nat a) = Some (of_nat (esize k) + 5, b')
    \<and> represents b' root [] \<and> lock b' = lock b \<and> tail b' = tail b - (of_nat (esize k) + 5) \<and> capacity b' = capacity b"
proof -
  obtain H J where H: "head b = H @ enc_root [k] @ J" "length H = a" "forest_ok [k]" "small b"
    "tail b = of_nat (a + length (enc_root [k]))" "first_name_off b = of_nat a" "cap_ok b"
    "region b a (plug [] ([] @ [k]))"
    using r unfolding a_def by (auto elim!: representsE)
  have g: "length (enc_root [k]) = esize k + 5" using k by (simp add: length_enc_root)
  note rd = remove_node_reads[OF H(8,6), simplified]
  obtain c where c: "rd8 (head b) (a + esize k) = Some c" "c = 0" using rd(4) by auto
  have t: "tail b = of_nat a + of_nat (esize k + 5)" using H(5) g by simp
  let ?b' = "b\<lparr>tail := of_nat a\<rparr>"
  have ge: "\<not> of_nat a + (of_nat (esize k) + 5) < tail b" using t by simp
  have rn: "remove_node b (of_nat a) = Some (of_nat (esize k) + 5, ?b')"
    using rd c ge t by (simp add: remove_node_def Let_def)
  have "represents ?b' root []"
    by (rule representsI[OF r H(1), of _ _ "enc_root [k] @ J"])
      (use H in \<open>simp_all add: enc_root_def a_def cap_ok_def\<close>)
  then show ?thesis using rn t by (intro exI[of _ ?b']) simp
qed

text \<open>The only kid of a directory: the directory becomes empty.\<close>

lemma remove_node_only:
  assumes r: "represents b root (plug ((ls, n, rs) # fs) [k])" and k: "\<not> has_kids k"
  defines "a \<equiv> first_pos root + zpos ((ls, n, rs) # fs)" and "g \<equiv> esize k + 5"
  shows "\<exists>b'. remove_node b (of_nat a) = Some (of_nat (esize k) + 5, b')
    \<and> represents b' root (plug fs (ls @ Dir n [] # rs)) \<and> lock b' = lock b
    \<and> tail b' = tail b - (of_nat (esize k) + 5) \<and> capacity b' = capacity b"
proof -
  let ?F = "(ls, n, rs) # fs" and ?hl = "first_pos root"
  let ?Y = "block (fpar ?F (ents [k])) [k]"
  obtain H J where H: "head b = H @ enc_root (plug ?F [k]) @ J" "length H = ?hl"
    "forest_ok (plug ?F [k])" "small b" "tail b = of_nat (?hl + length (enc_root (plug ?F [k])))"
    "?hl + length (enc_root (plug ?F [k])) \<le> length (head b)"
    "first_name_off b = of_nat ?hl" "cap_ok b" "region b ?hl (plug ?F ([] @ [k]))"
    using r by (auto elim!: representsE)
  have g: "ents [k] + 5 + subs [k] = g" using k by (simp add: g_def)
  have le: "enc_root (plug ?F [k]) = zpre ?F g @ ?Y @ zsuf ?F g"
    using plug_layout[of "[k]" ?F] unfolding g by simp
  have h: "head b = H @ zpre ?F g @ (?Y @ zsuf ?F g @ J)" using H(1) unfolding le by simp
  have lY: "length ?Y = g" using k by (simp add: g_def)
  have te: "?hl + length (enc_root (plug ?F [k])) = a + g + length (zsuf ?F g)"
    unfolding le a_def using lY by simp
  note rd = remove_node_reads[OF H(9,7)]
  have ea: "epos ?hl ?F [] = a" by (simp add: a_def)
  have zp: "zparent ?hl ?F = epos ?hl fs ls" by simp
  obtain c where c: "rd8 (head b) (a + esize k) = Some c" "c = 0" using rd(4)[unfolded ea] by auto
  have n: "name_ok n" using H(3) by simp
  define b1 where "b1 = b\<lparr>head := H @ zlev 0 (ls, n, rs) fs g @ (?Y @ zsuf ?F g @ J)\<rparr>"
  have kk: "do_set_kids_off b (of_nat (epos ?hl fs ls)) 0 = Some b1"
    unfolding b1_def by (rule clear_kids_tag[OF h n H(2,4)])
  let ?X = "H @ zlev 0 (ls, n, rs) fs g"
  have h1: "head b1 = ?X @ ?Y @ zsuf ?F g @ J" by (simp add: b1_def)
  have lX: "length ?X = a" using H(2) by (simp add: a_def)
  have l1: "length (head b1) = length (head b)" unfolding h b1_def by simp
  have sm1: "small b1" and cap1: "cap_ok b1" using H(4,8) l1 by (simp_all add: cap_ok_def b1_def)
  have t1: "tail b1 = of_nat (a + g + length (zsuf ?F g))" using H(5) unfolding te b1_def by simp
  obtain J' where J': "length J' = g + length J"
    "(if of_nat a + of_nat g < tail b1
      then memmove (head b1) (unat (of_nat a :: u32)) (unat (of_nat a :: u32) + unat (of_nat g :: u32))
             (unat (tail b1 - of_nat a - of_nat g))
      else Some (head b1)) = Some (?X @ zsuf ?F g @ J')"
    using close_gap_word[OF h1 lX lY t1 refl sm1] by blast
  let ?b2 = "b1\<lparr>head := H @ zlev 0 (ls, n, rs) fs g @ zsuf ?F g @ J', tail := tail b1 - of_nat g\<rparr>"
  have okE: "forest_ok (plug fs (ls @ Dir n [] # rs))" using H(3) by simp
  have "\<exists>b''. update_offsets ?b2 (of_nat (epos ?hl fs ls)) (- of_nat g) False = Some b''
    \<and> represents b'' root (plug fs (ls @ Dir n [] # rs)) \<and> lock b'' = lock b1 \<and> tail b'' = tail ?b2
    \<and> capacity b'' = capacity b1"
    by (rule cut_block[OF r H(1,2) _ lY okE sm1 cap1 _ t1 _ _ J'(1)])
      (use H(6) te l1 in \<open>simp_all add: a_def b1_def\<close>)
  then obtain b'' where b'': "update_offsets ?b2 (of_nat (epos ?hl fs ls)) (- of_nat g) False = Some b''"
    "represents b'' root (plug fs (ls @ Dir n [] # rs))" "lock b'' = lock b" "tail b'' = tail b - of_nat g"
    "capacity b'' = capacity b"
    by (auto simp: b1_def)
  have gw: "of_nat (esize k) + 5 = (of_nat g :: u32)" by (simp add: g_def)
  have sz: "of_nat (a + esize k) - of_nat a = (of_nat (esize k) :: u32)" by simp
  have "remove_node b (of_nat a) = Some (of_nat g, b'')"
    using rd[unfolded ea zp] c kk J'(2) b''(1) sz
    by (simp add: remove_node_def Let_def gw del: of_nat_add plug.simps zpos.simps zlev.simps zsuf.simps)
  then show ?thesis using b'' unfolding gw by blast
qed

text \<open>An entry with siblings.\<close>

lemma remove_node_among:
  assumes r: "represents b root (plug fs (ls @ k # rs))" and k: "\<not> has_kids k" and ne: "ls @ rs \<noteq> []"
  defines "a \<equiv> epos (first_pos root) fs ls"
  shows "\<exists>b'. remove_node b (of_nat a) = Some (of_nat (esize k), b')
    \<and> represents b' root (plug fs (ls @ rs)) \<and> lock b' = lock b \<and> tail b' = tail b - of_nat (esize k)
    \<and> capacity b' = capacity b"
proof -
  let ?hl = "first_pos root" and ?ks = "ls @ k # rs" and ?x = "esize k"
  let ?E = "ents ?ks" and ?E' = "ents (ls @ rs)" and ?g = "ents ?ks + 5 + subs ?ks"
  let ?dr = "ents rs + 5 + subs ls"
  obtain H J where H: "head b = H @ enc_root (plug fs ?ks) @ J" "length H = ?hl"
    "forest_ok (plug fs ?ks)" "small b" "tail b = of_nat (?hl + length (enc_root (plug fs ?ks)))"
    "?hl + length (enc_root (plug fs ?ks)) \<le> length (head b)"
    "first_name_off b = of_nat ?hl" "cap_ok b" "region b ?hl (plug fs ?ks)"
    using r by (rule representsE)
  note rd = remove_node_reads[OF H(9,7)]
  have ks: "?ks \<noteq> []" by simp
  have en: "enc_node y k = []" "nsub k = 0" for y using k by simp_all
  let ?X = "H @ zpre fs ?g @ enc_ents (?E + 5) ls" and ?G = "enc_ent (?x + ?dr) k"
  let ?M = "\<lambda>E. marker (fpar fs E)"
  let ?S = "enc_subs (?E + 5) ls @ enc_subs ?dr rs @ zsuf fs ?g"
  have hd: "head b = (?X @ ?G) @ enc_ents ?dr rs @ ?M ?E @ (?S @ J)"
    using H(1) unfolding enc_root_plug_split[OF ks] by (simp add: en ac_simps)
  have lX: "length ?X = a" "length ?G = ?x" using H(2) by (simp_all add: a_def)
  have te: "?hl + length (enc_root (plug fs ?ks)) = a + ?x + length (enc_ents ?dr rs @ ?M ?E @ ?S)"
    unfolding region_size[OF ks] a_def by (simp add: en)
  have sz: "length (enc_root (plug fs ?ks)) = length (enc_root (plug fs (ls @ rs))) + ?x"
    unfolding region_size[OF ks] region_size[OF ne]
    using length_zsuf_indep[of fs ?g "ents (ls @ rs) + 5 + subs (ls @ rs)"] by (simp add: en)
  have ok: "forest_ok (plug fs (ls @ rs))" using H(3) by simp
  define b1 where "b1 = b\<lparr>head := (?X @ ?G) @ enc_ents ?dr rs @ ?M ?E' @ (?S @ J)\<rparr>"
  have tag: "if fs = [] then b1 = b else \<exists>tl. get_folder_tail_offset b (of_nat a) = Some tl
      \<and> set_parent_offset b tl (of_nat (zparent ?hl fs) + of_nat ?x) = Some b1"
  proof (cases "fs = []")
    case True
    then show ?thesis using hd by (simp add: b1_def)
  next
    case False
    let ?m = "epos ?hl fs ?ks"
    have m: "head b = ((?X @ ?G) @ enc_ents ?dr rs) @ ?M ?E @ (?S @ J)"
      "length ((?X @ ?G) @ enc_ents ?dr rs) = ?m" using hd H(2) by simp_all
    have zt: "?m + 1 - fpar fs ?E = zparent ?hl fs" "fpar fs ?E \<le> ?m + 1" "fpar fs ?E = fpar fs ?E' + ?x"
      using zparent_tag(1)[OF False, of ?hl ?E] zparent_tag(2)[OF False, of ?E] False
      by (cases fs; simp)+
    then have z: "zparent ?hl fs + ?x \<le> ?m + 1" "?m + 1 - (zparent ?hl fs + ?x) = fpar fs ?E'"
      "zparent ?hl fs + ?x \<noteq> 0" using zparent_less_zpos[OF False, of ?hl] by linarith+
    have "set_parent_offset b (of_nat ?m) (of_nat (zparent ?hl fs + ?x)) = Some b1"
      using set_parent_offset_at[OF m(1) length_marker m(2) H(4) z(1)]
      unfolding b1_def if_not_P[OF z(3)] z(2) by (simp only: append_assoc)
    moreover have "get_folder_tail_offset b (of_nat a) = Some (of_nat ?m)"
      unfolding a_def by (rule region_folder_tail[OF H(9) ks])
    ultimately show ?thesis using False by (simp del: of_nat_add add: of_nat_add[symmetric])
  qed
  have h1: "head b1 = ?X @ ?G @ (enc_ents ?dr rs @ ?M ?E' @ ?S) @ J" by (simp add: b1_def)
  have l1: "length (head b1) = length (head b)" unfolding h1 hd by simp
  have sm1: "small b1" using H(4) l1 by simp
  have t1: "tail b1 = of_nat (?hl + length (enc_root (plug fs ?ks)))" using H(5) by (simp add: b1_def)
  have te1: "?hl + length (enc_root (plug fs ?ks)) = a + ?x + length (enc_ents ?dr rs @ ?M ?E' @ ?S)"
    using te by simp
  obtain J' where J0: "length J' = ?x + length J"
    "(if of_nat a + of_nat ?x < tail b1
      then memmove (head b1) (unat (of_nat a :: u32)) (unat (of_nat a :: u32) + unat (of_nat ?x :: u32))
             (unat (tail b1 - of_nat a - of_nat ?x))
      else Some (head b1)) = Some (?X @ (enc_ents ?dr rs @ ?M ?E' @ ?S) @ J')"
    using close_gap_word[OF h1 lX t1 te1 sm1] by blast
  define M where "M = ?X @ (enc_ents ?dr rs @ ?M ?E' @ ?S) @ J'"
  note J' = J0(2)[folded M_def]
  define b2 where "b2 = b1\<lparr>head := M, tail := tail b1 - of_nat ?x\<rparr>"
  have h2: "head b2 = H @ zpre fs ?g @ enc_ents (?E + 5) ls @ enc_ents ?dr rs
        @ marker (fpar fs (ents (ls @ rs))) @ enc_subs (?E + 5) ls @ enc_subs ?dr rs @ zsuf fs ?g @ J'"
    by (simp add: b2_def M_def)
  have l2: "length (head b2) = length (head b)" using l1 J0(1) h1 lX by (simp add: b2_def M_def)
  have sm2: "small b2" using H(4) l2 by simp
  have f2: "first_name_off b2 = of_nat ?hl" using H(7) by (simp add: b2_def b1_def)
  have t2: "tail b2 = of_nat (?hl + length (enc_root (plug fs (ls @ rs))))"
    using t1 sz by (simp add: b2_def)
  have zs: "zsize fs ?g < 1073741824" using region_zsize(2)[OF H(9) ks] .
  have "0 < ?hl" by simp
  have u: "update_offsets b2 (of_nat (epos ?hl fs ls)) (- of_nat ?x) True
    = Some (b2\<lparr>head := H @ enc_root (plug fs (ls @ rs)) @ J'\<rparr>)"
  proof (rule update_offsets_relayout[OF h2 ok ne H(2) \<open>0 < ?hl\<close> sm2 f2 t2])
    show "?hl + length (enc_root (plug fs (ls @ rs))) \<le> length (head b2)" using H(6) sz l2 by linarith
    show "of_nat (?E + 5) + - of_nat ?x = (of_nat (?E' + 5) :: u32)"
      "of_nat ?g + - of_nat ?x = (of_nat (?E' + 5 + subs (ls @ rs)) :: u32)" by (simp_all add: en)
    show "?E + 5 + subs ls < 1073741824" using zs zsize_mono[of ?g fs] by simp
  qed (use zs in simp_all)
  let ?b3 = "b2\<lparr>head := H @ enc_root (plug fs (ls @ rs)) @ J'\<rparr>"
  have l3: "length (head ?b3) = length (head b)" using H(1,2) sz J0(1) by simp
  have "represents ?b3 root (plug fs (ls @ rs))"
    by (rule representsI[OF r H(1,2) _ ok])
      (use t2 l3 H(4,8) in \<open>simp_all add: cap_ok_def b2_def b1_def\<close>)
  note rep = this
  define b3 where "b3 = ?b3"
  have u': "update_offsets b2 (of_nat a) (- of_nat ?x) True = Some b3" using u by (simp add: a_def b3_def)
  obtain c where c: "rd8 (head b) (a + ?x) = Some c" "c = 0 \<longleftrightarrow> rs = []"
    using rd(4) unfolding a_def by blast
  have nonly: "\<not> (c = 0 \<and> (of_nat (?hl + zpos fs) :: u32) = of_nat a)"
    using c(2) rd(5) ne unfolding a_def by auto
  have d: "of_nat (a + ?x) - of_nat a = (of_nat ?x :: u32)" by simp
  have par: "(of_nat (zparent ?hl fs) :: u32) \<noteq> 0 \<longleftrightarrow> fs \<noteq> []" using rd(6) .
  have "remove_node b (of_nat a) = Some (of_nat ?x, b3)"
    using rd(1-3,7,8)[folded a_def] c(1) nonly d tag J' u' par unfolding b2_def remove_node_def
    by (cases "fs = []") (auto simp: Let_def simp del: of_nat_add split del: if_split)
  then show ?thesis using rep t1 H(5) by (intro exI[of _ b3]) (simp add: b3_def b2_def b1_def)
qed

end
