(* ===== verification/Fs_Remove_Path.thy ===== *)
theory Fs_Remove_Path
  imports Fs_Remove
begin

text \<open>
  \<open>do_remove_path\<close> and \<open>remove_path\<close> as operations on the forest, with the change records
  and the copy of the subtree that \<open>rename_path\<close> asks for.
\<close>

text \<open>\<open>remove_node\<close> on any entry without kids.\<close>

lemma remove_node_represents:
  assumes r: "represents b root (plug fs (ls @ k # rs))" and k: "\<not> has_kids k"
  shows "\<exists>sz b'. remove_node b (of_nat (epos (first_pos root) fs ls)) = Some (sz, b')
    \<and> represents b' root (plug fs (ls @ rs)) \<and> lock b' = lock b \<and> tail b' = tail b - sz
    \<and> capacity b' = capacity b"
proof (cases "ls @ rs = []")
  case False
  then show ?thesis using remove_node_among[OF r k] by blast
next
  case True
  show ?thesis
  proof (cases fs)
    case Nil
    then show ?thesis using remove_node_root_only[of b root k] r k True by auto
  next
    case (Cons f fs')
    obtain ls' n rs' where f: "f = (ls', n, rs')" by (cases f)
    have "represents b root (plug ((ls', n, rs') # fs') [k])" using r Cons f True by simp
    from remove_node_only[OF this k] show ?thesis using Cons f True by auto
  qed
qed

definition changes_total :: "fs_change list \<Rightarrow> u32 \<Rightarrow> u32" where
  "changes_total chs n = sum_list (map delta (take (unat n) chs))"

text \<open>The copy of the kids: their block, as it stood in the buffer.\<close>

definition kids_bytes :: "loc \<Rightarrow> byte list option" where
  "kids_bytes l = (case l of (fs, ls, k, rs) \<Rightarrow>
     if has_kids k then Some (block (fpar ((ls, nname k, rs) # fs) (ents (nkids k))) (nkids k)) else None)"

lemma region_kids_block:
  assumes r: "region b hl (plug fs (ls @ Dir n cs # rs))" and ne: "cs \<noteq> []"
  defines "a \<equiv> hl + zpos ((ls, n, rs) # fs)" and "g \<equiv> ents cs + 5 + subs cs"
  shows "get_kids_offset b (of_nat (epos hl fs ls)) = Some (of_nat a)"
    "(of_nat a :: u32) \<noteq> 0"
    "get_tree_end_offset b (of_nat a) = Some (of_nat (a + g))"
    "get_bytes (head b) (unat (of_nat a :: u32)) (unat (of_nat (a + g) - of_nat a :: u32))
      = Some (block (fpar ((ls, n, rs) # fs) (ents cs)) cs)"
    "unat (of_nat (a + g) - of_nat a :: u32) = g"
proof -
  let ?F = "(ls, n, rs) # fs"
  have rF: "region b hl (plug ?F cs)" using r by simp
  have hk: "has_kids (Dir n cs)" using ne by simp
  show "get_kids_offset b (of_nat (epos hl fs ls)) = Some (of_nat a)"
    using region_get_kids[OF r] ne by (simp add: a_def del: of_nat_add)
  show "(of_nat a :: u32) \<noteq> 0" using kids_block_small[OF r hk] by (simp add: a_def del: of_nat_add)
  show "get_tree_end_offset b (of_nat a) = Some (of_nat (a + g))"
    using region_get_tree_end[OF rF ne] by (simp add: a_def g_def ac_simps del: of_nat_add)
  obtain H J where H: "head b = H @ enc_root (plug ?F cs) @ J" "length H = hl"
    "hl + length (enc_root (plug ?F cs)) \<le> length (head b)" "small b"
    using rF by (rule regionE)
  have le: "enc_root (plug ?F cs) = zpre ?F g @ block (fpar ?F (ents cs)) cs @ zsuf ?F g"
    unfolding g_def by (rule plug_layout[OF ne])
  have h: "head b = (H @ zpre ?F g) @ block (fpar ?F (ents cs)) cs @ (zsuf ?F g @ J)"
    "length (H @ zpre ?F g) = a" "length (block (fpar ?F (ents cs)) cs) = g"
    using H(1,2) unfolding le by (simp_all add: a_def g_def)
  have s: "a + g \<le> 1073741824" using H(4) h by simp
  show g: "unat (of_nat (a + g) - of_nat a :: u32) = g" using s by (simp add: off_simps)
  have ua: "unat (of_nat a :: u32) = a" using s by (simp add: off_simps)
  show "get_bytes (head b) (unat (of_nat a :: u32)) (unat (of_nat (a + g) - of_nat a :: u32))
      = Some (block (fpar ?F (ents cs)) cs)"
    unfolding g ua by (subst h(1)) (rule get_bytes_split[OF h(2,3)])
qed

lemma do_remove_path_at:
  assumes r: "represents b root (plug fs (ls @ k # rs))"
    and off: "get_path_offset b path = Some (of_nat (epos (first_pos root) fs ls))"
    and ch: "2 \<le> length changes"
  shows "(want \<and> has_kids k \<and> al (nsub k) = None
        \<and> do_remove_path al b path changes n want = Some (ERR_NO_MEM, changes, 0, None, b))
    \<or> (\<exists>chs b'. do_remove_path al b path changes n want
          = Some (FS_OK, chs, (if has_kids k then 2 else 1),
              (if want then kids_bytes (fs, ls, k, rs) else None), b')
        \<and> represents b' root (plug fs (ls @ rs)) \<and> lock b' = lock b \<and> length chs = length changes \<and> capacity b' = capacity b
        \<and> changes_total chs (if has_kids k then 2 else 1) = tail b' - tail b)"
proof -
  let ?hl = "first_pos root" and ?off = "of_nat (epos (first_pos root) fs ls) :: u32"
  have reg: "region b ?hl (plug fs (ls @ k # rs))" using r by (simp add: represents_def)
  have po: "?off \<noteq> 0" "?off \<noteq> 8" using entry_off[OF reg] by simp_all
  show ?thesis
  proof (cases "has_kids k")
    case False
    have k0: "get_kids_offset b ?off = Some 0" using region_get_kids[OF reg] False by simp
    obtain sz b' where b': "remove_node b ?off = Some (sz, b')"
      "represents b' root (plug fs (ls @ rs))" "lock b' = lock b" "tail b' = tail b - sz"
      "capacity b' = capacity b" using remove_node_represents[OF r False] by blast
    let ?chs = "changes[0 := \<lparr>start_off = ?off, delta = - sz\<rparr>]"
    have ne: "changes \<noteq> []" using ch by auto
    have "do_remove_path al b path changes n want = Some (FS_OK, ?chs, 1, None, b')"
      using off po k0 b'(1) ne by (simp add: do_remove_path_def put_change_def del: of_nat_add)
    moreover have "changes_total ?chs 1 = tail b' - tail b"
      using b'(4) ch by (cases changes) (simp_all add: changes_total_def)
    ultimately show ?thesis using False b' by (auto simp: kids_bytes_def)
  next
    case True
    then obtain m cs where k: "k = Dir m cs" "cs \<noteq> []" by (cases k) auto
    let ?a = "?hl + zpos ((ls, m, rs) # fs)" and ?g = "ents cs + 5 + subs cs"
    let ?Y = "block (fpar ((ls, m, rs) # fs) (ents cs)) cs"
    note kb = region_kids_block[OF reg[unfolded k(1)] k(2)]
    have g: "nsub k = ?g" using k by simp
    have copy: "COPY_TREE al b want (of_nat ?a) (of_nat (?a + ?g))
      = Some (if want then (case al ?g of None \<Rightarrow> (False, None) | Some _ \<Rightarrow> (True, Some ?Y))
              else (True, None))"
      using kb(4,5) by (simp add: COPY_TREE_def split: option.split del: of_nat_add)
    have "represents b root (plug ((ls, m, rs) # fs) cs)" using r k by simp
    from remove_kids_represents[OF this k(2)]
    obtain b1 where b1: "remove_kids b ?off (of_nat ?a) (of_nat (?a + ?g)) = Some b1"
      "represents b1 root (plug fs (ls @ Dir m [] # rs))" "lock b1 = lock b" "tail b1 = tail b - of_nat ?g"
      "capacity b1 = capacity b"
      by blast
    from remove_node_represents[OF b1(2)]
    obtain sz b' where b': "remove_node b1 ?off = Some (sz, b')"
      "represents b' root (plug fs (ls @ rs))" "lock b' = lock b1" "tail b' = tail b1 - sz"
      "capacity b' = capacity b1"
      by auto
    let ?chs = "changes[0 := \<lparr>start_off = of_nat ?a, delta = - of_nat ?g\<rparr>,
        1 := \<lparr>start_off = ?off, delta = - sz\<rparr>]"
    have d: "of_nat ?a - of_nat (?a + ?g) = (- of_nat ?g :: u32)" by simp
    note run = off po kb(1-3) copy do_remove_path_def put_change_def
    show ?thesis
    proof (cases "want \<and> al ?g = None")
      case True
      then have "do_remove_path al b path changes n want = Some (ERR_NO_MEM, changes, 0, None, b)"
        using run by (simp del: of_nat_add zpos.simps)
      then show ?thesis using True g k by auto
    next
      case False
      then have cp: "COPY_TREE al b want (of_nat ?a) (of_nat (?a + ?g))
          = Some (True, if want then Some ?Y else None)"
        unfolding copy by (cases want) auto
      have ch': "1 < length changes" "changes \<noteq> []" using ch by auto
      have "do_remove_path al b path changes n want
          = Some (FS_OK, ?chs, 2, (if want then Some ?Y else None), b')"
        using run(1-6) cp b1(1) b'(1) ch' d
        by (simp add: do_remove_path_def put_change_def del: of_nat_add zpos.simps)
      moreover have "changes_total ?chs 2 = tail b' - tail b"
      proof -
        obtain c0 c1 cs' where "changes = c0 # c1 # cs'" using ch
          by (cases changes; cases "List.tl changes") auto
        then show ?thesis using b1(4) b'(4)
          by (simp add: changes_total_def del: of_nat_add)
      qed
      ultimately show ?thesis using b1 b' k by (auto simp: kids_bytes_def)
    qed
  qed
qed

lemma do_remove_path_root:
  assumes r: "represents b root ks" and off: "get_path_offset b path = Some 8"
    and ch: "changes \<noteq> []"
  shows "(want \<and> al (length (enc_root ks)) = None
        \<and> do_remove_path al b path changes n want = Some (ERR_NO_MEM, changes, n, None, b))
    \<or> (\<exists>chs b'. do_remove_path al b path changes n want
          = Some (FS_OK, chs, 1, (if want then Some (enc_root ks) else None), b')
        \<and> represents b' root [] \<and> lock b' = lock b \<and> length chs = length changes
        \<and> changes_total chs 1 = tail b' - tail b)"
proof -
  let ?hl = "first_pos root" and ?g = "length (enc_root ks)"
  obtain H J where H: "head b = H @ enc_root ks @ J" "length H = ?hl" "small b"
    "tail b = of_nat (?hl + ?g)" "?hl + ?g \<le> length (head b)"
    "first_name_off b = of_nat ?hl" "cap_ok b"
    using r by (rule representsE)
  have s: "?hl + ?g \<le> 1073741824" using H(3,5) by linarith
  have "tail b - first_name_off b = of_nat ?g" using H(4,6) by simp
  then have u: "unat (first_name_off b) = ?hl" "unat (tail b - first_name_off b) = ?g"
    using s H(6) by (simp_all add: off_simps del: of_nat_add of_nat_Suc)
  have gb: "get_bytes (head b) ?hl ?g = Some (enc_root ks)"
    unfolding H(1) by (rule get_bytes_split[OF H(2) refl])
  let ?b' = "b\<lparr>tail := first_name_off b\<rparr>"
  let ?chs = "changes[0 := \<lparr>start_off = first_name_off b, delta = first_name_off b - tail b\<rparr>]"
  have rep: "represents ?b' root []"
    by (rule representsI[OF r H(1,2), of _ _ "enc_root ks @ J"])
      (use H in \<open>simp_all add: enc_root_def cap_ok_def\<close>)
  have tot: "changes_total ?chs 1 = tail ?b' - tail b"
    using ch by (cases changes) (simp_all add: changes_total_def)
  show ?thesis
  proof (cases "want \<and> al ?g = None")
    case True
    then show ?thesis using off u by (simp add: do_remove_path_def COPY_TREE_def)
  next
    case False
    have "do_remove_path al b path changes n want
        = Some (FS_OK, ?chs, 1, (if want then Some (enc_root ks) else None), ?b')"
      using False off u gb ch
      by (auto simp: do_remove_path_def COPY_TREE_def put_change_def split: option.splits)
    then show ?thesis using rep tot by (intro disjI2 exI[of _ ?chs] exI[of _ ?b']) simp
  qed
qed

theorem remove_path_represents:
  assumes r: "represents b root ks" and l: "lock b = Unlocked" and p: "is_cstr path"
    and ch: "2 \<le> length changes" and spec: "tree_remove root ks path = Some (res, ks')"
  shows "\<exists>chs m b'. remove_path al b path changes n = Some (res, chs, m, b')
    \<and> represents b' root ks' \<and> lock b' = Unlocked
    \<and> (if res = FS_OK then changes_total chs m = tail b' - tail b
       else chs = changes \<and> m = n \<and> b' = b)"
proof -
  let ?b = "b\<lparr>lock := Writer\<rparr>"
  have r': "represents ?b root ks" using r by simp
  have w: "wrlock b = Some ?b" using l by (simp add: wrlock_def)
  have un: "unlock b' = Some (b'\<lparr>lock := Unlocked\<rparr>)" if "lock b' = Writer" for b'
    using that by (simp add: unlock_def)
  note off = get_path_offset_represents[OF r' p]
  consider (none) "resolve root ks path = Some None" "res = ERR_NO_PATH" "ks' = ks"
    | (root) "resolve root ks path = Some (Some Root)" "res = FS_OK" "ks' = []"
    | (at) fs ls k rs where "resolve root ks path = Some (Some (At (fs, ls, k, rs)))" "res = FS_OK"
        "ks' = plug fs (ls @ rs)"
    using spec by (auto simp: tree_remove_def split: option.splits target.splits)
  then show ?thesis
  proof cases
    case none
    have "b\<lparr>lock := Unlocked\<rparr> = b" using l by simp
    then show ?thesis
      using none w un[of ?b] off r l by (simp add: remove_path_def do_remove_path_def)
  next
    case root
    have "get_path_offset ?b path = Some 8" "changes \<noteq> []" using off root ch by auto
    from do_remove_path_root[OF r' this, of False al n]
    show ?thesis using w un root unfolding remove_path_def by fastforce
  next
    case (at fs ls k rs)
    have "plug fs (ls @ k # rs) = ks" using resolve_At(1)[OF at(1)] by simp
    then have "represents ?b root (plug fs (ls @ k # rs))" using r' by simp
    from do_remove_path_at[OF this _ ch, of path False al n] off at(1)
    show ?thesis using w un at unfolding remove_path_def by fastforce
  qed
qed

end
