(* ===== verification/Fs_Room.thy ===== *)
theory Fs_Room
  imports Fs_Remove_Path
begin

text \<open>
  When the memory of a buffer suffices: either the bytes are there, or the allocator never fails and the
  buffer is below half of \<open>MAX_FSBUF_SIZE\<close>, so that it can grow.
\<close>

definition alloc_total :: "allocator \<Rightarrow> bool" where
  "alloc_total al \<longleftrightarrow> alloc_ok al \<and> (\<forall>n \<le> 1073741824. al n \<noteq> None)"

lemma reserve_total:
  assumes al: "alloc_total al" and cap: "cap_ok b" and sm: "small b"
    and t: "tail b = of_nat t" "t \<le> length (head b)" and n: "t + 2 * n + 1048576 \<le> 1073741824"
  shows "fst (reserve al b (of_nat n))"
proof -
  let ?sz = "of_nat n :: u32"
  have n': "n < 2147483648" using n by simp
  define a where "a = (if ?sz div 1048576 * 1048576 < ?sz then ?sz div 1048576 * 1048576 + 1048576
                 else ?sz div 1048576 * 1048576)"
  let ?l = "length (head b)"
  have a: "n \<le> unat a" "unat a \<le> n + 1048576" using round_up_block[OF refl n'] unfolding a_def by auto
  have u: "unat (capacity b + a) = ?l + unat a"
    using unat_add_lem[of "capacity b" a] cap sm a n by (simp add: cap_ok_def)
  show ?thesis
  proof (cases "?l \<le> t + n")
    case True
    then have le: "?l + unat a \<le> 1073741824" using a n by linarith
    then have "al (?l + unat a) \<noteq> None" using al by (simp add: alloc_total_def)
    moreover have "\<not> capacity b + a > 1073741824"
      using le u by (simp add: word_less_nat_alt del: word_less_nat_alt[symmetric])
    moreover have "alloc_ok al" using al by (simp add: alloc_total_def)
    ultimately have "fst (add_capacity al b ?sz)"
      unfolding add_capacity_def a_def[symmetric] Let_def u by (auto split: option.splits)
    then show ?thesis by (simp add: reserve_def)
  next
    case False
    then show ?thesis
      using reserve_cases[of al b n t] al cap sm n' t by (auto simp: alloc_total_def)
  qed
qed

definition avail :: "allocator \<Rightarrow> fs_buf \<Rightarrow> nat \<Rightarrow> bool" where
  "avail al b n \<longleftrightarrow> unat (tail b) + n < length (head b)
    \<or> alloc_total al \<and> 2 * (unat (tail b) + n) + 1048576 \<le> 1073741824"

lemma avail_mono: "avail al b n \<Longrightarrow> k \<le> n \<Longrightarrow> avail al b k"
  by (auto simp: avail_def)

lemma avail_less: "avail al b n \<Longrightarrow> small b \<Longrightarrow> n < 1073741824"
  by (auto simp: avail_def)

text \<open>The buffer with the bytes reserved.\<close>

lemma reserve_represents:
  assumes r: "represents b root ks" and al: "alloc_ok al" and av: "avail al b n"
  obtains c where "reserve al b (of_nat n) = (True, c)" "represents c root ks" "lock c = lock b" "tail c = tail b"
    "unat (tail c) + n \<le> length (head c)"
proof -
  let ?t = "first_pos root + length (enc_root ks)"
  obtain H J where H: "head b = H @ enc_root ks @ J" "length H = first_pos root" "forest_ok ks" "small b"
    "tail b = of_nat ?t" "?t \<le> length (head b)" "first_name_off b = of_nat (first_pos root)" "cap_ok b"
    "region b (first_pos root) ks" "root_ok root"
    using r by (rule representsE)
  have u: "unat (tail b) = ?t" using H(4-6) by (simp add: off_simps del: of_nat_add)
  have n: "n < 2147483648" using avail_less[OF av H(4)] by simp
  have "fst (reserve al b (of_nat n))"
  proof (cases "?t + n < length (head b)")
    case True
    then show ?thesis using reserve_cases[OF al H(8,4) n H(5,6)] by auto
  next
    case False
    then have "alloc_total al" "?t + 2 * n + 1048576 \<le> 1073741824" using av False u by (simp_all add: avail_def)
    then show ?thesis using reserve_total[OF _ H(8,4,5,6), of al n] by blast
  qed
  then obtain ext where e: "reserve al b (of_nat n)
      = (True, b\<lparr>head := head b @ ext, capacity := of_nat (length (head b @ ext))\<rparr>)"
    "?t + n \<le> length (head b @ ext)" "length (head b @ ext) \<le> 1073741824"
    using reserve_cases[OF al H(8,4) n H(5,6)] by auto
  let ?c = "b\<lparr>head := head b @ ext, capacity := of_nat (length (head b @ ext))\<rparr>"
  have "represents ?c root ks"
    by (rule representsI[OF r H(1,2), where J = "J @ ext"])
      (use H e(3) in \<open>simp_all add: cap_ok_def unat_of_nat32 del: of_nat_add\<close>)
  then show ?thesis using e u by (intro that[of ?c]) simp_all
qed

text \<open>The insertion fails for want of memory only if the bytes cannot be reserved.\<close>

lemma insert_new_name_no_mem:
  "insert_new_name al b off name d p = Some (ERR_NO_MEM, b')
    \<Longrightarrow> \<exists>n \<le> length name + 10. \<not> fst (reserve al b (of_nat n))"
  by (rule exI[of _ "length name + 1 + (if d then 4 else 1) + (if p then 5 else 0)"])
    (auto simp: insert_new_name_def Let_def reserve_def Option.bind_eq_Some_conv split: if_splits prod.splits)

definition no_memory :: "(fs_result \<times> 'a \<times> 'b) option \<Rightarrow> bool" where
  "no_memory x \<longleftrightarrow> (\<exists>c b. x = Some (ERR_NO_MEM, c, b))"

lemma not_no_memoryI:
  "r \<noteq> ERR_NO_MEM \<Longrightarrow> \<not> no_memory (Some (r, c, b))"
  "(\<And>a. x = Some a \<Longrightarrow> \<not> no_memory (f a)) \<Longrightarrow> \<not> no_memory (x \<bind> f)"
  "(P \<Longrightarrow> \<not> no_memory y) \<Longrightarrow> (\<not> P \<Longrightarrow> \<not> no_memory z) \<Longrightarrow> \<not> no_memory (if P then y else z)"
  "(o' = None \<Longrightarrow> \<not> no_memory y) \<Longrightarrow> (\<And>a. o' = Some a \<Longrightarrow> \<not> no_memory (g a))
    \<Longrightarrow> \<not> no_memory (case o' of None \<Rightarrow> y | Some a \<Rightarrow> g a)"
  "(\<And>a d. p = (a, d) \<Longrightarrow> \<not> no_memory (h a d)) \<Longrightarrow> \<not> no_memory (case p of (a, d) \<Rightarrow> h a d)"
  by (auto simp: no_memory_def Option.bind_eq_Some_conv split: option.splits prod.splits)

lemma do_insert_path_no_mem:
  assumes "\<And>n. n \<le> length path + 10 \<Longrightarrow> fst (reserve al b (of_nat n))"
  shows "\<not> no_memory (do_insert_path al b path d c)"
proof -
  have n: "r \<noteq> ERR_NO_MEM" if t: "insert_new_name al b off (drop i path) e p = Some (r, b')" for off i e p r b'
  proof
    assume "r = ERR_NO_MEM"
    then obtain n where "n \<le> length (drop i path) + 10" "\<not> fst (reserve al b (of_nat n))"
      using insert_new_name_no_mem[of al b off "drop i path" e p b'] t by auto
    then show False using assms[of n] by simp
  qed
  show ?thesis unfolding do_insert_path_def Let_def
    by (intro not_no_memoryI; (simp; fail)?; use n in \<open>blast\<close>)
qed

lemma do_insert_path_avail:
  assumes "represents b root ks" "alloc_ok al" "avail al b (length path + 10)"
  shows "do_insert_path al b path d c \<noteq> Some (ERR_NO_MEM, c', b')"
proof -
  have "fst (reserve al b (of_nat n))" if "n \<le> length path + 10" for n
    using reserve_represents[OF assms(1,2) avail_mono[OF assms(3) that]] by (metis fst_conv)
  then show ?thesis using do_insert_path_no_mem[of path al b d c] by (auto simp: no_memory_def)
qed

lemma insert_path_avail:
  assumes "represents b root ks" "lock b = Unlocked" "alloc_ok al" "avail al b (length path + 10)"
  shows "insert_path al b path d c \<noteq> Some (ERR_NO_MEM, c', b')"
proof -
  have "represents (b\<lparr>lock := Writer\<rparr>) root ks" "avail al (b\<lparr>lock := Writer\<rparr>) (length path + 10)"
    using assms(1,4) by (simp_all add: avail_def)
  from do_insert_path_avail[OF this(1) assms(3) this(2)] show ?thesis
    using assms(2) by (auto simp: insert_path_def wrlock_def unlock_def Option.bind_eq_Some_conv)
qed

end
