(* ===== verification/Fs_Rename.thy ===== *)
theory Fs_Rename
  imports Fs_Room
begin

text \<open>
  Renaming: the kids of a removed folder come back below the new entry (\<open>restore_kids\<close>), and
  \<open>rename_path\<close> moves a node with its whole subtree to a fresh path.
\<close>

subsection \<open>Canonical paths\<close>

definition path_of :: "cstring \<Rightarrow> loc \<Rightarrow> cstring" where
  "path_of root l = root @ join_slash (loc_names l)"

lemma loc_names_ok:
  assumes "forest_ok (loc_forest l)"
  shows "\<forall>c\<in>set (loc_names l). name_ok c"
proof -
  have "frames_ok fs \<Longrightarrow> \<forall>c\<in>set (frame_names fs). name_ok c" for fs
    by (induction fs rule: frame_names.induct) auto
  then show ?thesis using assms by (cases l) (auto simp: name_ok_nname)
qed

lemma split_names:
  assumes "cs \<noteq> []" "\<forall>c\<in>set cs. name_ok c"
  shows "split_slash (join_slash cs) = cs" "join_slash cs \<noteq> []" "is_cstr (join_slash cs)"
proof -
  show s: "split_slash (join_slash cs) = cs"
    using assms by (intro split_join) (auto simp: name_ok_def)
  show "join_slash cs \<noteq> []"
  proof
    assume "join_slash cs = []"
    then have "cs = [[]]" using s by simp
    then show False using assms(2) by (simp add: name_ok_def)
  qed
  show "is_cstr (join_slash cs)" using assms(2) by (intro is_cstr_join) (auto simp: name_ok_is_cstr)
qed

lemma resolve_names:
  assumes root: "root_ok root" and n: "cs \<noteq> []" "\<forall>c\<in>set cs. name_ok c"
  shows "resolve1 root ks (root @ join_slash cs) = map_option At (lookup ks cs)"
  using split_names[OF n] root by (simp add: resolve1_def root_ok_def)

lemma resolve_path_of:
  assumes root: "root_ok root" and ok: "forest_ok (loc_forest l)" and first: "loc_first l"
  shows "resolve root (loc_forest l) (path_of root l) = Some (Some (At l))"
proof -
  have "loc_names l \<noteq> []" by (cases l) simp
  from resolve_names[OF root this loc_names_ok[OF ok]] lookup_complete[OF first]
  show ?thesis by (simp add: resolve_def path_of_def)
qed

lemma is_cstr_append [simp]: "is_cstr (p @ q) \<longleftrightarrow> is_cstr p \<and> is_cstr q"
  by (auto simp: is_cstr_def)

lemma is_cstr_path_of:
  assumes "root_ok root" "forest_ok (loc_forest l)"
  shows "is_cstr (path_of root l)"
proof -
  have "loc_names l \<noteq> []" by (cases l) simp
  from split_names(3)[OF this loc_names_ok[OF assms(2)]] assms(1)
  show ?thesis by (simp add: path_of_def root_ok_def)
qed

subsection \<open>The kids below the new folder\<close>

lemma block_reparent:
  "block p cs = enc_ents (ents cs + 5) cs @ marker p @ enc_subs (ents cs + 5) cs"
  by (simp add: block_def)

lemma restore_kids_reserved:
  assumes r: "represents b root (plug fs (ls @ Dir n [] # rs))" and cs: "cs \<noteq> []" "forest_ok cs"
    and len: "ents cs + 5 + subs cs < 1073741824"
    and al: "reserve al b0 (of_nat (ents cs + 5 + subs cs)) = (True, b)"
    and room: "unat (tail b) + (ents cs + 5 + subs cs) \<le> length (head b)"
  defines "F \<equiv> (ls, n, rs) # fs" and "g \<equiv> ents cs + 5 + subs cs"
  shows "\<exists>ko b'. restore_kids al b0 (of_nat (epos (first_pos root) fs ls)) (block p cs) = Some (FS_OK, ko, b')
    \<and> represents b' root (plug F cs) \<and> lock b' = lock b \<and> tail b' = tail b + of_nat g"
proof -
  let ?hl = "first_pos root" and ?f = "(ls, n, rs)"
  let ?a = "?hl + zpos F" and ?po = "of_nat (epos (first_pos root) fs ls) :: u32"
  have F: "plug fs (ls @ Dir n [] # rs) = plug F []" "zparent ?hl F = epos ?hl fs ls" "F \<noteq> []"
    by (simp_all add: F_def)
  obtain H J where H: "head b = H @ enc_root (plug F []) @ J" "length H = ?hl"
    "forest_ok (plug F [])" "small b" "tail b = of_nat (?hl + length (enc_root (plug F [])))"
    "?hl + length (enc_root (plug F [])) \<le> length (head b)"
    "first_name_off b = of_nat ?hl" "cap_ok b"
    using r unfolding F(1) by (rule representsE)
  have reg: "region b ?hl (plug fs (ls @ Dir n [] # rs))" using r by (simp add: represents_def)
  have le: "enc_root (plug F []) = zlev 0 ?f fs 0 @ zsuf F 0"
    using plug_layout_empty[of fs ls n rs] unfolding F(1) F_def .
  let ?X = "H @ zlev 0 ?f fs 0" and ?Y = "zsuf F 0"
  have hX: "head b = ?X @ ?Y @ J" "length ?X = ?a" using H(1,2) le by (simp_all add: F_def)
  have tY: "?hl + length (enc_root (plug F [])) = ?a + length ?Y" using le by (simp add: F_def)
  have ut: "unat (tail b) = ?a + length ?Y"
    using H(4,5,6) tY by (simp add: off_simps del: of_nat_add)
  have rm: "?a + length ?Y + g \<le> length (head b)" using room ut by (simp add: g_def)
  have gs: "unat (of_nat g :: u32) = g" using len by (simp add: g_def off_simps del: of_nat_add)
  have io: "get_insert_offset b ?po = Some (of_nat ?a)"
    using region_get_insert_offset[OF reg] by (simp add: F_def)
  have ua: "unat (of_nat ?a :: u32) = ?a" "of_nat ?a < tail b \<longleftrightarrow> 0 < length ?Y"
    "unat (tail b - of_nat ?a) = length ?Y"
  proof -
    have s: "?a + length ?Y < 4294967296" using rm H(4) by linarith
    then show "unat (of_nat ?a :: u32) = ?a" by (simp add: off_simps del: of_nat_add)
    show "of_nat ?a < tail b \<longleftrightarrow> 0 < length ?Y"
      using s H(5) tY by (simp add: off_simps del: of_nat_add)
    have "tail b - of_nat ?a = of_nat (length ?Y)" using H(5) tY of_nat32_diff[of ?a "?a + length ?Y"] by simp
    then show "unat (tail b - of_nat ?a) = length ?Y" using s by (simp add: off_simps)
  qed
  have lb: "length (head b) = ?a + length ?Y + length J" unfolding hX(1) using hX(2) by simp
  then have lJ: "length ?Y + g \<le> length (?Y @ J)" using rm by simp
  obtain gap where gap: "length gap = g"
    "(if 0 < length ?Y then memmove (head b) (?a + g) ?a (length ?Y) else Some (head b))
      = Some (?X @ gap @ ?Y @ drop g J)"
    using open_gap[OF hX(2) lJ] unfolding hX(1)[symmetric] by blast
  let ?T = "block p cs"
  have lT: "length ?T = g" by (simp add: g_def)
  have put: "put_bytes (?X @ gap @ ?Y @ drop g J) ?a ?T = Some (?X @ ?T @ ?Y @ drop g J)"
    using gap(1) lT hX(2) by (intro put_bytes_split) simp_all
  define b1 where "b1 = b\<lparr>head := ?X @ ?T @ ?Y @ drop g J, tail := tail b + of_nat g\<rparr>"
  define b2 where "b2 = b\<lparr>head := H @ zpre F 0 @ ?T @ ?Y @ drop g J, tail := tail b + of_nat g\<rparr>"
  let ?E = "ents cs" and ?e = "enc_ents (ents cs + 5) cs" and ?s = "enc_subs (ents cs + 5) cs"
  define b3 where "b3 = b2\<lparr>head := (H @ zpre F 0) @ ?e @ marker (fpar F ?E) @ (?s @ ?Y @ drop g J)\<rparr>"
  have l1: "length (head b1) = length (head b)" unfolding lb b1_def using hX(2) lT lJ by simp
  have l2: "length (head b2) = length (head b)" unfolding lb b2_def using lT lJ H(2) by simp
  have n: "name_ok n" using H(3)[folded F(1)] by simp
  have sm: "small b1" "small b2" using H(4) l1 l2 by simp_all
  have h1: "head b1 = H @ zlev 0 ?f fs 0 @ (?T @ ?Y @ drop g J)" by (simp add: b1_def)
  have k: "do_set_kids_off b1 ?po (of_nat ?a) = Some b2"
    using set_kids_empty[OF h1 n H(2) _ sm(1)] by (simp add: b2_def b1_def F_def)
  have h2: "head b2 = (H @ zpre F 0) @ ?e @ marker p @ (?s @ ?Y @ drop g J)"
    by (simp add: b2_def block_def)
  let ?t = "?hl + length (enc_root (plug F cs))"
  have sz: "length (enc_root (plug F cs)) = zpos F + g + length ?Y"
    using region_size[OF cs(1), of F] length_zsuf_indep[of F 0 "ents cs + 5 + subs cs"]
    by (simp add: g_def)
  have te: "?t = ?a + length ?Y + g" using sz by simp
  have t2: "tail b2 = of_nat ?t" "?a + ents cs < ?t" "?t \<le> length (head b2)"
    using H(5) tY rm l2 unfolding te by (simp_all add: b2_def g_def)
  have "0 < ?hl" by simp
  have a2: "length (H @ zpre F 0) = ?a" "?a + ents cs = ?hl + zpos F + ?E" using H(2) by simp_all
  obtain tl where tl: "get_folder_tail_offset b2 (of_nat ?a) = Some tl"
    "set_parent_offset b2 tl ?po = Some b3"
    using retag_parent[OF h2 cs(2) a2 \<open>0 < ?hl\<close> sm(2) t2 F(3)] unfolding F(2) b3_def by blast
  have h3: "head b3 = H @ zpre F 0 @ enc_ents 0 [] @ enc_ents (ents cs + 5 + subs []) cs
        @ marker (fpar F (ents ([] @ cs))) @ enc_subs 0 [] @ enc_subs (ents cs + 5 + subs []) cs
        @ zsuf F 0 @ drop g J"
    by (simp add: b3_def)
  have ok: "forest_ok (plug F ([] @ cs))" using H(3) cs(2) by simp
  have l3: "length (head b3) = length (head b)" unfolding h3 using l2 h2 by simp
  have sm3: "small b3" using H(4) l3 by simp
  have f3: "first_name_off b3 = of_nat ?hl" using H(7) by (simp add: b3_def b2_def)
  have zs: "zsize F 0 < 1073741824" unfolding zsize_eq using rm H(4) by simp
  have t3: "tail b3 = of_nat (?hl + length (enc_root (plug F ([] @ cs))))" using t2(1) by (simp add: b3_def)
  let ?b4 = "b3\<lparr>head := H @ enc_root (plug F ([] @ cs)) @ drop g J\<rparr>"
  have "update_offsets b3 (of_nat (epos ?hl F [])) (of_nat g) True = Some ?b4"
    by (rule update_offsets_relayout[OF h3 ok _ H(2) \<open>0 < ?hl\<close> sm3 f3 t3])
      (use cs zs t2(3) l3 l2 in \<open>simp_all add: g_def\<close>)
  then have u: "update_offsets b3 (of_nat ?a) (of_nat g) True = Some ?b4" by simp
  have l4: "length (head ?b4) = length (head b)" unfolding lb using H(2) sz lJ by simp
  have "represents ?b4 root (plug F ([] @ cs))"
    by (rule representsI[OF r H(1)[folded F(1)] H(2) _ ok])
      (use l4 H(4,8) t3 in \<open>simp_all add: cap_ok_def b3_def b2_def\<close>)
  then have rep: "represents ?b4 root (plug F cs)" by simp
  have res: "(if of_nat (length ?T) + tail b0 \<ge> capacity b0 then add_capacity al b0 (of_nat (length ?T))
      else (True, b0)) = (True, b)" using al unfolding lT g_def reserve_def .
  define M1 where "M1 = ?X @ gap @ ?Y @ drop g J"
  define M2 where "M2 = ?X @ ?T @ ?Y @ drop g J"
  define b4 where "b4 = ?b4"
  have mv: "(if of_nat ?a < tail b then memmove (head b) (?a + g) ?a (length ?Y) else Some (head b))
      = Some M1" using gap(2) ua(2) unfolding M1_def by (simp only:)
  have pt: "put_bytes M1 ?a ?T = Some M2" using put unfolding M1_def M2_def .
  have k': "do_set_kids_off (b\<lparr>head := M2, tail := tail b + of_nat g\<rparr>) ?po (of_nat ?a) = Some b2"
    using k unfolding b1_def M2_def .
  have u': "update_offsets b3 (of_nat ?a) (of_nat g) True = Some b4" using u unfolding b4_def .
  have "restore_kids al b0 ?po ?T = Some (FS_OK, of_nat ?a, b4)"
    unfolding restore_kids_def Let_def res unfolding lT
    using mv by (cases "of_nat ?a < tail b") (simp_all add: io ua(1,3) gs pt k' tl u' del: of_nat_add)
  then show ?thesis using rep by (intro exI[of _ "of_nat ?a"] exI[of _ b4]) (simp add: b4_def b3_def b2_def)
qed

lemma restore_kids_represents:
  assumes r: "represents b root (plug fs (ls @ Dir n [] # rs))" and cs: "cs \<noteq> []" "forest_ok cs"
    and al: "alloc_ok al" and len: "ents cs + 5 + subs cs < 1073741824"
    and room: "avail al b (ents cs + 5 + subs cs)"
  shows "\<exists>ko b'. restore_kids al b (of_nat (epos (first_pos root) fs ls)) (block p cs) = Some (FS_OK, ko, b')
    \<and> represents b' root (plug ((ls, n, rs) # fs) cs) \<and> lock b' = lock b"
proof -
  obtain c where c: "reserve al b (of_nat (ents cs + 5 + subs cs)) = (True, c)"
    "represents c root (plug fs (ls @ Dir n [] # rs))" "lock c = lock b"
    "unat (tail c) + (ents cs + 5 + subs cs) \<le> length (head c)"
    using reserve_represents[OF r al room] by blast
  from restore_kids_reserved[OF c(2) cs len c(1,4)] c(3) show ?thesis by fastforce
qed

subsection \<open>Moving a node to a fresh path\<close>

fun rename_node :: "cstring \<Rightarrow> node \<Rightarrow> node" where
  "rename_node nm (File n) = File nm"
| "rename_node nm (Dir n cs) = Dir nm cs"

text \<open>The path of the directory in focus.  The root path ends with one slash.\<close>

definition dir_path :: "cstring \<Rightarrow> frame list \<Rightarrow> cstring" where
  "dir_path root F = (if F = [] then butlast root else root @ join_slash (frame_names F))"

definition root_single :: "cstring \<Rightarrow> bool" where
  "root_single root \<longleftrightarrow> root_ok root \<and> (root = [slash] \<or> cchar root (length root - 2) \<noteq> slash)"

lemma frame_names_eq_Nil [simp]: "frame_names fs = [] \<longleftrightarrow> fs = []"
  by (cases fs rule: frame_names.cases) auto

lemma path_of_dir:
  assumes "root_ok root"
  shows "path_of root (F, ds, k, es) = dir_path root F @ slash # nname k"
proof (cases "F = []")
  case True
  have r: "butlast root @ [slash] = root" using assms by (metis append_butlast_last_id root_ok_def)
  have "path_of root (F, ds, k, es) = root @ nname k" using True by (simp add: path_of_def)
  also have "\<dots> = (butlast root @ [slash]) @ nname k" unfolding r ..
  finally show ?thesis using True by (simp add: dir_path_def)
next
  case False
  then show ?thesis by (simp add: path_of_def dir_path_def join_slash_snoc)
qed

lemma strrchr_snoc: "slash \<notin> set nm \<Longrightarrow> strrchr (p @ slash # nm) slash = Some (length p)"
  unfolding strrchr_Some by blast

lemma resolve_dir_root:
  assumes "root_single root"
  shows "resolve root ks (dir_path root []) = Some (Some Root)"
proof (cases "root = [slash]")
  case True
  then show ?thesis by (simp add: dir_path_def resolve_def resolve1_def)
next
  case False
  have ne: "root \<noteq> []" and l: "last root = slash" using assms by (simp_all add: root_single_def root_ok_def)
  let ?p = "butlast root"
  have pr: "?p @ [slash] = root" using ne l by (metis append_butlast_last_id)
  have "?p \<noteq> []" using False pr by (metis append_Nil)
  moreover have "length ?p < length root" using ne by simp
  ultimately have p: "?p \<noteq> []" "length ?p < length root" .
  have "0 < length ?p" using p(1) by blast
  then have len: "length ?p - 1 = length root - 2" "length root - 2 < length ?p"
    "length root - 2 < length root" by simp_all
  have "cchar root (length root - 2) \<noteq> slash" using assms False by (simp add: root_single_def)
  then have "cchar ?p (length ?p - 1) \<noteq> slash"
    unfolding cchar_def len(1) nth_butlast[OF len(2)] using len by simp
  then have t: "toggle_slash ?p = root" using pr by (simp add: toggle_slash_def)
  have "?p \<noteq> root" using p(2) by (metis less_irrefl)
  moreover have "take (length root) ?p = ?p" by simp
  ultimately have "resolve1 root ks ?p = None" using p(1) by (simp add: resolve1_def)
  then show ?thesis using t p ne by (simp add: resolve_def dir_path_def) (simp add: resolve1_def)
qed

lemma resolve_dir_at:
  assumes "root_ok root" "frames_ok ((ls, n, rs) # fs)" "forest_ok ds" "frames_first ((ls, n, rs) # fs)"
  shows "resolve root (plug ((ls, n, rs) # fs) ds) (dir_path root ((ls, n, rs) # fs))
    = Some (Some (At (fs, ls, Dir n ds, rs)))"
  using resolve_path_of[OF assms(1), of "(fs, ls, Dir n ds, rs)"] assms
  by (simp add: path_of_def dir_path_def)

lemma tree_insert_fresh:
  assumes root: "root_single root" and ok: "forest_ok (plug F ds)" and n: "name_ok nm"
    and first: "frames_first F" and fresh: "\<not> has_name nm ds"
  shows "tree_insert root (plug F ds) (dir_path root F @ slash # nm) d
    = Some (FS_OK, plug F (ds @ [new_node nm d]))"
proof -
  have s: "strrchr (dir_path root F @ slash # nm) slash = Some (length (dir_path root F))"
    using n by (intro strrchr_snoc) (simp add: name_ok_def)
  have nn: "nm \<noteq> []" using n by (simp add: name_ok_def)
  show ?thesis
  proof (cases F)
    case Nil
    then show ?thesis
      using s nn fresh resolve_dir_root[OF root] by (simp add: tree_insert_def Let_def)
  next
    case (Cons f fs)
    obtain ls n rs where f: "f = (ls, n, rs)" by (cases f)
    have "resolve root (plug F ds) (dir_path root F) = Some (Some (At (fs, ls, Dir n ds, rs)))"
      using resolve_dir_at[of root ls n rs fs ds] root ok first Cons f by (simp add: root_single_def)
    then show ?thesis using s nn fresh Cons f by (simp add: tree_insert_def Let_def)
  qed
qed

lemma removed_size:
  "length (enc_root (plug fs (ls @ rs))) + esize k + nsub k \<le> length (enc_root (plug fs (ls @ k # rs)))"
proof -
  let ?g = "ents (ls @ k # rs) + 5 + subs (ls @ k # rs)"
  have n: "length (enc_root (plug fs (ls @ k # rs))) = zpos fs + ?g + length (zsuf fs ?g)"
    by (rule region_size) simp
  show ?thesis
  proof (cases "ls @ rs = []")
    case False
    then show ?thesis
      unfolding n region_size[OF False, of fs]
      using length_zsuf_indep[of fs ?g "ents (ls @ rs) + 5 + subs (ls @ rs)"] by simp
  next
    case True
    show ?thesis
    proof (cases fs)
      case Nil
      then show ?thesis using True by (simp add: enc_root_def)
    next
      case (Cons f fs')
      obtain ls' m rs' where f: "f = (ls', m, rs')" by (cases f)
      have "length (enc_root (plug fs (ls @ rs))) = zpos fs + length (zsuf fs 0)"
        using plug_layout_empty[of fs' ls' m rs'] Cons f True by simp
      then show ?thesis unfolding n using length_zsuf_indep[of fs ?g 0] True by simp
    qed
  qed
qed

lemma added_size:
  "length (enc_root (plug fs (ls @ k # rs))) \<le> length (enc_root (plug fs (ls @ rs))) + esize k + nsub k + 5"
proof -
  let ?g = "ents (ls @ k # rs) + 5 + subs (ls @ k # rs)"
  have n: "length (enc_root (plug fs (ls @ k # rs))) = zpos fs + ?g + length (zsuf fs ?g)"
    by (rule region_size) simp
  show ?thesis
  proof (cases "ls @ rs = []")
    case False
    then show ?thesis
      unfolding n region_size[OF False, of fs]
      using length_zsuf_indep[of fs ?g "ents (ls @ rs) + 5 + subs (ls @ rs)"] by simp
  next
    case True
    show ?thesis
    proof (cases fs)
      case Nil
      then show ?thesis using True by (simp add: enc_root_def)
    next
      case (Cons f fs')
      obtain ls' m rs' where f: "f = (ls', m, rs')" by (cases f)
      have "length (enc_root (plug fs (ls @ rs))) = zpos fs + length (zsuf fs 0)"
        using plug_layout_empty[of fs' ls' m rs'] Cons f True by simp
      then show ?thesis unfolding n using length_zsuf_indep[of fs ?g 0] True by simp
    qed
  qed
qed

lemma unat_tail:
  assumes "represents b root ks"
  shows "unat (tail b) = first_pos root + length (enc_root ks)"
  using assms by (rule representsE) (simp add: off_simps del: of_nat_add)

text \<open>The root marker is not a file as long as a name follows it.\<close>

lemma root_not_file:
  assumes r: "represents b root ks" and ne: "ks \<noteq> []"
  shows "do_is_file b 8 = Some False"
proof -
  obtain k rs where ks: "ks = k # rs" using ne by (cases ks) auto
  have "region b (first_pos root) (plug [] ([] @ k # rs))" using r ks by (simp add: represents_def)
  from region_rd8_ent[OF this] obtain c where c: "rd8 (head b) (first_pos root) = Some c" "c \<noteq> 0" by auto
  have u: "unat (8 :: u32) = 8" by simp
  have e: "8 + length root + 1 = first_pos root" by simp
  show ?thesis unfolding do_is_file_def u get_root_path_represents[OF r] using c e by simp
qed

lemma target_off_cases:
  assumes r: "represents b root ks" and t: "resolve root ks p = Some (Some tg)"
  shows "target_off (first_pos root) (Some tg) \<noteq> 0" "target_off (first_pos root) (Some tg) = 8 \<longleftrightarrow> tg = Root"
proof -
  have "target_off (first_pos root) (Some tg) \<noteq> 0
    \<and> (target_off (first_pos root) (Some tg) = 8 \<longleftrightarrow> tg = Root)"
  proof (cases tg)
    case (At l)
    obtain fs ls k rs where l: "l = (fs, ls, k, rs)" by (cases l)
    have "region b (first_pos root) (plug fs (ls @ k # rs))"
      using r resolve_At(1)[OF t[unfolded At]] l by (simp add: represents_def)
    from entry_off[OF this] show ?thesis using At l by simp
  qed simp
  then show "target_off (first_pos root) (Some tg) \<noteq> 0"
    "target_off (first_pos root) (Some tg) = 8 \<longleftrightarrow> tg = Root" by blast+
qed

lemma insert_renamed:
  assumes r: "represents b root (plug F ds)" and root: "root_single root"
    and n: "name_ok nm" and first: "frames_first F" and fresh: "\<not> has_name nm ds"
    and ne: "F \<noteq> [] \<or> ds \<noteq> []" and al: "alloc_ok al"
    and room: "avail al b (length (dir_path root F @ slash # nm) + 10)"
  shows "\<exists>c' b'. do_insert_path al b (dir_path root F @ slash # nm) d c = Some (FS_OK, c', b')
    \<and> represents b' root (plug F (ds @ [new_node nm d])) \<and> lock b' = lock b
    \<and> length (head b) \<le> length (head b')
    \<and> get_path_offset b' (dir_path root F @ slash # nm) = Some (of_nat (epos (first_pos root) F ds))"
proof -
  let ?dst = "dir_path root F @ slash # nm" and ?l = "(F, ds, new_node nm d, []) :: loc"
  have rok: "root_ok root" using root by (simp add: root_single_def)
  have ok: "forest_ok (plug F ds)" and sm: "small b" using r by (auto elim!: representsE)
  have pd: "path_of root ?l = ?dst" using path_of_dir[OF rok] by simp
  have okl: "forest_ok (loc_forest ?l)" using ok n by simp
  have dst: "is_cstr ?dst" using is_cstr_path_of[OF rok okl] pd by simp
  have len: "length ?dst < 1073741824" using avail_less[OF room sm] by simp
  have nep: "plug F ds \<noteq> []" using ne by simp
  obtain res where res: "do_insert_path al b ?dst d c = Some res"
    "inserted b root (plug F ds) ?dst c (FS_OK, plug F (ds @ [new_node nm d])) res"
    using do_insert_path_represents[OF r nep al dst len tree_insert_fresh[OF root ok n first fresh], of d c]
    by blast
  obtain r' c' b' where rr: "res = (r', c', b')" by (cases res)
  have "r' \<noteq> ERR_NO_MEM" using res(1) do_insert_path_avail[OF r al room] unfolding rr by blast
  then have i: "r' = FS_OK" "represents b' root (plug F (ds @ [new_node nm d]))" "lock b' = lock b"
    "length (head b) \<le> length (head b')"
    using res(2) unfolding inserted_def rr by (auto simp del: length_append)
  have "loc_first ?l" using first fresh by (simp add: has_name_set)
  from resolve_path_of[OF rok okl this]
  have "resolve root (plug F (ds @ [new_node nm d])) ?dst = Some (Some (At ?l))"
    unfolding pd by simp
  then have "get_path_offset b' ?dst = Some (of_nat (epos (first_pos root) F ds))"
    using get_path_offset_represents[OF i(2) dst] by simp
  then show ?thesis using res(1) i unfolding rr by blast
qed

theorem do_rename_path_moves:
  assumes r: "represents b root ks" and root: "root_single root" and al: "alloc_ok al"
    and src: "is_cstr src" "resolve root ks src = Some (Some (At (fs, ls, k, rs)))"
    and ks1: "plug fs (ls @ rs) = plug F ds" "F \<noteq> [] \<or> ds \<noteq> []"
    and n: "name_ok nm" and first: "frames_first F" and fresh: "\<not> has_name nm ds"
  defines "dst \<equiv> dir_path root F @ slash # nm"
  assumes dst: "resolve root ks dst = Some None" "resolve root ks (dir_path root F) = Some (Some tg)"
    and ch: "4 \<le> length changes" and mem: "has_kids k \<Longrightarrow> al (nsub k) \<noteq> None"
    and room: "avail al b (length dst + 10)"
  shows "\<exists>chs m b'. do_rename_path al b src dst changes cnt = Some (FS_OK, chs, m, b')
    \<and> represents b' root (plug F (ds @ [rename_node nm k])) \<and> lock b' = lock b"
proof -
  let ?hl = "first_pos root" and ?off = "of_nat (epos (first_pos root) fs ls) :: u32"
  have rok: "root_ok root" using root by (simp add: root_single_def)
  have kse: "plug fs (ls @ k # rs) = ks" using resolve_At(1)[OF src(2)] by simp
  have rk: "represents b root (plug fs (ls @ k # rs))" using r kse by simp
  have reg: "region b ?hl (plug fs (ls @ k # rs))" using rk by (simp add: represents_def)
  have okk: "node_ok k" using reg by (simp add: region_def)
  have nn: "nm \<noteq> []" and sn: "slash \<notin> set nm" using n by (simp_all add: name_ok_def)
  have sr: "strrchr dst slash = Some (length (dir_path root F))"
    unfolding dst_def by (rule strrchr_snoc[OF sn])
  have okl: "forest_ok (loc_forest (F, ds, new_node nm True, []))"
    using ks1(1) reg n by (simp add: region_def) (metis forest_ok_plug list_all_append)
  have cd: "is_cstr dst"
    using is_cstr_path_of[OF rok okl] path_of_dir[OF rok] by (simp add: dst_def)
  then have cp: "is_cstr (dir_path root F)" by (simp add: dst_def)
  have o1: "get_path_offset b src = Some ?off"
    using get_path_offset_represents[OF r src(1)] src(2) by simp
  have o2: "get_path_offset b dst = Some 0"
    using get_path_offset_represents[OF r cd] dst(1) by simp
  let ?po = "target_off ?hl (Some tg)"
  have o3: "get_path_offset b (dir_path root F) = Some ?po"
    using get_path_offset_represents[OF r cp] dst(2) by simp
  have po: "?po \<noteq> 0" using target_off_cases(1)[OF r dst(2)] .
  have ne: "ks \<noteq> []" using kse by auto
  have par: "(if ?po = 8 then do_is_file b ?po else Some False) = Some False"
    using root_not_file[OF r ne] by simp
  have isf: "do_is_file b ?off = Some (is_File k)" by (rule region_is_file[OF reg])
  have e: "?off \<noteq> 0" using entry_off[OF reg] by simp
  have ch2: "2 \<le> length changes" using ch by simp
  let ?n = "(if has_kids k then 2 else 1) :: u32"
  from do_remove_path_at[OF rk o1 ch2, of True al cnt] mem
  obtain chs b1 where b1: "do_remove_path al b src changes cnt True
        = Some (FS_OK, chs, ?n, kids_bytes (fs, ls, k, rs), b1)"
    "represents b1 root (plug fs (ls @ rs))" "lock b1 = lock b" "length chs = length changes"
    "capacity b1 = capacity b" by auto
  have r1: "represents b1 root (plug F ds)" using b1(2) ks1(1) by simp
  have len1: "length (head b1) = length (head b)"
    using b1(2,5) r by (auto elim!: representsE simp: cap_ok_def)
  have t1: "unat (tail b1) + esize k + nsub k \<le> unat (tail b)"
    using removed_size[of fs ls rs k] unat_tail[OF rk] unat_tail[OF b1(2)] by simp
  have "avail al b1 (length dst + 10)" using room t1 len1 by (auto simp: avail_def)
  note ins = insert_renamed[OF r1 root n first fresh ks1(2) al this[unfolded dst_def],
      folded dst_def, of "\<not> is_File k" "chs ! unat ?n"]
  then obtain c' b2 where b2: "do_insert_path al b1 dst (\<not> is_File k) (chs ! unat ?n) = Some (FS_OK, c', b2)"
    "represents b2 root (plug F (ds @ [new_node nm (\<not> is_File k)]))" "lock b2 = lock b1"
    "length (head b1) \<le> length (head b2)"
    "get_path_offset b2 dst = Some (of_nat (epos ?hl F ds))" by blast
  have n4: "unat ?n < length chs" using b1(4) ch by simp
  let ?chs = "chs[unat ?n := c']"
  have step: "do_rename_path al b src dst changes cnt = (case kids_bytes (fs, ls, k, rs) of
        None \<Rightarrow> Some (FS_OK, ?chs, ?n + 1, b2)
      | Some tree \<Rightarrow> do {
          (result, kids_off, b) \<leftarrow> restore_kids al b2 (of_nat (epos ?hl F ds)) tree;
          if result \<noteq> FS_OK then Some (result, ?chs, ?n + 1, b)
          else do {
            changes \<leftarrow> put_change ?chs (?n + 1) \<lparr>start_off = kids_off, delta = of_nat (length tree)\<rparr>;
            Some (FS_OK, changes, ?n + 1 + 1, b) } })"
  proof -
    have drop: "drop (length (dir_path root F) + 1) dst = nm" "take (length (dir_path root F)) dst = dir_path root F"
      by (simp_all add: dst_def)
    show ?thesis
      using o1 o2 e isf sr drop nn o3 po par b1(1) b2(1,5) n4
      by (simp add: do_rename_path_def put_change_def del: of_nat_add split del: if_split)
  qed
  show ?thesis
  proof (cases "has_kids k")
    case False
    have "new_node nm (\<not> is_File k) = rename_node nm k"
      using False by (cases k) (simp_all add: new_node_def)
    then show ?thesis using step b2 b1(3) False by (simp add: kids_bytes_def)
  next
    case True
    then obtain m cs where k: "k = Dir m cs" "cs \<noteq> []" by (cases k) auto
    have rb: "represents b2 root (plug F (ds @ Dir nm [] # []))"
      using b2(2) k by (simp add: new_node_def)
    have "length (enc_root (plug F (ds @ Dir nm [] # [])))
      \<le> length (enc_root (plug F (ds @ []))) + esize (Dir nm []) + nsub (Dir nm []) + 5"
      by (rule added_size)
    then have "unat (tail b2) \<le> unat (tail b1) + length nm + 10"
      using unat_tail[OF rb] unat_tail[OF r1] by simp
    moreover have "length nm \<le> length dst" by (simp add: dst_def)
    ultimately have t2: "unat (tail b2) + (ents cs + 5 + subs cs) \<le> unat (tail b) + (length dst + 10)"
      using t1 k by simp
    then have rm: "avail al b2 (ents cs + 5 + subs cs)"
      using room len1 b2(4) by (auto simp: avail_def)
    have okc: "forest_ok cs" using okk k by simp
    have "unat (tail b) < 1073741824 + 1" using r by (rule representsE) (simp add: off_simps del: of_nat_add)
    then have "ents cs + 5 + subs cs < 1073741824" using t1 k by simp
    from restore_kids_represents[OF rb k(2) okc al this rm]
    obtain ko b3 where b3: "restore_kids al b2 (of_nat (epos ?hl F ds))
        (block (fpar ((ls, m, rs) # fs) (ents cs)) cs) = Some (FS_OK, ko, b3)"
      "represents b3 root (plug ((ds, nm, []) # F) cs)" "lock b3 = lock b2" by blast
    have "3 < length ?chs" using b1(4) ch by simp
    then show ?thesis
      using step b3 b2(3) b1(3) k by (simp add: kids_bytes_def put_change_def del: of_nat_add fpar.simps)
  qed
qed

lemma rename_path_represents:
  assumes "represents b root ks" "root_single root" "alloc_ok al" "lock b = Unlocked"
    and "is_cstr src" "resolve root ks src = Some (Some (At (fs, ls, k, rs)))"
    and "plug fs (ls @ rs) = plug F ds" "F \<noteq> [] \<or> ds \<noteq> []"
    and "name_ok nm" "frames_first F" "\<not> has_name nm ds"
    and "resolve root ks (dir_path root F @ slash # nm) = Some None"
    and "resolve root ks (dir_path root F) = Some (Some tg)"
    and "4 \<le> length changes" "has_kids k \<Longrightarrow> al (nsub k) \<noteq> None"
    and "avail al b (length (dir_path root F @ slash # nm) + 10)"
  shows "\<exists>chs m b'. rename_path al b src (dir_path root F @ slash # nm) changes cnt = Some (FS_OK, chs, m, b')
    \<and> represents b' root (plug F (ds @ [rename_node nm k])) \<and> lock b' = Unlocked"
proof -
  let ?b = "b\<lparr>lock := Writer\<rparr>"
  have w: "wrlock b = Some ?b" using assms(4) by (simp add: wrlock_def)
  have r: "represents ?b root ks" using assms(1) by simp
  have room: "avail al ?b (length (dir_path root F @ slash # nm) + 10)" using assms(16) by (simp add: avail_def)
  from do_rename_path_moves[OF r assms(2,3,5-7,8-14,15) room]
  obtain chs m b1 where m: "do_rename_path al ?b src (dir_path root F @ slash # nm) changes cnt = Some (FS_OK, chs, m, b1)"
    "represents b1 root (plug F (ds @ [rename_node nm k]))" "lock b1 = Writer"
    by fastforce
  then show ?thesis using w by (simp add: rename_path_def unlock_def)
qed

end
