(* ===== verification/Fs_Path.thy ===== *)
theory Fs_Path
  imports Fs_Rename
begin

text \<open>
  From an entry back to its path: \<open>do_get_path_by_name_off\<close> writes the canonical path of the
  location into the end of the caller's buffer, and \<open>get_path_offset\<close> finds that location
  again.  The range that \<open>get_path_range\<close> reports holds exactly the subtree of a folder.
\<close>

subsection \<open>Writing the path backwards\<close>

text \<open>The bytes the loop writes: the names of the enclosing directories, each with a slash.\<close>

fun frame_path :: "frame list \<Rightarrow> cstring" where
  "frame_path [] = []"
| "frame_path ((ls, n, rs) # fs) = frame_path fs @ n @ [slash]"

lemma path_loop_scan:
  assumes "region b hl (plug fs (ls @ rs))"
  shows "path_loop b (of_nat (epos hl fs ls)) dst path = path_loop b (of_nat (epos hl fs (ls @ rs))) dst path"
  using assms
proof (induction rs arbitrary: ls)
  case (Cons k rs)
  note r = Cons.prems
  have e: "epos hl fs ls < hl + length (enc_root (plug fs (ls @ k # rs)))"
    using r by (rule region_entry) (use esize_pos[of k] in linarith)
  obtain ch where ch: "rd8 (head b) (epos hl fs ls) = Some ch" "ch \<noteq> 0"
    using region_rd8_ent[OF r] by blast
  have r': "region b hl (plug fs ((ls @ [k]) @ rs))" using r by simp
  have "path_loop b (of_nat (epos hl fs ls)) dst path
      = path_loop b (of_nat (epos hl fs (ls @ [k]))) dst path"
    using region_lt_tail[OF r e] ch region_next_name[OF r]
    by (subst path_loop.simps) (simp del: of_nat_add)
  then show ?case using Cons.IH[OF r'] by simp
qed simp

lemma take_take_le: "m \<le> n \<Longrightarrow> take m (take n xs) = take m xs"
  by (simp add: min.absorb1)

lemma path_put_at:
  assumes "length P = p + length s"
  shows "path_put (P @ Q) (int p) s = Some (take p P @ s @ Q)"
proof -
  have e: "take p P @ drop p P @ Q = P @ Q" by (simp only: append_assoc[symmetric] append_take_drop_id)
  have "put_bytes (take p P @ drop p P @ Q) p s = Some (take p P @ s @ Q)"
    by (rule put_bytes_split) (use assms in simp_all)
  then show ?thesis unfolding e by (simp add: path_put_def)
qed

lemma path_loop_frames:
  assumes "region b hl (plug fs (ls @ rs))" "ls @ rs \<noteq> []" "length (frame_path fs) \<le> length P"
  shows "path_loop b (of_nat (epos hl fs ls)) (int (length P)) (P @ Q)
    = Some (take (length P - length (frame_path fs)) P @ frame_path fs @ Q,
            int (length P - length (frame_path fs)))"
  using assms
proof (induction fs arbitrary: ls rs P Q)
  case Nil
  note r = Nil.prems(1,2)
  have e: "epos hl [] (ls @ rs) < hl + length (enc_root (plug [] (ls @ rs)))"
    using region_level_end(4)[OF r] by linarith
  have "path_loop b (of_nat (epos hl [] (ls @ rs))) (int (length P)) (P @ Q) = Some (P @ Q, int (length P))"
    using region_lt_tail[OF r(1) e] region_level_end(1,2)[OF r]
    by (subst path_loop.simps) (simp add: ac_simps)
  then show ?case using path_loop_scan[OF r(1)] by simp
next
  case (Cons f fs)
  obtain ls' n rs' where f: "f = (ls', n, rs')" by (cases f)
  let ?L = "ls @ rs" and ?fs = "f # fs"
  note r = Cons.prems(1,2)
  have e: "epos hl ?fs ?L < hl + length (enc_root (plug ?fs ?L))"
    using region_level_end(4)[OF r] by linarith
  have r': "region b hl (plug fs (ls' @ Dir n ?L # rs'))" using r(1) f by simp
  have par: "zparent hl ?fs = epos hl fs ls'" using f by simp
  let ?p1 = "length P - 1" and ?p2 = "length P - 1 - length n"
  have len: "length n + 1 + length (frame_path fs) \<le> length P" using Cons.prems(3) f by simp
  have w1: "path_put (P @ Q) (int (length P) - 1) [slash] = Some (take ?p1 P @ [slash] @ Q)"
    using path_put_at[of P ?p1 "[slash]" Q] len by (simp add: of_nat_diff)
  have d2: "int (length P) - 1 - int (length n) = int ?p2" using len by (simp add: of_nat_diff)
  have w2: "path_put (take ?p1 P @ [slash] @ Q) (int ?p2) n = Some (take ?p2 P @ n @ [slash] @ Q)"
  proof -
    have "length (take ?p1 P) = ?p2 + length n" "take ?p2 (take ?p1 P) = take ?p2 P"
      using len by (simp_all add: min.absorb1)
    from path_put_at[OF this(1), of "[slash] @ Q", unfolded this(2)] show ?thesis by simp
  qed
  have e2: "epos hl fs ls' < hl + length (enc_root (plug fs (ls' @ Dir n ?L # rs')))"
    using r' by (rule region_entry) simp
  have nm: "cstr_at (head b) (unat (of_nat (epos hl fs ls') :: u32)) = Some n"
    using region_cstr_at[OF r'] region_lt_tail(2)[OF r' e2] by simp
  have climb: "path_loop b (of_nat (epos hl ?fs ?L)) (int (length P)) (P @ Q)
    = path_loop b (of_nat (epos hl fs ls')) (int ?p2) (take ?p2 P @ n @ [slash] @ Q)"
    using region_lt_tail[OF r(1) e] region_level_end(1,2)[OF r] region_climb[OF r] par w1 d2 w2 nm
    by (subst path_loop.simps) (simp add: ac_simps Let_def)
  have lt: "length (take ?p2 P) = ?p2" by simp
  have IH: "path_loop b (of_nat (epos hl fs ls')) (int (length (take ?p2 P))) (take ?p2 P @ (n @ [slash] @ Q))
    = Some (take (length (take ?p2 P) - length (frame_path fs)) (take ?p2 P) @ frame_path fs @ (n @ [slash] @ Q),
            int (length (take ?p2 P) - length (frame_path fs)))"
    by (rule Cons.IH[OF r']) (use len in simp_all)
  have e1: "?p2 - length (frame_path fs) = length P - length (frame_path ?fs)" using f by simp
  have tk: "take (length P - length (frame_path ?fs)) (take ?p2 P) = take (length P - length (frame_path ?fs)) P"
    unfolding e1[symmetric] by (rule take_take_le) simp
  have fp: "frame_path fs @ (n @ [slash] @ Q) = frame_path ?fs @ Q" using f by simp
  show ?case
    unfolding path_loop_scan[OF r(1)] climb using IH unfolding lt e1 tk fp .
qed

lemma frame_path_names: "frame_path fs @ n = join_slash (frame_names fs @ [n])"
proof (induction fs arbitrary: n rule: frame_path.induct)
  case (2 ls m rs fs)
  have "frame_names fs @ [m] \<noteq> []" by simp
  then show ?case using "2.IH"[of m] join_slash_snoc[of "frame_names fs @ [m]" n] by simp
qed simp

theorem get_path_by_name_off_writes:
  assumes r: "represents b root (plug fs (ls @ k # rs))"
    and sz: "length buf = unat psz" "length (path_of root (fs, ls, k, rs)) < length buf"
  defines "p \<equiv> path_of root (fs, ls, k, rs)"
  shows "do_get_path_by_name_off b (of_nat (epos (first_pos root) fs ls)) buf psz
    = Some (take (length buf - length p - 1) buf @ p @ [0], int (length buf - length p - 1))"
proof -
  let ?hl = "first_pos root" and ?n = "nname k"
  have reg: "region b ?hl (plug fs (ls @ k # rs))" using r by (simp add: represents_def)
  have p: "p = root @ frame_path fs @ ?n" unfolding p_def path_of_def by (simp add: frame_path_names)
  have e: "epos ?hl fs ls < ?hl + length (enc_root (plug fs (ls @ k # rs)))"
    using reg by (rule region_entry) (use esize_pos[of k] in linarith)
  have nm: "cstr_at (head b) (unat (of_nat (epos ?hl fs ls) :: u32)) = Some ?n"
    using region_cstr_at[OF reg] region_lt_tail(2)[OF reg e] by simp
  let ?p0 = "length buf - length ?n - 1" and ?p1 = "length buf - length ?n - 1 - length (frame_path fs)"
  have len: "length root + length (frame_path fs) + length ?n < length buf"
    using sz(2) p by (simp add: p_def)
  have w0: "path_put buf (int ?p0) (?n @ [0]) = Some (take ?p0 buf @ ?n @ [0])"
    using path_put_at[of buf ?p0 "?n @ [0]" "[]"] len by simp
  have d0: "int (unat psz) - int (length ?n) - 1 = int ?p0" using len sz(1) by (simp add: of_nat_diff)
  have l0: "length (take ?p0 buf) = ?p0" by simp
  have loop: "path_loop b (of_nat (epos ?hl fs ls)) (int ?p0) (take ?p0 buf @ ?n @ [0])
    = Some (take ?p1 buf @ frame_path fs @ ?n @ [0], int ?p1)"
  proof -
    have "take (?p0 - length (frame_path fs)) (take ?p0 buf) = take ?p1 buf" by (simp add: min.absorb1)
    then show ?thesis
      using path_loop_frames[OF reg, of "take ?p0 buf" "?n @ [0]"] len unfolding l0 by simp
  qed
  have s: "?hl \<le> 1073741824" using region_at_tail(2)[OF reg] by linarith
  have "first_name_off b = of_nat ?hl" using r by (simp add: represents_def)
  then have n: "unat (first_name_off b - 8 - 1) = length root"
    using s of_nat32_diff[of 9 "?hl"] by (simp add: off_simps)
  obtain X Y where XY: "head b = X @ (root @ [0]) @ Y" "length X = 8"
    using r by (auto simp: represents_def get_bytes_Some)
  have g: "get_bytes (head b) 8 (length root) = Some root"
    using get_bytes_split[of X 8 root "length root" "[0] @ Y"] XY by simp
  let ?p2 = "length buf - length p - 1"
  have d2: "int ?p1 - int (length root) = int ?p2" using len p by (simp add: of_nat_diff)
  have "length (take ?p1 buf) = ?p2 + length root" using len p by simp
  have p21: "?p2 \<le> ?p1" using len p by simp
  from path_put_at[OF \<open>length (take ?p1 buf) = ?p2 + length root\<close>, of "frame_path fs @ ?n @ [0]"]
  have w2: "path_put (take ?p1 buf @ frame_path fs @ ?n @ [0]) (int ?p2) root = Some (take ?p2 buf @ p @ [0])"
    unfolding p take_take_le[of ?p2 ?p1 buf, OF p21, unfolded p] by simp
  have u8: "unat (8 :: u32) = 8" by simp
  show ?thesis
    unfolding do_get_path_by_name_off_def Let_def
    by (simp only: nm Option.bind.simps d0 w0 loop prod.case n u8 g d2 w2)
qed

text \<open>The path that the code writes leads back to the entry.\<close>

theorem path_roundtrip:
  assumes r: "represents b root ks" and l: "lookup ks cs = Some l"
    and sz: "length buf = unat psz" "length (path_of root l) < length buf"
  shows "\<exists>path d. do_get_path_by_name_off b (of_nat (loc_off (first_pos root) l)) buf psz = Some (path, d)
    \<and> cstr_at path (nat d) = Some (path_of root l)
    \<and> get_path_offset b (path_of root l) = Some (of_nat (loc_off (first_pos root) l))"
proof -
  obtain fs ls k rs where lt: "l = (fs, ls, k, rs)" by (cases l)
  have ks: "loc_forest l = ks" and first: "loc_first l" using l lookup_sound(1) lookup_first by auto
  have rr: "represents b root (plug fs (ls @ k # rs))" using r ks lt by simp
  have rok: "root_ok root" and ok: "forest_ok (loc_forest l)" using r ks by (auto elim!: representsE)
  have c: "is_cstr (path_of root l)" by (rule is_cstr_path_of[OF rok ok])
  have "get_path_offset b (path_of root l) = Some (of_nat (loc_off (first_pos root) l))"
    using get_path_offset_represents[OF r c] resolve_path_of[OF rok ok first] ks by simp
  moreover have "cstr_at (take m buf @ path_of root l @ [0]) (nat (int m)) = Some (path_of root l)"
    if "m \<le> length buf" for m
    unfolding nat_int using that c by (intro cstr_at_split) simp_all
  ultimately show ?thesis
    using get_path_by_name_off_writes[OF rr sz(1) sz(2)[unfolded lt]]
    unfolding lt loc_off.simps by (intro exI conjI) (assumption | simp)+
qed

subsection \<open>The range of a folder\<close>

text \<open>The specification: the whole tree for the root, the block of a folder, nothing for a path
  that does not exist.  An empty folder or a file has no block, and the code is not used on
  one with a meaningful answer.\<close>

definition path_range :: "cstring \<Rightarrow> node list \<Rightarrow> cstring \<Rightarrow> (target option \<times> nat \<times> nat) option" where
  "path_range root ks path = (case resolve root ks path of
     Some (Some Root) \<Rightarrow> Some (Some Root, first_pos root, first_pos root + length (enc_root ks))
   | Some (Some (At (fs, ls, Dir n cs, rs))) \<Rightarrow>
       (if cs = [] then None
        else let a = first_pos root + zpos ((ls, n, rs) # fs)
             in Some (Some (At (fs, ls, Dir n cs, rs)), a, a + (ents cs + 5 + subs cs)))
   | _ \<Rightarrow> None)"

theorem get_path_range_block:
  assumes r: "represents b root ks" and l: "lock b = Unlocked" and p: "is_cstr path"
    and rg: "path_range root ks path = Some (tg, s, e)"
  shows "get_path_range b path st en = Some (target_off (first_pos root) tg, of_nat s, of_nat e, b)"
    and "\<exists>cs q. get_bytes (head b) s (e - s) = Some (if cs = [] then [] else block q cs)
       \<and> (case tg of Some (At l) \<Rightarrow> nkids (loc_node l) = cs | _ \<Rightarrow> ks = cs)"
proof -
  let ?hl = "first_pos root" and ?b = "b\<lparr>lock := Readers 1\<rparr>"
  have rl: "represents ?b root ks" using r by simp
  have lk: "rdlock b = Some ?b" "unlock ?b = Some b"
    using l by (simp_all add: rdlock_def unlock_def)
  note off = get_path_offset_represents[OF rl p]
  consider (root) "resolve root ks path = Some (Some Root)" "tg = Some Root" "s = ?hl" "e = ?hl + length (enc_root ks)"
    | (at) fs ls n cs rs where "resolve root ks path = Some (Some (At (fs, ls, Dir n cs, rs)))"
        "cs \<noteq> []" "tg = Some (At (fs, ls, Dir n cs, rs))" "s = ?hl + zpos ((ls, n, rs) # fs)"
        "e = s + (ents cs + 5 + subs cs)"
    using rg by (auto simp: path_range_def Let_def split: option.splits target.splits node.splits if_splits)
  note c = this
  have "get_path_range b path st en = Some (target_off ?hl tg, of_nat s, of_nat e, b)
    \<and> (\<exists>cs q. get_bytes (head b) s (e - s) = Some (if cs = [] then [] else block q cs)
       \<and> (case tg of Some (At l) \<Rightarrow> nkids (loc_node l) = cs | _ \<Rightarrow> ks = cs))"
  proof (cases rule: c)
    case root
    obtain H J where H: "head b = H @ enc_root ks @ J" "length H = ?hl"
      "tail b = of_nat (?hl + length (enc_root ks))" "first_name_off b = of_nat ?hl"
      using r by (rule representsE)
    have "get_bytes (head b) s (e - s) = Some (enc_root ks)"
      using H root by (simp add: get_bytes_split)
    moreover have "get_path_range b path st en = Some (target_off ?hl tg, of_nat s, of_nat e, b)"
      using off root lk H(3,4)
      by (simp add: get_path_range_def do_get_path_range_def first_name_def get_tail_def)
    ultimately show ?thesis using root(2)
      by (intro conjI exI[of _ ks] exI[of _ 0]) (simp_all add: enc_root_def)
  next
    case (at fs ls n cs rs)
    have kse: "plug fs (ls @ Dir n cs # rs) = ks" using resolve_At(1)[OF at(1)] by simp
    have reg: "region b ?hl (plug fs (ls @ Dir n cs # rs))" "region ?b ?hl (plug fs (ls @ Dir n cs # rs))"
      using r rl kse by (simp_all add: represents_def)
    note kb = region_kids_block[OF reg(2) at(2)]
    note kb1 = region_kids_block[OF reg(1) at(2)]
    have es: "e - s = ents cs + 5 + subs cs" using at by simp
    have "represents b root (plug fs (ls @ Dir n cs # rs))" using r kse by simp
    have sm: "s < 4294967296"
    proof -
      have "region b ?hl (plug ((ls, n, rs) # fs) cs)" using reg by simp
      from region_level_end(4)[OF this at(2)] region_at_tail(2)[OF this] show ?thesis using at(4) by linarith
    qed
    have "get_bytes (head b) s (e - s) = Some (block (fpar ((ls, n, rs) # fs) (ents cs)) cs)"
      using kb1(4)[unfolded kb1(5), folded at(4)] unat_of_nat32[OF sm] unfolding es by simp
    moreover have "get_path_range b path st en = Some (target_off ?hl tg, of_nat s, of_nat e, b)"
      using off at lk kb(1-3) entry_off[OF reg(2)] unfolding at(3-5)
      by (simp add: get_path_range_def do_get_path_range_def ac_simps del: of_nat_add zpos.simps)
    ultimately show ?thesis using at(2,3)
      by (intro conjI exI[of _ cs] exI[of _ "fpar ((ls, n, rs) # fs) (ents cs)"]) simp_all
  qed
  then show "get_path_range b path st en = Some (target_off ?hl tg, of_nat s, of_nat e, b)"
    "\<exists>cs q. get_bytes (head b) s (e - s) = Some (if cs = [] then [] else block q cs)
       \<and> (case tg of Some (At l) \<Rightarrow> nkids (loc_node l) = cs | _ \<Rightarrow> ks = cs)" by blast+
qed

end
