(* ===== verification/Fs_Claims.thy ===== *)
theory Fs_Claims
  imports Fs_Path
begin

text \<open>
  The correctness of the index buffer: what each exported operation of \<open>fs_buf.c\<close> does to the
  forest, with the lock taken and released.  The witnesses run on a small buffer that holds
  \<open>/a/b\<close> and \<open>/c\<close>.
\<close>

subsection \<open>A concrete buffer\<close>

definition sample_forest :: "node list" where
  "sample_forest = [Dir [97] [File [98]], File [99]]"

definition sample_buf :: "nat \<Rightarrow> fs_buf" where
  "sample_buf n = \<lparr>head = replicate 8 0 @ [47, 0] @ enc_root sample_forest @ replicate n 0,
     capacity = of_nat (32 + n), tail = 32, first_name_off = 10, lock = Unlocked\<rparr>"

definition sample_alloc :: allocator where
  "sample_alloc n = Some (replicate n 0)"

lemma sample_alloc_ok: "alloc_ok sample_alloc"
  by (simp add: alloc_ok_def sample_alloc_def)

lemma length_sample [simp]: "length (enc_root sample_forest) = 22"
  by (simp add: sample_forest_def enc_root_def block_def)

lemma sample_ok: "forest_ok sample_forest"
  by (simp add: sample_forest_def name_ok_def)

lemma sample_represents:
  assumes "n \<le> 1000"
  shows "represents (sample_buf n) [47] sample_forest"
proof -
  have "head (sample_buf n) = (replicate 8 0 @ [47, 0]) @ enc_root sample_forest @ replicate n 0
      \<and> length (replicate 8 (0 :: byte) @ [47, 0]) = 10" by (simp add: sample_buf_def)
  then have "region (sample_buf n) 10 sample_forest"
    unfolding region_iff using assms sample_ok by (intro conjI) (blast, simp_all add: sample_buf_def)
  then show ?thesis using assms
    by (simp add: represents_def sample_buf_def root_ok_def is_cstr_def cap_ok_def get_bytes_def
      unat_of_nat32 del: of_nat_add)
qed

lemmas sample_buf_simps =
  sample_buf_def sample_forest_def enc_root_def block_def

text \<open>C1: \<open>insert_path\<close>.  On a buffer that represents a forest, with at least one entry, the call
  returns, with the lock free again: either the result and the forest that \<open>tree_insert\<close>
  promises, the change record holding the growth of the buffer (and the record and the buffer
  untouched on an error), or \<open>ERR_NO_MEM\<close> with the buffer as it was, and that only if the free
  room is at most the length of the path plus 10 bytes.\<close>

theorem insert_path_refines:
  assumes "represents b root ks" "ks \<noteq> []" "alloc_ok al" "lock b = Unlocked"
    and "is_cstr path" "length path < 1073741824" "tree_insert root ks path is_dir = Some s"
  shows "\<exists>r c' b'. insert_path al b path is_dir c = Some (r, c', b')
    \<and> inserted b root ks path c s (r, c', b')"
  by (rule insert_path_represents[OF assms])

theorem insert_path_refines_witness:
  "\<exists>r c' b'. insert_path sample_alloc (sample_buf 100) [47, 97, 47, 100] True \<lparr>start_off = 0, delta = 0\<rparr>
     = Some (r, c', b')
   \<and> inserted (sample_buf 100) [47] sample_forest [47, 97, 47, 100] \<lparr>start_off = 0, delta = 0\<rparr>
       (FS_OK, [Dir [97] [File [98], Dir [100] []], File [99]]) (r, c', b')"
proof (rule insert_path_refines)
  show "tree_insert [47] sample_forest [47, 97, 47, 100] True
      = Some (FS_OK, [Dir [97] [File [98], Dir [100] []], File [99]])" by code_simp
qed (simp_all add: sample_represents sample_alloc_ok is_cstr_def, simp_all add: sample_forest_def sample_buf_def)

text \<open>C2: \<open>remove_path\<close>.  The call returns with the lock free; the subtree of the path is gone (all
  of it for the root path), an unknown path gives \<open>ERR_NO_PATH\<close> and changes nothing, and the
  deltas of the change records sum up to the change of the tail.\<close>

theorem remove_path_refines:
  assumes "represents b root ks" "lock b = Unlocked" "is_cstr path"
    and "2 \<le> length changes" "tree_remove root ks path = Some (res, ks')"
  shows "\<exists>chs m b'. remove_path al b path changes n = Some (res, chs, m, b')
    \<and> represents b' root ks' \<and> lock b' = Unlocked
    \<and> (if res = FS_OK then changes_total chs m = tail b' - tail b
       else chs = changes \<and> m = n \<and> b' = b)"
  by (rule remove_path_represents[OF assms])

theorem remove_path_refines_witness:
  "\<exists>chs m b'. remove_path sample_alloc (sample_buf 0) [47, 97] [\<lparr>start_off = 0, delta = 0\<rparr>, \<lparr>start_off = 0, delta = 0\<rparr>] 0
     = Some (FS_OK, chs, m, b')
   \<and> represents b' [47] [File [99]] \<and> lock b' = Unlocked \<and> changes_total chs m = tail b' - 32"
proof -
  have "tree_remove [47] sample_forest [47, 97] = Some (FS_OK, [File [99]])" by code_simp
  from remove_path_refines[OF _ _ _ _ this, of "sample_buf 0"
      "[\<lparr>start_off = 0, delta = 0\<rparr>, \<lparr>start_off = 0, delta = 0\<rparr>]" sample_alloc 0]
  show ?thesis by (simp add: sample_represents is_cstr_def) (simp add: sample_buf_def)
qed



text \<open>C16: \<open>get_path_by_name_off\<close> and \<open>get_path_offset\<close> are inverse to each other: for an entry that
  is the first of its name, the call writes the canonical path of the entry, terminated, into
  the end of the caller's buffer, and looking that path up leads back to the entry.\<close>

theorem path_of_entry_roundtrip:
  assumes "represents b root ks" "lock b = Unlocked" "lookup ks cs = Some l"
    and "length buf = unat psz" "length (path_of root l) < length buf"
  shows "\<exists>path d. get_path_by_name_off b (of_nat (loc_off (first_pos root) l)) buf psz = Some (path, d, b)
    \<and> cstr_at path (nat d) = Some (path_of root l)
    \<and> get_path_offset b (path_of root l) = Some (of_nat (loc_off (first_pos root) l))"
proof -
  let ?b = "b\<lparr>lock := Readers 1\<rparr>"
  have lk: "rdlock b = Some ?b" "unlock ?b = Some b" using assms(2) by (simp_all add: rdlock_def unlock_def)
  have r: "represents ?b root ks" using assms(1) by simp
  from path_roundtrip[OF r assms(3-5)] path_roundtrip[OF assms(1,3-5)] lk show ?thesis
    by (auto simp: get_path_by_name_off_def)
qed

theorem path_of_entry_roundtrip_witness:
  "\<exists>path d. get_path_by_name_off (sample_buf 0) 24 (replicate 20 0) 20 = Some (path, d, sample_buf 0)
    \<and> cstr_at path (nat d) = Some [47, 97, 47, 98] \<and> get_path_offset (sample_buf 0) [47, 97, 47, 98] = Some 24"
proof -
  let ?l = "([([], [97], [File [99]])], [], File [98], []) :: loc"
  have l: "lookup sample_forest [[97], [98]] = Some ?l" by code_simp
  have p: "path_of [47] ?l = [47, 97, 47, 98]" by code_simp
  have o: "loc_off (first_pos [47]) ?l = 24" by code_simp
  from path_of_entry_roundtrip[OF sample_represents _ l, of 0 "replicate 20 0" 20]
  show ?thesis unfolding p o by (simp add: sample_buf_def)
qed

text \<open>C15: a path is looked up as \<open>resolve\<close> says: the root, the first entry with the names of the path,
  with or without a slash at the end, or nothing.\<close>

theorem get_path_offset_refines:
  assumes "represents b root ks" "is_cstr path"
  shows "get_path_offset b path = map_option (target_off (first_pos root)) (resolve root ks path)"
  using get_path_offset_represents[OF assms] .

theorem get_path_offset_refines_witness:
  "get_path_offset (sample_buf 0) [47, 97, 47, 98, 47]
     = map_option (target_off 10) (resolve [47] sample_forest [47, 97, 47, 98, 47])
   \<and> map_option (target_off 10) (resolve [47] sample_forest [47, 97, 47, 98, 47]) = Some 24"
proof -
  have "map_option (target_off 10) (resolve [47] sample_forest [47, 97, 47, 98, 47]) = Some 24" by code_simp
  then show ?thesis using get_path_offset_refines[OF sample_represents, of 0 "[47, 97, 47, 98, 47]"]
    by (simp add: is_cstr_def)
qed



text \<open>C30: \<open>add_capacity\<close> either leaves the buffer alone or keeps its content and makes it longer by a
  multiple of the block size, at least by what was asked for, and never above the 2^30 bytes
  that the tags can address.\<close>

theorem add_capacity_bounds:
  assumes "alloc_ok al" "cap_ok b" "small b" "n < 2147483648"
  shows "add_capacity al b (of_nat n) = (False, b)
    \<or> (\<exists>ext. add_capacity al b (of_nat n)
          = (True, b\<lparr>head := head b @ ext, capacity := of_nat (length (head b @ ext))\<rparr>)
        \<and> n \<le> length ext \<and> length (head b @ ext) \<le> 1073741824)"
  by (rule add_capacity_cases[OF assms])

theorem add_capacity_bounds_witness:
  "add_capacity sample_alloc (sample_buf 0) 5 = (False, sample_buf 0)
    \<or> (\<exists>ext. add_capacity sample_alloc (sample_buf 0) 5
          = (True, (sample_buf 0)\<lparr>head := head (sample_buf 0) @ ext, capacity := of_nat (length (head (sample_buf 0) @ ext))\<rparr>)
        \<and> 5 \<le> length ext \<and> length (head (sample_buf 0) @ ext) \<le> 1073741824)"
proof -
  have "cap_ok (sample_buf 0)" "small (sample_buf 0)" by (simp_all add: cap_ok_def sample_buf_def)
  from add_capacity_bounds[OF sample_alloc_ok this, of 5] show ?thesis by simp
qed

text \<open>A fresh buffer is empty: \<open>new_fs_buf\<close> gives a buffer that represents the empty forest below
  its root path, or the null pointer.\<close>

theorem new_fs_buf_represents:
  assumes "alloc_ok al" "is_cstr root" "new_fs_buf al lock_ok cap (Some root) = Some b"
  shows "represents b root [] \<and> lock b = Unlocked \<and> capacity b = cap"
proof -
  have cap: "cap \<le> 1073741824" "length root + unat (1048576 :: u32) \<le> unat cap"
    and sl: "cchar root 0 = slash" "cchar root (length root - 1) = slash"
    using assms(3) by (auto simp: new_fs_buf_def split: if_splits)
  obtain blk m where m: "al (unat cap) = Some blk" "put_bytes blk 8 (root @ [0]) = Some m"
    and b: "b = \<lparr>head = m, capacity = cap, tail = 8 + of_nat (length root) + 1,
      first_name_off = 8 + of_nat (length root) + 1, lock = Unlocked\<rparr>"
    using assms(3) by (auto simp: new_fs_buf_def Let_def split: if_splits option.splits)
  have cu: "unat cap \<le> 1073741824" using cap(1) by (simp add: word_le_nat_alt)
  have lb: "length blk = unat cap" using alloc_okD[OF assms(1) m(1)] .
  have ne: "root \<noteq> []" using sl(1) by (auto simp: cchar_def)
  have ro: "root_ok root" using sl assms(2) ne by (simp add: root_ok_def cchar_def hd_conv_nth last_conv_nth)
  have len: "8 + (length root + 1) \<le> length blk" using cap(2) lb by simp
  have len': "8 + length (root @ [0]) \<le> length blk" using len by simp
  have hm: "m = take 8 blk @ (root @ [0]) @ drop (8 + (length root + 1)) blk"
    using m(2) unfolding put_bytes_def if_P[OF len'] by simp
  have lm: "length m = unat cap" using hm len lb by simp
  have gb: "get_bytes m 8 (length root + 1) = Some (root @ [0])"
    unfolding hm using len by (simp add: get_bytes_def)
  have off: "(8 + of_nat (length root) + 1 :: u32) = of_nat (first_pos root)" by simp
  have "length (take 8 blk @ (root @ [0])) = first_pos root" using len by simp
  moreover have "head b = (take 8 blk @ (root @ [0])) @ enc_root [] @ drop (8 + (length root + 1)) blk"
    using b hm by (simp add: enc_root_def)
  ultimately have "region b (first_pos root) []"
    unfolding region_iff using cu lm b off by (intro conjI) (blast, simp_all add: enc_root_def)
  then show ?thesis using b gb ro off lm by (simp add: represents_def cap_ok_def)
qed

theorem new_fs_buf_represents_witness:
  "\<exists>b. new_fs_buf sample_alloc True 1048580 (Some [47]) = Some b \<and> represents b [47] [] \<and> lock b = Unlocked"
proof -
  have al: "\<exists>blk. sample_alloc n = Some blk \<and> length blk = n" for n
    unfolding sample_alloc_def by simp
  obtain s where "sample_alloc sizeof_fs_buf = Some s" using al by blast
  moreover obtain blk where "sample_alloc 1048580 = Some blk" "length blk = 1048580" using al by blast
  moreover have "put_bytes blk 8 [47, 0] = Some (take 8 blk @ [47, 0] @ drop 10 blk)"
    using \<open>length blk = 1048580\<close> unfolding put_bytes_def by (subst if_P) simp_all
  ultimately obtain b where b: "new_fs_buf sample_alloc True 1048580 (Some [47]) = Some b"
    by (simp add: new_fs_buf_def cchar_def)
  from new_fs_buf_represents[OF sample_alloc_ok _ b] b show ?thesis by (simp add: is_cstr_def)
qed

subsection \<open>Insertion into an empty root\<close>

text \<open>The empty buffer, the buffer with the folder \<open>/d\<close>, and the bytes after \<open>x\<close> was placed below it.\<close>

definition empty_buf :: fs_buf where
  "empty_buf = \<lparr>head = replicate 8 0 @ [47, 0] @ replicate 40 0, capacity = 50, tail = 10,
     first_name_off = 10, lock = Unlocked\<rparr>"

definition folder_buf :: fs_buf where
  "folder_buf = \<lparr>head = replicate 8 0 @ [47, 0, 100, 0, 1, 0, 0, 0] @ replicate 34 0, capacity = 50, tail = 16,
     first_name_off = 10, lock = Writer\<rparr>"

definition cyclic_buf :: fs_buf where
  "cyclic_buf = \<lparr>head = replicate 8 0 @ [47, 0, 100, 0, 17, 0, 0, 0, 120, 0, 0, 0, 41, 0, 0, 0] @ replicate 26 0,
     capacity = 50, tail = 24, first_name_off = 10, lock = Writer\<rparr>"

lemma cyclic_steps:
  "rd8 (head cyclic_buf) 10 = Some 100" "next_name cyclic_buf 10 = Some 16"
  "rd8 (head cyclic_buf) 16 = Some 120" "UPDATE_KIDS_OFF cyclic_buf 16 d = Some cyclic_buf"
  "next_name cyclic_buf 16 = Some 19"
  "rd8 (head cyclic_buf) 19 = Some 0" "get_reloff_by_tag cyclic_buf 20 = Some 10" "tail cyclic_buf = 24"
proof -
  show "UPDATE_KIDS_OFF cyclic_buf 16 d = Some cyclic_buf"
  proof -
    have "get_kids_offset cyclic_buf 16 = Some 0" by code_simp
    then show ?thesis by (simp add: UPDATE_KIDS_OFF_def)
  qed
qed code_simp+

lemma cyclic_diverges:
  assumes "update_ancestors_loop d b st off = Some r"
  shows "\<not> (b = cyclic_buf \<and> st = 10 \<and> off \<in> {10, 16, 19})"
proof (rule update_ancestors_loop.raw_induct[OF _ assms])
  fix loop d b st off r
  assume IH: "\<And>d b st off r. loop d b st off = Some r \<Longrightarrow> \<not> (b = cyclic_buf \<and> st = 10 \<and> off \<in> {10, 16, 19})"
    and body: "(if off \<noteq> 0 \<and> off < tail b then do {
       c \<leftarrow> rd8 (head b) (unat off);
       if c = 0 then do {
         rel_off \<leftarrow> get_reloff_by_tag b (off + 1);
         if rel_off = 0 then Some b
         else loop d b (off + 1 - rel_off) (off + 1 - rel_off) }
       else do {
         b \<leftarrow> (if off > st then UPDATE_KIDS_OFF b off d else Some b);
         off \<leftarrow> next_name b off;
         loop d b st off } }
     else Some b) = Some r"
  show "\<not> (b = cyclic_buf \<and> st = 10 \<and> off \<in> {10, 16, 19})"
  proof
    assume a: "b = cyclic_buf \<and> st = 10 \<and> off \<in> {10, 16, 19}"
    have n: "loop d cyclic_buf 10 x \<noteq> Some r" if "x \<in> {10, 16, 19}" for x
      using IH[of d cyclic_buf 10 x r] that by blast
    consider "off = 10" | "off = 16" | "off = 19" using a by blast
    then show False
      using body a n[of 10] n[of 16] n[of 19] by cases (simp_all add: cyclic_steps)
  qed
qed

lemma folder_steps:
  "get_path_offset folder_buf [47, 100] = Some 10" "do_is_file folder_buf 10 = Some False"
  "get_kids_offset folder_buf 10 = Some 0" "get_insert_offset folder_buf 10 = Some 16"
  "strrchr [47, 100, 47, 120] 47 = Some 2"
  by code_simp+

lemma folder_insert:
  "do { (r, b) \<leftarrow> insert_new_name sample_alloc folder_buf 16 [120] False True;
        b \<leftarrow> set_parent_offset b 19 10; do_set_kids_off b 10 16 } = Some cyclic_buf"
  by code_simp
lemma folder_new_name:
  "map_option fst (insert_new_name sample_alloc folder_buf 16 [120] False True) = Some FS_OK"
  by code_simp

lemma folder_insert_diverges:
  "do_insert_path sample_alloc folder_buf [47, 100, 47, 120] False c = None"
proof -
  have one: "get_1st_sibling_offset cyclic_buf 16 = Some 16" "get_parent_offset cyclic_buf 16 = Some 10"
    by code_simp+
  have sib: "update_siblings_loop 16 8 cyclic_buf 16 = Some cyclic_buf" by (subst update_siblings_loop.simps) simp
  have "update_ancestors_loop 8 cyclic_buf 10 10 = None"
    using cyclic_diverges[of 8 cyclic_buf 10 10] by (cases "update_ancestors_loop 8 cyclic_buf 10 10") auto
  then have up: "update_offsets cyclic_buf 16 8 True = None" using one sib by (simp add: update_offsets_def)
  obtain b1 where "insert_new_name sample_alloc folder_buf 16 [120] False True = Some (FS_OK, b1)"
    "do { b \<leftarrow> set_parent_offset b1 19 10; do_set_kids_off b 10 16 } = Some cyclic_buf"
    using folder_insert folder_new_name by (auto split: Option.bind_splits)
  moreover from this obtain b2 where
    "set_parent_offset b1 19 10 = Some b2" "do_set_kids_off b2 10 16 = Some cyclic_buf"
    by (auto split: Option.bind_splits)
  ultimately show ?thesis using folder_steps up by (simp add: do_insert_path_def)
qed

text \<open>a defect.  In a buffer whose forest is empty no parent tag ends the top level.  Once a folder
  \<open>/d\<close> has been inserted there, the insertion of \<open>/d/x\<close> never returns, the write lock being
  held: the scan for the end of the top level runs into the new block and back.\<close>

theorem insert_below_empty_root_diverges:
  "\<exists>c b. represents empty_buf [47] [] \<and> insert_path sample_alloc empty_buf [47, 100] True c0 = Some (FS_OK, c, b)
     \<and> insert_path sample_alloc b [47, 100, 47, 120] False c = None"
proof -
  have "insert_path sample_alloc empty_buf [47, 100] True c0
      = Some (FS_OK, \<lparr>start_off = 10, delta = 6\<rparr>, folder_buf\<lparr>lock := Unlocked\<rparr>)"
    by code_simp
  moreover have "folder_buf\<lparr>lock := Unlocked, lock := Writer\<rparr> = folder_buf" by (simp add: folder_buf_def)
  moreover have "wrlock (folder_buf\<lparr>lock := Unlocked\<rparr>) = Some (folder_buf\<lparr>lock := Unlocked, lock := Writer\<rparr>)"
    by (simp add: wrlock_def)
  moreover have "head empty_buf = (replicate 8 0 @ [47, 0]) @ enc_root [] @ replicate 40 0
      \<and> length (replicate 8 (0 :: byte) @ [47, 0]) = 10" by (simp add: empty_buf_def enc_root_def)
  then have "region empty_buf 10 []"
    unfolding region_iff by (intro conjI) (blast, simp_all add: empty_buf_def enc_root_def)
  then have "represents empty_buf [47] []"
    by (simp add: represents_def empty_buf_def root_ok_def is_cstr_def cap_ok_def get_bytes_def)
  ultimately show ?thesis using folder_insert_diverges[of "\<lparr>start_off = 10, delta = 6\<rparr>"]
    by (intro exI[of _ "\<lparr>start_off = 10, delta = 6\<rparr>"] exI[of _ "folder_buf\<lparr>lock := Unlocked\<rparr>"])
      (simp add: insert_path_def)
qed

text \<open>a defect.  The check of the new parent in \<open>do_rename_path\<close> asks for a file only when the
  parent is the root, where there is none.  Renaming the file \<open>/a/b\<close> to \<open>/c/x\<close>, \<open>/c\<close> being a file,
  returns 0, but the insertion has failed unnoticed: the source is gone and the new path does
  not exist.\<close>

theorem rename_below_file_loses_source:
  "map_option (\<lambda>(r, chs, m, b). (r, get_path_offset b [47, 97], get_path_offset b [47, 97, 47, 98],
       get_path_offset b [47, 99, 47, 120], get_path_offset b [47, 99]))
     (rename_path sample_alloc (sample_buf 100) [47, 97, 47, 98] [47, 99, 47, 120]
       (replicate 4 \<lparr>start_off = 0, delta = 0\<rparr>) 0)
   = Some (FS_OK, Some 10, Some 0, Some 0, Some 16)"
  by code_simp

end
