(* ===== verification/Fs_File.thy ===== *)
theory Fs_File
  imports Index_Base Fs_State
begin

text \<open>
  The file format of the buffer, \<open>save_fs_buf\<close> and \<open>load_fs_buf\<close> of \<open>fs_buf.c\<close>: the bytes of the
  buffer, with the magic and the size in the first eight.
\<close>

definition fsbuf_magic :: "byte list" where
  "fsbuf_magic = [76, 70, 84, 0]"

text \<open>The results are those of the C functions; \<open>None\<close> for \<open>fd\<close> is a failing \<open>open\<close>.\<close>

definition save_fs_buf :: "fs_buf \<Rightarrow> out_file option \<Rightarrow> (int \<times> fs_buf \<times> out_file option) option" where
  "save_fs_buf b fd =
    (case fd of None \<Rightarrow> Some (1, b, None)
     | Some f \<Rightarrow> do {
         b \<leftarrow> rdlock b;
         m \<leftarrow> put_bytes (head b) 0 fsbuf_magic;
         m \<leftarrow> put_bytes m 4 (le32 (tail b));
         let b = b\<lparr>head := m\<rparr>;
         bs \<leftarrow> get_bytes (head b) 0 (unat (tail b));
         let (ok, f) = write_file f bs (tail b);
         b \<leftarrow> unlock b;
         Some (if ok then 0 else 2, b, Some f) })"

definition load_fs_buf :: "allocator \<Rightarrow> bool \<Rightarrow> byte list option \<Rightarrow> (int \<times> fs_buf option) option" where
  "load_fs_buf al lock_ok fd =
    (case fd of None \<Rightarrow> Some (1, None)
     | Some f \<Rightarrow>
       let (magic, f) = file_read f 4 in
       if length magic \<noteq> 4 \<or> magic \<noteq> fsbuf_magic then Some (2, None)
       else let (szb, f) = file_read f 4 in
         if length szb \<noteq> 4 then Some (3, None)
         else do {
           sz \<leftarrow> rd32 szb 0;
           if sz < 4 * 2 + 5 then Some (3, None)
           else if al sizeof_fs_buf = None then Some (4, None)
           else if \<not> lock_ok then Some (5, None)
           else (case al (unat sz) of None \<Rightarrow> Some (6, None)
             | Some m \<Rightarrow>
               let (ok, data, f) = read_file f (sz - 4 * 2) in
               if \<not> ok then Some (7, None)
               else do {
                 m \<leftarrow> put_bytes m 8 data;
                 root \<leftarrow> cstr_at m (unat DATA_START);
                 Some (0, Some \<lparr>head = m, capacity = sz, tail = sz,
                   first_name_off = DATA_START + of_nat (length root) + 1, lock = Unlocked\<rparr>) }) })"

lemma rd32_le32: "rd32 (le32 w) 0 = Some w"
  using rd32_split[of "[]" 0 w "[]"] by simp

lemma represents_bytes:
  assumes "length T = 8" "root_ok root" "forest_ok ks" "head b = T @ (root @ [0]) @ enc_root ks @ J" "small b"
    and "tail b = of_nat (first_pos root + length (enc_root ks))" "first_name_off b = of_nat (first_pos root)" "cap_ok b"
  shows "represents b root ks"
proof -
  have "head b = (T @ root @ [0]) @ enc_root ks @ J \<and> length (T @ root @ [0]) = first_pos root" using assms(1,4) by simp
  then have "region b (first_pos root) ks" unfolding region_iff using assms(3,5,6) by (intro conjI) (blast, simp_all)
  moreover have "get_bytes (head b) 8 (length root + 1) = Some (root @ [0])"
    unfolding assms(4) by (rule get_bytes_split) (use assms(1) in simp_all)
  ultimately show ?thesis using assms by (simp add: represents_def)
qed

lemma save_load:
  assumes r: "represents b root ks" and l: "lock b = Unlocked" and al: "alloc_ok al"
    and mem: "al sizeof_fs_buf \<noteq> None" "al (unat (tail b)) \<noteq> None"
    and f: "content f = []" "unat (tail b) \<le> room f" and t: "13 \<le> unat (tail b)"
  shows "\<exists>b1 f1 b2. save_fs_buf b (Some f) = Some (0, b1, Some f1) \<and> represents b1 root ks \<and> lock b1 = Unlocked
    \<and> load_fs_buf al True (Some (content f1)) = Some (0, Some b2) \<and> represents b2 root ks \<and> lock b2 = Unlocked"
proof -
  obtain H J where h: "head b = H @ enc_root ks @ J" "length H = first_pos root" "forest_ok ks"
    "small b" "tail b = of_nat (first_pos root + length (enc_root ks))"
    "first_pos root + length (enc_root ks) \<le> length (head b)"
    "first_name_off b = of_nat (first_pos root)" "cap_ok b" "region b (first_pos root) ks"
    "root_ok root" using r by (rule representsE)
  have ut: "unat (tail b) = first_pos root + length (enc_root ks)" using h(4-6) by (simp add: unat_of_nat32 del: of_nat_add)
  obtain X Y where xy: "head b = X @ (root @ [0]) @ Y" "length X = 8"
    using r by (auto simp: represents_def get_bytes_Some)
  have Y: "Y = drop (first_pos root) (head b)" using xy by simp
  then have Y': "Y = enc_root ks @ J" using h(1,2) by simp
  define T where "T = fsbuf_magic @ le32 (tail b)"
  have lT: "length T = 8" by (simp add: T_def fsbuf_magic_def)
  define m where "m = T @ (root @ [0]) @ enc_root ks @ J"
  have "put_bytes (head b) 0 fsbuf_magic = Some (fsbuf_magic @ drop 4 X @ (root @ [0]) @ Y)"
    using xy put_bytes_split[of "[]" 0 "take 4 X" fsbuf_magic "drop 4 X @ (root @ [0]) @ Y"]
    by (simp add: fsbuf_magic_def) (metis append.assoc append_take_drop_id)
  moreover have "put_bytes (fsbuf_magic @ drop 4 X @ (root @ [0]) @ Y) 4 (le32 (tail b)) = Some m"
    using put_bytes_split[of fsbuf_magic 4 "drop 4 X" "le32 (tail b)" "(root @ [0]) @ Y"] xy(2) Y'
    by (simp add: m_def T_def fsbuf_magic_def)
  moreover have gm: "get_bytes m 0 (unat (tail b)) = Some (T @ (root @ [0]) @ enc_root ks)"
    using get_bytes_split[of "[]" 0 "T @ (root @ [0]) @ enc_root ks" "unat (tail b)" J] ut lT by (simp add: m_def)
  define f1 where "f1 = f\<lparr>content := T @ (root @ [0]) @ enc_root ks, room := room f - unat (tail b)\<rparr>"
  have "write_file f (T @ (root @ [0]) @ enc_root ks) (tail b) = (True, f1)"
    using write_file_all[of "T @ (root @ [0]) @ enc_root ks" "tail b" f] f ut lT by (simp add: f1_def)
  ultimately have s: "save_fs_buf b (Some f) = Some (0, b\<lparr>head := m, lock := Unlocked\<rparr>, Some f1)"
    using l gm by (simp add: save_fs_buf_def rdlock_def unlock_def)
  have lm: "length m = length (head b)" unfolding m_def xy(1) Y' by (simp add: lT xy(2))
  have rep1: "represents (b\<lparr>head := m, lock := Unlocked\<rparr>) root ks"
    by (rule represents_bytes[OF lT h(10,3), where J = J]) (use h(4,5,7,8) lm in \<open>simp_all add: m_def cap_ok_def\<close>)
  define D where "D = (root @ [0]) @ enc_root ks"
  have lD: "length D + 8 = unat (tail b)" using ut by (simp add: D_def)
  obtain blk where blk: "al (unat (tail b)) = Some blk" "length blk = unat (tail b)"
    using mem(2) alloc_okD[OF al] by fastforce
  have c1: "content f1 = fsbuf_magic @ le32 (tail b) @ D" by (simp add: f1_def T_def D_def)
  have r1: "file_read (fsbuf_magic @ le32 (tail b) @ D) 4 = (fsbuf_magic, le32 (tail b) @ D)"
    "file_read (le32 (tail b) @ D) 4 = (le32 (tail b), D)" by (simp_all add: file_read_def fsbuf_magic_def)
  have ge: "\<not> tail b < 13" using t by (simp add: word_less_nat_alt)
  have "(8 :: u32) \<le> tail b" using t by (simp add: word_le_nat_alt)
  then have u8: "unat (tail b - 8) = length D" using lD by (simp add: unat_sub)
  have rf: "read_file D (tail b - 8) = (True, D, [])"
    using read_file_loop_all[of D "length D" "[]" "[]"] u8 by (simp add: read_file_def)
  have pb: "put_bytes blk 8 D = Some (take 8 blk @ D)"
  proof -
    have "blk = take 8 blk @ drop 8 blk @ []" by simp
    then show ?thesis using put_bytes_split[of "take 8 blk" 8 "drop 8 blk" D "[]"] blk(2) lD by simp
  qed
  have ca: "cstr_at (take 8 blk @ D) 8 = Some root"
    using cstr_at_split[of "take 8 blk" 8 root "enc_root ks"] h(10) blk(2) lD by (simp add: D_def root_ok_def)
  define b2 where "b2 = \<lparr>head = take 8 blk @ D, capacity = tail b, tail = tail b,
    first_name_off = 8 + of_nat (length root) + 1, lock = Unlocked\<rparr>"
  have ld: "load_fs_buf al True (Some (content f1)) = Some (0, Some b2)"
    unfolding load_fs_buf_def option.case c1 Let_def r1 prod.case
    using mem(1) blk(1) ge by (simp add: fsbuf_magic_def r1 rd32_le32 rf pb ca b2_def)
  have "represents b2 root ks"
    by (rule represents_bytes[of "take 8 blk" root ks b2 "[]"])
      (use h(3,5,10) blk lD ut h(4,6) in \<open>simp_all add: b2_def D_def cap_ok_def\<close>)
  then show ?thesis using s rep1 ld by (simp add: b2_def)
qed

end
