(* ===== verification/Search_Claims.thy ===== *)
theory Search_Claims
  imports Search_Props Fs_Claims Fs_File
begin

text \<open>
  The correctness of the search and of the file of the buffer, and three defects of the parallel
  search.
\<close>

lemma layout_sample: "layout sample_forest = [([97], 6), ([99], 3), ([], 5), ([98], 3), ([], 5)]"
  by (simp add: sample_forest_def layout_def level_toks_def)

text \<open>\<open>entry_at root ks x n\<close>: an entry of the forest with the name \<open>n\<close> has the offset \<open>x\<close>.\<close>

definition entry_at :: "cstring \<Rightarrow> node list \<Rightarrow> nat \<Rightarrow> cstring \<Rightarrow> bool" where
  "entry_at root ks x n \<longleftrightarrow> (\<exists>fs ls k us. ks = plug fs (ls @ k # us) \<and> x = epos (first_pos root) fs ls \<and> n = nname k)"

lemma hits_entry_at:
  "forest_ok ks \<Longrightarrow> x \<in> set (hits m (first_pos root) (layout ks)) \<longleftrightarrow> (\<exists>n. entry_at root ks x n \<and> m n)"
  unfolding hits_layout entry_at_def by blast

lemma rest_is_drop:
  assumes "xs = take n zs" "zs = xs @ ys"
  shows "ys = drop n zs"
proof -
  have "take n zs @ ys = take n zs @ drop n zs" using assms by (metis append_take_drop_id)
  then show ?thesis by (simp only: same_append_eq)
qed

text \<open>C39: a search can be continued: a second call that starts at the offset the first one left returns
  the matches after those that the first one returned, none twice and none left out.\<close>

theorem search_pages:
  assumes "represents b root ks" "lock b = Unlocked" "layout ks = us @ ts"
    and "all = found m (first_pos root + toks_size us) ts (unat (min (tail b) end_off))"
  shows "\<exists>off off2. search_files b (of_nat (first_pos root + toks_size us)) end_off sz m None
      = Some (map of_nat (take (unat sz) all), off, b)
    \<and> search_files b off end_off sz2 m None = Some (map of_nat (take (unat sz2) (drop (unat sz) all)), off2, b)"
proof -
  let ?e = "unat (min (tail b) end_off)" and ?a = "first_pos root + toks_size us"
  obtain xs ys where p: "ts = xs @ ys" "search_files b (of_nat ?a) end_off sz m None
      = Some (map of_nat (found m ?a xs ?e), of_nat (first_pos root + toks_size (us @ xs)), b)"
    "found m ?a xs ?e = take (unat sz) all"
    using search_files_page[OF assms(1-3) refl, of end_off sz m] unfolding assms(4) by blast
  have l2: "layout ks = (us @ xs) @ ys" using assms(3) p(1) by simp
  obtain xs2 off2 where q: "search_files b (of_nat (first_pos root + toks_size (us @ xs))) end_off sz2 m None
      = Some (map of_nat (found m (first_pos root + toks_size (us @ xs)) xs2 ?e), off2, b)"
    "found m (first_pos root + toks_size (us @ xs)) xs2 ?e = take (unat sz2) (found m (first_pos root + toks_size (us @ xs)) ys ?e)"
    using search_files_page[OF assms(1,2) l2 refl, of end_off sz2 m] by blast
  have al: "all = found m ?a xs ?e @ found m (first_pos root + toks_size (us @ xs)) ys ?e"
    unfolding assms(4) p(1) found_append by (simp add: add.assoc)
  have "found m (first_pos root + toks_size (us @ xs)) ys ?e = drop (unat sz) all"
    by (rule rest_is_drop[OF p(3) al])
  then have "search_files b (of_nat (first_pos root + toks_size (us @ xs))) end_off sz2 m None
      = Some (map of_nat (take (unat sz2) (drop (unat sz) all)), off2, b)" using q by simp
  moreover have "search_files b (of_nat ?a) end_off sz m None
      = Some (map of_nat (take (unat sz) all), of_nat (first_pos root + toks_size (us @ xs)), b)" using p by simp
  ultimately show ?thesis by (intro exI conjI)
qed

theorem search_pages_witness:
  "\<exists>off off2. search_files (sample_buf 100) 10 32 1 (\<lambda>n. True) None = Some ([10], off, sample_buf 100)
    \<and> search_files (sample_buf 100) off 32 5 (\<lambda>n. True) None = Some ([16, 24], off2, sample_buf 100)"
proof -
  have l: "lock (sample_buf 100) = Unlocked" "min (tail (sample_buf 100)) 32 = 32" by (simp_all add: sample_buf_def)
  show ?thesis
    using search_pages[OF sample_represents[of 100] l(1) append_Nil[symmetric] refl, of 32 1 "\<lambda>n. True" 5]
    unfolding layout_sample l(2) by (simp add: found_def)
qed

text \<open>A parallel search over a range that is short enough for one thread, with option rules only
  and no limit, reports the number of all matches and returns the first \<open>*count\<close> of them; the bytes
  behind the range must be readable.\<close>

theorem parallel_search_one_piece:
  assumes "represents b root ks" "lock b = Unlocked" "layout ks = us @ ts"
    and "mal sizeof_search_context" "mal (unat cnt * 4)" "mal sizeof_compare_query"
    and "search_options rule q = Some opts" "opt_max opts \<le> 0" "only_options rule"
    and "st = of_nat (first_pos root + toks_size us)" "mo = min (tail b) en" "st \<le> mo"
    and "mo - st \<le> (cnt + 1) * 1024" "next_name b mo \<noteq> None"
  shows "parallelsearch_files mal cat_pinyin compile pool b st en cnt rule q
    = (let fs = found (comparator cat_pinyin compile opts) (first_pos root + toks_size us) ts (unat mo)
       in Some (map of_nat (take (unat cnt) fs), of_nat (length fs), mo, b))"
  by (rule search_one_piece[OF assms])

theorem parallel_search_one_piece_witness:
  "parallelsearch_files (\<lambda>n. True) (\<lambda>s. None) (\<lambda>q. None) 2 (sample_buf 100) 10 32 10 [\<lparr>flag = 3, target = [49]\<rparr>] [66]
    = Some ([24], 1, 32, sample_buf 100)"
proof -
  have o: "search_options [\<lparr>flag = 3, target = [49]\<rparr>] [66]
    = Some \<lparr>is_reg = False, opt_query = \<lparr>query = [66], icase = True, lang_pinyin = False\<rparr>, opt_max = 0\<rparr>" by code_simp
  let ?c = "comparator (\<lambda>s. None) (\<lambda>q. None) \<lparr>is_reg = False, opt_query = \<lparr>query = [66], icase = True, lang_pinyin = False\<rparr>, opt_max = 0\<rparr>"
  have c: "?c [97] = False" "?c [98] = True" "?c [99] = False" by code_simp+
  have "next_name (sample_buf 100) 32 = Some 34"
  proof -
    have "replicate 100 (0 :: byte) = replicate 2 0 @ replicate 98 0" by (simp flip: replicate_add)
    then have r: "replicate 100 (0 :: byte) = 0 # 0 # replicate 98 0" by (simp add: numeral_2_eq_2)
    have h: "head (sample_buf 100) = (replicate 8 0 @ [47, 0] @ enc_root sample_forest) @ [] @ 0 # 0 # replicate 98 0"
      "length (replicate 8 (0 :: byte) @ [47, 0] @ enc_root sample_forest) = 32"
      by (simp_all add: sample_buf_def r)
    show ?thesis unfolding next_name_def h(1)
      using cstr_at_split[OF h(2), of "[]"] rd8_split[of "(replicate 8 0 @ [47, 0] @ enc_root sample_forest) @ [0]" 33] h(2)
      by (simp add: Let_def is_cstr_def)
  qed
  moreover have "lock (sample_buf 100) = Unlocked" "min (tail (sample_buf 100)) 32 = 32" by (simp_all add: sample_buf_def)
  ultimately show ?thesis
    using parallel_search_one_piece[where us = "[]" and rule = "[\<lparr>flag = 3, target = [49]\<rparr>]" and q = "[66]" and st = 10 and en = 32
      and cnt = 10 and mal = "\<lambda>n. True" and b = "sample_buf 100" and mo = 32 and pool = 2
      and ts = "layout sample_forest" and compile = "\<lambda>q. None" and cat_pinyin = "\<lambda>s. None", OF sample_represents[of 100] _ _ _ _ _ o]
    by (simp add: layout_sample only_options_def rule_class_def found_def c)
qed

text \<open>A defect.  \<open>load_fs_buf\<close> allocates exactly the bytes of the file.  A parallel search up to the
  end of the buffer looks for the name behind the last piece, that is behind the allocated block.\<close>

lemma cstr_at_end: "cstr_at m (length m) = None"
  by (simp add: cstr_at_def)

lemma load_exact:
  assumes "load_fs_buf al ok (Some f) = Some (r, Some b)" "alloc_ok al"
  shows "length (head b) = unat (tail b)" "lock b = Unlocked"
  using assms(1) by (auto simp: load_fs_buf_def Let_def Option.bind_eq_Some_conv split: if_splits option.splits prod.splits
      dest!: alloc_okD[OF assms(2)])

theorem search_after_load_reads_past_end:
  assumes "load_fs_buf al ok (Some f) = Some (r, Some b)" "alloc_ok al" "0 < tail b" "tail b < 1073741824"
    and "mal sizeof_search_context" "mal (unat cnt * 4)" "mal sizeof_compare_query"
    and "search_options rule q = Some opts" "st \<le> tail b" "tail b - st \<le> (cnt + 1) * 1024"
  shows "parallelsearch_files mal cat_pinyin compile pool b st (tail b) cnt rule q = None"
proof -
  let ?b = "b\<lparr>lock := Readers 1\<rparr>"
  have h: "length (head b) = unat (tail b)" and l: "lock b = Unlocked" using load_exact[OF assms(1,2)] by simp_all
  have n: "next_name ?b (tail b) = None" using cstr_at_end[of "head b"] h by (simp add: next_name_def)
  let ?p = "max (tail b - st) 1"
  have "unat st + unat ?p < 4294967296"
    using assms(4,9) by (auto simp: max_def unat_sub word_le_nat_alt word_less_nat_alt)
  then have "unat (st + ?p) = unat st + unat ?p" by (simp add: unat_word_ariths)
  then have g: "st + ?p \<ge> tail b" unfolding word_le_nat_alt using assms(9) by (auto simp: max_def unat_sub word_le_nat_alt)
  have "pieces mal ?b pool st (tail b) cnt (opt_max opts) = None"
    unfolding pieces_def using assms(5,6,9,10) g n by (simp add: Let_def search_thread_context_new_def)
  then show ?thesis using assms(7,8) l by (simp add: parallelsearch_files_def rdlock_def Let_def)
qed

definition sample_file :: "byte list" where
  "sample_file = [76, 70, 84, 0, 32, 0, 0, 0, 47, 0] @ enc_root sample_forest"

theorem search_after_load_reads_past_end_witness:
  "\<exists>b. load_fs_buf sample_alloc True (Some sample_file) = Some (0, Some b)
    \<and> parallelsearch_files (\<lambda>n. True) (\<lambda>s. None) (\<lambda>q. None) 4 b 10 32 10 [] [98] = None"
proof -
  have "(case load_fs_buf sample_alloc True (Some sample_file) of Some (r, Some b) \<Rightarrow> r = 0 \<and> tail b = 32 | _ \<Rightarrow> False)"
    by code_simp
  then obtain b where b: "load_fs_buf sample_alloc True (Some sample_file) = Some (0, Some b)" "tail b = 32"
    by (auto split: option.splits)
  have o: "search_options [] [98] \<noteq> None" by code_simp
  then obtain opts where o: "search_options [] [98] = Some opts" by blast
  have "parallelsearch_files (\<lambda>n. True) (\<lambda>s. None) (\<lambda>q. None) 4 b 10 (tail b) 10 [] [98] = None"
    by (rule search_after_load_reads_past_end[OF b(1) sample_alloc_ok _ _ _ _ _ o]) (simp_all add: b(2))
  then show ?thesis using b by auto
qed

text \<open>C19: a saved buffer, loaded again, represents the same forest.\<close>

theorem save_load_roundtrip:
  assumes "represents b root ks" "lock b = Unlocked" "alloc_ok al"
    and "al sizeof_fs_buf \<noteq> None" "al (unat (tail b)) \<noteq> None"
    and "content f = []" "unat (tail b) \<le> room f" "13 \<le> unat (tail b)"
  shows "\<exists>b1 f1 b2. save_fs_buf b (Some f) = Some (0, b1, Some f1) \<and> represents b1 root ks \<and> lock b1 = Unlocked
    \<and> load_fs_buf al True (Some (content f1)) = Some (0, Some b2) \<and> represents b2 root ks \<and> lock b2 = Unlocked"
  by (rule save_load[OF assms])

theorem save_load_roundtrip_witness:
  "\<exists>b1 f1 b2. save_fs_buf (sample_buf 0) (Some \<lparr>content = [], room = 100\<rparr>) = Some (0, b1, Some f1)
    \<and> represents b1 [47] sample_forest \<and> lock b1 = Unlocked
    \<and> load_fs_buf sample_alloc True (Some (content f1)) = Some (0, Some b2)
    \<and> represents b2 [47] sample_forest \<and> lock b2 = Unlocked"
  by (rule save_load_roundtrip) (simp_all add: sample_represents sample_alloc_ok, simp_all add: sample_alloc_def sample_buf_def)

text \<open>A defect.  The buffer of an empty folder below \<open>/\<close> has ten bytes; \<open>save_fs_buf\<close> writes it and
  \<open>load_fs_buf\<close>, which wants thirteen, does not load it.\<close>

definition bare_buf :: fs_buf where
  "bare_buf = \<lparr>head = [0, 0, 0, 0, 0, 0, 0, 0, 47, 0], capacity = 10, tail = 10, first_name_off = 10, lock = Unlocked\<rparr>"

theorem empty_index_not_loaded:
  "represents bare_buf [47] [] \<and> (case save_fs_buf bare_buf (Some \<lparr>content = [], room = 20\<rparr>) of
     Some (r, b, Some f) \<Rightarrow> r = 0 \<and> load_fs_buf sample_alloc True (Some (content f)) = Some (3, None) | _ \<Rightarrow> False)"
proof
  show "represents bare_buf [47] []"
    by (simp add: represents_def bare_buf_def root_ok_def is_cstr_def cap_ok_def get_bytes_def region_def enc_root_def)
qed code_simp

end
