(* ===== verification/Search_Pieces.thy ===== *)
theory Search_Pieces
  imports Search_Props Fs_Claims
begin

text \<open>
  The pieces of \<open>parallelsearch_files\<close>: each piece starts one name behind the end of the piece
  before it.  The names at the borders are searched by no thread.
\<close>

text \<open>A folder with \<open>2 * k + 1\<close> files of the name \<open>a\<close>.\<close>

definition many :: "nat \<Rightarrow> node list" where
  "many k = replicate (2 * k + 1) (File [97])"

definition many_buf :: "nat \<Rightarrow> fs_buf" where
  "many_buf k = \<lparr>head = replicate 8 0 @ [47, 0] @ enc_root (many k) @ [0, 0], capacity = of_nat (6 * k + 20),
     tail = of_nat (6 * k + 18), first_name_off = 10, lock = Unlocked\<rparr>"

lemma layout_many: "layout (many k) = replicate (2 * k + 1) ([97], 3) @ [([], 5)]"
  by (simp add: many_def layout_def level_toks_def)

lemma hits_replicate:
  "m nm \<Longrightarrow> nm \<noteq> [] \<Longrightarrow> length (hits m a (replicate n (nm, s))) = n"
  by (induction n arbitrary: a) simp_all

lemma found_all: "walks b a ts \<Longrightarrow> a + toks_size ts \<le> e \<Longrightarrow> found m a ts e = hits m a ts"
proof (induction b a ts rule: walks.induct)
  case (2 b a n s ts)
  then have "found m (a + s) ts e = hits m (a + s) ts" "a < e" by simp_all
  then show ?case by (simp add: found_def)
qed (simp add: found_def)

lemma toks_size_replicate [simp]: "toks_size (replicate n (nm, s)) = n * s"
  by (induction n) simp_all

lemma merge_total:
  assumes "mx \<le> 0"
  shows "\<exists>rs. merge_results mr mx cs res tt mo = (rs, tt + sum_list (map num_results cs), mo)"
proof -
  have c: "\<exists>rs'. copy_results mr False mx rs res tt mo = (rs', tt, mo)" for rs res tt
    by (induction rs arbitrary: res) auto
  show ?thesis
  proof (induction cs arbitrary: res tt)
    case (Cons x cs)
    obtain rs' where "copy_results mr False mx (take (min (req_results x) (unat (num_results x))) (ctx_results x)) res
        (tt + num_results x) mo = (rs', tt + num_results x, mo)" using c by blast
    then show ?case using assms Cons.IH[of rs' "tt + num_results x"] by (simp add: Let_def add.assoc)
  qed simp
qed

lemma replicate_split: "n = i + Suc j \<Longrightarrow> replicate n x = replicate i x @ x # replicate j x"
  unfolding replicate_Suc[symmetric] replicate_add[symmetric] by simp

text \<open>The pieces of the folder for two threads.\<close>

lemma many_next:
  assumes r: "represents b [47] (many k)" and k: "2 \<le> k" "k \<le> 1000"
  shows "next_name b (of_nat (3 * k + 14)) = Some (of_nat (3 * k + 16))"
    and "next_name b (of_nat (3 * k + 16)) = Some (of_nat (3 * k + 19))"
proof -
  have reg: "region b 10 (many k)" using r by (simp add: represents_def)
  have m1: "many k = plug [] (replicate (k + 1) (File [97]) @ File [97] # replicate (k - 1) (File [97]))"
    unfolding many_def plug.simps by (rule replicate_split) (use k in simp)
  have m2: "many k = plug [] (replicate (k + 2) (File [97]) @ File [97] # replicate (k - 2) (File [97]))"
    unfolding many_def plug.simps by (rule replicate_split) (use k in simp)
  have e: "ents (replicate j (File [97])) = 3 * j" for j by (induction j) simp_all
  obtain A C d where h: "head b = A @ enc_ent d (File [97]) @ C" "length A = epos 10 [] (replicate (k + 1) (File [97]))" "small b"
    using region_entry[of b 10 "[]" "replicate (k + 1) (File [97])" "File [97]" "replicate (k - 1) (File [97])"] reg m1 by metis
  have "head b = (A @ [97]) @ [] @ 0 # 0 # C" "length (A @ [97]) = 3 * k + 14" using h by (simp_all add: e sum_list_replicate)
  then have "cstr_at (head b) (3 * k + 14) = Some []" "rd8 (head b) (3 * k + 15) = Some 0"
    using cstr_at_split[of "A @ [97]" "3 * k + 14" "[]" "0 # C"] rd8_split[of "A @ [97, 0]" "3 * k + 15" 0 C]
    by (simp_all add: is_cstr_def)
  moreover have "unat (of_nat (3 * k + 14) :: u32) = 3 * k + 14" "unat (of_nat (3 * k + 15) :: u32) = 3 * k + 15"
    using k by (simp_all add: off_simps del: of_nat_add of_nat_mult)
  moreover have "(of_nat (3 * k + 14) :: u32) + 1 = of_nat (3 * k + 15)" by simp
  ultimately show "next_name b (of_nat (3 * k + 14)) = Some (of_nat (3 * k + 16))"
    by (simp add: next_name_def Let_def del: of_nat_add of_nat_mult) simp
  have "epos 10 [] (replicate (k + 2) (File [97])) = 3 * k + 16" "epos 10 [] (replicate (k + 2) (File [97]) @ [File [97]]) = 3 * k + 19"
    by (simp_all add: e sum_list_replicate)
  then show "next_name b (of_nat (3 * k + 16)) = Some (of_nat (3 * k + 19))"
    using region_next_name[of b 10 "[]" "replicate (k + 2) (File [97])" "File [97]" "replicate (k - 2) (File [97])"] reg m2 by metis
qed

lemma many_pieces:
  assumes r: "represents b [47] (many k)" and k: "2 \<le> k" "k \<le> 1000"
    and t: "tail b = of_nat (6 * k + 18)" and n: "next_name b (tail b) \<noteq> None"
    and cnt: "(unat cnt + 1) * 1024 < 6 * k + 8"
  shows "\<exists>c1 c2. pieces (\<lambda>n. True) b 2 10 (tail b) cnt 0 = Some ([c1, c2], False)
    \<and> start_pos c1 = 10 \<and> end_pos c1 = of_nat (3 * k + 16) \<and> start_pos c2 = of_nat (3 * k + 19) \<and> end_pos c2 = tail b
    \<and> max_count c1 = 0 \<and> max_count c2 = 0 \<and> num_results c1 = 0 \<and> num_results c2 = 0
    \<and> ctx_results c1 = [] \<and> ctx_results c2 = []"
proof -
  let ?p = "of_nat (3 * k + 4) :: u32"
  have "tail b - 10 = of_nat (6 * k + 18 - 10)" unfolding t by (simp add: of_nat_diff)
  then have d: "tail b - 10 = of_nat (6 * k + 8)" by simp
  have c: "(cnt + 1) * 1024 = of_nat ((unat cnt + 1) * 1024)" by simp
  have big: "\<not> tail b - 10 \<le> (cnt + 1) * 1024"
    unfolding d c using cnt k by (simp add: off_simps del: of_nat_add of_nat_mult)
  have "unat ((tail b - 10) div 2) = (6 * k + 8) div 2"
    unfolding d unat_div using k by (simp add: off_simps del: of_nat_add of_nat_mult)
  then have p: "(tail b - 10) div 2 = ?p" using k by (intro word_unat_eq_iff[THEN iffD2]) (simp add: off_simps del: of_nat_add of_nat_mult)
  have mx: "max ?p 1 = ?p" using k by (simp add: max_def off_simps word_le_nat_alt del: of_nat_add of_nat_mult)
  have s1: "10 + ?p = of_nat (3 * k + 14)" "of_nat (3 * k + 16) + ?p = of_nat (6 * k + 20)" by simp_all
  have b1: "\<not> of_nat (3 * k + 14) \<ge> tail b" "of_nat (6 * k + 20) > tail b" "(10 :: u32) \<le> of_nat (3 * k + 16)"
    "\<not> (of_nat (3 * k + 19) :: u32) \<ge> tail b" "(of_nat (3 * k + 19) :: u32) \<le> tail b"
    unfolding t using k of_nat32_le[of 10 "3 * k + 16"] by (simp_all add: off_simps del: of_nat_add of_nat_mult)
  obtain nx where nx: "next_name b (tail b) = Some nx" using n by blast
  have b2: "tail b + ?p > tail b" "\<not> (of_nat (3 * k + 16) :: u32) < 10"  "\<not> tail b < of_nat (3 * k + 19)"
  proof -
    have "tail b + ?p = of_nat (9 * k + 22)" unfolding t by simp
    then show "tail b + ?p > tail b" unfolding t using k by (simp add: off_simps del: of_nat_add of_nat_mult)
  qed (use b1 in \<open>simp_all add: not_less\<close>)
  define X where "X = (of_nat (3 * k + 14) :: u32)"
  define Y where "Y = (of_nat (3 * k + 16) :: u32)"
  define Z where "Z = (of_nat (3 * k + 19) :: u32)"
  define W where "W = (of_nat (6 * k + 20) :: u32)"
  define P where "P = ?p"
  note nn = many_next[OF r k, folded X_def Y_def Z_def]
  note aa = s1[folded X_def Y_def W_def P_def] b1[folded X_def Y_def Z_def W_def] b2[folded Y_def Z_def P_def]
  have "pieces (\<lambda>n. True) b 2 10 (tail b) cnt 0 = make_contexts (\<lambda>n. True) b 2 P (unat cnt) 0 (tail b) 10 Y []"
    unfolding pieces_def using big p[folded P_def] mx[folded P_def] aa nn by (simp add: Let_def)
  also have "\<dots> = Some ([\<lparr>start_pos = 10, end_pos = Y, req_results = unat cnt, max_count = 0, num_results = 0, ctx_results = []\<rparr>,
      \<lparr>start_pos = Z, end_pos = tail b, req_results = unat cnt, max_count = 0, num_results = 0, ctx_results = []\<rparr>], False)"
    unfolding numeral_2_eq_2 using aa nn nx by (simp add: search_thread_context_new_def Let_def)
  finally show ?thesis unfolding Y_def Z_def by auto
qed


text \<open>a defect.  Each piece of a parallel search starts one name behind the end of the piece before
  it, so the names at the borders are not searched: of \<open>2 * k + 1\<close> files with the name \<open>a\<close> two threads
  report \<open>2 * k\<close>.\<close>

theorem parallel_search_skips_borders:
  assumes "represents b [47] (many k)" "lock b = Unlocked" "2 \<le> k" "k \<le> 1000"
    and "tail b = of_nat (6 * k + 18)" "next_name b (tail b) \<noteq> None" "(unat cnt + 1) * 1024 < 6 * k + 8"
  shows "\<exists>rs. parallelsearch_files (\<lambda>n. True) cat_pinyin compile 2 b 10 (tail b) cnt [] [97]
    = Some (rs, of_nat (2 * k), tail b, b)"
proof -
  let ?b = "b\<lparr>lock := Readers 1\<rparr>"
  have rb: "represents ?b [47] (many k)" and tb: "tail ?b = of_nat (6 * k + 18)" and nb: "next_name ?b (tail ?b) \<noteq> None"
    using assms(1,5,6) by (auto simp: next_name_def)
  obtain c1 c2 where c: "pieces (\<lambda>n. True) ?b 2 10 (tail ?b) cnt 0 = Some ([c1, c2], False)"
    "start_pos c1 = 10" "end_pos c1 = of_nat (3 * k + 16)" "start_pos c2 = of_nat (3 * k + 19)" "end_pos c2 = tail ?b"
    "max_count c1 = 0" "max_count c2 = 0" "num_results c1 = 0" "num_results c2 = 0" "ctx_results c1 = []" "ctx_results c2 = []"
    using many_pieces[OF rb assms(3,4) tb nb assms(7)] by blast
  obtain opts where o: "search_options [] [97] = Some opts" "opt_max opts = 0" "comparator cat_pinyin compile opts [97]"
  proof -
    have "search_options [] [97] = Some \<lparr>is_reg = False, opt_query = \<lparr>query = [97], icase = False, lang_pinyin = False\<rparr>, opt_max = 0\<rparr>"
      by code_simp
    moreover have "strstr [97] [97] = Some 0" by code_simp
    ultimately show ?thesis using that by (simp add: comparator_def match_str_def do_match_str_def)
  qed
  let ?m = "comparator cat_pinyin compile opts"
  let ?t = "([97], 3) :: token" and ?e = "([], 5) :: token"
  have reg: "region ?b 10 (many k)" using rb by (simp add: represents_def)
  have lay: "layout (many k) = replicate (k + 3) ?t @ replicate (k - 2) ?t @ [?e]"
    unfolding layout_many append_assoc[symmetric] replicate_add[symmetric] using assms(3) by simp
  have lay2: "layout (many k) = replicate (k + 2) ?t @ replicate (k - 1) ?t @ [?e]"
    unfolding layout_many append_assoc[symmetric] replicate_add[symmetric] using assms(3) by simp
  have w: "walks ?b 10 (layout (many k))" by (rule walks_layout[OF reg])
  have w1: "walks ?b 10 (replicate (k + 2) ?t)" using w unfolding lay2 by simp
  have w2: "walks ?b (3 * k + 19) (replicate (k - 2) ?t @ [?e])" using w unfolding lay by (simp add: algebra_simps)
  define F1 where "F1 = map (of_nat :: nat \<Rightarrow> u32) (found ?m 10 (replicate (k + 2) ?t) (3 * k + 16))"
  define F2 where "F2 = map (of_nat :: nat \<Rightarrow> u32) (found ?m (3 * k + 19) (replicate (k - 2) ?t @ [?e]) (6 * k + 18))"
  have "search_thread ?b ?m c1 = Some (ctx_with c1 F1)"
    unfolding F1_def by (rule search_thread_walks[OF w1]) (use c assms(4) in \<open>simp_all add: algebra_simps\<close>)
  moreover have "search_thread ?b ?m c2 = Some (ctx_with c2 F2)"
    unfolding F2_def by (rule search_thread_walks[OF w2]) (use c assms(3,4,5) in \<open>simp_all add: algebra_simps del: of_nat_add of_nat_mult\<close>)
  ultimately have rt: "run_threads (search_thread ?b ?m) [c1, c2] = Some [ctx_with c1 F1, ctx_with c2 F2]" by simp
  have "length F1 = k + 2" unfolding F1_def using found_all[OF w1] o(3) by (simp add: hits_replicate algebra_simps)
  moreover have "length F2 = k - 2" unfolding F2_def using found_all[OF w2] o(3) assms(3) by (simp add: hits_replicate algebra_simps)
  ultimately have "length F1 + length F2 = 2 * k" using assms(3) by simp
  then have sm: "sum_list (map num_results [ctx_with c1 F1, ctx_with c2 F2]) = of_nat (2 * k)"
    by (simp flip: of_nat_add)
  obtain rs where mg: "merge_results (unat cnt) 0 [ctx_with c1 F1, ctx_with c2 F2] [] 0 (tail b) = (rs, of_nat (2 * k), tail b)"
    using merge_total[of 0 "unat cnt" "[ctx_with c1 F1, ctx_with c2 F2]" "[]" 0 "tail b"] unfolding sm by auto
  have ul: "unlock ?b = Some b" using assms(2) by (simp add: unlock_def)
  have rd: "rdlock b = Some ?b" using assms(2) by (simp add: rdlock_def)
  have "tail ?b = tail b" by simp
  note c1' = c(1)[unfolded this]
  show ?thesis
    unfolding parallelsearch_files_def rd Option.bind_lunit Let_def o(1)
    using c1' rt mg ul o(2) by simp
qed


lemma length_many: "length (enc_root (many k)) = 6 * k + 8"
  unfolding toks_size_layout[symmetric] layout_many by simp

lemma many_represents:
  assumes "k \<le> 1000"
  shows "represents (many_buf k) [47] (many k)" "next_name (many_buf k) (of_nat (6 * k + 18)) \<noteq> None"
proof -
  have h: "head (many_buf k) = (replicate 8 0 @ [47, 0]) @ enc_root (many k) @ [0, 0]
      \<and> length (replicate 8 (0 :: byte) @ [47, 0]) = 10" by (simp add: many_buf_def)
  have "forest_ok (many k)" by (auto simp: many_def name_ok_def list_all_iff)
  then have "region (many_buf k) 10 (many k)"
    unfolding region_iff using assms h by (intro conjI) (blast, simp_all add: many_buf_def length_many)
  then show "represents (many_buf k) [47] (many k)" using assms
    by (simp add: represents_def many_buf_def root_ok_def is_cstr_def cap_ok_def get_bytes_def length_many
      unat_of_nat32 del: of_nat_add of_nat_mult)
  let ?A = "(replicate 8 0 @ [47, 0]) @ enc_root (many k)"
  have l: "length ?A = 6 * k + 18" by (simp add: length_many)
  have "cstr_at (head (many_buf k)) (6 * k + 18) = Some []" "rd8 (head (many_buf k)) (6 * k + 19) = Some 0"
    using cstr_at_split[OF l, of "[]" "[0]"] rd8_split[of "?A @ [0]" "6 * k + 19" 0 "[]"] l
    by (simp_all add: many_buf_def is_cstr_def)
  moreover have "unat (of_nat (6 * k + 18) :: u32) = 6 * k + 18" "unat (of_nat (6 * k + 18) + 1 :: u32) = 6 * k + 19"
    using assms unat_of_nat32[of "6 * k + 18"] unat_of_nat32[of "6 * k + 19"] by (simp_all add: algebra_simps)
  ultimately show "next_name (many_buf k) (of_nat (6 * k + 18)) \<noteq> None"
    by (simp add: next_name_def Let_def del: of_nat_add of_nat_mult)
qed

theorem parallel_search_skips_borders_witness:
  "\<exists>rs. parallelsearch_files (\<lambda>n. True) (\<lambda>s. None) (\<lambda>q. None) 2 (many_buf 1000) 10 6018 2 [] [97]
    = Some (rs, 2000, 6018, many_buf 1000)"
proof -
  have t: "tail (many_buf 1000) = 6018" "lock (many_buf 1000) = Unlocked" by (simp_all add: many_buf_def)
  have n: "next_name (many_buf 1000) 6018 \<noteq> None" using many_represents(2)[of 1000] by simp
  show ?thesis
    using parallel_search_skips_borders[OF many_represents(1)[of 1000] t(2), of 2 "\<lambda>s. None" "\<lambda>q. None"] n
    unfolding t(1) by simp
qed

end
