(* ===== verification/Vfs_Sysfs.thy ===== *)
theory Vfs_Sysfs
  imports Prelude
begin

text \<open>
  The file \<open>/sys/kernel/vfs_monitor/vfs_unnamed_devices\<close> of the kernel module
  (\<open>src/src/kernelmod/vfs_sysfs.c\<close>): the minor numbers of the devices with major number 0 that
  are watched, and the server's side of it (\<open>eventsource_genl.cpp\<close>).
\<close>

subsection \<open>Decimal numbers\<close>

fun dec :: "nat \<Rightarrow> cstring" where
  "dec n = (if n < 10 then [48 + of_nat n] else dec (n div 10) @ [48 + of_nat (n mod 10)])"

declare dec.simps [simp del]

definition digit :: "byte \<Rightarrow> bool" where
  "digit c \<longleftrightarrow> 48 \<le> c \<and> c \<le> 57"

definition digits_val :: "cstring \<Rightarrow> nat" where
  "digits_val s = foldl (\<lambda>v c. 10 * v + (unat c - 48)) 0 s"

lemma digit_of: "n < 10 \<Longrightarrow> digit (48 + of_nat n) \<and> unat (48 + of_nat n :: byte) - 48 = n"
proof -
  assume n: "n < 10"
  have "unat (48 + of_nat n :: byte) = 48 + n"
    using n unat_add_lem[of "48 :: byte" "of_nat n"] by (simp add: unat_of_nat take_bit_eq_mod)
  then show ?thesis using n by (simp add: digit_def word_le_nat_alt)
qed

lemma dec_digits: "\<forall>c\<in>set (dec n). digit c"
proof (induction n rule: dec.induct)
  case (1 n)
  then show ?case using digit_of[of n] digit_of[of "n mod 10"]
    by (subst dec.simps) (auto split: if_splits)
qed

lemma dec_not_Nil [simp]: "dec n \<noteq> []"
  by (subst dec.simps) simp

lemma dec_val: "digits_val (dec n) = n"
proof (induction n rule: dec.induct)
  case (1 n)
  show ?case
  proof (cases "n < 10")
    case True
    then show ?thesis using digit_of[of n] by (subst dec.simps) (simp add: digits_val_def)
  next
    case False
    then have "digits_val (dec (n div 10)) = n div 10" by (rule 1)
    moreover have "digits_val (xs @ [c]) = 10 * digits_val xs + (unat c - 48)" for xs c by (simp add: digits_val_def)
    moreover have "unat (48 + of_nat (n mod 10) :: byte) - 48 = n mod 10" using digit_of[of "n mod 10"] by simp
    ultimately show ?thesis using False by (subst dec.simps) simp
  qed
qed

lemma dec_inj: "dec m = dec n \<longleftrightarrow> m = n"
  by (metis dec_val)

lemma length_dec: "n < 10 \<Longrightarrow> length (dec n) = 1" "n < 100 \<Longrightarrow> length (dec n) \<le> 2" "n < 1000 \<Longrightarrow> length (dec n) \<le> 3"
proof -
  show a: "n < 10 \<Longrightarrow> length (dec n) = 1" for n by (subst dec.simps) simp
  show b: "n < 100 \<Longrightarrow> length (dec n) \<le> 2" for n using a[of "n div 10"] by (subst dec.simps) auto
  show "n < 1000 \<Longrightarrow> length (dec n) \<le> 3" using b[of "n div 10"] by (subst dec.simps) auto
qed

subsection \<open>The kernel side\<close>

abbreviation (input) MAX_MINOR :: nat where "MAX_MINOR \<equiv> 255"

type_synonym devices = "byte list"

text \<open>\<open>dev_t\<close> holds the minor number in its low 20 bits.\<close>

definition MAJOR :: "u32 \<Rightarrow> u32" where "MAJOR dev = drop_bit 20 dev"
definition MINOR :: "u32 \<Rightarrow> u32" where "MINOR dev = take_bit 20 dev"

text \<open>\<open>IS_INVALID_DEVICE\<close>; \<open>None\<close> is an access past the array.\<close>

definition IS_INVALID_DEVICE :: "devices \<Rightarrow> u32 \<Rightarrow> bool option" where
  "IS_INVALID_DEVICE vs dev =
    (if MAJOR dev \<noteq> 0 then Some False
     else if unat (MINOR dev) < length vs then Some (vs ! unat (MINOR dev) = 0) else None)"

fun show_loop :: "devices \<Rightarrow> nat list \<Rightarrow> bool \<Rightarrow> cstring \<Rightarrow> cstring" where
  "show_loop vs [] first pbuf = pbuf"
| "show_loop vs (i # is) first pbuf =
    (if vs ! i = 0 then show_loop vs is first pbuf
     else if first then show_loop vs is False (pbuf @ dec i)
     else show_loop vs is False (pbuf @ [44] @ dec i))"

definition vfs_unnamed_devices_show :: "devices \<Rightarrow> cstring" where
  "vfs_unnamed_devices_show vs = show_loop vs [0..<MAX_MINOR + 1] True [] @ [10]"

text \<open>\<open>sscanf(buf, "%c%hhu", ...)\<close> of the kernel: a character, then spaces, then at least one digit; the
  number is stored modulo 256.  The result is the pair, or \<open>None\<close> if fewer than two items match.\<close>

definition scan_act :: "cstring \<Rightarrow> (byte \<times> byte) option" where
  "scan_act s = (case s of [] \<Rightarrow> None
    | c # r \<Rightarrow>
      let ds = takeWhile digit (dropWhile (\<lambda>x. x = 32 \<or> 9 \<le> x \<and> x \<le> 13 \<or> x = 160) r)
      in if ds = [] then None else Some (c, of_nat (digits_val ds)))"

abbreviation (input) EINVAL :: int where "EINVAL \<equiv> 22"

definition vfs_unnamed_devices_store :: "devices \<Rightarrow> cstring \<Rightarrow> int \<times> devices" where
  "vfs_unnamed_devices_store vs buf =
    (case scan_act buf of None \<Rightarrow> (- EINVAL, vs)
     | Some (act, minor) \<Rightarrow>
       if act = 101 then (int (length buf), replicate (MAX_MINOR + 1) 0)
       else if act = 97 then (int (length buf), vs[unat minor := 1])
       else if act = 114 then (int (length buf), vs[unat minor := 0])
       else (- EINVAL, vs))"

subsection \<open>The server side\<close>

text \<open>\<open>QByteArray::split\<close> at commas.\<close>

fun split_comma :: "cstring \<Rightarrow> cstring list" where
  "split_comma [] = [[]]"
| "split_comma (c # cs) =
    (if c = 44 then [] # split_comma cs
     else case split_comma cs of [] \<Rightarrow> [[c]] | x # xs \<Rightarrow> (c # x) # xs)"

definition read_vfs_unnamed_device :: "devices \<Rightarrow> cstring list" where
  "read_vfs_unnamed_device vs = remdups (split_comma (butlast (vfs_unnamed_devices_show vs)))"

definition write_vfs_unnamed_device :: "devices \<Rightarrow> cstring \<Rightarrow> devices" where
  "write_vfs_unnamed_device vs str = snd (vfs_unnamed_devices_store vs str)"

text \<open>A command of one letter and the number, made by \<open>snprintf\<close> in a buffer of 32 bytes.\<close>

definition write_minor :: "byte \<Rightarrow> devices \<Rightarrow> cstring \<Rightarrow> devices" where
  "write_minor c vs minor = write_vfs_unnamed_device vs (take 31 (c # minor))"

text \<open>A \<open>QSet\<close> has no order: \<open>order\<close> gives the order of the iteration.\<close>

definition update_vfs_unnamed_device :: "(cstring list \<Rightarrow> cstring list) \<Rightarrow> devices \<Rightarrow> cstring list \<Rightarrow> devices" where
  "update_vfs_unnamed_device order vs news =
    (let olds = read_vfs_unnamed_device vs;
         removes = filter (\<lambda>d. d \<notin> set news) olds;
         vs = foldl (write_minor 114) vs (order removes);
         adds = filter (\<lambda>d. d \<notin> set olds) news
     in foldl (write_minor 97) vs (order adds))"

subsection \<open>Properties\<close>

text \<open>The file: the numbers of the watched devices, joined with commas.\<close>

fun join_comma :: "cstring list \<Rightarrow> cstring" where
  "join_comma [] = []"
| "join_comma [x] = x"
| "join_comma (x # y # xs) = x @ [44] @ join_comma (y # xs)"

definition watched :: "devices \<Rightarrow> nat list" where
  "watched vs = filter (\<lambda>i. vs ! i \<noteq> 0) [0..<256]"

lemma join_comma_Cons: "xs \<noteq> [] \<Longrightarrow> join_comma (x # xs) = x @ [44] @ join_comma xs"
  by (cases xs) auto

lemma show_loop_rest: "show_loop vs is False p = p @ concat (map (\<lambda>i. [44] @ dec i) (filter (\<lambda>i. vs ! i \<noteq> 0) is))"
  by (induction "is" arbitrary: p) auto

lemma join_comma_concat: "join_comma (x # xs) = x @ concat (map (\<lambda>y. [44] @ y) xs)"
  by (induction xs arbitrary: x) auto

lemma show_loop_join: "show_loop vs is True [] = join_comma (map dec (filter (\<lambda>i. vs ! i \<noteq> 0) is))"
  by (induction "is") (simp_all add: show_loop_rest join_comma_concat comp_def del: join_comma.simps(3))

lemma show_watched: "vfs_unnamed_devices_show vs = join_comma (map dec (watched vs)) @ [10]"
  by (simp add: vfs_unnamed_devices_show_def show_loop_join watched_def)

lemma split_no_comma: "44 \<notin> set x \<Longrightarrow> split_comma x = [x]"
  by (induction x) auto

lemma split_comma_append: "44 \<notin> set x \<Longrightarrow> split_comma (x @ 44 # xs) = x # split_comma xs"
  by (induction x) auto

lemma split_join_comma: "\<forall>x\<in>set xs. 44 \<notin> set x \<Longrightarrow> split_comma (join_comma xs) = (if xs = [] then [[]] else xs)"
  by (induction xs rule: join_comma.induct) (auto simp: split_no_comma split_comma_append)

lemma dec_no_comma: "44 \<notin> set (dec n)"
  using dec_digits[of n] by (auto simp: digit_def)

lemma read_watched:
  "set (read_vfs_unnamed_device vs) = (if watched vs = [] then {[]} else dec ` set (watched vs))"
  using split_join_comma[of "map dec (watched vs)"] dec_no_comma
  by (simp add: read_vfs_unnamed_device_def show_watched)

lemma takeWhile_digits: "\<forall>c\<in>set s. digit c \<Longrightarrow> takeWhile digit s = s"
  by (simp add: takeWhile_eq_all_conv)

lemma scan_dec: "scan_act (c # dec n) = Some (c, of_nat n)"
proof -
  have "dropWhile (\<lambda>x. x = 32 \<or> 9 \<le> x \<and> x \<le> 13 \<or> x = 160) (dec n) = dec n"
  proof (cases "dec n")
    case (Cons d ds)
    then have "digit d" using dec_digits[of n] by simp
    then have "\<not> (d = 32 \<or> 9 \<le> d \<and> d \<le> 13 \<or> d = 160)" by (auto simp: digit_def word_le_nat_alt)
    then show ?thesis using Cons by auto
  qed simp
  then show ?thesis by (simp add: scan_act_def dec_val takeWhile_digits[OF dec_digits] del: takeWhile_eq_all_conv)
qed

lemma scan_short: "scan_act [c] = None"
  by (simp add: scan_act_def)


lemma write_dec:
  assumes "n < 256" "length vs = 256"
  shows "write_minor 114 vs (dec n) = vs[n := 0]"
    "write_minor 97 vs (dec n) = vs[n := 1]"
proof -
  have "length (dec n) \<le> 3" using length_dec(3)[of n] assms by simp
  then have "take 31 (c # dec n) = c # dec n" for c by simp
  moreover have "unat (of_nat n :: byte) = n" using assms by (simp add: unat_of_nat take_bit_eq_mod)
  ultimately show "write_minor 114 vs (dec n) = vs[n := 0]"
    "write_minor 97 vs (dec n) = vs[n := 1]"
    by (simp_all add: write_minor_def write_vfs_unnamed_device_def vfs_unnamed_devices_store_def scan_dec)
qed

lemma write_empty: "write_minor c vs [] = vs"
  by (simp add: write_minor_def write_vfs_unnamed_device_def vfs_unnamed_devices_store_def scan_short)

lemma write_all:
  assumes "\<forall>d\<in>set ds. d = [] \<or> (\<exists>n<256. d = dec n)" "length vs = 256" "c = 97 \<and> v = 1 \<or> c = 114 \<and> v = 0"
  shows "length (foldl (write_minor c) vs ds) = 256
    \<and> (\<forall>j<256. foldl (write_minor c) vs ds ! j
      = (if dec j \<in> set ds then v else vs ! j))"
  using assms
proof (induction ds arbitrary: vs)
  case (Cons d ds)
  consider "d = []" | n where "n < 256" "d = dec n" using Cons.prems(1) by auto
  then show ?case
  proof cases
    case 1
    then show ?thesis using Cons by (simp add: write_empty)
  next
    case 2
    have w: "write_minor c vs (d) = vs[n := v]"
      using write_dec[OF 2(1) Cons.prems(2)] Cons.prems(3) 2(2) by auto
    have "length (vs[n := v]) = 256" using Cons.prems(2) by simp
    from Cons.IH[OF _ this Cons.prems(3)] Cons.prems(1,2) show ?thesis
      by (auto simp: w[unfolded 2(2)] 2(2) dec_inj nth_list_update)
  qed
qed simp

lemma update_exact:
  assumes "length vs = 256" "\<forall>i\<in>set ns. i < 256" "\<forall>xs. set (order xs) = set xs" "j < 256"
  shows "update_vfs_unnamed_device order vs (map dec ns) ! j \<noteq> 0 \<longleftrightarrow> j \<in> set ns"
proof -
  let ?news = "map dec ns" and ?olds = "read_vfs_unnamed_device vs"
  have olds: "\<forall>d\<in>set ?olds. d = [] \<or> (\<exists>n<256. d = dec n)" by (auto simp: read_watched watched_def)
  have in_olds: "dec i \<in> set ?olds \<longleftrightarrow> vs ! i \<noteq> 0" if "i < 256" for i
  proof -
    have "i \<in> set (watched vs) \<longleftrightarrow> vs ! i \<noteq> 0" using that by (simp add: watched_def)
    then show ?thesis by (auto simp: read_watched dec_inj)
  qed
  define rs where "rs = order (filter (\<lambda>d. d \<notin> set ?news) ?olds)"
  define as where "as = order (filter (\<lambda>d. d \<notin> set ?olds) ?news)"
  have s: "set rs = set ?olds - set ?news" "set as = set ?news - set ?olds"
    using assms(3) by (auto simp: rs_def as_def)
  define v1 where "v1 = foldl (write_minor 114) vs rs"
  have v1: "length v1 = 256" "\<forall>j<256. v1 ! j = (if dec j \<in> set rs then 0 else vs ! j)"
    using write_all[of rs vs 114 0] olds assms(1) unfolding v1_def by (auto simp: s)
  have "\<forall>d\<in>set as. d = [] \<or> (\<exists>n<256. d = dec n)" using assms(2) by (auto simp: s)
  then have "\<forall>j<256. foldl (write_minor 97) v1 as ! j
      = (if dec j \<in> set as then 1 else v1 ! j)"
    using write_all[of as v1 97 1] v1(1) by simp
  then have "update_vfs_unnamed_device order vs ?news ! j = (if dec j \<in> set as then 1 else v1 ! j)"
    using assms(4) unfolding update_vfs_unnamed_device_def Let_def v1_def rs_def as_def by simp
  moreover have "dec j \<in> set ?news \<longleftrightarrow> j \<in> set ns" by (auto simp: dec_inj)
  ultimately show ?thesis using v1(2) assms(4) in_olds[OF assms(4)] by (auto simp: s)
qed

text \<open>The file fits in a page, as the comment in the code says.\<close>

lemma join_comma_length: "length (join_comma xs) \<le> sum_list (map (\<lambda>x. length x + 1) xs)"
  by (induction xs rule: join_comma.induct) auto

lemma sum_list_bound: "\<forall>x\<in>set xs. f x \<le> (k :: nat) \<Longrightarrow> sum_list (map f xs) \<le> k * length xs"
  by (induction xs) auto

lemma show_length: "length (vfs_unnamed_devices_show vs) < 4096"
proof -
  have "\<forall>x\<in>set (map dec (watched vs)). length x + 1 \<le> 4" using length_dec(3) by (auto simp: watched_def)
  then have "sum_list (map (\<lambda>x. length x + 1) (map dec (watched vs))) \<le> 4 * length (map dec (watched vs))"
    by (rule sum_list_bound)
  moreover have "length (watched vs) \<le> 256" unfolding watched_def by (rule order_trans[OF length_filter_le]) simp
  ultimately show ?thesis using join_comma_length[of "map dec (watched vs)"] by (simp add: show_watched)
qed

end
