(* ===== verification/Vfs_Kretprobes.thy ===== *)
theory Vfs_Kretprobes
  imports Event_Machine Vfs_Sysfs
begin

text \<open>
  The kernel return probes (\<open>src/src/kernelmod/vfs_kretprobes.c\<close>, \<open>arg_extractor.c\<close>): the entry handler of
  a probed function takes an event from the slab cache and fills it, the return handler
  delivers it to the buffer of \<open>event_merge.c\<close> or frees it.

  \<open>None\<close> is an access to memory that is not there.  The dentries are reached through the argument
  registers: \<open>dentries\<close> maps an address to the dentry behind it.  A fresh object of the cache is
  a pair of its address and its old content.  The kernel's \<open>dentry_path_raw\<close> and \<open>d_path\<close> are
  parameters: the path, if it fits with its terminator in the size.
\<close>

subsection \<open>Arguments of the probed function\<close>

type_synonym u64 = "64 word"

record pt_regs =
  reg_di :: u64
  reg_si :: u64
  reg_dx :: u64
  reg_cx :: u64
  reg_r8 :: u64
  reg_r9 :: u64
  reg_ax :: u64

text \<open>The arguments on x86-64.\<close>

definition get_arg :: "pt_regs \<Rightarrow> nat \<Rightarrow> u64" where
  "get_arg regs n =
    (if n = 1 then reg_di regs else if n = 2 then reg_si regs else if n = 3 then reg_dx regs
     else if n = 4 then reg_cx regs else if n = 5 then reg_r8 regs else if n = 6 then reg_r9 regs else 0)"

definition regs_return_value :: "pt_regs \<Rightarrow> u64" where
  "regs_return_value regs = reg_ax regs"

record dentry =
  d_sb :: "u32 option"
  d_is_dir :: bool
  d_id :: nat

text \<open>\<open>current->nsproxy\<close>: the bad pointer -1, null, or a structure with the mount namespace.\<close>

datatype nsproxy = NS_BAD | NS_NULL | NS "nat option"

text \<open>The result code and \<open>target_mnt_ns\<close>.\<close>

definition init_mnt_ns_data :: "nsproxy \<Rightarrow> nat option \<Rightarrow> int \<times> nat option" where
  "init_mnt_ns_data cur target =
    (case cur of NS_BAD \<Rightarrow> (- EINVAL, target) | NS_NULL \<Rightarrow> (- EINVAL, target)
     | NS None \<Rightarrow> (- EINVAL, target) | NS (Some ns) \<Rightarrow> (0, Some ns))"

definition is_mnt_ns_valid :: "nat option \<Rightarrow> nsproxy \<Rightarrow> bool option" where
  "is_mnt_ns_valid target cur =
    (case target of None \<Rightarrow> Some False
     | Some t \<Rightarrow> (case cur of NS_BAD \<Rightarrow> None | NS_NULL \<Rightarrow> Some False | NS m \<Rightarrow> Some (m = Some t)))"

abbreviation (input) VFS_EVENT_PATH_LEN :: nat where "VFS_EVENT_PATH_LEN \<equiv> 4048"

type_synonym slab_object = "nat \<times> vfs_event"

record probe_env =
  dentries :: "u64 \<Rightarrow> dentry option"
  devices :: "byte list"
  target_mnt_ns :: "nat option"
  current_ns :: nsproxy
  dentry_path_raw :: "dentry \<Rightarrow> nat \<Rightarrow> cstring option"
  new_vfs_api :: bool

subsection \<open>Creation, deletion and links\<close>

text \<open>The entry handler returns its code and the event that it keeps in the probe instance; with a code
  other than 0 the return handler does not run.\<close>

definition common_vfs_ent :: "probe_env \<Rightarrow> slab_object option \<Rightarrow> u64 \<Rightarrow> (int \<times> slab_object option) option" where
  "common_vfs_ent env obj de =
    (if de = 0 then Some (1, None)
     else do {
       d \<leftarrow> dentries env de;
       case d_sb d of None \<Rightarrow> Some (1, None)
       | Some dev \<Rightarrow> do {
           inv \<leftarrow> IS_INVALID_DEVICE (devices env) dev;
           if inv then Some (1, None)
           else do {
             valid \<leftarrow> is_mnt_ns_valid (target_mnt_ns env) (current_ns env);
             if \<not> valid then Some (1, None)
             else case obj of None \<Rightarrow> Some (1, None)
               | Some (p, e) \<Rightarrow>
                 (case dentry_path_raw env d VFS_EVENT_PATH_LEN of
                    None \<Rightarrow> Some (1, None)
                  | Some path \<Rightarrow> Some (0, Some (p, e\<lparr>ev_dev := dev, ev_path := path, ev_cookie := 0\<rparr>))) } } })"

text \<open>The return handler: the event to deliver, or \<open>None\<close> when it is freed.\<close>

definition common_vfs_ret :: "slab_object \<Rightarrow> pt_regs \<Rightarrow> vfs_action \<Rightarrow> slab_object option" where
  "common_vfs_ret ev regs action =
    (if regs_return_value regs \<noteq> 0 then None
     else (case ev of (p, e) \<Rightarrow> Some (p, e\<lparr>ev_action := action\<rparr>)))"

datatype probe = vfs_create | vfs_unlink | vfs_mkdir | vfs_rmdir | vfs_symlink | security_inode_create | vfs_link

fun probe_action :: "probe \<Rightarrow> vfs_action" where
  "probe_action vfs_create = ACT_NEW_FILE"
| "probe_action vfs_unlink = ACT_DEL_FILE"
| "probe_action vfs_mkdir = ACT_NEW_FOLDER"
| "probe_action vfs_rmdir = ACT_DEL_FOLDER"
| "probe_action vfs_symlink = ACT_NEW_SYMLINK"
| "probe_action security_inode_create = ACT_NEW_FILE"
| "probe_action vfs_link = ACT_NEW_LINK"

text \<open>The position of the dentry; since Linux 5.12 (\<open>new_api\<close>) most functions have one argument more.\<close>

fun probe_arg :: "bool \<Rightarrow> probe \<Rightarrow> nat" where
  "probe_arg new_api security_inode_create = 2"
| "probe_arg new_api vfs_link = (if new_api then 4 else 3)"
| "probe_arg new_api _ = (if new_api then 3 else 2)"

definition on_probe_ent :: "probe_env \<Rightarrow> slab_object option \<Rightarrow> probe \<Rightarrow> pt_regs \<Rightarrow> (int \<times> slab_object option) option" where
  "on_probe_ent env obj pr regs = common_vfs_ent env obj (get_arg regs (probe_arg (new_vfs_api env) pr))"

definition on_probe_ret :: "slab_object \<Rightarrow> probe \<Rightarrow> pt_regs \<Rightarrow> slab_object option" where
  "on_probe_ret ev pr regs = common_vfs_ret ev regs (probe_action pr)"

subsection \<open>Renaming\<close>

text \<open>\<open>struct renamedata\<close> of Linux 5.12 holds the two dentries; \<open>renames\<close> maps its address to them.\<close>

definition rename_dentries :: "(u64 \<Rightarrow> (u64 \<times> u64) option) \<Rightarrow> probe_env \<Rightarrow> pt_regs \<Rightarrow> (u64 \<times> u64) option" where
  "rename_dentries renames env regs =
    (if new_vfs_api env then renames (get_arg regs 1) else Some (get_arg regs 2, get_arg regs 4))"

definition on_vfs_rename_ent :: "(u64 \<Rightarrow> (u64 \<times> u64) option) \<Rightarrow> probe_env \<Rightarrow> slab_object option \<Rightarrow> slab_object option \<Rightarrow>
    pt_regs \<Rightarrow> (int \<times> (slab_object \<times> slab_object) option) option" where
  "on_vfs_rename_ent renames env obj1 obj2 regs = do {
     (de_old, de_new) \<leftarrow> rename_dentries renames env regs;
     if de_old = 0 then Some (1, None)
     else do {
       d_old \<leftarrow> dentries env de_old;
       case d_sb d_old of None \<Rightarrow> Some (1, None)
       | Some dev \<Rightarrow>
         if de_new = 0 then Some (1, None)
         else do {
           inv \<leftarrow> IS_INVALID_DEVICE (devices env) dev;
           if inv then Some (1, None)
           else do {
             valid \<leftarrow> is_mnt_ns_valid (target_mnt_ns env) (current_ns env);
             if \<not> valid then Some (1, None)
             else case (obj1, obj2) of
               (Some (p, fe), Some (q, te)) \<Rightarrow>
                 (case dentry_path_raw env d_old VFS_EVENT_PATH_LEN of None \<Rightarrow> Some (1, None)
                  | Some from_path \<Rightarrow> do {
                      let is_dir = d_is_dir d_old;
                      let fe = fe\<lparr>ev_path := from_path, ev_dev := dev,
                        ev_action := (if is_dir then ACT_RENAME_FROM_FOLDER else ACT_RENAME_FROM_FILE)\<rparr>;
                      d_new \<leftarrow> dentries env de_new;
                      case dentry_path_raw env d_new VFS_EVENT_PATH_LEN of None \<Rightarrow> Some (1, None)
                      | Some to_path \<Rightarrow>
                        Some (0, Some ((p, fe), (q, te\<lparr>ev_path := to_path, ev_dev := dev,
                          ev_action := (if is_dir then ACT_RENAME_TO_FOLDER else ACT_RENAME_TO_FILE)\<rparr>))) })
             | _ \<Rightarrow> Some (1, None) } } } }"

text \<open>The return handler counts the cookie and delivers first \<open>fe\<close>, then \<open>te\<close>.\<close>

definition on_vfs_rename_ret :: "slab_object \<times> slab_object \<Rightarrow> pt_regs \<Rightarrow> u32 \<Rightarrow> (slab_object \<times> slab_object) option \<times> u32" where
  "on_vfs_rename_ret evs regs cookie =
    (if regs_return_value regs \<noteq> 0 then (None, cookie)
     else (case evs of ((p, fe), (q, te)) \<Rightarrow>
       let c = cookie + 1 in (Some ((p, fe\<lparr>ev_cookie := c\<rparr>), (q, te\<lparr>ev_cookie := c\<rparr>)), c)))"

subsection \<open>Mounting\<close>

abbreviation (input) DIR_NAME_MAX :: nat where "DIR_NAME_MAX \<equiv> 255"

text \<open>Since Linux 5.9 the probes of \<open>path_mount\<close> and \<open>path_umount\<close> read the folder with \<open>d_path\<close> into a buffer of
  \<open>NAME_MAX\<close> bytes.\<close>

definition on_mount_ent :: "probe_env \<Rightarrow> (u64 \<Rightarrow> nat \<Rightarrow> cstring option) \<Rightarrow> nat \<Rightarrow> pt_regs \<Rightarrow> (int \<times> cstring option) option" where
  "on_mount_ent env d_path arg regs = do {
     valid \<leftarrow> is_mnt_ns_valid (target_mnt_ns env) (current_ns env);
     if \<not> valid then Some (1, None)
     else case d_path (get_arg regs arg) DIR_NAME_MAX of None \<Rightarrow> Some (1, None)
       | Some dir_name \<Rightarrow> Some (0, Some dir_name) }"

definition on_do_mount_ent :: "probe_env \<Rightarrow> (u64 \<Rightarrow> nat \<Rightarrow> cstring option) \<Rightarrow> pt_regs \<Rightarrow> (int \<times> cstring option) option" where
  "on_do_mount_ent env d_path regs = on_mount_ent env d_path 2 regs"

definition on_sys_umount_ent :: "probe_env \<Rightarrow> (u64 \<Rightarrow> nat \<Rightarrow> cstring option) \<Rightarrow> pt_regs \<Rightarrow> (int \<times> cstring option) option" where
  "on_sys_umount_ent env d_path regs = on_mount_ent env d_path 1 regs"

text \<open>The return handler schedules work with a copy of the name (\<open>mal\<close>: \<open>kmalloc\<close> succeeds).\<close>

definition on_mount_ret :: "bool \<Rightarrow> pt_regs \<Rightarrow> cstring \<Rightarrow> cstring option" where
  "on_mount_ret mal regs dir_name =
    (if regs_return_value regs \<noteq> 0 \<or> \<not> mal then None else Some dir_name)"

definition on_do_mount_ret :: "bool \<Rightarrow> pt_regs \<Rightarrow> cstring \<Rightarrow> cstring option" where
  "on_do_mount_ret = on_mount_ret"

definition on_sys_umount_ret :: "bool \<Rightarrow> pt_regs \<Rightarrow> cstring \<Rightarrow> cstring option" where
  "on_sys_umount_ret = on_mount_ret"

text \<open>The work handlers: the event to deliver.  \<open>dev\<close> is 0 unless \<open>QUERY_DEV_ON_MOUNT\<close> is defined.\<close>

definition mount_work_handle :: "vfs_action \<Rightarrow> slab_object option \<Rightarrow> cstring \<Rightarrow> slab_object option" where
  "mount_work_handle action obj dir_name =
    (if length dir_name \<ge> VFS_EVENT_PATH_LEN then None
     else (case obj of None \<Rightarrow> None
       | Some (p, e) \<Rightarrow> Some (p, e\<lparr>ev_path := dir_name, ev_action := action, ev_cookie := 0, ev_dev := 0\<rparr>)))"

definition do_mount_work_handle :: "slab_object option \<Rightarrow> cstring \<Rightarrow> slab_object option" where
  "do_mount_work_handle = mount_work_handle ACT_MOUNT"

definition sys_umount_work_handle :: "slab_object option \<Rightarrow> cstring \<Rightarrow> slab_object option" where
  "sys_umount_work_handle = mount_work_handle ACT_UNMOUNT"

subsection \<open>Registration\<close>

text \<open>\<open>reg\<close> is the result of \<open>register_kretprobes\<close>.\<close>

definition init_vfs_kretprobes :: "nsproxy \<Rightarrow> nat option \<Rightarrow> int \<Rightarrow> int \<times> nat option" where
  "init_vfs_kretprobes cur target reg =
    (let (ret, target) = init_mnt_ns_data cur target
     in if ret \<noteq> 0 then (ret, target) else if reg < 0 then (reg, target) else (0, target))"

end
