(* ===== verification/Krp_Machine.thy ===== *)
theory Krp_Machine
  imports Vfs_Kretprobes "HOL-Library.Multiset"
begin

text \<open>
  The probes and the buffer together, as a state machine.  Any number of probed functions run at
  the same time; an instance holds its events until its function returns.  The buffer has a
  lock of its own, so the two deliveries of a rename are two steps.  Every run of this machine
  is a run of the buffer's machine (\<open>Event_Machine\<close>), whose rules are the calls the sources may
  make, as long as the counter of the cookies has not wrapped: \<open>krp_run n\<close> counts the renames, and the lemmas
  assume fewer than \<open>2\<^sup>3\<^sup>2\<close> of them.  The machine itself has no such bound.
\<close>

subsection \<open>What a delivery leaves in the cache\<close>

definition cookies :: "merge_state \<Rightarrow> u32 set" where
  "cookies s = {ev_cookie e | p e. mem s p = Some e}"

definition shrinks :: "merge_state \<Rightarrow> merge_state \<Rightarrow> bool" where
  "shrinks s s' \<longleftrightarrow> dom (mem s') \<subseteq> dom (mem s) \<and> cookies s' \<subseteq> insert 0 (cookies s)"

lemma shrinks_refl [simp]: "mem s' = mem s \<Longrightarrow> shrinks s s'"
  by (auto simp: shrinks_def cookies_def)

lemma shrinks_trans [trans]: "shrinks s t \<Longrightarrow> shrinks t u \<Longrightarrow> shrinks s u"
  unfolding shrinks_def by (metis (no_types, lifting) insert_mono insert_absorb2 order_trans)

lemma shrinks_free: "vfs_event_free s p = Some s' \<Longrightarrow> shrinks s s'"
  by (fastforce simp: vfs_event_free_def shrinks_def cookies_def split: option.splits if_splits)

lemma shrinks_update:
  assumes "update_event s p f = Some s'" "\<And>e. ev_cookie (f e) = ev_cookie e \<or> ev_cookie (f e) = 0"
  shows "shrinks s s'"
proof -
  obtain e where e: "mem s p = Some e" "s' = s\<lparr>mem := (mem s)(p \<mapsto> f e)\<rparr>"
    using assms(1) by (auto simp: update_event_def split: option.splits)
  then show ?thesis using assms(2)[of e] by (auto simp: shrinks_def cookies_def split: if_splits)
qed

lemma shrinks_retire: "update_event s p (retire a) = Some s' \<Longrightarrow> shrinks s s'"
  by (erule shrinks_update) (simp add: retire_def)

lemma shrinks_pair: "update_event s p (\<lambda>e. e\<lparr>ev_pair := q\<rparr>) = Some s' \<Longrightarrow> shrinks s s'"
  by (erule shrinks_update) simp

interpretation shrinks: delivery_relation shrinks
  by unfold_locales (auto intro: shrinks_trans shrinks_free shrinks_retire shrinks_pair)

subsection \<open>The machine\<close>

datatype inst = Probe_inst probe slab_object | Rename_inst "slab_object \<times> slab_object" | Second_inst slab_object

fun inst_objs :: "inst \<Rightarrow> nat multiset" where
  "inst_objs (Probe_inst pr ev) = {#fst ev#}"
| "inst_objs (Rename_inst evs) = {#fst (fst evs), fst (snd evs)#}"
| "inst_objs (Second_inst ev) = {#fst ev#}"

record krp_state =
  kbuf :: merge_state
  event_sync_cookie :: u32
  instances :: "inst multiset"

definition objs_of :: "inst multiset \<Rightarrow> nat multiset" where
  "objs_of I = sum_mset (image_mset inst_objs I)"

definition fresh :: "krp_state \<Rightarrow> nat \<Rightarrow> bool" where
  "fresh s p \<longleftrightarrow> mem (kbuf s) p = None \<and> p \<notin># objs_of (instances s)"

definition deliver_to :: "merge_state \<Rightarrow> slab_object \<Rightarrow> merge_state option" where
  "deliver_to b ev = do_event_merge (alloc_event b (fst ev) (snd ev)) (fst ev)"

inductive krp_step :: "krp_state \<Rightarrow> krp_state \<Rightarrow> bool" where
  probe_ent: "fresh s p \<Longrightarrow> on_probe_ent env (Some (p, g)) pr regs = Some (0, Some ev) \<Longrightarrow>
    krp_step s (s\<lparr>instances := add_mset (Probe_inst pr ev) (instances s)\<rparr>)"
| probe_ret: "instances s = add_mset (Probe_inst pr ev) I \<Longrightarrow> on_probe_ret ev pr regs = Some ev' \<Longrightarrow>
    deliver_to (kbuf s) ev' = Some b \<Longrightarrow> krp_step s (s\<lparr>kbuf := b, instances := I\<rparr>)"
| probe_fail: "instances s = add_mset (Probe_inst pr ev) I \<Longrightarrow> on_probe_ret ev pr regs = None \<Longrightarrow>
    krp_step s (s\<lparr>instances := I\<rparr>)"
| rename_ent: "fresh s p \<Longrightarrow> fresh s q \<Longrightarrow> p \<noteq> q \<Longrightarrow>
    on_vfs_rename_ent renames env (Some (p, g)) (Some (q, h)) regs = Some (0, Some evs) \<Longrightarrow>
    krp_step s (s\<lparr>instances := add_mset (Rename_inst evs) (instances s)\<rparr>)"
| rename_ret: "instances s = add_mset (Rename_inst evs) I \<Longrightarrow>
    on_vfs_rename_ret evs regs (event_sync_cookie s) = (Some (fe, te), c) \<Longrightarrow> deliver_to (kbuf s) fe = Some b \<Longrightarrow>
    krp_step s (s\<lparr>kbuf := b, event_sync_cookie := c, instances := add_mset (Second_inst te) I\<rparr>)"
| rename_second: "instances s = add_mset (Second_inst te) I \<Longrightarrow> deliver_to (kbuf s) te = Some b \<Longrightarrow>
    krp_step s (s\<lparr>kbuf := b, instances := I\<rparr>)"
| rename_fail: "instances s = add_mset (Rename_inst evs) I \<Longrightarrow>
    on_vfs_rename_ret evs regs (event_sync_cookie s) = (None, c) \<Longrightarrow>
    krp_step s (s\<lparr>event_sync_cookie := c, instances := I\<rparr>)"
| mount_work: "fresh s p \<Longrightarrow> do_mount_work_handle (Some (p, g)) dir_name = Some ev \<or>
      sys_umount_work_handle (Some (p, g)) dir_name = Some ev \<Longrightarrow>
    deliver_to (kbuf s) ev = Some b \<Longrightarrow> krp_step s (s\<lparr>kbuf := b\<rparr>)"
| krp_timer: "timer (kbuf s) \<Longrightarrow> event_timeout_notify_callback (kbuf s) = Some b \<Longrightarrow> krp_step s (s\<lparr>kbuf := b\<rparr>)"

definition krp_init :: krp_state where
  "krp_init = \<lparr>kbuf = merge_init, event_sync_cookie = 0, instances = {#}\<rparr>"

text \<open>A run in which \<open>n\<close> cookies were drawn, that is \<open>n\<close> renames have succeeded.\<close>

inductive krp_run :: "nat \<Rightarrow> krp_state \<Rightarrow> bool" where
  loaded: "krp_run 0 krp_init"
| stepped: "krp_run n s \<Longrightarrow> krp_step s s' \<Longrightarrow>
    krp_run (if event_sync_cookie s' = event_sync_cookie s then n else n + 1) s'"

lemma krp_run_exists: "krp_step\<^sup>*\<^sup>* krp_init s \<Longrightarrow> \<exists>n. krp_run n s"
  by (induction rule: rtranclp_induct) (auto intro: krp_run.intros)

subsection \<open>The invariant\<close>

fun second :: "inst \<Rightarrow> u32 multiset" where
  "second (Second_inst ev) = {#ev_cookie (snd ev)#}"
| "second _ = {#}"

fun opens :: "inst \<Rightarrow> u32 set" where
  "opens (Second_inst ev) = (if ev_action (snd ev) = ACT_RENAME_TO_FILE then {ev_cookie (snd ev)} else {})"
| "opens _ = {}"

definition open_cookies :: "inst multiset \<Rightarrow> u32 set" where
  "open_cookies I = (\<Union>i\<in>set_mset I. opens i)"

definition seconds :: "inst multiset \<Rightarrow> u32 multiset" where
  "seconds I = sum_mset (image_mset second I)"

fun inst_ok :: "inst \<Rightarrow> bool" where
  "inst_ok (Probe_inst pr ev) \<longleftrightarrow> ev_cookie (snd ev) = 0"
| "inst_ok (Rename_inst (fe, te)) \<longleftrightarrow>
     (ev_action (snd fe), ev_action (snd te)) \<in> {(ACT_RENAME_FROM_FILE, ACT_RENAME_TO_FILE), (ACT_RENAME_FROM_FOLDER, ACT_RENAME_TO_FOLDER)}"
| "inst_ok (Second_inst ev) \<longleftrightarrow> ev_action (snd ev) \<in> {ACT_RENAME_TO_FILE, ACT_RENAME_TO_FOLDER}"

definition objs_ok :: "merge_state \<Rightarrow> nat multiset \<Rightarrow> bool" where
  "objs_ok b H \<longleftrightarrow> (\<forall>p. count H p \<le> 1) \<and> (\<forall>p\<in>#H. mem b p = None)"

definition cookies_ok :: "merge_state \<Rightarrow> u32 \<Rightarrow> u32 multiset \<Rightarrow> bool" where
  "cookies_ok b ck S \<longleftrightarrow> (\<forall>c\<in>cookies b. c \<le> ck) \<and> (\<forall>c\<in>#S. 0 < c \<and> c \<le> ck) \<and> (\<forall>c. count S c \<le> 1)"

definition krp_ok :: "krp_state \<Rightarrow> bool" where
  "krp_ok s \<longleftrightarrow> reachable (kbuf s) (open_cookies (instances s)) \<and> (\<forall>i\<in>#instances s. inst_ok i)
    \<and> objs_ok (kbuf s) (objs_of (instances s)) \<and> cookies_ok (kbuf s) (event_sync_cookie s) (seconds (instances s))"

lemma opens_second: "c \<in> opens i \<Longrightarrow> c \<in># second i"
  by (cases i) (auto split: if_splits)

lemma open_seconds: "c \<in> open_cookies I \<Longrightarrow> c \<in># seconds I"
  unfolding open_cookies_def seconds_def in_Union_mset_iff by (auto dest: opens_second)

text \<open>What a delivery does to the objects and cookies.\<close>

lemma deliver_shrinks:
  assumes "deliver_to b ev = Some b'"
  shows "dom (mem b') \<subseteq> insert (fst ev) (dom (mem b))" "cookies b' \<subseteq> insert 0 (insert (ev_cookie (snd ev)) (cookies b))"
proof -
  have "shrinks (alloc_event b (fst ev) (snd ev)) b'"
    using shrinks.rel_deliver assms by (simp add: deliver_to_def)
  moreover have "dom (mem (alloc_event b (fst ev) (snd ev))) = insert (fst ev) (dom (mem b))"
    by (auto simp: alloc_event_def)
  moreover have "cookies (alloc_event b (fst ev) (snd ev)) \<subseteq> insert (ev_cookie (snd ev)) (cookies b)"
    by (auto simp: alloc_event_def cookies_def split: if_splits)
  ultimately show "dom (mem b') \<subseteq> insert (fst ev) (dom (mem b))" "cookies b' \<subseteq> insert 0 (insert (ev_cookie (snd ev)) (cookies b))"
    by (auto simp: shrinks_def)
qed

lemma objs_ok_deliver:
  assumes "objs_ok b H" "deliver_to b ev = Some b'" "fst ev \<notin># H"
  shows "objs_ok b' H"
proof -
  have "mem b' p = None" if p: "p \<in># H" for p
  proof -
    have "p \<noteq> fst ev" "p \<notin> dom (mem b)" using assms(1,3) p by (auto simp: objs_ok_def)
    then show ?thesis using deliver_shrinks(1)[OF assms(2)] by blast
  qed
  then show ?thesis using assms(1) by (simp add: objs_ok_def)
qed

lemma cookies_ok_deliver:
  assumes "cookies_ok b ck S" "deliver_to b ev = Some b'" "ev_cookie (snd ev) \<le> ck'" "ck \<le> ck'"
  shows "cookies_ok b' ck' S"
proof -
  have "c \<le> ck'" if "c \<in> cookies b'" for c
  proof -
    have "c = 0 \<or> c = ev_cookie (snd ev) \<or> c \<in> cookies b" using that deliver_shrinks(2)[OF assms(2)] by blast
    then show ?thesis using assms(1,3,4) unfolding cookies_ok_def by (metis order_trans word_zero_le)
  qed
  moreover have "0 < c \<and> c \<le> ck'" if "c \<in># S" for c using assms(1,4) that by (auto simp: cookies_ok_def intro: order_trans)
  ultimately show ?thesis using assms(1) by (simp add: cookies_ok_def)
qed

lemma cookies_ok_less: "cookies_ok b ck (S + T) \<Longrightarrow> cookies_ok b ck T"
  by (auto simp: cookies_ok_def) (metis le_add2 order_trans)

lemma objs_ok_less: "objs_ok b (H + K) \<Longrightarrow> objs_ok b K"
  by (auto simp: objs_ok_def) (metis le_add2 order_trans)

text \<open>The three kinds of delivery are rules of the buffer's machine.\<close>

lemma reachable_step: "reachable b C \<Longrightarrow> merge_step (b, C) (b', C') \<Longrightarrow> reachable b' C'"
  unfolding reachable_def by (rule rtranclp.rtrancl_into_rtrancl)

lemma deliver_other:
  assumes "reachable b C" "mem b (fst ev) = None" "deliver_to b ev = Some b'" "\<not> is_half (ev_action (snd ev))"
    and "ev_cookie (snd ev) \<notin> C"
  shows "reachable b' C"
  using assms merge_step.other_event[of b "fst ev" "snd ev"] by (auto simp: deliver_to_def intro: reachable_step)

lemma deliver_first:
  assumes "reachable b C" "mem b (fst ev) = None" "deliver_to b ev = Some b'" "ev_action (snd ev) = ACT_RENAME_FROM_FILE"
    and "ev_cookie (snd ev) \<noteq> 0" "ev_cookie (snd ev) \<notin> C" "ev_cookie (snd ev) \<notin> cookies b"
  shows "reachable b' (insert (ev_cookie (snd ev)) C)"
proof -
  have "cookie_free b (ev_cookie (snd ev))" using assms(7) by (auto simp: cookie_free_def cookies_def)
  then have "merge_step (b, C) (b', insert (ev_cookie (snd ev)) C)"
    using assms merge_step.first_half[of b "fst ev" "snd ev"] by (simp add: deliver_to_def)
  then show ?thesis using assms(1) reachable_step by blast
qed

lemma deliver_second:
  assumes "reachable b C" "mem b (fst ev) = None" "deliver_to b ev = Some b'" "ev_action (snd ev) = ACT_RENAME_TO_FILE"
    and "ev_cookie (snd ev) \<in> C"
  shows "reachable b' (C - {ev_cookie (snd ev)})"
  using assms merge_step.second_half[of b "fst ev" "snd ev"] by (auto simp: deliver_to_def intro: reachable_step)

subsection \<open>The handlers\<close>

lemma on_probe_ent_ok: "on_probe_ent env (Some (p, g)) pr regs = Some (0, Some ev) \<Longrightarrow> fst ev = p \<and> ev_cookie (snd ev) = 0"
  by (auto simp: on_probe_ent_def common_vfs_ent_def split: if_splits option.splits Option.bind_splits)

lemma on_probe_ret_ok: "on_probe_ret ev pr regs = Some ev' \<Longrightarrow>
    fst ev' = fst ev \<and> ev_cookie (snd ev') = ev_cookie (snd ev) \<and> \<not> is_half (ev_action (snd ev'))"
  by (cases pr) (auto simp: on_probe_ret_def common_vfs_ret_def is_half_def split: if_splits prod.splits)

lemma on_vfs_rename_ent_ok: "on_vfs_rename_ent renames env (Some (p, g)) (Some (q, h)) regs = Some (0, Some evs) \<Longrightarrow>
    fst (fst evs) = p \<and> fst (snd evs) = q \<and> inst_ok (Rename_inst evs)"
  by (auto simp: on_vfs_rename_ent_def Let_def split: if_splits option.splits Option.bind_splits prod.splits)

lemma on_vfs_rename_ret_ok: "on_vfs_rename_ret evs regs ck = (Some (fe, te), c) \<Longrightarrow>
    c = ck + 1 \<and> fst fe = fst (fst evs) \<and> fst te = fst (snd evs) \<and> ev_cookie (snd fe) = c \<and> ev_cookie (snd te) = c
    \<and> ev_action (snd fe) = ev_action (snd (fst evs)) \<and> ev_action (snd te) = ev_action (snd (snd evs))"
  by (auto simp: on_vfs_rename_ret_def Let_def split: if_splits prod.splits)

lemma mount_work_ok: "do_mount_work_handle (Some (p, g)) d = Some ev \<or> sys_umount_work_handle (Some (p, g)) d = Some ev \<Longrightarrow>
    fst ev = p \<and> ev_cookie (snd ev) = 0 \<and> \<not> is_half (ev_action (snd ev))"
  by (auto simp: do_mount_work_handle_def sys_umount_work_handle_def mount_work_handle_def is_half_def split: if_splits)

lemmas handler_ok = on_probe_ent_ok on_probe_ret_ok on_vfs_rename_ent_ok on_vfs_rename_ret_ok mount_work_ok

subsection \<open>Every step keeps the invariant\<close>

lemma inst_mset_simps [simp]:
  "objs_of (add_mset i I) = inst_objs i + objs_of I" "seconds (add_mset i I) = second i + seconds I"
  "open_cookies (add_mset i I) = opens i \<union> open_cookies I"
  by (simp_all add: objs_of_def seconds_def open_cookies_def)

lemma objs_ok_add: "objs_ok b H \<Longrightarrow> mem b p = None \<Longrightarrow> p \<notin># H \<Longrightarrow> objs_ok b (add_mset p H)"
  by (auto simp: objs_ok_def not_in_iff)

lemma objs_ok_drop: "objs_ok b (add_mset p H) \<Longrightarrow> objs_ok b H \<and> mem b p = None \<and> p \<notin># H"
  by (auto simp: objs_ok_def not_in_iff split: if_splits) (metis Suc_le_eq le_SucI less_Suc_eq_le not_less_eq_eq)

text \<open>A step either leaves the counter of the cookies or draws the next one; the invariant is kept unless the counter
  wraps.\<close>

lemma krp_step_cookie: "krp_step s s' \<Longrightarrow> event_sync_cookie s' = event_sync_cookie s \<or> event_sync_cookie s' = event_sync_cookie s + 1"
  by (induction rule: krp_step.induct) (auto simp: on_vfs_rename_ret_def Let_def split: if_splits prod.splits)

lemma krp_step_ok: "krp_step s s' \<Longrightarrow> event_sync_cookie s \<le> event_sync_cookie s' \<Longrightarrow> krp_ok s \<Longrightarrow> krp_ok s'"
proof (induction rule: krp_step.induct)
  case (probe_ent s p env g pr regs ev)
  have "fst ev = p" "ev_cookie (snd ev) = 0" using handler_ok(1)[OF probe_ent.hyps(2)] by simp_all
  then show ?case using probe_ent by (simp add: krp_ok_def fresh_def objs_ok_add)
next
  case (probe_ret s pr ev I regs ev' b)
  have ev': "fst ev' = fst ev" "ev_cookie (snd ev') = ev_cookie (snd ev)" "\<not> is_half (ev_action (snd ev'))"
    using handler_ok(2)[OF probe_ret.hyps(2)] by simp_all
  have ok: "reachable (kbuf s) (open_cookies I)" "\<forall>i\<in>#I. inst_ok i" "ev_cookie (snd ev) = 0"
    "objs_ok (kbuf s) (objs_of I)" "mem (kbuf s) (fst ev) = None" "fst ev \<notin># objs_of I"
    "cookies_ok (kbuf s) (event_sync_cookie s) (seconds I)"
    using probe_ret.prems probe_ret.hyps(1) by (auto simp: krp_ok_def dest: objs_ok_drop)
  have "0 \<notin> open_cookies I" using ok(7) open_seconds by (auto simp: cookies_ok_def)
  then have "reachable b (open_cookies I)"
    using deliver_other[OF ok(1) _ probe_ret.hyps(3)] ok(3,5) ev' by simp
  then show ?case
    using ok ev' objs_ok_deliver[OF ok(4) probe_ret.hyps(3)] cookies_ok_deliver[OF ok(7) probe_ret.hyps(3)]
    by (simp add: krp_ok_def)
next
  case (probe_fail s pr ev I regs)
  then show ?case by (auto simp: krp_ok_def dest: objs_ok_drop)
next
  case (rename_ent s p q renames env g h regs evs)
  have e: "fst (fst evs) = p" "fst (snd evs) = q" "inst_ok (Rename_inst evs)" using handler_ok(3)[OF rename_ent.hyps(4)] by simp_all
  have "objs_ok (kbuf s) (add_mset p (add_mset q (objs_of (instances s))))"
    using rename_ent by (intro objs_ok_add) (simp_all add: krp_ok_def fresh_def)
  then show ?case using rename_ent e by (simp add: krp_ok_def)
next
  case (rename_ret s evs I regs fe te c b)
  let ?C = "open_cookies I" and ?k = "event_sync_cookie s"
  have r: "c = ?k + 1" "fst fe = fst (fst evs)" "fst te = fst (snd evs)" "ev_cookie (snd fe) = c" "ev_cookie (snd te) = c"
    "ev_action (snd fe) = ev_action (snd (fst evs))" "ev_action (snd te) = ev_action (snd (snd evs))"
    using handler_ok(4)[OF rename_ret.hyps(2)] by simp_all
  have "objs_ok (kbuf s) (add_mset (fst fe) (add_mset (fst te) (objs_of I)))"
    using rename_ret.prems(2) rename_ret.hyps(1) r by (simp add: krp_ok_def)
  then have o: "objs_ok (kbuf s) (add_mset (fst te) (objs_of I))" "mem (kbuf s) (fst fe) = None"
    "fst fe \<notin># add_mset (fst te) (objs_of I)" using objs_ok_drop by blast+
  have ok: "reachable (kbuf s) ?C" "\<forall>i\<in>#I. inst_ok i" "inst_ok (Rename_inst evs)" "cookies_ok (kbuf s) ?k (seconds I)"
    using rename_ret.prems(2) rename_ret.hyps(1) by (simp_all add: krp_ok_def)
  have lt: "?k < c" "c \<noteq> 0"
    using rename_ret.prems(1) r(1) by (auto simp: order_less_le)
  have new: "c \<notin># seconds I" "c \<notin> cookies (kbuf s)" using ok(4) lt(1) by (auto simp: cookies_ok_def)
  then have nC: "c \<notin> ?C" using open_seconds by blast
  have "reachable b (opens (Second_inst te) \<union> ?C)"
  proof (cases "ev_action (snd fe) = ACT_RENAME_FROM_FILE")
    case True
    then have "ev_action (snd te) = ACT_RENAME_TO_FILE" using ok(3) r by (cases evs) auto
    then show ?thesis using deliver_first[OF ok(1) o(2) rename_ret.hyps(3) True] r(4,5) lt(2) nC new(2) by simp
  next
    case False
    then have "ev_action (snd te) = ACT_RENAME_TO_FOLDER" "\<not> is_half (ev_action (snd fe))"
      using ok(3) r by (cases evs; auto simp: is_half_def)+
    then show ?thesis using deliver_other[OF ok(1) o(2) rename_ret.hyps(3)] r(4) nC by simp
  qed
  moreover have "inst_ok (Second_inst te)" using ok(3) r by (cases evs) auto
  moreover have "cookies_ok b c (second (Second_inst te) + seconds I)"
  proof -
    have "cookies_ok b c (seconds I)"
      using cookies_ok_deliver[OF ok(4) rename_ret.hyps(3), of c] r(4) lt(1) by simp
    then show ?thesis using new(1) lt r(5) by (auto simp: cookies_ok_def not_in_iff word_neq_0_conv)
  qed
  ultimately show ?case
    using ok(2) objs_ok_deliver[OF o(1) rename_ret.hyps(3) o(3)] by (simp add: krp_ok_def)
next
  case (rename_second s te I b)
  let ?c = "ev_cookie (snd te)"
  have ok: "reachable (kbuf s) (opens (Second_inst te) \<union> open_cookies I)" "\<forall>i\<in>#I. inst_ok i" "inst_ok (Second_inst te)"
    "objs_ok (kbuf s) (objs_of I)" "mem (kbuf s) (fst te) = None" "fst te \<notin># objs_of I"
    "cookies_ok (kbuf s) (event_sync_cookie s) (add_mset ?c (seconds I))"
    using rename_second.prems rename_second.hyps(1) by (auto simp: krp_ok_def dest: objs_ok_drop)
  have "?c \<notin># seconds I" using ok(7) by (auto simp: cookies_ok_def not_in_iff split: if_splits)
  then have nC: "?c \<notin> open_cookies I" using open_seconds by blast
  have "reachable b (open_cookies I)"
  proof (cases "ev_action (snd te) = ACT_RENAME_TO_FILE")
    case True
    then show ?thesis using deliver_second[OF ok(1,5) rename_second.hyps(2) True] nC by simp
  next
    case False
    then have "\<not> is_half (ev_action (snd te))" using ok(3) by (auto simp: is_half_def)
    then show ?thesis using deliver_other[OF ok(1,5) rename_second.hyps(2)] nC False by simp
  qed
  moreover have "cookies_ok (kbuf s) (event_sync_cookie s) (seconds I)" using ok(7) cookies_ok_less[of _ _ "{#?c#}"] by simp
  moreover have "?c \<le> event_sync_cookie s" using ok(7) by (simp add: cookies_ok_def)
  ultimately show ?case
    using ok objs_ok_deliver[OF ok(4) rename_second.hyps(2) ok(6)] cookies_ok_deliver[OF _ rename_second.hyps(2)]
    by (simp add: krp_ok_def)
next
  case (rename_fail s evs I regs c)
  moreover from this have "c = event_sync_cookie s" by (auto simp: on_vfs_rename_ret_def Let_def split: if_splits prod.splits)
  ultimately show ?case by (auto simp: krp_ok_def dest!: objs_ok_drop)
next
  case (mount_work s p g d ev b)
  have e: "fst ev = p" "ev_cookie (snd ev) = 0" "\<not> is_half (ev_action (snd ev))" using handler_ok(5)[OF mount_work.hyps(2)] by simp_all
  have c: "cookies_ok (kbuf s) (event_sync_cookie s) (seconds (instances s))" and r: "reachable (kbuf s) (open_cookies (instances s))"
    and o: "objs_ok (kbuf s) (objs_of (instances s))" using mount_work.prems by (simp_all add: krp_ok_def)
  have "0 \<notin> open_cookies (instances s)" using c open_seconds by (auto simp: cookies_ok_def)
  then have "reachable b (open_cookies (instances s))"
    using deliver_other[OF r _ mount_work.hyps(3)] mount_work.hyps(1) e by (simp add: fresh_def)
  then show ?case
    using mount_work.prems mount_work.hyps(1) e objs_ok_deliver[OF o mount_work.hyps(3)] cookies_ok_deliver[OF c mount_work.hyps(3)]
    by (simp add: krp_ok_def fresh_def)
next
  case (krp_timer s b)
  have "shrinks (kbuf s) b" by (rule shrinks.rel_timer[OF krp_timer.hyps(2)])
  then have "objs_ok b (objs_of (instances s))" "cookies_ok b (event_sync_cookie s) (seconds (instances s))"
    using krp_timer.prems by (auto simp: krp_ok_def objs_ok_def cookies_ok_def shrinks_def)
  then show ?case
    using krp_timer reachable_step[OF _ merge_step.timer_fires[OF krp_timer.hyps]] by (simp add: krp_ok_def)
qed

lemma krp_run_ok: "krp_run n s \<Longrightarrow> n < 2 ^ 32 \<Longrightarrow> krp_ok s \<and> unat (event_sync_cookie s) = n"
proof (induction rule: krp_run.induct)
  case loaded
  have "reachable merge_init {}" by (simp add: reachable_def)
  then show ?case
    by (simp add: krp_ok_def krp_init_def objs_ok_def cookies_ok_def objs_of_def seconds_def open_cookies_def cookies_def merge_init_def)
next
  case (stepped n s s')
  let ?k = "event_sync_cookie s" and ?k' = "event_sync_cookie s'"
  have s: "krp_ok s" "unat ?k = n" using stepped.IH stepped.prems by (simp_all split: if_splits)
  have k: "?k' = ?k \<or> ?k' \<noteq> ?k \<and> unat ?k' = n + 1"
    using krp_step_cookie[OF stepped.hyps(2)] stepped.prems s(2) by (auto simp: unat_word_ariths)
  then have "?k \<le> ?k'" using s(2) by (auto simp: word_le_nat_alt)
  then show ?case using krp_step_ok[OF stepped.hyps(2) _ s(1)] k s(2) by auto
qed

end
