(* ===== verification/Vfs_Genl.thy ===== *)
theory Vfs_Genl
  imports Event_Merge Index_Base Vfs_Sysfs
begin

text \<open>
  The way of an event to the server: the generic-netlink message of the kernel module
  (\<open>src/src/kernelmod/vfs_genl.c\<close>) and its handler \<open>EventSource_GENL\<close>
  (\<open>src/src/server/backend/eventsource_genl.cpp\<close>), which joins the halves of a rename and puts
  the mount point in front of the path.
\<close>

subsection \<open>The message\<close>

type_synonym nlattr = "nat \<times> byte list"

abbreviation (input) VFSMONITOR_A_ACT :: nat where "VFSMONITOR_A_ACT \<equiv> 1"
abbreviation (input) VFSMONITOR_A_COOKIE :: nat where "VFSMONITOR_A_COOKIE \<equiv> 2"
abbreviation (input) VFSMONITOR_A_MAJOR :: nat where "VFSMONITOR_A_MAJOR \<equiv> 3"
abbreviation (input) VFSMONITOR_A_MINOR :: nat where "VFSMONITOR_A_MINOR \<equiv> 4"
abbreviation (input) VFSMONITOR_A_PATH :: nat where "VFSMONITOR_A_PATH \<equiv> 5"

abbreviation (input) ENOMEM :: int where "ENOMEM \<equiv> 12"
abbreviation (input) EMSGSIZE :: int where "EMSGSIZE \<equiv> 90"

text \<open>An attribute takes a header of four bytes and its padded payload; \<open>left\<close> is the free room.\<close>

definition nla_total_size :: "nat \<Rightarrow> nat" where
  "nla_total_size n = 4 * ((4 + n + 3) div 4)"

definition nla_put :: "nat \<times> nlattr list \<Rightarrow> nat \<Rightarrow> byte list \<Rightarrow> int \<times> nat \<times> nlattr list" where
  "nla_put m ty bs = (case m of (left, as) \<Rightarrow>
     if nla_total_size (length bs) \<le> left then (0, left - nla_total_size (length bs), as @ [(ty, bs)])
     else (- EMSGSIZE, left, as))"

text \<open>The result code and the message that is multicast.  \<open>skb\<close> is the room for attributes in the new
  message, \<open>None\<close> when there is no memory; \<open>put_ok\<close>: the header fits.\<close>

definition vfs_notify_dentry_event :: "nat option \<Rightarrow> bool \<Rightarrow> vfs_event \<Rightarrow> int \<times> nlattr list option" where
  "vfs_notify_dentry_event skb put_ok e =
    (case skb of None \<Rightarrow> (- ENOMEM, None)
     | Some left \<Rightarrow>
       if \<not> put_ok then (- ENOMEM, None)
       else let (rc, m) = nla_put (left, []) VFSMONITOR_A_ACT [of_nat (act_code (ev_action e))] in
         if rc \<noteq> 0 then (rc, None)
         else let (rc, m) = nla_put m VFSMONITOR_A_COOKIE (le32 (ev_cookie e)) in
           if rc \<noteq> 0 then (rc, None)
           else let (rc, m) = nla_put m VFSMONITOR_A_MAJOR (take 2 (le32 (MAJOR (ev_dev e)))) in
             if rc \<noteq> 0 then (rc, None)
             else let (rc, m) = nla_put m VFSMONITOR_A_MINOR (take 1 (le32 (MINOR (ev_dev e)))) in
               if rc \<noteq> 0 then (rc, None)
               else let (rc, m) = nla_put m VFSMONITOR_A_PATH (ev_path e @ [0]) in
                 if rc \<noteq> 0 then (rc, None) else (0, Some (snd m)))"

subsection \<open>Receiving\<close>

text \<open>\<open>genlmsg_parse\<close> with the policy: the minimal sizes of the integers, a terminated string of at most
  4096 bytes; the last attribute of a type counts.\<close>

definition policy_ok :: "nlattr \<Rightarrow> bool" where
  "policy_ok a = (case a of (ty, bs) \<Rightarrow>
     if ty = VFSMONITOR_A_ACT \<or> ty = VFSMONITOR_A_MINOR then 1 \<le> length bs
     else if ty = VFSMONITOR_A_COOKIE then 4 \<le> length bs
     else if ty = VFSMONITOR_A_MAJOR then 2 \<le> length bs
     else if ty = VFSMONITOR_A_PATH then bs \<noteq> [] \<and> last bs = 0 \<and> length bs \<le> 4096
     else True)"

definition genlmsg_parse :: "nlattr list \<Rightarrow> (nat \<rightharpoonup> byte list) option" where
  "genlmsg_parse msg = (if list_all policy_ok msg then Some (map_of (rev msg)) else None)"

record genl_source =
  rename_from :: "u32 \<Rightarrow> cstring option"
  partitions :: "u32 \<Rightarrow> cstring option"
  new_msg :: bool
  act :: nat
  src :: cstring
  dst :: "cstring option"

abbreviation (input) MSG_BUF_SIZE :: nat where "MSG_BUF_SIZE \<equiv> 8192"

definition MKDEV :: "u32 \<Rightarrow> u32 \<Rightarrow> u32" where
  "MKDEV ma mi = push_bit 8 ma OR mi"

definition saveData :: "genl_source \<Rightarrow> nat \<Rightarrow> cstring option \<Rightarrow> cstring \<Rightarrow> cstring option \<Rightarrow> bool \<times> genl_source" where
  "saveData g a root s d =
    (let r = (case root of None \<Rightarrow> [] | Some r \<Rightarrow> r)
     in case d of
       Some d \<Rightarrow> if length r * 2 + length s + length d + 2 > MSG_BUF_SIZE then (False, g)
                 else (True, g\<lparr>act := a, src := r @ s, dst := Some (r @ d)\<rparr>)
     | None \<Rightarrow> if length r + length s + 1 > MSG_BUF_SIZE then (False, g)
               else (True, g\<lparr>act := a, src := r @ s, dst := None\<rparr>))"

text \<open>One line of \<open>/proc/self/mountinfo\<close>: major, minor, root, mount point, type.\<close>

type_synonym mount_line = "u32 \<times> u32 \<times> cstring \<times> cstring \<times> cstring"

definition fuse_dlnfs :: cstring where
  "fuse_dlnfs = [102, 117, 115, 101, 46, 100, 108, 110, 102, 115]"

fun partition_lines :: "mount_line list \<Rightarrow> (u32 \<Rightarrow> cstring option) \<Rightarrow> cstring list \<Rightarrow>
    (u32 \<Rightarrow> cstring option) \<times> cstring list" where
  "partition_lines [] ps dlnfs = (ps, dlnfs)"
| "partition_lines ((major, minor, root, mp, ty) # ls) ps dlnfs =
    (if major = 0 \<and> ty \<noteq> fuse_dlnfs then partition_lines ls ps dlnfs
     else if root = [47] then
       partition_lines ls (ps(MKDEV major minor \<mapsto> mp))
         (if major = 0 \<and> ty = fuse_dlnfs then List.insert (dec (unat minor)) dlnfs else dlnfs)
     else partition_lines ls ps dlnfs)"

text \<open>\<open>None\<close> for the mount lines: the file cannot be opened.  The second component is the set of watched
  devices in the kernel.\<close>

definition updatePartitions :: "(cstring list \<Rightarrow> cstring list) \<Rightarrow> mount_line list option \<Rightarrow> genl_source \<Rightarrow> devices \<Rightarrow>
    genl_source \<times> devices" where
  "updatePartitions order mounts g vs =
    (case mounts of None \<Rightarrow> (g, vs)
     | Some ls \<Rightarrow> let (ps, news) = partition_lines ls Map.empty [] in
         (g\<lparr>partitions := ps\<rparr>, update_vfs_unnamed_device order vs news))"

text \<open>\<open>handleMsg\<close>.  \<open>None\<close>: the second half of a rename whose first half is unknown reads \<open>_dst\<close>, which is
  not initialised.  \<open>upd\<close> is the call of \<open>updatePartitions\<close>.\<close>

definition handleMsg :: "(genl_source \<Rightarrow> genl_source) \<Rightarrow> nlattr list \<Rightarrow> genl_source \<Rightarrow> genl_source option" where
  "handleMsg upd msg g =
    (let g = g\<lparr>new_msg := False\<rparr>
     in case genlmsg_parse msg of None \<Rightarrow> Some g
      | Some attrs \<Rightarrow>
        (case (attrs VFSMONITOR_A_ACT, attrs VFSMONITOR_A_COOKIE, attrs VFSMONITOR_A_MAJOR,
               attrs VFSMONITOR_A_MINOR, attrs VFSMONITOR_A_PATH) of
          (Some ab, Some cb, Some mab, Some mib, Some pb) \<Rightarrow> do {
            let a = unat (hd ab);
            let cookie = unle32 (cb ! 0) (cb ! 1) (cb ! 2) (cb ! 3);
            let dev = MKDEV (unle32 (mab ! 0) (mab ! 1) 0 0) (ucast (hd mib));
            s \<leftarrow> cstr_of pb;
            if a < 12 \<and> partitions g dev = None then Some g
            else do {
              let root = (if a < 12 then partitions g dev else None);
              let root = (if root = Some [47] then None else root);
              if a < 6 then
                (let (ok, g) = saveData g a root s None in Some (g\<lparr>new_msg := ok\<rparr>))
              else if a = 8 \<or> a = 10 then Some (g\<lparr>rename_from := (rename_from g)(cookie \<mapsto> s)\<rparr>)
              else if a = 9 \<or> a = 11 then
                (case rename_from g cookie of
                   None \<Rightarrow> None
                 | Some from_path \<Rightarrow>
                   let (ok, g) = saveData g (if a = 9 then 6 else 7) root from_path (Some s)
                   in Some (g\<lparr>new_msg := ok, rename_from := (rename_from g)(cookie := None)\<rparr>))
              else if a = 12 \<or> a = 13 then Some (upd g)
              else Some g } }
        | _ \<Rightarrow> Some g))"

definition getEvent :: "(genl_source \<Rightarrow> genl_source) \<Rightarrow> nlattr list option \<Rightarrow> genl_source \<Rightarrow>
    ((nat \<times> cstring \<times> cstring option) option \<times> genl_source) option" where
  "getEvent upd received g = do {
     g \<leftarrow> (case received of None \<Rightarrow> Some g | Some msg \<Rightarrow> handleMsg upd msg g);
     Some (if new_msg g then Some (act g, src g, dst g) else None, g) }"

subsection \<open>The message arrives\<close>

lemma take_le32: "take 2 (le32 w) = [ucast w, ucast (drop_bit 8 w)]" "take 1 (le32 w) = [ucast w]"
  by (simp_all add: le32_def numeral_2_eq_2)

definition sendable :: "vfs_event \<Rightarrow> bool" where
  "sendable e \<longleftrightarrow> is_cstr (ev_path e) \<and> length (ev_path e) < 4096 \<and> MAJOR (ev_dev e) < 65536 \<and> MINOR (ev_dev e) < 256"

definition room_for :: "vfs_event \<Rightarrow> nat \<Rightarrow> bool" where
  "room_for e left \<longleftrightarrow> 32 + nla_total_size (length (ev_path e) + 1) \<le> left"

text \<open>The attributes of an event, and what the handler reads from them.\<close>

definition msg_of :: "vfs_event \<Rightarrow> nlattr list" where
  "msg_of e = [(1, [of_nat (act_code (ev_action e))]), (2, le32 (ev_cookie e)), (3, take 2 (le32 (MAJOR (ev_dev e)))),
     (4, take 1 (le32 (MINOR (ev_dev e)))), (5, ev_path e @ [0])]"

lemma notify_msg:
  assumes "room_for e left"
  shows "vfs_notify_dentry_event (Some left) True e = (0, Some (msg_of e))"
proof -
  have r: "32 + nla_total_size (length (ev_path e) + 1) \<le> left" using assms by (simp add: room_for_def)
  then have "nla_total_size (length (ev_path e) + 1) \<le> left - 32" by simp
  moreover have "8 \<le> left" "8 \<le> left - 8" "8 \<le> left - 16" "8 \<le> left - 24" using r by simp_all
  moreover have "nla_total_size 1 = 8" "nla_total_size 4 = 8" "nla_total_size 2 = 8" "nla_total_size (Suc (Suc 0)) = 8" "nla_total_size (Suc (Suc (Suc (Suc 0)))) = 8" by (simp_all add: nla_total_size_def)
  ultimately show ?thesis
    by (simp add: vfs_notify_dentry_event_def nla_put_def msg_of_def take_le32 le32_def)
qed

lemma parse_msg:
  assumes "sendable e"
  shows "genlmsg_parse (msg_of e) = Some (map_of (rev (msg_of e)))"
  using assms by (simp add: genlmsg_parse_def msg_of_def policy_ok_def take_le32 sendable_def le32_def)

lemma attr_msg:
  "map_of (rev (msg_of e)) 1 = Some [of_nat (act_code (ev_action e))]"
  "map_of (rev (msg_of e)) (Suc 0) = Some [of_nat (act_code (ev_action e))]"
  "map_of (rev (msg_of e)) 2 = Some (le32 (ev_cookie e))"
  "map_of (rev (msg_of e)) 3 = Some (take 2 (le32 (MAJOR (ev_dev e))))"
  "map_of (rev (msg_of e)) 4 = Some (take 1 (le32 (MINOR (ev_dev e))))"
  "map_of (rev (msg_of e)) 5 = Some (ev_path e @ [0])"
  by (simp_all add: msg_of_def)

lemma cookie_back: "unle32 (le32 w ! 0) (le32 w ! 1) (le32 w ! 2) (le32 w ! 3) = w"
  by (simp add: le32_def unle32_le32)

lemma take_bit_small: "unat w < 2 ^ n \<Longrightarrow> take_bit n w = (w :: u32)"
  by (simp add: word_unat_eq_iff unsigned_take_bit_eq take_bit_nat_eq_self)

lemma major_back:
  assumes "w < 65536"
  shows "unle32 (take 2 (le32 w) ! 0) (take 2 (le32 w) ! 1) 0 0 = w"
proof -
  have t: "take_bit 16 w = w" by (rule take_bit_small) (use assms in \<open>simp add: word_less_nat_alt\<close>)
  have "drop_bit 16 (take_bit 16 w) = 0" "drop_bit 24 (take_bit 16 w) = 0"
    by (auto intro!: bit_eqI simp: bit_simps)
  then have "drop_bit 16 w = 0" "drop_bit 24 w = 0" unfolding t by simp_all
  then show ?thesis using unle32_le32[of w] by (simp add: take_le32)
qed

lemma minor_back:
  assumes "w < 256"
  shows "ucast (hd (take 1 (le32 w))) = (w :: u32)"
proof -
  have t: "take_bit 8 w = w" by (rule take_bit_small) (use assms in \<open>simp add: word_less_nat_alt\<close>)
  have "ucast (ucast w :: byte) = (take_bit 8 w :: u32)" by (auto intro!: bit_eqI simp: bit_simps)
  then show ?thesis unfolding take_le32 t by simp
qed

lemma act_back: "unat (of_nat (act_code a) :: byte) = act_code a"
  by (cases a) simp_all

definition dev_of :: "vfs_event \<Rightarrow> u32" where
  "dev_of e = MKDEV (MAJOR (ev_dev e)) (MINOR (ev_dev e))"

definition root_of :: "genl_source \<Rightarrow> vfs_event \<Rightarrow> cstring option" where
  "root_of g e = (if act_code (ev_action e) < 12 \<and> partitions g (dev_of e) \<noteq> Some [47] then partitions g (dev_of e) else None)"

text \<open>What the handler does with the message of an event.\<close>

lemma handle_event:
  assumes "sendable e" "partitions g (dev_of e) \<noteq> None"
  shows "handleMsg upd (msg_of e) g =
    (let a = act_code (ev_action e); g = g\<lparr>new_msg := False\<rparr>; root = root_of g e in
     if a < 6 then (let (ok, g) = saveData g a root (ev_path e) None in Some (g\<lparr>new_msg := ok\<rparr>))
     else if a = 8 \<or> a = 10 then Some (g\<lparr>rename_from := (rename_from g)(ev_cookie e \<mapsto> ev_path e)\<rparr>)
     else if a = 9 \<or> a = 11 then
       (case rename_from g (ev_cookie e) of None \<Rightarrow> None
        | Some from_path \<Rightarrow>
          let (ok, g) = saveData g (if a = 9 then 6 else 7) root from_path (Some (ev_path e))
          in Some (g\<lparr>new_msg := ok, rename_from := (rename_from g)(ev_cookie e := None)\<rparr>))
     else if a = 12 \<or> a = 13 then Some (upd g)
     else Some g)"
proof -
  have c: "cstr_of (ev_path e @ [0]) = Some (ev_path e)"
    using assms(1) cstr_of_split[of "ev_path e" "[]"] by (simp add: sendable_def)
  have m: "MAJOR (ev_dev e) < 65536" "MINOR (ev_dev e) < 256" using assms(1) by (simp_all add: sendable_def)
  obtain p where p: "partitions g (dev_of e) = Some p" using assms(2) by blast
  have r: "root_of (g\<lparr>new_msg := False\<rparr>) e = root_of g e" by (simp add: root_of_def)
  show ?thesis
    unfolding handleMsg_def parse_msg[OF assms(1)] Let_def option.case attr_msg prod.case cookie_back
      major_back[OF m(1)] minor_back[OF m(2)] dev_of_def[symmetric] c Option.bind_lunit r
    using p by (cases "ev_action e"; cases "rename_from g (ev_cookie e)") (simp_all add: act_back root_of_def)
qed

end
