(* ===== verification/Kernel_Claims.thy ===== *)
theory Kernel_Claims
  imports Krp_Machine Vfs_Genl Event_Claims
begin

text \<open>
  The correctness of the sources of events and of their way to the server.
\<close>

subsection \<open>The watched devices\<close>

text \<open>C18: the watched devices.  For wanted minor numbers below 256 (a larger one is stored modulo 256), the
  server's update through the file sets exactly these numbers in the kernel, in whatever order the sets are iterated,
  and the file of the kernel fits into a page.\<close>

theorem unnamed_devices_updated:
  assumes "length vs = 256" "\<forall>i\<in>set ns. i < 256" "\<forall>xs. set (order xs) = set xs" "j < 256"
  shows "(update_vfs_unnamed_device order vs (map dec ns) ! j \<noteq> 0 \<longleftrightarrow> j \<in> set ns)
    \<and> length (vfs_unnamed_devices_show (update_vfs_unnamed_device order vs (map dec ns))) < 4096"
  using update_exact[OF assms] show_length by blast

theorem unnamed_devices_updated_witness:
  "(update_vfs_unnamed_device rev ((replicate 256 0)[3 := 1, 40 := 1]) (map dec [40, 200]) ! 200 \<noteq> 0)
    \<and> length (vfs_unnamed_devices_show (update_vfs_unnamed_device rev ((replicate 256 0)[3 := 1, 40 := 1]) (map dec [40, 200]))) < 4096"
proof -
  define vs where "vs = (replicate 256 (0 :: byte))[3 := 1, 40 := 1]"
  have l: "length vs = 256" by (simp add: vs_def)
  show ?thesis using unnamed_devices_updated[OF l, of "[40, 200]" rev 200] unfolding vs_def[symmetric] by simp
qed

subsection \<open>From the kernel to the server\<close>

definition full :: "genl_source \<Rightarrow> vfs_event \<Rightarrow> cstring \<Rightarrow> cstring" where
  "full g e path = (case root_of g e of None \<Rightarrow> path | Some r \<Rightarrow> r @ path)"

text \<open>C24: a rename reaches the server.  If the mount point of the device is known, the numbers of the
  device fit into the message and the paths into the buffers, then the messages of the two
  halves, sent and handled one after the other, make \<open>getEvent\<close> return one rename event with
  both paths below the mount point, and the entry for the cookie is gone.\<close>

theorem rename_reaches_server:
  assumes "sendable fe" "sendable te" "room_for fe left" "room_for te left"
    and "ev_action fe = ACT_RENAME_FROM_FILE" "ev_action te = ACT_RENAME_TO_FILE"
    and "ev_cookie te = ev_cookie fe" "ev_dev te = ev_dev fe" "partitions g (dev_of fe) \<noteq> None"
    and "length (full g fe (ev_path fe)) + length (full g fe (ev_path te)) + 2 \<le> 8192"
  shows "\<exists>m1 m2 g1 g2. vfs_notify_dentry_event (Some left) True fe = (0, Some m1)
    \<and> vfs_notify_dentry_event (Some left) True te = (0, Some m2)
    \<and> getEvent upd (Some m1) g = Some (None, g1)
    \<and> getEvent upd (Some m2) g1
        = Some (Some (6, full g fe (ev_path fe), Some (full g fe (ev_path te))), g2)
    \<and> rename_from g2 (ev_cookie fe) = None"
proof -
  define g1 where "g1 = g\<lparr>new_msg := False, rename_from := (rename_from g)(ev_cookie fe \<mapsto> ev_path fe)\<rparr>"
  have g1: "g1\<lparr>new_msg := False\<rparr> = g1" "rename_from g1 (ev_cookie fe) = Some (ev_path fe)" "partitions g1 = partitions g"
    "new_msg g1 = False" by (simp_all add: g1_def)
  have d: "dev_of te = dev_of fe" using assms(8) by (simp add: dev_of_def)
  have h1: "handleMsg upd (msg_of fe) g = Some g1"
    using handle_event[OF assms(1,9), of upd] assms(5) by (simp add: Let_def g1_def)
  have p1: "partitions g1 (dev_of te) \<noteq> None" using assms(9) d g1(3) by simp
  have r: "root_of g1 te = root_of g fe" using d assms(5,6) g1(3) by (simp add: root_of_def)
  obtain g2 where s: "saveData g1 6 (root_of g fe) (ev_path fe) (Some (ev_path te)) = (True, g2)"
    "act g2 = 6" "src g2 = full g fe (ev_path fe)" "dst g2 = Some (full g fe (ev_path te))"
    using assms(10) by (cases "root_of g fe") (auto simp: saveData_def full_def Let_def)
  have "handleMsg upd (msg_of te) g1 = Some (g2\<lparr>new_msg := True, rename_from := (rename_from g2)(ev_cookie fe := None)\<rparr>)"
    using handle_event[OF assms(2) p1, of upd] assms(6,7) unfolding Let_def g1(1) r by (simp add: g1(2) s(1))
  then have "getEvent upd (Some (msg_of te)) g1 = Some (Some (6, full g fe (ev_path fe), Some (full g fe (ev_path te))),
      g2\<lparr>new_msg := True, rename_from := (rename_from g2)(ev_cookie fe := None)\<rparr>)"
    using s by (simp add: getEvent_def)
  moreover have "getEvent upd (Some (msg_of fe)) g = Some (None, g1)" using h1 g1(4) by (simp add: getEvent_def)
  ultimately show ?thesis
    by (intro exI[of _ "msg_of fe"] exI[of _ "msg_of te"] exI[of _ g1]
        exI[of _ "g2\<lparr>new_msg := True, rename_from := (rename_from g2)(ev_cookie fe := None)\<rparr>"])
      (simp add: notify_msg[OF assms(3)] notify_msg[OF assms(4)])
qed

definition sample_source :: genl_source where
  "sample_source = \<lparr>rename_from = Map.empty, partitions = [MKDEV 8 1 \<mapsto> [47, 104]], new_msg = False, act = 255, src = [], dst = None\<rparr>"

definition sample_event :: "vfs_action \<Rightarrow> cstring \<Rightarrow> vfs_event" where
  "sample_event a path = \<lparr>ev_action = a, ev_cookie = 5, ev_dev = 8388609, ev_path = path, ev_pair = None\<rparr>"

lemma sample_event_facts:
  assumes "is_cstr path" "length path < 100"
  shows "sendable (sample_event a path)" "room_for (sample_event a path) 200"
    "dev_of (sample_event a path) = MKDEV 8 1" "partitions sample_source (dev_of (sample_event a path)) = Some [47, 104]"
proof -
  have "MAJOR 8388609 = 8" "MINOR 8388609 = 1" by code_simp+
  then show d: "dev_of (sample_event a path) = MKDEV 8 1" and "sendable (sample_event a path)"
    using assms by (simp_all add: dev_of_def sample_event_def sendable_def)
  show "partitions sample_source (dev_of (sample_event a path)) = Some [47, 104]" unfolding d by (simp add: sample_source_def)
  have "4 * ((4 + (length path + 1) + 3) div 4) \<le> 168" using assms(2) by simp
  then show "room_for (sample_event a path) 200" by (simp add: room_for_def nla_total_size_def sample_event_def)
qed

theorem rename_reaches_server_witness:
  "\<exists>m1 m2 g1 g2. vfs_notify_dentry_event (Some 200) True (sample_event ACT_RENAME_FROM_FILE [47, 97]) = (0, Some m1)
    \<and> vfs_notify_dentry_event (Some 200) True (sample_event ACT_RENAME_TO_FILE [47, 98]) = (0, Some m2)
    \<and> getEvent id (Some m1) sample_source = Some (None, g1)
    \<and> getEvent id (Some m2) g1 = Some (Some (6, [47, 104, 47, 97], Some [47, 104, 47, 98]), g2)
    \<and> rename_from g2 5 = None"
proof -
  let ?fe = "sample_event ACT_RENAME_FROM_FILE [47, 97]" and ?te = "sample_event ACT_RENAME_TO_FILE [47, 98]"
  have p: "is_cstr [47, 97]" "is_cstr [47, 98]" by (simp_all add: is_cstr_def)
  have f: "full sample_source ?fe x = [47, 104] @ x" for x
    using sample_event_facts(4)[OF p(1), of ACT_RENAME_FROM_FILE] by (simp add: full_def root_of_def sample_event_def)
  have e: "ev_action ?fe = ACT_RENAME_FROM_FILE" "ev_action ?te = ACT_RENAME_TO_FILE" "ev_cookie ?te = ev_cookie ?fe"
    "ev_dev ?te = ev_dev ?fe" "ev_cookie ?fe = 5" "ev_path ?fe = [47, 97]" "ev_path ?te = [47, 98]" by (simp_all add: sample_event_def)
  show ?thesis
    using rename_reaches_server[of ?fe ?te 200 sample_source id] sample_event_facts[OF p(1)] sample_event_facts[OF p(2)]
    by (simp add: f e)
qed

text \<open>A defect.  The second half of a rename whose first half the server has not seen (it was sent
  before the server joined the group, or was lost) makes \<open>handleMsg\<close> use \<open>_dst\<close>, which has no
  value.\<close>

lemma unpaired_rename_is_undefined:
  assumes "sendable e" "partitions g (dev_of e) \<noteq> None" "ev_action e = ACT_RENAME_TO_FILE"
    and "rename_from g (ev_cookie e) = None"
  shows "handleMsg upd (msg_of e) g = None"
  using handle_event[OF assms(1,2), of upd] assms(3,4) by (simp add: Let_def)

subsection \<open>The probes\<close>

text \<open>C14: every run of the probes in which fewer than \<open>2\<^sup>3\<^sup>2\<close> renames have succeeded, so that the 32-bit counter of the
  cookies has not wrapped, with any number of probed functions running at the same time, is a
  run of the buffer's state machine, so the properties of the buffer hold for it.  The object of
  every running function is its own and not in the buffer, and the objects that are allocated
  besides are those in the buffer: none is lost and none is used twice.\<close>

theorem probes_refine_buffer:
  assumes "krp_run n s" "n < 2 ^ 32"
  shows "reachable (kbuf s) (open_cookies (instances s)) \<and> dom (mem (kbuf s)) = set (vfs_events (kbuf s))
    \<and> (\<forall>p. count (objs_of (instances s)) p \<le> 1) \<and> (\<forall>p\<in>#objs_of (instances s). mem (kbuf s) p = None)"
proof -
  have ok: "krp_ok s" using krp_run_ok[OF assms] by simp
  then have r: "reachable (kbuf s) (open_cookies (instances s))" by (simp add: krp_ok_def)
  then have "merge_ok (kbuf s)" using reachable_ok by (simp add: machine_ok_def)
  then show ?thesis using r ok by (simp add: krp_ok_def objs_ok_def merge_ok_def)
qed

definition sample_env :: probe_env where
  "sample_env = \<lparr>dentries = [16 \<mapsto> \<lparr>d_sb = Some 8388609, d_is_dir = False, d_id = 0\<rparr>], devices = replicate 256 0,
     target_mnt_ns = Some 1, current_ns = NS (Some 1), dentry_path_raw = (\<lambda>d n. Some [47, 97]), new_vfs_api = False\<rparr>"

definition sample_regs :: pt_regs where
  "sample_regs = \<lparr>reg_di = 0, reg_si = 16, reg_dx = 0, reg_cx = 0, reg_r8 = 0, reg_r9 = 0, reg_ax = 0\<rparr>"

definition sample_krp :: krp_state where
  "sample_krp = krp_init\<lparr>instances := {#Probe_inst vfs_create (7, sample_event ACT_MOUNT [47, 97]\<lparr>ev_cookie := 0\<rparr>)#}\<rparr>"

lemma sample_krp_run: "krp_run 0 sample_krp"
proof -
  have "IS_INVALID_DEVICE (replicate 256 0) 8388609 = Some False"
    unfolding IS_INVALID_DEVICE_def by (subst if_P) (code_simp, rule refl)
  then have "on_probe_ent sample_env (Some (7, sample_event ACT_MOUNT [])) vfs_create sample_regs
      = Some (0, Some (7, sample_event ACT_MOUNT [47, 97]\<lparr>ev_cookie := 0\<rparr>))"
    by (simp add: on_probe_ent_def common_vfs_ent_def sample_env_def sample_regs_def get_arg_def is_mnt_ns_valid_def sample_event_def)
  moreover have "fresh krp_init 7" by (simp add: fresh_def krp_init_def merge_init_def objs_of_def)
  ultimately have "krp_step krp_init sample_krp"
    using krp_step.probe_ent[of krp_init 7] unfolding sample_krp_def by (fastforce simp: krp_init_def)
  from krp_run.stepped[OF krp_run.loaded this] show ?thesis by (simp add: sample_krp_def)
qed

theorem probes_refine_buffer_witness:
  "reachable (kbuf sample_krp) (open_cookies (instances sample_krp)) \<and> dom (mem (kbuf sample_krp)) = set (vfs_events (kbuf sample_krp))
    \<and> count (objs_of (instances sample_krp)) 7 \<le> 1 \<and> mem (kbuf sample_krp) 7 = None"
proof -
  have "7 \<in># objs_of (instances sample_krp)" by (simp add: sample_krp_def objs_of_def)
  then show ?thesis using probes_refine_buffer[OF sample_krp_run] by auto
qed

lemma deliver_safe:
  assumes "krp_ok s" "instances s = add_mset i I" "fst ev \<in># inst_objs i"
    and "ev_action (snd ev) = ACT_RENAME_TO_FILE \<Longrightarrow> ev_cookie (snd ev) \<in> open_cookies (instances s)"
  shows "deliver_to (kbuf s) ev \<noteq> None"
proof -
  have r: "reachable (kbuf s) (open_cookies (instances s))" and "fst ev \<in># objs_of (instances s)"
    using assms(1-3) by (simp_all add: krp_ok_def)
  then have "mem (kbuf s) (fst ev) = None" using assms(1) by (simp add: krp_ok_def objs_ok_def)
  then show ?thesis using reachable_step_ok[OF r, of "fst ev" "snd ev"] assms(4) by (auto simp: deliver_to_def)
qed

text \<open>C35: no handler that returns faults: in every state that the probes can reach while fewer than \<open>2\<^sup>3\<^sup>2\<close>
  renames have succeeded, the event that the return handler of a running function delivers is taken by the buffer.\<close>

theorem probes_never_fault:
  assumes "krp_run n s" "n < 2 ^ 32" "instances s = add_mset i I"
  shows "case i of
      Probe_inst pr ev \<Rightarrow> (\<forall>regs ev'. on_probe_ret ev pr regs = Some ev' \<longrightarrow> deliver_to (kbuf s) ev' \<noteq> None)
    | Rename_inst evs \<Rightarrow> (\<forall>regs fe te c. on_vfs_rename_ret evs regs (event_sync_cookie s) = (Some (fe, te), c)
        \<longrightarrow> deliver_to (kbuf s) fe \<noteq> None)
    | Second_inst te \<Rightarrow> deliver_to (kbuf s) te \<noteq> None"
proof -
  have ok: "krp_ok s" using krp_run_ok[OF assms(1,2)] by simp
  then have iok: "inst_ok i" using assms(3) by (simp add: krp_ok_def)
  show ?thesis
  proof (cases i)
    case (Probe_inst pr ev)
    have "deliver_to (kbuf s) ev' \<noteq> None" if "on_probe_ret ev pr regs = Some ev'" for regs ev'
      using handler_ok(2)[OF that] Probe_inst by (intro deliver_safe[OF ok assms(3)]) (auto simp: is_half_def)
    then show ?thesis using Probe_inst by simp
  next
    case (Rename_inst evs)
    have "deliver_to (kbuf s) fe \<noteq> None" if "on_vfs_rename_ret evs regs (event_sync_cookie s) = (Some (fe, te), c)" for regs fe te c
      using handler_ok(4)[OF that] Rename_inst iok by (intro deliver_safe[OF ok assms(3)]; cases evs) auto
    then show ?thesis using Rename_inst by simp
  next
    case (Second_inst te)
    have "deliver_to (kbuf s) te \<noteq> None"
      using Second_inst assms(3) by (intro deliver_safe[OF ok assms(3)]) simp_all
    then show ?thesis using Second_inst by simp
  qed
qed


theorem probes_never_fault_witness:
  "\<exists>ev. on_probe_ret (7, sample_event ACT_MOUNT [47, 97]\<lparr>ev_cookie := 0\<rparr>) vfs_create sample_regs = Some ev
    \<and> deliver_to (kbuf sample_krp) ev \<noteq> None"
proof -
  let ?e = "(7, sample_event ACT_MOUNT [47, 97]\<lparr>ev_cookie := 0\<rparr>)"
  have i: "instances sample_krp = add_mset (Probe_inst vfs_create ?e) {#}" by (simp add: sample_krp_def)
  obtain ev where ev: "on_probe_ret ?e vfs_create sample_regs = Some ev"
    by (simp add: on_probe_ret_def common_vfs_ret_def regs_return_value_def sample_regs_def)
  have "\<forall>regs ev'. on_probe_ret ?e vfs_create regs = Some ev' \<longrightarrow> deliver_to (kbuf sample_krp) ev' \<noteq> None"
    using probes_never_fault[OF sample_krp_run _ i] by simp
  then show ?thesis using ev by blast
qed

end
