(* ===== verification/Vfs_Fsnotify.thy ===== *)
theory Vfs_Fsnotify
  imports Vfs_Kretprobes
begin

text \<open>
  The second source of events: the listeners of the file notifications
  (\<open>src/src/kernelmod/vfs_fsnotify.c\<close>), built for kernels with \<open>CONFIG_FSNOTIFY_BROADCAST\<close>.

  The path of an event is built inside the event: \<open>dentry_path_raw\<close> of the kernel writes the path of
  the folder right-aligned in front of the place for the name.  It is the parameter \<open>raw\<close>: from a
  dentry, the size and the bytes of the buffer it makes the position of the path and the new bytes,
  or \<open>None\<close> when the path does not fit.
  Every handler returns \<open>None\<close> for a fault, \<open>Some None\<close> when no event is delivered and
  \<open>Some (Some ev)\<close> for the event that it hands to \<open>vfs_changed_entry\<close>.
\<close>

subsection \<open>The flags\<close>

text \<open>A mask is the set of its bits.\<close>

datatype fs_flag = FS_CREATE | FS_DELETE | FS_MOVED_FROM | FS_MOVED_TO | FS_MOUNT_DIR | FS_UNMOUNT_DIR | FS_ISDIR | FS_OTHER

definition TARGET_EVENT :: "fs_flag set" where
  "TARGET_EVENT = {FS_DELETE, FS_UNMOUNT_DIR, FS_MOUNT_DIR, FS_CREATE, FS_MOVED_FROM, FS_MOVED_TO}"

type_synonym raw_path = "dentry \<Rightarrow> int \<Rightarrow> byte list \<Rightarrow> (nat \<times> byte list) option"

subsection \<open>The handlers\<close>

text \<open>\<open>on_mount\<close> and \<open>on_unmount\<close>; the device is 0 unless \<open>QUERY_DEV_ON_MOUNT\<close> is defined.\<close>

definition on_mount :: "probe_env \<Rightarrow> slab_object option \<Rightarrow> cstring \<Rightarrow> slab_object option option" where
  "on_mount env obj dir_name = do {
     valid \<leftarrow> is_mnt_ns_valid (target_mnt_ns env) (current_ns env);
     if \<not> valid then Some None
     else if length dir_name \<ge> VFS_EVENT_PATH_LEN then Some None
     else case obj of None \<Rightarrow> Some None
       | Some (p, e) \<Rightarrow> Some (Some (p, e\<lparr>ev_path := dir_name, ev_action := ACT_MOUNT, ev_cookie := 0, ev_dev := 0\<rparr>)) }"

definition on_unmount :: "probe_env \<Rightarrow> slab_object option \<Rightarrow> cstring \<Rightarrow> slab_object option option" where
  "on_unmount env obj dir_name = do {
     valid \<leftarrow> is_mnt_ns_valid (target_mnt_ns env) (current_ns env);
     if \<not> valid then Some None
     else if length dir_name \<ge> VFS_EVENT_PATH_LEN then Some None
     else case obj of None \<Rightarrow> Some None
       | Some (p, e) \<Rightarrow> Some (Some (p, e\<lparr>ev_path := dir_name, ev_action := ACT_UNMOUNT, ev_cookie := 0, ev_dev := 0\<rparr>)) }"

text \<open>\<open>mem\<close> are the bytes of the fresh event's buffer.\<close>

definition on_dentry_op :: "raw_path \<Rightarrow> byte list \<Rightarrow> slab_object option \<Rightarrow> vfs_action \<Rightarrow> dentry \<Rightarrow> cstring \<Rightarrow> u32 \<Rightarrow>
    slab_object option option" where
  "on_dentry_op raw buf obj action p_dentry file_name cookie =
    (case obj of None \<Rightarrow> Some None
     | Some (p, e) \<Rightarrow>
       let file_name_len = length file_name;
           dentry_path_size = int VFS_EVENT_PATH_LEN - int file_name_len - 1
       in case raw p_dentry dentry_path_size buf of None \<Rightarrow> Some None
        | Some (pos, buf) \<Rightarrow> do {
            let write_pos = nat (dentry_path_size - 1);
            c \<leftarrow> rd8 buf (pos + 1);
            (write_pos, buf) \<leftarrow> (if c \<noteq> 0 then do { buf \<leftarrow> wr8 buf write_pos slash; Some (write_pos + 1, buf) }
              else Some (write_pos, buf));
            buf \<leftarrow> put_bytes buf write_pos (file_name @ [0]);
            path \<leftarrow> cstr_at buf pos;
            dev \<leftarrow> d_sb p_dentry;
            Some (Some (p, e\<lparr>ev_path := path, ev_action := action, ev_cookie := cookie, ev_dev := dev\<rparr>)) })"

text \<open>An inode: the device of its file system and the first dentry of its list.\<close>

record fs_inode =
  i_sb_dev :: u32
  i_dentry_first :: "dentry option"

definition on_file_op :: "raw_path \<Rightarrow> byte list \<Rightarrow> slab_object option \<Rightarrow> vfs_action \<Rightarrow> fs_inode \<Rightarrow> cstring \<Rightarrow> u32 \<Rightarrow>
    slab_object option option" where
  "on_file_op raw buf obj action p_inode file_name cookie =
    (case i_dentry_first p_inode of None \<Rightarrow> Some None
     | Some de \<Rightarrow> on_dentry_op raw buf obj action de file_name cookie)"

definition fsnotify_event_handler :: "raw_path \<Rightarrow> probe_env \<Rightarrow> byte list \<Rightarrow> slab_object option \<Rightarrow> fs_inode \<Rightarrow> fs_flag set \<Rightarrow>
    cstring \<Rightarrow> u32 \<Rightarrow> slab_object option option" where
  "fsnotify_event_handler raw env buf obj to_tell fs_mask file_name cookie =
    (let m = fs_mask \<inter> TARGET_EVENT; dir = FS_ISDIR \<in> fs_mask in
     if m = {FS_CREATE} then on_file_op raw buf obj (if dir then ACT_NEW_FOLDER else ACT_NEW_FILE) to_tell file_name cookie
     else if m = {FS_DELETE} then on_file_op raw buf obj (if dir then ACT_DEL_FOLDER else ACT_DEL_FILE) to_tell file_name cookie
     else if m = {FS_MOVED_FROM} then
       on_file_op raw buf obj (if dir then ACT_RENAME_FROM_FOLDER else ACT_RENAME_FROM_FILE) to_tell file_name cookie
     else if m = {FS_MOVED_TO} then
       on_file_op raw buf obj (if dir then ACT_RENAME_TO_FOLDER else ACT_RENAME_TO_FILE) to_tell file_name cookie
     else if m = {FS_MOUNT_DIR} then on_mount env obj file_name
     else if m = {FS_UNMOUNT_DIR} then on_unmount env obj file_name
     else Some None)"

subsection \<open>The listeners\<close>

definition fsnotify_broadcast_listener :: "raw_path \<Rightarrow> probe_env \<Rightarrow> byte list \<Rightarrow> slab_object option \<Rightarrow> fs_inode option \<Rightarrow>
    fs_flag set \<Rightarrow> bool \<Rightarrow> cstring option \<Rightarrow> u32 \<Rightarrow> slab_object option option" where
  "fsnotify_broadcast_listener raw env buf obj to_tell fs_mask data_is_inode file_name cookie =
    (case (to_tell, file_name) of
       (Some i, Some name) \<Rightarrow>
         if \<not> data_is_inode then Some None
         else do {
           inv \<leftarrow> IS_INVALID_DEVICE (devices env) (i_sb_dev i);
           if inv \<or> fs_mask \<inter> TARGET_EVENT = {} then Some None
           else do {
             valid \<leftarrow> is_mnt_ns_valid (target_mnt_ns env) (current_ns env);
             if \<not> valid then Some None
             else fsnotify_event_handler raw env buf obj i fs_mask name cookie } }
     | _ \<Rightarrow> Some None)"

text \<open>\<open>dget_parent\<close> gives the inode of the parent, \<open>name\<close> is the snapshot of the dentry's name.\<close>

definition fsnotify_parent_broadcast_listener :: "raw_path \<Rightarrow> probe_env \<Rightarrow> byte list \<Rightarrow> slab_object option \<Rightarrow>
    (dentry \<Rightarrow> fs_inode) \<Rightarrow> (dentry \<Rightarrow> cstring option) \<Rightarrow> dentry \<Rightarrow> fs_flag set \<Rightarrow> fs_inode option \<Rightarrow> slab_object option option" where
  "fsnotify_parent_broadcast_listener raw env buf obj dget_parent name de fs_mask p_inode = do {
     dev \<leftarrow> d_sb de;
     inv \<leftarrow> IS_INVALID_DEVICE (devices env) dev;
     if inv \<or> fs_mask \<inter> TARGET_EVENT = {} then Some None
     else do {
       valid \<leftarrow> is_mnt_ns_valid (target_mnt_ns env) (current_ns env);
       if \<not> valid then Some None
       else (let i = (case p_inode of None \<Rightarrow> dget_parent de | Some i \<Rightarrow> i) in
         case name de of None \<Rightarrow> Some None
         | Some n \<Rightarrow> fsnotify_event_handler raw env buf obj i fs_mask n 0) } }"

text \<open>\<open>reg\<close> is the result of \<open>fsnotify_reg_listener\<close>.\<close>

definition init_vfs_fsnotify :: "nsproxy \<Rightarrow> nat option \<Rightarrow> int \<Rightarrow> int \<times> nat option" where
  "init_vfs_fsnotify cur target reg =
    (let (ret, target) = init_mnt_ns_data cur target
     in if ret \<noteq> 0 then (ret, target) else (reg, target))"

subsection \<open>The path of the event\<close>

text \<open>What the kernel documents of \<open>dentry_path_raw\<close>: the path and its terminator stand at the end of the
  first \<open>n\<close> bytes, the bytes behind them are unchanged; if they do not fit, it fails.\<close>

definition raw_ok :: "raw_path \<Rightarrow> (dentry \<Rightarrow> cstring) \<Rightarrow> bool" where
  "raw_ok raw path_of \<longleftrightarrow> (\<forall>d n buf. n \<le> int (length buf) \<longrightarrow>
     (if int (length (path_of d)) + 1 > n then raw d n buf = None
      else \<exists>front. raw d n buf = Some (length front, front @ path_of d @ 0 # drop (nat n) buf)
        \<and> int (length front) + int (length (path_of d)) + 1 = n))"

text \<open>The path of a folder: absolute, and only the root ends with a slash.\<close>

definition dir_path :: "cstring \<Rightarrow> bool" where
  "dir_path s \<longleftrightarrow> is_cstr s \<and> s \<noteq> [] \<and> hd s = slash"

definition below :: "cstring \<Rightarrow> cstring \<Rightarrow> cstring" where
  "below dir name = (if dir = [slash] then slash # name else dir @ slash # name)"

lemma dentry_op_path:
  assumes "raw_ok raw path_of" "length buf = VFS_EVENT_PATH_LEN" "dir_path (path_of d)" "is_cstr name" "d_sb d = Some dev"
  shows "on_dentry_op raw buf (Some (p, e)) action d name cookie = Some
    (if length (path_of d) + length name + 2 \<le> VFS_EVENT_PATH_LEN
     then Some (p, e\<lparr>ev_path := below (path_of d) name, ev_action := action, ev_cookie := cookie, ev_dev := dev\<rparr>) else None)"
proof (cases "length (path_of d) + length name + 2 \<le> VFS_EVENT_PATH_LEN")
  case False
  let ?n = "int VFS_EVENT_PATH_LEN - int (length name) - 1"
  have "?n \<le> int (length buf)" "int (length (path_of d)) + 1 > ?n" using False assms(2) by simp_all
  then have "raw d ?n buf = None" using assms(1) unfolding raw_ok_def by presburger
  then show ?thesis using False by (simp add: on_dentry_op_def)
next
  case True
  define n where "n = int VFS_EVENT_PATH_LEN - int (length name) - 1"
  have "n \<le> int (length buf)" "\<not> int (length (path_of d)) + 1 > n" using True assms(2) by (simp_all add: n_def)
  then obtain front where f: "raw d n buf = Some (length front, front @ path_of d @ 0 # drop (nat n) buf)"
    "int (length front) + int (length (path_of d)) + 1 = n"
    using assms(1)[unfolded raw_ok_def, rule_format, of n buf d] by auto
  define rest where "rest = drop (nat n) buf"
  have l: "length rest = length name + 1" using assms(2) True by (simp add: rest_def n_def)
  obtain bs b where b: "rest = bs @ [b]" "length bs = length name" using l by (cases rest rule: rev_cases) auto
  have w: "nat (n - 1) = length (front @ path_of d)" using f(2) by simp
  have c: "is_cstr (path_of d)" using assms(3) by (simp add: dir_path_def)
  show ?thesis
  proof (cases "path_of d = [slash]")
    case root: True
    have r: "rd8 (front @ path_of d @ 0 # rest) (length front + 1) = Some 0"
      using rd8_split[of "front @ [slash]" "length front + 1" 0 rest] root by simp
    have u: "put_bytes (front @ path_of d @ 0 # rest) (nat (n - 1)) (name @ [0]) = Some (front @ (slash # name) @ 0 # [b])"
      using put_bytes_split[of "front @ [slash]" "nat (n - 1)" "0 # bs" "name @ [0]" "[b]"] w b root by simp
    have "cstr_at (front @ (slash # name) @ 0 # [b]) (length front) = Some (slash # name)"
      by (rule cstr_at_split) (use assms(4) in \<open>simp_all add: is_cstr_def\<close>)
    then show ?thesis using True f(1) r u assms(5) root unfolding n_def rest_def
      by (simp add: on_dentry_op_def below_def del: append_assoc append_Cons)
  next
    case False
    obtain x y ps where ps: "path_of d = x # y # ps" "y \<noteq> 0"
      using False assms(3) by (cases "path_of d" rule: remdups_adj.cases) (auto simp: dir_path_def is_cstr_def)
    have r: "rd8 (front @ path_of d @ 0 # rest) (length front + 1) = Some y"
      using rd8_split[of "front @ [x]" "length front + 1" y "ps @ 0 # rest"] ps(1) by simp
    have v: "wr8 (front @ path_of d @ 0 # rest) (nat (n - 1)) slash = Some (front @ path_of d @ slash # rest)"
      using wr8_split[of "front @ path_of d" "nat (n - 1)" 0 rest slash] w by simp
    have u: "put_bytes (front @ path_of d @ slash # rest) (nat (n - 1) + 1) (name @ [0]) = Some (front @ (path_of d @ slash # name) @ 0 # [])"
      using put_bytes_split[of "front @ path_of d @ [slash]" "nat (n - 1) + 1" rest "name @ [0]" "[]"] w l by simp
    have "cstr_at (front @ (path_of d @ slash # name) @ 0 # []) (length front) = Some (path_of d @ slash # name)"
      by (rule cstr_at_split) (use assms(4) c in \<open>simp_all add: is_cstr_def\<close>)
    then show ?thesis using True f(1) r v u ps(2) assms(5) False unfolding n_def rest_def
      by (simp add: on_dentry_op_def below_def del: append_assoc append_Cons)
  qed
qed

text \<open>The action of a notification about a name in a folder.\<close>

fun fs_action :: "fs_flag \<Rightarrow> bool \<Rightarrow> vfs_action option" where
  "fs_action FS_CREATE dir = Some (if dir then ACT_NEW_FOLDER else ACT_NEW_FILE)"
| "fs_action FS_DELETE dir = Some (if dir then ACT_DEL_FOLDER else ACT_DEL_FILE)"
| "fs_action FS_MOVED_FROM dir = Some (if dir then ACT_RENAME_FROM_FOLDER else ACT_RENAME_FROM_FILE)"
| "fs_action FS_MOVED_TO dir = Some (if dir then ACT_RENAME_TO_FOLDER else ACT_RENAME_TO_FILE)"
| "fs_action _ dir = None"

lemma handler_action:
  assumes "fs_mask \<inter> TARGET_EVENT = {f}" "fs_action f (FS_ISDIR \<in> fs_mask) = Some action"
  shows "fsnotify_event_handler raw env buf obj i fs_mask name cookie = on_file_op raw buf obj action i name cookie"
  using assms(2) unfolding fsnotify_event_handler_def Let_def assms(1) by (cases f) (auto split: if_splits)

lemma broadcast_event:
  assumes "raw_ok raw path_of" "length buf = VFS_EVENT_PATH_LEN"
    and "IS_INVALID_DEVICE (devices env) (i_sb_dev i) = Some False" "is_mnt_ns_valid (target_mnt_ns env) (current_ns env) = Some True"
    and "i_dentry_first i = Some d" "d_sb d = Some dev" "dir_path (path_of d)" "is_cstr name"
    and "fs_mask \<inter> TARGET_EVENT = {f}" "fs_action f (FS_ISDIR \<in> fs_mask) = Some action"
  shows "fsnotify_broadcast_listener raw env buf (Some (p, e)) (Some i) fs_mask True (Some name) cookie = Some
    (if length (path_of d) + length name + 2 \<le> VFS_EVENT_PATH_LEN
     then Some (p, e\<lparr>ev_path := below (path_of d) name, ev_action := action, ev_cookie := cookie, ev_dev := dev\<rparr>) else None)"
proof -
  have "fsnotify_broadcast_listener raw env buf (Some (p, e)) (Some i) fs_mask True (Some name) cookie
      = fsnotify_event_handler raw env buf (Some (p, e)) i fs_mask name cookie"
    unfolding fsnotify_broadcast_listener_def by (simp add: assms(3,4,9))
  also have "\<dots> = on_dentry_op raw buf (Some (p, e)) action d name cookie"
    unfolding handler_action[OF assms(9,10)] by (simp add: on_file_op_def assms(5))
  finally show ?thesis using dentry_op_path[OF assms(1,2,7,8,6)] by simp
qed

subsection \<open>The two sources of events\<close>

text \<open>The notification of the kernel that belongs to a probed function: \<open>fsnotify_create\<close> is called for
  a file, a symbolic link, a device and (as \<open>fsnotify_link\<close>) for a hard link.  \<open>security_inode_create\<close> is probed for the
  files that \<open>open\<close> creates without \<open>vfs_create\<close>.\<close>

fun probe_notice :: "probe \<Rightarrow> fs_flag set" where
  "probe_notice vfs_create = {FS_CREATE}"
| "probe_notice vfs_unlink = {FS_DELETE}"
| "probe_notice vfs_mkdir = {FS_CREATE, FS_ISDIR}"
| "probe_notice vfs_rmdir = {FS_DELETE, FS_ISDIR}"
| "probe_notice vfs_symlink = {FS_CREATE}"
| "probe_notice security_inode_create = {FS_CREATE}"
| "probe_notice vfs_link = {FS_CREATE}"

text \<open>The kind under which the listener reports what a probe reports: it cannot tell links from files.\<close>

fun noticed_as :: "vfs_action \<Rightarrow> vfs_action" where
  "noticed_as ACT_NEW_LINK = ACT_NEW_FILE"
| "noticed_as ACT_NEW_SYMLINK = ACT_NEW_FILE"
| "noticed_as a = a"

lemma probe_notice_action:
  obtains f where "probe_notice pr \<inter> TARGET_EVENT = {f}"
    "fs_action f (FS_ISDIR \<in> probe_notice pr) = Some (noticed_as (probe_action pr))"
  by (cases pr) (force simp: TARGET_EVENT_def)+

end
