(* ===== verification/Vfs_Module.thy ===== *)
theory Vfs_Module
  imports Krp_Machine Vfs_Genl Vfs_Fsnotify Event_Claims
begin

text \<open>
  Loading and unloading of the kernel module (\<open>src/src/kernelmod/module.c\<close>, with the set-up functions of
  \<open>event.c\<close>, \<open>vfs_sysfs.c\<close>, \<open>vfs_genl.c\<close> and of the two sources of events).
  The state says which resources of the kernel the module holds; the results of the calls that
  acquire them are the fields of \<open>load_env\<close>.  Unloading is a machine, because the callback of the timer runs beside it.
\<close>

record mod_state =
  kobj :: bool
  sysfs_file :: bool
  event_cache :: bool
  genl_family :: bool
  event_source :: bool
  mod_mnt_ns :: "nat option"

record load_env =
  kobj_made :: bool
  sysfs_error :: int
  cache_made :: bool
  genl_error :: int
  source_result :: int
  load_ns :: nsproxy
  fsnotify_broadcast :: bool

definition nothing_held :: mod_state where
  "nothing_held = \<lparr>kobj = False, sysfs_file = False, event_cache = False, genl_family = False, event_source = False, mod_mnt_ns = None\<rparr>"

definition vfs_init_sysfs :: "load_env \<Rightarrow> mod_state \<Rightarrow> int \<times> mod_state" where
  "vfs_init_sysfs env m =
    (if \<not> kobj_made env then (- ENOMEM, m)
     else let m = m\<lparr>kobj := True\<rparr> in
       if sysfs_error env \<noteq> 0 then (sysfs_error env, m) else (0, m\<lparr>sysfs_file := True\<rparr>))"

definition vfs_exit_sysfs :: "mod_state \<Rightarrow> mod_state" where
  "vfs_exit_sysfs m = m\<lparr>kobj := False, sysfs_file := False\<rparr>"

definition init_vfs_event_cache :: "load_env \<Rightarrow> mod_state \<Rightarrow> int \<times> mod_state" where
  "init_vfs_event_cache env m = (if \<not> cache_made env then (- ENOMEM, m) else (0, m\<lparr>event_cache := True\<rparr>))"

definition cleanup_vfs_event_cache :: "mod_state \<Rightarrow> mod_state" where
  "cleanup_vfs_event_cache m = m\<lparr>event_cache := False\<rparr>"

definition init_vfs_genl :: "load_env \<Rightarrow> mod_state \<Rightarrow> int \<times> mod_state" where
  "init_vfs_genl env m = (genl_error env, m\<lparr>genl_family := (genl_error env = 0)\<rparr>)"

definition cleanup_vfs_genl :: "mod_state \<Rightarrow> mod_state" where
  "cleanup_vfs_genl m = m\<lparr>genl_family := False\<rparr>"

text \<open>The registration of the chosen source; both undo a registration that fails half-way.\<close>

definition init_event_source :: "load_env \<Rightarrow> mod_state \<Rightarrow> int \<times> mod_state" where
  "init_event_source env m =
    (let (ret, ns) = (if fsnotify_broadcast env then init_vfs_fsnotify (load_ns env) (mod_mnt_ns m) (source_result env)
       else init_vfs_kretprobes (load_ns env) (mod_mnt_ns m) (source_result env))
     in (ret, m\<lparr>mod_mnt_ns := ns, event_source := (ret = 0)\<rparr>))"

definition vfs_monitor_init_module :: "load_env \<Rightarrow> mod_state \<Rightarrow> int \<times> mod_state" where
  "vfs_monitor_init_module env m =
    (let (ret, m) = vfs_init_sysfs env m in
     if ret \<noteq> 0 then (ret, m)
     else let (ret, m) = init_vfs_event_cache env m in
       if ret \<noteq> 0 then (ret, vfs_exit_sysfs m)
       else let (ret, m) = init_vfs_genl env m in
         if ret \<noteq> 0 then (ret, vfs_exit_sysfs (cleanup_vfs_event_cache m))
         else let (ret, m) = init_event_source env m in
           if ret \<noteq> 0 then (ret, vfs_exit_sysfs (cleanup_vfs_event_cache (cleanup_vfs_genl m)))
           else (0, m))"

text \<open>Unloading.  \<open>Asleep\<close>: the source of events is unregistered and the caller sleeps; \<open>Emptying\<close>: the loop of
  \<open>clearup_event_merge\<close>, which only reads the number of events; \<open>Unloaded\<close>: the resources are
  released.  The callback of the timer runs beside it: it takes events from the list under the lock, then sends
  and frees them without it.  \<open>sending\<close> are the events that it still has to send.  The kernel does not call the handlers
  of an unregistered probe any more, so nothing is delivered, and the objects of the probed functions that
  are still running stay where they are.\<close>

datatype unload_pc = Asleep | Emptying | Unloaded

record unload_state =
  upc :: unload_pc
  ubuf :: merge_state
  sending :: "nat list option"
  resources :: mod_state

definition vfs_monitor_cleanup_module :: "mod_state \<Rightarrow> merge_state \<Rightarrow> unload_state" where
  "vfs_monitor_cleanup_module m b = \<lparr>upc = Asleep, ubuf = b, sending = None, resources = m\<lparr>event_source := False\<rparr>\<rparr>"

text \<open>With more than 100 events the callback runs past its array: it has no step then.\<close>

inductive unload_step :: "unload_state \<Rightarrow> unload_state \<Rightarrow> bool" where
  woken: "upc u = Asleep \<Longrightarrow> unload_step u (u\<lparr>upc := Emptying, ubuf := (ubuf u)\<lparr>quit := True\<rparr>\<rparr>)"
| polled: "upc u = Emptying \<Longrightarrow> events_number (ubuf u) = 0 \<Longrightarrow>
    unload_step u (u\<lparr>upc := Unloaded, resources := vfs_exit_sysfs (cleanup_vfs_event_cache (cleanup_vfs_genl (resources u)))\<rparr>)"
| fires: "upc u \<noteq> Unloaded \<Longrightarrow> sending u = None \<Longrightarrow> timer (ubuf u) \<Longrightarrow>
    pick_events ((ubuf u)\<lparr>timer := False\<rparr>) = Some (b, ts) \<Longrightarrow> length ts \<le> MERGE_BUFFER_SIZE \<Longrightarrow>
    unload_step u (u\<lparr>ubuf := b, sending := (if ts = [] then None else Some ts)\<rparr>)"
| sends: "upc u \<noteq> Unloaded \<Longrightarrow> sending u = Some (p # ts) \<Longrightarrow> notify_loop [p] (ubuf u) = Some b \<Longrightarrow>
    unload_step u (u\<lparr>ubuf := b, sending := Some ts\<rparr>)"
| finishes: "upc u \<noteq> Unloaded \<Longrightarrow> sending u = Some [] \<Longrightarrow>
    unload_step u (u\<lparr>ubuf := (if events_number (ubuf u) \<ge> 1 then (ubuf u)\<lparr>timer := True\<rparr> else ubuf u), sending := None\<rparr>)"

subsection \<open>Loading\<close>

definition all_held :: "mod_state \<Rightarrow> bool" where
  "all_held m \<longleftrightarrow> kobj m \<and> sysfs_file m \<and> event_cache m \<and> genl_family m \<and> event_source m \<and> mod_mnt_ns m \<noteq> None"

definition held :: "mod_state \<Rightarrow> bool list" where
  "held m = [kobj m, sysfs_file m, event_cache m, genl_family m, event_source m]"

lemma source_ns: "init_event_source env m = (0, m') \<Longrightarrow> mod_mnt_ns m' \<noteq> None"
  by (auto simp: init_event_source_def init_vfs_fsnotify_def init_vfs_kretprobes_def init_mnt_ns_data_def
      split: if_splits nsproxy.splits option.splits)

lemma source_frame:
  "init_event_source env m = (ret, m') \<Longrightarrow>
    m' = m\<lparr>mod_mnt_ns := mod_mnt_ns m', event_source := (ret = 0)\<rparr>"
  by (auto simp: init_event_source_def split: prod.splits)

lemma init_result:
  assumes "vfs_monitor_init_module env nothing_held = (ret, m)"
  shows "if ret = 0 then all_held m
    else held m = [kobj_made env \<and> sysfs_error env \<noteq> 0, False, False, False, False]"
proof -
  define m1 where "m1 = nothing_held\<lparr>kobj := True, sysfs_file := True, event_cache := True, genl_family := True\<rparr>"
  obtain r m2 where s: "init_event_source env m1 = (r, m2)" by fastforce
  have m2: "m2 = m1\<lparr>mod_mnt_ns := mod_mnt_ns m2, event_source := (r = 0)\<rparr>" by (rule source_frame[OF s])
  have f: "kobj m2" "sysfs_file m2" "event_cache m2" "genl_family m2" "event_source m2 = (r = 0)"
    by (subst m2; simp add: m1_def)+
  have n: "r = 0 \<Longrightarrow> mod_mnt_ns m2 \<noteq> None" using source_ns s by blast
  have m1: "nothing_held\<lparr>kobj := True, sysfs_file := True, event_cache := True, genl_family := genl_error env = 0\<rparr> = m1" if "genl_error env = 0"
    using that by (simp add: m1_def)
  consider (no_obj) "\<not> kobj_made env" | (no_file) "kobj_made env" "sysfs_error env \<noteq> 0"
    | (no_cache) "kobj_made env" "sysfs_error env = 0" "\<not> cache_made env"
    | (no_genl) "kobj_made env" "sysfs_error env = 0" "cache_made env" "genl_error env \<noteq> 0"
    | (loaded) "kobj_made env" "sysfs_error env = 0" "cache_made env" "genl_error env = 0" by blast
  then show ?thesis
  proof cases
    case loaded
    then have "vfs_monitor_init_module env nothing_held =
        (if r \<noteq> 0 then (r, vfs_exit_sysfs (cleanup_vfs_event_cache (cleanup_vfs_genl m2))) else (0, m2))"
      using m1 s by (simp add: vfs_monitor_init_module_def vfs_init_sysfs_def init_vfs_event_cache_def init_vfs_genl_def)
    then show ?thesis using assms f n loaded
      by (auto simp: all_held_def held_def vfs_exit_sysfs_def cleanup_vfs_event_cache_def cleanup_vfs_genl_def split: if_splits)
  qed (use assms in \<open>auto simp: vfs_monitor_init_module_def vfs_init_sysfs_def init_vfs_event_cache_def init_vfs_genl_def
      vfs_exit_sysfs_def cleanup_vfs_event_cache_def held_def nothing_held_def\<close>)
qed

subsection \<open>Unloading\<close>

definition in_flight :: "unload_state \<Rightarrow> nat list" where
  "in_flight u = (case sending u of None \<Rightarrow> [] | Some ts \<Rightarrow> ts)"

definition unload_ok :: "nat \<Rightarrow> unload_state \<Rightarrow> bool" where
  "unload_ok k u \<longleftrightarrow> send_ok (ubuf u) (in_flight u) \<and> quit (ubuf u) = (upc u \<noteq> Asleep)
    \<and> length (notified (ubuf u)) + length (vfs_events (ubuf u)) + length (in_flight u) = k
    \<and> (upc u = Unloaded \<longrightarrow> vfs_events (ubuf u) = [] \<and> held (resources u) = [False, False, False, False, False])
    \<and> \<not> event_source (resources u)"

text \<open>Sending one event frees it.\<close>

lemma send_one:
  assumes "send_ok s (p # ts)"
  shows "\<exists>b. notify_loop [p] s = Some b \<and> send_ok b ts \<and> vfs_events b = vfs_events s \<and> quit b = quit s
    \<and> length (notified b) = length (notified s) + 1"
proof -
  have d: "distinct (vfs_events s @ p # ts)" "dom (mem s) = set (vfs_events s) \<union> set (p # ts)"
    and l: "links (mem s) (set (vfs_events s))" and o: "ordered (mem s) {} (vfs_events s)"
    and n: "events_number s = int (length (vfs_events s))" using assms by (auto simp: send_ok_def)
  let ?m = "(mem s)(p := None)"
  obtain e where e: "mem s p = Some e" using d(2) by (metis domD list.set_intros(1) UnCI)
  have "links ?m (set (vfs_events s))" by (rule links_change[OF l]) (use d in auto)
  moreover have "ordered ?m {} (vfs_events s) = ordered (mem s) {} (vfs_events s)"
    by (rule ordered_cong) (use d in \<open>auto simp: to_pair_def\<close>)
  moreover have "dom ?m = set (vfs_events s) \<union> set ts" using d by auto
  ultimately have "send_ok (s\<lparr>notified := notified s @ [e], mem := ?m\<rparr>) ts" using d o n by (auto simp: send_ok_def)
  then show ?thesis using e by (simp add: vfs_event_free_def)
qed

text \<open>The callback takes events: a batch, or all of them when the module is being unloaded.\<close>

lemma pick_batch:
  assumes "send_ok b []" "pick_events (b\<lparr>timer := False\<rparr>) = Some (b', ts)" "length ts \<le> 100"
  shows "send_ok b' ts \<and> quit b' = quit b \<and> notified b' = notified b \<and> length (vfs_events b') + length ts = length (vfs_events b)"
proof -
  let ?b = "b\<lparr>timer := False\<rparr>"
  have s: "send_ok ?b []" using assms(1) by (simp add: send_ok_def)
  show ?thesis
  proof (cases "quit b")
    case False
    from pick_some_ok[OF s, of "[]" "vfs_events b" 0] obtain s' ts' where "pick_some (vfs_events b) 0 ?b [] = Some (s', ts')"
      "send_ok s' ts'" "length ts' + length (vfs_events s') = length (vfs_events b)" "quit s' = quit b" "notified s' = notified b"
      by auto
    then show ?thesis using assms(2) False by (simp add: pick_events_def)
  next
    case True
    then have p: "pick_all (vfs_events b) ?b [] = Some (b', ts)" using assms(2) by (simp add: pick_events_def)
    then have "length (vfs_events b) \<le> 101" using pick_all_length[OF p] assms(3) by simp
    with pick_all_ok[OF s, of "vfs_events b"] p have "ts = vfs_events b" "vfs_events b' = []" "events_number b' = 0"
      "mem b' = mem b" "quit b' = quit b" "notified b' = notified b" by auto
    then show ?thesis using assms(1) by (auto simp: send_ok_def links_def)
  qed
qed

lemma unload_step_ok: "unload_step u u' \<Longrightarrow> unload_ok k u \<Longrightarrow> unload_ok k u'"
proof (induction rule: unload_step.induct)
  case (woken u)
  then show ?case by (simp add: unload_ok_def in_flight_def send_ok_def)
next
  case (polled u)
  then show ?case
    by (auto simp: unload_ok_def in_flight_def send_ok_def held_def vfs_exit_sysfs_def cleanup_vfs_event_cache_def cleanup_vfs_genl_def)
next
  case (fires u b ts)
  then have "send_ok (ubuf u) []" by (simp add: unload_ok_def in_flight_def)
  from pick_batch[OF this fires.hyps(4,5)] show ?case using fires by (auto simp: unload_ok_def in_flight_def)
next
  case (sends u p ts b)
  then have "send_ok (ubuf u) (p # ts)" by (simp add: unload_ok_def in_flight_def)
  from send_one[OF this] show ?case using sends by (auto simp: unload_ok_def in_flight_def)
next
  case (finishes u)
  then show ?case by (auto simp: unload_ok_def in_flight_def send_ok_def)
qed

lemma unload_run_ok: "unload_step\<^sup>*\<^sup>* u u' \<Longrightarrow> unload_ok k u \<Longrightarrow> unload_ok k u'"
  by (induction rule: rtranclp_induct) (auto intro: unload_step_ok)

text \<open>When the loop of \<open>clearup_event_merge\<close> is stuck: the timer will not send the rest, or runs past its array.\<close>

lemma emptying_stuck:
  assumes ok: "unload_ok k u" and pc: "upc u = Emptying"
  shows "(\<exists>u'. unload_step u u') \<longleftrightarrow>
    \<not> (sending u = None \<and> vfs_events (ubuf u) \<noteq> [] \<and> (timer (ubuf u) \<longrightarrow> 100 < length (vfs_events (ubuf u))))"
proof -
  have s: "send_ok (ubuf u) (in_flight u)" "quit (ubuf u)" using ok pc by (simp_all add: unload_ok_def)
  have n: "events_number (ubuf u) = int (length (vfs_events (ubuf u)))" by (rule events_number_send[OF s(1)])
  consider (idle) "sending u = None" | (last) "sending u = Some []" | (more) p ts where "sending u = Some (p # ts)"
    by (metis list.exhaust option.exhaust)
  then show ?thesis
  proof cases
    case last
    then show ?thesis using unload_step.finishes[of u] pc by auto
  next
    case more
    then have "send_ok (ubuf u) (p # ts)" using s(1) by (simp add: in_flight_def)
    from send_one[OF this] show ?thesis using unload_step.sends[OF _ more] pc more by fastforce
  next
    case idle
    let ?b = "(ubuf u)\<lparr>timer := False\<rparr>" and ?es = "vfs_events (ubuf u)"
    have all: "pick_events ?b = pick_all ?es ?b []" using s(2) by (simp add: pick_events_def)
    have sb: "send_ok ?b []" using s(1) idle by (simp add: in_flight_def send_ok_def)
    have "\<exists>u'. unload_step u u'" if "?es = []" using unload_step.polled[of u] pc n that by auto
    moreover have "\<exists>u'. unload_step u u'" if armed: "timer (ubuf u)" and short: "length ?es \<le> 100"
    proof -
      obtain b where "pick_events ?b = Some (b, ?es)" using pick_all_ok[OF sb, of ?es] short all by auto
      from unload_step.fires[OF _ idle armed this short] show ?thesis using pc by auto
    qed
    moreover have "?es = [] \<or> timer (ubuf u) \<and> length ?es \<le> 100" if step: "unload_step u u'" for u'
      using step
    proof cases
      case (fires b ts)
      have "length ts = length ?es" using pick_all_length fires(5) all by fastforce
      then show ?thesis using fires by simp
    qed (use pc idle n in auto)
    ultimately show ?thesis using idle by (meson linorder_not_le)
  qed
qed

lemma unload_start: "merge_ok b \<Longrightarrow> \<not> quit b \<Longrightarrow>
    unload_ok (length (notified b) + length (vfs_events b)) (vfs_monitor_cleanup_module m b)"
  by (simp add: unload_ok_def vfs_monitor_cleanup_module_def in_flight_def send_ok_def merge_ok_def)

lemma krp_run_buffer: "krp_run n s \<Longrightarrow> n < 2 ^ 32 \<Longrightarrow> merge_ok (kbuf s) \<and> \<not> quit (kbuf s)"
  using krp_run_ok reachable_ok by (fastforce simp: krp_ok_def machine_ok_def)

end
