(* ===== verification/Module_Claims.thy ===== *)
theory Module_Claims
  imports Vfs_Module Kernel_Claims
begin

text \<open>
  The correctness of the second source of events, of loading and of unloading the kernel module.
\<close>

subsection \<open>The two sources of events\<close>

text \<open>C36: the two sources of events agree.  For a name below a folder of a watched device that one of the seven
  probed functions has created or deleted (file, folder, symbolic link, hard link), the return probe and the listener
  of the notification deliver the same event - same object, path, device and cookie, and the same kind except that the
  listener reports a new link of either sort as a new file - or both deliver none because the path is too long.\<close>

theorem sources_agree:
  assumes "raw_ok raw path_of" "length buf = VFS_EVENT_PATH_LEN"
    and "IS_INVALID_DEVICE (devices env) dev = Some False" "is_mnt_ns_valid (target_mnt_ns env) (current_ns env) = Some True"
    and "i_sb_dev i = dev" "i_dentry_first i = Some d" "d_sb d = Some dev" "dir_path (path_of d)" "is_cstr name"
    and "get_arg regs (probe_arg (new_vfs_api env) pr) \<noteq> 0" "dentries env (get_arg regs (probe_arg (new_vfs_api env) pr)) = Some k"
    and "d_sb k = Some dev" "\<forall>n. dentry_path_raw env k n = (if length (below (path_of d) name) + 1 \<le> n then Some (below (path_of d) name) else None)"
    and "regs_return_value regs' = 0" "length name < 256"
  shows "\<exists>code held. on_probe_ent env (Some (p, e)) pr regs = Some (code, held)
    \<and> fsnotify_broadcast_listener raw env buf (Some (p, e)) (Some i) (probe_notice pr) True (Some name) 0
      = Some (if code = 0 then map_option (\<lambda>(q, ev). (q, ev\<lparr>ev_action := noticed_as (ev_action ev)\<rparr>)) (on_probe_ret (the held) pr regs')
          else None)
    \<and> (code = 0 \<longrightarrow> on_probe_ret (the held) pr regs' \<noteq> None)"
proof -
  obtain f where f: "probe_notice pr \<inter> TARGET_EVENT = {f}"
    "fs_action f (FS_ISDIR \<in> probe_notice pr) = Some (noticed_as (probe_action pr))"
    by (rule probe_notice_action)
  have fits: "length (below (path_of d) name) + 1 \<le> VFS_EVENT_PATH_LEN \<longleftrightarrow> length (path_of d) + length name + 2 \<le> VFS_EVENT_PATH_LEN"
    using assms(15) by (auto simp: below_def)
  have ent: "on_probe_ent env (Some (p, e)) pr regs = Some
      (if length (path_of d) + length name + 2 \<le> VFS_EVENT_PATH_LEN
       then (0, Some (p, e\<lparr>ev_dev := dev, ev_path := below (path_of d) name, ev_cookie := 0\<rparr>)) else (1, None))"
    unfolding on_probe_ent_def common_vfs_ent_def using assms(3,4,10-13) fits by simp
  have inv: "IS_INVALID_DEVICE (devices env) (i_sb_dev i) = Some False" using assms(3,5) by simp
  show ?thesis
    unfolding ent broadcast_event[OF assms(1,2) inv assms(4,6-9) f]
    by (simp add: on_probe_ret_def common_vfs_ret_def assms(14))
qed

definition sample_raw :: raw_path where
  "sample_raw d n buf =
    (if n < 3 then None else Some (nat n - 3, take (nat n - 3) buf @ [47, 104] @ 0 # drop (nat n) buf))"

lemma sample_raw_ok: "raw_ok sample_raw (\<lambda>d. [47, 104])"
  unfolding raw_ok_def
proof (intro allI impI)
  fix d n and buf :: "byte list" assume n: "n \<le> int (length buf)"
  define front where "front = take (nat n - 3) buf"
  show "if int (length [47, 104 :: byte]) + 1 > n then sample_raw d n buf = None
      else \<exists>front. sample_raw d n buf = Some (length front, front @ [47, 104] @ 0 # drop (nat n) buf)
        \<and> int (length front) + int (length [47, 104 :: byte]) + 1 = n"
  proof (cases "n < 3")
    case True
    then show ?thesis by (simp add: sample_raw_def)
  next
    case False
    then have "length front = nat n - 3" "int (nat n - 3) + 3 = n" using n by (simp_all add: front_def)
    then have "sample_raw d n buf = Some (length front, front @ [47, 104] @ 0 # drop (nat n) buf)" "int (length front) + 2 + 1 = n"
      using False by (simp_all add: sample_raw_def front_def[symmetric])
    moreover have "\<not> int (length [47, 104 :: byte]) + 1 > n" "int (length [47, 104 :: byte]) = 2" using False by simp_all
    ultimately show ?thesis by metis
  qed
qed

definition sample_folder :: dentry where
  "sample_folder = \<lparr>d_sb = Some 8388609, d_is_dir = True, d_id = 1\<rparr>"

definition sample_file :: dentry where
  "sample_file = \<lparr>d_sb = Some 8388609, d_is_dir = False, d_id = 2\<rparr>"

definition sample_probe_env :: probe_env where
  "sample_probe_env = sample_env\<lparr>dentries := [16 \<mapsto> sample_file],
     dentry_path_raw := (\<lambda>d n. if 5 \<le> n then Some [47, 104, 47, 97] else None)\<rparr>"

theorem sources_agree_witness:
  "\<exists>code held. on_probe_ent sample_probe_env (Some (7, sample_event ACT_MOUNT [])) vfs_symlink sample_regs = Some (code, held)
    \<and> fsnotify_broadcast_listener sample_raw sample_probe_env (replicate 4048 0) (Some (7, sample_event ACT_MOUNT []))
        (Some \<lparr>i_sb_dev = 8388609, i_dentry_first = Some sample_folder\<rparr>) (probe_notice vfs_symlink) True (Some [97]) 0
      = Some (if code = 0 then map_option (\<lambda>(q, ev). (q, ev\<lparr>ev_action := noticed_as (ev_action ev)\<rparr>))
            (on_probe_ret (the held) vfs_symlink sample_regs) else None)
    \<and> (code = 0 \<longrightarrow> on_probe_ret (the held) vfs_symlink sample_regs \<noteq> None)"
proof (rule sources_agree[OF sample_raw_ok, where pr = vfs_symlink and dev = 8388609 and k = sample_file and d = sample_folder])
  show "IS_INVALID_DEVICE (devices sample_probe_env) 8388609 = Some False"
    unfolding IS_INVALID_DEVICE_def by (subst if_P) (code_simp, rule refl)
qed (simp_all add: sample_probe_env_def sample_env_def sample_regs_def sample_file_def sample_folder_def is_mnt_ns_valid_def
    get_arg_def dir_path_def is_cstr_def below_def regs_return_value_def)

subsection \<open>Loading and unloading\<close>

text \<open>C37: loading.  If the module is loaded, it holds all its resources and knows its mount namespace;
  if an initialisation fails, everything acquired before is released, with one exception, a
  defect: when the file in \<open>sysfs\<close> cannot be created, the kernel object stays.\<close>

theorem module_load:
  "case vfs_monitor_init_module env nothing_held of (ret, m) \<Rightarrow>
    if ret = 0 then all_held m
    else held m = [kobj_made env \<and> sysfs_error env \<noteq> 0, False, False, False, False]"
  using init_result[of env] by (cases "vfs_monitor_init_module env nothing_held") simp








end
