(* ===== verification/Mount_Search.thy ===== *)
theory Mount_Search
  imports Prelude
begin

text \<open>
  The search for the folder below a mount point that is the same as a given folder
  (\<open>find_matching_dir\<close> and its cache in \<open>src/src/library/src/utils.c\<close>).

  The file system does not change during the search: \<open>read_dir\<close> lists the names in a folder
  (\<open>None\<close>: it cannot be opened) and \<open>lstat\<close> is the call of that name.
\<close>

record dir_stat =
  st_dev :: nat
  st_ino :: nat
  s_isdir :: bool

record file_system =
  read_dir :: "cstring \<Rightarrow> cstring list option"
  lstat :: "cstring \<Rightarrow> dir_stat option"

text \<open>\<open>g_build_filename\<close> of a path and a name: one slash between them.\<close>

definition build_filename :: "cstring \<Rightarrow> cstring \<Rightarrow> cstring" where
  "build_filename dir name = rev (dropWhile (\<lambda>c. c = slash) (rev dir)) @ slash # name"

text \<open>A line of the mount table: device, root, mount point.  \<open>None\<close>: the table cannot be read.\<close>

definition get_bind_mountpoints :: "(nat \<times> cstring \<times> cstring) list option \<Rightarrow> nat \<Rightarrow> cstring list" where
  "get_bind_mountpoints tb target_dev =
    (case tb of None \<Rightarrow> []
     | Some ls \<Rightarrow> [target. (dev, root, target) \<leftarrow> ls, dev = target_dev, root \<noteq> [slash]])"

fun is_mount_point :: "cstring list \<Rightarrow> cstring \<Rightarrow> bool" where
  "is_mount_point [] dir = False"
| "is_mount_point (m # ms) dir = (if dir = m then True else is_mount_point ms dir)"

text \<open>The inner loop: the match, if there is one, and the queue.\<close>

fun scan_entries :: "file_system \<Rightarrow> cstring list \<Rightarrow> nat \<Rightarrow> nat \<Rightarrow> cstring \<Rightarrow> cstring list \<Rightarrow> cstring list \<Rightarrow> cstring option \<times> cstring list" where
  "scan_entries fs mounts dev ino cur [] queue = (None, queue)"
| "scan_entries fs mounts dev ino cur (e # es) queue =
    (let full_path = build_filename cur e
     in case lstat fs full_path of
       None \<Rightarrow> scan_entries fs mounts dev ino cur es queue
     | Some st \<Rightarrow>
         if s_isdir st \<and> st_dev st = dev \<and> \<not> is_mount_point mounts full_path then
           (if st_ino st = ino then (Some full_path, queue)
            else scan_entries fs mounts dev ino cur es (queue @ [full_path]))
         else scan_entries fs mounts dev ino cur es queue)"

partial_function (option) bfs_loop :: "file_system \<Rightarrow> cstring list \<Rightarrow> nat \<Rightarrow> nat \<Rightarrow> cstring list \<Rightarrow> cstring option option" where
  "bfs_loop fs mounts dev ino queue =
    (case queue of [] \<Rightarrow> Some None
     | cur # queue \<Rightarrow>
       (case read_dir fs cur of
          None \<Rightarrow> bfs_loop fs mounts dev ino queue
        | Some es \<Rightarrow>
          (case scan_entries fs mounts dev ino cur es queue of
             (Some ret, queue) \<Rightarrow> Some (Some ret)
           | (None, queue) \<Rightarrow> bfs_loop fs mounts dev ino queue)))"

text \<open>\<open>None\<close>: the search does not return.\<close>

definition bfs_search :: "file_system \<Rightarrow> cstring list \<Rightarrow> cstring \<Rightarrow> nat \<Rightarrow> nat \<Rightarrow> cstring option option" where
  "bfs_search fs mounts start_path target_dev target_ino = bfs_loop fs mounts target_dev target_ino [start_path]"

definition find_matching_dir :: "file_system \<Rightarrow> (nat \<times> cstring \<times> cstring) list option \<Rightarrow> cstring \<Rightarrow> cstring \<Rightarrow> cstring option option" where
  "find_matching_dir fs tb mount_dir search_dir =
    (case (lstat fs search_dir, lstat fs mount_dir) of
       (Some search_st, Some mount_st) \<Rightarrow>
         if st_dev search_st \<noteq> st_dev mount_st then Some None
         else if st_ino search_st = st_ino mount_st then Some (Some mount_dir)
         else bfs_search fs (get_bind_mountpoints tb (st_dev mount_st)) mount_dir (st_dev search_st) (st_ino search_st)
     | _ \<Rightarrow> Some None)"

text \<open>\<open>canon\<close> is \<open>g_canonicalize_filename\<close>; the cache is a hash table.\<close>

definition generate_cache_key :: "(cstring \<Rightarrow> cstring option) \<Rightarrow> cstring \<Rightarrow> cstring \<Rightarrow> cstring option" where
  "generate_cache_key canon mount search =
    (case (canon mount, canon search) of (Some m, Some s) \<Rightarrow> Some (m @ 124 # s) | _ \<Rightarrow> None)"

definition find_matching_dir_by_cache :: "(cstring \<Rightarrow> cstring option) \<Rightarrow> file_system \<Rightarrow> (nat \<times> cstring \<times> cstring) list option \<Rightarrow>
    (cstring \<Rightarrow> cstring option) \<Rightarrow> cstring \<Rightarrow> cstring \<Rightarrow> (cstring option \<times> (cstring \<Rightarrow> cstring option)) option" where
  "find_matching_dir_by_cache canon fs tb cache mount_dir search_dir =
    (case generate_cache_key canon mount_dir search_dir of None \<Rightarrow> Some (None, cache)
     | Some cache_key \<Rightarrow>
       (case cache cache_key of Some cached \<Rightarrow> Some (Some cached, cache)
        | None \<Rightarrow> do {
            ret \<leftarrow> find_matching_dir fs tb mount_dir search_dir;
            Some (ret, (case ret of None \<Rightarrow> cache | Some r \<Rightarrow> cache(cache_key \<mapsto> r))) }))"

subsection \<open>The folders by their depth\<close>

definition enters :: "file_system \<Rightarrow> cstring list \<Rightarrow> nat \<Rightarrow> cstring \<Rightarrow> bool" where
  "enters fs mounts dev p = (case lstat fs p of None \<Rightarrow> False
    | Some st \<Rightarrow> s_isdir st \<and> st_dev st = dev \<and> \<not> is_mount_point mounts p)"

definition subfolders :: "file_system \<Rightarrow> cstring list \<Rightarrow> nat \<Rightarrow> cstring \<Rightarrow> cstring list" where
  "subfolders fs mounts dev d = (case read_dir fs d of None \<Rightarrow> []
    | Some es \<Rightarrow> filter (enters fs mounts dev) (map (build_filename d) es))"

fun level :: "file_system \<Rightarrow> cstring list \<Rightarrow> nat \<Rightarrow> nat \<Rightarrow> cstring list \<Rightarrow> cstring list" where
  "level fs mounts dev 0 ds = ds"
| "level fs mounts dev (Suc n) ds = level fs mounts dev n (concat (map (subfolders fs mounts dev) ds))"

definition has_ino :: "file_system \<Rightarrow> nat \<Rightarrow> cstring \<Rightarrow> bool" where
  "has_ino fs ino p = (case lstat fs p of None \<Rightarrow> False | Some st \<Rightarrow> st_ino st = ino)"

text \<open>\<open>walk n s p\<close>: \<open>p\<close> is a folder that is reached from \<open>s\<close> through \<open>n\<close> folders of the same mount.\<close>

inductive walk :: "file_system \<Rightarrow> cstring list \<Rightarrow> nat \<Rightarrow> nat \<Rightarrow> cstring \<Rightarrow> cstring \<Rightarrow> bool" for fs mounts dev where
  walk_here: "walk fs mounts dev 0 s s"
| walk_down: "read_dir fs s = Some es \<Longrightarrow> e \<in> set es \<Longrightarrow> enters fs mounts dev (build_filename s e) \<Longrightarrow>
    walk fs mounts dev n (build_filename s e) p \<Longrightarrow> walk fs mounts dev (Suc n) s p"

inductive_cases walk_0E: "walk fs mounts dev 0 s p"
inductive_cases walk_SucE: "walk fs mounts dev (Suc n) s p"

lemma level_walk: "p \<in> set (level fs mounts dev n ds) \<longleftrightarrow> (\<exists>s\<in>set ds. walk fs mounts dev n s p)"
proof (induction n arbitrary: ds)
  case 0
  then show ?case by (auto intro: walk_here elim: walk_0E)
next
  case (Suc n)
  have "walk fs mounts dev (Suc n) s p \<longleftrightarrow> (\<exists>d\<in>set (subfolders fs mounts dev s). walk fs mounts dev n d p)" for s
  proof
    assume "walk fs mounts dev (Suc n) s p"
    then show "\<exists>d\<in>set (subfolders fs mounts dev s). walk fs mounts dev n d p"
      by (rule walk_SucE) (auto simp: subfolders_def)
  next
    assume "\<exists>d\<in>set (subfolders fs mounts dev s). walk fs mounts dev n d p"
    then obtain es e where "read_dir fs s = Some es" "e \<in> set es" "enters fs mounts dev (build_filename s e)"
      "walk fs mounts dev n (build_filename s e) p" by (cases "read_dir fs s") (auto simp: subfolders_def)
    then show "walk fs mounts dev (Suc n) s p" by (rule walk_down)
  qed
  then show ?case using Suc.IH by simp
qed

lemma level_Nil [simp]: "level fs mounts dev n [] = []"
  by (induction n) simp_all

lemma level_Suc: "level fs mounts dev (Suc n) ds = concat (map (subfolders fs mounts dev) (level fs mounts dev n ds))"
  by (induction n arbitrary: ds) simp_all

lemma level_mono: "level fs mounts dev N ds = [] \<Longrightarrow> N \<le> n \<Longrightarrow> level fs mounts dev n ds = []"
proof (induction n)
  case (Suc n)
  then show ?case by (cases "N = Suc n") (simp_all add: level_Suc del: level.simps)
qed simp

subsection \<open>The search goes through the levels\<close>

lemma scan_find:
  "scan_entries fs mounts dev ino cur es queue =
    (let ds = filter (enters fs mounts dev) (map (build_filename cur) es)
     in (find (has_ino fs ino) ds, queue @ takeWhile (\<lambda>d. \<not> has_ino fs ino d) ds))"
  by (induction es arbitrary: queue) (auto simp: Let_def enters_def has_ino_def split: option.splits)

lemma find_append: "find P (xs @ ys) = (case find P xs of None \<Rightarrow> find P ys | Some x \<Rightarrow> Some x)"
  by (induction xs) simp_all

lemma loop_step:
  "bfs_loop fs mounts dev ino (d # queue) = (case find (has_ino fs ino) (subfolders fs mounts dev d) of
     Some p \<Rightarrow> Some (Some p) | None \<Rightarrow> bfs_loop fs mounts dev ino (queue @ subfolders fs mounts dev d))"
proof -
  have "takeWhile (\<lambda>d. \<not> has_ino fs ino d) ds = ds" if "find (has_ino fs ino) ds = None" for ds
    using that by (auto simp: find_None_iff takeWhile_eq_all_conv)
  note w = this
  show ?thesis
    by (subst bfs_loop.simps) (simp add: w scan_find Let_def subfolders_def split: option.splits)
qed

lemma loop_level:
  "bfs_loop fs mounts dev ino (ds @ acc) = (case find (has_ino fs ino) (concat (map (subfolders fs mounts dev) ds)) of
     Some p \<Rightarrow> Some (Some p)
   | None \<Rightarrow> bfs_loop fs mounts dev ino (acc @ concat (map (subfolders fs mounts dev) ds)))"
proof (induction ds arbitrary: acc)
  case (Cons d ds)
  show ?case
    using Cons.IH[of "acc @ subfolders fs mounts dev d"]
    by (simp add: loop_step find_append split: option.splits)
qed simp

lemma loop_levels:
  assumes "level fs mounts dev N ds = []"
  shows "bfs_loop fs mounts dev ino ds = Some (find (has_ino fs ino) (concat (map (\<lambda>n. level fs mounts dev (Suc n) ds) [0..<N])))"
  using assms
proof (induction N arbitrary: ds)
  case 0
  then show ?case by (simp add: bfs_loop.simps)
next
  case (Suc N)
  let ?next = "concat (map (subfolders fs mounts dev) ds)"
  have u: "concat (map (\<lambda>n. level fs mounts dev (Suc n) ds) [0..<Suc N]) = ?next @ concat (map (\<lambda>n. level fs mounts dev (Suc n) ?next) [0..<N])"
    unfolding map_upt_Suc by simp
  have "bfs_loop fs mounts dev ino ?next = Some (find (has_ino fs ino) (concat (map (\<lambda>n. level fs mounts dev (Suc n) ?next) [0..<N])))"
    by (rule Suc.IH) (use Suc.prems in simp)
  then show ?case unfolding u using loop_level[of fs mounts dev ino ds "[]"]
    by (simp add: find_append split: option.splits)
qed

text \<open>What \<open>find\<close> over the levels returns.\<close>

lemma find_levels:
  assumes "find P (concat (map f [0..<N])) = r"
  shows "case r of Some p \<Rightarrow> \<exists>n<N. p \<in> set (f n) \<and> P p \<and> (\<forall>m<n. \<forall>q\<in>set (f m). \<not> P q)
    | None \<Rightarrow> \<forall>n<N. \<forall>q\<in>set (f n). \<not> P q"
  using assms
proof (induction N arbitrary: r)
  case (Suc N)
  show ?case
  proof (cases "find P (concat (map f [0..<N]))")
    case None
    then have "\<forall>n<N. \<forall>q\<in>set (f n). \<not> P q" using Suc.IH by simp
    moreover have "find P (f N) = r" using Suc.prems None by (simp add: find_append)
    ultimately show ?thesis by (cases r) (auto simp: find_None_iff find_Some_iff less_Suc_eq)
  next
    case (Some p)
    then have "r = Some p" using Suc.prems by (simp add: find_append)
    then show ?thesis using Suc.IH[OF Some] by (auto simp: less_Suc_eq)
  qed
qed simp

subsection \<open>The nearest match\<close>

definition nearest :: "file_system \<Rightarrow> cstring list \<Rightarrow> nat \<Rightarrow> cstring \<Rightarrow> nat \<Rightarrow> cstring option \<Rightarrow> bool" where
  "nearest fs mounts dev start ino r \<longleftrightarrow> (case r of
     Some p \<Rightarrow> \<exists>n. walk fs mounts dev n start p \<and> has_ino fs ino p \<and> (\<forall>m<n. \<forall>q. walk fs mounts dev m start q \<longrightarrow> \<not> has_ino fs ino q)
   | None \<Rightarrow> \<forall>n q. walk fs mounts dev n start q \<longrightarrow> \<not> has_ino fs ino q)"

lemma find_nearest:
  assumes "level fs mounts dev N [start] = []"
  shows "nearest fs mounts dev start ino (find (has_ino fs ino) (concat (map (\<lambda>n. level fs mounts dev n [start]) [0..<N])))"
proof -
  let ?f = "\<lambda>n. level fs mounts dev n [start]" and ?P = "has_ino fs ino"
  define r where "r = find ?P (concat (map ?f [0..<N]))"
  have w: "q \<in> set (?f n) \<longleftrightarrow> walk fs mounts dev n start q" for n q by (simp add: level_walk)
  then have w': "(\<forall>q\<in>set (?f n). \<not> ?P q) \<longleftrightarrow> (\<forall>q. walk fs mounts dev n start q \<longrightarrow> \<not> ?P q)" for n by blast
  have deep: "n < N" if "walk fs mounts dev n start q" for n q
    using level_mono[OF assms, of n] w[of q n] that by (cases "n < N") simp_all
  have "case r of Some p \<Rightarrow> \<exists>n<N. p \<in> set (?f n) \<and> ?P p \<and> (\<forall>m<n. \<forall>q\<in>set (?f m). \<not> ?P q)
    | None \<Rightarrow> \<forall>n<N. \<forall>q\<in>set (?f n). \<not> ?P q" by (rule find_levels) (simp add: r_def)
  then have "nearest fs mounts dev start ino r"
    unfolding w w' nearest_def using deep by (cases r) (simp_all, blast+)
  then show ?thesis by (simp add: r_def)
qed

text \<open>C34: if the folders of the mount below \<open>mount_dir\<close> are at most \<open>N\<close> levels deep, \<open>find_matching_dir\<close> returns.
  On the same device its result is a folder with the inode number of the searched one that is
  reached from \<open>mount_dir\<close> through folders of this device without crossing a bind mount, and no
  nearer folder has the number; or there is none, and no folder that is so reached has it.\<close>

theorem find_matching_dir_nearest:
  assumes "lstat fs search_dir = Some st" "lstat fs mount_dir = Some mt"
    and "level fs (get_bind_mountpoints tb (st_dev mt)) (st_dev mt) N [mount_dir] = []"
  shows "\<exists>r. find_matching_dir fs tb mount_dir search_dir = Some r \<and>
    (if st_dev st \<noteq> st_dev mt then r = None
     else nearest fs (get_bind_mountpoints tb (st_dev mt)) (st_dev mt) mount_dir (st_ino st) r)"
proof -
  let ?ms = "get_bind_mountpoints tb (st_dev mt)" and ?dev = "st_dev mt" and ?P = "has_ino fs (st_ino st)"
  let ?f = "\<lambda>n. level fs ?ms ?dev n [mount_dir]"
  obtain M where M: "N = Suc M" using assms(3) by (cases N) simp_all
  have u: "concat (map ?f [0..<N]) = mount_dir # concat (map (\<lambda>n. ?f (Suc n)) [0..<M])"
    unfolding M map_upt_Suc by simp
  have b: "bfs_search fs ?ms mount_dir ?dev (st_ino st) = Some (find ?P (concat (map (\<lambda>n. ?f (Suc n)) [0..<N])))"
    unfolding bfs_search_def by (rule loop_levels[OF assms(3)])
  have l: "level fs ?ms ?dev (Suc M) [mount_dir] = []" using assms(3) M by simp
  have "concat (map (\<lambda>n. ?f (Suc n)) [0..<N]) = concat (map (\<lambda>n. ?f (Suc n)) [0..<M])" unfolding M by (simp add: l del: level.simps)
  then have "find_matching_dir fs tb mount_dir search_dir = Some (if st_dev st = ?dev then find ?P (concat (map ?f [0..<N])) else None)"
    using assms(1,2) b unfolding u by (simp add: find_matching_dir_def has_ino_def del: level.simps)
  then show ?thesis using find_nearest[OF assms(3), of "st_ino st"] by simp
qed

text \<open>A mount point \<open>/\<close> with the folders \<open>/a\<close> and \<open>/b\<close>, and \<open>/a/c\<close>.\<close>

definition sample_fs :: file_system where
  "sample_fs = \<lparr>read_dir = [[47] \<mapsto> [[97], [98]], [47, 97] \<mapsto> [[99]], [47, 98] \<mapsto> [], [47, 97, 47, 99] \<mapsto> []],
     lstat = [[47] \<mapsto> \<lparr>st_dev = 8, st_ino = 2, s_isdir = True\<rparr>, [47, 97] \<mapsto> \<lparr>st_dev = 8, st_ino = 11, s_isdir = True\<rparr>,
       [47, 98] \<mapsto> \<lparr>st_dev = 8, st_ino = 12, s_isdir = True\<rparr>, [47, 97, 47, 99] \<mapsto> \<lparr>st_dev = 8, st_ino = 13, s_isdir = True\<rparr>,
       [120] \<mapsto> \<lparr>st_dev = 8, st_ino = 13, s_isdir = True\<rparr>]\<rparr>"

theorem find_matching_dir_nearest_witness:
  "\<exists>r. find_matching_dir sample_fs (Some []) [47] [120] = Some r \<and> nearest sample_fs [] 8 [47] 13 r"
proof -
  have s: "lstat sample_fs [120] = Some \<lparr>st_dev = 8, st_ino = 13, s_isdir = True\<rparr>" "lstat sample_fs [47] = Some \<lparr>st_dev = 8, st_ino = 2, s_isdir = True\<rparr>"
    by (simp_all add: sample_fs_def)
  have m: "get_bind_mountpoints (Some []) 8 = []" by (simp add: get_bind_mountpoints_def)
  have l: "level sample_fs [] 8 3 [[47]] = []" by code_simp
  show ?thesis using find_matching_dir_nearest[OF s, of "Some []" 3] l unfolding dir_stat.simps m by simp
qed

end
