(* ===== verification/Thread_Pool.thy ===== *)
theory Thread_Pool
  imports "HOL-Library.Multiset"
begin

text \<open>
  The thread pool of the parallel search (\<open>src/3rdparty/fsearch/thread_pool.c\<close>).

  A thread of the pool holds its mutex from the moment it is woken until it waits again, also while
  it runs a job; every other section under the mutex is one step, which is possible only when the
  thread does not run a job.  A position \<open>pc\<close> says where the thread is.  Both condition variables may
  wake a waiter for no reason.  The fields \<open>pushed\<close>, \<open>executed\<close> and \<open>lost\<close> record the history.
\<close>

datatype thread_status = THREAD_IDLE | THREAD_BUSY | THREAD_FINISHED

datatype thread_pc = Created | Waiting | Woken | Running | Exited

text \<open>A call of \<open>fsearch_thread_pool_wait_for_thread\<close>: about to test the status, waiting for
  \<open>finished_cond\<close>, or returned.\<close>

datatype waiter = Testing | Sleeping | Returned

type_synonym job = "nat \<times> nat"

record thread_context =
  thread_func :: nat
  thread_data :: "nat option"
  thread_waited :: bool
  tstatus :: thread_status
  terminate :: bool
  pc :: thread_pc
  waiters :: "waiter list"
  pushed :: "job list"
  executed :: "job list"
  lost :: "job list"

definition pending :: "thread_context \<Rightarrow> job list" where
  "pending c = (case thread_data c of None \<Rightarrow> [] | Some d \<Rightarrow> [(thread_func c, d)])"

lemma pending_frame [simp]:
  "pending (c\<lparr>waiters := ws\<rparr>) = pending c" "pending (c\<lparr>pc := p\<rparr>) = pending c" "pending (c\<lparr>terminate := b\<rparr>) = pending c"
  "pending (c\<lparr>tstatus := st\<rparr>) = pending c" "pending (c\<lparr>thread_waited := b\<rparr>) = pending c"
  by (simp_all add: pending_def split: option.splits)

definition thread_context_new :: thread_context where
  "thread_context_new = \<lparr>thread_func = 0, thread_data = None, thread_waited = False, tstatus = THREAD_IDLE,
     terminate = False, pc = Created, waiters = [], pushed = [], executed = [], lost = []\<rparr>"

subsection \<open>The thread\<close>

text \<open>The test of the loop; then the thread waits for \<open>start_cond\<close> and gives the mutex back.\<close>

definition thread_loop :: "thread_context \<Rightarrow> thread_context" where
  "thread_loop c = (if terminate c then c\<lparr>pc := Exited\<rparr> else c\<lparr>thread_waited := True, pc := Waiting\<rparr>)"

text \<open>\<open>g_cond_signal\<close> wakes a thread that waits, and does nothing otherwise.\<close>

definition signal_start :: "thread_context \<Rightarrow> thread_context" where
  "signal_start c = (if pc c = Waiting then c\<lparr>pc := Woken\<rparr> else c)"

text \<open>\<open>i\<close> is the waiter that the signal wakes if there is one.\<close>

definition signal_finished :: "nat \<Rightarrow> thread_context \<Rightarrow> thread_context" where
  "signal_finished i c = (if i < length (waiters c) \<and> waiters c ! i = Sleeping then c\<lparr>waiters := (waiters c)[i := Testing]\<rparr> else c)"

text \<open>After the wait, up to the call of the job; and from its end to the next wait.\<close>

definition thread_wake :: "thread_context \<Rightarrow> thread_context" where
  "thread_wake c =
    (let c = c\<lparr>tstatus := THREAD_BUSY\<rparr>
     in if thread_data c \<noteq> None then c\<lparr>pc := Running\<rparr> else thread_loop (c\<lparr>tstatus := THREAD_IDLE\<rparr>))"

definition thread_finish :: "nat \<Rightarrow> thread_context \<Rightarrow> thread_context" where
  "thread_finish i c =
    (let c = c\<lparr>executed := executed c @ pending c\<rparr>;
         c = c\<lparr>tstatus := THREAD_FINISHED, thread_data := None\<rparr>;
         c = signal_finished i c
     in thread_loop (c\<lparr>tstatus := THREAD_IDLE\<rparr>))"

subsection \<open>The operations of the pool\<close>

type_synonym thread_pool = "thread_context list"

definition thread_pool_has_thread :: "thread_pool \<Rightarrow> nat \<Rightarrow> bool" where
  "thread_pool_has_thread pool thread \<longleftrightarrow> thread < length pool"

text \<open>Every new thread has come to its first wait when \<open>fsearch_thread_pool_init\<close> returns.\<close>

definition fsearch_thread_pool_init :: "nat \<Rightarrow> thread_pool" where
  "fsearch_thread_pool_init num_cpus = replicate num_cpus (thread_loop thread_context_new)"

definition fsearch_thread_pool_get_num_threads :: "thread_pool option \<Rightarrow> nat" where
  "fsearch_thread_pool_get_num_threads pool = (case pool of None \<Rightarrow> 0 | Some p \<Rightarrow> length p)"

definition fsearch_thread_pool_get_data :: "thread_pool option \<Rightarrow> nat option \<Rightarrow> nat option" where
  "fsearch_thread_pool_get_data pool thread =
    (case (pool, thread) of
       (Some p, Some t) \<Rightarrow> if thread_pool_has_thread p t then thread_data (p ! t) else None
     | _ \<Rightarrow> None)"

definition fsearch_thread_pool_task_is_idle :: "thread_pool \<Rightarrow> nat \<Rightarrow> bool" where
  "fsearch_thread_pool_task_is_idle pool thread \<longleftrightarrow>
    thread_pool_has_thread pool thread \<and> tstatus (pool ! thread) = THREAD_IDLE"

definition fsearch_thread_pool_task_is_busy :: "thread_pool \<Rightarrow> nat \<Rightarrow> bool" where
  "fsearch_thread_pool_task_is_busy pool thread \<longleftrightarrow>
    thread_pool_has_thread pool thread \<and> tstatus (pool ! thread) = THREAD_BUSY"

text \<open>The section of \<open>fsearch_thread_pool_push_data\<close> under the mutex, and the function.\<close>

definition push_job :: "job \<Rightarrow> thread_context \<Rightarrow> thread_context" where
  "push_job j c =
    (let c = c\<lparr>lost := lost c @ pending c, pushed := pushed c @ [j]\<rparr>
     in signal_start (c\<lparr>thread_func := fst j, thread_data := Some (snd j), tstatus := THREAD_BUSY\<rparr>))"

definition fsearch_thread_pool_push_data :: "thread_pool option \<Rightarrow> nat option \<Rightarrow> nat option \<Rightarrow> nat option \<Rightarrow>
    bool \<times> thread_pool option" where
  "fsearch_thread_pool_push_data pool thread func data =
    (case (pool, thread, func, data) of
       (Some p, Some t, Some f, Some d) \<Rightarrow>
         if thread_pool_has_thread p t then (True, Some (p[t := push_job (f, d) (p ! t)])) else (False, pool)
     | _ \<Rightarrow> (False, pool))"

text \<open>The wait: one round of its loop.\<close>

definition wait_round :: "nat \<Rightarrow> thread_context \<Rightarrow> thread_context" where
  "wait_round i c = c\<lparr>waiters := (waiters c)[i := if tstatus c = THREAD_BUSY then Sleeping else Returned]\<rparr>"

text \<open>\<open>thread_context_free\<close> up to the joining of the thread.\<close>

definition thread_context_free :: "thread_context \<Rightarrow> thread_context" where
  "thread_context_free c = signal_start (c\<lparr>terminate := True\<rparr>)"

text \<open>\<open>fsearch_thread_pool_free\<close> stops the threads one after the other; the list is given as its first
  position.\<close>

definition fsearch_thread_pool_free :: "thread_pool option \<Rightarrow> thread_pool" where
  "fsearch_thread_pool_free pool = (case pool of None \<Rightarrow> [] | Some p \<Rightarrow> map thread_context_free p)"

definition fsearch_thread_pool_get_threads :: "thread_pool option \<Rightarrow> nat option" where
  "fsearch_thread_pool_get_threads pool =
    (case pool of None \<Rightarrow> None | Some p \<Rightarrow> if p = [] then None else Some 0)"

subsection \<open>The machine\<close>

text \<open>The steps of the thread alone.\<close>

inductive thread_step :: "thread_context \<Rightarrow> thread_context \<Rightarrow> bool" where
  enter: "pc c = Created \<Longrightarrow> thread_step c (thread_loop c)"
| wake: "pc c = Woken \<Longrightarrow> thread_step c (thread_wake c)"
| finish: "pc c = Running \<Longrightarrow> (\<exists>k<length (waiters c). waiters c ! k = Sleeping) \<longrightarrow> i < length (waiters c) \<and> waiters c ! i = Sleeping \<Longrightarrow>
    thread_step c (thread_finish i c)"

text \<open>With \<open>excl\<close>, one search at a time uses the pool: it pushes and waits only when no job is pending and
  no earlier wait is open.\<close>

definition quiet :: "thread_context \<Rightarrow> bool" where
  "quiet c \<longleftrightarrow> (\<forall>w\<in>set (waiters c). w = Returned)"

inductive pool_step :: "bool \<Rightarrow> thread_context \<Rightarrow> thread_context \<Rightarrow> bool" for excl where
  thread: "thread_step c c' \<Longrightarrow> pool_step excl c c'"
| push: "pc c \<noteq> Running \<Longrightarrow> thread_waited c \<Longrightarrow> \<not> terminate c \<Longrightarrow> excl \<longrightarrow> quiet c \<and> thread_data c = None \<Longrightarrow>
    pool_step excl c (push_job j c)"
| wait_enter: "excl \<longrightarrow> quiet c \<Longrightarrow> pool_step excl c (c\<lparr>waiters := waiters c @ [Testing]\<rparr>)"
| wait_test: "pc c \<noteq> Running \<Longrightarrow> i < length (waiters c) \<Longrightarrow> waiters c ! i = Testing \<Longrightarrow> pool_step excl c (wait_round i c)"
| wait_spurious: "i < length (waiters c) \<Longrightarrow> waiters c ! i = Sleeping \<Longrightarrow>
    pool_step excl c (c\<lparr>waiters := (waiters c)[i := Testing]\<rparr>)"
| spurious: "pc c = Waiting \<Longrightarrow> pool_step excl c (c\<lparr>pc := Woken\<rparr>)"
| stop: "pc c \<noteq> Running \<Longrightarrow> pool_step excl c (thread_context_free c)"

definition pool_reachable :: "bool \<Rightarrow> thread_context \<Rightarrow> bool" where
  "pool_reachable excl c \<longleftrightarrow> (pool_step excl)\<^sup>*\<^sup>* thread_context_new c"

subsection \<open>The invariant\<close>

definition thread_ok :: "thread_context \<Rightarrow> bool" where
  "thread_ok c \<longleftrightarrow> (pc c = Created \<longrightarrow> \<not> thread_waited c) \<and> (pc c = Running \<longrightarrow> thread_data c \<noteq> None)
    \<and> (tstatus c = THREAD_BUSY \<longleftrightarrow> thread_data c \<noteq> None) \<and> (thread_data c \<noteq> None \<longrightarrow> pc c \<in> {Woken, Running})
    \<and> (pc c = Exited \<longrightarrow> terminate c) \<and> (terminate c \<longrightarrow> pc c \<noteq> Waiting)
    \<and> mset (pushed c) = mset (executed c) + mset (lost c) + mset (pending c)"

lemmas step_defs = thread_loop_def signal_start_def signal_finished_def thread_wake_def thread_finish_def push_job_def
  wait_round_def thread_context_free_def Let_def

lemma thread_step_ok: "thread_step c c' \<Longrightarrow> thread_ok c \<Longrightarrow> thread_ok c'"
  by (induction rule: thread_step.induct) (auto simp: thread_ok_def step_defs pending_def split: option.splits)

lemma pool_step_ok: "pool_step excl c c' \<Longrightarrow> thread_ok c \<Longrightarrow> thread_ok c'"
proof (induction rule: pool_step.induct)
  case (push c j)
  then have "pc c \<in> {Waiting, Woken}" by (cases "pc c") (auto simp: thread_ok_def)
  then show ?case using push.prems by (auto simp: thread_ok_def step_defs pending_def split: option.splits)
next
  case (thread c c')
  then show ?case by (simp add: thread_step_ok)
next
  case (stop c)
  then show ?case by (auto simp: thread_ok_def step_defs pending_def split: option.splits)
qed (auto simp: thread_ok_def step_defs pending_def split: option.splits)

lemma pool_reachable_ok: "pool_reachable excl c \<Longrightarrow> thread_ok c"
  unfolding pool_reachable_def
  by (induction rule: rtranclp_induct) (auto simp: pool_step_ok, simp add: thread_ok_def thread_context_new_def pending_def)

text \<open>One search at a time.\<close>

definition open_waits :: "thread_context \<Rightarrow> waiter list" where
  "open_waits c = filter (\<lambda>w. w \<noteq> Returned) (waiters c)"

definition search_ok :: "thread_context \<Rightarrow> bool" where
  "search_ok c \<longleftrightarrow> lost c = [] \<and> executed c @ pending c = pushed c \<and> length (open_waits c) \<le> 1
    \<and> (Sleeping \<in> set (waiters c) \<longrightarrow> thread_data c \<noteq> None)"

lemma quiet_open: "quiet c \<longleftrightarrow> open_waits c = []"
  by (auto simp: quiet_def open_waits_def filter_empty_conv)

text \<open>The open waits after one of them changes.\<close>

lemma open_update:
  assumes "i < length ws" "ws ! i \<noteq> Returned"
  shows "length (filter (\<lambda>w. w \<noteq> Returned) (ws[i := w])) \<le> length (filter (\<lambda>w. w \<noteq> Returned) ws)"
proof -
  have "ws = take i ws @ ws ! i # drop (Suc i) ws" using assms(1) by (simp add: id_take_nth_drop)
  then have "length (filter (\<lambda>w. w \<noteq> Returned) ws) = length (filter (\<lambda>w. w \<noteq> Returned) (take i ws @ ws ! i # drop (Suc i) ws))"
    by (rule arg_cong)
  moreover have "ws[i := w] = take i ws @ w # drop (Suc i) ws" using assms(1) by (simp add: upd_conv_take_nth_drop)
  ultimately show ?thesis using assms(2) by simp
qed

lemma one_sleeper:
  assumes "length (filter (\<lambda>w. w \<noteq> Returned) ws) \<le> 1" "i < length ws" "ws ! i = Sleeping"
  shows "Sleeping \<notin> set (ws[i := Testing])"
proof -
  have "ws = take i ws @ Sleeping # drop (Suc i) ws" using id_take_nth_drop[OF assms(2)] assms(3) by simp
  then have "length (filter (\<lambda>w. w \<noteq> Returned) ws) = length (filter (\<lambda>w. w \<noteq> Returned) (take i ws @ Sleeping # drop (Suc i) ws))"
    by (rule arg_cong)
  then have "length (filter (\<lambda>w. w \<noteq> Returned) (take i ws)) = 0" "length (filter (\<lambda>w. w \<noteq> Returned) (drop (Suc i) ws)) = 0"
    using assms(1) by simp_all
  then have "Sleeping \<notin> set (take i ws)" "Sleeping \<notin> set (drop (Suc i) ws)" by (auto simp: filter_empty_conv)
  then show ?thesis using assms(2) by (simp add: upd_conv_take_nth_drop)
qed

lemma finish_wakes:
  assumes "length (open_waits c) \<le> 1"
    "(\<exists>k<length (waiters c). waiters c ! k = Sleeping) \<longrightarrow> i < length (waiters c) \<and> waiters c ! i = Sleeping"
  shows "Sleeping \<notin> set (waiters (signal_finished i c))" "length (open_waits (signal_finished i c)) \<le> 1"
proof -
  show "Sleeping \<notin> set (waiters (signal_finished i c))"
  proof (cases "\<exists>k<length (waiters c). waiters c ! k = Sleeping")
    case True
    then show ?thesis using one_sleeper[of "waiters c" i] assms by (simp add: signal_finished_def open_waits_def)
  next
    case False
    then have "Sleeping \<notin> set (waiters c)" by (auto simp: in_set_conv_nth)
    then show ?thesis using False by (auto simp: signal_finished_def)
  qed
  show "length (open_waits (signal_finished i c)) \<le> 1"
    using assms(1) open_update[of i "waiters c" Testing] by (auto simp: signal_finished_def open_waits_def)
qed

lemma thread_search_ok:
  assumes "thread_step c c'" "thread_ok c" "search_ok c"
  shows "search_ok c'"
  using assms
proof (induction rule: thread_step.induct)
  case (finish c i)
  let ?d = "c\<lparr>executed := executed c @ pending c, tstatus := THREAD_FINISHED, thread_data := None\<rparr>"
  have "length (open_waits ?d) \<le> 1" using finish.prems by (simp add: search_ok_def open_waits_def)
  then have "Sleeping \<notin> set (waiters (signal_finished i ?d))" "length (open_waits (signal_finished i ?d)) \<le> 1"
    using finish_wakes[of ?d i] finish.hyps(2) by simp_all
  then show ?case using finish.prems
    by (auto simp: search_ok_def thread_finish_def Let_def thread_loop_def signal_finished_def open_waits_def pending_def)
qed (auto simp: search_ok_def step_defs open_waits_def pending_def thread_ok_def split: option.splits)

lemma pool_search_ok: "pool_step True c c' \<Longrightarrow> thread_ok c \<Longrightarrow> search_ok c \<Longrightarrow> search_ok c'"
proof (induction rule: pool_step.induct)
  case (thread c c')
  then show ?case by (simp add: thread_search_ok)
next
  case (wait_test c i)
  have "length (open_waits (wait_round i c)) \<le> length (open_waits c)"
    unfolding open_waits_def wait_round_def using open_update[of i "waiters c"] wait_test.hyps by simp
  then have "length (open_waits (wait_round i c)) \<le> 1" using wait_test.prems by (simp add: search_ok_def)
  moreover have "Sleeping \<in> set (waiters (wait_round i c)) \<Longrightarrow> Sleeping \<in> set (waiters c) \<or> tstatus c = THREAD_BUSY"
    using set_update_subset_insert by (fastforce simp: wait_round_def split: if_splits)
  moreover have "lost (wait_round i c) = lost c" "executed (wait_round i c) = executed c" "pending (wait_round i c) = pending c"
    "pushed (wait_round i c) = pushed c" "thread_data (wait_round i c) = thread_data c" by (simp_all add: wait_round_def pending_def split: option.splits)
  ultimately show ?case using wait_test.prems by (auto simp: search_ok_def thread_ok_def)
next
  case (wait_spurious i c)
  have "Sleeping \<in> set ((waiters c)[i := Testing]) \<Longrightarrow> Sleeping \<in> set (waiters c)"
    using set_update_subset_insert by fastforce
  then show ?case using wait_spurious open_update[of i "waiters c" Testing]
    by (auto simp: search_ok_def open_waits_def)
next
  case (wait_enter c)
  then show ?case by (auto simp: search_ok_def quiet_open open_waits_def)
next
  case (push c j)
  then show ?case by (auto simp: search_ok_def quiet_open push_job_def Let_def signal_start_def open_waits_def pending_def)
qed (auto simp: search_ok_def step_defs open_waits_def)

lemma pool_reachable_search: "pool_reachable True c \<Longrightarrow> search_ok c"
  unfolding pool_reachable_def
proof (induction rule: rtranclp_induct)
  case base
  then show ?case by (simp add: search_ok_def thread_context_new_def pending_def open_waits_def)
next
  case (step c c')
  then have "thread_ok c" using pool_reachable_ok by (auto simp: pool_reachable_def)
  then show ?case using step pool_search_ok by blast
qed

text \<open>The thread alone finishes the pending job.\<close>

lemma thread_finishes:
  assumes "thread_ok c" "search_ok c" "thread_data c = Some d"
  shows "\<exists>c'. thread_step\<^sup>*\<^sup>* c c' \<and> executed c' = pushed c \<and> pending c' = [] \<and> Sleeping \<notin> set (waiters c')"
proof -
  have run: "\<exists>c'. thread_step c c' \<and> executed c' = pushed c \<and> pending c' = [] \<and> Sleeping \<notin> set (waiters c')"
    if r: "pc c = Running" "thread_ok c" "search_ok c" for c
  proof -
    obtain i where i: "(\<exists>k<length (waiters c). waiters c ! k = Sleeping) \<longrightarrow> i < length (waiters c) \<and> waiters c ! i = Sleeping" by blast
    then have s: "thread_step c (thread_finish i c)" by (rule thread_step.finish[OF r(1)])
    have "search_ok (thread_finish i c)" by (rule thread_search_ok[OF s r(2,3)])
    moreover have "executed (thread_finish i c) = executed c @ pending c" "thread_data (thread_finish i c) = None"
      by (simp_all add: thread_finish_def Let_def thread_loop_def signal_finished_def)
    ultimately show ?thesis using s r(3) by (auto simp: search_ok_def pending_def)
  qed
  have "pc c = Woken \<or> pc c = Running" using assms(1,3) by (auto simp: thread_ok_def)
  then show ?thesis
  proof
    assume w: "pc c = Woken"
    have s: "thread_step c (thread_wake c)" by (rule thread_step.wake[OF w])
    have "pc (thread_wake c) = Running" "pushed (thread_wake c) = pushed c" using assms(3) by (simp_all add: thread_wake_def Let_def)
    then show ?thesis using run[of "thread_wake c"] thread_step_ok[OF s assms(1)] thread_search_ok[OF s assms(1,2)]
      by (metis converse_rtranclp_into_rtranclp r_into_rtranclp s)
  next
    assume "pc c = Running"
    then show ?thesis using run assms(1,2) by blast
  qed
qed

text \<open>The joining in \<open>thread_context_free\<close> returns: the thread, told to stop, ends, after the pending job.\<close>

lemma finish_exits: "terminate c \<Longrightarrow> pc (thread_finish i c) = Exited"
  by (simp add: thread_finish_def Let_def thread_loop_def signal_finished_def)

lemma running_exits:
  assumes "pc c = Running" "terminate c"
  shows "\<exists>c'. thread_step c c' \<and> pc c' = Exited"
proof -
  obtain i where "(\<exists>k<length (waiters c). waiters c ! k = Sleeping) \<longrightarrow> i < length (waiters c) \<and> waiters c ! i = Sleeping" by blast
  then show ?thesis using thread_step.finish[OF assms(1)] finish_exits[OF assms(2)] by blast
qed

lemma thread_exits:
  assumes "thread_ok c"
  shows "\<exists>c'. thread_step\<^sup>*\<^sup>* (thread_context_free c) c' \<and> pc c' = Exited"
proof -
  define d where "d = thread_context_free c"
  have t: "terminate d" and w: "pc d \<noteq> Waiting" by (simp_all add: d_def thread_context_free_def signal_start_def)
  show ?thesis unfolding d_def[symmetric]
  proof (cases "pc d")
    case Created
    then have "thread_step d (thread_loop d)" by (rule thread_step.enter)
    moreover have "pc (thread_loop d) = Exited" using t by (simp add: thread_loop_def)
    ultimately show "\<exists>c'. thread_step\<^sup>*\<^sup>* d c' \<and> pc c' = Exited" by blast
  next
    case Woken
    then have s: "thread_step d (thread_wake d)" by (rule thread_step.wake)
    have "pc (thread_wake d) \<in> {Running, Exited}" "terminate (thread_wake d)" using t by (simp_all add: thread_wake_def Let_def thread_loop_def)
    then show "\<exists>c'. thread_step\<^sup>*\<^sup>* d c' \<and> pc c' = Exited" using s running_exits[of "thread_wake d"]
      by (metis converse_rtranclp_into_rtranclp insertE r_into_rtranclp singletonD)
  next
    case Running
    then show "\<exists>c'. thread_step\<^sup>*\<^sup>* d c' \<and> pc c' = Exited" using running_exits[OF Running t] by blast
  qed (use w in auto)
qed

subsection \<open>The searches\<close>

text \<open>C33: the threads of a search.  As long as one search at a time uses the pool, no wake-up is lost and no
  job: the executed jobs are the pushed ones in their order, but for the pending one.  When
  \<open>fsearch_thread_pool_wait_for_thread\<close> returns, every pushed job has been executed, and while it sleeps
  the thread by itself executes the pending job and wakes it.\<close>

theorem pool_runs_every_job:
  assumes "pool_reachable True c"
  shows "executed c @ pending c = pushed c
    \<and> (i < length (waiters c) \<and> waiters (wait_round i c) ! i = Returned \<longrightarrow> executed c = pushed c)
    \<and> (Sleeping \<in> set (waiters c) \<longrightarrow>
        (\<exists>c'. thread_step\<^sup>*\<^sup>* c c' \<and> executed c' = pushed c \<and> pending c' = [] \<and> Sleeping \<notin> set (waiters c')))"
proof -
  have ok: "thread_ok c" "search_ok c" using assms pool_reachable_ok pool_reachable_search by blast+
  have "executed c = pushed c" if "i < length (waiters c)" "waiters (wait_round i c) ! i = Returned"
    using that ok by (auto simp: wait_round_def search_ok_def thread_ok_def pending_def split: if_splits option.splits)
  moreover have "\<exists>c'. thread_step\<^sup>*\<^sup>* c c' \<and> executed c' = pushed c \<and> pending c' = [] \<and> Sleeping \<notin> set (waiters c')"
    if s: "Sleeping \<in> set (waiters c)"
  proof -
    obtain d where "thread_data c = Some d" using s ok(2) by (auto simp: search_ok_def)
    then show ?thesis by (rule thread_finishes[OF ok])
  qed
  ultimately show ?thesis using ok(2) by (auto simp: search_ok_def)
qed

text \<open>A thread with one job, whose search waits.\<close>

definition searching :: thread_context where
  "searching = wait_round 0 (push_job (1, 5) (thread_loop thread_context_new)\<lparr>waiters := [Testing]\<rparr>)"

lemma searching_reachable: "pool_reachable True searching"
proof -
  let ?a = "thread_loop thread_context_new"
  have "pool_step True thread_context_new ?a" by (intro pool_step.thread thread_step.enter) (simp add: thread_context_new_def)
  moreover have "pool_step True ?a (push_job (1, 5) ?a)"
    by (rule pool_step.push) (simp_all add: thread_loop_def thread_context_new_def quiet_def)
  moreover have "pool_step True (push_job (1, 5) ?a) (push_job (1, 5) ?a\<lparr>waiters := [Testing]\<rparr>)"
    using pool_step.wait_enter[of True "push_job (1, 5) ?a"]
    by (simp add: quiet_def push_job_def signal_start_def thread_loop_def thread_context_new_def)
  moreover have "pool_step True (push_job (1, 5) ?a\<lparr>waiters := [Testing]\<rparr>) searching"
    unfolding searching_def by (rule pool_step.wait_test) (simp_all add: push_job_def signal_start_def thread_loop_def thread_context_new_def)
  ultimately show ?thesis unfolding pool_reachable_def by (meson rtranclp.rtrancl_into_rtrancl rtranclp.rtrancl_refl)
qed

theorem pool_runs_every_job_witness:
  "pushed searching = [(1, 5)] \<and> Sleeping \<in> set (waiters searching)
    \<and> (\<exists>c'. thread_step\<^sup>*\<^sup>* searching c' \<and> executed c' = [(1, 5)] \<and> pending c' = [] \<and> Sleeping \<notin> set (waiters c'))"
proof -
  have "pushed searching = [(1, 5)]" "Sleeping \<in> set (waiters searching)" by code_simp+
  then show ?thesis using pool_runs_every_job[OF searching_reachable] by simp
qed

text \<open>A defect: nothing keeps two searches from using the pool together, both hold only the read lock of
  the buffer.  If the second pushes its job before the thread has taken the first, the job of the
  first is lost: its part of the buffer is not searched.  And the end of the job wakes only one
  of the two; the other sleeps although there is nothing left to do.\<close>

lemma shared_pool_loses_job:
  "\<exists>c. pool_reachable False c \<and> pushed c = [(1, 5), (1, 6)] \<and> executed c = [(1, 6)] \<and> waiters c = [Sleeping, Testing]
    \<and> pc c = Waiting \<and> thread_data c = None"
proof -
  let ?a = "thread_loop thread_context_new"
  define b where "b = push_job (1, 5) ?a"
  define d where "d = push_job (1, 6) b"
  define e1 where "e1 = d\<lparr>waiters := waiters d @ [Testing]\<rparr>"
  define e2 where "e2 = e1\<lparr>waiters := waiters e1 @ [Testing]\<rparr>"
  define f1 where "f1 = wait_round 0 e2"
  define f2 where "f2 = wait_round 1 f1"
  define g where "g = thread_wake f2"
  define h where "h = thread_finish 1 g"
  note defs = b_def d_def e1_def e2_def f1_def f2_def g_def h_def
  have "pool_step False thread_context_new ?a" by (intro pool_step.thread thread_step.enter) (simp add: thread_context_new_def)
  moreover have "pool_step False ?a b" "pool_step False b d" unfolding b_def d_def
    by (rule pool_step.push; simp add: step_defs thread_context_new_def)+
  moreover have "pool_step False d e1" "pool_step False e1 e2" unfolding e1_def e2_def by (rule pool_step.wait_enter; simp)+
  moreover have "pool_step False e2 f1" "pool_step False f1 f2" unfolding f1_def f2_def
    by (rule pool_step.wait_test; simp add: e1_def e2_def f1_def b_def d_def step_defs thread_context_new_def)+
  moreover have "pool_step False f2 g" unfolding g_def
    by (intro pool_step.thread thread_step.wake) (simp add: e1_def e2_def f1_def f2_def b_def d_def step_defs thread_context_new_def)
  moreover have "pool_step False g h" unfolding h_def
    by (intro pool_step.thread thread_step.finish; simp add: e1_def e2_def f1_def f2_def g_def b_def d_def step_defs thread_context_new_def)
  ultimately have "pool_reachable False h" unfolding pool_reachable_def by (meson rtranclp.rtrancl_into_rtrancl rtranclp.rtrancl_refl)
  moreover have "pushed h = [(1, 5), (1, 6)] \<and> executed h = [(1, 6)] \<and> waiters h = [Sleeping, Testing] \<and> pc h = Waiting \<and> thread_data h = None"
    unfolding defs by code_simp
  ultimately show ?thesis by blast
qed

end
