(* ===== verification/Mount_Cacher.thy ===== *)
theory Mount_Cacher
  imports Prelude
begin

text \<open>
  The table of the mount points that the server keeps
  (\<open>src/src/server/backend/lib/mountcacher.cpp\<close>): reading it, the search for the mount point of a path
  upwards, and the look-ups by target and by root.

  A \<open>QString\<close> is the list of its bytes in the local encoding.  \<open>mnt_get_mountpoint\<close> of libmount,
  \<open>lstat\<close> and \<open>QFileInfo::absolutePath\<close> are the parameters of the model.  Of the first the theorems assume that it gives the
  nearest mounted folder above a path that exists, and NULL for one that does not (\<open>mnt_contract\<close>).
\<close>

subsection \<open>The table\<close>

type_synonym devno = "nat \<times> nat"

abbreviation (input) dev_major :: "devno \<Rightarrow> nat" where "dev_major \<equiv> fst"

text \<open>A row of the table of libmount, and an entry of the cache.\<close>

record libmnt_fs =
  mnt_devno :: devno
  mnt_fstype :: cstring
  mnt_source :: cstring
  mnt_target :: cstring
  mnt_root :: cstring

record MountPoint =
  mountedSource :: cstring
  realDevice :: cstring
  mountTarget :: cstring
  mountRoot :: cstring
  mountType :: cstring
  deviceId :: devno

text \<open>\<open>"fuse.dlnfs"\<close>.\<close>

definition DLNFS :: cstring where
  "DLNFS = [102, 117, 115, 101, 46, 100, 108, 110, 102, 115]"

definition mount_info :: "libmnt_fs \<Rightarrow> MountPoint" where
  "mount_info fs = \<lparr>mountedSource = mnt_source fs, realDevice = mnt_source fs, mountTarget = mnt_target fs,
     mountRoot = mnt_root fs, mountType = mnt_fstype fs, deviceId = mnt_devno fs\<rparr>"

fun collect_mounts :: "libmnt_fs list \<Rightarrow> MountPoint list \<Rightarrow> MountPoint list" where
  "collect_mounts [] mps = mps"
| "collect_mounts (fs # rows) mps =
    (if dev_major (mnt_devno fs) = 0 \<and> mnt_fstype fs \<noteq> DLNFS then collect_mounts rows mps
     else collect_mounts rows (mps @ [mount_info fs]))"

text \<open>The outcome of reading \<open>/proc/self/mountinfo\<close>: no memory for a table, an error, or the rows.\<close>

datatype mtab = No_table | Parse_error | Rows "libmnt_fs list"

definition updateMountPoints :: "mtab \<Rightarrow> MountPoint list \<Rightarrow> bool \<times> MountPoint list" where
  "updateMountPoints tb mps =
    (case tb of No_table \<Rightarrow> (False, mps)
     | Parse_error \<Rightarrow> (False, mps)
     | Rows rows \<Rightarrow> (True, collect_mounts rows []))"

subsection \<open>The mount point of a path\<close>

record mount_os =
  path_lstat :: "cstring \<Rightarrow> (bool \<times> devno) option"
  absolutePath :: "cstring \<Rightarrow> cstring"
  mnt_get_mountpoint :: "cstring \<Rightarrow> cstring option"

text \<open>The folder of a link, when it is on the same device: \<open>mnt_get_mountpoint\<close> would follow the link.\<close>

definition result_path0 :: "mount_os \<Rightarrow> cstring \<Rightarrow> cstring" where
  "result_path0 os path =
    (case path_lstat os path of None \<Rightarrow> path
     | Some (is_link, dev) \<Rightarrow>
         if is_link then
           (case path_lstat os (absolutePath os path) of None \<Rightarrow> path
            | Some (_, parent_dev) \<Rightarrow> if dev = parent_dev then absolutePath os path else path)
         else path)"

definition virtual_mount :: "MountPoint list \<Rightarrow> cstring \<Rightarrow> bool" where
  "virtual_mount mps p = list_ex (\<lambda>info. p = mountTarget info \<and> dev_major (deviceId info) = 0) mps"

text \<open>\<open>result_path.left(last_dir_split_pos)\<close>, the root instead of the empty path.\<close>

definition upper_path :: "cstring \<Rightarrow> nat \<Rightarrow> cstring" where
  "upper_path p i = (if take i p = [] then [slash] else take i p)"

partial_function (option) find_mount_loop :: "mount_os \<Rightarrow> MountPoint list \<Rightarrow> bool \<Rightarrow> cstring \<Rightarrow> cstring \<Rightarrow> cstring option" where
  "find_mount_loop os mps hardreal result result_path =
    (let mount_point = mnt_get_mountpoint os result_path;
         result = (case mount_point of None \<Rightarrow> result | Some m \<Rightarrow> m);
         find_virtual = (mount_point \<noteq> None \<and> hardreal \<and> virtual_mount mps result);
         result_path = (if find_virtual then result else result_path)
     in if mount_point \<noteq> None \<and> \<not> find_virtual then Some result
        else if result_path = [slash] then Some result_path
        else case strrchr result_path slash of None \<Rightarrow> Some result
          | Some i \<Rightarrow> find_mount_loop os mps hardreal result (upper_path result_path i))"

definition findMountPointByPath :: "mount_os \<Rightarrow> MountPoint list \<Rightarrow> cstring \<Rightarrow> bool \<Rightarrow> cstring option" where
  "findMountPointByPath os mps path hardreal = find_mount_loop os mps hardreal [] (result_path0 os path)"

subsection \<open>Look-ups\<close>

definition pathMatchType :: "mount_os \<Rightarrow> MountPoint list \<Rightarrow> cstring \<Rightarrow> cstring \<Rightarrow> bool option" where
  "pathMatchType os mps path type = do {
     point \<leftarrow> findMountPointByPath os mps path False;
     Some (list_ex (\<lambda>info. point = mountTarget info \<and> type = mountType info) mps) }"

text \<open>The map of the roots: a later entry of the same target replaces an earlier one.  A mount point of
  udisks ends with a NUL that \<open>fromLocal8Bit(constData())\<close> cuts off.\<close>

definition until_nul :: "cstring \<Rightarrow> cstring" where
  "until_nul p = takeWhile (\<lambda>c. c \<noteq> 0) p"

fun roots_of_point :: "(cstring \<Rightarrow> cstring) \<Rightarrow> cstring \<Rightarrow> MountPoint list \<Rightarrow> (cstring \<Rightarrow> cstring option) \<Rightarrow> (cstring \<Rightarrow> cstring option)" where
  "roots_of_point target point [] rmap = rmap"
| "roots_of_point target point (info # mps) rmap =
    roots_of_point target point mps (if target point = mountTarget info then rmap(point \<mapsto> mountRoot info) else rmap)"

definition getRootsByPoints :: "MountPoint list \<Rightarrow> cstring list \<Rightarrow> cstring \<Rightarrow> cstring option" where
  "getRootsByPoints mps points = fold (\<lambda>point. roots_of_point until_nul point mps) points Map.empty"

definition getRootsByStrPoints :: "MountPoint list \<Rightarrow> cstring list \<Rightarrow> cstring \<Rightarrow> cstring option" where
  "getRootsByStrPoints mps points = fold (\<lambda>point. roots_of_point id point mps) points Map.empty"

definition getDeviceByPoint :: "MountPoint list \<Rightarrow> cstring \<Rightarrow> cstring" where
  "getDeviceByPoint mps point =
    (case find (\<lambda>info. point = mountTarget info) mps of None \<Rightarrow> [] | Some info \<Rightarrow> realDevice info)"

text \<open>\<open>None\<close>: the null string.\<close>

definition getMountPointsByRoot :: "MountPoint list \<Rightarrow> cstring option \<Rightarrow> MountPoint list" where
  "getMountPointsByRoot mps root =
    (case root of None \<Rightarrow> mps
     | Some r \<Rightarrow> if cchar r 0 \<noteq> slash then mps else filter (\<lambda>info. r = mountRoot info) mps)"

subsection \<open>The folders above a path\<close>

function ancestors :: "cstring \<Rightarrow> cstring list" where
  "ancestors p = (if p = [slash] then [p]
     else case strrchr p slash of None \<Rightarrow> [p] | Some i \<Rightarrow> p # ancestors (upper_path p i))"
  by pat_completeness auto

lemma upper_shorter:
  assumes "strrchr p slash = Some i" "p \<noteq> [slash]"
  shows "length (upper_path p i) < length p"
proof -
  obtain u v where p: "p = u @ slash # v" "length u = i" using assms(1) by (auto simp: strrchr_Some)
  show ?thesis
  proof (cases u)
    case Nil
    then have "v \<noteq> []" using assms(2) p by auto
    then show ?thesis using p Nil by (cases v) (simp_all add: upper_path_def)
  qed (use p in \<open>auto simp: upper_path_def\<close>)
qed

termination ancestors
  by (relation "measure length") (auto simp: upper_shorter)

declare ancestors.simps [simp del]

definition absolute :: "cstring \<Rightarrow> bool" where
  "absolute p \<longleftrightarrow> p \<noteq> [] \<and> hd p = slash"

lemma absolute_cases:
  assumes "absolute p"
  obtains (root) "p = [slash]" "ancestors p = [p]"
  | (below) i where "p \<noteq> [slash]" "strrchr p slash = Some i" "absolute (upper_path p i)"
      "length (upper_path p i) < length p" "ancestors p = p # ancestors (upper_path p i)"
proof (cases "p = [slash]")
  case True
  then show ?thesis using root by (simp add: ancestors.simps)
next
  case False
  from assms obtain q where q: "p = slash # q" by (cases p) (auto simp: absolute_def)
  then have "strrchr p slash \<noteq> None" by (simp add: strrchr_None del: strrchr.simps)
  then obtain i where i: "strrchr p slash = Some i" by (simp only: not_None_eq) blast
  have "absolute (upper_path p i)" using q by (cases i) (simp_all add: absolute_def upper_path_def)
  then show ?thesis
    using below[OF False i] False i upper_shorter[OF i False] ancestors.simps[of p] by simp
qed

lemma absolute_induct [consumes 1, case_names root below]:
  assumes "absolute p" "P [slash]"
    and "\<And>p i. absolute p \<Longrightarrow> p \<noteq> [slash] \<Longrightarrow> strrchr p slash = Some i \<Longrightarrow> absolute (upper_path p i)
      \<Longrightarrow> ancestors p = p # ancestors (upper_path p i) \<Longrightarrow> P (upper_path p i) \<Longrightarrow> P p"
  shows "P p"
  using assms(1)
proof (induction p rule: measure_induct_rule[of length])
  case (less p)
  show ?case using less.prems
  proof (cases rule: absolute_cases)
    case root
    then show ?thesis using assms(2) by simp
  next
    case (below i)
    then show ?thesis using assms(3) less by blast
  qed
qed

text \<open>The contract of libmount.  \<open>mnt_get_mountpoint\<close> calls \<open>stat\<close> for the path and returns NULL when that fails;
  otherwise it climbs as long as the device of the folder above is the same.  So a folder is \<open>mounted\<close> when
  it is the root or lies on another device than the folder above it, \<open>present\<close> are the paths that
  can be stat'ed, and the call returns the nearest of the mounted folders above a path that is present.\<close>

definition mnt_contract :: "mount_os \<Rightarrow> (cstring \<Rightarrow> bool) \<Rightarrow> bool" where
  "mnt_contract os mounted \<longleftrightarrow> (\<exists>present. (\<forall>p. mounted p \<longrightarrow> present p)
     \<and> (\<forall>p. absolute p \<longrightarrow> mnt_get_mountpoint os p = (if present p then find mounted (ancestors p) else None)))"

lemma mnt_contractD:
  assumes "mnt_contract os mounted" "absolute p"
  shows "mnt_get_mountpoint os p = find mounted (ancestors p) \<or> mnt_get_mountpoint os p = None \<and> \<not> mounted p"
  using assms unfolding mnt_contract_def by metis

lemma find_ancestors:
  assumes "absolute p" "find mounted (ancestors p) = Some m"
  shows "absolute m \<and> mounted m \<and> length m \<le> length p
    \<and> find (\<lambda>a. mounted a \<and> Q a) (ancestors p) = find (\<lambda>a. mounted a \<and> Q a) (ancestors m)"
  using assms
proof (induction p rule: absolute_induct)
  case root
  then have "m = [slash]" "mounted m" by (simp_all add: ancestors.simps[of "[slash]"] split: if_splits)
  then show ?case by (simp add: absolute_def)
next
  case (below p i)
  have "length (upper_path p i) < length p" using upper_shorter below by blast
  then show ?case using below by (auto split: if_splits)
qed

text \<open>The mount point that the search is to find: the nearest one, of a real device if \<open>hardreal\<close>.\<close>

definition mount_above :: "MountPoint list \<Rightarrow> (cstring \<Rightarrow> bool) \<Rightarrow> bool \<Rightarrow> cstring \<Rightarrow> cstring" where
  "mount_above mps mounted hardreal p =
    (case find (\<lambda>a. mounted a \<and> \<not> (hardreal \<and> virtual_mount mps a)) (ancestors p) of
       None \<Rightarrow> [slash] | Some a \<Rightarrow> a)"

lemma mount_above_root: "mount_above mps mounted h [slash] = [slash]"
  by (simp add: mount_above_def ancestors.simps[of "[slash]"])

lemma find_mount_loop_above:
  assumes "mnt_contract os mounted" "absolute p"
  shows "find_mount_loop os mps h r p = Some (mount_above mps mounted h p)"
  using assms(2)
proof (induction p arbitrary: r rule: measure_induct_rule[of length])
  case (less p)
  let ?Q = "\<lambda>a. \<not> (h \<and> virtual_mount mps a)"
  note contract = mnt_contractD[OF assms(1) less.prems]
  show ?case
  proof (cases "mnt_get_mountpoint os p")
    case c: None
    show ?thesis using less.prems
    proof (cases rule: absolute_cases)
      case root
      then show ?thesis using c by (subst find_mount_loop.simps) (simp add: Let_def mount_above_root)
    next
      case (below i)
      have "\<not> mounted p" using contract c below(5) by (auto split: if_splits)
      then have "mount_above mps mounted h p = mount_above mps mounted h (upper_path p i)"
        using below(5) by (simp add: mount_above_def)
      then show ?thesis
        using c below less.IH[OF below(4,3), of r] by (subst find_mount_loop.simps) (simp add: Let_def)
    qed
  next
    case c: (Some m)
    then have Some: "find mounted (ancestors p) = Some m" using contract by simp
    note m = find_ancestors[OF less.prems Some, of ?Q]
    have above: "mount_above mps mounted h p = mount_above mps mounted h m"
      using m by (simp add: mount_above_def)
    show ?thesis
    proof (cases "?Q m")
      case True
      have "ancestors m = m # tl (ancestors m)" using m by (auto elim: absolute_cases)
      then have "find (\<lambda>a. mounted a \<and> ?Q a) (ancestors m) = Some m"
        using True m by (metis (mono_tags, lifting) find.simps(2))
      then have "mount_above mps mounted h m = m" by (simp add: mount_above_def)
      then show ?thesis using c Some True above by (subst find_mount_loop.simps) (simp add: Let_def)
    next
      case False
      then have v: "h" "virtual_mount mps m" by auto
      have "absolute m" using m by simp
      then show ?thesis
      proof (cases rule: absolute_cases)
        case root
        then show ?thesis
          using c Some v above by (subst find_mount_loop.simps) (simp add: Let_def mount_above_root)
      next
        case (below i)
        have "length (upper_path m i) < length p" using below(4) m by linarith
        moreover have "mount_above mps mounted h m = mount_above mps mounted h (upper_path m i)"
          using below(5) v by (simp add: mount_above_def)
        ultimately show ?thesis
          using c Some v above below less.IH[OF _ below(3), of m]
          by (subst find_mount_loop.simps) (simp add: Let_def)
      qed
    qed
  qed
qed


subsection \<open>The look-ups\<close>

lemma collect_mounts_eq:
  "collect_mounts rows mps = mps @ map mount_info
     (filter (\<lambda>fs. dev_major (mnt_devno fs) \<noteq> 0 \<or> mnt_fstype fs = DLNFS) rows)"
  by (induction rows arbitrary: mps) auto

text \<open>What \<open>updateMountPoints\<close> leaves out, so that only the virtual file system of long names has the
  major number 0 in the table.\<close>

lemma virtual_is_dlnfs:
  assumes "updateMountPoints tb mps0 = (True, mps)" "virtual_mount mps p"
  shows "\<exists>info\<in>set mps. mountTarget info = p \<and> mountType info = DLNFS"
proof -
  obtain rows where mps: "mps = collect_mounts rows []"
    using assms(1) by (cases tb) (auto simp: updateMountPoints_def)
  from assms(2) obtain info where i: "info \<in> set mps" "p = mountTarget info" "dev_major (deviceId info) = 0"
    by (auto simp: virtual_mount_def list_ex_iff)
  then have "mountType info = DLNFS" by (auto simp: mps collect_mounts_eq mount_info_def)
  then show ?thesis using i by blast
qed

lemma roots_of_point_eq:
  "roots_of_point target point mps rmap =
    (case find (\<lambda>info. target point = mountTarget info) (rev mps) of None \<Rightarrow> rmap
     | Some info \<Rightarrow> rmap(point \<mapsto> mountRoot info))"
proof (induction mps arbitrary: rmap)
  case (Cons info mps)
  have "find P (xs @ [x]) = (case find P xs of None \<Rightarrow> if P x then Some x else None | Some y \<Rightarrow> Some y)"
    for P and xs :: "MountPoint list" and x by (induction xs) auto
  then show ?case by (simp add: Cons.IH split: option.splits)
qed simp

lemma getRootsByPoints_one:
  "getRootsByPoints mps [point] point
    = map_option mountRoot (find (\<lambda>info. until_nul point = mountTarget info) (rev mps))"
  by (simp add: getRootsByPoints_def roots_of_point_eq split: option.splits)

text \<open>A mount point that is mounted over: the root is that of the last entry of the table, the device
  that of the first.\<close>

lemma covered_mount_point:
  "getRootsByPoints [mp, mp'] [mountTarget mp'] (mountTarget mp') = Some (mountRoot mp')
    \<and> getDeviceByPoint [mp, mp'] (mountTarget mp') = realDevice mp"
  if "mountTarget mp = mountTarget mp'" "0 \<notin> set (mountTarget mp')"
proof -
  have "until_nul (mountTarget mp') = mountTarget mp'" using that(2) by (auto simp: until_nul_def takeWhile_eq_all_conv)
  then show ?thesis using that(1) by (simp add: getRootsByPoints_one getDeviceByPoint_def)
qed

subsection \<open>Claim\<close>

text \<open>C26: \<open>findMountPointByPath\<close>.  With the \<open>mnt_get_mountpoint\<close> of libmount, which returns NULL for
  a path that does not exist, the loop ends for every absolute path, existing or not, and its result is the
  nearest mounted folder above the path (for a symbolic link on the device of its folder: above that folder) -
  with \<open>hardreal\<close> the nearest one that is not the target of an entry of the table whose major number is 0 -
  and the root if there is none.\<close>

theorem findMountPointByPath_nearest:
  assumes "mnt_contract os mounted" "absolute (result_path0 os path)"
  shows "findMountPointByPath os mps path hardreal
    = Some (mount_above mps mounted hardreal (result_path0 os path))"
  using find_mount_loop_above[OF assms] by (simp add: findMountPointByPath_def)

text \<open>\<open>/d\<close> is a partition, \<open>/d/u\<close> the long name file system below it.  Nothing else exists: for
  \<open>/d/u/x/y\<close> the loop climbs twice before it finds a mount point.\<close>

definition sample_mounted :: "cstring \<Rightarrow> bool" where
  "sample_mounted p \<longleftrightarrow> p \<in> set [[47], [47, 100], [47, 100, 47, 117]]"

definition sample_os :: mount_os where
  "sample_os = \<lparr>path_lstat = (\<lambda>p. None), absolutePath = id, 
     mnt_get_mountpoint = (\<lambda>p. if sample_mounted p then find sample_mounted (ancestors p) else None)\<rparr>"

definition sample_mps :: "MountPoint list" where
  "sample_mps = collect_mounts
     [\<lparr>mnt_devno = (8, 1), mnt_fstype = [101], mnt_source = [65], mnt_target = [47, 100], mnt_root = [47]\<rparr>,
      \<lparr>mnt_devno = (0, 52), mnt_fstype = DLNFS, mnt_source = [66], mnt_target = [47, 100, 47, 117], mnt_root = [47]\<rparr>] []"

theorem findMountPointByPath_nearest_witness:
  "mnt_get_mountpoint sample_os [47, 100, 47, 117, 47, 120, 47, 121] = None
    \<and> findMountPointByPath sample_os sample_mps [47, 100, 47, 117, 47, 120, 47, 121] True = Some [47, 100]"
proof -
  have c: "mnt_contract sample_os sample_mounted"
    by (auto simp: mnt_contract_def sample_os_def intro!: exI[of _ sample_mounted])
  have r: "result_path0 sample_os p = p" for p by (simp add: result_path0_def sample_os_def)
  have "mount_above sample_mps sample_mounted True [47, 100, 47, 117, 47, 120, 47, 121] = [47, 100]"
    by (simp add: mount_above_def ancestors.simps upper_path_def sample_mounted_def sample_mps_def
        virtual_mount_def mount_info_def)
  then show ?thesis
    using findMountPointByPath_nearest[OF c, of "[47, 100, 47, 117, 47, 120, 47, 121]" sample_mps True]
    by (simp add: r absolute_def) (simp add: sample_os_def sample_mounted_def)
qed

end
