(* ===== verification/Lft_Disk_Tool.thy ===== *)
theory Lft_Disk_Tool
  imports Mount_Cacher
begin

text \<open>
  The names of index files (\<open>src/src/server/backend/lib/lftdisktool.cpp\<close>): a path becomes the URI
  \<open>serial:<block id><root of the mount><rest>\<close>, and the URI all the paths at which the folder is
  mounted now.  The block devices of udisks2 are a parameter.
\<close>

subsection \<open>Block devices\<close>

text \<open>The mount points of udisks2 end with a NUL.\<close>

record block_device =
  block_id :: cstring
  isLoopDevice :: bool
  mountPoints :: "cstring list"

record disk_manager =
  blockPartitionByMountPoint :: "cstring \<Rightarrow> block_device option"
  blockDevices :: "block_device list"

definition starts_with :: "cstring \<Rightarrow> cstring \<Rightarrow> bool" where
  "starts_with s p \<longleftrightarrow> take (length p) s = p"

text \<open>\<open>QString::size\<close>: the number of UTF-16 units of a text that is stored as UTF-8.\<close>

definition qsize :: "cstring \<Rightarrow> nat" where
  "qsize s = sum_list (map (\<lambda>c :: byte. if 128 \<le> c \<and> c < 192 then 0 else if 240 \<le> c then 2 else 1) s)"

lemma qsize_ascii: "\<forall>c\<in>set s. c < 128 \<Longrightarrow> qsize s = length s"
proof (induction s)
  case (Cons c s)
  then have "c < 128" "qsize s = length s" by simp_all
  moreover have "\<not> 128 \<le> c" "\<not> 240 \<le> c"
    using \<open>c < 128\<close> by (simp_all add: word_less_nat_alt word_le_nat_alt)
  ultimately show ?case by (simp add: qsize_def)
qed (simp add: qsize_def)

text \<open>\<open>QString::right\<close>: the whole string when the length does not fit.\<close>

definition right_of :: "cstring \<Rightarrow> int \<Rightarrow> cstring" where
  "right_of s n = (if n < 0 \<or> n \<ge> int (length s) then s else drop (length s - nat n) s)"

text \<open>\<open>"serial:"\<close>, \<open>"/dev/"\<close>, \<open>"/dev/loop"\<close>, \<open>"/dev/fuse"\<close>.\<close>

definition SERIAL :: cstring where "SERIAL = [115, 101, 114, 105, 97, 108, 58]"
definition DEV :: cstring where "DEV = [47, 100, 101, 118, 47]"
definition DEV_LOOP :: cstring where "DEV_LOOP = DEV @ [108, 111, 111, 112]"
definition DEV_FUSE :: cstring where "DEV_FUSE = DEV @ [102, 117, 115, 101]"

subsection \<open>From a path to its URI\<close>

text \<open>The empty string: there is no URI.\<close>

definition pathToSerialUri :: "mount_os \<Rightarrow> MountPoint list \<Rightarrow> disk_manager \<Rightarrow> cstring \<Rightarrow> cstring option" where
  "pathToSerialUri os mps dm path = do {
     mountPoint \<leftarrow> findMountPointByPath os mps path False;
     if mountPoint = [] then Some []
     else
       let device = getDeviceByPoint mps mountPoint
       in if \<not> starts_with device DEV \<or> starts_with device DEV_LOOP \<or> device = DEV_FUSE then Some []
       else case blockPartitionByMountPoint dm (path @ [0]) of
         None \<Rightarrow> Some []
       | Some block_obj \<Rightarrow>
         if isLoopDevice block_obj then Some []
         else if block_id block_obj = [] then Some []
         else
           let mount_root_path = (case getRootsByPoints mps [mountPoint] mountPoint of None \<Rightarrow> [] | Some r \<Rightarrow> r);
               mount_root_path = (if mount_root_path = [] then [slash] else mount_root_path);
               right_length = int (length path) - int (length mountPoint)
           in Some (SERIAL @ block_id block_obj @ mount_root_path @ right_of path right_length) }"

subsection \<open>From a URI to the paths\<close>

fun index_of :: "byte \<Rightarrow> cstring \<Rightarrow> nat option" where
  "index_of c [] = None"
| "index_of c (x # xs) = (if x = c then Some 0 else map_option Suc (index_of c xs))"

definition join_mount :: "cstring \<Rightarrow> cstring \<Rightarrow> cstring" where
  "join_mount mount_point new_path =
    (if new_path = [] then mount_point
     else (if mount_point \<noteq> [] \<and> last mount_point = slash then mount_point else mount_point @ [slash]) @ new_path)"

fun paths_of_mounts :: "(cstring \<Rightarrow> cstring option) \<Rightarrow> cstring \<Rightarrow> cstring list \<Rightarrow> cstring list" where
  "paths_of_mounts infos path [] = []"
| "paths_of_mounts infos path (mount_point # mounts) =
    (let root = (case infos mount_point of None \<Rightarrow> [] | Some r \<Rightarrow> r);
         mp = butlast mount_point
     in if root \<noteq> [] \<and> \<not> starts_with path root then paths_of_mounts infos path mounts
        else join_mount mp (if root \<noteq> [] then drop (qsize root) path else path) # paths_of_mounts infos path mounts)"

definition fromSerialUri :: "MountPoint list \<Rightarrow> disk_manager \<Rightarrow> cstring \<Rightarrow> cstring list" where
  "fromSerialUri mps dm uri =
    (if \<not> starts_with uri SERIAL then []
     else case index_of slash (drop 7 uri) of
       None \<Rightarrow> []
     | Some n \<Rightarrow>
       let the_id = take n (drop 7 uri);
           path = drop (7 + n) uri
       in if the_id = [] then []
          else case find (\<lambda>b. block_id b = the_id) (blockDevices dm) of
            None \<Rightarrow> []
          | Some block_obj \<Rightarrow>
              paths_of_mounts (getRootsByPoints mps (mountPoints block_obj)) path (mountPoints block_obj))"

subsection \<open>The round trip of a mount point\<close>

lemma index_of_append: "c \<notin> set xs \<Longrightarrow> index_of c (xs @ c # ys) = Some (length xs)"
  by (induction xs) auto

lemma paths_of_mounts_mem:
  assumes "mp \<in> set mounts" "infos mp = Some path" "path \<noteq> []" "\<forall>c\<in>set path. c < 128"
  shows "butlast mp \<in> set (paths_of_mounts infos path mounts)"
  using assms(1)
proof (induction mounts)
  case (Cons m ms)
  show ?case
  proof (cases "m = mp")
    case True
    then show ?thesis
      using assms qsize_ascii[OF assms(4)] by (simp add: Let_def starts_with_def join_mount_def)
  next
    case False
    then show ?thesis using Cons by (simp add: Let_def)
  qed
qed simp

lemma roots_of_point_other: "p \<noteq> q \<Longrightarrow> roots_of_point target p mps rmap q = rmap q"
  by (simp add: roots_of_point_eq split: option.splits)

lemma roots_of_point_same:
  "roots_of_point target p mps rmap p =
    (case find (\<lambda>info. target p = mountTarget info) (rev mps) of None \<Rightarrow> rmap p | Some info \<Rightarrow> Some (mountRoot info))"
  by (simp add: roots_of_point_eq split: option.splits)

lemma roots_fold:
  "fold (\<lambda>point. roots_of_point target point mps) ps rmap p
    = (if p \<in> set ps then (case find (\<lambda>info. target p = mountTarget info) (rev mps) of None \<Rightarrow> rmap p | Some info \<Rightarrow> Some (mountRoot info))
       else rmap p)"
proof (induction ps arbitrary: rmap)
  case (Cons q ps)
  show ?case unfolding fold.simps o_apply Cons.IH
    by (cases "p = q") (auto simp: roots_of_point_same roots_of_point_other split: option.splits)
qed simp

lemma getRootsByPoints_eq:
  "getRootsByPoints mps ps p = (if p \<in> set ps then map_option mountRoot
     (find (\<lambda>info. until_nul p = mountTarget info) (rev mps)) else None)"
  by (simp add: getRootsByPoints_def roots_fold split: option.splits)

lemma until_nul_append: "0 \<notin> set p \<Longrightarrow> until_nul p = p \<and> until_nul (p @ [0]) = p"
  by (induction p) (auto simp: until_nul_def)

text \<open>What the code relies on: the entries of the table have absolute roots (the fourth field of
  \<open>/proc/self/mountinfo\<close> begins with a slash); udisks2 gives one device for an id, an id without a slash,
  and the mount point by which it was found.\<close>

definition mounts_ok :: "MountPoint list \<Rightarrow> bool" where
  "mounts_ok mps \<longleftrightarrow> (\<forall>info\<in>set mps. absolute (mountRoot info))"

definition udisks_ok :: "disk_manager \<Rightarrow> bool" where
  "udisks_ok dm \<longleftrightarrow> (\<forall>mp d. blockPartitionByMountPoint dm mp = Some d \<longrightarrow>
     find (\<lambda>b. block_id b = block_id d) (blockDevices dm) = Some d \<and> slash \<notin> set (block_id d) \<and> mp \<in> set (mountPoints d))"

lemma serial_uri_paths:
  assumes "block_id d \<noteq> []" "slash \<notin> set (block_id d)" "absolute path"
    and "find (\<lambda>b. block_id b = block_id d) (blockDevices dm) = Some d"
  shows "fromSerialUri mps dm (SERIAL @ block_id d @ path)
    = paths_of_mounts (getRootsByPoints mps (mountPoints d)) path (mountPoints d)"
proof -
  obtain q where q: "path = slash # q" using assms(3) by (cases path) (auto simp: absolute_def)
  have "index_of slash (block_id d @ slash # q) = Some (length (block_id d))"
    using assms(2) by (rule index_of_append)
  moreover have "drop (7 + length (block_id d)) (SERIAL @ block_id d @ path) = path"
    by (simp add: SERIAL_def add.commute[of 7] flip: drop_drop)
  moreover have "take 7 (SERIAL @ xs) = SERIAL" "drop 7 (SERIAL @ xs) = xs" "length SERIAL = 7" for xs
    by (simp_all add: SERIAL_def)
  ultimately show ?thesis using assms by (simp add: fromSerialUri_def starts_with_def q Let_def)
qed

text \<open>C27: the names of index files.  Take a mount point at which a folder with an ASCII name is mounted (the
  root of a partition, \<open>/\<close>, or a folder of it; the condition is only on the mounts at this path, and it is
  needed: see \<open>cut_behind_the_root\<close> below).  The URI of the mount point, if it has one, leads back to the
  mount point: it is one of the paths that \<open>fromSerialUri\<close> returns as long as the devices are mounted as
  they were.\<close>

theorem serial_uri_roundtrip:
  assumes "findMountPointByPath os mps path False = Some path" "0 \<notin> set path"
    and "pathToSerialUri os mps dm path = Some uri" "uri \<noteq> []"
    and "mounts_ok mps" "udisks_ok dm"
    and "\<forall>info\<in>set mps. mountTarget info = path \<longrightarrow> (\<forall>c\<in>set (mountRoot info). c < 128)"
  shows "path \<in> set (fromSerialUri mps dm uri)"
proof -
  let ?r = "case getRootsByPoints mps [path] path of None \<Rightarrow> [] | Some r \<Rightarrow> r"
  obtain d where d: "blockPartitionByMountPoint dm (path @ [0]) = Some d" "block_id d \<noteq> []"
    and dev: "starts_with (getDeviceByPoint mps path) DEV"
    and uri: "uri = SERIAL @ block_id d @ (if ?r = [] then [slash] else ?r) @ right_of path 0"
    using assms(1,3,4) by (auto simp: pathToSerialUri_def Let_def split: if_splits option.splits)
  have "getDeviceByPoint mps path \<noteq> []" using dev by (auto simp: starts_with_def DEV_def)
  then have "\<exists>info\<in>set mps. path = mountTarget info"
    by (auto simp: getDeviceByPoint_def find_None_iff find_Some_iff split: option.splits)
  then obtain info where info: "find (\<lambda>info. path = mountTarget info) (rev mps) = Some info"
    by (cases "find (\<lambda>info. path = mountTarget info) (rev mps)") (auto simp: find_None_iff)
  then have mem: "info \<in> set mps" by (auto simp: find_Some_iff) (metis nth_mem set_rev length_rev)
  have at: "mountTarget info = path" using info by (auto simp: find_Some_iff)
  let ?root = "mountRoot info"
  have root: "absolute ?root" "\<forall>c\<in>set ?root. c < 128"
    using assms(5,7) mem at by (auto simp: mounts_ok_def)
  then have ne: "?root \<noteq> []" by (simp add: absolute_def)
  have r: "?r = ?root" using info until_nul_append[OF assms(2)] by (simp add: getRootsByPoints_eq)
  have "right_of path 0 = []" by (simp add: right_of_def)
  then have u: "uri = SERIAL @ block_id d @ ?root" using uri r ne by simp
  have ud: "find (\<lambda>b. block_id b = block_id d) (blockDevices dm) = Some d" "slash \<notin> set (block_id d)"
      "path @ [0] \<in> set (mountPoints d)"
    using assms(6) d(1) by (auto simp: udisks_ok_def)
  have "getRootsByPoints mps (mountPoints d) (path @ [0]) = Some ?root"
    using ud(3) info until_nul_append[OF assms(2)] by (simp add: getRootsByPoints_eq)
  from paths_of_mounts_mem[of "path @ [0]" "mountPoints d" "getRootsByPoints mps (mountPoints d)", OF ud(3) this ne root(2)]
  show ?thesis unfolding u serial_uri_paths[OF d(2) ud(2) root(1) ud(1)] by simp
qed

text \<open>One partition, mounted at \<open>/d\<close>.\<close>

definition sample_dev :: block_device where
  "sample_dev = \<lparr>block_id = [105], isLoopDevice = False, mountPoints = [[47, 100, 0]]\<rparr>"

definition sample_dm :: disk_manager where
  "sample_dm = \<lparr>blockPartitionByMountPoint = (\<lambda>mp. if mp = [47, 100, 0] then Some sample_dev else None),
     blockDevices = [sample_dev]\<rparr>"

definition sample_dev_mps :: "MountPoint list" where
  "sample_dev_mps = [\<lparr>mountedSource = DEV @ [97], realDevice = DEV @ [97], mountTarget = [47, 100], mountRoot = [47],
     mountType = [101], deviceId = (8, 1)\<rparr>]"

lemma sample_d: "findMountPointByPath sample_os sample_dev_mps [47, 100] False = Some [47, 100]"
  by (simp add: findMountPointByPath_def result_path0_def sample_os_def find_mount_loop.simps ancestors.simps
      sample_mounted_def)

lemma sample_uri: "pathToSerialUri sample_os sample_dev_mps sample_dm [47, 100] = Some (SERIAL @ [105, 47])"
proof -
  have "blockPartitionByMountPoint sample_dm ([47, 100] @ [0]) = Some sample_dev" "isLoopDevice sample_dev = False"
    "block_id sample_dev = [105]" "getDeviceByPoint sample_dev_mps [47, 100] = DEV @ [97]"
    "getRootsByPoints sample_dev_mps [[47, 100]] [47, 100] = Some [47]"
    by (simp_all add: sample_dm_def sample_dev_def sample_dev_mps_def getDeviceByPoint_def
        getRootsByPoints_eq until_nul_def)
  moreover have "starts_with (DEV @ [97]) DEV" "\<not> starts_with (DEV @ [97]) DEV_LOOP" "DEV @ [97] \<noteq> DEV_FUSE"
    by (simp_all add: starts_with_def DEV_def DEV_LOOP_def DEV_FUSE_def)
  ultimately show ?thesis
    unfolding pathToSerialUri_def sample_d by (simp add: right_of_def del: append_Cons append_Nil)
qed

theorem serial_uri_roundtrip_witness:
  "[47, 100] \<in> set (fromSerialUri sample_dev_mps sample_dm (SERIAL @ [105, 47]))"
  by (rule serial_uri_roundtrip[OF sample_d _ sample_uri])
    (simp_all add: SERIAL_def mounts_ok_def udisks_ok_def absolute_def sample_dev_mps_def sample_dm_def sample_dev_def)

subsection \<open>Where the paths are not those of the folder\<close>

text \<open>The root of a mount is cut off as a prefix of bytes: for a partition whose folder \<open>/h\<close> is mounted at
  \<open>/m\<close>, the folder \<open>/hi\<close> is given the path \<open>/m/i\<close>.\<close>

lemma root_prefix_without_boundary:
  "paths_of_mounts [[47, 109, 0] \<mapsto> [47, 104]] [47, 104, 105] [[47, 109, 0]] = [[47, 109, 47, 105]]"
  by (simp add: starts_with_def qsize_def join_mount_def)

text \<open>The root is cut off by its number of UTF-16 units: a partition whose folder \<open>/\<close>e-acute (three bytes, two
  units) is mounted at \<open>/m\<close> is given the path \<open>/m/\<close> and the last byte of the name instead of \<open>/m\<close>.\<close>

lemma cut_behind_the_root:
  "paths_of_mounts [[47, 109, 0] \<mapsto> [47, 195, 169]] [47, 195, 169] [[47, 109, 0]] = [[47, 109, 47, 169]]"
  by (simp add: starts_with_def qsize_def join_mount_def)

text \<open>A folder that is mounted on itself (\<open>mount --bind /d/h /d/h\<close>) is listed twice.\<close>

lemma self_bind_listed_twice:
  "paths_of_mounts [[47, 100, 0] \<mapsto> [47], [47, 100, 47, 104, 0] \<mapsto> [47, 104]] [47, 104] [[47, 100, 0], [47, 100, 47, 104, 0]]
    = [[47, 100, 47, 104], [47, 100, 47, 104]]"
  by (simp add: starts_with_def qsize_def join_mount_def)

end
