(* ===== verification/Event_Adaptor.thy ===== *)
theory Event_Adaptor
  imports Mount_Cacher
begin

text \<open>
  The queue between the thread that receives the events and the one that changes the indexes:
  \<open>Server::run\<close> (\<open>src/src/server/backend/server.cpp\<close>) turns an event into an action and pushes it,
  the timer of \<open>EventAdaptor\<close> (\<open>src/src/server/backend/lib/eventadaptor.cpp\<close>) takes up to 101 of them
  and hands those over that are not to be ignored.

  The two threads touch the queue under one mutex, so that pushing and one round of the timer are
  single steps on the queue.
\<close>

subsection \<open>Actions\<close>

type_synonym file_action = "cstring \<times> cstring"

text \<open>\<open>"insert:"\<close> and \<open>"remove:"\<close>.\<close>

definition INSERT_ACTION :: cstring where "INSERT_ACTION = [105, 110, 115, 101, 114, 116, 58]"
definition REMOVE_ACTION :: cstring where "REMOVE_ACTION = [114, 101, 109, 111, 118, 101, 58]"

text \<open>The switch of \<open>Server::run\<close>; an unknown action is pushed as an empty pair.\<close>

definition server_action :: "nat \<Rightarrow> cstring \<Rightarrow> cstring option \<Rightarrow> file_action" where
  "server_action action src dst =
    (if action < 4 then (INSERT_ACTION, src)
     else if action < 6 then (REMOVE_ACTION, src)
     else if action < 8 then (src, case dst of None \<Rightarrow> [] | Some d \<Rightarrow> d)
     else ([], []))"

subsection \<open>The queue\<close>

record event_adaptor =
  action_buffers :: "file_action list"
  interval :: nat

abbreviation (input) MAX_EVENT_HANDLE_COUNT_PER_CYCLE :: nat where "MAX_EVENT_HANDLE_COUNT_PER_CYCLE \<equiv> 100"
abbreviation (input) EVENT_HANDLE_CYCLE :: nat where "EVENT_HANDLE_CYCLE \<equiv> 500"

definition new_event_adaptor :: event_adaptor where
  "new_event_adaptor = \<lparr>action_buffers = [], interval = EVENT_HANDLE_CYCLE\<rparr>"

definition pushEvent :: "event_adaptor \<Rightarrow> file_action \<Rightarrow> event_adaptor" where
  "pushEvent ea a = ea\<lparr>action_buffers := action_buffers ea @ [a]\<rparr>"

definition popEvent :: "file_action list \<Rightarrow> (file_action \<times> file_action list) option" where
  "popEvent q = (case q of [] \<Rightarrow> None | a # q \<Rightarrow> Some (a, q))"

text \<open>\<open>".longname"\<close>.  \<open>match_type\<close> is \<open>pathMatchType\<close> with the type of the long name file system.\<close>

definition LONGNAME :: cstring where "LONGNAME = [46, 108, 111, 110, 103, 110, 97, 109, 101]"

definition ends_with :: "cstring \<Rightarrow> cstring \<Rightarrow> bool" where
  "ends_with s e \<longleftrightarrow> length e \<le> length s \<and> drop (length s - length e) s = e"

definition ignoreAction :: "(cstring \<Rightarrow> bool option) \<Rightarrow> cstring \<Rightarrow> bool \<Rightarrow> bool option" where
  "ignoreAction match_type path ignored =
    (if ends_with path LONGNAME then Some True
     else if \<not> ignored then do { m \<leftarrow> match_type path; Some m }
     else Some False)"

text \<open>The loop: whether the last pop found an action, the queue that is left and the actions to handle.\<close>

fun handle_loop :: "(cstring \<Rightarrow> bool option) \<Rightarrow> file_action list \<Rightarrow> file_action list \<Rightarrow> bool \<Rightarrow> nat \<Rightarrow>
    (bool \<times> file_action list \<times> file_action list) option" where
  "handle_loop match_type [] tmp ignored event_count = Some (False, [], tmp)"
| "handle_loop match_type (a # q) tmp ignored event_count = do {
     ignored \<leftarrow> ignoreAction match_type (snd a) ignored;
     let tmp = (if \<not> ignored then tmp @ [a] else tmp);
     if event_count + 1 \<le> MAX_EVENT_HANDLE_COUNT_PER_CYCLE
     then handle_loop match_type q tmp ignored (event_count + 1)
     else Some (True, q, tmp) }"

text \<open>The new state and the actions that \<open>onHandler\<close> gets (it is not called for none).\<close>

definition onHandleEvent :: "(cstring \<Rightarrow> bool option) \<Rightarrow> event_adaptor \<Rightarrow> (event_adaptor \<times> file_action list) option" where
  "onHandleEvent match_type ea = do {
     (pop, q, tmp) \<leftarrow> handle_loop match_type (action_buffers ea) [] False 0;
     Some (\<lparr>action_buffers = q, interval = (if pop then 0 else EVENT_HANDLE_CYCLE)\<rparr>, tmp) }"

subsection \<open>What a round hands over\<close>

text \<open>The events of a list that are kept, \<open>ignored\<close> telling whether the one before was left out.\<close>

fun kept :: "(cstring \<Rightarrow> bool) \<Rightarrow> bool \<Rightarrow> file_action list \<Rightarrow> file_action list" where
  "kept dlnfs ignored [] = []"
| "kept dlnfs ignored (a # as) =
    (if ends_with (snd a) LONGNAME then kept dlnfs True as
     else if \<not> ignored \<and> dlnfs (snd a) then kept dlnfs True as
     else a # kept dlnfs False as)"

lemma handle_loop_kept:
  assumes "match_type = Some \<circ> dlnfs" "n \<le> 100"
  shows "handle_loop match_type q tmp ignored n
    = Some (101 - n \<le> length q, drop (101 - n) q, tmp @ kept dlnfs ignored (take (101 - n) q))"
  using assms(2)
proof (induction q arbitrary: tmp ignored n)
  case (Cons a q)
  have s: "101 - n = Suc (100 - n)" "101 - (n + 1) = 100 - n" using Cons.prems by simp_all
  let ?ig = "ends_with (snd a) LONGNAME \<or> \<not> ignored \<and> dlnfs (snd a)"
  have i: "ignoreAction match_type (snd a) ignored = Some ?ig"
    by (simp add: ignoreAction_def assms(1))
  have k: "kept dlnfs ignored (a # xs) = (if ?ig then [] else [a]) @ kept dlnfs ?ig xs" for xs by simp
  show ?case
  proof (cases "n < 100")
    case True
    then show ?thesis
      using Cons.IH[of "n + 1" "if \<not> ?ig then tmp @ [a] else tmp" ?ig]
      by (simp add: i s k Let_def del: kept.simps)
  next
    case False
    then have "n = 100" using Cons.prems by simp
    then show ?thesis by (simp add: i k Let_def del: kept.simps(2))
  qed
qed (use assms in simp)

theorem onHandleEvent_eq:
  assumes "match_type = Some \<circ> dlnfs"
  shows "onHandleEvent match_type ea
    = Some (\<lparr>action_buffers = drop 101 (action_buffers ea),
             interval = (if 101 \<le> length (action_buffers ea) then 0 else 500)\<rparr>,
           kept dlnfs False (take 101 (action_buffers ea)))"
  using handle_loop_kept[OF assms, of 0 "action_buffers ea" "[]" False]
  by (simp add: onHandleEvent_def)

subsection \<open>The two threads\<close>

text \<open>The state of the run: the adaptor, the actions that were pushed and those that were handed over.\<close>

inductive adaptor_step :: "(cstring \<Rightarrow> bool option) \<Rightarrow> event_adaptor \<times> file_action list \<times> file_action list \<Rightarrow>
    event_adaptor \<times> file_action list \<times> file_action list \<Rightarrow> bool" for match_type where
  step_push: "adaptor_step match_type (ea, pushed, handled) (pushEvent ea a, pushed @ [a], handled)"
| step_timer: "onHandleEvent match_type ea = Some (ea', as) \<Longrightarrow>
    adaptor_step match_type (ea, pushed, handled) (ea', pushed, handled @ as)"

inductive_cases adaptor_stepE: "adaptor_step match_type (ea, pushed, handled) t"

definition adaptor_run :: "(cstring \<Rightarrow> bool option) \<Rightarrow> event_adaptor \<Rightarrow> file_action list \<Rightarrow> file_action list \<Rightarrow> bool" where
  "adaptor_run match_type ea pushed handled \<longleftrightarrow>
    (adaptor_step match_type)\<^sup>*\<^sup>* (new_event_adaptor, [], []) (ea, pushed, handled)"

lemma kept_plain:
  "\<forall>a\<in>set as. \<not> dlnfs (snd a) \<and> \<not> ends_with (snd a) LONGNAME \<Longrightarrow> kept dlnfs ignored as = as"
  by (induction as arbitrary: ignored) auto

definition fifo_ok :: "(cstring \<Rightarrow> bool) \<Rightarrow> event_adaptor \<times> file_action list \<times> file_action list \<Rightarrow> bool" where
  "fifo_ok dlnfs s = (case s of (ea, pushed, handled) \<Rightarrow>
     (\<forall>a\<in>set pushed. \<not> dlnfs (snd a) \<and> \<not> ends_with (snd a) LONGNAME) \<longrightarrow> handled @ action_buffers ea = pushed)"

lemma adaptor_step_fifo:
  assumes "match_type = Some \<circ> dlnfs" "adaptor_step match_type s t" "fifo_ok dlnfs s"
  shows "fifo_ok dlnfs t"
  using assms(2,3)
proof (cases rule: adaptor_step.cases)
  case (step_push ea pushed handled a)
  then show ?thesis using assms(3) by (simp add: fifo_ok_def pushEvent_def flip: append_assoc)
next
  case (step_timer ea ea' as pushed handled)
  let ?q = "action_buffers ea"
  have e: "action_buffers ea' = drop 101 ?q" "as = kept dlnfs False (take 101 ?q)"
    using step_timer(3) unfolding onHandleEvent_eq[OF assms(1)] by auto
  show ?thesis
  proof (cases "\<forall>a\<in>set pushed. \<not> dlnfs (snd a) \<and> \<not> ends_with (snd a) LONGNAME")
    case True
    then have h: "handled @ ?q = pushed" using assms(3) step_timer(1) by (simp add: fifo_ok_def)
    then have "set (take 101 ?q) \<subseteq> set pushed" using set_take_subset[of 101 ?q] by auto
    then have "as = take 101 ?q" unfolding e using True by (intro kept_plain) blast
    then show ?thesis using h e step_timer(2) by (simp add: fifo_ok_def)
  next
    case False
    then show ?thesis using step_timer(2) by (simp add: fifo_ok_def del: ball_simps)
  qed
qed

text \<open>C25: the queue.  In every interleaving of pushing and rounds of the timer, when no pushed path is one
  of a long name file system: the actions that were handed over, followed by those in the queue, are
  the pushed ones in their order - none is lost, repeated or overtaken.\<close>

theorem adaptor_fifo:
  assumes "match_type = Some \<circ> dlnfs" "adaptor_run match_type ea pushed handled"
    and "\<forall>a\<in>set pushed. \<not> dlnfs (snd a) \<and> \<not> ends_with (snd a) LONGNAME"
  shows "handled @ action_buffers ea = pushed"
proof -
  have "fifo_ok dlnfs (ea, pushed, handled)"
    using assms(2) unfolding adaptor_run_def
  proof (induction rule: rtranclp_induct)
    case base
    show ?case by (simp add: fifo_ok_def new_event_adaptor_def)
  next
    case (step s t)
    then show ?case using adaptor_step_fifo[OF assms(1)] by blast
  qed
  then show ?thesis using assms(3) by (simp add: fifo_ok_def)
qed

definition no_dlnfs :: "cstring \<Rightarrow> bool option" where
  "no_dlnfs p = Some False"

lemma sample_adaptor_run:
  "adaptor_run no_dlnfs \<lparr>action_buffers = [([98], [47])], interval = 500\<rparr> [([97], [47]), ([98], [47])] [([97], [47])]"
proof -
  let ?s = "adaptor_step no_dlnfs"
  let ?e1 = "\<lparr>action_buffers = [([97], [47])], interval = 500\<rparr>" and ?e0 = new_event_adaptor
  have "?s (?e0, [], []) (?e1, [([97], [47])], [])"
    using step_push[of no_dlnfs ?e0 "[]" "[]" "([97], [47])"] by (simp add: pushEvent_def new_event_adaptor_def)
  moreover have "?s (?e1, [([97], [47])], []) (?e0, [([97], [47])], [([97], [47])])"
    using step_timer[of no_dlnfs ?e1 ?e0 "[([97], [47])]" "[([97], [47])]" "[]"]
    by (simp add: onHandleEvent_def new_event_adaptor_def ignoreAction_def no_dlnfs_def ends_with_def LONGNAME_def Let_def)
  moreover have "?s (?e0, [([97], [47])], [([97], [47])])
      (\<lparr>action_buffers = [([98], [47])], interval = 500\<rparr>, [([97], [47]), ([98], [47])], [([97], [47])])"
    using step_push[of no_dlnfs ?e0 "[([97], [47])]" "[([97], [47])]" "([98], [47])"]
    by (simp add: pushEvent_def new_event_adaptor_def)
  ultimately show ?thesis
    unfolding adaptor_run_def by (meson rtranclp.rtrancl_refl rtranclp.rtrancl_into_rtrancl)
qed

theorem adaptor_fifo_witness:
  "[([97], [47])] @ action_buffers \<lparr>action_buffers = [([98], [47])], interval = 500\<rparr> = [([97], [47]), ([98], [47])]"
  by (rule adaptor_fifo[of no_dlnfs "\<lambda>p. False", OF _ sample_adaptor_run])
    (simp_all add: fun_eq_iff no_dlnfs_def ends_with_def LONGNAME_def)

subsection \<open>Long names at the border of a round\<close>

text \<open>A change in a folder with long names is reported twice, the first report is to be left out.  The
  flag for that is local to a round: when the first report is the last event of a round, the second
  one is taken for a first report in the next round and left out too.\<close>

lemma kept_append_plain:
  assumes "\<forall>a\<in>set as. \<not> dlnfs (snd a) \<and> \<not> ends_with (snd a) LONGNAME" "as \<noteq> []"
  shows "kept dlnfs ignored (as @ bs) = as @ kept dlnfs False bs"
  using assms
proof (induction as arbitrary: ignored)
  case (Cons a as)
  then show ?case by (cases "as = []") auto
qed simp

text \<open>A change in a folder with long names is handed over once when both of its reports come in one
  round, and lost when a round of 101 events ends between them.\<close>

theorem long_name_change_lost:
  assumes "match_type = Some \<circ> dlnfs" "dlnfs (snd e)" "\<not> ends_with (snd e) LONGNAME"
    and "\<forall>a\<in>set as. \<not> dlnfs (snd a) \<and> \<not> ends_with (snd a) LONGNAME" "length as = 100"
  shows "onHandleEvent match_type \<lparr>action_buffers = e # e # as, interval = i\<rparr>
      = Some (\<lparr>action_buffers = [last as], interval = 0\<rparr>, e # butlast as)
    \<and> onHandleEvent match_type \<lparr>action_buffers = as @ [e, e], interval = i\<rparr>
      = Some (\<lparr>action_buffers = [e], interval = 0\<rparr>, as)
    \<and> onHandleEvent match_type \<lparr>action_buffers = [e], interval = 0\<rparr>
      = Some (\<lparr>action_buffers = [], interval = 500\<rparr>, [])"
proof -
  have ne: "as \<noteq> []" using assms(5) by auto
  have "take 99 as = butlast as" using assms(5) by (simp add: butlast_conv_take)
  moreover have "take 99 as @ drop 99 as = butlast as @ [last as]" using ne by simp
  ultimately have "take 99 as = butlast as" "drop 99 as = [last as]" by simp_all
  moreover have "kept dlnfs False (butlast as) = butlast as"
    by (rule kept_plain) (use assms(4) in \<open>auto dest: in_set_butlastD\<close>)
  moreover have "take 101 (as @ [e, e]) = as @ [e]" "drop 101 (as @ [e, e]) = [e]" using assms(5) by simp_all
  ultimately show ?thesis
    using assms(2,3,5) by (simp add: onHandleEvent_eq[OF assms(1)] kept_append_plain[OF assms(4) ne] numeral_eq_Suc)
qed

theorem long_name_change_lost_witness:
  "onHandleEvent (\<lambda>p. Some (p = [47, 108])) \<lparr>action_buffers = replicate 100 ([97], [47, 97]) @ [([], [47, 108]), ([], [47, 108])], interval = 0\<rparr>
      = Some (\<lparr>action_buffers = [([], [47, 108])], interval = 0\<rparr>, replicate 100 ([97], [47, 97]))"
  using long_name_change_lost[of "\<lambda>p. Some (p = [47, 108])" "\<lambda>p. p = [47, 108]" "([], [47, 108])"
      "replicate 100 ([97], [47, 97])" 0]
  by (simp add: ends_with_def LONGNAME_def fun_eq_iff)

end
