(* ===== verification/Walk_Dir.thy ===== *)
theory Walk_Dir
  imports Fs_Claims
begin

text \<open>
  The construction of an index from the disk (\<open>src/src/library/src/walkdir.c\<close>): the table of partitions,
  the folders that are left out, and the traversal that writes the names into the buffer.

  The disk does not change during the traversal.  \<open>read_names\<close> lists the entries of the folder with the
  given path in the order of \<open>readdir\<close>, \<open>None\<close> if it cannot be opened.  The callback of the progress is
  a function of its arguments that tells whether to stop.
\<close>

subsection \<open>Partitions\<close>

abbreviation (input) PART_NAME_MAX :: nat where "PART_NAME_MAX \<equiv> 256"
abbreviation (input) FS_TYPE_MAX :: nat where "FS_TYPE_MAX \<equiv> 32"
abbreviation (input) MAX_PARTS :: nat where "MAX_PARTS \<equiv> 256"
abbreviation (input) PATH_MAX :: nat where "PATH_MAX \<equiv> 4096"

record partition =
  p_dev :: cstring
  p_mount_point :: cstring
  p_fs_type :: cstring
  p_major :: byte
  p_minor :: byte

definition mounted_at :: "cstring \<Rightarrow> cstring \<Rightarrow> bool" where
  "mounted_at mp root \<longleftrightarrow>
    mp = root \<or> length mp > length root \<and> strstr mp root = Some 0 \<and> mp ! length root = slash"

text \<open>\<open>"/sys"\<close>, \<open>"/proc"\<close>, \<open>"/dev"\<close>, \<open>"/run"\<close>, \<open>"tmpfs"\<close>, \<open>"fuse.dlnfs"\<close>.\<close>

definition is_special_mount_point :: "cstring \<Rightarrow> cstring \<Rightarrow> bool" where
  "is_special_mount_point mp fs_type \<longleftrightarrow>
    mounted_at mp [47, 115, 121, 115] \<or> mounted_at mp [47, 112, 114, 111, 99]
    \<or> (mounted_at mp [47, 100, 101, 118] \<or> mounted_at mp [47, 114, 117, 110]) \<and> fs_type \<noteq> [116, 109, 112, 102, 115]"

definition is_custom_type :: "cstring \<Rightarrow> bool" where
  "is_custom_type fs_type \<longleftrightarrow> fs_type \<in> set [[102, 117, 115, 101, 46, 100, 108, 110, 102, 115]]"

definition end_with :: "cstring \<Rightarrow> cstring \<Rightarrow> bool" where
  "end_with str suffix \<longleftrightarrow>
    (if length str \<ge> length suffix then drop (length str - length suffix) str = suffix else False)"

text \<open>Whether the mount point belongs to an entry of the table, and the table.\<close>

fun is_same_mount :: "partition list \<Rightarrow> byte \<Rightarrow> byte \<Rightarrow> cstring \<Rightarrow> bool \<times> partition list" where
  "is_same_mount [] major minor new_mp = (False, [])"
| "is_same_mount (p # ps) major minor new_mp =
    (if p_major p = major \<and> p_minor p = minor then
       if end_with new_mp (p_mount_point p) then (True, p\<lparr>p_mount_point := new_mp\<rparr> # ps)
       else if end_with (p_mount_point p) new_mp then (True, p # ps)
       else map_prod id ((#) p) (is_same_mount ps major minor new_mp)
     else map_prod id ((#) p) (is_same_mount ps major minor new_mp))"

text \<open>\<open>strcmp\<close> as the order of the table; \<open>qsort\<close> leaves the order of equal mount points open, it is taken
  here as the one of an insertion sort.\<close>

fun strcmp_le :: "cstring \<Rightarrow> cstring \<Rightarrow> bool" where
  "strcmp_le [] bs = True"
| "strcmp_le (a # as) [] = False"
| "strcmp_le (a # as) (b # bs) = (if a = b then strcmp_le as bs else a < b)"

definition compare_partition :: "partition \<Rightarrow> partition \<Rightarrow> bool" where
  "compare_partition p1 p2 = strcmp_le (p_mount_point p1) (p_mount_point p2)"

fun sort_partitions :: "partition list \<Rightarrow> partition list" where
  "sort_partitions [] = []"
| "sort_partitions (p # ps) =
    (let qs = sort_partitions ps
     in takeWhile (\<lambda>q. \<not> compare_partition p q) qs @ p # dropWhile (\<lambda>q. \<not> compare_partition p q) qs)"

text \<open>One line of \<open>/proc/mounts\<close>; \<open>stat_dev\<close> are the device numbers of a mount point, cut to a \<open>char\<close>.
  \<open>None\<close> is a write past the array \<open>parts\<close> of \<open>MAX_PARTS\<close> entries.\<close>

type_synonym mounts_line = "cstring \<times> cstring \<times> cstring"

fun scan_mounts :: "(cstring \<Rightarrow> (byte \<times> byte) option) \<Rightarrow> mounts_line list \<Rightarrow> partition list \<Rightarrow> partition list option" where
  "scan_mounts stat_dev [] parts = Some parts"
| "scan_mounts stat_dev ((dev, mp, fs_type) # ls) parts =
    (if length dev \<ge> PART_NAME_MAX \<or> length mp \<ge> PART_NAME_MAX \<or> length fs_type \<ge> FS_TYPE_MAX
     then scan_mounts stat_dev ls parts
     else if is_special_mount_point mp fs_type then scan_mounts stat_dev ls parts
     else case stat_dev mp of
       None \<Rightarrow> scan_mounts stat_dev ls parts
     | Some (ma, mi) \<Rightarrow>
         (let (same, parts') = (if is_custom_type fs_type then is_same_mount parts ma mi mp else (False, parts))
          in if same then scan_mounts stat_dev ls parts'
             else if length parts' \<ge> MAX_PARTS then None
             else scan_mounts stat_dev ls
               (parts' @ [\<lparr>p_dev = dev, p_mount_point = mp, p_fs_type = fs_type, p_major = ma, p_minor = mi\<rparr>])))"

text \<open>\<open>None\<close> for the lines: the file cannot be opened.\<close>

definition get_partitions :: "(cstring \<Rightarrow> (byte \<times> byte) option) \<Rightarrow> mounts_line list option \<Rightarrow> (int \<times> partition list) option" where
  "get_partitions stat_dev mounts =
    (case mounts of None \<Rightarrow> Some (1, [])
     | Some ls \<Rightarrow> do { parts \<leftarrow> scan_mounts stat_dev ls []; Some (0, sort_partitions parts) })"

text \<open>The index of the last partition whose mount point is a prefix, \<open>None\<close> for -1.\<close>

fun get_path_partition :: "cstring \<Rightarrow> nat \<Rightarrow> partition list \<Rightarrow> nat option" where
  "get_path_partition path 0 parts = None"
| "get_path_partition path (Suc i) parts =
    (if strstr path (p_mount_point (parts ! i)) = Some 0 then Some i else get_path_partition path i parts)"

record partition_filter =
  selected_partition :: "nat option"
  merge_partition :: bool
  partition_list :: "partition list"

text \<open>\<open>None\<close>: no partition is selected, \<open>partitions[-1]\<close> is read.\<close>

definition should_skip_path :: "partition_filter \<Rightarrow> cstring \<Rightarrow> bool option" where
  "should_skip_path pf path =
    (case selected_partition pf of None \<Rightarrow> None
     | Some i \<Rightarrow>
       Some (if is_special_mount_point path (p_fs_type (partition_list pf ! i)) then True
         else if merge_partition pf then False
         else list_ex (\<lambda>p. strstr path (p_mount_point p) = Some 0 \<and> \<not> is_custom_type (p_fs_type p))
           (drop (Suc i) (partition_list pf))))"

subsection \<open>The traversal\<close>

datatype d_type = DT_REG | DT_LNK | DT_DIR | DT_OTHER

datatype walk_result = EMPTY_DIR | NONEMPTY_DIR | CANCELLED

record progress_report =
  file_count :: u32
  dir_count :: u32

record walk_env =
  walk_al :: allocator
  read_names :: "cstring \<Rightarrow> (cstring \<times> d_type) list option"
  progress :: "u32 \<Rightarrow> u32 \<Rightarrow> cstring \<Rightarrow> cstring option \<Rightarrow> bool"
  skip_path :: "cstring \<Rightarrow> bool option"

text \<open>The entries that are written.\<close>

definition dot :: "cstring \<Rightarrow> bool" where
  "dot n \<longleftrightarrow> n = [46] \<or> n = [46, 46]"

text \<open>The loop over the entries: whether it was cancelled, the buffer and the counts.  The result of
  \<open>append_new_name\<close> is not looked at.\<close>

fun append_entries :: "walk_env \<Rightarrow> cstring \<Rightarrow> (cstring \<times> d_type) list \<Rightarrow> fs_buf \<Rightarrow> progress_report \<Rightarrow>
    (bool \<times> fs_buf \<times> progress_report) option" where
  "append_entries env name [] b pr = Some (False, b, pr)"
| "append_entries env name ((d_name, ty) # es) b pr =
    (if dot d_name then append_entries env name es b pr
     else if ty \<noteq> DT_DIR \<and> ty \<noteq> DT_REG \<and> ty \<noteq> DT_LNK then append_entries env name es b pr
     else do {
       (r, b) \<leftarrow> append_new_name (walk_al env) b d_name (ty = DT_DIR);
       let pr = (if ty = DT_DIR then pr\<lparr>dir_count := dir_count pr + 1\<rparr> else pr\<lparr>file_count := file_count pr + 1\<rparr>);
       if progress env (file_count pr) (dir_count pr) name (Some d_name) then Some (True, b, pr)
       else append_entries env name es b pr })"

text \<open>\<open>snprintf\<close> of the path of an entry, cut to \<open>PATH_MAX - 2\<close> characters.\<close>

definition join_path :: "cstring \<Rightarrow> cstring \<Rightarrow> cstring" where
  "join_path name entry = (if cchar name (length name - 1) = slash then name @ entry else name @ slash # entry)"

definition entry_path :: "cstring \<Rightarrow> cstring \<Rightarrow> cstring" where
  "entry_path name entry = take (PATH_MAX - 2) (join_path name entry)"

text \<open>\<open>walkdir\<close> and its loop over the written siblings from \<open>off\<close> to \<open>end\<close> call each other: the two tasks of
  one function.\<close>

datatype walk_task = Walk_dir cstring u32 | Walk_siblings cstring u32 u32

partial_function (option) walk_run :: "walk_env \<Rightarrow> walk_task \<Rightarrow> fs_buf \<Rightarrow> progress_report \<Rightarrow>
    (walk_result \<times> fs_buf \<times> progress_report) option" where
  "walk_run env task b pr =
    (case task of
       Walk_dir name parent_off \<Rightarrow> do {
         skip \<leftarrow> skip_path env name;
         if skip then Some (EMPTY_DIR, b, pr)
         else if progress env (file_count pr) (dir_count pr) name None then Some (CANCELLED, b, pr)
         else case read_names env name of
           None \<Rightarrow> Some (EMPTY_DIR, b, pr)
         | Some es \<Rightarrow> do {
             let start = get_tail b;
             (cancelled, b, pr) \<leftarrow> append_entries env name es b pr;
             if cancelled then Some (CANCELLED, b, pr)
             else if start = get_tail b then Some (EMPTY_DIR, b, pr)
             else do {
               let end_off = get_tail b;
               (r, b) \<leftarrow> append_parent (walk_al env) b parent_off;
               walk_run env (Walk_siblings name start end_off) b pr } } }
     | Walk_siblings name off end_off \<Rightarrow>
         if off < end_off then do {
           (f, b) \<leftarrow> is_file b off;
           if f then do {
             off \<leftarrow> next_name b off;
             walk_run env (Walk_siblings name off end_off) b pr }
           else do {
             b \<leftarrow> set_kids_off b off (get_tail b);
             entry \<leftarrow> get_name b off;
             (result, b, pr) \<leftarrow> walk_run env (Walk_dir (entry_path name entry) off) b pr;
             if result = CANCELLED then Some (CANCELLED, b, pr)
             else do {
               b \<leftarrow> (if result = EMPTY_DIR then set_kids_off b off 0 else Some b);
               off \<leftarrow> next_name b off;
               walk_run env (Walk_siblings name off end_off) b pr } } }
         else Some (NONEMPTY_DIR, b, pr))"

definition walkdir :: "walk_env \<Rightarrow> cstring \<Rightarrow> u32 \<Rightarrow> fs_buf \<Rightarrow> progress_report \<Rightarrow> (walk_result \<times> fs_buf \<times> progress_report) option" where
  "walkdir env name parent_off b pr = walk_run env (Walk_dir name parent_off) b pr"

text \<open>\<open>build_fstree\<close>: 1 when the traversal was cancelled.\<close>

definition build_fstree :: "allocator \<Rightarrow> (cstring \<Rightarrow> (byte \<times> byte) option) \<Rightarrow> mounts_line list option \<Rightarrow>
    (cstring \<Rightarrow> (cstring \<times> d_type) list option) \<Rightarrow> (u32 \<Rightarrow> u32 \<Rightarrow> cstring \<Rightarrow> cstring option \<Rightarrow> bool) \<Rightarrow>
    bool \<Rightarrow> fs_buf \<Rightarrow> (int \<times> fs_buf) option" where
  "build_fstree al stat_dev mounts names pcf merge b = do {
     (e, parts) \<leftarrow> get_partitions stat_dev mounts;
     root \<leftarrow> get_root_path b;
     let pf = \<lparr>selected_partition = get_path_partition root (length parts) parts, merge_partition = merge, partition_list = parts\<rparr>;
     let env = \<lparr>walk_al = al, read_names = names, progress = pcf, skip_path = should_skip_path pf\<rparr>;
     (r, b, pr) \<leftarrow> walkdir env root 0 b \<lparr>file_count = 0, dir_count = 0\<rparr>;
     Some (if r = CANCELLED then 1 else 0, b) }"


subsection \<open>The forest of a disk\<close>

text \<open>What the index of a folder is to hold: the files, links and folders below it, with the folders
  that are left out or cannot be opened as empty ones.  \<open>None\<close> if the depth is more than the bound or
  if a path does not fit into \<open>PATH_MAX\<close>.\<close>

definition wanted :: "cstring \<times> d_type \<Rightarrow> bool" where
  "wanted e \<longleftrightarrow> \<not> dot (fst e) \<and> snd e \<noteq> DT_OTHER"

fun disk_kids :: "nat \<Rightarrow> walk_env \<Rightarrow> cstring \<Rightarrow> node list option" where
  "disk_kids 0 env path = None"
| "disk_kids (Suc n) env path =
    (case skip_path env path of None \<Rightarrow> None
     | Some True \<Rightarrow> Some []
     | Some False \<Rightarrow>
       (case read_names env path of None \<Rightarrow> Some []
        | Some es \<Rightarrow> those (map (\<lambda>(name, ty).
            if ty = DT_DIR then
              (if length (join_path path name) \<le> PATH_MAX - 2
               then map_option (Dir name) (disk_kids n env (join_path path name)) else None)
            else Some (File name)) (filter wanted es))))"

fun strip_kids :: "node \<Rightarrow> node" where
  "strip_kids (File n) = File n"
| "strip_kids (Dir n ks) = Dir n []"

lemma strip_kids_simps [simp]:
  "nname (strip_kids k) = nname k" "esize (strip_kids k) = esize k" "nsub (strip_kids k) = 0"
  "\<not> has_kids (strip_kids k)" "is_File (strip_kids k) = is_File k"
  by (cases k; simp)+

lemma node_ok_strip [simp]: "node_ok k \<Longrightarrow> node_ok (strip_kids k)"
  by (cases k) simp_all

lemma esize_strip_o [simp]: "esize \<circ> strip_kids = esize" "nsub \<circ> strip_kids = (\<lambda>k. 0)"
  by (simp_all add: fun_eq_iff)

lemma ents_strip [simp]: "ents (map strip_kids ks) = ents ks"
  by (induction ks) simp_all

lemma subs_strip [simp]: "subs (map strip_kids ks) = 0"
  by (induction ks) simp_all

lemma enc_ent_strip: "enc_ent d (strip_kids k) = enc_ent 0 (strip_kids k)"
  by (cases k) simp_all

lemma enc_ents_strip: "enc_ents d (map strip_kids ks) = enc_ents 0 (map strip_kids ks)"
proof (induction ks arbitrary: d)
  case (Cons k ks)
  show ?case using Cons[of "d - esize k"] Cons[of "0 - esize k"] enc_ent_strip[of d k] by simp
qed simp

subsection \<open>A buffer that is being filled\<close>

definition holds :: "u32 \<Rightarrow> fs_buf \<Rightarrow> byte list \<Rightarrow> bool" where
  "holds f b X \<longleftrightarrow> (\<exists>J. head b = X @ J) \<and> tail b = of_nat (length X) \<and> cap_ok b \<and> small b
     \<and> lock b = Unlocked \<and> first_name_off b = f"

lemma append_new_name_holds:
  assumes h: "holds f b X" and al: "alloc_total al"
    and n: "length X + 2 * esize (new_node name d) + 1048576 \<le> 1073741824"
  obtains b' where "append_new_name al b name d = Some (FS_OK, b')"
    "holds f b' (X @ enc_ent 0 (new_node name d))"
proof -
  obtain J where J: "head b = X @ J" using h by (auto simp: holds_def)
  define c where "c = b\<lparr>lock := Writer\<rparr>"
  have c: "head c = X @ [] @ J" "tail c = of_nat (length X + length [])" "cap_ok c" "small c"
    using h J by (simp_all add: c_def holds_def cap_ok_def)
  have len: "length name < 1073741824" using n esize_ge[of "new_node name d"] by simp
  have "fst (reserve al c (of_nat (esize (new_node name d) + (if False then 5 else 0))))"
    using reserve_total[OF al c(3,4), of "length X" "esize (new_node name d)"] c(1,2) n by simp
  moreover have xw: "of_nat (length name) + 1 + (if d then 4 else 1) + (if False then 5 else 0)
      = (of_nat (esize (new_node name d) + (if False then 5 else 0)) :: u32)" by simp
  ultimately have noerr: "insert_new_name al c (of_nat (length X)) name d False \<noteq> Some (ERR_NO_MEM, c)"
    unfolding insert_new_name_def Let_def xw reserve_def[symmetric]
    by (auto simp: split_beta Option.bind_eq_Some_conv split: if_splits)
  have al': "alloc_ok al" using al by (simp add: alloc_total_def)
  have cs: "insert_new_name al c (of_nat (length X)) name d False = Some (ERR_NO_MEM, c) \<and> Q
    \<or> (\<exists>b' gap Z'. insert_new_name al c (of_nat (length X)) name d False = Some (FS_OK, b')
      \<and> P b' gap Z') \<Longrightarrow> \<exists>b' gap Z'. insert_new_name al c (of_nat (length X)) name d False = Some (FS_OK, b')
      \<and> P b' gap Z'" for P Q using noerr by auto
  obtain b' gap Z' where b': "insert_new_name al c (of_nat (length X)) name d False = Some (FS_OK, b')"
    "b' = c\<lparr>head := X @ enc_ent 0 (new_node name d) @ gap @ [] @ Z', capacity := of_nat (length (head b')),
       tail := of_nat (length X + (esize (new_node name d) + (if False then 5 else 0)) + length ([] :: byte list))\<rparr>"
    "length gap = (if False then 5 else 0)" "cap_ok b'" "small b'"
    using cs[OF insert_new_name_cases[OF c(1) refl c(2,3,4) al' len, of d False 0]] by blast
  have hd: "head b' = X @ enc_ent 0 (new_node name d) @ Z'" "lock b' = Writer"
    "tail b' = of_nat (length (X @ enc_ent 0 (new_node name d)))" "first_name_off b' = first_name_off b"
    using arg_cong[OF b'(2), of head] arg_cong[OF b'(2), of lock] arg_cong[OF b'(2), of tail]
      arg_cong[OF b'(2), of first_name_off] b'(3) by (simp_all add: c_def del: of_nat_add)
  have w: "wrlock b = Some c" "tail c = of_nat (length X)" using h by (simp_all add: wrlock_def holds_def c_def)
  have "append_new_name al b name d = Some (FS_OK, b'\<lparr>lock := Unlocked\<rparr>)"
    using b'(1) hd(2) unfolding append_new_name_def w by (simp add: w unlock_def)
  moreover have "holds f (b'\<lparr>lock := Unlocked\<rparr>) (X @ enc_ent 0 (new_node name d))"
    using hd b'(4,5) h by (simp add: holds_def cap_ok_def)
  ultimately show ?thesis by (rule that)
qed


lemma append_parent_holds:
  assumes h: "holds f b X" and al: "alloc_total al"
    and n: "length X + 1048586 \<le> 1073741824" and p: "p \<le> length X + 1"
  obtains b' where "append_parent al b (of_nat p) = Some (FS_OK, b')"
    "holds f b' (X @ marker (if p = 0 then 0 else length X + 1 - p))"
proof -
  obtain J where J: "head b = X @ J" using h by (auto simp: holds_def)
  define c where "c = b\<lparr>lock := Writer\<rparr>"
  have c: "head c = X @ J" "tail c = of_nat (length X)" "cap_ok c" "small c" "lock c = Writer"
      "first_name_off c = f"
    using h J by (simp_all add: c_def holds_def cap_ok_def)
  have al': "alloc_ok al" using al by (simp add: alloc_total_def)
  have "fst (reserve al c (of_nat 5))"
    using reserve_total[OF al c(3,4), of "length X" 5] c(1,2) n by simp
  with reserve_cases[OF al' c(3,4), of 5 "length X"] c(1,2)
  obtain ext where ext: "reserve al c 5
        = (True, c\<lparr>head := head c @ ext, capacity := of_nat (length (head c @ ext))\<rparr>)"
      "length X + 5 \<le> length (head c @ ext)" "length (head c @ ext) \<le> 1073741824"
    by auto
  define e where "e = c\<lparr>head := head c @ ext, capacity := of_nat (length (head c @ ext))\<rparr>"
  have e: "head e = X @ take 5 (J @ ext) @ drop 5 (J @ ext)" "small e"
    using ext(3) c(1) by (simp_all add: e_def del: take_append drop_append)
  have l5: "length (take 5 (J @ ext)) = 5" using ext(2) c(1) by simp
  let ?m = "marker (if p = 0 then 0 else length X + 1 - p)"
  have sp: "set_parent_offset e (tail e) (of_nat p) = Some (e\<lparr>head := X @ ?m @ drop 5 (J @ ext)\<rparr>)"
    using set_parent_offset_at[OF e(1) l5 refl e(2) p] c(2) by (simp add: e_def)
  define g where "g = e\<lparr>head := X @ ?m @ drop 5 (J @ ext), tail := tail e + 5, lock := Unlocked\<rparr>"
  have w: "wrlock b = Some c" using h by (simp add: wrlock_def holds_def c_def)
  have A: "append_parent al b (of_nat p) = Some (FS_OK, g)"
    unfolding append_parent_def w
    using ext(1) sp c(5) unfolding e_def[symmetric] reserve_def
    by (simp add: unlock_def g_def e_def split: if_splits)
  have len: "length (head g) = length (head c @ ext)"
    using l5 e(1) by (simp add: g_def e_def)
  then have "cap_ok g" "small g" using ext(3) by (simp_all add: cap_ok_def g_def e_def off_simps del: of_nat_add)
  then have "holds f g (X @ ?m)"
    using c(2,6) unfolding holds_def by (simp add: g_def e_def)
  with A show ?thesis by (rule that)
qed

text \<open>The readers and writers at an entry before the tail.\<close>

lemma holds_entry:
  assumes "holds f b (A @ enc_ent d k @ C)"
  obtains J where "head b = A @ enc_ent d k @ (C @ J)" "small b" "lock b = Unlocked"
  using assms by (auto simp: holds_def)

lemma is_file_holds:
  assumes h: "holds f b (A @ enc_ent d k @ C)" and k: "node_ok k" and a: "length A = a"
  shows "is_file b (of_nat a) = Some (is_File k, b)"
proof -
  obtain J where J: "head b = A @ enc_ent d k @ (C @ J)" "small b" "lock b = Unlocked"
    using h by (rule holds_entry)
  have "do_is_file (b\<lparr>lock := Readers 1\<rparr>) (of_nat a) = Some (is_File k)"
    using J k a by (intro do_is_file_ent[of _ A d k "C @ J"]) simp_all
  moreover have "b\<lparr>lock := Unlocked\<rparr> = b" using J(3) by simp
  ultimately show ?thesis using J(3) by (simp add: is_file_def rdlock_def unlock_def)
qed

lemma next_name_holds:
  assumes h: "holds f b (A @ enc_ent d k @ C)" and k: "node_ok k" and a: "length A = a"
  shows "next_name b (of_nat a) = Some (of_nat (a + esize k))"
  using h
proof (rule holds_entry)
  fix J assume "head b = A @ enc_ent d k @ (C @ J)" "small b"
  then show ?thesis using k a by (intro next_name_ent) simp_all
qed

lemma get_name_holds:
  assumes h: "holds f b (A @ dir_ent n r @ C)" and n: "name_ok n" and a: "length A = a"
  shows "get_name b (of_nat a) = Some n"
proof -
  obtain J where J: "head b = A @ dir_ent n r @ (C @ J)" "small b" using h by (auto simp: holds_def)
  then have "a < 4294967296" using a by simp
  then show ?thesis using dir_ent_at(1)[OF J(1) n a J(2)] by (simp add: get_name_def off_simps)
qed

lemma set_kids_off_holds:
  assumes h: "holds f b (A @ dir_ent n r @ C)" and n: "name_ok n" and a: "length A = a"
    and k: "k = 0 \<or> a + length n + 1 < k" "k < 4294967296"
  obtains b' where "set_kids_off b (of_nat a) (of_nat k) = Some b'"
    "holds f b' (A @ dir_ent n (if k = 0 then 0 else k - (a + length n + 1)) @ C)"
proof -
  obtain J where J: "head b = A @ dir_ent n r @ (C @ J)" "small b" "lock b = Unlocked"
    using h by (auto simp: holds_def)
  let ?r = "if k = 0 then 0 else k - (a + length n + 1)"
  let ?b = "b\<lparr>head := A @ dir_ent n ?r @ (C @ J)\<rparr>"
  have "do_set_kids_off (b\<lparr>lock := Writer\<rparr>) (of_nat a) (of_nat k)
      = Some (b\<lparr>lock := Writer, head := A @ dir_ent n ?r @ (C @ J)\<rparr>)"
    using J n a k do_set_kids_off_dir[of "b\<lparr>lock := Writer\<rparr>" A n r "C @ J" a k] by simp
  then have "set_kids_off b (of_nat a) (of_nat k) = Some (?b\<lparr>lock := Unlocked\<rparr>)"
    using J(3) by (simp add: set_kids_off_def wrlock_def unlock_def)
  moreover have "holds f (?b\<lparr>lock := Unlocked\<rparr>) (A @ dir_ent n ?r @ C)"
    using h J by (auto simp: holds_def cap_ok_def)
  ultimately show ?thesis by (rule that)
qed

subsection \<open>The names of one folder\<close>

definition entry_node :: "cstring \<times> d_type \<Rightarrow> node" where
  "entry_node e = new_node (fst e) (snd e = DT_DIR)"

abbreviation entry_nodes :: "(cstring \<times> d_type) list \<Rightarrow> node list" where
  "entry_nodes es \<equiv> map entry_node (filter wanted es)"

definition never_stops :: "walk_env \<Rightarrow> bool" where
  "never_stops env \<longleftrightarrow> (\<forall>f d p n. \<not> progress env f d p n)"

lemma new_node_enc: "enc_ent d (new_node n b) = enc_ent 0 (new_node n b)"
  by (simp add: new_node_def)

lemma append_entries_holds:
  assumes "holds f b X" "alloc_total (walk_al env)" "never_stops env"
    "length X + 2 * ents (entry_nodes es) + 1048576 \<le> 1073741824"
  shows "\<exists>b' pr'. append_entries env name es b pr = Some (False, b', pr')
    \<and> holds f b' (X @ enc_ents 0 (entry_nodes es))"
  using assms
proof (induction es arbitrary: b X pr)
  case (Cons e es)
  obtain n ty where e: "e = (n, ty)" by (cases e)
  show ?case
  proof (cases "wanted e")
    case False
    then have "append_entries env name (e # es) b pr = append_entries env name es b pr"
      by (cases ty) (auto simp: e wanted_def)
    then show ?thesis using Cons False by simp
  next
    case True
    let ?k = "new_node n (ty = DT_DIR)"
    have k: "entry_node e = ?k" by (simp add: e entry_node_def)
    have sum: "length X + 2 * (esize ?k + ents (entry_nodes es)) + 1048576 \<le> 1073741824"
      using Cons.prems(4) True by (simp only: filter.simps if_True list.map sum_list.Cons k)
    have "length X + 2 * esize ?k + 1048576 \<le> 1073741824"
      by (rule le_trans[OF _ sum]) simp
    then obtain c where c: "append_new_name (walk_al env) b n (ty = DT_DIR) = Some (FS_OK, c)"
        "holds f c (X @ enc_ent 0 ?k)"
      using append_new_name_holds[OF Cons.prems(1,2), of n "ty = DT_DIR"] by blast
    let ?pr = "if ty = DT_DIR then pr\<lparr>dir_count := dir_count pr + 1\<rparr> else pr\<lparr>file_count := file_count pr + 1\<rparr>"
    have step: "append_entries env name (e # es) b pr = append_entries env name es c ?pr"
      using True c(1) Cons.prems(3) by (cases ty) (auto simp: e wanted_def never_stops_def)
    have bound: "length (X @ enc_ent 0 ?k) + 2 * ents (entry_nodes es) + 1048576 \<le> 1073741824"
      by (rule le_trans[OF _ sum]) simp
    have strip: "?k = strip_kids ?k" "map strip_kids (entry_nodes es) = entry_nodes es"
      by (auto simp: new_node_def entry_node_def)
    have "enc_ents 0 (entry_nodes (e # es)) = enc_ent 0 ?k @ enc_ents 0 (entry_nodes es)"
      using True enc_ents_strip[of "0 - esize ?k" "entry_nodes es"] strip(2) by (simp add: k)
    then show ?thesis
      using Cons.IH[OF c(2) Cons.prems(2,3) bound, of ?pr] unfolding step by simp
  qed
qed simp


subsection \<open>The traversal writes the forest\<close>

lemma those_Some: "those xs = Some ys \<longleftrightarrow> xs = map Some ys"
  by (induction xs arbitrary: ys) (auto split: option.splits)

text \<open>The forest of a folder and what \<open>readdir\<close> gives for it.\<close>

lemma disk_kids_entries:
  assumes "disk_kids (Suc n) env path = Some ks" "skip_path env path = Some False"
    "read_names env path = Some es"
  shows "entry_nodes es = map strip_kids ks"
    "\<And>name kk. Dir name kk \<in> set ks \<Longrightarrow> length (join_path path name) \<le> PATH_MAX - 2
      \<and> disk_kids n env (join_path path name) = Some kk"
proof -
  define g where "g = (\<lambda>(name, ty). if ty = DT_DIR then
              (if length (join_path path name) \<le> PATH_MAX - 2
               then map_option (Dir name) (disk_kids n env (join_path path name)) else None)
            else Some (File name))"
  have m: "map g (filter wanted es) = map Some ks" using assms by (simp add: those_Some g_def)
  have g: "g e = Some k \<Longrightarrow> entry_node e = strip_kids k" for e k
    by (cases e) (auto simp: g_def entry_node_def new_node_def split: if_splits)
  have "map entry_node us = map strip_kids vs" if "map g us = map Some vs" for us vs
    using that by (induction us arbitrary: vs) (auto simp: g Cons_eq_map_conv)
  then show "entry_nodes es = map strip_kids ks" using m by blast
  fix name kk assume "Dir name kk \<in> set ks"
  then have "Some (Dir name kk) \<in> set (map g (filter wanted es))" using m by simp
  then show "length (join_path path name) \<le> PATH_MAX - 2 \<and> disk_kids n env (join_path path name) = Some kk"
    by (auto simp: g_def map_option_case split: if_splits option.splits)
qed

definition kids_layout :: "nat \<Rightarrow> nat \<Rightarrow> node list \<Rightarrow> byte list" where
  "kids_layout t p ks = (if ks = [] then [] else block (if p = 0 then 0 else t + ents ks + 1 - p) ks)"

text \<open>\<open>walk_writes n env\<close>: the traversal of a folder of the depth \<open>n\<close> appends its layout.\<close>

definition walk_writes :: "nat \<Rightarrow> walk_env \<Rightarrow> bool" where
  "walk_writes n env \<longleftrightarrow> (\<forall>path ks f b X p pr. disk_kids n env path = Some ks \<longrightarrow> forest_ok ks \<longrightarrow> holds f b X \<longrightarrow>
     X \<noteq> [] \<longrightarrow> p \<le> length X \<longrightarrow> length X + 2 * (length (kids_layout (length X) p ks)) + 1048586 \<le> 1073741824 \<longrightarrow>
     (\<exists>b' pr'. walk_run env (Walk_dir path (of_nat p)) b pr
        = Some (if ks = [] then EMPTY_DIR else NONEMPTY_DIR, b', pr')
      \<and> holds f b' (X @ kids_layout (length X) p ks)))"

lemma length_kids_layout [simp]: "length (kids_layout t p ks) = (if ks = [] then 0 else ents ks + 5 + subs ks)"
  by (simp add: kids_layout_def)

lemma entry_path_short: "length (join_path p n) \<le> PATH_MAX - 2 \<Longrightarrow> entry_path p n = join_path p n"
  by (simp add: entry_path_def)

lemma walk_siblings_writes:
  fixes path :: cstring
  assumes w: "walk_writes n env"
    and kids: "\<And>name kk. Dir name kk \<in> set (ks1 @ ks2) \<Longrightarrow> length (join_path path name) \<le> PATH_MAX - 2
      \<and> disk_kids n env (join_path path name) = Some kk"
    and ok: "forest_ok (ks1 @ ks2)"
    and h: "holds f b (X @ enc_ents (ents (ks1 @ ks2) + 5) ks1 @ enc_ents 0 (map strip_kids ks2)
      @ M @ enc_subs (ents (ks1 @ ks2) + 5) ks1)"
    and M: "length M = 5" and X: "X \<noteq> []"
    and bound: "length X + 2 * (ents (ks1 @ ks2) + 5 + subs (ks1 @ ks2)) + 1048586 \<le> 1073741824"
  shows "\<exists>b' pr'. walk_run env (Walk_siblings path (of_nat (length X + ents ks1)) (of_nat (length X + ents (ks1 @ ks2)))) b pr
      = Some (NONEMPTY_DIR, b', pr')
    \<and> holds f b' (X @ enc_ents (ents (ks1 @ ks2) + 5) (ks1 @ ks2) @ M @ enc_subs (ents (ks1 @ ks2) + 5) (ks1 @ ks2))"
  using kids ok h bound
proof (induction ks2 arbitrary: ks1 b pr)
  case Nil
  then show ?case by (subst walk_run.simps) simp
next
  case (Cons k ks2)
  let ?all = "ks1 @ k # ks2" and ?D = "ents (ks1 @ k # ks2) + 5"
  let ?a = "length X + ents ks1" and ?d = "ents (k # ks2) + 5 + subs ks1"
  let ?A = "X @ enc_ents ?D ks1" and ?C = "enc_ents 0 (map strip_kids ks2) @ M @ enc_subs ?D ks1"
  have ok: "node_ok k" "name_ok (nname k)" using Cons.prems(2) name_ok_nname by auto
  have lA: "length ?A = ?a" by simp
  have small: "?a + 2 * esize k < 1073741824" "length X + ents ?all < 1073741824"
    using Cons.prems(4) by simp_all
  have lt: "of_nat ?a < (of_nat (length X + ents ?all) :: u32)"
    using small esize_pos[of k] by (subst of_nat32_less) simp_all
  have st: "enc_ents 0 (map strip_kids (k # ks2)) = enc_ent 0 (strip_kids k) @ enc_ents 0 (map strip_kids ks2)"
    using enc_ents_strip[of "0 - esize k" ks2] by simp
  have h: "holds f b (?A @ enc_ent 0 (strip_kids k) @ ?C)" using Cons.prems(3) unfolding st by simp
  have ents1: "enc_ents ?D (ks1 @ [k]) = enc_ents ?D ks1 @ enc_ent ?d k"
    using enc_ents_append[of ks1 ?D "[k]"] by (simp add: ac_simps)
  have subs1: "enc_subs ?D (ks1 @ [k]) = enc_subs ?D ks1 @ enc_node ?d k"
    using enc_subs_append[of ks1 ?D "[k]"] by (simp add: ac_simps)
  have a': "length X + ents (ks1 @ [k]) = ?a + esize k" by simp
  have IH: "\<exists>b'' pr''. walk_run env (Walk_siblings path (of_nat (?a + esize k)) (of_nat (length X + ents ?all))) b' pr'
      = Some (NONEMPTY_DIR, b'', pr'') \<and> holds f b'' (X @ enc_ents ?D ?all @ M @ enc_subs ?D ?all)"
    if "holds f b' (?A @ enc_ent ?d k @ ?C @ enc_node ?d k)" for b' pr'
  proof -
    have e: "(ks1 @ [k]) @ ks2 = ?all" by simp
    have h': "holds f b' (X @ enc_ents ?D (ks1 @ [k]) @ enc_ents 0 (map strip_kids ks2) @ M @ enc_subs ?D (ks1 @ [k]))"
      using that unfolding ents1 subs1 append_assoc .
    show ?thesis
      using Cons.IH[of "ks1 @ [k]" b' pr', unfolded e, OF Cons.prems(1,2) h' Cons.prems(4)] unfolding a' .
  qed
  have isf: "is_file b (of_nat ?a) = Some (is_File k, b)"
    using is_file_holds[OF h _ lA] ok by simp
  show ?case
  proof (cases k)
    case (File name)
    have nx: "next_name b (of_nat ?a) = Some (of_nat (?a + esize k))"
      using next_name_holds[OF h _ lA] ok by simp
    have "holds f b (?A @ enc_ent ?d k @ ?C @ enc_node ?d k)" using h File by simp
    from IH[OF this, of pr] show ?thesis
      using lt isf nx File by (subst walk_run.simps) (simp del: of_nat_add)
  next
    case (Dir name kk)
    let ?T = "?a + ?d"
    have name: "name_ok name" "forest_ok kk" using ok Dir by simp_all
    have h0: "holds f b (?A @ dir_ent name 0 @ ?C)" using h Dir by simp
    have lall: "length (?A @ dir_ent name 0 @ ?C) = ?T" using Dir M by simp
    have tl: "get_tail b = of_nat ?T" using h0 lall by (simp only: holds_def get_tail_def)
    have T: "?a + length name + 1 < ?T" "?T < 4294967296" "?T \<noteq> 0"
      using Dir Cons.prems(4) by simp_all
    obtain b1 where b1: "set_kids_off b (of_nat ?a) (of_nat ?T) = Some b1"
        "holds f b1 (?A @ dir_ent name (?T - (?a + length name + 1)) @ ?C)"
      using set_kids_off_holds[OF h0 name(1) lA, of ?T] T by auto
    let ?X1 = "?A @ dir_ent name (?T - (?a + length name + 1)) @ ?C"
    have l1: "length ?X1 = ?T" using lall by simp
    have gn: "get_name b1 (of_nat ?a) = Some name" using get_name_holds[OF b1(2) name(1) lA] .
    have kd: "entry_path path name = join_path path name" "disk_kids n env (join_path path name) = Some kk"
      using Cons.prems(1)[of name kk] Dir entry_path_short by simp_all
    have bd: "?T + 2 * length (kids_layout ?T ?a kk) + 1048586 \<le> 1073741824"
      using Cons.prems(4) Dir by simp
    obtain b2 pr2 where b2: "walk_run env (Walk_dir (join_path path name) (of_nat ?a)) b1 pr
        = Some (if kk = [] then EMPTY_DIR else NONEMPTY_DIR, b2, pr2)"
        "holds f b2 (?X1 @ kids_layout ?T ?a kk)"
      using w[unfolded walk_writes_def, rule_format, OF kd(2) name(2) b1(2), of ?a pr] bd X unfolding l1 by auto
    show ?thesis
    proof (cases "kk = []")
      case True
      have h2: "holds f b2 (?A @ dir_ent name (?T - (?a + length name + 1)) @ ?C)"
        using b2(2) True by (simp add: kids_layout_def)
      obtain b3 where b3: "set_kids_off b2 (of_nat ?a) (of_nat 0) = Some b3" "holds f b3 (?A @ dir_ent name 0 @ ?C)"
        using set_kids_off_holds[OF h2 name(1) lA, of 0] by auto
      have h3: "holds f b3 (?A @ enc_ent ?d k @ ?C @ enc_node ?d k)" using b3(2) Dir True by simp
      have nx: "next_name b3 (of_nat ?a) = Some (of_nat (?a + esize k))"
        using next_name_holds[OF h3 ok(1) lA] .
      from IH[OF h3, of pr2] show ?thesis
        using lt isf nx Dir tl b1(1) gn b2(1) b3(1) True
        by (subst walk_run.simps) (simp add: kd(1) del: of_nat_add)
    next
      case False
      have r: "?T - (?a + length name + 1) = ?d - length name - 1" by simp
      have "(if ?a = 0 then 0 else ?T + ents kk + 1 - ?a) = ?d + ents kk + 1" using X by auto
      then have kl: "kids_layout ?T ?a kk = block (?d + ents kk + 1) kk"
        using False by (simp only: kids_layout_def if_False)
      have ek: "enc_ent ?d k = dir_ent name (?d - length name - 1)" "enc_node ?d k = block (?d + ents kk + 1) kk"
        unfolding Dir enc_node_Dir using False by simp_all
      have h2: "holds f b2 (?A @ enc_ent ?d k @ ?C @ enc_node ?d k)"
        using b2(2) unfolding kl r ek by simp
      have nx: "next_name b2 (of_nat ?a) = Some (of_nat (?a + esize k))"
        using next_name_holds[OF h2 ok(1) lA] .
      from IH[OF h2, of pr2] show ?thesis
        using lt isf nx Dir tl b1(1) gn b2(1) False
        by (subst walk_run.simps) (simp add: kd(1) del: of_nat_add)
    qed
  qed
qed


lemma ents_pos: "ks \<noteq> [] \<Longrightarrow> 0 < ents ks"
  by (cases ks) (simp_all add: add_pos_nonneg)

theorem walk_writes_all:
  assumes al: "alloc_total (walk_al env)" and ns: "never_stops env"
  shows "walk_writes n env"
proof (induction n)
  case 0
  show ?case by (simp add: walk_writes_def)
next
  case (Suc n)
  show ?case unfolding walk_writes_def
  proof (intro allI impI)
    fix path ks f b X p pr
    assume dk: "disk_kids (Suc n) env path = Some ks" and ok: "forest_ok ks" and h: "holds f b X"
      and X: "X \<noteq> []" and p: "p \<le> length X"
      and bound: "length X + 2 * length (kids_layout (length X) p ks) + 1048586 \<le> 1073741824"
    obtain skip where skip: "skip_path env path = Some skip" using dk by (auto split: option.splits)
    let ?G = "\<exists>b' pr'. walk_run env (Walk_dir path (of_nat p)) b pr
        = Some (if ks = [] then EMPTY_DIR else NONEMPTY_DIR, b', pr')
      \<and> holds f b' (X @ kids_layout (length X) p ks)"
    show ?G
    proof (cases "skip \<or> read_names env path = None")
      case True
      then have "ks = []" using dk skip by (cases skip) simp_all
      then show ?thesis
        using True skip h ns by (subst walk_run.simps) (auto simp: kids_layout_def never_stops_def)
    next
      case False
      then obtain es where es: "read_names env path = Some es" and sk: "skip_path env path = Some False"
        using skip by auto
      note de = disk_kids_entries[OF dk sk es]
      have e: "ents (entry_nodes es) = ents ks" unfolding de(1) by simp
      have b0: "length X + 2 * ents (entry_nodes es) + 1048576 \<le> 1073741824"
        using bound unfolding e by (cases "ks = []") simp_all
      obtain b1 pr1 where b1: "append_entries env path es b pr = Some (False, b1, pr1)"
          "holds f b1 (X @ enc_ents 0 (map strip_kids ks))"
        using append_entries_holds[OF h al ns b0] unfolding de(1) by blast
      have t0: "get_tail b = of_nat (length X)" using h by (simp add: holds_def get_tail_def)
      have t1: "get_tail b1 = of_nat (length X + ents ks)"
        using b1(2) by (simp add: holds_def get_tail_def)
      have sm: "length X + ents ks < 4294967296" using b0 unfolding e by simp
      have eq: "get_tail b = get_tail b1 \<longleftrightarrow> ks = []"
        unfolding t0 t1 using sm ents_pos[of ks] of_nat32_eq[of "length X" "length X + ents ks"]
      by (cases "ks = []") (simp_all del: of_nat_add sum_list_eq_0_iff)
      note go = sk es b1(1) ns[unfolded never_stops_def, rule_format]
      show ?thesis
      proof (cases "ks = []")
        case True
        then show ?thesis using go eq b1(2) by (subst walk_run.simps) (simp add: kids_layout_def)
      next
        case False
        let ?M = "marker (if p = 0 then 0 else length X + ents ks + 1 - p)"
        let ?Y = "X @ enc_ents 0 (map strip_kids ks)"
        have lY: "length ?Y = length X + ents ks" by simp
        have "length X + ents ks + 1048586 \<le> 1073741824" "p \<le> length X + ents ks + 1"
          using bound p False by simp_all
        then obtain b2 where b2: "append_parent (walk_al env) b1 (of_nat p) = Some (FS_OK, b2)" "holds f b2 (?Y @ ?M)"
          by (rule append_parent_holds[OF b1(2) al, unfolded lY])
        have "length X + 2 * (ents ([] @ ks) + 5 + subs ([] @ ks)) + 1048586 \<le> 1073741824"
          using bound False by simp
        from walk_siblings_writes[OF Suc, of "[]" ks path f b2 X ?M pr1, OF _ _ _ _ X this]
        obtain b3 pr3 where b3: "walk_run env (Walk_siblings path (of_nat (length X)) (of_nat (length X + ents ks))) b2 pr1
            = Some (NONEMPTY_DIR, b3, pr3)"
          "holds f b3 (X @ enc_ents (ents ks + 5) ks @ ?M @ enc_subs (ents ks + 5) ks)"
          using de(2) ok b2(2) by auto
        show ?thesis
          using go eq b2(1) b3 False
          by (subst walk_run.simps) (simp add: kids_layout_def block_def t0[symmetric] t1[symmetric] del: of_nat_add)
      qed
    qed
  qed
qed

subsection \<open>The index of a disk\<close>

text \<open>\<open>partition_env\<close>: the filter that \<open>build_fstree\<close> sets up.\<close>

definition partition_env :: "allocator \<Rightarrow> partition list \<Rightarrow> (cstring \<Rightarrow> (cstring \<times> d_type) list option) \<Rightarrow>
    (u32 \<Rightarrow> u32 \<Rightarrow> cstring \<Rightarrow> cstring option \<Rightarrow> bool) \<Rightarrow> bool \<Rightarrow> cstring \<Rightarrow> walk_env" where
  "partition_env al parts names pcf merge root =
    \<lparr>walk_al = al, read_names = names, progress = pcf,
     skip_path = should_skip_path \<lparr>selected_partition = get_path_partition root (length parts) parts,
       merge_partition = merge, partition_list = parts\<rparr>\<rparr>"

lemma kids_layout_root: "kids_layout t 0 ks = enc_root ks"
  by (simp add: kids_layout_def enc_root_def)


lemma get_root_path_holds:
  "represents b root ks \<Longrightarrow> get_root_path b = Some root"
  using get_root_path_represents by (simp add: get_root_path_def)

lemma build_fstree_eq:
  assumes "get_partitions stat_dev mounts = Some (e, parts)" "get_root_path b = Some root"
    "walkdir (partition_env al parts names pcf merge root) root 0 b \<lparr>file_count = 0, dir_count = 0\<rparr> = Some (r, b', pr)"
  shows "build_fstree al stat_dev mounts names pcf merge b = Some (if r = CANCELLED then 1 else 0, b')"
  using assms by (simp add: build_fstree_def partition_env_def)

text \<open>A new buffer in the vocabulary of the traversal, and back.\<close>

lemma represents_holds:
  assumes "represents b root []" "lock b = Unlocked"
  obtains H where "holds (first_name_off b) b H" "length H = first_pos root"
proof -
  obtain H J where H: "head b = H @ enc_root [] @ J" "length H = first_pos root" "forest_ok []"
    "small b" "tail b = of_nat (first_pos root + length (enc_root []))"
    "first_pos root + length (enc_root []) \<le> length (head b)"
    "first_name_off b = of_nat (first_pos root)" "cap_ok b" "region b (first_pos root) []"
    "root_ok root" using assms(1) by (rule representsE)
  then have "holds (first_name_off b) b H"
    using assms(2) by (auto simp: holds_def enc_root_def)
  then show ?thesis using H(2) by (rule that)
qed

lemma holds_represents:
  assumes "represents b root ks0" "holds (first_name_off b) b H" "length H = first_pos root"
    and "holds (first_name_off b) b' (H @ enc_root ks)" "forest_ok ks"
  shows "represents b' root ks"
proof -
  obtain X J where "head b = H @ X" "head b' = H @ enc_root ks @ J"
    using assms(2,4) by (auto simp: holds_def)
  then show ?thesis
    using assms by (intro representsI[OF assms(1), of H X b' ks J]) (simp_all add: holds_def)
qed

text \<open>The test of \<open>should_skip_path\<close> is a prefix of bytes, not of names: with partitions mounted at \<open>/\<close> and at
  \<open>/home\<close>, the folder \<open>/homework\<close> of the first one is left out too.\<close>

lemma homework_left_out:
  "should_skip_path \<lparr>selected_partition = Some 0, merge_partition = False, partition_list =
     [\<lparr>p_dev = [65], p_mount_point = [47], p_fs_type = [101], p_major = 8, p_minor = 1\<rparr>,
      \<lparr>p_dev = [66], p_mount_point = [47, 104, 111, 109, 101], p_fs_type = [101], p_major = 8, p_minor = 2\<rparr>]\<rparr>
     [47, 104, 111, 109, 101, 119, 111, 114, 107] = Some True"
  by (simp add: should_skip_path_def is_special_mount_point_def mounted_at_def is_custom_type_def)

text \<open>A root that no mount point is a prefix of (the table of the mounts could not be read): the filter
  reads \<open>partitions[-1]\<close>.\<close>

lemma no_partition_no_result:
  "get_path_partition root (length parts) parts = None \<Longrightarrow>
    walkdir (partition_env al parts names pcf merge root) root p b pr = None"
  unfolding walkdir_def by (subst walk_run.simps) (simp add: partition_env_def should_skip_path_def)

subsection \<open>Claim\<close>

text \<open>\<open>build_fstree\<close>.  On a new buffer, on a disk that does not change, when the progress
  callback never stops it, the allocator never fails and the index fits below \<open>MAX_FSBUF_SIZE\<close> with one
  block to spare: the call returns 0, frees the lock, and the buffer represents exactly the forest of
  the disk below the root - every file, link and folder that \<open>readdir\<close> lists, with the folders that the
  partition filter leaves out or that cannot be opened as empty folders.\<close>

theorem build_fstree_represents:
  assumes "represents b root []" "lock b = Unlocked" "alloc_total al"
    and "get_partitions stat_dev mounts = Some (e, parts)"
    and "disk_kids n (partition_env al parts names pcf merge root) root = Some ks" "forest_ok ks"
    and "\<forall>f d p x. \<not> pcf f d p x"
    and "first_pos root + 2 * length (enc_root ks) + 1048586 \<le> 1073741824"
  shows "\<exists>b'. build_fstree al stat_dev mounts names pcf merge b = Some (0, b')
    \<and> represents b' root ks \<and> lock b' = Unlocked"
proof -
  let ?env = "partition_env al parts names pcf merge root" and ?pr = "\<lparr>file_count = 0, dir_count = 0\<rparr>"
  obtain H where H: "holds (first_name_off b) b H" "length H = first_pos root"
    using assms(1,2) by (rule represents_holds)
  have "walk_writes n ?env"
    using assms(3,7) by (intro walk_writes_all) (simp_all add: partition_env_def never_stops_def)
  moreover have "H \<noteq> []" "(0 :: nat) \<le> length H" using H(2) by auto
  moreover have "length H + 2 * length (kids_layout (length H) 0 ks) + 1048586 \<le> 1073741824"
    using assms(8) H(2) unfolding kids_layout_root by simp
  ultimately obtain b' pr' where b': "walk_run ?env (Walk_dir root (of_nat 0)) b ?pr
      = Some (if ks = [] then EMPTY_DIR else NONEMPTY_DIR, b', pr')"
    "holds (first_name_off b) b' (H @ kids_layout (length H) 0 ks)"
    unfolding walk_writes_def using assms(5,6) H(1) by blast
  have "walkdir ?env root 0 b ?pr = Some (if ks = [] then EMPTY_DIR else NONEMPTY_DIR, b', pr')"
    using b'(1) by (simp add: walkdir_def)
  from build_fstree_eq[OF assms(4) get_root_path_holds[OF assms(1)] this]
  have "build_fstree al stat_dev mounts names pcf merge b = Some (0, b')" by (simp split: if_splits)
  moreover have "represents b' root ks"
    using holds_represents[OF assms(1) H b'(2)[unfolded kids_layout_root] assms(6)] .
  moreover have "lock b' = Unlocked" using b'(2) by (simp add: holds_def)
  ultimately show ?thesis by blast
qed

text \<open>A disk with the folders \<open>/a\<close> and \<open>/p\<close>, the file \<open>/a/b\<close>, the link \<open>/c\<close> and a pipe; another
  partition is mounted at \<open>/p\<close>.\<close>

definition sample_names :: "cstring \<Rightarrow> (cstring \<times> d_type) list option" where
  "sample_names path =
    (if path = [47] then Some [([46], DT_DIR), ([46, 46], DT_DIR), ([97], DT_DIR), ([99], DT_LNK),
        ([112], DT_DIR), ([120], DT_OTHER)]
     else if path = [47, 97] then Some [([98], DT_REG)]
     else if path = [47, 112] then Some [([100], DT_REG)] else None)"

definition sample_parts :: "partition list" where
  "sample_parts = [\<lparr>p_dev = [65], p_mount_point = [47], p_fs_type = [101], p_major = 8, p_minor = 1\<rparr>,
     \<lparr>p_dev = [66], p_mount_point = [47, 112], p_fs_type = [101], p_major = 8, p_minor = 2\<rparr>]"

definition new_buf :: fs_buf where
  "new_buf = \<lparr>head = replicate 8 0 @ [47, 0], capacity = 10, tail = 10, first_name_off = 10, lock = Unlocked\<rparr>"

lemma new_buf_represents: "represents new_buf [47] []"
proof -
  have "head new_buf = (replicate 8 0 @ [47, 0]) @ enc_root [] @ []"
    "length (replicate 8 (0 :: byte) @ [47, 0]) = 10" by (simp_all add: new_buf_def enc_root_def)
  then have "region new_buf 10 []"
    unfolding region_iff by (intro conjI) (blast, simp_all add: new_buf_def enc_root_def)
  then show ?thesis
    by (simp add: represents_def new_buf_def root_ok_def is_cstr_def cap_ok_def get_bytes_def)
qed

lemma sample_mounts:
  "get_partitions (\<lambda>mp. Some (8, if mp = [47] then 1 else 2))
     (Some [([66], [47, 112], [101]), ([65], [47], [101])]) = Some (0, sample_parts)"
  by (simp add: get_partitions_def is_special_mount_point_def mounted_at_def is_custom_type_def
      compare_partition_def sample_parts_def)

theorem build_fstree_represents_witness:
  "\<exists>b'. build_fstree sample_alloc (\<lambda>mp. Some (8, if mp = [47] then 1 else 2))
     (Some [([66], [47, 112], [101]), ([65], [47], [101])]) sample_names (\<lambda>_ _ _ _. False) False new_buf
     = Some (0, b')
   \<and> represents b' [47] [Dir [97] [File [98]], File [99], Dir [112] []] \<and> lock b' = Unlocked"
  by (rule build_fstree_represents[where n = 3, OF new_buf_represents _ _ sample_mounts])
    (simp_all add: new_buf_def alloc_total_def sample_alloc_ok partition_env_def numeral_3_eq_3
      sample_names_def wanted_def dot_def should_skip_path_def get_path_partition.simps sample_parts_def
      is_special_mount_point_def mounted_at_def is_custom_type_def join_path_def cchar_def
      sample_alloc_def name_ok_def enc_root_def)

end
