(* ===== verification/Qt_Map.thy ===== *)
theory Qt_Map
  imports Prelude "HOL-Library.AList" "HOL-Library.List_Lexorder"
begin

text \<open>
  \<open>QMap\<close> as the server uses it: pairs in the order of their keys, one for a key.  The client lemmas are
  proved over the laws of the operations in the locale \<open>ordered_map\<close>.
\<close>

type_synonym ('k, 'v) qmap = "('k \<times> 'v) list"

definition qvalue :: "('k, 'v) qmap \<Rightarrow> 'k \<Rightarrow> 'v option" where
  "qvalue m k = map_of m k"

definition qinsert :: "'k::linorder \<Rightarrow> 'v \<Rightarrow> ('k, 'v) qmap \<Rightarrow> ('k, 'v) qmap" where
  "qinsert k v m = (if k \<in> set (map fst m) then AList.update k v m else insort_key fst (k, v) m)"

definition qremove :: "'k \<Rightarrow> ('k, 'v) qmap \<Rightarrow> ('k, 'v) qmap" where
  "qremove k m = filter (\<lambda>e. fst e \<noteq> k) m"

definition qkeys :: "'v \<Rightarrow> ('k, 'v) qmap \<Rightarrow> 'k list" where
  "qkeys v m = map fst (filter (\<lambda>e. snd e = v) m)"

definition qmap_ok :: "('k::linorder, 'v) qmap \<Rightarrow> bool" where
  "qmap_ok m \<longleftrightarrow> sorted (map fst m) \<and> distinct (map fst m)"

lemma map_of_insort: "k \<notin> set (map fst m) \<Longrightarrow> map_of (insort_key fst (k, v) m) = (map_of m)(k \<mapsto> v)"
  by (induction m) (auto simp: fun_eq_iff)

lemma map_fst_insort: "map fst (insort_key fst (k, v) m) = insort k (map fst m)"
  by (induction m) auto

lemma qvalue_qinsert: "qvalue (qinsert k v m) = (qvalue m)(k \<mapsto> v)"
proof (cases "k \<in> set (map fst m)")
  case True
  then show ?thesis by (simp add: qvalue_def qinsert_def update_conv fun_eq_iff)
next
  case False
  then show ?thesis using map_of_insort[of k m v] by (simp add: qvalue_def qinsert_def fun_eq_iff)
qed

lemma qvalue_qremove: "qvalue (qremove k m) = (qvalue m)(k := None)"
  by (induction m) (auto simp: qvalue_def qremove_def fun_eq_iff)

lemma qmap_ok_qinsert: "qmap_ok m \<Longrightarrow> qmap_ok (qinsert k v m)"
  by (auto simp: qmap_ok_def qinsert_def map_fst_insort sorted_insort distinct_insort update_keys
      distinct_update)

lemma qmap_ok_filter: "qmap_ok m \<Longrightarrow> qmap_ok (filter P m)"
  by (simp add: qmap_ok_def distinct_map_filter sorted_filter)

lemma qmap_ok_qremove: "qmap_ok m \<Longrightarrow> qmap_ok (qremove k m)"
  by (simp add: qremove_def qmap_ok_filter)

lemma qvalue_mem: "qmap_ok m \<Longrightarrow> qvalue m k = Some v \<longleftrightarrow> (k, v) \<in> set m"
  by (simp add: qvalue_def qmap_ok_def)

subsection \<open>The laws\<close>

locale ordered_map =
  fixes wf :: "'m \<Rightarrow> bool" and look :: "'m \<Rightarrow> 'k \<Rightarrow> 'v option" and ins :: "'k \<Rightarrow> 'v \<Rightarrow> 'm \<Rightarrow> 'm"
    and del :: "'k \<Rightarrow> 'm \<Rightarrow> 'm" and keys :: "'v \<Rightarrow> 'm \<Rightarrow> 'k list"
  assumes look_ins: "wf m \<Longrightarrow> look (ins k v m) = (look m)(k \<mapsto> v)"
    and look_del: "wf m \<Longrightarrow> look (del k m) = (look m)(k := None)"
    and wf_ins: "wf m \<Longrightarrow> wf (ins k v m)"
    and wf_del: "wf m \<Longrightarrow> wf (del k m)"
    and keys_look: "wf m \<Longrightarrow> k \<in> set (keys v m) \<longleftrightarrow> look m k = Some v"
begin

lemma wf_del_all: "wf m \<Longrightarrow> wf (fold del ks m)"
  by (induction ks arbitrary: m) (auto simp: wf_del)

lemma look_del_all: "wf m \<Longrightarrow> look (fold del ks m) k = (if k \<in> set ks then None else look m k)"
  by (induction ks arbitrary: m) (auto simp: look_del wf_del)

text \<open>Removing all the keys of a value removes the value and nothing else.\<close>

lemma look_del_keys: "wf m \<Longrightarrow> look (fold del (keys v m) m) k = (if look m k = Some v then None else look m k)"
  by (simp add: look_del_all keys_look)

lemma del_keys_gone: "wf m \<Longrightarrow> look (fold del (keys v m) m) k \<noteq> Some v"
  by (simp add: look_del_keys)

lemma ran_del_keys: "wf m \<Longrightarrow> ran (look (fold del (keys v m) m)) = ran (look m) - {v}"
  by (auto simp: ran_def look_del_keys split: if_splits) (metis option.inject)

lemma ran_ins: "wf m \<Longrightarrow> ran (look (ins k v m)) \<subseteq> insert v (ran (look m))"
  by (auto simp: ran_def look_ins split: if_splits)

lemma ran_del: "wf m \<Longrightarrow> ran (look (del k m)) \<subseteq> ran (look m)"
  by (auto simp: ran_def look_del split: if_splits)

end

interpretation qm: ordered_map qmap_ok qvalue qinsert qremove qkeys
  by unfold_locales
    (auto simp: qvalue_qinsert qvalue_qremove qmap_ok_qinsert qmap_ok_qremove qvalue_mem qkeys_def image_iff)

lemma ran_qvalue: "qmap_ok m \<Longrightarrow> ran (qvalue m) = set (map snd m)"
  by (force simp: ran_def qvalue_mem image_iff)

end
