(* ===== verification/Lft_State.thy ===== *)
theory Lft_State
  imports Lft_Disk_Tool Event_Adaptor Walk_Dir Fs_File Qt_Map
begin

text \<open>
  The indexes that the server holds (\<open>src/src/server/backend/lib/lftmanager.cpp\<close>): the global maps of
  the class \<open>LFTManager\<close>, the buffer of a path, and the changes that events make to it.

  Buffers live on the heap and are named by numbers that are not used again; an access to a buffer that was freed has no
  defined result.  A \<open>QString\<close> is the list of its bytes in the local encoding.
\<close>

subsection \<open>State\<close>

type_synonym buf_ptr = nat
type_synonym watcher_ptr = nat

text \<open>A \<open>QFutureWatcher\<close> with what the lambda of \<open>addPath\<close> captured.  \<open>w_result\<close>: \<open>None\<close> while the job runs,
  then the buffer or the null pointer.\<close>

record watcher =
  w_auto_index :: bool
  w_path_list :: "cstring list"
  w_path :: cstring
  w_canceled :: bool
  w_result :: "buf_ptr option option"

record lft_state =
  bufs :: "buf_ptr \<Rightarrow> fs_buf option"
  watchers :: "watcher_ptr \<Rightarrow> watcher option"
  fsBufMap :: "(cstring, buf_ptr) qmap"
  fsBufToFileMap :: "buf_ptr \<Rightarrow> cstring option"
  fsWatcherMap :: "(cstring, watcher_ptr) qmap"
  fsBufDirtyList :: "buf_ptr list"
  building_paths :: "cstring list"
  mountPointList :: "MountPoint list"
  autoIndexInternal :: bool
  autoIndexExternal :: bool
  lft_files :: "(cstring, byte list) qmap"
  next_ptr :: nat

text \<open>The surroundings: libmount, udisks2, the allocator, polkit (\<open>authorized\<close>: the call does not come from
  the bus, or polkit agrees), \<open>QFileInfo::isDir\<close>, the place of the cache, and the tests of \<open>getFsBufByPath\<close>
  for a root that is not the root of its file system (\<open>sysroot_split\<close>).  \<open>awaited\<close> is the result of a
  watcher after \<open>waitForFinished\<close>, \<open>disk_removable\<close> that of the drive of a block device, \<open>out_room\<close> the
  room that a file has that is opened for writing, if it can be opened, \<open>mkpath_ok\<close> whether the folder of the
  cache exists or can be made, \<open>os_lock_ok\<close> the result of \<open>pthread_rwlock_init\<close>, \<open>os_mtab\<close> the table of the
  mounts at the time of the call, \<open>storage_root\<close> the root path of a valid \<open>QStorageInfo\<close>.\<close>

record lft_os =
  mnt_os :: mount_os
  disks :: disk_manager
  os_al :: allocator
  authorized :: bool
  file_is_dir :: "cstring \<Rightarrow> bool"
  sysroot_split :: bool
  awaited :: "watcher_ptr \<Rightarrow> buf_ptr option"
  cache_dir :: cstring
  to_percent :: "cstring \<Rightarrow> cstring"
  from_percent :: "cstring \<Rightarrow> cstring"
  disk_removable :: "block_device \<Rightarrow> bool"
  out_room :: "cstring \<Rightarrow> nat option"
  mkpath_ok :: bool
  os_lock_ok :: bool
  os_mtab :: mtab
  storage_root :: "cstring \<Rightarrow> cstring option"

definition findMountPoint :: "lft_os \<Rightarrow> lft_state \<Rightarrow> cstring \<Rightarrow> bool \<Rightarrow> cstring option" where
  "findMountPoint os st path hardreal = findMountPointByPath (mnt_os os) (mountPointList st) path hardreal"

definition markLFTFileToDirty :: "lft_state \<Rightarrow> buf_ptr \<Rightarrow> lft_state" where
  "markLFTFileToDirty st buf = st\<lparr>fsBufDirtyList := List.insert buf (fsBufDirtyList st)\<rparr>"

subsection \<open>The buffer of a path\<close>

text \<open>\<open>"/sysroot"\<close>.\<close>

definition SYSROOT :: cstring where "SYSROOT = [47, 115, 121, 115, 114, 111, 111, 116]"

definition mount_of_path :: "lft_os \<Rightarrow> cstring \<Rightarrow> cstring \<Rightarrow> cstring" where
  "mount_of_path os path mountPoint =
    (if mountPoint = [slash] \<and> starts_with path SYSROOT \<and> sysroot_split os then SYSROOT else mountPoint)"

text \<open>The path relative to the root path of the buffer.\<close>

definition path_in_buf :: "cstring \<Rightarrow> cstring \<Rightarrow> cstring \<Rightarrow> cstring" where
  "path_in_buf root mountPoint path =
    (let new_path = drop (length mountPoint) path;
         new_path = (if starts_with new_path [slash] then drop 1 new_path else new_path);
         new_path = root @ new_path
     in if length new_path > 1 \<and> last new_path = slash then butlast new_path else new_path)"

definition getFsBufByPath :: "lft_os \<Rightarrow> lft_state \<Rightarrow> cstring \<Rightarrow> (cstring \<times> buf_ptr option) option" where
  "getFsBufByPath os st path =
    (if \<not> starts_with path [slash] then Some ([], None)
     else do {
       mountPoint \<leftarrow> findMountPoint os st path True;
       if mountPoint = [] then Some ([], None)
       else
         let mountPoint = mount_of_path os path mountPoint
         in case qvalue (fsBufMap st) mountPoint of
           None \<Rightarrow> Some ([], None)
         | Some buf \<Rightarrow> do {
             b \<leftarrow> bufs st buf;
             root \<leftarrow> get_root_path b;
             Some (path_in_buf root mountPoint path, Some buf) } })"

text \<open>The part that the three handlers share: the buffer, waiting for a build if there is none.\<close>

definition awaited_buf :: "lft_os \<Rightarrow> lft_state \<Rightarrow> cstring \<Rightarrow> buf_ptr option \<Rightarrow> buf_ptr option" where
  "awaited_buf os st mount_path buf =
    (case buf of Some p \<Rightarrow> Some p
     | None \<Rightarrow> (case qvalue (fsWatcherMap st) mount_path of None \<Rightarrow> None | Some w \<Rightarrow> awaited os w))"

definition put_buf :: "lft_state \<Rightarrow> buf_ptr \<Rightarrow> fs_buf \<Rightarrow> lft_state" where
  "put_buf st p b = st\<lparr>bufs := (bufs st)(p \<mapsto> b)\<rparr>"

text \<open>The end of the three handlers: the result decides whether the file of the buffer is out of date.\<close>

definition buf_changed :: "lft_state \<Rightarrow> buf_ptr \<Rightarrow> fs_result \<Rightarrow> fs_buf \<Rightarrow> (cstring list \<times> lft_state) option" where
  "buf_changed st p r b =
    (let st = put_buf st p b
     in if r = FS_OK then do { root \<leftarrow> get_root_path b; Some ([root], markLFTFileToDirty st p) }
        else Some ([], st))"

subsection \<open>Events\<close>

text \<open>The records of the changes are not initialised.\<close>

definition no_change :: fs_change where
  "no_change = \<lparr>start_off = 0, delta = 0\<rparr>"

definition insertFileToLFTBuf :: "lft_os \<Rightarrow> lft_state \<Rightarrow> cstring \<Rightarrow> (cstring list \<times> lft_state) option" where
  "insertFileToLFTBuf os st file =
    (if \<not> authorized os then Some ([], st)
     else do {
       (mount_path, buf) \<leftarrow> getFsBufByPath os st file;
       if mount_path = [] then Some ([], st)
       else
         let is_dir = file_is_dir os file
         in case awaited_buf os st mount_path buf of
           None \<Rightarrow> Some ([], st)
         | Some p \<Rightarrow> do {
             b \<leftarrow> bufs st p;
             (r, _, b) \<leftarrow> insert_path (os_al os) b mount_path is_dir no_change;
             buf_changed st p r b } })"

definition removeFileFromLFTBuf :: "lft_os \<Rightarrow> lft_state \<Rightarrow> cstring \<Rightarrow> (cstring list \<times> lft_state) option" where
  "removeFileFromLFTBuf os st file =
    (if \<not> authorized os then Some ([], st)
     else do {
       (mount_path, buf) \<leftarrow> getFsBufByPath os st file;
       if mount_path = [] then Some ([], st)
       else case awaited_buf os st mount_path buf of
           None \<Rightarrow> Some ([], st)
         | Some p \<Rightarrow> do {
             b \<leftarrow> bufs st p;
             (r, _, _, b) \<leftarrow> remove_path (os_al os) b mount_path (replicate 10 no_change) 10;
             buf_changed st p r b } })"

text \<open>\<open>QByteArray::mid\<close> from a position that may be negative.\<close>

definition mid_of :: "cstring \<Rightarrow> int \<Rightarrow> cstring" where
  "mid_of s n = (if n < 0 then s else drop (nat n) s)"

definition old_path_in_buf :: "cstring \<Rightarrow> cstring \<Rightarrow> cstring \<Rightarrow> cstring \<Rightarrow> cstring" where
  "old_path_in_buf root new_file_new_path oldFile newFile =
    (let valid_suffix_size = int (length new_file_new_path) - int (length root);
         invalid_prefix_size = int (length newFile) - valid_suffix_size
     in root @ mid_of oldFile invalid_prefix_size)"

definition renameFileOfLFTBuf :: "lft_os \<Rightarrow> lft_state \<Rightarrow> cstring \<Rightarrow> cstring \<Rightarrow> (cstring list \<times> lft_state) option" where
  "renameFileOfLFTBuf os st oldFile newFile =
    (if \<not> authorized os then Some ([], st)
     else do {
       (mount_path, buf) \<leftarrow> getFsBufByPath os st newFile;
       if mount_path = [] then Some ([], st)
       else case awaited_buf os st mount_path buf of
           None \<Rightarrow> Some ([], st)
         | Some p \<Rightarrow> do {
             b \<leftarrow> bufs st p;
             root \<leftarrow> get_root_path b;
             (r, _, _, b) \<leftarrow> rename_path (os_al os) b (old_path_in_buf root mount_path oldFile newFile) mount_path
               (replicate 10 no_change) 10;
             buf_changed st p r b } })"

text \<open>One action of the list that \<open>onFileChanged\<close> gets, and the list.\<close>

definition fileChanged :: "lft_os \<Rightarrow> lft_state \<Rightarrow> file_action \<Rightarrow> lft_state option" where
  "fileChanged os st a =
    map_option snd (if starts_with (fst a) INSERT_ACTION then insertFileToLFTBuf os st (snd a)
      else if starts_with (fst a) REMOVE_ACTION then removeFileFromLFTBuf os st (snd a)
      else renameFileOfLFTBuf os st (fst a) (snd a))"

fun onFileChanged :: "lft_os \<Rightarrow> lft_state \<Rightarrow> file_action list \<Rightarrow> lft_state option" where
  "onFileChanged os st [] = Some st"
| "onFileChanged os st (a # as) = do { st \<leftarrow> fileChanged os st a; onFileChanged os st as }"

subsection \<open>Queries\<close>

definition allPath :: "lft_state \<Rightarrow> cstring list" where
  "allPath st = map fst (fsBufMap st)"

definition hasLFTSubdirectories :: "lft_state \<Rightarrow> cstring \<Rightarrow> cstring list" where
  "hasLFTSubdirectories st path =
    (let path = (if ends_with path [slash] then path else path @ [slash])
     in filter (\<lambda>k. starts_with (k @ [slash]) path) (allPath st))"

definition lftBuinding :: "lft_state \<Rightarrow> cstring \<Rightarrow> bool" where
  "lftBuinding st path \<longleftrightarrow> qvalue (fsWatcherMap st) path \<noteq> None"

definition isAutoIndexPartition :: "lft_state \<Rightarrow> bool" where
  "isAutoIndexPartition st \<longleftrightarrow> autoIndexExternal st \<or> autoIndexInternal st"

text \<open>\<open>find_dir\<close> is \<open>find_matching_dir_by_cache\<close>; its first result counts.\<close>

fun first_match :: "(cstring \<Rightarrow> cstring \<Rightarrow> cstring option) \<Rightarrow> cstring list \<Rightarrow> cstring \<Rightarrow> cstring" where
  "first_match find_dir [] path = path"
| "first_match find_dir (mp # mps) path =
    (case find_dir mp path of Some p \<Rightarrow> p | None \<Rightarrow> first_match find_dir mps path)"

definition convertPathIntoMountPoint :: "(cstring \<Rightarrow> cstring \<Rightarrow> cstring option) \<Rightarrow> cstring list \<Rightarrow> cstring \<Rightarrow> cstring" where
  "convertPathIntoMountPoint find_dir points path =
    (if path = [slash] then path
     else if list_ex (\<lambda>mp. mp \<noteq> [slash] \<and> starts_with path mp) points then path
     else first_match find_dir points path)"

definition hasLFT :: "lft_os \<Rightarrow> (cstring \<Rightarrow> cstring \<Rightarrow> cstring option) \<Rightarrow> lft_state \<Rightarrow> cstring \<Rightarrow> bool option" where
  "hasLFT os find_dir st path = do {
     (p, _) \<leftarrow> getFsBufByPath os st (convertPathIntoMountPoint find_dir (allPath st) path);
     Some (p \<noteq> []) }"


subsection \<open>The index of a file\<close>

lemma ancestor_prefix:
  assumes "absolute p" "a \<in> set (ancestors p)"
  shows "a = p \<or> a = [slash] \<or> (\<exists>rest. p = a @ slash # rest)"
  using assms
proof (induction p rule: absolute_induct)
  case root
  then show ?case by (simp add: ancestors.simps[of "[slash]"])
next
  case (below p i)
  obtain u v where p: "p = u @ slash # v" "length u = i" using below(3) by (auto simp: strrchr_Some)
  let ?q = "upper_path p i"
  show ?case
  proof (cases "a = p \<or> a = [slash]")
    case False
    then have a: "a \<in> set (ancestors ?q)" using below by auto
    have "?q \<noteq> [slash]"
    proof
      assume "?q = [slash]"
      then have "a = [slash]" using a by (simp add: ancestors.simps[of "[slash]"])
      then show False using False by simp
    qed
    then have q: "?q = u" using p by (auto simp: upper_path_def split: if_splits)
    from below.IH[OF a] False show ?thesis unfolding q using p by auto
  qed auto
qed

lemma ancestors_absolute: "absolute p \<Longrightarrow> a \<in> set (ancestors p) \<Longrightarrow> absolute a"
  by (induction p rule: absolute_induct) (auto simp: ancestors.simps[of "[slash]"] absolute_def)

lemma mount_above_mem: "absolute p \<Longrightarrow> mount_above mps mounted h p \<in> set (ancestors p)"
proof (induction p rule: absolute_induct)
  case root
  then show ?case by (simp add: mount_above_root ancestors.simps[of "[slash]"])
next
  case (below p i)
  then show ?case by (auto simp: mount_above_def)
qed

text \<open>The folder whose mount point is looked up: the folder of a link, otherwise the path itself.\<close>

lemma ancestors_trans: "absolute p \<Longrightarrow> q \<in> set (ancestors p) \<Longrightarrow> m \<in> set (ancestors q) \<Longrightarrow> m \<in> set (ancestors p)"
  by (induction p rule: absolute_induct) (auto simp: ancestors.simps[of "[slash]"])

lemma mount_above_looked_up:
  assumes "absolute p" "r \<in> set (ancestors p)"
  shows "absolute r \<and> mount_above mps mounted h r \<in> set (ancestors p)"
  using ancestors_absolute[OF assms] mount_above_mem ancestors_trans[OF assms] by blast

text \<open>The root path of the index of a mount point.\<close>

definition index_root :: "cstring \<Rightarrow> cstring" where
  "index_root m = (if m = [slash] then m else m @ [slash])"

text \<open>A path as the events have it: absolute, without a slash at its end or a doubled one at its start.\<close>

definition plain_path :: "cstring \<Rightarrow> bool" where
  "plain_path p \<longleftrightarrow> absolute p \<and> last p \<noteq> slash \<and> take 2 p \<noteq> [slash, slash]"

lemma path_in_buf_below:
  assumes "plain_path p" "m \<in> set (ancestors p)"
  shows "path_in_buf (index_root m) m p = p"
proof -
  have a: "absolute p" "last p \<noteq> slash" using assms(1) by (simp_all add: plain_path_def)
  from ancestor_prefix[OF a(1) assms(2)] consider "m = p" | "m = [slash]" "m \<noteq> p" | rest where "p = m @ slash # rest" "m \<noteq> [slash]"
    by blast
  then show ?thesis
  proof cases
    case 1
    then show ?thesis using a by (auto simp: path_in_buf_def index_root_def starts_with_def absolute_def)
  next
    case 2
    then obtain r where r: "p = slash # r" using a by (cases p) (auto simp: absolute_def)
    then obtain c q where q: "r = c # q" using 2 by (cases r) auto
    have "c \<noteq> slash" using assms(1) unfolding r q by (simp add: plain_path_def)
    then show ?thesis using 2 a(2) unfolding r q by (simp add: path_in_buf_def starts_with_def Let_def index_root_def)
  next
    case 3
    then show ?thesis using a by (auto simp: path_in_buf_def index_root_def starts_with_def Let_def)
  qed
qed

text \<open>\<open>indexed os st mounted p ix b m ks\<close>: \<open>m\<close> is the real mount point above \<open>p\<close>, and \<open>b\<close> the buffer of its
  index, which holds the forest \<open>ks\<close>.  The path need not exist, and it may be a link: then its folder is looked
  up.\<close>

definition indexed :: "lft_os \<Rightarrow> lft_state \<Rightarrow> (cstring \<Rightarrow> bool) \<Rightarrow> cstring \<Rightarrow> buf_ptr \<Rightarrow> fs_buf \<Rightarrow> cstring \<Rightarrow> node list \<Rightarrow> bool" where
  "indexed os st mounted p ix b m ks \<longleftrightarrow>
     mnt_contract (mnt_os os) mounted \<and> result_path0 (mnt_os os) p \<in> set (ancestors p)
   \<and> m = mount_above (mountPointList st) mounted True (result_path0 (mnt_os os) p) \<and> mount_of_path os p m = m
   \<and> qvalue (fsBufMap st) m = Some ix \<and> bufs st ix = Some b
   \<and> represents b (index_root m) ks \<and> lock b = Unlocked"

lemma getFsBufByPath_indexed:
  assumes "indexed os st mounted p ix b m ks" "plain_path p"
  shows "getFsBufByPath os st p = Some (p, Some ix)"
proof -
  have a: "absolute p" using assms(2) by (simp add: plain_path_def)
  then obtain q where q: "p = slash # q" by (cases p) (auto simp: absolute_def)
  let ?r = "result_path0 (mnt_os os) p"
  have m: "m = mount_above (mountPointList st) mounted True ?r" and r: "?r \<in> set (ancestors p)"
    using assms(1) by (simp_all add: indexed_def)
  have mem: "m \<in> set (ancestors p)" and ar: "absolute ?r" unfolding m using mount_above_looked_up[OF a r] by blast+
  then have ne: "m \<noteq> []" using ancestors_absolute[OF a] by (auto simp: absolute_def)
  have f: "findMountPoint os st p True = Some m"
    using assms(1) find_mount_loop_above[of "mnt_os os" mounted ?r] ar
    by (simp add: indexed_def findMountPoint_def findMountPointByPath_def)
  have root: "get_root_path b = Some (index_root m)"
    using assms(1) get_root_path_holds unfolding indexed_def by blast
  have "starts_with p [slash]" by (simp add: q starts_with_def)
  moreover have "mount_of_path os p m = m" "qvalue (fsBufMap st) m = Some ix" "bufs st ix = Some b"
    using assms(1) unfolding indexed_def by blast+
  ultimately show ?thesis
    using f root ne path_in_buf_below[OF assms(2) mem] by (simp add: getFsBufByPath_def Let_def)
qed

text \<open>The state after a handler: the new buffer, marked if it was changed.\<close>

definition after_change :: "lft_state \<Rightarrow> buf_ptr \<Rightarrow> fs_result \<Rightarrow> fs_buf \<Rightarrow> lft_state" where
  "after_change st p r b = (if r = FS_OK then markLFTFileToDirty (put_buf st p b) p else put_buf st p b)"

lemma buf_changed_after:
  "represents b root ks \<Longrightarrow> buf_changed st p r b = Some (if r = FS_OK then [root] else [], after_change st p r b)"
  using get_root_path_represents[of b root ks]
  by (simp add: buf_changed_def after_change_def get_root_path_def Let_def)

definition event_spec :: "cstring \<Rightarrow> node list \<Rightarrow> bool \<Rightarrow> cstring \<Rightarrow> cstring \<Rightarrow> (fs_result \<times> node list) option" where
  "event_spec root ks is_dir act p = (if act = INSERT_ACTION then tree_insert root ks p is_dir else tree_remove root ks p)"

lemma action_tags: "starts_with INSERT_ACTION INSERT_ACTION" "starts_with REMOVE_ACTION REMOVE_ACTION"
  "\<not> starts_with REMOVE_ACTION INSERT_ACTION" "INSERT_ACTION \<noteq> REMOVE_ACTION"
  by (simp_all add: INSERT_ACTION_def REMOVE_ACTION_def starts_with_def)

text \<open>An event and the index.  An event of a new or a removed file goes to the index of the real
  mount point above the file, and changes the forest of that index as \<open>tree_insert\<close> or \<open>tree_remove\<close> says
  for the path of the event; a failed insertion for want of memory leaves it as it was.  The file of the
  index is marked as out of date exactly if the forest was changed, and nothing else changes.\<close>

lemma fileChanged_indexed:
  assumes "indexed os st mounted p ix b m ks" "authorized os" "plain_path p"
    and "alloc_ok (os_al os)" "ks \<noteq> []" "is_cstr p" "length p < 1073741824"
    and "act \<in> {INSERT_ACTION, REMOVE_ACTION}"
    and "event_spec (index_root m) ks (file_is_dir os p) act p = Some (res, ks')"
  shows "\<exists>r b'. fileChanged os st (act, p) = Some (after_change st ix r b') \<and> lock b' = Unlocked
    \<and> (r = res \<and> represents b' (index_root m) ks'
      \<or> r = ERR_NO_MEM \<and> act = INSERT_ACTION \<and> b' = b \<and> \<not> avail (os_al os) b (length p + 10))"
proof -
  have r: "represents b (index_root m) ks" "lock b = Unlocked" "bufs st ix = Some b"
    using assms(1) unfolding indexed_def by blast+
  note g = getFsBufByPath_indexed[OF assms(1,3)]
  have ne: "p \<noteq> []" using assms(3) by (simp add: plain_path_def absolute_def)
  show ?thesis
  proof (cases "act = INSERT_ACTION")
    case True
    then have "tree_insert (index_root m) ks p (file_is_dir os p) = Some (res, ks')"
      using assms(9) by (simp add: event_spec_def)
    from insert_path_represents[OF r(1) assms(5,4) r(2) assms(6,7) this, of no_change]
    obtain r' c' b' where i: "insert_path (os_al os) b p (file_is_dir os p) no_change = Some (r', c', b')"
      "inserted b (index_root m) ks p no_change (res, ks') (r', c', b')" by blast
    then have b': "lock b' = Unlocked"
      "r' = res \<and> represents b' (index_root m) ks' \<or> r' = ERR_NO_MEM \<and> b' = b \<and> \<not> avail (os_al os) b (length p + 10)"
      using r(2) insert_path_avail[OF r(1,2) assms(4), of p "file_is_dir os p" no_change c' b'] by (auto simp: inserted_def)
    then obtain ks2 where "represents b' (index_root m) ks2" using r(1) by blast
    then have "fileChanged os st (act, p) = Some (after_change st ix r' b')"
      using True i(1) g ne assms(2) r(3) buf_changed_after
      by (simp add: fileChanged_def action_tags insertFileToLFTBuf_def awaited_buf_def Let_def)
    then show ?thesis using b' True by blast
  next
    case False
    then have act: "act = REMOVE_ACTION" using assms(8) by simp
    have "tree_remove (index_root m) ks p = Some (res, ks')" using assms(9) False by (simp add: event_spec_def)
    moreover have "2 \<le> length (replicate 10 no_change)" by simp
    ultimately obtain chs k b' where i: "remove_path (os_al os) b p (replicate 10 no_change) 10 = Some (res, chs, k, b')"
      "represents b' (index_root m) ks'" "lock b' = Unlocked"
      using remove_path_represents[OF r(1,2) assms(6)] by metis
    then have "fileChanged os st (act, p) = Some (after_change st ix res b')"
      using act g ne assms(2) r(3) buf_changed_after
      by (simp add: fileChanged_def action_tags removeFileFromLFTBuf_def awaited_buf_def Let_def)
    then show ?thesis using i by blast
  qed
qed


text \<open>The server with the index of the root, the sample of theory Fs_Claims.  The root, \<open>/a\<close> and \<open>/a/b\<close> exist.\<close>

definition root_mounted :: "cstring \<Rightarrow> bool" where
  "root_mounted p \<longleftrightarrow> p = [slash]"

definition sample_present :: "cstring \<Rightarrow> bool" where
  "sample_present p \<longleftrightarrow> p \<in> set [[47], [47, 97], [47, 97, 47, 98]]"

definition sample_lft_os :: lft_os where
  "sample_lft_os = \<lparr>mnt_os = \<lparr>path_lstat = (\<lambda>p. None), absolutePath = id, 
       mnt_get_mountpoint = (\<lambda>p. if sample_present p then find root_mounted (ancestors p) else None)\<rparr>,
     disks = \<lparr>blockPartitionByMountPoint = (\<lambda>mp. None), blockDevices = []\<rparr>, os_al = sample_alloc, authorized = True,
     file_is_dir = (\<lambda>p. False), sysroot_split = False, awaited = (\<lambda>w. None), cache_dir = [47, 118], to_percent = id,
     from_percent = id, disk_removable = (\<lambda>d. False), out_room = (\<lambda>f. Some 1000), mkpath_ok = True, os_lock_ok = True,
     os_mtab = Rows [], storage_root = (\<lambda>p. None)\<rparr>"

definition sample_lft_state :: lft_state where
  "sample_lft_state = \<lparr>bufs = [7 \<mapsto> sample_buf 100], watchers = Map.empty, fsBufMap = [([47], 7)], fsBufToFileMap = Map.empty,
     fsWatcherMap = [], fsBufDirtyList = [], building_paths = [], mountPointList = [], autoIndexInternal = True,
     autoIndexExternal = False, lft_files = [], next_ptr = 8\<rparr>"

lemma sample_contract: "mnt_contract (mnt_os sample_lft_os) root_mounted"
  by (auto simp: mnt_contract_def sample_lft_os_def sample_present_def root_mounted_def intro!: exI[of _ sample_present])

lemma sample_indexed:
  "indexed sample_lft_os sample_lft_state root_mounted [47, 97, 47, 100] 7 (sample_buf 100) [47] sample_forest"
  using sample_contract
  by (simp add: indexed_def sample_lft_os_def sample_lft_state_def result_path0_def mount_above_def
      ancestors.simps upper_path_def root_mounted_def virtual_mount_def mount_of_path_def qvalue_def index_root_def
      sample_represents) (simp add: sample_buf_def)

subsection \<open>While an index is being built\<close>

text \<open>A path without a buffer gives the empty path, so that the handlers return before they wait for a
  build: what happens below a mount point during its build is not put into the new index.\<close>

lemma no_buffer_no_path:
  "getFsBufByPath os st path = Some (p, None) \<Longrightarrow> p = []"
  by (auto simp: getFsBufByPath_def Let_def Option.bind_eq_Some_conv split: if_splits option.splits)

lemma event_during_build_dropped:
  assumes "getFsBufByPath os st path = Some (p, None)"
  shows "insertFileToLFTBuf os st path = Some ([], st)" "removeFileFromLFTBuf os st path = Some ([], st)"
    "renameFileOfLFTBuf os st old path = Some ([], st)"
  using assms no_buffer_no_path[OF assms]
  by (simp_all add: insertFileToLFTBuf_def removeFileFromLFTBuf_def renameFileOfLFTBuf_def)

text \<open>The empty action of an unknown event changes nothing.\<close>

lemma unknown_event_ignored:
  "fileChanged os st (server_action 9 s d) = Some st"
  by (simp add: fileChanged_def server_action_def starts_with_def INSERT_ACTION_def REMOVE_ACTION_def
      renameFileOfLFTBuf_def getFsBufByPath_def)

end
