(* ===== verification/Lft_Build.thy ===== *)
theory Lft_Build
  imports Lft_State
begin

text \<open>
  The life of an index (\<open>src/src/server/backend/lib/lftmanager.cpp\<close>): it is built by a job in another
  thread, taken over when the job has finished, written to a file, loaded from there, and freed when
  its mount point goes away.

  The handlers run in the main thread one after the other; a job and the signal of its end are
  steps of their own.
\<close>

subsection \<open>Building\<close>

text \<open>\<open>handle_build_fs_buf_progress\<close>: \<open>running\<close> and \<open>canceled\<close> are the state of the watcher.\<close>

definition handle_build_fs_buf_progress :: "bool \<Rightarrow> bool \<Rightarrow> bool" where
  "handle_build_fs_buf_progress running canceled = (if \<not> running then False else if canceled then True else False)"

definition checkFSBuf :: "fs_buf \<Rightarrow> bool" where
  "checkFSBuf b \<longleftrightarrow> get_tail b \<noteq> first_name b"

text \<open>The inner \<open>None\<close> is the null pointer.\<close>

definition buildFSBuf :: "allocator \<Rightarrow> bool \<Rightarrow> (cstring \<Rightarrow> (byte \<times> byte) option) \<Rightarrow> mounts_line list option \<Rightarrow>
    (cstring \<Rightarrow> (cstring \<times> d_type) list option) \<Rightarrow> (u32 \<Rightarrow> u32 \<Rightarrow> cstring \<Rightarrow> cstring option \<Rightarrow> bool) \<Rightarrow> cstring \<Rightarrow>
    fs_buf option option" where
  "buildFSBuf al lock_ok stat_dev mounts names pcf path =
    (case new_fs_buf al lock_ok (2 ^ 24) (Some path) of None \<Rightarrow> Some None
     | Some b \<Rightarrow> do {
         (r, b) \<leftarrow> build_fstree al stat_dev mounts names pcf False b;
         Some (if r \<noteq> 0 then None else if \<not> checkFSBuf b then None else Some b) })"

text \<open>\<open>".LFT"\<close> for an index that was made automatically, \<open>".lft"\<close> otherwise.\<close>

definition DOT_LFT :: cstring where "DOT_LFT = [46, 76, 70, 84]"
definition DOT_lft :: cstring where "DOT_lft = [46, 108, 102, 116]"

definition path_serial :: "lft_os \<Rightarrow> lft_state \<Rightarrow> cstring \<Rightarrow> cstring option" where
  "path_serial os st path = pathToSerialUri (mnt_os os) (mountPointList st) (disks os) path"

definition serial_paths :: "lft_os \<Rightarrow> lft_state \<Rightarrow> cstring \<Rightarrow> cstring list" where
  "serial_paths os st uri = fromSerialUri (mountPointList st) (disks os) uri"

definition getLFTFileByPath :: "lft_os \<Rightarrow> lft_state \<Rightarrow> cstring \<Rightarrow> bool \<Rightarrow> cstring option" where
  "getLFTFileByPath os st path autoIndex = do {
     uri \<leftarrow> path_serial os st path;
     Some (if uri = [] then []
       else if cache_dir os = [] then []
       else cache_dir os @ [slash] @ to_percent os (uri @ (if autoIndex then DOT_LFT else DOT_lft))) }"

definition allowablePath :: "lft_os \<Rightarrow> lft_state \<Rightarrow> cstring \<Rightarrow> bool option" where
  "allowablePath os st path = do {
     mountPoint \<leftarrow> findMountPoint os st path False;
     Some (if mountPoint = [] then True
       else case blockPartitionByMountPoint (disks os) (mountPoint @ [0]) of None \<Rightarrow> True
         | Some device \<Rightarrow> if disk_removable os device then autoIndexExternal st else autoIndexInternal st) }"

definition lft_file_of :: "lft_state \<Rightarrow> buf_ptr \<Rightarrow> cstring" where
  "lft_file_of st p = (case fsBufToFileMap st p of None \<Rightarrow> [] | Some f \<Rightarrow> f)"

definition allowableBuf :: "lft_os \<Rightarrow> lft_state \<Rightarrow> buf_ptr \<Rightarrow> bool option" where
  "allowableBuf os st p =
    (if ends_with (lft_file_of st p) DOT_lft then Some True
     else do { b \<leftarrow> bufs st p; root \<leftarrow> get_root_path b; allowablePath os st root })"

subsection \<open>Freeing\<close>

definition free_buf :: "lft_state \<Rightarrow> buf_ptr option \<Rightarrow> lft_state option" where
  "free_buf st buf = (case buf of None \<Rightarrow> Some st
     | Some p \<Rightarrow> (case bufs st p of None \<Rightarrow> None | Some _ \<Rightarrow> Some (st\<lparr>bufs := (bufs st)(p := None)\<rparr>)))"

definition doLFTFileToDirty :: "lft_state \<Rightarrow> buf_ptr \<Rightarrow> bool \<times> lft_state" where
  "doLFTFileToDirty st p =
    (let f = lft_file_of st p
     in if f = [] then (False, st)
        else (qvalue (lft_files st) f \<noteq> None, st\<lparr>lft_files := qremove f (lft_files st)\<rparr>))"

fun doLFTFilesToDirty :: "lft_state \<Rightarrow> buf_ptr list \<Rightarrow> lft_state" where
  "doLFTFilesToDirty st [] = st"
| "doLFTFilesToDirty st (p # ps) = doLFTFilesToDirty (snd (doLFTFileToDirty st p)) ps"

definition cleanDirtyLFTFiles :: "lft_state \<Rightarrow> lft_state" where
  "cleanDirtyLFTFiles st = (doLFTFilesToDirty st (fsBufDirtyList st))\<lparr>fsBufDirtyList := []\<rparr>"

definition forget_buf :: "lft_state \<Rightarrow> buf_ptr \<Rightarrow> lft_state" where
  "forget_buf st p = st\<lparr>fsBufDirtyList := removeAll p (fsBufDirtyList st),
     fsBufToFileMap := (fsBufToFileMap st)(p := None)\<rparr>"

definition removeBuf :: "lft_state \<Rightarrow> buf_ptr \<Rightarrow> bool \<Rightarrow> (bool \<times> lft_state) option" where
  "removeBuf st p removeLFTFile =
    (let st = st\<lparr>fsBufMap := fold qremove (qkeys p (fsBufMap st)) (fsBufMap st)\<rparr>;
         (removeLFTFile, st) = (if removeLFTFile then doLFTFileToDirty st p else (False, st))
     in do { st \<leftarrow> free_buf (forget_buf st p) (Some p); Some (removeLFTFile, st) })"

subsection \<open>Adding a path\<close>

definition set_watcher :: "lft_state \<Rightarrow> watcher_ptr \<Rightarrow> watcher \<Rightarrow> lft_state" where
  "set_watcher st w wt = st\<lparr>watchers := (watchers st)(w \<mapsto> wt)\<rparr>"

definition new_watcher :: "lft_state \<Rightarrow> bool \<Rightarrow> cstring list \<Rightarrow> lft_state" where
  "new_watcher st autoIndex path_list =
    set_watcher (st\<lparr>next_ptr := next_ptr st + 1\<rparr>) (next_ptr st)
      \<lparr>w_auto_index = autoIndex, w_path_list = path_list, w_path = (case path_list of [] \<Rightarrow> [] | p # _ \<Rightarrow> p),
       w_canceled = False, w_result = None\<rparr>"

definition addPath :: "lft_os \<Rightarrow> lft_state \<Rightarrow> cstring \<Rightarrow> bool \<Rightarrow> (bool \<times> lft_state) option" where
  "addPath os st path autoIndex =
    (if \<not> authorized os then Some (False, st)
     else if \<not> starts_with path [slash] then Some (False, st)
     else if qvalue (fsWatcherMap st) path \<noteq> None then Some (False, st)
     else do {
       serial_uri \<leftarrow> path_serial os st path;
       if serial_uri = [] then Some (False, st)
       else
         let path_list = serial_paths os st serial_uri;
             w = next_ptr st;
             st = new_watcher st autoIndex path_list
         in case path_list of [] \<Rightarrow> Some (False, st)
            | path # _ \<Rightarrow> Some (True,
                st\<lparr>fsWatcherMap := fold (\<lambda>p. qinsert p w) path_list (fsWatcherMap st),
                   building_paths := building_paths st @ [path]\<rparr>) })"

text \<open>The end of a job: \<open>None\<close> is the null pointer.  A watcher without a path has no job.\<close>

definition job_done :: "lft_state \<Rightarrow> watcher_ptr \<Rightarrow> fs_buf option \<Rightarrow> lft_state option" where
  "job_done st w outcome = do {
     wt \<leftarrow> watchers st w;
     if w_result wt \<noteq> None \<or> w_path_list wt = [] then None
     else case outcome of
       None \<Rightarrow> Some (set_watcher st w (wt\<lparr>w_result := Some None\<rparr>))
     | Some b \<Rightarrow> let p = next_ptr st in
         Some (set_watcher (put_buf (st\<lparr>next_ptr := p + 1\<rparr>) p b) w (wt\<lparr>w_result := Some (Some p)\<rparr>)) }"

subsection \<open>Writing\<close>

definition write_lft :: "lft_os \<Rightarrow> lft_state \<Rightarrow> buf_ptr \<Rightarrow> cstring \<Rightarrow> (int \<times> lft_state) option" where
  "write_lft os st p lft_file = do {
     b \<leftarrow> bufs st p;
     (r, b, f) \<leftarrow> save_fs_buf b (map_option (\<lambda>n. \<lparr>content = [], room = n\<rparr>) (out_room os lft_file));
     let st = put_buf st p b;
     Some (r, (case f of None \<Rightarrow> st | Some f \<Rightarrow> st\<lparr>lft_files := qinsert lft_file (content f) (lft_files st)\<rparr>)) }"

text \<open>\<open>Failed: "<path>"->"<file>"\<close>.\<close>

definition failed_message :: "cstring \<Rightarrow> cstring \<Rightarrow> cstring" where
  "failed_message path lft_file =
    [70, 97, 105, 108, 101, 100, 58, 32, 34] @ path @ [34, 45, 62, 34] @ lft_file @ [34]"

fun sync_loop :: "lft_os \<Rightarrow> cstring \<Rightarrow> (cstring, buf_ptr) qmap \<Rightarrow> buf_ptr list \<Rightarrow> cstring list \<Rightarrow> lft_state \<Rightarrow>
    (cstring list \<times> lft_state) option" where
  "sync_loop os mountPoint [] saved path_list st = Some (path_list, st)"
| "sync_loop os mountPoint ((path, p) # rest) saved path_list st =
    (if mountPoint \<noteq> [] \<and> \<not> starts_with (path @ [slash]) (mountPoint @ [slash])
     then sync_loop os mountPoint rest saved path_list st
     else if p \<in> set saved then sync_loop os mountPoint rest saved (path_list @ [path]) st
     else if lft_file_of st p = [] then sync_loop os mountPoint rest saved path_list st
     else do {
       (r, st') \<leftarrow> write_lft os st p (lft_file_of st p);
       if r = 0 then
         sync_loop os mountPoint rest (saved @ [p]) (path_list @ [path])
           (st'\<lparr>fsBufDirtyList := removeAll p (fsBufDirtyList st')\<rparr>)
       else sync_loop os mountPoint rest saved (path_list @ [failed_message path (lft_file_of st p)]) st' })"

definition sync :: "lft_os \<Rightarrow> lft_state \<Rightarrow> cstring \<Rightarrow> (cstring list \<times> lft_state) option" where
  "sync os st mountPoint =
    (if \<not> authorized os then Some ([], st)
     else if \<not> mkpath_ok os then Some ([], st)
     else sync_loop os mountPoint (fsBufMap st) [] [] st)"

definition syncAll :: "lft_os \<Rightarrow> lft_state \<Rightarrow> lft_state option" where
  "syncAll os st = do { (_, st) \<leftarrow> sync os st []; Some (cleanDirtyLFTFiles st) }"

subsection \<open>Taking over\<close>

text \<open>The index that a path had before is freed, whatever other paths it has.\<close>

definition drop_old :: "lft_state \<Rightarrow> cstring \<Rightarrow> lft_state option" where
  "drop_old st path = (case qvalue (fsBufMap st) path of None \<Rightarrow> Some st
     | Some old_buf \<Rightarrow> map_option snd (removeBuf st old_buf False))"

definition take_over :: "buf_ptr option \<Rightarrow> lft_state \<Rightarrow> cstring \<Rightarrow> lft_state option" where
  "take_over buf st path = (case buf of None \<Rightarrow> Some st
     | Some p \<Rightarrow> do {
         st \<leftarrow> drop_old st path;
         Some (markLFTFileToDirty (st\<lparr>fsBufMap := qinsert path p (fsBufMap st)\<rparr>) p) })"

definition end_build :: "lft_state \<Rightarrow> cstring \<Rightarrow> lft_state" where
  "end_build st path = st\<lparr>fsWatcherMap := qremove path (fsWatcherMap st),
     building_paths := remove1 path (building_paths st)\<rparr>"

fun take_over_paths :: "buf_ptr option \<Rightarrow> lft_state \<Rightarrow> cstring list \<Rightarrow> lft_state option" where
  "take_over_paths buf st [] = Some st"
| "take_over_paths buf st (path # paths) = do {
     st \<leftarrow> take_over buf st path;
     take_over_paths buf (end_build st path) paths }"

text \<open>The lambda that \<open>addPath\<close> connects to the end of the job.  It ends with \<open>buildFinished\<close>, whose slot
  writes the indexes, when no path is left that is being built.\<close>

definition keep_result :: "lft_os \<Rightarrow> lft_state \<Rightarrow> watcher \<Rightarrow> buf_ptr option \<Rightarrow> bool option" where
  "keep_result os st wt buf =
    (if qvalue (fsWatcherMap st) (w_path wt) = None then Some False
     else case buf of None \<Rightarrow> Some True
       | Some p \<Rightarrow> if w_auto_index wt then allowableBuf os st p else Some True)"

definition onBuildFinished :: "lft_os \<Rightarrow> lft_state \<Rightarrow> watcher_ptr \<Rightarrow> lft_state option" where
  "onBuildFinished os st w = do {
     wt \<leftarrow> watchers st w;
     result \<leftarrow> w_result wt;
     let buf = (if \<not> w_canceled wt then result else None);
     keep \<leftarrow> keep_result os st wt buf;
     st \<leftarrow> (if keep then Some st else free_buf st buf);
     let buf = (if keep then buf else None);
     st \<leftarrow> take_over_paths buf st (w_path_list wt);
     st \<leftarrow> (case buf of None \<Rightarrow> Some st
            | Some p \<Rightarrow> do {
                f \<leftarrow> getLFTFileByPath os st (w_path wt) (w_auto_index wt);
                Some (st\<lparr>fsBufToFileMap := (fsBufToFileMap st)(p \<mapsto> f)\<rparr>) });
     let st = st\<lparr>watchers := (watchers st)(w := None)\<rparr>;
     if building_paths st = [] then syncAll os st else Some st }"

text \<open>\<open>cancelBuild\<close> waits for the job, which returns the null pointer when the callback stops it.  A
  buffer that the job had ready before is lost: nobody frees it.\<close>

definition cancelBuild :: "lft_os \<Rightarrow> lft_state \<Rightarrow> cstring \<Rightarrow> (bool \<times> lft_state) option" where
  "cancelBuild os st path =
    (if \<not> authorized os then Some (False, st)
     else case qvalue (fsWatcherMap st) path of None \<Rightarrow> Some (False, st)
       | Some w \<Rightarrow> do {
           wt \<leftarrow> watchers st w;
           let wt = wt\<lparr>w_canceled := True, w_result := (case w_result wt of None \<Rightarrow> Some None | Some r \<Rightarrow> Some r)\<rparr>;
           let m = qremove path (fsWatcherMap st);
           Some (True, (set_watcher st w wt)\<lparr>fsWatcherMap := fold qremove (qkeys w m) m\<rparr>) })"

end
