(* ===== verification/Lft_Manage.thy ===== *)
theory Lft_Manage
  imports Lft_Build
begin

text \<open>
  What makes the server build, load and free indexes (\<open>src/src/server/backend/lib/lftmanager.cpp\<close>):
  the files of the cache, mounting and unmounting, new and removed file systems, and the settings.
\<close>

subsection \<open>Files of the cache\<close>

text \<open>The names in the folder of the cache that end with one of \<open>suffixes\<close>, in the order of \<open>QDirIterator\<close>.\<close>

definition cache_files :: "lft_os \<Rightarrow> lft_state \<Rightarrow> cstring list \<Rightarrow> cstring list" where
  "cache_files os st suffixes =
    map (drop (length (cache_dir os) + 1))
      (filter (\<lambda>f. starts_with f (cache_dir os @ [slash]) \<and> list_ex (ends_with f) suffixes) (map fst (lft_files st)))"

definition cache_file :: "lft_os \<Rightarrow> cstring \<Rightarrow> cstring" where
  "cache_file os name = cache_dir os @ [slash] @ name"

text \<open>One index for all its paths; an index that is there is freed first.\<close>

fun put_loaded :: "buf_ptr \<Rightarrow> lft_state \<Rightarrow> cstring list \<Rightarrow> lft_state option" where
  "put_loaded p st [] = Some st"
| "put_loaded p st (path # paths) = do {
     st \<leftarrow> drop_old st path;
     put_loaded p (st\<lparr>fsBufMap := qinsert path p (fsBufMap st)\<rparr>) paths }"

definition refresh_file :: "lft_os \<Rightarrow> lft_state \<Rightarrow> cstring \<Rightarrow> (cstring list \<times> lft_state) option" where
  "refresh_file os st name =
    (let lft_file = cache_file os name;
         pathList = serial_paths os st (from_percent os (take (length name - 4) name))
     in if pathList = [] then Some ([], st)
        else do {
          (r, buf) \<leftarrow> load_fs_buf (os_al os) (os_lock_ok os) (qvalue (lft_files st) lft_file);
          if r \<noteq> 0 then Some ([], st)
          else case buf of None \<Rightarrow> Some ([], st)
            | Some b \<Rightarrow>
              if \<not> checkFSBuf b then do {
                root \<leftarrow> get_root_path b;
                (_, st) \<leftarrow> addPath os st root (ends_with name DOT_lft);
                Some ([], st) }
              else do {
                let p = next_ptr st;
                st \<leftarrow> put_loaded p (put_buf (st\<lparr>next_ptr := p + 1\<rparr>) p b) pathList;
                Some (pathList, st\<lparr>fsBufToFileMap := (fsBufToFileMap st)(p \<mapsto> lft_file)\<rparr>) } })"

fun refresh_loop :: "lft_os \<Rightarrow> cstring \<Rightarrow> cstring list \<Rightarrow> cstring list \<Rightarrow> lft_state \<Rightarrow> (cstring list \<times> lft_state) option" where
  "refresh_loop os serialUriFilter [] path_list st = Some (path_list, st)"
| "refresh_loop os serialUriFilter (name # names) path_list st =
    (if serialUriFilter \<noteq> [] \<and> \<not> starts_with name serialUriFilter
     then refresh_loop os serialUriFilter names path_list st
     else do {
       (ps, st) \<leftarrow> refresh_file os st name;
       refresh_loop os serialUriFilter names (path_list @ ps) st })"

definition refresh :: "lft_os \<Rightarrow> lft_state \<Rightarrow> cstring \<Rightarrow> (cstring list \<times> lft_state) option" where
  "refresh os st serialUriFilter =
    (if \<not> authorized os then Some ([], st)
     else refresh_loop os serialUriFilter (cache_files os st [DOT_lft, DOT_LFT]) [] st)"

fun remove_files :: "lft_os \<Rightarrow> cstring \<Rightarrow> cstring list \<Rightarrow> lft_state \<Rightarrow> cstring list \<times> lft_state" where
  "remove_files os serialUriFilter [] st = ([], st)"
| "remove_files os serialUriFilter (name # names) st =
    (if serialUriFilter \<noteq> [] \<and> \<not> starts_with name serialUriFilter then remove_files os serialUriFilter names st
     else let f = cache_file os name;
              (fs, st) = remove_files os serialUriFilter names (st\<lparr>lft_files := qremove f (lft_files st)\<rparr>)
          in (f # fs, st))"

definition removeLFTFiles :: "lft_os \<Rightarrow> lft_state \<Rightarrow> cstring \<Rightarrow> cstring list \<times> lft_state" where
  "removeLFTFiles os st serialUriFilter = remove_files os serialUriFilter (cache_files os st [DOT_LFT]) st"

text \<open>The file system of a block device appears or goes: the map of the ids is kept beside the state.\<close>

definition onFSAdded :: "lft_os \<Rightarrow> (cstring \<Rightarrow> cstring) \<Rightarrow> lft_state \<Rightarrow> (cstring \<rightharpoonup> cstring) \<Rightarrow> cstring \<Rightarrow>
    lft_state \<times> (cstring \<rightharpoonup> cstring)" where
  "onFSAdded os id_of st ids blockDevicePath =
    (let i = id_of blockDevicePath
     in if i \<noteq> [] then (snd (removeLFTFiles os st (SERIAL @ i)), ids(blockDevicePath \<mapsto> i)) else (st, ids))"

definition onFSRemoved :: "lft_os \<Rightarrow> lft_state \<Rightarrow> (cstring \<rightharpoonup> cstring) \<Rightarrow> cstring \<Rightarrow> lft_state \<times> (cstring \<rightharpoonup> cstring)" where
  "onFSRemoved os st ids blockDevicePath =
    (let i = (case ids blockDevicePath of None \<Rightarrow> [] | Some i \<Rightarrow> i)
     in (if i \<noteq> [] then snd (removeLFTFiles os st (SERIAL @ i)) else st, ids(blockDevicePath := None)))"

subsection \<open>Mounting\<close>

text \<open>\<open>None\<close>: the first mount point of a device that has none.\<close>

definition getRootMountPoint :: "lft_state \<Rightarrow> block_device \<Rightarrow> cstring option" where
  "getRootMountPoint st dev =
    (let points = map until_nul (mountPoints dev)
     in if points = [] then None
        else if length points = 1 then Some (hd points)
        else case find (\<lambda>p. getRootsByStrPoints (mountPointList st) points p = Some [slash]) points of
          Some p \<Rightarrow> Some p | None \<Rightarrow> Some (hd points))"

definition addPathByPartition :: "lft_os \<Rightarrow> lft_state \<Rightarrow> block_device \<Rightarrow> lft_state option" where
  "addPathByPartition os st dev =
    (if (if disk_removable os dev then autoIndexExternal st else autoIndexInternal st)
     then do { mp \<leftarrow> getRootMountPoint st dev; map_option snd (addPath os st mp True) }
     else Some st)"

definition refresh_mounts :: "lft_os \<Rightarrow> lft_state \<Rightarrow> lft_state" where
  "refresh_mounts os st = st\<lparr>mountPointList := snd (updateMountPoints (os_mtab os) (mountPointList st))\<rparr>"

definition onMountAdded :: "lft_os \<Rightarrow> lft_state \<Rightarrow> cstring \<Rightarrow> lft_state option" where
  "onMountAdded os st mountPoint = do {
     let st = refresh_mounts os st;
     let mount_root = until_nul mountPoint;
     serial_uri \<leftarrow> path_serial os st mount_root;
     (ps, st) \<leftarrow> refresh os st (to_percent os serial_uri);
     if mount_root \<in> set ps then Some st
     else if \<not> isAutoIndexPartition st then Some st
     else case blockPartitionByMountPoint (disks os) mountPoint of None \<Rightarrow> Some st
       | Some dev \<Rightarrow> if isLoopDevice dev then Some st else addPathByPartition os st dev }"

definition removePath :: "lft_os \<Rightarrow> lft_state \<Rightarrow> cstring \<Rightarrow> (bool \<times> lft_state) option" where
  "removePath os st path =
    (if \<not> authorized os then Some (False, st)
     else case qvalue (fsBufMap st) path of None \<Rightarrow> Some (False, st)
       | Some p \<Rightarrow>
         let st = st\<lparr>fsBufMap := qremove path (fsBufMap st)\<rparr>
         in if ends_with (lft_file_of st p) DOT_LFT then Some (False, st)
            else do {
              (removed, st) \<leftarrow> removeBuf st p True;
              st \<leftarrow> (if removed then
                      (case storage_root os path of None \<Rightarrow> Some st | Some root \<Rightarrow> onMountAdded os st root)
                    else Some st);
              Some (False, st) })"

fun unmount_paths :: "lft_os \<Rightarrow> cstring list \<Rightarrow> lft_state \<Rightarrow> lft_state option" where
  "unmount_paths os [] st = Some st"
| "unmount_paths os (path # paths) st =
    (case qvalue (fsBufMap st) path of None \<Rightarrow> unmount_paths os paths st
     | Some p \<Rightarrow>
       if lftBuinding st path then do { (_, st) \<leftarrow> cancelBuild os st path; unmount_paths os paths st }
       else do {
         st \<leftarrow> (if p \<in> set (fsBufDirtyList st) then map_option snd (sync os st path) else Some st);
         (_, st) \<leftarrow> removeBuf st p False;
         unmount_paths os paths st })"

definition onMountRemoved :: "lft_os \<Rightarrow> lft_state \<Rightarrow> cstring \<Rightarrow> lft_state option" where
  "onMountRemoved os st mountPoint =
    (let st = refresh_mounts os st
     in unmount_paths os (hasLFTSubdirectories st (until_nul mountPoint)) st)"

subsection \<open>Settings\<close>

text \<open>The buffers of the set are visited in some order; here in that of their first keys.\<close>

fun clean_bufs :: "lft_os \<Rightarrow> buf_ptr list \<Rightarrow> lft_state \<Rightarrow> lft_state option" where
  "clean_bufs os [] st = Some st"
| "clean_bufs os (p # ps) st = do {
     ok \<leftarrow> allowableBuf os st p;
     st \<leftarrow> (if \<not> ok then map_option snd (removeBuf st p True) else Some st);
     clean_bufs os ps st }"

text \<open>\<open>None\<close> also for a path whose watcher was removed together with an equivalent one: the code calls a
  method of the null pointer.\<close>

fun clean_builds :: "lft_os \<Rightarrow> cstring list \<Rightarrow> lft_state \<Rightarrow> lft_state option" where
  "clean_builds os [] st = Some st"
| "clean_builds os (path # paths) st = do {
     w \<leftarrow> qvalue (fsWatcherMap st) path;
     wt \<leftarrow> watchers st w;
     allowed \<leftarrow> (if w_auto_index wt then allowablePath os st path else Some True);
     st \<leftarrow> (if w_auto_index wt \<and> \<not> allowed then map_option snd (cancelBuild os st path) else Some st);
     clean_builds os paths st }"

definition cleanAllIndex :: "lft_os \<Rightarrow> lft_state \<Rightarrow> lft_state option" where
  "cleanAllIndex os st = do {
     st \<leftarrow> clean_bufs os (remdups (map snd (fsBufMap st))) st;
     clean_builds os (map fst (fsWatcherMap st)) st }"

text \<open>A block device with a file system; \<open>find_dir\<close> is the parameter of \<open>hasLFT\<close>.\<close>

fun index_blocks :: "lft_os \<Rightarrow> (cstring \<Rightarrow> cstring \<Rightarrow> cstring option) \<Rightarrow> bool \<Rightarrow> block_device list \<Rightarrow> lft_state \<Rightarrow> lft_state option" where
  "index_blocks os find_dir force [] st = Some st"
| "index_blocks os find_dir force (d # ds) st =
    (if isLoopDevice d then index_blocks os find_dir force ds st
     else if mountPoints d = [] then index_blocks os find_dir force ds st
     else do {
       has \<leftarrow> (if force then Some False else hasLFT os find_dir st (until_nul (hd (mountPoints d))));
       st \<leftarrow> (if \<not> has then addPathByPartition os st d else Some st);
       index_blocks os find_dir force ds st })"

definition indexAll :: "lft_os \<Rightarrow> (cstring \<Rightarrow> cstring \<Rightarrow> cstring option) \<Rightarrow> (block_device \<Rightarrow> bool) \<Rightarrow> bool \<Rightarrow> lft_state \<Rightarrow> lft_state option" where
  "indexAll os find_dir has_fs force st =
    index_blocks os find_dir force (filter has_fs (blockDevices (disks os))) (st\<lparr>building_paths := []\<rparr>)"

definition setAutoIndexExternal :: "lft_os \<Rightarrow> (cstring \<Rightarrow> cstring \<Rightarrow> cstring option) \<Rightarrow> (block_device \<Rightarrow> bool) \<Rightarrow> lft_state \<Rightarrow> bool \<Rightarrow> lft_state option" where
  "setAutoIndexExternal os find_dir has_fs st on =
    (if \<not> authorized os then Some st
     else if autoIndexExternal st = on then Some st
     else let st = st\<lparr>autoIndexExternal := on\<rparr>
          in if on then indexAll os find_dir has_fs False st else cleanAllIndex os st)"

definition setAutoIndexInternal :: "lft_os \<Rightarrow> (cstring \<Rightarrow> cstring \<Rightarrow> cstring option) \<Rightarrow> (block_device \<Rightarrow> bool) \<Rightarrow> lft_state \<Rightarrow> bool \<Rightarrow> lft_state option" where
  "setAutoIndexInternal os find_dir has_fs st on =
    (if \<not> authorized os then Some st
     else if autoIndexInternal st = on then Some st
     else let st = st\<lparr>autoIndexInternal := on\<rparr>
          in if on then indexAll os find_dir has_fs False st else cleanAllIndex os st)"

text \<open>The end of the server: the indexes are written, freed, and the builds canceled.\<close>

fun free_bufs :: "buf_ptr list \<Rightarrow> lft_state \<Rightarrow> lft_state option" where
  "free_bufs [] st = Some st"
| "free_bufs (p # ps) st = do { st \<leftarrow> free_buf st (Some p); free_bufs ps st }"

fun cancel_builds :: "lft_os \<Rightarrow> cstring list \<Rightarrow> lft_state \<Rightarrow> lft_state option" where
  "cancel_builds os [] st = Some st"
| "cancel_builds os (path # paths) st = do { (_, st) \<leftarrow> cancelBuild os st path; cancel_builds os paths st }"

definition clearFsBufMap :: "lft_os \<Rightarrow> lft_state \<Rightarrow> lft_state option" where
  "clearFsBufMap os st = do {
     st \<leftarrow> free_bufs (remdups (map snd (fsBufMap st))) st;
     let st = st\<lparr>fsBufMap := [], fsBufToFileMap := Map.empty\<rparr>;
     cancel_builds os (map fst (fsWatcherMap st)) st }"

definition destroy :: "lft_os \<Rightarrow> lft_state \<Rightarrow> lft_state option" where
  "destroy os st = do {
     (_, st) \<leftarrow> sync os st [];
     st \<leftarrow> clearFsBufMap os st;
     Some (cleanDirtyLFTFiles st) }"

end
