(* ===== verification/Lft_Safety.thy ===== *)
theory Lft_Safety
  imports Lft_Manage
begin

text \<open>
  No pointer of the server dangles: the invariant of the state of \<open>LFTManager\<close>, its preservation by
  every handler, and the machine whose steps are the handlers and the ends of the jobs.
\<close>

subsection \<open>The invariant\<close>

text \<open>The buffers that the maps name, and those that only a finished job holds; \<open>X\<close> are the watchers whose
  slot is running.\<close>

definition held :: "lft_state \<Rightarrow> buf_ptr set" where
  "held st = ran (qvalue (fsBufMap st)) \<union> dom (fsBufToFileMap st) \<union> set (fsBufDirtyList st)"

definition job_of :: "lft_state \<Rightarrow> watcher_ptr \<Rightarrow> buf_ptr \<Rightarrow> bool" where
  "job_of st w p \<longleftrightarrow> (\<exists>wt. watchers st w = Some wt \<and> w_result wt = Some (Some p))"

definition lft_inv :: "watcher_ptr set \<Rightarrow> lft_state \<Rightarrow> bool" where
  "lft_inv X st \<longleftrightarrow> qmap_ok (fsBufMap st) \<and> qmap_ok (fsWatcherMap st)
   \<and> held st \<subseteq> dom (bufs st)
   \<and> (\<forall>w p. w \<notin> X \<longrightarrow> job_of st w p \<longrightarrow> p \<in> dom (bufs st) \<and> p \<notin> held st)
   \<and> (\<forall>w w' p. w \<notin> X \<longrightarrow> w' \<notin> X \<longrightarrow> job_of st w p \<longrightarrow> job_of st w' p \<longrightarrow> w = w')
   \<and> dom (bufs st) \<union> dom (watchers st) \<subseteq> {..<next_ptr st}
   \<and> (\<forall>path w. qvalue (fsWatcherMap st) path = Some w \<longrightarrow> (\<exists>wt. watchers st w = Some wt \<and> path \<in> set (w_path_list wt)))
   \<and> (\<forall>w wt. watchers st w = Some wt \<longrightarrow> distinct (w_path_list wt))"

abbreviation lft_ok :: "lft_state \<Rightarrow> bool" where
  "lft_ok \<equiv> lft_inv {}"

lemma lft_invD:
  assumes "lft_inv X st"
  shows "qmap_ok (fsBufMap st)" "qmap_ok (fsWatcherMap st)" "held st \<subseteq> dom (bufs st)"
    "w \<notin> X \<Longrightarrow> job_of st w p \<Longrightarrow> p \<in> dom (bufs st) \<and> p \<notin> held st"
    "w \<notin> X \<Longrightarrow> w' \<notin> X \<Longrightarrow> job_of st w p \<Longrightarrow> job_of st w' p \<Longrightarrow> w = w'"
    "p \<in> dom (bufs st) \<Longrightarrow> p < next_ptr st" "w \<in> dom (watchers st) \<Longrightarrow> w < next_ptr st"
    "qvalue (fsWatcherMap st) path = Some w \<Longrightarrow> \<exists>wt. watchers st w = Some wt \<and> path \<in> set (w_path_list wt)"
    "watchers st w = Some wt \<Longrightarrow> distinct (w_path_list wt)"
  using assms unfolding lft_inv_def by blast+

lemma lft_inv_ptrs: "lft_inv X st \<Longrightarrow> (bufs st p = Some b \<longrightarrow> p < next_ptr st) \<and> (watchers st w = Some wt \<longrightarrow> w < next_ptr st)"
  using lft_invD(6,7)[of X st] by blast

lemma lft_inv_mono: "lft_inv X st \<Longrightarrow> X \<subseteq> Y \<Longrightarrow> lft_inv Y st"
  unfolding lft_inv_def by blast

text \<open>Steps that free nothing and name nothing new.\<close>

lemma lft_inv_frame:
  assumes "lft_inv X st" "dom (bufs st') = dom (bufs st)" "watchers st' = watchers st" "next_ptr st' = next_ptr st"
    and "held st' \<subseteq> held st" "qmap_ok (fsBufMap st')" "qmap_ok (fsWatcherMap st')"
    and "\<And>path w. qvalue (fsWatcherMap st') path = Some w \<Longrightarrow> qvalue (fsWatcherMap st) path = Some w"
  shows "lft_inv X st'"
proof -
  have j: "job_of st' w p = job_of st w p" for w p using assms(3) by (simp add: job_of_def)
  show ?thesis
    unfolding lft_inv_def j assms(2-4)
  proof (intro conjI)
    show "held st' \<subseteq> dom (bufs st)" using assms(5) lft_invD(3)[OF assms(1)] by blast
    show "\<forall>w p. w \<notin> X \<longrightarrow> job_of st w p \<longrightarrow> p \<in> dom (bufs st) \<and> p \<notin> held st'"
      using assms(5) lft_invD(4)[OF assms(1)] by blast
    show "\<forall>path w. qvalue (fsWatcherMap st') path = Some w \<longrightarrow> (\<exists>wt. watchers st w = Some wt \<and> path \<in> set (w_path_list wt))"
      using assms(8) lft_invD(8)[OF assms(1)] by blast
  qed (use assms(1,6,7) in \<open>unfold lft_inv_def, blast+\<close>)
qed

lemma held_live: "lft_inv X st \<Longrightarrow> p \<in> held st \<Longrightarrow> \<exists>b. bufs st p = Some b"
  using lft_invD(3) by blast

lemma mapped_held: "qvalue (fsBufMap st) path = Some p \<Longrightarrow> p \<in> held st"
  by (auto simp: held_def ran_def)

text \<open>A mapped buffer is live.\<close>

lemma mapped_live: "lft_inv X st \<Longrightarrow> qvalue (fsBufMap st) path = Some p \<Longrightarrow> \<exists>b. bufs st p = Some b"
  using held_live mapped_held by blast

subsection \<open>Frames of the operations\<close>

lemma put_buf_simps [simp]:
  "fsBufMap (put_buf st p b) = fsBufMap st" "watchers (put_buf st p b) = watchers st"
  "fsBufToFileMap (put_buf st p b) = fsBufToFileMap st" "fsBufDirtyList (put_buf st p b) = fsBufDirtyList st"
  "fsWatcherMap (put_buf st p b) = fsWatcherMap st" "next_ptr (put_buf st p b) = next_ptr st"
  "bufs (put_buf st p b) = (bufs st)(p \<mapsto> b)" "held (put_buf st p b) = held st"
  by (simp_all add: put_buf_def held_def)

lemma mark_simps [simp]:
  "fsBufMap (markLFTFileToDirty st p) = fsBufMap st" "watchers (markLFTFileToDirty st p) = watchers st"
  "fsBufToFileMap (markLFTFileToDirty st p) = fsBufToFileMap st" "bufs (markLFTFileToDirty st p) = bufs st"
  "fsWatcherMap (markLFTFileToDirty st p) = fsWatcherMap st" "next_ptr (markLFTFileToDirty st p) = next_ptr st"
  "set (fsBufDirtyList (markLFTFileToDirty st p)) = insert p (set (fsBufDirtyList st))"
  "held (markLFTFileToDirty st p) = insert p (held st)"
  by (auto simp: markLFTFileToDirty_def held_def)

lemma put_buf_inv: "lft_inv X st \<Longrightarrow> p \<in> dom (bufs st) \<Longrightarrow> lft_inv X (put_buf st p b)"
  by (rule lft_inv_frame) (auto dest: lft_invD)

lemma doLFT_simps [simp]:
  "bufs (snd (doLFTFileToDirty st p)) = bufs st" "watchers (snd (doLFTFileToDirty st p)) = watchers st"
  "fsBufMap (snd (doLFTFileToDirty st p)) = fsBufMap st" "fsWatcherMap (snd (doLFTFileToDirty st p)) = fsWatcherMap st"
  "fsBufToFileMap (snd (doLFTFileToDirty st p)) = fsBufToFileMap st"
  "fsBufDirtyList (snd (doLFTFileToDirty st p)) = fsBufDirtyList st" "next_ptr (snd (doLFTFileToDirty st p)) = next_ptr st"
  "mountPointList (snd (doLFTFileToDirty st p)) = mountPointList st"
  by (simp_all add: doLFTFileToDirty_def Let_def)

lemma doLFTs_simps [simp]:
  "bufs (doLFTFilesToDirty st ps) = bufs st" "watchers (doLFTFilesToDirty st ps) = watchers st"
  "fsBufMap (doLFTFilesToDirty st ps) = fsBufMap st" "fsWatcherMap (doLFTFilesToDirty st ps) = fsWatcherMap st"
  "fsBufToFileMap (doLFTFilesToDirty st ps) = fsBufToFileMap st" "next_ptr (doLFTFilesToDirty st ps) = next_ptr st"
  "fsBufDirtyList (doLFTFilesToDirty st ps) = fsBufDirtyList st"
  by (induction ps arbitrary: st) simp_all

lemma cleanDirty_inv: "lft_inv X st \<Longrightarrow> lft_inv X (cleanDirtyLFTFiles st)"
  by (rule lft_inv_frame) (auto simp: cleanDirtyLFTFiles_def held_def dest: lft_invD)

text \<open>\<open>removeBuf\<close> of a buffer that no job holds: it succeeds, frees that buffer, and no map names it.\<close>

definition removed :: "lft_state \<Rightarrow> buf_ptr \<Rightarrow> lft_state \<Rightarrow> bool" where
  "removed st p st' \<longleftrightarrow> bufs st' = (bufs st)(p := None) \<and> watchers st' = watchers st \<and> next_ptr st' = next_ptr st
   \<and> fsWatcherMap st' = fsWatcherMap st \<and> mountPointList st' = mountPointList st \<and> qmap_ok (fsBufMap st')
   \<and> (\<forall>k. qvalue (fsBufMap st') k = (if qvalue (fsBufMap st) k = Some p then None else qvalue (fsBufMap st) k))
   \<and> fsBufToFileMap st' = (fsBufToFileMap st)(p := None)
   \<and> set (fsBufDirtyList st') = set (fsBufDirtyList st) - {p}"

lemma removeBuf_removed:
  assumes "lft_inv X st" "p \<in> dom (bufs st)"
  shows "\<exists>r st'. removeBuf st p rm = Some (r, st') \<and> removed st p st'"
proof -
  have ok: "qmap_ok (fsBufMap st)" using lft_invD(1)[OF assms(1)] .
  let ?m = "fold qremove (qkeys p (fsBufMap st)) (fsBufMap st)"
  let ?s = "st\<lparr>fsBufMap := ?m\<rparr>"
  have m: "qmap_ok ?m" "qvalue ?m k = (if qvalue (fsBufMap st) k = Some p then None else qvalue (fsBufMap st) k)" for k
    using qm.wf_del_all[OF ok] qm.look_del_keys[OF ok] by simp_all
  obtain b where b: "bufs st p = Some b" using assms(2) by blast
  obtain r s where rs: "(if rm then doLFTFileToDirty ?s p else (False, ?s)) = (r, s)" by (cases "if rm then doLFTFileToDirty ?s p else (False, ?s)")
  then have s: "s = ?s \<or> s = snd (doLFTFileToDirty ?s p)" by (cases rm) auto
  have f: "bufs s = bufs st" "watchers s = watchers st" "fsBufMap s = ?m" "fsWatcherMap s = fsWatcherMap st"
    "fsBufToFileMap s = fsBufToFileMap st" "fsBufDirtyList s = fsBufDirtyList st" "next_ptr s = next_ptr st"
    "mountPointList s = mountPointList st"
    using s by auto
  have "removeBuf st p rm = Some (r, (forget_buf s p)\<lparr>bufs := (bufs st)(p := None)\<rparr>)"
    unfolding removeBuf_def Let_def rs using b f by (simp add: free_buf_def forget_buf_def)
  moreover have "removed st p ((forget_buf s p)\<lparr>bufs := (bufs st)(p := None)\<rparr>)"
    using m f by (simp add: removed_def forget_buf_def)
  ultimately show ?thesis by blast
qed

lemma removed_held: "removed st p st' \<Longrightarrow> held st' = held st - {p}"
  by (auto simp: removed_def held_def ran_def split: if_splits) (metis option.inject)+

lemma removed_inv:
  assumes "lft_inv X st" "removed st p st'" "\<And>w. w \<notin> X \<Longrightarrow> \<not> job_of st w p"
  shows "lft_inv X st'"
proof -
  have j: "job_of st' w q = job_of st w q" for w q using assms(2) by (simp add: job_of_def removed_def)
  have h: "held st' = held st - {p}" using removed_held[OF assms(2)] .
  have e: "bufs st' = (bufs st)(p := None)" "watchers st' = watchers st" "next_ptr st' = next_ptr st"
    "fsWatcherMap st' = fsWatcherMap st" "qmap_ok (fsBufMap st')"
    using assms(2) by (simp_all add: removed_def)
  have d: "dom (bufs st') = dom (bufs st) - {p}" unfolding e(1) by auto
  show ?thesis
    unfolding lft_inv_def j h d e(2-4)
  proof (intro conjI)
    show "held st - {p} \<subseteq> dom (bufs st) - {p}" using lft_invD(3)[OF assms(1)] by blast
    show "\<forall>w q. w \<notin> X \<longrightarrow> job_of st w q \<longrightarrow> q \<in> dom (bufs st) - {p} \<and> q \<notin> held st - {p}"
      using assms(3) lft_invD(4)[OF assms(1)] by blast
  qed (use assms(1) e(5) in \<open>unfold lft_inv_def, blast+\<close>)
qed

lemma held_no_job: "lft_ok st \<Longrightarrow> p \<in> held st \<Longrightarrow> \<not> job_of st w p"
  using lft_invD(4) by blast

lemma removeBuf_ok:
  assumes "lft_ok st" "p \<in> held st" "removeBuf st p rm = Some (r, st')"
  shows "lft_ok st' \<and> removed st p st'"
proof -
  have "removed st p st'" using removeBuf_removed[of "{}" st p rm] assms held_live[OF assms(1,2)] by auto
  then show ?thesis using removed_inv[OF assms(1)] held_no_job[OF assms(1,2)] by blast
qed


text \<open>Naming a live buffer that no job holds.\<close>

lemma lft_inv_name:
  assumes "lft_inv X st" "p \<in> dom (bufs st)" "\<And>w. w \<notin> X \<Longrightarrow> \<not> job_of st w p"
    and "dom (bufs st') = dom (bufs st)" "watchers st' = watchers st" "next_ptr st' = next_ptr st"
    and "held st' \<subseteq> insert p (held st)" "qmap_ok (fsBufMap st')" "fsWatcherMap st' = fsWatcherMap st"
  shows "lft_inv X st'"
proof -
  have j: "job_of st' w p = job_of st w p" for w p using assms(5) by (simp add: job_of_def)
  show ?thesis
    unfolding lft_inv_def j assms(4-6,9)
  proof (intro conjI)
    show "held st' \<subseteq> dom (bufs st)" using assms(2,7) lft_invD(3)[OF assms(1)] by blast
    show "\<forall>w q. w \<notin> X \<longrightarrow> job_of st w q \<longrightarrow> q \<in> dom (bufs st) \<and> q \<notin> held st'"
      using assms(3,7) lft_invD(4)[OF assms(1)] by blast
  qed (use assms(1,8) in \<open>unfold lft_inv_def, blast+\<close>)
qed

lemma held_insert:
  assumes "qmap_ok (fsBufMap st)"
  shows "held (st\<lparr>fsBufMap := qinsert path p (fsBufMap st)\<rparr>) \<subseteq> insert p (held st)"
  using qm.ran_ins[OF assms, of path p] by (auto simp: held_def)

text \<open>A path is given to a new buffer.\<close>

definition handed_over :: "lft_state \<Rightarrow> buf_ptr \<Rightarrow> cstring \<Rightarrow> lft_state \<Rightarrow> bool" where
  "handed_over st p path st' \<longleftrightarrow> watchers st' = watchers st \<and> next_ptr st' = next_ptr st
   \<and> fsWatcherMap st' = fsWatcherMap st \<and> mountPointList st' = mountPointList st \<and> bufs st' p = bufs st p
   \<and> (\<forall>k. qvalue (fsBufMap st') k = (if k = path then Some p
         else if qvalue (fsBufMap st) path \<noteq> None \<and> qvalue (fsBufMap st) k = qvalue (fsBufMap st) path then None
         else qvalue (fsBufMap st) k))"

lemma drop_old_ok:
  assumes "lft_inv X st" "p \<in> dom (bufs st)" "\<And>w. w \<notin> X \<Longrightarrow> \<not> job_of st w p" "qvalue (fsBufMap st) path \<noteq> Some p"
  shows "\<exists>st'. drop_old st path = Some st' \<and> lft_inv X (st'\<lparr>fsBufMap := qinsert path p (fsBufMap st')\<rparr>)
    \<and> handed_over st p path (st'\<lparr>fsBufMap := qinsert path p (fsBufMap st')\<rparr>)"
proof (cases "qvalue (fsBufMap st) path")
  case None
  let ?s = "st\<lparr>fsBufMap := qinsert path p (fsBufMap st)\<rparr>"
  have ok: "qmap_ok (fsBufMap st)" using lft_invD(1)[OF assms(1)] .
  have "lft_inv X ?s"
    using held_insert[OF ok] by (intro lft_inv_name[OF assms(1-3)]) (simp_all add: qmap_ok_qinsert ok)
  then show ?thesis using None by (simp add: drop_old_def handed_over_def qvalue_qinsert)
next
  case (Some old)
  have held: "old \<in> held st" using mapped_held[OF Some] .
  then obtain st' where r: "removeBuf st old False = Some st'" "removed st old (snd st')"
    using removeBuf_removed[OF assms(1), of old False] held_live[OF assms(1)] by fastforce
  have nj: "\<not> job_of st w old" if "w \<notin> X" for w using that held lft_invD(4)[OF assms(1)] by blast
  have inv: "lft_inv X (snd st')" using removed_inv[OF assms(1) r(2) nj] .
  have ne: "old \<noteq> p" using assms(4) Some by auto
  have f: "watchers (snd st') = watchers st" "next_ptr (snd st') = next_ptr st" "fsWatcherMap (snd st') = fsWatcherMap st"
    "mountPointList (snd st') = mountPointList st" "bufs (snd st') p = bufs st p"
    "\<And>k. qvalue (fsBufMap (snd st')) k = (if qvalue (fsBufMap st) k = Some old then None else qvalue (fsBufMap st) k)"
    using r(2) ne by (simp_all add: removed_def)
  have ok: "qmap_ok (fsBufMap (snd st'))" using lft_invD(1)[OF inv] .
  have "p \<in> dom (bufs (snd st'))" using assms(2) f(5) by auto
  moreover have "\<not> job_of (snd st') w p" if "w \<notin> X" for w using assms(3)[OF that] f(1) by (simp add: job_of_def)
  ultimately have "lft_inv X ((snd st')\<lparr>fsBufMap := qinsert path p (fsBufMap (snd st'))\<rparr>)"
    using held_insert[OF ok] by (intro lft_inv_name[OF inv]) (simp_all add: qmap_ok_qinsert ok)
  then show ?thesis using r(1) f Some by (simp add: drop_old_def handed_over_def qvalue_qinsert)
qed


lemma take_over_ok:
  assumes "lft_inv X st" "p \<in> dom (bufs st)" "\<And>w. w \<notin> X \<Longrightarrow> \<not> job_of st w p" "qvalue (fsBufMap st) path \<noteq> Some p"
  shows "\<exists>st'. take_over (Some p) st path = Some st' \<and> lft_inv X st' \<and> handed_over st p path st'"
proof -
  obtain s where s: "drop_old st path = Some s" "lft_inv X (s\<lparr>fsBufMap := qinsert path p (fsBufMap s)\<rparr>)"
    "handed_over st p path (s\<lparr>fsBufMap := qinsert path p (fsBufMap s)\<rparr>)"
    using drop_old_ok[OF assms] by blast
  define t where "t = s\<lparr>fsBufMap := qinsert path p (fsBufMap s)\<rparr>"
  have t: "lft_inv X t" "handed_over st p path t" using s by (simp_all add: t_def)
  have live: "p \<in> dom (bufs t)" using t(2) assms(2) by (auto simp: handed_over_def)
  have nj: "\<not> job_of t w p" if "w \<notin> X" for w
    using assms(3)[OF that] t(2) by (simp add: job_of_def handed_over_def)
  have "lft_inv X (markLFTFileToDirty t p)"
    using lft_invD(1)[OF t(1)] by (intro lft_inv_name[OF t(1) live nj]) simp_all
  moreover have "handed_over st p path (markLFTFileToDirty t p)"
    using t(2) by (simp add: handed_over_def) (simp add: markLFTFileToDirty_def)
  ultimately show ?thesis using s(1) by (simp add: take_over_def t_def)
qed

lemma end_build_simps [simp]:
  "bufs (end_build st path) = bufs st" "watchers (end_build st path) = watchers st"
  "fsBufMap (end_build st path) = fsBufMap st" "next_ptr (end_build st path) = next_ptr st"
  "mountPointList (end_build st path) = mountPointList st" "held (end_build st path) = held st"
  "fsWatcherMap (end_build st path) = qremove path (fsWatcherMap st)"
  by (simp_all add: end_build_def held_def)

lemma end_build_inv: "lft_inv X st \<Longrightarrow> lft_inv X (end_build st path)"
  by (rule lft_inv_frame)
    (auto simp: qmap_ok_qremove qvalue_qremove dest: lft_invD(1,2) split: if_splits)

lemma job_of_watchers: "watchers st' = watchers st \<Longrightarrow> job_of st' = job_of st"
  by (intro ext) (simp add: job_of_def)

text \<open>All the paths of a watcher are given to the buffer.\<close>

definition all_handed :: "lft_state \<Rightarrow> buf_ptr \<Rightarrow> cstring list \<Rightarrow> lft_state \<Rightarrow> bool" where
  "all_handed st p paths st' \<longleftrightarrow> watchers st' = watchers st \<and> next_ptr st' = next_ptr st
   \<and> mountPointList st' = mountPointList st \<and> bufs st' p = bufs st p
   \<and> (\<forall>k. qvalue (fsWatcherMap st') k = (if k \<in> set paths then None else qvalue (fsWatcherMap st) k))
   \<and> (\<forall>k. qvalue (fsBufMap st') k = (if k \<in> set paths then Some p
         else if qvalue (fsBufMap st) k \<in> qvalue (fsBufMap st) ` set paths then None
         else qvalue (fsBufMap st) k))"

lemma all_handed_step:
  assumes "handed_over st p path s" "all_handed (end_build s path) p paths st'"
    and ok: "qmap_ok (fsWatcherMap s)" and new: "\<forall>q\<in>set (path # paths). qvalue (fsBufMap st) q \<noteq> Some p"
    and d: "path \<notin> set paths"
  shows "all_handed st p (path # paths) st'"
proof -
  let ?v = "qvalue (fsBufMap st)" and ?v1 = "qvalue (fsBufMap s)"
  have v1: "?v1 k = (if k = path then Some p else if ?v path \<noteq> None \<and> ?v k = ?v path then None else ?v k)" for k
    using assms(1) by (simp add: handed_over_def)
  have v2: "qvalue (fsBufMap st') k = (if k \<in> set paths then Some p else if ?v1 k \<in> ?v1 ` set paths then None else ?v1 k)" for k
    using assms(2) by (simp add: all_handed_def)
  have im: "?v1 q = (if ?v path \<noteq> None \<and> ?v q = ?v path then None else ?v q)" "?v q \<noteq> Some p" if "q \<in> set paths" for q
    using that d new by (auto simp: v1)
  have "qvalue (fsBufMap st') k = (if k \<in> set (path # paths) then Some p
      else if ?v k \<in> ?v ` set (path # paths) then None else ?v k)" for k
  proof (cases "k \<in> set (path # paths)")
    case True
    have "Some p \<notin> ?v1 ` set paths"
    proof
      assume "Some p \<in> ?v1 ` set paths"
      then obtain q where q: "q \<in> set paths" "?v1 q = Some p" by auto
      then show False using im[OF q(1)] by (auto split: if_splits)
    qed
    then show ?thesis using True by (auto simp: v2 v1)
  next
    case False
    then have k: "k \<noteq> path" "k \<notin> set paths" by auto
    show ?thesis
    proof (cases "?v k")
      case None
      then show ?thesis using k by (auto simp: v2 v1)
    next
      case (Some x)
      have "?v k \<in> ?v1 ` set paths \<longleftrightarrow> ?v k \<in> ?v ` set paths" if "?v k \<noteq> ?v path"
      proof
        assume "?v k \<in> ?v1 ` set paths"
        then obtain q where "q \<in> set paths" "?v k = ?v1 q" by auto
        then show "?v k \<in> ?v ` set paths" using im[of q] Some by (auto split: if_splits)
      next
        assume "?v k \<in> ?v ` set paths"
        then obtain q where "q \<in> set paths" "?v k = ?v q" by auto
        then show "?v k \<in> ?v1 ` set paths" using im[of q] that by (intro image_eqI[of _ _ q]) auto
      qed
      then show ?thesis using k Some by (auto simp: v2 v1)
    qed
  qed
  then show ?thesis
    using assms(1,2) ok by (auto simp: all_handed_def handed_over_def qvalue_qremove)
qed

lemma take_over_paths_ok:
  assumes "lft_inv X st" "p \<in> dom (bufs st)" "\<And>w. w \<notin> X \<Longrightarrow> \<not> job_of st w p"
    and "\<forall>q\<in>set paths. qvalue (fsBufMap st) q \<noteq> Some p" "distinct paths"
  shows "\<exists>st'. take_over_paths (Some p) st paths = Some st' \<and> lft_inv X st' \<and> all_handed st p paths st'"
  using assms
proof (induction paths arbitrary: st)
  case Nil
  then show ?case by (simp add: all_handed_def)
next
  case (Cons path paths)
  obtain s where s: "take_over (Some p) st path = Some s" "lft_inv X s" "handed_over st p path s"
    using take_over_ok[OF Cons.prems(1-3), of path] Cons.prems(4) by auto
  let ?s = "end_build s path"
  have live: "p \<in> dom (bufs ?s)" using s(3) Cons.prems(2) by (auto simp: handed_over_def)
  have "job_of ?s = job_of st" using s(3) by (intro job_of_watchers) (simp add: handed_over_def)
  then have nj: "\<not> job_of ?s w p" if "w \<notin> X" for w using Cons.prems(3)[OF that] by simp
  have new: "\<forall>q\<in>set paths. qvalue (fsBufMap ?s) q \<noteq> Some p"
    using s(3) Cons.prems(4,5) by (auto simp: handed_over_def)
  have "distinct paths" using Cons.prems(5) by simp
  from Cons.IH[OF end_build_inv[OF s(2)] live nj new this] obtain st'
    where st': "take_over_paths (Some p) ?s paths = Some st'" "lft_inv X st'" "all_handed ?s p paths st'" by blast
  have "all_handed st p (path # paths) st'"
    using all_handed_step[OF s(3) st'(3) lft_invD(2)[OF s(2)] Cons.prems(4)] Cons.prems(5) by simp
  then show ?case using s(1) st' by simp
qed

lemma take_over_none:
  "take_over_paths None st paths = Some (fold (\<lambda>p st. end_build st p) paths st)"
  by (induction paths arbitrary: st) (simp_all add: take_over_def)

lemma end_builds_ok:
  fixes paths :: "cstring list"
  assumes "lft_inv X st"
  defines "st' \<equiv> fold (\<lambda>p st. end_build st p) paths st"
  shows "lft_inv X st' \<and> bufs st' = bufs st \<and> watchers st' = watchers st \<and> fsBufMap st' = fsBufMap st
    \<and> (\<forall>k. qvalue (fsWatcherMap st') k = (if k \<in> set paths then None else qvalue (fsWatcherMap st) k))"
  unfolding st'_def using assms(1)
proof (induction paths arbitrary: st)
  case (Cons path paths)
  show ?case using Cons.IH[OF end_build_inv[OF Cons.prems, of path]] by (simp add: qvalue_qremove)
qed simp


subsection \<open>Writing, building, canceling\<close>

lemma write_lft_frame:
  assumes "write_lft os st p f = Some (r, st')"
  shows "dom (bufs st') = dom (bufs st)" "watchers st' = watchers st" "next_ptr st' = next_ptr st"
    "fsBufMap st' = fsBufMap st" "fsWatcherMap st' = fsWatcherMap st" "held st' = held st"
    "mountPointList st' = mountPointList st"
  using assms by (auto simp: write_lft_def held_def put_buf_def Let_def Option.bind_eq_Some_conv split: option.splits if_splits)

lemma sync_loop_inv:
  assumes "sync_loop os mp m saved out st = Some (r, st')" "lft_inv X st"
  shows "lft_inv X st' \<and> watchers st' = watchers st \<and> fsBufMap st' = fsBufMap st \<and> fsWatcherMap st' = fsWatcherMap st
    \<and> dom (bufs st') = dom (bufs st) \<and> mountPointList st' = mountPointList st"
  using assms
proof (induction m arbitrary: saved out st)
  case (Cons e rest)
  obtain path p where e: "e = (path, p)" by (cases e)
  show ?case
  proof (cases "mp \<noteq> [] \<and> \<not> starts_with (path @ [slash]) (mp @ [slash]) \<or> p \<in> set saved \<or> lft_file_of st p = []")
    case True
    then show ?thesis using Cons.IH[of saved _ st] Cons.prems e by (auto split: if_splits)
  next
    case False
    then obtain r1 s where w: "write_lft os st p (lft_file_of st p) = Some (r1, s)"
      using Cons.prems(1) e by (auto simp: Option.bind_eq_Some_conv split: if_splits)
    note f = write_lft_frame[OF w]
    have s: "lft_inv X s" using f lft_invD(1,2)[OF Cons.prems(2)] by (intro lft_inv_frame[OF Cons.prems(2)]) auto
    let ?t = "s\<lparr>fsBufDirtyList := removeAll p (fsBufDirtyList s)\<rparr>"
    have t: "lft_inv X ?t" using lft_invD(1,2)[OF s] by (intro lft_inv_frame[OF s]) (auto simp: held_def)
    show ?thesis
      using Cons.prems(1) False w e Cons.IH[OF _ s] Cons.IH[OF _ t] f by (auto split: if_splits)
  qed
qed simp

lemma sync_inv:
  assumes "sync os st mp = Some (r, st')" "lft_inv X st"
  shows "lft_inv X st' \<and> watchers st' = watchers st \<and> fsBufMap st' = fsBufMap st \<and> fsWatcherMap st' = fsWatcherMap st
    \<and> dom (bufs st') = dom (bufs st) \<and> mountPointList st' = mountPointList st"
  using assms sync_loop_inv[of os mp "fsBufMap st" "[]" "[]" st r st' X] by (auto simp: sync_def split: if_splits)

lemma syncAll_inv: "syncAll os st = Some st' \<Longrightarrow> lft_inv X st \<Longrightarrow> lft_inv X st'"
  using sync_inv[of os st "[]" _ _ X] by (auto simp: syncAll_def Option.bind_eq_Some_conv intro!: cleanDirty_inv)

lemma set_watcher_simps [simp]:
  "bufs (set_watcher st w wt) = bufs st" "fsBufMap (set_watcher st w wt) = fsBufMap st"
  "fsWatcherMap (set_watcher st w wt) = fsWatcherMap st" "next_ptr (set_watcher st w wt) = next_ptr st"
  "watchers (set_watcher st w wt) = (watchers st)(w \<mapsto> wt)" "held (set_watcher st w wt) = held st"
  by (simp_all add: set_watcher_def held_def)

text \<open>A change of a watcher, or a new one.\<close>

lemma set_watcher_inv:
  assumes "lft_inv X st" "\<And>p. w_result wt = Some (Some p) \<Longrightarrow> job_of st w p \<or> p \<in> dom (bufs st) \<and> p \<notin> held st \<and> (\<forall>w'. \<not> job_of st w' p)"
    and "w < next_ptr st" "distinct (w_path_list wt)" "\<And>wt0. watchers st w = Some wt0 \<Longrightarrow> w_path_list wt = w_path_list wt0"
  shows "lft_inv X (set_watcher st w wt)"
proof -
  have j: "job_of (set_watcher st w wt) w' p = (if w' = w then w_result wt = Some (Some p) else job_of st w' p)" for w' p
    by (simp add: job_of_def)
  show ?thesis unfolding lft_inv_def j
  proof (intro conjI)
    show "\<forall>w' p. w' \<notin> X \<longrightarrow> (if w' = w then w_result wt = Some (Some p) else job_of st w' p) \<longrightarrow>
        p \<in> dom (bufs (set_watcher st w wt)) \<and> p \<notin> held (set_watcher st w wt)"
      using assms(2) lft_invD(4)[OF assms(1)] by (auto split: if_splits)
    show "\<forall>w1 w2 p. w1 \<notin> X \<longrightarrow> w2 \<notin> X \<longrightarrow> (if w1 = w then w_result wt = Some (Some p) else job_of st w1 p) \<longrightarrow>
        (if w2 = w then w_result wt = Some (Some p) else job_of st w2 p) \<longrightarrow> w1 = w2"
      using assms(2) lft_invD(5)[OF assms(1)] by (auto split: if_splits)
    show "\<forall>path w'. qvalue (fsWatcherMap (set_watcher st w wt)) path = Some w' \<longrightarrow>
        (\<exists>wt'. watchers (set_watcher st w wt) w' = Some wt' \<and> path \<in> set (w_path_list wt'))"
      using lft_invD(8)[OF assms(1)] assms(5) by fastforce
    show "\<forall>w' wt'. watchers (set_watcher st w wt) w' = Some wt' \<longrightarrow> distinct (w_path_list wt')"
      using lft_invD(9)[OF assms(1)] assms(4) by auto
    show "dom (bufs (set_watcher st w wt)) \<union> dom (watchers (set_watcher st w wt)) \<subseteq> {..<next_ptr (set_watcher st w wt)}"
      using lft_invD(6,7)[OF assms(1)] assms(3) by auto
  qed (use lft_invD[OF assms(1)] in auto)
qed


lemma fold_qinsert:
  "qmap_ok m \<Longrightarrow> qmap_ok (fold (\<lambda>p. qinsert p w) paths m)
    \<and> (\<forall>k. qvalue (fold (\<lambda>p. qinsert p w) paths m) k = (if k \<in> set paths then Some w else qvalue m k))"
  by (induction paths arbitrary: m) (auto simp: qmap_ok_qinsert qvalue_qinsert)

definition distinct_paths :: "lft_os \<Rightarrow> lft_state \<Rightarrow> bool" where
  "distinct_paths os st \<longleftrightarrow> (\<forall>uri. distinct (serial_paths os st uri))"

lemma new_watcher_ok:
  assumes "lft_inv X st" "distinct paths"
  shows "lft_inv X (new_watcher st a paths)"
proof -
  have i: "lft_inv X (st\<lparr>next_ptr := next_ptr st + 1\<rparr>)"
    using assms(1) unfolding lft_inv_def held_def job_of_def by (auto simp: subset_iff less_Suc_eq)
  have "watchers st (next_ptr st) = None" using lft_invD(7)[OF assms(1), of "next_ptr st"] by auto
  then show ?thesis unfolding new_watcher_def using i assms(2) by (intro set_watcher_inv) simp_all
qed

lemma addPath_inv:
  assumes "addPath os st path a = Some (r, st')" "lft_inv X st" "distinct_paths os st"
  shows "lft_inv X st' \<and> bufs st' = bufs st \<and> fsBufMap st' = fsBufMap st \<and> mountPointList st' = mountPointList st
    \<and> held st' = held st \<and> (\<forall>w p. job_of st' w p = job_of st w p) \<and> fsBufToFileMap st' = fsBufToFileMap st"
proof -
  let ?ps = "\<lambda>uri. serial_paths os st uri"
  consider "st' = st" | uri where "st' = new_watcher st a []" "?ps uri = []"
    | uri q qs where "?ps uri = q # qs" "st' = (new_watcher st a (q # qs))\<lparr>
        fsWatcherMap := fold (\<lambda>p. qinsert p (next_ptr st)) (q # qs) (fsWatcherMap (new_watcher st a (q # qs))),
        building_paths := building_paths (new_watcher st a (q # qs)) @ [q]\<rparr>"
  proof (cases "\<not> authorized os \<or> \<not> starts_with path [slash] \<or> qvalue (fsWatcherMap st) path \<noteq> None")
    case True
    then show thesis using assms(1) that(1) by (auto simp: addPath_def split: if_splits)
  next
    case False
    then obtain uri where uri: "path_serial os st path = Some uri"
      using assms(1) by (cases "path_serial os st path") (simp_all add: addPath_def)
    show thesis
    proof (cases "uri = []")
      case True
      then show thesis using assms(1) that(1) uri False by (simp add: addPath_def)
    next
      case ne: False
      show thesis
        using assms(1) that(2,3)[of uri] uri ne False by (cases "?ps uri") (simp_all add: addPath_def Let_def)
    qed
  qed
  then show ?thesis
  proof cases
    case 1
    then show ?thesis using assms(2) by simp
  next
    case 2
    have n: "watchers st (next_ptr st) = None" using lft_invD(7)[OF assms(2), of "next_ptr st"] by auto
    have "job_of (new_watcher st a []) w p = job_of st w p" for w p
      using n by (auto simp: job_of_def new_watcher_def set_watcher_def)
    then show ?thesis using new_watcher_ok[OF assms(2), of "[]"] 2
      by (simp add: new_watcher_def set_watcher_def held_def)
  next
    case (3 uri q qs)
    let ?s = "new_watcher st a (q # qs)" and ?w = "next_ptr st"
    have n: "watchers st ?w = None" using lft_invD(7)[OF assms(2), of ?w] by auto
    have d: "distinct (q # qs)" using assms(3) 3(1) by (metis distinct_paths_def)
    note i = new_watcher_ok[OF assms(2) d, of a]
    have m: "fsWatcherMap ?s = fsWatcherMap st" "bufs ?s = bufs st" "fsBufMap ?s = fsBufMap st" "held ?s = held st"
      "mountPointList ?s = mountPointList st" "fsBufToFileMap ?s = fsBufToFileMap st"
      "\<exists>wt. watchers ?s ?w = Some wt \<and> w_path_list wt = q # qs"
      by (simp_all add: new_watcher_def set_watcher_def held_def)
    have j: "job_of ?s w p = job_of st w p" for w p
      using n by (auto simp: job_of_def new_watcher_def set_watcher_def)
    note fq = fold_qinsert[OF lft_invD(2)[OF i], of ?w "q # qs"]
    have h: "held st' = held ?s" "bufs st' = bufs ?s" "watchers st' = watchers ?s" "next_ptr st' = next_ptr ?s"
      "fsBufMap st' = fsBufMap ?s" "job_of st' = job_of ?s"
      unfolding 3(2) by (simp_all add: held_def job_of_def fun_eq_iff)
    have wm: "qmap_ok (fsWatcherMap st')"
      "qvalue (fsWatcherMap st') k = (if k \<in> set (q # qs) then Some ?w else qvalue (fsWatcherMap ?s) k)" for k
      unfolding 3(2) using fq by simp_all
    have "lft_inv X st'"
      unfolding lft_inv_def h
    proof (intro conjI)
      show "\<forall>path w. qvalue (fsWatcherMap st') path = Some w \<longrightarrow>
          (\<exists>wt. watchers ?s w = Some wt \<and> path \<in> set (w_path_list wt))"
        using m(7) lft_invD(8)[OF i] by (auto simp: wm(2) split: if_splits)
    qed (use i wm(1) in \<open>unfold lft_inv_def, blast+\<close>)
    then show ?thesis using h m j 3(2) by simp
  qed
qed

lemma job_done_inv:
  assumes "job_done st w outcome = Some st'" "lft_ok st"
  shows "lft_ok st'"
proof -
  obtain wt where wt: "watchers st w = Some wt" "w_result wt = None"
    using assms(1) by (auto simp: job_done_def Option.bind_eq_Some_conv split: if_splits)
  have lt: "w < next_ptr st" using lft_invD(7)[OF assms(2), of w] wt by auto
  show ?thesis
  proof (cases outcome)
    case None
    then have "st' = set_watcher st w (wt\<lparr>w_result := Some None\<rparr>)"
      using assms(1) wt by (auto simp: job_done_def split: if_splits)
    then show ?thesis using lft_invD(9)[OF assms(2) wt(1)] lt wt(1) by (auto intro!: set_watcher_inv assms(2))
  next
    case (Some b)
    let ?p = "next_ptr st"
    define s where "s = put_buf (st\<lparr>next_ptr := ?p + 1\<rparr>) ?p b"
    have f: "bufs st ?p = None" using lft_invD(6)[OF assms(2), of ?p] by auto
    have j: "job_of s w' q = job_of st w' q" for w' q by (simp add: s_def job_of_def)
    have h: "held s = held st" "watchers s = watchers st" "next_ptr s = ?p + 1" "dom (bufs s) = insert ?p (dom (bufs st))"
      "fsBufMap s = fsBufMap st" "fsWatcherMap s = fsWatcherMap st"
      by (simp_all add: s_def held_def put_buf_def)
    have np: "?p \<notin> held st" using f lft_invD(3)[OF assms(2)] by auto
    have nj: "\<not> job_of st w' ?p" for w' using f lft_invD(4)[OF assms(2), of w' ?p] by auto
    have i: "lft_ok s" unfolding lft_inv_def j h
    proof (intro conjI)
      show "insert ?p (dom (bufs st)) \<union> dom (watchers st) \<subseteq> {..<?p + 1}"
        using lft_inv_ptrs[OF assms(2)] by (auto simp: less_Suc_eq)
    qed (use assms(2) in \<open>unfold lft_inv_def, blast+\<close>)
    have "st' = set_watcher s w (wt\<lparr>w_result := Some (Some ?p)\<rparr>)"
      using assms(1) wt Some by (auto simp: job_done_def s_def Let_def split: if_splits)
    moreover have "lft_ok (set_watcher s w (wt\<lparr>w_result := Some (Some ?p)\<rparr>))"
    proof (rule set_watcher_inv[OF i])
      show "job_of s w q \<or> q \<in> dom (bufs s) \<and> q \<notin> held s \<and> (\<forall>w'. \<not> job_of s w' q)"
        if "w_result (wt\<lparr>w_result := Some (Some ?p)\<rparr>) = Some (Some q)" for q
        using that np nj by (simp add: j h(1,4))
    qed (use lt lft_invD(9)[OF assms(2) wt(1)] wt(1) h in simp_all)
    ultimately show ?thesis by simp
  qed
qed

lemma del_all_sub: "qmap_ok m \<Longrightarrow> qvalue (fold qremove ks m) k = Some v \<Longrightarrow> qvalue m k = Some v"
  by (auto simp: qm.look_del_all split: if_splits)

lemma cancelBuild_inv:
  assumes "cancelBuild os st path = Some (r, st')" "lft_ok st"
  shows "lft_ok st' \<and> bufs st' = bufs st \<and> fsBufMap st' = fsBufMap st \<and> held st' = held st"
proof (cases "\<not> authorized os \<or> qvalue (fsWatcherMap st) path = None")
  case True
  then show ?thesis using assms by (auto simp: cancelBuild_def split: if_splits)
next
  case False
  then obtain w wt where wt: "qvalue (fsWatcherMap st) path = Some w" "watchers st w = Some wt"
    using lft_invD(8)[OF assms(2)] by fastforce
  let ?wt = "wt\<lparr>w_canceled := True, w_result := (case w_result wt of None \<Rightarrow> Some None | Some r \<Rightarrow> Some r)\<rparr>"
  let ?s = "set_watcher st w ?wt" and ?m = "qremove path (fsWatcherMap st)"
  have i: "lft_ok ?s"
  proof (rule set_watcher_inv[OF assms(2)])
    show "job_of st w p \<or> p \<in> dom (bufs st) \<and> p \<notin> held st \<and> (\<forall>w'. \<not> job_of st w' p)"
      if "w_result ?wt = Some (Some p)" for p
      using that wt(2) by (simp add: job_of_def split: option.splits)
  qed (use lft_invD(7)[OF assms(2), of w] lft_invD(9)[OF assms(2) wt(2)] wt(2) in auto)
  have st': "st' = ?s\<lparr>fsWatcherMap := fold qremove (qkeys w ?m) ?m\<rparr>"
    using assms(1) False wt by (simp add: cancelBuild_def Let_def)
  have ok: "qmap_ok (fsWatcherMap st)" "qmap_ok ?m" using lft_invD(2)[OF assms(2)] by (simp_all add: qmap_ok_qremove)
  have "lft_ok st'"
    unfolding st'
  proof (rule lft_inv_frame[OF i])
    fix k v assume "qvalue (fsWatcherMap (?s\<lparr>fsWatcherMap := fold qremove (qkeys w ?m) ?m\<rparr>)) k = Some v"
    then have "qvalue ?m k = Some v" using del_all_sub[OF ok(2)] by simp
    then show "qvalue (fsWatcherMap ?s) k = Some v" by (simp add: qvalue_qremove split: if_splits)
  qed (use lft_invD(1)[OF i] in \<open>simp_all add: held_def set_watcher_def qm.wf_del_all ok\<close>)
  then show ?thesis unfolding st' by (simp add: set_watcher_def held_def)
qed


subsection \<open>The end of a build\<close>

lemma drop_watcher_inv:
  assumes "lft_inv {w} st" "\<And>path. qvalue (fsWatcherMap st) path \<noteq> Some w"
  shows "lft_ok (st\<lparr>watchers := (watchers st)(w := None)\<rparr>)"
proof -
  let ?s = "st\<lparr>watchers := (watchers st)(w := None)\<rparr>"
  have j: "job_of ?s w' p \<longleftrightarrow> w' \<noteq> w \<and> job_of st w' p" for w' p by (simp add: job_of_def)
  have h: "held ?s = held st" by (simp add: held_def)
  have q: "\<forall>path w'. qvalue (fsWatcherMap ?s) path = Some w' \<longrightarrow> (\<exists>wt. watchers ?s w' = Some wt \<and> path \<in> set (w_path_list wt))"
  proof (intro allI impI)
    fix path w' assume q: "qvalue (fsWatcherMap ?s) path = Some w'"
    then have "qvalue (fsWatcherMap st) path = Some w'" by simp
    moreover from this have "w' \<noteq> w" using assms(2)[of path] by auto
    ultimately show "\<exists>wt. watchers ?s w' = Some wt \<and> path \<in> set (w_path_list wt)"
      using lft_invD(8)[OF assms(1)] by simp
  qed
  show ?thesis unfolding lft_inv_def j h
  proof (intro conjI)
    show "\<forall>w'a p. w'a \<notin> {} \<longrightarrow> w'a \<noteq> w \<and> job_of st w'a p \<longrightarrow> p \<in> dom (bufs ?s) \<and> p \<notin> held st"
      using lft_invD(4)[OF assms(1)] by simp blast
    show "\<forall>w1 w2 p. w1 \<notin> {} \<longrightarrow> w2 \<notin> {} \<longrightarrow> w1 \<noteq> w \<and> job_of st w1 p \<longrightarrow> w2 \<noteq> w \<and> job_of st w2 p \<longrightarrow> w1 = w2"
      using lft_invD(5)[OF assms(1)] by blast
    show "dom (bufs ?s) \<union> dom (watchers ?s) \<subseteq> {..<next_ptr ?s}"
      using lft_inv_ptrs[OF assms(1)] by (auto split: if_splits)
    show "\<forall>w' wt. watchers ?s w' = Some wt \<longrightarrow> distinct (w_path_list wt)"
      using lft_invD(9)[OF assms(1)] by (auto split: if_splits)
  qed (use q lft_invD(1-3)[OF assms(1)] in simp_all)
qed

lemma free_buf_inv:
  assumes "free_buf st (Some p) = Some st'" "lft_inv X st" "p \<notin> held st" "\<And>w. w \<notin> X \<Longrightarrow> \<not> job_of st w p"
  shows "lft_inv X st' \<and> watchers st' = watchers st \<and> fsWatcherMap st' = fsWatcherMap st \<and> fsBufMap st' = fsBufMap st"
proof -
  have st': "st' = st\<lparr>bufs := (bufs st)(p := None)\<rparr>" using assms(1) by (simp add: free_buf_def split: option.splits)
  have d: "dom (bufs st') = dom (bufs st) - {p}" by (auto simp: st')
  have j: "job_of st' w q = job_of st w q" for w q by (simp add: st' job_of_def)
  have h: "held st' = held st" by (simp add: st' held_def)
  have "lft_inv X st'" unfolding lft_inv_def j h
  proof (intro conjI)
    show "held st \<subseteq> dom (bufs st')" using lft_invD(3)[OF assms(2)] assms(3) d by blast
    show "\<forall>w q. w \<notin> X \<longrightarrow> job_of st w q \<longrightarrow> q \<in> dom (bufs st') \<and> q \<notin> held st"
      using lft_invD(4)[OF assms(2)] assms(4) d by blast
    show "dom (bufs st') \<union> dom (watchers st') \<subseteq> {..<next_ptr st'}"
      using lft_inv_ptrs[OF assms(2)] by (auto simp: st' split: if_splits)
  qed (use assms(2) st' in \<open>unfold lft_inv_def, auto\<close>)
  then show ?thesis by (simp add: st')
qed

text \<open>The middle of the slot: the result is given to the paths, or not.\<close>

lemma take_result_inv:
  assumes "take_over_paths buf st (w_path_list wt) = Some st'" "lft_inv {w} st" "watchers st w = Some wt"
    and "\<And>p. buf = Some p \<Longrightarrow> p \<in> dom (bufs st) \<and> p \<notin> held st \<and> (\<forall>w'. w' \<noteq> w \<longrightarrow> \<not> job_of st w' p)"
  shows "lft_inv {w} st' \<and> watchers st' = watchers st \<and> (\<forall>path. qvalue (fsWatcherMap st') path \<noteq> Some w)
    \<and> (\<forall>p. buf = Some p \<longrightarrow> bufs st' p = bufs st p)
    \<and> (\<forall>p path. buf = Some p \<longrightarrow> path \<in> set (w_path_list wt) \<longrightarrow> qvalue (fsBufMap st') path = Some p)"
proof -
  have gone: "qvalue m path \<noteq> Some w"
    if "\<forall>k. qvalue m k = (if k \<in> set (w_path_list wt) then None else qvalue (fsWatcherMap st) k)" for m path
    using that lft_invD(8)[OF assms(2), of path w] assms(3) by (auto split: if_splits)
  show ?thesis
  proof (cases buf)
    case None
    then have "st' = fold (\<lambda>p st. end_build st p) (w_path_list wt) st" using assms(1) by (simp add: take_over_none)
    then have e: "lft_inv {w} st'" "watchers st' = watchers st"
      "\<forall>k. qvalue (fsWatcherMap st') k = (if k \<in> set (w_path_list wt) then None else qvalue (fsWatcherMap st) k)"
      using end_builds_ok[OF assms(2), of "w_path_list wt"] by simp_all
    show ?thesis using e(1,2) gone[OF e(3)] None by simp
  next
    case (Some p)
    have p: "p \<in> dom (bufs st)" "p \<notin> held st" "\<And>w'. w' \<notin> {w} \<Longrightarrow> \<not> job_of st w' p" using assms(4)[OF Some] by auto
    have "\<forall>q\<in>set (w_path_list wt). qvalue (fsBufMap st) q \<noteq> Some p" using p(2) mapped_held by blast
    from take_over_paths_ok[OF assms(2) p(1,3) this lft_invD(9)[OF assms(2,3)]] assms(1) Some
    have i: "lft_inv {w} st'" "all_handed st p (w_path_list wt) st'" by auto
    then have q: "\<forall>k. qvalue (fsWatcherMap st') k = (if k \<in> set (w_path_list wt) then None else qvalue (fsWatcherMap st) k)"
      by (simp add: all_handed_def)
    show ?thesis using i gone[OF q] Some by (simp add: all_handed_def)
  qed
qed

definition name_file :: "lft_os \<Rightarrow> lft_state \<Rightarrow> watcher \<Rightarrow> buf_ptr option \<Rightarrow> lft_state option" where
  "name_file os st wt buf = (case buf of None \<Rightarrow> Some st
     | Some p \<Rightarrow> do {
         f \<leftarrow> getLFTFileByPath os st (w_path wt) (w_auto_index wt);
         Some (st\<lparr>fsBufToFileMap := (fsBufToFileMap st)(p \<mapsto> f)\<rparr>) })"

lemma onBuildFinished_steps:
  assumes "onBuildFinished os st w = Some st'"
  obtains wt result keep st1 st2 st3 where "watchers st w = Some wt" "w_result wt = Some result"
    "keep_result os st wt (if \<not> w_canceled wt then result else None) = Some keep"
    "(if keep then Some st else free_buf st (if \<not> w_canceled wt then result else None)) = Some st1"
    "take_over_paths (if keep \<and> \<not> w_canceled wt then result else None) st1 (w_path_list wt) = Some st2"
    "name_file os st2 wt (if keep \<and> \<not> w_canceled wt then result else None) = Some st3"
    "(if building_paths st3 = [] then syncAll os (st3\<lparr>watchers := (watchers st3)(w := None)\<rparr>)
      else Some (st3\<lparr>watchers := (watchers st3)(w := None)\<rparr>)) = Some st'"
proof -
  have if2: "(if keep then (if c then r else None) else None) = (if keep \<and> c then r else None)" for keep c and r :: "buf_ptr option"
    by simp
  show thesis
    using assms that unfolding onBuildFinished_def name_file_def[symmetric] Let_def if2
    by (auto simp: Option.bind_eq_Some_conv simp del: if_split)
qed

theorem onBuildFinished_inv:
  assumes "onBuildFinished os st w = Some st'" "lft_ok st"
  shows "lft_ok st'"
proof -
  obtain wt result keep st1 st2 st3 where s: "watchers st w = Some wt" "w_result wt = Some result"
    "keep_result os st wt (if \<not> w_canceled wt then result else None) = Some keep"
    "(if keep then Some st else free_buf st (if \<not> w_canceled wt then result else None)) = Some st1"
    "take_over_paths (if keep \<and> \<not> w_canceled wt then result else None) st1 (w_path_list wt) = Some st2"
    "name_file os st2 wt (if keep \<and> \<not> w_canceled wt then result else None) = Some st3"
    "(if building_paths st3 = [] then syncAll os (st3\<lparr>watchers := (watchers st3)(w := None)\<rparr>)
      else Some (st3\<lparr>watchers := (watchers st3)(w := None)\<rparr>)) = Some st'"
    using assms(1) by (rule onBuildFinished_steps)
  let ?buf = "if keep \<and> \<not> w_canceled wt then result else None"
  have res: "p \<in> dom (bufs st) \<and> p \<notin> held st \<and> (\<forall>w'. w' \<noteq> w \<longrightarrow> \<not> job_of st w' p)" if "result = Some p" for p
  proof -
    have "job_of st w p" using s(1,2) that by (simp add: job_of_def)
    then show ?thesis using lft_invD(4,5)[OF assms(2)] by blast
  qed
  have i0: "lft_inv {w} st" using assms(2) by (rule lft_inv_mono) simp
  have i1: "lft_inv {w} st1 \<and> watchers st1 = watchers st \<and> (keep \<longrightarrow> st1 = st)"
  proof (cases "keep \<or> w_canceled wt \<or> result = None")
    case True
    then have "st1 = st" using s(4) by (auto simp: free_buf_def split: if_splits)
    then show ?thesis using i0 by simp
  next
    case False
    then obtain p where p: "result = Some p" "free_buf st (Some p) = Some st1" using s(4) by auto
    then show ?thesis using free_buf_inv[OF p(2) i0] res[OF p(1)] False by auto
  qed
  then have w1: "watchers st1 w = Some wt" using s(1) by simp
  have b1: "p \<in> dom (bufs st1) \<and> p \<notin> held st1 \<and> (\<forall>w'. w' \<noteq> w \<longrightarrow> \<not> job_of st1 w' p)" if "?buf = Some p" for p
    using that i1 res by (auto split: if_splits)
  have i1': "lft_inv {w} st1" using i1 by simp
  note i2 = take_result_inv[OF s(5) i1' w1 b1]
  have i3: "lft_inv {w} st3 \<and> watchers st3 = watchers st2 \<and> fsWatcherMap st3 = fsWatcherMap st2"
  proof (cases ?buf)
    case None
    then show ?thesis using s(6) i2 by (simp add: name_file_def)
  next
    case (Some p)
    then have kp: "keep" "\<not> w_canceled wt" "result = Some p" by (auto split: if_splits)
    obtain f where f: "st3 = st2\<lparr>fsBufToFileMap := (fsBufToFileMap st2)(p \<mapsto> f)\<rparr>"
      using s(6) Some by (auto simp: name_file_def Option.bind_eq_Some_conv)
    have "p \<in> dom (bufs st2)" using i2 b1[OF Some] Some by auto
    moreover have "\<not> job_of st2 w' p" if "w' \<notin> {w}" for w'
      using that b1[OF Some] i2 job_of_watchers[of st2 st1] by auto
    moreover have "held st3 \<subseteq> insert p (held st2)" by (auto simp: f held_def)
    moreover have i2': "lft_inv {w} st2" using i2 by blast
    ultimately have "lft_inv {w} st3"
      using lft_invD(1)[OF i2'] by (intro lft_inv_name[OF i2', of p]) (auto simp: f)
    then show ?thesis by (simp add: f)
  qed
  have "lft_ok (st3\<lparr>watchers := (watchers st3)(w := None)\<rparr>)"
    by (rule drop_watcher_inv) (use i2 i3 in auto)
  then show ?thesis using s(7) syncAll_inv by (auto split: if_splits)
qed

end
