(* ===== verification/Lft_Machine.thy ===== *)
theory Lft_Machine
  imports Lft_Safety
begin

text \<open>
  The server as a machine: every handler of \<open>LFTManager\<close> is a step, with surroundings that may differ
  from step to step, and so is the end of a job.  As long as no step finds a table of mounts that lists a path twice
  for a device (\<open>listed_once\<close>), no pointer dangles in any state that is reached.
\<close>

subsection \<open>The handlers keep the invariant\<close>

lemma drop_old_inv:
  assumes "drop_old st path = Some st'" "lft_inv X st" "p \<in> dom (bufs st)" "\<And>w. w \<notin> X \<Longrightarrow> \<not> job_of st w p"
    "qvalue (fsBufMap st) path \<noteq> Some p"
  shows "lft_inv X (st'\<lparr>fsBufMap := qinsert path p (fsBufMap st')\<rparr>)
    \<and> handed_over st p path (st'\<lparr>fsBufMap := qinsert path p (fsBufMap st')\<rparr>)"
  using drop_old_ok[OF assms(2-5)] assms(1) by auto

lemma put_loaded_inv:
  assumes "put_loaded p st paths = Some st'" "lft_inv X st" "p \<in> dom (bufs st)" "\<And>w. w \<notin> X \<Longrightarrow> \<not> job_of st w p"
    "\<forall>q\<in>set paths. qvalue (fsBufMap st) q \<noteq> Some p" "distinct paths"
  shows "lft_inv X st' \<and> watchers st' = watchers st \<and> bufs st' p = bufs st p \<and> mountPointList st' = mountPointList st"
  using assms
proof (induction paths arbitrary: st)
  case (Cons path paths)
  obtain s where s: "drop_old st path = Some s" using Cons.prems(1) by (auto simp: Option.bind_eq_Some_conv)
  let ?s = "s\<lparr>fsBufMap := qinsert path p (fsBufMap s)\<rparr>"
  have i: "lft_inv X ?s" "handed_over st p path ?s"
    using drop_old_inv[OF s Cons.prems(2-4)] Cons.prems(5) by auto
  then have f: "watchers ?s = watchers st" "bufs ?s p = bufs st p" "mountPointList ?s = mountPointList st"
    by (simp_all add: handed_over_def)
  have "\<forall>q\<in>set paths. qvalue (fsBufMap ?s) q \<noteq> Some p"
    using i(2) Cons.prems(5,6) by (auto simp: handed_over_def)
  moreover have "\<not> job_of ?s w p" if "w \<notin> X" for w
    using Cons.prems(4)[OF that] job_of_watchers[OF f(1)] by simp
  moreover have "put_loaded p ?s paths = Some st'" "p \<in> dom (bufs ?s)" "distinct paths"
    using Cons.prems(1,3,6) s f(2) by auto
  ultimately show ?case using Cons.IH[OF _ i(1)] f by auto
qed simp

lemma new_buf_inv:
  fixes b :: fs_buf
  assumes "lft_ok st"
  defines "s \<equiv> put_buf (st\<lparr>next_ptr := next_ptr st + 1\<rparr>) (next_ptr st) b"
  shows "lft_ok s" "next_ptr st \<in> dom (bufs s)" "\<not> job_of s w (next_ptr st)" "next_ptr st \<notin> held s"
    "mountPointList s = mountPointList st"
proof -
  let ?p = "next_ptr st"
  have f: "bufs st ?p = None" using lft_inv_ptrs[OF assms(1), of ?p] by (cases "bufs st ?p") auto
  have j: "job_of s w' q = job_of st w' q" for w' q by (simp add: s_def job_of_def)
  have h: "held s = held st" "watchers s = watchers st" "fsBufMap s = fsBufMap st" by (simp_all add: s_def held_def)
  have np: "?p \<notin> held st" using f lft_invD(3)[OF assms(1)] by auto
  then show "?p \<notin> held s" using h by simp
  show "?p \<in> dom (bufs s)" "mountPointList s = mountPointList st" by (simp_all add: s_def) (simp add: put_buf_def)
  have e: "next_ptr s = ?p + 1" "dom (bufs s) = insert ?p (dom (bufs st))" "fsWatcherMap s = fsWatcherMap st"
    by (simp_all add: s_def put_buf_def)
  show "lft_ok s" unfolding lft_inv_def j h e
  proof (intro conjI)
    show "insert ?p (dom (bufs st)) \<union> dom (watchers st) \<subseteq> {..<?p + 1}"
      using lft_inv_ptrs[OF assms(1)] by (auto simp: less_Suc_eq)
  qed (use assms(1) in \<open>unfold lft_inv_def, blast+\<close>)
  show "\<not> job_of s w ?p" using f lft_invD(4)[OF assms(1), of w ?p] by (auto simp: j)
qed

lemma refresh_file_inv:
  assumes "refresh_file os st name = Some (ps, st')" "lft_ok st" "distinct_paths os st"
  shows "lft_ok st' \<and> mountPointList st' = mountPointList st"
proof -
  let ?f = "cache_file os name" and ?ps = "serial_paths os st (from_percent os (take (length name - 4) name))"
  consider "st' = st"
    | root r where "addPath os st root (ends_with name DOT_lft) = Some (r, st')"
    | b s where "put_loaded (next_ptr st) (put_buf (st\<lparr>next_ptr := next_ptr st + 1\<rparr>) (next_ptr st) b) ?ps = Some s"
        "st' = s\<lparr>fsBufToFileMap := (fsBufToFileMap s)(next_ptr st \<mapsto> ?f)\<rparr>"
    using assms(1) by (auto simp: refresh_file_def Let_def Option.bind_eq_Some_conv split: if_splits option.splits)
  then show ?thesis
  proof cases
    case 1
    then show ?thesis using assms(2) by simp
  next
    case (2 root r)
    then show ?thesis using addPath_inv[OF 2 assms(2,3)] by simp
  next
    case (3 b s)
    let ?p = "next_ptr st" and ?t = "put_buf (st\<lparr>next_ptr := next_ptr st + 1\<rparr>) (next_ptr st) b"
    note n = new_buf_inv[OF assms(2), where b = b]
    have "\<forall>q\<in>set ?ps. qvalue (fsBufMap ?t) q \<noteq> Some ?p" using n(4) mapped_held by blast
    moreover have "distinct ?ps" using assms(3) by (simp add: distinct_paths_def)
    ultimately have i: "lft_ok s" "watchers s = watchers ?t" "bufs s ?p = bufs ?t ?p" "mountPointList s = mountPointList ?t"
      using put_loaded_inv[OF 3(1) n(1,2)] n(3) by auto
    have "\<not> job_of s w ?p" for w using job_of_watchers[OF i(2)] n(3) by simp
    moreover have "?p \<in> dom (bufs s)" using i(3) n(2) by auto
    moreover have "held st' \<subseteq> insert ?p (held s)" by (auto simp: 3(2) held_def)
    ultimately have "lft_ok st'"
      using lft_invD(1)[OF i(1)] by (intro lft_inv_name[OF i(1), of ?p]) (auto simp: 3(2))
    then show ?thesis using i(4) n(5) 3(2) by simp
  qed
qed

lemma serial_paths_mounts: "mountPointList st' = mountPointList st \<Longrightarrow> distinct_paths os st' = distinct_paths os st"
  by (simp add: distinct_paths_def serial_paths_def)

lemma refresh_loop_inv:
  assumes "refresh_loop os flt names out st = Some (r, st')" "lft_ok st" "distinct_paths os st"
  shows "lft_ok st' \<and> mountPointList st' = mountPointList st"
  using assms
proof (induction names arbitrary: out st)
  case (Cons name names)
  show ?case
  proof (cases "flt \<noteq> [] \<and> \<not> starts_with name flt")
    case True
    then show ?thesis using Cons.IH[of out st] Cons.prems by simp
  next
    case False
    then obtain ps s where s: "refresh_file os st name = Some (ps, s)" "refresh_loop os flt names (out @ ps) s = Some (r, st')"
      using Cons.prems(1) by (auto simp: Option.bind_eq_Some_conv split: if_splits)
    have i: "lft_ok s" "mountPointList s = mountPointList st" using refresh_file_inv[OF s(1) Cons.prems(2,3)] by auto
    then show ?thesis using Cons.IH[OF s(2) i(1)] Cons.prems(3) serial_paths_mounts[OF i(2)] by simp
  qed
qed simp

lemma refresh_inv:
  assumes "refresh os st flt = Some (r, st')" "lft_ok st" "distinct_paths os st"
  shows "lft_ok st' \<and> mountPointList st' = mountPointList st"
  using assms refresh_loop_inv[OF _ assms(2,3)] by (auto simp: refresh_def split: if_splits)

lemma remove_files_inv:
  "lft_inv X st \<Longrightarrow> lft_inv X (snd (remove_files os flt names st))"
proof (induction names arbitrary: st)
  case (Cons name names)
  let ?s = "st\<lparr>lft_files := qremove (cache_file os name) (lft_files st)\<rparr>"
  have "lft_inv X ?s" using lft_invD(1,2)[OF Cons.prems] by (intro lft_inv_frame[OF Cons.prems]) (auto simp: held_def)
  then show ?case using Cons.IH Cons.prems by (simp add: Let_def split_beta)
qed simp

lemma refresh_mounts_inv: "lft_inv X st \<Longrightarrow> lft_inv X (refresh_mounts os st)"
  by (rule lft_inv_frame) (auto simp: refresh_mounts_def held_def dest: lft_invD(1,2))

lemma addPathByPartition_inv:
  assumes "addPathByPartition os st dev = Some st'" "lft_ok st" "distinct_paths os st"
  shows "lft_ok st' \<and> mountPointList st' = mountPointList st"
proof -
  consider "st' = st" | mp r where "addPath os st mp True = Some (r, st')"
    using assms(1) by (auto simp: addPathByPartition_def Option.bind_eq_Some_conv split: if_splits)
  then show ?thesis using addPath_inv[OF _ assms(2,3)] assms(2) by cases auto
qed

lemma onMountAdded_inv:
  assumes "onMountAdded os st mp = Some st'" "lft_ok st" "distinct_paths os (refresh_mounts os st)"
  shows "lft_ok st'"
proof -
  let ?s = "refresh_mounts os st"
  obtain uri ps s where s: "refresh os ?s (to_percent os uri) = Some (ps, s)"
    "st' = s \<or> (\<exists>dev. addPathByPartition os s dev = Some st')"
    using assms(1) by (auto simp: onMountAdded_def Let_def Option.bind_eq_Some_conv split: if_splits option.splits)
  have i: "lft_ok s" "mountPointList s = mountPointList ?s"
    using refresh_inv[OF s(1) refresh_mounts_inv[OF assms(2)] assms(3)] by auto
  then show ?thesis using s(2) addPathByPartition_inv[OF _ i(1)] serial_paths_mounts[OF i(2)] assms(3) by auto
qed

text \<open>A path is taken out of the map; the buffer may be kept by other names.\<close>

lemma take_path_inv:
  assumes "lft_inv X st"
  shows "lft_inv X (st\<lparr>fsBufMap := qremove path (fsBufMap st)\<rparr>)"
  using lft_invD(1,2)[OF assms] qm.ran_del[of "fsBufMap st" path]
  by (intro lft_inv_frame[OF assms]) (auto simp: held_def qmap_ok_qremove)

lemma removePath_inv:
  assumes "removePath os st path = Some (r, st')" "lft_ok st" "distinct_paths os (refresh_mounts os st)"
  shows "lft_ok st'"
proof (cases "\<not> authorized os \<or> qvalue (fsBufMap st) path = None")
  case True
  then show ?thesis using assms by (auto simp: removePath_def split: if_splits)
next
  case False
  then obtain p where p: "qvalue (fsBufMap st) path = Some p" by auto
  let ?s = "st\<lparr>fsBufMap := qremove path (fsBufMap st)\<rparr>"
  have i: "lft_ok ?s" using take_path_inv[OF assms(2)] .
  have live: "p \<in> dom (bufs ?s)" using mapped_live[OF assms(2) p] by auto
  have nj: "\<not> job_of ?s w p" for w using held_no_job[OF assms(2) mapped_held[OF p]] by (simp add: job_of_def)
  show ?thesis
  proof (cases "ends_with (lft_file_of ?s p) DOT_LFT")
    case True
    then show ?thesis using assms(1) False p i by (simp add: removePath_def Let_def)
  next
    case f: False
    obtain rm s where s: "removeBuf ?s p True = Some (rm, s)" "removed ?s p s"
      using removeBuf_removed[OF i live] by blast
    have ok: "lft_ok s" using removed_inv[OF i s(2)] nj by blast
    have m: "mountPointList s = mountPointList st" using s(2) by (simp add: removed_def)
    then have "distinct_paths os (refresh_mounts os s)"
      using assms(3) by (simp add: distinct_paths_def serial_paths_def refresh_mounts_def)
    moreover have "st' = s \<or> (\<exists>root. onMountAdded os s root = Some st')"
      using assms(1) False p f s(1) by (auto simp: removePath_def Let_def Option.bind_eq_Some_conv split: if_splits option.splits)
    ultimately show ?thesis using ok onMountAdded_inv by blast
  qed
qed

lemma unmount_paths_inv:
  "unmount_paths os paths st = Some st' \<Longrightarrow> lft_ok st \<Longrightarrow> lft_ok st'"
proof (induction paths arbitrary: st)
  case (Cons path paths)
  show ?case
  proof (cases "qvalue (fsBufMap st) path")
    case None
    then show ?thesis using Cons by simp
  next
    case (Some p)
    show ?thesis
    proof (cases "lftBuinding st path")
      case True
      then obtain r s where "cancelBuild os st path = Some (r, s)" "unmount_paths os paths s = Some st'"
        using Cons.prems(1) Some by (auto simp: Option.bind_eq_Some_conv)
      then show ?thesis using Cons.IH cancelBuild_inv[OF _ Cons.prems(2)] by blast
    next
      case False
      then obtain s r t where s: "(if p \<in> set (fsBufDirtyList st) then map_option snd (sync os st path) else Some st) = Some s"
        "removeBuf s p False = Some (r, t)" "unmount_paths os paths t = Some st'"
        using Cons.prems(1) Some by (auto simp: Option.bind_eq_Some_conv)
      have i: "lft_ok s" "fsBufMap s = fsBufMap st"
        using s(1) sync_inv[of os st path _ s "{}"] Cons.prems(2) by (auto split: if_splits)
      then have "p \<in> held s" using Some mapped_held[of s path p] by simp
      then have "lft_ok t" using removeBuf_ok[OF i(1) _ s(2)] by blast
      then show ?thesis using Cons.IH s(3) by blast
    qed
  qed
qed simp

lemma clean_bufs_inv:
  "clean_bufs os ps st = Some st' \<Longrightarrow> lft_ok st \<Longrightarrow> set ps \<subseteq> ran (qvalue (fsBufMap st)) \<Longrightarrow> distinct ps \<Longrightarrow> lft_ok st'"
proof (induction ps arbitrary: st)
  case (Cons p ps)
  obtain ok s where s: "(if \<not> ok then map_option snd (removeBuf st p True) else Some st) = Some s"
    "clean_bufs os ps s = Some st'"
    using Cons.prems(1) by (auto simp: Option.bind_eq_Some_conv)
  show ?case
  proof (cases ok)
    case True
    then show ?thesis using s Cons.IH[of st] Cons.prems by simp
  next
    case False
    then obtain r where r: "removeBuf st p True = Some (r, s)" using s(1) by auto
    have "p \<in> held st" using Cons.prems(3) by (simp add: held_def)
    then have i: "lft_ok s" "removed st p s" using removeBuf_ok[OF Cons.prems(2) _ r] by auto
    have "q \<in> ran (qvalue (fsBufMap s))" if "q \<in> set ps" for q
    proof -
      have "q \<noteq> p" "q \<in> ran (qvalue (fsBufMap st))" using that Cons.prems(3,4) by auto
      then obtain k where "qvalue (fsBufMap st) k = Some q" "q \<noteq> p" by (auto simp: ran_def)
      then have "qvalue (fsBufMap s) k = Some q" using i(2) by (simp add: removed_def)
      then show ?thesis by (auto simp: ran_def)
    qed
    then show ?thesis using Cons.IH[OF s(2) i(1)] Cons.prems(4) by auto
  qed
qed simp

lemma clean_builds_inv: "clean_builds os paths st = Some st' \<Longrightarrow> lft_ok st \<Longrightarrow> lft_ok st'"
proof (induction paths arbitrary: st)
  case (Cons path paths)
  obtain s where s: "s = st \<or> (\<exists>r. cancelBuild os st path = Some (r, s))" "clean_builds os paths s = Some st'"
    using Cons.prems(1) by (auto simp: Option.bind_eq_Some_conv split: if_splits)
  have "lft_ok s" using s(1) cancelBuild_inv[of os st path _ s] Cons.prems(2) by auto
  then show ?case using Cons.IH s(2) by blast
qed simp

lemma cleanAllIndex_inv:
  assumes "cleanAllIndex os st = Some st'" "lft_ok st"
  shows "lft_ok st'"
proof -
  obtain s where s: "clean_bufs os (remdups (map snd (fsBufMap st))) st = Some s" "clean_builds os (map fst (fsWatcherMap s)) s = Some st'"
    using assms(1) by (auto simp: cleanAllIndex_def Option.bind_eq_Some_conv)
  have "set (remdups (map snd (fsBufMap st))) \<subseteq> ran (qvalue (fsBufMap st))"
    using ran_qvalue[OF lft_invD(1)[OF assms(2)]] by simp
  then have "lft_ok s" using clean_bufs_inv[OF s(1) assms(2)] by simp
  then show ?thesis using clean_builds_inv[OF s(2)] by blast
qed

lemma index_blocks_inv:
  "index_blocks os fd force ds st = Some st' \<Longrightarrow> lft_ok st \<Longrightarrow> distinct_paths os st \<Longrightarrow> lft_ok st'"
proof (induction ds arbitrary: st)
  case (Cons d ds)
  show ?case
  proof (cases "isLoopDevice d \<or> mountPoints d = []")
    case True
    then show ?thesis using Cons by (auto split: if_splits)
  next
    case False
    then obtain h s where s: "(if \<not> h then addPathByPartition os st d else Some st) = Some s" "index_blocks os fd force ds s = Some st'"
      using Cons.prems(1) by (auto simp: Option.bind_eq_Some_conv)
    have "lft_ok s \<and> mountPointList s = mountPointList st"
      using s(1) addPathByPartition_inv[OF _ Cons.prems(2,3)] Cons.prems(2) by (auto split: if_splits)
    then show ?thesis using Cons.IH[OF s(2)] Cons.prems(3) serial_paths_mounts by blast
  qed
qed simp


lemma getFsBufByPath_mapped:
  "getFsBufByPath os st path = Some (q, Some p) \<Longrightarrow> \<exists>m. qvalue (fsBufMap st) m = Some p"
  by (auto simp: getFsBufByPath_def Let_def Option.bind_eq_Some_conv split: if_splits option.splits)

lemma buf_changed_inv:
  assumes "buf_changed st p r b = Some (x, st')" "lft_inv X st" "p \<in> held st"
  shows "lft_inv X st'"
proof -
  have "p \<in> dom (bufs st)" using held_live[OF assms(2,3)] by auto
  then have i: "lft_inv X (put_buf st p b)" by (rule put_buf_inv[OF assms(2)])
  have "lft_inv X (markLFTFileToDirty (put_buf st p b) p)"
    using lft_invD(1,2)[OF i] assms(3) by (intro lft_inv_frame[OF i]) simp_all
  then show ?thesis
    using i assms(1) by (auto simp: buf_changed_def Let_def Option.bind_eq_Some_conv split: if_splits)
qed

text \<open>The buffer that a handler of an event works on is one of the map.\<close>

lemma handler_buf:
  assumes "getFsBufByPath os st path = Some (q, buf)" "q \<noteq> []" "awaited_buf os st q buf = Some p"
  shows "p \<in> held st"
proof -
  obtain p' where "buf = Some p'" using assms(1,2) no_buffer_no_path[of os st path q] by (cases buf) auto
  moreover from this have "p' = p" using assms(3) by (simp add: awaited_buf_def)
  ultimately show ?thesis using assms(1) getFsBufByPath_mapped mapped_held by blast
qed

lemma insert_event_inv:
  assumes "insertFileToLFTBuf os st f = Some (x, st')" "lft_inv X st"
  shows "lft_inv X st'"
proof -
  consider "st' = st" | q buf p r b where "getFsBufByPath os st f = Some (q, buf)" "q \<noteq> []"
      "awaited_buf os st q buf = Some p" "buf_changed st p r b = Some (x, st')"
    using assms(1) by (auto simp: insertFileToLFTBuf_def Let_def Option.bind_eq_Some_conv split: if_splits option.splits)
  then show ?thesis
    using assms(2) handler_buf buf_changed_inv by cases blast+
qed

lemma remove_event_inv:
  assumes "removeFileFromLFTBuf os st f = Some (x, st')" "lft_inv X st"
  shows "lft_inv X st'"
proof -
  consider "st' = st" | q buf p r b where "getFsBufByPath os st f = Some (q, buf)" "q \<noteq> []"
      "awaited_buf os st q buf = Some p" "buf_changed st p r b = Some (x, st')"
    using assms(1) by (auto simp: removeFileFromLFTBuf_def Let_def Option.bind_eq_Some_conv split: if_splits option.splits)
  then show ?thesis
    using assms(2) handler_buf buf_changed_inv by cases blast+
qed

lemma rename_event_inv:
  assumes "renameFileOfLFTBuf os st old new = Some (x, st')" "lft_inv X st"
  shows "lft_inv X st'"
proof -
  consider "st' = st" | q buf p r b where "getFsBufByPath os st new = Some (q, buf)" "q \<noteq> []"
      "awaited_buf os st q buf = Some p" "buf_changed st p r b = Some (x, st')"
    using assms(1) by (auto simp: renameFileOfLFTBuf_def Let_def Option.bind_eq_Some_conv split: if_splits option.splits)
  then show ?thesis
    using assms(2) handler_buf buf_changed_inv by cases blast+
qed

lemma fileChanged_inv: "fileChanged os st a = Some st' \<Longrightarrow> lft_inv X st \<Longrightarrow> lft_inv X st'"
  by (auto simp: fileChanged_def dest: insert_event_inv remove_event_inv rename_event_inv split: if_splits)

subsection \<open>The machine\<close>

text \<open>One handler or the end of a job, with the surroundings that it finds.\<close>

inductive lft_step :: "lft_os \<Rightarrow> lft_state \<Rightarrow> lft_state \<Rightarrow> bool" where
  step_event: "fileChanged os st a = Some st' \<Longrightarrow> lft_step os st st'"
| step_add_path: "addPath os st path auto = Some (r, st') \<Longrightarrow> lft_step os st st'"
| step_job: "job_done st w outcome = Some st' \<Longrightarrow> lft_step os st st'"
| step_finished: "onBuildFinished os st w = Some st' \<Longrightarrow> lft_step os st st'"
| step_cancel: "cancelBuild os st path = Some (r, st') \<Longrightarrow> lft_step os st st'"
| step_remove_path: "removePath os st path = Some (r, st') \<Longrightarrow> lft_step os st st'"
| step_refresh: "refresh os st flt = Some (ps, st') \<Longrightarrow> lft_step os st st'"
| step_sync: "sync os st mp = Some (ps, st') \<Longrightarrow> lft_step os st st'"
| step_timer: "syncAll os st = Some st' \<Longrightarrow> lft_step os st st'"
| step_mounted: "onMountAdded os st mp = Some st' \<Longrightarrow> lft_step os st st'"
| step_unmounted: "onMountRemoved os st mp = Some st' \<Longrightarrow> lft_step os st st'"
| step_external: "setAutoIndexExternal os fd fs st on = Some st' \<Longrightarrow> lft_step os st st'"
| step_internal: "setAutoIndexInternal os fd fs st on = Some st' \<Longrightarrow> lft_step os st st'"
| step_index_all: "indexAll os fd fs force st = Some st' \<Longrightarrow> lft_step os st st'"
| step_fs_added: "onFSAdded os ids_of st ids path = (st', ids') \<Longrightarrow> lft_step os st st'"
| step_fs_removed: "onFSRemoved os st ids path = (st', ids') \<Longrightarrow> lft_step os st st'"

lemma settings_inv:
  assumes "lft_inv X st" "bufs st' = bufs st" "watchers st' = watchers st" "next_ptr st' = next_ptr st"
    "fsBufMap st' = fsBufMap st" "fsWatcherMap st' = fsWatcherMap st" "fsBufToFileMap st' = fsBufToFileMap st"
    "fsBufDirtyList st' = fsBufDirtyList st"
  shows "lft_inv X st'"
  using assms lft_invD(1,2)[OF assms(1)] by (intro lft_inv_frame[OF assms(1)]) (auto simp: held_def)

lemma indexAll_inv:
  assumes "indexAll os fd fs force st = Some st'" "lft_ok st" "distinct_paths os st"
  shows "lft_ok st'"
proof -
  have "lft_ok (st\<lparr>building_paths := []\<rparr>)" by (rule settings_inv[OF assms(2)]) simp_all
  moreover have "distinct_paths os (st\<lparr>building_paths := []\<rparr>)" using assms(3) by (simp add: distinct_paths_def serial_paths_def)
  ultimately show ?thesis using index_blocks_inv assms(1) unfolding indexAll_def by blast
qed

lemma setAuto_inv:
  assumes "setAutoIndexExternal os fd fs st on = Some st' \<or> setAutoIndexInternal os fd fs st on = Some st'"
    and "lft_ok st" "distinct_paths os st"
  shows "lft_ok st'"
proof -
  let ?s1 = "st\<lparr>autoIndexExternal := on\<rparr>" and ?s2 = "st\<lparr>autoIndexInternal := on\<rparr>"
  have i: "lft_ok ?s1" "lft_ok ?s2" by (rule settings_inv[OF assms(2)]; simp)+
  have d: "distinct_paths os ?s1" "distinct_paths os ?s2" using assms(3) by (simp_all add: distinct_paths_def serial_paths_def)
  have "st' = st \<or> indexAll os fd fs False ?s1 = Some st' \<or> cleanAllIndex os ?s1 = Some st'
      \<or> indexAll os fd fs False ?s2 = Some st' \<or> cleanAllIndex os ?s2 = Some st'"
    using assms(1) by (auto simp: setAutoIndexExternal_def setAutoIndexInternal_def Let_def split: if_splits)
  then show ?thesis using assms(2) i d indexAll_inv cleanAllIndex_inv by blast
qed

text \<open>No device is listed twice for a path, in the table of the mounts that the server has and in the one that it would
  read now.\<close>

definition listed_once :: "lft_os \<Rightarrow> lft_state \<Rightarrow> bool" where
  "listed_once os st \<longleftrightarrow> distinct_paths os st \<and> distinct_paths os (refresh_mounts os st)"

theorem lft_step_inv: "lft_step os st st' \<Longrightarrow> listed_once os st \<Longrightarrow> lft_ok st \<Longrightarrow> lft_ok st'"
  unfolding listed_once_def
proof (induction rule: lft_step.induct)
  case (step_event os st a st')
  then show ?case using fileChanged_inv by blast
next
  case (step_add_path os st path auto r st')
  then show ?case using addPath_inv by blast
next
  case (step_job st w outcome st')
  then show ?case using job_done_inv by blast
next
  case (step_finished os st w st')
  then show ?case using onBuildFinished_inv by blast
next
  case (step_cancel os st path r st')
  then show ?case using cancelBuild_inv by blast
next
  case (step_remove_path os st path r st')
  then show ?case using removePath_inv by blast
next
  case (step_refresh os st flt ps st')
  then show ?case using refresh_inv by blast
next
  case (step_sync os st mp ps st')
  then show ?case using sync_inv by blast
next
  case (step_timer os st st')
  then show ?case using syncAll_inv by blast
next
  case (step_mounted os st mp st')
  then show ?case using onMountAdded_inv by blast
next
  case (step_unmounted os st mp st')
  then show ?case
    using unmount_paths_inv refresh_mounts_inv unfolding onMountRemoved_def Let_def by blast
next
  case (step_external os fd fs st on st')
  then show ?case using setAuto_inv by blast
next
  case (step_internal os fd fs st on st')
  then show ?case using setAuto_inv by blast
next
  case (step_index_all os fd fs force st st')
  then show ?case using indexAll_inv by blast
next
  case (step_fs_added os ids_of st ids path st' ids')
  then show ?case
    using remove_files_inv[of "{}" st] by (auto simp: onFSAdded_def removeLFTFiles_def Let_def split: if_splits)
next
  case (step_fs_removed os st ids path st' ids')
  then show ?case
    using remove_files_inv[of "{}" st] by (auto simp: onFSRemoved_def removeLFTFiles_def Let_def split: if_splits)
qed

definition lft_start :: "lft_state \<Rightarrow> bool" where
  "lft_start st \<longleftrightarrow> bufs st = Map.empty \<and> watchers st = Map.empty \<and> fsBufMap st = [] \<and> fsBufToFileMap st = Map.empty
   \<and> fsWatcherMap st = [] \<and> fsBufDirtyList st = []"

lemma qvalue_Nil [simp]: "qvalue [] = Map.empty"
  by (simp add: qvalue_def fun_eq_iff)

lemma lft_start_ok: "lft_start st \<Longrightarrow> lft_ok st"
  by (simp add: lft_start_def lft_inv_def held_def job_of_def qmap_ok_def)

end
