(* ===== verification/Disk_Spec.thy ===== *)
theory Disk_Spec
  imports Walk_Dir
begin

text \<open>
  What an index is to hold, from the table of the mounts and the folders of the disk alone: every name below
  the mount point, except what lies in another mount below it or in one of the folders of the system.  The filter
  of \<open>walkdir.c\<close> does this as long as no folder has a name that a mount point is the beginning of.
\<close>

subsection \<open>The specification\<close>

text \<open>The folder itself or something in it, name by name.\<close>

definition slashed :: "cstring \<Rightarrow> cstring" where
  "slashed dir = (if dir = [slash] then dir else dir @ [slash])"

definition at_or_below :: "cstring \<Rightarrow> cstring \<Rightarrow> bool" where
  "at_or_below dir path \<longleftrightarrow> path = dir \<or> (\<exists>rest. path = slashed dir @ rest)"

text \<open>\<open>/sys\<close>, \<open>/proc\<close>, \<open>/dev\<close> and \<open>/run\<close>.\<close>

definition system_folders :: "cstring set" where
  "system_folders = {[47, 115, 121, 115], [47, 112, 114, 111, 99], [47, 100, 101, 118], [47, 114, 117, 110]}"

definition left_out :: "cstring set \<Rightarrow> cstring \<Rightarrow> cstring \<Rightarrow> bool" where
  "left_out mount_points mp0 path \<longleftrightarrow> (\<exists>s\<in>system_folders. at_or_below s path)
   \<or> (\<exists>mp\<in>mount_points. mp \<noteq> mp0 \<and> at_or_below mp0 mp \<and> at_or_below mp path)"

text \<open>The forest of a folder: its files, links and folders in the order of \<open>readdir\<close>, and the forests of its folders.  A
  folder that is left out or cannot be opened is empty.  \<open>None\<close>: deeper than the bound, or a path does not fit.\<close>

fun names_below :: "nat \<Rightarrow> (cstring \<Rightarrow> (cstring \<times> d_type) list option) \<Rightarrow> (cstring \<Rightarrow> bool) \<Rightarrow> cstring \<Rightarrow> node list option" where
  "names_below 0 names out path = None"
| "names_below (Suc n) names out path =
    (if out path then Some []
     else case names path of None \<Rightarrow> Some []
       | Some es \<Rightarrow> those (map (\<lambda>(name, ty).
           let below = path @ (if last path = slash then [] else [slash]) @ name
           in if ty \<noteq> DT_DIR then Some (File name)
              else if length below > 4094 then None
              else map_option (Dir name) (names_below n names out below))
           (filter (\<lambda>(name, ty). name \<noteq> [46] \<and> name \<noteq> [46, 46] \<and> ty \<noteq> DT_OTHER) es)))"

text \<open>The table of the mounts: no more rows than the array has, none that is too long for its fields, no
  file system of long names, and all mount points can be stat'ed.\<close>

definition mount_path :: "cstring \<Rightarrow> bool" where
  "mount_path mp \<longleftrightarrow> mp \<noteq> [] \<and> hd mp = slash \<and> (mp = [slash] \<or> last mp \<noteq> slash)"

definition plain_mounts :: "(cstring \<Rightarrow> (byte \<times> byte) option) \<Rightarrow> mounts_line list \<Rightarrow> bool" where
  "plain_mounts stat_dev ls \<longleftrightarrow> length ls \<le> MAX_PARTS \<and> (\<forall>(dev, mp, fs)\<in>set ls.
     length dev < PART_NAME_MAX \<and> length mp < PART_NAME_MAX \<and> length fs < FS_TYPE_MAX
   \<and> stat_dev mp \<noteq> None \<and> \<not> is_custom_type fs \<and> mount_path mp)"

definition mount_points :: "mounts_line list \<Rightarrow> cstring set" where
  "mount_points ls = (fst \<circ> snd) ` set ls"

text \<open>No folder beside a mount point has a name that starts with that of the mount point.\<close>

definition no_longer_names :: "mounts_line list \<Rightarrow> (cstring \<Rightarrow> (cstring \<times> d_type) list option) \<Rightarrow> bool" where
  "no_longer_names ls names \<longleftrightarrow> (\<forall>mp\<in>mount_points ls. \<forall>rest. names (mp @ rest) \<noteq> None \<longrightarrow> at_or_below mp (mp @ rest))"

text \<open>The mount that is to be indexed: on a disk, and not in a folder of the system.\<close>

definition indexed_mount :: "mounts_line list \<Rightarrow> cstring \<Rightarrow> bool" where
  "indexed_mount ls mp0 \<longleftrightarrow> mp0 \<in> mount_points ls \<and> \<not> (\<exists>s\<in>system_folders. at_or_below s mp0)
   \<and> (\<forall>(dev, mp, fs)\<in>set ls. mp = mp0 \<longrightarrow> fs \<noteq> [116, 109, 112, 102, 115])"

subsection \<open>Prefixes\<close>

lemma strstr_0: "strstr s n = Some 0 \<longleftrightarrow> (\<exists>rest. s = n @ rest)"
  unfolding strstr_prefix by (metis append_eq_conv_conj)

lemma slashed_prefix: "\<exists>r. slashed d = d @ r"
  by (simp add: slashed_def)

lemma at_or_below_prefix: "at_or_below d p \<Longrightarrow> \<exists>rest. p = d @ rest"
  using slashed_prefix[of d] by (auto simp: at_or_below_def)

lemma at_or_below_trans:
  assumes "at_or_below a b" "at_or_below b c"
  shows "at_or_below a c"
proof -
  obtain r where "slashed b = b @ r" using slashed_prefix by blast
  then show ?thesis using assms by (auto simp: at_or_below_def)
qed

lemma mounted_at_iff: "s \<in> system_folders \<Longrightarrow> mounted_at p s \<longleftrightarrow> at_or_below s p"
proof -
  assume "s \<in> system_folders"
  then have s: "slashed s = s @ [slash]" by (auto simp: system_folders_def slashed_def)
  have "length p > length s \<and> (\<exists>r. p = s @ r) \<and> p ! length s = slash \<longleftrightarrow> (\<exists>r. p = s @ slash # r)"
  proof
    assume h: "length p > length s \<and> (\<exists>r. p = s @ r) \<and> p ! length s = slash"
    then obtain r where "p = s @ r" "r \<noteq> []" by auto
    then show "\<exists>r. p = s @ slash # r" using h by (cases r) (auto simp: nth_append)
  qed auto
  then show ?thesis unfolding mounted_at_def at_or_below_def strstr_0 s by auto
qed

lemma special_iff:
  assumes "fs \<noteq> [116, 109, 112, 102, 115]"
  shows "is_special_mount_point p fs \<longleftrightarrow> (\<exists>s\<in>system_folders. at_or_below s p)"
proof -
  have "is_special_mount_point p fs \<longleftrightarrow> (\<exists>s\<in>system_folders. mounted_at p s)"
    using assms by (auto simp: is_special_mount_point_def system_folders_def)
  then show ?thesis using mounted_at_iff by blast
qed

lemma special_below: "is_special_mount_point p fs \<Longrightarrow> \<exists>s\<in>system_folders. at_or_below s p"
  using mounted_at_iff[of _ p] by (auto simp: is_special_mount_point_def system_folders_def)

subsection \<open>The order of the table\<close>

lemma strcmp_le_total: "strcmp_le a b \<or> strcmp_le b a"
proof (induction a b rule: strcmp_le.induct)
  case (3 a as b bs)
  then show ?case by (cases "a = b") auto
qed simp_all

lemma strcmp_le_trans: "strcmp_le a b \<Longrightarrow> strcmp_le b c \<Longrightarrow> strcmp_le a c"
proof (induction a b arbitrary: c rule: strcmp_le.induct)
  case (3 a as b bs)
  then show ?case by (cases c) (auto split: if_splits)
qed simp_all

lemma strcmp_le_longer: "strcmp_le (a @ b) a \<Longrightarrow> b = []"
proof (induction a)
  case Nil
  then show ?case by (cases b) simp_all
qed simp

lemma sort_partitions_sorted:
  "sorted_wrt compare_partition (sort_partitions ps) \<and> set (sort_partitions ps) = set ps"
proof (induction ps)
  case (Cons p ps)
  let ?qs = "sort_partitions ps" and ?P = "\<lambda>q. \<not> compare_partition p q"
  have w: "sorted_wrt compare_partition (takeWhile ?P ?qs @ dropWhile ?P ?qs)" using Cons.IH by simp
  have front: "compare_partition q p" if "q \<in> set (takeWhile ?P ?qs)" for q
    using set_takeWhileD[OF that] strcmp_le_total by (auto simp: compare_partition_def)
  have rear: "compare_partition p q" if q: "q \<in> set (dropWhile ?P ?qs)" for q
  proof (cases "dropWhile ?P ?qs")
    case Nil
    then show ?thesis using q unfolding Nil by simp
  next
    case (Cons d ds)
    have pd: "compare_partition p d" using hd_dropWhile[of ?P ?qs] unfolding Cons by simp
    have "sorted_wrt compare_partition (d # ds)" using w unfolding Cons by (simp add: sorted_wrt_append)
    then show ?thesis using q pd strcmp_le_trans unfolding Cons by (auto simp: compare_partition_def)
  qed
  have "compare_partition q r" if "q \<in> set (takeWhile ?P ?qs)" "r \<in> set (dropWhile ?P ?qs)" for q r
    using w that unfolding sorted_wrt_append by blast
  moreover have "sorted_wrt compare_partition (takeWhile ?P ?qs)" "sorted_wrt compare_partition (dropWhile ?P ?qs)"
    using w unfolding sorted_wrt_append by blast+
  ultimately have "sorted_wrt compare_partition (takeWhile ?P ?qs @ p # dropWhile ?P ?qs)"
    using front rear unfolding sorted_wrt_append sorted_wrt.simps(2) by (metis set_ConsD)
  then have "sorted_wrt compare_partition (sort_partitions (p # ps))" by (simp only: sort_partitions.simps Let_def)
  moreover have "set (sort_partitions (p # ps)) = insert p (set ?qs)"
    using set_append[of "takeWhile ?P ?qs" "dropWhile ?P ?qs"] unfolding takeWhile_dropWhile_id
    by (simp add: Let_def)
  ultimately show ?case using Cons.IH by simp
qed simp

subsection \<open>The table of the partitions\<close>

lemma scan_plain:
  assumes "length parts + length ls \<le> MAX_PARTS" "\<forall>(dev, mp, fs)\<in>set ls.
     length dev < PART_NAME_MAX \<and> length mp < PART_NAME_MAX \<and> length fs < FS_TYPE_MAX
   \<and> stat_dev mp \<noteq> None \<and> \<not> is_custom_type fs"
  shows "\<exists>qs. scan_mounts stat_dev ls parts = Some (parts @ qs)
    \<and> (\<lambda>q. (p_mount_point q, p_fs_type q)) ` set qs = {(mp, fs). \<not> is_special_mount_point mp fs \<and> (\<exists>dev. (dev, mp, fs) \<in> set ls)}"
  using assms
proof (induction ls arbitrary: parts)
  case (Cons l ls)
  obtain dev mp fs where l: "l = (dev, mp, fs)" by (cases l)
  have ok: "length dev < PART_NAME_MAX" "length mp < PART_NAME_MAX" "length fs < FS_TYPE_MAX"
    "stat_dev mp \<noteq> None" "\<not> is_custom_type fs" using Cons.prems(2) by (auto simp: l)
  show ?case
  proof (cases "is_special_mount_point mp fs")
    case True
    then have "scan_mounts stat_dev (l # ls) parts = scan_mounts stat_dev ls parts" by (simp add: l)
    then show ?thesis using Cons.IH[of parts] Cons.prems True by (auto simp: l)
  next
    case False
    obtain ma mi where st: "stat_dev mp = Some (ma, mi)" using ok(4) by auto
    let ?q = "\<lparr>p_dev = dev, p_mount_point = mp, p_fs_type = fs, p_major = ma, p_minor = mi\<rparr>"
    have "scan_mounts stat_dev (l # ls) parts = scan_mounts stat_dev ls (parts @ [?q])"
      using ok False st Cons.prems(1) by (simp add: l)
    moreover obtain qs where q: "scan_mounts stat_dev ls (parts @ [?q]) = Some ((parts @ [?q]) @ qs)"
      "(\<lambda>q. (p_mount_point q, p_fs_type q)) ` set qs = {(mp, fs). \<not> is_special_mount_point mp fs \<and> (\<exists>dev. (dev, mp, fs) \<in> set ls)}"
      using Cons.IH[of "parts @ [?q]"] Cons.prems by auto
    moreover have "(\<lambda>q. (p_mount_point q, p_fs_type q)) ` set (?q # qs)
        = {(mp, fs). \<not> is_special_mount_point mp fs \<and> (\<exists>dev. (dev, mp, fs) \<in> set (l # ls))}"
      using q(2) False by (auto simp: l)
    ultimately show ?thesis by (intro exI[of _ "?q # qs"]) simp
  qed
qed simp

lemma get_path_partition_Some:
  "get_path_partition path n parts = Some i \<longleftrightarrow> i < n \<and> strstr path (p_mount_point (parts ! i)) = Some 0
    \<and> (\<forall>j. i < j \<and> j < n \<longrightarrow> strstr path (p_mount_point (parts ! j)) \<noteq> Some 0)"
proof (induction n)
  case (Suc n)
  then show ?case
    by (cases "strstr path (p_mount_point (parts ! n)) = Some 0") (auto simp: less_Suc_eq)
qed simp

lemma get_path_partition_exists:
  "j < n \<Longrightarrow> strstr path (p_mount_point (parts ! j)) = Some 0 \<Longrightarrow> \<exists>i\<ge>j. get_path_partition path n parts = Some i"
  by (induction n) (auto simp: less_Suc_eq)

subsection \<open>The filter meets the specification\<close>

text \<open>What the traversal sees of the table.\<close>

lemma partitions_of_mounts:
  assumes "plain_mounts stat_dev ls"
  obtains parts where "get_partitions stat_dev (Some ls) = Some (0, parts)" "sorted_wrt compare_partition parts"
    "\<And>mp fs. (\<exists>p\<in>set parts. p_mount_point p = mp \<and> p_fs_type p = fs)
      \<longleftrightarrow> \<not> is_special_mount_point mp fs \<and> (\<exists>dev. (dev, mp, fs) \<in> set ls)"
proof -
  have "length ([] :: partition list) + length ls \<le> MAX_PARTS" "\<forall>(dev, mp, fs)\<in>set ls.
     length dev < PART_NAME_MAX \<and> length mp < PART_NAME_MAX \<and> length fs < FS_TYPE_MAX
   \<and> stat_dev mp \<noteq> None \<and> \<not> is_custom_type fs"
    using assms by (auto simp: plain_mounts_def)
  from scan_plain[OF this] obtain qs where q: "scan_mounts stat_dev ls [] = Some qs"
    "(\<lambda>q. (p_mount_point q, p_fs_type q)) ` set qs = {(mp, fs). \<not> is_special_mount_point mp fs \<and> (\<exists>dev. (dev, mp, fs) \<in> set ls)}"
    by auto
  have "(\<exists>p\<in>set qs. p_mount_point p = mp \<and> p_fs_type p = fs) \<longleftrightarrow> (mp, fs) \<in> (\<lambda>q. (p_mount_point q, p_fs_type q)) ` set qs" for mp fs
    by auto
  then show thesis
    using that[of "sort_partitions qs"] q sort_partitions_sorted[of qs] by (simp add: get_partitions_def)
qed

text \<open>The partition that is selected is the mount itself.\<close>

lemma selected_mount:
  assumes "plain_mounts stat_dev ls" "indexed_mount ls mp0" "sorted_wrt compare_partition parts"
    and parts: "\<And>mp fs. (\<exists>p\<in>set parts. p_mount_point p = mp \<and> p_fs_type p = fs)
      \<longleftrightarrow> \<not> is_special_mount_point mp fs \<and> (\<exists>dev. (dev, mp, fs) \<in> set ls)"
  obtains i where "get_path_partition (slashed mp0) (length parts) parts = Some i" "p_mount_point (parts ! i) = mp0"
    "p_fs_type (parts ! i) \<noteq> [116, 109, 112, 102, 115]"
proof -
  obtain dev fs where l: "(dev, mp0, fs) \<in> set ls" "fs \<noteq> [116, 109, 112, 102, 115]"
    using assms(2) by (auto simp: indexed_mount_def mount_points_def)
  have "\<not> is_special_mount_point mp0 fs" using special_below assms(2) unfolding indexed_mount_def by blast
  then obtain p where p: "p \<in> set parts" "p_mount_point p = mp0" using parts[of mp0 fs] l(1) by blast
  then obtain j where j: "j < length parts" "p_mount_point (parts ! j) = mp0" by (metis in_set_conv_nth)
  have pre: "strstr (slashed mp0) (p_mount_point (parts ! j)) = Some 0"
    unfolding strstr_0 j(2) by (rule slashed_prefix)
  obtain i where i: "j \<le> i" "get_path_partition (slashed mp0) (length parts) parts = Some i"
    using get_path_partition_exists[of j "length parts" "slashed mp0" parts, OF j(1) pre] by blast
  then have il: "i < length parts" "\<exists>r. slashed mp0 = p_mount_point (parts ! i) @ r"
    unfolding get_path_partition_Some strstr_0 by blast+
  let ?mi = "p_mount_point (parts ! i)" and ?fi = "p_fs_type (parts ! i)"
  have "parts ! i \<in> set parts" using il(1) by simp
  then obtain dev' where li: "(dev', ?mi, ?fi) \<in> set ls" using parts[of ?mi ?fi] by blast
  have mi: "mount_path ?mi" "mount_path mp0" using assms(1) li l(1) by (auto simp: plain_mounts_def)
  have e: "?mi = mp0"
  proof (rule ccontr)
    assume ne: "?mi \<noteq> mp0"
    obtain r where r: "slashed mp0 = ?mi @ r" using il(2) by blast
    have "\<exists>t. mp0 = ?mi @ t \<and> t \<noteq> []"
    proof (cases "r = []")
      case True
      then have "?mi = slashed mp0" using r by simp
      then show ?thesis using mi ne by (auto simp: slashed_def mount_path_def split: if_splits)
    next
      case False
      then obtain t c where t: "r = t @ [c]" by (cases r rule: rev_cases) auto
      have "mp0 \<noteq> [slash]"
      proof
        assume "mp0 = [slash]"
        then have "?mi = []" using r t by (cases ?mi) (auto simp: slashed_def)
        then show False using mi(1) by (simp add: mount_path_def)
      qed
      then have "mp0 = ?mi @ t" using r t by (auto simp: slashed_def)
      then show ?thesis using ne by auto
    qed
    then obtain t where t: "mp0 = ?mi @ t" "t \<noteq> []" by blast
    have "j \<noteq> i" using j(2) ne by auto
    then have "strcmp_le (?mi @ t) ?mi"
      using sorted_wrt_nth_less[OF assms(3), of j i] i(1) il(1) j(2) t(1) by (simp add: compare_partition_def)
    then show False using strcmp_le_longer t(2) by blast
  qed
  have "?fi \<noteq> [116, 109, 112, 102, 115]" using assms(2) li e by (auto simp: indexed_mount_def)
  then show thesis using that i(2) e by blast
qed

lemma skip_path_spec:
  assumes "plain_mounts stat_dev ls" "indexed_mount ls mp0" "no_longer_names ls names" "sorted_wrt compare_partition parts"
    and parts: "\<And>mp fs. (\<exists>p\<in>set parts. p_mount_point p = mp \<and> p_fs_type p = fs)
      \<longleftrightarrow> \<not> is_special_mount_point mp fs \<and> (\<exists>dev. (dev, mp, fs) \<in> set ls)"
    and path: "path = slashed mp0 @ rest" "names path \<noteq> None"
  shows "should_skip_path \<lparr>selected_partition = get_path_partition (slashed mp0) (length parts) parts,
      merge_partition = False, partition_list = parts\<rparr> path = Some (left_out (mount_points ls) mp0 path)"
proof -
  obtain i where i: "get_path_partition (slashed mp0) (length parts) parts = Some i" "p_mount_point (parts ! i) = mp0"
    "p_fs_type (parts ! i) \<noteq> [116, 109, 112, 102, 115]"
    using selected_mount[OF assms(1,2,4) parts] by blast
  have last: "i < length parts" "\<And>k. i < k \<Longrightarrow> k < length parts \<Longrightarrow> \<not> (\<exists>r. slashed mp0 = p_mount_point (parts ! k) @ r)"
    using i(1) unfolding get_path_partition_Some strstr_0 by blast+
  have line: "\<exists>dev. (dev, p_mount_point p, p_fs_type p) \<in> set ls" "\<not> is_special_mount_point (p_mount_point p) (p_fs_type p)"
    if "p \<in> set parts" for p using parts[of "p_mount_point p" "p_fs_type p"] that by blast+
  let ?special = "\<exists>s\<in>system_folders. at_or_below s path"
  let ?later = "list_ex (\<lambda>p. strstr path (p_mount_point p) = Some 0 \<and> \<not> is_custom_type (p_fs_type p)) (drop (Suc i) parts)"
  let ?inner = "\<exists>mp\<in>mount_points ls. mp \<noteq> mp0 \<and> at_or_below mp0 mp \<and> at_or_below mp path"
  have "?inner" if later: "?later"
  proof -
    obtain k where k: "i < k" "k < length parts" "\<exists>r. path = p_mount_point (parts ! k) @ r"
    proof -
      from later obtain p where p: "p \<in> set (drop (Suc i) parts)" "strstr path (p_mount_point p) = Some 0" by (auto simp: list_ex_iff)
      then obtain k where "k < length parts - Suc i" "p = parts ! (Suc i + k)" by (auto simp: in_set_conv_nth)
      then show thesis using p(2) unfolding strstr_0 by (intro that[of "Suc i + k"]) auto
    qed
    let ?m = "p_mount_point (parts ! k)"
    have np: "\<not> (\<exists>r. slashed mp0 = ?m @ r)" using last(2)[OF k(1,2)] .
    then have ne: "?m \<noteq> mp0" using slashed_prefix by metis
    obtain r where r: "path = ?m @ r" using k(3) by blast
    then have "slashed mp0 @ rest = ?m @ r" using path(1) by simp
    then have "at_or_below mp0 ?m" using np unfolding append_eq_append_conv2 at_or_below_def by metis
    moreover have m: "?m \<in> mount_points ls" using line(1)[of "parts ! k"] k(2) by (force simp: mount_points_def)
    moreover have "at_or_below ?m path" using assms(3) m path(2) unfolding no_longer_names_def r by blast
    ultimately show ?thesis using ne by blast
  qed
  moreover have "?special \<or> ?later" if inner: "?inner"
  proof -
    obtain dev mp fs where m: "(dev, mp, fs) \<in> set ls" "mp \<noteq> mp0" "at_or_below mp0 mp" "at_or_below mp path"
      using inner by (auto simp: mount_points_def)
    show ?thesis
    proof (cases "is_special_mount_point mp fs")
      case True
      then show ?thesis using special_below at_or_below_trans m(4) by blast
    next
      case False
      then obtain p where p: "p \<in> set parts" "p_mount_point p = mp" "p_fs_type p = fs" using parts[of mp fs] m(1) by blast
      then obtain k where k: "k < length parts" "parts ! k = p" by (metis in_set_conv_nth)
      have "mount_path mp0" using assms(1,2) by (auto simp: plain_mounts_def indexed_mount_def mount_points_def)
      obtain t where t: "mp = mp0 @ t" "t \<noteq> []" using at_or_below_prefix[OF m(3)] m(2) by auto
      have "\<not> k < i"
      proof
        assume "k < i"
        then have "strcmp_le (mp0 @ t) mp0"
          using sorted_wrt_nth_less[OF assms(4), of k i] last(1) i(2) k(2) p(2) t(1) by (simp add: compare_partition_def)
        then show False using strcmp_le_longer t(2) by blast
      qed
      moreover have "k \<noteq> i" using i(2) k(2) p(2) m(2) by auto
      ultimately have "p \<in> set (drop (Suc i) parts)" using k by (auto simp: in_set_conv_nth intro!: exI[of _ "k - Suc i"])
      moreover have "strstr path (p_mount_point p) = Some 0" unfolding strstr_0 p(2) by (rule at_or_below_prefix[OF m(4)])
      moreover have "\<not> is_custom_type (p_fs_type p)" using assms(1) m(1) p(3) by (auto simp: plain_mounts_def)
      ultimately show ?thesis by (auto simp: list_ex_iff)
    qed
  qed
  moreover have "is_special_mount_point path (p_fs_type (parts ! i)) \<longleftrightarrow> ?special" by (rule special_iff[OF i(3)])
  ultimately show ?thesis using i(1) by (auto simp: should_skip_path_def left_out_def)
qed

lemma selected_no_fault:
  "get_path_partition root (length parts) parts = Some i \<Longrightarrow>
    \<exists>s. should_skip_path \<lparr>selected_partition = get_path_partition root (length parts) parts,
      merge_partition = mg, partition_list = parts\<rparr> path = Some s"
  by (simp add: should_skip_path_def)

text \<open>Hence the forest of the traversal is that of the specification.\<close>

lemma disk_kids_spec:
  assumes "names_below n names out path = Some ks" "path = slashed mp0 @ rest" "read_names env = names"
    and "\<And>rest. skip_path env (slashed mp0 @ rest) \<noteq> None"
    and "\<And>rest. names (slashed mp0 @ rest) \<noteq> None \<Longrightarrow> skip_path env (slashed mp0 @ rest) = Some (out (slashed mp0 @ rest))"
  shows "disk_kids n env path = Some ks"
  using assms(1,2)
proof (induction n arbitrary: path rest ks)
  case (Suc n)
  obtain s where s: "skip_path env path = Some s" using assms(4)[of rest] Suc.prems(2) by auto
  show ?case
  proof (cases "names path")
    case None
    then have "ks = []" using Suc.prems(1) by (auto split: if_splits)
    then show ?thesis using s None assms(3) by (cases s) simp_all
  next
    case (Some es)
    then have so: "s = out path" using assms(5)[of rest] s Suc.prems(2) by simp
    show ?thesis
    proof (cases "out path")
      case True
      then show ?thesis using Suc.prems(1) s so by simp
    next
      case False
      have ne: "path \<noteq> []" using Suc.prems(2) by (auto simp: slashed_def)
      have j: "join_path path name = path @ (if last path = slash then [] else [slash]) @ name" for name
        using ne by (simp add: join_path_def cchar_def last_conv_nth)
      have w: "filter (\<lambda>(name, ty). name \<noteq> [46] \<and> name \<noteq> [46, 46] \<and> ty \<noteq> DT_OTHER) es = filter wanted es"
        by (rule filter_cong) (auto simp: wanted_def dot_def)
      define f where "f = (\<lambda>(name :: cstring, ty :: d_type).
           let below = path @ (if last path = slash then [] else [slash]) @ name
           in if ty \<noteq> DT_DIR then Some (File name)
              else if length below > 4094 then None
              else map_option (Dir name) (names_below n names out below))"
      define g where "g = (\<lambda>(name, ty). if ty = DT_DIR then
              (if length (join_path path name) \<le> PATH_MAX - 2
               then map_option (Dir name) (disk_kids n env (join_path path name)) else None)
            else Some (File name))"
      have m: "those (map f (filter wanted es)) = Some ks"
        using Suc.prems(1) False Some unfolding f_def w[symmetric] by simp
      have fg: "g e = Some k" if fe: "f e = Some k" for e k
      proof -
        obtain name ty where e: "e = (name, ty)" by (cases e)
        show ?thesis
        proof (cases "ty = DT_DIR")
          case True
          then obtain kk where kk: "names_below n names out (join_path path name) = Some kk" "k = Dir name kk"
            "length (join_path path name) \<le> 4094"
            using fe unfolding f_def e j by (auto simp: Let_def split: if_splits)
          have "join_path path name = slashed mp0 @ (rest @ (if last path = slash then [] else [slash]) @ name)"
            unfolding j using Suc.prems(2) by simp
          from Suc.IH[OF kk(1) this] show ?thesis using kk(2,3) True by (simp add: g_def e)
        next
          case False
          then show ?thesis using fe by (simp add: f_def g_def e)
        qed
      qed
      have "map g xs = map Some ys" if "map f xs = map Some ys" for xs ys
        using that fg by (induction xs arbitrary: ys) (auto simp: Cons_eq_map_conv map_eq_Cons_conv)
      then have "those (map g (filter wanted es)) = Some ks" using m unfolding those_Some by blast
      then show ?thesis using s so False Some assms(3) by (simp add: g_def)
    qed
  qed
qed simp

theorem walk_meets_spec:
  assumes "plain_mounts stat_dev ls" "indexed_mount ls mp0" "no_longer_names ls names"
    and "names_below n names (left_out (mount_points ls) mp0) (slashed mp0) = Some ks"
  obtains parts where "get_partitions stat_dev (Some ls) = Some (0, parts)"
    "disk_kids n (partition_env al parts names pcf False (slashed mp0)) (slashed mp0) = Some ks"
proof -
  obtain parts where p: "get_partitions stat_dev (Some ls) = Some (0, parts)" "sorted_wrt compare_partition parts"
    "\<And>mp fs. (\<exists>p\<in>set parts. p_mount_point p = mp \<and> p_fs_type p = fs)
      \<longleftrightarrow> \<not> is_special_mount_point mp fs \<and> (\<exists>dev. (dev, mp, fs) \<in> set ls)"
    using partitions_of_mounts[OF assms(1)] by blast
  let ?env = "partition_env al parts names pcf False (slashed mp0)"
  obtain i where i: "get_path_partition (slashed mp0) (length parts) parts = Some i"
    using selected_mount[OF assms(1,2) p(2,3)] by blast
  have "disk_kids n ?env (slashed mp0) = Some ks"
  proof (rule disk_kids_spec[OF assms(4), where ?mp0.0 = mp0 and rest = "[]"])
    show "skip_path ?env (slashed mp0 @ rest) \<noteq> None" for rest
      using selected_no_fault[OF i] by (simp add: partition_env_def)
    show "skip_path ?env (slashed mp0 @ rest) = Some (left_out (mount_points ls) mp0 (slashed mp0 @ rest))"
      if "names (slashed mp0 @ rest) \<noteq> None" for rest
      using skip_path_spec[OF assms(1-3) p(2,3) refl that] by (simp add: partition_env_def)
  qed (simp_all add: partition_env_def)
  then show thesis using that p(1) by blast
qed

end
