(* ===== verification/Lft_Claims.thy ===== *)
theory Lft_Claims
  imports Lft_Machine Disk_Spec Fs_Claims
begin

text \<open>
  What the server of the indexes guarantees: the content of a new index, its place in the maps, and
  that no pointer dangles in a state that is reached.  The last section has the states in which the code does.
\<close>

subsection \<open>The content of a new index\<close>

lemma new_fs_buf_total:
  assumes "alloc_total al" "root_ok root" "length root + 1048576 \<le> 16777216"
  shows "\<exists>b. new_fs_buf al True (2 ^ 24) (Some root) = Some b"
proof -
  define k :: nat where "k = 16777216"
  have u: "unat (2 ^ 24 :: u32) = k" by (simp add: k_def)
  obtain s where s: "al sizeof_fs_buf = Some s" using assms(1) by (fastforce simp: alloc_total_def sizeof_fs_buf_def)
  have "k \<le> 1073741824" by (simp add: k_def)
  then obtain blk where blk: "al k = Some blk" using assms(1) unfolding alloc_total_def by fastforce
  have "alloc_ok al" using assms(1) by (simp add: alloc_total_def)
  then have l: "length blk = k" using blk by (rule alloc_okD)
  have "8 + length (root @ [0]) \<le> k" using assms(3) by (simp add: k_def)
  then obtain m where m: "put_bytes blk 8 (root @ [0]) = Some m" unfolding put_bytes_def l by simp
  have c: "\<not> (2 ^ 24 :: u32) > 1073741824" by simp
  have n: "\<not> length root + unat (1048576 :: u32) > k" using assms(3) by (simp add: k_def)
  have sl: "cchar root 0 = slash" "cchar root (length root - 1) = slash"
    using assms(2) by (auto simp: root_ok_def cchar_def hd_conv_nth last_conv_nth)
  have e: "unat (8 :: u32) = 8" by simp
  show ?thesis unfolding new_fs_buf_def u e by (simp only: option.case c n sl s blk m if_False if_True simp_thms Let_def) blast
qed

lemma enc_root_empty: "enc_root ks = [] \<longleftrightarrow> ks = []"
  by (auto simp: enc_root_def block_def)

lemma checkFSBuf_iff:
  assumes "represents b root ks"
  shows "checkFSBuf b \<longleftrightarrow> ks \<noteq> []"
proof -
  have t: "tail b = of_nat (first_pos root + length (enc_root ks))" "first_name_off b = of_nat (first_pos root)"
    using assms by (simp_all add: represents_def region_def)
  obtain H J where "head b = H @ enc_root ks @ J" "length H = first_pos root" "small b"
    using assms by (auto simp: represents_def region_iff)
  then have "first_pos root + length (enc_root ks) < 2 ^ 32" by simp
  then have "tail b = first_name_off b \<longleftrightarrow> length (enc_root ks) = 0"
    unfolding t by (subst word_of_nat_eq_iff) (simp add: take_bit_nat_eq_self)
  then show ?thesis by (auto simp: checkFSBuf_def get_tail_def first_name_def enc_root_empty)
qed

text \<open>C8: building an index.  The job of \<open>addPath\<close> for a mount \<open>mp0\<close> on a disk walks the folders below it: it
  returns a buffer, with its lock free, that holds exactly the names below \<open>mp0\<close> except those in another mount below
  it or in \<open>/sys\<close>, \<open>/proc\<close>, \<open>/dev\<close> and \<open>/run\<close> (\<open>names_below\<close>, \<open>left_out\<close>, which do not mention the filter of the
  code), or the null pointer if there is no name.  Conditions: \<open>mp0\<close> is in the table, not in a folder of the
  system and not a \<open>tmpfs\<close>; the paths fit \<open>PATH_MAX\<close> (\<open>names_below\<close> has a value); no folder of the disk has a name that only starts like
  a mount point (\<open>no_longer_names\<close>; otherwise it is left out, \<open>homework_left_out\<close>), the table of the mounts fits the
  arrays and has no long name file system, the memory suffices, nobody stops the walk, and the index
  stays below half of \<open>MAX_FSBUF_SIZE\<close>.\<close>

theorem build_index:
  assumes "plain_mounts stat_dev ls" "indexed_mount ls mp0" "no_longer_names ls names"
    and "names_below n names (left_out (mount_points ls) mp0) (slashed mp0) = Some ks" "forest_ok ks"
    and "is_cstr mp0" "length mp0 < 4096" "alloc_total al" "\<forall>f d p x. \<not> pcf f d p x"
    and "first_pos (slashed mp0) + 2 * length (enc_root ks) + 1048586 \<le> 1073741824"
  shows "\<exists>r. buildFSBuf al True stat_dev (Some ls) names pcf (slashed mp0) = Some r
    \<and> (case r of None \<Rightarrow> ks = [] | Some b \<Rightarrow> ks \<noteq> [] \<and> represents b (slashed mp0) ks \<and> lock b = Unlocked)"
proof -
  let ?root = "slashed mp0"
  have "mount_path mp0" using assms(1,2) by (auto simp: plain_mounts_def indexed_mount_def mount_points_def)
  then have root: "root_ok ?root" "length ?root + 1048576 \<le> 16777216"
    using assms(6,7) by (auto simp: root_ok_def slashed_def mount_path_def is_cstr_def)
  obtain b where b: "new_fs_buf al True (2 ^ 24) (Some ?root) = Some b" using new_fs_buf_total[OF assms(8) root] by blast
  have "alloc_ok al" "is_cstr ?root" using root(1) assms(8) by (simp_all add: alloc_total_def root_ok_def)
  then have r: "represents b ?root []" "lock b = Unlocked" using new_fs_buf_represents[OF _ _ b] by simp_all
  obtain parts where p: "get_partitions stat_dev (Some ls) = Some (0, parts)"
    "disk_kids n (partition_env al parts names pcf False ?root) ?root = Some ks"
    using walk_meets_spec[OF assms(1-4)] by blast
  obtain b' where b': "build_fstree al stat_dev (Some ls) names pcf False b = Some (0, b')" "represents b' ?root ks" "lock b' = Unlocked"
    using build_fstree_represents[OF r assms(8) p assms(5,9,10)] by blast
  then show ?thesis using b checkFSBuf_iff[OF b'(2)] by (simp add: buildFSBuf_def)
qed

text \<open>The disk of theory Walk_Dir.\<close>

theorem build_index_witness:
  "\<exists>b. buildFSBuf sample_alloc True (\<lambda>mp. Some (8, if mp = [47] then 1 else 2))
     (Some [([66], [47, 112], [101]), ([65], [47], [101])]) sample_names (\<lambda>_ _ _ _. False) [47] = Some (Some b)
   \<and> represents b [47] [Dir [97] [File [98]], File [99], Dir [112] []] \<and> lock b = Unlocked"
proof -
  let ?ls = "[([66], [47, 112], [101]), ([65], [47], [101])] :: mounts_line list"
  let ?sd = "\<lambda>mp :: cstring. Some (8, if mp = [47] then 1 else 2) :: (byte \<times> byte) option"
  have mps: "mount_points ?ls = {[47, 112], [47]}" by (simp add: mount_points_def)
  have sl: "slashed [47] = [47]" by (simp add: slashed_def)
  have ab: "at_or_below [47, 112] p \<longleftrightarrow> p = [47, 112] \<or> (\<exists>r. p = [47, 112, 47] @ r)"
    "at_or_below [47] p \<longleftrightarrow> (\<exists>r. p = 47 # r)" for p
    by (auto simp: at_or_below_def slashed_def)
  have sys: "\<exists>s\<in>system_folders. at_or_below s p \<Longrightarrow> 4 \<le> length p" for p
    by (auto simp: system_folders_def at_or_below_def slashed_def)
  then have short: "\<not> (\<exists>s\<in>system_folders. at_or_below s p)" if "length p < 4" for p using that by force
  have out: "left_out (mount_points ?ls) [47] p \<longleftrightarrow> p = [47, 112]" if "length p < 4" "p \<noteq> [47, 112, 47]" for p
    using short[OF that(1)] that unfolding left_out_def mps by (auto simp: ab)
  have "names_below 3 sample_names (left_out (mount_points ?ls) [47]) [47] = Some [Dir [97] [File [98]], File [99], Dir [112] []]"
    by (simp add: numeral_3_eq_3 sample_names_def out)
  moreover have "plain_mounts ?sd ?ls"
    by (simp add: plain_mounts_def is_custom_type_def mount_path_def)
  moreover have "indexed_mount ?ls [47]" using short[of "[47]"] by (auto simp: indexed_mount_def mount_points_def)
  moreover have "no_longer_names ?ls sample_names"
    by (auto simp: no_longer_names_def mps ab sample_names_def split: if_splits)
  moreover have "alloc_total sample_alloc" by (simp add: alloc_total_def sample_alloc_ok) (simp add: sample_alloc_def)
  ultimately obtain r where "buildFSBuf sample_alloc True ?sd (Some ?ls) sample_names (\<lambda>_ _ _ _. False) (slashed [47]) = Some r"
    "case r of None \<Rightarrow> [Dir [97] [File [98]], File [99], Dir [112] []] = [] | Some b \<Rightarrow> [Dir [97] [File [98]], File [99], Dir [112] []] \<noteq> []
      \<and> represents b (slashed [47]) [Dir [97] [File [98]], File [99], Dir [112] []] \<and> lock b = Unlocked"
    using build_index[of ?sd ?ls "[47]" sample_names 3 "[Dir [97] [File [98]], File [99], Dir [112] []]" sample_alloc "\<lambda>_ _ _ _. False"]
    by (auto simp: sl is_cstr_def name_ok_def enc_root_def)
  then show ?thesis by (auto simp: sl split: option.splits)
qed

subsection \<open>The end of a build\<close>

text \<open>What taking over does beside the two maps: the indexes that the paths had are freed and lose their
  files, the new index is marked for writing, the builds of the paths have ended; all the rest is as it was.\<close>

definition replaced :: "lft_state \<Rightarrow> cstring list \<Rightarrow> buf_ptr set" where
  "replaced st paths = {q. Some q \<in> qvalue (fsBufMap st) ` set paths}"

definition only_freed :: "lft_state \<Rightarrow> buf_ptr \<Rightarrow> cstring list \<Rightarrow> lft_state \<Rightarrow> bool" where
  "only_freed st p paths st' \<longleftrightarrow> bufs st' = (bufs st) |` (- replaced st paths)
   \<and> fsBufToFileMap st' = (fsBufToFileMap st) |` (- replaced st paths)
   \<and> set (fsBufDirtyList st') = (set (fsBufDirtyList st) - replaced st paths) \<union> (if paths = [] then {} else {p})
   \<and> building_paths st' = fold remove1 paths (building_paths st)
   \<and> lft_files st' = lft_files st \<and> mountPointList st' = mountPointList st
   \<and> autoIndexInternal st' = autoIndexInternal st \<and> autoIndexExternal st' = autoIndexExternal st"

lemma drop_old_freed:
  assumes "drop_old st path = Some st'"
  shows "bufs st' = (bufs st) |` (- replaced st [path]) \<and> fsBufToFileMap st' = (fsBufToFileMap st) |` (- replaced st [path])
   \<and> set (fsBufDirtyList st') = set (fsBufDirtyList st) - replaced st [path] \<and> building_paths st' = building_paths st
   \<and> lft_files st' = lft_files st \<and> mountPointList st' = mountPointList st
   \<and> autoIndexInternal st' = autoIndexInternal st \<and> autoIndexExternal st' = autoIndexExternal st"
proof (cases "qvalue (fsBufMap st) path")
  case None
  then have "replaced st [path] = {}" by (simp add: replaced_def)
  then show ?thesis using assms None by (simp add: drop_old_def)
next
  case (Some q)
  then have e: "- replaced st [path] = - {q}" by (auto simp: replaced_def)
  have m: "m |` (- {q}) = m(q := None)" for m :: "buf_ptr \<Rightarrow> 'x option"
    by (auto simp: restrict_map_def fun_eq_iff)
  obtain x where r: "removeBuf st q False = Some (x, st')" using assms Some by (auto simp: drop_old_def)
  define m' where "m' = fold qremove (qkeys q (fsBufMap st)) (fsBufMap st)"
  obtain b where "bufs st q = Some b"
    "st' = (forget_buf (st\<lparr>fsBufMap := m'\<rparr>) q)\<lparr>bufs := (bufs st)(q := None)\<rparr>"
    using r unfolding removeBuf_def m'_def[symmetric] by (auto simp: free_buf_def forget_buf_def Let_def split: option.splits)
  then show ?thesis unfolding e m using e by (auto simp: forget_buf_def)
qed

lemma take_over_freed:
  assumes "take_over (Some p) st path = Some st'"
  shows "only_freed st p [path] (end_build st' path)"
proof -
  obtain s where s: "drop_old st path = Some s"
    "st' = markLFTFileToDirty (s\<lparr>fsBufMap := qinsert path p (fsBufMap s)\<rparr>) p"
    using assms by (auto simp: take_over_def Option.bind_eq_Some_conv)
  show ?thesis using drop_old_freed[OF s(1)] unfolding s(2) only_freed_def by (simp add: end_build_def markLFTFileToDirty_def)
qed

lemma take_over_paths_freed:
  assumes "take_over_paths (Some p) st paths = Some st'" "lft_inv X st" "p \<in> dom (bufs st)" "\<And>w. w \<notin> X \<Longrightarrow> \<not> job_of st w p"
    and "\<forall>q\<in>set paths. qvalue (fsBufMap st) q \<noteq> Some p" "distinct paths"
  shows "only_freed st p paths st'"
  using assms
proof (induction paths arbitrary: st)
  case Nil
  then show ?case by (simp add: only_freed_def replaced_def)
next
  case (Cons path paths)
  obtain s where s: "take_over (Some p) st path = Some s" "lft_inv X s" "handed_over st p path s"
    using take_over_ok[OF Cons.prems(2-4), of path] Cons.prems(5) by auto
  let ?s = "end_build s path"
  have f: "only_freed st p [path] ?s" by (rule take_over_freed[OF s(1)])
  have v: "qvalue (fsBufMap ?s) k = (if k = path then Some p
      else if qvalue (fsBufMap st) path \<noteq> None \<and> qvalue (fsBufMap st) k = qvalue (fsBufMap st) path then None
      else qvalue (fsBufMap st) k)" for k using s(3) by (simp add: handed_over_def)
  have new: "\<forall>q\<in>set paths. qvalue (fsBufMap ?s) q \<noteq> Some p" using v Cons.prems(5,6) by auto
  have "job_of ?s = job_of st" using s(3) by (intro job_of_watchers) (simp add: handed_over_def)
  then have nj: "\<not> job_of ?s w p" if "w \<notin> X" for w using Cons.prems(4)[OF that] by simp
  have live: "p \<in> dom (bufs ?s)" using s(3) Cons.prems(3) by (auto simp: handed_over_def)
  have t: "take_over_paths (Some p) ?s paths = Some st'" using Cons.prems(1) s(1) by simp
  have "distinct paths" using Cons.prems(6) by simp
  from Cons.IH[OF t end_build_inv[OF s(2)] live nj new this] have g: "only_freed ?s p paths st'" .
  have "path \<notin> set paths" using Cons.prems(6) by simp
  then have old: "replaced st (path # paths) = replaced st [path] \<union> replaced ?s paths"
    using v by (auto simp: replaced_def image_iff split: if_splits)
  have p: "p \<notin> replaced ?s paths" using new by (auto simp: replaced_def)
  have rr: "(m |` (- A)) |` (- B) = m |` (- (A \<union> B))" for m :: "buf_ptr \<Rightarrow> 'x option" and A B
    by (auto simp: restrict_map_def fun_eq_iff)
  show ?case
    using f g p unfolding only_freed_def old by (auto simp: rr)
qed

text \<open>The state when the slot is at its end, before it writes the indexes.\<close>

definition taken_over :: "lft_state \<Rightarrow> watcher_ptr \<Rightarrow> watcher \<Rightarrow> buf_ptr \<Rightarrow> cstring \<Rightarrow> lft_state \<Rightarrow> bool" where
  "taken_over st w wt p f st' \<longleftrightarrow> lft_ok st' \<and> bufs st' p = bufs st p
   \<and> (\<forall>q. bufs st' q = (if q \<in> replaced st (w_path_list wt) then None else bufs st q))
   \<and> (\<forall>q. fsBufToFileMap st' q = (if q = p then Some f else if q \<in> replaced st (w_path_list wt) then None else fsBufToFileMap st q))
   \<and> (\<forall>q. q \<in> set (fsBufDirtyList st') \<longleftrightarrow> q = p \<and> w_path_list wt \<noteq> [] \<or> q \<in> set (fsBufDirtyList st) \<and> q \<notin> replaced st (w_path_list wt))
   \<and> building_paths st' = fold remove1 (w_path_list wt) (building_paths st)
   \<and> lft_files st' = lft_files st \<and> mountPointList st' = mountPointList st
   \<and> autoIndexInternal st' = autoIndexInternal st \<and> autoIndexExternal st' = autoIndexExternal st
   \<and> watchers st' = (watchers st)(w := None)
   \<and> (\<forall>k. qvalue (fsWatcherMap st') k = (if k \<in> set (w_path_list wt) then None else qvalue (fsWatcherMap st) k))
   \<and> (\<forall>k. qvalue (fsBufMap st') k = (if k \<in> set (w_path_list wt) then Some p
         else if qvalue (fsBufMap st) k \<in> qvalue (fsBufMap st) ` set (w_path_list wt) then None
         else qvalue (fsBufMap st) k))"

lemma onBuildFinished_eq:
  fixes s :: lft_state
  assumes "watchers st w = Some wt" "w_result wt = Some (Some p)" "\<not> w_canceled wt"
    and "keep_result os st wt (Some p) = Some True" "take_over_paths (Some p) st (w_path_list wt) = Some s"
    and "getLFTFileByPath os s (w_path wt) (w_auto_index wt) = Some f"
  defines "t \<equiv> s\<lparr>fsBufToFileMap := (fsBufToFileMap s)(p \<mapsto> f), watchers := (watchers s)(w := None)\<rparr>"
  shows "onBuildFinished os st w = (if building_paths t = [] then syncAll os t else Some t)"
  using assms(1-6) unfolding t_def by (simp add: onBuildFinished_def Let_def)

text \<open>C20: the end of a build.  When a job ends with an index that is wanted, the slot runs through: every
  path of the job leads to the new index and none of them is being built any more; the indexes they had before
  are freed, with their files' names and under all their paths; every other index stays allocated and unchanged, with its
  paths and the name of its file; the new index has its file and is to be written; no file, setting or table of the
  mounts changes; and no pointer dangles.  The indexes are written next if no other path is being built.\<close>

theorem build_taken_over:
  assumes "lft_ok st" "watchers st w = Some wt" "w_result wt = Some (Some p)" "\<not> w_canceled wt"
    and "keep_result os st wt (Some p) = Some True"
    and "getLFTFileByPath os st (w_path wt) (w_auto_index wt) = Some f"
  shows "\<exists>st'. taken_over st w wt p f st'
    \<and> onBuildFinished os st w = (if building_paths st' = [] then syncAll os st' else Some st')"
proof -
  have j: "job_of st w p" using assms(2,3) by (simp add: job_of_def)
  have i: "lft_inv {w} st" using assms(1) by (rule lft_inv_mono) simp
  have p: "p \<in> dom (bufs st)" "p \<notin> held st" "\<And>w'. w' \<notin> {w} \<Longrightarrow> \<not> job_of st w' p"
    using lft_invD(4,5)[OF assms(1)] j by blast+
  have "\<forall>q\<in>set (w_path_list wt). qvalue (fsBufMap st) q \<noteq> Some p" using p(2) mapped_held by blast
  from take_over_paths_ok[OF i p(1,3) this lft_invD(9)[OF i assms(2)]] obtain s
    where s: "take_over_paths (Some p) st (w_path_list wt) = Some s" "lft_inv {w} s" "all_handed st p (w_path_list wt) s"
    by blast
  let ?t = "s\<lparr>fsBufToFileMap := (fsBufToFileMap s)(p \<mapsto> f), watchers := (watchers s)(w := None)\<rparr>"
  have h: "watchers s = watchers st" "bufs s p = bufs st p" "mountPointList s = mountPointList st"
    using s(3) by (simp_all add: all_handed_def)
  have f: "getLFTFileByPath os s (w_path wt) (w_auto_index wt) = Some f"
    using assms(6) h(3) by (simp add: getLFTFileByPath_def path_serial_def)
  have e: "onBuildFinished os st w = (if building_paths ?t = [] then syncAll os ?t else Some ?t)"
    using onBuildFinished_eq[OF assms(2-5) s(1) f] .
  have "lft_inv {w} (s\<lparr>fsBufToFileMap := (fsBufToFileMap s)(p \<mapsto> f)\<rparr>)" (is "lft_inv _ ?s")
  proof (rule lft_inv_name[OF s(2), of p])
    show "p \<in> dom (bufs s)" using p(1) h(2) by auto
    show "\<not> job_of s w' p" if "w' \<notin> {w}" for w' using p(3)[OF that] job_of_watchers[OF h(1)] by simp
  qed (use lft_invD(1)[OF s(2)] in \<open>auto simp: held_def\<close>)
  moreover have "qvalue (fsWatcherMap ?s) path \<noteq> Some w" for path
    using s(3) lft_invD(8)[OF i, of path w] assms(2) by (auto simp: all_handed_def)
  ultimately have "lft_ok ?t" using drop_watcher_inv[of w ?s] by simp
  moreover have "only_freed st p (w_path_list wt) s"
    by (rule take_over_paths_freed[OF s(1) i p(1,3) \<open>\<forall>q\<in>set (w_path_list wt). qvalue (fsBufMap st) q \<noteq> Some p\<close>
        lft_invD(9)[OF i assms(2)]])
  ultimately have "taken_over st w wt p f ?t"
    using s(3) h unfolding taken_over_def all_handed_def only_freed_def by (auto simp: restrict_map_def split: if_splits)
  then show ?thesis using e by blast
qed

text \<open>A server with one partition at \<open>/d\<close> whose folder of the cache cannot be made: the index of \<open>/d\<close> is asked
  for, built, and taken over.\<close>

definition build_os :: lft_os where
  "build_os = sample_lft_os\<lparr>mnt_os := sample_os, disks := sample_dm, mkpath_ok := False\<rparr>"

definition build_start :: lft_state where
  "build_start = sample_lft_state\<lparr>bufs := Map.empty, fsBufMap := [], mountPointList := sample_dev_mps, next_ptr := 0\<rparr>"

definition build_watcher :: watcher where
  "build_watcher = \<lparr>w_auto_index = False, w_path_list = [[47, 100]], w_path = [47, 100], w_canceled = False, w_result = None\<rparr>"

definition build_running :: lft_state where
  "build_running = build_start\<lparr>next_ptr := 1, watchers := [0 \<mapsto> build_watcher], fsWatcherMap := [([47, 100], 0)],
     building_paths := [[47, 100]]\<rparr>"

definition build_done :: lft_state where
  "build_done = build_running\<lparr>next_ptr := 2, watchers := [0 \<mapsto> build_watcher\<lparr>w_result := Some (Some 1)\<rparr>], bufs := [1 \<mapsto> folder_buf]\<rparr>"

definition build_taken :: lft_state where
  "build_taken = build_done\<lparr>watchers := Map.empty, fsBufMap := [([47, 100], 1)],
     fsBufToFileMap := [1 \<mapsto> [47, 118, 47] @ SERIAL @ [105, 47] @ DOT_lft], fsWatcherMap := [], building_paths := []\<rparr>"

lemma build_uri:
  assumes "mountPointList st = sample_dev_mps"
  shows "path_serial build_os st [47, 100] = Some (SERIAL @ [105, 47])"
    "serial_paths build_os st (SERIAL @ [105, 47]) = [[47, 100]]"
  using sample_uri assms
  by (simp_all add: path_serial_def serial_paths_def build_os_def sample_lft_os_def fromSerialUri_def starts_with_def SERIAL_def
      sample_dm_def sample_dev_def sample_dev_mps_def getRootsByPoints_eq until_nul_def qsize_def join_mount_def)

lemma build_run:
  "addPath build_os build_start [47, 100] False = Some (True, build_running)"
  "job_done build_running 0 (Some folder_buf) = Some build_done"
proof -
  have "mountPointList build_start = sample_dev_mps" by (simp add: build_start_def)
  note u = build_uri[OF this]
  have f: "authorized build_os" "fsWatcherMap build_start = []" "SERIAL \<noteq> []"
    by (simp_all add: build_os_def sample_lft_os_def build_start_def sample_lft_state_def SERIAL_def)
  show "addPath build_os build_start [47, 100] False = Some (True, build_running)"
    using f unfolding addPath_def u
    by (simp add: starts_with_def u new_watcher_def set_watcher_def build_running_def build_watcher_def qinsert_def)
      (simp add: build_start_def sample_lft_state_def Let_def)
  show "job_done build_running 0 (Some folder_buf) = Some build_done"
    by (simp add: job_done_def build_running_def build_done_def put_buf_def set_watcher_def build_watcher_def Let_def)
      (simp add: build_start_def sample_lft_state_def)
qed

lemma build_finished: "onBuildFinished build_os build_done 0 = Some build_taken"
proof -
  define s where "s = build_done\<lparr>fsBufMap := [([47, 100], 1)], fsBufDirtyList := [1], fsWatcherMap := [], building_paths := []\<rparr>"
  define f where "f = [47, 118, 47] @ SERIAL @ [105, 47] @ DOT_lft"
  define t where "t = s\<lparr>fsBufToFileMap := [1 \<mapsto> f], watchers := Map.empty\<rparr>"
  have w: "watchers build_done 0 = Some (build_watcher\<lparr>w_result := Some (Some 1)\<rparr>)" by (simp add: build_done_def)
  have k: "keep_result build_os build_done (build_watcher\<lparr>w_result := Some (Some 1)\<rparr>) (Some 1) = Some True"
    by (simp add: keep_result_def build_watcher_def build_done_def build_running_def qvalue_def)
  have o: "take_over_paths (Some 1) build_done [[47, 100]] = Some s"
    by (simp add: take_over_def drop_old_def s_def end_build_def markLFTFileToDirty_def qinsert_def qremove_def)
      (simp add: build_done_def build_running_def build_start_def sample_lft_state_def)
  have "mountPointList s = sample_dev_mps" by (simp add: s_def build_done_def build_running_def build_start_def)
  then have g: "getLFTFileByPath build_os s [47, 100] False = Some f"
    using build_uri(1) by (simp add: getLFTFileByPath_def f_def build_os_def sample_lft_os_def SERIAL_def)
  have "(building_paths (s\<lparr>fsBufToFileMap := (fsBufToFileMap s)(1 \<mapsto> f), watchers := (watchers s)(0 := None)\<rparr>) = [])"
    "s\<lparr>fsBufToFileMap := (fsBufToFileMap s)(1 \<mapsto> f), watchers := (watchers s)(0 := None)\<rparr> = t"
    by (simp_all add: t_def s_def build_done_def build_running_def build_start_def sample_lft_state_def)
  moreover have "take_over_paths (Some 1) build_done (w_path_list (build_watcher\<lparr>w_result := Some (Some 1)\<rparr>)) = Some s"
    "getLFTFileByPath build_os s (w_path (build_watcher\<lparr>w_result := Some (Some 1)\<rparr>)) (w_auto_index (build_watcher\<lparr>w_result := Some (Some 1)\<rparr>)) = Some f"
    "\<not> w_canceled (build_watcher\<lparr>w_result := Some (Some 1)\<rparr>)" "w_result (build_watcher\<lparr>w_result := Some (Some 1)\<rparr>) = Some (Some 1)"
    using o g by (simp_all add: build_watcher_def)
  ultimately have "onBuildFinished build_os build_done 0 = syncAll build_os t"
    using onBuildFinished_eq[OF w _ _ k] by simp
  also have "syncAll build_os t = Some build_taken"
    by (simp add: syncAll_def sync_def build_os_def sample_lft_os_def cleanDirtyLFTFiles_def t_def s_def f_def
        doLFTFileToDirty_def lft_file_of_def build_taken_def)
      (simp add: build_done_def build_running_def build_start_def sample_lft_state_def SERIAL_def qvalue_def qremove_def)
  finally show ?thesis .
qed

subsection \<open>No pointer dangles\<close>

text \<open>C7: the state of the server.  From the start, through any sequence of handlers that return and of ends of jobs, in
  which every step finds a table of mounts that lists no device twice for a path (\<open>listed_once\<close>; a device that is mounted
  on itself is, and then the claim fails, \<open>listed_twice_dangles\<close>): the maps have one entry for a path, every index they
  name is live, an index that a finished job holds is named by no map and by no other job, and a
  path that is being built leads to a job that has this path.\<close>

theorem lft_reachable_ok:
  assumes "lft_start st0" "(\<lambda>st st'. \<exists>os. listed_once os st \<and> lft_step os st st')\<^sup>*\<^sup>* st0 st"
  shows "lft_ok st"
  using assms(2) by induction (use lft_start_ok[OF assms(1)] lft_step_inv in blast)+

lemma length_paths_of_mounts: "length (paths_of_mounts infos path ms) \<le> length ms"
  by (induction ms) (simp_all add: Let_def)

lemma fromSerialUri_length:
  assumes "\<forall>b\<in>set (blockDevices dm). length (mountPoints b) \<le> 1"
  shows "length (fromSerialUri mps dm uri) \<le> 1"
proof (cases "index_of slash (drop 7 uri)")
  case None
  then show ?thesis by (simp add: fromSerialUri_def)
next
  case (Some n)
  show ?thesis
  proof (cases "find (\<lambda>b. block_id b = take n (drop 7 uri)) (blockDevices dm)")
    case None
    then show ?thesis using Some by (simp add: fromSerialUri_def Let_def)
  next
    case f: (Some b)
    then have "b \<in> set (blockDevices dm)" by (auto simp: find_Some_iff)
    then have "length (mountPoints b) \<le> 1" using assms by blast
    then show ?thesis
      using Some f le_trans[OF length_paths_of_mounts] by (simp add: fromSerialUri_def Let_def)
  qed
qed

lemma build_listed_once: "listed_once build_os st"
proof -
  have "\<forall>b\<in>set (blockDevices (disks build_os)). length (mountPoints b) \<le> 1"
    by (simp add: build_os_def sample_dm_def sample_dev_def)
  then have "length (serial_paths build_os st uri) \<le> 1" for uri st
    unfolding serial_paths_def by (rule fromSerialUri_length)
  moreover have "distinct xs" if "length xs \<le> 1" for xs :: "cstring list"
    using that by (cases xs) auto
  ultimately show ?thesis by (simp add: listed_once_def distinct_paths_def)
qed

theorem lft_reachable_ok_witness:
  "lft_ok build_taken \<and> qvalue (fsBufMap build_taken) [47, 100] = Some 1 \<and> bufs build_taken 1 = Some folder_buf"
proof -
  let ?R = "\<lambda>st st'. \<exists>os. listed_once os st \<and> lft_step os st st'"
  have "lft_step build_os build_start build_running" "lft_step build_os build_running build_done"
    "lft_step build_os build_done build_taken"
    by (rule step_add_path[OF build_run(1)], rule step_job[OF build_run(2)], rule step_finished[OF build_finished])
  then have "?R build_start build_running" "?R build_running build_done" "?R build_done build_taken"
    using build_listed_once by blast+
  from this(3) this(1,2) have "?R\<^sup>*\<^sup>* build_start build_taken"
    by (intro rtranclp.rtrancl_into_rtrancl[OF rtranclp.rtrancl_into_rtrancl[OF rtranclp.rtrancl_into_rtrancl[OF rtranclp.rtrancl_refl]]])
  moreover have "lft_start build_start" by (simp add: lft_start_def build_start_def sample_lft_state_def)
  ultimately show ?thesis
    using lft_reachable_ok by (simp add: build_taken_def build_done_def qvalue_def)
qed

theorem build_taken_over_witness:
  "\<exists>st'. taken_over build_done 0 (build_watcher\<lparr>w_result := Some (Some 1)\<rparr>) 1 ([47, 118, 47] @ SERIAL @ [105, 47] @ DOT_lft) st'"
proof -
  have "lft_ok build_start" by (rule lft_start_ok) (simp add: lft_start_def build_start_def sample_lft_state_def)
  then have i: "lft_ok build_done"
    using build_run build_listed_once addPath_inv job_done_inv unfolding listed_once_def by blast
  have "mountPointList build_done = sample_dev_mps" by (simp add: build_done_def build_running_def build_start_def)
  then have g: "getLFTFileByPath build_os build_done [47, 100] False = Some ([47, 118, 47] @ SERIAL @ [105, 47] @ DOT_lft)"
    using build_uri(1) by (simp add: getLFTFileByPath_def build_os_def sample_lft_os_def SERIAL_def)
  have "watchers build_done 0 = Some (build_watcher\<lparr>w_result := Some (Some 1)\<rparr>)" by (simp add: build_done_def)
  from build_taken_over[OF i this, of 1 build_os] show ?thesis
    using g by (auto simp: build_watcher_def keep_result_def build_done_def build_running_def qvalue_def)
qed

subsection \<open>Where the code goes wrong\<close>

text \<open>A path that is listed twice, as that of a folder that is mounted on itself (\<open>self_bind_listed_twice\<close>):
  at its second turn the new index counts as the old one and is freed, and the map names it all the same.\<close>

lemma listed_twice_dangles:
  assumes "lft_inv X st" "p \<in> dom (bufs st)" "\<And>w. w \<notin> X \<Longrightarrow> \<not> job_of st w p" "qvalue (fsBufMap st) q \<noteq> Some p"
  shows "\<exists>st'. take_over_paths (Some p) st [q, q] = Some st' \<and> qvalue (fsBufMap st') q = Some p \<and> bufs st' p = None"
proof -
  obtain s where s: "take_over (Some p) st q = Some s" "lft_inv X s" "handed_over st p q s"
    using take_over_ok[OF assms] by blast
  let ?s = "end_build s q"
  have m: "qvalue (fsBufMap ?s) q = Some p" using s(3) by (simp add: handed_over_def)
  have i: "lft_inv X ?s" by (rule end_build_inv[OF s(2)])
  have "p \<in> dom (bufs ?s)" using mapped_live[OF i m] by blast
  then obtain r t where t: "removeBuf ?s p False = Some (r, t)" "removed ?s p t" using removeBuf_removed[OF i] by blast
  have "qmap_ok (fsBufMap t)" using t(2) by (simp add: removed_def)
  then show ?thesis using s(1) m t by (simp add: take_over_def drop_old_def qvalue_qinsert removed_def)
qed

text \<open>A build that was canceled ends: whichever job its paths lead to now, they lead to none afterwards.
  The index of a build that was asked for again in between is thrown away.\<close>

lemma canceled_build_takes_entry:
  assumes "onBuildFinished os st w = Some st'" "lft_ok st" "watchers st w = Some wt" "w_canceled wt" "path \<in> set (w_path_list wt)"
  shows "qvalue (fsWatcherMap st') path = None"
proof -
  obtain st2 st3 where s: "take_over_paths None st (w_path_list wt) = Some st2" "name_file os st2 wt None = Some st3"
    "(if building_paths st3 = [] then syncAll os (st3\<lparr>watchers := (watchers st3)(w := None)\<rparr>)
      else Some (st3\<lparr>watchers := (watchers st3)(w := None)\<rparr>)) = Some st'"
    using assms(1)
  proof (rule onBuildFinished_steps)
    fix wt' result keep st1 st2 st3
    assume a: "watchers st w = Some wt'"
      "(if keep then Some st else free_buf st (if \<not> w_canceled wt' then result else None)) = Some st1"
      "take_over_paths (if keep \<and> \<not> w_canceled wt' then result else None) st1 (w_path_list wt') = Some st2"
      "name_file os st2 wt' (if keep \<and> \<not> w_canceled wt' then result else None) = Some st3"
      "(if building_paths st3 = [] then syncAll os (st3\<lparr>watchers := (watchers st3)(w := None)\<rparr>)
      else Some (st3\<lparr>watchers := (watchers st3)(w := None)\<rparr>)) = Some st'"
    have e: "wt' = wt" using a(1) assms(3) by simp
    have "st1 = st" using a(2) assms(4) unfolding e by (simp add: free_buf_def split: if_splits)
    then show ?thesis using a(3-5) assms(4) unfolding e by (intro that[of st2 st3]) simp_all
  qed
  have i: "st2 = fold (\<lambda>p st. end_build st p) (w_path_list wt) st" "st3 = st2"
    using s(1,2) by (simp_all add: take_over_none name_file_def)
  then have n: "qvalue (fsWatcherMap st3) path = None"
    using end_builds_ok[OF assms(2), of "w_path_list wt"] assms(5) by simp
  have f: "fsWatcherMap t' = fsWatcherMap t" if "syncAll os t = Some t'" "lft_inv {w} t" for t t'
    using that sync_inv[of os t "[]" _ _ "{w}"] by (auto simp: syncAll_def cleanDirtyLFTFiles_def Option.bind_eq_Some_conv)
  have l: "lft_inv {w} st3" using end_builds_ok[OF lft_inv_mono[OF assms(2)]] i by simp
  let ?t = "st3\<lparr>watchers := (watchers st3)(w := None)\<rparr>"
  have "qvalue (fsWatcherMap st3) k \<noteq> Some w" for k
    using end_builds_ok[OF assms(2), of "w_path_list wt"] i lft_invD(8)[OF assms(2), of k w] assms(3) by auto
  then have "lft_inv {w} ?t" using drop_watcher_inv[OF l] lft_inv_mono by blast
  then show ?thesis using s(3) n f[of ?t] by (auto split: if_splits)
qed

lemma result_without_entry_dropped:
  "qvalue (fsWatcherMap st) (w_path wt) = None \<Longrightarrow> keep_result os st wt buf = Some False"
  by (simp add: keep_result_def)

text \<open>\<open>cleanAllIndex\<close> for two paths of one build that is not wanted any more: the first turn takes both
  out of the map, and the second calls a method of the null pointer.\<close>

lemma clean_builds_null:
  assumes "lft_ok st" "authorized os" "p \<noteq> q" "qvalue (fsWatcherMap st) p = Some w" "qvalue (fsWatcherMap st) q = Some w"
    and "watchers st w = Some wt" "w_auto_index wt" "allowablePath os st p = Some False"
  shows "clean_builds os [p, q] st = None"
proof -
  let ?m = "qremove p (fsWatcherMap st)"
  have ok: "qmap_ok ?m" using lft_invD(2)[OF assms(1)] by (simp add: qmap_ok_qremove)
  have "qvalue (fold qremove (qkeys w ?m) ?m) q = None"
    using qm.look_del_keys[OF ok, of w] assms(3,5) by (simp add: qvalue_qremove)
  then show ?thesis using assms by (simp add: cancelBuild_def Let_def)
qed

text \<open>The end of the server clears the names of the files first, so that the files of indexes that could not be
  written stay.\<close>

lemma destroy_keeps_files:
  assumes "fsBufToFileMap st = Map.empty"
  shows "lft_files (cleanDirtyLFTFiles st) = lft_files st"
proof -
  have "doLFTFilesToDirty st ps = st" for ps
    using assms by (induction ps) (simp_all add: doLFTFileToDirty_def lft_file_of_def)
  then show ?thesis by (simp add: cleanDirtyLFTFiles_def)
qed

end
