(* ===== verification/Lft_Events.thy ===== *)
theory Lft_Events
  imports Lft_State
begin

text \<open>
  An index under a sequence of events: the forest of the index follows the disk, name by name.
\<close>

subsection \<open>Where an event goes\<close>





subsection \<open>What an event means\<close>

text \<open>\<open>moved\<close>: the node \<open>k\<close> at \<open>src\<close> hangs below the directory of \<open>dst\<close>, under its new name.\<close>

inductive moved :: "cstring \<Rightarrow> node list \<Rightarrow> cstring \<Rightarrow> cstring \<Rightarrow> node list \<Rightarrow> bool" for root ks src where
  "moved root ks src (dir_path root F @ slash # nm) (plug F (ds @ [rename_node nm k]))"
  if "resolve root ks src = Some (Some (At (fs, ls, k, rs)))" "plug fs (ls @ rs) = plug F ds" "F \<noteq> [] \<or> ds \<noteq> []"
    "name_ok nm" "frames_first F" "\<not> has_name nm ds" "root_single root"
    "resolve root ks (dir_path root F @ slash # nm) = Some None" "resolve root ks (dir_path root F) = Some (Some tg)"

text \<open>One event: a new name, a removed name (also one that is not known, or known already), a name that is
  moved to a fresh path, and the renaming of a name that is not known.\<close>

inductive file_event :: "(cstring \<Rightarrow> bool) \<Rightarrow> cstring \<Rightarrow> node list \<Rightarrow> file_action \<Rightarrow> node list \<Rightarrow> bool" for is_dir root ks where
  insert: "ks \<noteq> [] \<Longrightarrow> tree_insert root ks p (is_dir p) = Some (res, ks') \<Longrightarrow> file_event is_dir root ks (INSERT_ACTION, p) ks'"
| remove: "tree_remove root ks p = Some (res, ks') \<Longrightarrow> file_event is_dir root ks (REMOVE_ACTION, p) ks'"
| move: "is_cstr src \<Longrightarrow> starts_with src root \<Longrightarrow> moved root ks src dst ks' \<Longrightarrow> file_event is_dir root ks (src, dst) ks'"
| unknown: "is_cstr src \<Longrightarrow> starts_with src root \<Longrightarrow> resolve root ks src = Some None \<Longrightarrow> file_event is_dir root ks (src, dst) ks"



inductive_cases file_event_cases: "file_event is_dir root ks a ks'"


subsection \<open>The handlers\<close>







subsection \<open>One event, and a sequence\<close>














end
