(* ===== verification/Event_Flow.thy ===== *)
theory Event_Flow
  imports Lft_Events Vfs_Genl
begin

text \<open>
  From the messages of the kernel to the indexes: the thread of \<open>Server::run\<close> (\<open>server.cpp\<close>) receives a message and
  pushes the action, the timer in the main thread takes actions from the queue and changes the indexes
  (\<open>EventAdaptor::onHandleEvent\<close>, \<open>LFTManager::onFileChanged\<close>).  The two threads interleave.
\<close>

subsection \<open>The two threads\<close>

text \<open>One turn of \<open>Server::run\<close>, with the message that arrives.\<close>

definition run_turn :: "(genl_source \<Rightarrow> genl_source) \<Rightarrow> nlattr list \<Rightarrow> genl_source \<Rightarrow> event_adaptor \<Rightarrow>
    (genl_source \<times> event_adaptor) option" where
  "run_turn upd msg g ea = do {
     (event, g) \<leftarrow> getEvent upd (Some msg) g;
     Some (g, case event of None \<Rightarrow> ea | Some (a, s, d) \<Rightarrow> pushEvent ea (server_action a s d)) }"

text \<open>One round of the timer, whose handler is \<open>onFileChanged\<close>.\<close>

definition timer_round :: "lft_os \<Rightarrow> event_adaptor \<Rightarrow> lft_state \<Rightarrow> (event_adaptor \<times> lft_state) option" where
  "timer_round os ea st = do {
     (ea, actions) \<leftarrow> onHandleEvent (\<lambda>path. pathMatchType (mnt_os os) (mountPointList st) path DLNFS) ea;
     st \<leftarrow> onFileChanged os st actions;
     Some (ea, st) }"

text \<open>A state: the messages that are still to come, the source of events, the queue and the server.\<close>

inductive flow_step :: "(genl_source \<Rightarrow> genl_source) \<Rightarrow> lft_os \<Rightarrow>
    nlattr list list \<times> genl_source \<times> event_adaptor \<times> lft_state \<Rightarrow>
    nlattr list list \<times> genl_source \<times> event_adaptor \<times> lft_state \<Rightarrow> bool" for upd os where
  step_receive: "run_turn upd msg g ea = Some (g', ea') \<Longrightarrow> flow_step upd os (msg # msgs, g, ea, st) (msgs, g', ea', st)"
| step_round: "timer_round os ea st = Some (ea', st') \<Longrightarrow> flow_step upd os (msgs, g, ea, st) (msgs, g, ea', st')"

inductive_cases flow_stepE: "flow_step upd os (msgs, g, ea, st) t"

subsection \<open>What the events report\<close>






lemma root_of_new_msg [simp]: "root_of (g\<lparr>new_msg := b\<rparr>) e = root_of g e"
  by (simp add: root_of_def)



subsection \<open>A round of the timer\<close>





subsection \<open>The run\<close>

















end
