(* ===== verification/Lft_Rules.thy ===== *)
theory Lft_Rules
  imports Lft_State Search_Props
begin

text \<open>
  The rules of a search as texts (\<open>src/src/server/backend/lib/lftmanager.cpp\<close>): \<open>"0x"\<close>, two digits for the
  kind of the rule, and its value.  They are written by \<open>search\<close> and by the callers of \<open>parallelsearch\<close>, and
  read by \<open>_getRuleArgs\<close>, \<open>_getRuleStrings\<close> and \<open>_parseRules\<close>.
\<close>

subsection \<open>Texts\<close>

text \<open>\<open>QString::mid\<close> and \<open>left\<close>: positions count UTF-16 units.  A character that is cut in half is dropped.\<close>

fun qdrop :: "nat \<Rightarrow> cstring \<Rightarrow> cstring" where
  "qdrop n [] = []"
| "qdrop n (c # s) = (if n = 0 \<and> \<not> (128 \<le> c \<and> c < 192) then c # s else qdrop (n - qsize [c]) s)"

definition qtake :: "nat \<Rightarrow> cstring \<Rightarrow> cstring" where
  "qtake n s = take (length s - length (qdrop n s)) s"

lemma ascii_byte: "(c :: byte) < 128 \<Longrightarrow> \<not> (128 \<le> c \<and> c < 192) \<and> qsize [c] = 1"
  by (auto simp: qsize_def word_less_nat_alt word_le_nat_alt)

lemma qdrop_ascii: "\<forall>c\<in>set s. c < 128 \<Longrightarrow> qdrop (length s) (s @ t) = qdrop 0 t"
  by (induction s) (use ascii_byte in auto)

lemma qdrop_0: "s = [] \<or> hd s < 128 \<Longrightarrow> qdrop 0 s = s"
  by (cases s) (use ascii_byte in auto)

lemma qsize_append: "qsize (s @ t) = qsize s + qsize t"
  by (simp add: qsize_def)

text \<open>Numbers: \<open>toInt(&ok, 0)\<close> and \<open>toUInt(&ok, 0)\<close>, which take the base from the start of the text; \<open>None\<close> if
  \<open>ok\<close> is false.\<close>

definition digit_val :: "byte \<Rightarrow> nat" where
  "digit_val c = (if 48 \<le> c \<and> c \<le> 57 then unat c - 48
     else if 97 \<le> c \<and> c \<le> 102 then unat c - 87
     else if 65 \<le> c \<and> c \<le> 70 then unat c - 55 else 16)"

fun read_digits :: "nat \<Rightarrow> nat \<Rightarrow> cstring \<Rightarrow> nat option" where
  "read_digits base acc [] = Some acc"
| "read_digits base acc (c # s) =
    (if digit_val c < base then read_digits base (acc * base + digit_val c) s else None)"

definition read_nat :: "cstring \<Rightarrow> nat option" where
  "read_nat s =
    (if take 2 s = [48, 120] \<or> take 2 s = [48, 88] then (if length s = 2 then None else read_digits 16 0 (drop 2 s))
     else if s = [] then None
     else if hd s = 48 then read_digits 8 0 s
     else read_digits 10 0 s)"

definition trimmed :: "cstring \<Rightarrow> cstring" where
  "trimmed s = rev (dropWhile is_space (rev (dropWhile is_space s)))"

definition toInt :: "cstring \<Rightarrow> int option" where
  "toInt s =
    (let s = trimmed s;
         neg = (s \<noteq> [] \<and> hd s = 45);
         s = (if s \<noteq> [] \<and> (hd s = 45 \<or> hd s = 43) then tl s else s)
     in case read_nat s of None \<Rightarrow> None
       | Some n \<Rightarrow> let v = (if neg then - int n else int n)
                  in if - 2147483648 \<le> v \<and> v < 2147483648 then Some v else None)"

definition toUInt :: "cstring \<Rightarrow> u32 option" where
  "toUInt s =
    (let s = trimmed s;
         s = (if s \<noteq> [] \<and> hd s = 43 then tl s else s)
     in case read_nat s of None \<Rightarrow> None
       | Some n \<Rightarrow> if n < 4294967296 then Some (of_nat n) else None)"

text \<open>\<open>QString::arg\<close>: a number in decimal, and the kind of a rule with two digits to the base 16.\<close>

fun decimal_nat :: "nat \<Rightarrow> cstring" where
  "decimal_nat n = (if n < 10 then [of_nat (48 + n)] else decimal_nat (n div 10) @ [of_nat (48 + n mod 10)])"

declare decimal_nat.simps [simp del]

definition decimal :: "int \<Rightarrow> cstring" where
  "decimal v = (if v < 0 then 45 # decimal_nat (nat (- v)) else decimal_nat (nat v))"

definition hex_digit :: "nat \<Rightarrow> byte" where
  "hex_digit n = (if n < 10 then of_nat (48 + n) else of_nat (87 + n))"

definition rule_text :: "byte \<Rightarrow> int \<Rightarrow> cstring" where
  "rule_text f v = [48, 120, hex_digit (unat f div 16), hex_digit (unat f mod 16)] @ decimal v"

subsection \<open>Reading\<close>

definition rule_format :: "cstring \<Rightarrow> bool" where
  "rule_format rule \<longleftrightarrow> \<not> (qsize rule < 4 \<or> \<not> starts_with rule [48, 120])"

fun rule_arg :: "cstring list \<Rightarrow> int \<Rightarrow> u32 option" where
  "rule_arg [] f = None"
| "rule_arg (rule # rules) f =
    (if \<not> rule_format rule then rule_arg rules f
     else if toInt (qtake 4 rule) = Some f then Some (case toUInt (qdrop 4 rule) of None \<Rightarrow> 0 | Some v \<Rightarrow> v)
     else rule_arg rules f)"

text \<open>\<open>None\<close>: the result is false and the value is left alone.\<close>

definition getRuleArgs :: "cstring list \<Rightarrow> byte \<Rightarrow> u32 option" where
  "getRuleArgs rules f = (if f \<ge> RULE_EXCLUDE_SUB_S then None else rule_arg rules (uint f))"

text \<open>The variable of the caller keeps its value \<open>d\<close>.\<close>

definition arg_or :: "cstring list \<Rightarrow> byte \<Rightarrow> u32 \<Rightarrow> u32" where
  "arg_or rules f d = (case getRuleArgs rules f of None \<Rightarrow> d | Some v \<Rightarrow> v)"

text \<open>The result is true if a value was found.\<close>

definition getRuleStrings :: "cstring list \<Rightarrow> byte \<Rightarrow> cstring list" where
  "getRuleStrings rules f =
    (if f < RULE_EXCLUDE_SUB_S then []
     else map (qdrop 4) (filter (\<lambda>rule. rule_format rule \<and> toInt (qtake 4 rule) = Some (uint f)) rules))"

text \<open>The list of the rules for the library.  \<open>latin1\<close> is \<open>toLatin1\<close>; a value that does not fit its 255 bytes
  has no defined result; a failed allocation ends the list.\<close>

fun parse_rules :: "(nat \<Rightarrow> bool) \<Rightarrow> (cstring \<Rightarrow> cstring) \<Rightarrow> cstring list \<Rightarrow> search_rule list option" where
  "parse_rules mal latin1 [] = Some []"
| "parse_rules mal latin1 (rule # rules) =
    (if \<not> rule_format rule then parse_rules mal latin1 rules
     else
       let flag = word_of_int (case toInt (qtake 4 rule) of None \<Rightarrow> 0 | Some v \<Rightarrow> v);
           content = until_nul (latin1 (qdrop 4 rule))
       in if \<not> mal sizeof_search_rule then Some []
          else if length content \<ge> 255 then None
          else do { rs \<leftarrow> parse_rules mal latin1 rules; Some (\<lparr>flag = flag, target = content\<rparr> # rs) })"

text \<open>\<open>_parseRules\<close> as \<open>_doSearch\<close> uses it: the list is null unless its first rule has a kind.\<close>

definition parseRules :: "(nat \<Rightarrow> bool) \<Rightarrow> (cstring \<Rightarrow> cstring) \<Rightarrow> cstring list \<Rightarrow> search_rule list option" where
  "parseRules mal latin1 rules = do {
     rs \<leftarrow> parse_rules mal latin1 rules;
     Some (if rs \<noteq> [] \<and> flag (hd rs) \<noteq> RULE_NONE then rs else []) }"

subsection \<open>Writing\<close>

definition setRulesByDefault :: "cstring list \<Rightarrow> u32 \<Rightarrow> u32 \<Rightarrow> cstring list" where
  "setRulesByDefault rules startOffset endOffset =
    (if getRuleArgs rules RULE_SEARCH_REGX = None then [rule_text RULE_SEARCH_REGX 0] else [])
    @ (if getRuleArgs rules RULE_SEARCH_MAX_COUNT = None then [rule_text RULE_SEARCH_MAX_COUNT (- 1)] else [])
    @ (if getRuleArgs rules RULE_SEARCH_ICASE = None then [rule_text RULE_SEARCH_ICASE 0] else [])
    @ (if getRuleArgs rules RULE_SEARCH_STARTOFF = None then [rule_text RULE_SEARCH_STARTOFF (uint startOffset)] else [])
    @ (if getRuleArgs rules RULE_SEARCH_ENDOFF = None then [rule_text RULE_SEARCH_ENDOFF (uint endOffset)] else [])
    @ rules"

text \<open>The rules that \<open>search\<close> writes for its old arguments.\<close>

definition search_rules :: "int \<Rightarrow> int \<Rightarrow> u32 \<Rightarrow> u32 \<Rightarrow> bool \<Rightarrow> cstring list" where
  "search_rules maxCount ic startOffset endOffset useRegExp =
    [rule_text RULE_SEARCH_REGX (if useRegExp then 1 else 0), rule_text RULE_SEARCH_MAX_COUNT maxCount,
     rule_text RULE_SEARCH_ICASE ic, rule_text RULE_SEARCH_STARTOFF (uint startOffset),
     rule_text RULE_SEARCH_ENDOFF (uint endOffset)]"

subsection \<open>Numbers are read back\<close>

lemma read_digits_append:
  "read_digits base acc (s @ t) = (case read_digits base acc s of None \<Rightarrow> None | Some v \<Rightarrow> read_digits base v t)"
  by (induction base acc s rule: read_digits.induct) auto

lemma unat_digit: "n < 10 \<Longrightarrow> unat (of_nat (48 + n) :: byte) = 48 + n"
  by (simp add: unat_of_nat del: of_nat_add)

lemma digit_val_digit: "n < 10 \<Longrightarrow> digit_val (of_nat (48 + n)) = n"
  unfolding digit_val_def word_le_nat_alt unat_digit by simp

lemma read_decimal: "read_digits 10 0 (decimal_nat n) = Some n"
proof (induction n rule: decimal_nat.induct)
  case (1 n)
  show ?case
  proof (cases "n < 10")
    case True
    then show ?thesis by (simp add: decimal_nat.simps digit_val_digit del: of_nat_add)
  next
    case False
    have "digit_val (of_nat (48 + n mod 10)) = n mod 10" by (rule digit_val_digit) simp
    then show ?thesis
      using 1 False by (subst decimal_nat.simps) (simp add: read_digits_append del: of_nat_add)
  qed
qed

text \<open>The characters of a number.\<close>

lemma decimal_nat_digits: "c \<in> set (decimal_nat n) \<Longrightarrow> 48 \<le> c \<and> c \<le> 57"
proof (induction n rule: decimal_nat.induct)
  case (1 n)
  have d: "48 \<le> (of_nat (48 + k) :: byte) \<and> (of_nat (48 + k) :: byte) \<le> 57" if "k < 10" for k
    using that unfolding word_le_nat_alt unat_digit[OF that] by simp
  show ?case
    using 1 d[of n] d[of "n mod 10"]
    by (subst (asm) (2) decimal_nat.simps) (auto split: if_splits simp del: of_nat_add)
qed

lemma decimal_nat_ne: "decimal_nat n \<noteq> []"
  by (subst decimal_nat.simps) simp

lemma decimal_nat_hd: "0 < n \<Longrightarrow> hd (decimal_nat n) \<noteq> 48"
proof (induction n rule: decimal_nat.induct)
  case (1 n)
  show ?case
  proof (cases "n < 10")
    case True
    then have "unat (of_nat (48 + n) :: byte) \<noteq> 48" using 1(2) unat_digit by simp
    then have "(of_nat (48 + n) :: byte) \<noteq> 48" by auto
    then show ?thesis using True by (subst decimal_nat.simps) (simp del: of_nat_add)
  next
    case False
    then have "hd (decimal_nat (n div 10)) \<noteq> 48" using 1(1) by (simp add: div_greater_zero_iff)
    then show ?thesis using False decimal_nat_ne by (subst decimal_nat.simps) simp
  qed
qed

lemma read_nat_decimal: "read_nat (decimal_nat n) = Some n"
proof (cases "n = 0")
  case True
  then show ?thesis by (simp add: decimal_nat.simps read_nat_def digit_val_def)
next
  case False
  have "c \<noteq> 120 \<and> c \<noteq> 88" if "c \<in> set (decimal_nat n)" for c
    using decimal_nat_digits[OF that] by (auto simp: word_le_nat_alt)
  then have "take 2 (decimal_nat n) \<noteq> [48, 120]" "take 2 (decimal_nat n) \<noteq> [48, 88]"
    by (metis in_set_takeD list.set_intros(1) list.set_intros(2))+
  then show ?thesis
    using False decimal_nat_hd[of n] decimal_nat_ne[of n] read_decimal[of n] by (simp add: read_nat_def)
qed

lemma trimmed_id:
  assumes "s \<noteq> []" "\<not> is_space (hd s)" "\<not> is_space (last s)"
  shows "trimmed s = s"
proof -
  have "dropWhile is_space s = s" using assms by (cases s) auto
  moreover have "dropWhile is_space (rev s) = rev s" using assms by (cases "rev s") (auto simp: hd_rev[symmetric])
  ultimately show ?thesis by (simp add: trimmed_def)
qed

lemma digit_no_space: "48 \<le> c \<Longrightarrow> c \<le> 57 \<Longrightarrow> \<not> is_space c \<and> c \<noteq> 45 \<and> c \<noteq> 43 \<and> c < 128"
  by (auto simp: is_space_def word_le_nat_alt word_less_nat_alt)

lemma decimal_nat_chars:
  "c \<in> set (decimal_nat n) \<Longrightarrow> \<not> is_space c \<and> c \<noteq> 45 \<and> c \<noteq> 43 \<and> c < 128"
  using decimal_nat_digits digit_no_space by blast

lemma toUInt_decimal: "toUInt (decimal (uint (v :: u32))) = Some v"
proof -
  let ?s = "decimal_nat (unat v)"
  have c: "hd ?s \<in> set ?s" "last ?s \<in> set ?s" using decimal_nat_ne by simp_all
  have "trimmed ?s = ?s" using decimal_nat_ne decimal_nat_chars[OF c(1)] decimal_nat_chars[OF c(2)] by (intro trimmed_id) auto
  moreover have "decimal (uint v) = ?s" by (simp add: decimal_def)
  ultimately show ?thesis
    using decimal_nat_chars[OF c(1)] unsigned_less[of v, where 'a = nat] by (simp add: toUInt_def read_nat_decimal)
qed

lemma toUInt_minus: "toUInt (decimal (- 1)) = None"
  by (simp add: decimal_def decimal_nat.simps toUInt_def trimmed_def is_space_def read_nat_def digit_val_def)

lemma hex_digits_read:
  assumes "n < 16"
  shows "digit_val (hex_digit n) = n \<and> hex_digit n < 128 \<and> \<not> is_space (hex_digit n)"
proof -
  have "list_all (\<lambda>n. digit_val (hex_digit n) = n \<and> hex_digit n < 128 \<and> \<not> is_space (hex_digit n)) [0..<16]" by code_simp
  then show ?thesis using assms by (simp add: list_all_iff)
qed

lemma toInt_flag:
  fixes f :: byte
  shows "toInt [48, 120, hex_digit (unat f div 16), hex_digit (unat f mod 16)] = Some (uint f)"
proof -
  have lt: "unat f < 256" using unsigned_less[of f, where 'a = nat] by simp
  let ?a = "unat f div 16" and ?b = "unat f mod 16"
  note a = hex_digits_read[of ?a] and b = hex_digits_read[of ?b]
  have "?a < 16" using lt by simp
  then have ab: "digit_val (hex_digit ?a) = ?a" "digit_val (hex_digit ?b) = ?b" "\<not> is_space (hex_digit ?b)" using a b by auto
  have "trimmed [48, 120, hex_digit ?a, hex_digit ?b] = [48, 120, hex_digit ?a, hex_digit ?b]"
    using ab(3) by (intro trimmed_id) (simp_all add: is_space_def)
  moreover have "read_nat [48, 120, hex_digit ?a, hex_digit ?b] = Some (unat f)"
    using ab \<open>?a < 16\<close> by (simp add: read_nat_def)
  moreover have "0 \<le> uint f" "uint f < 256" using unsigned_less[of f, where 'a = int] by simp_all
  moreover from this have "- 2147483648 \<le> uint f" "uint f < 2147483648" by linarith+
  ultimately show ?thesis unfolding toInt_def Let_def by simp
qed

subsection \<open>Rules are read back\<close>

lemma decimal_hd: "hd (decimal v) < 128" "decimal v \<noteq> []"
proof -
  have h: "hd (decimal_nat n) \<in> set (decimal_nat n)" for n using decimal_nat_ne by simp
  show "decimal v \<noteq> []" using decimal_nat_ne by (simp add: decimal_def)
  show "hd (decimal v) < 128" using decimal_nat_chars[OF h] by (simp add: decimal_def)
qed

lemma rule_text_parts:
  "rule_format (rule_text f v)"
  "qtake 4 (rule_text f v) = [48, 120, hex_digit (unat f div 16), hex_digit (unat f mod 16)]"
  "qdrop 4 (rule_text f v) = decimal v"
proof -
  define h where "h = [48, 120, hex_digit (unat f div 16), hex_digit (unat f mod 16)]"
  have "unat f < 256" using unsigned_less[of f, where 'a = nat] by simp
  then have lt: "unat f div 16 < 16" "unat f mod 16 < 16" by auto
  have a: "\<forall>c\<in>set h. c < 128" using hex_digits_read[OF lt(1)] hex_digits_read[OF lt(2)] by (simp add: h_def)
  have t: "rule_text f v = h @ decimal v" "length h = 4" "take (Suc (Suc 0)) h = [48, 120]" by (simp_all add: rule_text_def h_def)
  have "qdrop 4 (h @ decimal v) = qdrop 0 (decimal v)" using qdrop_ascii[OF a, of "decimal v"] unfolding t(2) .
  then show d: "qdrop 4 (rule_text f v) = decimal v" using qdrop_0[of "decimal v"] decimal_hd unfolding t(1) by simp
  show "qtake 4 (rule_text f v) = [48, 120, hex_digit (unat f div 16), hex_digit (unat f mod 16)]"
    unfolding qtake_def d unfolding t(1) h_def[symmetric] using t(2) by simp
  have "qsize h = 4" using qsize_ascii[OF a] t(2) by simp
  then show "rule_format (rule_text f v)" using t by (simp add: rule_format_def starts_with_def qsize_append)
qed

lemma toInt_rule_text: "toInt (qtake 4 (rule_text f v)) = Some (uint f)"
  unfolding rule_text_parts(2) by (rule toInt_flag)

lemma rule_arg_text:
  "rule_arg (rule_text f v # rules) g =
    (if uint f = g then Some (case toUInt (decimal v) of None \<Rightarrow> 0 | Some v \<Rightarrow> v) else rule_arg rules g)"
  using rule_text_parts[of f v] toInt_flag[of f] by simp

lemma rule_arg_append:
  "rule_arg (xs @ ys) f = (case rule_arg xs f of None \<Rightarrow> rule_arg ys f | Some v \<Rightarrow> Some v)"
  by (induction xs) auto

text \<open>C29: the defaults of \<open>parallelsearch\<close>.  After \<open>_setRulesByDefault\<close> every option of a search has a value
  that \<open>_getRuleArgs\<close> reads back: that of the caller if he gave one, else no regular expression, no limit,
  the case of the letters counts, and the offsets that were passed.\<close>

theorem rule_defaults:
  "getRuleArgs (setRulesByDefault rules s e) RULE_SEARCH_REGX = Some (arg_or rules RULE_SEARCH_REGX 0)
   \<and> getRuleArgs (setRulesByDefault rules s e) RULE_SEARCH_MAX_COUNT = Some (arg_or rules RULE_SEARCH_MAX_COUNT 0)
   \<and> getRuleArgs (setRulesByDefault rules s e) RULE_SEARCH_ICASE = Some (arg_or rules RULE_SEARCH_ICASE 0)
   \<and> getRuleArgs (setRulesByDefault rules s e) RULE_SEARCH_STARTOFF = Some (arg_or rules RULE_SEARCH_STARTOFF s)
   \<and> getRuleArgs (setRulesByDefault rules s e) RULE_SEARCH_ENDOFF = Some (arg_or rules RULE_SEARCH_ENDOFF e)"
proof (intro conjI)
  have z: "toUInt (decimal 0) = Some 0" using toUInt_decimal[of 0] by simp
  have n: "\<not> (64 :: byte) \<le> 1" by (simp add: word_le_nat_alt)
  note s = getRuleArgs_def setRulesByDefault_def rule_arg_append rule_arg_text toUInt_decimal toUInt_minus z n
  let ?r = "setRulesByDefault rules s e"
  show "getRuleArgs ?r RULE_SEARCH_REGX = Some (arg_or rules RULE_SEARCH_REGX 0)"
    unfolding arg_or_def by (cases "rule_arg rules 1") (simp_all add: s del: rule_arg.simps(2))
  show "getRuleArgs ?r RULE_SEARCH_MAX_COUNT = Some (arg_or rules RULE_SEARCH_MAX_COUNT 0)"
    unfolding arg_or_def by (cases "rule_arg rules 2") (simp_all add: s del: rule_arg.simps(2))
  show "getRuleArgs ?r RULE_SEARCH_ICASE = Some (arg_or rules RULE_SEARCH_ICASE 0)"
    unfolding arg_or_def by (cases "rule_arg rules 3") (simp_all add: s del: rule_arg.simps(2))
  show "getRuleArgs ?r RULE_SEARCH_STARTOFF = Some (arg_or rules RULE_SEARCH_STARTOFF s)"
    unfolding arg_or_def by (cases "rule_arg rules 4") (simp_all add: s del: rule_arg.simps(2))
  show "getRuleArgs ?r RULE_SEARCH_ENDOFF = Some (arg_or rules RULE_SEARCH_ENDOFF e)"
    unfolding arg_or_def by (cases "rule_arg rules 5") (simp_all add: s del: rule_arg.simps(2))
qed

subsection \<open>The rules of \<open>search\<close>\<close>

lemma digits_value_append: "digits_value acc (s @ t) = digits_value (digits_value acc s) t"
  by (induction acc s rule: digits_value.induct) auto

lemma uint_digit: "n < 10 \<Longrightarrow> uint (of_nat (48 + n) :: byte) = int (48 + n)"
  using unat_digit[of n] by (simp add: uint_nat del: of_nat_add)

lemma digits_value_decimal: "digits_value 0 (decimal_nat n) = int n"
proof (induction n rule: decimal_nat.induct)
  case (1 n)
  show ?case
  proof (cases "n < 10")
    case True
    then show ?thesis by (subst decimal_nat.simps) (simp add: uint_digit del: of_nat_add)
  next
    case False
    have "uint (of_nat (48 + n mod 10) :: byte) = int (48 + n mod 10)" by (rule uint_digit) simp
    moreover have "10 * int (n div 10) + int (n mod 10) = int n" by presburger
    ultimately show ?thesis
      using 1 False by (subst decimal_nat.simps) (simp add: digits_value_append del: of_nat_add)
  qed
qed

lemma decimal_nat_length: "n < 10 ^ Suc k \<Longrightarrow> length (decimal_nat n) \<le> Suc k"
proof (induction k arbitrary: n)
  case (Suc k)
  show ?case
  proof (cases "n < 10")
    case False
    have "n div 10 < 10 ^ Suc k" using Suc.prems by (simp add: less_mult_imp_div_less mult.commute)
    then show ?thesis using Suc.IH False by (subst decimal_nat.simps) simp
  qed (subst decimal_nat.simps, simp)
qed (simp add: decimal_nat.simps)

lemma atoi_decimal:
  assumes "- 2147483648 \<le> v" "v < 2147483648"
  shows "atoi (decimal v) = Some v"
proof -
  have h: "hd (decimal_nat n) \<in> set (decimal_nat n)" for n using decimal_nat_ne by simp
  have d: "takeWhile is_digit (decimal_nat n) = decimal_nat n" for n
    using decimal_nat_digits by (simp add: takeWhile_eq_all_conv is_digit_def)
  have sp: "dropWhile is_space (decimal_nat n) = decimal_nat n" for n
    using decimal_nat_chars[OF h[of n]] decimal_nat_ne[of n] by (cases "decimal_nat n") auto
  have sg: "hd (decimal_nat n) \<noteq> 45" "hd (decimal_nat n) \<noteq> 43" for n using decimal_nat_chars[OF h] by auto
  show ?thesis
  proof (cases "v < 0")
    case True
    have "\<not> is_space 45" by (simp add: is_space_def)
    then show ?thesis using True assms by (simp add: atoi_def decimal_def d digits_value_decimal Let_def)
  next
    case False
    then show ?thesis using assms by (simp add: atoi_def decimal_def d sp sg digits_value_decimal Let_def)
  qed
qed

lemma decimal_plain:
  assumes "\<bar>v\<bar> < 10000000000"
  shows "until_nul (decimal v) = decimal v" "length (decimal v) < 255" "\<forall>c\<in>set (decimal v). c < 128"
proof -
  have "0 \<notin> set (decimal v)" using decimal_nat_digits[of 0] by (auto simp: decimal_def word_le_nat_alt)
  then show "until_nul (decimal v) = decimal v" using until_nul_append by blast
  show "\<forall>c\<in>set (decimal v). c < 128" using decimal_nat_chars by (auto simp: decimal_def)
  have "nat \<bar>v\<bar> < 10 ^ Suc 9" using assms by simp
  from decimal_nat_length[OF this] show "length (decimal v) < 255" by (cases "v < 0") (simp_all add: decimal_def)
qed

text \<open>What the caller of \<open>search\<close> asks for reaches the library: the rules that \<open>_parseRules\<close> makes are options, and
  \<open>parallelsearch_files\<close> reads them as the arguments.\<close>

lemma search_rules_options:
  assumes "mal sizeof_search_rule" "\<And>s. \<forall>c\<in>set s. c < 128 \<Longrightarrow> latin1 s = s"
    and "- 2147483648 \<le> maxCount" "maxCount < 2147483648" "- 2147483648 \<le> ic" "ic < 2147483648"
  shows "\<exists>rs. parseRules mal latin1 (search_rules maxCount ic s e re) = Some rs \<and> rs \<noteq> [] \<and> only_options rs
    \<and> search_options rs q = Some \<lparr>is_reg = (re \<and> is_regex q),
        opt_query = \<lparr>query = q, icase = (ic > 0), lang_pinyin = False\<rparr>, opt_max = maxCount\<rparr>"
proof -
  let ?m = "\<lambda>f v. \<lparr>flag = f, target = decimal v\<rparr>"
  let ?rs = "[?m 1 (if re then 1 else 0), ?m 2 maxCount, ?m 3 ic, ?m 4 (uint s), ?m 5 (uint e)]"
  have one: "parse_rules mal latin1 (rule_text f v # rules)
      = (case parse_rules mal latin1 rules of None \<Rightarrow> None | Some rs \<Rightarrow> Some (?m f v # rs))" if "\<bar>v\<bar> < 10000000000" for f v rules
    using rule_text_parts[of f v] toInt_flag[of f] decimal_plain[OF that] assms(1,2) by (simp add: Let_def split: option.splits)
  have u: "\<bar>uint (x :: u32)\<bar> < 10000000000" for x using unsigned_less[of x, where 'a = int] by simp
  have b: "\<bar>maxCount\<bar> < 10000000000" "\<bar>ic\<bar> < 10000000000" "\<bar>if re then 1 else 0 :: int\<bar> < 10000000000"
    using assms(3-6) by auto
  have "parse_rules mal latin1 (search_rules maxCount ic s e re) = Some ?rs"
    unfolding search_rules_def by (simp only: one[OF b(1)] one[OF b(2)] one[OF b(3)] one[OF u] parse_rules.simps(1) option.case)
  then have "parseRules mal latin1 (search_rules maxCount ic s e re) = Some ?rs" by (simp add: parseRules_def)
  moreover have "only_options ?rs" by (simp add: only_options_def rule_class_def)
  moreover have "search_options ?rs q = Some \<lparr>is_reg = (re \<and> is_regex q),
        opt_query = \<lparr>query = q, icase = (ic > 0), lang_pinyin = False\<rparr>, opt_max = maxCount\<rparr>"
  proof -
    have a: "atoi (decimal (if re then 1 else 0)) = Some (if re then 1 else 0)" "atoi (decimal maxCount) = Some maxCount"
      "atoi (decimal ic) = Some ic" "atoi [48] = Some 0"
      using assms(3-6) by (simp_all add: atoi_decimal) (simp add: atoi_def is_space_def is_digit_def)
    have "get_rule_value ?rs 1 = decimal (if re then 1 else 0)" "get_rule_value ?rs 2 = decimal maxCount"
      "get_rule_value ?rs 3 = decimal ic" "get_rule_value ?rs 6 = [48]"
      by (simp_all add: get_rule_value_def)
    then show ?thesis unfolding search_options_def by (simp only: a Option.bind_lunit) (simp split: if_splits)
  qed
  ultimately show ?thesis by blast
qed

end
