(* ===== verification/Lft_Search.thy ===== *)
theory Lft_Search
  imports Lft_Rules
begin

text \<open>
  A search (\<open>_prepareBuf\<close>, \<open>_doSearch\<close>, \<open>_enterSearch\<close>, \<open>search\<close> and \<open>parallelsearch\<close> of
  \<open>src/src/server/backend/lib/lftmanager.cpp\<close>): the buffer and the range of a folder, the repeated calls of
  the library until enough results are there or the time is over, and the paths of the results.
\<close>

subsection \<open>Surroundings\<close>

text \<open>The allocator, pinyin and regular expressions, the number of threads of the pool, \<open>toLatin1\<close>,
  \<open>find_matching_dir_by_cache\<close>, the content of a variable that is not initialised, and the clock: whether the
  time is over at the n-th look.\<close>

record search_env =
  se_mal :: "nat \<Rightarrow> bool"
  se_pinyin :: "cstring \<Rightarrow> cstring option"
  se_regex :: "cstring \<Rightarrow> (cstring \<Rightarrow> bool) option"
  se_pool :: u32
  se_latin1 :: "cstring \<Rightarrow> cstring"
  se_find_dir :: "cstring \<Rightarrow> cstring \<Rightarrow> cstring option"
  se_junk :: u32
  se_timeout :: "nat \<Rightarrow> bool"

definition env_search :: "search_env \<Rightarrow> fs_buf \<Rightarrow> u32 \<Rightarrow> u32 \<Rightarrow> u32 \<Rightarrow> search_rule list \<Rightarrow> cstring \<Rightarrow>
    (u32 list \<times> u32 \<times> u32 \<times> fs_buf) option" where
  "env_search env b st en cnt rule q =
    parallelsearch_files (se_mal env) (se_pinyin env) (se_regex env) (se_pool env) b st en cnt rule q"

subsection \<open>The buffer and the range\<close>

datatype SearchError = SE_SUCCESS | SE_NOFOUND_INDEX | SE_BUILDING_INDEX | SE_EMPTY_DIR

text \<open>\<open>start_off\<close> has no value when the path is not in the index.\<close>

definition prepareBuf :: "lft_os \<Rightarrow> search_env \<Rightarrow> lft_state \<Rightarrow> u32 \<Rightarrow> u32 \<Rightarrow> cstring \<Rightarrow>
    (SearchError \<times> u32 \<times> u32 \<times> cstring \<times> buf_ptr option) option" where
  "prepareBuf os env st startOffset endOffset path = do {
     (newpath, buf) \<leftarrow> getFsBufByPath os st path;
     if newpath = [] then Some (SE_NOFOUND_INDEX, startOffset, endOffset, [], None)
     else case buf of
       None \<Rightarrow> Some (SE_BUILDING_INDEX, startOffset, endOffset, [], None)
     | Some p \<Rightarrow> do {
         b \<leftarrow> bufs st p;
         (s, e) \<leftarrow> (if startOffset = 0 \<or> endOffset = 0 then do {
             (_, s, e, _) \<leftarrow> get_path_range b newpath (se_junk env) 0;
             Some (s, e) }
           else Some (startOffset, endOffset));
         Some (if s = 0 then (SE_EMPTY_DIR, s, e, newpath, None) else (SE_SUCCESS, s, e, newpath, Some p)) } }"

subsection \<open>The search\<close>

definition DEFAULT_RESULT_COUNT :: u32 where "DEFAULT_RESULT_COUNT = 100"

text \<open>The path of a name, in a buffer of \<open>PATH_MAX\<close> bytes.\<close>

definition name_path_at :: "fs_buf \<Rightarrow> u32 \<Rightarrow> cstring option" where
  "name_path_at b off = do {
     (buf, dst, _) \<leftarrow> get_path_by_name_off b off (replicate 4096 0) 4096;
     cstr_at buf (nat dst) }"

definition should_filter :: "fs_buf \<Rightarrow> nat \<Rightarrow> cstring list \<Rightarrow> u32 \<Rightarrow> bool option" where
  "should_filter b path_len excludeStartStrs off =
    (if excludeStartStrs = [] then Some False
     else do {
       name_path \<leftarrow> name_path_at b off;
       let origin_path = qdrop path_len name_path;
       Some (list_ex (\<lambda>s. strstr origin_path (slash # s) \<noteq> None) excludeStartStrs) })"

text \<open>The loop over the offsets of one call: the results, the next start, the total.\<close>

fun collect :: "fs_buf \<Rightarrow> nat \<Rightarrow> cstring list \<Rightarrow> u32 \<Rightarrow> u32 \<Rightarrow> u32 \<Rightarrow> u32 list \<Rightarrow> u32 list \<Rightarrow> u32 \<Rightarrow> u32 \<Rightarrow>
    (u32 list \<times> u32 \<times> u32) option" where
  "collect b plen excl maxCount req en [] results start tot = Some (results, start, tot)"
| "collect b plen excl maxCount req en (off # offs) results start tot =
    (if off \<ge> en then collect b plen excl maxCount req en offs results start (tot - 1)
     else if of_nat (length results) \<ge> req then Some (results, off, if maxCount > 0 then req else tot)
     else do {
       filt \<leftarrow> should_filter b plen excl off;
       if filt then collect b plen excl maxCount req en offs results start (tot - 1)
       else collect b plen excl maxCount req en offs (results @ [off]) start tot })"

text \<open>One turn of the loop: the next start, whether there is another turn, the results and the total.  An offset
  that the library did not write has no value.\<close>

definition search_turn :: "search_env \<Rightarrow> fs_buf \<Rightarrow> nat \<Rightarrow> cstring list \<Rightarrow> search_rule list \<Rightarrow> cstring \<Rightarrow> u32 \<Rightarrow> u32 \<Rightarrow> u32 \<Rightarrow>
    u32 \<Rightarrow> u32 list \<Rightarrow> u32 \<Rightarrow> (fs_buf \<times> u32 \<times> bool \<times> u32 list \<times> u32) option" where
  "search_turn env b plen excl rule q mx req en start results tot = do {
     (offs, cnt, start, b) \<leftarrow> env_search env b start en req rule q;
     let mincount = min req cnt;
     if length offs < unat mincount then None
     else do {
       (results, start, tot) \<leftarrow> collect b plen excl mx req en (take (unat mincount) offs) results start (tot + cnt);
       (start, nxt) \<leftarrow> (if mincount > 0 then
           if req > of_nat (length results) then do {
             start \<leftarrow> next_name b (offs ! (unat mincount - 1)); Some (start, True) }
           else do {
             start \<leftarrow> (if start = en then next_name b (offs ! (unat mincount - 1)) else Some start);
             Some (start, False) }
         else Some (start, start < en));
       Some (b, start, nxt, results, tot) } }"

text \<open>\<open>n\<close> counts the looks at the clock.\<close>

partial_function (option) search_loop :: "search_env \<Rightarrow> fs_buf \<Rightarrow> nat \<Rightarrow> cstring list \<Rightarrow> search_rule list \<Rightarrow> cstring \<Rightarrow>
    u32 \<Rightarrow> u32 \<Rightarrow> u32 \<Rightarrow> nat \<Rightarrow> u32 \<Rightarrow> u32 list \<Rightarrow> u32 \<Rightarrow> (u32 \<times> u32 \<times> u32 list) option" where
  "search_loop env b plen excl rule q maxCount req en n start results tot = do {
     (b, start, nxt, results, tot) \<leftarrow> search_turn env b plen excl rule q maxCount req en start results tot;
     if nxt \<and> se_timeout env n then Some (of_nat (length results), start, results)
     else if nxt then search_loop env b plen excl rule q maxCount req en (n + 1) start results tot
     else Some (tot, start, results) }"

text \<open>The total, the offset to go on from, and the results.\<close>

definition doSearch :: "search_env \<Rightarrow> fs_buf \<Rightarrow> u32 \<Rightarrow> cstring \<Rightarrow> cstring \<Rightarrow> u32 \<Rightarrow> u32 \<Rightarrow> cstring list \<Rightarrow>
    (u32 \<times> u32 \<times> u32 list) option" where
  "doSearch env b maxCount path keyword startOffset endOffset rules = do {
     rule \<leftarrow> (if rules = [] then Some [] else parseRules (se_mal env) (se_latin1 env) rules);
     let req_count = (if maxCount > 0 then maxCount else DEFAULT_RESULT_COUNT);
     if \<not> se_mal env (unat req_count * 4) then Some (0, startOffset, [])
     else search_loop env b (qsize path) (getRuleStrings rules RULE_EXCLUDE_SUB_S) rule keyword maxCount req_count
       endOffset 0 startOffset [] 0 }"

text \<open>The paths, and the offsets that are returned if there was a search.\<close>

definition result_path :: "fs_buf \<Rightarrow> cstring \<Rightarrow> cstring \<Rightarrow> u32 \<Rightarrow> cstring option" where
  "result_path b path newpath off = do {
     origin_path \<leftarrow> name_path_at b off;
     Some (if path \<noteq> newpath then path @ qdrop (qsize newpath) origin_path else origin_path) }"

fun result_paths :: "fs_buf \<Rightarrow> cstring \<Rightarrow> cstring \<Rightarrow> u32 list \<Rightarrow> cstring list option" where
  "result_paths b path newpath [] = Some []"
| "result_paths b path newpath (off # offs) = do {
     p \<leftarrow> result_path b path newpath off;
     ps \<leftarrow> result_paths b path newpath offs;
     Some (p # ps) }"

definition search_path :: "search_env \<Rightarrow> lft_state \<Rightarrow> cstring \<Rightarrow> cstring" where
  "search_path env st opath =
    (let path = (if length opath > 1 \<and> ends_with opath [slash] then butlast opath else opath)
     in convertPathIntoMountPoint (se_find_dir env) (allPath st) path)"

definition enterSearch :: "lft_os \<Rightarrow> search_env \<Rightarrow> lft_state \<Rightarrow> cstring \<Rightarrow> cstring \<Rightarrow> cstring list \<Rightarrow>
    (cstring list \<times> (u32 \<times> u32) option) option" where
  "enterSearch os env st opath keyword rules = do {
     let maxCount = arg_or rules RULE_SEARCH_MAX_COUNT 0;
     let path = search_path env st opath;
     (r, startOffset, endOffset, newpath, buf) \<leftarrow>
       prepareBuf os env st (arg_or rules RULE_SEARCH_STARTOFF 0) (arg_or rules RULE_SEARCH_ENDOFF 0) path;
     case buf of None \<Rightarrow> Some ([], None)
     | Some p \<Rightarrow> do {
         b \<leftarrow> bufs st p;
         (tot, start, results) \<leftarrow> doSearch env b maxCount path keyword startOffset endOffset rules;
         paths \<leftarrow> result_paths b path newpath results;
         Some (paths, Some (start, endOffset)) } }"

definition search :: "lft_os \<Rightarrow> search_env \<Rightarrow> lft_state \<Rightarrow> int \<Rightarrow> int \<Rightarrow> u32 \<Rightarrow> u32 \<Rightarrow> cstring \<Rightarrow> cstring \<Rightarrow> bool \<Rightarrow>
    (cstring list \<times> (u32 \<times> u32) option) option" where
  "search os env st maxCount ic startOffset endOffset path keyword useRegExp =
    enterSearch os env st path keyword (search_rules maxCount ic startOffset endOffset useRegExp)"

definition parallelsearch :: "lft_os \<Rightarrow> search_env \<Rightarrow> lft_state \<Rightarrow> cstring \<Rightarrow> u32 \<Rightarrow> u32 \<Rightarrow> cstring \<Rightarrow> cstring list \<Rightarrow>
    (cstring list \<times> (u32 \<times> u32) option) option" where
  "parallelsearch os env st path startOffset endOffset keyword rules =
    enterSearch os env st path keyword (setRulesByDefault rules startOffset endOffset)"

end
