(* ===== verification/Lft_Search_Claims.thy ===== *)
theory Lft_Search_Claims
  imports Lft_Search Search_Claims
begin

text \<open>
  What a search of the server returns: never more than was asked for, never behind the range; and for the
  folder of an index the paths of the first matches below it.
\<close>

subsection \<open>Bounds\<close>

definition results_ok :: "u32 \<Rightarrow> u32 \<Rightarrow> u32 list \<Rightarrow> bool" where
  "results_ok req en rs \<longleftrightarrow> length rs \<le> unat req \<and> (\<forall>x\<in>set rs. x < en)"

lemma collect_ok:
  assumes "collect b plen excl mx req en offs rs st tt = Some (rs', st', tt')" "results_ok req en rs"
  shows "results_ok req en rs' \<and> set rs' \<subseteq> set rs \<union> set offs"
  using assms
proof (induction offs arbitrary: rs tt)
  case (Cons off offs)
  show ?case
  proof (cases "off \<ge> en")
    case True
    then show ?thesis using Cons.IH[of rs "tt - 1"] Cons.prems by auto
  next
    case lt: False
    show ?thesis
    proof (cases "of_nat (length rs) \<ge> req")
      case True
      then show ?thesis using Cons.prems lt by auto
    next
      case False
      then obtain filt where f: "should_filter b plen excl off = Some filt"
        using Cons.prems(1) lt by (auto simp: Option.bind_eq_Some_conv)
      have "length rs < 4294967296" using Cons.prems(2) unsigned_less[of req, where 'a = nat] by (simp add: results_ok_def)
      then have "length rs < unat req" using False by (simp add: word_le_nat_alt unat_of_nat32)
      then have ok: "results_ok req en (rs @ [off])" using Cons.prems(2) lt by (auto simp: results_ok_def)
      show ?thesis
        using Cons.IH[of rs "tt - 1"] Cons.IH[OF _ ok, of tt] Cons.prems lt False f by (cases filt) auto
    qed
  qed
qed simp

lemma search_turn_ok:
  assumes "search_turn env b plen excl rule q mx req en st rs tt = Some (b', st', nxt, rs', tt')" "results_ok req en rs"
  shows "results_ok req en rs'"
proof -
  obtain offs cnt st1 m rs1 st2 tt2 where c: "collect m plen excl mx req en (take (unat (min req cnt)) offs) rs st1 (tt + cnt)
      = Some (rs1, st2, tt2)" "rs' = rs1"
    using assms(1) unfolding search_turn_def Let_def
    by (auto simp: Option.bind_eq_Some_conv split: if_split_asm)
  then show ?thesis using collect_ok assms(2) by blast
qed

lemma search_loop_ok:
  assumes "search_loop env b plen excl rule q mx req en n st rs tt = Some r" "results_ok req en rs"
  shows "results_ok req en (snd (snd r))"
  using assms
proof (induction rule: search_loop.raw_induct[rotated, consumes 1, case_names 1])
  case (1 loop env b plen excl rule q mx req en n st rs tt r)
  obtain b' st' nxt rs' tt' where t: "search_turn env b plen excl rule q mx req en st rs tt = Some (b', st', nxt, rs', tt')"
    using 1(2) by (auto simp: Option.bind_eq_Some_conv)
  have "results_ok req en rs'" by (rule search_turn_ok[OF t 1(3)])
  then show ?case using 1(1,2) t by (auto split: if_splits)
qed

text \<open>C28: the size of a result.  A search returns at most as many offsets as were asked for, a hundred if no
  number was given, and all of them lie before the end of the range.\<close>

theorem search_result_bounds:
  assumes "doSearch env b maxCount path keyword startOffset endOffset rules = Some (tot, start, results)"
  shows "length results \<le> (if maxCount > 0 then unat maxCount else 100) \<and> (\<forall>x\<in>set results. x < endOffset)"
proof -
  let ?req = "if maxCount > 0 then maxCount else DEFAULT_RESULT_COUNT"
  have e: "results_ok ?req endOffset []" by (simp add: results_ok_def)
  have "results = [] \<or> (\<exists>m plen excl rule.
      search_loop env m plen excl rule keyword maxCount ?req endOffset 0 startOffset [] 0 = Some (tot, start, results))"
    using assms unfolding doSearch_def Let_def by (auto simp: Option.bind_eq_Some_conv split: if_split_asm)
  then have "results_ok ?req endOffset results" using search_loop_ok[OF _ e] e by fastforce
  then show ?thesis by (auto simp: results_ok_def DEFAULT_RESULT_COUNT_def split: if_splits)
qed

subsection \<open>The first matches of a range\<close>

lemma collect_all:
  assumes "\<forall>x\<in>set offs. x < en" "length rs + length offs \<le> unat req"
  shows "collect b plen [] mx req en offs rs st tt = Some (rs @ offs, st, tt)"
  using assms
proof (induction offs arbitrary: rs)
  case (Cons off offs)
  have "length rs < unat req" using Cons.prems(2) by simp
  then have "\<not> (of_nat (length rs) :: u32) \<ge> req"
    using unsigned_less[of req, where 'a = nat] by (simp add: word_le_nat_alt unat_of_nat32)
  moreover have "\<not> off \<ge> en" using Cons.prems(1) by (simp add: not_le)
  ultimately show ?case using Cons.IH[of "rs @ [off]"] Cons.prems by (simp add: should_filter_def)
qed simp

lemma hits_nth:
  "i < length (hits m a ts) \<Longrightarrow> \<exists>xs n s ys. ts = xs @ (n, s) # ys \<and> hits m a ts ! i = a + toks_size xs
    \<and> drop (Suc i) (hits m a ts) = hits m (a + toks_size xs + s) ys"
proof (induction m a ts arbitrary: i rule: hits.induct)
  case (2 m a n s ts)
  let ?h = "if n \<noteq> [] \<and> m n then [a] else []"
  show ?case
  proof (cases "n \<noteq> [] \<and> m n \<and> i = 0")
    case True
    then show ?thesis by (intro exI[of _ "[]"] exI[of _ n] exI[of _ s] exI[of _ ts]) simp
  next
    case False
    let ?i = "i - length ?h"
    have l: "length ?h \<le> i" using False by auto
    then have "?i < length (hits m (a + s) ts)" using 2(2) by (auto split: if_splits)
    from 2(1)[OF this] obtain xs n' s' ys where x: "ts = xs @ (n', s') # ys" "hits m (a + s) ts ! ?i = a + s + toks_size xs"
      "drop (Suc ?i) (hits m (a + s) ts) = hits m (a + s + toks_size xs + s') ys" by blast
    have "hits m a ((n, s) # ts) ! i = hits m (a + s) ts ! ?i" using l by (simp add: nth_append)
    moreover have "drop (Suc i) (hits m a ((n, s) # ts)) = drop (Suc ?i) (hits m (a + s) ts)"
      using l by (simp add: Suc_diff_le)
    ultimately show ?thesis using x
      by (intro exI[of _ "(n, s) # xs"] exI[of _ n'] exI[of _ s'] exI[of _ ys]) (simp add: ac_simps)
  qed
qed simp

lemma walks_pos: "walks b a ts \<Longrightarrow> \<forall>t\<in>set ts. 0 < snd t"
  by (induction b a ts rule: walks.induct) auto

text \<open>A range of the index that begins and ends with a token, and is so short that one thread searches it.\<close>

definition short_range :: "fs_buf \<Rightarrow> cstring \<Rightarrow> node list \<Rightarrow> token list \<Rightarrow> token list \<Rightarrow> token list \<Rightarrow> bool" where
  "short_range b root ks us ts vs \<longleftrightarrow> represents b root ks \<and> lock b = Unlocked \<and> layout ks = us @ ts @ vs
   \<and> toks_size ts \<le> 103424 \<and> next_name b (of_nat (first_pos root + toks_size (us @ ts))) \<noteq> None"

text \<open>Surroundings with memory, and rules that are options without a limit.\<close>

definition plain_rules :: "search_env \<Rightarrow> search_rule list \<Rightarrow> cstring \<Rightarrow> search_opts \<Rightarrow> bool" where
  "plain_rules env rule q opts \<longleftrightarrow> (\<forall>n. se_mal env n) \<and> only_options rule \<and> search_options rule q = Some opts \<and> opt_max opts \<le> 0"

abbreviation env_matches :: "search_env \<Rightarrow> search_opts \<Rightarrow> cstring \<Rightarrow> bool" where
  "env_matches env opts \<equiv> comparator (se_pinyin env) (se_regex env) opts"

lemma range_facts:
  assumes "short_range b root ks us ts vs"
  shows "walks b (first_pos root + toks_size us) ts" "first_pos root + toks_size (us @ ts @ vs) \<le> 1073741824"
    "unat (tail b) = first_pos root + toks_size (us @ ts @ vs)"
    "min (tail b) (of_nat (first_pos root + toks_size (us @ ts))) = of_nat (first_pos root + toks_size (us @ ts))"
    "unat (of_nat (first_pos root + toks_size (us @ ts)) :: u32) = first_pos root + toks_size (us @ ts)"
proof -
  have reg: "region b (first_pos root) ks" and lay: "layout ks = us @ ts @ vs"
    using assms by (simp_all add: short_range_def represents_def)
  have tl: "tail b = of_nat (first_pos root + toks_size (layout ks))" "first_pos root + toks_size (layout ks) \<le> 1073741824"
    using region_at_tail[OF reg] by (simp_all add: toks_size_layout)
  show "walks b (first_pos root + toks_size us) ts" using walks_layout[OF reg] lay by simp
  show sz: "first_pos root + toks_size (us @ ts @ vs) \<le> 1073741824" using tl(2) lay by simp
  show ut: "unat (tail b) = first_pos root + toks_size (us @ ts @ vs)"
    using tl lay unat_of_nat32[of "first_pos root + toks_size (layout ks)"] by (simp del: of_nat_add toks_size_simps)
  show ue: "unat (of_nat (first_pos root + toks_size (us @ ts)) :: u32) = first_pos root + toks_size (us @ ts)"
    using sz by (intro unat_of_nat32) simp
  have "of_nat (first_pos root + toks_size (us @ ts)) \<le> tail b" unfolding word_le_nat_alt ue ut by simp
  then show "min (tail b) (of_nat (first_pos root + toks_size (us @ ts))) = of_nat (first_pos root + toks_size (us @ ts))"
    by (rule min_absorb2)
qed

lemma env_search_range:
  assumes "short_range b root ks us ts vs" "plain_rules env rule q opts"
  defines "fs \<equiv> hits (env_matches env opts) (first_pos root + toks_size us) ts"
    and "en \<equiv> of_nat (first_pos root + toks_size (us @ ts)) :: u32"
  shows "env_search env b (of_nat (first_pos root + toks_size us)) en 100 rule q
    = Some (map of_nat (take 100 fs), of_nat (length fs), en, b)"
proof -
  note f = range_facts[OF assms(1)]
  let ?a = "first_pos root + toks_size us" and ?e = "first_pos root + toks_size (us @ ts)"
  have ua: "unat (of_nat ?a :: u32) = ?a" using f(2) by (intro unat_of_nat32) simp
  have le: "of_nat ?a \<le> en" unfolding en_def word_le_nat_alt ua f(5) by simp
  have u100: "unat ((100 + 1 :: u32) * 1024) = 103424" by simp
  have "unat (en - of_nat ?a) = toks_size ts" unfolding en_def unat_sub[OF le[unfolded en_def]] ua f(5) by simp
  then have sh: "en - of_nat ?a \<le> (100 + 1) * 1024"
    unfolding word_le_nat_alt u100 using assms(1) by (simp add: short_range_def)
  have r: "represents b root ks" "lock b = Unlocked" "layout ks = us @ (ts @ vs)" "next_name b en \<noteq> None"
    using assms(1) by (simp_all add: short_range_def en_def)
  have p: "se_mal env n" "search_options rule q = Some opts" "opt_max opts \<le> 0" "only_options rule" for n
    using assms(2) by (simp_all add: plain_rules_def)
  have fo: "found m ?a (ts @ vs) ?e = hits m ?a ts" for m
  proof -
    have "x < ?e" if "x \<in> set (hits m ?a ts)" for x
      using hits_less[OF walks_pos[OF f(1)] that] by (simp add: add.assoc)
    then have "filter (\<lambda>x. x < ?e) (hits m ?a ts) = hits m ?a ts" by (simp add: filter_id_conv)
    moreover have "\<not> x < ?e" if "x \<in> set (hits m (?a + toks_size ts) vs)" for x
      using hits_ge[OF that] by simp
    then have "filter (\<lambda>x. x < ?e) (hits m (?a + toks_size ts) vs) = []" by (simp add: filter_empty_conv)
    ultimately show ?thesis by (simp add: found_def)
  qed
  have "env_search env b (of_nat ?a) en 100 rule q
      = (let fs = found (env_matches env opts) ?a (ts @ vs) (unat en)
         in Some (map of_nat (take (unat (100 :: u32)) fs), of_nat (length fs), en, b))"
    unfolding env_search_def
    by (rule search_one_piece[OF r(1-3) p(1) p(1) p(1) p(2-4) refl _ le sh r(4)]) (simp only: f(4) en_def)
  then show ?thesis unfolding en_def f(5) fo fs_def Let_def by simp
qed

lemma search_loop_range:
  assumes "short_range b root ks us ts vs" "plain_rules env rule q opts"
  defines "fs \<equiv> hits (env_matches env opts) (first_pos root + toks_size us) ts"
    and "en \<equiv> of_nat (first_pos root + toks_size (us @ ts)) :: u32"
  shows "\<exists>st. search_loop env b plen [] rule q 0 100 en 0 (of_nat (first_pos root + toks_size us)) [] 0
    = Some (of_nat (length fs), st, map of_nat (take 100 fs))"
proof -
  note f = range_facts[OF assms(1)] and e = env_search_range[OF assms(1,2), folded fs_def en_def]
  let ?a = "first_pos root + toks_size us"
  define offs :: "u32 list" where "offs = map of_nat (take 100 fs)"
  have lt: "x < ?a + toks_size ts" if "x \<in> set fs" for x
    using that hits_less[OF walks_pos[OF f(1)]] unfolding fs_def by blast
  have sz: "?a + toks_size ts \<le> 1073741824" using f(2) by simp
  have en: "unat en = ?a + toks_size ts" using f(5) by (simp add: en_def ac_simps)
  have below: "\<forall>x\<in>set offs. x < en"
  proof
    fix x assume "x \<in> set offs"
    then obtain y where y: "y \<in> set fs" "x = of_nat y" unfolding offs_def using set_take_subset by fastforce
    have "unat x = y" unfolding y(2) using lt[OF y(1)] sz by (intro unat_of_nat32) simp
    then show "x < en" using lt[OF y(1)] by (simp add: word_less_nat_alt en)
  qed
  have "length (found (env_matches env opts) ?a ts (?a + toks_size ts)) \<le> toks_size ts" by (rule length_found[OF f(1)])
  moreover have "found (env_matches env opts) ?a ts (?a + toks_size ts) = fs"
    using lt unfolding found_def fs_def[symmetric] filter_id_conv by blast
  ultimately have len: "length fs \<le> 103424" using assms(1) by (simp add: short_range_def)
  then have ul: "unat (of_nat (length fs) :: u32) = length fs" by (intro unat_of_nat32) simp
  have mc: "unat (min 100 (of_nat (length fs)) :: u32) = length offs"
    using ul by (simp add: min_def word_le_nat_alt offs_def)
  have lo: "length offs = min (length fs) 100" by (simp add: offs_def)
  have co: "collect b plen [] 0 100 en (take (unat (min 100 (of_nat (length fs)) :: u32)) offs) [] en (of_nat (length fs))
      = Some (offs, en, of_nat (length fs))"
    using collect_all[OF below, of "[]" 100 b plen 0 en "of_nat (length fs)"] lo by (simp add: mc)
  have nn: "\<exists>xs n s ys. ts = xs @ (n, s) # ys \<and> next_name b (offs ! i) = Some (of_nat (?a + toks_size (xs @ [(n, s)])))
      \<and> drop (Suc i) fs = hits (env_matches env opts) (?a + toks_size (xs @ [(n, s)])) ys" if "i < length offs" for i
  proof -
    have i: "i < length fs" "i < 100" using that lo by auto
    obtain xs n s ys where x: "ts = xs @ (n, s) # ys" "fs ! i = ?a + toks_size xs"
      "drop (Suc i) fs = hits (env_matches env opts) (?a + toks_size xs + s) ys"
      using hits_nth[OF i(1)[unfolded fs_def], folded fs_def] by blast
    have "offs ! i = of_nat (?a + toks_size xs)" using i x(2) by (simp add: offs_def)
    moreover have "next_name b (of_nat (?a + toks_size xs)) = Some (of_nat (?a + toks_size xs + s))"
      using f(1) x(1) by simp
    ultimately show ?thesis using x
      by (intro exI[of _ xs] exI[of _ n] exI[of _ s] exI[of _ ys]) (simp add: ac_simps del: of_nat_add)
  qed
  show ?thesis
  proof (cases "length fs < 100")
    case False
    then have l: "length offs = 100" using lo by simp
    obtain st where "next_name b (offs ! 99) = Some st" using nn[of 99] l by auto
    then have "search_turn env b plen [] rule q 0 100 en (of_nat ?a) [] 0 = Some (b, st, False, offs, of_nat (length fs))"
      using e co mc l by (simp add: search_turn_def Let_def offs_def[symmetric] word_less_nat_alt)
    then show ?thesis by (subst search_loop.simps) (simp add: offs_def)
  next
    case less: True
    then have l: "length offs = length fs" "offs = map of_nat fs" using lo by (simp_all add: offs_def)
    show ?thesis
    proof (cases "fs = []")
      case True
      then have "search_turn env b plen [] rule q 0 100 en (of_nat ?a) [] 0 = Some (b, en, False, [], 0)"
        using e by (simp add: search_turn_def Let_def)
      then show ?thesis using True by (subst search_loop.simps) simp
    next
      case False
      then have "length fs - 1 < length offs" using l by (cases fs) auto
      from nn[OF this] obtain xs n s ys where x: "ts = xs @ (n, s) # ys"
        "next_name b (offs ! (length fs - 1)) = Some (of_nat (?a + toks_size (xs @ [(n, s)])))"
        "hits (env_matches env opts) (?a + toks_size (xs @ [(n, s)])) ys = []" using False by auto
      let ?us = "us @ xs @ [(n, s)]" and ?b = "of_nat (first_pos root + toks_size (us @ xs @ [(n, s)])) :: u32"
      have "(of_nat (length offs) :: u32) < 100" using less ul l by (simp add: word_less_nat_alt)
      moreover have "0 < (min 100 (of_nat (length fs)) :: u32)" using mc l False by (simp add: word_less_nat_alt)
      ultimately have t1: "search_turn env b plen [] rule q 0 100 en (of_nat ?a) [] 0 = Some (b, ?b, True, offs, of_nat (length fs))"
        using e co mc l x(2) by (simp add: search_turn_def Let_def offs_def[symmetric] ac_simps del: of_nat_add)
      have "short_range b root ks ?us ys vs" using assms(1) x(1) by (simp add: short_range_def)
      from env_search_range[OF this assms(2)] x(1,3)
      have "env_search env b ?b en 100 rule q = Some ([], 0, en, b)" by (simp add: en_def ac_simps del: of_nat_add)
      then have t2: "search_turn env b plen [] rule q 0 100 en ?b offs (of_nat (length fs)) = Some (b, en, False, offs, of_nat (length fs))"
        by (simp add: search_turn_def Let_def del: of_nat_add)
      show ?thesis using t1 t2 l
        by (subst search_loop.simps) (simp add: search_loop.simps[where n = "Suc 0"] offs_def[symmetric] del: of_nat_add)
    qed
  qed
qed

end
