(* ===== verification/Lft_Search_Folder.thy ===== *)
theory Lft_Search_Folder
  imports Lft_Search_Claims
begin

text \<open>
  The search of a folder from the request to the reply: the names below the folder in the order in which
  the index has them, and the theorem that a search returns the first hundred that match.
\<close>

subsection \<open>The names below a folder\<close>

text \<open>The paths with the names, level by level as they are laid out; \<open>prefix\<close> ends with a slash.\<close>

fun listing_node :: "cstring \<Rightarrow> node \<Rightarrow> (cstring \<times> cstring) list" where
  "listing_node prefix (File n) = []"
| "listing_node prefix (Dir n ks) =
    map (\<lambda>k. (prefix @ n @ slash # nname k, nname k)) ks @ concat (map (listing_node (prefix @ n @ [slash])) ks)"

definition listing :: "cstring \<Rightarrow> node list \<Rightarrow> (cstring \<times> cstring) list" where
  "listing prefix ks = map (\<lambda>k. (prefix @ nname k, nname k)) ks @ concat (map (listing_node prefix) ks)"

lemma listing_node_Dir: "listing_node prefix (Dir n ks) = listing (prefix @ n @ [slash]) ks"
  by (simp add: listing_def)

definition path_at :: "cstring \<Rightarrow> node list \<Rightarrow> nat \<Rightarrow> cstring \<Rightarrow> bool" where
  "path_at root ks x p \<longleftrightarrow> (\<exists>fs ls k rs. ks = plug fs (ls @ k # rs) \<and> x = epos (first_pos root) fs ls
     \<and> p = root @ frame_path fs @ nname k)"

text \<open>The hits of a level and the matching names of the listing go together.\<close>

abbreviation matching :: "(cstring \<Rightarrow> bool) \<Rightarrow> (cstring \<times> cstring) list \<Rightarrow> cstring list" where
  "matching m xs \<equiv> map fst (filter (\<lambda>(p, n). m n) xs)"

lemma hits_toks:
  assumes "ks = plug fs (ls @ cs)" "forest_ok cs"
  shows "list_all2 (path_at root ks) (hits m (epos (first_pos root) fs ls) (map tok cs))
    (matching m (map (\<lambda>k. (root @ frame_path fs @ nname k, nname k)) cs))"
  using assms
proof (induction cs arbitrary: ls)
  case (Cons k cs)
  have "path_at root ks (epos (first_pos root) fs ls) (root @ frame_path fs @ nname k)"
    unfolding path_at_def using Cons.prems(1) by blast
  moreover have "nname k \<noteq> []" using Cons.prems(2) name_ok_nname by (auto simp: name_ok_def)
  ultimately show ?case using Cons.IH[of "ls @ [k]"] Cons.prems by (simp add: add.assoc)
qed simp

lemma hits_listing:
  assumes "ks = plug fs cs" "forest_ok cs"
  shows "list_all2 (path_at root ks) (hits m (first_pos root + zpos fs) (level_toks cs))
    (matching m (listing (root @ frame_path fs) cs))"
  using assms
proof (induction "size_list size cs" arbitrary: fs cs rule: less_induct)
  case less
  let ?p = "first_pos root + zpos fs"
  have 1: "list_all2 (path_at root ks) (hits m ?p (map tok cs)) (matching m (map (\<lambda>k. (root @ frame_path fs @ nname k, nname k)) cs))"
    using hits_toks[of ks fs "[]" cs root m] less.prems by simp
  have "list_all2 (path_at root ks) (hits m (?p + ents cs + 5 + subs us) (concat (map toks_node vs)))
      (matching m (concat (map (listing_node (root @ frame_path fs)) vs)))" if "cs = us @ vs" for us vs
    using that
  proof (induction vs arbitrary: us)
    case (Cons k vs)
    have IH: "list_all2 (path_at root ks) (hits m (?p + ents cs + 5 + subs us + nsub k) (concat (map toks_node vs)))
        (matching m (concat (map (listing_node (root @ frame_path fs)) vs)))"
      using Cons.IH[of "us @ [k]"] Cons.prems by (simp add: add.assoc)
    have "list_all2 (path_at root ks) (hits m (?p + ents cs + 5 + subs us) (toks_node k))
        (matching m (listing_node (root @ frame_path fs) k))"
    proof (cases k)
      case (Dir n cs')
      show ?thesis
      proof (cases "cs' = []")
        case True
        then show ?thesis by (simp add: Dir)
      next
        case False
        have z: "first_pos root + zpos ((us, n, vs) # fs) = ?p + ents cs + 5 + subs us"
          using Cons.prems Dir by simp
        have "size_list size cs' < size_list size cs" using Cons.prems Dir by simp
        moreover have "ks = plug ((us, n, vs) # fs) cs'" using less.prems(1) Cons.prems Dir by simp
        moreover have "forest_ok cs'" using less.prems(2) Cons.prems Dir by simp
        ultimately have "list_all2 (path_at root ks) (hits m (first_pos root + zpos ((us, n, vs) # fs)) (level_toks cs'))
            (matching m (listing (root @ frame_path ((us, n, vs) # fs)) cs'))" by (rule less.hyps)
        then show ?thesis using False unfolding z by (simp add: Dir toks_node_Dir listing_node_Dir del: toks_node.simps listing_node.simps)
      qed
    qed simp
    then show ?case using IH by (simp add: list_all2_appendI)
  qed simp
  from this[of "[]" cs] have 2: "list_all2 (path_at root ks) (hits m (?p + ents cs + 5) (concat (map toks_node cs)))
      (matching m (concat (map (listing_node (root @ frame_path fs)) cs)))" by simp
  show ?case using list_all2_appendI[OF 1 2] by (simp add: level_toks_def listing_def add.assoc)
qed

subsection \<open>From offsets to paths\<close>

lemma name_path_at_path:
  assumes "represents b root ks" "lock b = Unlocked" "path_at root ks x p" "length p < 4096"
  shows "name_path_at b (of_nat x) = Some p"
proof -
  obtain fs ls k rs where k: "ks = plug fs (ls @ k # rs)" "x = epos (first_pos root) fs ls" "p = root @ frame_path fs @ nname k"
    using assms(3) by (auto simp: path_at_def)
  let ?b = "b\<lparr>lock := Readers 1\<rparr>"
  have r: "represents ?b root (plug fs (ls @ k # rs))" using assms(1) k(1) by simp
  have p: "path_of root (fs, ls, k, rs) = p" by (simp add: path_of_def k(3) frame_path_names)
  have lk: "rdlock b = Some ?b" "unlock ?b = Some b" using assms(2) by (simp_all add: rdlock_def unlock_def)
  define buf :: "byte list" where "buf = replicate 4096 0"
  have l: "length buf = 4096" by (simp add: buf_def)
  then have sz: "length buf = unat (4096 :: u32)" "length (path_of root (fs, ls, k, rs)) < length buf"
    using assms(4) p by simp_all
  have "is_cstr (path_of root (fs, ls, k, rs))"
    using is_cstr_path_of[of root "(fs, ls, k, rs)"] r by (auto elim!: representsE)
  then have "cstr_at (take (length buf - length p - 1) buf @ p @ [0]) (length buf - length p - 1) = Some p"
    unfolding p by (intro cstr_at_split) simp_all
  then show ?thesis
    using get_path_by_name_off_writes[OF r sz] lk
    unfolding name_path_at_def get_path_by_name_off_def k(2) p buf_def[symmetric] by simp
qed

lemma result_paths_all:
  assumes "list_all2 (\<lambda>x p. name_path_at b (of_nat x) = Some p) xs ps"
  shows "result_paths b path path (map of_nat xs) = Some ps"
  using assms by (induction xs ps rule: list_all2_induct) (simp_all add: result_path_def)

subsection \<open>The range of a folder among the tokens\<close>

text \<open>The folder of a path: its names have the paths that begin with \<open>prefix\<close>, and it is not empty.\<close>

definition folder_at :: "cstring \<Rightarrow> node list \<Rightarrow> cstring \<Rightarrow> cstring \<Rightarrow> node list \<Rightarrow> bool" where
  "folder_at root ks path prefix cs \<longleftrightarrow> cs \<noteq> []
   \<and> (resolve root ks path = Some (Some Root) \<and> prefix = root \<and> cs = ks
      \<or> (\<exists>fs ls n rs. resolve root ks path = Some (Some (At (fs, ls, Dir n cs, rs))) \<and> prefix = root @ frame_path fs @ n @ [slash]))"

lemma resolve_forest:
  assumes "resolve root ks path = Some (Some (At l))"
  shows "loc_forest l = ks"
proof -
  have "loc_forest l = ks" if "resolve1 root ks q = Some (At l)" for q
    using that lookup_sound(1) by (auto simp: resolve1_def split: if_splits)
  then show ?thesis using assms by (auto simp: resolve_def split: option.splits if_splits)
qed

lemma folder_range:
  assumes "folder_at root ks path prefix cs" "forest_ok ks"
  shows "\<exists>us vs fs tg. layout ks = us @ level_toks cs @ vs \<and> toks_size us = zpos fs \<and> ks = plug fs cs \<and> forest_ok cs
    \<and> prefix = root @ frame_path fs
    \<and> path_range root ks path = Some (tg, first_pos root + toks_size us, first_pos root + toks_size (us @ level_toks cs))"
proof -
  consider (root) "resolve root ks path = Some (Some Root)" "prefix = root" "cs = ks" "cs \<noteq> []"
    | (at) gs ls n rs where "resolve root ks path = Some (Some (At (gs, ls, Dir n cs, rs)))"
        "prefix = root @ frame_path gs @ n @ [slash]" "cs \<noteq> []"
    using assms(1) unfolding folder_at_def by blast
  then show ?thesis
  proof cases
    case root
    then have "layout ks = [] @ level_toks cs @ []" by (simp add: layout_def)
    moreover have "length (enc_root ks) = toks_size (level_toks cs)" using root toks_size_layout[of ks] by (simp add: layout_def)
    ultimately show ?thesis using root assms(2)
      by (intro exI[of _ "[] :: token list"] exI[of _ "[] :: token list"] exI[of _ "[] :: frame list"] exI[of _ "Some Root"])
        (simp add: path_range_def)
  next
    case at
    let ?fs = "(ls, n, rs) # gs"
    have ks: "ks = plug ?fs cs" using resolve_forest[OF at(1)] by simp
    obtain us vs where l: "layout ks = us @ level_toks cs @ vs" "toks_size us = zpos ?fs"
      using layout_plug[OF at(3), of ?fs] ks by blast
    have "forest_ok cs" using assms(2) ks by simp
    moreover have "path_range root ks path = Some (Some (At (gs, ls, Dir n cs, rs)),
        first_pos root + toks_size us, first_pos root + toks_size (us @ level_toks cs))"
      using at l(2) by (simp add: path_range_def Let_def)
    ultimately show ?thesis using l ks at(2) by (intro exI[of _ us] exI[of _ vs] exI[of _ ?fs] exI) (auto simp: Let_def)
  qed
qed

subsection \<open>From the request to the reply\<close>

lemma search_rules_args:
  "arg_or (search_rules (- 1) ic 0 0 re) RULE_SEARCH_MAX_COUNT 0 = 0"
  "arg_or (search_rules (- 1) ic 0 0 re) RULE_SEARCH_STARTOFF 0 = 0"
  "arg_or (search_rules (- 1) ic 0 0 re) RULE_SEARCH_ENDOFF 0 = 0"
  "getRuleStrings (search_rules (- 1) ic 0 0 re) RULE_EXCLUDE_SUB_S = []"
proof -
  have z: "toUInt (decimal 0) = Some 0" using toUInt_decimal[of 0] by simp
  note s = arg_or_def getRuleArgs_def search_rules_def rule_arg_text toUInt_minus z
  show "arg_or (search_rules (- 1) ic 0 0 re) RULE_SEARCH_MAX_COUNT 0 = 0"
    "arg_or (search_rules (- 1) ic 0 0 re) RULE_SEARCH_STARTOFF 0 = 0"
    "arg_or (search_rules (- 1) ic 0 0 re) RULE_SEARCH_ENDOFF 0 = 0"
    by (simp_all add: s del: rule_arg.simps(2))
  show "getRuleStrings (search_rules (- 1) ic 0 0 re) RULE_EXCLUDE_SUB_S = []"
    by (simp add: getRuleStrings_def search_rules_def toInt_rule_text)
qed

lemma plain_search_path:
  "plain_path p \<Longrightarrow> search_path env st p = convertPathIntoMountPoint (se_find_dir env) (allPath st) p"
  by (cases p rule: rev_cases) (auto simp: search_path_def plain_path_def absolute_def ends_with_def)

text \<open>The options that the arguments of \<open>search\<close> stand for.\<close>

definition old_options :: "cstring \<Rightarrow> int \<Rightarrow> bool \<Rightarrow> search_opts" where
  "old_options q ic re = \<lparr>is_reg = (re \<and> is_regex q), opt_query = \<lparr>query = q, icase = (ic > 0), lang_pinyin = False\<rparr>,
     opt_max = - 1\<rparr>"

lemma doSearch_range:
  assumes "short_range b root ks us ts vs" "\<forall>n. se_mal env n" "\<forall>t. (\<forall>c\<in>set t. c < 128) \<longrightarrow> se_latin1 env t = t"
    and "- 2147483648 \<le> ic" "ic < 2147483648"
  shows "\<exists>st. doSearch env b 0 path q (of_nat (first_pos root + toks_size us)) (of_nat (first_pos root + toks_size (us @ ts)))
      (search_rules (- 1) ic 0 0 re)
    = Some (of_nat (length (hits (env_matches env (old_options q ic re)) (first_pos root + toks_size us) ts)), st,
        map of_nat (take 100 (hits (env_matches env (old_options q ic re)) (first_pos root + toks_size us) ts)))"
proof -
  obtain rule where rule: "parseRules (se_mal env) (se_latin1 env) (search_rules (- 1) ic 0 0 re) = Some rule" "only_options rule"
    "search_options rule q = Some (old_options q ic re)"
    using search_rules_options[of "se_mal env" "se_latin1 env" "- 1" ic 0 0 re q] assms(2-5) by (auto simp: old_options_def)
  have "plain_rules env rule q (old_options q ic re)"
    using rule assms(2) by (simp add: plain_rules_def) (simp add: old_options_def)
  from search_loop_range[OF assms(1) this, of "qsize path"] show ?thesis
    using rule(1) assms(2) search_rules_args(4) by (simp add: doSearch_def search_rules_def DEFAULT_RESULT_COUNT_def)
qed

text \<open>C6: a search.  \<open>search\<close> for a folder of an index, without limits or offsets, returns the paths of the first
  hundred names below the folder that match, in the order of the index.  Conditions: the path of the folder is its own
  (\<open>convertPathIntoMountPoint\<close> gives no other one for it), the folder has a name below it, its entries take at most
  \<open>101 * 1024\<close> bytes (one thread searches them), the byte behind them is readable, memory suffices, the codec keeps
  ASCII, and the paths fit \<open>PATH_MAX\<close>.\<close>

theorem search_returns_matches:
  assumes "indexed os st mounted p ix b m ks" "plain_path p" "is_cstr p"
    and "convertPathIntoMountPoint (se_find_dir env) (allPath st) p = p"
    and "folder_at (index_root m) ks p prefix cs"
    and "path_range (index_root m) ks p = Some (tg, s, e)" "e - s \<le> 103424" "next_name b (of_nat e) \<noteq> None"
    and "\<forall>n. se_mal env n" "\<forall>t. (\<forall>c\<in>set t. c < 128) \<longrightarrow> se_latin1 env t = t"
    and "- 2147483648 \<le> ic" "ic < 2147483648"
    and "\<forall>x\<in>set (listing prefix cs). length (fst x) < 4096"
  shows "\<exists>r. search os env st (- 1) ic 0 0 p q re
    = Some (take 100 (matching (env_matches env (old_options q ic re)) (listing prefix cs)), r)"
proof -
  let ?root = "index_root m" and ?rules = "search_rules (- 1) ic 0 0 re"
  have r: "represents b ?root ks" "lock b = Unlocked" "bufs st ix = Some b" using assms(1) unfolding indexed_def by blast+
  then have ok: "forest_ok ks" by (auto elim!: representsE)
  obtain us vs fs tg' where u: "layout ks = us @ level_toks cs @ vs" "toks_size us = zpos fs" "ks = plug fs cs" "forest_ok cs"
    "prefix = ?root @ frame_path fs"
    "path_range ?root ks p = Some (tg', first_pos ?root + toks_size us, first_pos ?root + toks_size (us @ level_toks cs))"
    using folder_range[OF assms(5) ok] by blast
  have se: "s = first_pos ?root + toks_size us" "e = first_pos ?root + toks_size (us @ level_toks cs)"
    using assms(6) u(6) by simp_all
  have sr: "short_range b ?root ks us (level_toks cs) vs"
    using r u(1) assms(7,8) unfolding short_range_def se by simp
  let ?m = "env_matches env (old_options q ic re)"
  define fs' where "fs' = hits ?m (first_pos ?root + toks_size us) (level_toks cs)"
  have lp: "list_all2 (path_at ?root ks) fs' (matching ?m (listing prefix cs))"
    using hits_listing[OF u(3,4), of ?root ?m] by (simp add: fs'_def u(2,5))
  have np: "list_all2 (\<lambda>x p. name_path_at b (of_nat x) = Some p) fs' (matching ?m (listing prefix cs))"
  proof (rule list_all2_all_nthI[OF list_all2_lengthD[OF lp]])
    fix i assume i: "i < length fs'"
    have "path_at ?root ks (fs' ! i) (matching ?m (listing prefix cs) ! i)" by (rule list_all2_nthD[OF lp i])
    moreover have "matching ?m (listing prefix cs) ! i \<in> set (matching ?m (listing prefix cs))"
      using i list_all2_lengthD[OF lp] by (intro nth_mem) simp
    then have "length (matching ?m (listing prefix cs) ! i) < 4096" using assms(13) by auto
    ultimately show "name_path_at b (of_nat (fs' ! i)) = Some (matching ?m (listing prefix cs) ! i)"
      by (rule name_path_at_path[OF r(1,2)])
  qed
  have paths: "result_paths b p p (map of_nat (take 100 fs')) = Some (take 100 (matching ?m (listing prefix cs)))"
    by (rule result_paths_all[OF list_all2_takeI[OF np]])
  obtain st' where search: "doSearch env b 0 p q (of_nat s) (of_nat e) ?rules
      = Some (of_nat (length fs'), st', map of_nat (take 100 fs'))"
    using doSearch_range[OF sr assms(9-12)] unfolding se fs'_def by blast
  have "s \<le> 1073741824" "0 < s" using range_facts(2)[OF sr] by (simp_all add: se)
  then have s0: "(of_nat s :: u32) \<noteq> 0" by (simp add: of_nat32_neq_0)
  obtain o' where o: "get_path_range b p (se_junk env) 0 = Some (o', of_nat s, of_nat e, b)"
    using get_path_range_block(1)[OF r(1,2) assms(3,6)] by blast
  have ne: "p \<noteq> []" using assms(2) by (auto simp: plain_path_def absolute_def)
  have "prepareBuf os env st 0 0 p = Some (SE_SUCCESS, of_nat s, of_nat e, p, Some ix)"
    using getFsBufByPath_indexed[OF assms(1,2)] ne r(3) o s0 by (simp add: prepareBuf_def)
  then show ?thesis
    using plain_search_path[OF assms(2)] assms(4) r(3) paths search
    by (simp add: search_def enterSearch_def search_rules_args Let_def)
qed

text \<open>The folder \<open>/a\<close> of the sample index, searched for \<open>b\<close>.\<close>

definition sample_search_env :: search_env where
  "sample_search_env = \<lparr>se_mal = (\<lambda>n. True), se_pinyin = (\<lambda>s. None), se_regex = (\<lambda>q. None), se_pool = 2, se_latin1 = id,
     se_find_dir = (\<lambda>mp p. None), se_junk = 0, se_timeout = (\<lambda>n. n > 3)\<rparr>"

lemma sample_next: "next_name (sample_buf 100) 32 \<noteq> None"
proof -
  have "replicate 100 (0 :: byte) = replicate 2 0 @ replicate 98 0" by (simp flip: replicate_add)
  then have r: "replicate 100 (0 :: byte) = 0 # 0 # replicate 98 0" by (simp add: numeral_2_eq_2)
  define H where "H = replicate 8 (0 :: byte) @ [47, 0] @ enc_root sample_forest"
  have h: "head (sample_buf 100) = H @ [] @ 0 # 0 # replicate 98 0" "length H = 32"
    by (simp_all add: sample_buf_def r H_def)
  have "head (sample_buf 100) = (H @ [0]) @ 0 # replicate 98 0" "length (H @ [0]) = 33" using h by simp_all
  then have "rd8 (head (sample_buf 100)) 33 = Some 0" using rd8_split by metis
  moreover have "cstr_at (head (sample_buf 100)) 32 = Some []"
    using cstr_at_split[of H 32 "[]" "0 # replicate 98 0"] h by (simp add: is_cstr_def)
  ultimately show ?thesis by (simp add: next_name_def Let_def)
qed

lemma sample_matches: "matching (env_matches sample_search_env (old_options [98] (- 1) False)) (listing [47, 97, 47] [File [98]])
    = [[47, 97, 47, 98]]"
  by code_simp

lemma sample_folder_indexed:
  "indexed sample_lft_os sample_lft_state root_mounted [47, 97] 7 (sample_buf 100) [47] sample_forest"
  using sample_contract
  by (simp add: indexed_def sample_lft_os_def sample_lft_state_def result_path0_def mount_above_def
      ancestors.simps upper_path_def root_mounted_def virtual_mount_def mount_of_path_def qvalue_def index_root_def
      sample_represents) (simp add: sample_buf_def)

theorem search_returns_matches_witness:
  "\<exists>r. search sample_lft_os sample_search_env sample_lft_state (- 1) (- 1) 0 0 [47, 97] [98] False
    = Some ([[47, 97, 47, 98]], r)"
proof -
  have rt: "index_root [47] = [47]" by (simp add: index_root_def)
  have "resolve [47] sample_forest [47, 97] = Some (Some (At ([], [], Dir [97] [File [98]], [File [99]])))" by code_simp
  then have f: "folder_at (index_root [47]) sample_forest [47, 97] [47, 97, 47] [File [98]]"
    unfolding rt by (simp add: folder_at_def)
  have g: "path_range (index_root [47]) sample_forest [47, 97]
      = Some (Some (At ([], [], Dir [97] [File [98]], [File [99]])), 24, 32)" unfolding rt by code_simp
  have c: "convertPathIntoMountPoint (se_find_dir sample_search_env) (allPath sample_lft_state) [47, 97] = [47, 97]"
    by (simp add: convertPathIntoMountPoint_def allPath_def sample_lft_state_def sample_search_env_def)
  have e: "\<forall>n. se_mal sample_search_env n" "\<forall>t. (\<forall>c\<in>set t. c < 128) \<longrightarrow> se_latin1 sample_search_env t = t"
    by (simp_all add: sample_search_env_def)
  have p: "plain_path [47, 97]" "is_cstr [47, 97]" by (simp_all add: plain_path_def absolute_def is_cstr_def)
  from search_returns_matches[OF sample_folder_indexed p c f g _ _ e, of "- 1" "[98]" False] show ?thesis
    using sample_next sample_matches by (simp add: listing_def)
qed

theorem search_result_bounds_witness:
  "\<exists>tot st rs. doSearch sample_search_env (sample_buf 100) 0 [47] [98] 10 32 (search_rules (- 1) (- 1) 0 0 False) = Some (tot, st, rs)
    \<and> length rs \<le> 100 \<and> list_all (\<lambda>x. x < 32) rs"
proof -
  have "short_range (sample_buf 100) [47] sample_forest [] (layout sample_forest) []"
    using sample_represents[of 100] sample_next by (simp add: short_range_def layout_sample) (simp add: sample_buf_def)
  from doSearch_range[OF this, of sample_search_env "- 1" "[47]" "[98]" False]
  obtain tot st rs where d: "doSearch sample_search_env (sample_buf 100) 0 [47] [98] 10 32 (search_rules (- 1) (- 1) 0 0 False)
      = Some (tot, st, rs)" by (auto simp: sample_search_env_def layout_sample)
  show ?thesis using d search_result_bounds[OF d] by (auto simp: list_all_iff)
qed

subsection \<open>A range that ends behind the index\<close>

text \<open>When the end of the range that the caller gives lies behind the end of the index, as an end that was
  returned before something was removed, the loop does not stop at the end of the index: it calls the library again
  and again until the time is over.\<close>

lemma stale_end_turn:
  assumes "short_range b root ks (layout ks) [] []" "plain_rules env rule q opts" "tail b < en"
  shows "search_turn env b plen [] rule q 0 100 en (tail b) rs tt = Some (b, tail b, True, rs, tt)"
proof -
  let ?a = "first_pos root + toks_size (layout ks)"
  note f = range_facts[OF assms(1)]
  have t: "tail b = of_nat ?a" using f(3,5) by (simp add: word_unat_eq_iff del: of_nat_add)
  have r: "represents b root ks" "lock b = Unlocked" "layout ks = layout ks @ []" "next_name b (tail b) \<noteq> None"
    using assms(1) t by (simp_all add: short_range_def)
  have p: "se_mal env n" "search_options rule q = Some opts" "opt_max opts \<le> 0" "only_options rule" for n
    using assms(2) by (simp_all add: plain_rules_def)
  have mo: "tail b = min (tail b) en" using assms(3) by (simp add: min_absorb1 less_imp_le)
  have "env_search env b (tail b) en 100 rule q = (let fs = found (env_matches env opts) ?a [] (unat (tail b))
      in Some (map of_nat (take (unat (100 :: u32)) fs), of_nat (length fs), tail b, b))"
    unfolding env_search_def by (rule search_one_piece[OF r(1-3) p(1) p(1) p(1) p(2-4) t mo]) (use r(4) in simp_all)
  then have "env_search env b (tail b) en 100 rule q = Some ([], 0, tail b, b)" by (simp add: found_def)
  then show ?thesis using assms(3) by (simp add: search_turn_def Let_def)
qed

lemma stale_end_spins:
  assumes "short_range b root ks (layout ks) [] []" "plain_rules env rule q opts" "tail b < en"
    and "\<forall>i<k. \<not> se_timeout env (n + i)"
  shows "search_loop env b plen [] rule q 0 100 en n (tail b) rs tt
    = search_loop env b plen [] rule q 0 100 en (n + k) (tail b) rs tt"
  using assms(4)
proof (induction k)
  case (Suc k)
  have "search_loop env b plen [] rule q 0 100 en (n + k) (tail b) rs tt
      = search_loop env b plen [] rule q 0 100 en (n + Suc k) (tail b) rs tt"
    using stale_end_turn[OF assms(1-3)] Suc.prems by (subst search_loop.simps) simp
  then show ?case using Suc by simp
qed simp

end
