(* ===== verification/Pinyin.thy ===== *)
theory Pinyin
  imports Prelude
begin

text \<open>
  Names in pinyin (\<open>src/src/library/src/chinese/pinyin.c\<close>): a Chinese character becomes its syllable, and the
  text to be searched is the initials, a bar, and the full syllables.

  The dictionary, 20902 entries of six bytes padded with spaces, is a parameter.  A write past the end of
  a buffer and a read past the end of the name have no defined result.
\<close>

unbundle bit_operations_syntax

subsection \<open>UTF-8\<close>

text \<open>The number of bytes of a character by its first byte; \<open>None\<close>: the byte cannot be a first one.\<close>

definition utf8_bytes :: "byte \<Rightarrow> nat option" where
  "utf8_bytes c =
    (if c \<ge> 252 \<and> c \<le> 253 then Some 6 else if c \<ge> 248 then Some 5 else if c \<ge> 240 then Some 4
     else if c \<ge> 224 then Some 3 else if c \<ge> 192 then Some 2 else None)"

fun utf8_loop :: "nat \<Rightarrow> bool \<Rightarrow> cstring \<Rightarrow> bool" where
  "utf8_loop nBytes bAllAscii [] \<longleftrightarrow> nBytes = 0 \<and> \<not> bAllAscii"
| "utf8_loop nBytes bAllAscii (c # s) \<longleftrightarrow>
    (let bAllAscii = (if c AND 128 \<noteq> 0 then False else bAllAscii)
     in if nBytes = 0 then
          (if c \<ge> 128 then (case utf8_bytes c of None \<Rightarrow> False | Some n \<Rightarrow> utf8_loop (n - 1) bAllAscii s)
           else utf8_loop 0 bAllAscii s)
        else if c AND 192 \<noteq> 128 then False
        else utf8_loop (nBytes - 1) bAllAscii s)"

definition is_text_utf8 :: "cstring \<Rightarrow> bool" where
  "is_text_utf8 s = utf8_loop 0 True s"

subsection \<open>Conversion\<close>

definition PINYIN_UNICODE_START :: int where "PINYIN_UNICODE_START = 19968"
definition PINYIN_UNICODE_END :: int where "PINYIN_UNICODE_END = 40869"

text \<open>\<open>right_trim\<close> would run below a text of spaces.\<close>

definition right_trim :: "cstring \<Rightarrow> cstring option" where
  "right_trim s = (if s = [] then Some [] else
     let t = rev (dropWhile (\<lambda>c. c = 32) (rev s)) in if t = [] then None else Some t)"

text \<open>\<open>strcat\<close> and \<open>strncat\<close> to a buffer of \<open>n\<close> bytes.\<close>

definition cat :: "nat \<Rightarrow> cstring \<Rightarrow> cstring \<Rightarrow> cstring option" where
  "cat n buf s = (if length buf + length s < n then Some (buf @ s) else None)"

text \<open>The number of bytes by the bits of the first one; \<open>None\<close> is the last branch.\<close>

definition lead_bytes :: "byte \<Rightarrow> nat option" where
  "lead_bytes c =
    (if c AND 128 = 0 then Some 1 else if c AND 224 = 192 then Some 2 else if c AND 240 = 224 then Some 3
     else if c AND 248 = 240 then Some 4 else if c AND 252 = 248 then Some 5 else if c AND 254 = 252 then Some 6
     else None)"

definition code_point :: "cstring \<Rightarrow> int" where
  "code_point s = push_bit 12 (uint (s ! 0 AND 15)) OR push_bit 6 (uint (s ! 1 AND 63)) OR uint (s ! 2 AND 63)"

text \<open>The entry of the dictionary for the character at the start of the text.\<close>

definition dict_entry :: "(nat \<Rightarrow> cstring) \<Rightarrow> cstring \<Rightarrow> cstring option" where
  "dict_entry dict words =
    (if lead_bytes (hd words) = Some 3 \<and> length words \<ge> 3
        \<and> code_point words \<ge> PINYIN_UNICODE_START \<and> code_point words \<le> PINYIN_UNICODE_END
     then Some (dict (nat (code_point words - PINYIN_UNICODE_START))) else None)"

function utf8_to_pinyin :: "(nat \<Rightarrow> cstring) \<Rightarrow> nat \<Rightarrow> cstring \<Rightarrow> cstring \<Rightarrow> cstring option" where
  "utf8_to_pinyin dict n words out =
    (if words = [] then Some out
     else case lead_bytes (hd words) of
       None \<Rightarrow> cat n out (take 1 words)
     | Some k \<Rightarrow>
       (case dict_entry dict words of
          Some entry \<Rightarrow> do {
            buf \<leftarrow> right_trim entry;
            out \<leftarrow> cat n out buf;
            utf8_to_pinyin dict n (drop 3 words) out }
        | None \<Rightarrow>
          if length words < k then None
          else do {
            out \<leftarrow> cat n out (take k words);
            utf8_to_pinyin dict n (drop k words) out }))"
  by pat_completeness auto
termination
  by (relation "measure (\<lambda>(dict, n, words, out). length words)")
    (auto simp: lead_bytes_def split: if_splits)

function convert_all_pinyin :: "(nat \<Rightarrow> cstring) \<Rightarrow> nat \<Rightarrow> nat \<Rightarrow> cstring \<Rightarrow> cstring \<Rightarrow> cstring \<Rightarrow>
    (cstring \<times> cstring) option" where
  "convert_all_pinyin dict n1 n2 words first full =
    (if words = [] then Some (first, full)
     else case lead_bytes (hd words) of
       None \<Rightarrow> do {
         first \<leftarrow> cat n1 first (take 1 words);
         full \<leftarrow> cat n2 full (take 1 words);
         Some (first, full) }
     | Some k \<Rightarrow>
       (case dict_entry dict words of
          Some entry \<Rightarrow> do {
            buf \<leftarrow> right_trim entry;
            first \<leftarrow> cat n1 first (take 1 buf);
            full \<leftarrow> cat n2 full buf;
            convert_all_pinyin dict n1 n2 (drop 3 words) first full }
        | None \<Rightarrow>
          if length words < k then None
          else do {
            first \<leftarrow> cat n1 first (take k words);
            full \<leftarrow> cat n2 full (take k words);
            convert_all_pinyin dict n1 n2 (drop k words) first full }))"
  by pat_completeness auto
termination
  by (relation "measure (\<lambda>(dict, n1, n2, words, first, full). length words)")
    (auto simp: lead_bytes_def split: if_splits)

declare utf8_to_pinyin.simps [simp del] convert_all_pinyin.simps [simp del]

text \<open>The inner \<open>None\<close> is the null pointer.\<close>

definition cat_pinyin :: "(nat \<Rightarrow> cstring) \<Rightarrow> (nat \<Rightarrow> bool) \<Rightarrow> cstring option \<Rightarrow> cstring option option" where
  "cat_pinyin dict mal inp =
    (case inp of None \<Rightarrow> Some None
     | Some s \<Rightarrow>
       if \<not> is_text_utf8 s then Some None
       else if \<not> mal (255 + 1530 + 1) then Some None
       else do {
         (first, full) \<leftarrow> convert_all_pinyin dict 255 1530 s [] [];
         map_option Some (cat (255 + 1530 + 1) [] (first @ 124 # full)) })"

subsection \<open>The characters of a text\<close>

text \<open>The characters as the loop takes them; it ends after a byte that cannot be a first one.\<close>

function chars :: "cstring \<Rightarrow> cstring list" where
  "chars words = (if words = [] then [] else case lead_bytes (hd words) of
     None \<Rightarrow> [take 1 words] | Some k \<Rightarrow> take k words # chars (drop k words))"
  by pat_completeness auto
termination by (relation "measure length") (auto simp: lead_bytes_def split: if_splits)

declare chars.simps [simp del]

definition trim :: "cstring \<Rightarrow> cstring" where
  "trim s = rev (dropWhile (\<lambda>c. c = 32) (rev s))"

definition initial :: "(nat \<Rightarrow> cstring) \<Rightarrow> cstring \<Rightarrow> cstring" where
  "initial dict w = (case dict_entry dict w of None \<Rightarrow> w | Some e \<Rightarrow> take 1 (trim e))"

definition syllable :: "(nat \<Rightarrow> cstring) \<Rightarrow> cstring \<Rightarrow> cstring" where
  "syllable dict w = (case dict_entry dict w of None \<Rightarrow> w | Some e \<Rightarrow> trim e)"

text \<open>The entries have six bytes and do not begin with a space.\<close>

definition dict_ok :: "(nat \<Rightarrow> cstring) \<Rightarrow> bool" where
  "dict_ok dict \<longleftrightarrow> (\<forall>i < 20902. length (dict i) = 6 \<and> hd (dict i) \<noteq> 32)"

text \<open>The two readings of a first byte agree, but for the two bytes that occur in no UTF-8.\<close>

definition bytes_agree :: "byte \<Rightarrow> bool" where
  "bytes_agree c \<longleftrightarrow> (c AND 128 = 0 \<longleftrightarrow> \<not> c \<ge> 128) \<and> (\<not> c \<ge> 128 \<longrightarrow> lead_bytes c = Some 1)
   \<and> (c \<ge> 128 \<longrightarrow> utf8_bytes c \<noteq> None \<longrightarrow> lead_bytes c \<noteq> None \<longrightarrow> lead_bytes c = utf8_bytes c)
   \<and> (lead_bytes c \<noteq> None \<longrightarrow> c \<ge> 128 \<longrightarrow> utf8_bytes c \<noteq> None)"

definition lead_bits :: "int \<Rightarrow> bool" where
  "lead_bits n \<longleftrightarrow> (n AND 128 = 0 \<longleftrightarrow> n < 128) \<and> (n AND 224 = 192 \<longleftrightarrow> 192 \<le> n \<and> n < 224)
   \<and> (n AND 240 = 224 \<longleftrightarrow> 224 \<le> n \<and> n < 240) \<and> (n AND 248 = 240 \<longleftrightarrow> 240 \<le> n \<and> n < 248)
   \<and> (n AND 252 = 248 \<longleftrightarrow> 248 \<le> n \<and> n < 252) \<and> (n AND 254 = 252 \<longleftrightarrow> 252 \<le> n \<and> n < 254)"

lemma lead_bits_byte: "lead_bits (uint c)" for c :: byte
proof -
  have "list_all lead_bits [0..255]" by code_simp
  moreover have "uint c \<in> set [0..255]" using unsigned_less[of c, where 'a = int] by simp
  ultimately show ?thesis by (simp only: list_all_iff)
qed

lemma lead_byte_ranges:
  fixes c :: byte
  shows "c AND 128 = 0 \<longleftrightarrow> c < 128" "c AND 224 = 192 \<longleftrightarrow> 192 \<le> c \<and> c < 224"
    "c AND 240 = 224 \<longleftrightarrow> 224 \<le> c \<and> c < 240" "c AND 248 = 240 \<longleftrightarrow> 240 \<le> c \<and> c < 248"
    "c AND 252 = 248 \<longleftrightarrow> 248 \<le> c \<and> c < 252" "c AND 254 = 252 \<longleftrightarrow> 252 \<le> c \<and> c < 254"
  using lead_bits_byte[of c]
  by (simp_all add: lead_bits_def word_uint_eq_iff unsigned_and_eq word_less_def word_le_def)

lemma bytes_agree_all: "bytes_agree c"
proof -
  define u where "u = uint c"
  consider "u < 128" | "128 \<le> u" "u < 192" | "192 \<le> u" "u < 224" | "224 \<le> u" "u < 240" | "240 \<le> u" "u < 248"
    | "248 \<le> u" "u < 252" | "252 \<le> u" "u < 254" | "254 \<le> u"
    by linarith
  then show ?thesis
    by cases (simp_all add: bytes_agree_def lead_bytes_def lead_byte_ranges utf8_bytes_def word_less_def word_le_def
        flip: u_def)
qed

lemma utf8_skip:
  "utf8_loop k a s \<Longrightarrow> k \<le> length s \<and> (\<exists>a'. utf8_loop 0 a' (drop k s))"
proof (induction k arbitrary: a s)
  case (Suc k)
  then obtain c t where s: "s = c # t" by (cases s) auto
  then obtain a1 where "utf8_loop k a1 t" using Suc.prems by (auto simp: Let_def split: if_splits)
  from Suc.IH[OF this] show ?case by (simp add: s)
qed auto

text \<open>In a text that was found to be UTF-8 no character is cut off.\<close>

lemma utf8_char:
  assumes "utf8_loop 0 a words" "words \<noteq> []" "lead_bytes (hd words) = Some k"
  shows "k \<le> length words \<and> 0 < k \<and> (\<exists>a'. utf8_loop 0 a' (drop k words))"
proof -
  obtain c t where w: "words = c # t" using assms(2) by (cases words) auto
  have ag: "bytes_agree c" by (rule bytes_agree_all)
  show ?thesis
  proof (cases "c \<ge> 128")
    case True
    then obtain n a1 where n: "utf8_bytes c = Some n" "utf8_loop (n - 1) a1 t"
      using assms(1) by (auto simp: w Let_def split: if_splits option.splits)
    then have k: "k = n" using ag True assms(3) by (auto simp: bytes_agree_def w)
    have "0 < n" using n(1) by (auto simp: utf8_bytes_def split: if_splits)
    then show ?thesis using utf8_skip[OF n(2)] by (cases n) (auto simp: k w)
  next
    case False
    then have "k = 1" using ag assms(3) by (auto simp: bytes_agree_def w)
    moreover obtain a1 where "utf8_loop 0 a1 t" using assms(1) False by (auto simp: w Let_def split: if_splits)
    ultimately show ?thesis by (auto simp: w)
  qed
qed

lemma dict_entry_take:
  "lead_bytes (hd words) = Some k \<Longrightarrow> k \<le> length words \<Longrightarrow> words \<noteq> [] \<Longrightarrow> dict_entry dict (take k words) = dict_entry dict words"
  by (cases words) (auto simp: dict_entry_def lead_bytes_def code_point_def split: if_splits)

lemma dict_entry_trim:
  assumes "dict_ok dict" "dict_entry dict w = Some e"
  shows "right_trim e = Some (trim e)" "length (trim e) \<le> 6" "trim e \<noteq> []" "length w \<ge> 3" "lead_bytes (hd w) = Some 3"
proof -
  have e: "e = dict (nat (code_point w - PINYIN_UNICODE_START))" "nat (code_point w - PINYIN_UNICODE_START) < 20902"
    and w: "length w \<ge> 3" "lead_bytes (hd w) = Some 3"
    using assms(2) by (auto simp: dict_entry_def PINYIN_UNICODE_START_def PINYIN_UNICODE_END_def split: if_splits)
  show "length w \<ge> 3" "lead_bytes (hd w) = Some 3" by (rule w)+
  have l: "length e = 6" "hd e \<noteq> 32" using assms(1) e by (auto simp: dict_ok_def)
  then have ne: "e \<noteq> []" by auto
  then have "hd e \<in> set (rev e)" by simp
  then show t: "trim e \<noteq> []" using l(2) by (auto simp: trim_def dropWhile_eq_Nil_conv)
  then show "right_trim e = Some (trim e)" using ne by (simp add: right_trim_def trim_def Let_def)
  show "length (trim e) \<le> 6" using l(1) length_dropWhile_le[of "\<lambda>c. c = 32" "rev e"] by (simp add: trim_def)
qed

lemma length_image_char:
  assumes "dict_ok dict"
  shows "length (initial dict w) \<le> length w" "length (syllable dict w) \<le> 2 * length w"
proof -
  have "length (initial dict w) \<le> length w \<and> length (syllable dict w) \<le> 2 * length w"
  proof (cases "dict_entry dict w")
    case (Some e)
    note d = dict_entry_trim[OF assms Some]
    have "length (take 1 (trim e)) \<le> 1" by simp
    then have "length (take 1 (trim e)) \<le> length w" using d(4) by linarith
    then show ?thesis using d(2,4) by (simp add: initial_def syllable_def Some)
  qed (simp add: initial_def syllable_def)
  then show "length (initial dict w) \<le> length w" "length (syllable dict w) \<le> 2 * length w" by simp_all
qed

lemma length_chars: "length (concat (chars words)) \<le> length words"
proof (induction words rule: chars.induct)
  case (1 words)
  show ?case
  proof (cases "words = []")
    case False
    then show ?thesis using 1[OF False]
      by (subst chars.simps) (auto split: option.splits simp: Suc_le_eq)
  qed (simp add: chars.simps)
qed

lemma length_images:
  assumes "dict_ok dict"
  shows "length (concat (map (initial dict) ws)) \<le> length (concat ws)"
    "length (concat (map (syllable dict) ws)) \<le> 2 * length (concat ws)"
proof (induction ws)
  case (Cons w ws)
  case 1
  show ?case using Cons(1) length_image_char(1)[OF assms, of w] by simp
  case 2
  show ?case using Cons(2) length_image_char(2)[OF assms, of w] by simp
qed simp_all

lemma convert_all_pinyin_chars:
  assumes "dict_ok dict" "utf8_loop 0 a words"
    and "length first + length (concat (map (initial dict) (chars words))) < n1"
    and "length full + length (concat (map (syllable dict) (chars words))) < n2"
  shows "convert_all_pinyin dict n1 n2 words first full
    = Some (first @ concat (map (initial dict) (chars words)), full @ concat (map (syllable dict) (chars words)))"
  using assms
proof (induction dict n1 n2 words first full arbitrary: a rule: convert_all_pinyin.induct)
  case (1 dict n1 n2 words first full)
  show ?case
  proof (cases "words = []")
    case True
    then show ?thesis by (simp add: convert_all_pinyin.simps chars.simps)
  next
    case ne: False
    show ?thesis
    proof (cases "lead_bytes (hd words)")
      case None
      then have c: "chars words = [take 1 words]" using ne by (simp add: chars.simps)
      have "dict_entry dict (take 1 words) = None" using ne None by (cases words) (simp_all add: dict_entry_def)
      then have "initial dict (take 1 words) = take 1 words" "syllable dict (take 1 words) = take 1 words"
        by (simp_all add: initial_def syllable_def)
      then show ?thesis using 1(5,6) None ne unfolding c by (subst convert_all_pinyin.simps) (simp add: cat_def)
    next
      case (Some k)
      obtain a' where k: "k \<le> length words" "utf8_loop 0 a' (drop k words)" using utf8_char[OF 1(4) ne Some] by blast
      have c: "chars words = take k words # chars (drop k words)" using ne Some by (subst chars.simps) simp
      note d = dict_entry_take[OF Some k(1) ne, of dict]
      show ?thesis
      proof (cases "dict_entry dict words")
        case None
        have i: "initial dict (take k words) = take k words" "syllable dict (take k words) = take k words"
          using None d by (simp_all add: initial_def syllable_def)
        have "convert_all_pinyin dict n1 n2 (drop k words) (first @ take k words) (full @ take k words)
          = Some ((first @ take k words) @ concat (map (initial dict) (chars (drop k words))),
              (full @ take k words) @ concat (map (syllable dict) (chars (drop k words))))"
          by (rule 1(1)[OF ne Some None _ _ _ 1(3) k(2)]) (use 1(5,6) c i k(1) in \<open>simp_all add: cat_def\<close>)
        then show ?thesis using 1(5,6) c i k(1) ne Some None
          by (subst convert_all_pinyin.simps) (simp add: cat_def)
      next
        case (Some e)
        note t = dict_entry_trim[OF 1(3) Some]
        have k3: "k = 3" using t(5) \<open>lead_bytes (hd words) = Some k\<close> by simp
        have i: "initial dict (take k words) = take 1 (trim e)" "syllable dict (take k words) = trim e"
          using Some d by (simp_all add: initial_def syllable_def)
        have b: "length first + length (take 1 (trim e)) + length (concat (map (initial dict) (chars (drop 3 words)))) < n1"
          "length full + length (trim e) + length (concat (map (syllable dict) (chars (drop 3 words)))) < n2"
          using 1(5,6) c i k3 by (simp_all add: add.assoc)
        then have f: "cat n1 first (take 1 (trim e)) = Some (first @ take 1 (trim e))"
          "cat n2 full (trim e) = Some (full @ trim e)"
          by (simp_all only: cat_def if_True add_lessD1)
        have "convert_all_pinyin dict n1 n2 (drop 3 words) (first @ take 1 (trim e)) (full @ trim e)
          = Some ((first @ take 1 (trim e)) @ concat (map (initial dict) (chars (drop 3 words))),
              (full @ trim e) @ concat (map (syllable dict) (chars (drop 3 words))))"
          by (rule 1(2)[OF ne \<open>lead_bytes (hd words) = Some k\<close> Some t(1) f 1(3) k(2)[unfolded k3]])
            (use b in \<open>simp_all only: length_append\<close>)
        then show ?thesis using c i t(1) f k3 ne \<open>lead_bytes (hd words) = Some k\<close> Some
          by (subst convert_all_pinyin.simps) simp
      qed
    qed
  qed
qed

subsection \<open>Properties\<close>

text \<open>
  C40: for a name of at most 254 bytes that is UTF-8 and not plain ASCII, \<open>cat_pinyin\<close> writes within its three
  buffers and returns the initials of the characters, a bar and their full syllables.
\<close>
theorem cat_pinyin_syllables:
  assumes "dict_ok dict" "is_text_utf8 s" "length s \<le> 254" "mal 1786"
  shows "cat_pinyin dict mal (Some s)
    = Some (Some (concat (map (initial dict) (chars s)) @ 124 # concat (map (syllable dict) (chars s))))"
proof -
  have l: "length (concat (map (initial dict) (chars s))) \<le> 254" "length (concat (map (syllable dict) (chars s))) \<le> 508"
    using length_images[OF assms(1), of "chars s"] length_chars[of s] assms(3) by linarith+
  have "convert_all_pinyin dict 255 1530 s [] []
    = Some ([] @ concat (map (initial dict) (chars s)), [] @ concat (map (syllable dict) (chars s)))"
    by (rule convert_all_pinyin_chars[OF assms(1)]) (use assms(2) l in \<open>simp_all add: is_text_utf8_def\<close>)
  then show ?thesis using assms(2,4) l by (simp add: cat_pinyin_def cat_def)
qed

theorem cat_pinyin_syllables_witness:
  "cat_pinyin (\<lambda>i. [122, 104, 111, 110, 103, 32]) (\<lambda>n. True) (Some [97, 228, 184, 173])
    = Some (Some [97, 122, 124, 97, 122, 104, 111, 110, 103])"
proof -
  have "dict_ok (\<lambda>i. [122, 104, 111, 110, 103, 32])" by (simp add: dict_ok_def)
  moreover have "is_text_utf8 [97, 228, 184, 173]" by code_simp
  moreover have "concat (map (initial (\<lambda>i. [122, 104, 111, 110, 103, 32])) (chars [97, 228, 184, 173])) = [97, 122]" by code_simp
  moreover have "concat (map (syllable (\<lambda>i. [122, 104, 111, 110, 103, 32])) (chars [97, 228, 184, 173]))
    = [97, 122, 104, 111, 110, 103]" by code_simp
  ultimately show ?thesis
    using cat_pinyin_syllables[of "\<lambda>i. [122, 104, 111, 110, 103, 32]" "[97, 228, 184, 173]" "\<lambda>n. True"] by simp
qed

text \<open>A name of 255 bytes, the longest a file can have, overflows the buffer of the initials.\<close>

lemma convert_two_byte_chars:
  "length first < n1 \<Longrightarrow> n1 \<le> length first + 2 * m
    \<Longrightarrow> convert_all_pinyin dict n1 n2 (concat (replicate m [195, 169])) first full = None"
proof (induction m arbitrary: first full)
  case (Suc m)
  have l: "lead_bytes 195 = Some 2" by (simp add: lead_bytes_def)
  then have d: "dict_entry dict ([195, 169] @ t) = None" for t by (simp add: dict_entry_def)
  show ?case
  proof (cases "cat n1 first [195, 169]")
    case None
    then show ?thesis using l d by (subst convert_all_pinyin.simps) (simp add: numeral_2_eq_2)
  next
    case (Some f)
    then have "length f < n1" "n1 \<le> length f + 2 * m" using Suc.prems by (auto simp: cat_def split: if_splits)
    from Suc.IH[OF this] show ?thesis using l d Some
      by (subst convert_all_pinyin.simps) (cases "cat n2 full [195, 169]", simp_all add: numeral_2_eq_2)
  qed
qed simp

lemma longest_name_overflows:
  assumes "mal 1786"
  shows "cat_pinyin dict mal (Some (97 # concat (replicate 127 [195, 169]))) = None"
proof -
  have u: "utf8_loop 0 False (concat (replicate m [195, 169]))" for m
    by (induction m) (simp_all add: utf8_bytes_def)
  have "utf8_loop 0 True (97 # concat (replicate (Suc m) [195, 169]))" for m
    using u[of m] by (simp add: utf8_bytes_def)
  from this[of 126] have t: "is_text_utf8 (97 # concat (replicate 127 [195, 169]))"
    unfolding is_text_utf8_def by (simp only: eval_nat_numeral BitM.simps One_nat_def)
  have "lead_bytes 97 = Some 1" by (simp add: lead_bytes_def)
  then have "convert_all_pinyin dict 255 1530 (97 # concat (replicate m [195, 169])) [] []
      = convert_all_pinyin dict 255 1530 (concat (replicate m [195, 169])) [97] [97]" for m
    by (subst convert_all_pinyin.simps) (simp add: dict_entry_def cat_def)
  also have "\<dots> m = None" if "m = 127" for m by (rule convert_two_byte_chars) (simp_all add: that)
  finally show ?thesis using t assms by (simp add: cat_pinyin_def)
qed

end
