(* ===== verification/Cli_Search.thy ===== *)
theory Cli_Search
  imports Lft_Search_Folder Index_Round
begin

text \<open>
  The searches of the command line tool, \<open>src/src/cli/src/console_test.c\<close>, and the index of keywords that
  \<open>scan\<close> (\<open>src/src/cli/src/main.c\<close>) makes for them.

  A search prints lines of an offset, the letter of a file or a folder, and a path, and the number of the entries found.
\<close>

type_synonym shown = "(u32 \<times> bool \<times> cstring) list"

record cli_env =
  ce_al :: allocator
  ce_mal :: "nat \<Rightarrow> bool"
  ce_regcomp :: "cstring \<Rightarrow> (cstring \<Rightarrow> bool) option"
  ce_widen :: "cstring \<Rightarrow> u32 list option"
  ce_narrow :: "u32 list \<Rightarrow> cstring option"
  ce_pinyin :: "cstring \<Rightarrow> cstring option"
  ce_pcre :: "cstring \<Rightarrow> (cstring \<Rightarrow> bool) option"
  ce_pool :: u32

subsection \<open>The index of the names of a buffer\<close>

text \<open>The loop of \<open>scan\<close>: every name but the empty ones, which end a folder.\<close>

partial_function (option) index_names :: "cli_env \<Rightarrow> fs_buf \<Rightarrow> u32 \<Rightarrow> fs_allmem_index \<Rightarrow> fs_allmem_index option" where
  "index_names env b name_off ami =
    (if name_off < get_tail b then do {
       s \<leftarrow> get_name b name_off;
       ami \<leftarrow> (if 0 < length s then add_index (ce_widen env) (ce_narrow env) (ce_mal env) ami s name_off else Some ami);
       name_off \<leftarrow> next_name b name_off;
       index_names env b name_off ami }
     else Some ami)"

subsection \<open>Printing\<close>

abbreviation (input) MAX_RESULTS :: nat where "MAX_RESULTS \<equiv> 100"
abbreviation (input) PATH_MAX :: nat where "PATH_MAX \<equiv> 4096"

text \<open>The lines for the entries of a page; \<open>path\<close> is the buffer on the stack.\<close>

fun show_entries :: "fs_buf \<Rightarrow> byte list \<Rightarrow> u32 list \<Rightarrow> (shown \<times> fs_buf) option" where
  "show_entries b path [] = Some ([], b)"
| "show_entries b path (off # offs) = do {
     (path, dst, b) \<leftarrow> get_path_by_name_off b off path (of_nat PATH_MAX);
     p \<leftarrow> cstr_at path (nat dst);
     (f, b) \<leftarrow> is_file b off;
     (sh, b) \<leftarrow> show_entries b path offs;
     Some ((off, f, p) # sh, b) }"

definition path_buf :: "byte list" where
  "path_buf = 48 # replicate (PATH_MAX - 1) 0"

subsection \<open>The search in the buffer\<close>

text \<open>\<open>match_str\<close> of the tool, and the progress function, which never stops a search.\<close>

definition match_name :: "cstring \<Rightarrow> cstring \<Rightarrow> bool" where
  "match_name qy name \<longleftrightarrow> strstr name qy \<noteq> None"

definition progress_function :: "u32 \<Rightarrow> cstring \<Rightarrow> bool" where
  "progress_function n cur_file = False"

text \<open>The pages after the first one, which are only counted.\<close>

partial_function (option) count_pages :: "fs_buf \<Rightarrow> u32 \<Rightarrow> (cstring \<Rightarrow> bool) \<Rightarrow> u32 \<Rightarrow> nat \<Rightarrow> u32 \<Rightarrow> (u32 \<times> fs_buf) option" where
  "count_pages b end_off matches st_off n tot =
    (if n = MAX_RESULTS then do {
       (name_offs, st_off, b) \<leftarrow> search_files b st_off end_off (of_nat n) matches (Some progress_function);
       count_pages b end_off matches st_off (length name_offs) (tot + of_nat (length name_offs)) }
     else Some (tot, b))"

text \<open>A query that is no regular expression is looked for as it is.\<close>

definition search_by_fsbuf :: "cli_env \<Rightarrow> fs_buf \<Rightarrow> cstring \<Rightarrow> (shown \<times> u32 \<times> fs_buf) option" where
  "search_by_fsbuf env b qy = do {
     let end_off = get_tail b;
     let st_off = first_name b;
     let matches = (case ce_regcomp env qy of Some re \<Rightarrow> re | None \<Rightarrow> match_name qy);
     (name_offs, st_off, b) \<leftarrow> search_files b st_off end_off (of_nat MAX_RESULTS) matches (Some progress_function);
     (sh, b) \<leftarrow> show_entries b path_buf name_offs;
     (tot, b) \<leftarrow> count_pages b end_off matches st_off (length name_offs) (of_nat (length name_offs));
     Some (sh, tot, b) }"

subsection \<open>The search with the index\<close>

text \<open>The result code, the query without its end of line, and the first \<open>MAX_KW_LEN\<close> characters of it.\<close>

definition get_short_query :: "cli_env \<Rightarrow> cstring \<Rightarrow> int \<times> cstring \<times> cstring" where
  "get_short_query env cmd =
    (if cmd = [] then (-1, cmd, [])
     else let cmd = (if last cmd = 10 then butlast cmd else cmd) in
       if cmd = [] then (1, cmd, [])
       else (case ce_widen env cmd of None \<Rightarrow> (2, cmd, [])
         | Some w \<Rightarrow> (case ce_narrow env (if length w > MAX_KW_LEN then take MAX_KW_LEN w else w) of
             None \<Rightarrow> (3, cmd, [])
           | Some s \<Rightarrow> (0, cmd, s))))"

text \<open>The loop over the offsets of a keyword: a query that was cut is compared with the name, but only for the
  entries that are printed.\<close>

fun index_results :: "fs_buf \<Rightarrow> byte list \<Rightarrow> cstring \<Rightarrow> bool \<Rightarrow> u32 list \<Rightarrow> u32 \<Rightarrow> (shown \<times> u32 \<times> fs_buf) option" where
  "index_results b path qy truncated [] n = Some ([], n, b)"
| "index_results b path qy truncated (off # offs) n =
    (if n \<le> of_nat MAX_RESULTS then do {
       skip \<leftarrow> (if truncated then map_option (\<lambda>name. strstr name qy = None) (get_name b off) else Some False);
       if skip then index_results b path qy truncated offs n
       else do {
         (path, dst, b) \<leftarrow> get_path_by_name_off b off path (of_nat PATH_MAX);
         p \<leftarrow> cstr_at path (nat dst);
         (f, b) \<leftarrow> is_file b off;
         (sh, n, b) \<leftarrow> index_results b path qy truncated offs (n + 1);
         Some ((off, f, p) # sh, n, b) } }
     else index_results b path qy truncated offs (n + 1))"

definition search_by_index :: "cli_env \<Rightarrow> fs_index option \<Rightarrow> fs_buf \<Rightarrow> cstring \<Rightarrow> (shown \<times> u32 \<times> fs_buf) option" where
  "search_by_index env fsi b qy =
    (case fsi of None \<Rightarrow> Some ([], 0, b)
     | Some fsi \<Rightarrow>
       let (ret, qy, short_query) = get_short_query env qy in
       if ret \<noteq> 0 then Some ([], 0, b)
       else do {
         inkw \<leftarrow> get_index_keyword (ce_mal env) fsi short_query;
         (sh, n, b) \<leftarrow> index_results b path_buf qy (length short_query < length qy)
           (case inkw of None \<Rightarrow> [] | Some k \<Rightarrow> snd k) 1;
         Some (sh, n - 1, b) })"

subsection \<open>The tokens of the index loop\<close>

text \<open>The number of keywords of the names.\<close>

definition parts_of :: "cli_env \<Rightarrow> cstring \<Rightarrow> nat" where
  "parts_of env s = (case ce_widen env s of None \<Rightarrow> 0 | Some w \<Rightarrow> length (name_parts w))"

definition bounded :: "nat \<Rightarrow> fs_allmem_index \<Rightarrow> bool" where
  "bounded n ami \<longleftrightarrow> (\<forall>h\<in>set (indice ami). length (kwords h) \<le> n \<and> (\<forall>k\<in>set (kwords h). length (fsbuf_offsets k) \<le> n))"

lemma bounded_mono: "bounded n ami \<Longrightarrow> n \<le> n' \<Longrightarrow> bounded n' ami"
  unfolding bounded_def by (meson order_trans)

lemma bounded_Suc: "bounded n ami \<Longrightarrow> bounded (Suc n) ami"
  using bounded_mono[of n ami "Suc n"] by simp

lemma bounded_bucket:
  assumes "index_ok ami" "bounded n ami"
    "\<And>ih. bucket_of ami q = Some ih \<Longrightarrow> ih < length (indice ami) \<Longrightarrow> length (kwords (indice ami ! ih)) \<le> n
      \<Longrightarrow> (\<And>k. k \<in> set (kwords (indice ami ! ih)) \<Longrightarrow> length (fsbuf_offsets k) \<le> n) \<Longrightarrow> P"
  shows P
  using bucket_less[OF assms(1), of q] assms(2,3) by (metis bounded_def nth_mem)

lemma bounded_set:
  "bounded n ami \<Longrightarrow> length (kwords h) \<le> n \<Longrightarrow> (\<And>k. k \<in> set (kwords h) \<Longrightarrow> length (fsbuf_offsets k) \<le> n)
    \<Longrightarrow> bounded n (set_bucket ami ih h)"
  using set_update_subset_insert[of "indice ami" ih h] by (auto simp: bounded_def)

lemma insert_offset_total:
  assumes "length (fsbuf_offsets k) + 1 < 2 ^ 28"
  shows "\<exists>k'. insert_offset mal k off = Some k' \<and> length (fsbuf_offsets k') \<le> length (fsbuf_offsets k) + 1"
proof -
  have "length (take p xs @ off # drop p xs) \<le> length xs + 1" for p xs by simp
  then show ?thesis using assms unfolding insert_offset_def by (simp add: Let_def)
qed

lemma add_index_allmem_total:
  assumes ok: "index_ok ami" and b: "bounded n ami" and n: "n + 1 < 2 ^ 28"
  shows "\<exists>ami'. add_index_allmem mal ami q off = Some ami' \<and> bounded (n + 1) ami'"
proof (rule bounded_bucket[OF ok b, of q])
  fix ih assume ih: "bucket_of ami q = Some ih" "ih < length (indice ami)"
    and l: "length (kwords (indice ami ! ih)) \<le> n"
    and o: "\<And>k. k \<in> set (kwords (indice ami ! ih)) \<Longrightarrow> length (fsbuf_offsets k) \<le> n"
  have ap: "\<exists>found ami1. get_index_keyword_for_append mal ami q = Some (found, ami1) \<and> length (kwords (indice ami1 ! ih)) \<le> n + 1
      \<and> (\<forall>k\<in>set (kwords (indice ami1 ! ih)). length (fsbuf_offsets k) \<le> n) \<and> bounded (n + 1) ami1
      \<and> (\<forall>jh i. found = Some (jh, i) \<longrightarrow> jh = ih)"
  proof (cases "find_keyword (kwords (indice ami ! ih)) q")
    case (Some i)
    then show ?thesis using ih l o bounded_mono[OF b, of "n + 1"]
      by (auto simp: get_index_keyword_for_append_def get_index_keyword_allmem_def)
  next
    case None
    let ?h = "indice ami ! ih"
    have s: "bounded (n + 1) (set_bucket ami ih (?h\<lparr>ih_empty := e\<rparr>))" for e
      using l o by (intro bounded_set[OF bounded_mono[OF b]]) (auto intro: le_SucI)
    have s0: "bounded (n + 1) (set_bucket ami ih ?h)"
      using l o by (intro bounded_set[OF bounded_mono[OF b]]) (auto intro: le_SucI)
    have a: "bounded (n + 1) (set_bucket ami ih (?h\<lparr>kwords := kwords ?h @ [k], ih_empty := e\<rparr>))" if "fsbuf_offsets k = []" for k e
      using l o that by (intro bounded_set[OF bounded_mono[OF b]]) (auto intro: le_SucI)
    have e: "init_index_keyword mal q = Some k \<Longrightarrow> fsbuf_offsets k = []" for k
      by (auto simp: init_index_keyword_def split: if_splits)
    have l2: "\<not> 2 ^ 28 \<le> length (kwords ?h) + 1" using l n by simp
    show ?thesis
      using None ih l l2 o s[of 4] s0 a e bounded_mono[OF b, of "n + 1"]
      by (cases "init_index_keyword mal q")
        (auto simp: get_index_keyword_for_append_def get_index_keyword_allmem_def Let_def)
  qed
  then obtain found ami1 where f: "get_index_keyword_for_append mal ami q = Some (found, ami1)"
    "length (kwords (indice ami1 ! ih)) \<le> n + 1" "\<forall>k\<in>set (kwords (indice ami1 ! ih)). length (fsbuf_offsets k) \<le> n"
    "bounded (n + 1) ami1" "\<And>jh i. found = Some (jh, i) \<Longrightarrow> jh = ih"
    by blast
  show ?thesis
  proof (cases found)
    case None
    then show ?thesis using f by (simp add: add_index_allmem_def)
  next
    case (Some p)
    then obtain i where i: "found = Some (ih, i)" using f(5) by (cases p) auto
    have "i < length (kwords (indice ami1 ! ih))" using for_append_ok[OF ok f(1)] i ih by auto
    then have len: "length (fsbuf_offsets (kwords (indice ami1 ! ih) ! i)) \<le> n" using f(3) by simp
    obtain k where k: "insert_offset mal (kwords (indice ami1 ! ih) ! i) off = Some k" "length (fsbuf_offsets k) \<le> n + 1"
      using insert_offset_total[of "kwords (indice ami1 ! ih) ! i"] len n by (metis add_le_cancel_right le_less_trans order_trans)
    have "bounded (n + 1) (set_bucket ami1 ih ((indice ami1 ! ih)\<lparr>kwords := (kwords (indice ami1 ! ih))[i := k]\<rparr>))"
      using f(2,3) k(2) set_update_subset_insert[of "kwords (indice ami1 ! ih)" i k]
      by (intro bounded_set[OF f(4)]) (auto intro: le_SucI)
    then show ?thesis using f(1) i k(1) by (simp add: add_index_allmem_def Let_def)
  qed
qed

text \<open>A property of all keywords.\<close>

definition keywords_ok :: "(cstring \<Rightarrow> bool) \<Rightarrow> fs_allmem_index \<Rightarrow> bool" where
  "keywords_ok P ami \<longleftrightarrow> (\<forall>h\<in>set (indice ami). \<forall>k\<in>set (kwords h). P (keyword k))"

lemma keywords_set: "keywords_ok P ami \<Longrightarrow> (\<And>k. k \<in> set (kwords h) \<Longrightarrow> P (keyword k)) \<Longrightarrow> keywords_ok P (set_bucket ami ih h)"
  using set_update_subset_insert[of "indice ami" ih h] by (auto simp: keywords_ok_def)

lemma keywords_bucket:
  "index_ok ami \<Longrightarrow> keywords_ok P ami \<Longrightarrow> bucket_of ami q = Some ih \<Longrightarrow> k \<in> set (kwords (indice ami ! ih)) \<Longrightarrow> P (keyword k)"
  by (rule bucket_less[of ami q]) (auto simp: keywords_ok_def)

lemma add_index_keywords:
  assumes ok: "index_ok ami" and k: "keywords_ok P ami" "P q" and a: "add_index_allmem mal ami q off = Some ami'"
  shows "keywords_ok P ami'"
proof -
  obtain found ami1 where f: "get_index_keyword_for_append mal ami q = Some (found, ami1)"
    using a by (auto simp: add_index_allmem_def split: Option.bind_splits)
  have init: "init_index_keyword mal q = Some x \<Longrightarrow> keyword x = q" for x by (auto simp: init_index_keyword_def split: if_splits)
  have k1: "keywords_ok P ami1"
    using f k keywords_bucket[OF ok k(1)] init
    by (auto simp: get_index_keyword_for_append_def Let_def split: Option.bind_splits option.splits if_splits intro!: keywords_set)
  show ?thesis
  proof (cases found)
    case None
    then show ?thesis using a f k1 by (simp add: add_index_allmem_def)
  next
    case (Some p)
    then obtain ih i where p: "found = Some (ih, i)" by (cases p) auto
    have i: "index_ok ami1" "bucket_of ami1 q = Some ih" "i < length (kwords (indice ami1 ! ih))" "keyword (kwords (indice ami1 ! ih) ! i) = q"
      using for_append_ok[OF ok f] p by auto
    obtain x where x: "insert_offset mal (kwords (indice ami1 ! ih) ! i) off = Some x"
      "ami' = set_bucket ami1 ih ((indice ami1 ! ih)\<lparr>kwords := (kwords (indice ami1 ! ih))[i := x]\<rparr>)"
      using a f p by (auto simp: add_index_allmem_def Let_def split: Option.bind_splits)
    have "keyword x = q" using x(1) i(4) by (auto simp: insert_offset_def Let_def split: if_splits)
    then show ?thesis unfolding x(2)
      using keywords_bucket[OF i(1) k1 i(2)] k(2) set_update_subset_insert[of "kwords (indice ami1 ! ih)" i x]
      by (intro keywords_set[OF k1]) auto
  qed
qed

text \<open>The size of an index: its keywords and their offsets.\<close>

definition bucket_size :: "index_hash \<Rightarrow> nat" where
  "bucket_size h = sum_list (map (\<lambda>k. 1 + length (fsbuf_offsets k)) (kwords h))"

definition index_size :: "fs_allmem_index \<Rightarrow> nat" where
  "index_size ami = sum_list (map bucket_size (indice ami))"

lemma index_size_set:
  assumes "ih < length (indice ami)" "bucket_size h \<le> bucket_size (indice ami ! ih) + d"
  shows "index_size (set_bucket ami ih h) \<le> index_size ami + d"
proof -
  have "bucket_size (indice ami ! ih) \<le> sum_list (map bucket_size (indice ami))"
    using assms(1) by (intro member_le_sum_list) simp_all
  then show ?thesis using assms by (simp add: index_size_def map_update sum_list_update)
qed

lemma index_size_Suc:
  "ih < length (indice ami) \<Longrightarrow> bucket_size h \<le> Suc (bucket_size (indice ami ! ih))
    \<Longrightarrow> index_size (set_bucket ami ih h) \<le> Suc (index_size ami)"
  using index_size_set[of ih ami h 1] by simp

lemma add_index_size:
  assumes ok: "index_ok ami" and a: "add_index_allmem mal ami q off = Some ami'"
  shows "index_size ami' \<le> index_size ami + 2"
proof -
  obtain found ami1 where f: "get_index_keyword_for_append mal ami q = Some (found, ami1)"
    using a by (auto simp: add_index_allmem_def split: Option.bind_splits)
  obtain jh where jh: "bucket_of ami q = Some jh" "jh < length (indice ami)" using bucket_less[OF ok] by blast
  have init: "init_index_keyword mal q = Some x \<Longrightarrow> fsbuf_offsets x = []" for x by (auto simp: init_index_keyword_def split: if_splits)
  have 1: "index_size ami1 \<le> index_size ami + 1"
    using f jh init
    by (auto simp: get_index_keyword_for_append_def Let_def bucket_size_def split: Option.bind_splits option.splits if_splits
        intro!: index_size_Suc)
  show ?thesis
  proof (cases found)
    case None
    then show ?thesis using a f 1 by (simp add: add_index_allmem_def)
  next
    case (Some p)
    then obtain ih i where p: "found = Some (ih, i)" by (cases p) auto
    have i: "ih < length (indice ami1)" "i < length (kwords (indice ami1 ! ih))" using for_append_ok[OF ok f] p by auto
    let ?ks = "kwords (indice ami1 ! ih)"
    obtain x where x: "insert_offset mal (?ks ! i) off = Some x" "ami' = set_bucket ami1 ih ((indice ami1 ! ih)\<lparr>kwords := ?ks[i := x]\<rparr>)"
      using a f p by (auto simp: add_index_allmem_def Let_def split: Option.bind_splits)
    have "length (fsbuf_offsets x) \<le> length (fsbuf_offsets (?ks ! i)) + 1"
      using x(1) by (auto simp: insert_offset_def Let_def split: if_splits)
    moreover have "1 + length (fsbuf_offsets (?ks ! i)) \<le> sum_list (map (\<lambda>k. 1 + length (fsbuf_offsets k)) ?ks)"
      using i(2) by (intro member_le_sum_list) (auto simp: image_iff)
    ultimately have "bucket_size ((indice ami1 ! ih)\<lparr>kwords := ?ks[i := x]\<rparr>) \<le> bucket_size (indice ami1 ! ih) + 1"
      using i(2) by (simp add: bucket_size_def map_update sum_list_update)
    from index_size_set[OF i(1) this] show ?thesis using 1 x(2) by simp
  qed
qed

lemma add_parts_keywords:
  assumes "index_ok ami" "keywords_ok P ami" "\<forall>w\<in>set ps. \<forall>s. narrow w = Some s \<longrightarrow> P s" "add_parts narrow mal ps off ami = Some ami'"
  shows "keywords_ok P ami' \<and> count ami' = count ami \<and> index_size ami' \<le> index_size ami + 2 * length ps"
  using assms
proof (induction ps arbitrary: ami)
  case (Cons p ps)
  show ?case
  proof (cases "narrow p")
    case None
    then show ?thesis using Cons by force
  next
    case (Some q)
    then obtain ami1 where a: "add_index_allmem mal ami q off = Some ami1" "add_parts narrow mal ps off ami1 = Some ami'"
      using Cons.prems(4) by (auto split: Option.bind_splits)
    have "P q" using Cons.prems(3) Some by simp
    from add_index_keywords[OF Cons.prems(1,2) this a(1)] add_index_size[OF Cons.prems(1) a(1)] add_index_ok[OF Cons.prems(1) a(1)] Cons.IH[OF _ _ _ a(2)] Cons.prems(3)
    show ?thesis by simp
  qed
qed simp

lemma add_parts_total:
  assumes "index_ok ami" "bounded n ami" "n + length ps < 2 ^ 28"
  shows "\<exists>ami'. add_parts narrow mal ps off ami = Some ami' \<and> bounded (n + length ps) ami'"
  using assms
proof (induction ps arbitrary: n ami)
  case (Cons p ps)
  show ?case
  proof (cases "narrow p")
    case None
    then show ?thesis using Cons.IH[OF Cons.prems(1,2)] Cons.prems(3) by (auto dest: bounded_Suc)
  next
    case (Some q)
    obtain ami1 where a: "add_index_allmem mal ami q off = Some ami1" "bounded (n + 1) ami1"
      using add_index_allmem_total[OF Cons.prems(1,2), of mal q off] Cons.prems(3) by auto
    have "index_ok ami1" using add_index_ok[OF Cons.prems(1) a(1)] by simp
    from Cons.IH[OF this a(2)] Some a(1) Cons.prems(3) show ?thesis by auto
  qed
qed simp

text \<open>The keywords of a name.\<close>

definition has_keyword :: "cli_env \<Rightarrow> cstring \<Rightarrow> cstring \<Rightarrow> bool" where
  "has_keyword env q name \<longleftrightarrow> (\<exists>w us p vs. ce_widen env name = Some w \<and> w = us @ p @ vs \<and> p \<noteq> [] \<and> length p \<le> 8
     \<and> ce_narrow env p = Some q)"

lemma add_index_name:
  assumes "index_ok ami" "bounded n ami" "n + parts_of env name < 2 ^ 28" "ce_mal env = (\<lambda>n. True)"
  shows "\<exists>ami'. add_index (ce_widen env) (ce_narrow env) (ce_mal env) ami name off = Some ami'
    \<and> index_ok ami' \<and> bounded (n + parts_of env name) ami' \<and> count ami' = count ami
    \<and> index_size ami' \<le> index_size ami + 2 * parts_of env name
    \<and> (keywords_ok P ami \<and> (\<forall>w s. length w \<le> 8 \<and> ce_narrow env w = Some s \<longrightarrow> P s) \<longrightarrow> keywords_ok P ami')
    \<and> (\<forall>q. set (offsets ami' q) = set (offsets ami q) \<union> (if has_keyword env q name then {off} else {}))"
proof (cases "ce_widen env name")
  case None
  then show ?thesis using assms by (simp add: add_index_def parts_of_def has_keyword_def)
next
  case (Some w)
  then obtain ami' where a: "add_parts (ce_narrow env) (ce_mal env) (name_parts w) off ami = Some ami'" "bounded (n + parts_of env name) ami'"
    using add_parts_total[OF assms(1,2), of "name_parts w" "ce_narrow env" "ce_mal env" off] assms(3) by (auto simp: parts_of_def)
  have i: "add_index (ce_widen env) (ce_narrow env) (\<lambda>n. True) ami name off = Some ami'"
    using a(1) Some unfolding assms(4) by (simp add: add_index_def)
  have "count ami' = count ami \<and> index_size ami' \<le> index_size ami + 2 * parts_of env name \<and> (keywords_ok P ami \<and> (\<forall>w s. length w \<le> 8 \<and> ce_narrow env w = Some s \<longrightarrow> P s) \<longrightarrow> keywords_ok P ami')"
    using name_parts_set[of w] add_parts_keywords[OF assms(1) _ _ a(1), of P] add_parts_keywords[OF assms(1) _ _ a(1), of "\<lambda>s. True"]
    by (auto simp: keywords_ok_def parts_of_def Some)
  then show ?thesis
    using i a(2) add_index_find[OF assms(1) Some i] Some unfolding assms(4) by (simp add: has_keyword_def)
qed

lemma index_names_walks:
  assumes "walks b a ts" "unat (tail b) = a + toks_size ts" "index_ok ami" "bounded n ami" "ce_mal env = (\<lambda>n. True)"
    and "n + sum_list (map (\<lambda>t. parts_of env (fst t)) ts) < 2 ^ 28"
  shows "\<exists>ami'. index_names env b (of_nat a) ami = Some ami' \<and> index_ok ami'
    \<and> bounded (n + sum_list (map (\<lambda>t. parts_of env (fst t)) ts)) ami' \<and> count ami' = count ami
    \<and> index_size ami' \<le> index_size ami + 2 * sum_list (map (\<lambda>t. parts_of env (fst t)) ts)
    \<and> (keywords_ok P ami \<and> (\<forall>w s. length w \<le> 8 \<and> ce_narrow env w = Some s \<longrightarrow> P s) \<longrightarrow> keywords_ok P ami')
    \<and> (\<forall>q. set (offsets ami' q) = set (offsets ami q) \<union> of_nat ` set (hits (has_keyword env q) a ts))"
  using assms
proof (induction ts arbitrary: a ami n)
  case Nil
  then have "unat (of_nat a :: u32) = a" using unsigned_less[of "tail b", where 'a = nat] by (simp add: unat_of_nat32)
  then have "\<not> (of_nat a :: u32) < tail b" using Nil.prems(2) by (simp add: word_less_nat_alt)
  then have "index_names env b (of_nat a) ami = Some ami" by (simp add: index_names.simps get_tail_def)
  then show ?case using Nil by simp
next
  case (Cons t ts)
  obtain nm s where t: "t = (nm, s)" by (cases t)
  have w: "cstr_at (head b) a = Some nm" "next_name b (of_nat a) = Some (of_nat (a + s))" "0 < s" "walks b (a + s) ts"
    using Cons.prems(1) t by simp_all
  have ls: "a < unat (tail b)" using Cons.prems(2) w(3) t by simp
  then have ua: "unat (of_nat a :: u32) = a" using unsigned_less[of "tail b", where 'a = nat] by (simp add: unat_of_nat32)
  have lt: "(of_nat a :: u32) < tail b" using ls ua by (simp add: word_less_nat_alt)
  obtain ami1 where a1: "(if 0 < length nm then add_index (ce_widen env) (ce_narrow env) (ce_mal env) ami nm (of_nat a) else Some ami) = Some ami1"
    "index_ok ami1" "bounded (n + parts_of env nm) ami1" "count ami1 = count ami"
    "index_size ami1 \<le> index_size ami + 2 * parts_of env nm"
    "keywords_ok P ami \<and> (\<forall>w s. length w \<le> 8 \<and> ce_narrow env w = Some s \<longrightarrow> P s) \<longrightarrow> keywords_ok P ami1"
    "\<And>q. set (offsets ami1 q) = set (offsets ami q) \<union> (if nm \<noteq> [] \<and> has_keyword env q nm then {of_nat a} else {})"
  proof (cases "nm = []")
    case True
    then show ?thesis using that Cons.prems(3) bounded_mono[OF Cons.prems(4), of "n + parts_of env nm"] by simp
  next
    case False
    then show ?thesis using add_index_name[OF Cons.prems(3,4), of env nm "of_nat a" P] Cons.prems(5,6) t that by auto
  qed
  have step: "index_names env b (of_nat a) ami = index_names env b (of_nat (a + s)) ami1"
    using lt w(1,2) a1(1) ua by (subst index_names.simps) (simp add: get_tail_def get_name_def del: of_nat_add)
  obtain ami' where "index_names env b (of_nat (a + s)) ami1 = Some ami'" "index_ok ami'"
    "bounded (n + parts_of env nm + sum_list (map (\<lambda>t. parts_of env (fst t)) ts)) ami'" "count ami' = count ami1"
    "index_size ami' \<le> index_size ami1 + 2 * sum_list (map (\<lambda>t. parts_of env (fst t)) ts)"
    "keywords_ok P ami1 \<and> (\<forall>w s. length w \<le> 8 \<and> ce_narrow env w = Some s \<longrightarrow> P s) \<longrightarrow> keywords_ok P ami'"
    "\<forall>q. set (offsets ami' q) = set (offsets ami1 q) \<union> of_nat ` set (hits (has_keyword env q) (a + s) ts)"
    using Cons.IH[OF w(4) _ a1(2,3) Cons.prems(5)] Cons.prems(2,6) t by auto
  then show ?case using step a1(4-7) t by (auto simp: add.assoc)
qed

end
