(* ===== verification/Cli_Find.thy ===== *)
theory Cli_Find
  imports Cli_Search Search_Pieces
begin

text \<open>
  The two searches of the command line tool find the same entries.
\<close>

subsection \<open>A page of a search\<close>

lemma search_files_loop_progress:
  assumes "search_files_loop b mo sz m pcf off acc = Some y" "pcf \<in> {None, Some progress_function}"
    "pcf' \<in> {None, Some progress_function}"
  shows "search_files_loop b mo sz m pcf' off acc = Some y"
  using assms
proof (induction rule: search_files_loop.raw_induct[rotated, consumes 1, case_names 1])
  case (1 loop b mo sz m pcf off acc y)
  have c: "(case p of None \<Rightarrow> False | Some f \<Rightarrow> f n nm) = False" if "p \<in> {None, Some progress_function}" for p n nm
    using that by (auto simp: progress_function_def)
  show ?case
    using 1 c[OF 1(3)] c[OF 1(4)] by (subst search_files_loop.simps) (auto split: if_splits option.splits Option.bind_splits)
qed

lemma search_files_progress: "search_files b st en sz m (Some progress_function) = search_files b st en sz m None"
proof -
  have "search_files_loop b mo sz m (Some progress_function) off acc = search_files_loop b mo sz m None off acc" for b mo off acc
    using search_files_loop_progress[of b mo sz m "Some progress_function" off acc _ None]
      search_files_loop_progress[of b mo sz m None off acc _ "Some progress_function"]
    by (cases "search_files_loop b mo sz m None off acc"; cases "search_files_loop b mo sz m (Some progress_function) off acc") auto
  then show ?thesis by (simp add: search_files_def)
qed

lemma count_pages_all:
  assumes r: "represents b root ks" "lock b = Unlocked" and "layout ks = us @ ts"
    and "fs = found m (first_pos root + toks_size us) ts (unat (tail b))"
  shows "count_pages b (tail b) m (of_nat (first_pos root + toks_size us)) n tot
    = Some (if n = 100 then tot + of_nat (length fs) else tot, b)"
  using assms(3,4)
proof (induction "length ts" arbitrary: us ts fs n tot rule: less_induct)
  case less
  show ?case
  proof (cases "n = 100")
    case False
    then show ?thesis by (simp add: count_pages.simps)
  next
    case True
    let ?a = "first_pos root + toks_size us" and ?e = "unat (tail b)"
    obtain xs ys where p: "ts = xs @ ys" "search_files b (of_nat ?a) (tail b) 100 m None
        = Some (map of_nat (found m ?a xs ?e), of_nat (first_pos root + toks_size (us @ xs)), b)"
      "found m ?a xs ?e = take 100 fs"
      using search_files_page[OF r less.prems(1) refl, of "tail b" 100 m] unfolding less.prems(2) by auto
    let ?n = "length (found m ?a xs ?e)"
    have f: "fs = found m ?a xs ?e @ found m (first_pos root + toks_size (us @ xs)) ys ?e"
      unfolding less.prems(2) p(1) found_append by (simp add: add.assoc)
    have s: "count_pages b (tail b) m (of_nat ?a) n tot
        = count_pages b (tail b) m (of_nat (first_pos root + toks_size (us @ xs))) ?n (tot + of_nat ?n)"
      using True p(2) by (subst count_pages.simps) (simp add: search_files_progress del: of_nat_add)
    have l: "layout ks = (us @ xs) @ ys" using less.prems(1) p(1) by simp
    show ?thesis
    proof (cases "?n = 100")
      case True
      then have "xs \<noteq> []" by (auto simp: found_def)
      then have "length ys < length ts" using p(1) by simp
      from less.hyps[OF this l refl, of ?n "tot + of_nat ?n"] show ?thesis
        using s True \<open>n = 100\<close> arg_cong[OF f, of length] by (simp add: add.assoc)
    next
      case False
      then have "length fs = ?n" using p(3) by simp
      moreover have "count_pages b (tail b) m (of_nat (first_pos root + toks_size (us @ xs))) ?n (tot + of_nat ?n) = Some (tot + of_nat ?n, b)"
        using False by (subst count_pages.simps) simp
      ultimately show ?thesis using s \<open>n = 100\<close> by simp
    qed
  qed
qed

subsection \<open>The lines\<close>

text \<open>The line for the entry at an offset: file or folder, and its path.\<close>

definition entry_line :: "cstring \<Rightarrow> node list \<Rightarrow> nat \<Rightarrow> u32 \<times> bool \<times> cstring \<Rightarrow> bool" where
  "entry_line root ks x e \<longleftrightarrow> (\<exists>fs ls k rs. ks = plug fs (ls @ k # rs) \<and> x = epos (first_pos root) fs ls
     \<and> e = (of_nat x, is_File k, root @ frame_path fs @ nname k))"

definition paths_fit :: "cstring \<Rightarrow> node list \<Rightarrow> bool" where
  "paths_fit root ks \<longleftrightarrow> (\<forall>x p. path_at root ks x p \<longrightarrow> length p < 4096)"

text \<open>What the calls for one line yield, whatever the buffer on the stack holds.\<close>

definition prints :: "fs_buf \<Rightarrow> u32 \<Rightarrow> u32 \<times> bool \<times> cstring \<Rightarrow> bool" where
  "prints b off e \<longleftrightarrow> (case e of (o', f, p) \<Rightarrow> o' = off \<and> is_file b off = Some (f, b)
     \<and> (\<forall>buf. length buf = 4096 \<longrightarrow> (\<exists>buf' d. get_path_by_name_off b off buf 4096 = Some (buf', d, b)
          \<and> length buf' = 4096 \<and> cstr_at buf' (nat d) = Some p)))"

lemma prints_entry:
  assumes "represents b root ks" "lock b = Unlocked" "paths_fit root ks"
    and "ks = plug fs (ls @ k # rs)" "x = epos (first_pos root) fs ls"
  shows "\<exists>e. entry_line root ks x e \<and> prints b (of_nat x) e"
proof -
  define p where "p = root @ frame_path fs @ nname k"
  let ?b = "b\<lparr>lock := Readers 1\<rparr>"
  have r: "represents ?b root (plug fs (ls @ k # rs))" using assms(1,4) by simp
  have p: "path_of root (fs, ls, k, rs) = p" by (simp add: p_def path_of_def frame_path_names)
  have lk: "rdlock b = Some ?b" "unlock ?b = Some b" using assms(2) by (simp_all add: rdlock_def unlock_def)
  have "path_at root ks x p" using assms(4,5) by (auto simp: path_at_def p_def)
  then have l: "length p < 4096" using assms(3) unfolding paths_fit_def by blast
  have c: "is_cstr p" using is_cstr_path_of[of root "(fs, ls, k, rs)"] r unfolding p by (auto elim!: representsE)
  have f: "is_file b (of_nat x) = Some (is_File k, b)"
    using region_is_file[of ?b "first_pos root" fs ls k rs] r lk assms(5) by (simp add: is_file_def represents_def)
  have g: "get_path_by_name_off b (of_nat x) buf 4096 = Some (take (4096 - length p - 1) buf @ p @ [0], int (4096 - length p - 1), b)
      \<and> cstr_at (take (4096 - length p - 1) buf @ p @ [0]) (4096 - length p - 1) = Some p" if "length buf = 4096" for buf
  proof
    have z: "length buf = unat (4096 :: u32)" "length (path_of root (fs, ls, k, rs)) < length buf" using that l p by simp_all
    show "get_path_by_name_off b (of_nat x) buf 4096 = Some (take (4096 - length p - 1) buf @ p @ [0], int (4096 - length p - 1), b)"
      using get_path_by_name_off_writes[OF r z] lk that unfolding get_path_by_name_off_def p assms(5) by simp
    show "cstr_at (take (4096 - length p - 1) buf @ p @ [0]) (4096 - length p - 1) = Some p"
      using that l c by (intro cstr_at_split) simp_all
  qed
  have "prints b (of_nat x) (of_nat x, is_File k, p)"
    unfolding prints_def prod.case
  proof (intro conjI allI impI f refl)
    fix buf :: "byte list" assume "length buf = 4096"
    have n: "nat (4095 - int (length p)) = 4095 - length p" by arith
    from g[OF \<open>length buf = 4096\<close>] l n \<open>length buf = 4096\<close> show "\<exists>buf' d. get_path_by_name_off b (of_nat x) buf 4096 = Some (buf', d, b)
        \<and> length buf' = 4096 \<and> cstr_at buf' (nat d) = Some p"
      by (intro exI[of _ "take (4096 - length p - 1) buf @ p @ [0]"] exI[of _ "int (4096 - length p - 1)"]) auto
  qed
  then show ?thesis using assms(4,5) unfolding p_def entry_line_def by blast
qed

lemma prints_hits:
  assumes "represents b root ks" "lock b = Unlocked" "paths_fit root ks"
  obtains ln where "\<And>m x. x \<in> set (hits m (first_pos root) (layout ks)) \<Longrightarrow> entry_line root ks x (ln x) \<and> prints b (of_nat x) (ln x)"
proof -
  have ok: "forest_ok ks" using assms(1) by (auto elim: representsE)
  define ln where "ln x = (SOME e. entry_line root ks x e \<and> prints b (of_nat x) e)" for x
  have "entry_line root ks x (ln x) \<and> prints b (of_nat x) (ln x)" if "x \<in> set (hits m (first_pos root) (layout ks))" for m x
    unfolding ln_def by (rule someI_ex) (use that hits_layout[OF ok] prints_entry[OF assms] in blast)
  then show thesis by (rule that)
qed

lemma show_entries_all:
  "\<forall>x\<in>set xs. prints b (of_nat x) (ln x) \<Longrightarrow> length buf = 4096 \<Longrightarrow> show_entries b buf (map of_nat xs) = Some (map ln xs, b)"
proof (induction xs arbitrary: buf)
  case (Cons x xs)
  obtain f p where e: "ln x = (of_nat x, f, p)" "is_file b (of_nat x) = Some (f, b)"
    using Cons.prems(1) by (cases "ln x") (auto simp: prints_def)
  obtain buf' d where "get_path_by_name_off b (of_nat x) buf 4096 = Some (buf', d, b)" "length buf' = 4096" "cstr_at buf' (nat d) = Some p"
    using Cons.prems e by (auto simp: prints_def)
  then show ?case using e Cons by simp
qed simp

lemma length_path_buf [simp]: "length path_buf = 4096"
  by (simp add: path_buf_def)

text \<open>The search in the buffer: all matches are counted, the first hundred are printed.\<close>

lemma search_by_fsbuf_hits:
  assumes "represents b root ks" "lock b = Unlocked"
    and "matches = (case ce_regcomp env q of Some re \<Rightarrow> re | None \<Rightarrow> match_name q)"
    and "xs = hits matches (first_pos root) (layout ks)" "\<forall>x\<in>set xs. prints b (of_nat x) (ln x)"
  shows "search_by_fsbuf env b q = Some (map ln (take 100 xs), of_nat (length xs), b)"
proof -
  let ?h = "first_pos root" and ?e = "unat (tail b)"
  have reg: "region b ?h ks" using assms(1) by (simp add: represents_def)
  have f: "first_name_off b = of_nat ?h" using assms(1) by (auto elim: representsE)
  have "unat (tail b) = ?h + toks_size (layout ks)"
    using region_at_tail[OF reg] by (simp add: toks_size_layout off_simps del: of_nat_add)
  then have all: "found matches ?h ts ?e = hits matches ?h ts" if "ts = layout ks" for ts
    using found_all[OF walks_layout[OF reg]] that by simp
  obtain rs ys where p: "layout ks = rs @ ys" "search_files b (of_nat ?h) (tail b) 100 matches None
      = Some (map of_nat (found matches ?h rs ?e), of_nat (?h + toks_size rs), b)"
    "found matches ?h rs ?e = take 100 xs"
    using search_files_page[OF assms(1,2) append_Nil[symmetric] refl, of "tail b" 100 matches] all[OF refl] assms(4) by auto
  have x: "xs = take 100 xs @ found matches (?h + toks_size rs) ys ?e"
    using all[OF refl] found_append[of matches ?h rs ys ?e] assms(4) p(1,3) by simp
  have c: "count_pages b (tail b) matches (of_nat (?h + toks_size rs)) n tot
      = Some (if n = 100 then tot + of_nat (length (found matches (?h + toks_size rs) ys ?e)) else tot, b)" for n tot
    using count_pages_all[OF assms(1,2) p(1) refl, of matches n tot] by simp
  have n: "(if length (take 100 xs) = 100 then of_nat (length (take 100 xs)) + of_nat (length (found matches (?h + toks_size rs) ys ?e))
      else of_nat (length (take 100 xs))) = (of_nat (length xs) :: u32)"
  proof (cases "100 \<le> length xs")
    case True
    then show ?thesis using arg_cong[OF x, of "\<lambda>l. of_nat (length l) :: u32"] by simp
  qed simp
  have sh: "show_entries b path_buf (map of_nat (take 100 xs)) = Some (map ln (take 100 xs), b)"
    using assms(5) by (intro show_entries_all) (auto dest: in_set_takeD)
  have "count_pages b (tail b) matches (of_nat (?h + toks_size rs)) (length (take 100 xs)) (of_nat (length (take 100 xs)))
      = Some (of_nat (length xs), b)"
    unfolding c n[symmetric] by (simp only: if_distrib[of "\<lambda>t. Some (t, b)"])
  then show ?thesis
    using p(2,3) sh unfolding search_by_fsbuf_def assms(3)[symmetric]
    by (simp add: search_files_progress get_tail_def first_name_def f Let_def del: of_nat_add length_take)
qed

subsection \<open>The offsets of a keyword\<close>

lemma strstr_sublist: "strstr s q \<noteq> None \<longleftrightarrow> (\<exists>us vs. s = us @ q @ vs)"
proof (induction s)
  case (Cons c s)
  have "(\<exists>us vs. c # s = us @ q @ vs) \<longleftrightarrow> (\<exists>vs. c # s = q @ vs) \<or> (\<exists>us vs. s = us @ q @ vs)"
    by (metis append_Cons append_Nil list.exhaust list.inject)
  moreover have "(\<exists>vs. c # s = q @ vs) \<longleftrightarrow> take (length q) (c # s) = q"
    by (metis append_eq_conv_conj append_take_drop_id)
  ultimately show ?case using Cons by auto
qed auto

lemma hits_sorted: "walks b a ts \<Longrightarrow> sorted_wrt (<) (hits m a ts)"
proof (induction b a ts rule: walks.induct)
  case (2 b a n s ts)
  then have "\<forall>x\<in>set (hits m (a + s) ts). a < x" using hits_ge[of _ m "a + s" ts] by fastforce
  then show ?case using 2 by auto
qed simp

lemma length_hits: "walks b a ts \<Longrightarrow> length (hits m a ts) \<le> toks_size ts"
  by (induction b a ts rule: walks.induct) auto

lemma hits_filter:
  "walks b a ts \<Longrightarrow> (\<And>n. n \<in> fst ` set ts \<Longrightarrow> n \<noteq> [] \<Longrightarrow> m n \<longleftrightarrow> m' n \<and> k n)
    \<Longrightarrow> hits m a ts = filter (\<lambda>x. k (the (cstr_at (head b) x))) (hits m' a ts)"
  by (induction b a ts rule: walks.induct) auto

lemma hits_named:
  "walks b a ts \<Longrightarrow> x \<in> set (hits m a ts) \<Longrightarrow> \<exists>n. cstr_at (head b) x = Some n \<and> n \<noteq> [] \<and> m n"
  by (induction b a ts rule: walks.induct) (auto split: if_splits)

lemma index_results_all:
  assumes "\<forall>x\<in>set xs. prints b (of_nat x) (ln x) \<and> get_name b (of_nat x) = Some (nm x)" "length buf = 4096"
    and "k + length xs < 4294967295" "truncated \<longrightarrow> k + length (filter (\<lambda>x. strstr (nm x) q \<noteq> None) xs) < 100"
    and "ys = filter (\<lambda>x. truncated \<longrightarrow> strstr (nm x) q \<noteq> None) xs"
  shows "index_results b buf q truncated (map of_nat xs) (of_nat (k + 1))
    = Some (map ln (take (100 - k) ys), of_nat (k + 1 + length ys), b)"
  using assms
proof (induction xs arbitrary: buf k ys)
  case (Cons x xs)
  let ?ys = "filter (\<lambda>x. truncated \<longrightarrow> strstr (nm x) q \<noteq> None) xs"
  have le: "(of_nat (k + 1) :: u32) \<le> 100 \<longleftrightarrow> k < 100"
  proof -
    have "unat (of_nat (k + 1) :: u32) = k + 1" using Cons.prems(3) by (intro unat_of_nat32) simp
    then show ?thesis unfolding word_le_nat_alt by (simp del: of_nat_add) linarith
  qed
  show ?case
  proof (cases "truncated \<and> strstr (nm x) q = None")
    case True
    then have "k < 100" using Cons.prems(4) by simp
    moreover have "index_results b buf q truncated (map of_nat xs) (of_nat (k + 1)) = Some (map ln (take (100 - k) ?ys), of_nat (k + 1 + length ?ys), b)"
      using Cons.IH[OF _ Cons.prems(2) _ _ refl, of k] Cons.prems(1,3,4) True by simp
    ultimately show ?thesis using True Cons.prems(1,5) le by (simp del: of_nat_add)
  next
    case False
    then have ys: "ys = x # ?ys" using Cons.prems(5) by auto
    obtain f p where e: "ln x = (of_nat x, f, p)" "is_file b (of_nat x) = Some (f, b)"
      using Cons.prems(1) by (cases "ln x") (auto simp: prints_def)
    obtain buf' d where g: "get_path_by_name_off b (of_nat x) buf 4096 = Some (buf', d, b)" "length buf' = 4096" "cstr_at buf' (nat d) = Some p"
      using Cons.prems(1,2) e by (auto simp: prints_def)
    have ih: "index_results b buf1 q truncated (map of_nat xs) (of_nat (k + 1) + 1)
        = Some (map ln (take (100 - (k + 1)) ?ys), of_nat (k + 2 + length ?ys), b)" if "length buf1 = 4096" for buf1
      using Cons.IH[OF _ that _ _ refl, of "k + 1"] Cons.prems(1,3,4) False by (auto simp: add.commute add.left_commute)
    show ?thesis
    proof (cases "k < 100")
      case True
      then have "100 - k = Suc (100 - (k + 1))" by simp
      then show ?thesis using True False le e g ih[OF g(2)] Cons.prems(1) by (auto simp: ys simp del: of_nat_add)
    next
      case k: False
      then show ?thesis using le ih[OF Cons.prems(2)] by (simp add: ys del: of_nat_add)
    qed
  qed
qed simp

subsection \<open>Searching with and without the index\<close>

text \<open>The conversions of \<open>iconv\<close>: they are inverse to each other for texts that fit into \<open>NAME_MAX\<close> bytes, and a text
  contains another one if its bytes contain the other bytes.\<close>

definition text_ok :: "cli_env \<Rightarrow> bool" where
  "text_ok env \<longleftrightarrow> (\<forall>w s. ce_narrow env w = Some s \<longrightarrow> ce_widen env s = Some w)
   \<and> (\<forall>s w. ce_widen env s = Some w \<and> length s < 255 \<longrightarrow> ce_narrow env w = Some s)
   \<and> (\<forall>s q w p. ce_widen env s = Some w \<and> ce_widen env q = Some p \<longrightarrow> (strstr s q \<noteq> None \<longleftrightarrow> (\<exists>us vs. w = us @ p @ vs)))"

lemma text_okD:
  assumes "text_ok env"
  shows "ce_narrow env w = Some s \<Longrightarrow> ce_widen env s = Some w"
    "ce_widen env s = Some w \<Longrightarrow> length s < 255 \<Longrightarrow> ce_narrow env w = Some s"
    "ce_widen env s = Some w \<Longrightarrow> ce_widen env q = Some p \<Longrightarrow> strstr s q \<noteq> None \<longleftrightarrow> (\<exists>us vs. w = us @ p @ vs)"
  using assms unfolding text_ok_def by (elim conjE, blast)+

lemma new_index_empty:
  assumes "new_allmem_index mal n = Some ami" "0 < n"
  shows "index_ok ami" "bounded 0 ami" "offsets ami q = []"
  using assms by (auto simp: new_allmem_index_def index_ok_def bounded_def offsets_def bucket_of_def kw_list_def
      word_mod_less_divisor unat_mono split: if_splits)

lemma has_keyword_short:
  assumes "text_ok env" "ce_widen env name = Some w" "ce_narrow env p = Some s" "p \<noteq> []" "length p \<le> 8"
  shows "has_keyword env s name \<longleftrightarrow> strstr name s \<noteq> None"
proof -
  note t = text_okD[OF assms(1)]
  have p: "ce_widen env s = Some p" using t(1)[OF assms(3)] .
  have n: "ce_narrow env p' = Some s \<longleftrightarrow> p' = p" for p' using t(1)[of p' s] assms(3) p by auto
  show ?thesis unfolding has_keyword_def t(3)[OF assms(2) p] n using assms(2,4,5) by auto
qed

lemma get_short_query_ok:
  assumes "q \<noteq> []" "last q \<noteq> 10" "ce_widen env q = Some p" "ce_narrow env (take 8 p) = Some s"
  shows "get_short_query env q = (0, q, s)"
  using assms by (cases "length p > 8") (simp_all add: get_short_query_def)

lemma layout_names:
  assumes "represents b root ks" "t \<in> set (layout ks)" "fst t \<noteq> []"
  shows "\<exists>x. entry_at root ks x (fst t)"
proof -
  have "\<exists>x. x \<in> set (hits (\<lambda>n. n = fst t) a ts)" if "t \<in> set ts" for a ts
    using that
  proof (induction ts arbitrary: a)
    case (Cons u ts)
    obtain nm z where u: "u = (nm, z)" by (cases u)
    show ?case
    proof (cases "t = u")
      case True
      then show ?thesis using u assms(3) by (intro exI[of _ a]) simp
    next
      case False
      then obtain x where "x \<in> set (hits (\<lambda>n. n = fst t) (a + z) ts)" using Cons by auto
      then show ?thesis using u by (intro exI[of _ x]) simp
    qed
  qed simp
  then obtain x where "x \<in> set (hits (\<lambda>n. n = fst t) (first_pos root) (layout ks))" using assms(2) by blast
  moreover have "forest_ok ks" using assms(1) by (auto elim: representsE)
  ultimately show ?thesis using hits_entry_at[of ks x "\<lambda>n. n = fst t" root] by auto
qed

lemma index_finds:
  assumes r: "represents b root ks" "lock b = Unlocked" and env: "text_ok env" "ce_mal env = (\<lambda>n. True)"
    and names: "\<And>t. t \<in> set (layout ks) \<Longrightarrow> fst t \<noteq> [] \<Longrightarrow> ce_widen env (fst t) \<noteq> None"
    and new: "new_allmem_index (ce_mal env) n = Some ami0" "0 < n"
    and room: "sum_list (map (\<lambda>t. parts_of env (fst t)) (layout ks)) < 2 ^ 28"
  shows "\<exists>ami. index_names env b (first_name b) ami0 = Some ami \<and> index_ok ami \<and> count ami = n \<and> bounded (2 ^ 28 - 1) ami
    \<and> index_size ami \<le> 2 ^ 29
    \<and> keywords_ok (\<lambda>s. \<exists>w. length w \<le> 8 \<and> ce_narrow env w = Some s) ami
    \<and> (\<forall>p s. ce_narrow env p = Some s \<and> p \<noteq> [] \<and> length p \<le> 8
        \<longrightarrow> offsets ami s = map of_nat (hits (match_name s) (first_pos root) (layout ks)))"
proof -
  let ?h = "first_pos root"
  have reg: "region b ?h ks" using r(1) by (simp add: represents_def)
  have f: "first_name b = of_nat ?h" using r(1) by (auto elim: representsE simp: first_name_def)
  have tl: "unat (tail b) = ?h + toks_size (layout ks)"
    using region_at_tail[OF reg] by (simp add: toks_size_layout off_simps del: of_nat_add)
  note w = walks_layout[OF reg]
  define P where "P s \<longleftrightarrow> (\<exists>w. length w \<le> 8 \<and> ce_narrow env w = Some s)" for s
  define N where "N = sum_list (map (\<lambda>t. parts_of env (fst t)) (layout ks))"
  have k0: "keywords_ok P ami0" "count ami0 = n" "index_size ami0 = 0"
    using new by (auto simp: new_allmem_index_def keywords_ok_def index_size_def bucket_size_def sum_list_replicate split: if_splits)
  obtain ami where a: "index_names env b (of_nat ?h) ami0 = Some ami" "index_ok ami"
    "\<And>q. set (offsets ami q) = set (offsets ami0 q) \<union> of_nat ` set (hits (has_keyword env q) ?h (layout ks))"
    and m: "count ami = n" "bounded (0 + N) ami" "keywords_ok P ami" "index_size ami \<le> index_size ami0 + 2 * N"
    using index_names_walks[OF w tl new_index_empty(1,2)[OF new] env(2), where P = P] room k0 unfolding N_def P_def by auto
  have bd: "bounded (2 ^ 28 - 1) ami" by (rule bounded_mono[OF m(2)]) (use room in \<open>simp add: N_def\<close>)
  have "offsets ami s = map of_nat (hits (match_name s) ?h (layout ks))"
    if p: "ce_narrow env p = Some s" "p \<noteq> []" "length p \<le> 8" for p s
  proof -
    have eq: "hits (has_keyword env s) ?h (layout ks) = hits (match_name s) ?h (layout ks)"
    proof -
      have "has_keyword env s nm \<longleftrightarrow> match_name s nm \<and> True" if "nm \<in> fst ` set (layout ks)" "nm \<noteq> []" for nm
        using has_keyword_short[OF env(1) _ p] names that by (fastforce simp: match_name_def)
      from hits_filter[OF w this] show ?thesis by simp
    qed
    have up: "x < 4294967296" if "x \<in> set (hits (match_name s) ?h (layout ks))" for x
      using hits_less[OF _ that] w tl unsigned_less[of "tail b", where 'a = nat] walks_pos by fastforce
    then have "sorted_wrt (<) (map (of_nat :: nat \<Rightarrow> u32) (hits (match_name s) ?h (layout ks)))"
      using hits_sorted[OF w, of "match_name s"]
      by (auto simp: sorted_wrt_map word_less_nat_alt unat_of_nat32 intro: sorted_wrt_mono_rel[rotated])
    moreover have "sorted_wrt (<) (offsets ami s)"
    proof (rule bucket_less[OF a(2), of s])
      fix ih assume ih: "bucket_of ami s = Some ih" "ih < length (indice ami)"
      show "sorted_wrt (<) (offsets ami s)"
      proof (cases "find_keyword (kwords (indice ami ! ih)) s")
        case None
        then show ?thesis using ih by (simp add: offsets_def kw_list_def)
      next
        case (Some i)
        then have "kwords (indice ami ! ih) ! i \<in> set (kwords (indice ami ! ih))" using find_keyword_Some by fastforce
        from indexD(3)[OF a(2) ih(2) this] show ?thesis using Some ih by (simp add: offsets_def kw_list_def)
      qed
    qed
    moreover have "set (offsets ami s) = set (map of_nat (hits (match_name s) ?h (layout ks)))"
      using a(3)[of s] new_index_empty(3)[OF new] eq by simp
    ultimately show ?thesis by (simp add: strict_sorted_iff sorted_distinct_set_unique)
  qed
  moreover have "index_size ami \<le> 2 ^ 29" using m(4) k0(3) room by (simp add: N_def)
  ultimately show ?thesis using a(1,2) f m(1,3) bd unfolding P_def by auto
qed

lemma lookup_offsets:
  assumes "index_ok ami"
  shows "\<exists>kw. get_index_keyword mal (Allmem ami) s = Some kw \<and> (case kw of None \<Rightarrow> [] | Some k \<Rightarrow> snd k) = offsets ami s"
proof (rule bucket_less[OF assms, of s])
  fix ih assume "bucket_of ami s = Some ih"
  then show ?thesis
    by (cases "find_keyword (kwords (indice ami ! ih)) s")
      (simp_all add: get_index_keyword_allmem_def offsets_def kw_list_def Let_def)
qed

text \<open>A query, and its first characters, which the index is asked for.\<close>

lemma cut_query:
  assumes "text_ok env" "ce_widen env q = Some p" "length q < 255" "ce_narrow env (take 8 p) = Some s"
  shows "length s < length q \<longleftrightarrow> 8 < length p" "\<not> 8 < length p \<Longrightarrow> s = q" "match_name q n \<Longrightarrow> match_name s n"
proof -
  note t = text_okD[OF assms(1)]
  have s: "ce_widen env s = Some (take 8 p)" using t(1)[OF assms(4)] .
  have "\<exists>us vs. p = us @ take 8 p @ vs" by (rule exI[of _ "[]"]) (metis append_Nil append_take_drop_id)
  then have sub: "\<exists>us vs. q = us @ s @ vs" using t(3)[OF assms(2) s] strstr_sublist[of q s] by simp
  show sq: "s = q" if "\<not> 8 < length p" using that t(2)[OF assms(2,3)] assms(4) by simp
  show "length s < length q \<longleftrightarrow> 8 < length p"
  proof
    assume l: "8 < length p"
    then have "length (take 8 p) < length p" by simp
    then have "take 8 p \<noteq> p" by (metis less_irrefl)
    then have "s \<noteq> q" using s assms(2) by (metis option.inject)
    then show "length s < length q" using sub by auto
  next
    assume "length s < length q"
    then show "8 < length p" using sq by auto
  qed
  show "match_name s n" if "match_name q n"
    using that sub unfolding match_name_def strstr_sublist by (metis append.assoc)
qed

text \<open>\<open>regcomp\<close> with \<open>REG_ICASE | REG_EXTENDED\<close>: a pattern without the special characters \<open>$()*+.?[\^{|\<close> of extended
  regular expressions, if it is compiled at all, matches the texts that contain it when both are put into lower case,
  as \<open>lower\<close> does in the locale.\<close>

definition ere_special :: "byte set" where
  "ere_special = {36, 40, 41, 42, 43, 46, 63, 91, 92, 94, 123, 124}"

definition regcomp_ok :: "(cstring \<Rightarrow> cstring) \<Rightarrow> cli_env \<Rightarrow> bool" where
  "regcomp_ok lower env \<longleftrightarrow>
     (\<forall>q n. ce_widen env q \<noteq> None \<and> ce_widen env n \<noteq> None \<and> strstr n q \<noteq> None \<longrightarrow> strstr (lower n) (lower q) \<noteq> None)
   \<and> (\<forall>q re. q \<noteq> [] \<and> set q \<inter> ere_special = {} \<and> ce_widen env q \<noteq> None \<and> ce_regcomp env q = Some re \<longrightarrow>
        (\<forall>n. ce_widen env n \<noteq> None \<longrightarrow> (re n \<longleftrightarrow> strstr (lower n) (lower q) \<noteq> None)))"

text \<open>C11: the console of the tool.  \<open>scan -i\<close> makes an index of all names of a buffer, and a search with this index
  prints the same lines and reports the same number as a search through the buffer: the matching entries, the first
  hundred with their offset, kind and path.  For queries of more than eight characters, of which the index knows
  only the beginning, it does so up to a hundred matches.  The query has no special character of regular expressions, and
  no name contains it in another case only: the search through the buffer takes it as a regular expression and ignores
  the case, the one with the index does neither.  Names and query can be converted by \<open>iconv\<close>, the index fits its bounds.\<close>

theorem index_search_agrees:
  assumes "represents b root ks" "lock b = Unlocked" "paths_fit root ks" "text_ok env" "ce_mal env = (\<lambda>n. True)"
    and "\<forall>x nm. entry_at root ks x nm \<longrightarrow> ce_widen env nm \<noteq> None"
    and "sum_list (map (\<lambda>t. parts_of env (fst t)) (layout ks)) < 2 ^ 28"
    and "new_allmem_index (ce_mal env) n = Some ami0" "0 < n"
    and "q \<noteq> []" "last q \<noteq> 10" "length q < 255" "ce_widen env q = Some p" "p \<noteq> []" "ce_narrow env (take 8 p) = Some s"
    and "regcomp_ok lower env" "set q \<inter> ere_special = {}"
    and "\<forall>x nm. entry_at root ks x nm \<and> strstr (lower nm) (lower q) \<noteq> None \<longrightarrow> strstr nm q \<noteq> None"
    and "xs = hits (match_name q) (first_pos root) (layout ks)" "length p \<le> 8 \<or> length xs < 100"
  shows "\<exists>ami sh. index_names env b (first_name b) ami0 = Some ami
    \<and> search_by_fsbuf env b q = Some (sh, of_nat (length xs), b)
    \<and> search_by_index env (Some (Allmem ami)) b q = Some (sh, of_nat (length xs), b)
    \<and> list_all2 (entry_line root ks) (take 100 xs) sh"
proof -
  let ?h = "first_pos root"
  have reg: "region b ?h ks" using assms(1) by (simp add: represents_def)
  note w = walks_layout[OF reg]
  obtain ln where ln: "\<And>m x. x \<in> set (hits m ?h (layout ks)) \<Longrightarrow> entry_line root ks x (ln x) \<and> prints b (of_nat x) (ln x)"
    using prints_hits[OF assms(1-3)] by blast
  have names: "ce_widen env (fst t) \<noteq> None" if t: "t \<in> set (layout ks)" "fst t \<noteq> []" for t
    using layout_names[OF assms(1) t] assms(6) by blast
  obtain ami where ami: "index_names env b (first_name b) ami0 = Some ami" "index_ok ami"
    "offsets ami s = map of_nat (hits (match_name s) ?h (layout ks))"
  proof -
    have "length (take 8 p) \<le> 8" "take 8 p \<noteq> []" using assms(14) by auto
    then show thesis using that index_finds[OF assms(1,2,4,5) names assms(8,9,7)] assms(15) by blast
  qed
  define ys where "ys = hits (match_name s) ?h (layout ks)"
  note cut = cut_query[OF assms(4,13,12,15)]
  define nm where "nm x = the (cstr_at (head b) x)" for x
  have fl: "xs = filter (\<lambda>x. strstr (nm x) q \<noteq> None) ys"
    unfolding ys_def assms(19) nm_def
    by (rule hits_filter[OF w, where k = "\<lambda>n. strstr n q \<noteq> None"]) (use cut(3) in \<open>auto simp: match_name_def\<close>)
  have tl: "?h + toks_size (layout ks) < 4294967296"
    using region_at_tail[OF reg] by (simp add: toks_size_layout)
  have all: "prints b (of_nat x) (ln x) \<and> get_name b (of_nat x) = Some (nm x)" if x: "x \<in> set ys" for x
  proof
    show "prints b (of_nat x) (ln x)" using ln x unfolding ys_def by blast
    obtain nm' where c: "cstr_at (head b) x = Some nm'" using hits_named[OF w] x unfolding ys_def by blast
    have "x < 4294967296" using hits_less[OF walks_pos[OF w]] x tl unfolding ys_def by fastforce
    then show "get_name b (of_nat x) = Some (nm x)" using c by (simp add: get_name_def nm_def unat_of_nat32)
  qed
  let ?tr = "length s < length q"
  have keep: "xs = filter (\<lambda>x. ?tr \<longrightarrow> strstr (nm x) q \<noteq> None) ys"
  proof (cases ?tr)
    case True
    then show ?thesis using fl by simp
  next
    case False
    then have "s = q" using cut(1,2) by simp
    then show ?thesis using False by (simp add: ys_def assms(19))
  qed
  have len: "0 + length ys < 4294967295" using length_hits[OF w, of "match_name s"] tl unfolding ys_def by simp
  have few: "?tr \<longrightarrow> 0 + length (filter (\<lambda>x. strstr (nm x) q \<noteq> None) ys) < 100"
    using assms(20) cut(1) unfolding fl[symmetric] by auto
  have loop: "index_results b path_buf q ?tr (map of_nat ys) (of_nat (0 + 1)) = Some (map ln (take (100 - 0) xs), of_nat (0 + 1 + length xs), b)"
    using index_results_all[OF _ length_path_buf len few keep] all by blast
  obtain kw where kw: "get_index_keyword (ce_mal env) (Allmem ami) s = Some kw"
    "(case kw of None \<Rightarrow> [] | Some k \<Rightarrow> snd k) = map of_nat ys"
    using lookup_offsets[OF ami(2), of "ce_mal env" s] ami(3) unfolding ys_def[symmetric] by metis
  have idx: "search_by_index env (Some (Allmem ami)) b q = Some (map ln (take 100 xs), of_nat (length xs), b)"
    using loop get_short_query_ok[OF assms(10,11,13,15)] kw by (simp add: search_by_index_def del: get_index_keyword.simps)
  define m where "m = (case ce_regcomp env q of Some re \<Rightarrow> re | None \<Rightarrow> match_name q)"
  have same: "m n \<longleftrightarrow> match_name q n \<and> True" if n: "n \<in> fst ` set (layout ks)" "n \<noteq> []" for n
  proof -
    obtain x where x: "entry_at root ks x n" using layout_names[OF assms(1)] n by fastforce
    have w: "ce_widen env n \<noteq> None" "ce_widen env q \<noteq> None" using assms(6,13) x by auto
    show ?thesis
    proof (cases "ce_regcomp env q")
      case (Some re)
      then have "re n \<longleftrightarrow> strstr (lower n) (lower q) \<noteq> None"
        using assms(16) w assms(10,17) unfolding regcomp_ok_def by blast
      moreover have "strstr n q \<noteq> None \<longrightarrow> strstr (lower n) (lower q) \<noteq> None"
        using assms(16) w unfolding regcomp_ok_def by blast
      ultimately show ?thesis using assms(18) x Some unfolding m_def match_name_def by auto
    qed (simp add: m_def)
  qed
  have "hits m ?h (layout ks) = filter (\<lambda>x. True) (hits (match_name q) ?h (layout ks))" by (rule hits_filter[OF w same])
  then have hm: "xs = hits m ?h (layout ks)" using assms(19) by simp
  have "search_by_fsbuf env b q = Some (map ln (take 100 xs), of_nat (length xs), b)"
    using search_by_fsbuf_hits[OF assms(1,2) m_def hm] ln unfolding hm by blast
  moreover have "list_all2 (entry_line root ks) (take 100 xs) (map ln (take 100 xs))"
    using ln unfolding assms(19) by (auto simp: list_all2_map2 intro!: list.rel_refl_strong dest: in_set_takeD)
  ultimately show ?thesis using ami(1) idx by blast
qed

text \<open>The sample forest: two of its three names are searched for by one byte.  Characters are bytes here.\<close>

definition sample_env_cli :: cli_env where
  "sample_env_cli = \<lparr>ce_al = sample_alloc, ce_mal = (\<lambda>n. True),
     ce_regcomp = (\<lambda>q. if set q \<inter> ere_special = {} then Some (\<lambda>n. strstr (map ascii_lower n) (map ascii_lower q) \<noteq> None) else None),
     ce_widen = (\<lambda>s. if length s < 255 \<and> is_cstr s then Some (map ucast s) else None),
     ce_narrow = (\<lambda>w. if length w < 255 \<and> (\<forall>c\<in>set w. 0 < c \<and> c < 256) then Some (map ucast w) else None),
     ce_pinyin = (\<lambda>s. None), ce_pcre = (\<lambda>q. None), ce_pool = 2\<rparr>"

lemma ucast_byte: "c < 256 \<Longrightarrow> (ucast (ucast (c :: u32) :: byte) :: u32) = c" "(ucast (ucast (d :: byte) :: u32) :: byte) = d"
    "(ucast (d :: byte) :: u32) < 256"
proof -
  assume "c < 256"
  then have "unat c < 2 ^ 8" by (simp add: word_less_nat_alt)
  then show "(ucast (ucast c :: byte) :: u32) = c"
    by (simp add: word_unat_eq_iff unsigned_ucast_eq unsigned_take_bit_eq take_bit_nat_eq_self)
next
  show "(ucast (ucast (d :: byte) :: u32) :: byte) = d" by transfer simp
  show "(ucast (d :: byte) :: u32) < 256"
    using unsigned_less[of d, where 'a = nat] by (simp add: word_less_nat_alt unsigned_ucast_eq take_bit_nat_eq_self)
qed

lemma ucast_pos: "0 < c \<Longrightarrow> c < 256 \<Longrightarrow> (ucast (c :: u32) :: byte) \<noteq> 0"
  using ucast_byte(1)[of c] by auto

lemma byte_pos: "d \<noteq> 0 \<Longrightarrow> 0 < (ucast (d :: byte) :: u32)"
  using ucast_byte(2)[of d] by (auto simp: word_gt_0)

lemma sample_text_ok: "text_ok sample_env_cli"
proof -
  have i: "map ucast s = (map ucast q :: u32 list) \<longleftrightarrow> s = q" for s q :: cstring
    by (metis (no_types, lifting) list.inj_map_strong ucast_byte(2))
  have sub: "strstr s q \<noteq> None \<longleftrightarrow> (\<exists>us vs. (map ucast s :: u32 list) = us @ map ucast q @ vs)" for s q
    unfolding strstr_sublist
  proof
    assume "\<exists>us vs. s = us @ q @ vs"
    then show "\<exists>us vs. (map ucast s :: u32 list) = us @ map ucast q @ vs" by (metis map_append)
  next
    assume "\<exists>us vs. (map ucast s :: u32 list) = us @ map ucast q @ vs"
    then obtain us vs where "(map ucast s :: u32 list) = us @ map ucast q @ vs" by blast
    from this[unfolded map_eq_append_conv[of ucast s]] obtain a r where ar: "s = a @ r" "map ucast q @ vs = (map ucast r :: u32 list)" by blast
    from ar(2)[symmetric, unfolded map_eq_append_conv[of ucast r]] obtain b c where "r = b @ c" "map ucast q = (map ucast b :: u32 list)" by blast
    then show "\<exists>us vs. s = us @ q @ vs" using i ar(1) by auto
  qed
  have r1: "map ucast (map ucast w :: cstring) = w" if "\<forall>c\<in>set w. c < 256" for w :: "u32 list"
    using that by (induction w) (simp_all add: ucast_byte)
  have r2: "map ucast (map ucast s :: u32 list) = s" for s :: cstring by (induction s) (simp_all add: ucast_byte)
  show ?thesis unfolding text_ok_def
  proof (intro conjI allI impI)
    fix w s assume "ce_narrow sample_env_cli w = Some s"
    then show "ce_widen sample_env_cli s = Some w" using r1[of w] by (auto simp: sample_env_cli_def is_cstr_def ucast_pos split: if_splits)
  next
    fix s w assume "ce_widen sample_env_cli s = Some w \<and> length s < 255"
    then show "ce_narrow sample_env_cli w = Some s" using r2[of s] by (auto simp: sample_env_cli_def is_cstr_def ucast_byte intro!: byte_pos split: if_splits)
  next
    fix s q w p assume "ce_widen sample_env_cli s = Some w \<and> ce_widen sample_env_cli q = Some p"
    then show "(strstr s q \<noteq> None) = (\<exists>us vs. w = us @ p @ vs)" using sub[of s q]
      by (auto simp: sample_env_cli_def split: if_splits)
  qed
qed

text \<open>A path is shorter than the bytes of its forest.\<close>

lemma path_size: "length (frame_path fs) + ents cs + subs cs \<le> ents (plug fs cs) + subs (plug fs cs)"
proof (induction fs arbitrary: cs)
  case (Cons f fs)
  obtain ls n rs where f: "f = (ls, n, rs)" by (cases f)
  show ?case using Cons.IH[of "ls @ Dir n cs # rs"] by (cases "cs = []") (simp_all add: f)
qed simp

lemma paths_fit_small:
  assumes "length root + ents ks + subs ks < 4096"
  shows "paths_fit root ks"
  unfolding paths_fit_def path_at_def
proof (intro allI impI, elim exE conjE)
  fix x p fs ls k rs assume "ks = plug fs (ls @ k # rs)" "p = root @ frame_path fs @ nname k"
  moreover have "length (nname k) \<le> esize k" by (cases k) simp_all
  ultimately show "length p < 4096" using path_size[of fs "ls @ k # rs"] assms by simp
qed

lemma sample_names: "\<forall>x nm. entry_at [47] sample_forest x nm \<longrightarrow> ce_widen sample_env_cli nm \<noteq> None"
proof (intro allI impI)
  fix x nm assume "entry_at [47] sample_forest x nm"
  then show "ce_widen sample_env_cli nm \<noteq> None" using hits_entry_at[OF sample_ok, of x "\<lambda>n. n = nm" "[47]"]
    by (auto simp: layout_sample sample_env_cli_def is_cstr_def split: if_splits)
qed

theorem index_search_agrees_witness:
  "\<exists>ami sh. index_names sample_env_cli (sample_buf 100) (first_name (sample_buf 100)) \<lparr>count = 3, indice = replicate 3 \<lparr>kwords = [], ih_empty = 0\<rparr>\<rparr> = Some ami
    \<and> search_by_fsbuf sample_env_cli (sample_buf 100) [98] = Some (sh, 1, sample_buf 100)
    \<and> search_by_index sample_env_cli (Some (Allmem ami)) (sample_buf 100) [98] = Some (sh, 1, sample_buf 100)
    \<and> list_all2 (entry_line [47] sample_forest) [24] sh"
proof -
  have xs: "hits (match_name [98]) (first_pos [47]) (layout sample_forest) = [24]"
    by (simp add: layout_sample match_name_def)
  have n: "new_allmem_index (ce_mal sample_env_cli) 3 = Some \<lparr>count = 3, indice = replicate 3 \<lparr>kwords = [], ih_empty = 0\<rparr>\<rparr>"
    by (simp add: new_allmem_index_def sample_env_cli_def)
  have pf: "paths_fit [47] sample_forest" by (rule paths_fit_small) (simp add: sample_forest_def)
  have pt: "sum_list (map (\<lambda>t. parts_of sample_env_cli (fst t)) (layout sample_forest)) < 2 ^ 28"
    by (simp add: layout_sample parts_of_def sample_env_cli_def name_parts_def)
  have e: "ce_mal sample_env_cli = (\<lambda>n. True)" "ce_widen sample_env_cli [98] = Some [98]"
    "ce_narrow sample_env_cli (take 8 [98]) = Some [98]"
    by (simp_all add: sample_env_cli_def is_cstr_def)
  have re: "regcomp_ok (map ascii_lower) sample_env_cli" "set [98] \<inter> ere_special = {}"
  proof -
    have "strstr (map ascii_lower n) (map ascii_lower q) \<noteq> None" if "strstr n q \<noteq> None" for n q
      using that unfolding strstr_sublist by (metis map_append)
    then show "regcomp_ok (map ascii_lower) sample_env_cli" by (auto simp: regcomp_ok_def sample_env_cli_def)
  qed (simp add: ere_special_def)
  have cs: "\<forall>x nm. entry_at [47] sample_forest x nm \<and> strstr (map ascii_lower nm) (map ascii_lower [98]) \<noteq> None \<longrightarrow> strstr nm [98] \<noteq> None"
  proof (intro allI impI)
    fix x nm assume "entry_at [47] sample_forest x nm \<and> strstr (map ascii_lower nm) (map ascii_lower [98]) \<noteq> None"
    then show "strstr nm [98] \<noteq> None"
      using hits_entry_at[OF sample_ok, of x "\<lambda>n. n = nm" "[47]"] by (auto simp: layout_sample ascii_lower_def split: if_splits)
  qed
  have l: "lock (sample_buf 100) = Unlocked" by (simp add: sample_buf_def)
  show ?thesis
    using index_search_agrees[OF sample_represents l pf sample_text_ok e(1) sample_names pt n _ _ _ _ e(2) _ e(3) re cs refl]
    unfolding xs by simp
qed

text \<open>The two searches differ when only the case does: a query \<open>a\<close> finds the name \<open>A\<close> in the buffer, and not with the
  index.\<close>

lemma case_found_without_index:
  "\<exists>re. ce_regcomp sample_env_cli [97] = Some re \<and> re [65] \<and> \<not> match_name [97] [65]"
  by (simp add: sample_env_cli_def ere_special_def ascii_lower_def match_name_def)

end
