(* ===== verification/Cli_Main.thy ===== *)
theory Cli_Main
  imports Cli_Find Lft_Claims
begin

text \<open>
  The commands of the command line tool: \<open>scan\<close>, \<open>load\<close> and their options in \<open>main.c\<close>, the statistics of \<open>stats.c\<close>, and the
  interactive console of \<open>console_test.c\<close>.
\<close>

subsection \<open>Statistics\<close>

abbreviation (input) NAME_MAX :: nat where "NAME_MAX \<equiv> 255"

text \<open>The loop of \<open>print_file_info\<close>: the number of names, and how many names there are of each length.  The length of a
  name, minus one, is an index into the array.\<close>

partial_function (option) file_info_loop :: "cli_env \<Rightarrow> fs_buf \<Rightarrow> u32 \<Rightarrow> nat \<Rightarrow> u32 list \<Rightarrow> (nat \<times> u32 list) option" where
  "file_info_loop env b name_off files_count filename_lens =
    (if name_off < get_tail b then do {
       s \<leftarrow> get_name b name_off;
       let files_count = (if 0 < length s then files_count + 1 else files_count);
       filename_lens \<leftarrow> (case ce_widen env s of None \<Rightarrow> Some filename_lens
         | Some w \<Rightarrow> (if w = [] \<or> NAME_MAX < length w then None
             else Some (filename_lens[length w - 1 := filename_lens ! (length w - 1) + 1])));
       name_off \<leftarrow> next_name b name_off;
       file_info_loop env b name_off files_count filename_lens }
     else Some (files_count, filename_lens))"

definition print_file_info :: "cli_env \<Rightarrow> fs_buf \<Rightarrow> (nat \<times> u32 list) option" where
  "print_file_info env b = file_info_loop env b (first_name b) 0 (replicate NAME_MAX 0)"

text \<open>The numbers of the last line: files, bytes, the tail of the buffer, keywords, offsets.\<close>

definition collect_print_statistics :: "cli_env \<Rightarrow> fs_buf \<Rightarrow> fs_index option \<Rightarrow> (nat \<times> u64 \<times> u32 \<times> u32 \<times> u32) option" where
  "collect_print_statistics env b fsi = do {
     let tot_alloced = (ucast (get_capacity b) :: u64);
     (files_count, lens) \<leftarrow> print_file_info env b;
     let (m, kws, offs) = (case fsi of None \<Rightarrow> (0, 0, 0) | Some fsi \<Rightarrow> get_stats fsi);
     Some (files_count, tot_alloced + m, get_tail b, kws, offs) }"

text \<open>A defect.  The empty name that ends each folder has the length 0, and the array is written before its start: the
  statistics, which \<open>scan\<close> and \<open>load\<close> print, have no defined result for any index with a name.\<close>

lemma file_info_walks:
  assumes "walks b a ts" "unat (tail b) = a + toks_size ts" "end_tok \<in> set ts" "ce_widen env [] = Some []"
  shows "file_info_loop env b (of_nat a) n lens = None"
  using assms(1-3)
proof (induction ts arbitrary: a n lens)
  case (Cons t ts)
  obtain nm s where t: "t = (nm, s)" by (cases t)
  have w: "cstr_at (head b) a = Some nm" "next_name b (of_nat a) = Some (of_nat (a + s))" "0 < s" "walks b (a + s) ts"
    using Cons.prems(1) t by simp_all
  have "a < unat (tail b)" using Cons.prems(2) w(3) t by simp
  then have u: "unat (of_nat a :: u32) = a" using unsigned_less[of "tail b", where 'a = nat] by (simp add: unat_of_nat32)
  then have lt: "(of_nat a :: u32) < tail b" using \<open>a < unat (tail b)\<close> by (simp add: word_less_nat_alt)
  show ?case
  proof (cases "nm = []")
    case True
    then show ?thesis using lt w(1) u assms(4)
      by (subst file_info_loop.simps) (simp add: get_tail_def get_name_def)
  next
    case False
    have "end_tok \<in> set ts" using Cons.prems(3) t False by auto
    then have "file_info_loop env b (of_nat (a + s)) n' lens' = None" for n' lens'
      using Cons.IH[OF w(4)] Cons.prems(2) t by simp
    then show ?thesis using lt w(1,2) u
      by (subst file_info_loop.simps) (simp add: get_tail_def get_name_def Let_def split: option.splits del: of_nat_add)
  qed
qed simp

lemma statistics_undefined:
  assumes "represents b root ks" "ks \<noteq> []" "ce_widen env [] = Some []"
  shows "collect_print_statistics env b fsi = None"
proof -
  have reg: "region b (first_pos root) ks" using assms(1) by (simp add: represents_def)
  have "first_name b = of_nat (first_pos root)" using assms(1) by (auto elim: representsE simp: first_name_def)
  moreover have "unat (tail b) = first_pos root + toks_size (layout ks)"
    using region_at_tail[OF reg] by (simp add: toks_size_layout off_simps del: of_nat_add)
  moreover have "end_tok \<in> set (layout ks)" using assms(2) by (simp add: layout_def level_toks_def)
  ultimately have "print_file_info env b = None"
    using file_info_walks[OF walks_layout[OF reg] _ _ assms(3)] by (simp add: print_file_info_def)
  then show ?thesis by (simp add: collect_print_statistics_def)
qed

subsection \<open>Loading\<close>

text \<open>\<open>".lft"\<close> and \<open>".fsi"\<close>.\<close>

definition FSBUF_FILE :: cstring where "FSBUF_FILE = [46, 108, 102, 116]"
definition INDEX_FILE :: cstring where "INDEX_FILE = [46, 102, 115, 105]"

text \<open>The options as \<open>getopt\<close> delivers them, a letter and an argument.  The state has the directory, the path (which
  has no value before \<open>-d\<close> or \<open>-f\<close>) and the policy; \<open>Inl\<close> is the result of a wrong option.\<close>

fun load_options :: "(byte \<times> cstring) list \<Rightarrow> cstring \<times> cstring option \<times> int \<Rightarrow>
    (int + cstring \<times> cstring option \<times> int) option" where
  "load_options [] s = Some (Inr s)"
| "load_options ((opt, arg) # opts) (dir, fullpath, load_policy) =
    (if opt = 102 then (if PATH_MAX \<le> length arg then None else load_options opts (dir, Some arg, load_policy))
     else if opt = 100 then
       (if NAME_MAX \<le> length arg then None else load_options opts (arg, Some (arg @ slash # FSBUF_FILE), load_policy))
     else if opt = 108 then do {
       p \<leftarrow> atoi arg;
       if p < LOAD_ALL \<or> LOAD_NONE < p then Some (Inl 1) else load_options opts (dir, fullpath, p) }
     else Some (Inl 2))"

text \<open>\<open>load\<close> up to the statistics: the exit code, or the buffer and the index, which may be missing.\<close>

definition load :: "cli_env \<Rightarrow> (cstring \<Rightarrow> byte list option) \<Rightarrow> (byte \<times> cstring) list \<Rightarrow> (int + fs_buf \<times> fs_index option) option" where
  "load env files opts = do {
     r \<leftarrow> load_options opts ([46], None, LOAD_NONE);
     case r of Inl c \<Rightarrow> Some (Inl c)
     | Inr (dir, fullpath, load_policy) \<Rightarrow> do {
         fullpath \<leftarrow> fullpath;
         (r, b) \<leftarrow> load_fs_buf (ce_al env) True (files fullpath);
         if r \<noteq> 0 then Some (Inl 4)
         else do {
           b \<leftarrow> b;
           root \<leftarrow> get_root_path b;
           (r, fsi) \<leftarrow> load_fs_index (ce_mal env) (files (dir @ slash # INDEX_FILE)) load_policy;
           Some (Inr (b, fsi)) } } }"

text \<open>A defect.  Without \<open>-d\<close> and \<open>-f\<close> the path of the file has no value.\<close>

lemma load_needs_path: "load env files [] = None"
  by (simp add: load_def)


subsection \<open>Scanning\<close>

text \<open>The directory for the files, whether an index is made, and whether the partitions are merged.\<close>

fun scan_options :: "(byte \<times> cstring) list \<Rightarrow> cstring \<times> bool \<times> bool \<Rightarrow> (int + cstring \<times> bool \<times> bool) option" where
  "scan_options [] s = Some (Inr s)"
| "scan_options ((opt, arg) # opts) (dir, use_index, merge) =
    (if opt = 100 then (if NAME_MAX \<le> length arg then None else scan_options opts (arg, use_index, merge))
     else if opt = 105 then scan_options opts (dir, True, merge)
     else if opt = 109 then scan_options opts (dir, use_index, True)
     else Some (Inl 1))"

text \<open>The root: \<open>/\<close>, or the real path of the argument with a slash at its end.\<close>

definition scan_root :: "(cstring \<Rightarrow> cstring option) \<Rightarrow> cstring option \<Rightarrow> cstring option" where
  "scan_root realpath arg = (case arg of None \<Rightarrow> Some [slash]
     | Some a \<Rightarrow> do {
         p \<leftarrow> realpath a;
         if p = [] then None
         else if last p \<noteq> slash then (if length p + 1 < PATH_MAX then Some (p @ [slash]) else None)
         else Some p })"









text \<open>\<open>main\<close>: the command for the first argument.\<close>

datatype cmd_fn = Help | Scan | Load | Get_parts

definition commands :: "(cstring \<times> cmd_fn) list" where
  "commands = [([104, 101, 108, 112], Help), ([115, 99, 97, 110], Scan), ([108, 111, 97, 100], Load),
     ([112, 97, 114, 116, 105, 116, 105, 111, 110, 115], Get_parts)]"

definition main_command :: "cstring list \<Rightarrow> cmd_fn" where
  "main_command args = (case args of [] \<Rightarrow> Help
     | a # _ \<Rightarrow> (case find (\<lambda>(cmd, fp). cmd = a) commands of None \<Rightarrow> Help | Some (cmd, fp) \<Rightarrow> fp))"

subsection \<open>The console\<close>

datatype command = Find cstring | Find_index cstring | Insert cstring bool | Remove cstring | Rename cstring cstring
  | Range cstring | Find_parallel cstring "cstring option" | No_target

definition begins :: "cstring \<Rightarrow> cstring \<Rightarrow> bool" where
  "begins r s \<longleftrightarrow> strstr r s = Some 0"

text \<open>The letters are \<open>s\<close>, \<open>i\<close>, \<open>d\<close>, \<open>r\<close>, \<open>p\<close> and \<open>m\<close>, each before a slash; \<open>r\<close> is the line without its end.\<close>

definition parse_command :: "cstring \<Rightarrow> command" where
  "parse_command r =
    (if begins r [115, slash] then Find_index (drop 2 r)
     else if begins r [105, 102, slash] \<or> begins r [105, 100, slash] then Insert (drop 2 r) (r ! 1 = 100)
     else if begins r [100, slash] then Remove (drop 1 r)
     else if begins r [114, slash] then
       (let p = drop 1 r in case strstr p [32, slash] of None \<Rightarrow> No_target | Some i \<Rightarrow> Rename (take i p) (drop (i + 1) p))
     else if begins r [112, slash] then Range (drop 1 r)
     else if begins r [109, slash] then
       (case strstr (drop 1 r) [32, 48, 120] of None \<Rightarrow> Find_parallel (drop 2 r) None
        | Some i \<Rightarrow> Find_parallel (drop 2 (take (i + 1) r)) (Some (drop (i + 2) r)))
     else Find r)"

text \<open>What is printed, and the changes that an insertion or removal reports; \<open>junk\<close> is the content of the array on the stack.\<close>

datatype outcome = Found shown u32 | Inserted fs_result fs_change | Changed fs_result "fs_change list" | Ranged u32 u32 u32 | Nothing

text \<open>The parallel search.  With a filter every word that starts with \<open>0x\<close> is a rule: its first four characters are copied
  into an array of four without a terminator and read as a number from there, so that the read ends behind the array.\<close>

fun words_of :: "cstring \<Rightarrow> cstring list" where
  "words_of [] = [[]]"
| "words_of (c # s) = (if c = 32 then [] # words_of s else case words_of s of [] \<Rightarrow> [[c]] | w # ws \<Rightarrow> (c # w) # ws)"

definition filter_rules :: "cstring option \<Rightarrow> search_rule list option" where
  "filter_rules filt = (case filt of None \<Rightarrow> Some []
     | Some f \<Rightarrow> if list_ex (\<lambda>w. begins w [48, 120]) (words_of f) then None else Some [])"

definition search_by_fsbuf_parallel :: "cli_env \<Rightarrow> fs_buf \<Rightarrow> cstring \<Rightarrow> cstring option \<Rightarrow> (shown \<times> u32 \<times> fs_buf) option" where
  "search_by_fsbuf_parallel env b q filt = do {
     s_rule \<leftarrow> filter_rules filt;
     (name_offs, n, off, b) \<leftarrow> parallelsearch_files (ce_mal env) (ce_pinyin env) (ce_pcre env) (ce_pool env) b (first_name b)
       (get_tail b) (of_nat MAX_RESULTS) s_rule q;
     (sh, b) \<leftarrow> show_entries b path_buf (take (min MAX_RESULTS (unat n)) name_offs);
     Some (sh, n, b) }"

definition run_command :: "cli_env \<Rightarrow> fs_index option \<Rightarrow> fs_change \<Rightarrow> fs_buf \<Rightarrow> command \<Rightarrow> (outcome \<times> fs_buf) option" where
  "run_command env fsi junk b c =
    (case c of
       Find q \<Rightarrow> do { (sh, n, b) \<leftarrow> search_by_fsbuf env b q; Some (Found sh n, b) }
     | Find_index q \<Rightarrow> do { (sh, n, b) \<leftarrow> search_by_index env fsi b q; Some (Found sh n, b) }
     | Insert p d \<Rightarrow> do { (r, ch, b) \<leftarrow> insert_path (ce_al env) b p d junk; Some (Inserted r ch, b) }
     | Remove p \<Rightarrow> do { (r, chs, n, b) \<leftarrow> remove_path (ce_al env) b p (replicate 10 junk) 10;
         Some (Changed r (if r = FS_OK then take (unat n) chs else []), b) }
     | Rename p p' \<Rightarrow> do { (r, chs, n, b) \<leftarrow> rename_path (ce_al env) b p p' (replicate 10 junk) 10;
         Some (Changed r (if r = FS_OK then take (unat n) chs else []), b) }
     | Range p \<Rightarrow> do { (po, st, en, b) \<leftarrow> get_path_range b p 0 0; Some (Ranged po st en, b) }
     | Find_parallel q f \<Rightarrow> do { (sh, n, b) \<leftarrow> search_by_fsbuf_parallel env b q f; Some (Found sh n, b) }
     | No_target \<Rightarrow> Some (Nothing, b))"

text \<open>\<open>fgets\<close> with room for \<open>n\<close> characters, and the loop of the console; it ends with the input or at a line that
  begins with a NUL.\<close>

fun fgets :: "nat \<Rightarrow> cstring \<Rightarrow> cstring \<times> cstring" where
  "fgets 0 s = ([], s)"
| "fgets (Suc n) [] = ([], [])"
| "fgets (Suc n) (c # s) = (if c = 10 then ([c], s) else let (l, r) = fgets n s in (c # l, r))"

lemma fgets_length: "fgets n s = (l, r) \<Longrightarrow> length r + length l = length s"
  by (induction n s arbitrary: l r rule: fgets.induct) (auto split: if_splits prod.splits)

lemma fgets_Suc: "s \<noteq> [] \<Longrightarrow> fgets (Suc n) s = (l, r) \<Longrightarrow> l \<noteq> []"
  by (cases s) (auto split: if_splits prod.splits)

lemma fgets_shorter:
  assumes "s \<noteq> []" "(l, r) = fgets 1022 s"
  shows "length r < length s"
  using fgets_Suc[of s 1021 l r] fgets_length[of 1022 s l r] assms by (cases l) simp_all

function console_test :: "cli_env \<Rightarrow> fs_index option \<Rightarrow> fs_change \<Rightarrow> fs_buf \<Rightarrow> cstring \<Rightarrow> (outcome list \<times> fs_buf) option" where
  "console_test env fsi junk b input =
    (if input = [] then Some ([], b)
     else
       let (cmd, rest) = fgets 1022 input; r = until_nul cmd in
       if r = [] then Some ([], b)
       else
         let r = (if last r = 10 then butlast r else r) in
         if r = [] then console_test env fsi junk b rest
         else do {
           (out, b) \<leftarrow> run_command env fsi junk b (parse_command r);
           (outs, b) \<leftarrow> console_test env fsi junk b rest;
           Some (out # outs, b) })"
  by pat_completeness auto

termination console_test
  by (relation "measure (\<lambda>(env, fsi, junk, b, input). length input)") (auto simp: fgets_shorter)

declare console_test.simps [simp del]

end
