(* ===== verification/Mon_Devices.thy ===== *)
theory Mon_Devices
  imports Lft_Rules
begin

text \<open>
  The block devices of the monitor (\<open>src/examples/deepin-anything-monitor/src/maincomponentplugin\<close>): the items
  (\<open>blockdeviceitem.cpp\<close>), the tree of them that is read from \<open>lsblk\<close> (\<open>blockdevicemodel.cpp\<close>) and the table of
  mount points (\<open>mountinfo.cpp\<close>).

  The items are objects on the heap that point to each other, so that the heap is explicit: a map from addresses to
  items; \<open>new\<close> takes an address that was never used, \<open>delete\<close> removes the object, and a use of an address that
  is not in the map has no result.  A \<open>QString\<close> is the byte string of its encoding in UTF-8, as everywhere.
\<close>

subsection \<open>Texts and values\<close>

text \<open>\<open>QString::split\<close> at one character, an element of a \<open>QVector\<close>, and \<open>toInt()\<close> to the base ten, which is 0
  for other texts.\<close>

fun split_at :: "byte \<Rightarrow> cstring \<Rightarrow> cstring list" where
  "split_at x [] = [[]]"
| "split_at x (c # s) = (if c = x then [] # split_at x s else case split_at x s of [] \<Rightarrow> [[c]] | w # ws \<Rightarrow> (c # w) # ws)"

definition elem :: "'a list \<Rightarrow> nat \<Rightarrow> 'a option" where
  "elem xs i = (if i < length xs then Some (xs ! i) else None)"

definition text_int :: "cstring \<Rightarrow> int" where
  "text_int s =
    (let s = trimmed s;
         neg = (s \<noteq> [] \<and> hd s = 45);
         s = (if s \<noteq> [] \<and> (hd s = 45 \<or> hd s = 43) then tl s else s)
     in case (if s = [] then None else read_digits 10 0 s) of None \<Rightarrow> 0
       | Some n \<Rightarrow> let v = (if neg then - int n else int n)
                  in if - 2147483648 \<le> v \<and> v < 2147483648 then v else 0)"

datatype qvariant = Invalid | Text cstring | Number int

definition to_string :: "qvariant \<Rightarrow> cstring" where
  "to_string v = (case v of Invalid \<Rightarrow> [] | Text s \<Rightarrow> s | Number n \<Rightarrow> decimal n)"

text \<open>\<open>toUInt\<close>, cut to an \<open>unsigned short\<close>.\<close>

definition to_ushort :: "qvariant \<Rightarrow> nat" where
  "to_ushort v = nat ((case v of Invalid \<Rightarrow> 0 | Text s \<Rightarrow> text_int s | Number n \<Rightarrow> n) mod 65536)"

subsection \<open>Items\<close>

record bd_item =
  bd_data :: "qvariant list"
  bd_children :: "nat list"
  bd_parent :: "nat option"

type_synonym bd_heap = "nat \<Rightarrow> bd_item option"

abbreviation (input) Name :: nat where "Name \<equiv> 0"
abbreviation (input) Major :: nat where "Major \<equiv> 1"
abbreviation (input) Minor :: nat where "Minor \<equiv> 2"
abbreviation (input) Type :: nat where "Type \<equiv> 6"
abbreviation (input) MountPoints :: nat where "MountPoints \<equiv> 7"
abbreviation (input) BlockDeviceDataMAX :: nat where "BlockDeviceDataMAX \<equiv> 7"

definition ROOT :: cstring where "ROOT = [114, 111, 111, 116]"

definition item_data :: "bd_heap \<Rightarrow> nat \<Rightarrow> nat \<Rightarrow> qvariant option" where
  "item_data h d column = do { it \<leftarrow> h d; elem (bd_data it) column }"

definition item_name :: "bd_heap \<Rightarrow> nat \<Rightarrow> cstring option" where
  "item_name h d = do { v \<leftarrow> item_data h d Name; Some (to_string v) }"

definition item_type :: "bd_heap \<Rightarrow> nat \<Rightarrow> cstring option" where
  "item_type h d = do { v \<leftarrow> item_data h d Type; Some (to_string v) }"

definition getMajor :: "bd_heap \<Rightarrow> nat \<Rightarrow> nat option" where
  "getMajor h d = do { v \<leftarrow> item_data h d Major; Some (to_ushort v) }"

definition getMinor :: "bd_heap \<Rightarrow> nat \<Rightarrow> nat option" where
  "getMinor h d = do { v \<leftarrow> item_data h d Minor; Some (to_ushort v) }"

definition childCount :: "bd_heap \<Rightarrow> nat \<Rightarrow> nat option" where
  "childCount h d = do { it \<leftarrow> h d; Some (length (bd_children it)) }"

definition child :: "bd_heap \<Rightarrow> nat \<Rightarrow> nat \<Rightarrow> nat option" where
  "child h d row = do { it \<leftarrow> h d; elem (bd_children it) row }"

text \<open>\<open>row()\<close>: the index among the children of the parent, -1 if it is not there, 0 without a parent.\<close>

fun index_of_item :: "nat \<Rightarrow> nat list \<Rightarrow> int" where
  "index_of_item x [] = -1"
| "index_of_item x (y # ys) = (if x = y then 0 else let i = index_of_item x ys in if i = -1 then -1 else i + 1)"

definition item_row :: "bd_heap \<Rightarrow> nat \<Rightarrow> int option" where
  "item_row h d = do { it \<leftarrow> h d;
     (case bd_parent it of None \<Rightarrow> Some 0
      | Some p \<Rightarrow> do { pit \<leftarrow> h p; Some (index_of_item d (bd_children pit)) }) }"

definition isPartition :: "bd_heap \<Rightarrow> nat \<Rightarrow> bool option" where
  "isPartition h d = do { it \<leftarrow> h d;
     (case bd_parent it of None \<Rightarrow> Some False
      | Some p \<Rightarrow> do { n \<leftarrow> item_name h p; Some (n \<noteq> ROOT) }) }"

definition appendChild :: "bd_heap \<Rightarrow> nat \<Rightarrow> nat \<Rightarrow> bd_heap option" where
  "appendChild h d c = do {
     it \<leftarrow> h d;
     let h = h(d \<mapsto> it\<lparr>bd_children := bd_children it @ [c]\<rparr>);
     cit \<leftarrow> h c;
     Some (h(c \<mapsto> cit\<lparr>bd_parent := Some d\<rparr>)) }"

fun push_children :: "bd_heap \<Rightarrow> nat \<Rightarrow> nat list \<Rightarrow> bd_heap option" where
  "push_children h d [] = Some h"
| "push_children h d (c # cs) = do {
     cit \<leftarrow> h c;
     let h = h(c \<mapsto> cit\<lparr>bd_parent := Some d\<rparr>);
     it \<leftarrow> h d;
     push_children (h(d \<mapsto> it\<lparr>bd_children := bd_children it @ [c]\<rparr>)) d cs }"

definition setChildItems :: "bd_heap \<Rightarrow> nat \<Rightarrow> nat list \<Rightarrow> bd_heap option" where
  "setChildItems h d cs = do {
     it \<leftarrow> h d;
     push_children (h(d \<mapsto> it\<lparr>bd_children := []\<rparr>)) d cs }"

text \<open>\<open>delete\<close> for a list of items: the destructor deletes the children first.  \<open>None\<close>: an item is deleted twice,
  or the recursion does not end.\<close>

partial_function (option) delete_items :: "bd_heap \<Rightarrow> nat list \<Rightarrow> bd_heap option" where
  "delete_items h ds =
    (case ds of [] \<Rightarrow> Some h
     | d # ds \<Rightarrow>
       (case h d of None \<Rightarrow> None
        | Some it \<Rightarrow> Option.bind (delete_items h (bd_children it)) (\<lambda>h. delete_items (h(d := None)) ds)))"

declare delete_items.simps [code]

subsection \<open>Mount points\<close>

text \<open>\<open>fetchLatestMountInfo\<close>.  \<open>None\<close> for the content: the file cannot be opened.  A line of fewer than five
  words has no result: the test in front, which should skip it, is never true, as a split is not empty.\<close>

fun split_blank :: "cstring \<Rightarrow> cstring list" where
  "split_blank [] = [[]]"
| "split_blank (c # s) = (if is_space c then [] # split_blank s else case split_blank s of [] \<Rightarrow> [[c]] | w # ws \<Rightarrow> (c # w) # ws)"

fun mount_rows :: "cstring list \<Rightarrow> (cstring \<Rightarrow> cstring option) \<Rightarrow> (cstring \<Rightarrow> cstring option) option" where
  "mount_rows [] m = Some m"
| "mount_rows (line # lines) m =
    (let items = split_blank (trimmed line) in
     if items = [] \<and> length items < 5 then mount_rows lines m
     else do {
       root \<leftarrow> elem items 3;
       if root \<noteq> [47] then mount_rows lines m
       else do {
         mp \<leftarrow> elem items 4;
         mount_rows lines (m(items ! 2 \<mapsto> mp)) } })"

definition fetchLatestMountInfo :: "cstring option \<Rightarrow> (cstring \<Rightarrow> cstring option) option" where
  "fetchLatestMountInfo mount_file =
    (case mount_file of None \<Rightarrow> Some Map.empty
     | Some c \<Rightarrow> mount_rows (split_at 10 (trimmed c)) Map.empty)"

definition queryMountPoint :: "(cstring \<Rightarrow> cstring option) \<Rightarrow> cstring \<Rightarrow> cstring" where
  "queryMountPoint m s = (case m s of None \<Rightarrow> [] | Some p \<Rightarrow> p)"

text \<open>\<open>rootMountPoint\<close>: the mount point of the root of the file system, or the first of the shortest of the texts
  between \<open>"\x0a"\<close> in the last column of \<open>lsblk\<close>.\<close>

definition X0A :: cstring where "X0A = [92, 120, 48, 97]"

function split_text :: "cstring \<Rightarrow> cstring \<Rightarrow> cstring list" where
  "split_text x [] = [[]]"
| "split_text x (c # s) =
    (if x \<noteq> [] \<and> starts_with (c # s) x then [] # split_text x (drop (length x) (c # s))
     else case split_text x s of [] \<Rightarrow> [[c]] | w # ws \<Rightarrow> (c # w) # ws)"
  by pat_completeness auto

termination split_text
  by (relation "measure (\<lambda>(x, s). length s)") (auto simp: length_greater_0_conv[symmetric] simp del: length_greater_0_conv)

fun shortest_index :: "cstring list \<Rightarrow> nat \<Rightarrow> nat \<Rightarrow> nat \<Rightarrow> nat" where
  "shortest_index [] index min_index min_length = min_index"
| "shortest_index (p # ps) index min_index min_length =
    (if index = min_index then shortest_index ps (index + 1) min_index min_length
     else if qsize p < min_length then shortest_index ps (index + 1) index (qsize p)
     else shortest_index ps (index + 1) min_index min_length)"

definition device_id :: "nat \<Rightarrow> nat \<Rightarrow> cstring" where
  "device_id major minor = decimal_nat major @ [58] @ decimal_nat minor"

definition rootMountPoint :: "(cstring \<Rightarrow> cstring option) \<Rightarrow> bd_heap \<Rightarrow> nat \<Rightarrow> cstring option" where
  "rootMountPoint mi h d = do {
     it \<leftarrow> h d;
     ma \<leftarrow> getMajor h d;
     mn \<leftarrow> getMinor h d;
     let root_point = queryMountPoint mi (device_id ma mn);
     if root_point \<noteq> [] then Some root_point
     else if length (bd_data it) \<le> MountPoints then Some []
     else do {
       let ps = split_text X0A (trimmed (to_string (bd_data it ! MountPoints)));
       p \<leftarrow> elem ps 0;
       elem ps (shortest_index ps 0 0 (qsize p)) } }"

subsection \<open>The tree of the devices\<close>

text \<open>\<open>devices\<close>, \<open>rootItem\<close> and \<open>checkedItems_\<close>, a set that is given in the order of its iteration; \<open>bd_next\<close> is
  above every address that was used.\<close>

record bd_model =
  bd_heap :: bd_heap
  bd_next :: nat
  rootItem :: nat
  bd_devices :: "nat list"
  checkedItems :: "nat list"

definition new_item :: "bd_model \<Rightarrow> qvariant list \<Rightarrow> nat \<times> bd_model" where
  "new_item m vs = (bd_next m, m\<lparr>bd_heap := (bd_heap m)(bd_next m \<mapsto> \<lparr>bd_data = vs, bd_children = [], bd_parent = None\<rparr>),
     bd_next := bd_next m + 1\<rparr>)"

text \<open>One row of \<open>lsblk -r\<close>.\<close>

definition blk_data :: "cstring \<Rightarrow> qvariant list option" where
  "blk_data blk = do {
     let dev_metadata = split_at 32 (trimmed blk);
     name \<leftarrow> elem dev_metadata 0;
     ids \<leftarrow> elem dev_metadata 1;
     let maj_min_list = split_at 58 ids;
     major \<leftarrow> elem maj_min_list 0;
     minor \<leftarrow> elem maj_min_list 1;
     rm \<leftarrow> elem dev_metadata 2;
     sz \<leftarrow> elem dev_metadata 3;
     ro \<leftarrow> elem dev_metadata 4;
     ty \<leftarrow> elem dev_metadata 5;
     Some [Text name, Number (text_int major), Number (text_int minor), Number (text_int rm), Text sz,
           Number (text_int ro), Text ty,
           Text (if length dev_metadata < BlockDeviceDataMAX then [] else dev_metadata ! 6)] }"

fun read_devices :: "bool \<Rightarrow> cstring list \<Rightarrow> bd_model \<Rightarrow> (nat list \<times> bd_model) option" where
  "read_devices is_update [] m = Some ([], m)"
| "read_devices is_update (blk # blks) m =
    (if trimmed blk = [] then read_devices is_update blks m
     else do {
       vs \<leftarrow> blk_data blk;
       let (item, m) = new_item m vs;
       let m = (if \<not> is_update then m\<lparr>checkedItems := List.insert item (checkedItems m)\<rparr> else m);
       (items, m) \<leftarrow> read_devices is_update blks m;
       Some (item # items, m) })"

fun root_devices :: "bd_heap \<Rightarrow> nat list \<Rightarrow> nat list option" where
  "root_devices h [] = Some []"
| "root_devices h (d # ds) = do {
     ty \<leftarrow> item_type h d;
     rs \<leftarrow> root_devices h ds;
     Some (if ty \<noteq> [112, 97, 114, 116] then d # rs else rs) }"

fun append_parts :: "nat \<Rightarrow> cstring \<Rightarrow> nat list \<Rightarrow> bd_heap \<Rightarrow> bd_heap option" where
  "append_parts r root_name [] h = Some h"
| "append_parts r root_name (d # ds) h =
    (if r = d then append_parts r root_name ds h
     else do {
       n \<leftarrow> item_name h d;
       if starts_with n root_name then do { h \<leftarrow> appendChild h r d; append_parts r root_name ds h }
       else append_parts r root_name ds h })"

fun build_tree :: "nat list \<Rightarrow> nat list \<Rightarrow> bd_heap \<Rightarrow> bd_heap option" where
  "build_tree [] repo h = Some h"
| "build_tree (r # rs) repo h = do {
     root_name \<leftarrow> item_name h r;
     h \<leftarrow> append_parts r root_name repo h;
     build_tree rs repo h }"

fun check_tree :: "bd_heap \<Rightarrow> nat list \<Rightarrow> nat list \<Rightarrow> nat list option" where
  "check_tree h [] c = Some c"
| "check_tree h (d # ds) c = do {
     it \<leftarrow> h d;
     check_tree h ds (fold List.insert (bd_children it) (List.insert d c)) }"

text \<open>\<open>None\<close> for the output: \<open>lsblk\<close> did not end in time.\<close>

definition fetchDevices :: "bool \<Rightarrow> cstring option \<Rightarrow> bd_model \<Rightarrow> bd_model option" where
  "fetchDevices is_update blk_output m =
    (case blk_output of None \<Rightarrow> Some m
     | Some blk_string \<Rightarrow> do {
         let blk_list = tl (split_at 10 blk_string);
         n \<leftarrow> childCount (bd_heap m) (rootItem m);
         let m = (if is_update \<and> n \<noteq> 0 then m\<lparr>bd_devices := []\<rparr> else m);
         (repo, m) \<leftarrow> read_devices is_update blk_list m;
         roots \<leftarrow> root_devices (bd_heap m) repo;
         h \<leftarrow> build_tree roots repo (bd_heap m);
         if is_update then do {
           rit \<leftarrow> h (rootItem m);
           h \<leftarrow> delete_items h (bd_children rit);
           h \<leftarrow> setChildItems h (rootItem m) roots;
           c \<leftarrow> check_tree h roots [];
           Some (m\<lparr>bd_heap := h, bd_devices := roots, checkedItems := c\<rparr>) }
         else do {
           h \<leftarrow> setChildItems h (rootItem m) roots;
           Some (m\<lparr>bd_heap := h, bd_devices := bd_devices m @ roots\<rparr>) } })"

definition new_block_device_model :: "cstring option \<Rightarrow> bd_model option" where
  "new_block_device_model blk_output =
    (let (r, m) = new_item \<lparr>bd_heap = Map.empty, bd_next = 0, rootItem = 0, bd_devices = [], checkedItems = []\<rparr> [Text ROOT]
     in fetchDevices False blk_output (m\<lparr>rootItem := r\<rparr>))"

text \<open>The items and the table of mount points are read anew.\<close>

definition updatePartition :: "cstring option \<Rightarrow> cstring option \<Rightarrow> bd_model \<Rightarrow> (bd_model \<times> (cstring \<Rightarrow> cstring option)) option" where
  "updatePartition blk_output mount_file m = do {
     m \<leftarrow> fetchDevices True blk_output m;
     mi \<leftarrow> fetchLatestMountInfo mount_file;
     Some (m, mi) }"

subsection \<open>Queries and the check boxes\<close>

text \<open>\<open>rowCount\<close> and \<open>data\<close>; \<open>None\<close> for a \<open>QModelIndex\<close> is the invalid one, else its column and its item.\<close>

type_synonym model_index = "(nat \<times> nat) option"

definition rowCount :: "bd_model \<Rightarrow> model_index \<Rightarrow> nat option" where
  "rowCount m parent =
    (case parent of None \<Rightarrow> childCount (bd_heap m) (rootItem m)
     | Some (column, it) \<Rightarrow> if column > 0 then Some 0 else childCount (bd_heap m) it)"

definition bd_index :: "bd_model \<Rightarrow> nat \<Rightarrow> nat \<Rightarrow> model_index \<Rightarrow> model_index option" where
  "bd_index m row column parent = do {
     n \<leftarrow> rowCount m parent;
     if row < n \<and> column < 3 then do {
       c \<leftarrow> child (bd_heap m) (case parent of None \<Rightarrow> rootItem m | Some (_, it) \<Rightarrow> it) row;
       Some (Some (column, c)) }
     else Some None }"

text \<open>\<open>parent\<close>: the row and the item of the index above.\<close>

definition bd_parent_index :: "bd_model \<Rightarrow> model_index \<Rightarrow> (int \<times> nat) option option" where
  "bd_parent_index m index =
    (case index of None \<Rightarrow> Some None
     | Some (_, item) \<Rightarrow>
       if item = rootItem m then Some None
       else do {
         it \<leftarrow> bd_heap m item;
         p \<leftarrow> bd_parent it;
         row \<leftarrow> item_row (bd_heap m) p;
         Some (Some (row, p)) })"

text \<open>\<open>replace("\x0a", " ")\<close> in the cell of the mount points.\<close>

fun join_blank :: "cstring list \<Rightarrow> cstring" where
  "join_blank [] = []"
| "join_blank [w] = w"
| "join_blank (w # ws) = w @ [32] @ join_blank ws"

definition mount_cell :: "bd_model \<Rightarrow> nat \<Rightarrow> cstring option" where
  "mount_cell m item = do {
     v \<leftarrow> item_data (bd_heap m) item MountPoints;
     Some (join_blank (split_text X0A (to_string v))) }"

datatype check_state = Unchecked | PartiallyChecked | Checked

fun count_checked :: "bd_heap \<Rightarrow> nat \<Rightarrow> nat list \<Rightarrow> nat option" where
  "count_checked h item [] = Some 0"
| "count_checked h item (c # cs) = do {
     cit \<leftarrow> h c;
     n \<leftarrow> count_checked h item cs;
     Some (if bd_parent cit = Some item then n + 1 else n) }"

definition getCheckState :: "bd_model \<Rightarrow> model_index \<Rightarrow> check_state option" where
  "getCheckState m index = (case index of None \<Rightarrow> Some Unchecked | Some (_, item) \<Rightarrow> do {
     part \<leftarrow> isPartition (bd_heap m) item;
     if part then Some (if item \<in> set (checkedItems m) then Checked else Unchecked)
     else do {
       cnt \<leftarrow> count_checked (bd_heap m) item (checkedItems m);
       children \<leftarrow> childCount (bd_heap m) item;
       Some (if cnt = children then Checked else if cnt = 0 then Unchecked else PartiallyChecked) } })"

definition set_checked :: "bool \<Rightarrow> nat \<Rightarrow> nat list \<Rightarrow> nat list" where
  "set_checked checked item c = (if checked then List.insert item c else removeAll item c)"

definition check :: "model_index \<Rightarrow> bool \<Rightarrow> bd_model \<Rightarrow> bd_model option" where
  "check index checked m = (case index of None \<Rightarrow> Some m | Some (_, item) \<Rightarrow> do {
     part \<leftarrow> isPartition (bd_heap m) item;
     it \<leftarrow> bd_heap m item;
     let c = (if part then checkedItems m else fold (set_checked checked) (bd_children it) (checkedItems m));
     Some (m\<lparr>checkedItems := set_checked checked item c\<rparr>) })"

fun child_with :: "bd_heap \<Rightarrow> int \<Rightarrow> int \<Rightarrow> nat list \<Rightarrow> nat option option" where
  "child_with h major minor [] = Some None"
| "child_with h major minor (c # cs) = do {
     ma \<leftarrow> getMajor h c;
     mn \<leftarrow> getMinor h c;
     if int ma = major \<and> int mn = minor then Some (Some c) else child_with h major minor cs }"

fun name_of_id :: "bd_heap \<Rightarrow> int \<Rightarrow> int \<Rightarrow> nat list \<Rightarrow> cstring option option" where
  "name_of_id h major minor [] = Some None"
| "name_of_id h major minor (r # rs) = do {
     it \<leftarrow> h r;
     found \<leftarrow> child_with h major minor (bd_children it);
     (case found of Some c \<Rightarrow> do { n \<leftarrow> item_name h c; Some (Some n) }
      | None \<Rightarrow> name_of_id h major minor rs) }"

text \<open>\<open>"Unknown"\<close>.\<close>

definition UNKNOWN :: cstring where "UNKNOWN = [85, 110, 107, 110, 111, 119, 110]"

definition getDeviceName :: "bd_model \<Rightarrow> cstring \<Rightarrow> cstring option" where
  "getDeviceName m i =
    (let id_list = split_at 58 i in
     if length id_list = 2 then do {
       found \<leftarrow> name_of_id (bd_heap m) (text_int (id_list ! 0)) (text_int (id_list ! 1)) (bd_devices m);
       Some (case found of Some n \<Rightarrow> n | None \<Rightarrow> UNKNOWN) }
     else Some UNKNOWN)"

fun mount_point_of :: "(cstring \<Rightarrow> cstring option) \<Rightarrow> bd_heap \<Rightarrow> nat \<Rightarrow> nat \<Rightarrow> nat list \<Rightarrow> cstring option" where
  "mount_point_of mi h major minor [] = Some []"
| "mount_point_of mi h major minor (r # rs) = do {
     ma \<leftarrow> getMajor h r;
     mn \<leftarrow> getMinor h r;
     if ma = major \<and> mn = minor then rootMountPoint mi h r
     else do {
       it \<leftarrow> h r;
       found \<leftarrow> child_with h (int major) (int minor) (bd_children it);
       (case found of Some c \<Rightarrow> rootMountPoint mi h c
        | None \<Rightarrow> mount_point_of mi h major minor rs) } }"

definition getMountPoint :: "(cstring \<Rightarrow> cstring option) \<Rightarrow> bd_model \<Rightarrow> nat \<Rightarrow> nat \<Rightarrow> cstring option" where
  "getMountPoint mi m major minor = mount_point_of mi (bd_heap m) major minor (bd_devices m)"

end
