(* ===== verification/Mon_Tree.thy ===== *)
theory Mon_Tree
  imports Mon_Devices
begin

text \<open>
  What a reading of \<open>lsblk\<close> does to the tree of the devices: the new tree is the one that the rows describe, and the
  old items are deleted, each once.
\<close>

subsection \<open>Reading the rows\<close>

fun lsblk_rows :: "cstring list \<Rightarrow> qvariant list list option" where
  "lsblk_rows [] = Some []"
| "lsblk_rows (blk # blks) =
    (if trimmed blk = [] then lsblk_rows blks
     else do { vs \<leftarrow> blk_data blk; rows \<leftarrow> lsblk_rows blks; Some (vs # rows) })"

definition with_items :: "bd_heap \<Rightarrow> nat \<Rightarrow> qvariant list list \<Rightarrow> bd_heap" where
  "with_items h n rows = (\<lambda>a. if n \<le> a \<and> a < n + length rows
     then Some \<lparr>bd_data = rows ! (a - n), bd_children = [], bd_parent = None\<rparr> else h a)"

lemma with_items_Cons:
  "with_items (h(n \<mapsto> \<lparr>bd_data = vs, bd_children = [], bd_parent = None\<rparr>)) (Suc n) rows = with_items h n (vs # rows)"
proof
  fix a
  consider "a = n" | "a < n" | k where "a = Suc n + k" by (metis add.commute le_Suc_ex not_less_eq_eq linorder_neqE_nat Suc_leI)
  then show "with_items (h(n \<mapsto> \<lparr>bd_data = vs, bd_children = [], bd_parent = None\<rparr>)) (Suc n) rows a = with_items h n (vs # rows) a"
    by cases (auto simp: with_items_def)
qed

lemma read_devices_rows:
  "lsblk_rows blks = Some rows \<Longrightarrow> read_devices is_update blks m =
    Some ([bd_next m..<bd_next m + length rows],
      m\<lparr>bd_heap := with_items (bd_heap m) (bd_next m) rows, bd_next := bd_next m + length rows,
        checkedItems := (if is_update then checkedItems m else fold List.insert [bd_next m..<bd_next m + length rows] (checkedItems m))\<rparr>)"
proof (induction blks arbitrary: m rows)
  case Nil
  have "with_items h n [] = h" for h n by (auto simp: with_items_def fun_eq_iff)
  then show ?case using Nil by simp
next
  case (Cons blk blks)
  show ?case
  proof (cases "trimmed blk = []")
    case True
    then show ?thesis using Cons by simp
  next
    case False
    then obtain vs rows' where r: "blk_data blk = Some vs" "lsblk_rows blks = Some rows'" "rows = vs # rows'"
      using Cons.prems by (auto split: bind_splits)
    have u: "[bd_next m..<bd_next m + length rows] = bd_next m # [Suc (bd_next m)..<Suc (bd_next m) + length rows']"
      using r(3) by (simp add: upt_conv_Cons del: upt_Suc)
    show ?thesis
      using False r(1,3) unfolding u by (simp add: new_item_def Cons.IH[OF r(2)] with_items_Cons del: upt_Suc)
  qed
qed

definition vs_name :: "qvariant list \<Rightarrow> cstring" where
  "vs_name vs = to_string (vs ! Name)"

definition vs_part :: "qvariant list \<Rightarrow> bool" where
  "vs_part vs \<longleftrightarrow> to_string (vs ! Type) = [112, 97, 114, 116]"

lemma blk_data_length: "blk_data blk = Some vs \<Longrightarrow> length vs = 8"
  by (auto simp: blk_data_def Let_def split: bind_splits)

lemma lsblk_rows_length: "lsblk_rows blks = Some rows \<Longrightarrow> vs \<in> set rows \<Longrightarrow> length vs = 8"
  by (induction blks arbitrary: rows) (auto simp: blk_data_length split: bind_splits if_splits)

subsection \<open>Changing the tree\<close>

text \<open>The heap after the items \<open>cs\<close> were appended to \<open>r\<close>.\<close>

definition attach :: "bd_heap \<Rightarrow> nat \<Rightarrow> nat list \<Rightarrow> bd_heap" where
  "attach h r cs = (\<lambda>a. if a = r then map_option (\<lambda>it. it\<lparr>bd_children := bd_children it @ cs\<rparr>) (h a)
     else if a \<in> set cs then map_option (\<lambda>it. it\<lparr>bd_parent := Some r\<rparr>) (h a) else h a)"

lemma attach_Nil [simp]: "attach h r [] = h"
  by (auto simp: attach_def fun_eq_iff option.map_ident)

lemma attach_attach: "r \<notin> set (cs @ ds) \<Longrightarrow> attach (attach h r cs) r ds = attach h r (cs @ ds)"
  by (auto simp: attach_def fun_eq_iff option.map_comp comp_def intro!: arg_cong[where f = "\<lambda>f. map_option f _"])

lemma appendChild_attach: "h r \<noteq> None \<Longrightarrow> h c \<noteq> None \<Longrightarrow> r \<noteq> c \<Longrightarrow> appendChild h r c = Some (attach h r [c])"
  by (auto simp: appendChild_def attach_def fun_eq_iff)

lemma attach_None [simp]: "attach h r cs a = None \<longleftrightarrow> h a = None"
  by (simp add: attach_def)

lemma item_data_attach [simp]: "item_data (attach h r cs) a column = item_data h a column"
  by (cases "h a") (auto simp: item_data_def attach_def)

lemma item_name_attach [simp]: "item_name (attach h r cs) a = item_name h a"
  by (simp add: item_name_def)

lemma append_parts_attach:
  assumes "h r \<noteq> None" "\<forall>d\<in>set ds. item_name h d = Some (nm d)"
  shows "append_parts r rn ds h = Some (attach h r (filter (\<lambda>d. d \<noteq> r \<and> starts_with (nm d) rn) ds))"
  using assms
proof (induction ds arbitrary: h)
  case Nil
  then show ?case by simp
next
  case (Cons d ds)
  have "h d \<noteq> None" using Cons.prems(2) by (auto simp: item_name_def item_data_def split: bind_splits)
  then show ?case
    using Cons.prems Cons.IH[of h] Cons.IH[of "attach h r [d]"]
    by (simp add: appendChild_attach attach_attach del: append_Cons) (auto simp: attach_attach)
qed

lemma root_devices_filter:
  "\<forall>d\<in>set ds. item_type h d = Some (ty d) \<Longrightarrow> root_devices h ds = Some (filter (\<lambda>d. ty d \<noteq> [112, 97, 114, 116]) ds)"
  by (induction ds) auto

definition attach_all :: "(nat \<Rightarrow> nat list) \<Rightarrow> nat list \<Rightarrow> bd_heap \<Rightarrow> bd_heap" where
  "attach_all cs rs h = fold (\<lambda>r h. attach h r (cs r)) rs h"

lemma build_tree_attach:
  assumes "\<forall>d\<in>set repo. item_name h d = Some (nm d)" "set rs \<subseteq> set repo"
  shows "build_tree rs repo h = Some (attach_all (\<lambda>r. filter (\<lambda>d. d \<noteq> r \<and> starts_with (nm d) (nm r)) repo) rs h)"
  using assms
proof (induction rs arbitrary: h)
  case Nil
  then show ?case by (simp add: attach_all_def)
next
  case (Cons r rs)
  have n: "item_name h r = Some (nm r)" using Cons.prems by simp
  then have "h r \<noteq> None" by (auto simp: item_name_def item_data_def split: bind_splits)
  then show ?case using n append_parts_attach[OF _ Cons.prems(1), of r "nm r"] Cons.IH Cons.prems
    by (simp add: attach_all_def)
qed

lemma attach_all_root:
  assumes "distinct rs" "\<forall>r\<in>set rs. \<forall>r'\<in>set rs. r' \<notin> set (cs r)" "r \<in> set rs"
  shows "attach_all cs rs h r = map_option (\<lambda>it. it\<lparr>bd_children := bd_children it @ cs r\<rparr>) (h r)"
  using assms
proof (induction rs arbitrary: h)
  case Nil
  then show ?case by simp
next
  case (Cons r0 rs)
  show ?case
  proof (cases "r = r0")
    case True
    have "a \<notin> set rs \<Longrightarrow> \<forall>r\<in>set rs. a \<notin> set (cs r) \<Longrightarrow> attach_all cs rs h a = h a" for h a
      by (induction rs arbitrary: h) (auto simp: attach_all_def attach_def)
    then show ?thesis using True Cons.prems by (simp add: attach_all_def attach_def)
  next
    case False
    then show ?thesis using Cons by (simp add: attach_all_def attach_def)
  qed
qed

lemma attach_all_other: "a \<notin> set rs \<Longrightarrow> \<forall>r\<in>set rs. a \<notin> set (cs r) \<Longrightarrow> attach_all cs rs h a = h a"
  by (induction rs arbitrary: h) (auto simp: attach_all_def attach_def)

lemma attach_all_child:
  assumes "a \<notin> set rs" "r \<in> set rs" "a \<in> set (cs r)" "\<forall>r'\<in>set rs. a \<in> set (cs r') \<longrightarrow> r' = r"
  shows "attach_all cs rs h a = map_option (\<lambda>it. it\<lparr>bd_parent := Some r\<rparr>) (h a)"
proof -
  have "attach_all cs rs h a = (if r \<in> set rs then map_option (\<lambda>it. it\<lparr>bd_parent := Some r\<rparr>) (h a) else h a)"
    using assms(1,4)
  proof (induction rs arbitrary: h)
    case Nil
    then show ?case by (simp add: attach_all_def)
  next
    case (Cons r0 rs)
    let ?f = "map_option (\<lambda>it. it\<lparr>bd_parent := Some r\<rparr>)"
    have "attach h r0 (cs r0) a = (if r0 = r then ?f (h a) else h a)"
    proof -
      have "a \<noteq> r0" using Cons.prems(1) by simp
      moreover have "a \<in> set (cs r0) \<longleftrightarrow> r0 = r" using Cons.prems(2) assms(3) by (metis list.set_intros(1))
      ultimately show ?thesis by (simp add: attach_def)
    qed
    moreover have "attach_all cs (r0 # rs) h a =
        (if r \<in> set rs then ?f (attach h r0 (cs r0) a) else attach h r0 (cs r0) a)"
    proof -
      have "a \<notin> set rs" "\<forall>r'\<in>set rs. a \<in> set (cs r') \<longrightarrow> r' = r" using Cons.prems by (simp, metis list.set_intros(2))
      from Cons.IH[OF this, of "attach h r0 (cs r0)"] show ?thesis by (simp add: attach_all_def)
    qed
    ultimately show ?case by (cases "h a") auto
  qed
  then show ?thesis using assms(2) by simp
qed

lemma push_children_attach:
  "h d \<noteq> None \<Longrightarrow> \<forall>c\<in>set cs. h c \<noteq> None \<Longrightarrow> d \<notin> set cs \<Longrightarrow> push_children h d cs = Some (attach h d cs)"
proof (induction cs arbitrary: h)
  case Nil
  then show ?case by simp
next
  case (Cons c cs)
  from Cons.prems obtain it cit where i: "h d = Some it" "h c = Some cit" "d \<noteq> c" by auto
  let ?h = "h(c \<mapsto> cit\<lparr>bd_parent := Some d\<rparr>, d \<mapsto> it\<lparr>bd_children := bd_children it @ [c]\<rparr>)"
  have e: "?h = attach h d [c]" using i by (auto simp: attach_def fun_eq_iff)
  have "push_children h d (c # cs) = push_children ?h d cs" using i by simp
  also have "\<dots> = Some (attach (attach h d [c]) d cs)" unfolding e by (rule Cons.IH) (use Cons.prems in auto)
  also have "\<dots> = Some (attach h d (c # cs))" using Cons.prems attach_attach[of d "[c]" cs h] by simp
  finally show ?case .
qed

subsection \<open>Deleting the old tree\<close>

lemma delete_items_Nil [simp]: "delete_items h [] = Some h"
  by (subst delete_items.simps) simp

lemma delete_items_Cons:
  "delete_items h (d # ds) = (case h d of None \<Rightarrow> None
     | Some it \<Rightarrow> Option.bind (delete_items h (bd_children it)) (\<lambda>h. delete_items (h(d := None)) ds))"
  by (subst delete_items.simps) simp

lemma delete_leaves:
  "distinct cs \<Longrightarrow> \<forall>c\<in>set cs. \<exists>it. h c = Some it \<and> bd_children it = [] \<Longrightarrow> delete_items h cs = Some (h |` (- set cs))"
proof (induction cs arbitrary: h)
  case Nil
  then show ?case by simp
next
  case (Cons c cs)
  from Cons.prems obtain it where "h c = Some it" "bd_children it = []" by auto
  moreover have "(h(c := None)) |` (- set cs) = h |` (- set (c # cs))" by (auto simp: restrict_map_def fun_eq_iff)
  moreover have "delete_items (h(c := None)) cs = Some ((h(c := None)) |` (- set cs))"
    using Cons.prems by (intro Cons.IH) auto
  ultimately show ?case by (simp add: delete_items_Cons del: fun_upd_restrict_conv)
qed

lemma delete_tree:
  assumes "distinct (concat (map (\<lambda>d. d # ch d) ds))"
    "\<forall>d\<in>set ds. \<exists>it. h d = Some it \<and> bd_children it = ch d"
    "\<forall>d\<in>set ds. \<forall>c\<in>set (ch d). \<exists>it. h c = Some it \<and> bd_children it = []"
  shows "delete_items h ds = Some (h |` (- set (concat (map (\<lambda>d. d # ch d) ds))))"
  using assms
proof (induction ds arbitrary: h)
  case Nil
  then show ?case by simp
next
  case (Cons d ds)
  let ?h = "(h |` (- set (ch d)))(d := None)"
  from Cons.prems obtain it where "h d = Some it" "bd_children it = ch d" by auto
  moreover have "delete_items h (ch d) = Some (h |` (- set (ch d)))" using Cons.prems by (intro delete_leaves) auto
  moreover have "delete_items ?h ds = Some (?h |` (- set (concat (map (\<lambda>d. d # ch d) ds))))"
    using Cons.prems by (intro Cons.IH) (fastforce simp: restrict_map_def)+
  moreover have "?h |` (- set (concat (map (\<lambda>d. d # ch d) ds))) = h |` (- set (concat (map (\<lambda>d. d # ch d) (d # ds))))"
    by (auto simp: restrict_map_def fun_eq_iff)
  ultimately show ?case by (simp add: delete_items_Cons)
qed

lemma check_tree_set:
  assumes "\<forall>d\<in>set ds. \<exists>it. h d = Some it \<and> bd_children it = ch d"
  shows "\<exists>c'. check_tree h ds c = Some c' \<and> set c' = set c \<union> set (concat (map (\<lambda>d. d # ch d) ds))"
  using assms
proof (induction ds arbitrary: c)
  case Nil
  then show ?case by simp
next
  case (Cons d ds)
  have f: "set (fold List.insert xs c) = set xs \<union> set c" for xs :: "nat list" and c
    by (induction xs arbitrary: c) auto
  from Cons.prems obtain it where "h d = Some it" "bd_children it = ch d" by auto
  then show ?case using Cons.IH[of "fold List.insert (ch d) (List.insert d c)"] Cons.prems by (auto simp: f)
qed

end
