(* ===== verification/Mon_Update.thy ===== *)
theory Mon_Update
  imports Mon_Tree
begin

text \<open>
  The invariant of the tree of the devices, and the two readings of \<open>lsblk\<close>: at the start and at a change of the
  partitions.
\<close>

subsection \<open>The invariant\<close>

definition children_of :: "bd_heap \<Rightarrow> nat \<Rightarrow> nat list" where
  "children_of h d = (case h d of None \<Rightarrow> [] | Some it \<Rightarrow> bd_children it)"

definition data_of :: "bd_heap \<Rightarrow> nat \<Rightarrow> qvariant list" where
  "data_of h d = (case h d of None \<Rightarrow> [] | Some it \<Rightarrow> bd_data it)"

definition family :: "bd_heap \<Rightarrow> nat list \<Rightarrow> nat list" where
  "family h ds = concat (map (\<lambda>d. d # children_of h d) ds)"

lemma family_Nil [simp]: "family h [] = []"
  by (simp add: family_def)

definition device_ok :: "bd_heap \<Rightarrow> nat \<Rightarrow> nat \<Rightarrow> bool" where
  "device_ok h p d \<longleftrightarrow> (\<exists>it. h d = Some it \<and> length (bd_data it) = 8 \<and> bd_parent it = Some p)"

definition devices_ok :: "bd_model \<Rightarrow> bool" where
  "devices_ok m \<longleftrightarrow>
    (\<exists>it. bd_heap m (rootItem m) = Some it \<and> bd_data it = [Text ROOT] \<and> bd_children it = bd_devices m) \<and>
    (\<forall>a. bd_heap m a \<noteq> None \<longrightarrow> a < bd_next m) \<and>
    distinct (rootItem m # family (bd_heap m) (bd_devices m)) \<and>
    (\<forall>d\<in>set (bd_devices m). device_ok (bd_heap m) (rootItem m) d \<and>
       (\<forall>c\<in>set (children_of (bd_heap m) d). device_ok (bd_heap m) d c \<and> children_of (bd_heap m) c = [])) \<and>
    (\<forall>c\<in>set (checkedItems m). \<exists>it. bd_heap m c = Some it \<and> length (bd_data it) = 8)"

text \<open>The data of the devices and of their partitions.\<close>

definition device_forest :: "bd_model \<Rightarrow> (qvariant list \<times> qvariant list list) list" where
  "device_forest m = map (\<lambda>d. (data_of (bd_heap m) d, map (data_of (bd_heap m)) (children_of (bd_heap m) d))) (bd_devices m)"

text \<open>What the rows describe: a partition belongs to the device whose name its own starts with.\<close>

definition rows_forest :: "qvariant list list \<Rightarrow> (qvariant list \<times> qvariant list list) list" where
  "rows_forest rows =
    map (\<lambda>r. (r, filter (\<lambda>p. vs_part p \<and> starts_with (vs_name p) (vs_name r)) rows)) (filter (\<lambda>r. \<not> vs_part r) rows)"

text \<open>No name of a whole device starts with the name of another one.\<close>

definition names_apart :: "qvariant list list \<Rightarrow> bool" where
  "names_apart rows \<longleftrightarrow>
    (\<forall>i<length rows. \<forall>j<length rows. i \<noteq> j \<and> \<not> vs_part (rows ! i) \<and> \<not> vs_part (rows ! j) \<longrightarrow>
       \<not> starts_with (vs_name (rows ! j)) (vs_name (rows ! i)))"

subsection \<open>The new items\<close>

definition new_roots :: "nat \<Rightarrow> qvariant list list \<Rightarrow> nat list" where
  "new_roots n rows = filter (\<lambda>d. \<not> vs_part (rows ! (d - n))) [n..<n + length rows]"

definition new_parts :: "nat \<Rightarrow> qvariant list list \<Rightarrow> nat \<Rightarrow> nat list" where
  "new_parts n rows r =
    filter (\<lambda>d. vs_part (rows ! (d - n)) \<and> starts_with (vs_name (rows ! (d - n))) (vs_name (rows ! (r - n)))) [n..<n + length rows]"

lemma map_filter_rows:
  "map (\<lambda>d. rows ! (d - n)) (filter (\<lambda>d. Q (rows ! (d - n))) [n..<n + length rows]) = filter Q rows"
proof -
  have "map (\<lambda>d. rows ! (d - n)) [n..<n + length rows] = rows" by (rule nth_equalityI) simp_all
  then have "filter Q rows = filter Q (map (\<lambda>d. rows ! (d - n)) [n..<n + length rows])" by simp
  then show ?thesis by (simp add: filter_map comp_def)
qed

lemma starts_with_both: "starts_with s p \<Longrightarrow> starts_with s q \<Longrightarrow> starts_with p q \<or> starts_with q p"
  unfolding starts_with_def by (metis linear min.absorb1 min.absorb2 take_take)

lemma new_roots_mem: "r \<in> set (new_roots n rows) \<longleftrightarrow> (\<exists>i<length rows. r = n + i \<and> \<not> vs_part (rows ! i))"
  by (auto simp: new_roots_def) (metis add_diff_cancel_left' le_Suc_ex nat_add_left_cancel_less)

lemma new_parts_mem:
  "c \<in> set (new_parts n rows r) \<longleftrightarrow>
    (\<exists>j<length rows. c = n + j \<and> vs_part (rows ! j) \<and> starts_with (vs_name (rows ! j)) (vs_name (rows ! (r - n))))"
  by (auto simp: new_parts_def) (metis add_diff_cancel_left' le_Suc_ex nat_add_left_cancel_less)

lemma one_device:
  assumes "names_apart rows" "r \<in> set (new_roots n rows)" "r' \<in> set (new_roots n rows)"
    "c \<in> set (new_parts n rows r)" "c \<in> set (new_parts n rows r')"
  shows "r' = r"
proof (rule ccontr)
  assume ne: "r' \<noteq> r"
  obtain i j where i: "i < length rows" "r = n + i" "\<not> vs_part (rows ! i)" "j < length rows" "r' = n + j" "\<not> vs_part (rows ! j)"
    using assms(2,3) by (auto simp: new_roots_mem)
  have "starts_with (vs_name (rows ! i)) (vs_name (rows ! j)) \<or> starts_with (vs_name (rows ! j)) (vs_name (rows ! i))"
    using assms(4,5) i starts_with_both by (auto simp: new_parts_mem) blast
  then show False using assms(1) i ne unfolding names_apart_def by blast
qed

definition new_tree :: "bd_heap \<Rightarrow> nat \<Rightarrow> qvariant list list \<Rightarrow> bd_heap" where
  "new_tree h n rows = attach_all (new_parts n rows) (new_roots n rows) (with_items h n rows)"

lemma with_items_new: "i < length rows \<Longrightarrow>
    with_items h n rows (n + i) = Some \<lparr>bd_data = rows ! i, bd_children = [], bd_parent = None\<rparr>"
  by (simp add: with_items_def)

lemma build_new_tree:
  assumes "\<forall>vs\<in>set rows. length vs = 8" "names_apart rows"
  shows "root_devices (with_items h n rows) [n..<n + length rows] = Some (new_roots n rows)"
    "build_tree (new_roots n rows) [n..<n + length rows] (with_items h n rows) = Some (new_tree h n rows)"
proof -
  let ?h = "with_items h n rows" and ?ds = "[n..<n + length rows]" and ?nm = "\<lambda>d. vs_name (rows ! (d - n))"
  have e: "length (rows ! (d - n)) = 8" if d: "d \<in> set ?ds" for d using assms(1) d by auto
  then have ty: "\<forall>d\<in>set ?ds. item_type ?h d = Some (to_string (rows ! (d - n) ! Type))"
    by (auto simp: item_type_def item_data_def with_items_def elem_def)
  show "root_devices ?h ?ds = Some (new_roots n rows)"
    by (rule trans[OF root_devices_filter[OF ty]]) (simp add: new_roots_def vs_part_def)
  have nm: "\<forall>d\<in>set ?ds. item_name ?h d = Some (?nm d)"
    using e by (fastforce simp: item_name_def item_data_def with_items_def elem_def vs_name_def)
  have sub: "set (new_roots n rows) \<subseteq> set ?ds" by (auto simp: new_roots_def)
  have parts: "filter (\<lambda>d. d \<noteq> r \<and> starts_with (?nm d) (?nm r)) ?ds = new_parts n rows r"
    if r: "r \<in> set (new_roots n rows)" for r
    unfolding new_parts_def
  proof (rule filter_cong[OF refl])
    fix d assume "d \<in> set ?ds"
    then obtain i j where i: "i < length rows" "r = n + i" "\<not> vs_part (rows ! i)" "j < length rows" "d = n + j"
      using r unfolding new_roots_mem by (metis atLeastLessThan_upt atLeastLessThan_iff le_Suc_ex nat_add_left_cancel_less)
    then show "(d \<noteq> r \<and> starts_with (?nm d) (?nm r)) = (vs_part (rows ! (d - n)) \<and> starts_with (?nm d) (?nm r))"
      using assms(2) unfolding names_apart_def by auto
  qed
  have "attach_all cs rs g = attach_all cs' rs g" if "\<forall>r\<in>set rs. cs r = cs' r" for cs cs' rs g
    using that by (induction rs arbitrary: g) (auto simp: attach_all_def)
  with parts show "build_tree (new_roots n rows) ?ds ?h = Some (new_tree h n rows)"
    unfolding build_tree_attach[OF nm sub] new_tree_def by simp
qed

lemma new_tree_items:
  assumes "names_apart rows"
  shows "r \<in> set (new_roots n rows) \<Longrightarrow>
      new_tree h n rows r = Some \<lparr>bd_data = rows ! (r - n), bd_children = new_parts n rows r, bd_parent = None\<rparr>"
    "r \<in> set (new_roots n rows) \<Longrightarrow> c \<in> set (new_parts n rows r) \<Longrightarrow>
      new_tree h n rows c = Some \<lparr>bd_data = rows ! (c - n), bd_children = [], bd_parent = Some r\<rparr>"
    "a < n \<Longrightarrow> new_tree h n rows a = h a"
    "new_tree h n rows a \<noteq> None \<longleftrightarrow> h a \<noteq> None \<or> n \<le> a \<and> a < n + length rows"
proof -
  have apart: "\<forall>r\<in>set (new_roots n rows). \<forall>r'\<in>set (new_roots n rows). r' \<notin> set (new_parts n rows r)"
    by (auto simp: new_roots_mem new_parts_mem)
  show "new_tree h n rows r = Some \<lparr>bd_data = rows ! (r - n), bd_children = new_parts n rows r, bd_parent = None\<rparr>"
    if r: "r \<in> set (new_roots n rows)"
    using attach_all_root[OF _ apart r, of "with_items h n rows"] r
    by (auto simp: new_tree_def with_items_def new_roots_def)
  show "new_tree h n rows c = Some \<lparr>bd_data = rows ! (c - n), bd_children = [], bd_parent = Some r\<rparr>"
    if r: "r \<in> set (new_roots n rows)" "c \<in> set (new_parts n rows r)"
  proof -
    have "new_tree h n rows c = map_option (\<lambda>it. it\<lparr>bd_parent := Some r\<rparr>) (with_items h n rows c)"
      unfolding new_tree_def
    proof (rule attach_all_child)
      show "c \<notin> set (new_roots n rows)" using apart r by blast
      show "\<forall>r'\<in>set (new_roots n rows). c \<in> set (new_parts n rows r') \<longrightarrow> r' = r"
        using one_device[OF assms r(1) _ r(2)] by blast
    qed (use r in simp_all)
    then show ?thesis using r(2) by (auto simp: new_parts_mem with_items_new)
  qed
  show "new_tree h n rows a = h a" if "a < n"
  proof -
    have "new_tree h n rows a = with_items h n rows a"
      unfolding new_tree_def using that by (intro attach_all_other) (auto simp: new_roots_mem new_parts_mem)
    then show ?thesis using that by (simp add: with_items_def)
  qed
  have "attach_all cs rs g a = None \<longleftrightarrow> g a = None" for cs rs g
    by (induction rs arbitrary: g) (simp_all add: attach_all_def)
  then show "new_tree h n rows a \<noteq> None \<longleftrightarrow> h a \<noteq> None \<or> n \<le> a \<and> a < n + length rows"
    unfolding new_tree_def by (auto simp: with_items_def)
qed

lemma family_new_tree:
  assumes "names_apart rows"
  shows "family (new_tree h n rows) (new_roots n rows) = concat (map (\<lambda>d. d # new_parts n rows d) (new_roots n rows))"
    "distinct (family (new_tree h n rows) (new_roots n rows))"
    "\<forall>a\<in>set (family (new_tree h n rows) (new_roots n rows)). n \<le> a \<and> a < n + length rows"
proof -
  show f: "family (new_tree h n rows) (new_roots n rows) = concat (map (\<lambda>d. d # new_parts n rows d) (new_roots n rows))"
    unfolding family_def
    by (rule arg_cong[where f = concat], rule map_cong) (simp_all add: children_of_def new_tree_items(1)[OF assms])
  have "distinct (concat (map (\<lambda>d. d # new_parts n rows d) rs))"
    if "set rs \<subseteq> set (new_roots n rows)" "distinct rs" for rs
    using that
  proof (induction rs)
    case Nil
    then show ?case by simp
  next
    case (Cons r rs)
    have "distinct (r # new_parts n rows r)"
      using Cons.prems(1) by (auto simp: new_parts_def[of n rows] new_roots_def)
    moreover have "set (r # new_parts n rows r) \<inter> set (concat (map (\<lambda>d. d # new_parts n rows d) rs)) = {}"
    proof -
      have "r \<notin> set (new_parts n rows r')" "r' \<notin> set (new_parts n rows r)" "r \<noteq> r'"
        "set (new_parts n rows r) \<inter> set (new_parts n rows r') = {}" if "r' \<in> set rs" for r'
        using Cons.prems that one_device[OF assms, of r n r']
        by (auto simp: new_parts_def new_roots_def subset_iff)
      then show ?thesis by auto blast
    qed
    ultimately show ?case using Cons by simp
  qed
  then show "distinct (family (new_tree h n rows) (new_roots n rows))"
    unfolding f by (simp add: new_roots_def)
  show "\<forall>a\<in>set (family (new_tree h n rows) (new_roots n rows)). n \<le> a \<and> a < n + length rows"
    unfolding f by (auto simp: new_roots_mem new_parts_mem)
qed

subsection \<open>The two readings\<close>

lemma install_tree:
  assumes eight: "\<forall>vs\<in>set rows. length vs = 8" and apart: "names_apart rows"
    and old: "\<forall>a\<ge>n. g a = new_tree h n rows a" "\<forall>a. h a \<noteq> None \<longrightarrow> a < n"
    and root: "r0 < n" "g r0 = Some rit" "bd_data rit = [Text ROOT]"
  shows "\<exists>h'. setChildItems g r0 (new_roots n rows) = Some h' \<and>
    family h' (new_roots n rows) = family (new_tree h n rows) (new_roots n rows) \<and>
    (\<forall>r\<in>set (new_roots n rows). \<exists>it. h' r = Some it \<and> bd_children it = new_parts n rows r) \<and>
    (\<forall>c m. (\<forall>a\<in>set c. n \<le> a \<and> a < n + length rows) \<longrightarrow> bd_next m = n + length rows \<longrightarrow> rootItem m = r0 \<longrightarrow>
      devices_ok (m\<lparr>bd_heap := h', bd_devices := new_roots n rows, checkedItems := c\<rparr>) \<and>
      device_forest (m\<lparr>bd_heap := h', bd_devices := new_roots n rows, checkedItems := c\<rparr>) = rows_forest rows)"
proof -
  let ?rs = "new_roots n rows" and ?g = "g(r0 \<mapsto> rit\<lparr>bd_children := []\<rparr>)"
  define h' where "h' = attach ?g r0 ?rs"
  note items = new_tree_items[OF apart, where h = h and n = n] and fam = family_new_tree[OF apart, where h = h and n = n]
  have new: "r0 \<notin> set ?rs" "\<And>r. r \<in> set ?rs \<Longrightarrow> n \<le> r \<and> r < n + length rows"
    "\<And>r c. c \<in> set (new_parts n rows r) \<Longrightarrow> n \<le> c \<and> c < n + length rows \<and> c \<notin> set ?rs"
    using root(1) by (auto simp: new_roots_mem new_parts_mem)
  have len: "length (rows ! (a - n)) = 8" if a: "n \<le> a" "a < n + length rows" for a
  proof -
    from a have "rows ! (a - n) \<in> set rows" by (intro nth_mem) simp
    then show ?thesis using eight by blast
  qed
  have r: "h' r = Some \<lparr>bd_data = rows ! (r - n), bd_children = new_parts n rows r, bd_parent = Some r0\<rparr>" if "r \<in> set ?rs" for r
    using that new(1) new(2)[OF that] old(1) items(1)[OF that] by (auto simp: h'_def attach_def)
  have c: "h' c = Some \<lparr>bd_data = rows ! (c - n), bd_children = [], bd_parent = Some r\<rparr>"
    if "r \<in> set ?rs" "c \<in> set (new_parts n rows r)" for r c
    using new(3)[OF that(2)] old(1) items(2)[OF that] root(1) by (auto simp: h'_def attach_def)
  have r0: "h' r0 = Some (rit\<lparr>bd_children := ?rs\<rparr>)" using new(1) by (simp add: h'_def attach_def)
  have live: "\<exists>it. h' a = Some it \<and> length (bd_data it) = 8" if a: "n \<le> a" "a < n + length rows" for a
  proof -
    have "new_tree h n rows a \<noteq> None" unfolding items(4) using a by simp
    moreover have "\<forall>it. new_tree h n rows a = Some it \<longrightarrow> length (bd_data it) = 8"
    proof -
      have "map_option bd_data (attach_all cs rs k a) = map_option bd_data (k a)" for cs rs k
        by (induction rs arbitrary: k) (simp_all add: attach_all_def attach_def option.map_comp comp_def)
      then have "map_option bd_data (new_tree h n rows a) = Some (rows ! (a - n))"
        unfolding new_tree_def using a by (simp add: with_items_def)
      then show ?thesis using len[OF a] by auto
    qed
    moreover have "a \<noteq> r0" "g a = new_tree h n rows a" using a root(1) old(1) by auto
    ultimately show ?thesis by (auto simp: h'_def attach_def)
  qed
  have set: "setChildItems g r0 ?rs = Some h'"
  proof -
    have "\<forall>c\<in>set ?rs. ?g c \<noteq> None" using new(2) old(1) items(1) by auto
    then have "push_children ?g r0 ?rs = Some h'"
      unfolding h'_def by (intro push_children_attach) (use new(1) in auto)
    then show ?thesis using root(2) by (simp add: setChildItems_def)
  qed
  have ch: "children_of h' r = new_parts n rows r" if "r \<in> set ?rs" for r using r[OF that] by (simp add: children_of_def)
  have f: "family h' ?rs = family (new_tree h n rows) ?rs"
    unfolding fam(1) unfolding family_def by (rule arg_cong[where f = concat], rule map_cong) (simp_all add: ch)
  show ?thesis
  proof (intro exI conjI)
    show "setChildItems g r0 ?rs = Some h'" by (fact set)
    show "family h' ?rs = family (new_tree h n rows) ?rs" by (fact f)
    show "\<forall>r\<in>set ?rs. \<exists>it. h' r = Some it \<and> bd_children it = new_parts n rows r" using r by auto
    show "\<forall>c m. (\<forall>a\<in>set c. n \<le> a \<and> a < n + length rows) \<longrightarrow> bd_next m = n + length rows \<longrightarrow> rootItem m = r0 \<longrightarrow>
      devices_ok (m\<lparr>bd_heap := h', bd_devices := ?rs, checkedItems := c\<rparr>) \<and>
      device_forest (m\<lparr>bd_heap := h', bd_devices := ?rs, checkedItems := c\<rparr>) = rows_forest rows"
    proof (intro allI impI conjI)
      fix cs :: "nat list" and m :: bd_model
      assume cs: "\<forall>a\<in>set cs. n \<le> a \<and> a < n + length rows" and m: "bd_next m = n + length rows" "rootItem m = r0"
      let ?m = "m\<lparr>bd_heap := h', bd_devices := ?rs, checkedItems := cs\<rparr>"
      have bound: "a < n + length rows" if "h' a \<noteq> None" for a
      proof (cases "a < n")
        case False
        then have "g a \<noteq> None" using that root(1) by (auto simp: h'_def attach_def split: if_splits)
        then have "new_tree h n rows a \<noteq> None" using False old(1) by simp
        then show ?thesis unfolding items(4) using False old(2) by auto
      qed simp
      have "distinct (r0 # family h' ?rs)" unfolding f using fam(2,3) root(1) by fastforce
      then show "devices_ok ?m"
        unfolding devices_ok_def using r0 root(3) bound live cs m r c
        by (auto simp: device_ok_def children_of_def len new(2,3))
      have "device_forest ?m = map (\<lambda>d. (rows ! (d - n), map (\<lambda>c. rows ! (c - n)) (new_parts n rows d))) ?rs"
        unfolding device_forest_def using r c ch by (auto simp: data_of_def)
      also have "\<dots> = rows_forest rows"
        unfolding new_parts_def map_filter_rows[where Q = "\<lambda>p. vs_part p \<and> starts_with (vs_name p) (vs_name (rows ! (_ - n)))"]
          rows_forest_def map_filter_rows[where Q = "\<lambda>r. \<not> vs_part r", of rows n, symmetric] new_roots_def by simp
      finally show "device_forest ?m = rows_forest rows" .
    qed
  qed
qed

lemma delete_old:
  assumes "devices_ok m" "\<forall>a<bd_next m. h a = bd_heap m a"
  shows "delete_items h (bd_devices m) = Some (h |` (- set (family (bd_heap m) (bd_devices m))))"
proof -
  note ok = assms(1)[unfolded devices_ok_def]
  have live: "h d = bd_heap m d" if "bd_heap m d \<noteq> None" for d using that ok assms(2) by blast
  show ?thesis
    unfolding family_def
  proof (rule delete_tree[where ch = "children_of (bd_heap m)"])
    show "distinct (concat (map (\<lambda>d. d # children_of (bd_heap m) d) (bd_devices m)))"
      using ok by (simp add: family_def)
    show "\<forall>d\<in>set (bd_devices m). \<exists>it. h d = Some it \<and> bd_children it = children_of (bd_heap m) d"
      using ok live by (fastforce simp: device_ok_def children_of_def)
    show "\<forall>d\<in>set (bd_devices m). \<forall>c\<in>set (children_of (bd_heap m) d). \<exists>it. h c = Some it \<and> bd_children it = []"
    proof (intro ballI)
      fix d c assume "d \<in> set (bd_devices m)" "c \<in> set (children_of (bd_heap m) d)"
      then have "device_ok (bd_heap m) d c" "children_of (bd_heap m) c = []" using ok by blast+
      then show "\<exists>it. h c = Some it \<and> bd_children it = []" using live[of c] by (auto simp: device_ok_def children_of_def)
    qed
  qed
qed

lemma update_devices:
  assumes "devices_ok m" "lsblk_rows (tl (split_at 10 out)) = Some rows" "names_apart rows"
  shows "\<exists>m'. fetchDevices True (Some out) m = Some m' \<and> devices_ok m' \<and> device_forest m' = rows_forest rows \<and>
    set (checkedItems m') = set (family (bd_heap m') (bd_devices m'))"
proof -
  let ?n = "bd_next m" and ?H = "new_tree (bd_heap m) (bd_next m) rows" and ?rs = "new_roots (bd_next m) rows"
  let ?old = "family (bd_heap m) (bd_devices m)"
  note ok = assms(1)[unfolded devices_ok_def] and items = new_tree_items[OF assms(3), where h = "bd_heap m" and n = "bd_next m"]
  have eight: "\<forall>vs\<in>set rows. length vs = 8" using lsblk_rows_length[OF assms(2)] by blast
  obtain rit where rit: "bd_heap m (rootItem m) = Some rit" "bd_data rit = [Text ROOT]" "bd_children rit = bd_devices m"
    using ok by blast
  have root: "rootItem m < ?n" "rootItem m \<notin> set ?old" using ok rit(1) by auto
  have below: "\<forall>a<?n. ?H a = bd_heap m a" using items(3) by blast
  have old: "\<forall>a\<in>set ?old. a < ?n"
    using ok by (fastforce simp: family_def device_ok_def)
  let ?g = "?H |` (- set ?old)"
  have g: "?g (rootItem m) = Some rit" "\<forall>a\<ge>?n. ?g a = ?H a" using rit(1) root below old by (auto simp: restrict_map_def)
  obtain h' where h': "setChildItems ?g (rootItem m) ?rs = Some h'" "family h' ?rs = family ?H ?rs"
    "\<forall>r\<in>set ?rs. \<exists>it. h' r = Some it \<and> bd_children it = new_parts ?n rows r"
    "\<forall>c m'. (\<forall>a\<in>set c. ?n \<le> a \<and> a < ?n + length rows) \<longrightarrow> bd_next m' = ?n + length rows \<longrightarrow> rootItem m' = rootItem m \<longrightarrow>
      devices_ok (m'\<lparr>bd_heap := h', bd_devices := ?rs, checkedItems := c\<rparr>) \<and>
      device_forest (m'\<lparr>bd_heap := h', bd_devices := ?rs, checkedItems := c\<rparr>) = rows_forest rows"
    using install_tree[OF eight assms(3) g(2) _ root(1) g(1) rit(2)] ok by blast
  obtain c where c: "check_tree h' ?rs [] = Some c" "set c = set (concat (map (\<lambda>d. d # new_parts ?n rows d) ?rs))"
    using check_tree_set[of ?rs h' "new_parts ?n rows" "[]"] h'(3) by auto
  have cs: "set c = set (family h' ?rs)" unfolding c(2) h'(2) family_new_tree(1)[OF assms(3)] by (rule refl)
  let ?m = "m\<lparr>bd_devices := (if bd_devices m = [] then bd_devices m else []), bd_heap := with_items (bd_heap m) ?n rows,
    bd_next := ?n + length rows\<rparr>"
  have "childCount (bd_heap m) (rootItem m) = Some (length (bd_devices m))" using rit by (simp add: childCount_def)
  moreover have "?H (rootItem m) = Some rit" using below root(1) rit(1) by simp
  moreover note delete_old[OF assms(1) below]
  ultimately have "fetchDevices True (Some out) m = Some (?m\<lparr>bd_heap := h', bd_devices := ?rs, checkedItems := c\<rparr>)"
    using build_new_tree[OF eight assms(3), where n = "bd_next m" and h = "bd_heap m"] h'(1) c(1) rit(3) read_devices_rows[OF assms(2), of True]
    by (cases "bd_devices m = []") (simp_all add: fetchDevices_def)
  moreover have "\<forall>a\<in>set c. ?n \<le> a \<and> a < ?n + length rows" unfolding cs h'(2) by (rule family_new_tree(3)[OF assms(3)])
  moreover from this have "devices_ok (?m\<lparr>bd_heap := h', bd_devices := ?rs, checkedItems := c\<rparr>) \<and>
      device_forest (?m\<lparr>bd_heap := h', bd_devices := ?rs, checkedItems := c\<rparr>) = rows_forest rows"
    using h'(4)[rule_format, of c ?m] by simp
  ultimately show ?thesis using cs by (intro exI conjI) (assumption | simp)+
qed

lemma first_devices:
  assumes "lsblk_rows (tl (split_at 10 out)) = Some rows" "names_apart rows"
  shows "\<exists>m. new_block_device_model (Some out) = Some m \<and> devices_ok m \<and> device_forest m = rows_forest rows"
proof -
  let ?it = "\<lparr>bd_data = [Text ROOT], bd_children = [], bd_parent = None\<rparr>"
  let ?h = "[0 \<mapsto> ?it] :: bd_heap" and ?H = "new_tree [0 \<mapsto> ?it] 1 rows"
  let ?m = "\<lparr>bd_heap = ?h, bd_next = 1, rootItem = 0, bd_devices = [], checkedItems = []\<rparr>"
  have eight: "\<forall>vs\<in>set rows. length vs = 8" using lsblk_rows_length[OF assms(1)] by blast
  have H: "?H 0 = Some ?it" using new_tree_items(3)[OF assms(2), where a = 0 and n = 1 and h = ?h] by simp
  have pre: "\<forall>a\<ge>1. ?H a = new_tree ?h 1 rows a" "\<forall>a. ?h a \<noteq> None \<longrightarrow> a < 1" "bd_data ?it = [Text ROOT]" by simp_all
  obtain h' where h': "setChildItems ?H 0 (new_roots 1 rows) = Some h'"
    "\<forall>c m'. (\<forall>a\<in>set c. 1 \<le> a \<and> a < 1 + length rows) \<longrightarrow> bd_next m' = 1 + length rows \<longrightarrow> rootItem m' = 0 \<longrightarrow>
      devices_ok (m'\<lparr>bd_heap := h', bd_devices := new_roots 1 rows, checkedItems := c\<rparr>) \<and>
      device_forest (m'\<lparr>bd_heap := h', bd_devices := new_roots 1 rows, checkedItems := c\<rparr>) = rows_forest rows"
    using install_tree[OF eight assms(2) pre(1,2) _ H pre(3)] by (elim meta_impE exE conjE) (rule zero_less_one, blast)
  let ?c = "fold List.insert [1..<1 + length rows] []"
  have "set (fold List.insert xs c) = set xs \<union> set c" for xs c :: "nat list" by (induction xs arbitrary: c) auto
  then have c: "\<forall>a\<in>set ?c. 1 \<le> a \<and> a < 1 + length rows" by (auto simp del: upt_Suc)
  let ?m' = "?m\<lparr>bd_heap := with_items ?h 1 rows, bd_next := 1 + length rows, checkedItems := ?c\<rparr>"
  have "fetchDevices False (Some out) ?m = Some (?m'\<lparr>bd_heap := h', bd_devices := new_roots 1 rows, checkedItems := ?c\<rparr>)"
    using build_new_tree[OF eight assms(2), where n = 1 and h = ?h] h'(1) read_devices_rows[OF assms(1), of False ?m]
    by (simp add: fetchDevices_def childCount_def)
  moreover have "new_block_device_model (Some out) = fetchDevices False (Some out) ?m"
    by (simp add: new_block_device_model_def new_item_def)
  moreover have "bd_next ?m' = 1 + length rows" "rootItem ?m' = 0" by simp_all
  with h'(2) c have "devices_ok (?m'\<lparr>bd_heap := h', bd_devices := new_roots 1 rows, checkedItems := ?c\<rparr>) \<and>
      device_forest (?m'\<lparr>bd_heap := h', bd_devices := new_roots 1 rows, checkedItems := ?c\<rparr>) = rows_forest rows" by blast
  ultimately show ?thesis by (intro exI conjI) (assumption | simp)+
qed

text \<open>\<open>loop1\<close> is a prefix of \<open>loop10\<close>: the second device becomes a child of the first one and stays a device of its
  own.  The next reading deletes it twice.\<close>

definition loop_rows :: cstring where
  "loop_rows = [10, 108, 49, 32, 55, 58, 49, 32, 48, 32, 49, 32, 48, 32, 108, 10,
     108, 49, 48, 32, 55, 58, 57, 32, 48, 32, 49, 32, 48, 32, 108, 10]"

lemma loop_lines:
  "tl (split_at 10 loop_rows) =
    [[108, 49, 32, 55, 58, 49, 32, 48, 32, 49, 32, 48, 32, 108], [108, 49, 48, 32, 55, 58, 57, 32, 48, 32, 49, 32, 48, 32, 108], []]"
  by (simp add: loop_rows_def)

lemma loop_data:
  "blk_data [108, 49, 32, 55, 58, 49, 32, 48, 32, 49, 32, 48, 32, 108] =
    Some [Text [108, 49], Number 7, Number 1, Number 0, Text [49], Number 0, Text [108], Text []]"
  "blk_data [108, 49, 48, 32, 55, 58, 57, 32, 48, 32, 49, 32, 48, 32, 108] =
    Some [Text [108, 49, 48], Number 7, Number 9, Number 0, Text [49], Number 0, Text [108], Text []]"
  by (simp_all add: blk_data_def elem_def trimmed_def is_space_def text_int_def digit_val_def)

lemma loop_devices_deleted_twice:
  "\<exists>m. new_block_device_model (Some loop_rows) = Some m \<and> fetchDevices True (Some loop_rows) m = None"
proof -
  have t: "trimmed [108, 49, 32, 55, 58, 49, 32, 48, 32, 49, 32, 48, 32, 108] \<noteq> []"
    "trimmed [108, 49, 48, 32, 55, 58, 57, 32, 48, 32, 49, 32, 48, 32, 108] \<noteq> []" "trimmed [] = []"
    by (simp_all add: trimmed_def is_space_def)
  note ev = fetchDevices_def loop_lines loop_data t new_item_def childCount_def item_type_def item_name_def item_data_def
    elem_def to_string_def starts_with_def appendChild_def setChildItems_def
  have "new_block_device_model (Some loop_rows) = Some \<lparr>bd_heap = [0 \<mapsto> \<lparr>bd_data = [Text ROOT], bd_children = [1, 2], bd_parent = None\<rparr>,
      1 \<mapsto> \<lparr>bd_data = [Text [108, 49], Number 7, Number 1, Number 0, Text [49], Number 0, Text [108], Text []], bd_children = [2], bd_parent = Some 0\<rparr>,
      2 \<mapsto> \<lparr>bd_data = [Text [108, 49, 48], Number 7, Number 9, Number 0, Text [49], Number 0, Text [108], Text []], bd_children = [], bd_parent = Some 0\<rparr>],
     bd_next = 3, rootItem = 0, bd_devices = [1, 2], checkedItems = [2, 1]\<rparr>"
    by (simp add: new_block_device_model_def ev fun_eq_iff List.insert_def numeral_2_eq_2 numeral_3_eq_3)
  then show ?thesis
    by (simp add: ev delete_items_Cons List.insert_def)
qed

subsection \<open>The check boxes\<close>

text \<open>A device or partition that is checked or not after a click, and the boxes of the partitions with it.\<close>

lemma set_fold_checked: "set (fold (set_checked b) cs c) = (if b then set cs \<union> set c else set c - set cs)"
  by (induction cs arbitrary: c) (auto simp: set_checked_def)

lemma check_partition:
  assumes "devices_ok m" "d \<in> set (bd_devices m)" "c \<in> set (children_of (bd_heap m) d)" "item_name (bd_heap m) d \<noteq> Some ROOT"
  shows "\<exists>m'. check (Some (0, c)) b m = Some m' \<and> getCheckState m' (Some (0, c)) = Some (if b then Checked else Unchecked)"
proof -
  from assms(1-3) have "device_ok (bd_heap m) d c" "device_ok (bd_heap m) (rootItem m) d" unfolding devices_ok_def by blast+
  then obtain it dit where i: "bd_heap m c = Some it" "bd_parent it = Some d" "bd_heap m d = Some dit" "length (bd_data dit) = 8"
    by (auto simp: device_ok_def)
  then have "isPartition (bd_heap m) c = Some True"
    using assms(4) by (auto simp: isPartition_def item_name_def item_data_def elem_def)
  then show ?thesis using i by (auto simp: check_def getCheckState_def set_checked_def)
qed

text \<open>The number of checked partitions of a device.\<close>

lemma count_checked_children:
  assumes "devices_ok m" "d \<in> set (bd_devices m)" "set cs \<subseteq> set (checkedItems m)" "distinct cs"
    "\<forall>c\<in>set cs. \<forall>it. bd_heap m c = Some it \<longrightarrow> bd_parent it = Some d \<longrightarrow> c \<in> set (children_of (bd_heap m) d)"
  shows "count_checked (bd_heap m) d cs = Some (card (set cs \<inter> set (children_of (bd_heap m) d)))"
  using assms(3-)
proof (induction cs)
  case Nil
  then show ?case by simp
next
  case (Cons c cs)
  have "\<exists>it. bd_heap m c = Some it" using assms(1) Cons.prems(1) unfolding devices_ok_def by fastforce
  then obtain it where it: "bd_heap m c = Some it" by blast
  have "bd_parent it = Some d \<longleftrightarrow> c \<in> set (children_of (bd_heap m) d)"
    using Cons.prems(3) it assms(1,2) unfolding devices_ok_def device_ok_def by fastforce
  then show ?case using Cons it by (auto simp: card_insert_if)
qed

text \<open>A device without partitions is always shown as checked, as none of its no children is missing.\<close>

lemma childless_always_checked:
  assumes "devices_ok m" "d \<in> set (bd_devices m)" "children_of (bd_heap m) d = []"
    "\<forall>c\<in>set (checkedItems m). \<forall>it. bd_heap m c = Some it \<longrightarrow> bd_parent it = Some d \<longrightarrow> c \<in> set (children_of (bd_heap m) d)"
    "distinct (checkedItems m)"
  shows "getCheckState m (Some (0, d)) = Some Checked"
proof -
  obtain it rit where i: "bd_heap m d = Some it" "bd_parent it = Some (rootItem m)" "bd_heap m (rootItem m) = Some rit" "bd_data rit = [Text ROOT]"
    using assms(1,2) unfolding devices_ok_def device_ok_def by blast
  then have "isPartition (bd_heap m) d = Some False"
    by (simp add: isPartition_def item_name_def item_data_def elem_def to_string_def)
  moreover have "count_checked (bd_heap m) d (checkedItems m) = Some 0"
    using count_checked_children[OF assms(1,2) order_refl assms(5,4)] assms(3) by simp
  ultimately show ?thesis using assms(3) i(1) by (simp add: getCheckState_def childCount_def children_of_def)
qed

end
