(* ===== verification/Mon_Events.thy ===== *)
theory Mon_Events
  imports Vfs_Genl Mon_Update
begin

text \<open>
  The events in the monitor (\<open>src/examples/deepin-anything-monitor/src/maincomponentplugin\<close>): the thread that receives
  them (\<open>dagenlclient.cpp\<close>), an event (\<open>vfsevent.cpp\<close>) and the table that shows those that pass the filters
  (\<open>vfseventmodel.cpp\<close>).
\<close>

subsection \<open>Events\<close>

text \<open>\<open>cookie_\<close> is never written and has no field.\<close>

record VfsEvent =
  evt_act :: nat
  evt_src :: cstring
  evt_dst :: cstring
  evt_major :: nat
  evt_minor :: nat
  evt_time :: nat

text \<open>\<open>toVariant\<close>; \<open>time_text\<close> is \<open>QDateTime::toString\<close>.\<close>

definition toVariant :: "(nat \<Rightarrow> cstring) \<Rightarrow> VfsEvent \<Rightarrow> int \<Rightarrow> qvariant" where
  "toVariant time_text e columns =
    (if columns = 0 then Text (device_id (evt_major e) (evt_minor e))
     else if columns = 1 then Number (int (evt_act e))
     else if columns = 2 then Text (evt_src e)
     else if columns = 3 then Text (evt_dst e)
     else if columns = 4 then Text (time_text (evt_time e))
     else Invalid)"

text \<open>\<open>"ID,Act,Src,Dst,Time"\<close>.\<close>

definition headerRow :: cstring where
  "headerRow = [73, 68, 44, 65, 99, 116, 44, 83, 114, 99, 44, 68, 115, 116, 44, 84, 105, 109, 101]"

definition toRow :: "(nat \<Rightarrow> cstring) \<Rightarrow> VfsEvent \<Rightarrow> cstring" where
  "toRow time_text e =
    fold (\<lambda>col result. (if col \<noteq> 0 then result @ [44] else result) @ to_string (toVariant time_text e (int col))) [0..<5] []"

subsection \<open>Receiving\<close>

datatype client_signal = On_event VfsEvent | On_partition_update

text \<open>\<open>handleMsg\<close>: the signal that is emitted and \<open>rename_from_\<close>.  The time is that of the receiver.  \<open>None\<close>: the path
  is not terminated.\<close>

definition client_handleMsg :: "nat \<Rightarrow> nlattr list \<Rightarrow> (u32 \<Rightarrow> cstring option) \<Rightarrow>
    (client_signal option \<times> (u32 \<Rightarrow> cstring option)) option" where
  "client_handleMsg now msg renames =
    (case genlmsg_parse msg of None \<Rightarrow> Some (None, renames)
     | Some attrs \<Rightarrow>
       (case (attrs VFSMONITOR_A_ACT, attrs VFSMONITOR_A_COOKIE, attrs VFSMONITOR_A_MAJOR,
              attrs VFSMONITOR_A_MINOR, attrs VFSMONITOR_A_PATH) of
         (Some ab, Some cb, Some mab, Some mib, Some pb) \<Rightarrow> do {
           let a = unat (hd ab);
           let cookie = unle32 (cb ! 0) (cb ! 1) (cb ! 2) (cb ! 3);
           let major = unat (unle32 (mab ! 0) (mab ! 1) 0 0);
           let minor = unat (hd mib);
           s \<leftarrow> cstr_of pb;
           let event = (\<lambda>a s d. On_event \<lparr>evt_act = a, evt_src = s, evt_dst = d, evt_major = major, evt_minor = minor, evt_time = now\<rparr>);
           if a < 6 then Some (Some (event a s []), renames)
           else if a = 8 \<or> a = 10 then Some (None, renames(cookie \<mapsto> s))
           else if a = 9 \<or> a = 11 then
             (case renames cookie of None \<Rightarrow> Some (Some (event a s []), renames)
              | Some from_path \<Rightarrow> Some (Some (event (if a = 9 then 6 else 7) from_path s), renames(cookie := None)))
           else if a = 12 \<or> a = 13 then Some (Some On_partition_update, renames)
           else Some (None, renames) }
       | _ \<Rightarrow> Some (None, renames)))"

subsection \<open>The table\<close>

text \<open>\<open>None\<close> for the device model: the pointer was never set.  The constructor leaves it without a value, so that
  reading it then has no result.\<close>

record event_table =
  evts :: "VfsEvent list"
  show_evts :: "VfsEvent list"
  searchText :: cstring
  filtered :: "bool list"
  running :: bool
  block_device_model :: "bd_model option"

definition new_event_table :: event_table where
  "new_event_table = \<lparr>evts = [], show_evts = [], searchText = [], filtered = replicate 14 True, running = True,
     block_device_model = None\<rparr>"

definition text_contains :: "cstring \<Rightarrow> cstring \<Rightarrow> bool" where
  "text_contains s t \<longleftrightarrow> strstr s t \<noteq> None"

fun device_hit :: "bd_heap \<Rightarrow> nat list \<Rightarrow> VfsEvent \<Rightarrow> bool \<Rightarrow> bool option" where
  "device_hit h [] e hit = Some hit"
| "device_hit h (d # ds) e hit = do {
     ma \<leftarrow> getMajor h d;
     mn \<leftarrow> getMinor h d;
     device_hit h ds e (if ma = evt_major e \<and> mn = evt_minor e then True else hit) }"

definition isHitFilter :: "event_table \<Rightarrow> VfsEvent \<Rightarrow> bool option" where
  "isHitFilter t e =
    (if searchText t \<noteq> [] \<and> \<not> text_contains (evt_dst e) (searchText t) \<and> \<not> text_contains (evt_src e) (searchText t)
     then Some False
     else do {
       m \<leftarrow> block_device_model t;
       hit \<leftarrow> device_hit (bd_heap m) (checkedItems m) e False;
       f \<leftarrow> elem (filtered t) (evt_act e);
       if \<not> f then Some False else Some hit })"

fun hit_events :: "event_table \<Rightarrow> VfsEvent list \<Rightarrow> VfsEvent list option" where
  "hit_events t [] = Some []"
| "hit_events t (e # es) = do {
     hit \<leftarrow> isHitFilter t e;
     hs \<leftarrow> hit_events t es;
     Some (if hit then e # hs else hs) }"

definition resetHitModel :: "event_table \<Rightarrow> event_table option" where
  "resetHitModel t = do { hs \<leftarrow> hit_events t (evts t); Some (t\<lparr>show_evts := hs\<rparr>) }"

definition insertVfsEvent :: "event_table \<Rightarrow> VfsEvent \<Rightarrow> event_table option" where
  "insertVfsEvent t e =
    (if running t then
       let t = t\<lparr>evts := evts t @ [e]\<rparr> in do {
         hit \<leftarrow> isHitFilter t e;
         Some (if hit then t\<lparr>show_evts := show_evts t @ [e]\<rparr> else t) }
     else Some t)"

definition setRunning :: "bool \<Rightarrow> event_table \<Rightarrow> event_table" where
  "setRunning r t = t\<lparr>running := r\<rparr>"

definition isFiltered :: "event_table \<Rightarrow> nat \<Rightarrow> bool option" where
  "isFiltered t i = elem (filtered t) i"

definition filter_events :: "nat \<Rightarrow> bool \<Rightarrow> event_table \<Rightarrow> event_table option" where
  "filter_events i checked t =
    (if i < length (filtered t) then resetHitModel (t\<lparr>filtered := (filtered t)[i := checked]\<rparr>) else None)"

definition search_events :: "cstring \<Rightarrow> event_table \<Rightarrow> event_table option" where
  "search_events s t = resetHitModel (t\<lparr>searchText := s\<rparr>)"

definition setBlockDeviceModel :: "bd_model \<Rightarrow> event_table \<Rightarrow> event_table" where
  "setBlockDeviceModel m t = t\<lparr>block_device_model := Some m\<rparr>"

definition clear_events :: "event_table \<Rightarrow> event_table" where
  "clear_events t = t\<lparr>show_evts := [], evts := []\<rparr>"

text \<open>The texts of \<open>getReadableAction\<close>, which are translated by \<open>tr\<close>, by name.\<close>

datatype action_name = New_file | New_symlink | New_link | New_folder | Delete_file | Delete_folder | Rename_from_file
  | Rename_from_folder | Rename_to_file | Rename_to_folder | Mount_name | Unmount_name | Rename_file | Rename_folder | Unknown_name

definition getReadableAction :: "int \<Rightarrow> action_name" where
  "getReadableAction action =
    (if action = 0 then New_file else if action = 2 then New_symlink else if action = 1 then New_link
     else if action = 3 then New_folder else if action = 4 then Delete_file else if action = 5 then Delete_folder
     else if action = 8 then Rename_from_file else if action = 10 then Rename_from_folder
     else if action = 9 then Rename_to_file else if action = 11 then Rename_to_folder
     else if action = 12 then Mount_name else if action = 13 then Unmount_name
     else if action = 6 then Rename_file else if action = 7 then Rename_folder else Unknown_name)"

text \<open>The cell of a role of the table (0 the device, 1 the action, 2 and 3 the paths, 4 the time); a path that is not
  blank gets the mount point in front.\<close>

definition table_cell :: "(nat \<Rightarrow> cstring) \<Rightarrow> (cstring \<Rightarrow> cstring option) \<Rightarrow> event_table \<Rightarrow> nat \<Rightarrow> int \<Rightarrow> qvariant option" where
  "table_cell time_text mi t row role = do {
     e \<leftarrow> elem (show_evts t) row;
     let s = toVariant time_text e role;
     if trimmed (to_string s) = [] then Some s
     else if role = 2 \<or> role = 3 then do {
       m \<leftarrow> block_device_model t;
       mount_point \<leftarrow> getMountPoint mi m (evt_major e) (evt_minor e);
       Some (if mount_point \<noteq> [47] then Text (mount_point @ to_string s) else s) }
     else Some s }"

text \<open>\<open>exportToFile\<close>: what is written to the file.  A row is written up to as many bytes as its text has UTF-16
  units; \<open>action_text\<close> is the translation.\<close>

definition export_cell :: "(nat \<Rightarrow> cstring) \<Rightarrow> (action_name \<Rightarrow> cstring) \<Rightarrow> (cstring \<Rightarrow> cstring option) \<Rightarrow> event_table \<Rightarrow>
    nat \<Rightarrow> nat \<Rightarrow> cstring option" where
  "export_cell time_text action_text mi t i j =
    (if j = 0 then do {
       name \<leftarrow> table_cell time_text mi t i 0;
       m \<leftarrow> block_device_model t;
       getDeviceName m (to_string name) }
     else if j = 1 then do {
       a \<leftarrow> table_cell time_text mi t i 1;
       Some (action_text (getReadableAction (case a of Number n \<Rightarrow> n | _ \<Rightarrow> 0))) }
     else do { v \<leftarrow> table_cell time_text mi t i (int j); Some (to_string v) })"

fun export_cells :: "(nat \<Rightarrow> cstring option) \<Rightarrow> nat list \<Rightarrow> cstring \<Rightarrow> cstring option" where
  "export_cells cell [] s = Some s"
| "export_cells cell (j # js) s = do { c \<leftarrow> cell j; export_cells cell js (s @ c @ [44]) }"

fun export_rows :: "(nat \<Rightarrow> nat \<Rightarrow> cstring option) \<Rightarrow> nat list \<Rightarrow> cstring \<Rightarrow> cstring option" where
  "export_rows cell [] out = Some out"
| "export_rows cell (i # rows) out = do {
     s \<leftarrow> export_cells (cell i) [0..<5] [10];
     export_rows cell rows (out @ take (qsize s) s) }"

definition exportToFile :: "(nat \<Rightarrow> cstring) \<Rightarrow> (action_name \<Rightarrow> cstring) \<Rightarrow> (cstring \<Rightarrow> cstring option) \<Rightarrow> event_table \<Rightarrow> cstring option" where
  "exportToFile time_text action_text mi t =
    export_rows (export_cell time_text action_text mi t) [0..<length (show_evts t)] headerRow"

end
