(* ===== verification/Mon_Flow.thy ===== *)
theory Mon_Flow
  imports Mon_Events "HOL-Library.Sublist"
begin

text \<open>
  The monitor as a whole: the receiving thread, the queue of its signals to the thread of the window, and what the
  window calls on the device tree and the table of events (\<open>main.qml\<close>).  After every sequence of these steps the
  table shows the received events that pass the filters.
\<close>

subsection \<open>The steps\<close>

record monitor =
  mon_table :: event_table
  mon_renames :: "u32 \<Rightarrow> cstring option"
  mon_pending :: "client_signal list"
  mon_mounts :: "cstring \<Rightarrow> cstring option"

text \<open>\<open>Receive\<close>: a message at a time; \<open>Deliver\<close>: the next signal reaches the window, with the output of \<open>lsblk\<close> and the
  mount table that are read if it tells of partitions; \<open>Click\<close>: the check box of a device, or of one of its partitions.\<close>

datatype monitor_step = Receive nat "nlattr list" | Deliver "cstring option" "cstring option"
  | Click nat "nat option" bool | Choose nat bool | Search_for cstring | Run bool | Clear

text \<open>What a step did: the devices were read anew, the table was filled anew, or neither.\<close>

datatype effect = Devices_read | Refilled | Other

definition click_index :: "bd_model \<Rightarrow> nat \<Rightarrow> nat option \<Rightarrow> model_index option" where
  "click_index m i j = do {
     d \<leftarrow> bd_index m i 0 None;
     (case (d, j) of (Some (c, item), Some j) \<Rightarrow> bd_index m j 0 (Some (c, item)) | _ \<Rightarrow> Some d) }"

definition monitor_do :: "monitor_step \<Rightarrow> monitor \<Rightarrow> (effect \<times> monitor) option" where
  "monitor_do step w =
    (case step of
       Receive now msg \<Rightarrow> do {
         (sig, rs) \<leftarrow> client_handleMsg now msg (mon_renames w);
         Some (Other, w\<lparr>mon_renames := rs, mon_pending := mon_pending w @ (case sig of None \<Rightarrow> [] | Some s \<Rightarrow> [s])\<rparr>) }
     | Deliver blk mounts \<Rightarrow>
         (case mon_pending w of [] \<Rightarrow> Some (Other, w)
          | On_event e # sigs \<Rightarrow> do {
              t \<leftarrow> insertVfsEvent (mon_table w) e;
              Some (Other, w\<lparr>mon_table := t, mon_pending := sigs\<rparr>) }
          | On_partition_update # sigs \<Rightarrow> do {
              m \<leftarrow> block_device_model (mon_table w);
              (m, mi) \<leftarrow> updatePartition blk mounts m;
              Some (Devices_read, w\<lparr>mon_table := (mon_table w)\<lparr>block_device_model := Some m\<rparr>, mon_pending := sigs, mon_mounts := mi\<rparr>) })
     | Click i j checked \<Rightarrow> do {
         m \<leftarrow> block_device_model (mon_table w);
         idx \<leftarrow> click_index m i j;
         m \<leftarrow> check idx checked m;
         t \<leftarrow> resetHitModel ((mon_table w)\<lparr>block_device_model := Some m\<rparr>);
         Some (Refilled, w\<lparr>mon_table := t\<rparr>) }
     | Choose i checked \<Rightarrow> do { t \<leftarrow> filter_events i checked (mon_table w); Some (Refilled, w\<lparr>mon_table := t\<rparr>) }
     | Search_for s \<Rightarrow> do { t \<leftarrow> search_events s (mon_table w); Some (Refilled, w\<lparr>mon_table := t\<rparr>) }
     | Run r \<Rightarrow> Some (Other, w\<lparr>mon_table := setRunning r (mon_table w)\<rparr>)
     | Clear \<Rightarrow> Some (Refilled, w\<lparr>mon_table := clear_events (mon_table w)\<rparr>))"

fun monitor_run :: "monitor_step list \<Rightarrow> monitor \<Rightarrow> (effect list \<times> monitor) option" where
  "monitor_run [] w = Some ([], w)"
| "monitor_run (s # ss) w = do {
     (l, w) \<leftarrow> monitor_do s w;
     (ls, w) \<leftarrow> monitor_run ss w;
     Some (l # ls, w) }"

subsection \<open>The filter as a predicate\<close>

definition item_id :: "bd_heap \<Rightarrow> nat \<Rightarrow> nat \<times> nat" where
  "item_id h d = (to_ushort (data_of h d ! Major), to_ushort (data_of h d ! Minor))"

definition hits :: "event_table \<Rightarrow> VfsEvent \<Rightarrow> bool" where
  "hits t e \<longleftrightarrow>
    (searchText t = [] \<or> text_contains (evt_dst e) (searchText t) \<or> text_contains (evt_src e) (searchText t)) \<and>
    filtered t ! evt_act e \<and>
    (case block_device_model t of None \<Rightarrow> False
     | Some m \<Rightarrow> (evt_major e, evt_minor e) \<in> item_id (bd_heap m) ` set (checkedItems m))"

definition table_ok :: "event_table \<Rightarrow> bool" where
  "table_ok t \<longleftrightarrow> (\<exists>m. block_device_model t = Some m \<and> devices_ok m) \<and> length (filtered t) = 14 \<and>
    (\<forall>e\<in>set (evts t). evt_act e < 14)"

lemma device_hit_set:
  assumes "\<forall>d\<in>set ds. \<exists>it. h d = Some it \<and> length (bd_data it) = 8"
  shows "device_hit h ds e b = Some (b \<or> (evt_major e, evt_minor e) \<in> item_id h ` set ds)"
  using assms
proof (induction ds arbitrary: b)
  case Nil
  then show ?case by simp
next
  case (Cons d ds)
  then obtain it where it: "h d = Some it" "length (bd_data it) = 8" by auto
  then have "getMajor h d = Some (fst (item_id h d))" "getMinor h d = Some (snd (item_id h d))"
    by (simp_all add: getMajor_def getMinor_def item_data_def elem_def item_id_def data_of_def)
  then show ?case using Cons by (cases "item_id h d") auto
qed

lemma isHitFilter_hits:
  assumes "table_ok t" "evt_act e < 14"
  shows "isHitFilter t e = Some (hits t e)"
proof -
  obtain m where m: "block_device_model t = Some m" "devices_ok m" "length (filtered t) = 14"
    using assms(1) unfolding table_ok_def by blast
  then have "device_hit (bd_heap m) (checkedItems m) e False =
      Some ((evt_major e, evt_minor e) \<in> item_id (bd_heap m) ` set (checkedItems m))"
    using device_hit_set[of "checkedItems m" "bd_heap m" e False] unfolding devices_ok_def by simp
  then show ?thesis using m(1,3) assms(2) by (simp add: isHitFilter_def hits_def elem_def)
qed

lemma hit_events_filter: "table_ok t \<Longrightarrow> \<forall>e\<in>set es. evt_act e < 14 \<Longrightarrow> hit_events t es = Some (filter (hits t) es)"
  by (induction es) (simp_all add: isHitFilter_hits)

definition shown :: "event_table \<Rightarrow> bool" where
  "shown t \<longleftrightarrow> show_evts t = filter (hits t) (evts t)"

text \<open>The filter does not depend on the events of the table.\<close>

lemma hits_cong:
  "searchText t = searchText t' \<Longrightarrow> filtered t = filtered t' \<Longrightarrow> block_device_model t = block_device_model t' \<Longrightarrow> hits t = hits t'"
  by (simp add: hits_def fun_eq_iff)

lemma resetHitModel_shown:
  assumes "table_ok t"
  shows "\<exists>t'. resetHitModel t = Some t' \<and> table_ok t' \<and> shown t' \<and> evts t' = evts t \<and> t' = t\<lparr>show_evts := show_evts t'\<rparr>"
proof -
  have e: "hit_events t (evts t) = Some (filter (hits t) (evts t))"
    using hit_events_filter[OF assms] assms by (simp add: table_ok_def)
  have h: "hits (t\<lparr>show_evts := xs\<rparr>) = hits t" for xs by (rule hits_cong) simp_all
  show ?thesis using e assms by (simp add: resetHitModel_def shown_def h) (simp add: table_ok_def)
qed

lemma insertVfsEvent_shown:
  assumes "table_ok t" "evt_act e < 14"
  shows "\<exists>t'. insertVfsEvent t e = Some t' \<and> table_ok t' \<and> (shown t \<longrightarrow> shown t') \<and>
    (subseq (show_evts t) (evts t) \<longrightarrow> subseq (show_evts t') (evts t'))"
proof (cases "running t")
  case True
  let ?t = "t\<lparr>evts := evts t @ [e]\<rparr>"
  have ok: "table_ok ?t" using assms by (auto simp: table_ok_def)
  have h: "hits (t\<lparr>evts := xs\<rparr>) = hits t" "hits (t\<lparr>evts := xs, show_evts := ys\<rparr>) = hits t" for xs ys
    by (rule hits_cong, simp_all)+
  have "table_ok (?t\<lparr>show_evts := xs\<rparr>)" for xs using ok by (simp add: table_ok_def)
  then show ?thesis
    using True ok isHitFilter_hits[OF ok assms(2)]
    by (auto simp: insertVfsEvent_def Let_def shown_def h list_emb_append2 intro: list_emb_append_mono)
qed (use assms in \<open>simp add: insertVfsEvent_def\<close>)

subsection \<open>The messages\<close>

lemma cstr_of_terminated: "bs \<noteq> [] \<Longrightarrow> last bs = 0 \<Longrightarrow> \<exists>s. cstr_of bs = Some s"
  by (induction bs rule: cstr_of.induct) (auto split: if_splits)

lemma client_handleMsg_total:
  "\<exists>sig rs. client_handleMsg now msg renames = Some (sig, rs) \<and> (\<forall>e. sig = Some (On_event e) \<longrightarrow> evt_act e < 14)"
proof (cases "genlmsg_parse msg")
  case None
  then show ?thesis by (simp add: client_handleMsg_def)
next
  case (Some attrs)
  show ?thesis
  proof (cases "attrs 5")
    case None
    then show ?thesis using Some by (auto simp: client_handleMsg_def split: option.splits)
  next
    case p: (Some pb)
    from Some have "attrs = map_of (rev msg)" "list_all policy_ok msg" by (auto simp: genlmsg_parse_def split: if_splits)
    then have "policy_ok (5, pb)" using p map_of_SomeD[of "rev msg" 5 pb] by (auto simp: list_all_iff)
    then obtain s where s: "cstr_of pb = Some s" using cstr_of_terminated by (auto simp: policy_ok_def)
    show ?thesis using Some p s by (auto simp: client_handleMsg_def Let_def split: option.splits)
  qed
qed

subsection \<open>The check boxes\<close>

lemma bd_index_top:
  assumes "devices_ok m"
  shows "bd_index m i 0 None = Some (if i < length (bd_devices m) then Some (0, bd_devices m ! i) else None)"
  using assms by (auto simp: devices_ok_def bd_index_def rowCount_def childCount_def child_def elem_def)

lemma bd_index_below:
  assumes "devices_ok m" "d \<in> set (bd_devices m)"
  shows "bd_index m j 0 (Some (0, d)) =
    Some (if j < length (children_of (bd_heap m) d) then Some (0, children_of (bd_heap m) d ! j) else None)"
proof -
  obtain it where "bd_heap m d = Some it" using assms by (auto simp: devices_ok_def device_ok_def)
  then show ?thesis by (simp add: bd_index_def rowCount_def childCount_def child_def elem_def children_of_def)
qed

lemma click_index_family:
  assumes "devices_ok m"
  shows "\<exists>idx. click_index m i j = Some idx \<and> (\<forall>c item. idx = Some (c, item) \<longrightarrow> item \<in> set (family (bd_heap m) (bd_devices m)))"
proof (cases "i < length (bd_devices m)")
  case True
  then have d: "bd_devices m ! i \<in> set (bd_devices m)" by simp
  show ?thesis
    using True d bd_index_below[OF assms d]
    by (cases j) (auto simp: click_index_def bd_index_top[OF assms] family_def intro!: bexI[of _ "bd_devices m ! i"])
qed (auto simp: click_index_def bd_index_top[OF assms] split: option.splits)

lemma check_family:
  assumes "devices_ok m" "\<forall>c item. idx = Some (c, item) \<longrightarrow> item \<in> set (family (bd_heap m) (bd_devices m))"
  shows "\<exists>m'. check idx b m = Some m' \<and> devices_ok m'"
proof (cases idx)
  case None
  then show ?thesis using assms(1) by (simp add: check_def)
next
  case (Some ci)
  then obtain c item where idx: "idx = Some (c, item)" by (cases ci) auto
  let ?h = "bd_heap m"
  note ok = assms(1)[unfolded devices_ok_def]
  obtain d where d: "d \<in> set (bd_devices m)" "item = d \<or> item \<in> set (children_of ?h d)"
    using assms(2) idx by (auto simp: family_def)
  have dok: "device_ok ?h (rootItem m) d" "\<forall>c\<in>set (children_of ?h d). device_ok ?h d c \<and> children_of ?h c = []" using ok d(1) by blast+
  obtain rit where rit: "?h (rootItem m) = Some rit" "bd_data rit = [Text ROOT]" using ok by blast
  have item: "\<exists>it p v. ?h item = Some it \<and> length (bd_data it) = 8 \<and> bd_parent it = Some p \<and> item_name ?h p = Some v \<and>
      (\<forall>x\<in>set (bd_children it). \<exists>it. ?h x = Some it \<and> length (bd_data it) = 8)"
  proof -
    obtain dit where dit: "?h d = Some dit" "length (bd_data dit) = 8" "bd_parent dit = Some (rootItem m)"
      using dok(1) by (auto simp: device_ok_def)
    have kids: "\<forall>x\<in>set (bd_children dit). device_ok ?h d x \<and> children_of ?h x = []" using dok(2) dit(1) by (simp add: children_of_def)
    have names: "item_name ?h (rootItem m) = Some ROOT" "item_name ?h d = Some (vs_name (bd_data dit))"
      using rit dit by (auto simp: item_name_def item_data_def elem_def to_string_def vs_name_def)
    from d(2) show ?thesis
    proof
      assume "item = d"
      moreover have "\<forall>x\<in>set (bd_children dit). \<exists>it. ?h x = Some it \<and> length (bd_data it) = 8"
        using kids unfolding device_ok_def by blast
      ultimately show ?thesis using dit names by blast
    next
      assume "item \<in> set (children_of ?h d)"
      then have "device_ok ?h d item" "children_of ?h item = []" using dok(2) by blast+
      then obtain it where "?h item = Some it" "length (bd_data it) = 8" "bd_parent it = Some d" "bd_children it = []"
        by (auto simp: device_ok_def children_of_def)
      then show ?thesis using names by simp
    qed
  qed
  then obtain it p v where it: "?h item = Some it" "length (bd_data it) = 8" "bd_parent it = Some p" "item_name ?h p = Some v"
      "\<forall>x\<in>set (bd_children it). \<exists>it. ?h x = Some it \<and> length (bd_data it) = 8"
    by - (elim exE conjE, rule that, assumption+)
  have part: "isPartition ?h item = Some (v \<noteq> ROOT)" using it by (simp add: isPartition_def)
  have upd: "devices_ok (m\<lparr>checkedItems := cs\<rparr>)" if "\<forall>x\<in>set cs. \<exists>it. ?h x = Some it \<and> length (bd_data it) = 8" for cs
    using ok that by (simp add: devices_ok_def)
  have old: "\<forall>x\<in>set (checkedItems m). \<exists>it. ?h x = Some it \<and> length (bd_data it) = 8" using ok by blast
  let ?c = "if v \<noteq> ROOT then checkedItems m else fold (set_checked b) (bd_children it) (checkedItems m)"
  have "check idx b m = Some (m\<lparr>checkedItems := set_checked b item ?c\<rparr>)"
    using part it(1) idx by (simp add: check_def)
  moreover have "\<forall>x\<in>set ?c. \<exists>it. ?h x = Some it \<and> length (bd_data it) = 8"
    using old it(5) by (simp add: set_fold_checked ball_Un)
  then have "\<forall>x\<in>set (set_checked b item ?c). \<exists>it. ?h x = Some it \<and> length (bd_data it) = 8"
    using it(1,2) by (simp add: set_checked_def)
  ultimately show ?thesis using upd by blast
qed

subsection \<open>The table shows the events that pass the filters\<close>

definition monitor_ok :: "monitor \<Rightarrow> bool" where
  "monitor_ok w \<longleftrightarrow> table_ok (mon_table w) \<and> (\<forall>e. On_event e \<in> set (mon_pending w) \<longrightarrow> evt_act e < 14)"

text \<open>What is read at a change of the partitions can be read, and there are only fourteen kinds of events to choose.\<close>

definition readable :: "cstring option \<Rightarrow> bool" where
  "readable blk \<longleftrightarrow> (case blk of None \<Rightarrow> True
     | Some out \<Rightarrow> (case lsblk_rows (tl (split_at 10 out)) of None \<Rightarrow> False | Some rows \<Rightarrow> names_apart rows))"

definition step_ok :: "monitor_step \<Rightarrow> bool" where
  "step_ok s \<longleftrightarrow> (case s of Deliver blk mounts \<Rightarrow> readable blk \<and> fetchLatestMountInfo mounts \<noteq> None
     | Choose i _ \<Rightarrow> i < 14 | _ \<Rightarrow> True)"

text \<open>After every reading of the devices the table was filled anew.\<close>

fun up_to_date :: "effect list \<Rightarrow> bool" where
  "up_to_date [] \<longleftrightarrow> True"
| "up_to_date (l # ls) \<longleftrightarrow> up_to_date ls \<and> (l = Devices_read \<longrightarrow> Refilled \<in> set ls)"

lemma update_readable:
  assumes "devices_ok m" "readable blk" "fetchLatestMountInfo mounts \<noteq> None"
  shows "\<exists>m' mi. updatePartition blk mounts m = Some (m', mi) \<and> devices_ok m'"
proof (cases blk)
  case None
  then show ?thesis using assms by (auto simp: updatePartition_def fetchDevices_def)
next
  case (Some out)
  then obtain rows where "lsblk_rows (tl (split_at 10 out)) = Some rows" "names_apart rows"
    using assms(2) by (auto simp: readable_def split: option.splits)
  then obtain m' where "fetchDevices True (Some out) m = Some m'" "devices_ok m'" using update_devices[OF assms(1)] by blast
  then show ?thesis using Some assms(3) by (auto simp: updatePartition_def)
qed

definition kept_by :: "effect \<Rightarrow> event_table \<Rightarrow> event_table \<Rightarrow> bool" where
  "kept_by l t t' \<longleftrightarrow> (subseq (show_evts t) (evts t) \<longrightarrow> subseq (show_evts t') (evts t')) \<and>
    (l = Refilled \<longrightarrow> shown t') \<and> (l = Other \<longrightarrow> shown t \<longrightarrow> shown t')"

lemma shown_subseq: "shown t \<Longrightarrow> subseq (show_evts t) (evts t)"
  by (simp add: shown_def)

lemma refilled_kept: "shown t' \<Longrightarrow> kept_by Refilled t t'"
  by (simp add: kept_by_def shown_subseq)

lemma monitor_do_ok:
  assumes "monitor_ok w" "step_ok s"
  shows "\<exists>l w'. monitor_do s w = Some (l, w') \<and> monitor_ok w' \<and> kept_by l (mon_table w) (mon_table w')"
proof -
  from assms(1) have t: "table_ok (mon_table w)" and p: "\<forall>e. On_event e \<in> set (mon_pending w) \<longrightarrow> evt_act e < 14"
    by (simp_all add: monitor_ok_def)
  obtain m where m: "block_device_model (mon_table w) = Some m" "devices_ok m" using t by (auto simp: table_ok_def)
  have ok: "table_ok ((mon_table w)\<lparr>block_device_model := Some m'\<rparr>)" if "devices_ok m'" for m'
    using t that by (simp add: table_ok_def)
  have refill: "\<exists>t'. resetHitModel u = Some t' \<and> monitor_ok (w\<lparr>mon_table := t'\<rparr>) \<and> kept_by Refilled (mon_table w) t'" if "table_ok u" for u
    using resetHitModel_shown[OF that] p refilled_kept by (auto simp: monitor_ok_def)
  show ?thesis
  proof (cases s)
    case (Receive now msg)
    then show ?thesis
      using client_handleMsg_total[of now msg "mon_renames w"] t p
      by (auto simp: monitor_do_def monitor_ok_def kept_by_def split: option.splits)
  next
    case (Deliver blk mounts)
    show ?thesis
    proof (cases "mon_pending w")
      case Nil
      then show ?thesis using Deliver assms(1) by (simp add: monitor_do_def kept_by_def)
    next
      case (Cons sig sigs)
      show ?thesis
      proof (cases sig)
        case (On_event e)
        then have "evt_act e < 14" using p Cons by simp
        then obtain t' where "insertVfsEvent (mon_table w) e = Some t'" "table_ok t'" "shown (mon_table w) \<longrightarrow> shown t'"
          "subseq (show_evts (mon_table w)) (evts (mon_table w)) \<longrightarrow> subseq (show_evts t') (evts t')"
          using insertVfsEvent_shown[OF t] by blast
        then show ?thesis using Deliver Cons On_event p by (simp add: monitor_do_def monitor_ok_def kept_by_def)
      next
        case On_partition_update
        obtain m' mi where "updatePartition blk mounts m = Some (m', mi)" "devices_ok m'"
          using update_readable[OF m(2), of blk mounts] assms(2) Deliver by (auto simp: step_ok_def)
        then show ?thesis using Deliver Cons On_partition_update p m(1) ok by (simp add: monitor_do_def monitor_ok_def kept_by_def)
      qed
    qed
  next
    case (Click i j b)
    obtain idx m' where i: "click_index m i j = Some idx" "check idx b m = Some m'" "devices_ok m'"
      using click_index_family[OF m(2), of i j] check_family[OF m(2)] by blast
    show ?thesis using refill[OF ok[OF i(3)]] Click m(1) i by (auto simp: monitor_do_def)
  next
    case (Choose i b)
    then have "i < length (filtered (mon_table w))" "table_ok ((mon_table w)\<lparr>filtered := (filtered (mon_table w))[i := b]\<rparr>)"
      using t assms(2) by (simp_all add: table_ok_def step_ok_def)
    then show ?thesis using refill Choose by (fastforce simp: monitor_do_def filter_events_def)
  next
    case (Search_for q)
    have "table_ok ((mon_table w)\<lparr>searchText := q\<rparr>)" using t by (simp add: table_ok_def)
    then show ?thesis using refill Search_for by (fastforce simp: monitor_do_def search_events_def)
  next
    case (Run r)
    have "hits ((mon_table w)\<lparr>running := r\<rparr>) = hits (mon_table w)" by (rule hits_cong) simp_all
    then show ?thesis using Run t p by (simp add: monitor_do_def monitor_ok_def kept_by_def setRunning_def table_ok_def shown_def)
  next
    case Clear
    then show ?thesis using t p by (simp add: monitor_do_def monitor_ok_def kept_by_def clear_events_def table_ok_def shown_def)
  qed
qed

lemma monitor_run_ok:
  assumes "monitor_ok w" "list_all step_ok ss"
  shows "\<exists>ls w'. monitor_run ss w = Some (ls, w') \<and> monitor_ok w' \<and>
    (subseq (show_evts (mon_table w)) (evts (mon_table w)) \<longrightarrow> subseq (show_evts (mon_table w')) (evts (mon_table w'))) \<and>
    (up_to_date ls \<and> (shown (mon_table w) \<or> Refilled \<in> set ls) \<longrightarrow> shown (mon_table w'))"
  using assms
proof (induction ss arbitrary: w)
  case Nil
  then show ?case by simp
next
  case (Cons s ss)
  obtain l w1 where 1: "monitor_do s w = Some (l, w1)" "monitor_ok w1" "kept_by l (mon_table w) (mon_table w1)"
    using monitor_do_ok[OF Cons.prems(1), of s] Cons.prems(2) by auto
  obtain ls w' where 2: "monitor_run ss w1 = Some (ls, w')" "monitor_ok w'"
    "subseq (show_evts (mon_table w1)) (evts (mon_table w1)) \<longrightarrow> subseq (show_evts (mon_table w')) (evts (mon_table w'))"
    "up_to_date ls \<and> (shown (mon_table w1) \<or> Refilled \<in> set ls) \<longrightarrow> shown (mon_table w')"
    using Cons.IH[OF 1(2)] Cons.prems(2) by auto
  have "shown (mon_table w')" if "up_to_date (l # ls)" "shown (mon_table w) \<or> Refilled \<in> set (l # ls)"
    using that 1(3) 2(4) by (cases l) (auto simp: kept_by_def)
  then show ?case using 1(1,3) 2 by (simp add: kept_by_def)
qed

subsection \<open>Claim\<close>

definition monitor_start :: "(cstring \<Rightarrow> cstring option) \<Rightarrow> bd_model \<Rightarrow> monitor" where
  "monitor_start mi m = \<lparr>mon_table = setBlockDeviceModel m new_event_table, mon_renames = Map.empty, mon_pending = [], mon_mounts = mi\<rparr>"

lemma monitor_start_ok: "devices_ok m \<Longrightarrow> monitor_ok (monitor_start mi m) \<and> shown (mon_table (monitor_start mi m))"
  by (simp add: monitor_start_def monitor_ok_def table_ok_def setBlockDeviceModel_def new_event_table_def shown_def)

text \<open>
  C12: The table of the monitor, in any sequence of messages, deliveries, changes of partitions, clicks on devices and
  on kinds of events, searches, pauses and clearings, when no name of a whole device starts with that of another one,
  the rows of \<open>lsblk\<close> and of the mount table have their columns, and a chosen kind is one of the fourteen (\<open>step_ok\<close>):
  no step fails (no item is used after it was deleted or deleted twice, and no vector is read behind its end); the
  shown events are always some of the received ones in their order; and after every step except a change of the
  partitions they are exactly those that contain the text, are of a chosen kind and come from a checked device.
\<close>

theorem table_shows_filtered:
  assumes "readable (Some out)" "list_all step_ok ss"
  shows "\<exists>m ls w. new_block_device_model (Some out) = Some m \<and> monitor_run ss (monitor_start mi m) = Some (ls, w) \<and>
    subseq (show_evts (mon_table w)) (evts (mon_table w)) \<and>
    (up_to_date ls \<longrightarrow> show_evts (mon_table w) = filter (hits (mon_table w)) (evts (mon_table w)))"
proof -
  from assms(1) obtain m where m: "new_block_device_model (Some out) = Some m" "devices_ok m"
    using first_devices by (fastforce simp: readable_def split: option.splits)
  note start = monitor_start_ok[OF m(2), of mi]
  with monitor_run_ok[of "monitor_start mi m" ss] assms(2) m(1) show ?thesis by (auto simp: shown_subseq shown_def)
qed

text \<open>Two disks with a partition each.\<close>

definition two_disks :: cstring where
  "two_disks = [78, 10, 97, 32, 56, 58, 48, 32, 48, 32, 49, 32, 48, 32, 100, 10,
     97, 49, 32, 56, 58, 49, 32, 48, 32, 49, 32, 48, 32, 112, 97, 114, 116, 32, 47, 10,
     98, 32, 56, 58, 57, 32, 48, 32, 49, 32, 48, 32, 100, 10]"

lemma two_disks_readable: "readable (Some two_disks)"
proof -
  have "tl (split_at 10 two_disks) = [[97, 32, 56, 58, 48, 32, 48, 32, 49, 32, 48, 32, 100],
     [97, 49, 32, 56, 58, 49, 32, 48, 32, 49, 32, 48, 32, 112, 97, 114, 116, 32, 47],
     [98, 32, 56, 58, 57, 32, 48, 32, 49, 32, 48, 32, 100], []]" by (simp add: two_disks_def)
  moreover have "blk_data [97, 32, 56, 58, 48, 32, 48, 32, 49, 32, 48, 32, 100] =
      Some [Text [97], Number 8, Number 0, Number 0, Text [49], Number 0, Text [100], Text []]"
    "blk_data [97, 49, 32, 56, 58, 49, 32, 48, 32, 49, 32, 48, 32, 112, 97, 114, 116, 32, 47] =
      Some [Text [97, 49], Number 8, Number 1, Number 0, Text [49], Number 0, Text [112, 97, 114, 116], Text [47]]"
    "blk_data [98, 32, 56, 58, 57, 32, 48, 32, 49, 32, 48, 32, 100] =
      Some [Text [98], Number 8, Number 9, Number 0, Text [49], Number 0, Text [100], Text []]"
    by (simp_all add: blk_data_def elem_def trimmed_def is_space_def text_int_def digit_val_def)
  moreover have "trimmed [97, 32, 56, 58, 48, 32, 48, 32, 49, 32, 48, 32, 100] \<noteq> []"
    "trimmed [97, 49, 32, 56, 58, 49, 32, 48, 32, 49, 32, 48, 32, 112, 97, 114, 116, 32, 47] \<noteq> []"
    "trimmed [98, 32, 56, 58, 57, 32, 48, 32, 49, 32, 48, 32, 100] \<noteq> []" "trimmed [] = []"
    by (simp_all add: trimmed_def is_space_def)
  moreover have "names_apart [[Text [97], Number 8, Number 0, Number 0, Text [49], Number 0, Text [100], Text []],
      [Text [97, 49], Number 8, Number 1, Number 0, Text [49], Number 0, Text [112, 97, 114, 116], Text [47]],
      [Text [98], Number 8, Number 9, Number 0, Text [49], Number 0, Text [100], Text []]]"
    by (simp add: names_apart_def numeral_3_eq_3 All_less_Suc2 vs_part_def vs_name_def to_string_def starts_with_def)
  ultimately show ?thesis by (simp add: readable_def)
qed

definition monitored :: "vfs_action \<Rightarrow> cstring \<Rightarrow> vfs_event" where
  "monitored a path = \<lparr>ev_action = a, ev_cookie = 5, ev_dev = 8388609, ev_path = path, ev_pair = None\<rparr>"

definition sample_steps :: "monitor_step list" where
  "sample_steps = [Receive 5 (msg_of (monitored ACT_NEW_FILE [47, 120])), Deliver None None, Choose 4 False,
     Receive 6 (msg_of (monitored ACT_MOUNT [47])), Deliver (Some two_disks) None, Click 0 (Some 0) True, Search_for [120]]"

theorem table_shows_filtered_witness:
  "\<exists>m ls w. new_block_device_model (Some two_disks) = Some m \<and> monitor_run sample_steps (monitor_start Map.empty m) = Some (ls, w) \<and>
    subseq (show_evts (mon_table w)) (evts (mon_table w)) \<and>
    (up_to_date ls \<longrightarrow> show_evts (mon_table w) = filter (hits (mon_table w)) (evts (mon_table w)))"
  by (rule table_shows_filtered[OF two_disks_readable])
    (simp add: sample_steps_def step_ok_def two_disks_readable, simp add: readable_def fetchLatestMountInfo_def)

end
