(* ===== verification/Log_Saver.thy ===== *)
theory Log_Saver
  imports Lft_Disk_Tool "HOL-Library.AList" "HOL-Library.Sublist"
begin

text \<open>
  The log files of the server (\<open>src/src/server/backend/lib/logsaver.cpp\<close>): messages are appended to \<open>app.log\<close>; every
  three minutes the file is renamed if it is of another day or larger than 10 MB, and the oldest of more than ten such
  backups are deleted.

  The folder is a list of named files; times are seconds.  Opening a file can fail.  The functions that print a date
  and a time are parameters.
\<close>

subsection \<open>The files\<close>

record log_file =
  log_text :: cstring
  log_mtime :: nat

type_synonym log_dir = "(cstring \<times> log_file) list"

record log_saver =
  log_dir :: log_dir
  log_opened :: bool
  log_out :: bool
  log_created :: nat

record log_names =
  date_text :: "nat \<Rightarrow> cstring"
  clock_text :: "nat \<Rightarrow> cstring"

abbreviation (input) logLimitSize :: nat where "logLimitSize \<equiv> 10 * 1024 * 1024"
abbreviation (input) logMaxFiles :: nat where "logMaxFiles \<equiv> 10"

text \<open>\<open>"app.log"\<close> and \<open>"app.log."\<close>.\<close>

definition APP_LOG :: cstring where "APP_LOG = [97, 112, 112, 46, 108, 111, 103]"

definition backup_prefix :: cstring where "backup_prefix = APP_LOG @ [46]"

text \<open>The name filter \<open>app.log.*\<close>: a \<open>QDir\<close> compares without regard to case.\<close>

definition is_backup :: "cstring \<Rightarrow> bool" where
  "is_backup n \<longleftrightarrow> starts_with (map ascii_lower n) backup_prefix"

definition day_of :: "nat \<Rightarrow> nat" where "day_of t = t div 86400"

definition resetFile :: "log_saver \<Rightarrow> log_saver" where
  "resetFile s = (if log_opened s \<and> log_out s then s\<lparr>log_opened := False, log_out := False\<rparr> else s)"

text \<open>Opening creates the file if it is missing.\<close>

definition initLogFile :: "bool \<Rightarrow> nat \<Rightarrow> log_saver \<Rightarrow> bool \<times> log_saver" where
  "initLogFile opens now s =
    (let s = (if log_opened s then s
       else
         let created = (case map_of (log_dir s) APP_LOG of None \<Rightarrow> day_of now | Some f \<Rightarrow> day_of (log_mtime f));
             dir = (if opens \<and> map_of (log_dir s) APP_LOG = None
                    then AList.update APP_LOG \<lparr>log_text = [], log_mtime = now\<rparr> (log_dir s) else log_dir s)
         in s\<lparr>log_dir := dir, log_opened := True, log_out := opens, log_created := created\<rparr>)
     in (log_out s, s))"

text \<open>\<open>QFile::rename\<close> does not replace a file.\<close>

definition rename_file :: "cstring \<Rightarrow> cstring \<Rightarrow> log_dir \<Rightarrow> log_dir" where
  "rename_file old new d =
    (case (map_of d old, map_of d new) of
       (Some f, None) \<Rightarrow> AList.delete old d @ [(new, f)]
     | _ \<Rightarrow> d)"

definition backup_name :: "log_names \<Rightarrow> nat \<Rightarrow> nat \<Rightarrow> cstring" where
  "backup_name nm created last_time = backup_prefix @ date_text nm created @ clock_text nm (last_time mod 86400)"

definition backupLog :: "log_names \<Rightarrow> bool \<Rightarrow> nat \<Rightarrow> log_saver \<Rightarrow> log_saver" where
  "backupLog nm opens now s =
    (if \<not> log_opened s \<or> \<not> log_out s then s
     else
       let size = (case map_of (log_dir s) APP_LOG of None \<Rightarrow> 0 | Some f \<Rightarrow> length (log_text f)) in
       if log_created s \<noteq> day_of now \<or> size > logLimitSize then
         let s = resetFile s;
             lastTime = (case map_of (log_dir s) APP_LOG of None \<Rightarrow> 0 | Some f \<Rightarrow> log_mtime f);
             s = s\<lparr>log_dir := rename_file APP_LOG (backup_name nm (log_created s) lastTime) (log_dir s)\<rparr>
         in snd (initLogFile opens now s)
       else s)"

text \<open>The oldest come first.\<close>

definition entryInfoList :: "log_dir \<Rightarrow> cstring list" where
  "entryInfoList d = map fst (sort_key (\<lambda>(n, f). log_mtime f) (filter (\<lambda>(n, f). is_backup n) d))"

fun delete_files :: "cstring list \<Rightarrow> int \<Rightarrow> log_dir \<Rightarrow> log_dir" where
  "delete_files [] delCount d = d"
| "delete_files (n # ns) delCount d =
    (if delCount - 1 \<ge> 0 then delete_files ns (delCount - 1) (AList.delete n d) else d)"

definition autoDeleteLog :: "log_saver \<Rightarrow> log_saver" where
  "autoDeleteLog s =
    (if log_dir s = [] then s
     else
       let fileList = entryInfoList (log_dir s);
           delCount = int (length fileList) - int logMaxFiles
       in if delCount \<le> 0 then s else s\<lparr>log_dir := delete_files fileList delCount (log_dir s)\<rparr>)"

text \<open>The timer, the start, and a message, which gets a newline.\<close>

definition log_tick :: "log_names \<Rightarrow> bool \<Rightarrow> nat \<Rightarrow> log_saver \<Rightarrow> log_saver" where
  "log_tick nm opens now s = autoDeleteLog (backupLog nm opens now s)"

definition startSaveDir :: "log_names \<Rightarrow> bool \<Rightarrow> nat \<Rightarrow> log_saver \<Rightarrow> bool \<times> log_saver" where
  "startSaveDir nm opens now s =
    (let (ok, s) = initLogFile opens now s
     in if ok then (True, backupLog nm opens now s) else (False, s))"

definition messageHandler :: "nat \<Rightarrow> cstring \<Rightarrow> log_saver \<Rightarrow> log_saver" where
  "messageHandler now msg s =
    (if \<not> log_out s then s
     else case map_of (log_dir s) APP_LOG of None \<Rightarrow> s
       | Some f \<Rightarrow> s\<lparr>log_dir := AList.update APP_LOG \<lparr>log_text = log_text f @ msg @ [10], log_mtime = now\<rparr> (log_dir s)\<rparr>)"

subsection \<open>What the files hold\<close>

definition backups :: "log_dir \<Rightarrow> (cstring \<times> log_file) list" where
  "backups d = filter (\<lambda>(n, f). is_backup n) d"

definition app_text :: "log_dir \<Rightarrow> cstring" where
  "app_text d = (case map_of d APP_LOG of None \<Rightarrow> [] | Some f \<Rightarrow> log_text f)"

text \<open>All that is kept, in the order of the times of the files.\<close>

definition backup_texts :: "log_dir \<Rightarrow> cstring list" where
  "backup_texts d = map (log_text \<circ> snd) (backups d)"

definition kept_text :: "log_dir \<Rightarrow> cstring" where
  "kept_text d = concat (backup_texts d) @ app_text d"

definition other_files :: "log_dir \<Rightarrow> log_dir" where
  "other_files d = filter (\<lambda>(n, f). n \<noteq> APP_LOG \<and> \<not> is_backup n) d"

text \<open>A folder holds one file of a name.\<close>

definition one_each :: "log_dir \<Rightarrow> bool" where
  "one_each d \<longleftrightarrow> distinct (map fst d)"

definition log_ok :: "nat \<Rightarrow> log_saver \<Rightarrow> bool" where
  "log_ok now s \<longleftrightarrow> one_each (log_dir s) \<and> sorted (map (log_mtime \<circ> snd) (backups (log_dir s))) \<and>
    (\<forall>(n, f)\<in>set (backups (log_dir s)). log_mtime f \<le>
      (case map_of (log_dir s) APP_LOG of None \<Rightarrow> now | Some f \<Rightarrow> log_mtime f)) \<and>
    (\<forall>f. map_of (log_dir s) APP_LOG = Some f \<longrightarrow> log_mtime f \<le> now) \<and>
    (log_out s \<longrightarrow> log_opened s \<and> map_of (log_dir s) APP_LOG \<noteq> None)"

lemma lower_app [simp]: "map ascii_lower APP_LOG = APP_LOG"
  by (simp add: APP_LOG_def ascii_lower_def)

lemma app_no_backup [simp]: "\<not> is_backup APP_LOG"
  by (simp add: is_backup_def) (simp add: starts_with_def APP_LOG_def backup_prefix_def)

lemma backup_name_prefix [simp]: "is_backup (backup_name nm c t)"
  by (simp add: is_backup_def starts_with_def backup_name_def backup_prefix_def ascii_lower_def)

lemma backup_name_other [simp]: "backup_name nm c t \<noteq> APP_LOG" "APP_LOG \<noteq> backup_name nm c t"
  using backup_name_prefix app_no_backup by metis+

text \<open>Changing \<open>app.log\<close> in place changes no other file.\<close>

lemma update_app:
  "backups (AList.update APP_LOG f d) = backups d" "other_files (AList.update APP_LOG f d) = other_files d"
  by (induction d) (auto simp: backups_def other_files_def)

lemma delete_app:
  "backups (AList.delete APP_LOG d) = backups d" "other_files (AList.delete APP_LOG d) = other_files d"
  by (induction d) (auto simp: backups_def other_files_def AList.delete_eq)

lemma kept_update_app:
  "map_of d APP_LOG = Some f \<Longrightarrow> kept_text (AList.update APP_LOG f' d) = concat (backup_texts d) @ log_text f'"
  "map_of d APP_LOG = None \<Longrightarrow> log_text f' = [] \<Longrightarrow> kept_text (AList.update APP_LOG f' d) = kept_text d"
  by (simp_all add: kept_text_def backup_texts_def update_app app_text_def update_conv')

lemma rename_file_new:
  assumes "map_of d APP_LOG = Some f" "map_of d (backup_name nm c t) = None"
  shows "backups (rename_file APP_LOG (backup_name nm c t) d) = backups d @ [(backup_name nm c t, f)]"
    "other_files (rename_file APP_LOG (backup_name nm c t) d) = other_files d"
    "map_of (rename_file APP_LOG (backup_name nm c t) d) APP_LOG = None"
    "kept_text (rename_file APP_LOG (backup_name nm c t) d) = kept_text d"
  using assms delete_app[of d]
  by (simp_all add: rename_file_def backups_def other_files_def kept_text_def backup_texts_def app_text_def map_add_def delete_conv')

subsection \<open>The operations\<close>

text \<open>Nothing is lost and no other file is touched.\<close>

definition same_logs :: "log_dir \<Rightarrow> log_dir \<Rightarrow> bool" where
  "same_logs d d' \<longleftrightarrow> kept_text d' = kept_text d \<and> other_files d' = other_files d"

lemma initLogFile_ok:
  assumes "log_ok now s" "\<not> log_opened s"
  shows "log_ok now (snd (initLogFile opens now s))" "same_logs (log_dir s) (log_dir (snd (initLogFile opens now s)))"
    "backups (log_dir (snd (initLogFile opens now s))) = backups (log_dir s)"
    "fst (initLogFile opens now s) = opens" "log_out (snd (initLogFile opens now s)) = opens"
proof -
  let ?new = "\<lparr>log_text = [], log_mtime = now\<rparr>"
  let ?d = "if opens \<and> map_of (log_dir s) APP_LOG = None then AList.update APP_LOG ?new (log_dir s) else log_dir s"
  obtain created where e: "initLogFile opens now s =
      (opens, s\<lparr>log_dir := ?d, log_opened := True, log_out := opens, log_created := created\<rparr>)"
    using assms(2) by (simp add: initLogFile_def Let_def)
  have d: "backups ?d = backups (log_dir s)" "other_files ?d = other_files (log_dir s)" "kept_text ?d = kept_text (log_dir s)"
    by (simp_all add: update_app kept_update_app(2))
  have a: "map_of ?d APP_LOG = (if opens \<and> map_of (log_dir s) APP_LOG = None then Some ?new else map_of (log_dir s) APP_LOG)"
    by (simp add: update_conv')
  have o: "one_each ?d" using assms(1) by (simp add: log_ok_def one_each_def distinct_update)
  let ?s = "s\<lparr>log_dir := ?d, log_opened := True, log_out := opens, log_created := created\<rparr>"
  have "log_ok now ?s"
  proof (cases "opens \<and> map_of (log_dir s) APP_LOG = None")
    case True
    then show ?thesis using assms(1) o by (simp add: log_ok_def update_app update_conv')
  next
    case False
    then show ?thesis using assms(1) by (cases "map_of (log_dir s) APP_LOG") (auto simp: log_ok_def)
  qed
  then show "log_ok now (snd (initLogFile opens now s))" by (simp add: e)
  show "same_logs (log_dir s) (log_dir (snd (initLogFile opens now s)))"
    "backups (log_dir (snd (initLogFile opens now s))) = backups (log_dir s)"
    "fst (initLogFile opens now s) = opens" "log_out (snd (initLogFile opens now s)) = opens"
    by (simp_all add: e same_logs_def update_app kept_update_app(2))
qed

lemma backupLog_ok:
  assumes "log_ok now s"
  shows "log_ok now (backupLog nm opens now s)" "same_logs (log_dir s) (log_dir (backupLog nm opens now s))"
    "length (backups (log_dir (backupLog nm opens now s))) \<le> Suc (length (backups (log_dir s)))"
    "length (backups (log_dir s)) \<le> length (backups (log_dir (backupLog nm opens now s)))"
    "opens \<Longrightarrow> log_out (backupLog nm opens now s) = log_out s"
proof -
  let ?s = "backupLog nm opens now s"
  have "log_ok now ?s \<and> same_logs (log_dir s) (log_dir ?s) \<and> length (backups (log_dir ?s)) \<le> Suc (length (backups (log_dir s)))
      \<and> length (backups (log_dir s)) \<le> length (backups (log_dir ?s))
      \<and> (opens \<longrightarrow> log_out ?s = log_out s)"
  proof (cases "log_out s \<and> (log_created s \<noteq> day_of now \<or>
      (case map_of (log_dir s) APP_LOG of None \<Rightarrow> 0 | Some f \<Rightarrow> length (log_text f)) > logLimitSize)")
    case False
    then have e: "?s = s" by (auto simp: backupLog_def)
    show ?thesis unfolding e using assms by (simp add: same_logs_def)
  next
    case True
    obtain f where f: "map_of (log_dir s) APP_LOG = Some f" "log_opened s" using assms True by (auto simp: log_ok_def)
    let ?n = "backup_name nm (log_created s) (log_mtime f)"
    let ?d = "rename_file APP_LOG ?n (log_dir s)"
    let ?r = "s\<lparr>log_opened := False, log_out := False, log_dir := ?d\<rparr>"
    have e: "?s = snd (initLogFile opens now ?r)"
      using True f by (auto simp: backupLog_def resetFile_def)
    have "log_ok now ?r \<and> same_logs (log_dir s) ?d \<and> length (backups ?d) \<le> Suc (length (backups (log_dir s))) \<and>
        length (backups (log_dir s)) \<le> length (backups ?d)"
    proof (cases "map_of (log_dir s) ?n")
      case None
      have "one_each ?d"
      proof -
        have "?d = AList.delete APP_LOG (log_dir s) @ [(?n, f)]" unfolding rename_file_def f(1) None by simp
        moreover have "distinct (map fst (log_dir s))" "?n \<notin> fst ` set (log_dir s)"
          using assms None by (simp_all add: log_ok_def one_each_def map_of_eq_None_iff)
        ultimately show ?thesis unfolding one_each_def by (auto simp: AList.delete_eq intro: distinct_map_filter)
      qed
      moreover have "log_mtime f \<le> now" "\<forall>(n, g)\<in>set (backups (log_dir s)). log_mtime g \<le> log_mtime f"
        "sorted (map (log_mtime \<circ> snd) (backups (log_dir s)))" using assms f by (auto simp: log_ok_def)
      ultimately show ?thesis
        unfolding log_ok_def same_logs_def by (auto simp: rename_file_new[OF f(1) None] sorted_append)
    next
      case (Some g)
      then have "?d = log_dir s" using f by (simp add: rename_file_def)
      then show ?thesis using assms by (simp add: log_ok_def same_logs_def)
    qed
    then have r: "log_ok now ?r" "same_logs (log_dir s) ?d" "length (backups ?d) \<le> Suc (length (backups (log_dir s)))"
      "length (backups (log_dir s)) \<le> length (backups ?d)" by blast+
    have i: "log_ok now ?s" "same_logs ?d (log_dir ?s)" "backups (log_dir ?s) = backups ?d" "log_out ?s = opens"
      using initLogFile_ok[OF r(1), of opens] unfolding e by simp_all
    have "same_logs (log_dir s) (log_dir ?s)" using i(2) r(2) by (simp add: same_logs_def)
    moreover have "opens \<longrightarrow> log_out ?s = log_out s" using i(4) True by (intro impI) (simp only:)
    moreover have "length (backups (log_dir ?s)) \<le> Suc (length (backups (log_dir s)))" "length (backups (log_dir s)) \<le> length (backups (log_dir ?s))"
      unfolding i(3) by (rule r(3), rule r(4))
    ultimately show ?thesis using i(1) by blast
  qed
  then show "log_ok now ?s" "same_logs (log_dir s) (log_dir ?s)"
    "length (backups (log_dir ?s)) \<le> Suc (length (backups (log_dir s)))"
    "length (backups (log_dir s)) \<le> length (backups (log_dir ?s))" "opens \<Longrightarrow> log_out ?s = log_out s" by blast+
qed

lemma delete_files_filter:
  "delete_files ns (int k) d = filter (\<lambda>(n, f). n \<notin> set (take k ns)) d"
proof (induction ns arbitrary: k d)
  case Nil
  then show ?case by (simp add: case_prod_beta)
next
  case (Cons n ns)
  show ?case
  proof (cases k)
    case 0
    then show ?thesis by (simp add: case_prod_beta)
  next
    case (Suc j)
    have "delete_files (n # ns) (int k) d = delete_files ns (int j) (AList.delete n d)" using Suc by simp
    then show ?thesis unfolding Cons.IH Suc by (auto simp: AList.delete_eq intro: filter_cong)
  qed
qed

lemma autoDeleteLog_ok:
  assumes "log_ok now s"
  shows "log_ok now (autoDeleteLog s)" "other_files (log_dir (autoDeleteLog s)) = other_files (log_dir s)"
    "backups (log_dir (autoDeleteLog s)) = drop (length (backups (log_dir s)) - 10) (backups (log_dir s))"
    "app_text (log_dir (autoDeleteLog s)) = app_text (log_dir s)" "log_out (autoDeleteLog s) = log_out s"
proof -
  let ?d = "log_dir s" and ?b = "backups (log_dir s)"
  let ?k = "length ?b - 10"
  let ?names = "set (take ?k (map fst ?b))"
  have sorted: "entryInfoList ?d = map fst ?b"
  proof -
    have "sorted (map (\<lambda>(n, f). log_mtime f) ?b)" using assms by (simp add: log_ok_def comp_def case_prod_beta')
    then show ?thesis by (simp add: entryInfoList_def backups_def[symmetric] sort_key_id_if_sorted)
  qed
  define d' where "d' = filter (\<lambda>(n, f). n \<notin> ?names) ?d"
  have dist: "distinct (map fst ?d)" using assms by (simp add: log_ok_def one_each_def)
  then have distb: "distinct (map fst ?b)" unfolding backups_def by (rule distinct_map_filter)
  have s': "autoDeleteLog s = s\<lparr>log_dir := d'\<rparr>"
  proof (cases "length ?b \<le> 10")
    case True
    then have "d' = ?d" by (simp add: d'_def case_prod_beta)
    then show ?thesis using True by (simp add: autoDeleteLog_def sorted)
  next
    case False
    then have k: "int (length (map fst ?b)) - int 10 = int ?k" by simp
    have "?d \<noteq> []" using False by (auto simp: backups_def)
    then have "autoDeleteLog s = s\<lparr>log_dir := delete_files (map fst ?b) (int ?k) ?d\<rparr>"
      unfolding autoDeleteLog_def sorted Let_def k using False by simp
    then show ?thesis unfolding delete_files_filter d'_def .
  qed
  have app: "APP_LOG \<notin> ?names" using app_no_backup by (auto simp: backups_def dest!: in_set_takeD)
  have mem: "is_backup n" if "n \<in> ?names" for n using that by (auto simp: backups_def dest!: in_set_takeD)
  have b: "backups d' = drop ?k ?b"
  proof -
    have "backups d' = filter (\<lambda>(n, f). n \<notin> ?names) ?b" by (auto simp: backups_def d'_def intro: filter_cong)
    also have "\<dots> = drop ?k ?b"
    proof -
      have "filter (\<lambda>(n, f). n \<notin> set (take k (map fst b))) b = drop k b" if "distinct (map fst b)" for b :: log_dir and k
        using that
      proof (induction b arbitrary: k)
        case Nil
        then show ?case by simp
      next
        case (Cons x b)
        show ?case
        proof (cases k)
          case 0
          then show ?thesis by (simp add: case_prod_beta)
        next
          case (Suc j)
          have "filter (\<lambda>(n, f). n \<notin> set (take k (map fst (x # b)))) (x # b) = filter (\<lambda>(n, f). n \<notin> set (take j (map fst b))) b"
            using Cons.prems Suc by (cases x) (force intro!: filter_cong)
          then show ?thesis using Cons Suc by simp
        qed
      qed
      then show ?thesis using distb by blast
    qed
    finally show ?thesis .
  qed
  have a: "map_of d' APP_LOG = map_of ?d APP_LOG"
  proof -
    have "map_of (filter (\<lambda>(n, f). n \<notin> N) d) APP_LOG = map_of d APP_LOG" if "APP_LOG \<notin> N" for N and d :: log_dir
      using that by (induction d) auto
    then show ?thesis unfolding d'_def using app by blast
  qed
  have "other_files d' = other_files ?d"
    unfolding other_files_def d'_def filter_filter using mem by (intro filter_cong) auto
  then show "other_files (log_dir (autoDeleteLog s)) = other_files ?d" by (simp add: s')
  show "backups (log_dir (autoDeleteLog s)) = drop ?k ?b" by (simp add: s' b)
  show "app_text (log_dir (autoDeleteLog s)) = app_text ?d" by (simp add: s' app_text_def a)
  show "log_out (autoDeleteLog s) = log_out s" by (simp add: s')
  have "sorted (drop ?k (map (log_mtime \<circ> snd) ?b))" using assms by (intro sorted_wrt_drop) (simp add: log_ok_def)
  moreover have "one_each d'" unfolding one_each_def d'_def using dist by (rule distinct_map_filter)
  ultimately show "log_ok now (autoDeleteLog s)"
    using assms unfolding log_ok_def s' by (auto simp: b a drop_map dest!: in_set_dropD)
qed

lemma messageHandler_ok:
  assumes "log_ok now s" "now \<le> now'"
  shows "log_ok now' (messageHandler now' msg s)" "other_files (log_dir (messageHandler now' msg s)) = other_files (log_dir s)"
    "kept_text (log_dir (messageHandler now' msg s)) = kept_text (log_dir s) @ (if log_out s then msg @ [10] else [])"
    "backups (log_dir (messageHandler now' msg s)) = backups (log_dir s)" "log_out (messageHandler now' msg s) = log_out s"
proof -
  have later: "log_ok now' s" using assms by (fastforce simp: log_ok_def split: option.splits)
  let ?s = "messageHandler now' msg s"
  have "log_ok now' ?s \<and> other_files (log_dir ?s) = other_files (log_dir s) \<and>
      kept_text (log_dir ?s) = kept_text (log_dir s) @ (if log_out s then msg @ [10] else []) \<and>
      backups (log_dir ?s) = backups (log_dir s) \<and> log_out ?s = log_out s"
  proof (cases "log_out s")
    case False
    then show ?thesis using later by (simp add: messageHandler_def)
  next
    case True
    obtain f where f: "map_of (log_dir s) APP_LOG = Some f" using later True by (auto simp: log_ok_def)
    let ?f = "\<lparr>log_text = log_text f @ msg @ [10], log_mtime = now'\<rparr>"
    have e: "?s = s\<lparr>log_dir := AList.update APP_LOG ?f (log_dir s)\<rparr>" using True f by (simp add: messageHandler_def)
    have "\<forall>(n, g)\<in>set (backups (log_dir s)). log_mtime g \<le> now'"
    proof (intro ballI, clarify)
      fix n g assume "(n, g) \<in> set (backups (log_dir s))"
      then have "log_mtime g \<le> log_mtime f" "log_mtime f \<le> now'" using later f by (auto simp: log_ok_def)
      then show "log_mtime g \<le> now'" by simp
    qed
    moreover have "one_each (AList.update APP_LOG ?f (log_dir s))"
      using later by (simp add: log_ok_def one_each_def distinct_update)
    ultimately have "log_ok now' ?s" using later unfolding e by (simp add: log_ok_def update_app update_conv')
    then show ?thesis
      using True f unfolding e by (simp add: update_app kept_update_app(1)[OF f]) (simp add: kept_text_def app_text_def)
  qed
  then show "log_ok now' ?s" "other_files (log_dir ?s) = other_files (log_dir s)"
    "kept_text (log_dir ?s) = kept_text (log_dir s) @ (if log_out s then msg @ [10] else [])"
    "backups (log_dir ?s) = backups (log_dir s)" "log_out ?s = log_out s" by blast+
qed

lemma log_later: "log_ok now s \<Longrightarrow> now \<le> now' \<Longrightarrow> log_ok now' s"
  by (fastforce simp: log_ok_def split: option.splits)

text \<open>What a tick deletes: the oldest of the backups beyond ten.\<close>

lemma log_tick_ok:
  assumes "log_ok now s" "now \<le> now'"
  shows "log_ok now' (log_tick nm opens now' s)" "other_files (log_dir (log_tick nm opens now' s)) = other_files (log_dir s)"
    "\<exists>lost. kept_text (log_dir s) = concat lost @ kept_text (log_dir (log_tick nm opens now' s)) \<and>
      length lost + length (backups (log_dir (log_tick nm opens now' s))) \<le> Suc (length (backups (log_dir s))) \<and>
      (lost = [] \<or> length (backups (log_dir (log_tick nm opens now' s))) = 10)"
    "length (backups (log_dir (log_tick nm opens now' s))) \<le> 10"
    "opens \<Longrightarrow> log_out (log_tick nm opens now' s) = log_out s"
    "10 \<le> length (backups (log_dir s)) \<Longrightarrow> 10 \<le> length (backups (log_dir (log_tick nm opens now' s)))"
proof -
  let ?b = "backupLog nm opens now' s"
  let ?t = "log_tick nm opens now' s"
  note b = backupLog_ok[OF log_later[OF assms], where nm = nm and opens = opens]
  note a = autoDeleteLog_ok[OF b(1)]
  have t: "?t = autoDeleteLog ?b" by (simp add: log_tick_def)
  show "log_ok now' ?t" "other_files (log_dir ?t) = other_files (log_dir s)" "length (backups (log_dir ?t)) \<le> 10"
    unfolding t using a b(2) by (simp_all add: same_logs_def)
  show "log_out ?t = log_out s" if "opens" unfolding t using a(5) b(5) that by simp
  show "10 \<le> length (backups (log_dir ?t))" if "10 \<le> length (backups (log_dir s))" unfolding t a(3) using b(4) that by simp
  let ?k = "length (backups (log_dir ?b)) - 10"
  let ?lost = "take ?k (backup_texts (log_dir ?b))"
  have "kept_text (log_dir s) = kept_text (log_dir ?b)" using b(2) by (simp add: same_logs_def)
  also have "\<dots> = concat ?lost @ kept_text (log_dir ?t)"
  proof -
    have "backup_texts (log_dir ?t) = drop ?k (backup_texts (log_dir ?b))"
      unfolding t backup_texts_def a(3) by (simp add: drop_map)
    then show ?thesis
      unfolding kept_text_def t a(4) by (metis append.assoc append_take_drop_id concat_append)
  qed
  finally have "kept_text (log_dir s) = concat ?lost @ kept_text (log_dir ?t)" .
  moreover have "length ?lost + length (backups (log_dir ?t)) \<le> Suc (length (backups (log_dir s)))"
    unfolding t a(3) using b(3) by (simp add: backup_texts_def)
  moreover have "?lost = [] \<or> length (backups (log_dir ?t)) = 10" unfolding t a(3) by auto
  ultimately show "\<exists>lost. kept_text (log_dir s) = concat lost @ kept_text (log_dir ?t) \<and>
      length lost + length (backups (log_dir ?t)) \<le> Suc (length (backups (log_dir s))) \<and>
      (lost = [] \<or> length (backups (log_dir ?t)) = 10)" by blast
qed

subsection \<open>Claim\<close>

text \<open>Messages, and ticks of the timer with the result of opening the file, each at its time.\<close>

datatype log_event = Message nat cstring | Tick nat bool

fun log_run :: "log_names \<Rightarrow> log_event list \<Rightarrow> log_saver \<Rightarrow> log_saver" where
  "log_run nm [] s = s"
| "log_run nm (Message now msg # es) s = log_run nm es (messageHandler now msg s)"
| "log_run nm (Tick now opens # es) s = log_run nm es (log_tick nm opens now s)"

fun event_time :: "log_event \<Rightarrow> nat" where
  "event_time (Message t msg) = t"
| "event_time (Tick t opens) = t"

fun log_line :: "log_event \<Rightarrow> cstring" where
  "log_line (Message t msg) = msg @ [10]"
| "log_line (Tick t opens) = []"

fun is_tick :: "log_event \<Rightarrow> bool" where
  "is_tick (Message t msg) \<longleftrightarrow> False"
| "is_tick (Tick t opens) \<longleftrightarrow> True"

text \<open>The events are in the order of their times, and \<open>app.log\<close> can always be opened.\<close>

definition log_events_ok :: "nat \<Rightarrow> log_event list \<Rightarrow> bool" where
  "log_events_ok now es \<longleftrightarrow> sorted (now # map event_time es) \<and> list_all (\<lambda>e. case e of Tick _ opens \<Rightarrow> opens | _ \<Rightarrow> True) es"

lemma log_events_Cons:
  "log_events_ok now (e # es) \<longleftrightarrow> now \<le> event_time e \<and> (case e of Tick _ opens \<Rightarrow> opens | _ \<Rightarrow> True) \<and> log_events_ok (event_time e) es"
  by (auto simp: log_events_ok_def split: log_event.splits)

text \<open>What holds after a run: the lost texts are whole files, and files are only lost while ten newer ones are kept.\<close>

definition log_kept :: "log_saver \<Rightarrow> cstring \<Rightarrow> nat \<Rightarrow> log_saver \<Rightarrow> bool" where
  "log_kept s lines ticks s' \<longleftrightarrow> (\<exists>lost.
     kept_text (log_dir s) @ lines = concat lost @ kept_text (log_dir s') \<and>
     length lost + length (backups (log_dir s')) \<le> length (backups (log_dir s)) + ticks \<and>
     (lost \<noteq> [] \<longrightarrow> 10 \<le> length (backups (log_dir s'))))"

text \<open>Backups are only deleted by a tick that leaves ten.\<close>

lemma log_run_ok:
  assumes "log_ok now s" "log_out s" "log_events_ok now es"
  shows "\<exists>now'. log_ok now' (log_run nm es s) \<and> log_out (log_run nm es s) \<and>
    other_files (log_dir (log_run nm es s)) = other_files (log_dir s) \<and>
    log_kept s (concat (map log_line es)) (length (filter is_tick es)) (log_run nm es s) \<and>
    (es \<noteq> [] \<and> is_tick (last es) \<longrightarrow> length (backups (log_dir (log_run nm es s))) \<le> 10) \<and>
    (10 \<le> length (backups (log_dir s)) \<longrightarrow> 10 \<le> length (backups (log_dir (log_run nm es s))))"
  using assms
proof (induction es arbitrary: now s)
  case Nil
  then show ?case by (auto simp: log_kept_def intro: exI[of _ "[]"])
next
  case (Cons e es)
  have ok: "now \<le> event_time e" "log_events_ok (event_time e) es" using Cons.prems(3) by (simp_all add: log_events_Cons)
  let ?run = "log_run nm es"
  show ?case
  proof (cases e)
    case (Message t msg)
    let ?s = "messageHandler t msg s"
    note m = messageHandler_ok[OF Cons.prems(1), of t msg]
    have t: "now \<le> t" "event_time e = t" using ok Message by simp_all
    obtain now' where r: "log_ok now' (?run ?s)" "log_out (?run ?s)" "other_files (log_dir (?run ?s)) = other_files (log_dir ?s)"
      "log_kept ?s (concat (map log_line es)) (length (filter is_tick es)) (?run ?s)"
      "es \<noteq> [] \<and> is_tick (last es) \<longrightarrow> length (backups (log_dir (?run ?s))) \<le> 10"
      "10 \<le> length (backups (log_dir ?s)) \<longrightarrow> 10 \<le> length (backups (log_dir (?run ?s)))"
      using Cons.IH[of t ?s] m(1,5) Cons.prems(2) ok(2) t by auto
    have "log_kept s (concat (map log_line (e # es))) (length (filter is_tick (e # es))) (?run ?s)"
      using r(4) m(3,4)[OF t(1)] Cons.prems(2) Message by (simp add: log_kept_def)
    then show ?thesis using r m(2,4)[OF t(1)] Message by auto
  next
    case (Tick t opens)
    let ?s = "log_tick nm opens t s"
    have t: "now \<le> t" "event_time e = t" "opens" using ok Tick Cons.prems(3) by (simp_all add: log_events_Cons)
    note k = log_tick_ok[OF Cons.prems(1) t(1), where nm = nm and opens = opens]
    obtain now' where r: "log_ok now' (?run ?s)" "log_out (?run ?s)" "other_files (log_dir (?run ?s)) = other_files (log_dir ?s)"
      "log_kept ?s (concat (map log_line es)) (length (filter is_tick es)) (?run ?s)"
      "es \<noteq> [] \<and> is_tick (last es) \<longrightarrow> length (backups (log_dir (?run ?s))) \<le> 10"
      "10 \<le> length (backups (log_dir ?s)) \<longrightarrow> 10 \<le> length (backups (log_dir (?run ?s)))"
      using Cons.IH[OF k(1)] k(5)[OF t(3)] Cons.prems(2) ok(2) t(2) by auto
    obtain l1 where l1: "kept_text (log_dir s) = concat l1 @ kept_text (log_dir ?s)"
      "length l1 + length (backups (log_dir ?s)) \<le> Suc (length (backups (log_dir s)))"
      "l1 = [] \<or> length (backups (log_dir ?s)) = 10" using k(3) by blast
    obtain l2 where l2: "kept_text (log_dir ?s) @ concat (map log_line es) = concat l2 @ kept_text (log_dir (?run ?s))"
      "length l2 + length (backups (log_dir (?run ?s))) \<le> length (backups (log_dir ?s)) + length (filter is_tick es)"
      "l2 \<noteq> [] \<longrightarrow> 10 \<le> length (backups (log_dir (?run ?s)))" using r(4) unfolding log_kept_def by blast
    have "log_kept s (concat (map log_line (e # es))) (length (filter is_tick (e # es))) (?run ?s)"
      unfolding log_kept_def
    proof (intro exI conjI)
      show "kept_text (log_dir s) @ concat (map log_line (e # es)) = concat (l1 @ l2) @ kept_text (log_dir (?run ?s))"
        using l1(1) l2(1) Tick by simp
      show "length (l1 @ l2) + length (backups (log_dir (?run ?s))) \<le> length (backups (log_dir s)) + length (filter is_tick (e # es))"
        using l1(2) l2(2) Tick by simp
      show "l1 @ l2 \<noteq> [] \<longrightarrow> 10 \<le> length (backups (log_dir (?run ?s)))" using l1(3) l2(3) r(6) by auto
    qed
    moreover have "10 \<le> length (backups (log_dir s)) \<longrightarrow> 10 \<le> length (backups (log_dir ?s))"
      by (rule impI, rule k(6))
    ultimately show ?thesis using r k(2,4) Tick by auto
  qed
qed

lemma startSaveDir_ok:
  assumes "log_ok now s" "\<not> log_opened s"
  shows "\<exists>s'. startSaveDir nm True now s = (True, s') \<and> log_ok now s' \<and> log_out s' \<and> same_logs (log_dir s) (log_dir s') \<and>
    length (backups (log_dir s')) \<le> Suc (length (backups (log_dir s)))"
proof -
  obtain s1 where s1: "initLogFile True now s = (True, s1)" "log_ok now s1" "log_out s1" "same_logs (log_dir s) (log_dir s1)"
    "backups (log_dir s1) = backups (log_dir s)"
    using initLogFile_ok[OF assms, of True] by (cases "initLogFile True now s") auto
  then show ?thesis
    using backupLog_ok[OF s1(2), where nm = nm and opens = True] by (simp add: startSaveDir_def same_logs_def)
qed

text \<open>
  C13: The log of the server, from its start over any sequence of messages and ticks of the timer in the order of their
  times, provided that \<open>app.log\<close> can be opened at the start and at every renaming (otherwise the messages from then on
  are dropped, \<open>log_stops\<close>): the saver starts; every line is kept in \<open>app.log\<close> or a backup, in the order in
  which they came, except for the texts of the oldest files, which are only lost while ten newer backups are kept;
  there are never more backups and lost files than there were backups and renamings; after a tick there are at most
  ten backups; and no other file of the folder, that is none whose name does not start with \<open>app.log.\<close> in any case of
  the letters, is touched.
\<close>

theorem log_lines_kept:
  assumes "log_ok now s" "\<not> log_opened s" "log_events_ok now es"
  shows "\<exists>s'. startSaveDir nm True now s = (True, s') \<and>
    log_kept s (concat (map log_line es)) (Suc (length (filter is_tick es))) (log_run nm es s') \<and>
    other_files (log_dir (log_run nm es s')) = other_files (log_dir s) \<and>
    (es \<noteq> [] \<and> is_tick (last es) \<longrightarrow> length (backups (log_dir (log_run nm es s'))) \<le> 10)"
proof -
  obtain s' where s': "startSaveDir nm True now s = (True, s')" "log_ok now s'" "log_out s'" "same_logs (log_dir s) (log_dir s')"
    "length (backups (log_dir s')) \<le> Suc (length (backups (log_dir s)))" using startSaveDir_ok[OF assms(1,2)] by blast
  note r = log_run_ok[OF s'(2,3) assms(3), of nm]
  have "log_kept s (concat (map log_line es)) (Suc (length (filter is_tick es))) (log_run nm es s')"
  proof -
    have "log_kept s' (concat (map log_line es)) (length (filter is_tick es)) (log_run nm es s')" using r by blast
    then obtain lost where "kept_text (log_dir s) @ concat (map log_line es) = concat lost @ kept_text (log_dir (log_run nm es s'))"
      "length lost + length (backups (log_dir (log_run nm es s'))) \<le> length (backups (log_dir s')) + length (filter is_tick es)"
      "lost \<noteq> [] \<longrightarrow> 10 \<le> length (backups (log_dir (log_run nm es s')))"
      using s'(4) unfolding log_kept_def same_logs_def by (elim exE conjE) simp
    then show ?thesis using s'(5) unfolding log_kept_def by (intro exI[of _ lost]) simp
  qed
  then show ?thesis using r s'(1,4) by (auto simp: same_logs_def)
qed

text \<open>A log of the day before and an index file.\<close>

definition decimal_days :: "nat \<Rightarrow> cstring" where
  "decimal_days n = [of_nat (48 + n mod 10)]"

definition sample_log :: log_saver where
  "sample_log = \<lparr>log_dir = [(APP_LOG, \<lparr>log_text = [65, 10], log_mtime = 5\<rparr>), ([97, 46, 108, 102, 116], \<lparr>log_text = [1], log_mtime = 9\<rparr>)],
     log_opened = False, log_out = False, log_created = 0\<rparr>"

theorem log_lines_kept_witness:
  "\<exists>s'. startSaveDir \<lparr>date_text = decimal_days, clock_text = decimal_days\<rparr> True 90000 sample_log = (True, s') \<and>
    log_kept sample_log [66, 10] 2 (log_run \<lparr>date_text = decimal_days, clock_text = decimal_days\<rparr> [Message 90001 [66], Tick 90180 True] s') \<and>
    other_files (log_dir (log_run \<lparr>date_text = decimal_days, clock_text = decimal_days\<rparr> [Message 90001 [66], Tick 90180 True] s')) =
      [([97, 46, 108, 102, 116], \<lparr>log_text = [1], log_mtime = 9\<rparr>)] \<and>
    length (backups (log_dir (log_run \<lparr>date_text = decimal_days, clock_text = decimal_days\<rparr> [Message 90001 [66], Tick 90180 True] s'))) \<le> 10"
proof -
  have "log_ok 90000 sample_log" "\<not> log_opened sample_log"
    by (simp_all add: sample_log_def log_ok_def one_each_def backups_def is_backup_def ascii_lower_def APP_LOG_def backup_prefix_def starts_with_def)
  moreover have "log_events_ok 90000 [Message 90001 [66], Tick 90180 True]" by (simp add: log_events_ok_def)
  moreover have "other_files (log_dir sample_log) = [([97, 46, 108, 102, 116], \<lparr>log_text = [1], log_mtime = 9\<rparr>)]"
    by (simp add: sample_log_def other_files_def is_backup_def ascii_lower_def APP_LOG_def backup_prefix_def starts_with_def)
  ultimately show ?thesis
    using log_lines_kept[of 90000 sample_log "[Message 90001 [66], Tick 90180 True]" "\<lparr>date_text = decimal_days, clock_text = decimal_days\<rparr>"]
    by (simp add: numeral_2_eq_2)
qed

text \<open>Once the file could not be opened no message is logged any more, as \<open>logFile\<close> stays set and the opening is not
  tried again.\<close>

lemma log_stops:
  assumes "log_opened s" "\<not> log_out s"
  shows "log_run nm es s = s\<lparr>log_dir := log_dir (log_run nm es s)\<rparr> \<and> \<not> log_out (log_run nm es s)"
  using assms
proof (induction nm es s rule: log_run.induct)
  case (3 nm now opens es s)
  then have "log_tick nm opens now s = s\<lparr>log_dir := log_dir (log_tick nm opens now s)\<rparr>"
    by (simp add: log_tick_def backupLog_def autoDeleteLog_def Let_def)
  moreover from this have "log_opened (log_tick nm opens now s)" "\<not> log_out (log_tick nm opens now s)"
    using 3(2,3) by (metis log_saver.ext_inject log_saver.surjective log_saver.update_convs(1))+
  ultimately show ?case using 3(1) by (metis log_run.simps(3) log_saver.ext_inject log_saver.surjective log_saver.update_convs(1))
qed (simp_all add: messageHandler_def)

end
