(* ===== verification/Lft_Cpu.thy ===== *)
theory Lft_Cpu
  imports Complex_Main Prelude
begin

text \<open>
  The use of the processor by the server: its measurement (\<open>src/src/library/src/resourceutil.c\<close>) and the limit that
  \<open>_cpuLimitCheck\<close> (\<open>src/src/server/backend/lib/lftmanager.cpp\<close>) sets every ten seconds.  A \<open>double\<close> is a rational
  number; rounding is not modelled.
\<close>

subsection \<open>Measuring\<close>

record timespec =
  tv_sec :: int
  tv_nsec :: int

record process_cpu_usage =
  user_usage :: rat
  kernel_usage :: rat
  total_usage :: rat
  measured_at :: timespec

record cpu_measured =
  last_measured_at :: timespec
  last_measured_total_usage :: rat

text \<open>\<open>opens\<close>: \<open>/proc/<pid>/stat\<close> can be opened; \<open>ticks\<close>: the two numbers that are read from it.  The result is false and
  what was set of the usage is kept.\<close>

definition get_process_info :: "nat \<Rightarrow> bool \<Rightarrow> (nat \<times> nat) option \<Rightarrow> timespec \<Rightarrow> process_cpu_usage option" where
  "get_process_info clock_ticks opens ticks now =
    (if \<not> opens then None
     else case ticks of None \<Rightarrow> None
       | Some (total_user_time, total_kernel_time) \<Rightarrow>
         let u = of_nat total_user_time / of_nat clock_ticks; k = of_nat total_kernel_time / of_nat clock_ticks
         in Some \<lparr>user_usage = u, kernel_usage = k, total_usage = u + k, measured_at = now\<rparr>)"

definition get_time_diff :: "timespec \<Rightarrow> timespec \<Rightarrow> rat" where
  "get_time_diff t0 t1 =
    (let diff = of_int (tv_sec t1 - tv_sec t0) in
     if tv_nsec t1 < tv_nsec t0 then diff + (of_int (1000000000 - tv_nsec t0 + tv_nsec t1) / 1000000000 - 1)
     else diff + of_int (tv_nsec t1 - tv_nsec t0) / 1000000000)"

text \<open>The result of \<open>get_process_info\<close> is ignored; without one the usage is read without a value.\<close>

definition get_pid_cpupercent :: "process_cpu_usage option \<Rightarrow> cpu_measured \<Rightarrow> (rat \<times> cpu_measured) option" where
  "get_pid_cpupercent info m = do {
     usage \<leftarrow> info;
     Some (100 * (total_usage usage - last_measured_total_usage m) / get_time_diff (last_measured_at m) (measured_at usage),
       \<lparr>last_measured_at = measured_at usage, last_measured_total_usage = total_usage usage\<rparr>) }"

definition seconds :: "timespec \<Rightarrow> rat" where
  "seconds t = of_int (tv_sec t) + of_int (tv_nsec t) / 1000000000"

lemma get_time_diff_exact: "get_time_diff t0 t1 = seconds t1 - seconds t0"
  by (simp add: get_time_diff_def seconds_def Let_def field_simps)

subsection \<open>Limiting\<close>

datatype cpu_action = Set_quota "nat option" | Exit

record cpu_limit =
  cpu_row_count :: nat
  cpu_limited :: bool

text \<open>\<open>keep\<close>: the file that forbids the exit exists.\<close>

definition cpuLimitCheck :: "bool \<Rightarrow> rat \<Rightarrow> cpu_limit \<Rightarrow> cpu_action list \<times> cpu_limit" where
  "cpuLimitCheck keep current_cpu s =
    (let high_use = 85; low_use = 30 in
     if current_cpu < low_use \<and> \<not> cpu_limited s then ([], s\<lparr>cpu_row_count := 0\<rparr>)
     else
       let s = (if current_cpu > high_use \<or> current_cpu < low_use then s\<lparr>cpu_row_count := cpu_row_count s + 1\<rparr>
                else if cpu_row_count s > 0 then s\<lparr>cpu_row_count := cpu_row_count s - 1\<rparr> else s)
       in if cpu_row_count s > 2 then
            let (as, s) = (if current_cpu > high_use then
                 (Set_quota (Some 50) # (if keep then [] else [Exit]), s\<lparr>cpu_limited := True\<rparr>)
               else if current_cpu < low_use then ([Set_quota None], s\<lparr>cpu_limited := False\<rparr>)
               else ([], s))
            in (as, s\<lparr>cpu_row_count := 0\<rparr>)
          else ([], s))"

fun cpu_checks :: "bool \<Rightarrow> rat list \<Rightarrow> cpu_limit \<Rightarrow> cpu_action list \<times> cpu_limit" where
  "cpu_checks keep [] s = ([], s)"
| "cpu_checks keep (c # cs) s =
    (let (as, s) = cpuLimitCheck keep c s; (bs, s) = cpu_checks keep cs s in (as @ bs, s))"

text \<open>The counter, an unsigned number, never exceeds 2.\<close>

definition cpu_ok :: "cpu_limit \<Rightarrow> bool" where
  "cpu_ok s \<longleftrightarrow> cpu_row_count s \<le> 2"

lemma cpuLimitCheck_ok: "cpu_ok s \<Longrightarrow> cpu_ok (snd (cpuLimitCheck keep c s))"
  by (auto simp: cpu_ok_def cpuLimitCheck_def Let_def)

text \<open>While the server is not limited nothing is done before three readings above 85, and one below 30 starts the count
  anew.\<close>

lemma action_needs_high:
  assumes "cpu_ok s" "\<not> cpu_limited s" "fst (cpuLimitCheck keep c s) \<noteq> []"
  shows "c > 85 \<and> cpu_row_count s = 2 \<and> cpu_limited (snd (cpuLimitCheck keep c s))"
  using assms by (auto simp: cpu_ok_def cpuLimitCheck_def Let_def split: if_splits)

lemma low_resets: "c < 30 \<Longrightarrow> \<not> cpu_limited s \<Longrightarrow> cpuLimitCheck keep c s = ([], s\<lparr>cpu_row_count := 0\<rparr>)"
  by (simp add: cpuLimitCheck_def)

lemma short_load_ignored:
  assumes "cpu_ok s" "cpu_row_count s = 0" "\<not> cpu_limited s" "length (filter (\<lambda>c. c > 85) cs) \<le> 2"
  shows "fst (cpu_checks keep cs s) = []"
proof -
  have "fst (cpu_checks keep cs s) = []"
    if "cpu_ok s" "\<not> cpu_limited s" "cpu_row_count s + length (filter (\<lambda>c. c > 85) cs) \<le> 2" for s
    using that
  proof (induction cs arbitrary: s)
    case Nil
    then show ?case by simp
  next
    case (Cons c cs)
    have a: "fst (cpuLimitCheck keep c s) = []"
    proof (rule ccontr)
      assume "fst (cpuLimitCheck keep c s) \<noteq> []"
      from action_needs_high[OF Cons.prems(1,2) this] Cons.prems(3) show False by simp
    qed
    obtain s1 where s1: "cpuLimitCheck keep c s = ([], s1)" using a by (cases "cpuLimitCheck keep c s") simp
    have "cpu_ok s1" using cpuLimitCheck_ok[OF Cons.prems(1), of keep c] s1 by simp
    moreover have "\<not> cpu_limited s1" "cpu_row_count s1 + length (filter (\<lambda>c. c > 85) cs) \<le> 2"
      using s1 Cons.prems by (auto simp: cpuLimitCheck_def cpu_ok_def Let_def split: if_splits)
    ultimately have "fst (cpu_checks keep cs s1) = []" by (rule Cons.IH)
    then show ?case using s1 by (simp add: case_prod_beta)
  qed
  then show ?thesis using assms by simp
qed

text \<open>The counter of a limited server counts readings above 85 and below 30 alike: after two high ones a single low
  one takes the limit away.\<close>

lemma high_then_low_unlimits:
  "cpu_checks True [90, 90, 10] \<lparr>cpu_row_count = 0, cpu_limited = True\<rparr> = ([Set_quota None], \<lparr>cpu_row_count = 0, cpu_limited = False\<rparr>)"
  by (simp add: cpuLimitCheck_def)

end
