(* ===== verification/Spec2Isabelle.thy ===== *)
theory Spec2Isabelle
  imports Event_Claims Index_Claims Search_Claims Search_Pieces Kernel_Claims Module_Claims Mount_Search Thread_Pool
    Lft_Claims Event_Flow Lft_Search_Folder Pinyin Cli_Main Mon_Flow Log_Saver Lft_Cpu
begin

text \<open>
  Verification of deepin-anything, the file search of the deepin desktop.

  \<^bold>\<open>The program.\<close>  A kernel module sees every creation, deletion and renaming of a file and sends it as an
  event to a server.  The server holds, for every mounted partition, an index of all names in one
  block of memory, changes it with every event, writes it to a file from time to time, and searches it
  for its clients on the bus.  The library \<open>src/src/library\<close> has the index, the walk over the disk that fills it,
  an index of keywords, and the search.

  \<^bold>\<open>From the disk to the search\<close> the theories follow the data:

  \<^item> The index, \<open>library/src/fs_buf.c\<close>.  \<open>Fs_Buf\<close> models the record and every operation on the bytes with the names
    of the C functions; \<open>Fs_File\<close> the file format; \<open>Fs_Search\<close> and \<open>Fs_Parallel\<close> the scan, the rules and the
    parallel search.  \<open>Linear_Tree\<close>, \<open>Tree_Position\<close> and \<open>Tree_Paths\<close> are the specification: a forest of names, its
    layout as bytes, positions in it, and insertion, removal and renaming at a path.
    \<open>Fs_Entry\<close>, \<open>Fs_Repair\<close>, \<open>Fs_Climb\<close>, \<open>Fs_Region\<close>, \<open>Fs_Lookup\<close>, \<open>Fs_Offsets\<close>, \<open>Fs_Grow\<close> show what each reader and writer
    does at a position, up to the repair of all relative offsets after a change; \<open>Fs_State\<close> defines \<open>represents\<close>, the relation
    between a buffer and its forest; \<open>Fs_Insert\<close>, \<open>Fs_Insert_Path\<close>, \<open>Fs_Remove\<close>, \<open>Fs_Remove_Path\<close>, \<open>Fs_Rename\<close> and \<open>Fs_Path\<close>
    prove the operations, \<open>Fs_Room\<close> when the memory suffices for them, and \<open>Fs_Claims\<close> states what the exported functions promise.  \<open>Search_Layout\<close>,
    \<open>Search_Props\<close>, \<open>Search_Claims\<close> and \<open>Search_Pieces\<close> do the same for the search.
  \<^item> The walk, \<open>library/src/walkdir.c\<close>: \<open>Walk_Dir\<close>, proved to write the forest \<open>disk_kids\<close> of a disk, which uses the filter of
    the code; \<open>Disk_Spec\<close> says what belongs to an index without that filter (\<open>names_below\<close>, \<open>left_out\<close>) and
    proves that the two agree where no name only starts like a mount point.
  \<^item> The keyword index, \<open>library/src/index/*.c\<close>: \<open>Index_Base\<close>, \<open>Index_Mem\<close>, \<open>Index_File\<close>; as a map from keywords to
    sets of offsets in \<open>Index_Props\<close>, its file in \<open>Index_Round\<close>, the theorems in \<open>Index_Claims\<close>.
  \<^item> The helpers: \<open>Mount_Search\<close> (\<open>find_matching_dir\<close> of \<open>library/src/utils.c\<close>), \<open>Pinyin\<close>
    (\<open>library/src/chinese/pinyin.c\<close>), \<open>Thread_Pool\<close> (\<open>3rdparty/fsearch/thread_pool.c\<close>, as a machine whose steps are
    the sections under the mutex).
  \<^item> The kernel module, \<open>src/src/kernelmod\<close>.  \<open>Event_Merge\<close> is the buffer that merges events (\<open>event_merge.c\<close>),
    \<open>Event_Safety\<close> its memory safety, \<open>Event_Relation\<close>, \<open>Event_Run\<close> and \<open>Event_Machine\<close> its runs, and
    \<open>Event_Claims\<close> what follows.  \<open>Vfs_Kretprobes\<close> has the handlers of the return probes and \<open>Krp_Machine\<close> any
    number of them at the same time, proved to be a run of the buffer as long as fewer than \<open>2\<^sup>3\<^sup>2\<close> renames have drawn a
    cookie; \<open>Vfs_Fsnotify\<close> the other source of events;
    \<open>Vfs_Sysfs\<close> the watched devices; \<open>Vfs_Genl\<close> the message to the server and its receiver
    (\<open>server/backend/eventsource_genl.cpp\<close>); \<open>Vfs_Module\<close> loading, and unloading as a machine with the callback of
    the timer beside it.  The theorems are in \<open>Kernel_Claims\<close>
    and \<open>Module_Claims\<close>.
  \<^item> The server, \<open>src/src/server/backend\<close>.  \<open>Mount_Cacher\<close> is the table of mounts (\<open>lib/mountcacher.cpp\<close>),
    \<open>Lft_Disk_Tool\<close> the names of index files (\<open>lib/lftdisktool.cpp\<close>), \<open>Event_Adaptor\<close> the queue between the
    threads (\<open>server.cpp\<close>, \<open>lib/eventadaptor.cpp\<close>).  The class \<open>LFTManager\<close> (\<open>lib/lftmanager.cpp\<close>) is split by subject:
    \<open>Lft_State\<close> its maps and the handling of events, \<open>Lft_Build\<close> the build jobs and the writing of
    files, \<open>Lft_Manage\<close> the handlers of mounts, devices and settings, \<open>Lft_Rules\<close> the rules of a search as
    texts, \<open>Lft_Search\<close> the search.  \<open>Lft_Events\<close> follows an index under a sequence of events, and
    \<open>Event_Flow\<close> from the messages of the kernel through the queue to the indexes.  \<open>Lft_Safety\<close> and \<open>Lft_Machine\<close> have the invariant and the machine of all handlers;
    \<open>Lft_Claims\<close>, \<open>Lft_Search_Claims\<close> and \<open>Lft_Search_Folder\<close> the theorems.
  \<^item> The command line tool, \<open>src/src/cli/src\<close>.  \<open>Cli_Search\<close> has its searches and the index of all names that \<open>scan\<close>
    makes, \<open>Cli_Find\<close> shows that searching with and without the index agrees, and \<open>Cli_Main\<close> has the commands, the console
    and the way from the disk through the files and back.
  \<^item> The monitor, \<open>src/examples/deepin-anything-monitor\<close>, a window that shows the events.  \<open>Mon_Devices\<close> has its tree of
    block devices, objects on an explicit heap, \<open>Mon_Tree\<close> and \<open>Mon_Update\<close> what a reading of \<open>lsblk\<close> does to it, \<open>Mon_Events\<close>
    the receiving thread and the table of events, \<open>Mon_Flow\<close> their composition.
  \<^item> \<open>Log_Saver\<close> models the log files of the server (\<open>lib/logsaver.cpp\<close>), \<open>Lft_Cpu\<close> the measurement and the limit of its
    use of the processor (\<open>resourceutil.c\<close>, \<open>lib/lftmanager.cpp\<close>).

  \<^bold>\<open>Conventions.\<close>  \<open>Prelude\<close> has the memory: bytes in a list, read and written with checked bounds.  A result
  \<open>None\<close> always is an execution without a defined result - an access outside of a block or to freed memory, a lock
  taken twice, a loop that does not end - so a theorem with the conclusion \<open>f x = Some y\<close> says that the code
  is memory safe there and returns.  Errors that the code reports are values.  Numbers of 32 bits are words and wrap; pointers
  are natural numbers, since the code computes with them in 64 bits.  \<open>Qt_Map\<close> is \<open>QMap\<close> with its laws in the locale
  \<open>ordered_map\<close>, interpreted on the model; \<open>QString\<close> is the list of its bytes in the local encoding, which \<open>fromLocal8Bit\<close> and
  \<open>toLocal8Bit\<close> convert without loss for names in UTF-8.

  \<^bold>\<open>Loops.\<close>  A loop over a list is structural recursion; a loop that ends by a measure is a \<open>function\<close>; the loops of which it is
  not plain that they end (over the tags of a buffer, over mount points, over the turns of a search, the walk
  over a disk) are \<open>partial_function (option)\<close>, so that their theorems prove that they return, without fuel.  The depth
  bound \<open>n\<close> of \<open>disk_kids\<close> and \<open>names_below\<close> belongs to the specification of a disk only: any depth that the disk has is
  allowed.

  \<^bold>\<open>What is shown.\<close>  Under the claims of the theories above: each change of an index is the change of
  the forest, or an error that leaves it alone (\<open>Fs_Claims\<close>); so does each event of a sequence with the index of
  its mount (\<open>Lft_Events\<close>), however the threads interleave (\<open>Event_Flow\<close>); a build yields exactly the names that belong to the index and is taken over without a dangling pointer (\<open>Lft_Claims\<close>); a
  search returns the first hundred matching names below its folder in order (\<open>Search_Claims\<close>, \<open>Lft_Search_Folder\<close>); files are
  read back as they were written; the event buffer of the kernel neither leaks nor overflows nor uses freed memory in any
  run in which each rename has its own cookie, also with all probes interleaved (\<open>Event_Claims\<close>, \<open>Kernel_Claims\<close>); the monitor
  shows the events that pass its filters (\<open>Mon_Flow\<close>), and no line of the log is lost while it is among the ten newest files and
  the log can be opened (\<open>Log_Saver\<close>).  The text of each theorem names its conditions.  Where the code fails outside of
  them, a lemma with a concrete run documents it: \<open>wrapped_cookie_dangles\<close> (the counter of the cookies wraps),
  \<open>unloaded_while_sending\<close> (nothing waits for the callback of the timer), \<open>listed_twice_dangles\<close> (a device that is mounted on
  itself), \<open>homework_left_out\<close> (a name that starts like a mount point), \<open>case_found_without_index\<close> (the two searches of the tool
  differ in the case), \<open>cut_behind_the_root\<close> (a mounted folder with a name beyond ASCII), \<open>loop_devices_deleted_twice\<close> (loop1 and
  loop10), \<open>log_stops\<close> (the log cannot be opened), and others at their places in the theories.

  \<^bold>\<open>Parameters.\<close>  The kernel's path functions, libmount, UDisks2, the file system, the memory allocator, \<open>pcre2\<close>, \<open>iconv\<close> and
  the clock are arguments of the definitions; what a theorem needs of them is a hypothesis of its statement, and a witness
  instantiates them: libmount answers NULL for a path that does not exist (\<open>mnt_contract\<close>), UDisks2 knows a device under one id
  (\<open>udisks_ok\<close>), the roots of the mounts are absolute (\<open>mounts_ok\<close>), \<open>regcomp\<close> of a query without special characters
  ignores the case and nothing else (\<open>regcomp_ok\<close>), the allocator may fail unless a theorem says otherwise.

  \<^bold>\<open>Not modelled.\<close>  The format of log messages, the settings file, the cache folder, timers and the construction of threads; polkit, of which only the
  answer is used; the D-Bus adaptor, which is generated; \<open>iconv\<close> in \<open>utils.c\<close>; freeing a whole
  keyword index, because its arrays have no addresses here; the connection of the netlink socket; control groups; and the description of
  windows in QML.
\<close>

end
